(* ===== verification/CPrelude.thy ===== *)
theory CPrelude
  imports Main "HOL-Library.Word" "HOL-Library.Char_ord" "HOL-Library.Sublist" "HOL-Library.Monad_Syntax"
    "HOL-Library.Multiset"
begin

text \<open>
  Shared vocabulary of the development.

  A C computation that can meet undefined behaviour (an access outside an object, the
  dereference of a null pointer, the use of a value that was never set) is an
  \<open>'a option\<close>: \<open>None\<close> is undefined behaviour (or a loop that does not return),
  \<open>Some\<close> the value computed.

  A NUL-terminated string \<open>char *s\<close> is the list of the bytes before its terminator, so
  \<open>strlen(s)\<close> is \<^const>\<open>length\<close>; reading the byte at index \<open>length s\<close> gives the
  terminator and reading beyond it is undefined.  A fixed-size buffer is the list of all its
  bytes.
\<close>

section \<open>Results that may be undefined\<close>

named_theorems c_defs \<comment> \<open>definitions of the model that the component proofs unfold\<close>

text \<open>The \<open>for\<close> loop whose body may be undefined: a fold in the option monad.\<close>

fun ofold :: "('a \<Rightarrow> 's \<Rightarrow> 's option) \<Rightarrow> 'a list \<Rightarrow> 's \<Rightarrow> 's option" where
  "ofold f [] s = Some s"
| "ofold f (x # xs) s = do { s' \<leftarrow> f x s; ofold f xs s' }"

lemma ofold_append: "ofold f (xs @ ys) s = do { s' \<leftarrow> ofold f xs s; ofold f ys s' }"
  by (induction xs arbitrary: s) (auto split: Option.bind_splits)

lemma ofold_cong:
  "(\<And>x s. x \<in> set xs \<Longrightarrow> f x s = g x s) \<Longrightarrow> ofold f xs s = ofold g xs s"
  by (induction xs arbitrary: s) (auto simp: fun_eq_iff intro!: Option.bind_cong)

lemma ofold_map: "ofold f (map h xs) s = ofold (\<lambda>x. f (h x)) xs s"
  by (induction xs arbitrary: s) (auto intro!: Option.bind_cong)

text \<open>
  The loop rule: an invariant indexed by the elements already done; every iteration returns
  and keeps it, so the loop returns and the invariant holds for the whole list.
\<close>

lemma ofold_rule:
  assumes "I [] s"
    and "\<And>done x todo s. xs = done @ x # todo \<Longrightarrow> I done s \<Longrightarrow> \<exists>s'. f x s = Some s' \<and> I (done @ [x]) s'"
  shows "\<exists>s'. ofold f xs s = Some s' \<and> I xs s'"
proof -
  have "I done s \<Longrightarrow> xs = done @ todo \<Longrightarrow> \<exists>s'. ofold f todo s = Some s' \<and> I xs s'" for "done" todo s
  proof (induction todo arbitrary: "done" s)
    case Nil
    then show ?case by simp
  next
    case (Cons x todo)
    from assms(2) [OF Cons.prems(2) Cons.prems(1)] obtain s'
      where "f x s = Some s'" and "I (done @ [x]) s'" by blast
    moreover from Cons.IH [OF this(2)] Cons.prems(2)
    obtain s'' where "ofold f todo s' = Some s''" "I xs s''" by auto
    ultimately show ?case by simp
  qed
  from this [of "[]" s xs] assms(1) show ?thesis by simp
qed

lemma bind_Some_iff: "(do { x \<leftarrow> m; f x }) = Some y \<longleftrightarrow> (\<exists>x. m = Some x \<and> f x = Some y)"
  by (cases m) auto

lemma bind_None_iff: "(do { x \<leftarrow> m; f x }) = None \<longleftrightarrow> (\<forall>x. m = Some x \<longrightarrow> f x = None)"
  by (cases m) auto

section \<open>NUL-terminated strings\<close>

abbreviation NUL :: char where "NUL \<equiv> CHR 0x00"

definition sat :: "string \<Rightarrow> nat \<Rightarrow> char option" where
  \<comment> \<open>the byte \<open>s[i]\<close> of a NUL-terminated string\<close>
  "sat s i = (if i < length s then Some (s ! i) else if i = length s then Some NUL else None)"

lemma sat_less [simp]: "i < length s \<Longrightarrow> sat s i = Some (s ! i)"
  by (simp add: sat_def)

lemma sat_end [simp]: "sat s (length s) = Some NUL"
  by (simp add: sat_def)

lemma sat_beyond [simp]: "length s < i \<Longrightarrow> sat s i = None"
  by (simp add: sat_def)

lemma sat_le: "i \<le> length s \<Longrightarrow> \<exists>c. sat s i = Some c"
  by (simp add: sat_def)

lemma sat_Cons_Suc [simp]: "sat (c # s) (Suc i) = sat s i"
  by (auto simp: sat_def)

lemma sat_Cons_0 [simp]: "sat (c # s) 0 = Some c"
  by (simp add: sat_def)

lemma sat_Nil_0 [simp]: "sat [] 0 = Some NUL"
  by (simp add: sat_def)

lemma sat_drop: "k \<le> length s \<Longrightarrow> sat (drop k s) i = sat s (k + i)"
  by (auto simp: sat_def)

text \<open>The string held by a buffer: the bytes before the first NUL.\<close>

definition cstr :: "char list \<Rightarrow> string" where
  "cstr b = takeWhile (\<lambda>c. c \<noteq> NUL) b"

lemma NUL_notin_cstr [simp]: "NUL \<notin> set (cstr b)"
  by (auto simp: cstr_def dest: set_takeWhileD)

lemma cstr_id [simp]: "NUL \<notin> set s \<Longrightarrow> cstr s = s"
  by (auto simp: cstr_def takeWhile_eq_all_conv)

lemma cstr_append: "NUL \<notin> set s \<Longrightarrow> cstr (s @ t) = s @ cstr t"
  unfolding cstr_def by (induction s) auto

lemma cstr_NUL [simp]: "cstr (NUL # t) = []"
  by (simp add: cstr_def)

lemma cstr_replicate_NUL [simp]: "cstr (replicate n NUL) = []"
  by (cases n) (simp_all add: cstr_def)

text \<open>
  A buffer used as a string: undefined when it has no terminator.  \<open>strcmp0\<close> is
  \<open>strcmp(a, b) == 0\<close> on two buffers, reading up to the first difference.
\<close>

definition buf_str :: "char list \<Rightarrow> string option" where
  "buf_str b = (if NUL \<in> set b then Some (cstr b) else None)"

lemma buf_str_pad [simp]: "NUL \<notin> set s \<Longrightarrow> 0 < n \<Longrightarrow> buf_str (s @ replicate n NUL) = Some s"
  by (simp add: buf_str_def cstr_append)

fun strcmp0 :: "char list \<Rightarrow> char list \<Rightarrow> bool option" where
  "strcmp0 (a # as) (b # bs) =
     (if a \<noteq> b then Some False else if a = NUL then Some True else strcmp0 as bs)"
| "strcmp0 _ _ = None"

lemma cstr_Cons: "cstr (c # s) = (if c = NUL then [] else c # cstr s)"
  by (simp add: cstr_def)

lemma strcmp0_terminated:
  "NUL \<in> set a \<Longrightarrow> NUL \<in> set b \<Longrightarrow> strcmp0 a b = Some (cstr a = cstr b)"
  by (induction a b rule: strcmp0.induct) (auto simp: cstr_Cons)

text \<open>\<open>strcspn(s, reject)\<close>, \<open>strchr\<close> and \<open>strstr\<close> as indices into the string.\<close>

definition strcspn :: "string \<Rightarrow> string \<Rightarrow> nat" where
  "strcspn s reject = length (takeWhile (\<lambda>c. c \<notin> set reject) s)"

definition strchr :: "string \<Rightarrow> char \<Rightarrow> nat option" where
  \<comment> \<open>\<open>None\<close>: the null pointer; \<open>c\<close> is never NUL here\<close>
  "strchr s c = (if c \<in> set s then Some (length (takeWhile (\<lambda>x. x \<noteq> c) s)) else None)"

fun strstr :: "string \<Rightarrow> string \<Rightarrow> nat option" where
  "strstr s t = (if prefix t s then Some 0
     else (case s of [] \<Rightarrow> None | _ # s' \<Rightarrow> map_option Suc (strstr s' t)))"

declare strstr.simps [simp del]

lemma strcspn_le: "strcspn s r \<le> length s"
  by (simp add: strcspn_def length_takeWhile_le)

lemma strchr_Some_iff:
  "strchr s c = Some i \<longleftrightarrow> i < length s \<and> s ! i = c \<and> c \<notin> set (take i s)"
proof (induction s arbitrary: i)
  case Nil
  then show ?case by (simp add: strchr_def)
next
  case (Cons x s)
  show ?case
  proof (cases "x = c")
    case True
    then show ?thesis by (cases i) (auto simp: strchr_def)
  next
    case False
    then show ?thesis using Cons.IH [of "i - 1"]
      by (cases i) (auto simp: strchr_def)
  qed
qed

lemma strchr_None_iff [simp]: "strchr s c = None \<longleftrightarrow> c \<notin> set s"
  by (simp add: strchr_def)

lemma strchr_append [simp]: "c \<notin> set s \<Longrightarrow> strchr (s @ c # t) c = Some (length s)"
  by (auto simp: strchr_Some_iff nth_append)

lemma strstr_Some_prefix: "strstr s t = Some i \<Longrightarrow> prefix t (drop i s) \<and> i \<le> length s"
proof (induction s arbitrary: i)
  case Nil
  then show ?case by (simp add: strstr.simps split: if_splits)
next
  case (Cons c s)
  then show ?case
    by (subst (asm) (2) strstr.simps) (auto split: if_splits)
qed

lemma strstr_None_iff: "strstr s t = None \<longleftrightarrow> \<not> sublist t s"
proof (induction s)
  case Nil
  then show ?case by (simp add: strstr.simps)
next
  case (Cons c s)
  then show ?case
    by (subst strstr.simps) (auto simp: sublist_Cons_right)
qed

section \<open>Decimal numbers\<close>

text \<open>\<open>sprintf(buf, "%d", k)\<close>, the digits only.\<close>

fun dec :: "nat \<Rightarrow> string" where
  "dec n = (if n < 10 then [char_of (48 + n)] else dec (n div 10) @ [char_of (48 + n mod 10)])"

declare dec.simps [simp del]

definition sprintf_d :: "int \<Rightarrow> string" where
  "sprintf_d k = (if k < 0 then CHR ''-'' # dec (nat (- k)) else dec (nat k))"

definition is_digit :: "char \<Rightarrow> bool" where
  "is_digit c \<longleftrightarrow> CHR ''0'' \<le> c \<and> c \<le> CHR ''9''"

lemma digit_char: "(d::nat) < 10 \<Longrightarrow> is_digit (char_of (48 + d))"
  by (auto simp: is_digit_def less_eq_char_def)

lemma dec_digits: "c \<in> set (dec n) \<Longrightarrow> is_digit c"
proof (induction n rule: dec.induct)
  case (1 n)
  then show ?case by (subst (asm) (2) dec.simps) (auto simp: digit_char split: if_splits)
qed

lemma dec_nonempty [simp]: "dec n \<noteq> []"
  by (subst dec.simps) simp

definition isspace :: "char \<Rightarrow> bool" where
  "isspace c \<longleftrightarrow> c \<in> set [CHR '' '', CHR 0x09, CHR 0x0A, CHR 0x0B, CHR 0x0C, CHR 0x0D]"

definition atoi :: "string \<Rightarrow> int option" where
  \<comment> \<open>undefined when the number is no \<open>int\<close>\<close>
  "atoi s =
     (let u = dropWhile isspace s;
          v = (if prefix ''-'' u \<or> prefix ''+'' u then tl u else u);
          n = foldl (\<lambda>n c. 10 * n + (of_char c - 48)) 0 (takeWhile is_digit v);
          k = (if prefix ''-'' u then - n else n)
      in if - (2 ^ 31) \<le> k \<and> k < 2 ^ 31 then Some k else None)"

section \<open>Buffers\<close>

text \<open>\<open>memcpy(buf + off, bs, length bs)\<close> into an object of \<open>length buf\<close> bytes.\<close>

definition memcpy :: "char list \<Rightarrow> nat \<Rightarrow> char list \<Rightarrow> char list option" where
  "memcpy buf off bs =
     (if off + length bs \<le> length buf
      then Some (take off buf @ bs @ drop (off + length bs) buf) else None)"

lemma memcpy_Some [simp]:
  "off + length bs \<le> length buf \<Longrightarrow>
   memcpy buf off bs = Some (take off buf @ bs @ drop (off + length bs) buf)"
  by (simp add: memcpy_def)

lemma memcpy_None [simp]: "length buf < off + length bs \<Longrightarrow> memcpy buf off bs = None"
  by (simp add: memcpy_def)

lemma memcpy_length: "memcpy buf off bs = Some buf' \<Longrightarrow> length buf' = length buf"
  by (auto simp: memcpy_def split: if_splits)

text \<open>A string in a zeroed buffer of 256 bytes.\<close>

definition pad :: "string \<Rightarrow> string" where
  "pad w = w @ replicate (256 - length w) NUL"

lemma pad_props [simp]:
  "pad [] = replicate 256 NUL"
  "NUL \<notin> set w \<Longrightarrow> cstr (pad w) = w"
  "length w < 256 \<Longrightarrow> NUL \<in> set (pad w)"
  "length w \<le> 256 \<Longrightarrow> length (pad w) = 256"
  by (auto simp: pad_def cstr_append)

lemma buf_str_256 [simp]: "NUL \<notin> set w \<Longrightarrow> length w < 256 \<Longrightarrow> buf_str (pad w) = Some w"
  by (simp add: pad_def)

end
