(* ===== verification/Hash.thy ===== *)
theory Hash
  imports CPrelude
begin

unbundle bit_operations_syntax

text \<open>
  \<^verbatim>\<open>hash.c\<close>, the keyed hash of a connection; \<^verbatim>\<open>util.c\<close> / \<^verbatim>\<open>util.h\<close>, the
  callback lists, the comparison of TCP sequence numbers and the printed form of a connection;
  and the bucket index of \<^verbatim>\<open>get_data.c\<close>.

  The random bytes that \<open>getrnd\<close> reads are arguments.  Integers are stored little-endian, as on
  the machines the program is built for.
\<close>

section \<open>The hash\<close>

definition shift_down :: "nat \<Rightarrow> nat list \<Rightarrow> nat list" where
  \<comment> \<open>\<open>for (j = 0; j < 11 - n; j++) p[n + j] = p[n + j + 1]\<close>\<close>
  "shift_down n p = fold (\<lambda>j p. p[n + j := p ! (n + j + 1)]) [0..<11 - n] p"

definition init_hash_step :: "nat \<Rightarrow> nat list \<times> nat list \<Rightarrow> nat list \<times> nat list" where
  "init_hash_step i = (\<lambda>(perm, p).
     let n = perm ! i mod (12 - i) in (perm[i := p ! n], shift_down n p))"

definition init_hash :: "8 word list \<Rightarrow> nat list" where
  \<comment> \<open>\<open>perm\<close> after \<open>init_hash\<close>, from the 12 random bytes in it\<close>
  "init_hash rnd = fst (fold init_hash_step [0..<12] (map unat rnd, [0..<12]))"

record tuple4 =
  source :: "16 word"
  dest :: "16 word"
  saddr :: "32 word"
  daddr :: "32 word"

definition le_bytes32 :: "32 word \<Rightarrow> 8 word list" where
  "le_bytes32 w = map (\<lambda>i. ucast (drop_bit (8 * i) w)) [0..<4]"

definition le_bytes16 :: "16 word \<Rightarrow> 8 word list" where
  "le_bytes16 w = map (\<lambda>i. ucast (drop_bit (8 * i) w)) [0..<2]"

definition mkhash ::
  "nat list \<Rightarrow> 8 word list \<Rightarrow> 32 word \<Rightarrow> 16 word \<Rightarrow> 32 word \<Rightarrow> 16 word \<Rightarrow> 32 word" where
  "mkhash perm xor_key src sport dst dport =
     (let data = le_bytes32 src @ le_bytes32 dst @ le_bytes16 sport @ le_bytes16 dport in
      fold (\<lambda>i res. (push_bit 8 res + ucast (data ! (perm ! i) XOR xor_key ! i)) mod 0xff100f) [0..<12] 0)"

definition mk_hash_index :: "nat list \<Rightarrow> 8 word list \<Rightarrow> 32 word \<Rightarrow> tuple4 \<Rightarrow> 32 word" where
  \<comment> \<open>\<open>table_size\<close> is \<open>tcp_stream_table_size\<close> of libnids\<close>
  "mk_hash_index perm xor_key table_size addr =
     (let hash1 = mkhash perm xor_key (saddr addr) (source addr) (daddr addr) (dest addr);
          hash2 = mkhash perm xor_key (daddr addr) (dest addr) (saddr addr) (source addr)
      in ((hash1 mod table_size) XOR (hash2 mod table_size)) mod table_size)"

definition DATA_CACHE_TABLE_SIZE :: nat where
  "DATA_CACHE_TABLE_SIZE = 100003"

section \<open>Sequence numbers, callbacks and addresses\<close>

definition before :: "32 word \<Rightarrow> 32 word \<Rightarrow> bool" where
  "before seq1 seq2 \<longleftrightarrow> sint (seq1 - seq2) < 0"

definition after :: "32 word \<Rightarrow> 32 word \<Rightarrow> bool" where
  "after seq1 seq2 \<longleftrightarrow> sint (seq2 - seq1) < 0"

text \<open>A callback list is the list of its items, a callback a name.\<close>

definition register_callback :: "nat list \<Rightarrow> nat \<Rightarrow> nat list" where
  "register_callback procs x = (if x \<in> set procs then procs else x # procs)"

fun unregister_callback :: "nat list \<Rightarrow> nat \<Rightarrow> nat list" where
  "unregister_callback [] x = []"
| "unregister_callback (p # ps) x = (if x = p then ps else p # unregister_callback ps x)"

definition int_ntoa :: "32 word \<Rightarrow> string" where
  \<comment> \<open>\<open>inet_ntoa\<close> of an address in network byte order\<close>
  "int_ntoa x = (case map (\<lambda>b. dec (unat b)) (le_bytes32 x) of
     [a, b, c, d] \<Rightarrow> a @ ''.'' @ b @ ''.'' @ c @ ''.'' @ d | _ \<Rightarrow> [])"

definition adres :: "tuple4 \<Rightarrow> string option" where
  \<comment> \<open>the string left in \<open>buf\<close>, undefined if it and its terminator exceed 256 bytes\<close>
  "adres addr =
     (let s = int_ntoa (saddr addr) @ '','' @ dec (unat (source addr)) @ '','' @
              int_ntoa (daddr addr) @ '','' @ dec (unat (dest addr))
      in if length s < 256 then Some s else None)"

section \<open>The permutation\<close>

lemma fold_shift:
  "n + k < length p \<Longrightarrow>
   fold (\<lambda>j p. p[n + j := p ! (n + j + 1)]) [0..<k] p =
   take n p @ take k (drop (Suc n) p) @ drop (n + k) p"
proof (induction k)
  case 0
  then show ?case by simp
next
  case (Suc k)
  then have IH: "fold (\<lambda>j p. p[n + j := p ! (n + j + 1)]) [0..<k] p =
      take n p @ take k (drop (Suc n) p) @ drop (n + k) p" by simp
  let ?q = "take n p @ take k (drop (Suc n) p) @ drop (n + k) p"
  have l: "length (take n p @ take k (drop (Suc n) p)) = n + k" using Suc.prems by simp

  have q1: "?q ! (n + k + 1) = p ! (n + k + 1)"
    using l nth_append_right [of "take n p @ take k (drop (Suc n) p)" "n + k + 1" "drop (n + k) p"] Suc.prems
    by (simp add: nth_append)
  have "?q[n + k := p ! (n + k + 1)] =
      (take n p @ take k (drop (Suc n) p)) @ (drop (n + k) p)[0 := p ! (n + k + 1)]"
    using l list_update_append1 list_update_append [of "take n p @ take k (drop (Suc n) p)" "drop (n + k) p" "n + k"]
    by simp
  also have "\<dots> = take n p @ take (Suc k) (drop (Suc n) p) @ drop (n + Suc k) p"
  proof -
    have "drop (n + k) p = p ! (n + k) # drop (Suc (n + k)) p"
      using Suc.prems by (simp add: Cons_nth_drop_Suc)
    then show ?thesis using Suc.prems by (simp add: take_Suc_conv_app_nth)
  qed
  finally show ?case using IH q1 by simp
qed

lemma shift_down_eq:
  assumes "length p = 12" "n < 12"
  shows "shift_down n p = take n p @ drop (Suc n) p @ [p ! 11]"
proof -
  have "drop (n + (11 - n)) p = [p ! 11]"
    using assms by (simp add: list_eq_iff_nth_eq)
  moreover have "take (11 - n) (drop (Suc n) p) = drop (Suc n) p" using assms by simp
  ultimately show ?thesis
    using fold_shift [of n "11 - n" p] assms by (simp add: shift_down_def)
qed

lemma init_hash_invariant:
  assumes "length rnd = 12" "i \<le> 12"
  shows "\<exists>perm p. fold init_hash_step [0..<i] (rnd, [0..<12]) = (perm, p) \<and>
     length perm = 12 \<and> length p = 12 \<and>
     mset (take i perm) + mset (take (12 - i) p) = mset [0..<12]"
  using assms(2)
proof (induction i)
  case 0
  then show ?case using assms(1) by simp
next
  case (Suc i)
  then obtain perm p where IH: "fold init_hash_step [0..<i] (rnd, [0..<12]) = (perm, p)"
    "length perm = 12" "length p = 12" "mset (take i perm) + mset (take (12 - i) p) = mset [0..<12]"
    by auto
  define n where "n = perm ! i mod (12 - i)"
  have "0 < 12 - i" using Suc.prems by simp
  then have "n < 12 - i" unfolding n_def by (rule mod_less_divisor)
  then have n: "n < 12 - i" "n < 12" by simp_all
  let ?p = "shift_down n p"
  have sd: "?p = take n p @ drop (Suc n) p @ [p ! 11]" by (rule shift_down_eq [OF IH(3) n(2)])
  have len: "length ?p = 12" using sd IH(3) n(2) by simp
  have t1: "take (12 - i) p = take n p @ p ! n # take (11 - i - n) (drop (Suc n) p)"
  proof -
    have "12 - i = n + Suc (11 - i - n)" using n(1) by simp
    then have "take (12 - i) p = take n p @ take (Suc (11 - i - n)) (drop n p)" by (metis take_add)
    moreover have "drop n p = p ! n # drop (Suc n) p" using n IH(3) by (simp add: Cons_nth_drop_Suc)
    ultimately show ?thesis by simp
  qed
  have t2: "take (12 - Suc i) ?p = take n p @ take (11 - i - n) (drop (Suc n) p)"
    using n IH(3) by (simp add: sd)
  have "take (Suc i) (perm[i := p ! n]) = take i perm @ [p ! n]"
    using IH(2) Suc.prems by (simp add: take_Suc_conv_app_nth)
  then have "mset (take (Suc i) (perm[i := p ! n])) + mset (take (12 - Suc i) ?p) = mset [0..<12]"
    using IH(4) t1 t2 by simp
  moreover have "fold init_hash_step [0..<Suc i] (rnd, [0..<12]) = (perm[i := p ! n], ?p)"
    using IH(1) by (simp add: init_hash_step_def n_def Let_def)
  ultimately show ?case using IH(2) len by simp
qed

section \<open>The hash value\<close>

definition mkhash_step :: "8 word \<Rightarrow> 32 word \<Rightarrow> 32 word" where
  "mkhash_step b res = (push_bit 8 res + ucast b) mod 0xff100f"

lemma mkhash_step_exact:
  assumes "unat res < 0xff100f"
  shows "unat (mkhash_step b res) = (unat res * 256 + unat b) mod 0xff100f"
proof -
  have b: "unat b < 256" using unsigned_less [of b, where 'a = nat] by simp
  have pb: "push_bit 8 res = res * 256" by (simp add: push_bit_eq_mult)
  have m: "unat (res * 256) = unat res * 256"
    using assms unat_mult_lem [of res "256 :: 32 word"] by simp
  have ub: "unat (ucast b :: 32 word) = unat b" using b by (simp add: unsigned_ucast_eq take_bit_nat_eq_self_iff)
  have "unat (res * 256 + ucast b) = unat res * 256 + unat b"
    using assms b m ub unat_add_lem [of "res * 256" "ucast b :: 32 word"] by simp
  then show ?thesis by (simp add: mkhash_step_def pb unat_mod)
qed

lemma mkhash_steps_exact:
  "unat res < 0xff100f \<Longrightarrow>
   unat (fold (\<lambda>i. mkhash_step (b i)) is res) = fold (\<lambda>i r. (r * 256 + unat (b i)) mod 0xff100f) is (unat res) \<and>
   unat (fold (\<lambda>i. mkhash_step (b i)) is res) < 0xff100f"
proof (induction "is" arbitrary: res)
  case (Cons i "is")
  have "unat (mkhash_step (b i) res) < 0xff100f" using mkhash_step_exact [OF Cons.prems] by simp
  from Cons.IH [OF this] show ?case using mkhash_step_exact [OF Cons.prems] by simp
qed simp

section \<open>Properties\<close>

text \<open>Whatever the random bytes, \<open>init_hash\<close> leaves a permutation of 0 to 11 in \<open>perm\<close>, so
  that \<open>mkhash\<close> reads every byte of the connection exactly once.\<close>

lemma init_hash_permutation:
  assumes "length rnd = 12"
  shows "mset (init_hash rnd) = mset [0..<12]"
proof -
  obtain perm p where "fold init_hash_step [0..<12] (map unat rnd, [0..<12]) = (perm, p)"
    "length perm = 12" "mset (take 12 perm) + mset (take (12 - 12) p) = mset [0..<12]"
    using init_hash_invariant [of "map unat rnd" 12] assms by auto
  then show ?thesis by (simp add: init_hash_def)
qed

lemma init_hash_permutation_witness: "mset (init_hash [3, 1, 4, 1, 5, 9, 2, 6, 5, 3, 5, 8]) = mset [0..<12]"
  by (rule init_hash_permutation) simp

text \<open>The 32-bit arithmetic of \<open>mkhash\<close> never wraps: the result is the value of the
  connection, its bytes permuted and masked, read as a number to the base 256 modulo
  \<open>0xff100f\<close>.\<close>

lemma mkhash_exact:
  "unat (mkhash perm xor_key src sport dst dport) =
     fold (\<lambda>i r. (r * 256 + unat ((le_bytes32 src @ le_bytes32 dst @ le_bytes16 sport @ le_bytes16 dport) ! (perm ! i)
       XOR xor_key ! i)) mod 0xff100f) [0..<12] 0 \<and>
   unat (mkhash perm xor_key src sport dst dport) < 0xff100f"
proof -
  let ?b = "\<lambda>i. (le_bytes32 src @ le_bytes32 dst @ le_bytes16 sport @ le_bytes16 dport) ! (perm ! i) XOR xor_key ! i"
  have "mkhash perm xor_key src sport dst dport = fold (\<lambda>i. mkhash_step (?b i)) [0..<12] 0"
    by (simp add: mkhash_def mkhash_step_def [abs_def] Let_def)
  then show ?thesis using mkhash_steps_exact [of 0 ?b "[0..<12]"] by simp
qed

lemma mk_hash_index_less: "table_size \<noteq> 0 \<Longrightarrow> mk_hash_index perm xor_key table_size addr < table_size"
  by (simp add: mk_hash_index_def Let_def word_mod_less_divisor word_gt_0)

text \<open>The bucket of a connection does not depend on the direction of the packet, and it is
  below the size of the table of libnids; so it is inside the cache exactly when that size, which
  the configuration file sets, is at most \<open>DATA_CACHE_TABLE_SIZE\<close>.\<close>

lemma mk_hash_index_bucket:
  assumes "table_size \<noteq> 0"
  shows "mk_hash_index perm xor_key table_size \<lparr>source = p, dest = q, saddr = a, daddr = b\<rparr> =
         mk_hash_index perm xor_key table_size \<lparr>source = q, dest = p, saddr = b, daddr = a\<rparr> \<and>
         mk_hash_index perm xor_key table_size addr < table_size"
proof
  show "mk_hash_index perm xor_key table_size \<lparr>source = p, dest = q, saddr = a, daddr = b\<rparr> =
         mk_hash_index perm xor_key table_size \<lparr>source = q, dest = p, saddr = b, daddr = a\<rparr>"
    by (simp add: mk_hash_index_def Let_def xor.commute)
  show "mk_hash_index perm xor_key table_size addr < table_size"
    by (rule mk_hash_index_less [OF assms])
qed

lemma mk_hash_index_bucket_witness:
  "mk_hash_index [0..<12] (replicate 12 0) 100003 \<lparr>source = 1, dest = 2, saddr = 3, daddr = 4\<rparr> < 100003"
  using mk_hash_index_bucket [of "100003" "[0..<12]" "replicate 12 0"] by simp

lemma register_distinct: "distinct procs \<Longrightarrow> distinct (register_callback procs x)"
  by (simp add: register_callback_def)

lemma unregister_removes: "unregister_callback procs x = remove1 x procs"
  by (induction procs) auto

lemma unregister_register: "x \<notin> set procs \<Longrightarrow> unregister_callback (register_callback procs x) x = procs"
  by (simp add: register_callback_def)

lemma before_after: "before a b \<longleftrightarrow> after b a"
  by (simp add: before_def after_def)

lemma length_dec: "n < 10 ^ k \<Longrightarrow> 0 < k \<Longrightarrow> length (dec n) \<le> k"
proof (induction n arbitrary: k rule: dec.induct)
  case (1 n)
  show ?case
  proof (cases "n < 10")
    case True
    then show ?thesis using "1.prems"(2) by (subst dec.simps) simp
  next
    case False
    then have "k \<noteq> 1" using "1.prems"(1) by auto
    then obtain j where j: "k = Suc j" "0 < j" using "1.prems"(2) by (cases k) auto
    then have "n div 10 < 10 ^ j" using "1.prems"(1) by (simp add: less_mult_imp_div_less mult.commute)
    from "1.IH" [OF False this j(2)] False j(1) show ?thesis by (subst dec.simps) simp
  qed
qed

text \<open>The printed form of a connection always fits its 256-byte buffer.\<close>

lemma length_int_ntoa: "length (int_ntoa x) \<le> 15"
proof -
  have b: "length (dec (unat (w :: 8 word))) \<le> 3" for w
    using length_dec [of "unat w" 3] unsigned_less [of w, where 'a = nat] by simp
  have "le_bytes32 x = [ucast x, ucast (drop_bit 8 x), ucast (drop_bit 16 x), ucast (drop_bit 24 x)]"
    by (simp add: le_bytes32_def upt_conv_Cons)
  then show ?thesis using b [of "ucast x"] b [of "ucast (drop_bit 8 x)"] b [of "ucast (drop_bit 16 x)"]
      b [of "ucast (drop_bit 24 x)"] by (simp add: int_ntoa_def)
qed

lemma adres_defined: "\<exists>s. adres addr = Some s \<and> length s \<le> 43"
proof -
  have p: "length (dec (unat (w :: 16 word))) \<le> 5" for w
    using length_dec [of "unat w" 5] unsigned_less [of w, where 'a = nat] by simp
  show ?thesis
    using length_int_ntoa [of "saddr addr"] length_int_ntoa [of "daddr addr"] p [of "source addr"] p [of "dest addr"]
    by (simp add: adres_def Let_def)
qed

end
