(* ===== verification/StreamCache.thy ===== *)
theory StreamCache
  imports Hash
begin

text \<open>
  The stream cache of \<^verbatim>\<open>get_data.c\<close>: one chain of \<open>data_head\<close>s per bucket, each with the
  segments received from the client (\<open>up\<close>) and from the server (\<open>down\<close>) of one TCP stream, and
  the handler that libnids calls for every event of a stream.

  A stream is known by the address of its \<open>tcp_stream\<close> (a number), the segments of a direction
  are the list from \<open>first\<close> to \<open>last\<close> (both null for the empty list), and a cursor into it an
  index.  The handler runs in one thread; the locks are those that exclude the analysing thread
  from each update.  \<open>process_gzip_data\<close> of \<^verbatim>\<open>copeungz.c\<close> is an argument here and
  may be undefined: it reads the head and the memory of the inflater, and gives the fields in \<open>gz\<close>, whether the
  stream is to be blocked, and the memory.  \<open>CacheInflate\<close> puts the model of \<^verbatim>\<open>copeungz.c\<close> in its place.
\<close>

section \<open>Heads and the cache\<close>

record gzip_state =
  gz_current_block :: "nat option"   \<comment> \<open>index of a segment of \<open>down\<close>\<close>
  gz_dist_buf :: "nat option"        \<comment> \<open>the number of the allocation, \<open>None\<close> for null\<close>
  gz_litter_buf :: "nat option"
  gz_dist :: nat
  gz_lit :: nat

record data_head =
  a_tcp :: "nat option"
  up :: "char list list"
  temp_up :: "nat option"         \<comment> \<open>index of a segment of \<open>up\<close>\<close>
  offset_up :: nat
  down :: "char list list"
  offset_down :: nat
  gz :: gzip_state

definition empty_head :: data_head where
  \<comment> \<open>all bytes zero\<close>
  "empty_head = \<lparr>a_tcp = None, up = [], temp_up = None, offset_up = 0, down = [], offset_down = 0,
     gz = \<lparr>gz_current_block = None, gz_dist_buf = None, gz_litter_buf = None, gz_dist = 0, gz_lit = 0\<rparr>\<rparr>"

record 'w stream_state =
  cache :: "nat \<Rightarrow> data_head list"   \<comment> \<open>\<open>data_cache_table\<close>: the chain of each bucket\<close>
  gk_state :: "nat \<Rightarrow> int"           \<comment> \<open>\<open>a_tcp->gk_state\<close>\<close>
  collect :: "nat \<Rightarrow> nat \<times> nat"       \<comment> \<open>\<open>a_tcp->client.collect\<close> and \<open>server.collect\<close>\<close>
  next_alloc :: nat
  gz_mem :: 'w                     \<comment> \<open>the memory of the inflater\<close>

definition init_cache :: "nat \<Rightarrow> data_head list" where
  "init_cache = (\<lambda>_. [empty_head])"

text \<open>What the functions read from libnids and from the configuration.\<close>

record net_env =
  e_perm :: "nat list"
  e_xor :: "8 word list"
  e_table_size :: "32 word"
  e_addr :: "nat \<Rightarrow> tuple4"

definition hash_index :: "net_env \<Rightarrow> nat \<Rightarrow> nat" where
  "hash_index env a = unat (mk_hash_index (e_perm env) (e_xor env) (e_table_size env) (e_addr env a))"

definition tuple4_equal :: "tuple4 \<Rightarrow> tuple4 \<Rightarrow> bool" where
  "tuple4_equal t1 t2 \<longleftrightarrow> t1 = t2"

section \<open>Finding a stream\<close>

fun find_loop :: "data_head list \<Rightarrow> nat \<Rightarrow> nat \<Rightarrow> nat option \<Rightarrow> nat \<times> nat option" where
  \<comment> \<open>\<open>while (p_dh->next != NULL)\<close>: the positions of \<open>p_dh\<close> and \<open>p_null\<close> in the chain\<close>
  "find_loop (dh # dh2 # rest) a i p_null =
     (if a_tcp dh = Some a then (i, p_null)
      else find_loop (dh2 # rest) a (i + 1) (if a_tcp dh = None then Some i else p_null))"
| "find_loop chain a i p_null = (i, p_null)"

definition find_stream :: "data_head list \<Rightarrow> nat \<Rightarrow> nat" where
  "find_stream chain a =
     (case find_loop chain a 0 None of
        (i, p_null) \<Rightarrow> if a_tcp (chain ! i) \<noteq> Some a \<and> p_null \<noteq> None then the p_null else i)"

definition bucket :: "net_env \<Rightarrow> nat \<Rightarrow> 'w stream_state \<Rightarrow> (nat \<times> data_head list) option" where
  \<comment> \<open>\<open>&data_cache_table[hash_index]\<close>\<close>
  "bucket env a st =
     (if hash_index env a < DATA_CACHE_TABLE_SIZE
      then Some (hash_index env a, cache st (hash_index env a)) else None)"

definition set_head :: "nat \<Rightarrow> nat \<Rightarrow> data_head \<Rightarrow> 'w stream_state \<Rightarrow> 'w stream_state" where
  "set_head h i dh st = st\<lparr>cache := (cache st)(h := (cache st h)[i := dh])\<rparr>"

type_synonym 'w gzip_step = "nat \<Rightarrow> nat \<Rightarrow> data_head \<Rightarrow> 'w \<Rightarrow> (gzip_state \<times> bool \<times> 'w) option"

definition process_gzip_data :: "'w gzip_step \<Rightarrow> nat \<Rightarrow> nat \<Rightarrow> 'w stream_state \<Rightarrow> 'w stream_state option" where
  \<comment> \<open>the step knows the head by its bucket and its position in the chain\<close>
  "process_gzip_data f h i st =
     (let dh = cache st h ! i in
      if a_tcp dh = None \<or> down dh = [] then Some st
      else do {
        (g, block, w) \<leftarrow> f h i dh (gz_mem st);
        let st1 = (set_head h i (dh\<lparr>gz := g\<rparr>) st)\<lparr>gz_mem := w\<rparr>;
        Some (if block then st1\<lparr>gk_state := (gk_state st1)(the (a_tcp dh) := 4)\<rparr> else st1) })"

section \<open>Inserting and freeing\<close>

definition insert_new_data_segment ::
  "net_env \<Rightarrow> 'w gzip_step \<Rightarrow> nat \<Rightarrow> char list \<Rightarrow> bool \<Rightarrow> 'w stream_state \<Rightarrow> 'w stream_state option" where
  "insert_new_data_segment env f a ds from_client st = do {
     (h, chain) \<leftarrow> bucket env a st;
     let i = find_stream chain a;
     let dh = chain ! i;
     (if a_tcp dh = Some a then
        if from_client then Some (set_head h i (dh\<lparr>up := up dh @ [ds]\<rparr>) st)
        else process_gzip_data f h i (set_head h i (dh\<lparr>down := down dh @ [ds]\<rparr>) st)
      else if a_tcp dh = None then
        (let g = gz dh;
             n = next_alloc st;
             g1 = (if gz_dist_buf g = None then g\<lparr>gz_dist_buf := Some n\<rparr> else g);
             g2 = (if gz_litter_buf g1 = None then g1\<lparr>gz_litter_buf := Some (n + 1)\<rparr> else g1);
             dh1 = dh\<lparr>gz := g2\<lparr>gz_dist := 0, gz_lit := 0, gz_current_block := None\<rparr>,
                     temp_up := None, offset_up := 0, a_tcp := Some a\<rparr>;
             st1 = st\<lparr>next_alloc := n + 2\<rparr>
         in if from_client then Some (set_head h i (dh1\<lparr>up := [ds]\<rparr>) st1)
            else process_gzip_data f h i (set_head h i (dh1\<lparr>down := [ds]\<rparr>) st1))
      else
        (let new = empty_head\<lparr>a_tcp := Some a\<rparr>;
             new1 = (if from_client then new\<lparr>up := [ds]\<rparr> else new\<lparr>down := [ds]\<rparr>);
             n = next_alloc st;
             dh1 = dh\<lparr>gz := (gz dh)\<lparr>gz_dist_buf := Some n, gz_litter_buf := Some (n + 1)\<rparr>\<rparr>;
             st1 = st\<lparr>cache := (cache st)(h := take i chain @ [dh1, new1]), next_alloc := n + 2\<rparr>
         in if from_client then Some st1 else process_gzip_data f h i st1)) }"

definition free_data_stream :: "net_env \<Rightarrow> nat \<Rightarrow> 'w stream_state \<Rightarrow> 'w stream_state option" where
  "free_data_stream env a st = do {
     (h, chain) \<leftarrow> bucket env a st;
     let i = find_stream chain a;
     let dh = chain ! i;
     Some (if a_tcp dh = Some a
           then set_head h i (dh\<lparr>a_tcp := None, up := [], down := [], offset_down := 0, offset_up := 0\<rparr>) st
           else st) }"

section \<open>The handler\<close>

datatype nids_state = NIDS_JUST_EST | NIDS_DATA | NIDS_CLOSE | NIDS_RESET | NIDS_TIMED_OUT | NIDS_BLOCKED

record half_stream =
  count_new :: nat
  count_new_urg :: nat
  hdata :: "char list"

definition tcp_stream_handler ::
  "net_env \<Rightarrow> 'w gzip_step \<Rightarrow> nat \<Rightarrow> nids_state \<Rightarrow> half_stream \<Rightarrow> half_stream \<Rightarrow> 'w stream_state \<Rightarrow> 'w stream_state option" where
  "tcp_stream_handler env f a ev server client st =
     (case ev of
        NIDS_JUST_EST \<Rightarrow>
          (let (c, s) = collect st a; st1 = st\<lparr>collect := (collect st)(a := (c + 1, s + 1))\<rparr> in
           do {
             (h, chain) \<leftarrow> bucket env a st1;
             (if list_ex (\<lambda>dh. case a_tcp dh of None \<Rightarrow> False
                               | Some b \<Rightarrow> tuple4_equal (e_addr env b) (e_addr env a)) chain
              then free_data_stream env a st1 else Some st1) })
      | NIDS_TIMED_OUT \<Rightarrow> free_data_stream env a st
      | NIDS_CLOSE \<Rightarrow> free_data_stream env a st
      | NIDS_RESET \<Rightarrow> free_data_stream env a st
      | NIDS_BLOCKED \<Rightarrow> free_data_stream env a st
      | NIDS_DATA \<Rightarrow>
          if count_new_urg server \<noteq> 0 then Some st
          else if count_new_urg client \<noteq> 0 then Some st
          else let from_client = (count_new client = 0);
                   hlf = (if from_client then server else client)
               in if count_new hlf \<le> length (hdata hlf)
                  then insert_new_data_segment env f a (take (count_new hlf) (hdata hlf)) from_client st
                  else None)"

section \<open>The search\<close>

lemma find_loop_spec:
  assumes "chain \<noteq> []"
  shows "\<exists>k p'. find_loop chain a i p = (i + k, p') \<and> k < length chain \<and>
     (a_tcp (chain ! k) = Some a \<or> k = length chain - 1) \<and>
     (\<forall>j<k. a_tcp (chain ! j) \<noteq> Some a) \<and>
     (p' = p \<and> (\<forall>j<k. a_tcp (chain ! j) \<noteq> None) \<or>
      (\<exists>j<k. p' = Some (i + j) \<and> a_tcp (chain ! j) = None))"
  using assms
proof (induction chain a i p rule: find_loop.induct)
  case (1 dh dh2 rest a i p)
  show ?case
  proof (cases "a_tcp dh = Some a")
    case True
    then show ?thesis by (intro exI [of _ 0] exI [of _ p]) simp
  next
    case False
    let ?p = "if a_tcp dh = None then Some i else p"
    from "1.IH" [OF False] obtain k p' where k: "find_loop (dh2 # rest) a (i + 1) ?p = (i + 1 + k, p')"
      "k < length (dh2 # rest)" "a_tcp ((dh2 # rest) ! k) = Some a \<or> k = length (dh2 # rest) - 1"
      "\<forall>j<k. a_tcp ((dh2 # rest) ! j) \<noteq> Some a"
      "p' = ?p \<and> (\<forall>j<k. a_tcp ((dh2 # rest) ! j) \<noteq> None) \<or>
       (\<exists>j<k. p' = Some (i + 1 + j) \<and> a_tcp ((dh2 # rest) ! j) = None)" by blast
    let ?c = "dh # dh2 # rest"
    have all: "(\<forall>j<Suc k. Q (?c ! j)) \<longleftrightarrow> Q dh \<and> (\<forall>j<k. Q ((dh2 # rest) ! j))" for Q
      by (auto simp: less_Suc_eq_0_disj)
    have "p' = p \<and> (\<forall>j<Suc k. a_tcp (?c ! j) \<noteq> None) \<or>
        (\<exists>j<Suc k. p' = Some (i + j) \<and> a_tcp (?c ! j) = None)"
      using k(5)
    proof
      assume *: "p' = ?p \<and> (\<forall>j<k. a_tcp ((dh2 # rest) ! j) \<noteq> None)"
      show ?thesis
      proof (cases "a_tcp dh = None")
        case True
        then show ?thesis using * by (intro disjI2 exI [of _ 0]) simp
      next
        case False
        then have "\<forall>j<Suc k. a_tcp (?c ! j) \<noteq> None"
          using * all [of "\<lambda>d. a_tcp d \<noteq> None"] by blast
        then show ?thesis using * False by simp
      qed
    next
      assume "\<exists>j<k. p' = Some (i + 1 + j) \<and> a_tcp ((dh2 # rest) ! j) = None"
      then obtain j where "j < k" "p' = Some (i + 1 + j)" "a_tcp ((dh2 # rest) ! j) = None" by blast
      then show ?thesis by (intro disjI2 exI [of _ "Suc j"]) simp
    qed
    moreover have "\<forall>j<Suc k. a_tcp (?c ! j) \<noteq> Some a"
      using all [of "\<lambda>d. a_tcp d \<noteq> Some a"] False k(4) by blast
    ultimately show ?thesis using False k(1-3) by (intro exI [of _ "Suc k"] exI [of _ p']) auto
  qed
qed auto

lemma find_stream_spec:
  assumes "chain \<noteq> []"
  shows "find_stream chain a < length chain"
    and "(\<exists>j<length chain. a_tcp (chain ! j) = Some a) \<Longrightarrow> a_tcp (chain ! find_stream chain a) = Some a"
    and "a_tcp (chain ! find_stream chain a) \<noteq> None \<Longrightarrow> a_tcp (chain ! find_stream chain a) \<noteq> Some a \<Longrightarrow>
      find_stream chain a = length chain - 1"
proof -
  obtain k p' where k: "find_loop chain a 0 None = (k, p')" "k < length chain"
     "a_tcp (chain ! k) = Some a \<or> k = length chain - 1"
     "\<forall>j<k. a_tcp (chain ! j) \<noteq> Some a"
     "p' = None \<and> (\<forall>j<k. a_tcp (chain ! j) \<noteq> None) \<or>
      (\<exists>j<k. p' = Some j \<and> a_tcp (chain ! j) = None)"
    using find_loop_spec [OF assms, of a 0 None] by auto
  show "find_stream chain a < length chain" using k by (auto simp: find_stream_def)
  show "a_tcp (chain ! find_stream chain a) = Some a" if ex: "\<exists>j<length chain. a_tcp (chain ! j) = Some a"
  proof -
    have "a_tcp (chain ! k) = Some a"
    proof (rule ccontr)
      assume n: "a_tcp (chain ! k) \<noteq> Some a"
      then have "k = length chain - 1" using k(3) by blast
      moreover obtain j where "j < length chain" "a_tcp (chain ! j) = Some a" using ex by blast
      ultimately show False using k(4) n by (cases "j = k") auto
    qed
    then show ?thesis using k(1) by (simp add: find_stream_def)
  qed
  show "find_stream chain a = length chain - 1"
    if "a_tcp (chain ! find_stream chain a) \<noteq> None" "a_tcp (chain ! find_stream chain a) \<noteq> Some a"
    using that k by (auto simp: find_stream_def split: if_splits)
qed

section \<open>The cache as a map from streams to their data\<close>

type_synonym stream_map = "nat \<Rightarrow> (char list list \<times> char list list) option"

text \<open>A chain against the map: the streams of its bucket, each in at most one head.\<close>

definition chain_ok :: "net_env \<Rightarrow> nat \<Rightarrow> data_head list \<Rightarrow> stream_map \<Rightarrow> bool" where
  "chain_ok env h chain m \<longleftrightarrow> chain \<noteq> [] \<and>
     (\<forall>j<length chain. \<forall>k<length chain. \<forall>a.
        a_tcp (chain ! j) = Some a \<and> a_tcp (chain ! k) = Some a \<longrightarrow> j = k) \<and>
     (\<forall>k<length chain. \<forall>a. a_tcp (chain ! k) = Some a \<longrightarrow>
        hash_index env a = h \<and> m a = Some (up (chain ! k), down (chain ! k))) \<and>
     (\<forall>a. hash_index env a = h \<and> (\<forall>k<length chain. a_tcp (chain ! k) \<noteq> Some a) \<longrightarrow> m a = None)"

definition cache_rel :: "net_env \<Rightarrow> 'w stream_state \<Rightarrow> stream_map \<Rightarrow> bool" where
  "cache_rel env st m \<longleftrightarrow> (\<forall>h. chain_ok env h (cache st h) m)"

lemma chain_okI:
  assumes "chain \<noteq> []"
    and "\<And>j k a. j < length chain \<Longrightarrow> k < length chain \<Longrightarrow> a_tcp (chain ! j) = Some a \<Longrightarrow>
      a_tcp (chain ! k) = Some a \<Longrightarrow> j = k"
    and "\<And>k a. k < length chain \<Longrightarrow> a_tcp (chain ! k) = Some a \<Longrightarrow> hash_index env a = h"
    and "\<And>k a. k < length chain \<Longrightarrow> a_tcp (chain ! k) = Some a \<Longrightarrow>
      m a = Some (up (chain ! k), down (chain ! k))"
    and "\<And>a. hash_index env a = h \<Longrightarrow> (\<And>k. k < length chain \<Longrightarrow> a_tcp (chain ! k) \<noteq> Some a) \<Longrightarrow> m a = None"
  shows "chain_ok env h chain m"
  unfolding chain_ok_def using assms by blast

lemma chain_okD:
  assumes "chain_ok env h chain m"
  shows chain_ok_ne: "chain \<noteq> []"
    and chain_ok_inj: "\<And>j k a. j < length chain \<Longrightarrow> k < length chain \<Longrightarrow> a_tcp (chain ! j) = Some a \<Longrightarrow>
      a_tcp (chain ! k) = Some a \<Longrightarrow> j = k"
    and chain_ok_hash: "\<And>k a. k < length chain \<Longrightarrow> a_tcp (chain ! k) = Some a \<Longrightarrow> hash_index env a = h"
    and chain_ok_data: "\<And>k a. k < length chain \<Longrightarrow> a_tcp (chain ! k) = Some a \<Longrightarrow>
      m a = Some (up (chain ! k), down (chain ! k))"
    and chain_ok_none: "\<And>a. hash_index env a = h \<Longrightarrow> (\<And>k. k < length chain \<Longrightarrow> a_tcp (chain ! k) \<noteq> Some a) \<Longrightarrow> m a = None"
  using assms unfolding chain_ok_def by blast+

lemma cache_rel_init: "cache st = init_cache \<Longrightarrow> cache_rel env st (\<lambda>_. None)"
  by (simp add: cache_rel_def chain_ok_def init_cache_def empty_head_def)

lemma chain_ok_other:
  assumes "chain_ok env h chain m" "hash_index env a \<noteq> h"
  shows "chain_ok env h chain (m(a := x))"
proof (rule chain_okI)
  show "chain \<noteq> []" by (rule chain_ok_ne [OF assms(1)])
next
  fix k b assume "k < length chain" "a_tcp (chain ! k) = Some b"
  from chain_ok_hash [OF assms(1) this] chain_ok_data [OF assms(1) this] assms(2)
  show "hash_index env b = h" "(m(a := x)) b = Some (up (chain ! k), down (chain ! k))" by auto
next
  fix b assume "hash_index env b = h" "\<And>k. k < length chain \<Longrightarrow> a_tcp (chain ! k) \<noteq> Some b"
  from chain_ok_none [OF assms(1) this] \<open>hash_index env b = h\<close> assms(2)
  show "(m(a := x)) b = None" by auto
qed (rule chain_ok_inj [OF assms(1)])

text \<open>
  Replacing the head at \<open>k\<close>, which holds \<open>a\<close> or nothing, by one that holds \<open>a\<close> or nothing.
\<close>

lemma chain_ok_replace:
  assumes ok: "chain_ok env h chain m" and k: "k < length chain" and a: "hash_index env a = h"
    and dh: "a_tcp dh = Some a \<or> a_tcp dh = None"
    and slot: "a_tcp (chain ! k) = Some a \<or> a_tcp (chain ! k) = None"
    and only: "\<And>j. j < length chain \<Longrightarrow> a_tcp (chain ! j) = Some a \<Longrightarrow> j = k"
  shows "chain_ok env h (chain[k := dh])
     (m(a := (if a_tcp dh = None then None else Some (up dh, down dh))))" (is "chain_ok _ _ ?c ?m")
proof -
  have nth: "?c ! j = (if j = k then dh else chain ! j)" if "j < length chain" for j
    using that by (simp add: nth_list_update)
  have old: "j \<noteq> k \<and> b \<noteq> a \<and> a_tcp (chain ! j) = Some b \<or> j = k \<and> b = a \<and> a_tcp dh = Some a"
    if "j < length chain" "a_tcp (?c ! j) = Some b" for j b
    using that nth [OF that(1)] dh only [OF that(1)] by (cases "j = k") auto
  show ?thesis
  proof (rule chain_okI, unfold length_list_update)
    show "?c \<noteq> []" using k by auto
  next
    fix i j b assume ij: "i < length chain" "j < length chain" "a_tcp (?c ! i) = Some b" "a_tcp (?c ! j) = Some b"
    from old [OF ij(1,3)] old [OF ij(2,4)] chain_ok_inj [OF ok ij(1,2)] show "i = j" by blast
  next
    fix j b assume j: "j < length chain" "a_tcp (?c ! j) = Some b"
    from old [OF this] show "hash_index env b = h" using chain_ok_hash [OF ok j(1)] a by blast
    from old [OF j] show "?m b = Some (up (?c ! j), down (?c ! j))"
    proof
      assume "j \<noteq> k \<and> b \<noteq> a \<and> a_tcp (chain ! j) = Some b"
      then show ?thesis using chain_ok_data [OF ok j(1)] nth [OF j(1)] by simp
    next
      assume "j = k \<and> b = a \<and> a_tcp dh = Some a"
      then show ?thesis using nth [OF j(1)] by simp
    qed
  next
    fix b assume b: "hash_index env b = h" "\<And>j. j < length chain \<Longrightarrow> a_tcp (?c ! j) \<noteq> Some b"
    show "?m b = None"
    proof (cases "b = a")
      case True
      then show ?thesis using b(2) [OF k] nth [OF k] dh by auto
    next
      case False
      have "a_tcp (chain ! j) \<noteq> Some b" if "j < length chain" for j
        using b(2) [OF that] nth [OF that] slot False by (cases "j = k") auto
      then show ?thesis using chain_ok_none [OF ok b(1)] False by simp
    qed
  qed
qed

lemma chain_ok_append:
  assumes ok: "chain_ok env h chain m" and a: "hash_index env a = h" "a_tcp dh = Some a"
    and new: "\<And>j. j < length chain \<Longrightarrow> a_tcp (chain ! j) \<noteq> Some a"
  shows "chain_ok env h (chain @ [dh]) (m(a := Some (up dh, down dh)))" (is "chain_ok _ _ ?c ?m")
proof -
  have old: "j < length chain \<and> b \<noteq> a \<and> ?c ! j = chain ! j \<and> a_tcp (chain ! j) = Some b \<or>
      j = length chain \<and> b = a \<and> ?c ! j = dh"
    if "j < length ?c" "a_tcp (?c ! j) = Some b" for j b
    using that new [of j] a(2) by (cases "j = length chain") (auto simp: nth_append)
  show ?thesis
  proof (rule chain_okI)
    show "?c \<noteq> []" by simp
  next
    fix i j b assume ij: "i < length ?c" "j < length ?c" "a_tcp (?c ! i) = Some b" "a_tcp (?c ! j) = Some b"
    from old [OF ij(1,3)] old [OF ij(2,4)] chain_ok_inj [OF ok] show "i = j" by blast
  next
    fix j b assume j: "j < length ?c" "a_tcp (?c ! j) = Some b"
    from old [OF this] show "hash_index env b = h" using chain_ok_hash [OF ok] a(1) by blast
    from old [OF j] show "?m b = Some (up (?c ! j), down (?c ! j))"
      using chain_ok_data [OF ok] by auto
  next
    fix b assume b: "hash_index env b = h" "\<And>j. j < length ?c \<Longrightarrow> a_tcp (?c ! j) \<noteq> Some b"
    have "b \<noteq> a" using b(2) [of "length chain"] a(2) by auto
    moreover have "a_tcp (chain ! j) \<noteq> Some b" if "j < length chain" for j
      using b(2) [of j] that by (simp add: nth_append)
    ultimately show "?m b = None" using chain_ok_none [OF ok b(1)] by simp
  qed
qed

lemma chain_ok_same:
  assumes ok: "chain_ok env h chain m" and k: "k < length chain"
    and same: "a_tcp dh = a_tcp (chain ! k)" "up dh = up (chain ! k)" "down dh = down (chain ! k)"
  shows "chain_ok env h (chain[k := dh]) m"
proof -
  have nth: "a_tcp (chain[k := dh] ! j) = a_tcp (chain ! j)" "up (chain[k := dh] ! j) = up (chain ! j)"
    "down (chain[k := dh] ! j) = down (chain ! j)" if "j < length chain" for j
    using that same by (cases "j = k"; simp)+
  show ?thesis
  proof (rule chain_okI, unfold length_list_update)
    show "chain[k := dh] \<noteq> []" using k by auto
  next
    fix i j b assume "i < length chain" "j < length chain"
      "a_tcp (chain[k := dh] ! i) = Some b" "a_tcp (chain[k := dh] ! j) = Some b"
    then show "i = j" using chain_ok_inj [OF ok, of i j b] nth(1) by simp
  next
    fix j b assume j: "j < length chain" "a_tcp (chain[k := dh] ! j) = Some b"
    then show "hash_index env b = h" using chain_ok_hash [OF ok, of j b] nth(1) by simp
    show "m b = Some (up (chain[k := dh] ! j), down (chain[k := dh] ! j))"
      using j chain_ok_data [OF ok, of j b] nth [of j] by simp
  next
    fix b assume "hash_index env b = h" "\<And>j. j < length chain \<Longrightarrow> a_tcp (chain[k := dh] ! j) \<noteq> Some b"
    then show "m b = None" using chain_ok_none [OF ok, of b] nth(1) by simp
  qed
qed

lemma cache_rel_set:
  assumes "cache_rel env st m" "chain_ok env h chain (m(a := x))" "hash_index env a = h"
    "cache st' = (cache st)(h := chain)"
  shows "cache_rel env st' (m(a := x))"
  using assms chain_ok_other by (auto simp: cache_rel_def)

text \<open>The map operations.\<close>

definition map_insert :: "nat \<Rightarrow> char list \<Rightarrow> bool \<Rightarrow> stream_map \<Rightarrow> stream_map" where
  "map_insert a ds from_client m =
     (let (u, d) = (case m a of None \<Rightarrow> ([], []) | Some ud \<Rightarrow> ud)
      in m(a := Some (if from_client then (u @ [ds], d) else (u, d @ [ds]))))"

text \<open>A free head holds no data: kept by every operation, and needed when a head is reused.\<close>

definition free_heads_empty :: "'w stream_state \<Rightarrow> bool" where
  "free_heads_empty st \<longleftrightarrow>
     (\<forall>h. \<forall>dh\<in>set (cache st h). a_tcp dh = None \<longrightarrow> up dh = [] \<and> down dh = [])"

lemma free_heads_set:
  assumes "free_heads_empty st" "a_tcp dh = None \<longrightarrow> up dh = [] \<and> down dh = []"
    "cache st' = (cache st)(h := (cache st h)[i := dh])"
  shows "free_heads_empty st'"
  using assms set_update_subset_insert [of "cache st h" i dh]
  unfolding free_heads_empty_def by auto

lemma set_take_ball:
  assumes "\<forall>x\<in>set xs. P x" "P a" "P b"
  shows "\<forall>x\<in>set (take i xs @ [a, b]). P x"
  using assms by (auto dest: in_set_takeD)

lemma free_heads_chain:
  assumes "free_heads_empty st" "\<forall>dh\<in>set chain. a_tcp dh = None \<longrightarrow> up dh = [] \<and> down dh = []"
    "cache st' = (cache st)(h := chain)"
  shows "free_heads_empty st'"
  unfolding free_heads_empty_def
proof (rule allI)
  fix k
  show "\<forall>dh\<in>set (cache st' k). a_tcp dh = None \<longrightarrow> up dh = [] \<and> down dh = []"
    using assms unfolding free_heads_empty_def by (cases "k = h") simp_all
qed

text \<open>Where the step has a result, only the fields of the inflater change.\<close>

lemma process_gzip_rel:
  assumes rel: "cache_rel env st m" and free: "free_heads_empty st" and i: "i < length (cache st h)"
    and run: "process_gzip_data f h i st = Some st'"
  shows "cache_rel env st' m \<and> free_heads_empty st'"
proof (cases "a_tcp (cache st h ! i) = None \<or> down (cache st h ! i) = []")
  case True
  then show ?thesis using rel free run by (simp add: process_gzip_data_def Let_def)
next
  case False
  let ?dh = "cache st h ! i"
  obtain g b w where f: "f h i ?dh (gz_mem st) = Some (g, b, w)"
    using False run by (auto simp: process_gzip_data_def Let_def split: bind_splits)
  then have c: "cache st' = (cache st)(h := (cache st h)[i := ?dh\<lparr>gz := g\<rparr>])"
    using False run by (auto simp: process_gzip_data_def Let_def set_head_def)
  have ok: "chain_ok env h (cache st h) m" for h using rel by (simp add: cache_rel_def)
  have "chain_ok env h ((cache st h)[i := ?dh\<lparr>gz := g\<rparr>]) m"
    by (rule chain_ok_same [OF ok i]) simp_all
  then have "cache_rel env st' m" unfolding cache_rel_def c using ok by simp
  moreover have "free_heads_empty st'"
    by (rule free_heads_set [OF free _ c]) (use False in simp)
  ultimately show ?thesis ..
qed

text \<open>The segment is stored, and behind one from the server the step follows.\<close>

lemma insert_rel:
  assumes rel: "cache_rel env st m" and free: "free_heads_empty st"
    and idx: "hash_index env a < DATA_CACHE_TABLE_SIZE"
  shows "\<exists>h i st1. insert_new_data_segment env f a ds from_client st =
        (if from_client then Some st1 else process_gzip_data f h i st1) \<and>
     i < length (cache st1 h) \<and> cache_rel env st1 (map_insert a ds from_client m) \<and>
     free_heads_empty st1 \<and> gz_mem st1 = gz_mem st"
proof -
  define h where "h = hash_index env a"
  define chain where "chain = cache st h"
  define i where "i = find_stream chain a"
  let ?dh = "chain ! i"
  have ok: "chain_ok env h chain m" using rel by (simp add: cache_rel_def chain_def)
  have ne: "chain \<noteq> []" by (rule chain_ok_ne [OF ok])
  note fs = find_stream_spec [OF ne, of a, folded i_def]
  have bucket: "bucket env a st = Some (h, chain)" using idx by (simp add: bucket_def h_def chain_def)
  have put: "cache_rel env st' (m(a := Some (up d, down d))) \<and> free_heads_empty st'"
    if "a_tcp d = Some a" "a_tcp ?dh = Some a \<or> a_tcp ?dh = None"
      "\<And>j. j < length chain \<Longrightarrow> a_tcp (chain ! j) = Some a \<Longrightarrow> j = i"
      "cache st' = (cache st)(h := chain[i := d])" for d st'
  proof
    have "chain_ok env h (chain[i := d]) (m(a := (if a_tcp d = None then None else Some (up d, down d))))"
      by (rule chain_ok_replace [OF ok fs(1) h_def [symmetric] _ that(2,3)]) (use that(1) in simp)
    then have "chain_ok env h (chain[i := d]) (m(a := Some (up d, down d)))" using that(1) by simp
    from cache_rel_set [OF rel this h_def [symmetric] that(4)]
    show "cache_rel env st' (m(a := Some (up d, down d)))" .
    show "free_heads_empty st'"
      by (rule free_heads_set [OF free, of d _ h i]) (use that(1,4) in \<open>simp_all add: chain_def\<close>)
  qed
  consider (found) "a_tcp ?dh = Some a" | (slot) "a_tcp ?dh = None" | (new) "a_tcp ?dh \<noteq> Some a" "a_tcp ?dh \<noteq> None"
    by blast
  then show ?thesis
  proof cases
    case found
    define d where "d = (if from_client then ?dh\<lparr>up := up ?dh @ [ds]\<rparr> else ?dh\<lparr>down := down ?dh @ [ds]\<rparr>)"
    define st1 where "st1 = set_head h i d st"
    have r: "cache_rel env st1 (m(a := Some (up d, down d))) \<and> free_heads_empty st1"
      by (rule put) (use found chain_ok_inj [OF ok] fs(1) in \<open>auto simp: d_def st1_def set_head_def chain_def\<close>)
    have len: "i < length (cache st1 h)" using fs(1) by (simp add: st1_def set_head_def chain_def)
    have m: "map_insert a ds from_client m = m(a := Some (up d, down d))"
      using chain_ok_data [OF ok fs(1) found] by (simp add: map_insert_def d_def)
    have "insert_new_data_segment env f a ds from_client st =
        (if from_client then Some st1 else process_gzip_data f h i st1)" "gz_mem st1 = gz_mem st"
      using found by (simp_all add: insert_new_data_segment_def bucket i_def [symmetric] Let_def st1_def d_def set_head_def)
    then show ?thesis using r len m by (intro exI [of _ h] exI [of _ i] exI [of _ st1]) simp
  next
    case slot
    have none: "a_tcp (chain ! j) \<noteq> Some a" if "j < length chain" for j
      using fs(2) that slot by auto
    have "?dh \<in> set chain" using fs(1) by simp
    then have empty: "up ?dh = []" "down ?dh = []"
      using free slot unfolding free_heads_empty_def chain_def by blast+
    define g where "g = (let g1 = (if gz_dist_buf (gz ?dh) = None then (gz ?dh)\<lparr>gz_dist_buf := Some (next_alloc st)\<rparr> else gz ?dh)
       in if gz_litter_buf g1 = None then g1\<lparr>gz_litter_buf := Some (next_alloc st + 1)\<rparr> else g1)"
    define d1 where "d1 = ?dh\<lparr>gz := g\<lparr>gz_dist := 0, gz_lit := 0, gz_current_block := None\<rparr>,
       temp_up := None, offset_up := 0, a_tcp := Some a\<rparr>"
    define d where "d = (if from_client then d1\<lparr>up := [ds]\<rparr> else d1\<lparr>down := [ds]\<rparr>)"
    define st1 where "st1 = set_head h i d (st\<lparr>next_alloc := next_alloc st + 2\<rparr>)"
    have r: "cache_rel env st1 (m(a := Some (up d, down d))) \<and> free_heads_empty st1"
      by (rule put) (use slot none in \<open>auto simp: d_def d1_def st1_def set_head_def chain_def\<close>)
    have len: "i < length (cache st1 h)" using fs(1) by (simp add: st1_def set_head_def chain_def)
    have m: "map_insert a ds from_client m = m(a := Some (up d, down d))"
      using chain_ok_none [OF ok h_def [symmetric] none] empty by (simp add: map_insert_def d_def d1_def)
    have "insert_new_data_segment env f a ds from_client st =
        (if from_client then Some st1 else process_gzip_data f h i st1)" "gz_mem st1 = gz_mem st"
      using slot by (simp_all add: insert_new_data_segment_def bucket i_def [symmetric] Let_def st1_def d_def d1_def g_def set_head_def)
    then show ?thesis using r len m by (intro exI [of _ h] exI [of _ i] exI [of _ st1]) simp
  next
    case new
    have none: "a_tcp (chain ! j) \<noteq> Some a" if "j < length chain" for j
      using fs(2) that new(1) by auto
    obtain c where c: "a_tcp ?dh = Some c" "c \<noteq> a" using new by auto
    have last: "i = length chain - 1" using fs(3) new by blast
    define d where "d = (if from_client then empty_head\<lparr>a_tcp := Some a, up := [ds]\<rparr>
        else empty_head\<lparr>a_tcp := Some a, down := [ds]\<rparr>)"
    define d1 where "d1 = ?dh\<lparr>gz := (gz ?dh)\<lparr>gz_dist_buf := Some (next_alloc st), gz_litter_buf := Some (next_alloc st + 1)\<rparr>\<rparr>"
    define st1 where "st1 = st\<lparr>cache := (cache st)(h := take i chain @ [d1, d]), next_alloc := next_alloc st + 2\<rparr>"
    have upd: "take i chain @ [d1, d] = chain[i := d1] @ [d]"
      using fs(1) last by (simp add: upd_conv_take_nth_drop)
    have ok1: "chain_ok env h (chain[i := d1]) m"
      by (rule chain_ok_same [OF ok fs(1)]) (simp_all add: d1_def)
    have none1: "a_tcp (chain[i := d1] ! j) \<noteq> Some a" if "j < length (chain[i := d1])" for j
      using none [of j] that by (cases "j = i") (simp_all add: d1_def)
    have "chain_ok env h (chain[i := d1] @ [d]) (m(a := Some (up d, down d)))"
      by (rule chain_ok_append [OF ok1 h_def [symmetric] _ none1]) (auto simp: d_def)
    then have rel1: "cache_rel env st1 (m(a := Some (up d, down d)))"
      by (intro cache_rel_set [OF rel _ h_def [symmetric]]) (auto simp: st1_def upd)
    have "?dh \<in> set chain" using fs(1) by simp
    have live: "a_tcp d1 \<noteq> None" "a_tcp d \<noteq> None" using new(2) by (simp_all add: d1_def d_def)
    have "\<forall>x\<in>set chain. a_tcp x = None \<longrightarrow> up x = [] \<and> down x = []"
      using free unfolding free_heads_empty_def chain_def by (rule spec)
    then have "\<forall>x\<in>set (take i chain @ [d1, d]). a_tcp x = None \<longrightarrow> up x = [] \<and> down x = []"
      by (rule set_take_ball) (rule impI, rule notE, rule live, assumption)+
    then have free1: "free_heads_empty st1"
      by (rule free_heads_chain [OF free, of _ _ h]) (simp add: st1_def)
    have len: "i < length (cache st1 h)" using fs(1) by (simp add: st1_def)
    have m: "map_insert a ds from_client m = m(a := Some (up d, down d))"
      using chain_ok_none [OF ok h_def [symmetric] none] by (simp add: map_insert_def d_def empty_head_def)
    have "insert_new_data_segment env f a ds from_client st =
        (if from_client then Some st1 else process_gzip_data f h i st1)" "gz_mem st1 = gz_mem st"
      using c by (simp_all add: insert_new_data_segment_def bucket i_def [symmetric] Let_def st1_def d_def d1_def)
    then show ?thesis using rel1 free1 len m by (intro exI [of _ h] exI [of _ i] exI [of _ st1]) simp
  qed
qed

lemma free_rel:
  assumes rel: "cache_rel env st m" and free: "free_heads_empty st"
    and idx: "hash_index env a < DATA_CACHE_TABLE_SIZE"
  shows "\<exists>st'. free_data_stream env a st = Some st' \<and> cache_rel env st' (m(a := None)) \<and> free_heads_empty st' \<and>
     gz_mem st' = gz_mem st"
proof -
  define h where "h = hash_index env a"
  define chain where "chain = cache st h"
  define i where "i = find_stream chain a"
  let ?dh = "chain ! i"
  have ok: "chain_ok env h chain m" using rel by (simp add: cache_rel_def chain_def)
  have ne: "chain \<noteq> []" by (rule chain_ok_ne [OF ok])
  note fs = find_stream_spec [OF ne, of a, folded i_def]
  have bucket: "bucket env a st = Some (h, chain)" using idx by (simp add: bucket_def h_def chain_def)
  show ?thesis
  proof (cases "a_tcp ?dh = Some a")
    case True
    define d where "d = ?dh\<lparr>a_tcp := None, up := [], down := [], offset_down := 0, offset_up := 0\<rparr>"
    have "chain_ok env h (chain[i := d]) (m(a := (if a_tcp d = None then None else Some (up d, down d))))"
      by (rule chain_ok_replace [OF ok fs(1) h_def [symmetric]])
         (use True chain_ok_inj [OF ok _ fs(1)] in \<open>auto simp: d_def\<close>)
    then have "chain_ok env h (chain[i := d]) (m(a := None))" by (simp add: d_def)
    then have "cache_rel env (set_head h i d st) (m(a := None))"
      by (intro cache_rel_set [OF rel _ h_def [symmetric]]) (auto simp: set_head_def chain_def)
    moreover have "free_heads_empty (set_head h i d st)"
      by (rule free_heads_set [OF free, of d _ h i]) (simp_all add: d_def set_head_def)
    moreover have "free_data_stream env a st = Some (set_head h i d st)"
      using True by (simp add: free_data_stream_def bucket i_def [symmetric] Let_def d_def)
    ultimately show ?thesis by (simp add: set_head_def)
  next
    case False
    have "a_tcp (chain ! j) \<noteq> Some a" if "j < length chain" for j using fs(2) that False by auto
    then have "m a = None" using chain_ok_none [OF ok h_def [symmetric]] by blast
    then have "m(a := None) = m" by auto
    then show ?thesis using False rel free by (simp add: free_data_stream_def bucket i_def [symmetric] Let_def)
  qed
qed

section \<open>The handler\<close>

record event =
  ev_stream :: nat
  ev_state :: nids_state
  ev_server :: half_stream
  ev_client :: half_stream

definition handle_event :: "net_env \<Rightarrow> 'w gzip_step \<Rightarrow> event \<Rightarrow> 'w stream_state \<Rightarrow> 'w stream_state option" where
  "handle_event env f e = tcp_stream_handler env f (ev_stream e) (ev_state e) (ev_server e) (ev_client e)"

text \<open>What libnids promises of an event: the new bytes are in the buffer.\<close>

definition event_ok :: "event \<Rightarrow> bool" where
  "event_ok e \<longleftrightarrow> count_new (ev_server e) \<le> length (hdata (ev_server e)) \<and>
     count_new (ev_client e) \<le> length (hdata (ev_client e))"

text \<open>
  The contract: data without urgent bytes is appended to its direction, every other event leaves
  the stream without data.
\<close>

definition event_spec :: "event \<Rightarrow> stream_map \<Rightarrow> stream_map" where
  "event_spec e m =
     (if ev_state e = NIDS_DATA
      then if count_new_urg (ev_server e) = 0 \<and> count_new_urg (ev_client e) = 0
           then if count_new (ev_client e) = 0
                then map_insert (ev_stream e) (take (count_new (ev_server e)) (hdata (ev_server e))) True m
                else map_insert (ev_stream e) (take (count_new (ev_client e)) (hdata (ev_client e))) False m
           else m
      else m(ev_stream e := None))"

text \<open>What the cache holds of a stream.\<close>

definition stream_data :: "net_env \<Rightarrow> 'w stream_state \<Rightarrow> stream_map" where
  "stream_data env st a =
     (let chain = cache st (hash_index env a); dh = chain ! find_stream chain a
      in if a_tcp dh = Some a then Some (up dh, down dh) else None)"

lemma stream_data_rel:
  assumes "cache_rel env st m"
  shows "stream_data env st = m"
proof
  fix a
  define h where "h = hash_index env a"
  have ok: "chain_ok env h (cache st h) m" using assms by (simp add: cache_rel_def)
  note fs = find_stream_spec [OF chain_ok_ne [OF ok], of a]
  show "stream_data env st a = m a"
  proof (cases "a_tcp (cache st h ! find_stream (cache st h) a) = Some a")
    case True
    then show ?thesis using chain_ok_data [OF ok fs(1) True] by (simp add: stream_data_def h_def [symmetric] Let_def)
  next
    case False
    then have "m a = None" using chain_ok_none [OF ok h_def [symmetric]] fs(2) by blast
    then show ?thesis using False by (simp add: stream_data_def h_def [symmetric] Let_def)
  qed
qed

lemma established_rel:
  assumes rel: "cache_rel env st m" and free: "free_heads_empty st"
    and idx: "hash_index env a < DATA_CACHE_TABLE_SIZE"
  shows "\<exists>st'. tcp_stream_handler env f a NIDS_JUST_EST server client st = Some st' \<and>
     cache_rel env st' (m(a := None)) \<and> free_heads_empty st' \<and> gz_mem st' = gz_mem st"
proof -
  obtain c s where cs: "collect st a = (c, s)" by fastforce
  define st1 where "st1 = st\<lparr>collect := (collect st)(a := (c + 1, s + 1))\<rparr>"
  define h where "h = hash_index env a"
  let ?hit = "list_ex (\<lambda>dh. case a_tcp dh of None \<Rightarrow> False
     | Some b \<Rightarrow> tuple4_equal (e_addr env b) (e_addr env a)) (cache st h)"
  have bucket: "bucket env a st1 = Some (h, cache st h)" using idx by (simp add: bucket_def h_def st1_def)
  have rel1: "cache_rel env st1 m" "free_heads_empty st1"
    using rel free by (simp_all add: cache_rel_def free_heads_empty_def st1_def)
  have run: "tcp_stream_handler env f a NIDS_JUST_EST server client st =
      (if ?hit then free_data_stream env a st1 else Some st1)"
    by (simp only: tcp_stream_handler_def nids_state.case cs Let_def prod.case st1_def [symmetric] bucket
        Option.bind.bind_lunit if_True)
  show ?thesis
  proof (cases ?hit)
    case True
    then show ?thesis using free_rel [OF rel1 idx] unfolding run by (simp add: st1_def)
  next
    case False
    have "a_tcp (cache st h ! j) \<noteq> Some a" if "j < length (cache st h)" for j
    proof
      assume "a_tcp (cache st h ! j) = Some a"
      then have ?hit using that by (auto simp: list_ex_iff tuple4_equal_def intro!: bexI [of _ "cache st h ! j"])
      then show False using False by simp
    qed
    moreover have "chain_ok env h (cache st h) m" using rel by (simp add: cache_rel_def)
    ultimately have "m a = None" by (intro chain_ok_none [of env h "cache st h" m a] h_def [symmetric])
    then have "m(a := None) = m" by auto
    then show ?thesis using False rel1 unfolding run by (simp add: st1_def)
  qed
qed

definition server_data :: "event \<Rightarrow> bool" where
  "server_data e \<longleftrightarrow> ev_state e = NIDS_DATA \<and> count_new_urg (ev_server e) = 0 \<and>
     count_new_urg (ev_client e) = 0 \<and> count_new (ev_client e) \<noteq> 0"

text \<open>
  The contract of one event, up to the step of the inflater on data from the server: the handler has stored the
  segment when it calls \<open>process_gzip_data\<close>.
\<close>

lemma handle_event_rel:
  assumes rel: "cache_rel env st m" and free: "free_heads_empty st"
    and idx: "hash_index env (ev_stream e) < DATA_CACHE_TABLE_SIZE" and ok: "event_ok e"
  shows "\<exists>h i st1. cache_rel env st1 (event_spec e m) \<and> free_heads_empty st1 \<and> gz_mem st1 = gz_mem st \<and>
     i < length (cache st1 h) \<and>
     handle_event env f e st = (if server_data e then process_gzip_data f h i st1 else Some st1)"
proof (cases "ev_state e = NIDS_DATA \<and> count_new_urg (ev_server e) = 0 \<and> count_new_urg (ev_client e) = 0")
  case True
  let ?c = "count_new (ev_client e) = 0"
  let ?ds = "if ?c then take (count_new (ev_server e)) (hdata (ev_server e))
    else take (count_new (ev_client e)) (hdata (ev_client e))"
  have "handle_event env f e st = insert_new_data_segment env f (ev_stream e) ?ds ?c st"
    "event_spec e m = map_insert (ev_stream e) ?ds ?c m" "server_data e \<longleftrightarrow> \<not> ?c"
    using True ok by (simp_all add: handle_event_def tcp_stream_handler_def event_spec_def event_ok_def server_data_def Let_def)
  moreover from insert_rel [OF rel free idx, of f ?ds ?c] obtain h i st1 where
    "insert_new_data_segment env f (ev_stream e) ?ds ?c st = (if ?c then Some st1 else process_gzip_data f h i st1)"
    "i < length (cache st1 h)" "cache_rel env st1 (map_insert (ev_stream e) ?ds ?c m)"
    "free_heads_empty st1" "gz_mem st1 = gz_mem st" by blast
  ultimately show ?thesis by (intro exI [of _ h] exI [of _ i] exI [of _ st1]) simp
next
  case False
  have ne: "0 < length (cache st1 0)" if "cache_rel env st1 m1" for st1 :: "'a stream_state" and m1
  proof -
    have "chain_ok env 0 (cache st1 0) m1" using that by (simp add: cache_rel_def)
    from chain_ok_ne [OF this] show ?thesis by simp
  qed
  have "\<exists>st1. cache_rel env st1 (event_spec e m) \<and> free_heads_empty st1 \<and> gz_mem st1 = gz_mem st \<and>
     handle_event env f e st = Some st1"
  proof (cases "ev_state e = NIDS_DATA")
    case True
    then show ?thesis using False rel free by (auto simp: handle_event_def tcp_stream_handler_def event_spec_def)
  next
    case False
    then show ?thesis
      using free_rel [OF rel free idx] established_rel [OF rel free idx, of f "ev_server e" "ev_client e"]
      by (cases "ev_state e") (auto simp: handle_event_def tcp_stream_handler_def event_spec_def)
  qed
  then obtain st1 where st1: "cache_rel env st1 (event_spec e m)" "free_heads_empty st1" "gz_mem st1 = gz_mem st"
    "handle_event env f e st = Some st1" by blast
  have "\<not> server_data e" using False by (auto simp: server_data_def)
  then show ?thesis using st1 ne [OF st1(1)] by (intro exI [of _ 0] exI [of _ 0] exI [of _ st1]) simp
qed

text \<open>
  The contract of a run.  \<open>stuck\<close> says that the handler has stored the segment of \<open>e\<close> and that
  the step that follows has no result.
\<close>

definition stuck :: "net_env \<Rightarrow> 'w gzip_step \<Rightarrow> event \<Rightarrow> 'w stream_state \<Rightarrow> stream_map \<Rightarrow> bool" where
  "stuck env f e st m \<longleftrightarrow> server_data e \<and>
     (\<exists>h i st1. gz_mem st1 = gz_mem st \<and> i < length (cache st1 h) \<and> stream_data env st1 = event_spec e m \<and>
        process_gzip_data f h i st1 = None \<and> handle_event env f e st = None)"

lemma stuck_at:
  assumes "evs = pre @ e # post" "ofold (handle_event env f) pre st = Some st1"
    and "stuck env f e st1 (fold event_spec pre m)"
  shows "\<exists>pre e post st1. evs = pre @ e # post \<and> ofold (handle_event env f) pre st = Some st1 \<and>
    stuck env f e st1 (fold event_spec pre m)"
  using assms by blast

lemma handle_events_rel:
  assumes "cache_rel env st m" "free_heads_empty st"
    and "\<forall>e\<in>set evs. hash_index env (ev_stream e) < DATA_CACHE_TABLE_SIZE \<and> event_ok e"
  shows "case ofold (handle_event env f) evs st of
     Some st' \<Rightarrow> cache_rel env st' (fold event_spec evs m) \<and> free_heads_empty st'
   | None \<Rightarrow> \<exists>pre e post st1. evs = pre @ e # post \<and> ofold (handle_event env f) pre st = Some st1 \<and>
       stuck env f e st1 (fold event_spec pre m)"
  using assms
proof (induction evs arbitrary: st m)
  case (Cons e evs)
  then obtain h i st1 where st1: "cache_rel env st1 (event_spec e m)" "free_heads_empty st1"
    "gz_mem st1 = gz_mem st" "i < length (cache st1 h)"
    "handle_event env f e st = (if server_data e then process_gzip_data f h i st1 else Some st1)"
    using handle_event_rel [of env st m e f] by auto
  show ?case
  proof (cases "handle_event env f e st")
    case None
    then have "stuck env f e st m"
      using st1 stream_data_rel [OF st1(1)] by (auto simp: stuck_def split: if_splits)
    then show ?thesis using None stuck_at [of "e # evs" "[]" e evs env f st st m] by simp
  next
    case (Some st2)
    then have 2: "cache_rel env st2 (event_spec e m) \<and> free_heads_empty st2"
      using st1 process_gzip_rel [OF st1(1,2,4)] by (auto split: if_splits)
    from Cons.IH [OF conjunct1 [OF 2] conjunct2 [OF 2]] Cons.prems(3)
    have IH: "case ofold (handle_event env f) evs st2 of
         Some st' \<Rightarrow> cache_rel env st' (fold event_spec evs (event_spec e m)) \<and> free_heads_empty st'
       | None \<Rightarrow> \<exists>pre e' post st1. evs = pre @ e' # post \<and> ofold (handle_event env f) pre st2 = Some st1 \<and>
           stuck env f e' st1 (fold event_spec pre (event_spec e m))" by simp
    show ?thesis
    proof (cases "ofold (handle_event env f) evs st2")
      case None
      with IH obtain pre e' post st3 where "evs = pre @ e' # post" "ofold (handle_event env f) pre st2 = Some st3"
        "stuck env f e' st3 (fold event_spec pre (event_spec e m))" by auto
      then show ?thesis using None Some stuck_at [of "e # evs" "e # pre" e' post env f st st3 m] by simp
    qed (use IH Some in simp)
  qed
qed simp

text \<open>
  What makes the step return: a property of the segments under which it has a result, with an invariant of the
  memory.
\<close>

locale returning_step =
  fixes f :: "'w gzip_step" and W :: "'w \<Rightarrow> bool" and P :: "char list \<Rightarrow> bool"
  assumes step_returns: "\<lbrakk>a_tcp dh \<noteq> None; down dh \<noteq> []; \<forall>s\<in>set (down dh). P s; W w\<rbrakk> \<Longrightarrow>
    \<exists>g block w'. f h i dh w = Some (g, block, w') \<and> W w'"
begin

definition map_ok :: "stream_map \<Rightarrow> bool" where
  "map_ok m \<longleftrightarrow> (\<forall>a u d. m a = Some (u, d) \<longrightarrow> (\<forall>s\<in>set d. P s))"

lemma process_returns:
  assumes "cache_rel env st m" "i < length (cache st h)" "map_ok m" "W (gz_mem st)"
  shows "\<exists>st'. process_gzip_data f h i st = Some st' \<and> W (gz_mem st')"
proof (cases "a_tcp (cache st h ! i) = None \<or> down (cache st h ! i) = []")
  case True
  then show ?thesis using assms(4) by (simp add: process_gzip_data_def Let_def)
next
  case False
  let ?dh = "cache st h ! i"
  obtain b where b: "a_tcp ?dh = Some b" using False by auto
  have "chain_ok env h (cache st h) m" using assms(1) by (simp add: cache_rel_def)
  from chain_ok_data [OF this assms(2) b] assms(3) have "\<forall>s\<in>set (down ?dh). P s"
    by (auto simp: map_ok_def)
  then obtain g block w where "f h i ?dh (gz_mem st) = Some (g, block, w)" "W w"
    using step_returns [of ?dh "gz_mem st" h i] b False assms(4) by auto
  then show ?thesis using False b by (simp add: process_gzip_data_def Let_def)
qed

lemma map_ok_event:
  assumes "map_ok m" "server_data e \<longrightarrow> P (take (count_new (ev_client e)) (hdata (ev_client e)))"
  shows "map_ok (event_spec e m)"
  using assms
  by (auto simp: map_ok_def event_spec_def map_insert_def server_data_def Let_def split: if_splits option.splits prod.splits)

lemma events_return:
  assumes "cache_rel env st m" "free_heads_empty st" "map_ok m" "W (gz_mem st)"
    and "\<forall>e\<in>set evs. hash_index env (ev_stream e) < DATA_CACHE_TABLE_SIZE \<and> event_ok e \<and>
      (server_data e \<longrightarrow> P (take (count_new (ev_client e)) (hdata (ev_client e))))"
  shows "ofold (handle_event env f) evs st \<noteq> None"
  using assms
proof (induction evs arbitrary: st m)
  case (Cons e evs)
  then obtain h i st1 where st1: "cache_rel env st1 (event_spec e m)" "free_heads_empty st1"
    "gz_mem st1 = gz_mem st" "i < length (cache st1 h)"
    "handle_event env f e st = (if server_data e then process_gzip_data f h i st1 else Some st1)"
    using handle_event_rel [of env st m e f] by auto
  have ok: "map_ok (event_spec e m)" using Cons.prems(3,5) by (intro map_ok_event) auto
  have W: "W (gz_mem st1)" using st1(3) Cons.prems(4) by simp
  have "\<exists>st2. handle_event env f e st = Some st2 \<and> W (gz_mem st2) \<and> cache_rel env st2 (event_spec e m) \<and> free_heads_empty st2"
    using st1 W process_returns [OF st1(1,4) ok W] process_gzip_rel [OF st1(1,2,4)] by auto
  then obtain st2 where st2: "handle_event env f e st = Some st2" "W (gz_mem st2)"
    "cache_rel env st2 (event_spec e m)" "free_heads_empty st2" by blast
  show ?case using st2(1) Cons.IH [OF st2(3,4) ok st2(2)] Cons.prems(5) by simp
qed simp

end

section \<open>Properties\<close>

lemma hash_index_less:
  assumes "e_table_size env \<noteq> 0" "unat (e_table_size env) \<le> DATA_CACHE_TABLE_SIZE"
  shows "hash_index env a < DATA_CACHE_TABLE_SIZE"
  using mk_hash_index_less [OF assms(1), of "e_perm env" "e_xor env" "e_addr env a"] assms(2)
  by (simp add: hash_index_def word_less_nat_alt)

definition sample_env :: "32 word \<Rightarrow> net_env" where
  "sample_env n = \<lparr>e_perm = [0..<12], e_xor = replicate 12 0, e_table_size = n,
     e_addr = (\<lambda>_. \<lparr>source = 1, dest = 80, saddr = 2, daddr = 3\<rparr>)\<rparr>"

definition sample_stream_state :: "unit stream_state" where
  "sample_stream_state =
     \<lparr>cache = init_cache, gk_state = (\<lambda>_. 0), collect = (\<lambda>_. (0, 0)), next_alloc = 0, gz_mem = ()\<rparr>"

definition sample_event :: "nat \<Rightarrow> nids_state \<Rightarrow> char list \<Rightarrow> event" where
  "sample_event a s bytes = \<lparr>ev_stream = a, ev_state = s,
     ev_server = \<lparr>count_new = length bytes, count_new_urg = 0, hdata = bytes\<rparr>,
     ev_client = \<lparr>count_new = 0, count_new_urg = 0, hdata = []\<rparr>\<rparr>"

lemma sample_index: "hash_index (sample_env 1) a = 0"
  by (simp add: hash_index_def sample_env_def mk_hash_index_def Let_def)

lemma stream_cache_contract:
  assumes "cache st = init_cache"
    and "e_table_size env \<noteq> 0" "unat (e_table_size env) \<le> DATA_CACHE_TABLE_SIZE"
    and "\<forall>e\<in>set evs. event_ok e"
  shows "case ofold (handle_event env f) evs st of
     Some st' \<Rightarrow> stream_data env st' = fold event_spec evs (\<lambda>_. None)
   | None \<Rightarrow> \<exists>pre e post st1. evs = pre @ e # post \<and> ofold (handle_event env f) pre st = Some st1 \<and>
       stuck env f e st1 (fold event_spec pre (\<lambda>_. None))"
proof -
  have free: "free_heads_empty st" using assms(1) by (simp add: free_heads_empty_def init_cache_def empty_head_def)
  have "\<forall>e\<in>set evs. hash_index env (ev_stream e) < DATA_CACHE_TABLE_SIZE \<and> event_ok e"
    using hash_index_less [OF assms(2,3)] assms(4) by blast
  from handle_events_rel [OF cache_rel_init [OF assms(1)] free this, of f] show ?thesis
    by (auto simp: stream_data_rel split: option.splits)
qed

text \<open>A new connection with the address of an old one that libnids never ended does not free the
  old one: the handler looks for the address but frees the stream of the new connection, which
  has no head, so the old segments stay in the cache.\<close>

lemma established_keeps_stale:
  assumes "cache st = init_cache" "e_table_size env \<noteq> 0"
    and "unat (e_table_size env) \<le> DATA_CACHE_TABLE_SIZE" "\<forall>e\<in>set evs. event_ok e"
    and "fold event_spec evs (\<lambda>_. None) b = Some ud" "a \<noteq> b" "e_addr env a = e_addr env b"
    and "event_ok e" "ev_state e = NIDS_JUST_EST" "ev_stream e = a"
    and run: "ofold (handle_event env f) (evs @ [e]) st = Some st'"
  shows "stream_data env st' b = Some ud"
proof -
  have "\<forall>x\<in>set (evs @ [e]). event_ok x" using assms(4,8) by auto
  from stream_cache_contract [OF assms(1,2,3) this, of f] run
  have "stream_data env st' = fold event_spec (evs @ [e]) (\<lambda>_. None)" by simp
  then show ?thesis using assms(5,6,9,10) by (simp add: event_spec_def)
qed

lemma established_keeps_stale_witness:
  "\<exists>st'. ofold (handle_event (sample_env 1) (\<lambda>h i dh w. None))
     ([sample_event 1 NIDS_DATA ''a''] @ [sample_event 2 NIDS_JUST_EST '''']) sample_stream_state = Some st' \<and>
     stream_data (sample_env 1) st' 1 = Some ([''a''], [])"
proof -
  let ?run = "ofold (handle_event (sample_env 1) (\<lambda>h i dh w. None))
     ([sample_event 1 NIDS_DATA ''a''] @ [sample_event 2 NIDS_JUST_EST '''']) sample_stream_state"
  have "?run \<noteq> None"
    using stream_cache_contract [of sample_stream_state "sample_env 1"
        "[sample_event 1 NIDS_DATA ''a''] @ [sample_event 2 NIDS_JUST_EST '''']" "\<lambda>h i dh w. None"]
    by (auto simp: sample_stream_state_def sample_env_def
        DATA_CACHE_TABLE_SIZE_def sample_event_def event_ok_def stuck_def server_data_def Cons_eq_append_conv split: option.splits)
  then obtain st' where run: "?run = Some st'" by blast
  have "stream_data (sample_env 1) st' 1 = Some ([''a''], [])"
    by (rule established_keeps_stale [OF _ _ _ _ _ _ _ _ _ _ run, where a = 2])
       (simp_all add: sample_stream_state_def sample_env_def DATA_CACHE_TABLE_SIZE_def sample_event_def
         event_ok_def event_spec_def map_insert_def)
  then show ?thesis using run by blast
qed

text \<open>When a segment from the client opens a new head, the buffers for its decompression are
  allocated for the head before it: the new head has none, and those of the stream before it are
  replaced (and lost) in the middle of its decompression.\<close>

lemma new_head_without_buffers:
  assumes "hash_index env a < DATA_CACHE_TABLE_SIZE"
    and "cache st (hash_index env a) = chain" "chain \<noteq> []"
    and "\<forall>dh\<in>set chain. a_tcp dh \<noteq> None \<and> a_tcp dh \<noteq> Some a"
  shows "\<exists>st'. insert_new_data_segment env f a ds True st = Some st' \<and>
     (let chain' = cache st' (hash_index env a) in
      length chain' = length chain + 1 \<and> a_tcp (last chain') = Some a \<and>
      gz_dist_buf (gz (last chain')) = None \<and> gz_litter_buf (gz (last chain')) = None \<and>
      gz_dist_buf (gz (chain' ! (length chain - 1))) = Some (next_alloc st) \<and>
      gz_litter_buf (gz (chain' ! (length chain - 1))) = Some (next_alloc st + 1))"
proof -
  define h where "h = hash_index env a"
  define i where "i = find_stream chain a"
  note fs = find_stream_spec [OF assms(3), of a, folded i_def]
  have "chain ! i \<in> set chain" using fs(1) by simp
  then obtain c where c: "a_tcp (chain ! i) = Some c" "c \<noteq> a" using assms(4) by auto
  have last: "i = length chain - 1" using fs(3) c by simp
  then have i: "Suc i = length chain" using fs(1) by simp
  have bucket: "bucket env a st = Some (h, chain)" using assms(1,2) by (simp add: bucket_def h_def)
  have "take i chain @ [x, y] = butlast chain @ [x, y]" for x y
    using last assms(3) by (simp add: butlast_conv_take)
  then show ?thesis using c i [symmetric]
    by (simp add: insert_new_data_segment_def bucket i_def [symmetric] Let_def h_def [symmetric]
        nth_append empty_head_def)
qed

lemma new_head_without_buffers_witness:
  "\<exists>st'. insert_new_data_segment (sample_env 1) (\<lambda>h i dh w. None) 1 ''x'' True
      (sample_stream_state\<lparr>cache := (\<lambda>_. [empty_head\<lparr>a_tcp := Some 7\<rparr>])\<rparr>) = Some st' \<and>
     gz_dist_buf (gz (last (cache st' 0))) = None"
  using new_head_without_buffers [of "sample_env 1" 1 "sample_stream_state\<lparr>cache := (\<lambda>_. [empty_head\<lparr>a_tcp := Some 7\<rparr>])\<rparr>"
      "[empty_head\<lparr>a_tcp := Some 7\<rparr>]" "\<lambda>h i dh w. None" "''x''"]
  by (auto simp: sample_index DATA_CACHE_TABLE_SIZE_def Let_def)

end
