(* ===== verification/Acsmx.thy ===== *)
theory Acsmx
  imports CPrelude
begin

text \<open>
  The keyword automaton of \<^verbatim>\<open>acsmx.c\<close> / \<^verbatim>\<open>acsmx.h\<close>: the queue, the pattern list, the
  table of states, \<open>acsmCompile\<close> (trie of the patterns, then failure links and complete
  transitions by breadth-first search) and the three searches.

  \<^item> \<open>int NextState[256]\<close>, indexed by an \<open>unsigned char\<close>, is a function
    \<open>char \<Rightarrow> int\<close>; the linked lists of patterns are lists; \<open>acsmStateTable\<close> is the
    list of its rows, and the null table of a fresh struct is \<open>[]\<close>: every access to a row is
    checked and an access outside the table is \<open>None\<close>.
  \<^item> The operations take a record scheme, so that \<^verbatim>\<open>acsm.c\<close>, whose struct has one more
    field, can use the ones it repeats verbatim.
\<close>

section \<open>The queue of the breadth-first search\<close>

record QUEUE =
  q_items :: "int list"   \<comment> \<open>the nodes from \<open>head\<close> to \<open>tail\<close>; \<open>[]\<close> is \<open>head == 0\<close>\<close>
  q_count :: int

definition queue_init :: QUEUE where
  "queue_init = \<lparr>q_items = [], q_count = 0\<rparr>"

definition queue_add :: "QUEUE \<Rightarrow> int \<Rightarrow> QUEUE" where
  "queue_add s state =
     (let s1 = (if q_items s = [] then s\<lparr>q_items := [state]\<rparr>
                else s\<lparr>q_items := q_items s @ [state]\<rparr>)
      in s1\<lparr>q_count := q_count s1 + 1\<rparr>)"

definition queue_remove :: "QUEUE \<Rightarrow> int \<times> QUEUE" where
  "queue_remove s =
     (case q_items s of
        [] \<Rightarrow> (0, s)
      | state # rest \<Rightarrow>
          (let s1 = s\<lparr>q_items := rest, q_count := q_count s - 1\<rparr>
           in (state, if rest = [] then s1\<lparr>q_count := 0\<rparr> else s1)))"

definition queue_count :: "QUEUE \<Rightarrow> int" where
  "queue_count s = q_count s"

section \<open>Patterns, rows and the machine\<close>

record ACSM_PATTERN =
  patrn :: string
  pat_n :: nat

record ACSM_STATETABLE =
  NextState :: "char \<Rightarrow> int"
  FailState :: int
  MatchList :: "ACSM_PATTERN list"

record ACSM_STRUCT =
  acsmMaxStates :: int
  acsmNumStates :: int
  acsmPatterns :: "ACSM_PATTERN list"
  acsmStateTable :: "ACSM_STATETABLE list"

definition ACSM_FAIL_STATE :: int where "ACSM_FAIL_STATE = -1"

definition alphabet :: "char list" where
  \<comment> \<open>the values of \<open>i\<close> in \<open>for (i = 0; i < ALPHABET_SIZE; i++)\<close>\<close>
  "alphabet = map char_of [0..<256::nat]"

definition state_at :: "'a ACSM_STRUCT_scheme \<Rightarrow> int \<Rightarrow> ACSM_STATETABLE option" where
  "state_at acsm s =
     (if 0 \<le> s \<and> nat s < length (acsmStateTable acsm) then Some (acsmStateTable acsm ! nat s)
      else None)"

definition set_state ::
  "int \<Rightarrow> ACSM_STATETABLE \<Rightarrow> 'a ACSM_STRUCT_scheme \<Rightarrow> 'a ACSM_STRUCT_scheme" where
  "set_state s row acsm = acsm\<lparr>acsmStateTable := (acsmStateTable acsm)[nat s := row]\<rparr>"

section \<open>Building the trie\<close>

text \<open>\<open>acsmNew\<close>: every field zero, so no pattern and no table.\<close>

definition acsmNew :: ACSM_STRUCT where
  "acsmNew = \<lparr>acsmMaxStates = 0, acsmNumStates = 0, acsmPatterns = [], acsmStateTable = []\<rparr>"

definition acsmAddPattern ::
  "'a ACSM_STRUCT_scheme \<Rightarrow> string \<Rightarrow> nat \<Rightarrow> 'a ACSM_STRUCT_scheme" where
  "acsmAddPattern p pat len =
     p\<lparr>acsmPatterns := \<lparr>patrn = take len pat, pat_n = len\<rparr> # acsmPatterns p\<rparr>"

text \<open>
  \<open>acsmDelPattern\<close>: \<open>strcmp\<close> with the first pattern comes before the test that there is one,
  so an empty list is a null dereference.
\<close>

fun unlink_pattern :: "ACSM_PATTERN list \<Rightarrow> string \<Rightarrow> ACSM_PATTERN list" where
  \<comment> \<open>the \<open>while (plist->next)\<close> loop on the nodes behind \<open>plist\<close>\<close>
  "unlink_pattern [] pat = []"
| "unlink_pattern (cu # rest) pat =
     (if pat = cstr (patrn cu) then rest else cu # unlink_pattern rest pat)"

definition acsmDelPattern ::
  "'a ACSM_STRUCT_scheme \<Rightarrow> string \<Rightarrow> 'a ACSM_STRUCT_scheme option" where
  "acsmDelPattern p pat =
     (case acsmPatterns p of
        [] \<Rightarrow> None
      | plist # rest \<Rightarrow>
          Some (if pat = cstr (patrn plist) then p\<lparr>acsmPatterns := rest\<rparr>
                else p\<lparr>acsmPatterns := plist # unlink_pattern rest pat\<rparr>))"

definition AddMatchListEntry ::
  "int \<Rightarrow> ACSM_PATTERN \<Rightarrow> 'a ACSM_STRUCT_scheme \<Rightarrow> 'a ACSM_STRUCT_scheme option" where
  "AddMatchListEntry state px acsm = do {
     row \<leftarrow> state_at acsm state;
     Some (set_state state (row\<lparr>MatchList := px # MatchList row\<rparr>) acsm) }"

text \<open>The two loops of \<open>AddPatternStates\<close>: follow existing states, then one new state per byte.\<close>

fun match_existing :: "'a ACSM_STRUCT_scheme \<Rightarrow> int \<Rightarrow> string \<Rightarrow> (int \<times> string) option" where
  "match_existing acsm state [] = Some (state, [])"
| "match_existing acsm state (c # pattern) = do {
     row \<leftarrow> state_at acsm state;
     let nxt = NextState row c;
     if nxt = ACSM_FAIL_STATE then Some (state, c # pattern)
     else match_existing acsm nxt pattern }"

fun add_states ::
  "'a ACSM_STRUCT_scheme \<Rightarrow> int \<Rightarrow> string \<Rightarrow> ('a ACSM_STRUCT_scheme \<times> int) option" where
  "add_states acsm state [] = Some (acsm, state)"
| "add_states acsm state (c # pattern) = do {
     let acsm1 = acsm\<lparr>acsmNumStates := acsmNumStates acsm + 1\<rparr>;
     row \<leftarrow> state_at acsm1 state;
     let acsm2 = set_state state
                   (row\<lparr>NextState := (NextState row)(c := acsmNumStates acsm1)\<rparr>) acsm1;
     add_states acsm2 (acsmNumStates acsm1) pattern }"

definition AddPatternStates ::
  "ACSM_PATTERN \<Rightarrow> 'a ACSM_STRUCT_scheme \<Rightarrow> 'a ACSM_STRUCT_scheme option" where
  "AddPatternStates p acsm = do {
     (state, rest) \<leftarrow> match_existing acsm 0 (take (pat_n p) (patrn p));
     (acsm1, state1) \<leftarrow> add_states acsm state rest;
     AddMatchListEntry state1 p acsm1 }"

section \<open>Failure links and complete transitions\<close>

partial_function (option) find_next :: "'a ACSM_STRUCT_scheme \<Rightarrow> int \<Rightarrow> char \<Rightarrow> int option" where
  \<comment> \<open>\<open>while ((next = StateTable[fs].NextState[i]) == ACSM_FAIL_STATE) fs = StateTable[fs].FailState\<close>\<close>
  "find_next acsm fs i = do {
     row \<leftarrow> state_at acsm fs;
     if NextState row i = ACSM_FAIL_STATE then find_next acsm (FailState row) i
     else Some (NextState row i) }"

definition seed_char ::
  "char \<Rightarrow> QUEUE \<times> 'a ACSM_STRUCT_scheme \<Rightarrow> (QUEUE \<times> 'a ACSM_STRUCT_scheme) option" where
  "seed_char i = (\<lambda>(queue, acsm). do {
     row0 \<leftarrow> state_at acsm 0;
     let s = NextState row0 i;
     if s \<noteq> 0 then do {
       row \<leftarrow> state_at acsm s;
       Some (queue_add queue s, set_state s (row\<lparr>FailState := 0\<rparr>) acsm) }
     else Some (queue, acsm) })"

definition dfa_char ::
  "int \<Rightarrow> char \<Rightarrow> QUEUE \<times> 'a ACSM_STRUCT_scheme \<Rightarrow> (QUEUE \<times> 'a ACSM_STRUCT_scheme) option" where
  "dfa_char r i = (\<lambda>(queue, acsm). do {
     row \<leftarrow> state_at acsm r;
     let s = NextState row i;
     if s \<noteq> ACSM_FAIL_STATE then do {
       nxt \<leftarrow> find_next acsm (FailState row) i;
       srow \<leftarrow> state_at acsm s;
       let acsm1 = set_state s (srow\<lparr>FailState := nxt\<rparr>) acsm;
       nrow \<leftarrow> state_at acsm1 nxt;
       acsm2 \<leftarrow> ofold (AddMatchListEntry s) (MatchList nrow) acsm1;
       Some (queue_add queue s, acsm2) }
     else do {
       frow \<leftarrow> state_at acsm (FailState row);
       Some (queue, set_state r (row\<lparr>NextState := (NextState row)(i := NextState frow i)\<rparr>) acsm) } })"

partial_function (option) bfs_loop ::
  "QUEUE \<Rightarrow> 'a ACSM_STRUCT_scheme \<Rightarrow> 'a ACSM_STRUCT_scheme option" where
  "bfs_loop queue acsm =
     (if queue_count queue > 0
      then do {
        (queue2, acsm2) \<leftarrow>
          ofold (dfa_char (fst (queue_remove queue))) alphabet (snd (queue_remove queue), acsm);
        bfs_loop queue2 acsm2 }
      else Some acsm)"

definition Build_DFA :: "'a ACSM_STRUCT_scheme \<Rightarrow> 'a ACSM_STRUCT_scheme option" where
  "Build_DFA acsm = do {
     (queue, acsm1) \<leftarrow> ofold seed_char alphabet (queue_init, acsm);
     bfs_loop queue acsm1 }"

definition blank_row :: ACSM_STATETABLE where
  \<comment> \<open>\<open>memset\<close> to zero, then every \<open>NextState\<close> set to \<open>ACSM_FAIL_STATE\<close>\<close>
  "blank_row = \<lparr>NextState = (\<lambda>_. ACSM_FAIL_STATE), FailState = 0, MatchList = []\<rparr>"

definition count_states :: "ACSM_PATTERN list \<Rightarrow> nat" where
  "count_states ps = 1 + sum_list (map pat_n ps)"

definition init_states :: "'a ACSM_STRUCT_scheme \<Rightarrow> 'a ACSM_STRUCT_scheme" where
  "init_states acsm =
     acsm\<lparr>acsmMaxStates := int (count_states (acsmPatterns acsm)),
          acsmStateTable := replicate (count_states (acsmPatterns acsm)) blank_row,
          acsmNumStates := 0\<rparr>"

definition close_root :: "'a ACSM_STRUCT_scheme \<Rightarrow> 'a ACSM_STRUCT_scheme option" where
  "close_root acsm = do {
     row \<leftarrow> state_at acsm 0;
     Some (set_state 0 (row\<lparr>NextState :=
       (\<lambda>i. if NextState row i = ACSM_FAIL_STATE then 0 else NextState row i)\<rparr>) acsm) }"

definition acsmCompile :: "'a ACSM_STRUCT_scheme \<Rightarrow> 'a ACSM_STRUCT_scheme option" where
  "acsmCompile acsm = do {
     acsm1 \<leftarrow> ofold AddPatternStates (acsmPatterns acsm) (init_states acsm);
     acsm2 \<leftarrow> close_root acsm1;
     Build_DFA acsm2 }"

section \<open>Searching\<close>

text \<open>
  The three searches run the same loop over the text; \<open>T\<close> is the offset of the byte read.
  They differ in what they do with the match list of the state reached.
\<close>

fun search_from :: "'a ACSM_STRUCT_scheme \<Rightarrow> int \<Rightarrow> string \<Rightarrow> nat \<Rightarrow> nat option" where
  "search_from acsm state [] nfound = Some nfound"
| "search_from acsm state (c # T) nfound = do {
     row \<leftarrow> state_at acsm state;
     let state1 = NextState row c;
     row1 \<leftarrow> state_at acsm state1;
     search_from acsm state1 T (nfound + length (MatchList row1)) }"

definition acsmSearch :: "'a ACSM_STRUCT_scheme \<Rightarrow> string \<Rightarrow> nat \<Rightarrow> nat option" where
  "acsmSearch acsm Tx len = search_from acsm 0 (take len Tx) 0"

fun search_offset_from ::
  "'a ACSM_STRUCT_scheme \<Rightarrow> int \<Rightarrow> string \<Rightarrow> nat \<Rightarrow> int list \<Rightarrow> int list option" where
  "search_offset_from acsm state [] T offs = Some offs"
| "search_offset_from acsm state (c # Tx) T offs = do {
     row \<leftarrow> state_at acsm state;
     let state1 = NextState row c;
     row1 \<leftarrow> state_at acsm state1;
     search_offset_from acsm state1 Tx (T + 1)
       (offs @ map (\<lambda>m. int T - int (pat_n m) + 1) (MatchList row1)) }"

definition acsmSearch_offset :: "'a ACSM_STRUCT_scheme \<Rightarrow> string \<Rightarrow> nat \<Rightarrow> int list option" where
  \<comment> \<open>the entries written to \<open>offsetlist\<close>, in order; the return value is their number\<close>
  "acsmSearch_offset acsm Tx len = search_offset_from acsm 0 (take len Tx) 0 []"

text \<open>
  \<open>acsmSearch_kw\<close> copies the bytes of every match into the next buffer of \<open>keywords\<close>: a
  match with no buffer left, or longer than its buffer, is out of bounds.
\<close>

fun copy_keywords :: "ACSM_PATTERN list \<Rightarrow> nat \<times> string list \<Rightarrow> (nat \<times> string list) option" where
  "copy_keywords [] (nfound, kws) = Some (nfound, kws)"
| "copy_keywords (m # ms) (nfound, kws) =
     (if nfound < length kws
      then do {
        buf \<leftarrow> memcpy (kws ! nfound) 0 (take (pat_n m) (patrn m));
        copy_keywords ms (nfound + 1, kws[nfound := buf]) }
      else None)"

fun search_kw_from ::
  "'a ACSM_STRUCT_scheme \<Rightarrow> int \<Rightarrow> string \<Rightarrow> nat \<times> string list \<Rightarrow> (nat \<times> string list) option" where
  "search_kw_from acsm state [] out = Some out"
| "search_kw_from acsm state (c # T) out = do {
     row \<leftarrow> state_at acsm state;
     let state1 = NextState row c;
     row1 \<leftarrow> state_at acsm state1;
     out1 \<leftarrow> copy_keywords (MatchList row1) out;
     search_kw_from acsm state1 T out1 }"

definition acsmSearch_kw ::
  "'a ACSM_STRUCT_scheme \<Rightarrow> string \<Rightarrow> nat \<Rightarrow> string list \<Rightarrow> (nat \<times> string list) option" where
  "acsmSearch_kw acsm Tx len keywords = search_kw_from acsm 0 (take len Tx) (0, keywords)"

end
