(* ===== verification/AcsmxTrie.thy ===== *)
theory AcsmxTrie
  imports Acsmx
begin

text \<open>
  The first phase of \<open>acsmCompile\<close> (\<open>AddPatternStates\<close> over the pattern list) builds the
  trie of the patterns.  States are described by their words: a list \<open>ws\<close> gives, at index
  \<open>q\<close>, the string that leads from state 0 to state \<open>q\<close>.  \<open>trie_inv\<close> says that the table is
  the trie of the words, that the words are the prefixes of the patterns added so far, and that
  each match list holds the patterns that end at its state.
\<close>

section \<open>Access to the table\<close>

lemma state_at_int [simp]:
  "q < length (acsmStateTable acsm) \<Longrightarrow> state_at acsm (int q) = Some (acsmStateTable acsm ! q)"
  by (simp add: state_at_def)

lemma state_at_0 [simp]:
  "0 < length (acsmStateTable acsm) \<Longrightarrow> state_at acsm 0 = Some (acsmStateTable acsm ! 0)"
  by (simp add: state_at_def)

lemma set_state_fields [simp]:
  "acsmStateTable (set_state (int q) row acsm) = (acsmStateTable acsm)[q := row]"
  "acsmStateTable (set_state 0 row acsm) = (acsmStateTable acsm)[0 := row]"
  "acsmNumStates (set_state s row acsm) = acsmNumStates acsm"
  "acsmMaxStates (set_state s row acsm) = acsmMaxStates acsm"
  "acsmPatterns (set_state s row acsm) = acsmPatterns acsm"
  by (simp_all add: set_state_def)

section \<open>Words of the states\<close>

definition edge :: "string list \<Rightarrow> string \<Rightarrow> int \<Rightarrow> bool" where
  "edge ws x r \<longleftrightarrow> r = ACSM_FAIL_STATE \<and> x \<notin> set ws \<or> (\<exists>k<length ws. r = int k \<and> ws ! k = x)"

definition pclosed :: "string list \<Rightarrow> bool" where
  "pclosed ws \<longleftrightarrow> (\<forall>x c. x @ [c] \<in> set ws \<longrightarrow> x \<in> set ws)"

definition trie_words :: "string list \<Rightarrow> bool" where
  "trie_words ws \<longleftrightarrow> 0 < length ws \<and> ws ! 0 = [] \<and> distinct ws \<and> pclosed ws"

definition trie_shape :: "string list \<Rightarrow> 'a ACSM_STRUCT_scheme \<Rightarrow> bool" where
  "trie_shape ws acsm \<longleftrightarrow>
     trie_words ws \<and> acsmNumStates acsm = int (length ws) - 1 \<and>
     length ws \<le> length (acsmStateTable acsm) \<and>
     (\<forall>q<length ws. \<forall>c. edge ws (ws ! q @ [c]) (NextState (acsmStateTable acsm ! q) c)) \<and>
     (\<forall>q<length (acsmStateTable acsm). length ws \<le> q \<longrightarrow>
        NextState (acsmStateTable acsm ! q) = (\<lambda>_. ACSM_FAIL_STATE))"

text \<open>What adding states does not touch.\<close>

definition same_rows :: "'a ACSM_STRUCT_scheme \<Rightarrow> 'a ACSM_STRUCT_scheme \<Rightarrow> bool" where
  "same_rows acsm acsm' \<longleftrightarrow>
     length (acsmStateTable acsm') = length (acsmStateTable acsm) \<and>
     acsmPatterns acsm' = acsmPatterns acsm \<and>
     (\<forall>q<length (acsmStateTable acsm).
        MatchList (acsmStateTable acsm' ! q) = MatchList (acsmStateTable acsm ! q))"

lemma same_rows_refl [simp]: "same_rows acsm acsm"
  by (simp add: same_rows_def)

lemma same_rows_trans: "same_rows a b \<Longrightarrow> same_rows b c \<Longrightarrow> same_rows a c"
  by (simp add: same_rows_def)

lemma edge_nat: "edge ws x (int k) \<longleftrightarrow> k < length ws \<and> ws ! k = x"
  by (auto simp: edge_def ACSM_FAIL_STATE_def)

lemma edge_fail: "edge ws x ACSM_FAIL_STATE \<longleftrightarrow> x \<notin> set ws"
  by (auto simp: edge_def ACSM_FAIL_STATE_def)

lemma edge_cases:
  assumes "edge ws x r"
  obtains (fail) "r = ACSM_FAIL_STATE" "x \<notin> set ws"
    | (state) k where "k < length ws" "r = int k" "ws ! k = x" "r \<noteq> ACSM_FAIL_STATE"
  using assms by (auto simp: edge_def ACSM_FAIL_STATE_def)

lemma edge_append: "edge ws x r \<Longrightarrow> x \<notin> set ws' \<Longrightarrow> edge (ws @ ws') x r"
  by (auto simp: edge_def nth_append)

lemma pclosed_prefix: "pclosed ws \<Longrightarrow> x @ y \<in> set ws \<Longrightarrow> x \<in> set ws"
proof (induction y rule: rev_induct)
  case (snoc c y)
  then show ?case by (metis append_assoc pclosed_def)
qed simp

section \<open>Following existing states\<close>

lemma match_existing_trie:
  assumes "trie_shape ws acsm" "q < length ws"
  shows "\<exists>k u rest. match_existing acsm (int q) p = Some (int k, rest) \<and> k < length ws \<and>
           p = u @ rest \<and> ws ! k = ws ! q @ u \<and> (rest \<noteq> [] \<longrightarrow> ws ! k @ [hd rest] \<notin> set ws)"
  using assms(2)
proof (induction p arbitrary: q)
  case Nil
  then show ?case by auto
next
  case (Cons c p)
  let ?row = "acsmStateTable acsm ! q"
  have q: "q < length (acsmStateTable acsm)" and e: "edge ws (ws ! q @ [c]) (NextState ?row c)"
    using assms(1) Cons.prems by (auto simp: trie_shape_def)
  from e show ?case
  proof (cases rule: edge_cases)
    case fail
    then show ?thesis using q Cons.prems by auto
  next
    case (state k)
    from Cons.IH [OF state(1)] obtain k' u rest where
      ih: "match_existing acsm (int k) p = Some (int k', rest)" "k' < length ws" "p = u @ rest"
        "ws ! k' = ws ! k @ u" "rest \<noteq> [] \<longrightarrow> ws ! k' @ [hd rest] \<notin> set ws" by blast
    then have "match_existing acsm (int q) (c # p) = Some (int k', rest)"
      using q state by simp
    with ih state(3) show ?thesis
      by (intro exI [of _ k'] exI [of _ "c # u"] exI [of _ rest]) auto
  qed
qed

section \<open>Adding one state per byte\<close>

lemma trie_words_snoc:
  assumes "trie_words ws" "q < length ws" "ws ! q @ [c] \<notin> set ws"
  shows "trie_words (ws @ [ws ! q @ [c]])"
  using assms by (auto simp: trie_words_def pclosed_def nth_append)

lemma trie_shape_extend:
  assumes shape: "trie_shape ws acsm" and q: "q < length ws" and new: "ws ! q @ [c] \<notin> set ws"
    and room: "length ws < length (acsmStateTable acsm)"
  defines "row \<equiv> acsmStateTable acsm ! q"
  defines "acsm2 \<equiv> set_state (int q) (row\<lparr>NextState := (NextState row)(c := int (length ws))\<rparr>)
                    (acsm\<lparr>acsmNumStates := int (length ws)\<rparr>)"
  shows "trie_shape (ws @ [ws ! q @ [c]]) acsm2"
proof -
  let ?w = "ws ! q @ [c]" let ?ws = "ws @ [?w]"
  have tw: "trie_words ws" and len: "length ws \<le> length (acsmStateTable acsm)"
    and edges: "\<And>q c. q < length ws \<Longrightarrow> edge ws (ws ! q @ [c]) (NextState (acsmStateTable acsm ! q) c)"
    and blank: "\<And>q. q < length (acsmStateTable acsm) \<Longrightarrow> length ws \<le> q \<Longrightarrow>
                  NextState (acsmStateTable acsm ! q) = (\<lambda>_. ACSM_FAIL_STATE)"
    using shape by (auto simp: trie_shape_def)
  have dist: "distinct ws" and pc: "pclosed ws" using tw by (auto simp: trie_words_def)
  have tbl: "acsmStateTable acsm2 = (acsmStateTable acsm)
      [q := row\<lparr>NextState := (NextState row)(c := int (length ws))\<rparr>]"
    by (simp add: acsm2_def)
  have ext: "edge ?ws (?ws ! p @ [d]) (NextState (acsmStateTable acsm2 ! p) d)"
    if p: "p < length ?ws" for p d
  proof (cases "p = length ws")
    case True
    have "?w @ [d] \<notin> set ?ws"
    proof
      assume "?w @ [d] \<in> set ?ws"
      then have "?w @ [d] \<in> set ws" by auto
      then show False using pclosed_prefix [OF pc] new by blast
    qed
    moreover have "NextState (acsmStateTable acsm2 ! p) d = ACSM_FAIL_STATE"
      using True q room blank by (simp add: tbl)
    ultimately show ?thesis using True by (simp add: edge_fail)
  next
    case False
    then have p': "p < length ws" using p by simp
    show ?thesis
    proof (cases "p = q \<and> d = c")
      case True
      then show ?thesis using q len p' by (simp add: tbl edge_nat nth_append)
    next
      case neq: False
      have "ws ! p @ [d] \<noteq> ?w"
        using neq p' q dist by (auto simp: nth_eq_iff_index_eq)
      moreover have "NextState (acsmStateTable acsm2 ! p) d = NextState (acsmStateTable acsm ! p) d"
        using neq p' q len by (cases "p = q") (auto simp: tbl row_def)
      ultimately show ?thesis
        using edge_append [OF edges [OF p', of d], of "[?w]"] p' by (simp add: nth_append)
    qed
  qed
  show ?thesis
    unfolding trie_shape_def
    using trie_words_snoc [OF tw q new] ext room q blank
    by (auto simp: tbl acsm2_def)
qed

lemma prefix_snoc_set:
  "{w @ u |u. prefix u (c # cs)} = insert w {(w @ [c]) @ u |u. prefix u cs}"
  by (auto simp: prefix_Cons)

lemma add_states_trie:
  assumes "trie_shape ws acsm" "q < length ws" "cs \<noteq> [] \<longrightarrow> ws ! q @ [hd cs] \<notin> set ws"
    and "length ws + length cs \<le> length (acsmStateTable acsm)"
  shows "\<exists>acsm' ws' k. add_states acsm (int q) cs = Some (acsm', int k) \<and>
           trie_shape (ws @ ws') acsm' \<and> k < length (ws @ ws') \<and> (ws @ ws') ! k = ws ! q @ cs \<and>
           length ws' = length cs \<and> set (ws @ ws') = set ws \<union> {ws ! q @ u |u. prefix u cs} \<and>
           same_rows acsm acsm'"
  using assms
proof (induction cs arbitrary: ws acsm q)
  case Nil
  then show ?case by (intro exI [of _ acsm] exI [of _ "[]"] exI [of _ q]) auto
next
  case (Cons c cs)
  let ?row = "acsmStateTable acsm ! q" and ?n = "length ws"
  let ?ws = "ws @ [ws ! q @ [c]]"
  let ?acsm2 = "set_state (int q) (?row\<lparr>NextState := (NextState ?row)(c := int ?n)\<rparr>)
                  (acsm\<lparr>acsmNumStates := int ?n\<rparr>)"
  have q: "q < length (acsmStateTable acsm)" and num: "acsmNumStates acsm + 1 = int ?n"
    using Cons.prems by (auto simp: trie_shape_def)
  have shape2: "trie_shape ?ws ?acsm2"
    by (rule trie_shape_extend) (use Cons.prems in auto)
  have same2: "same_rows acsm ?acsm2"
    using q by (auto simp: same_rows_def nth_list_update)
  have "\<not> (\<exists>d. (ws ! q @ [c]) @ [d] \<in> set ?ws)"
    using Cons.prems pclosed_prefix [of ws "ws ! q @ [c]"]
    by (auto simp: trie_shape_def trie_words_def)
  then have new2: "cs \<noteq> [] \<longrightarrow> ?ws ! ?n @ [hd cs] \<notin> set ?ws" by simp
  have room2: "length ?ws + length cs \<le> length (acsmStateTable ?acsm2)"
    using Cons.prems by simp
  obtain acsm' ws' k where ih: "add_states ?acsm2 (int ?n) cs = Some (acsm', int k)"
      "trie_shape (?ws @ ws') acsm'" "k < length (?ws @ ws')" "(?ws @ ws') ! k = ?ws ! ?n @ cs"
      "length ws' = length cs" "set (?ws @ ws') = set ?ws \<union> {?ws ! ?n @ u |u. prefix u cs}"
      "same_rows ?acsm2 acsm'"
    using Cons.IH [OF shape2 _ new2 room2] by auto
  have "add_states acsm (int q) (c # cs) = Some (acsm', int k)"
    using q num ih(1) by (simp add: state_at_def)
  moreover have "set (ws @ (ws ! q @ [c]) # ws') = set ws \<union> {ws ! q @ u |u. prefix u (c # cs)}"
    using ih(6) Cons.prems(2) unfolding prefix_snoc_set by auto
  ultimately show ?case
    using ih same_rows_trans [OF same2 ih(7)]
    by (intro exI [of _ acsm'] exI [of _ "(ws ! q @ [c]) # ws'"] exI [of _ k]) auto
qed

section \<open>The trie of a list of patterns\<close>

definition wf_pattern :: "ACSM_PATTERN \<Rightarrow> bool" where
  "wf_pattern p \<longleftrightarrow> pat_n p = length (patrn p)"

definition words_of :: "ACSM_PATTERN list \<Rightarrow> string set" where
  "words_of ps = insert [] {u. \<exists>p\<in>set ps. prefix u (patrn p)}"

definition trie_inv :: "string list \<Rightarrow> ACSM_PATTERN list \<Rightarrow> 'a ACSM_STRUCT_scheme \<Rightarrow> bool" where
  "trie_inv ws ps acsm \<longleftrightarrow>
     trie_shape ws acsm \<and> set ws = words_of ps \<and>
     (\<forall>q<length ws. MatchList (acsmStateTable acsm ! q) = filter (\<lambda>p. patrn p = ws ! q) (rev ps)) \<and>
     (\<forall>q<length (acsmStateTable acsm). length ws \<le> q \<longrightarrow> MatchList (acsmStateTable acsm ! q) = [])"

lemma trie_shape_cong:
  assumes "trie_shape ws acsm" "acsmNumStates acsm' = acsmNumStates acsm"
    "length (acsmStateTable acsm') = length (acsmStateTable acsm)"
    "\<And>q. q < length (acsmStateTable acsm) \<Longrightarrow>
       NextState (acsmStateTable acsm' ! q) = NextState (acsmStateTable acsm ! q)"
  shows "trie_shape ws acsm'"
  using assms unfolding trie_shape_def by auto

text \<open>
  What is left of \<open>AddPatternStates\<close> once the states of the rest of the pattern are added:
  the last of them gets the pattern.
\<close>

lemma attach_pattern_trie:
  assumes inv: "trie_inv ws ps acsm" and k: "k < length ws" "patrn p = ws ! k @ rest"
    and shape1: "trie_shape (ws @ ws') acsm1"
    and k1: "k1 < length (ws @ ws')" "(ws @ ws') ! k1 = patrn p"
    and words: "set (ws @ ws') = set ws \<union> {ws ! k @ v |v. prefix v rest}"
    and same: "same_rows acsm acsm1"
  shows "\<exists>acsm2. AddMatchListEntry (int k1) p acsm1 = Some acsm2 \<and> trie_inv (ws @ ws') (ps @ [p]) acsm2 \<and>
     acsm2 = set_state (int k1) ((acsmStateTable acsm1 ! k1)
       \<lparr>MatchList := p # MatchList (acsmStateTable acsm1 ! k1)\<rparr>) acsm1"
proof -
  have shape: "trie_shape ws acsm" using inv by (simp add: trie_inv_def)
  let ?row = "acsmStateTable acsm1 ! k1"
  let ?acsm2 = "set_state (int k1) (?row\<lparr>MatchList := p # MatchList ?row\<rparr>) acsm1"
  have k1': "k1 < length (acsmStateTable acsm1)" and dist: "distinct (ws @ ws')"
    using shape1 k1 by (auto simp: trie_shape_def trie_words_def)
  have len: "length (acsmStateTable acsm1) = length (acsmStateTable acsm)"
    and ml: "\<And>q. q < length (acsmStateTable acsm) \<Longrightarrow>
      MatchList (acsmStateTable acsm1 ! q) = MatchList (acsmStateTable acsm ! q)"
    using same by (auto simp: same_rows_def)
  have run: "AddMatchListEntry (int k1) p acsm1 = Some ?acsm2"
    using k1' by (simp add: AddMatchListEntry_def)
  have shape2: "trie_shape (ws @ ws') ?acsm2"
    by (rule trie_shape_cong [OF shape1]) (use k1' in \<open>auto simp: nth_list_update\<close>)
  have "prefix x (patrn p) \<longleftrightarrow> prefix x (ws ! k) \<or> (\<exists>v. x = ws ! k @ v \<and> prefix v rest)" for x
    using k(2) by (auto simp: prefix_append)
  moreover have "ws ! k \<in> set ws" using k(1) by simp
  then have "prefix x (ws ! k) \<Longrightarrow> x \<in> set ws" for x
    using shape pclosed_prefix by (auto simp: trie_shape_def trie_words_def prefix_def)
  ultimately have words2: "set (ws @ ws') = words_of (ps @ [p])"
    using words inv by (auto simp: words_of_def trie_inv_def)
  have old: "MatchList (acsmStateTable acsm1 ! q) = filter (\<lambda>p. patrn p = (ws @ ws') ! q) (rev ps)"
    if q: "q < length (ws @ ws')" for q
  proof (cases "q < length ws")
    case True
    then show ?thesis using inv ml shape by (auto simp: trie_inv_def trie_shape_def nth_append)
  next
    case False
    have "(ws @ ws') ! q \<notin> set ws"
      using dist q False by (auto simp: nth_append)
    then have "\<forall>p\<in>set ps. patrn p \<noteq> (ws @ ws') ! q"
      using inv by (auto simp: trie_inv_def words_of_def)
    moreover have "q < length (acsmStateTable acsm)"
      using q shape1 len by (auto simp: trie_shape_def)
    ultimately show ?thesis
      using False ml inv by (auto simp: trie_inv_def filter_empty_conv)
  qed
  have ml2: "MatchList (acsmStateTable ?acsm2 ! q) = filter (\<lambda>p. patrn p = (ws @ ws') ! q) (rev (ps @ [p]))"
    if q: "q < length (ws @ ws')" for q
  proof (cases "q = k1")
    case True
    then show ?thesis using old [OF q] k1' k1(2) by simp
  next
    case False
    then have "(ws @ ws') ! q \<noteq> patrn p" using q k1 dist by (metis nth_eq_iff_index_eq)
    then show ?thesis using False old [OF q] by simp
  qed
  have ml3: "MatchList (acsmStateTable ?acsm2 ! q) = []"
    if "q < length (acsmStateTable ?acsm2)" "length (ws @ ws') \<le> q" for q
    using that k1(1) ml inv len by (auto simp: trie_inv_def)
  show ?thesis
    using run shape2 words2 ml2 ml3 by (intro exI [of _ ?acsm2]) (simp add: trie_inv_def)
qed

lemma AddPatternStates_trie:
  assumes inv: "trie_inv ws ps acsm" and wf: "wf_pattern p"
    and room: "length ws + length (patrn p) \<le> length (acsmStateTable acsm)"
  shows "\<exists>acsm' ws'. AddPatternStates p acsm = Some acsm' \<and> trie_inv (ws @ ws') (ps @ [p]) acsm' \<and>
           length ws' \<le> length (patrn p) \<and> acsmPatterns acsm' = acsmPatterns acsm \<and>
           length (acsmStateTable acsm') = length (acsmStateTable acsm)"
proof -
  have shape: "trie_shape ws acsm" using inv by (simp add: trie_inv_def)
  then have w0: "0 < length ws" "ws ! 0 = []" by (auto simp: trie_shape_def trie_words_def)
  from match_existing_trie [OF shape w0(1), of "patrn p"]
  obtain k u rest where m: "match_existing acsm (int 0) (patrn p) = Some (int k, rest)" "k < length ws"
      "patrn p = u @ rest" "ws ! k = ws ! 0 @ u" "rest \<noteq> [] \<longrightarrow> ws ! k @ [hd rest] \<notin> set ws"
    by blast
  have wk: "ws ! k = u" using m(4) w0(2) by simp
  have "length ws + length rest \<le> length (acsmStateTable acsm)" using room m(3) by simp
  from add_states_trie [OF shape m(2,5) this]
  obtain acsm1 ws' k1 where a: "add_states acsm (int k) rest = Some (acsm1, int k1)"
      "trie_shape (ws @ ws') acsm1" "k1 < length (ws @ ws')" "(ws @ ws') ! k1 = patrn p"
      "length ws' = length rest" "set (ws @ ws') = set ws \<union> {ws ! k @ v |v. prefix v rest}"
      "same_rows acsm acsm1"
    using m(3) wk by auto
  from attach_pattern_trie [OF inv m(2) _ a(2-4) a(6,7)] m(3) wk
  obtain acsm2 where b: "AddMatchListEntry (int k1) p acsm1 = Some acsm2" "trie_inv (ws @ ws') (ps @ [p]) acsm2"
      "acsm2 = set_state (int k1) ((acsmStateTable acsm1 ! k1)
         \<lparr>MatchList := p # MatchList (acsmStateTable acsm1 ! k1)\<rparr>) acsm1"
    by auto
  have "AddPatternStates p acsm = Some acsm2"
    using m(1) a(1) b(1) wf by (simp add: AddPatternStates_def wf_pattern_def)
  moreover have "acsmPatterns acsm2 = acsmPatterns acsm"
    "length (acsmStateTable acsm2) = length (acsmStateTable acsm)"
    using a(7) by (simp_all add: b(3) same_rows_def)
  ultimately show ?thesis
    using b(2) a(5) m(3) by (intro exI [of _ acsm2] exI [of _ ws']) simp
qed

lemma count_states_snoc: "count_states (ps @ [p]) = count_states ps + pat_n p"
  by (simp add: count_states_def)

lemma count_states_append_le: "count_states xs \<le> count_states (xs @ ys)"
  by (simp add: count_states_def)

lemma trie_inv_init:
  "trie_inv [[]] [] (init_states acsm)"
  by (auto simp: trie_inv_def trie_shape_def trie_words_def pclosed_def init_states_def
      count_states_def words_of_def edge_def blank_row_def less_Suc_eq_0_disj)

lemma add_all_patterns:
  assumes wf: "\<forall>p\<in>set (acsmPatterns acsm). wf_pattern p"
  shows "\<exists>acsm' ws. ofold AddPatternStates (acsmPatterns acsm) (init_states acsm) = Some acsm' \<and>
           trie_inv ws (acsmPatterns acsm) acsm' \<and> acsmPatterns acsm' = acsmPatterns acsm \<and>
           length (acsmStateTable acsm') = count_states (acsmPatterns acsm)"
proof -
  let ?ps = "acsmPatterns acsm"
  let ?I = "\<lambda>done acsm'. \<exists>ws. trie_inv ws done acsm' \<and> length ws \<le> count_states done \<and>
      acsmPatterns acsm' = ?ps \<and> length (acsmStateTable acsm') = count_states ?ps"
  have "\<exists>s'. ofold AddPatternStates ?ps (init_states acsm) = Some s' \<and> ?I ?ps s'"
  proof (rule ofold_rule [where I = ?I])
    show "?I [] (init_states acsm)"
      using trie_inv_init [of acsm]
      by (intro exI [of _ "[[]]"]) (simp add: init_states_def count_states_def)
  next
    fix "done" p todo s
    assume ps: "?ps = done @ p # todo" and I: "?I done s"
    then obtain ws where ws: "trie_inv ws done s" "length ws \<le> count_states done"
      "acsmPatterns s = ?ps" "length (acsmStateTable s) = count_states ?ps" by blast
    have p: "wf_pattern p" using wf ps by simp
    have "count_states done + length (patrn p) \<le> count_states ?ps"
      using p ps by (simp add: count_states_def wf_pattern_def)
    then obtain s' ws' where "AddPatternStates p s = Some s'" "trie_inv (ws @ ws') (done @ [p]) s'"
      "length ws' \<le> length (patrn p)" "acsmPatterns s' = acsmPatterns s"
      "length (acsmStateTable s') = length (acsmStateTable s)"
      using AddPatternStates_trie [OF ws(1) p] ws(2,4) by auto
    then show "\<exists>s'. AddPatternStates p s = Some s' \<and> ?I (done @ [p]) s'"
      using ws p by (intro exI [of _ s'] conjI exI [of _ "ws @ ws'"])
        (auto simp: count_states_snoc wf_pattern_def)
  qed
  then show ?thesis by blast
qed

end
