(* ===== verification/AcsmxDfa.thy ===== *)
theory AcsmxDfa
  imports AcsmxTrie
begin

text \<open>
  The second phase of \<open>acsmCompile\<close>: the queue interface and its interpretation, the longest
  suffix that is a word of the trie, and the correctness of \<open>Build_DFA\<close>: every transition of
  the compiled machine leads to the longest suffix of what was read that is a prefix of a
  pattern, and every match list holds exactly the patterns that are suffixes of the word of its
  state.
\<close>

section \<open>The queue as an interface\<close>

locale fifo =
  fixes items :: "'q \<Rightarrow> int list"
    and add :: "'q \<Rightarrow> int \<Rightarrow> 'q"
    and remove :: "'q \<Rightarrow> int \<times> 'q"
    and count :: "'q \<Rightarrow> int"
    and ok :: "'q \<Rightarrow> bool"
  assumes items_add: "items (add q s) = items q @ [s]"
    and items_remove: "items q = s # rest \<Longrightarrow> fst (remove q) = s \<and> items (snd (remove q)) = rest"
    and ok_add: "ok q \<Longrightarrow> ok (add q s)"
    and ok_remove: "ok q \<Longrightarrow> ok (snd (remove q))"
    and count_pos: "ok q \<Longrightarrow> count q > 0 \<longleftrightarrow> items q \<noteq> []"
begin

lemma items_foldl_add: "items (foldl add q ss) = items q @ ss"
  by (induction ss arbitrary: q) (simp_all add: items_add)

lemma ok_foldl_add: "ok q \<Longrightarrow> ok (foldl add q ss)"
  by (induction ss arbitrary: q) (simp_all add: ok_add)

text \<open>Served first: what is added behind a waiting element does not change who is next.\<close>

lemma served_first:
  assumes "ok q" "items q = s # rest"
  shows "fst (remove (foldl add q ss)) = s \<and> items (snd (remove (foldl add q ss))) = rest @ ss"
  using items_remove [of "foldl add q ss" s "rest @ ss"] assms by (simp add: items_foldl_add)

end

definition queue_ok :: "QUEUE \<Rightarrow> bool" where
  "queue_ok q \<longleftrightarrow> q_count q = int (length (q_items q))"

interpretation lq: fifo q_items queue_add queue_remove queue_count queue_ok
  by unfold_locales
    (auto simp: queue_add_def queue_remove_def queue_ok_def queue_count_def Let_def split: list.splits)

lemma queue_init_ok [simp]: "queue_ok queue_init" "q_items queue_init = []"
  by (simp_all add: queue_ok_def queue_init_def)

section \<open>The longest suffix that is a word\<close>

fun lsuf :: "string list \<Rightarrow> string \<Rightarrow> string" where
  "lsuf ws x = (if x \<in> set ws then x else (case x of [] \<Rightarrow> [] | _ # x' \<Rightarrow> lsuf ws x'))"

declare lsuf.simps [simp del]

lemma lsuf_word: "x \<in> set ws \<Longrightarrow> lsuf ws x = x"
  by (simp add: lsuf.simps)

lemma lsuf_no_word: "x \<notin> set ws \<Longrightarrow> lsuf ws x = lsuf ws (tl x)"
  by (subst lsuf.simps) (cases x; simp add: lsuf.simps [of ws "[]"])

lemma lsuf_suffix: "suffix (lsuf ws x) x"
  by (induction ws x rule: lsuf.induct) (auto simp: lsuf.simps suffix_ConsI split: list.splits)

lemma lsuf_in: "[] \<in> set ws \<Longrightarrow> lsuf ws x \<in> set ws"
proof (induction x)
  case (Cons c x)
  then show ?case by (subst lsuf.simps) auto
qed (simp add: lsuf.simps)

lemma lsuf_max: "suffix y x \<Longrightarrow> y \<in> set ws \<Longrightarrow> suffix y (lsuf ws x)"
proof (induction x)
  case (Cons c x)
  then show ?case by (subst lsuf.simps) (auto simp: suffix_Cons)
qed (simp add: lsuf.simps)

lemma lsuf_length: "length (lsuf ws x) \<le> length x"
  by (rule suffix_length_le [OF lsuf_suffix])

lemma trie_words_Nil: "trie_words ws \<Longrightarrow> [] \<in> set ws"
  by (metis nth_mem trie_words_def)

lemma lsuf_snoc:
  assumes "trie_words ws"
  shows "lsuf ws (x @ [c]) = lsuf ws (lsuf ws x @ [c])"
proof (rule suffix_order.antisym)
  have "suffix (lsuf ws (lsuf ws x @ [c])) (lsuf ws x @ [c])" by (rule lsuf_suffix)
  also have "suffix (lsuf ws x @ [c]) (x @ [c])" using lsuf_suffix [of ws x] by simp
  finally show "suffix (lsuf ws (lsuf ws x @ [c])) (lsuf ws (x @ [c]))"
    using assms by (intro lsuf_max lsuf_in trie_words_Nil)
next
  let ?u = "lsuf ws (x @ [c])"
  have u: "?u \<in> set ws" using assms by (intro lsuf_in trie_words_Nil)
  show "suffix ?u (lsuf ws (lsuf ws x @ [c]))"
  proof (cases ?u rule: rev_cases)
    case (snoc u' d)
    then have "suffix u' x" and "d = c"
      using lsuf_suffix [of ws "x @ [c]"] by auto
    moreover have "u' \<in> set ws"
      using u snoc assms by (auto simp: trie_words_def pclosed_def)
    ultimately have "suffix ?u (lsuf ws x @ [c])" using snoc lsuf_max by auto
    then show ?thesis using u by (rule lsuf_max)
  qed simp
qed

section \<open>The invariant of the construction\<close>

definition to_state :: "string list \<Rightarrow> string \<Rightarrow> int \<Rightarrow> bool" where
  "to_state ws x r \<longleftrightarrow> (\<exists>k<length ws. r = int k \<and> ws ! k = x)"

definition match_full :: "string list \<Rightarrow> ACSM_PATTERN list \<Rightarrow> 'a ACSM_STRUCT_scheme \<Rightarrow> nat \<Rightarrow> bool" where
  "match_full ws ps acsm q \<longleftrightarrow> mset (MatchList (acsmStateTable acsm ! q)) =
     filter_mset (\<lambda>p. suffix (patrn p) (ws ! q)) (mset ps)"

definition match_own :: "string list \<Rightarrow> ACSM_PATTERN list \<Rightarrow> 'a ACSM_STRUCT_scheme \<Rightarrow> nat \<Rightarrow> bool" where
  "match_own ws ps acsm q \<longleftrightarrow> mset (MatchList (acsmStateTable acsm ! q)) =
     filter_mset (\<lambda>p. patrn p = ws ! q) (mset ps)"

definition fail_ok :: "string list \<Rightarrow> 'a ACSM_STRUCT_scheme \<Rightarrow> nat \<Rightarrow> bool" where
  "fail_ok ws acsm q \<longleftrightarrow>
     to_state ws (lsuf ws (tl (ws ! q))) (FailState (acsmStateTable acsm ! q))"

text \<open>
  \<open>dn q c\<close>: the transition of \<open>q\<close> on \<open>c\<close> has been completed; \<open>S\<close>: the states
  discovered so far.
\<close>

definition trans_ok ::
  "string list \<Rightarrow> (nat \<Rightarrow> char \<Rightarrow> bool) \<Rightarrow> 'a ACSM_STRUCT_scheme \<Rightarrow> nat \<Rightarrow> char \<Rightarrow> bool" where
  "trans_ok ws dn acsm q c \<longleftrightarrow>
     (if dn q c then to_state ws (lsuf ws (ws ! q @ [c])) (NextState (acsmStateTable acsm ! q) c)
      else edge ws (ws ! q @ [c]) (NextState (acsmStateTable acsm ! q) c))"

definition dfa_core ::
  "string list \<Rightarrow> ACSM_PATTERN list \<Rightarrow> (nat \<Rightarrow> char \<Rightarrow> bool) \<Rightarrow> nat set \<Rightarrow> 'a ACSM_STRUCT_scheme \<Rightarrow> bool"
where
  "dfa_core ws ps dn S acsm \<longleftrightarrow>
     trie_words ws \<and> set ws = words_of ps \<and> (\<forall>p\<in>set ps. patrn p \<noteq> []) \<and>
     length ws \<le> length (acsmStateTable acsm) \<and>
     (\<forall>q<length ws. \<forall>c. trans_ok ws dn acsm q c) \<and>
     (\<forall>q\<in>S. q < length ws \<and> match_full ws ps acsm q \<and> (q \<noteq> 0 \<longrightarrow> fail_ok ws acsm q)) \<and>
     (\<forall>q<length ws. q \<notin> S \<longrightarrow> match_own ws ps acsm q)"

lemma dfa_core_words: "dfa_core ws ps dn S acsm \<Longrightarrow> trie_words ws"
  by (simp add: dfa_core_def)

lemma dfa_core_length: "dfa_core ws ps dn S acsm \<Longrightarrow> length ws \<le> length (acsmStateTable acsm)"
  by (simp add: dfa_core_def)

lemma dfa_core_done:
  "dfa_core ws ps dn S acsm \<Longrightarrow> q < length ws \<Longrightarrow> dn q c \<Longrightarrow>
   to_state ws (lsuf ws (ws ! q @ [c])) (NextState (acsmStateTable acsm ! q) c)"
  by (simp add: dfa_core_def trans_ok_def)

lemma dfa_core_edge:
  "dfa_core ws ps dn S acsm \<Longrightarrow> q < length ws \<Longrightarrow> \<not> dn q c \<Longrightarrow>
   edge ws (ws ! q @ [c]) (NextState (acsmStateTable acsm ! q) c)"
  by (simp add: dfa_core_def trans_ok_def)

lemma dfa_core_seen:
  "dfa_core ws ps dn S acsm \<Longrightarrow> q \<in> S \<Longrightarrow>
   q < length ws \<and> match_full ws ps acsm q \<and> (q \<noteq> 0 \<longrightarrow> fail_ok ws acsm q)"
  by (simp add: dfa_core_def)

lemma word_index:
  assumes "trie_words ws" "x \<in> set ws"
  obtains k where "k < length ws" "ws ! k = x"
  using assms by (auto simp: in_set_conv_nth)

lemma word_eq_index: "trie_words ws \<Longrightarrow> p < length ws \<Longrightarrow> q < length ws \<Longrightarrow> ws ! p = ws ! q \<longleftrightarrow> p = q"
  by (simp add: trie_words_def nth_eq_iff_index_eq)

lemma word_parent: "trie_words ws \<Longrightarrow> k < length ws \<Longrightarrow> ws ! k = x @ [c] \<Longrightarrow> x \<in> set ws"
  by (metis nth_mem pclosed_def trie_words_def)

lemma word_0: "trie_words ws \<Longrightarrow> q < length ws \<Longrightarrow> ws ! q = [] \<longleftrightarrow> q = 0"
  using word_eq_index [of ws q 0] by (auto simp: trie_words_def)

section \<open>One character of one state\<close>

lemma set_state_twice [simp]:
  "set_state (int s) r2 (set_state (int s) r1 acsm) = set_state (int s) r2 acsm"
  by (simp add: set_state_def)

lemma copy_matches:
  "s < length (acsmStateTable acsm) \<Longrightarrow>
   ofold (AddMatchListEntry (int s)) ms (set_state (int s) row acsm) =
     Some (set_state (int s) (row\<lparr>MatchList := rev ms @ MatchList row\<rparr>) acsm)"
  by (induction ms arbitrary: row) (simp_all add: AddMatchListEntry_def)

lemma suffix_step:
  assumes "x \<noteq> []" "p \<noteq> []" "p \<in> set ws"
  shows "suffix p x \<longleftrightarrow> p = x \<or> suffix p (lsuf ws (tl x))"
proof -
  have "suffix p x \<longleftrightarrow> p = x \<or> suffix p (tl x)"
    using assms(1) by (cases x) (auto simp: suffix_Cons)
  moreover have "suffix p (tl x) \<longleftrightarrow> suffix p (lsuf ws (tl x))"
    using assms lsuf_max lsuf_suffix suffix_order.trans by blast
  ultimately show ?thesis by simp
qed

lemma match_union:
  assumes words: "set ws = words_of ps" and ne: "\<forall>p\<in>set ps. patrn p \<noteq> []" and x: "x \<noteq> []"
  shows "filter_mset (\<lambda>p. suffix (patrn p) (lsuf ws (tl x))) (mset ps)
       + filter_mset (\<lambda>p. patrn p = x) (mset ps) = filter_mset (\<lambda>p. suffix (patrn p) x) (mset ps)"
proof -
  have "\<And>p. p \<in> set ps \<Longrightarrow> patrn p \<in> set ws"
    using words by (auto simp: words_of_def)
  then have "\<And>p. p \<in># mset ps \<Longrightarrow> suffix (patrn p) x \<longleftrightarrow> suffix (patrn p) (lsuf ws (tl x)) \<or> patrn p = x"
    using suffix_step [OF x] ne by auto
  then have "filter_mset (\<lambda>p. suffix (patrn p) x) (mset ps) =
      filter_mset (\<lambda>p. suffix (patrn p) (lsuf ws (tl x)) \<or> patrn p = x) (mset ps)"
    by (intro filter_mset_cong) auto
  also have "\<dots> = filter_mset (\<lambda>p. suffix (patrn p) (lsuf ws (tl x))) (mset ps)
       + filter_mset (\<lambda>p. patrn p = x) (mset ps)"
  proof (rule multiset_eqI)
    fix p
    have "\<not> suffix x (lsuf ws (tl x))"
      using lsuf_length [of ws "tl x"] x suffix_length_le [of x "lsuf ws (tl x)"] by (cases x) auto
    then show "count (filter_mset (\<lambda>p. suffix (patrn p) (lsuf ws (tl x)) \<or> patrn p = x) (mset ps)) p =
      count (filter_mset (\<lambda>p. suffix (patrn p) (lsuf ws (tl x))) (mset ps)
       + filter_mset (\<lambda>p. patrn p = x) (mset ps)) p"
      by auto
  qed
  finally show ?thesis by simp
qed


lemma dfa_core_mark:
  \<comment> \<open>a transition that needs no change of the table\<close>
  assumes core: "dfa_core ws ps dn S acsm"
    and "\<And>q c. q < length ws \<Longrightarrow> dn' q c \<Longrightarrow> \<not> dn q c \<Longrightarrow>
       to_state ws (lsuf ws (ws ! q @ [c])) (NextState (acsmStateTable acsm ! q) c)"
    and "\<And>q c. dn q c \<Longrightarrow> dn' q c"
  shows "dfa_core ws ps dn' S acsm"
proof -
  have "trans_ok ws dn' acsm q c" if "q < length ws" for q c
    using that assms(2) [of q c] assms(3) [of q c] dfa_core_done [OF core that, of c]
      dfa_core_edge [OF core that, of c]
    by (cases "dn q c") (auto simp: trans_ok_def)
  then show ?thesis using core by (simp add: dfa_core_def)
qed

lemma dfa_core_discover:
  assumes core: "dfa_core ws ps dn S acsm"
    and s: "s < length ws" "s \<notin> S" "s \<noteq> 0"
    and k: "k \<in> S" "ws ! k = lsuf ws (tl (ws ! s))"
  defines "row \<equiv> acsmStateTable acsm ! s"
  defines "acsm' \<equiv> set_state (int s)
     (row\<lparr>FailState := int k, MatchList := rev (MatchList (acsmStateTable acsm ! k)) @ MatchList row\<rparr>) acsm"
  shows "dfa_core ws ps dn (insert s S) acsm'"
proof -
  have tw: "trie_words ws" and len: "length ws \<le> length (acsmStateTable acsm)"
    and words: "set ws = words_of ps" and ne: "\<forall>p\<in>set ps. patrn p \<noteq> []"
    using core by (auto simp: dfa_core_def)
  have s': "s < length (acsmStateTable acsm)" using s len by simp
  have tbl: "acsmStateTable acsm' = (acsmStateTable acsm)[s := row\<lparr>FailState := int k,
      MatchList := rev (MatchList (acsmStateTable acsm ! k)) @ MatchList row\<rparr>]"
    by (simp add: acsm'_def)
  have k': "k < length ws" "match_full ws ps acsm k" using dfa_core_seen [OF core k(1)] by auto
  have "ws ! s \<noteq> []" using word_0 [OF tw] s by simp
  from match_union [OF words ne this]
  have full: "match_full ws ps acsm' s"
    using k' core s s' k(2)
    by (simp add: match_full_def match_own_def dfa_core_def tbl row_def)
  have fail: "fail_ok ws acsm' s"
    using k' s' k(2) by (auto simp: fail_ok_def to_state_def tbl)
  have nxt: "NextState (acsmStateTable acsm' ! q) = NextState (acsmStateTable acsm ! q)"
    if "q < length ws" for q
    using s' by (cases "q = s") (simp_all add: tbl row_def)
  have other: "acsmStateTable acsm' ! q = acsmStateTable acsm ! q" if "q \<noteq> s" for q
    using that by (simp add: tbl)
  have full2: "q < length ws \<and> match_full ws ps acsm' q \<and> (q \<noteq> 0 \<longrightarrow> fail_ok ws acsm' q)"
    if "q \<in> insert s S" for q
    using that full fail dfa_core_seen [OF core, of q] s other [of q]
    by (cases "q = s") (auto simp: match_full_def fail_ok_def)
  have own2: "match_own ws ps acsm' q" if "q < length ws" "q \<notin> insert s S" for q
    using that core other [of q] by (auto simp: dfa_core_def match_own_def)
  show ?thesis
    using core full2 own2 nxt tbl by (simp add: dfa_core_def trans_ok_def)
qed

lemma dfa_core_close:
  assumes core: "dfa_core ws ps dn S acsm" and r: "r < length ws"
    and goal: "to_state ws (lsuf ws (ws ! r @ [i])) t"
  defines "row \<equiv> acsmStateTable acsm ! r"
  shows "dfa_core ws ps (\<lambda>q c. dn q c \<or> q = r \<and> c = i) S
           (set_state (int r) (row\<lparr>NextState := (NextState row)(i := t)\<rparr>) acsm)"
    (is "dfa_core _ _ ?dn _ ?acsm'")
proof -
  have r': "r < length (acsmStateTable acsm)" using r dfa_core_length [OF core] by simp
  have other: "acsmStateTable ?acsm' ! q = acsmStateTable acsm ! q" if "q \<noteq> r" for q
    using that by simp
  have ml: "MatchList (acsmStateTable ?acsm' ! q) = MatchList (acsmStateTable acsm ! q)"
    "FailState (acsmStateTable ?acsm' ! q) = FailState (acsmStateTable acsm ! q)" for q
    using r' by (cases "q = r"; simp add: row_def)+
  have "trans_ok ws ?dn ?acsm' q c" if q: "q < length ws" for q c
    using q r' goal dfa_core_done [OF core q, of c] dfa_core_edge [OF core q, of c]
    by (cases "q = r") (auto simp: row_def trans_ok_def)
  then have "\<forall>q<length ws. \<forall>c. trans_ok ws ?dn ?acsm' q c" by blast
  moreover have "match_full ws ps ?acsm' q = match_full ws ps acsm q"
    "match_own ws ps ?acsm' q = match_own ws ps acsm q" "fail_ok ws ?acsm' q = fail_ok ws acsm q" for q
    by (simp_all only: match_full_def match_own_def fail_ok_def ml)
  ultimately show ?thesis using core by (simp add: dfa_core_def)
qed

lemma find_next_complete:
  assumes "f < length (acsmStateTable acsm)" "NextState (acsmStateTable acsm ! f) i \<noteq> ACSM_FAIL_STATE"
  shows "find_next acsm (int f) i = Some (NextState (acsmStateTable acsm ! f) i)"
  using assms by (subst find_next.simps) simp

lemma to_state_not_fail: "to_state ws x r \<Longrightarrow> r \<noteq> ACSM_FAIL_STATE"
  by (auto simp: to_state_def ACSM_FAIL_STATE_def)

text \<open>
  What \<open>dfa_char\<close> needs of the order of the search: shallower states are completed and the
  states no deeper than \<open>r\<close> are discovered.
\<close>

definition search_order :: "string list \<Rightarrow> (nat \<Rightarrow> char \<Rightarrow> bool) \<Rightarrow> nat set \<Rightarrow> nat \<Rightarrow> bool" where
  "search_order ws dn S r \<longleftrightarrow>
     (\<forall>k<length ws. length (ws ! k) \<le> length (ws ! r) \<longrightarrow> k \<in> S) \<and>
     (\<forall>k<length ws. length (ws ! k) < length (ws ! r) \<longrightarrow> (\<forall>c. dn k c))"

lemma fail_transition:
  assumes core: "dfa_core ws ps dn S acsm" and r: "r \<in> S" "r \<noteq> 0"
    and ord: "search_order ws dn S r"
  obtains f k where "f < length ws" "FailState (acsmStateTable acsm ! r) = int f"
    "NextState (acsmStateTable acsm ! f) i = int k" "k < length ws" "k \<in> S"
    "ws ! k = lsuf ws (tl (ws ! r @ [i]))"
proof -
  have tw: "trie_words ws" using core by (rule dfa_core_words)
  have rl: "r < length ws" and "fail_ok ws acsm r" using dfa_core_seen [OF core r(1)] r(2) by auto
  then obtain f where f: "f < length ws" "FailState (acsmStateTable acsm ! r) = int f"
      "ws ! f = lsuf ws (tl (ws ! r))"
    by (auto simp: fail_ok_def to_state_def)
  have ne: "ws ! r \<noteq> []" using word_0 [OF tw rl] r(2) by simp
  have "length (ws ! f) < length (ws ! r)"
    using lsuf_length [of ws "tl (ws ! r)"] f(3) ne by (cases "ws ! r") auto
  then have "dn f i" using ord f(1) by (simp add: search_order_def)
  from dfa_core_done [where c = i, OF core f(1) this] obtain k where
    k: "k < length ws" "NextState (acsmStateTable acsm ! f) i = int k"
      "ws ! k = lsuf ws (lsuf ws (tl (ws ! r)) @ [i])"
    by (auto simp: to_state_def f(3))
  have "ws ! k = lsuf ws (tl (ws ! r) @ [i])"
    using k(3) lsuf_snoc [OF tw, of "tl (ws ! r)" i] by simp
  then have w: "ws ! k = lsuf ws (tl (ws ! r @ [i]))" using ne by simp
  then have "length (ws ! k) \<le> length (ws ! r)"
    using lsuf_length [of ws "tl (ws ! r @ [i])"] by simp
  then have "k \<in> S" using ord k(1) by (simp add: search_order_def)
  with that f k w show ?thesis by blast
qed

lemma dfa_char_child:
  assumes core: "dfa_core ws ps dn S acsm" and r: "r \<in> S" "r \<noteq> 0" "\<not> dn r i"
    and ord: "search_order ws dn S r"
    and s: "s < length ws" "s \<notin> S" "ws ! s = ws ! r @ [i]"
  shows "\<exists>acsm'. dfa_char (int r) i (queue, acsm) = Some (queue_add queue (int s), acsm') \<and>
           dfa_core ws ps (\<lambda>q c. dn q c \<or> q = r \<and> c = i) (insert s S) acsm' \<and>
           acsmPatterns acsm' = acsmPatterns acsm \<and>
           length (acsmStateTable acsm') = length (acsmStateTable acsm)"
proof -
  have tw: "trie_words ws" using core by (rule dfa_core_words)
  have rl: "r < length ws" using dfa_core_seen [OF core r(1)] by simp
  note len = dfa_core_length [OF core]
  obtain f k where f: "f < length ws" "FailState (acsmStateTable acsm ! r) = int f"
      and k: "NextState (acsmStateTable acsm ! f) i = int k" "k < length ws" "k \<in> S"
        "ws ! k = lsuf ws (tl (ws ! s))"
    using fail_transition [OF core r(1,2) ord, of i] s(3) by metis
  from s(1) s(3) have "s \<noteq> 0" using word_0 [OF tw s(1)] by auto
  have edge: "NextState (acsmStateTable acsm ! r) i = int s"
    using dfa_core_edge [OF core rl r(3)] s word_eq_index [OF tw]
    by (auto simp: edge_def in_set_conv_nth) (metis in_set_conv_nth s(3))
  let ?row = "acsmStateTable acsm ! s"
  let ?acsm' = "set_state (int s) (?row\<lparr>FailState := int k,
     MatchList := rev (MatchList (acsmStateTable acsm ! k)) @ MatchList ?row\<rparr>) acsm"
  have "find_next acsm (int f) i = Some (int k)"
    using find_next_complete [of f acsm i] f(1) len k(1) by (simp add: ACSM_FAIL_STATE_def)
  moreover have "k \<noteq> s" using k(3) s(2) by auto
  ultimately have "dfa_char (int r) i (queue, acsm) = Some (queue_add queue (int s), ?acsm')"
    using rl s(1) f k len edge
    by (simp add: dfa_char_def copy_matches ACSM_FAIL_STATE_def Let_def)
  moreover have core': "dfa_core ws ps dn (insert s S) ?acsm'"
    by (rule dfa_core_discover [OF core s(1,2) \<open>s \<noteq> 0\<close> k(3,4)])
  have "s \<noteq> r" using r(1) s(2) by auto
  then have "dfa_core ws ps (\<lambda>q c. dn q c \<or> q = r \<and> c = i) (insert s S) ?acsm'"
    by (intro dfa_core_mark [OF core'])
      (use edge s in \<open>auto simp: to_state_def lsuf_word dest!: nth_mem\<close>)
  ultimately show ?thesis by auto
qed

lemma dfa_char_fill:
  assumes core: "dfa_core ws ps dn S acsm" and r: "r \<in> S" "r \<noteq> 0" "\<not> dn r i"
    and ord: "search_order ws dn S r" and none: "ws ! r @ [i] \<notin> set ws"
  shows "\<exists>acsm'. dfa_char (int r) i (queue, acsm) = Some (queue, acsm') \<and>
           dfa_core ws ps (\<lambda>q c. dn q c \<or> q = r \<and> c = i) S acsm' \<and>
           acsmPatterns acsm' = acsmPatterns acsm \<and>
           length (acsmStateTable acsm') = length (acsmStateTable acsm)"
proof -
  have rl: "r < length ws" using dfa_core_seen [OF core r(1)] by simp
  note len = dfa_core_length [OF core]
  obtain f k where f: "f < length ws" "FailState (acsmStateTable acsm ! r) = int f"
      and k: "NextState (acsmStateTable acsm ! f) i = int k" "k < length ws" "k \<in> S"
        "ws ! k = lsuf ws (tl (ws ! r @ [i]))"
    by (rule fail_transition [OF core r(1,2) ord])
  have edge: "NextState (acsmStateTable acsm ! r) i = ACSM_FAIL_STATE"
    using dfa_core_edge [OF core rl r(3)] none nth_mem by (fastforce simp: edge_def)
  let ?row = "acsmStateTable acsm ! r"
  let ?acsm' = "set_state (int r) (?row\<lparr>NextState := (NextState ?row)(i := int k)\<rparr>) acsm"
  have "dfa_char (int r) i (queue, acsm) = Some (queue, ?acsm')"
    using rl f k len edge by (simp add: dfa_char_def)
  moreover have "dfa_core ws ps (\<lambda>q c. dn q c \<or> q = r \<and> c = i) S ?acsm'"
    by (rule dfa_core_close [OF core rl])
      (use k none lsuf_no_word in \<open>auto simp: to_state_def\<close>)
  ultimately show ?thesis by auto
qed


section \<open>One state\<close>

lemma set_alphabet [simp]: "set alphabet = UNIV"
  by (simp add: alphabet_def UNIV_char_of_nat)

lemma distinct_alphabet: "distinct alphabet"
  by (auto simp: alphabet_def distinct_map inj_on_def dest!: arg_cong [where f = "of_char :: char \<Rightarrow> nat"])

definition children :: "string list \<Rightarrow> nat \<Rightarrow> char set \<Rightarrow> nat set" where
  "children ws r cs = {s. s < length ws \<and> (\<exists>c\<in>cs. ws ! s = ws ! r @ [c])}"

lemma children_insert_none:
  "ws ! r @ [c] \<notin> set ws \<Longrightarrow> children ws r (insert c cs) = children ws r cs"
  by (auto simp: children_def) (metis nth_mem)

lemma children_insert_some:
  assumes "trie_words ws" "s < length ws" "ws ! s = ws ! r @ [c]"
  shows "children ws r (insert c cs) = insert s (children ws r cs)"
proof -
  have "t = s" if "t < length ws" "ws ! t = ws ! r @ [c]" for t
    using word_eq_index [OF assms(1) that(1) assms(2)] that(2) assms(3) by simp
  then show ?thesis using assms(2,3) unfolding children_def by blast
qed

lemma search_order_mono:
  "search_order ws dn S r \<Longrightarrow> (\<And>q c. dn q c \<Longrightarrow> dn' q c) \<Longrightarrow> S \<subseteq> S' \<Longrightarrow> search_order ws dn' S' r"
  by (auto simp: search_order_def)

definition row_inv where
  "row_inv ws ps D S r queue0 acsm0 cs = (\<lambda>(queue, acsm). \<exists>new.
     queue = foldl queue_add queue0 (map int new) \<and> distinct new \<and>
     set new = children ws r (set cs) \<and>
     dfa_core ws ps (\<lambda>q c. q \<in> D \<or> q = r \<and> c \<in> set cs) (S \<union> set new) acsm \<and>
     acsmPatterns acsm = acsmPatterns acsm0 \<and>
     length (acsmStateTable acsm) = length (acsmStateTable acsm0))"

lemma row_inv_step:
  assumes inv: "row_inv ws ps D S r queue0 acsm0 cs s" and r: "r \<in> S" "r \<noteq> 0" "r \<notin> D"
    and ord: "search_order ws (\<lambda>q c. q \<in> D) S r" and fresh: "children ws r UNIV \<inter> S = {}"
    and c: "c \<notin> set cs"
  shows "\<exists>s'. dfa_char (int r) c s = Some s' \<and> row_inv ws ps D S r queue0 acsm0 (cs @ [c]) s'"
proof -
  obtain queue acsm new where s: "s = (queue, acsm)"
    and q: "queue = foldl queue_add queue0 (map int new)" "distinct new"
      "set new = children ws r (set cs)"
    and core: "dfa_core ws ps (\<lambda>q c. q \<in> D \<or> q = r \<and> c \<in> set cs) (S \<union> set new) acsm"
    and same: "acsmPatterns acsm = acsmPatterns acsm0"
      "length (acsmStateTable acsm) = length (acsmStateTable acsm0)"
    using inv by (cases s) (auto simp: row_inv_def)
  have tw: "trie_words ws" using core by (rule dfa_core_words)
  have rS: "r \<in> S \<union> set new" and ndn: "\<not> (r \<in> D \<or> r = r \<and> c \<in> set cs)" using r c by auto
  have ord': "search_order ws (\<lambda>q c. q \<in> D \<or> q = r \<and> c \<in> set cs) (S \<union> set new) r"
    by (rule search_order_mono [OF ord]) auto
  have dn: "(\<lambda>q d. (q \<in> D \<or> q = r \<and> d \<in> set cs) \<or> q = r \<and> d = c) =
      (\<lambda>q d. q \<in> D \<or> q = r \<and> d \<in> set (cs @ [c]))" by auto
  show ?thesis
  proof (cases "ws ! r @ [c] \<in> set ws")
    case True
    then obtain k where k: "k < length ws" "ws ! k = ws ! r @ [c]"
      using word_index [OF tw] by blast
    have "k \<notin> S" using fresh k by (auto simp: children_def)
    moreover have "k \<notin> set new" using q(3) c k by (auto simp: children_def)
    ultimately have kS: "k \<notin> S \<union> set new" by simp
    from dfa_char_child [OF core rS r(2) ndn ord' k(1) kS k(2), of queue]
    obtain acsm' where step: "dfa_char (int r) c (queue, acsm) = Some (queue_add queue (int k), acsm')"
      and core': "dfa_core ws ps (\<lambda>q d. (q \<in> D \<or> q = r \<and> d \<in> set cs) \<or> q = r \<and> d = c)
                    (insert k (S \<union> set new)) acsm'"
      and same': "acsmPatterns acsm' = acsmPatterns acsm"
        "length (acsmStateTable acsm') = length (acsmStateTable acsm)" by auto
    have "insert k (S \<union> set new) = S \<union> set (new @ [k])" by simp
    note core'' = core' [unfolded dn this]
    have "row_inv ws ps D S r queue0 acsm0 (cs @ [c]) (queue_add queue (int k), acsm')"
      unfolding row_inv_def prod.case
      by (intro exI [of _ "new @ [k]"] conjI core'')
        (use same same' q \<open>k \<notin> set new\<close> children_insert_some [OF tw k] in auto)
    then show ?thesis using s step by blast
  next
    case False
    from dfa_char_fill [OF core rS r(2) ndn ord' False, of queue]
    obtain acsm' where step: "dfa_char (int r) c (queue, acsm) = Some (queue, acsm')"
      and core': "dfa_core ws ps (\<lambda>q d. (q \<in> D \<or> q = r \<and> d \<in> set cs) \<or> q = r \<and> d = c)
                    (S \<union> set new) acsm'"
      and same': "acsmPatterns acsm' = acsmPatterns acsm"
        "length (acsmStateTable acsm') = length (acsmStateTable acsm)" by auto
    note core'' = core' [unfolded dn]
    have "row_inv ws ps D S r queue0 acsm0 (cs @ [c]) (queue, acsm')"
      unfolding row_inv_def prod.case
      by (intro exI [of _ new] conjI core'')
        (use same same' q children_insert_none [OF False] in auto)
    then show ?thesis using s step by blast
  qed
qed

lemma dfa_row:
  assumes core: "dfa_core ws ps (\<lambda>q c. q \<in> D) S acsm" and r: "r \<in> S" "r \<noteq> 0" "r \<notin> D"
    and ord: "search_order ws (\<lambda>q c. q \<in> D) S r" and fresh: "children ws r UNIV \<inter> S = {}"
  shows "\<exists>acsm' new. ofold (dfa_char (int r)) alphabet (queue, acsm) =
             Some (foldl queue_add queue (map int new), acsm') \<and>
           distinct new \<and> set new = children ws r UNIV \<and>
           dfa_core ws ps (\<lambda>q c. q \<in> insert r D) (S \<union> children ws r UNIV) acsm' \<and>
           acsmPatterns acsm' = acsmPatterns acsm \<and>
           length (acsmStateTable acsm') = length (acsmStateTable acsm)"
proof -
  have "\<exists>s'. ofold (dfa_char (int r)) alphabet (queue, acsm) = Some s' \<and>
          row_inv ws ps D S r queue acsm alphabet s'"
  proof (rule ofold_rule [where I = "row_inv ws ps D S r queue acsm"])
    show "row_inv ws ps D S r queue acsm [] (queue, acsm)"
      using core by (auto simp: row_inv_def children_def intro!: exI [of _ "[]"])
  next
    fix cs c todo s
    assume "alphabet = cs @ c # todo" and inv: "row_inv ws ps D S r queue acsm cs s"
    then have "distinct (cs @ c # todo)" using distinct_alphabet by simp
    then have "c \<notin> set cs" by simp
    with inv r ord fresh
    show "\<exists>s'. dfa_char (int r) c s = Some s' \<and> row_inv ws ps D S r queue acsm (cs @ [c]) s'"
      by (intro row_inv_step) auto
  qed
  then obtain acsm' new where out:
      "ofold (dfa_char (int r)) alphabet (queue, acsm) = Some (foldl queue_add queue (map int new), acsm')"
      "distinct new" "set new = children ws r UNIV"
      "dfa_core ws ps (\<lambda>q c. q \<in> D \<or> q = r) (S \<union> set new) acsm'"
      "acsmPatterns acsm' = acsmPatterns acsm"
      "length (acsmStateTable acsm') = length (acsmStateTable acsm)"
    by (auto simp: row_inv_def)
  have "dfa_core ws ps (\<lambda>q c. q \<in> insert r D) (S \<union> children ws r UNIV) acsm'"
    using dfa_core_mark [OF out(4), where dn' = "\<lambda>q c. q \<in> insert r D"]
    unfolding out(3) by blast
  with out show ?thesis by blast
qed

section \<open>The breadth-first search\<close>

definition depth_sorted :: "string list \<Rightarrow> nat list \<Rightarrow> bool" where
  "depth_sorted ws Q \<longleftrightarrow> sorted (map (\<lambda>k. length (ws ! k)) Q) \<and>
     (\<forall>k\<in>set Q. length (ws ! k) \<le> Suc (length (ws ! hd Q)))"

definition bfs_inv ::
  "string list \<Rightarrow> ACSM_PATTERN list \<Rightarrow> nat set \<Rightarrow> nat list \<Rightarrow> 'a ACSM_STRUCT_scheme \<Rightarrow> bool" where
  "bfs_inv ws ps D Q acsm \<longleftrightarrow>
     dfa_core ws ps (\<lambda>q c. q \<in> D) (D \<union> set Q) acsm \<and>
     0 \<in> D \<and> D \<inter> set Q = {} \<and> distinct Q \<and>
     D \<union> set Q = insert 0 (\<Union>q\<in>D. children ws q UNIV) \<and> depth_sorted ws Q"

lemma bfs_shallow:
  assumes inv: "bfs_inv ws ps D Q acsm" and k: "k < length ws"
    and d: "Q \<noteq> [] \<longrightarrow> length (ws ! k) < length (ws ! hd Q)"
  shows "k \<in> D"
proof -
  have core: "dfa_core ws ps (\<lambda>q c. q \<in> D) (D \<union> set Q) acsm"
    and closed: "D \<union> set Q = insert 0 (\<Union>q\<in>D. children ws q UNIV)"
    and D0: "0 \<in> D" and sorted: "depth_sorted ws Q"
    using inv by (auto simp: bfs_inv_def)
  have tw: "trie_words ws" by (rule dfa_core_words [OF core])
  have "x = ws ! k \<Longrightarrow> k < length ws \<Longrightarrow> (Q \<noteq> [] \<longrightarrow> length x < length (ws ! hd Q)) \<Longrightarrow> k \<in> D" for x k
  proof (induction x arbitrary: k rule: rev_induct)
    case Nil
    then show ?case using word_0 [OF tw, of k] D0 by simp
  next
    case (snoc c x)
    have "x \<in> set ws" using word_parent [OF tw snoc.prems(2)] snoc.prems(1) [symmetric] .
    then obtain p where p: "p < length ws" "ws ! p = x" by (rule word_index [OF tw])
    then have "p \<in> D" using snoc.IH [of p] snoc.prems(3) by auto
    moreover have "k \<in> children ws p UNIV"
      using snoc.prems(1) [symmetric] snoc.prems(2) p(2) by (auto simp: children_def)
    ultimately have "k \<in> D \<union> set Q" unfolding closed by blast
    moreover have "k \<notin> set Q"
    proof (rule notI)
      assume "k \<in> set Q"
      then have "length (ws ! hd Q) \<le> length (ws ! k)"
        using sorted by (cases Q) (auto simp: depth_sorted_def)
      then show False using snoc.prems(1,3) \<open>k \<in> set Q\<close> by (cases Q) auto
    qed
    ultimately show ?case by simp
  qed
  then show ?thesis using k d by blast
qed

lemma bfs_order:
  assumes inv: "bfs_inv ws ps D (r # Q) acsm"
  shows "search_order ws (\<lambda>q c. q \<in> D) (D \<union> set (r # Q)) r"
  unfolding search_order_def
proof (intro conjI allI impI)
  fix k assume "k < length ws" "length (ws ! k) < length (ws ! r)"
  then show "k \<in> D" using bfs_shallow [OF inv] by simp
next
  fix k assume k: "k < length ws" "length (ws ! k) \<le> length (ws ! r)"
  have core: "dfa_core ws ps (\<lambda>q c. q \<in> D) (D \<union> set (r # Q)) acsm"
    and closed: "D \<union> set (r # Q) = insert 0 (\<Union>q\<in>D. children ws q UNIV)"
    using inv by (auto simp: bfs_inv_def)
  have tw: "trie_words ws" by (rule dfa_core_words [OF core])
  show "k \<in> D \<union> set (r # Q)"
  proof (cases "ws ! k" rule: rev_cases)
    case Nil
    then show ?thesis using word_0 [OF tw k(1)] closed by auto
  next
    case (snoc x c)
    have "x \<in> set ws" using word_parent [OF tw k(1) snoc] .
    then obtain p where p: "p < length ws" "ws ! p = x" by (rule word_index [OF tw])
    then have "p \<in> D" using bfs_shallow [OF inv p(1)] snoc k(2) by simp
    then have "k \<in> (\<Union>q\<in>D. children ws q UNIV)" using snoc k(1) p by (auto simp: children_def)
    then show ?thesis using closed by blast
  qed
qed

lemma depth_sorted_next:
  assumes "depth_sorted ws (r # Q)" "set new \<subseteq> children ws r UNIV"
  shows "depth_sorted ws (Q @ new)"
proof -
  have new: "k \<in> set new \<Longrightarrow> length (ws ! k) = Suc (length (ws ! r))" for k
    using assms(2) by (auto simp: children_def)
  have Q: "k \<in> set Q \<Longrightarrow> length (ws ! r) \<le> length (ws ! k) \<and> length (ws ! k) \<le> Suc (length (ws ! r))" for k
    using assms(1) by (auto simp: depth_sorted_def)
  have "sorted (map (\<lambda>k. length (ws ! k)) Q)"
    using assms(1) by (auto simp: depth_sorted_def)
  moreover have "map (\<lambda>k. length (ws ! k)) new = replicate (length new) (Suc (length (ws ! r)))"
    by (rule nth_equalityI) (simp_all add: new)
  ultimately have "sorted (map (\<lambda>k. length (ws ! k)) (Q @ new))"
    using Q by (auto simp: sorted_append)
  moreover have "length (ws ! k) \<le> Suc (length (ws ! hd (Q @ new)))" if k: "k \<in> set (Q @ new)" for k
  proof -
    have "hd (Q @ new) \<in> set (Q @ new)" using k by (intro hd_in_set) auto
    then have "length (ws ! r) \<le> length (ws ! hd (Q @ new))" using Q new by fastforce
    moreover have "length (ws ! k) \<le> Suc (length (ws ! r))" using k Q new by fastforce
    ultimately show ?thesis by simp
  qed
  ultimately show ?thesis by (simp add: depth_sorted_def)
qed

lemma bfs_step:
  assumes inv: "bfs_inv ws ps D (r # Q) acsm"
    and queue: "queue_ok queue" "q_items queue = map int (r # Q)"
  shows "\<exists>queue2 acsm2 Q2.
           ofold (dfa_char (fst (queue_remove queue))) alphabet (snd (queue_remove queue), acsm) =
             Some (queue2, acsm2) \<and>
           bfs_inv ws ps (insert r D) Q2 acsm2 \<and> queue_ok queue2 \<and> q_items queue2 = map int Q2 \<and>
           acsmPatterns acsm2 = acsmPatterns acsm \<and>
           length (acsmStateTable acsm2) = length (acsmStateTable acsm)"
proof -
  let ?S = "D \<union> set (r # Q)"
  have core: "dfa_core ws ps (\<lambda>q c. q \<in> D) ?S acsm"
    and D: "0 \<in> D" "D \<inter> set (r # Q) = {}" "distinct (r # Q)"
      "?S = insert 0 (\<Union>q\<in>D. children ws q UNIV)" "depth_sorted ws (r # Q)"
    using inv by (auto simp: bfs_inv_def)
  have tw: "trie_words ws" by (rule dfa_core_words [OF core])
  have r: "r \<in> ?S" "r \<noteq> 0" "r \<notin> D" using D by auto
  have rl: "r < length ws" using dfa_core_seen [OF core r(1)] by simp
  have fresh: "children ws r UNIV \<inter> ?S = {}"
  proof (rule ccontr)
    assume "children ws r UNIV \<inter> ?S \<noteq> {}"
    then obtain s c where s: "s \<in> ?S" "s < length ws" "ws ! s = ws ! r @ [c]"
      by (auto simp: children_def)
    then have "s \<noteq> 0" using word_0 [OF tw s(2)] by auto
    then obtain q where q: "q \<in> D" "s \<in> children ws q UNIV"
      using s(1) unfolding D(4) by auto
    then have "ws ! q = ws ! r" using s(3) by (auto simp: children_def)
    moreover have "q < length ws" using dfa_core_seen [OF core, of q] q(1) by simp
    ultimately show False using word_eq_index [OF tw _ rl] q(1) r(3) by auto
  qed
  have out: "fst (queue_remove queue) = int r" "q_items (snd (queue_remove queue)) = map int Q"
    using lq.items_remove [of queue "int r" "map int Q"] queue(2) by simp_all
  from dfa_row [OF core r bfs_order [OF inv] fresh, of "snd (queue_remove queue)"]
  obtain acsm' new where row:
      "ofold (dfa_char (int r)) alphabet (snd (queue_remove queue), acsm) =
         Some (foldl queue_add (snd (queue_remove queue)) (map int new), acsm')"
      "distinct new" "set new = children ws r UNIV"
      "dfa_core ws ps (\<lambda>q c. q \<in> insert r D) (?S \<union> children ws r UNIV) acsm'"
      "acsmPatterns acsm' = acsmPatterns acsm"
      "length (acsmStateTable acsm') = length (acsmStateTable acsm)" by blast
  have S': "insert r D \<union> set (Q @ new) = ?S \<union> children ws r UNIV" using row(3) by auto
  have "insert r D \<inter> set (Q @ new) = {}" "distinct (Q @ new)"
    using row(2,3) D(2,3) fresh by auto
  moreover have "?S \<union> children ws r UNIV = insert 0 (\<Union>q\<in>insert r D. children ws q UNIV)"
    unfolding D(4) by auto
  moreover have "depth_sorted ws (Q @ new)"
    by (rule depth_sorted_next [OF D(5)]) (simp add: row(3))
  ultimately have "bfs_inv ws ps (insert r D) (Q @ new) acsm'"
    unfolding bfs_inv_def S' using row(4) D(1) by blast
  moreover have "q_items (foldl queue_add (snd (queue_remove queue)) (map int new)) = map int (Q @ new)"
    using out by (simp add: lq.items_foldl_add)
  moreover have "queue_ok (foldl queue_add (snd (queue_remove queue)) (map int new))"
    by (rule lq.ok_foldl_add) (rule lq.ok_remove [OF queue(1)])
  ultimately show ?thesis unfolding out(1) using row(1,5,6) by blast
qed

lemma bfs_inv_bound: "bfs_inv ws ps D Q acsm \<Longrightarrow> D \<union> set Q \<subseteq> {..<length ws}"
  unfolding bfs_inv_def dfa_core_def by blast

lemma bfs_loop_correct:
  assumes "bfs_inv ws ps D Q acsm" "queue_ok queue" "q_items queue = map int Q"
  shows "\<exists>acsm'. bfs_loop queue acsm = Some acsm' \<and>
           dfa_core ws ps (\<lambda>_ _. True) {..<length ws} acsm' \<and>
           acsmPatterns acsm' = acsmPatterns acsm"
  using assms
proof (induction "length ws - card D" arbitrary: D Q acsm queue rule: less_induct)
  case less
  show ?case
  proof (cases Q)
    case Nil
    have "D = {..<length ws}"
      using bfs_shallow [OF less.prems(1)] bfs_inv_bound [OF less.prems(1)] Nil by auto
    then have core: "dfa_core ws ps (\<lambda>q c. q < length ws) {..<length ws} acsm"
      using less.prems(1) Nil by (simp add: bfs_inv_def)
    have "dfa_core ws ps (\<lambda>_ _. True) {..<length ws} acsm"
      by (rule dfa_core_mark [OF core]) auto
    moreover have "\<not> queue_count queue > 0"
      using lq.count_pos [OF less.prems(2)] less.prems(3) Nil by simp
    ultimately show ?thesis by (subst bfs_loop.simps) simp
  next
    case (Cons r Q')
    from bfs_step [of ws ps D r Q' acsm queue] less.prems Cons
    obtain queue2 acsm2 Q2 where step:
        "ofold (dfa_char (fst (queue_remove queue))) alphabet (snd (queue_remove queue), acsm) =
           Some (queue2, acsm2)"
        "bfs_inv ws ps (insert r D) Q2 acsm2" "queue_ok queue2" "q_items queue2 = map int Q2"
        "acsmPatterns acsm2 = acsmPatterns acsm" by blast
    have rD: "r \<notin> D" using less.prems(1) Cons by (simp add: bfs_inv_def)
    have DS: "D \<subseteq> {..<length ws}" and rl: "r < length ws"
      using bfs_inv_bound [OF less.prems(1)] Cons by simp_all
    have "D \<subset> {..<length ws}" using rD DS rl by blast
    then have "card D < length ws" using psubset_card_mono [of "{..<length ws}" D] by simp
    moreover have "finite D" using DS finite_subset by blast
    ultimately have "length ws - card (insert r D) < length ws - card D"
      using rD by simp
    from less.hyps [OF this step(2-4)] obtain acsm' where
      "bfs_loop queue2 acsm2 = Some acsm'" "dfa_core ws ps (\<lambda>_ _. True) {..<length ws} acsm'"
      "acsmPatterns acsm' = acsmPatterns acsm2" by blast
    moreover have "queue_count queue > 0"
      using lq.count_pos [OF less.prems(2)] less.prems(3) Cons by simp
    ultimately show ?thesis using step by (subst bfs_loop.simps) simp
  qed
qed


section \<open>The compiled machine\<close>

lemma close_root_correct:
  assumes inv: "trie_inv ws ps acsm" and ne: "\<forall>p\<in>set ps. patrn p \<noteq> []"
  shows "\<exists>acsm'. close_root acsm = Some acsm' \<and> dfa_core ws ps (\<lambda>q c. q = 0) {0} acsm' \<and>
           acsmPatterns acsm' = acsmPatterns acsm"
proof -
  have tw: "trie_words ws" and len: "length ws \<le> length (acsmStateTable acsm)"
    and edges: "\<And>q c. q < length ws \<Longrightarrow> edge ws (ws ! q @ [c]) (NextState (acsmStateTable acsm ! q) c)"
    and words: "set ws = words_of ps"
    and own: "\<And>q. q < length ws \<Longrightarrow>
      MatchList (acsmStateTable acsm ! q) = filter (\<lambda>p. patrn p = ws ! q) (rev ps)"
    using inv by (auto simp: trie_inv_def trie_shape_def)
  have w0: "0 < length ws" "ws ! 0 = []" using tw by (auto simp: trie_words_def)
  have l0: "0 < length (acsmStateTable acsm)" using w0(1) len by (rule order.strict_trans2)
  let ?row = "acsmStateTable acsm ! 0"
  let ?acsm' = "set_state 0 (?row\<lparr>NextState :=
      (\<lambda>i. if NextState ?row i = ACSM_FAIL_STATE then 0 else NextState ?row i)\<rparr>) acsm"
  have run: "close_root acsm = Some ?acsm'" using l0 by (simp add: close_root_def)
  have "trans_ok ws (\<lambda>q c. q = 0) ?acsm' q c" if q: "q < length ws" for q c
  proof (cases "q = 0")
    case True
    from edges [OF w0(1), of c] show ?thesis
    proof (cases rule: edge_cases)
      case fail
      then show ?thesis
        using True l0 w0 trie_words_Nil [OF tw]
        by (auto simp: trans_ok_def to_state_def lsuf_no_word lsuf_word)
    next
      case (state k)
      then have "[c] \<in> set ws" using w0(2) nth_mem by force
      then show ?thesis
        using True l0 w0 state by (auto simp: trans_ok_def to_state_def lsuf_word)
    qed
  next
    case False
    then show ?thesis using edges [OF q, of c] by (simp add: trans_ok_def)
  qed
  moreover have ml: "MatchList (acsmStateTable ?acsm' ! q) = MatchList (acsmStateTable acsm ! q)" for q
    using l0 by (cases "q = 0") simp_all
  have "match_own ws ps ?acsm' q" if "q < length ws" for q
    unfolding match_own_def ml own [OF that] by simp
  moreover have "match_full ws ps ?acsm' 0"
    unfolding match_full_def ml own [OF w0(1)] by (simp add: w0(2))
  ultimately have "dfa_core ws ps (\<lambda>q c. q = 0) {0} ?acsm'"
    using tw len words ne w0(1) by (simp add: dfa_core_def)
  with run show ?thesis by simp
qed

definition seed_inv where
  "seed_inv ws ps acsm0 cs = (\<lambda>(queue, acsm). \<exists>new.
     queue = foldl queue_add queue_init (map int new) \<and> distinct new \<and>
     set new = children ws 0 (set cs) \<and> dfa_core ws ps (\<lambda>q c. q = 0) ({0} \<union> set new) acsm \<and>
     acsmPatterns acsm = acsmPatterns acsm0)"

lemma seed_step:
  assumes inv: "seed_inv ws ps acsm0 cs s" and c: "c \<notin> set cs"
  shows "\<exists>s'. seed_char c s = Some s' \<and> seed_inv ws ps acsm0 (cs @ [c]) s'"
proof -
  obtain queue acsm new where s: "s = (queue, acsm)"
    and q: "queue = foldl queue_add queue_init (map int new)" "distinct new"
      "set new = children ws 0 (set cs)"
    and core: "dfa_core ws ps (\<lambda>q c. q = 0) ({0} \<union> set new) acsm"
    and same: "acsmPatterns acsm = acsmPatterns acsm0"
    using inv by (cases s) (auto simp: seed_inv_def)
  have tw: "trie_words ws" by (rule dfa_core_words [OF core])
  have w0: "0 < length ws" "ws ! 0 = []" using tw by (auto simp: trie_words_def)
  note len = dfa_core_length [OF core]
  have l0: "0 < length (acsmStateTable acsm)" using w0(1) len by (rule order.strict_trans2)
  have "to_state ws (lsuf ws [c]) (NextState (acsmStateTable acsm ! 0) c)"
    using dfa_core_done [OF core w0(1), of c] w0(2) by simp
  then obtain k where k: "k < length ws" "NextState (acsmStateTable acsm ! 0) c = int k"
      "ws ! k = lsuf ws [c]" by (auto simp: to_state_def)
  show ?thesis
  proof (cases "[c] \<in> set ws")
    case True
    then have wk: "ws ! k = ws ! 0 @ [c]" using k(3) w0(2) by (simp add: lsuf_word)
    have k0: "k \<noteq> 0" by (rule notI) (use wk w0(2) in simp)
    have new: "k \<notin> set new" using q(3) c wk w0(2) by (auto simp: children_def)
    let ?row = "acsmStateTable acsm ! k"
    have "mset (MatchList (acsmStateTable acsm ! 0)) = mset (filter (\<lambda>p. patrn p = []) ps)"
      using dfa_core_seen [OF core, of 0] w0(2) by (simp add: match_full_def)
    moreover have "filter (\<lambda>p. patrn p = []) ps = []"
      using core by (simp add: dfa_core_def filter_empty_conv)
    ultimately have "MatchList (acsmStateTable acsm ! 0) = []" by simp
    moreover have "ws ! 0 = lsuf ws (tl (ws ! k))"
      using wk w0(2) trie_words_Nil [OF tw] by (simp add: lsuf_word)
    ultimately have core': "dfa_core ws ps (\<lambda>q c. q = 0) (insert k ({0} \<union> set new))
        (set_state (int k) (?row\<lparr>FailState := 0\<rparr>) acsm)"
      using dfa_core_discover [OF core k(1) _ k0, of 0] k0 new by simp
    have S: "insert k ({0} \<union> set new) = {0} \<union> set (new @ [k])" by auto
    have "seed_char c (queue, acsm) =
        Some (queue_add queue (int k), set_state (int k) (?row\<lparr>FailState := 0\<rparr>) acsm)"
      using k len l0 k0 by (simp add: seed_char_def Let_def)
    moreover have "seed_inv ws ps acsm0 (cs @ [c])
        (queue_add queue (int k), set_state (int k) (?row\<lparr>FailState := 0\<rparr>) acsm)"
      unfolding seed_inv_def prod.case
      by (intro exI [of _ "new @ [k]"] conjI core' [unfolded S])
        (use same q new children_insert_some [OF tw k(1) wk] in auto)
    ultimately show ?thesis using s by blast
  next
    case False
    then have "ws ! k = []"
      using k(3) trie_words_Nil [OF tw] by (simp add: lsuf_no_word lsuf_word)
    then have "k = 0" using word_0 [OF tw k(1)] by simp
    then have "seed_char c (queue, acsm) = Some (queue, acsm)"
      using k(2) l0 by (simp add: seed_char_def Let_def)
    moreover have "seed_inv ws ps acsm0 (cs @ [c]) (queue, acsm)"
      unfolding seed_inv_def prod.case
      by (intro exI [of _ new] conjI core)
        (use same q False w0(2) children_insert_none [of ws 0 c] in auto)
    ultimately show ?thesis using s by blast
  qed
qed

lemma seed_correct:
  assumes core: "dfa_core ws ps (\<lambda>q c. q = 0) {0} acsm"
  shows "\<exists>queue acsm' Q. ofold seed_char alphabet (queue_init, acsm) = Some (queue, acsm') \<and>
           bfs_inv ws ps {0} Q acsm' \<and> queue_ok queue \<and> q_items queue = map int Q \<and>
           acsmPatterns acsm' = acsmPatterns acsm"
proof -
  have tw: "trie_words ws" by (rule dfa_core_words [OF core])
  have w0: "ws ! 0 = []" using tw by (auto simp: trie_words_def)
  have "\<exists>s'. ofold seed_char alphabet (queue_init, acsm) = Some s' \<and> seed_inv ws ps acsm alphabet s'"
  proof (rule ofold_rule [where I = "seed_inv ws ps acsm"])
    show "seed_inv ws ps acsm [] (queue_init, acsm)"
      using core by (auto simp: seed_inv_def children_def intro!: exI [of _ "[]"])
  next
    fix cs c todo s
    assume "alphabet = cs @ c # todo" and inv: "seed_inv ws ps acsm cs s"
    then have "distinct (cs @ c # todo)" using distinct_alphabet by simp
    then show "\<exists>s'. seed_char c s = Some s' \<and> seed_inv ws ps acsm (cs @ [c]) s'"
      by (intro seed_step inv) simp
  qed
  then obtain acsm' new where out:
      "ofold seed_char alphabet (queue_init, acsm) =
         Some (foldl queue_add queue_init (map int new), acsm')"
      "distinct new" "set new = children ws 0 UNIV"
      "dfa_core ws ps (\<lambda>q c. q = 0) ({0} \<union> set new) acsm'"
      "acsmPatterns acsm' = acsmPatterns acsm"
    by (auto simp: seed_inv_def)
  have one: "k \<in> set new \<Longrightarrow> length (ws ! k) = 1" for k
    unfolding out(3) by (auto simp: children_def w0)
  have "map (\<lambda>k. length (ws ! k)) new = replicate (length new) 1"
    by (rule nth_equalityI) (simp_all add: one)
  then have "depth_sorted ws new"
    using one by (auto simp: depth_sorted_def)
  moreover have "0 \<notin> set new" using one [of 0] w0 by auto
  moreover have "(\<lambda>q c. q = 0) = (\<lambda>q c. q \<in> {0})" by simp
  ultimately have "bfs_inv ws ps {0} new acsm'"
    using out by (auto simp: bfs_inv_def)
  moreover have "q_items (foldl queue_add queue_init (map int new)) = map int new"
    by (simp add: lq.items_foldl_add)
  ultimately show ?thesis
    using out lq.ok_foldl_add [OF queue_init_ok(1)] by blast
qed

text \<open>
  The specification of a compiled machine: its transitions are total and lead to the longest
  suffix that is a word; its match lists hold the patterns that are suffixes of the word.
\<close>

definition compiled :: "string list \<Rightarrow> ACSM_PATTERN list \<Rightarrow> 'a ACSM_STRUCT_scheme \<Rightarrow> bool" where
  "compiled ws ps acsm \<longleftrightarrow> dfa_core ws ps (\<lambda>_ _. True) {..<length ws} acsm"

definition good_patterns :: "ACSM_PATTERN list \<Rightarrow> bool" where
  "good_patterns ps \<longleftrightarrow> (\<forall>p\<in>set ps. wf_pattern p \<and> patrn p \<noteq> [])"

lemma Build_DFA_correct:
  assumes "dfa_core ws ps (\<lambda>q c. q = 0) {0} acsm"
  shows "\<exists>acsm'. Build_DFA acsm = Some acsm' \<and> compiled ws ps acsm' \<and>
           acsmPatterns acsm' = acsmPatterns acsm"
proof -
  obtain queue acsm1 Q where seed:
      "ofold seed_char alphabet (queue_init, acsm) = Some (queue, acsm1)"
      "bfs_inv ws ps {0} Q acsm1" "queue_ok queue" "q_items queue = map int Q"
      "acsmPatterns acsm1 = acsmPatterns acsm"
    using seed_correct [OF assms] by blast
  from bfs_loop_correct [OF seed(2-4)] seed(1,5) show ?thesis
    by (auto simp: Build_DFA_def compiled_def)
qed

lemma acsmCompile_correct:
  assumes "good_patterns (acsmPatterns acsm)"
  shows "\<exists>acsm' ws. acsmCompile acsm = Some acsm' \<and> compiled ws (acsmPatterns acsm) acsm' \<and>
           acsmPatterns acsm' = acsmPatterns acsm"
proof -
  let ?ps = "acsmPatterns acsm"
  have wf: "\<forall>p\<in>set ?ps. wf_pattern p" and ne: "\<forall>p\<in>set ?ps. patrn p \<noteq> []"
    using assms by (auto simp: good_patterns_def)
  obtain acsm1 ws where 1: "ofold AddPatternStates ?ps (init_states acsm) = Some acsm1"
      "trie_inv ws ?ps acsm1" "acsmPatterns acsm1 = ?ps"
    using add_all_patterns [OF wf] by blast
  obtain acsm2 where 2: "close_root acsm1 = Some acsm2" "dfa_core ws ?ps (\<lambda>q c. q = 0) {0} acsm2"
      "acsmPatterns acsm2 = ?ps"
    using close_root_correct [OF 1(2) ne] 1(3) by auto
  from Build_DFA_correct [OF 2(2)] 1 2 show ?thesis
    by (auto simp: acsmCompile_def)
qed

end
