(* ===== verification/AcsmxSearch.thy ===== *)
theory AcsmxSearch
  imports AcsmxDfa
begin

text \<open>
  The searches of a compiled machine: \<open>acsmSearch\<close> counts the occurrences of the patterns in
  the text, \<open>acsmSearch_offset\<close> reports where they start and \<open>acsmSearch_kw\<close> copies them
  into the caller's buffers.  All three are the run of the machine over the text
  (\<open>match_lists\<close>), whose match lists are determined by the text read so far.
\<close>

section \<open>The specification\<close>

definition ends_here :: "ACSM_PATTERN list \<Rightarrow> string \<Rightarrow> ACSM_PATTERN list" where
  \<comment> \<open>the patterns that end where \<open>read\<close> ends\<close>
  "ends_here ps read = filter (\<lambda>p. suffix (patrn p) read) ps"

definition occurrences :: "ACSM_PATTERN list \<Rightarrow> string \<Rightarrow> nat" where
  \<comment> \<open>the number of pairs of a pattern and a position at which it ends\<close>
  "occurrences ps T = (\<Sum>i<length T. length (ends_here ps (take (Suc i) T)))"

lemma ends_here_sublist:
  assumes "p \<noteq> []"
  shows "(\<exists>i<length T. suffix p (take (Suc i) T)) \<longleftrightarrow> sublist p T"
proof
  assume "\<exists>i<length T. suffix p (take (Suc i) T)"
  then show "sublist p T"
    by (meson sublist_order.order_trans sublist_take suffix_imp_sublist)
next
  assume "sublist p T"
  then obtain a b where T: "T = a @ p @ b" by (auto simp: sublist_def)
  let ?i = "length a + length p - 1"
  have "take (Suc ?i) T = a @ p" using assms T by (cases p) auto
  moreover have "?i < length T" using assms T by (cases p) auto
  ultimately show "\<exists>i<length T. suffix p (take (Suc i) T)" by (metis suffixI)
qed

section \<open>The run of the machine\<close>

fun match_lists ::
  "'a ACSM_STRUCT_scheme \<Rightarrow> int \<Rightarrow> string \<Rightarrow> ACSM_PATTERN list list option" where
  "match_lists acsm state [] = Some []"
| "match_lists acsm state (c # T) = do {
     row \<leftarrow> state_at acsm state;
     row1 \<leftarrow> state_at acsm (NextState row c);
     rest \<leftarrow> match_lists acsm (NextState row c) T;
     Some (MatchList row1 # rest) }"

lemma search_from_run:
  "match_lists acsm state T = Some mss \<Longrightarrow>
   search_from acsm state T nfound = Some (nfound + length (concat mss))"
  by (induction T arbitrary: state nfound mss) (auto simp: bind_Some_iff Let_def)

lemma copy_keywords_append:
  "copy_keywords (xs @ ys) s = do { s' \<leftarrow> copy_keywords xs s; copy_keywords ys s' }"
  by (induction xs s rule: copy_keywords.induct) (auto split: Option.bind_splits)

lemma search_kw_from_run:
  "match_lists acsm state T = Some mss \<Longrightarrow>
   search_kw_from acsm state T = copy_keywords (concat mss)"
proof (induction T arbitrary: state mss)
  case Nil
  then show ?case by (auto simp: fun_eq_iff)
next
  case (Cons c T)
  then obtain row row1 rest where r: "state_at acsm state = Some row"
    "state_at acsm (NextState row c) = Some row1"
    "match_lists acsm (NextState row c) T = Some rest" "mss = MatchList row1 # rest"
    by (auto simp: bind_Some_iff)
  note ih = Cons.IH [OF r(3)]
  show ?case by (rule ext) (simp add: r ih copy_keywords_append)
qed

fun match_offsets :: "ACSM_PATTERN list list \<Rightarrow> nat \<Rightarrow> int list" where
  "match_offsets [] T = []"
| "match_offsets (ms # mss) T =
     map (\<lambda>m. int T - int (pat_n m) + 1) ms @ match_offsets mss (T + 1)"

lemma search_offset_from_run:
  "match_lists acsm state T = Some mss \<Longrightarrow>
   search_offset_from acsm state T pos offs = Some (offs @ match_offsets mss pos)"
  by (induction T arbitrary: state offs mss pos) (auto simp: bind_Some_iff Let_def)

lemma length_match_offsets: "length (match_offsets mss pos) = length (concat mss)"
  by (induction mss arbitrary: pos) auto

lemma set_match_offsets:
  "set (match_offsets mss pos) =
     {int (pos + i) - int (pat_n m) + 1 |i m. i < length mss \<and> m \<in> set (mss ! i)}"
proof (induction mss arbitrary: pos)
  case (Cons ms mss)
  have "{int (pos + i) - int (pat_n m) + 1 |i m. i < length (ms # mss) \<and> m \<in> set ((ms # mss) ! i)} =
      {int pos - int (pat_n m) + 1 |m. m \<in> set ms} \<union>
      {int (pos + 1 + i) - int (pat_n m) + 1 |i m. i < length mss \<and> m \<in> set (mss ! i)}"
    (is "?L = ?A \<union> ?B")
  proof (rule set_eqI)
    fix x
    show "x \<in> ?L \<longleftrightarrow> x \<in> ?A \<union> ?B"
    proof
      assume "x \<in> ?L"
      then obtain i m where "x = int (pos + i) - int (pat_n m) + 1" "i < length (ms # mss)"
        "m \<in> set ((ms # mss) ! i)" by blast
      then show "x \<in> ?A \<union> ?B" by (cases i) auto
    next
      assume "x \<in> ?A \<union> ?B"
      then consider m where "x = int pos - int (pat_n m) + 1" "m \<in> set ms"
        | i m where "x = int (pos + 1 + i) - int (pat_n m) + 1" "i < length mss" "m \<in> set (mss ! i)"
        by blast
      then show "x \<in> ?L"
      proof cases
        case 1
        then show ?thesis by (intro CollectI exI [of _ 0] exI [of _ m]) auto
      next
        case 2
        then show ?thesis by (intro CollectI exI [of _ "Suc i"] exI [of _ m]) auto
      qed
    qed
  qed
  then show ?case using Cons.IH [of "pos + 1"] by auto
qed simp

lemma match_lists_compiled:
  assumes comp: "compiled ws ps acsm"
  shows "k < length ws \<Longrightarrow> ws ! k = lsuf ws x \<Longrightarrow>
    \<exists>mss. match_lists acsm (int k) T = Some mss \<and> length mss = length T \<and>
      (\<forall>i<length T. mset (mss ! i) = mset (ends_here ps (x @ take (Suc i) T)))"
proof (induction T arbitrary: k x)
  case Nil
  then show ?case by simp
next
  case (Cons c T)
  have core: "dfa_core ws ps (\<lambda>_ _. True) {..<length ws} acsm"
    using comp by (simp add: compiled_def)
  have tw: "trie_words ws" by (rule dfa_core_words [OF core])
  note len = dfa_core_length [OF core]
  obtain k1 where k1: "NextState (acsmStateTable acsm ! k) c = int k1" "k1 < length ws"
      "ws ! k1 = lsuf ws (x @ [c])"
    using dfa_core_done [OF core Cons.prems(1) TrueI, of c] Cons.prems(2) lsuf_snoc [OF tw, of x c]
    by (auto simp: to_state_def)
  have "suffix (patrn p) (lsuf ws (x @ [c])) \<longleftrightarrow> suffix (patrn p) (x @ [c])" if "p \<in> set ps" for p
  proof -
    have "patrn p \<in> set ws" using core that by (auto simp: dfa_core_def words_of_def)
    then show ?thesis using lsuf_max lsuf_suffix suffix_order.trans by blast
  qed
  then have "filter_mset (\<lambda>p. suffix (patrn p) (lsuf ws (x @ [c]))) (mset ps) =
      filter_mset (\<lambda>p. suffix (patrn p) (x @ [c])) (mset ps)"
    by (intro filter_mset_cong refl) (metis set_mset_mset)
  then have ml: "mset (MatchList (acsmStateTable acsm ! k1)) = mset (ends_here ps (x @ [c]))"
    using dfa_core_seen [OF core, of k1] k1(2,3)
    by (simp add: match_full_def ends_here_def)
  from Cons.IH [OF k1(2,3)] obtain mss where ih: "match_lists acsm (int k1) T = Some mss"
    "length mss = length T"
    "\<And>i. i < length T \<Longrightarrow> mset (mss ! i) = mset (ends_here ps ((x @ [c]) @ take (Suc i) T))"
    by blast
  have "match_lists acsm (int k) (c # T) = Some (MatchList (acsmStateTable acsm ! k1) # mss)"
    using Cons.prems(1) len k1(1,2) ih(1) by simp
  moreover have "mset ((MatchList (acsmStateTable acsm ! k1) # mss) ! i) =
      mset (ends_here ps (x @ take (Suc i) (c # T)))" if "i < length (c # T)" for i
    using that ml ih(3) [of "i - 1"] by (cases i) auto
  ultimately show ?case using ih(2) by auto
qed

text \<open>The run from the initial state.\<close>

lemma run_compiled:
  assumes comp: "compiled ws ps acsm"
  obtains mss where "match_lists acsm 0 T = Some mss" "length mss = length T"
    "\<And>i. i < length T \<Longrightarrow> mset (mss ! i) = mset (ends_here ps (take (Suc i) T))"
    "length (concat mss) = occurrences ps T"
proof -
  have tw: "trie_words ws" using comp by (auto simp: compiled_def intro: dfa_core_words)
  then have "0 < length ws" "ws ! 0 = lsuf ws []"
    using trie_words_Nil [OF tw] by (auto simp: trie_words_def lsuf_word)
  from match_lists_compiled [OF comp this, of T] obtain mss where m:
    "match_lists acsm 0 T = Some mss" "length mss = length T"
    "\<And>i. i < length T \<Longrightarrow> mset (mss ! i) = mset (ends_here ps (take (Suc i) T))" by auto
  have "length (concat mss) = (\<Sum>i<length T. length (mss ! i))"
    by (simp add: length_concat sum_list_sum_nth m(2) atLeast0LessThan)
  also have "\<dots> = occurrences ps T"
    unfolding occurrences_def by (rule sum.cong) (use m(3) mset_eq_length in auto)
  finally show ?thesis using that m by blast
qed

lemma run_members:
  assumes "length mss = length T"
    "\<And>i. i < length T \<Longrightarrow> mset (mss ! i) = mset (ends_here ps (take (Suc i) T))"
    and "i < length T"
  shows "set (mss ! i) = {p \<in> set ps. suffix (patrn p) (take (Suc i) T)}"
  using mset_eq_setD [OF assms(2) [OF assms(3)]] by (auto simp: ends_here_def)

section \<open>Copying the keywords\<close>

lemma copy_keywords_ok:
  assumes "nfound + length ms \<le> length kws"
    and "\<forall>m\<in>set ms. wf_pattern m \<and> length (patrn m) \<le> 256"
    and "\<forall>j. nfound \<le> j \<and> j < length kws \<longrightarrow> kws ! j = replicate 256 NUL"
  shows "\<exists>kws'. copy_keywords ms (nfound, kws) = Some (nfound + length ms, kws') \<and>
           length kws' = length kws \<and>
           (\<forall>j<nfound. kws' ! j = kws ! j) \<and>
           (\<forall>j<length ms. kws' ! (nfound + j) =
              patrn (ms ! j) @ replicate (256 - length (patrn (ms ! j))) NUL)"
  using assms
proof (induction ms arbitrary: nfound kws)
  case Nil
  then show ?case by auto
next
  case (Cons m ms)
  let ?buf = "patrn m @ replicate (256 - length (patrn m)) NUL"
  have here: "memcpy (kws ! nfound) 0 (take (pat_n m) (patrn m)) = Some ?buf"
    using Cons.prems by (simp add: wf_pattern_def)
  have "\<exists>kws'. copy_keywords ms (nfound + 1, kws[nfound := ?buf]) = Some (nfound + 1 + length ms, kws') \<and>
      length kws' = length (kws[nfound := ?buf]) \<and>
      (\<forall>j<nfound + 1. kws' ! j = kws[nfound := ?buf] ! j) \<and>
      (\<forall>j<length ms. kws' ! (nfound + 1 + j) =
         patrn (ms ! j) @ replicate (256 - length (patrn (ms ! j))) NUL)"
    by (rule Cons.IH) (use Cons.prems in auto)
  then obtain kws' where k: "copy_keywords ms (nfound + 1, kws[nfound := ?buf]) = Some (nfound + 1 + length ms, kws')"
      "length kws' = length kws" "\<forall>j<nfound + 1. kws' ! j = kws[nfound := ?buf] ! j"
      "\<forall>j<length ms. kws' ! (nfound + 1 + j) =
         patrn (ms ! j) @ replicate (256 - length (patrn (ms ! j))) NUL" by auto
  have "kws' ! (nfound + j) = patrn ((m # ms) ! j) @ replicate (256 - length (patrn ((m # ms) ! j))) NUL"
    if "j < length (m # ms)" for j
    using that k(3,4) Cons.prems(1) by (cases j) auto
  moreover have "\<forall>j<nfound. kws' ! j = kws ! j" using k(3) by auto
  ultimately show ?case
    using here k(1,2) Cons.prems(1) by (auto intro!: exI [of _ kws'])
qed


section \<open>Properties\<close>

lemma compiled_search:
  "compiled ws ps m \<Longrightarrow> acsmSearch m T (length T) = Some (occurrences ps T)"
  by (rule run_compiled [where T = T]) (auto simp: acsmSearch_def search_from_run)

lemma occurrences_pos_iff:
  assumes "\<forall>p\<in>set ps. patrn p \<noteq> []"
  shows "0 < occurrences ps T \<longleftrightarrow> (\<exists>p\<in>set ps. sublist (patrn p) T)"
proof -
  have "0 < occurrences ps T \<longleftrightarrow> (\<exists>i<length T. \<exists>p\<in>set ps. suffix (patrn p) (take (Suc i) T))"
    by (auto simp: occurrences_def ends_here_def sum_nonneg_eq_0_iff zero_less_iff_neq_zero
        filter_empty_conv simp del: neq0_conv)
  also have "\<dots> \<longleftrightarrow> (\<exists>p\<in>set ps. sublist (patrn p) T)"
    using assms ends_here_sublist [where T = T] by blast
  finally show ?thesis .
qed

text \<open>C1: compiling a list of non-empty patterns always succeeds (no access outside the state
  table, and the breadth-first search ends), and searching any text with the machine returns
  exactly the number of occurrences of the patterns in the text.\<close>

theorem acsmSearch_counts:
  assumes "good_patterns (acsmPatterns acsm)"
  shows "\<exists>m. acsmCompile acsm = Some m \<and>
           (\<forall>T. acsmSearch m T (length T) = Some (occurrences (acsmPatterns acsm) T))"
proof -
  obtain m ws where "acsmCompile acsm = Some m" "compiled ws (acsmPatterns acsm) m"
    using acsmCompile_correct [OF assms] by blast
  then show ?thesis using compiled_search by blast
qed

definition he_she :: ACSM_STRUCT where
  "he_she = acsmAddPattern (acsmAddPattern acsmNew ''he'' 2) ''she'' 3"

lemma he_she_good: "good_patterns (acsmPatterns he_she)"
  by (simp add: he_she_def acsmAddPattern_def acsmNew_def good_patterns_def wf_pattern_def)

lemma he_she_occurrences: "occurrences (acsmPatterns he_she) ''ushe'' = 2"
  by (simp add: he_she_def acsmAddPattern_def acsmNew_def occurrences_def ends_here_def
      lessThan_Suc suffix_def)

theorem acsmSearch_counts_witness:
  "\<exists>m. acsmCompile he_she = Some m \<and> acsmSearch m ''ushe'' (length ''ushe'') = Some 2"
proof -
  obtain m where "acsmCompile he_she = Some m"
    "\<forall>T. acsmSearch m T (length T) = Some (occurrences (acsmPatterns he_she) T)"
    using acsmSearch_counts [OF he_she_good] by blast
  moreover from this(2) have "acsmSearch m ''ushe'' (length ''ushe'') = Some 2"
    by (simp only: he_she_occurrences)
  ultimately show ?thesis by blast
qed


lemma match_start_iff:
  assumes "p \<noteq> []"
  shows "(\<exists>i<length T. suffix p (take (Suc i) T) \<and> x = int i - int (length p) + 1) \<longleftrightarrow>
         (\<exists>s. prefix p (drop s T) \<and> x = int s)"
proof
  assume "\<exists>i<length T. suffix p (take (Suc i) T) \<and> x = int i - int (length p) + 1"
  then obtain i a where i: "i < length T" "take (Suc i) T = a @ p" "x = int i - int (length p) + 1"
    by (auto simp: suffix_def)
  then have "length a + length p = Suc i" by (metis length_append length_take min.absorb2 Suc_leI)
  moreover have "T = a @ p @ drop (Suc i) T"
    by (metis append_assoc append_take_drop_id i(2))
  ultimately show "\<exists>s. prefix p (drop s T) \<and> x = int s"
    using i(3) by (intro exI [of _ "length a"]) (auto simp: prefix_def, metis append_eq_conv_conj)
next
  assume "\<exists>s. prefix p (drop s T) \<and> x = int s"
  then obtain s b where s: "drop s T = p @ b" "x = int s" by (auto simp: prefix_def)
  have "s < length T" using s(1) assms by (cases "s < length T") auto
  then have T: "T = take s T @ p @ b" "length (take s T) = s"
    using s(1) by (auto simp: min_def) (metis append_take_drop_id)
  let ?i = "s + length p - 1"
  have si: "Suc ?i = s + length p" using assms by (cases p) auto
  have "take (Suc ?i) T = take s T @ p"
    unfolding si by (metis T append.assoc append_eq_conv_conj length_append)
  moreover have "?i < length T"
    using T si by (metis Suc_le_eq append.assoc le_add1 length_append)
  ultimately show "\<exists>i<length T. suffix p (take (Suc i) T) \<and> x = int i - int (length p) + 1"
    using s(2) si by (intro exI [of _ ?i]) (auto simp: suffix_def)
qed

text \<open>C2: the offsets that \<open>acsmSearch_offset\<close> writes are exactly the positions at which some
  pattern starts in the text, one entry per occurrence.\<close>

theorem acsmSearch_offset_starts:
  assumes "good_patterns (acsmPatterns acsm)"
  shows "\<exists>m. acsmCompile acsm = Some m \<and>
           (\<forall>T. \<exists>offs. acsmSearch_offset m T (length T) = Some offs \<and>
              length offs = occurrences (acsmPatterns acsm) T \<and>
              set offs = {int s |s p. p \<in> set (acsmPatterns acsm) \<and> prefix (patrn p) (drop s T)})"
proof -
  let ?ps = "acsmPatterns acsm"
  obtain m ws where m: "acsmCompile acsm = Some m" "compiled ws ?ps m"
    using acsmCompile_correct [OF assms] by blast
  have "\<exists>offs. acsmSearch_offset m T (length T) = Some offs \<and> length offs = occurrences ?ps T \<and>
          set offs = {int s |s p. p \<in> set ?ps \<and> prefix (patrn p) (drop s T)}" for T
  proof -
    obtain mss where r: "match_lists m 0 T = Some mss" "length mss = length T"
      "\<And>i. i < length T \<Longrightarrow> mset (mss ! i) = mset (ends_here ?ps (take (Suc i) T))"
      "length (concat mss) = occurrences ?ps T"
      by (rule run_compiled [OF m(2)]) blast
    have "acsmSearch_offset m T (length T) = Some (match_offsets mss 0)"
      using search_offset_from_run [OF r(1)] by (simp add: acsmSearch_offset_def)
    moreover have "set (match_offsets mss 0) =
        {x. \<exists>p\<in>set ?ps. \<exists>i<length T. suffix (patrn p) (take (Suc i) T) \<and>
                x = int i - int (length (patrn p)) + 1}"
    proof -
      have "m \<in> set (mss ! i) \<longleftrightarrow> m \<in> set ?ps \<and> suffix (patrn m) (take (Suc i) T)"
        if "i < length T" for i m
        using run_members [OF r(2,3) that] by blast
      moreover have "pat_n m = length (patrn m)" if "m \<in> set ?ps" for m
        using that assms by (simp add: good_patterns_def wf_pattern_def)
      ultimately show ?thesis
        unfolding set_match_offsets r(2) by (intro set_eqI) (simp, metis)
    qed
    moreover have "\<dots> = {int s |s p. p \<in> set ?ps \<and> prefix (patrn p) (drop s T)}"
    proof -
      have "(\<exists>i<length T. suffix (patrn p) (take (Suc i) T) \<and> x = int i - int (length (patrn p)) + 1) \<longleftrightarrow>
          (\<exists>s. prefix (patrn p) (drop s T) \<and> x = int s)" if "p \<in> set ?ps" for p x
        by (rule match_start_iff) (use that assms in \<open>simp add: good_patterns_def\<close>)
      then have "{x. \<exists>p\<in>set ?ps. \<exists>i<length T. suffix (patrn p) (take (Suc i) T) \<and>
            x = int i - int (length (patrn p)) + 1} =
          {x. \<exists>p\<in>set ?ps. \<exists>s. prefix (patrn p) (drop s T) \<and> x = int s}"
        by (intro Collect_cong bex_cong refl)
      then show ?thesis by blast
    qed
    ultimately show ?thesis using r(4) by (auto simp: length_match_offsets)
  qed
  with m(1) show ?thesis by blast
qed

theorem acsmSearch_offset_starts_witness:
  "\<exists>m offs. acsmCompile he_she = Some m \<and> acsmSearch_offset m ''ushe'' (length ''ushe'') = Some offs \<and>
     length offs = 2 \<and> 1 \<in> set offs \<and> 2 \<in> set offs"
proof -
  let ?T = "''ushe''"
  obtain m where m: "acsmCompile he_she = Some m"
    "\<forall>T. \<exists>offs. acsmSearch_offset m T (length T) = Some offs \<and>
       length offs = occurrences (acsmPatterns he_she) T \<and>
       set offs = {int s |s p. p \<in> set (acsmPatterns he_she) \<and> prefix (patrn p) (drop s T)}"
    using acsmSearch_offset_starts [OF he_she_good] by blast
  then obtain offs where o: "acsmSearch_offset m ?T (length ?T) = Some offs"
      "length offs = occurrences (acsmPatterns he_she) ?T"
      "set offs = {int s |s p. p \<in> set (acsmPatterns he_she) \<and> prefix (patrn p) (drop s ?T)}"
    by blast
  have p: "\<lparr>patrn = ''she'', pat_n = 3\<rparr> \<in> set (acsmPatterns he_she)"
    "\<lparr>patrn = ''he'', pat_n = 2\<rparr> \<in> set (acsmPatterns he_she)"
    by (simp_all add: he_she_def acsmAddPattern_def)
  have "int 1 \<in> set offs" unfolding o(3)
    by (intro CollectI exI [of _ 1] exI [of _ "\<lparr>patrn = ''she'', pat_n = 3\<rparr>"] conjI p) simp_all
  moreover have "int 2 \<in> set offs" unfolding o(3)
    by (intro CollectI exI [of _ 2] exI [of _ "\<lparr>patrn = ''he'', pat_n = 2\<rparr>"] conjI p) simp_all
  ultimately have "1 \<in> set offs" "2 \<in> set offs" by simp_all
  moreover have "length offs = 2" using o(2) by (simp only: he_she_occurrences)
  ultimately show ?thesis using m(1) o(1) by blast
qed

lemma compiled_search_kw:
  assumes comp: "compiled ws ps m" and good: "good_patterns ps"
    and bounded: "\<forall>p\<in>set ps. length (patrn p) \<le> 255 \<and> NUL \<notin> set (patrn p)"
  shows "\<exists>kws. acsmSearch_kw m T (length T) (replicate (occurrences ps T) (replicate 256 NUL)) =
            Some (occurrences ps T, kws) \<and> length kws = occurrences ps T \<and>
          (\<forall>b\<in>set kws. NUL \<in> set b) \<and>
          set (map cstr kws) = {patrn p |p. p \<in> set ps \<and> sublist (patrn p) T}"
proof -
  obtain mss where r: "match_lists m 0 T = Some mss" "length mss = length T"
    "\<And>i. i < length T \<Longrightarrow> mset (mss ! i) = mset (ends_here ps (take (Suc i) T))"
    "length (concat mss) = occurrences ps T"
    by (rule run_compiled [OF comp]) blast
  have elems: "set (concat mss) = {p \<in> set ps. sublist (patrn p) T}"
  proof -
    have "set (concat mss) = (\<Union>i<length T. set (mss ! i))"
      unfolding set_concat set_conv_nth [of mss] r(2) by auto
    also have "\<dots> = {p \<in> set ps. \<exists>i<length T. suffix (patrn p) (take (Suc i) T)}"
      using run_members [OF r(2,3)] by auto
    also have "\<dots> = {p \<in> set ps. sublist (patrn p) T}"
      using ends_here_sublist good by (auto simp: good_patterns_def)
    finally show ?thesis .
  qed
  have fits: "\<forall>x\<in>set (concat mss). wf_pattern x \<and> length (patrn x) \<le> 256"
    unfolding elems using good bounded by (force simp: good_patterns_def)
  obtain kws where k: "copy_keywords (concat mss) (0, replicate (occurrences ps T) (replicate 256 NUL)) =
        Some (occurrences ps T, kws)" "length kws = occurrences ps T"
      "\<And>j. j < occurrences ps T \<Longrightarrow> kws ! j =
        patrn (concat mss ! j) @ replicate (256 - length (patrn (concat mss ! j))) NUL"
    using copy_keywords_ok [of 0 "concat mss" "replicate (occurrences ps T) (replicate 256 NUL)"]
      r(4) fits by auto
  have "acsmSearch_kw m T (length T) (replicate (occurrences ps T) (replicate 256 NUL)) =
      Some (occurrences ps T, kws)"
    using search_kw_from_run [OF r(1)] k(1) by (simp add: acsmSearch_kw_def)
  moreover have "map cstr kws = map patrn (concat mss)"
  proof (rule nth_equalityI)
    show "length (map cstr kws) = length (map patrn (concat mss))" using k(2) r(4) by simp
  next
    fix j assume "j < length (map cstr kws)"
    then have j: "j < occurrences ps T" using k(2) by simp
    then have "concat mss ! j \<in> set (concat mss)" using r(4) by (metis nth_mem)
    then have "NUL \<notin> set (patrn (concat mss ! j))" unfolding elems using bounded by auto
    then show "map cstr kws ! j = map patrn (concat mss) ! j"
      using j k(2,3) r(4) by (simp add: cstr_append)
  qed
  moreover have "set (map patrn (concat mss)) = {patrn p |p. p \<in> set ps \<and> sublist (patrn p) T}"
    unfolding set_map elems by blast
  moreover have "\<forall>b\<in>set kws. NUL \<in> set b"
  proof
    fix b assume "b \<in> set kws"
    then obtain j where j: "j < occurrences ps T" "b = kws ! j" using k(2) by (metis in_set_conv_nth)
    then have "concat mss ! j \<in> set (concat mss)" using r(4) by (metis nth_mem)
    then have "length (patrn (concat mss ! j)) < 256" unfolding elems using bounded by auto
    then show "NUL \<in> set b" using j k(3) by simp
  qed
  ultimately show ?thesis using k(2) by metis
qed

text \<open>C3: with one zeroed 256-byte buffer per occurrence, as the callers of
  \<open>acsmSearch_kw\<close> allocate them, every copy is in bounds and the strings in the buffers are
  exactly the patterns that occur in the text.\<close>

theorem acsmSearch_kw_keywords:
  assumes "good_patterns (acsmPatterns acsm)"
    and "\<forall>p\<in>set (acsmPatterns acsm). length (patrn p) \<le> 255 \<and> NUL \<notin> set (patrn p)"
  shows "\<exists>m. acsmCompile acsm = Some m \<and>
           (\<forall>T. \<exists>kws. acsmSearch_kw m T (length T)
                  (replicate (occurrences (acsmPatterns acsm) T) (replicate 256 NUL)) =
                    Some (occurrences (acsmPatterns acsm) T, kws) \<and>
                set (map cstr kws) =
                  {patrn p |p. p \<in> set (acsmPatterns acsm) \<and> sublist (patrn p) T})"
proof -
  obtain m ws where m: "acsmCompile acsm = Some m" "compiled ws (acsmPatterns acsm) m"
    using acsmCompile_correct [OF assms(1)] by blast
  then show ?thesis using compiled_search_kw [OF m(2) assms] by blast
qed

theorem acsmSearch_kw_keywords_witness:
  "\<exists>m kws. acsmCompile he_she = Some m \<and>
     acsmSearch_kw m ''ushe'' (length ''ushe'') (replicate 2 (replicate 256 NUL)) = Some (2, kws) \<and>
     ''she'' \<in> set (map cstr kws)"
proof -
  have "\<forall>p\<in>set (acsmPatterns he_she). length (patrn p) \<le> 255 \<and> NUL \<notin> set (patrn p)"
    by (simp add: he_she_def acsmAddPattern_def acsmNew_def)
  from acsmSearch_kw_keywords [OF he_she_good this]
  obtain m where m: "acsmCompile he_she = Some m"
    "\<forall>T. \<exists>kws. acsmSearch_kw m T (length T)
        (replicate (occurrences (acsmPatterns he_she) T) (replicate 256 NUL)) =
          Some (occurrences (acsmPatterns he_she) T, kws) \<and>
        set (map cstr kws) = {patrn p |p. p \<in> set (acsmPatterns he_she) \<and> sublist (patrn p) T}"
    by blast
  from m(2) [rule_format, of "''ushe''"] obtain kws where k:
      "acsmSearch_kw m ''ushe'' (length ''ushe'') (replicate 2 (replicate 256 NUL)) = Some (2, kws)"
      "set (map cstr kws) = {patrn p |p. p \<in> set (acsmPatterns he_she) \<and> sublist (patrn p) ''ushe''}"
    unfolding he_she_occurrences by blast
  have "\<lparr>patrn = ''she'', pat_n = 3\<rparr> \<in> set (acsmPatterns he_she)"
    by (simp add: he_she_def acsmAddPattern_def)
  moreover have "sublist ''she'' ''ushe''" by (simp add: sublist_Cons_right)
  ultimately have "''she'' \<in> set (map cstr kws)" unfolding k(2) by force
  then show ?thesis using m(1) k(1) by blast
qed

end
