(* ===== verification/StringMatcher.thy ===== *)
theory StringMatcher
  imports AcsmxSearch
begin

text \<open>
  \<^verbatim>\<open>string_matcher.c\<close>: three keyword dictionaries (keywords that block, keywords that are only
  monitored, URLs), each a pair of automata that share one pattern list: an update compiles the
  spare one and swaps the two, so that a search always runs on a finished table.

  The rows of the two tables of the SQLite database are parameters.  The regular expression that
  \<open>init_ac\<close> also compiles belongs to the C library and is not part of this state.
\<close>

section \<open>State and operations\<close>

record matchers =
  mA :: ACSM_STRUCT
  mB :: ACSM_STRUCT
  mURL_A :: ACSM_STRUCT
  mURL_B :: ACSM_STRUCT
  mNA :: ACSM_STRUCT
  mNB :: ACSM_STRUCT

definition addstr :: "matchers \<Rightarrow> string \<Rightarrow> matchers option" where
  "addstr st s = do {
     let B = acsmAddPattern (mB st) s (length s);
     let A = (mA st)\<lparr>acsmPatterns := acsmPatterns B\<rparr>;
     B2 \<leftarrow> acsmCompile B;
     Some (st\<lparr>mA := B2, mB := A\<rparr>) }"

definition addstr_N :: "matchers \<Rightarrow> string \<Rightarrow> matchers option" where
  "addstr_N st s = do {
     let NB = acsmAddPattern (mNB st) s (length s);
     let NA = (mNA st)\<lparr>acsmPatterns := acsmPatterns NB\<rparr>;
     NB2 \<leftarrow> acsmCompile NB;
     Some (st\<lparr>mNA := NB2, mNB := NA\<rparr>) }"

definition addurl :: "matchers \<Rightarrow> string \<Rightarrow> matchers option" where
  "addurl st s = do {
     let B = acsmAddPattern (mURL_B st) s (length s);
     let A = (mURL_A st)\<lparr>acsmPatterns := acsmPatterns B\<rparr>;
     B2 \<leftarrow> acsmCompile B;
     Some (st\<lparr>mURL_A := B2, mURL_B := A\<rparr>) }"

definition delstr :: "matchers \<Rightarrow> string \<Rightarrow> matchers option" where
  "delstr st s = do {
     B \<leftarrow> acsmDelPattern (mB st) s;
     let A = (mA st)\<lparr>acsmPatterns := acsmPatterns B\<rparr>;
     B2 \<leftarrow> acsmCompile B;
     Some (st\<lparr>mA := B2, mB := A\<rparr>) }"

definition delstr_N :: "matchers \<Rightarrow> string \<Rightarrow> matchers option" where
  "delstr_N st s = do {
     NB \<leftarrow> acsmDelPattern (mNB st) s;
     let NA = (mNA st)\<lparr>acsmPatterns := acsmPatterns NB\<rparr>;
     NB2 \<leftarrow> acsmCompile NB;
     Some (st\<lparr>mNA := NB2, mNB := NA\<rparr>) }"

definition delurl :: "matchers \<Rightarrow> string \<Rightarrow> matchers option" where
  "delurl st s = do {
     B \<leftarrow> acsmDelPattern (mURL_B st) s;
     let A = (mURL_A st)\<lparr>acsmPatterns := acsmPatterns B\<rparr>;
     B2 \<leftarrow> acsmCompile B;
     Some (st\<lparr>mURL_A := B2, mURL_B := A\<rparr>) }"

text \<open>
  The start-up tables: \<open>rows\<close> is the single column \<open>azResult[1..nrow]\<close> and \<open>ncolumn\<close> the
  number of columns the query returned.
\<close>

definition add_all_kw_from_db :: "nat \<Rightarrow> string list \<Rightarrow> matchers \<Rightarrow> (int \<times> matchers) option" where
  "add_all_kw_from_db ncolumn rows st =
     (if ncolumn \<noteq> 1 \<or> length rows = 0 then Some (0, st)
      else do { st' \<leftarrow> ofold (\<lambda>r st. addstr st r) rows st; Some (1, st') })"

definition add_all_url_from_db :: "nat \<Rightarrow> string list \<Rightarrow> matchers \<Rightarrow> (int \<times> matchers) option" where
  "add_all_url_from_db ncolumn rows st =
     (if ncolumn \<noteq> 1 \<or> length rows = 0 then Some (0, st)
      else do { st' \<leftarrow> ofold (\<lambda>r st. addurl st r) rows st; Some (1, st') })"

definition new_matchers :: matchers where
  "new_matchers = \<lparr>mA = acsmNew, mB = acsmNew, mURL_A = acsmNew, mURL_B = acsmNew,
                   mNA = acsmNew, mNB = acsmNew\<rparr>"

definition init_ac :: "string list \<Rightarrow> string list \<Rightarrow> matchers option" where
  "init_ac kw_rows url_rows = do {
     (r1, st1) \<leftarrow> add_all_kw_from_db 1 kw_rows new_matchers;
     (r2, st2) \<leftarrow> add_all_url_from_db 1 url_rows st1;
     Some st2 }"

definition kw_match :: "matchers \<Rightarrow> string \<Rightarrow> nat option" where
  "kw_match st s = acsmSearch (mA st) s (length s)"

definition kw_match_N :: "matchers \<Rightarrow> string \<Rightarrow> nat option" where
  "kw_match_N st s = acsmSearch (mNA st) s (length s)"

definition url_match :: "matchers \<Rightarrow> string \<Rightarrow> nat option" where
  "url_match st s = acsmSearch (mURL_A st) s (length s)"

definition get_keywords :: "matchers \<Rightarrow> string \<Rightarrow> string list \<Rightarrow> (nat \<times> string list) option" where
  "get_keywords st s keywords = acsmSearch_kw (mA st) s (length s) keywords"

definition get_keywords_N :: "matchers \<Rightarrow> string \<Rightarrow> string list \<Rightarrow> (nat \<times> string list) option" where
  "get_keywords_N st s keywords = acsmSearch_kw (mNA st) s (length s) keywords"

text \<open>
  The automaton \<open>R\<close> of the request methods is no longer built: \<open>R\<close> stays the null pointer
  (\<open>None\<close>), and the two searches that use it dereference it.
\<close>

definition get_request_number :: "ACSM_STRUCT option \<Rightarrow> string \<Rightarrow> nat option" where
  "get_request_number R s = do { r \<leftarrow> R; acsmSearch r s (length s) }"

definition get_request_offset :: "ACSM_STRUCT option \<Rightarrow> string \<Rightarrow> int list option" where
  "get_request_offset R s = do { r \<leftarrow> R; acsmSearch_offset r s (length s) }"

section \<open>The dictionary interface\<close>

definition occurrences_of :: "string list \<Rightarrow> string \<Rightarrow> nat" where
  "occurrences_of kws T = (\<Sum>i<length T. length (filter (\<lambda>k. suffix k (take (Suc i) T)) kws))"

lemma occurrences_of_patterns: "occurrences ps T = occurrences_of (map patrn ps) T"
  by (simp add: occurrences_def occurrences_of_def ends_here_def filter_map o_def)

lemma occurrences_of_pos:
  assumes "\<forall>k\<in>set kws. k \<noteq> []"
  shows "0 < occurrences_of kws T \<longleftrightarrow> (\<exists>k\<in>set kws. sublist k T)"
proof -
  have "0 < occurrences_of kws T \<longleftrightarrow> (\<exists>i<length T. \<exists>k\<in>set kws. suffix k (take (Suc i) T))"
    by (auto simp: occurrences_of_def sum_nonneg_eq_0_iff zero_less_iff_neq_zero
        filter_empty_conv simp del: neq0_conv)
  also have "\<dots> \<longleftrightarrow> (\<exists>k\<in>set kws. sublist k T)"
    using assms ends_here_sublist [where T = T] by blast
  finally show ?thesis .
qed

definition keyword_ok :: "string \<Rightarrow> bool" where
  "keyword_ok s \<longleftrightarrow> s \<noteq> [] \<and> NUL \<notin> set s"

text \<open>
  The updates the rule manager sends, and the abstract dictionary they act on: a list of
  keywords, where deleting from the empty list is undefined.
\<close>

datatype kw_update = Add string | Del string

fun update_ok :: "kw_update \<Rightarrow> bool" where
  "update_ok (Add s) \<longleftrightarrow> keyword_ok s"
| "update_ok (Del s) \<longleftrightarrow> True"

fun list_update_step :: "kw_update \<Rightarrow> string list \<Rightarrow> string list option" where
  "list_update_step (Add s) ks = Some (s # ks)"
| "list_update_step (Del s) ks = (if ks = [] then None else Some (remove1 s ks))"

fun apply_update ::
  "('st \<Rightarrow> string \<Rightarrow> 'st option) \<Rightarrow> ('st \<Rightarrow> string \<Rightarrow> 'st option) \<Rightarrow> kw_update \<Rightarrow> 'st \<Rightarrow> 'st option" where
  "apply_update add del (Add s) st = add st s"
| "apply_update add del (Del s) st = del st s"

text \<open>
  \<open>synced\<close>: the two automata of the pair agree on the pattern list; \<open>ready\<close>: moreover the
  front one is compiled, so that it can be searched.
\<close>

locale keyword_store =
  fixes keys :: "'st \<Rightarrow> string list"
    and synced :: "'st \<Rightarrow> bool"
    and ready :: "'st \<Rightarrow> bool"
    and add :: "'st \<Rightarrow> string \<Rightarrow> 'st option"
    and del :: "'st \<Rightarrow> string \<Rightarrow> 'st option"
  assumes ready_synced: "ready st \<Longrightarrow> synced st"
    and keys_ok: "synced st \<Longrightarrow> k \<in> set (keys st) \<Longrightarrow> keyword_ok k"
    and add_law: "synced st \<Longrightarrow> keyword_ok s \<Longrightarrow>
      \<exists>st'. add st s = Some st' \<and> ready st' \<and> keys st' = s # keys st"
    and del_law: "synced st \<Longrightarrow> keys st \<noteq> [] \<Longrightarrow>
      \<exists>st'. del st s = Some st' \<and> ready st' \<and> keys st' = remove1 s (keys st)"
    and del_empty: "synced st \<Longrightarrow> keys st = [] \<Longrightarrow> del st s = None"
begin

lemma add_then_del:
  assumes "synced st" "keyword_ok s" "add st s = Some st'"
  shows "\<exists>st''. del st' s = Some st'' \<and> ready st'' \<and> keys st'' = keys st"
proof -
  have "ready st'" "keys st' = s # keys st" using add_law [OF assms(1,2)] assms(3) by auto
  then show ?thesis using del_law [of st' s] ready_synced by auto
qed

lemma updates_refine:
  assumes "synced st" "\<forall>u\<in>set us. update_ok u"
  shows "case ofold list_update_step us (keys st) of
           None \<Rightarrow> ofold (apply_update add del) us st = None
         | Some ks \<Rightarrow> (\<exists>st'. ofold (apply_update add del) us st = Some st' \<and> synced st' \<and>
             keys st' = ks \<and> (us \<noteq> [] \<longrightarrow> ready st'))"
  using assms
proof (induction us arbitrary: st)
  case Nil
  then show ?case by simp
next
  case (Cons u us)
  show ?case
  proof (cases "list_update_step u (keys st)")
    case None
    then obtain s where "u = Del s" "keys st = []"
      by (cases u) (auto split: if_splits)
    then show ?thesis using del_empty Cons.prems(1) by simp
  next
    case (Some ks)
    then obtain st' where st': "apply_update add del u st = Some st'" "ready st'" "keys st' = ks"
      using add_law [OF Cons.prems(1)] del_law [OF Cons.prems(1)] Cons.prems(2)
      by (cases u) (fastforce split: if_splits)+
    then show ?thesis
      using Cons.IH [of st'] ready_synced Some Cons.prems(2)
      by (cases "us = []") (auto split: option.splits)
  qed
qed

lemma add_all:
  assumes "synced st" "\<forall>k\<in>set ks. keyword_ok k"
  shows "\<exists>st'. ofold (\<lambda>k st. add st k) ks st = Some st' \<and> synced st' \<and> keys st' = rev ks @ keys st \<and>
           (ks \<noteq> [] \<longrightarrow> ready st')"
proof -
  have "\<exists>s'. ofold (\<lambda>k st. add st k) ks st = Some s' \<and>
     (synced s' \<and> keys s' = rev ks @ keys st \<and> (ks \<noteq> [] \<longrightarrow> ready s'))"
  proof (rule ofold_rule [where I = "\<lambda>done s'. synced s' \<and> keys s' = rev done @ keys st \<and>
        (done \<noteq> [] \<longrightarrow> ready s')"])
    show "synced st \<and> keys st = rev [] @ keys st \<and> ([] \<noteq> [] \<longrightarrow> ready st)" using assms(1) by simp
  next
    fix "done" k todo s
    assume "ks = done @ k # todo"
      and s: "synced s \<and> keys s = rev done @ keys st \<and> (done \<noteq> [] \<longrightarrow> ready s)"
    then have "keyword_ok k" using assms(2) by simp
    from add_law [OF conjunct1 [OF s] this] s ready_synced
    show "\<exists>s'. add s k = Some s' \<and> synced s' \<and> keys s' = rev (done @ [k]) @ keys st \<and>
        (done @ [k] \<noteq> [] \<longrightarrow> ready s')" by auto
  qed
  then show ?thesis by simp
qed

end

text \<open>A dictionary that also counts the occurrences of its keywords in a text.\<close>

locale keyword_dict = keyword_store keys synced ready add del
  for keys :: "'st \<Rightarrow> string list"
    and synced :: "'st \<Rightarrow> bool"
    and ready :: "'st \<Rightarrow> bool"
    and add :: "'st \<Rightarrow> string \<Rightarrow> 'st option"
    and del :: "'st \<Rightarrow> string \<Rightarrow> 'st option" +
  fixes count :: "'st \<Rightarrow> string \<Rightarrow> nat option"
  assumes count_law: "ready st \<Longrightarrow> count st T = Some (occurrences_of (keys st) T)"
begin

lemma count_pos:
  assumes "ready st"
  shows "(\<exists>n. count st T = Some n \<and> 0 < n) \<longleftrightarrow> (\<exists>k\<in>set (keys st). sublist k T)"
proof -
  have "\<forall>k\<in>set (keys st). k \<noteq> []"
    using keys_ok [OF ready_synced [OF assms]] by (auto simp: keyword_ok_def)
  then show ?thesis using count_law [OF assms] occurrences_of_pos by simp
qed

lemma add_then_count:
  assumes "synced st" "keyword_ok s" "add st s = Some st'"
  shows "count st' T = Some (occurrences_of (s # keys st) T)"
  using add_law [OF assms(1,2)] assms(3) count_law by auto

end

section \<open>One pair of automata\<close>

definition pair_synced :: "ACSM_STRUCT \<Rightarrow> ACSM_STRUCT \<Rightarrow> bool" where
  "pair_synced a b \<longleftrightarrow> acsmPatterns a = acsmPatterns b \<and>
     (\<forall>p\<in>set (acsmPatterns a). wf_pattern p \<and> keyword_ok (patrn p))"

definition pair_ready :: "ACSM_STRUCT \<Rightarrow> ACSM_STRUCT \<Rightarrow> bool" where
  "pair_ready a b \<longleftrightarrow> pair_synced a b \<and> (\<exists>ws. compiled ws (acsmPatterns a) a)"

abbreviation keys_of :: "ACSM_STRUCT \<Rightarrow> string list" where
  "keys_of a \<equiv> map patrn (acsmPatterns a)"

lemma pair_synced_good: "pair_synced a b \<Longrightarrow> good_patterns (acsmPatterns b)"
  by (auto simp: pair_synced_def good_patterns_def keyword_ok_def)

lemma pair_add:
  assumes "pair_synced a b" "keyword_ok s"
  shows "\<exists>b2. acsmCompile (acsmAddPattern b s (length s)) = Some b2 \<and>
           pair_ready b2 (a\<lparr>acsmPatterns := acsmPatterns (acsmAddPattern b s (length s))\<rparr>) \<and>
           keys_of b2 = s # keys_of a"
proof -
  let ?b = "acsmAddPattern b s (length s)"
  have new: "acsmPatterns ?b = \<lparr>patrn = s, pat_n = length s\<rparr> # acsmPatterns b"
    by (simp add: acsmAddPattern_def)
  have "good_patterns (acsmPatterns ?b)"
    using pair_synced_good [OF assms(1)] assms(2)
    by (simp add: new good_patterns_def wf_pattern_def keyword_ok_def)
  from acsmCompile_correct [OF this] obtain b2 ws where "acsmCompile ?b = Some b2"
    "compiled ws (acsmPatterns ?b) b2" "acsmPatterns b2 = acsmPatterns ?b" by blast
  then show ?thesis
    using assms new by (auto simp: pair_ready_def pair_synced_def wf_pattern_def)
qed

lemma unlink_pattern_remove1:
  "\<forall>p\<in>set ps. NUL \<notin> set (patrn p) \<Longrightarrow> map patrn (unlink_pattern ps s) = remove1 s (map patrn ps)"
  by (induction ps) auto

lemma unlink_pattern_subset: "set (unlink_pattern ps s) \<subseteq> set ps"
  by (induction ps) auto

lemma pair_del:
  assumes sync: "pair_synced a b" and ne: "acsmPatterns b \<noteq> []"
  shows "\<exists>b1 b2. acsmDelPattern b s = Some b1 \<and> acsmCompile b1 = Some b2 \<and>
           pair_ready b2 (a\<lparr>acsmPatterns := acsmPatterns b1\<rparr>) \<and>
           keys_of b2 = remove1 s (keys_of a)"
proof -
  obtain p ps where b: "acsmPatterns b = p # ps" using ne by (cases "acsmPatterns b") auto
  have nul: "\<forall>p\<in>set (acsmPatterns b). NUL \<notin> set (patrn p)"
    using sync by (auto simp: pair_synced_def keyword_ok_def)
  define rest where "rest = (if s = patrn p then ps else p # unlink_pattern ps s)"
  have keys: "map patrn rest = remove1 s (keys_of b)"
    using nul b by (simp add: rest_def unlink_pattern_remove1)
  have sub: "set rest \<subseteq> set (acsmPatterns b)"
    using unlink_pattern_subset [of ps s] by (auto simp: rest_def b)
  have del: "acsmDelPattern b s = Some (b\<lparr>acsmPatterns := rest\<rparr>)"
    using nul b by (auto simp: acsmDelPattern_def rest_def)
  have "good_patterns rest"
    using pair_synced_good [OF sync] sub by (auto simp: good_patterns_def)
  then obtain b2 ws where "acsmCompile (b\<lparr>acsmPatterns := rest\<rparr>) = Some b2"
    "compiled ws rest b2" "acsmPatterns b2 = rest"
    using acsmCompile_correct [of "b\<lparr>acsmPatterns := rest\<rparr>"] by auto
  then show ?thesis
    using del keys sync sub by (auto simp: pair_ready_def pair_synced_def)
qed

lemma pair_del_empty: "acsmPatterns b = [] \<Longrightarrow> acsmDelPattern b s = None"
  by (simp add: acsmDelPattern_def)

lemma pair_count:
  "pair_ready a b \<Longrightarrow> acsmSearch a T (length T) = Some (occurrences_of (keys_of a) T)"
  using compiled_search by (auto simp: pair_ready_def occurrences_of_patterns)

section \<open>The three dictionaries\<close>

interpretation kw: keyword_dict "\<lambda>st. keys_of (mA st)"
  "\<lambda>st. pair_synced (mA st) (mB st)" "\<lambda>st. pair_ready (mA st) (mB st)" addstr delstr kw_match
proof (unfold_locales, goal_cases)
  case (3 st s)
  then show ?case using pair_add [of "mA st" "mB st" s] by (auto simp: addstr_def Let_def)
next
  case (4 st s)
  then show ?case
    using pair_del [of "mA st" "mB st" s] by (auto simp: delstr_def Let_def pair_synced_def)
next
  case (6 st T)
  then show ?case using pair_count [of "mA st" "mB st" T] by (simp add: kw_match_def)
qed (auto simp: pair_ready_def pair_synced_def delstr_def pair_del_empty)

interpretation kwN: keyword_dict "\<lambda>st. keys_of (mNA st)"
  "\<lambda>st. pair_synced (mNA st) (mNB st)" "\<lambda>st. pair_ready (mNA st) (mNB st)"
  addstr_N delstr_N kw_match_N
proof (unfold_locales, goal_cases)
  case (3 st s)
  then show ?case using pair_add [of "mNA st" "mNB st" s] by (auto simp: addstr_N_def Let_def)
next
  case (4 st s)
  then show ?case
    using pair_del [of "mNA st" "mNB st" s] by (auto simp: delstr_N_def Let_def pair_synced_def)
next
  case (6 st T)
  then show ?case using pair_count [of "mNA st" "mNB st" T] by (simp add: kw_match_N_def)
qed (auto simp: pair_ready_def pair_synced_def delstr_N_def pair_del_empty)

interpretation url: keyword_dict "\<lambda>st. keys_of (mURL_A st)"
  "\<lambda>st. pair_synced (mURL_A st) (mURL_B st)" "\<lambda>st. pair_ready (mURL_A st) (mURL_B st)"
  addurl delurl url_match
proof (unfold_locales, goal_cases)
  case (3 st s)
  then show ?case using pair_add [of "mURL_A st" "mURL_B st" s] by (auto simp: addurl_def Let_def)
next
  case (4 st s)
  then show ?case
    using pair_del [of "mURL_A st" "mURL_B st" s] by (auto simp: delurl_def Let_def pair_synced_def)
next
  case (6 st T)
  then show ?case using pair_count [of "mURL_A st" "mURL_B st" T] by (simp add: url_match_def)
qed (auto simp: pair_ready_def pair_synced_def delurl_def pair_del_empty)

section \<open>Properties\<close>

lemma new_matchers_synced:
  "pair_synced (mA new_matchers) (mB new_matchers)"
  "pair_synced (mNA new_matchers) (mNB new_matchers)"
  "pair_synced (mURL_A new_matchers) (mURL_B new_matchers)"
  "keys_of (mA new_matchers) = []" "keys_of (mNA new_matchers) = []"
  "keys_of (mURL_A new_matchers) = []"
  by (simp_all add: new_matchers_def pair_synced_def acsmNew_def)

lemma addurl_frame: "addurl st s = Some st' \<Longrightarrow> mA st' = mA st \<and> mB st' = mB st"
  by (auto simp: addurl_def Let_def bind_Some_iff)

lemma addurls_frame:
  "ofold (\<lambda>k st. addurl st k) ks st = Some st' \<Longrightarrow> mA st' = mA st \<and> mB st' = mB st"
  by (induction ks arbitrary: st) (auto simp: bind_Some_iff dest!: addurl_frame)

lemma addstr_frame: "addstr st s = Some st' \<Longrightarrow> mURL_A st' = mURL_A st \<and> mURL_B st' = mURL_B st"
  by (auto simp: addstr_def Let_def bind_Some_iff)

lemma addstrs_frame:
  "ofold (\<lambda>k st. addstr st k) ks st = Some st' \<Longrightarrow> mURL_A st' = mURL_A st \<and> mURL_B st' = mURL_B st"
  by (induction ks arbitrary: st) (auto simp: bind_Some_iff dest!: addstr_frame)

lemma occurrences_of_rev [simp]: "occurrences_of (rev ks) T = occurrences_of ks T"
  by (simp add: occurrences_of_def rev_filter [symmetric])

text \<open>C4: starting from empty dictionaries, any sequence of keyword additions and deletions
  behaves as on the abstract list of keywords: it is undefined exactly when the abstract one
  deletes from the empty list, and afterwards \<open>kw_match\<close> counts the occurrences of the
  keywords that are left.  In particular the swap of the two automata never leaves a stale
  dictionary in front.\<close>

theorem keyword_updates_refine:
  assumes "\<forall>u\<in>set us. update_ok u" "us \<noteq> []"
  shows "case ofold list_update_step us [] of
           None \<Rightarrow> ofold (apply_update addstr delstr) us new_matchers = None
         | Some ks \<Rightarrow> (\<exists>st. ofold (apply_update addstr delstr) us new_matchers = Some st \<and>
             (\<forall>T. kw_match st T = Some (occurrences_of ks T)))"
  using kw.updates_refine [OF new_matchers_synced(1) assms(1)] assms(2) new_matchers_synced(4)
    kw.count_law
  by (fastforce split: option.splits)

theorem keyword_updates_refine_witness:
  "ofold (apply_update addstr delstr) [Add ''he'', Del ''he'', Del ''x''] new_matchers = None"
  using keyword_updates_refine [of "[Add ''he'', Del ''he'', Del ''x'']"]
  by (simp add: keyword_ok_def)

text \<open>C5: \<open>init_ac\<close> builds searchable keyword and URL dictionaries from the rows of the two
  tables, and they count exactly the occurrences of those rows.\<close>

theorem init_ac_counts:
  assumes "\<forall>k\<in>set kw_rows \<union> set url_rows. keyword_ok k" "kw_rows \<noteq> []" "url_rows \<noteq> []"
  shows "\<exists>st. init_ac kw_rows url_rows = Some st \<and>
           (\<forall>T. kw_match st T = Some (occurrences_of kw_rows T) \<and>
                url_match st T = Some (occurrences_of url_rows T))"
proof -
  from kw.add_all [OF new_matchers_synced(1), of kw_rows] assms new_matchers_synced(4)
  obtain st1 where st1: "ofold (\<lambda>k st. addstr st k) kw_rows new_matchers = Some st1"
    "keys_of (mA st1) = rev kw_rows" "pair_ready (mA st1) (mB st1)" by auto
  have "pair_synced (mURL_A st1) (mURL_B st1)" "keys_of (mURL_A st1) = []"
    using addstrs_frame [OF st1(1)] new_matchers_synced by simp_all
  with url.add_all [of st1 url_rows] assms obtain st2 where
    st2: "ofold (\<lambda>k st. addurl st k) url_rows st1 = Some st2"
    "keys_of (mURL_A st2) = rev url_rows" "pair_ready (mURL_A st2) (mURL_B st2)" by auto
  have "init_ac kw_rows url_rows = Some st2"
    using st1(1) st2(1) assms(2,3)
    by (simp add: init_ac_def add_all_kw_from_db_def add_all_url_from_db_def)
  moreover have "kw_match st2 T = Some (occurrences_of kw_rows T)" for T
    using kw.count_law [of st2 T] addurls_frame [OF st2(1)] st1 by simp
  moreover have "url_match st2 T = Some (occurrences_of url_rows T)" for T
    using url.count_law [of st2 T] st2 by simp
  ultimately show ?thesis by blast
qed

theorem init_ac_counts_witness:
  "\<exists>st. init_ac [''he'', ''she''] [''/x''] = Some st \<and> url_match st ''a/xb'' = Some 1"
proof -
  have "occurrences_of [''/x''] ''a/xb'' = 1"
    by (simp add: occurrences_of_def lessThan_Suc suffix_def)
  then show ?thesis
    using init_ac_counts [of "[''he'', ''she'']" "[''/x'']"] by (auto simp: keyword_ok_def)
qed

text \<open>What \<open>init_ac\<close> leaves for the other components, empty tables included.\<close>

lemma addstr_frame_N: "addstr st s = Some st' \<Longrightarrow> mNA st' = mNA st \<and> mNB st' = mNB st"
  by (auto simp: addstr_def Let_def bind_Some_iff)

lemma addurl_frame_N: "addurl st s = Some st' \<Longrightarrow> mNA st' = mNA st \<and> mNB st' = mNB st"
  by (auto simp: addurl_def Let_def bind_Some_iff)

lemma addstrs_frame_N:
  "ofold (\<lambda>k st. addstr st k) ks st = Some st' \<Longrightarrow> mNA st' = mNA st \<and> mNB st' = mNB st"
  by (induction ks arbitrary: st) (auto simp: bind_Some_iff dest!: addstr_frame_N)

lemma addurls_frame_N:
  "ofold (\<lambda>k st. addurl st k) ks st = Some st' \<Longrightarrow> mNA st' = mNA st \<and> mNB st' = mNB st"
  by (induction ks arbitrary: st) (auto simp: bind_Some_iff dest!: addurl_frame_N)

lemma init_ac_state:
  assumes "\<forall>k\<in>set kw_rows \<union> set url_rows. keyword_ok k"
  shows "\<exists>st. init_ac kw_rows url_rows = Some st \<and>
           pair_synced (mA st) (mB st) \<and> keys_of (mA st) = rev kw_rows \<and>
           pair_synced (mNA st) (mNB st) \<and> keys_of (mNA st) = [] \<and>
           pair_synced (mURL_A st) (mURL_B st) \<and> keys_of (mURL_A st) = rev url_rows \<and>
           (url_rows \<noteq> [] \<longrightarrow> pair_ready (mURL_A st) (mURL_B st))"
proof -
  from kw.add_all [OF new_matchers_synced(1), of kw_rows] assms new_matchers_synced(4)
  obtain st1 where st1: "ofold (\<lambda>k st. addstr st k) kw_rows new_matchers = Some st1"
    "keys_of (mA st1) = rev kw_rows" "pair_synced (mA st1) (mB st1)" by auto
  have "pair_synced (mURL_A st1) (mURL_B st1)" "keys_of (mURL_A st1) = []"
    using addstrs_frame [OF st1(1)] new_matchers_synced by simp_all
  with url.add_all [of st1 url_rows] assms obtain st2 where
    st2: "ofold (\<lambda>k st. addurl st k) url_rows st1 = Some st2"
    "keys_of (mURL_A st2) = rev url_rows" "pair_synced (mURL_A st2) (mURL_B st2)"
    "url_rows \<noteq> [] \<longrightarrow> pair_ready (mURL_A st2) (mURL_B st2)" by auto
  have "init_ac kw_rows url_rows = Some st2"
    using st1(1) st2(1)
    by (cases kw_rows; cases url_rows)
       (auto simp: init_ac_def add_all_kw_from_db_def add_all_url_from_db_def bind_Some_iff)
  moreover have "pair_synced (mA st2) (mB st2)" "keys_of (mA st2) = rev kw_rows"
    using st1 addurls_frame [OF st2(1)] by simp_all
  moreover have "pair_synced (mNA st2) (mNB st2)" "keys_of (mNA st2) = []"
    using addstrs_frame_N [OF st1(1)] addurls_frame_N [OF st2(1)] new_matchers_synced by simp_all
  ultimately show ?thesis using st2 by blast
qed

text \<open>When the tables of the database are empty the dictionaries are never compiled, and
  the first search of a non-empty text dereferences the null state table.\<close>

lemma uncompiled_match_undefined:
  "init_ac [] [] = Some new_matchers \<and>
   (\<forall>c T. kw_match new_matchers (c # T) = None \<and> kw_match_N new_matchers (c # T) = None \<and>
          url_match new_matchers (c # T) = None)"
  by (simp add: init_ac_def add_all_kw_from_db_def add_all_url_from_db_def kw_match_def
      kw_match_N_def url_match_def acsmSearch_def new_matchers_def acsmNew_def state_at_def)

end
