(* ===== verification/QueryTable.thy ===== *)
theory QueryTable
  imports StringMatcher
begin

text \<open>
  \<^verbatim>\<open>query_table.c\<close>: the table of logical rules over keywords (\<open>a & b # c\<close>).  A rule is
  parsed into at most four words and three operators, its words are added to the keyword
  dictionary, and a text hits the rule when the formula holds of the words that occur in it.

  The functions come twice, for the blocking and for the monitoring (\<open>_N\<close>) dictionary; the two
  copies share their text and so share the definitions that do not touch the dictionary.  The
  10000 slots of the table are the list of the \<open>query_count\<close> slots that were set; the slots
  behind them are uninitialised and never read.
\<close>

section \<open>Rules and their parser\<close>

record query_expression =
  query_word_num :: nat
  logic_ops :: string          \<comment> \<open>3 bytes\<close>
  query :: "string list"       \<comment> \<open>4 buffers of 256 bytes\<close>
  tf :: "int list"             \<comment> \<open>4 entries\<close>
  full_text :: string          \<comment> \<open>256 bytes\<close>

type_synonym query_table = "query_expression option list"

definition new_query_expression :: query_expression where
  "new_query_expression = \<lparr>query_word_num = 0, logic_ops = replicate 3 NUL,
     query = replicate 4 (replicate 256 NUL), tf = replicate 4 0, full_text = replicate 256 NUL\<rparr>"

definition is_logic :: "char \<Rightarrow> bool" where
  "is_logic c \<longleftrightarrow> c = CHR ''#'' \<or> c = CHR ''&''"

definition still_has_logic :: "string \<Rightarrow> bool" where
  "still_has_logic q \<longleftrightarrow> (\<exists>c\<in>set q. is_logic c)"

definition skip_spaces :: "string \<Rightarrow> nat \<Rightarrow> nat" where
  "skip_spaces q start = start + length (takeWhile (\<lambda>c. c = CHR '' '') (drop start q))"

definition word_between :: "string \<Rightarrow> nat \<Rightarrow> nat \<Rightarrow> string" where
  \<comment> \<open>the bytes from \<open>start\<close> up to a space or up to \<open>end\<close>\<close>
  "word_between q start end = takeWhile (\<lambda>c. c \<noteq> CHR '' '') (take (end - start) (drop start q))"

definition put_word :: "nat \<Rightarrow> string \<Rightarrow> query_expression \<Rightarrow> query_expression option" where
  \<comment> \<open>\<open>qe->query[word_num][k++] = ...\<close> for the bytes of \<open>w\<close>\<close>
  "put_word word_num w qe =
     (if w = [] then Some qe
      else if word_num < length (query qe)
      then do {
        row \<leftarrow> memcpy (query qe ! word_num) 0 w;
        Some (qe\<lparr>query := (query qe)[word_num := row]\<rparr>) }
      else None)"

fun parse_loop ::
  "string \<Rightarrow> nat list \<Rightarrow> nat \<Rightarrow> nat \<Rightarrow> nat \<Rightarrow> query_expression \<Rightarrow> (nat \<times> query_expression) option" where
  "parse_loop q [] start ops word_num qe = Some (word_num, qe)"
| "parse_loop q (i # is) start ops word_num qe =
     (if \<not> still_has_logic (drop start q)
      then do {
        qe1 \<leftarrow> put_word word_num (word_between q (skip_spaces q start) (length q)) qe;
        Some (word_num + 1, qe1) }
      else if is_logic (q ! i)
      then if ops < length (logic_ops qe)
           then do {
             qe1 \<leftarrow> put_word word_num (word_between q (skip_spaces q start) i)
                      (qe\<lparr>logic_ops := (logic_ops qe)[ops := q ! i]\<rparr>);
             parse_loop q is (i + 1) (ops + 1) (word_num + 1) qe1 }
           else None
      else parse_loop q is start ops word_num qe)"

definition parse_expr :: "string \<Rightarrow> query_expression option" where
  "parse_expr q = do {
     ft \<leftarrow> (if 0 < length q \<and> length q < 1000
           then memcpy (full_text new_query_expression) 0 q
           else Some (full_text new_query_expression));
     (word_num, qe) \<leftarrow> parse_loop q [0..<length q] 0 0 0 (new_query_expression\<lparr>full_text := ft\<rparr>);
     Some (qe\<lparr>query_word_num := word_num\<rparr>) }"

definition add_words ::
  "('s \<Rightarrow> string \<Rightarrow> 's option) \<Rightarrow> query_expression \<Rightarrow> 's \<Rightarrow> 's option" where
  "add_words add qe st =
     ofold (\<lambda>i st. if i < length (query qe) then do { w \<leftarrow> buf_str (query qe ! i); add st w } else None)
       [0..<query_word_num qe] st"

definition parse :: "string \<Rightarrow> matchers \<Rightarrow> (query_expression \<times> matchers) option" where
  "parse q st = do { qe \<leftarrow> parse_expr q; st' \<leftarrow> add_words addstr qe st; Some (qe, st') }"

definition parse_N :: "string \<Rightarrow> matchers \<Rightarrow> (query_expression \<times> matchers) option" where
  "parse_N q st = do { qe \<leftarrow> parse_expr q; st' \<leftarrow> add_words addstr_N qe st; Some (qe, st') }"

section \<open>The table\<close>

definition init_query_table :: query_table where
  "init_query_table = []"

definition init_query_table_N :: query_table where
  "init_query_table_N = []"

definition push_rule :: "query_expression \<Rightarrow> query_table \<Rightarrow> query_table option" where
  \<comment> \<open>\<open>table[query_count++] = qe\<close>\<close>
  "push_rule qe tbl = (if length tbl < 10000 then Some (tbl @ [Some qe]) else None)"

definition add_query_rule :: "string \<Rightarrow> query_table \<times> matchers \<Rightarrow> (query_table \<times> matchers) option" where
  "add_query_rule q = (\<lambda>(tbl, st). do {
     (qe, st') \<leftarrow> parse q st; tbl' \<leftarrow> push_rule qe tbl; Some (tbl', st') })"

definition add_query_rule_N :: "string \<Rightarrow> query_table \<times> matchers \<Rightarrow> (query_table \<times> matchers) option" where
  "add_query_rule_N q = (\<lambda>(tbl, st). do {
     (qe, st') \<leftarrow> parse_N q st; tbl' \<leftarrow> push_rule qe tbl; Some (tbl', st') })"

fun del_query_rule :: "string \<Rightarrow> query_table \<Rightarrow> query_table option" where
  "del_query_rule q [] = Some []"
| "del_query_rule q (None # tbl) = do { tbl' \<leftarrow> del_query_rule q tbl; Some (None # tbl') }"
| "del_query_rule q (Some qe # tbl) = do {
     same \<leftarrow> strcmp0 (full_text qe) (q @ [NUL]);
     tbl' \<leftarrow> del_query_rule q tbl;
     Some ((if same then None else Some qe) # tbl') }"

fun del_query_rule_N :: "string \<Rightarrow> query_table \<Rightarrow> query_table option" where
  "del_query_rule_N q [] = Some []"
| "del_query_rule_N q (None # tbl) = do { tbl' \<leftarrow> del_query_rule_N q tbl; Some (None # tbl') }"
| "del_query_rule_N q (Some qe # tbl) = do {
     same \<leftarrow> strcmp0 (full_text qe) (q @ [NUL]);
     tbl' \<leftarrow> del_query_rule_N q tbl;
     Some ((if same then None else Some qe) # tbl') }"

section \<open>Matching\<close>

fun in_match_word_list :: "string \<Rightarrow> string list \<Rightarrow> nat \<Rightarrow> bool option" where
  "in_match_word_list word kws 0 = Some False"
| "in_match_word_list word [] (Suc n) = None"
| "in_match_word_list word (kw # kws) (Suc n) = do {
     same \<leftarrow> strcmp0 kw word;
     if same then Some True else in_match_word_list word kws n }"

definition of_bool_int :: "bool \<Rightarrow> int" where
  "of_bool_int b = (if b then 1 else 0)"

definition populate_tf :: "query_expression \<Rightarrow> nat \<Rightarrow> string list \<Rightarrow> query_expression option" where
  "populate_tf qe ra kw =
     ofold (\<lambda>i qe. if i < length (query qe)
                   then do {
                     b \<leftarrow> in_match_word_list (query qe ! i) kw ra;
                     Some (qe\<lparr>tf := (tf qe)[i := of_bool_int b]\<rparr>) }
                   else None)
       [0..<query_word_num qe] qe"

text \<open>
  The cascade of \<open>match_\<close> (here \<open>match_qe\<close>): every case that is not listed reaches \<open>free(kw)\<close>, where \<open>kw\<close> is a
  variable-length array on the stack, and then the end of a function without a value: \<open>None\<close>.
\<close>

definition eval_ops :: "query_expression \<Rightarrow> int option" where
  "eval_ops qe =
     (let t = (\<lambda>i. tf qe ! i \<noteq> 0); op = (\<lambda>i. logic_ops qe ! i) in
      if query_word_num qe = 1 then Some (tf qe ! 0)
      else if query_word_num qe = 2 then
        if op 0 = CHR ''#'' then Some (of_bool_int (t 0 \<or> t 1))
        else if op 0 = CHR ''&'' then Some (of_bool_int (t 0 \<and> t 1))
        else None
      else if query_word_num qe = 3 then
        if op 0 = CHR ''#'' \<and> op 1 = CHR ''#'' then Some (of_bool_int (t 0 \<or> t 1 \<or> t 2))
        else if op 0 = CHR ''#'' \<and> op 1 = CHR ''&'' then Some (of_bool_int (t 0 \<or> t 1 \<and> t 2))
        else if op 0 = CHR ''&'' \<and> op 1 = CHR ''#'' then Some (of_bool_int (t 0 \<and> t 1 \<or> t 2))
        else if op 0 = CHR ''&'' \<and> op 1 = CHR ''&'' then Some (of_bool_int (t 0 \<and> t 1 \<and> t 2))
        else None
      else None)"

definition match_expr ::
  "(string \<Rightarrow> nat option) \<Rightarrow> (string \<Rightarrow> string list \<Rightarrow> (nat \<times> string list) option) \<Rightarrow>
   query_expression \<Rightarrow> string \<Rightarrow> (int \<times> query_expression) option" where
  "match_expr km gk qe text = do {
     ra \<leftarrow> km text;
     (n, kw) \<leftarrow> gk text (replicate ra (replicate 256 NUL));
     qe' \<leftarrow> populate_tf qe ra kw;
     r \<leftarrow> eval_ops qe';
     Some (r, qe') }"

definition match_qe :: "matchers \<Rightarrow> query_expression \<Rightarrow> string \<Rightarrow> (int \<times> query_expression) option" where
  "match_qe st = match_expr (kw_match st) (get_keywords st)"

definition match_qe_N :: "matchers \<Rightarrow> query_expression \<Rightarrow> string \<Rightarrow> (int \<times> query_expression) option" where
  "match_qe_N st = match_expr (kw_match_N st) (get_keywords_N st)"

definition MAX_LOGIC_HIT_RESULT_LEN :: nat where
  "MAX_LOGIC_HIT_RESULT_LEN = 32"

fun match_rules ::
  "(query_expression \<Rightarrow> string \<Rightarrow> (int \<times> query_expression) option) \<Rightarrow> string \<Rightarrow> nat \<Rightarrow>
   query_table \<Rightarrow> nat list \<Rightarrow> (nat list \<times> query_table) option" where
  "match_rules m text i [] hits = Some (hits, [])"
| "match_rules m text i (None # tbl) hits = do {
     (h, tbl') \<leftarrow> match_rules m text (i + 1) tbl hits; Some (h, None # tbl') }"
| "match_rules m text i (Some qe # tbl) hits = do {
     (r, qe') \<leftarrow> m qe text;
     hits' \<leftarrow> (if r = 1
              then if length hits < MAX_LOGIC_HIT_RESULT_LEN then Some (hits @ [i]) else None
              else Some hits);
     (h, tbl') \<leftarrow> match_rules m text (i + 1) tbl hits';
     Some (h, Some qe' # tbl') }"

text \<open>The result is the list of hit rules and the table, whose \<open>tf\<close> fields have changed.\<close>

definition logic_query_match :: "matchers \<Rightarrow> query_table \<Rightarrow> string \<Rightarrow> (nat list \<times> query_table) option" where
  "logic_query_match st tbl text = match_rules (match_qe st) text 0 tbl []"

definition logic_query_match_N :: "matchers \<Rightarrow> query_table \<Rightarrow> string \<Rightarrow> (nat list \<times> query_table) option" where
  "logic_query_match_N st tbl text = match_rules (match_qe_N st) text 0 tbl []"

section \<open>What the parser returns\<close>

definition first_word :: "string \<Rightarrow> string" where
  "first_word seg = takeWhile (\<lambda>c. c \<noteq> CHR '' '') (dropWhile (\<lambda>c. c = CHR '' '') seg)"

text \<open>The parts of a query between its operators; an empty part at the very end does not count.\<close>

function segments :: "string \<Rightarrow> string list" where
  "segments q =
     (if q = [] then []
      else if still_has_logic q
      then takeWhile (\<lambda>c. \<not> is_logic c) q # segments (tl (dropWhile (\<lambda>c. \<not> is_logic c) q))
      else [q])"
  by pat_completeness auto
termination
proof (relation "measure length", goal_cases)
  case (2 q)
  then have "0 < length q" by simp
  then show ?case using length_dropWhile_le [of "\<lambda>c. \<not> is_logic c" q]
    unfolding in_measure length_tl by linarith
qed simp

declare segments.simps [simp del]

lemma dropWhile_take:
  "take (n - length (takeWhile P d)) (dropWhile P d) = dropWhile P (take n d)"
proof (induction d arbitrary: n)
  case (Cons x d)
  then show ?case by (cases n) auto
qed simp

lemma word_between_first_word:
  assumes "start \<le> length q"
  shows "word_between q (skip_spaces q start) i = first_word (take (i - start) (drop start q))"
proof -
  let ?k = "length (takeWhile (\<lambda>c. c = CHR '' '') (drop start q))"
  have "drop (start + ?k) q = dropWhile (\<lambda>c. c = CHR '' '') (drop start q)"
    by (simp add: dropWhile_eq_drop add.commute)
  then show ?thesis
    using dropWhile_take [of "i - start" "\<lambda>c. c = CHR '' ''" "drop start q"]
    by (simp add: word_between_def skip_spaces_def first_word_def)
qed

lemma set_first_word: "set (first_word seg) \<subseteq> set seg"
  by (auto simp: first_word_def dest!: set_takeWhileD set_dropWhileD)

lemma length_first_word: "length (first_word seg) \<le> length seg"
  unfolding first_word_def
  by (meson length_dropWhile_le length_takeWhile_le order_trans)

lemma put_word_pad:
  assumes "wn < length (query qe)" "query qe ! wn = replicate 256 NUL" "length w \<le> 256"
  shows "put_word wn w qe = Some (qe\<lparr>query := (query qe)[wn := pad w]\<rparr>)"
proof (cases "w = []")
  case True
  have "(query qe)[wn := replicate 256 NUL] = query qe" using assms(1,2) by (metis list_update_id)
  then show ?thesis using True by (simp add: put_word_def)
next
  case False
  then show ?thesis using assms by (simp add: put_word_def pad_def)
qed

lemma parse_loop_skip:
  assumes logic: "still_has_logic (drop start q)"
    and m: "m = start + length (takeWhile (\<lambda>c. \<not> is_logic c) (drop start q))"
  shows "start \<le> i \<Longrightarrow> i \<le> m \<Longrightarrow>
    parse_loop q [i..<length q] start ops wn qe = parse_loop q [m..<length q] start ops wn qe"
proof (induction "m - i" arbitrary: i)
  case 0
  then show ?case by simp
next
  case (Suc d)
  then have "i < m" by simp
  have "m < length q"
  proof -
    let ?d = "drop start q" and ?P = "\<lambda>c. \<not> is_logic c"
    have "dropWhile ?P ?d \<noteq> []" using logic by (auto simp: still_has_logic_def)
    then have "0 < length (dropWhile ?P ?d)" by simp
    moreover have "length (takeWhile ?P ?d) + length (dropWhile ?P ?d) = length ?d"
      by (metis length_append takeWhile_dropWhile_id)
    ultimately show ?thesis using m unfolding length_drop by linarith
  qed
  have "\<not> is_logic (q ! i)"
  proof -
    have "i - start < length (takeWhile (\<lambda>c. \<not> is_logic c) (drop start q))"
      using \<open>i < m\<close> Suc.prems(1) m by simp
    then have "\<not> is_logic (drop start q ! (i - start))"
      by (metis nth_mem set_takeWhileD takeWhile_nth)
    then show ?thesis using Suc.prems(1) \<open>i < m\<close> \<open>m < length q\<close> by simp
  qed
  then have "parse_loop q [i..<length q] start ops wn qe = parse_loop q [Suc i..<length q] start ops wn qe"
    using \<open>i < m\<close> \<open>m < length q\<close> logic by (simp add: upt_conv_Cons)
  then show ?case using Suc by simp
qed

lemma parse_loop_segments:
  assumes "start \<le> length q" "length q \<le> 256"
    and "length (query qe) = 4" "length (logic_ops qe) = 3"
    and "drop wn (query qe) = replicate (4 - wn) (replicate 256 NUL)"
    and "wn + length (segments (drop start q)) \<le> 4"
    and "ops + length (filter is_logic (drop start q)) \<le> 3"
  shows "\<exists>qe'. parse_loop q [start..<length q] start ops wn qe =
             Some (wn + length (segments (drop start q)), qe') \<and>
           query qe' = take wn (query qe) @ map (pad \<circ> first_word) (segments (drop start q)) @
             drop (wn + length (segments (drop start q))) (query qe) \<and>
           logic_ops qe' = take ops (logic_ops qe) @ filter is_logic (drop start q) @
             drop (ops + length (filter is_logic (drop start q))) (logic_ops qe) \<and>
           tf qe' = tf qe \<and> full_text qe' = full_text qe"
  using assms
proof (induction "drop start q" arbitrary: start ops wn qe rule: segments.induct)
  case 1
  let ?rest = "drop start q"
  consider "?rest = []" | "?rest \<noteq> []" "\<not> still_has_logic ?rest" | "?rest \<noteq> []" "still_has_logic ?rest"
    by blast
  then show ?case
  proof cases
    case 1
    then show ?thesis by (simp add: segments.simps)
  next
    case 2
    then have seg: "segments ?rest = [?rest]" "filter is_logic ?rest = []"
      by (auto simp: segments.simps still_has_logic_def filter_empty_conv)
    have "start < length q" using 2 by simp
    have "wn < 4" "wn < length (query qe)" using "1.prems"(3,6) seg by simp_all
    have "query qe ! wn = replicate 256 NUL"
      using arg_cong [OF "1.prems"(5), of "\<lambda>l. l ! 0"] \<open>wn < 4\<close> "1.prems"(3) by simp
    then have put: "put_word wn (first_word ?rest) qe =
        Some (qe\<lparr>query := (query qe)[wn := pad (first_word ?rest)]\<rparr>)"
      using put_word_pad \<open>wn < length (query qe)\<close> length_first_word [of ?rest] "1.prems"(2) by simp
    have "parse_loop q [start..<length q] start ops wn qe =
        Some (wn + 1, qe\<lparr>query := (query qe)[wn := pad (first_word ?rest)]\<rparr>)"
      using \<open>start < length q\<close> 2 put word_between_first_word [of start q "length q"]
      by (simp add: upt_conv_Cons)
    then show ?thesis using \<open>wn < length (query qe)\<close> seg "1.prems"(4)
      by (simp add: upd_conv_take_nth_drop)
  next
    case 3
    let ?seg = "takeWhile (\<lambda>c. \<not> is_logic c) ?rest"
    let ?m = "start + length ?seg"
    let ?tl = "drop (Suc ?m) q"
    have dw: "dropWhile (\<lambda>c. \<not> is_logic c) ?rest = drop ?m q"
      by (simp add: dropWhile_eq_drop add.commute)
    have "drop ?m q \<noteq> []"
      using 3(2) unfolding dw [symmetric] by (auto simp: still_has_logic_def)
    then have "?m < length q" by simp
    have "is_logic (hd (drop ?m q))"
      using hd_dropWhile [of "\<lambda>c. \<not> is_logic c" ?rest] \<open>drop ?m q \<noteq> []\<close> dw by auto
    then have lg: "is_logic (q ! ?m)" using \<open>?m < length q\<close> by (simp add: hd_drop_conv_nth)
    have tl: "tl (dropWhile (\<lambda>c. \<not> is_logic c) ?rest) = ?tl"
      by (simp add: dw drop_Suc tl_drop)
    have segs: "segments ?rest = ?seg # segments ?tl"
      using 3 tl by (simp add: segments.simps [of ?rest])
    have rest: "?rest = ?seg @ q ! ?m # ?tl"
      by (metis Cons_nth_drop_Suc \<open>?m < length q\<close> dw takeWhile_dropWhile_id)
    have "filter is_logic ?seg = []"
      by (auto simp: filter_empty_conv dest: set_takeWhileD)
    then have ops: "filter is_logic ?rest = q ! ?m # filter is_logic ?tl"
      using lg by (subst rest) simp
    have "take (?m - start) ?rest = ?seg"
      by (subst (2) rest) simp
    then have wb: "word_between q (skip_spaces q start) ?m = first_word ?seg"
      using word_between_first_word [of start q ?m] "1.prems"(1) by simp
    have "wn < 4" "wn < length (query qe)" using "1.prems"(3,6) segs by simp_all
    have "ops < 3" using "1.prems"(7) ops by simp
    have zero: "query qe ! wn = replicate 256 NUL"
      using arg_cong [OF "1.prems"(5), of "\<lambda>l. l ! 0"] \<open>wn < 4\<close> "1.prems"(3) by simp
    have "length (first_word ?seg) \<le> 256"
      using length_first_word [of ?seg] length_takeWhile_le [of "\<lambda>c. \<not> is_logic c" ?rest] "1.prems"(2)
      by simp
    define qe1 where "qe1 = qe\<lparr>logic_ops := (logic_ops qe)[ops := q ! ?m],
        query := (query qe)[wn := pad (first_word ?seg)]\<rparr>"
    have put: "put_word wn (first_word ?seg) (qe\<lparr>logic_ops := (logic_ops qe)[ops := q ! ?m]\<rparr>) = Some qe1"
      using put_word_pad [of wn "qe\<lparr>logic_ops := (logic_ops qe)[ops := q ! ?m]\<rparr>" "first_word ?seg"]
        \<open>wn < length (query qe)\<close> zero \<open>length (first_word ?seg) \<le> 256\<close> by (simp add: qe1_def)
    have step: "parse_loop q [start..<length q] start ops wn qe =
        parse_loop q [Suc ?m..<length q] (Suc ?m) (Suc ops) (Suc wn) qe1"
      using parse_loop_skip [OF 3(2) refl, of start ops wn qe] \<open>?m < length q\<close> lg 3(2) put wb
        \<open>ops < 3\<close> "1.prems"(4) by (simp add: upt_conv_Cons)
    have "drop (Suc wn) (query qe1) = replicate (4 - Suc wn) (replicate 256 NUL)"
    proof -
      have "drop (Suc wn) (query qe) = tl (drop wn (query qe))" by (simp add: drop_Suc tl_drop)
      then show ?thesis using "1.prems"(5) \<open>wn < 4\<close>
        by (simp add: qe1_def tl_replicate)
    qed
    with "1.hyps" [OF 3(1,2), of "Suc ?m" qe1 "Suc wn" "Suc ops"] tl \<open>?m < length q\<close> "1.prems" segs ops
    obtain qe' where qe': "parse_loop q [Suc ?m..<length q] (Suc ?m) (Suc ops) (Suc wn) qe1 =
         Some (Suc wn + length (segments ?tl), qe')"
       "query qe' = take (Suc wn) (query qe1) @ map (pad \<circ> first_word) (segments ?tl) @
             drop (Suc wn + length (segments ?tl)) (query qe1)"
       "logic_ops qe' = take (Suc ops) (logic_ops qe1) @ filter is_logic ?tl @
             drop (Suc ops + length (filter is_logic ?tl)) (logic_ops qe1)"
       "tf qe' = tf qe1" "full_text qe' = full_text qe1"
      by (auto simp: qe1_def)
    then show ?thesis
      using step segs ops \<open>wn < length (query qe)\<close> \<open>ops < 3\<close> "1.prems"(4)
      by (simp add: qe1_def take_Suc_conv_app_nth)
  qed
qed

lemma segments_bounds:
  "length (filter is_logic q) \<le> length (segments q) \<and>
   length (segments q) \<le> Suc (length (filter is_logic q))"
proof (induction q rule: segments.induct)
  case (1 q)
  let ?P = "\<lambda>c. \<not> is_logic c"
  consider "q = []" | "q \<noteq> []" "\<not> still_has_logic q" | "q \<noteq> []" "still_has_logic q" by blast
  then show ?case
  proof cases
    case 1
    then show ?thesis by (simp add: segments.simps)
  next
    case 2
    then have "filter is_logic q = []" by (auto simp: still_has_logic_def filter_empty_conv)
    then show ?thesis using 2 by (simp add: segments.simps)
  next
    case 3
    then have "dropWhile ?P q \<noteq> []" by (auto simp: still_has_logic_def)
    then obtain c t where d: "dropWhile ?P q = c # t" by (cases "dropWhile ?P q") auto
    then have "is_logic c" by (metis dropWhile_eq_Cons_conv)
    have "filter is_logic q = filter is_logic (takeWhile ?P q) @ filter is_logic (dropWhile ?P q)"
      by (metis filter_append takeWhile_dropWhile_id)
    also have "filter is_logic (takeWhile ?P q) = []"
      by (auto simp: filter_empty_conv dest: set_takeWhileD)
    finally have "filter is_logic q = c # filter is_logic t" using d \<open>is_logic c\<close> by simp
    then show ?thesis using "1.IH" [OF 3] 3 d by (simp add: segments.simps [of q])
  qed
qed

lemma set_tl_subset: "set (tl xs) \<subseteq> set xs"
  by (cases xs) auto

lemma segments_sub: "seg \<in> set (segments q) \<Longrightarrow> set seg \<subseteq> set q \<and> length seg \<le> length q"
proof (induction q rule: segments.induct)
  case (1 q)
  let ?P = "\<lambda>c. \<not> is_logic c"
  have "set (tl (dropWhile ?P q)) \<subseteq> set (dropWhile ?P q)" by (rule set_tl_subset)
  also have "\<dots> \<subseteq> set q" by (auto dest: set_dropWhileD)
  finally have tl: "set (tl (dropWhile ?P q)) \<subseteq> set q" "length (tl (dropWhile ?P q)) \<le> length q"
    using length_dropWhile_le [of ?P q] by auto
  show ?case using "1.prems" "1.IH" tl length_takeWhile_le [of ?P q]
    by (auto simp: segments.simps [of q] dest: set_takeWhileD split: if_splits)
qed

definition rule_words :: "query_expression \<Rightarrow> string list" where
  "rule_words qe = map cstr (take (query_word_num qe) (query qe))"

definition buffers_ok :: "query_expression \<Rightarrow> bool" where
  "buffers_ok qe \<longleftrightarrow> length (query qe) = 4 \<and> length (tf qe) = 4 \<and> length (logic_ops qe) = 3 \<and>
     (\<forall>b\<in>set (query qe). NUL \<in> set b) \<and> query_word_num qe \<le> 4"

lemma parse_expr_spec:
  assumes "length q \<le> 255" "NUL \<notin> set q" "length (filter is_logic q) \<le> 3"
  shows "\<exists>qe. parse_expr q = Some qe \<and> buffers_ok qe \<and>
           query_word_num qe = length (segments q) \<and>
           rule_words qe = map first_word (segments q) \<and>
           take (length (filter is_logic q)) (logic_ops qe) = filter is_logic q \<and>
           full_text qe = pad q"
proof -
  define qe0 where "qe0 = new_query_expression\<lparr>full_text := pad q\<rparr>"
  have ft: "(if 0 < length q \<and> length q < 1000
           then memcpy (full_text new_query_expression) 0 q
           else Some (full_text new_query_expression)) = Some (pad q)"
    using assms(1) by (simp add: new_query_expression_def pad_def)
  have len: "length (segments q) \<le> 4" using segments_bounds [of q] assms(3) by simp
  obtain qe where p: "parse_loop q [0..<length q] 0 0 0 qe0 = Some (length (segments q), qe)"
    "query qe = map (pad \<circ> first_word) (segments q) @ drop (length (segments q)) (query qe0)"
    "logic_ops qe = filter is_logic q @ drop (length (filter is_logic q)) (logic_ops qe0)"
    "tf qe = tf qe0" "full_text qe = full_text qe0"
    using parse_loop_segments [of 0 q qe0 0 0] assms len
    by (auto simp: qe0_def new_query_expression_def)
  have words: "length (first_word seg) < 256 \<and> NUL \<notin> set (first_word seg)" if "seg \<in> set (segments q)" for seg
    using segments_sub [OF that] length_first_word [of seg] set_first_word [of seg] assms(1,2) by force
  have "parse_expr q = Some (qe\<lparr>query_word_num := length (segments q)\<rparr>)"
    using p(1) ft by (simp add: parse_expr_def qe0_def)
  moreover have "buffers_ok (qe\<lparr>query_word_num := length (segments q)\<rparr>)"
    using p len words assms(3)
    by (auto simp: buffers_ok_def qe0_def new_query_expression_def dest!: in_set_dropD)
  ultimately show ?thesis
    using p words by (auto simp: rule_words_def qe0_def)
qed

section \<open>The meaning of a rule\<close>

text \<open>\<open>&\<close> binds tighter than \<open>#\<close>: a rule is a disjunction of conjunctions.\<close>

fun dnf :: "bool \<Rightarrow> string list \<Rightarrow> string \<Rightarrow> (string \<Rightarrow> bool) \<Rightarrow> bool" where
  "dnf acc [w] ops P = (acc \<and> P w)"
| "dnf acc (w # w2 # ws) (op # ops) P =
     (if op = CHR ''&'' then dnf (acc \<and> P w) (w2 # ws) ops P
      else acc \<and> P w \<or> dnf True (w2 # ws) ops P)"
| "dnf acc ws ops P = False"

definition query_holds :: "string \<Rightarrow> string \<Rightarrow> bool" where
  \<comment> \<open>the formula of query \<open>q\<close> over the words that occur in the text \<open>T\<close>\<close>
  "query_holds q T = dnf True (map first_word (segments q)) (filter is_logic q) (\<lambda>w. sublist w T)"

definition query_ok :: "string \<Rightarrow> bool" where
  "query_ok q \<longleftrightarrow> length q \<le> 255 \<and> NUL \<notin> set q \<and> length (filter is_logic q) \<le> 3 \<and>
     1 \<le> length (segments q) \<and> length (segments q) \<le> 3 \<and> (\<forall>seg\<in>set (segments q). first_word seg \<noteq> [])"

lemma take_ops: "dnf acc ws (take n ops) P = dnf acc ws ops P" if "length ws \<le> Suc n" "length ops \<ge> n"
  using that
proof (induction acc ws ops P arbitrary: n rule: dnf.induct)
  case (2 acc w w2 ws op ops P)
  then show ?case by (cases n) auto
qed (auto simp: take_Cons split: nat.splits)

lemma of_bool_int_nz [simp]: "of_bool_int b \<noteq> 0 \<longleftrightarrow> b" "of_bool_int b = 0 \<longleftrightarrow> \<not> b" "of_bool_int b = 1 \<longleftrightarrow> b"
  by (simp_all add: of_bool_int_def)

lemma eval_ops_dnf:
  assumes "buffers_ok qe" "1 \<le> query_word_num qe" "query_word_num qe \<le> 3"
    and ops: "\<forall>i. Suc i < query_word_num qe \<longrightarrow> is_logic (logic_ops qe ! i)"
    and t: "\<forall>i<query_word_num qe. tf qe ! i = of_bool_int (P (cstr (query qe ! i)))"
  shows "eval_ops qe = Some (of_bool_int (dnf True (rule_words qe) (logic_ops qe) P))"
proof -
  obtain a b c d where q: "query qe = [a, b, c, d]"
    using assms(1) unfolding buffers_ok_def by (auto simp: numeral_eq_Suc length_Suc_conv)
  obtain o1 o2 o3 where o: "logic_ops qe = [o1, o2, o3]"
    using assms(1) unfolding buffers_ok_def by (auto simp: numeral_eq_Suc length_Suc_conv)
  consider "query_word_num qe = 1" | "query_word_num qe = 2" | "query_word_num qe = 3"
    using assms(2,3) by linarith
  then show ?thesis
  proof cases
    case 1
    then show ?thesis using t q by (simp add: eval_ops_def rule_words_def)
  next
    case 2
    then have tt: "tf qe ! 0 = of_bool_int (P (cstr a))" "tf qe ! Suc 0 = of_bool_int (P (cstr b))"
      using t [rule_format, of 0] t [rule_format, of 1] q by simp_all
    have "o1 = CHR ''#'' \<or> o1 = CHR ''&''"
      using ops [rule_format, of 0] o 2 by (simp add: is_logic_def)
    then show ?thesis
      by (elim disjE) (simp_all add: eval_ops_def rule_words_def 2 q o tt take_Cons')
  next
    case 3
    then have tt: "tf qe ! 0 = of_bool_int (P (cstr a))" "tf qe ! Suc 0 = of_bool_int (P (cstr b))"
      "tf qe ! 2 = of_bool_int (P (cstr c))"
      using t [rule_format, of 0] t [rule_format, of 1] t [rule_format, of 2] q by simp_all
    have "o1 = CHR ''#'' \<or> o1 = CHR ''&''" "o2 = CHR ''#'' \<or> o2 = CHR ''&''"
      using ops [rule_format, of 0] ops [rule_format, of 1] o 3 by (simp_all add: is_logic_def)
    then show ?thesis
      by (elim disjE) (simp_all add: eval_ops_def rule_words_def 3 q o tt take_Cons')
  qed
qed

lemma in_match_word_list_law:
  assumes "\<forall>b\<in>set kw. NUL \<in> set b" "NUL \<in> set word"
  shows "in_match_word_list word kw (length kw) = Some (cstr word \<in> cstr ` set kw)"
  using assms by (induction kw) (auto simp: strcmp0_terminated)

lemma populate_tf_law:
  assumes "buffers_ok qe" "\<forall>b\<in>set kw. NUL \<in> set b"
  shows "\<exists>t. populate_tf qe (length kw) kw = Some (qe\<lparr>tf := t\<rparr>) \<and> length t = 4 \<and>
           (\<forall>i<query_word_num qe. t ! i = of_bool_int (cstr (query qe ! i) \<in> cstr ` set kw))"
proof -
  let ?b = "\<lambda>i. of_bool_int (cstr (query qe ! i) \<in> cstr ` set kw)"
  let ?f = "\<lambda>i qe. if i < length (query qe)
                   then do {
                     b \<leftarrow> in_match_word_list (query qe ! i) kw (length kw);
                     Some (qe\<lparr>tf := (tf qe)[i := of_bool_int b]\<rparr>) }
                   else None"
  have "\<exists>s'. ofold ?f [0..<query_word_num qe] qe = Some s' \<and>
     (\<exists>t. s' = qe\<lparr>tf := t\<rparr> \<and> length t = 4 \<and> (\<forall>i<length [0..<query_word_num qe]. t ! i = ?b i))"
  proof (rule ofold_rule [where I = "\<lambda>done s. \<exists>t. s = qe\<lparr>tf := t\<rparr> \<and> length t = 4 \<and>
        (\<forall>i<length done. t ! i = ?b i)"])
    show "\<exists>t. qe = qe\<lparr>tf := t\<rparr> \<and> length t = 4 \<and> (\<forall>i<length []. t ! i = ?b i)"
      using assms(1) by (intro exI [of _ "tf qe"]) (simp add: buffers_ok_def)
  next
    fix "done" x todo s
    assume x: "[0..<query_word_num qe] = done @ x # todo"
      and "\<exists>t. s = qe\<lparr>tf := t\<rparr> \<and> length t = 4 \<and> (\<forall>i<length done. t ! i = ?b i)"
    then obtain t where t: "s = qe\<lparr>tf := t\<rparr>" "length t = 4" "\<forall>i<length done. t ! i = ?b i" by blast
    have ln: "length done < query_word_num qe" using arg_cong [OF x, of length] by simp
    then have xd: "x = length done"
      using arg_cong [OF x, of "\<lambda>l. l ! length done"] by simp
    have x4: "x < 4" "x < length (query qe)" using assms(1) xd ln by (auto simp: buffers_ok_def)
    have "NUL \<in> set (query qe ! x)" using assms(1) x4 by (auto simp: buffers_ok_def)
    from in_match_word_list_law [OF assms(2) this] x4 t xd
    show "\<exists>s'. ?f x s = Some s' \<and> (\<exists>t. s' = qe\<lparr>tf := t\<rparr> \<and> length t = 4 \<and>
        (\<forall>i<length (done @ [x]). t ! i = ?b i))"
      by (auto simp: nth_list_update less_Suc_eq intro!: exI [of _ "t[x := ?b x]"])
  qed
  then show ?thesis by (auto simp: populate_tf_def)
qed

definition rule_holds :: "query_expression \<Rightarrow> string \<Rightarrow> bool" where
  "rule_holds qe T \<longleftrightarrow> dnf True (rule_words qe) (logic_ops qe) (\<lambda>w. sublist w T)"

definition wf_expr :: "query_expression \<Rightarrow> bool" where
  "wf_expr qe \<longleftrightarrow> buffers_ok qe \<and> 1 \<le> query_word_num qe \<and> query_word_num qe \<le> 3 \<and>
     (\<forall>i. Suc i < query_word_num qe \<longrightarrow> is_logic (logic_ops qe ! i))"

definition parsed_from :: "string \<Rightarrow> query_expression \<Rightarrow> bool" where
  \<comment> \<open>\<open>qe\<close> is the parse of \<open>q\<close>, up to the \<open>tf\<close> entries that the searches overwrite\<close>
  "parsed_from q qe \<longleftrightarrow> (\<exists>qe0. parse_expr q = Some qe0 \<and> qe\<lparr>tf := []\<rparr> = qe0\<lparr>tf := []\<rparr>) \<and> length (tf qe) = 4"

lemma parsed_from_tf: "parsed_from q qe \<Longrightarrow> length t = 4 \<Longrightarrow> parsed_from q (qe\<lparr>tf := t\<rparr>)"
  by (simp add: parsed_from_def)

lemma parsed_from_spec:
  assumes "query_ok q" "parsed_from q qe"
  shows "wf_expr qe" "rule_words qe = map first_word (segments q)"
    "rule_holds qe T = query_holds q T" "full_text qe = pad q"
proof -
  obtain qe0 where p: "parse_expr q = Some qe0" "buffers_ok qe0" "query_word_num qe0 = length (segments q)"
    "rule_words qe0 = map first_word (segments q)"
    "take (length (filter is_logic q)) (logic_ops qe0) = filter is_logic q" "full_text qe0 = pad q"
    using parse_expr_spec [of q] assms(1) by (auto simp: query_ok_def)
  have eq: "qe\<lparr>tf := []\<rparr> = qe0\<lparr>tf := []\<rparr>" "length (tf qe) = 4"
    using assms(2) p(1) by (auto simp: parsed_from_def)
  have flds: "query_word_num qe = query_word_num qe0" "logic_ops qe = logic_ops qe0"
    "query qe = query qe0" "full_text qe = full_text qe0"
    using arg_cong [OF eq(1), of query_word_num] arg_cong [OF eq(1), of logic_ops]
      arg_cong [OF eq(1), of query] arg_cong [OF eq(1), of full_text] by simp_all
  show words: "rule_words qe = map first_word (segments q)"
    using p(4) flds by (simp add: rule_words_def)
  show "full_text qe = pad q" using flds p(6) by simp
  have "is_logic (logic_ops qe0 ! i)" if "Suc i < length (segments q)" for i
  proof -
    have i: "i < length (filter is_logic q)" using that segments_bounds [of q] by linarith
    then have "filter is_logic q ! i \<in> set (filter is_logic q)" by (rule nth_mem)
    then have "is_logic (take (length (filter is_logic q)) (logic_ops qe0) ! i)"
      unfolding p(5) by simp
    then show ?thesis using i by simp
  qed
  then show "wf_expr qe"
    using p(2,3) flds eq(2) assms(1) by (auto simp: wf_expr_def buffers_ok_def query_ok_def)
  show "rule_holds qe T = query_holds q T"
    using take_ops [of "rule_words qe" "length (filter is_logic q)" "logic_ops qe0" True] p(2,5)
      segments_bounds [of q] words flds assms(1)
    by (simp add: rule_holds_def query_holds_def buffers_ok_def query_ok_def)
qed

fun hits_from :: "string \<Rightarrow> nat \<Rightarrow> string option list \<Rightarrow> nat list" where
  "hits_from T i [] = []"
| "hits_from T i (x # xs) =
     (case x of Some q \<Rightarrow> if query_holds q T then [i] else [] | None \<Rightarrow> []) @ hits_from T (i + 1) xs"

text \<open>The slots of the table against the queries they hold.\<close>

definition slot_rel :: "string list \<Rightarrow> string option \<Rightarrow> query_expression option \<Rightarrow> bool" where
  "slot_rel kws x y \<longleftrightarrow>
     (case (x, y) of
        (None, None) \<Rightarrow> True
      | (Some q, Some qe) \<Rightarrow> query_ok q \<and> parsed_from q qe \<and> set (map first_word (segments q)) \<subseteq> set kws
      | _ \<Rightarrow> False)"

lemma slot_rel_simps [simp]:
  "slot_rel kws x None \<longleftrightarrow> x = None"
  "slot_rel kws None y \<longleftrightarrow> y = None"
  "slot_rel kws (Some q) (Some qe) \<longleftrightarrow>
     query_ok q \<and> parsed_from q qe \<and> set (map first_word (segments q)) \<subseteq> set kws"
  by (auto simp: slot_rel_def split: option.splits)

lemma slot_rel_mono: "slot_rel kws x y \<Longrightarrow> set kws \<subseteq> set kws' \<Longrightarrow> slot_rel kws' x y"
  by (auto simp: slot_rel_def split: option.splits)

lemma del_query_rule_law:
  assumes "list_all2 (slot_rel kws) xs tbl" "NUL \<notin> set q"
  shows "\<exists>tbl'. del_query_rule q tbl = Some tbl' \<and>
           list_all2 (slot_rel kws) (map (\<lambda>x. if x = Some q then None else x) xs) tbl'"
  using assms(1)
proof (induction rule: list_all2_induct)
  case Nil
  then show ?case by simp
next
  case (Cons x xs y tbl)
  show ?case
  proof (cases y)
    case None
    then show ?thesis using Cons by auto
  next
    case (Some qe)
    then obtain q1 where x: "x = Some q1" "query_ok q1" "parsed_from q1 qe"
      using Cons.hyps(1) by (auto simp: slot_rel_def split: option.splits)
    have "full_text qe = pad q1" "length q1 < 256" "NUL \<notin> set q1"
      using parsed_from_spec(4) [OF x(2,3)] x(2) by (auto simp: query_ok_def)
    then have "strcmp0 (full_text qe) (q @ [NUL]) = Some (q1 = q)"
      using assms(2) by (simp add: strcmp0_terminated cstr_append)
    then show ?thesis using Cons Some x by auto
  qed
qed

lemma del_query_rule_N_eq: "del_query_rule_N q tbl = del_query_rule q tbl"
  by (induction tbl rule: del_query_rule.induct) (auto intro!: Option.bind_cong)

section \<open>The rule engine over a keyword dictionary\<close>

datatype rule_event = AddRule string | DelRule string | SearchRules string

fun event_ok :: "rule_event \<Rightarrow> bool" where
  "event_ok (AddRule q) \<longleftrightarrow> query_ok q"
| "event_ok (DelRule q) \<longleftrightarrow> NUL \<notin> set q"
| "event_ok (SearchRules T) \<longleftrightarrow> True"

text \<open>The abstract engine: the list of the queries added, and the results of the searches so far.\<close>

fun spec_step :: "rule_event \<Rightarrow> string option list \<times> nat list list \<Rightarrow> (string option list \<times> nat list list) option" where
  "spec_step (AddRule q) (xs, out) = (if length xs < 10000 then Some (xs @ [Some q], out) else None)"
| "spec_step (DelRule q) (xs, out) = Some (map (\<lambda>x. if x = Some q then None else x) xs, out)"
| "spec_step (SearchRules T) (xs, out) =
     (if length (hits_from T 0 xs) \<le> MAX_LOGIC_HIT_RESULT_LEN then Some (xs, out @ [hits_from T 0 xs]) else None)"

fun engine_step ::
  "('s \<Rightarrow> string \<Rightarrow> 's option) \<Rightarrow> ('s \<Rightarrow> string \<Rightarrow> nat option) \<Rightarrow>
   ('s \<Rightarrow> string \<Rightarrow> string list \<Rightarrow> (nat \<times> string list) option) \<Rightarrow>
   rule_event \<Rightarrow> query_table \<times> 's \<times> nat list list \<Rightarrow> (query_table \<times> 's \<times> nat list list) option" where
  "engine_step add cnt gk (AddRule q) (tbl, st, out) = do {
     qe \<leftarrow> parse_expr q;
     st' \<leftarrow> add_words add qe st;
     tbl' \<leftarrow> push_rule qe tbl;
     Some (tbl', st', out) }"
| "engine_step add cnt gk (DelRule q) (tbl, st, out) = do {
     tbl' \<leftarrow> del_query_rule q tbl;
     Some (tbl', st, out) }"
| "engine_step add cnt gk (SearchRules T) (tbl, st, out) = do {
     (h, tbl') \<leftarrow> match_rules (match_expr (cnt st) (gk st)) T 0 tbl [];
     Some (tbl', st, out @ [h]) }"

text \<open>
  What the rule engine needs from a dictionary beyond the counting interface: the search that
  copies the keywords into zeroed buffers, one per occurrence, fills each with a terminated
  keyword, and together they are the keywords that occur.
\<close>

locale rule_dict = keyword_dict keys synced ready add del count
  for keys :: "'st \<Rightarrow> string list" and synced ready add del count +
  fixes getkw :: "'st \<Rightarrow> string \<Rightarrow> string list \<Rightarrow> (nat \<times> string list) option"
  assumes getkw_law: "ready st \<Longrightarrow> \<forall>k\<in>set (keys st). length k \<le> 255 \<Longrightarrow>
    \<exists>kws. getkw st T (replicate (occurrences_of (keys st) T) (replicate 256 NUL)) =
            Some (occurrences_of (keys st) T, kws) \<and>
          length kws = occurrences_of (keys st) T \<and> (\<forall>b\<in>set kws. NUL \<in> set b) \<and>
          cstr ` set kws = {k \<in> set (keys st). sublist k T}"
begin

lemma match_law:
  assumes "ready st" "\<forall>k\<in>set (keys st). length k \<le> 255" "wf_expr qe" "set (rule_words qe) \<subseteq> set (keys st)"
  shows "\<exists>t. match_expr (count st) (getkw st) qe T =
           Some (of_bool_int (rule_holds qe T), qe\<lparr>tf := t\<rparr>) \<and> length t = 4"
proof -
  let ?n = "occurrences_of (keys st) T"
  obtain kws where k: "getkw st T (replicate ?n (replicate 256 NUL)) = Some (?n, kws)"
    "length kws = ?n" "\<forall>b\<in>set kws. NUL \<in> set b" "cstr ` set kws = {k \<in> set (keys st). sublist k T}"
    using getkw_law [OF assms(1,2)] by blast
  have bo: "buffers_ok qe" "1 \<le> query_word_num qe" "query_word_num qe \<le> 3"
    and ops: "\<forall>i. Suc i < query_word_num qe \<longrightarrow> is_logic (logic_ops qe ! i)"
    using assms(3) by (auto simp: wf_expr_def)
  obtain t where t: "populate_tf qe ?n kws = Some (qe\<lparr>tf := t\<rparr>)" "length t = 4"
    "\<forall>i<query_word_num qe. t ! i = of_bool_int (cstr (query qe ! i) \<in> cstr ` set kws)"
    using populate_tf_law [OF bo(1) k(3)] k(2) by auto
  have "cstr (query qe ! i) \<in> set (keys st)" if "i < query_word_num qe" for i
  proof -
    have "i < length (take (query_word_num qe) (query qe))" using that bo by (simp add: buffers_ok_def)
    then have "take (query_word_num qe) (query qe) ! i \<in> set (take (query_word_num qe) (query qe))"
      by (rule nth_mem)
    then have "cstr (query qe ! i) \<in> set (rule_words qe)" using that by (simp add: rule_words_def)
    then show ?thesis using assms(4) by blast
  qed
  then have t': "\<forall>i<query_word_num qe. t ! i = of_bool_int (sublist (cstr (query qe ! i)) T)"
    using t(3) k(4) by simp
  have "eval_ops (qe\<lparr>tf := t\<rparr>) = Some (of_bool_int (dnf True (rule_words (qe\<lparr>tf := t\<rparr>))
      (logic_ops (qe\<lparr>tf := t\<rparr>)) (\<lambda>w. sublist w T)))"
    by (rule eval_ops_dnf) (use bo ops t(2) t' in \<open>auto simp: buffers_ok_def\<close>)
  then have "eval_ops (qe\<lparr>tf := t\<rparr>) = Some (of_bool_int (rule_holds qe T))"
    by (simp add: rule_holds_def rule_words_def)
  then have "match_expr (count st) (getkw st) qe T =
      Some (of_bool_int (rule_holds qe T), qe\<lparr>tf := t\<rparr>)"
    using count_law [OF assms(1)] k(1) t(1) by (simp add: match_expr_def)
  then show ?thesis using t(2) by blast
qed

lemma match_rules_law:
  assumes "list_all2 (slot_rel (keys st)) xs tbl"
    and "(\<exists>q. Some q \<in> set xs) \<longrightarrow> ready st" "\<forall>k\<in>set (keys st). length k \<le> 255"
    and "length hits \<le> MAX_LOGIC_HIT_RESULT_LEN"
  shows "if length (hits @ hits_from T i xs) \<le> MAX_LOGIC_HIT_RESULT_LEN
         then \<exists>tbl'. match_rules (match_expr (count st) (getkw st)) T i tbl hits =
                Some (hits @ hits_from T i xs, tbl') \<and> list_all2 (slot_rel (keys st)) xs tbl'
         else match_rules (match_expr (count st) (getkw st)) T i tbl hits = None"
  using assms(1,2,4)
proof (induction arbitrary: i hits rule: list_all2_induct)
  case Nil
  then show ?case by simp
next
  case (Cons x xs y tbl)
  show ?case
  proof (cases y)
    case None
    then have "x = None" using Cons.hyps(1) by simp
    then show ?thesis using Cons.IH [of hits "i + 1"] Cons.prems None
      by (auto split: if_splits)
  next
    case (Some qe)
    then obtain q where x: "x = Some q" "query_ok q" "parsed_from q qe"
        "set (map first_word (segments q)) \<subseteq> set (keys st)"
      using Cons.hyps(1) by (auto simp: slot_rel_def split: option.splits)
    have rdy: "ready st" using Cons.prems(1) x(1) by auto
    note spec = parsed_from_spec [OF x(2,3)]
    obtain t where t: "match_expr (count st) (getkw st) qe T =
        Some (of_bool_int (query_holds q T), qe\<lparr>tf := t\<rparr>)" "length t = 4"
      using match_law [OF rdy assms(3) spec(1), of T] x(4) unfolding spec(2,3) by blast
    have slot: "slot_rel (keys st) x (Some (qe\<lparr>tf := t\<rparr>))"
      using x parsed_from_tf [OF x(3) t(2)] by simp
    show ?thesis
    proof (cases "query_holds q T")
      case False
      then show ?thesis using Cons.IH [of hits "i + 1"] Cons.prems t(1) slot x(1) Some
        by (auto split: if_splits)
    next
      case True
      show ?thesis
      proof (cases "length hits < MAX_LOGIC_HIT_RESULT_LEN")
        case False
        then show ?thesis using True t(1) x(1) Some by simp
      next
        case less: True
        then show ?thesis using Cons.IH [of "hits @ [i]" "i + 1"] Cons.prems t(1) slot x(1) Some True
          by (auto split: if_splits)
      qed
    qed
  qed
qed

lemma add_words_law:
  assumes "synced st" "query_ok q" "parse_expr q = Some qe"
  shows "\<exists>st'. add_words add qe st = Some st' \<and> ready st' \<and>
           keys st' = rev (map first_word (segments q)) @ keys st"
proof -
  let ?ws = "map first_word (segments q)"
  have spec: "rule_words qe = ?ws" "buffers_ok qe" "query_word_num qe = length ?ws"
    using parse_expr_spec [of q] assms(2,3) by (auto simp: query_ok_def)
  have wsok: "\<forall>w\<in>set ?ws. keyword_ok w"
    using assms(2) segments_sub set_first_word by (fastforce simp: query_ok_def keyword_ok_def)
  have row: "buf_str (query qe ! i) = Some (?ws ! i) \<and> i < length (query qe)" if "i < length ?ws" for i
  proof -
    have "?ws ! i = rule_words qe ! i" using spec(1) by simp
    also have "\<dots> = cstr (query qe ! i)"
      using that spec(2,3) by (simp add: rule_words_def buffers_ok_def)
    finally show ?thesis using that spec(2,3) by (auto simp: buf_str_def buffers_ok_def)
  qed
  have "add_words add qe st = ofold (\<lambda>i st. add st (?ws ! i)) [0..<length ?ws] st"
    unfolding add_words_def spec(3)
    by (rule ofold_cong) (use row in auto)
  also have "\<dots> = ofold (\<lambda>w st. add st w) (map (\<lambda>i. ?ws ! i) [0..<length ?ws]) st"
    by (simp only: ofold_map)
  also have "\<dots> = ofold (\<lambda>w st. add st w) ?ws st" by (simp only: map_nth)
  finally show ?thesis
    using add_all [OF assms(1) wsok] assms(2) by (auto simp: query_ok_def)
qed

text \<open>The simulation relation, and the refinement of the abstract engine.\<close>

definition engine_rel :: "string option list \<Rightarrow> query_table \<Rightarrow> 'st \<Rightarrow> bool" where
  "engine_rel xs tbl st \<longleftrightarrow> list_all2 (slot_rel (keys st)) xs tbl \<and> synced st \<and>
     (xs \<noteq> [] \<longrightarrow> ready st) \<and> (\<forall>k\<in>set (keys st). length k \<le> 255)"

lemma engine_step_refines:
  assumes "engine_rel xs tbl st" "event_ok ev"
  shows "case spec_step ev (xs, out) of
           None \<Rightarrow> engine_step add count getkw ev (tbl, st, out) = None
         | Some (xs', out') \<Rightarrow> \<exists>tbl' st'. engine_step add count getkw ev (tbl, st, out) = Some (tbl', st', out') \<and>
             engine_rel xs' tbl' st'"
proof (cases ev)
  case (AddRule q)
  have q: "query_ok q" using assms(2) AddRule by simp
  obtain qe where qe: "parse_expr q = Some qe" "length (tf qe) = 4"
    using parse_expr_spec [of q] q by (auto simp: query_ok_def buffers_ok_def)
  then have pf: "parsed_from q qe" by (simp add: parsed_from_def)
  obtain st' where st': "add_words add qe st = Some st'" "ready st'"
      "keys st' = rev (map first_word (segments q)) @ keys st"
    using add_words_law [OF _ q qe(1)] assms(1) by (auto simp: engine_rel_def)
  have "\<forall>w\<in>set (map first_word (segments q)). length w \<le> 255"
  proof
    fix w assume "w \<in> set (map first_word (segments q))"
    then obtain seg where "seg \<in> set (segments q)" "w = first_word seg" by auto
    then show "length w \<le> 255"
      using segments_sub [of seg q] length_first_word [of seg] q by (simp add: query_ok_def)
  qed
  moreover have "list_all2 (slot_rel (keys st')) xs tbl"
    using assms(1) slot_rel_mono [of "keys st" _ _ "keys st'"] st'(3)
    by (auto simp: engine_rel_def elim!: list.rel_mono_strong)
  moreover have "length xs = length tbl" using assms(1) by (auto simp: engine_rel_def dest: list_all2_lengthD)
  ultimately show ?thesis
    using AddRule qe(1) st' pf q assms(1) ready_synced
    by (auto simp: push_rule_def engine_rel_def list_all2_appendI)
next
  case (DelRule q)
  then show ?thesis
    using del_query_rule_law [of "keys st" xs tbl q] assms by (auto simp: engine_rel_def)
next
  case (SearchRules T)
  then show ?thesis
    using match_rules_law [of st xs tbl "[]" T 0] assms(1)
    by (force simp: engine_rel_def split: if_splits)
qed

lemma engine_refines:
  assumes "engine_rel xs tbl st" "\<forall>ev\<in>set evs. event_ok ev"
  shows "map_option snd (ofold spec_step evs (xs, out)) =
         map_option (snd \<circ> snd) (ofold (engine_step add count getkw) evs (tbl, st, out))"
  using assms
proof (induction evs arbitrary: xs tbl st out)
  case (Cons ev evs)
  show ?case
  proof (cases "spec_step ev (xs, out)")
    case None
    then show ?thesis using engine_step_refines [OF Cons.prems(1), of ev out] Cons.prems(2) by simp
  next
    case (Some r)
    obtain xs' out' where r: "r = (xs', out')" by (cases r)
    then obtain tbl' st' where "engine_step add count getkw ev (tbl, st, out) = Some (tbl', st', out')"
      "engine_rel xs' tbl' st'"
      using engine_step_refines [OF Cons.prems(1), of ev out] Cons.prems(2) Some by auto
    then show ?thesis using Cons.IH [of xs' tbl' st' out'] Cons.prems(2) Some r by simp
  qed
qed simp

end

lemma pair_getkw:
  assumes "pair_ready a b" "\<forall>k\<in>set (keys_of a). length k \<le> 255"
  shows "\<exists>kws. acsmSearch_kw a T (length T) (replicate (occurrences_of (keys_of a) T) (replicate 256 NUL)) =
            Some (occurrences_of (keys_of a) T, kws) \<and>
          length kws = occurrences_of (keys_of a) T \<and> (\<forall>b\<in>set kws. NUL \<in> set b) \<and>
          cstr ` set kws = {k \<in> set (keys_of a). sublist k T}"
proof -
  obtain ws where ws: "compiled ws (acsmPatterns a) a" using assms(1) by (auto simp: pair_ready_def)
  have "good_patterns (acsmPatterns a)" "\<forall>p\<in>set (acsmPatterns a). length (patrn p) \<le> 255 \<and> NUL \<notin> set (patrn p)"
    using assms pair_synced_good [of a b] by (auto simp: pair_ready_def pair_synced_def keyword_ok_def)
  from compiled_search_kw [OF ws this, of T]
  show ?thesis by (auto simp: occurrences_of_patterns)
qed

interpretation rules: rule_dict "\<lambda>st. keys_of (mA st)"
  "\<lambda>st. pair_synced (mA st) (mB st)" "\<lambda>st. pair_ready (mA st) (mB st)" addstr delstr kw_match get_keywords
  by unfold_locales (use pair_getkw in \<open>simp add: get_keywords_def\<close>)

interpretation rulesN: rule_dict "\<lambda>st. keys_of (mNA st)"
  "\<lambda>st. pair_synced (mNA st) (mNB st)" "\<lambda>st. pair_ready (mNA st) (mNB st)"
  addstr_N delstr_N kw_match_N get_keywords_N
  by unfold_locales (use pair_getkw in \<open>simp add: get_keywords_N_def\<close>)

section \<open>Properties\<close>

fun rule_step :: "rule_event \<Rightarrow> query_table \<times> matchers \<times> nat list list \<Rightarrow> (query_table \<times> matchers \<times> nat list list) option" where
  "rule_step (AddRule q) (tbl, st, out) = do {
     (tbl', st') \<leftarrow> add_query_rule q (tbl, st); Some (tbl', st', out) }"
| "rule_step (DelRule q) (tbl, st, out) = do { tbl' \<leftarrow> del_query_rule q tbl; Some (tbl', st, out) }"
| "rule_step (SearchRules T) (tbl, st, out) = do {
     (h, tbl') \<leftarrow> logic_query_match st tbl T; Some (tbl', st, out @ [h]) }"

fun rule_step_N :: "rule_event \<Rightarrow> query_table \<times> matchers \<times> nat list list \<Rightarrow> (query_table \<times> matchers \<times> nat list list) option" where
  "rule_step_N (AddRule q) (tbl, st, out) = do {
     (tbl', st') \<leftarrow> add_query_rule_N q (tbl, st); Some (tbl', st', out) }"
| "rule_step_N (DelRule q) (tbl, st, out) = do { tbl' \<leftarrow> del_query_rule_N q tbl; Some (tbl', st, out) }"
| "rule_step_N (SearchRules T) (tbl, st, out) = do {
     (h, tbl') \<leftarrow> logic_query_match_N st tbl T; Some (tbl', st, out @ [h]) }"

lemma rule_step_engine: "rule_step ev s = engine_step addstr kw_match get_keywords ev s"
  by (cases ev; cases s) (auto simp: add_query_rule_def parse_def logic_query_match_def match_qe_def
      fun_eq_iff intro!: Option.bind_cong split: prod.splits)

lemma rule_step_N_engine: "rule_step_N ev s = engine_step addstr_N kw_match_N get_keywords_N ev s"
  by (cases ev; cases s) (auto simp: add_query_rule_N_def parse_N_def logic_query_match_N_def match_qe_N_def
      del_query_rule_N_eq fun_eq_iff intro!: Option.bind_cong split: prod.splits)

text \<open>C15: the parser of a rule.  For a query of at most 255 bytes and three operators, no buffer
  is overrun, the words are the parts between the operators, trimmed and cut at their first
  inner space, and the operators and the full text are kept.\<close>

theorem parse_query_words:
  assumes "length q \<le> 255" "NUL \<notin> set q" "length (filter is_logic q) \<le> 3"
  shows "\<exists>qe. parse_expr q = Some qe \<and> buffers_ok qe \<and>
           query_word_num qe = length (segments q) \<and>
           rule_words qe = map first_word (segments q) \<and>
           take (length (filter is_logic q)) (logic_ops qe) = filter is_logic q \<and>
           full_text qe = pad q"
  by (rule parse_expr_spec [OF assms])

theorem parse_query_words_witness:
  "\<exists>qe. parse_expr '' foo bar & baz'' = Some qe \<and> rule_words qe = [''foo'', ''baz'']"
proof -
  have "map first_word (segments '' foo bar & baz'') = [''foo'', ''baz'']"
    by (simp add: segments.simps still_has_logic_def is_logic_def first_word_def)
  then show ?thesis
    using parse_query_words [of "'' foo bar & baz''"] by (auto simp: is_logic_def)
qed

lemma parse_loop_too_many_ops:
  "i \<le> length q \<Longrightarrow> start \<le> i \<Longrightarrow> length (logic_ops qe) = 3 \<Longrightarrow>
   3 < ops + length (filter is_logic (drop i q)) \<Longrightarrow> ops \<le> 3 \<Longrightarrow>
   parse_loop q [i..<length q] start ops wn qe = None"
proof (induction "length q - i" arbitrary: i start ops wn qe)
  case 0
  then show ?case by simp
next
  case (Suc d)
  then have "i < length q" by simp
  then have dr: "drop i q = q ! i # drop (Suc i) q" by (simp add: Cons_nth_drop_Suc)
  have "filter is_logic (drop i q) \<noteq> []" using Suc.prems(4,5) by auto
  then have "\<exists>c\<in>set (drop i q). is_logic c" by (auto simp: filter_empty_conv)
  moreover have "set (drop i q) \<subseteq> set (drop start q)" by (rule set_drop_subset_set_drop [OF Suc.prems(2)])
  ultimately have lg: "still_has_logic (drop start q)" by (auto simp: still_has_logic_def)
  have keep: "put_word w b x = Some qe1 \<Longrightarrow> length (logic_ops qe1) = length (logic_ops x)" for w b x qe1
    by (auto simp: put_word_def bind_Some_iff split: if_splits)
  show ?case
  proof (cases "is_logic (q ! i)")
    case True
    have "parse_loop q [Suc i..<length q] (Suc i) (Suc ops) (Suc wn) qe1 = None"
      if "ops < 3" "put_word wn b (qe\<lparr>logic_ops := (logic_ops qe)[ops := q ! i]\<rparr>) = Some qe1" for qe1 b
      by (rule Suc.hyps(1))
         (use Suc.hyps(2) Suc.prems keep [OF that(2)] that(1) dr True \<open>i < length q\<close> in auto)
    note rec = this
    show ?thesis
    proof (cases "ops < 3")
      case False
      then show ?thesis using \<open>i < length q\<close> lg True Suc.prems(3) by (simp add: upt_conv_Cons)
    next
      case 1: True
      show ?thesis
      proof (cases "put_word wn (word_between q (skip_spaces q start) i)
                      (qe\<lparr>logic_ops := (logic_ops qe)[ops := q ! i]\<rparr>)")
        case None
        then show ?thesis using \<open>i < length q\<close> lg True Suc.prems(3) 1 by (simp add: upt_conv_Cons)
      next
        case (Some qe1)
        then show ?thesis using \<open>i < length q\<close> lg True Suc.prems(3) 1 rec [OF 1 Some]
          by (simp add: upt_conv_Cons)
      qed
    qed
  next
    case False
    then have "parse_loop q [Suc i..<length q] start ops wn qe = None"
      by (intro Suc.hyps(1)) (use Suc.hyps(2) Suc.prems dr \<open>i < length q\<close> in auto)
    then show ?thesis using \<open>i < length q\<close> lg False by (simp add: upt_conv_Cons)
  qed
qed

text \<open>C16: the two buffer overruns of the parser.  A rule with more than three operators writes
  behind \<open>logic_ops\<close>, and a rule text of 257 to 999 bytes is copied into the 256 bytes of
  \<open>full_text\<close>.\<close>

theorem parse_overruns:
  assumes "3 < length (filter is_logic q) \<or> 256 < length q \<and> length q < 1000"
  shows "parse q st = None \<and> parse_N q st = None"
proof -
  have "parse_expr q = None"
  proof (cases "256 < length q \<and> length q < 1000")
    case True
    then show ?thesis by (auto simp: parse_expr_def new_query_expression_def)
  next
    case False
    then have "parse_loop q [0..<length q] 0 0 0 (new_query_expression\<lparr>full_text := ft\<rparr>) = None" for ft
      using assms by (intro parse_loop_too_many_ops) (auto simp: new_query_expression_def)
    then show ?thesis by (simp add: parse_expr_def bind_eq_None_conv)
  qed
  then show ?thesis by (simp add: parse_def parse_N_def)
qed

theorem parse_overruns_witness: "parse ''a#b#c#d#e'' new_matchers = None"
  using parse_overruns [of "''a#b#c#d#e''" new_matchers] by (simp add: is_logic_def)

text \<open>A rule of four words is accepted by the parser, but no text can be matched against it:
  the cascade of \<open>match_\<close> has no case for it and the function frees an array on its stack and
  ends without a value.\<close>

lemma four_words_undefined:
  assumes "length q \<le> 255" "NUL \<notin> set q" "length (filter is_logic q) = 3" "length (segments q) = 4"
  shows "\<exists>qe. parse_expr q = Some qe \<and> (\<forall>st T. match_qe st qe T = None \<and> match_qe_N st qe T = None)"
proof -
  obtain qe where qe: "parse_expr q = Some qe" "query_word_num qe = 4"
    using parse_expr_spec [of q] assms by auto
  have keep: "query_word_num qe' = 4" if "populate_tf qe ra kw = Some qe'" for ra kw qe'
  proof -
    have "ofold (\<lambda>i qe. if i < length (query qe)
                   then do { b \<leftarrow> in_match_word_list (query qe ! i) kw ra;
                             Some (qe\<lparr>tf := (tf qe)[i := of_bool_int b]\<rparr>) }
                   else None) xs a = Some b \<Longrightarrow> query_word_num b = query_word_num a" for xs a b
      by (induction xs arbitrary: a) (auto simp: bind_Some_iff split: if_splits)
    from this [OF that [unfolded populate_tf_def]] show ?thesis using qe(2) by simp
  qed
  then have "eval_ops qe' = None" if "populate_tf qe ra kw = Some qe'" for ra kw qe'
    using that by (simp add: eval_ops_def)
  then have "match_expr km gk qe T = None" for km gk T
    by (auto simp: match_expr_def bind_None_iff)
  then show ?thesis using qe(1) by (auto simp: match_qe_def match_qe_N_def)
qed

lemma four_words_undefined_witness:
  "\<exists>qe. parse_expr ''a&b&c&d'' = Some qe \<and> match_qe new_matchers qe ''abcd'' = None"
proof -
  have "length (segments ''a&b&c&d'') = 4"
    by (simp add: segments.simps still_has_logic_def is_logic_def)
  then show ?thesis using four_words_undefined [of "''a&b&c&d''"] by (auto simp: is_logic_def)
qed

text \<open>C14: the rule engine.  From the start-up state, any sequence of additions, deletions and searches of well-formed
  rules (\<open>query_ok\<close>: at most 255 bytes, none of them zero, one to three words, none of them empty, and at most three
  operators) gives exactly the results of the abstract engine: a search reports the indices of the rules whose formula
  (\<open>&\<close> before \<open>#\<close>) holds of the words that occur in the text. Within these limits it is undefined exactly when
  more than 32 rules are hit, as is adding beyond 10000 slots. Outside them little is promised: the parser overruns its
  fields for more operators and for 257 to 999 bytes, and a rule of four words makes every search undefined
  (\<open>four_words_undefined\<close>).  The blocking and the monitoring table both behave this way.\<close>

theorem rules_refine:
  assumes "\<forall>ev\<in>set evs. event_ok ev" "\<forall>k\<in>set kw_rows. keyword_ok k \<and> length k \<le> 255"
    "\<forall>k\<in>set url_rows. keyword_ok k" "init_ac kw_rows url_rows = Some st"
  shows "map_option (snd \<circ> snd) (ofold rule_step evs (init_query_table, st, [])) =
           map_option snd (ofold spec_step evs ([], [])) \<and>
         map_option (snd \<circ> snd) (ofold rule_step_N evs (init_query_table_N, st, [])) =
           map_option snd (ofold spec_step evs ([], []))"
proof -
  have st: "pair_synced (mA st) (mB st)" "keys_of (mA st) = rev kw_rows"
    "pair_synced (mNA st) (mNB st)" "keys_of (mNA st) = []"
    using init_ac_state [of kw_rows url_rows] assms(2,3,4) by auto
  have "\<forall>k\<in>set (keys_of (mA st)). length k \<le> 255" unfolding st(2) using assms(2) by simp
  then have "rules.engine_rel [] init_query_table st" using st(1)
    unfolding rules.engine_rel_def init_query_table_def by blast
  moreover have "rulesN.engine_rel [] init_query_table_N st" using st(3)
    unfolding rulesN.engine_rel_def init_query_table_N_def st(4) by simp
  ultimately have rel: "rules.engine_rel [] init_query_table st"
    "rulesN.engine_rel [] init_query_table_N st" by blast+
  from rules.engine_refines [OF rel(1) assms(1)] rulesN.engine_refines [OF rel(2) assms(1)]
  show ?thesis by (simp add: rule_step_engine [abs_def] rule_step_N_engine [abs_def])
qed

theorem rules_refine_witness:
  "map_option (snd \<circ> snd) (ofold rule_step
     [AddRule ''a & b # c'', AddRule ''b'', SearchRules ''xbyc'', DelRule ''b'', SearchRules ''ab'']
     (init_query_table, new_matchers, [])) = Some [[0, 1], [0]]"
proof -
  have st: "init_ac [] [] = Some new_matchers"
    by (simp add: init_ac_def add_all_kw_from_db_def add_all_url_from_db_def)
  have segs: "segments ''a & b # c'' = [''a '', '' b '', '' c'']" "segments ''b'' = [''b'']"
    by (simp_all add: segments.simps still_has_logic_def is_logic_def)
  have ok: "query_ok ''a & b # c''" "query_ok ''b''"
    by (simp_all add: query_ok_def segs is_logic_def first_word_def)
  have "query_holds ''a & b # c'' ''xbyc''" "query_holds ''b'' ''xbyc''" "query_holds ''a & b # c'' ''ab''"
    by (simp_all add: query_holds_def segs is_logic_def first_word_def sublist_Cons_right)
  then show ?thesis
    using rules_refine [of "[AddRule ''a & b # c'', AddRule ''b'', SearchRules ''xbyc'', DelRule ''b'',
      SearchRules ''ab'']" "[]" "[]" new_matchers] ok st
    by (simp add: MAX_LOGIC_HIT_RESULT_LEN_def)
qed

end
