(* ===== verification/Trie.thy ===== *)
theory Trie
  imports CPrelude
begin

text \<open>
  \<^verbatim>\<open>trie.c\<close>: the black list of user, action and resource ids.  A rule
  \<open>"subject action resource"\<close> over digits, spaces and \<open>*\<close> is a path of a trie with 12
  children per node; a node counts the rules that pass through it (a 16-bit \<open>short\<close>) and a
  node with count 0 is treated as absent.  \<open>*\<close> in a rule skips to the next space of the text.

  The functions of the source that walk with an index \<open>offset\<close> take the rest of the string
  here.  \<open>c2i\<close> returns no value for any other character: that is undefined.  The rows of the
  table \<open>idblacklist\<close> are an argument.
\<close>

section \<open>Nodes\<close>

datatype node = Node (ref: "16 word") (pattern_id: int) (child: "nat \<Rightarrow> node option")

definition new_node :: node where
  "new_node = Node 1 (-1) (\<lambda>_. None)"

definition c2i :: "char \<Rightarrow> nat option" where
  "c2i c = (if CHR ''0'' \<le> c \<and> c \<le> CHR ''9'' then Some (of_char c - of_char (CHR ''0''))
            else if c = CHR ''*'' then Some 10
            else if c = CHR '' '' then Some 11
            else None)"

definition i2c :: "nat \<Rightarrow> char option" where
  "i2c i = (if i \<le> 9 then Some (char_of (i + of_char (CHR ''0'')))
            else if i = 10 then Some (CHR ''*'')
            else if i = 11 then Some (CHR '' '')
            else None)"

definition is_null :: "node option \<Rightarrow> bool" where
  "is_null n = (case n of None \<Rightarrow> True | Some t \<Rightarrow> ref t = 0)"

definition has_child :: "(nat \<Rightarrow> node option) \<Rightarrow> bool" where
  "has_child ch = list_ex (\<lambda>i. \<not> is_null (ch i)) [0..<12]"

section \<open>Matching\<close>

text \<open>
  The accumulator holds \<open>*find\<close> and, when it was written, \<open>*pattern_id\<close>.
\<close>

type_synonym found = "bool \<times> int option"

primrec match_node :: "node \<Rightarrow> string \<Rightarrow> found \<Rightarrow> found option" where
  "match_node (Node r p ch) = (\<lambda>s acc.
     case s of
       [] \<Rightarrow> Some (if p \<noteq> -1 then (True, Some p) else acc)
     | c # s' \<Rightarrow>
         if \<not> has_child ch then Some acc
         else do {
           i \<leftarrow> c2i c;
           acc1 \<leftarrow> (if is_null (ch i) then Some acc
                   else case map_option match_node (ch i) of
                     None \<Rightarrow> Some acc | Some f \<Rightarrow> f s' acc);
           (if is_null (ch 10) then Some acc1
            else case map_option match_node (ch 10) of
              None \<Rightarrow> Some acc1
            | Some f \<Rightarrow> f (dropWhile (\<lambda>x. x \<noteq> CHR '' '') s) acc1) })"

section \<open>Insertion and deletion\<close>

definition enter_child :: "node option \<Rightarrow> node" where
  \<comment> \<open>a new node, or one more rule through an existing one\<close>
  "enter_child n = (case n of None \<Rightarrow> new_node | Some t \<Rightarrow> Node (ref t + 1) (pattern_id t) (child t))"

fun insert_pattern :: "string \<Rightarrow> int \<Rightarrow> node \<Rightarrow> node option" where
  "insert_pattern [] pid (Node r p ch) = Some (Node r pid ch)"
| "insert_pattern (c # s) pid (Node r p ch) = do {
     i \<leftarrow> c2i c;
     t \<leftarrow> insert_pattern s pid (enter_child (ch i));
     Some (Node r p (ch(i := Some t))) }"

fun del_walk :: "string \<Rightarrow> node \<Rightarrow> node option option" where
  \<comment> \<open>the first loop of \<open>del\<close>: \<open>Some None\<close> when it breaks\<close>
  "del_walk [] t = Some (Some t)"
| "del_walk (c # s) (Node r p ch) = do {
     i \<leftarrow> c2i c;
     (case ch i of
        None \<Rightarrow> Some None
      | Some t \<Rightarrow> if is_null (ch i) then Some None else del_walk s t) }"

fun del_path :: "string \<Rightarrow> node \<Rightarrow> node option" where
  \<comment> \<open>the second loop: decrement the counts, then clear the pattern\<close>
  "del_path [] (Node r p ch) = Some (Node r (-1) ch)"
| "del_path (c # s) (Node r p ch) = do {
     i \<leftarrow> c2i c;
     n \<leftarrow> ch i;
     t \<leftarrow> del_path s (Node (if 1 \<le> sint (ref n) then ref n - 1 else ref n) (pattern_id n) (child n));
     Some (Node r p (ch(i := Some t))) }"

definition del_node :: "string \<Rightarrow> node \<Rightarrow> node option" where
  "del_node pattern root = do {
     reached \<leftarrow> del_walk pattern root;
     (case reached of
        Some t \<Rightarrow> if pattern_id t \<noteq> -1 then del_path pattern root else Some root
      | None \<Rightarrow> Some root) }"

section \<open>The tree and its rules\<close>

record trie_state =
  trie_tree_root :: "node option"
  global_pattern_id_for_userid :: int
  global_pattern_id_for_resourceid :: int

definition insert_for_userid :: "string \<Rightarrow> trie_state \<Rightarrow> trie_state option" where
  "insert_for_userid pattern st = do {
     root \<leftarrow> trie_tree_root st;
     root' \<leftarrow> insert_pattern pattern (global_pattern_id_for_userid st) root;
     Some (st\<lparr>trie_tree_root := Some root',
              global_pattern_id_for_userid := global_pattern_id_for_userid st + 2\<rparr>) }"

definition insert_for_resourceid :: "string \<Rightarrow> trie_state \<Rightarrow> trie_state option" where
  "insert_for_resourceid pattern st = do {
     root \<leftarrow> trie_tree_root st;
     root' \<leftarrow> insert_pattern pattern (global_pattern_id_for_resourceid st) root;
     Some (st\<lparr>trie_tree_root := Some root',
              global_pattern_id_for_resourceid := global_pattern_id_for_resourceid st + 2\<rparr>) }"

definition del :: "string \<Rightarrow> trie_state \<Rightarrow> trie_state option" where
  "del pattern st = do {
     root \<leftarrow> trie_tree_root st;
     root' \<leftarrow> del_node pattern root;
     Some (st\<lparr>trie_tree_root := Some root'\<rparr>) }"

definition match_trie :: "string \<Rightarrow> trie_state \<Rightarrow> found option" where
  "match_trie tupe st = do {
     root \<leftarrow> trie_tree_root st;
     match_node root tupe (False, None) }"

definition rule_string :: "string \<Rightarrow> string \<Rightarrow> string \<Rightarrow> string" where
  "rule_string subject action resource = subject @ '' '' @ action @ '' '' @ resource"

definition trie_add_rule :: "string \<Rightarrow> string \<Rightarrow> string \<Rightarrow> trie_state \<Rightarrow> trie_state option" where
  "trie_add_rule subject action resource st =
     (if trie_tree_root st = None then Some st
      else let rule = rule_string subject action resource in
        if sat subject 0 = Some (CHR ''*'') then insert_for_resourceid rule st
        else if sat resource 0 = Some (CHR ''*'') then insert_for_userid rule st
        else Some st)"

definition trie_del_rule :: "string \<Rightarrow> string \<Rightarrow> string \<Rightarrow> trie_state \<Rightarrow> trie_state option" where
  "trie_del_rule subject action resource st =
     (if trie_tree_root st = None then Some st
      else del (rule_string subject action resource) st)"

definition trie_chk_rule_one ::
  "string \<Rightarrow> string \<Rightarrow> string \<Rightarrow> trie_state \<Rightarrow> found option" where
  \<comment> \<open>\<open>trie_chk_rule_\<close>\<close>
  "trie_chk_rule_one subject action resource st =
     (if trie_tree_root st = None then Some (False, None)
      else match_trie (rule_string subject action resource) st)"

text \<open>
  \<open>trie_chk_rule\<close> takes the three ids as buffers, and overwrites the first eight bytes of an
  empty one.  The results are the return value, the two pattern ids and the three buffers.
\<close>

definition not_found :: "char list \<Rightarrow> char list option" where
  "not_found buf = (case buf of
     [] \<Rightarrow> None
   | c # _ \<Rightarrow> if c = NUL then memcpy buf 0 ''NotFound'' else Some buf)"

definition trie_chk_rule ::
  "char list \<Rightarrow> char list \<Rightarrow> int \<Rightarrow> char list \<Rightarrow> trie_state \<Rightarrow>
   (int \<times> int option \<times> int option \<times> char list \<times> char list \<times> char list) option" where
  "trie_chk_rule u_id s_id act r_id st =
     (if act = 0 then Some (0, None, None, u_id, s_id, r_id)
      else do {
        let action = sprintf_d act;
        u_id \<leftarrow> not_found u_id;
        s_id \<leftarrow> not_found s_id;
        r_id \<leftarrow> not_found r_id;
        u \<leftarrow> buf_str u_id;
        s \<leftarrow> buf_str s_id;
        r \<leftarrow> buf_str r_id;
        (a, pattern_id_1) \<leftarrow> trie_chk_rule_one u action s st;
        (b, pattern_id_2) \<leftarrow> trie_chk_rule_one u action r st;
        Some (of_bool a + of_bool b, pattern_id_1, pattern_id_2, u_id, s_id, r_id) })"

definition addrulefromdb :: "(string \<times> string \<times> string) list \<Rightarrow> trie_state \<Rightarrow> trie_state option" where
  "addrulefromdb rows st = ofold (\<lambda>(s, a, r) st. trie_add_rule s a r st) rows st"

definition init_trie_tree :: "(string \<times> string \<times> string) list \<Rightarrow> trie_state option" where
  "init_trie_tree rows =
     addrulefromdb rows \<lparr>trie_tree_root = Some new_node,
       global_pattern_id_for_userid = 0, global_pattern_id_for_resourceid = 1\<rparr>"

definition destroy_trie_tree :: "trie_state \<Rightarrow> trie_state" where
  \<comment> \<open>\<open>trie_tree_root == NULL;\<close> is a comparison: the tree stays\<close>
  "destroy_trie_tree st = st"

text \<open>\<open>dfs\<close>: the lines it prints, as (character, count, pattern, depth).\<close>

primrec dfs_lines :: "node \<Rightarrow> nat option \<Rightarrow> nat \<Rightarrow> (char option \<times> int \<times> int \<times> nat) list" where
  "dfs_lines (Node r p ch) = (\<lambda>offset depth.
     (case offset of None \<Rightarrow> [] | Some i \<Rightarrow> [(i2c i, sint r, p, depth)]) @
     concat (map (\<lambda>i. case map_option dfs_lines (ch i) of
                        None \<Rightarrow> [] | Some f \<Rightarrow> f (Some i) (depth + 1)) [0..<12]))"

definition dfs :: "trie_state \<Rightarrow> (char option \<times> int \<times> int \<times> nat) list" where
  "dfs st = (case trie_tree_root st of None \<Rightarrow> [] | Some root \<Rightarrow> dfs_lines root None 0)"

section \<open>The tree as two tables\<close>

text \<open>
  The count and the pattern at the end of a path, absent nodes being null: these two tables
  determine what the operations do.
\<close>

fun sub_node :: "node option \<Rightarrow> string \<Rightarrow> node option" where
  "sub_node n [] = n"
| "sub_node n (c # w) = (case n of None \<Rightarrow> None | Some t \<Rightarrow>
     (case c2i c of None \<Rightarrow> None | Some i \<Rightarrow> sub_node (child t i) w))"

definition ref_at :: "node option \<Rightarrow> string \<Rightarrow> 16 word" where
  "ref_at n w = (case sub_node n w of None \<Rightarrow> 0 | Some t \<Rightarrow> ref t)"

definition pid_at :: "node option \<Rightarrow> string \<Rightarrow> int" where
  "pid_at n w = (case sub_node n w of None \<Rightarrow> -1 | Some t \<Rightarrow> pattern_id t)"

definition rule_chars :: "string \<Rightarrow> bool" where
  "rule_chars s \<longleftrightarrow> (\<forall>c\<in>set s. c2i c \<noteq> None)"

lemma rule_chars_simps [simp]:
  "rule_chars []" "rule_chars (c # s) \<longleftrightarrow> c2i c \<noteq> None \<and> rule_chars s"
  "rule_chars (s @ t) \<longleftrightarrow> rule_chars s \<and> rule_chars t"
  by (auto simp: rule_chars_def)

lemma rule_chars_dropWhile [simp]: "rule_chars s \<Longrightarrow> rule_chars (dropWhile P s)"
  by (auto simp: rule_chars_def dest: set_dropWhileD)

lemma digit_inj:
  "48 \<le> (of_char c :: nat) \<Longrightarrow> 48 \<le> (of_char d :: nat) \<Longrightarrow>
   of_char c - 48 = (of_char d - 48 :: nat) \<Longrightarrow> c = d"
  by (metis le_add_diff_inverse of_char_eq_iff)

lemma c2i_inj: "c2i c = Some i \<Longrightarrow> c2i d = Some i \<Longrightarrow> c = d"
  by (auto simp: c2i_def less_eq_char_def digit_inj split: if_splits)

lemma c2i_star [simp]: "c2i (CHR ''*'') = Some 10"
  by (simp add: c2i_def less_eq_char_def)

lemma c2i_star_iff: "c2i c = Some 10 \<longleftrightarrow> c = CHR ''*''"
  using c2i_inj c2i_star by blast

lemma sub_None [simp]: "sub_node None w = None"
  by (cases w) auto

lemma ref_at_simps [simp]:
  "ref_at None w = 0" "ref_at (Some t) [] = ref t"
  "ref_at (Some t) (c # w) = (case c2i c of None \<Rightarrow> 0 | Some i \<Rightarrow> ref_at (child t i) w)"
  by (auto simp: ref_at_def split: option.splits)

lemma pid_at_simps [simp]:
  "pid_at None w = -1" "pid_at (Some t) [] = pattern_id t"
  "pid_at (Some t) (c # w) = (case c2i c of None \<Rightarrow> -1 | Some i \<Rightarrow> pid_at (child t i) w)"
  by (auto simp: pid_at_def split: option.splits)

lemma is_null_ref: "is_null n \<longleftrightarrow> ref_at n [] = 0"
  by (cases n) (auto simp: is_null_def)

lemma new_node_tables [simp]:
  "ref_at (Some new_node) w = (if w = [] then 1 else 0)" "pid_at (Some new_node) w = -1"
  by (cases w; simp add: new_node_def split: option.splits)+

lemma enter_child_tables:
  "ref_at (Some (enter_child n)) w = ref_at n w + (if w = [] then 1 else 0)"
  "pid_at (Some (enter_child n)) w = pid_at n w"
proof -
  have "ref_at (Some (enter_child n)) w = ref_at n w + (if w = [] then 1 else 0) \<and>
      pid_at (Some (enter_child n)) w = pid_at n w"
  proof (cases n)
    case None
    then show ?thesis by (simp add: enter_child_def)
  next
    case (Some t)
    then have e: "enter_child n = Node (ref t + 1) (pattern_id t) (child t)" by (simp add: enter_child_def)
    show ?thesis
    proof (cases w)
      case Nil
      then show ?thesis unfolding e unfolding Some by simp
    next
      case (Cons c v)
      then show ?thesis unfolding e unfolding Some by (simp cong: option.case_cong)
    qed
  qed
  then show "ref_at (Some (enter_child n)) w = ref_at n w + (if w = [] then 1 else 0)"
    "pid_at (Some (enter_child n)) w = pid_at n w" by blast+
qed

lemma insert_pattern_defined:
  assumes "rule_chars s"
  shows "\<exists>t'. insert_pattern s pid t = Some t'"
  using assms
proof (induction s arbitrary: t)
  case Nil
  then show ?case by (cases t) simp
next
  case (Cons c s)
  obtain r p ch where t: "t = Node r p ch" by (cases t)
  obtain i where i: "c2i c = Some i" using Cons.prems by auto
  obtain t1 where "insert_pattern s pid (enter_child (ch i)) = Some t1"
    using Cons.IH Cons.prems by fastforce
  then show ?case using t i by simp
qed

lemma insert_pattern_tables:
  assumes "insert_pattern s pid t = Some t'"
  shows "ref_at (Some t') w = ref_at (Some t) w + (if w \<noteq> [] \<and> prefix w s then 1 else 0) \<and>
         pid_at (Some t') w = (if w = s then pid else pid_at (Some t) w)"
  using assms
proof (induction s arbitrary: t t' w)
  case Nil
  then show ?case by (cases t; cases w) (auto split: option.splits)
next
  case (Cons c s)
  obtain r p ch where t: "t = Node r p ch" by (cases t)
  obtain i t1 where i: "c2i c = Some i" "insert_pattern s pid (enter_child (ch i)) = Some t1"
      "t' = Node r p (ch(i := Some t1))"
    using Cons.prems unfolding t by (auto simp: bind_Some_iff)
  note b = enter_child_tables [of "ch i"]
  show ?case
  proof (cases w)
    case Nil
    then show ?thesis using t i by simp
  next
    case (Cons d v)
    show ?thesis
    proof (cases "c2i d = Some i")
      case True
      then have "d = c" using i(1) c2i_inj by blast
      then have "ref_at (Some t') w = ref_at (Some t1) v" "pid_at (Some t') w = pid_at (Some t1) v"
        "ref_at (Some t) w = ref_at (ch i) v" "pid_at (Some t) w = pid_at (ch i) v"
        using i(1,3) t Cons by simp_all
      moreover have "w \<noteq> [] \<and> prefix w (c # s) \<longleftrightarrow> prefix v s" "w = c # s \<longleftrightarrow> v = s"
        using Cons \<open>d = c\<close> by simp_all
      moreover have "(if v = [] then 1 else 0) + (if v \<noteq> [] \<and> prefix v s then 1 else 0) =
          (if prefix v s then 1 else 0 :: 16 word)" by simp
      ultimately show ?thesis
        using Cons.IH [OF i(2), of v] unfolding b [of v] by (simp only: add.assoc)
    next
      case False
      then have "d \<noteq> c" using i(1) by blast
      then show ?thesis using Cons i t False by (auto split: option.splits)
    qed
  qed
qed

definition alive :: "node option \<Rightarrow> string \<Rightarrow> bool" where
  "alive n s \<longleftrightarrow> (\<forall>w. w \<noteq> [] \<and> prefix w s \<longrightarrow> ref_at n w \<noteq> 0)"

lemma alive_Nil [simp]: "alive n []"
  by (simp add: alive_def)

lemma alive_Cons:
  "alive (Some t) (c # s) \<longleftrightarrow>
     (case c2i c of None \<Rightarrow> False | Some i \<Rightarrow> \<not> is_null (child t i) \<and> alive (child t i) s)"
proof (cases "c2i c")
  case None
  then show ?thesis by (auto simp: alive_def intro!: exI [of _ "[c]"])
next
  case (Some i)
  have "alive (Some t) (c # s) \<longleftrightarrow> (\<forall>v. prefix v s \<longrightarrow> ref_at (child t i) v \<noteq> 0)"
  proof
    assume "alive (Some t) (c # s)"
    then show "\<forall>v. prefix v s \<longrightarrow> ref_at (child t i) v \<noteq> 0"
      using Some by (auto simp: alive_def dest: spec [of _ "c # _"])
  next
    assume "\<forall>v. prefix v s \<longrightarrow> ref_at (child t i) v \<noteq> 0"
    then show "alive (Some t) (c # s)" using Some by (auto simp: alive_def prefix_Cons)
  qed
  also have "\<dots> \<longleftrightarrow> \<not> is_null (child t i) \<and> alive (child t i) s"
    unfolding alive_def is_null_ref by (metis prefix_bot.bot_least)
  finally show ?thesis using Some by simp
qed

section \<open>What a search finds\<close>

fun wild :: "string \<Rightarrow> string \<Rightarrow> bool" where
  "wild [] s \<longleftrightarrow> s = []"
| "wild (c # r) [] \<longleftrightarrow> False"
| "wild (c # r) (x # s) \<longleftrightarrow>
     c = x \<and> wild r s \<or> c = CHR ''*'' \<and> wild r (dropWhile (\<lambda>y. y \<noteq> CHR '' '') (x # s))"

definition hits :: "node option \<Rightarrow> string \<Rightarrow> int set" where
  "hits n s = {pid_at n r |r. wild r s \<and> alive n r \<and> pid_at n r \<noteq> -1}"

lemma hits_Nil: "hits (Some t) [] = (if pattern_id t \<noteq> -1 then {pattern_id t} else {})"
proof -
  have "wild r [] \<longleftrightarrow> r = []" for r by (cases r) auto
  then show ?thesis by (auto simp: hits_def)
qed

lemma hits_Cons:
  assumes "c2i x = Some i"
  shows "hits (Some t) (x # s) =
    (if is_null (child t i) then {} else hits (child t i) s) \<union>
    (if is_null (child t 10) then {} else hits (child t 10) (dropWhile (\<lambda>y. y \<noteq> CHR '' '') (x # s)))"
    (is "?L = ?A \<union> ?B")
proof (intro set_eqI iffI)
  fix p assume "p \<in> ?L"
  then obtain r where r: "p = pid_at (Some t) r" "wild r (x # s)" "alive (Some t) r" "p \<noteq> -1"
    by (auto simp: hits_def)
  then obtain c r' where cr: "r = c # r'" by (cases r) auto
  from r(2) cr consider "c = x" "wild r' s"
    | "c = CHR ''*''" "wild r' (dropWhile (\<lambda>y. y \<noteq> CHR '' '') (x # s))" by auto
  then show "p \<in> ?A \<union> ?B"
  proof cases
    case 1
    then show ?thesis using r cr assms by (auto simp: alive_Cons hits_def)
  next
    case 2
    then show ?thesis using r cr by (auto simp: alive_Cons hits_def)
  qed
next
  fix p assume "p \<in> ?A \<union> ?B"
  then consider r where "\<not> is_null (child t i)" "p = pid_at (child t i) r" "wild r s"
      "alive (child t i) r" "p \<noteq> -1"
    | r where "\<not> is_null (child t 10)" "p = pid_at (child t 10) r"
      "wild r (dropWhile (\<lambda>y. y \<noteq> CHR '' '') (x # s))" "alive (child t 10) r" "p \<noteq> -1"
    by (auto simp: hits_def split: if_splits)
  then show "p \<in> ?L"
  proof cases
    case 1
    then have "p = pid_at (Some t) (x # r)" "wild (x # r) (x # s)" "alive (Some t) (x # r)"
      using assms by (auto simp: alive_Cons)
    then show ?thesis using 1(5) unfolding hits_def by blast
  next
    case 2
    then have "p = pid_at (Some t) (CHR ''*'' # r)" "wild (CHR ''*'' # r) (x # s)"
      "alive (Some t) (CHR ''*'' # r)"
      by (auto simp: alive_Cons)
    then show ?thesis using 2(5) unfolding hits_def by blast
  qed
qed

definition found_ok :: "int set \<Rightarrow> found \<Rightarrow> found \<Rightarrow> bool" where
  "found_ok H acc res \<longleftrightarrow>
     (if H = {} then res = acc else fst res \<and> snd res \<in> Some ` H)"

lemma found_ok_trans: "found_ok H1 a b \<Longrightarrow> found_ok H2 b c \<Longrightarrow> found_ok (H1 \<union> H2) a c"
  by (auto simp: found_ok_def split: if_splits)

lemma found_ok_refl [simp]: "found_ok {} a a"
  by (simp add: found_ok_def)

lemma has_child_c2i: "c2i c = Some i \<Longrightarrow> \<not> is_null (ch i) \<Longrightarrow> has_child ch"
  by (auto simp: has_child_def list_ex_iff c2i_def less_eq_char_def split: if_splits)

lemma match_node_spec:
  "rule_chars s \<Longrightarrow> \<exists>res. match_node t s acc = Some res \<and> found_ok (hits (Some t) s) acc res"
proof (induction t arbitrary: s acc)
  case (Node r p ch)
  show ?case
  proof (cases s)
    case Nil
    then show ?thesis by (auto simp: hits_Nil found_ok_def)
  next
    case (Cons c s')
    then obtain i where i: "c2i c = Some i" using Node.prems by auto
    let ?s2 = "dropWhile (\<lambda>x. x \<noteq> CHR '' '') (c # s')"
    have step: "\<exists>res. (if is_null (ch j) then Some a
         else case map_option match_node (ch j) of None \<Rightarrow> Some a | Some f \<Rightarrow> f u a) = Some res \<and>
        found_ok (if is_null (ch j) then {} else hits (ch j) u) a res" if "rule_chars u" for j u a
    proof (cases "ch j")
      case None
      then show ?thesis by (simp add: is_null_def)
    next
      case (Some n)
      have "ch j \<in> range ch" by blast
      from Node.IH [OF this, of n u a] Some that show ?thesis by (cases "is_null (ch j)") auto
    qed
    have chars: "rule_chars s'" "rule_chars ?s2" using Node.prems Cons by auto
    show ?thesis
    proof (cases "has_child ch")
      case False
      then have "is_null (ch i)" "is_null (ch 10)"
        using has_child_c2i [OF i] has_child_c2i [OF c2i_star] by auto
      then show ?thesis using False Cons i by (simp add: hits_Cons)
    next
      case True
      from step [OF chars(1), of i acc] obtain res1 where r1:
        "(if is_null (ch i) then Some acc
         else case map_option match_node (ch i) of None \<Rightarrow> Some acc | Some f \<Rightarrow> f s' acc) = Some res1"
        "found_ok (if is_null (ch i) then {} else hits (ch i) s') acc res1" by blast
      from step [OF chars(2), of 10 res1] obtain res2 where r2:
        "(if is_null (ch 10) then Some res1
         else case map_option match_node (ch 10) of None \<Rightarrow> Some res1 | Some f \<Rightarrow> f ?s2 res1) = Some res2"
        "found_ok (if is_null (ch 10) then {} else hits (ch 10) ?s2) res1 res2" by blast
      have "match_node (Node r p ch) s acc = Some res2"
        using True Cons i r1(1) r2(1) by simp
      moreover have "hits (Some (Node r p ch)) s =
          (if is_null (ch i) then {} else hits (ch i) s') \<union> (if is_null (ch 10) then {} else hits (ch 10) ?s2)"
        using hits_Cons [OF i, of "Node r p ch" s'] Cons by simp
      ultimately show ?thesis using found_ok_trans [OF r1(2) r2(2)] by auto
    qed
  qed
qed

section \<open>Deletion on the tables\<close>

lemma del_walk_spec:
  "rule_chars s \<Longrightarrow>
   (if alive (Some t) s then \<exists>n. del_walk s t = Some (Some n) \<and> sub_node (Some t) s = Some n
    else del_walk s t = Some None)"
proof (induction s arbitrary: t)
  case Nil
  then show ?case by simp
next
  case (Cons c s)
  obtain r p ch where t: "t = Node r p ch" by (cases t)
  obtain i where i: "c2i c = Some i" using Cons.prems by auto
  show ?case
  proof (cases "ch i")
    case None
    then show ?thesis using t i by (simp add: alive_Cons is_null_def)
  next
    case (Some n)
    then show ?thesis using Cons.IH [of n] Cons.prems t i by (auto simp: alive_Cons)
  qed
qed

definition ref_down :: "16 word \<Rightarrow> 16 word" where
  "ref_down r = (if 1 \<le> sint r then r - 1 else r)"

lemma del_path_tables:
  assumes "rule_chars s" "alive (Some t) s"
  shows "\<exists>t'. del_path s t = Some t' \<and>
     (\<forall>w. ref_at (Some t') w = (if w \<noteq> [] \<and> prefix w s then ref_down (ref_at (Some t) w) else ref_at (Some t) w) \<and>
          pid_at (Some t') w = (if w = s then -1 else pid_at (Some t) w))"
  using assms
proof (induction s arbitrary: t)
  case Nil
  obtain r p ch where t: "t = Node r p ch" by (cases t)
  have "ref_at (Some (Node r (- 1) ch)) w = ref_at (Some t) w \<and>
      pid_at (Some (Node r (- 1) ch)) w = (if w = [] then -1 else pid_at (Some t) w)" for w
    by (cases w) (simp_all add: t cong: option.case_cong)
  then show ?case by (auto simp: t)
next
  case (Cons c s)
  obtain r p ch where t: "t = Node r p ch" by (cases t)
  obtain i where i: "c2i c = Some i" using Cons.prems(1) by auto
  then have al: "\<not> is_null (ch i)" "alive (ch i) s" using Cons.prems(2) t by (auto simp: alive_Cons)
  then obtain n where n: "ch i = Some n" by (cases "ch i") (auto simp: is_null_def)
  define n1 where "n1 = Node (ref_down (ref n)) (pattern_id n) (child n)"
  have n1: "ref_at (Some n1) w = (if w = [] then ref_down (ref_at (Some n) w) else ref_at (Some n) w)"
    "pid_at (Some n1) w = pid_at (Some n) w" for w
    by (cases w; simp add: n1_def cong: option.case_cong)+
  have "alive (Some n1) s" using al(2) n by (auto simp: alive_def n1)
  with Cons.IH [of n1] Cons.prems(1) obtain t1 where t1: "del_path s n1 = Some t1"
    "\<And>w. ref_at (Some t1) w = (if w \<noteq> [] \<and> prefix w s then ref_down (ref_at (Some n1) w) else ref_at (Some n1) w)"
    "\<And>w. pid_at (Some t1) w = (if w = s then -1 else pid_at (Some n1) w)"
    by auto
  have "del_path (c # s) t = Some (Node r p (ch(i := Some t1)))"
    using t i n t1(1) by (simp add: n1_def ref_down_def)
  moreover have "ref_at (Some (Node r p (ch(i := Some t1)))) w =
        (if w \<noteq> [] \<and> prefix w (c # s) then ref_down (ref_at (Some t) w) else ref_at (Some t) w) \<and>
      pid_at (Some (Node r p (ch(i := Some t1)))) w = (if w = c # s then -1 else pid_at (Some t) w)" for w
  proof (cases w)
    case Nil
    then show ?thesis by (simp add: t)
  next
    case (Cons d v)
    show ?thesis
    proof (cases "c2i d = Some i")
      case True
      then have "d = c" using i c2i_inj by blast
      moreover have "ref n1 = ref_down (ref n)" by (simp add: n1_def)
      ultimately show ?thesis using Cons i t n t1(2,3) [of v] by (simp add: n1)
    next
      case False
      then have "d \<noteq> c" using i by blast
      then show ?thesis using Cons False t by (simp split: option.split)
    qed
  qed
  ultimately show ?case by blast
qed

section \<open>The counts\<close>

text \<open>
  \<open>M\<close> holds the insertions that no deletion has undone: every count is the number of them
  that pass through the node, and every rule in force is among them.
\<close>

definition through :: "string \<Rightarrow> string multiset \<Rightarrow> nat" where
  "through w M = size (filter_mset (prefix w) M)"

definition counts_ok :: "node \<Rightarrow> string multiset \<Rightarrow> bool" where
  "counts_ok t M \<longleftrightarrow> (\<forall>w. w \<noteq> [] \<longrightarrow> ref_at (Some t) w = of_nat (through w M)) \<and>
     (\<forall>s. pid_at (Some t) s \<noteq> -1 \<longrightarrow> s \<in># M)"

lemma through_le: "through w M \<le> size M"
  by (simp add: through_def size_filter_mset_lesseq)

lemma through_pos: "s \<in># M \<Longrightarrow> prefix w s \<Longrightarrow> 0 < through w M"
  by (auto simp: through_def dest!: multi_member_split)

lemma of_nat_small:
  assumes "0 < n" "n < 32768"
  shows "(of_nat n :: 16 word) \<noteq> 0" "sint (of_nat n :: 16 word) = int n"
proof -
  show "(of_nat n :: 16 word) \<noteq> 0"
    using assms by (simp add: word_of_nat_eq_0_iff dvd_def) (auto dest!: dvd_imp_le)
  show "sint (of_nat n :: 16 word) = int n"
    using assms by (simp add: sint_uint unsigned_of_nat take_bit_nat_eq_self signed_take_bit_int_eq_self_iff)
qed

lemma alive_in_force:
  assumes "counts_ok t M" "size M < 32768" "pid_at (Some t) s \<noteq> -1"
  shows "alive (Some t) s"
  unfolding alive_def
proof (intro allI impI)
  fix w assume w: "w \<noteq> [] \<and> prefix w s"
  have "s \<in># M" using assms(1,3) by (simp add: counts_ok_def)
  then have "0 < through w M" "through w M < 32768"
    using through_pos w through_le [of w M] assms(2) by auto
  then show "ref_at (Some t) w \<noteq> 0"
    using w assms(1) of_nat_small(1) by (simp add: counts_ok_def)
qed

lemma insert_counts:
  assumes "counts_ok t M" "insert_pattern s pid t = Some t'"
  shows "counts_ok t' (add_mset s M)"
  using assms(1) insert_pattern_tables [OF assms(2)]
  by (auto simp: counts_ok_def through_def)

lemma del_node_spec:
  assumes "counts_ok t M" "size M < 32768" "rule_chars s"
  shows "\<exists>t' M'. del_node s t = Some t' \<and> counts_ok t' M' \<and> size M' \<le> size M \<and>
     (\<forall>w. pid_at (Some t') w = (if w = s then -1 else pid_at (Some t) w))"
proof (cases "pid_at (Some t) s = -1")
  case True
  have "del_node s t = Some t"
    using del_walk_spec [OF assms(3), of t] True
    by (auto simp: del_node_def pid_at_def split: if_splits)
  then show ?thesis using assms(1) True by auto
next
  case False
  note al = alive_in_force [OF assms(1,2) False]
  from del_walk_spec [OF assms(3), of t] al obtain n where n: "del_walk s t = Some (Some n)"
    "sub_node (Some t) s = Some n" by auto
  from del_path_tables [OF assms(3) al] obtain t' where t': "del_path s t = Some t'"
    "\<And>w. ref_at (Some t') w = (if w \<noteq> [] \<and> prefix w s then ref_down (ref_at (Some t) w) else ref_at (Some t) w)"
    "\<And>w. pid_at (Some t') w = (if w = s then -1 else pid_at (Some t) w)" by blast
  have "del_node s t = Some t'" using n t'(1) False by (simp add: del_node_def pid_at_def)
  moreover have sM: "s \<in># M" using assms(1) False by (simp add: counts_ok_def)
  have "counts_ok t' (M - {#s#})"
    unfolding counts_ok_def
  proof (intro conjI allI impI)
    fix w :: string assume w: "w \<noteq> []"
    show "ref_at (Some t') w = of_nat (through w (M - {#s#}))"
    proof (cases "prefix w s")
      case True
      have pos: "0 < through w M" "through w M < 32768"
        using through_pos [OF sM True] through_le [of w M] assms(2) by auto
      have "through w (M - {#s#}) = through w M - 1"
        using True sM by (simp add: through_def size_Diff_singleton)
      then show ?thesis
        using True w t'(2) assms(1) of_nat_small(2) [OF pos] pos
        by (simp add: counts_ok_def ref_down_def of_nat_diff)
    next
      case False
      then show ?thesis using w t'(2) assms(1) by (simp add: counts_ok_def through_def)
    qed
  next
    fix u assume "pid_at (Some t') u \<noteq> - 1"
    then have "u \<noteq> s" "pid_at (Some t) u \<noteq> -1" using t'(3) by (auto split: if_splits)
    then have "u \<in># add_mset s (M - {#s#})" using assms(1) sM by (simp add: counts_ok_def)
    then show "u \<in># M - {#s#}" using \<open>u \<noteq> s\<close> by simp
  qed
  moreover have "size (M - {#s#}) \<le> size M" by (simp add: size_Diff1_le)
  ultimately show ?thesis using t'(3) by blast
qed

lemma match_in_force:
  assumes "counts_ok t M" "size M < 32768" "rule_chars T"
  shows "\<exists>res. match_node t T (False, None) = Some res \<and>
     (fst res \<longleftrightarrow> (\<exists>s. pid_at (Some t) s \<noteq> -1 \<and> wild s T)) \<and>
     (fst res \<longrightarrow> (\<exists>s. pid_at (Some t) s \<noteq> -1 \<and> wild s T \<and> snd res = Some (pid_at (Some t) s))) \<and>
     (\<not> fst res \<longrightarrow> snd res = None)"
proof -
  have "hits (Some t) T = {pid_at (Some t) s |s. wild s T \<and> pid_at (Some t) s \<noteq> -1}"
    using alive_in_force [OF assms(1,2)] by (auto simp: hits_def)
  then show ?thesis
    using match_node_spec [OF assms(3), of t "(False, None)"]
    by (fastforce simp: found_ok_def split: if_splits)
qed

section \<open>The black list as a map\<close>

datatype black_event =
    AddBlack string string string   \<comment> \<open>\<open>trie_add_rule(subject, action, resource)\<close>\<close>
  | DelBlack string string string   \<comment> \<open>\<open>trie_del_rule\<close>\<close>

fun black_event_ok :: "black_event \<Rightarrow> bool" where
  "black_event_ok (AddBlack s a r) \<longleftrightarrow> rule_chars s \<and> rule_chars a \<and> rule_chars r"
| "black_event_ok (DelBlack s a r) \<longleftrightarrow> rule_chars s \<and> rule_chars a \<and> rule_chars r"

fun trie_step :: "black_event \<Rightarrow> trie_state \<Rightarrow> trie_state option" where
  "trie_step (AddBlack s a r) st = trie_add_rule s a r st"
| "trie_step (DelBlack s a r) st = trie_del_rule s a r st"

text \<open>
  The abstract list: rules to their ids, user rules (\<open>*\<close> as the resource) numbered evenly and
  resource rules (\<open>*\<close> as the subject) oddly.
\<close>

type_synonym black_list = "(string \<Rightarrow> int option) \<times> int \<times> int"

fun black_step :: "black_event \<Rightarrow> black_list \<Rightarrow> black_list" where
  "black_step (AddBlack s a r) (m, uid, rid) =
     (if prefix ''*'' s then (m(rule_string s a r := Some rid), uid, rid + 2)
      else if prefix ''*'' r then (m(rule_string s a r := Some uid), uid + 2, rid)
      else (m, uid, rid))"
| "black_step (DelBlack s a r) (m, uid, rid) = (m(rule_string s a r := None), uid, rid)"

definition listed :: "(string \<Rightarrow> int option) \<Rightarrow> string \<Rightarrow> bool" where
  "listed m T \<longleftrightarrow> (\<exists>s p. m s = Some p \<and> wild s T)"

definition listed_id :: "(string \<Rightarrow> int option) \<Rightarrow> string \<Rightarrow> int option \<Rightarrow> bool" where
  \<comment> \<open>what a search may report as the id of the rule it found\<close>
  "listed_id m T out \<longleftrightarrow>
     (if listed m T then \<exists>s p. m s = Some p \<and> wild s T \<and> out = Some p else out = None)"

definition trie_rel :: "nat \<Rightarrow> trie_state \<Rightarrow> black_list \<Rightarrow> bool" where
  "trie_rel n st bl \<longleftrightarrow> (\<exists>t M. trie_tree_root st = Some t \<and> counts_ok t M \<and> size M \<le> n \<and>
     (\<forall>s. pid_at (Some t) s = (case fst bl s of None \<Rightarrow> -1 | Some p \<Rightarrow> p)) \<and>
     (\<forall>s p. fst bl s = Some p \<longrightarrow> 0 \<le> p) \<and>
     global_pattern_id_for_userid st = fst (snd bl) \<and>
     global_pattern_id_for_resourceid st = snd (snd bl) \<and>
     0 \<le> fst (snd bl) \<and> 0 \<le> snd (snd bl))"

lemma sat_star: "sat s 0 = Some (CHR ''*'') \<longleftrightarrow> prefix ''*'' s"
  by (cases s) auto

lemma rule_string_chars [simp]:
  "rule_chars (rule_string s a r) \<longleftrightarrow> rule_chars s \<and> rule_chars a \<and> rule_chars r"
  by (auto simp: rule_string_def c2i_def)

lemma trie_rel_init:
  "trie_rel 0 \<lparr>trie_tree_root = Some new_node, global_pattern_id_for_userid = 0,
      global_pattern_id_for_resourceid = 1\<rparr> (\<lambda>_. None, 0, 1)"
  unfolding trie_rel_def
  by (intro exI [of _ new_node] exI [of _ "{#}"]) (simp add: counts_ok_def through_def)

lemma trie_insert_rel:
  assumes "counts_ok t M" "rule_chars s"
    and "\<forall>s. pid_at (Some t) s = (case m s of None \<Rightarrow> -1 | Some p \<Rightarrow> p)"
  shows "\<exists>t'. insert_pattern s pid t = Some t' \<and> counts_ok t' (add_mset s M) \<and>
    (\<forall>u. pid_at (Some t') u = (case (m(s := Some pid)) u of None \<Rightarrow> -1 | Some p \<Rightarrow> p))"
proof -
  obtain t' where t': "insert_pattern s pid t = Some t'" using insert_pattern_defined [OF assms(2)] by blast
  then show ?thesis
    using insert_counts [OF assms(1) t'] insert_pattern_tables [OF t'] assms(3) by auto
qed

lemma trie_step_rel:
  assumes "trie_rel n st bl" "n < 32768" "black_event_ok ev"
  shows "\<exists>st'. trie_step ev st = Some st' \<and> trie_rel (Suc n) st' (black_step ev bl)"
proof -
  obtain m uid rid where bl: "bl = (m, uid, rid)" by (cases bl)
  obtain t M where tM: "trie_tree_root st = Some t" "counts_ok t M" "size M \<le> n"
    "\<forall>s. pid_at (Some t) s = (case m s of None \<Rightarrow> -1 | Some p \<Rightarrow> p)"
    "\<forall>s p. m s = Some p \<longrightarrow> 0 \<le> p"
    "global_pattern_id_for_userid st = uid" "global_pattern_id_for_resourceid st = rid" "0 \<le> uid" "0 \<le> rid"
    using assms(1) by (auto simp: trie_rel_def bl)
  show ?thesis
  proof (cases ev)
    case (AddBlack s a r)
    let ?w = "rule_string s a r"
    have w: "rule_chars ?w" using assms(3) AddBlack by simp
    have ins: "\<exists>t'. insert_pattern ?w pid t = Some t' \<and> counts_ok t' (add_mset ?w M) \<and>
        (\<forall>u. pid_at (Some t') u = (case (m(?w := Some pid)) u of None \<Rightarrow> -1 | Some p \<Rightarrow> p))" for pid
      by (rule trie_insert_rel [OF tM(2) w tM(4)])
    consider "prefix ''*'' s" | "\<not> prefix ''*'' s" "prefix ''*'' r" | "\<not> prefix ''*'' s" "\<not> prefix ''*'' r"
      by blast
    then show ?thesis
    proof cases
      case 1
      from ins [of rid] obtain t' where t': "insert_pattern ?w rid t = Some t'"
        "counts_ok t' (add_mset ?w M)"
        "\<forall>u. pid_at (Some t') u = (case (m(?w := Some rid)) u of None \<Rightarrow> -1 | Some p \<Rightarrow> p)" by blast
      have "trie_step ev st = Some (st\<lparr>trie_tree_root := Some t', global_pattern_id_for_resourceid := rid + 2\<rparr>)"
        using AddBlack 1 t'(1) tM by (simp add: trie_add_rule_def sat_star insert_for_resourceid_def)
      moreover have "trie_rel (Suc n) (st\<lparr>trie_tree_root := Some t', global_pattern_id_for_resourceid := rid + 2\<rparr>)
          (m(?w := Some rid), uid, rid + 2)"
        unfolding trie_rel_def using t'(2,3) tM
        by (intro exI [of _ t'] exI [of _ "add_mset ?w M"]) simp
      ultimately show ?thesis using AddBlack 1 bl by simp
    next
      case 2
      from ins [of uid] obtain t' where t': "insert_pattern ?w uid t = Some t'"
        "counts_ok t' (add_mset ?w M)"
        "\<forall>u. pid_at (Some t') u = (case (m(?w := Some uid)) u of None \<Rightarrow> -1 | Some p \<Rightarrow> p)" by blast
      have "trie_step ev st = Some (st\<lparr>trie_tree_root := Some t', global_pattern_id_for_userid := uid + 2\<rparr>)"
        using AddBlack 2 t'(1) tM by (simp add: trie_add_rule_def sat_star insert_for_userid_def)
      moreover have "trie_rel (Suc n) (st\<lparr>trie_tree_root := Some t', global_pattern_id_for_userid := uid + 2\<rparr>)
          (m(?w := Some uid), uid + 2, rid)"
        unfolding trie_rel_def using t'(2,3) tM
        by (intro exI [of _ t'] exI [of _ "add_mset ?w M"]) simp
      ultimately show ?thesis using AddBlack 2 bl by simp
    next
      case 3
      have "trie_rel (Suc n) st bl" using assms(1) by (force simp: trie_rel_def)
      then show ?thesis using AddBlack 3 bl tM(1) by (simp add: trie_add_rule_def sat_star)
    qed
  next
    case (DelBlack s a r)
    let ?w = "rule_string s a r"
    have w: "rule_chars ?w" "size M < 32768" using assms(2,3) DelBlack tM(3) by simp_all
    from del_node_spec [OF tM(2) w(2,1)] obtain t' M' where t': "del_node ?w t = Some t'"
      "counts_ok t' M'" "size M' \<le> size M"
      "\<forall>w. pid_at (Some t') w = (if w = ?w then -1 else pid_at (Some t) w)" by blast
    have "trie_step ev st = Some (st\<lparr>trie_tree_root := Some t'\<rparr>)"
      using DelBlack t'(1) tM(1) by (simp add: trie_del_rule_def del_def)
    moreover have "trie_rel (Suc n) (st\<lparr>trie_tree_root := Some t'\<rparr>) (m(?w := None), uid, rid)"
      unfolding trie_rel_def using t'(2-4) tM
      by (intro exI [of _ t'] exI [of _ M']) auto
    ultimately show ?thesis using DelBlack bl by simp
  qed
qed

lemma trie_steps_rel:
  "trie_rel n st bl \<Longrightarrow> n + length evs \<le> 32768 \<Longrightarrow> \<forall>ev\<in>set evs. black_event_ok ev \<Longrightarrow>
   \<exists>st'. ofold trie_step evs st = Some st' \<and> trie_rel (n + length evs) st' (fold black_step evs bl)"
proof (induction evs arbitrary: n st bl)
  case (Cons ev evs)
  then obtain st1 where "trie_step ev st = Some st1" "trie_rel (Suc n) st1 (black_step ev bl)"
    using trie_step_rel [of n st bl ev] by auto
  then show ?case using Cons.IH [of "Suc n" st1 "black_step ev bl"] Cons.prems by simp
qed simp

lemma trie_rel_match:
  assumes "trie_rel n st bl" "n < 32768" "rule_chars T"
  shows "\<exists>out. match_trie T st = Some (listed (fst bl) T, out) \<and> listed_id (fst bl) T out"
proof -
  obtain t M where tM: "trie_tree_root st = Some t" "counts_ok t M" "size M \<le> n"
    "\<forall>s. pid_at (Some t) s = (case fst bl s of None \<Rightarrow> -1 | Some p \<Rightarrow> p)"
    "\<forall>s p. fst bl s = Some p \<longrightarrow> 0 \<le> p"
    using assms(1) by (auto simp: trie_rel_def)
  have eq: "pid_at (Some t) s \<noteq> -1 \<longleftrightarrow> (\<exists>p. fst bl s = Some p)" for s
    using tM(4) [rule_format, of s] tM(5) [rule_format, of s] by (cases "fst bl s") force+
  have pid: "pid_at (Some t) s = p" if "fst bl s = Some p" for s p
    using tM(4) that by simp
  obtain b out where r: "match_node t T (False, None) = Some (b, out)"
    "b \<longleftrightarrow> (\<exists>s. pid_at (Some t) s \<noteq> -1 \<and> wild s T)"
    "b \<longrightarrow> (\<exists>s. pid_at (Some t) s \<noteq> -1 \<and> wild s T \<and> out = Some (pid_at (Some t) s))"
    "\<not> b \<longrightarrow> out = None"
    using match_in_force [OF tM(2) _ assms(3)] tM(3) assms(2) by fastforce
  have b: "b \<longleftrightarrow> listed (fst bl) T" using r(2) unfolding eq listed_def by blast
  have "listed_id (fst bl) T out"
    unfolding listed_id_def using b r(3,4) unfolding eq by (auto dest: pid)
  then show ?thesis using r(1) tM(1) b by (simp add: match_trie_def)
qed

section \<open>Properties\<close>

definition id_ok :: "string \<Rightarrow> bool" where
  "id_ok s \<longleftrightarrow> rule_chars s \<and> s \<noteq> [] \<and> length s < 256"

lemma rule_chars_NUL: "rule_chars s \<Longrightarrow> NUL \<notin> set s"
  by (auto simp: rule_chars_def c2i_def less_eq_char_def)

lemma digit_rule_char: "is_digit c \<Longrightarrow> c2i c \<noteq> None"
  by (simp add: is_digit_def c2i_def)

lemma sprintf_d_chars: "0 < k \<Longrightarrow> rule_chars (sprintf_d k)"
  using dec_digits digit_rule_char by (auto simp: sprintf_d_def rule_chars_def)

lemma not_found_pad: "id_ok s \<Longrightarrow> not_found (pad s) = Some (pad s)"
  using rule_chars_NUL [of s] by (cases s) (auto simp: id_ok_def not_found_def pad_def)

definition row_events :: "(string \<times> string \<times> string) list \<Rightarrow> black_event list" where
  "row_events rows = map (\<lambda>(s, a, r). AddBlack s a r) rows"

lemma addrulefromdb_events: "addrulefromdb rows st = ofold trie_step (row_events rows) st"
  unfolding addrulefromdb_def row_events_def ofold_map
  by (rule ofold_cong) (auto split: prod.splits)

text \<open>C21: the black list refines a map from rules to ids.  From the rows of the database and after any history, together fewer than
  32768 additions and deletions, \<open>trie_chk_rule\<close> is defined and returns how many of its two
  tuples (user, action, first id) and (user, action, second id) match a rule in force, where
  \<open>*\<close> stands for a run up to the next space; the ids it stores are ids of such rules.\<close>

theorem black_list_refines:
  assumes "\<forall>ev\<in>set (row_events rows @ evs). black_event_ok ev" "length rows + length evs < 32768"
    and "id_ok u" "id_ok s" "id_ok r" "0 < act"
  shows "\<exists>st m uid rid p1 p2.
     (do { st0 \<leftarrow> init_trie_tree rows; ofold trie_step evs st0 }) = Some st \<and>
     fold black_step (row_events rows @ evs) (\<lambda>_. None, 0, 1) = (m, uid, rid) \<and>
     trie_chk_rule (pad u) (pad s) act (pad r) st =
       Some (of_bool (listed m (rule_string u (sprintf_d act) s)) +
             of_bool (listed m (rule_string u (sprintf_d act) r)), p1, p2, pad u, pad s, pad r) \<and>
     listed_id m (rule_string u (sprintf_d act) s) p1 \<and> listed_id m (rule_string u (sprintf_d act) r) p2"
proof -
  let ?evs = "row_events rows @ evs"
  obtain m uid rid where bl: "fold black_step ?evs (\<lambda>_. None, 0, 1) = (m, uid, rid)"
    by (cases "fold black_step ?evs (\<lambda>_. None, 0, 1)")
  have len: "length ?evs < 32768" using assms(2) by (simp add: row_events_def)
  obtain st where "ofold trie_step ?evs \<lparr>trie_tree_root = Some new_node, global_pattern_id_for_userid = 0,
        global_pattern_id_for_resourceid = 1\<rparr> = Some st" and rel: "trie_rel (length ?evs) st (m, uid, rid)"
    using trie_steps_rel [OF trie_rel_init, of ?evs] assms(1) len bl by auto
  then have st: "(do { st0 \<leftarrow> init_trie_tree rows; ofold trie_step evs st0 }) = Some st"
    "trie_rel (length ?evs) st (m, uid, rid)"
    by (simp_all add: init_trie_tree_def addrulefromdb_events ofold_append)
  obtain t where root: "trie_tree_root st = Some t" using st(2) by (auto simp: trie_rel_def)
  have chars: "rule_chars (rule_string u (sprintf_d act) s)" "rule_chars (rule_string u (sprintf_d act) r)"
    using assms(3-6) sprintf_d_chars by (simp_all add: id_ok_def)
  obtain p1 where p1: "match_trie (rule_string u (sprintf_d act) s) st =
      Some (listed m (rule_string u (sprintf_d act) s), p1)" "listed_id m (rule_string u (sprintf_d act) s) p1"
    using trie_rel_match [OF st(2) len chars(1)] by auto
  obtain p2 where p2: "match_trie (rule_string u (sprintf_d act) r) st =
      Some (listed m (rule_string u (sprintf_d act) r), p2)" "listed_id m (rule_string u (sprintf_d act) r) p2"
    using trie_rel_match [OF st(2) len chars(2)] by auto
  have "buf_str (pad x) = Some x" if "id_ok x" for x
    using that rule_chars_NUL by (simp add: id_ok_def)
  then have "trie_chk_rule (pad u) (pad s) act (pad r) st =
       Some (of_bool (listed m (rule_string u (sprintf_d act) s)) +
             of_bool (listed m (rule_string u (sprintf_d act) r)), p1, p2, pad u, pad s, pad r)"
    using assms(3-6) p1(1) p2(1) root
    by (simp add: trie_chk_rule_def trie_chk_rule_one_def not_found_pad Let_def)
  then show ?thesis using st(1) bl p1(2) p2(2) by blast
qed

theorem black_list_refines_witness:
  "\<exists>st p1. (do { st0 \<leftarrow> init_trie_tree [(''12'', ''1'', ''*'')];
                ofold trie_step [AddBlack ''*'' ''1'' ''7''] st0 }) = Some st \<and>
     trie_chk_rule (pad ''12'') (pad ''5'') 1 (pad ''7'') st = Some (2, Some 0, p1, pad ''12'', pad ''5'', pad ''7'')"
proof -
  have rs: "rule_string ''12'' ''1'' ''*'' = ''12 1 *''" "rule_string ''*'' ''1'' ''7'' = ''* 1 7''"
    "rule_string ''12'' ''1'' ''5'' = ''12 1 5''" "rule_string ''12'' ''1'' ''7'' = ''12 1 7''"
    by (simp_all add: rule_string_def)
  let ?evs = "[AddBlack ''12'' ''1'' ''*'', AddBlack ''*'' ''1'' ''7'']"
  have "sprintf_d 1 = ''1''" by code_simp
  moreover have "fold black_step ?evs (\<lambda>_. None, 0, 1) = ([''12 1 *'' \<mapsto> 0, ''* 1 7'' \<mapsto> 1], 2, 3)"
    by (simp add: rs)
  moreover have "listed [''12 1 *'' \<mapsto> 0, ''* 1 7'' \<mapsto> 1] ''12 1 5''"
      "listed [''12 1 *'' \<mapsto> 0, ''* 1 7'' \<mapsto> 1] ''12 1 7''"
    by (auto simp: listed_def intro!: exI [of _ "''12 1 *''"])
  moreover have "listed_id [''12 1 *'' \<mapsto> 0, ''* 1 7'' \<mapsto> 1] ''12 1 5'' p \<Longrightarrow> p = Some 0" for p
    using \<open>listed _ ''12 1 5''\<close> by (auto simp: listed_id_def split: if_splits)
  moreover have "id_ok ''12''" "id_ok ''5''" "id_ok ''7''" "\<forall>ev\<in>set ?evs. black_event_ok ev"
    by (simp_all add: id_ok_def c2i_def less_eq_char_def)
  ultimately show ?thesis
    using black_list_refines [of "[(''12'', ''1'', ''*'')]" "[AddBlack ''*'' ''1'' ''7'']" "''12''" "''5''" "''7''" 1]
    by (auto simp: rs row_events_def)
qed

lemma insert_repeat:
  assumes "rule_chars (rule_string s a r)" "prefix ''*'' s \<or> prefix ''*'' r" "trie_tree_root st = Some t"
  shows "\<exists>st' t'. ofold trie_step (replicate n (AddBlack s a r)) st = Some st' \<and>
     trie_tree_root st' = Some t' \<and>
     (\<forall>w. w \<noteq> [] \<and> prefix w (rule_string s a r) \<longrightarrow> ref_at (Some t') w = ref_at (Some t) w + of_nat n) \<and>
     (\<forall>w. w \<noteq> rule_string s a r \<longrightarrow> pid_at (Some t') w = pid_at (Some t) w)"
  using assms(3)
proof (induction n arbitrary: st t)
  case 0
  then show ?case by simp
next
  case (Suc n)
  let ?w = "rule_string s a r"
  define pid where "pid = (if prefix ''*'' s then global_pattern_id_for_resourceid st
      else global_pattern_id_for_userid st)"
  obtain t1 where t1: "insert_pattern ?w pid t = Some t1" using insert_pattern_defined [OF assms(1)] by blast
  obtain st1 where st1: "trie_step (AddBlack s a r) st = Some st1" "trie_tree_root st1 = Some t1"
    using assms(2) Suc.prems t1
    by (cases "prefix ''*'' s")
       (auto simp: trie_add_rule_def sat_star insert_for_resourceid_def insert_for_userid_def pid_def Let_def)
  from Suc.IH [OF st1(2)] obtain st' t' where IH:
     "ofold trie_step (replicate n (AddBlack s a r)) st1 = Some st'" "trie_tree_root st' = Some t'"
     "\<And>w. w \<noteq> [] \<Longrightarrow> prefix w ?w \<Longrightarrow> ref_at (Some t') w = ref_at (Some t1) w + of_nat n"
     "\<And>w. w \<noteq> ?w \<Longrightarrow> pid_at (Some t') w = pid_at (Some t1) w" by blast
  then show ?case using st1(1) insert_pattern_tables [OF t1] by (intro exI [of _ st'] exI [of _ t']) simp
qed

text \<open>The counts are 16-bit.  A rule that is added 65536 times has a count that is 0 again,
  and the search treats it as absent.\<close>

lemma trie_count_wraps:
  assumes "rule_chars (rule_string s a r)" "prefix ''*'' s \<or> prefix ''*'' r" "rule_chars T"
  shows "\<exists>st. ofold trie_step (replicate 65536 (AddBlack s a r))
           \<lparr>trie_tree_root = Some new_node, global_pattern_id_for_userid = 0,
            global_pattern_id_for_resourceid = 1\<rparr> = Some st \<and>
         match_trie T st = Some (False, None)"
proof -
  let ?st0 = "\<lparr>trie_tree_root = Some new_node, global_pattern_id_for_userid = 0,
            global_pattern_id_for_resourceid = 1\<rparr>"
  let ?w = "rule_string s a r"
  obtain st t where st: "ofold trie_step (replicate 65536 (AddBlack s a r)) ?st0 = Some st"
    "trie_tree_root st = Some t"
    "\<And>w. w \<noteq> [] \<Longrightarrow> prefix w ?w \<Longrightarrow> ref_at (Some t) w = ref_at (Some new_node) w + of_nat 65536"
    "\<And>w. w \<noteq> ?w \<Longrightarrow> pid_at (Some t) w = pid_at (Some new_node) w"
    using insert_repeat [OF assms(1,2), of ?st0 new_node 65536] by auto
  have "?w \<noteq> []" by (simp add: rule_string_def)
  have "(of_nat 65536 :: 16 word) = 0" by simp
  then have "ref_at (Some t) ?w = 0" using st(3) [of ?w] \<open>?w \<noteq> []\<close> by simp
  then have "\<not> alive (Some t) ?w" using \<open>?w \<noteq> []\<close> by (auto simp: alive_def)
  then have "pid_at (Some t) u = -1" if "alive (Some t) u" for u
    using st(4) [of u] that by (cases "u = ?w") auto
  then have "hits (Some t) T = {}" by (auto simp: hits_def)
  then show ?thesis
    using match_node_spec [OF assms(3), of t "(False, None)"] st(1,2)
    by (auto simp: match_trie_def found_ok_def)
qed

lemma trie_count_wraps_witness:
  "\<exists>st. ofold trie_step (replicate 65536 (AddBlack ''12'' ''1'' ''*''))
     \<lparr>trie_tree_root = Some new_node, global_pattern_id_for_userid = 0,
      global_pattern_id_for_resourceid = 1\<rparr> = Some st \<and> match_trie ''12 1 5'' st = Some (False, None)"
  by (rule trie_count_wraps) (simp_all add: c2i_def less_eq_char_def)

text \<open>A request without a user id is looked up as \<open>NotFound\<close>, whose letters have no index
  among the 12 children: as soon as there is a rule, the lookup is undefined.\<close>

lemma missing_id_undefined:
  assumes "u_id \<noteq> []" "hd u_id = NUL" "act \<noteq> 0" "trie_tree_root st = Some t" "has_child (child t)"
  shows "trie_chk_rule u_id s_id act r_id st = None"
proof -
  have "trie_chk_rule_one u a x st = None" if "buf_str b = Some u" "not_found u_id = Some b" for u a x b
  proof -
    note asm = that
    obtain rest where b: "b = ''NotFound'' @ rest"
      using assms(1,2) asm(2) by (cases u_id) (auto simp: not_found_def memcpy_def split: if_splits)
    then have "\<exists>v. u = CHR ''N'' # v" using asm(1) by (auto simp: buf_str_def cstr_Cons split: if_splits)
    then obtain v where v: "rule_string u a x = CHR ''N'' # v" by (auto simp: rule_string_def)
    obtain r p ch where "t = Node r p ch" by (cases t)
    then show ?thesis using assms(4,5) v
      by (simp add: trie_chk_rule_one_def match_trie_def c2i_def less_eq_char_def)
  qed
  then show ?thesis using assms(3) by (auto simp: trie_chk_rule_def Let_def bind_None_iff)
qed

lemma missing_id_undefined_witness:
  "\<exists>t. has_child (child t) \<and>
     trie_chk_rule (replicate 256 NUL) (pad ''5'') 1 (pad ''7'')
       \<lparr>trie_tree_root = Some t, global_pattern_id_for_userid = 2, global_pattern_id_for_resourceid = 1\<rparr> = None"
proof -
  let ?t = "Node 1 (-1) ((\<lambda>_. None)(1 := Some new_node))"
  have "has_child (child ?t)" by (simp add: has_child_def list_ex_iff is_null_def new_node_def)
  then show ?thesis
    using missing_id_undefined [of "replicate 256 NUL" 1 "\<lparr>trie_tree_root = Some ?t, global_pattern_id_for_userid = 2,
      global_pattern_id_for_resourceid = 1\<rparr>" ?t] by fastforce
qed

text \<open>The printed characters are the inverse of the indices.\<close>

lemma c2i_i2c: "i < 12 \<Longrightarrow> \<exists>c. i2c i = Some c \<and> c2i c = Some i"
proof -
  assume "i < 12"
  then consider "i \<le> 9" | "i = 10" | "i = 11" by linarith
  then show ?thesis by cases (simp_all add: i2c_def c2i_def less_eq_char_def)
qed

end
