(* ===== verification/Log.thy ===== *)
theory Log
  imports Hash
begin

text \<open>
  \<^verbatim>\<open>log-wxy.c\<close>: the log record and the line that is sent to the log server.  The fields
  are the fixed-size buffers of the struct; the clock is an argument, and the socket is left out:
  \<open>sendlog\<close> returns the port and the bytes.
\<close>

section \<open>The record\<close>

record connection_info =
  user_id :: "char list"   \<comment> \<open>\<open>char[20]\<close>\<close>
  s_id :: "char list"      \<comment> \<open>\<open>char[20]\<close>\<close>
  p_type :: int
  r_id :: "char list"      \<comment> \<open>\<open>char[52]\<close>\<close>
  comment :: "char list"   \<comment> \<open>\<open>char[10000]\<close>\<close>
  c_url :: "char list"     \<comment> \<open>\<open>char[512]\<close>\<close>

record location_tuple =
  serverport :: "16 word"
  serverip :: "32 word"
  clientport :: "16 word"
  clientip :: "32 word"

record loginfo =
  configid :: int
  logtime :: "char list"        \<comment> \<open>\<open>char[25]\<close>\<close>
  processorid :: int
  website :: "char list"        \<comment> \<open>\<open>char[7]\<close>\<close>
  log_serverport :: "16 word"
  log_clientport :: "16 word"
  log_serverip :: "char list"   \<comment> \<open>\<open>char[32]\<close>\<close>
  log_clientip :: "char list"   \<comment> \<open>\<open>char[32]\<close>\<close>
  actiontype :: int
  userID :: "char list"         \<comment> \<open>\<open>char[20]\<close>\<close>
  resourceID :: "char list"     \<comment> \<open>\<open>char[20]\<close>\<close>
  originUID :: "char list"      \<comment> \<open>\<open>char[20]\<close>\<close>
  originRID :: "char list"      \<comment> \<open>\<open>char[20]\<close>\<close>
  log_url :: "char list"        \<comment> \<open>\<open>char[512]\<close>\<close>
  log_keywords :: "char list"       \<comment> \<open>\<open>char[300]\<close>\<close>
  gk_type :: int
  fulltext :: "char list"       \<comment> \<open>\<open>char[1000]\<close>\<close>

definition bzero_log :: loginfo where
  "bzero_log = \<lparr>configid = 0, logtime = replicate 25 NUL, processorid = 0, website = replicate 7 NUL,
     log_serverport = 0, log_clientport = 0, log_serverip = replicate 32 NUL,
     log_clientip = replicate 32 NUL, actiontype = 0, userID = replicate 20 NUL,
     resourceID = replicate 20 NUL, originUID = replicate 20 NUL, originRID = replicate 20 NUL,
     log_url = replicate 512 NUL, log_keywords = replicate 300 NUL, gk_type = 0, fulltext = replicate 1000 NUL\<rparr>"

section \<open>The time\<close>

record tm =
  tm_year :: nat   \<comment> \<open>since 1900\<close>
  tm_mon :: nat    \<comment> \<open>from 0\<close>
  tm_mday :: nat
  tm_hour :: nat
  tm_min :: nat
  tm_sec :: nat
  tv_usec :: nat

definition sprintf_at :: "nat \<Rightarrow> nat \<Rightarrow> char list \<Rightarrow> char list option" where
  \<comment> \<open>\<open>sprintf(buf + off, "%d", n)\<close>\<close>
  "sprintf_at off n buf = memcpy buf off (dec n @ [NUL])"

definition two_digits :: "nat \<Rightarrow> nat \<Rightarrow> char list \<Rightarrow> char list option" where
  "two_digits off n buf =
     (if n < 10 then do { buf1 \<leftarrow> sprintf_at (off + 1) n buf; Some (buf1[off := CHR ''0'']) }
      else sprintf_at off n buf)"

definition getlogtime :: "tm \<Rightarrow> loginfo \<Rightarrow> loginfo option" where
  "getlogtime now log = do {
     b \<leftarrow> sprintf_at 0 (tm_year now + 1900) (replicate 25 NUL);
     b \<leftarrow> two_digits 5 (tm_mon now + 1) b;
     b \<leftarrow> two_digits 8 (tm_mday now) b;
     b \<leftarrow> two_digits 11 (tm_hour now) b;
     b \<leftarrow> two_digits 14 (tm_min now) b;
     b \<leftarrow> two_digits 17 (tm_sec now) b;
     let b = b[4 := CHR ''-'', 7 := CHR ''-'', 10 := CHR '' '', 13 := CHR '':'', 16 := CHR '':'',
               19 := CHR ''.''];
     b \<leftarrow> sprintf_at 20 (tv_usec now div 100000) b;
     b \<leftarrow> sprintf_at 21 (tv_usec now mod 100000 div 10000) b;
     b \<leftarrow> sprintf_at 22 (tv_usec now mod 10000 div 1000) b;
     s \<leftarrow> buf_str b;
     t \<leftarrow> memcpy (logtime log) 0 s;
     Some (log\<lparr>logtime := t\<rparr>) }"

section \<open>Filling the record\<close>

definition PROCESSORID :: int where "PROCESSORID = 43"
definition WEBSITE :: string where "WEBSITE = ''renren''"
definition LOGPORT :: nat where "LOGPORT = 8888"
definition LOGPORT2 :: nat where "LOGPORT2 = 8889"

definition initlog :: "tm \<Rightarrow> location_tuple \<Rightarrow> loginfo option" where
  "initlog now lt = do {
     log \<leftarrow> getlogtime now bzero_log;
     w \<leftarrow> memcpy (website log) 0 WEBSITE;
     s \<leftarrow> memcpy (replicate 32 NUL) 0 (int_ntoa (serverip lt) @ [NUL]);
     c \<leftarrow> memcpy (replicate 32 NUL) 0 (int_ntoa (clientip lt) @ [NUL]);
     Some (log\<lparr>processorid := PROCESSORID, website := w, log_serverport := serverport lt,
               log_serverip := s, log_clientport := clientport lt, log_clientip := c\<rparr>) }"

definition log_set_full_text :: "string \<Rightarrow> loginfo \<Rightarrow> loginfo option" where
  "log_set_full_text s log = do { t \<leftarrow> memcpy (fulltext log) 0 s; Some (log\<lparr>fulltext := t\<rparr>) }"

definition log_addsocialinfo :: "connection_info \<Rightarrow> loginfo \<Rightarrow> loginfo option" where
  "log_addsocialinfo c_info log = do {
     u \<leftarrow> buf_str (user_id c_info);
     r \<leftarrow> buf_str (r_id c_info);
     o1 \<leftarrow> buf_str (s_id c_info);
     f \<leftarrow> buf_str (comment c_info);
     u1 \<leftarrow> memcpy (userID log) 0 u;
     r1 \<leftarrow> memcpy (resourceID log) 0 r;
     o2 \<leftarrow> memcpy (originUID log) 0 o1;
     log_set_full_text f (log\<lparr>actiontype := p_type c_info, userID := u1, resourceID := r1,
                               originUID := o2\<rparr>) }"

definition log_addkeyword :: "string \<Rightarrow> loginfo \<Rightarrow> loginfo option" where
  \<comment> \<open>\<open>strcat(log->keywords, kw)\<close>\<close>
  "log_addkeyword kw log = do {
     k \<leftarrow> buf_str (log_keywords log);
     k1 \<leftarrow> memcpy (log_keywords log) (length k) (kw @ [NUL]);
     Some (log\<lparr>log_keywords := k1\<rparr>) }"

definition log_addkeywords :: "char list list \<Rightarrow> loginfo \<Rightarrow> loginfo option" where
  "log_addkeywords kws log =
     ofold (\<lambda>kw log. do {
       s \<leftarrow> buf_str kw;
       log1 \<leftarrow> log_addkeyword s log;
       log_addkeyword ''&'' log1 }) kws log"

definition log_set_gk_type :: "int \<Rightarrow> loginfo \<Rightarrow> loginfo" where
  "log_set_gk_type t log = log\<lparr>gk_type := t\<rparr>"

section \<open>The line\<close>

definition log_fields :: "loginfo \<Rightarrow> string list option" where
  \<comment> \<open>the arguments of the \<open>sprintf\<close>s of \<open>sendlog\<close>\<close>
  "log_fields log = do {
     t \<leftarrow> buf_str (logtime log);
     w \<leftarrow> buf_str (website log);
     si \<leftarrow> buf_str (log_serverip log);
     ci \<leftarrow> buf_str (log_clientip log);
     u \<leftarrow> buf_str (userID log);
     r \<leftarrow> buf_str (resourceID log);
     ou \<leftarrow> buf_str (originUID log);
     oR \<leftarrow> buf_str (originRID log);
     k \<leftarrow> buf_str (log_keywords log);
     f \<leftarrow> buf_str (fulltext log);
     Some [t, sprintf_d (processorid log), w, si, dec (unat (log_serverport log)), ci,
           dec (unat (log_clientport log)), sprintf_d (actiontype log), u, r, ou, oR, k,
           sprintf_d (gk_type log), f, ''end''] }"

definition sendlog :: "loginfo \<Rightarrow> int \<Rightarrow> (nat \<times> string) option" where
  \<comment> \<open>\<open>buf\<close> has 1200 bytes, of which the last two must stay zero for the newline and the terminator\<close>
  "sendlog log monitor = do {
     fs \<leftarrow> log_fields log;
     let buf = concat (map (\<lambda>f. f @ ''|'') fs);
     if length buf \<le> 1198
     then Some (if monitor > 0 then LOGPORT2 else LOGPORT, buf @ [CHR 0x0A]) else None }"

section \<open>Zero-filled buffers\<close>

definition zpad :: "nat \<Rightarrow> string \<Rightarrow> char list" where
  \<comment> \<open>a string in a zeroed buffer of \<open>n\<close> bytes\<close>
  "zpad n s = s @ replicate (n - length s) NUL"

lemma zpad_Nil: "zpad n [] = replicate n NUL"
  by (simp add: zpad_def)

lemma buf_str_zpad [simp]: "NUL \<notin> set s \<Longrightarrow> length s < n \<Longrightarrow> buf_str (zpad n s) = Some s"
  by (simp add: zpad_def)

lemma length_zpad [simp]: "length s \<le> n \<Longrightarrow> length (zpad n s) = n"
  by (simp add: zpad_def)

lemma memcpy_zeroed [simp]:
  "memcpy (replicate n NUL) 0 s = (if length s \<le> n then Some (zpad n s) else None)"
  by (simp add: zpad_def memcpy_def)

lemma zpad_terminated [simp]: "length s < n \<Longrightarrow> zpad n (s @ [NUL]) = zpad n s"
  by (simp add: zpad_def Suc_diff_Suc flip: replicate_Suc)

lemma strcat_zpad [simp]:
  assumes "length s + length t < n"
  shows "memcpy (zpad n s) (length s) (t @ [NUL]) = Some (zpad n (s @ t))"
proof -
  have "n - length s - Suc (length t) + 1 = n - (length s + length t)" using assms by simp
  then have "replicate (n - (length s + length t)) NUL = NUL # replicate (n - length s - Suc (length t)) NUL"
    by (metis Suc_eq_plus1 replicate_Suc)
  then show ?thesis using assms by (simp add: zpad_def)
qed

section \<open>The time stamp\<close>

definition dec2 :: "nat \<Rightarrow> string" where
  "dec2 n = (if n < 10 then CHR ''0'' # dec n else dec n)"

definition tm_ok :: "tm \<Rightarrow> bool" where
  "tm_ok now \<longleftrightarrow> tm_year now \<le> 8099 \<and> tm_mon now < 12 \<and> tm_mday now \<le> 31 \<and> tm_hour now < 24 \<and>
     tm_min now < 60 \<and> tm_sec now \<le> 60 \<and> tv_usec now < 1000000"

definition time_stamp :: "tm \<Rightarrow> string" where
  "time_stamp now = dec (tm_year now + 1900) @ ''-'' @ dec2 (tm_mon now + 1) @ ''-'' @ dec2 (tm_mday now) @
     '' '' @ dec2 (tm_hour now) @ '':'' @ dec2 (tm_min now) @ '':'' @ dec2 (tm_sec now) @ ''.'' @
     dec (tv_usec now div 100000) @ dec (tv_usec now mod 100000 div 10000) @ dec (tv_usec now mod 10000 div 1000)"

lemma dec_one: "n < 10 \<Longrightarrow> \<exists>c. dec n = [c] \<and> is_digit c"
  using dec_digits [of _ n] by (auto simp: dec.simps)

lemma dec_two: "10 \<le> n \<Longrightarrow> n < 100 \<Longrightarrow> \<exists>c d. dec n = [c, d] \<and> is_digit c \<and> is_digit d"
proof -
  assume "10 \<le> n" "n < 100"
  then have "dec n = [char_of (48 + n div 10), char_of (48 + n mod 10)]"
    by (subst dec.simps, subst dec.simps) auto
  then show ?thesis using dec_digits [of _ n] by auto
qed

lemma dec_four: "1000 \<le> n \<Longrightarrow> n < 10000 \<Longrightarrow> \<exists>a b c d. dec n = [a, b, c, d] \<and> list_all is_digit [a, b, c, d]"
proof -
  assume n: "1000 \<le> n" "n < 10000"
  obtain a b where ab: "dec (n div 100) = [a, b]" using dec_two [of "n div 100"] n by fastforce
  have "dec n = dec (n div 100) @ [char_of (48 + n div 10 mod 10), char_of (48 + n mod 10)]"
    using n by (subst dec.simps, subst dec.simps) (auto simp: div_mult2_eq [symmetric])
  then show ?thesis using ab dec_digits [of _ n] by (auto simp: list_all_iff)
qed

lemma dec2_two: "n < 100 \<Longrightarrow> \<exists>c d. dec2 n = [c, d] \<and> is_digit c \<and> is_digit d"
  using dec_one [of n] dec_two [of n] by (auto simp: dec2_def is_digit_def less_eq_char_def)

lemma two_digits_write:
  assumes "n < 100" "length xs = off"
  shows "\<exists>x y. dec2 n = [x, y] \<and> two_digits off n (xs @ a # b # c # ys) = Some (xs @ x # y # NUL # ys)"
proof (cases "n < 10")
  case True
  then show ?thesis using dec_one [OF True] assms
    by (auto simp: two_digits_def sprintf_at_def dec2_def list_update_append memcpy_def)
next
  case False
  then show ?thesis using dec_two [of n] assms
    by (auto simp: two_digits_def sprintf_at_def dec2_def memcpy_def)
qed

lemma not_digit_NUL: "\<not> is_digit NUL"
  by (simp add: is_digit_def less_eq_char_def)

lemma getlogtime_stamp:
  assumes "tm_ok now" "logtime log = replicate 25 NUL"
  shows "getlogtime now log = Some (log\<lparr>logtime := zpad 25 (time_stamp now)\<rparr>)"
    and "length (time_stamp now) = 23" and "NUL \<notin> set (time_stamp now)"
proof -
  have "1000 \<le> tm_year now + 1900" "tm_year now + 1900 < 10000" using assms(1) by (auto simp: tm_ok_def)
  from dec_four [OF this] obtain y1 y2 y3 y4
    where y: "dec (tm_year now + 1900) = [y1, y2, y3, y4]" "list_all is_digit [y1, y2, y3, y4]" by blast
  have lt: "tm_mon now + 1 < 100" "tm_mday now < 100" "tm_hour now < 100" "tm_min now < 100" "tm_sec now < 100"
    using assms(1) by (auto simp: tm_ok_def)
  obtain m1 m2 where m: "dec2 (tm_mon now + 1) = [m1, m2]" "is_digit m1" "is_digit m2"
    using dec2_two [OF lt(1)] by blast
  obtain d1 d2 where d: "dec2 (tm_mday now) = [d1, d2]" "is_digit d1" "is_digit d2"
    using dec2_two [OF lt(2)] by blast
  obtain h1 h2 where h: "dec2 (tm_hour now) = [h1, h2]" "is_digit h1" "is_digit h2"
    using dec2_two [OF lt(3)] by blast
  obtain i1 i2 where i: "dec2 (tm_min now) = [i1, i2]" "is_digit i1" "is_digit i2"
    using dec2_two [OF lt(4)] by blast
  obtain s1 s2 where s: "dec2 (tm_sec now) = [s1, s2]" "is_digit s1" "is_digit s2"
    using dec2_two [OF lt(5)] by blast
  note t = m(1) d(1) h(1) i(1) s(1)
  have ul: "tv_usec now div 100000 < 10" "tv_usec now mod 100000 div 10000 < 10"
    "tv_usec now mod 10000 div 1000 < 10"
    using assms(1) by (auto simp: tm_ok_def)
  obtain u1 where u1: "dec (tv_usec now div 100000) = [u1]" "is_digit u1"
    using dec_one [OF ul(1)] by blast
  obtain u2 where u2: "dec (tv_usec now mod 100000 div 10000) = [u2]" "is_digit u2"
    using dec_one [OF ul(2)] by blast
  obtain u3 where u3: "dec (tv_usec now mod 10000 div 1000) = [u3]" "is_digit u3"
    using dec_one [OF ul(3)] by blast
  note u = u1(1) u2(1) u3(1)
  have stamp: "time_stamp now = [y1, y2, y3, y4, CHR ''-'', m1, m2, CHR ''-'', d1, d2, CHR '' '', h1, h2, CHR '':'',
      i1, i2, CHR '':'', s1, s2, CHR ''.'', u1, u2, u3]"
    using y t u by (simp add: time_stamp_def)
  show nn: "NUL \<notin> set (time_stamp now)"
    unfolding stamp using y(2) m(2,3) d(2,3) h(2,3) i(2,3) s(2,3) u1(2) u2(2) u3(2) by (auto simp: not_digit_NUL)
  show len: "length (time_stamp now) = 23" by (simp add: stamp)
  have z: "replicate 25 NUL = [NUL, NUL, NUL, NUL, NUL, NUL, NUL, NUL, NUL, NUL, NUL, NUL, NUL, NUL, NUL, NUL,
     NUL, NUL, NUL, NUL, NUL, NUL, NUL, NUL, NUL]"
    by (simp add: eval_nat_numeral)
  have w: "two_digits off n b = Some (take off b @ [p, q, NUL] @ drop (off + 3) b)"
    if "dec2 n = [p, q]" "n < 100" "off + 3 \<le> length b" for off n b p q
  proof -
    have "drop off b = b ! off # b ! (off + 1) # b ! (off + 2) # drop (off + 3) b"
      using that(3) by (simp add: Cons_nth_drop_Suc numeral_2_eq_2 numeral_3_eq_3)
    then have b: "b = take off b @ b ! off # b ! (off + 1) # b ! (off + 2) # drop (off + 3) b"
      using append_take_drop_id [of off b] by simp
    have "length (take off b) = off" using that(3) by simp
    from two_digits_write [OF that(2) this, of "b ! off" "b ! (off + 1)" "b ! (off + 2)" "drop (off + 3) b", folded b]
    show ?thesis using that(1) by auto
  qed
  have 0: "sprintf_at 0 (tm_year now + 1900) (replicate 25 NUL) =
     Some [y1, y2, y3, y4, NUL, NUL, NUL, NUL, NUL, NUL, NUL, NUL, NUL, NUL, NUL, NUL, NUL, NUL, NUL, NUL, NUL, NUL, NUL, NUL, NUL]"
    unfolding z by (simp add: sprintf_at_def memcpy_def y(1))
  have 1: "two_digits 5 (tm_mon now + 1)
       [y1, y2, y3, y4, NUL, NUL, NUL, NUL, NUL, NUL, NUL, NUL, NUL, NUL, NUL, NUL, NUL, NUL, NUL, NUL, NUL, NUL, NUL, NUL, NUL] =
     Some [y1, y2, y3, y4, NUL, m1, m2, NUL, NUL, NUL, NUL, NUL, NUL, NUL, NUL, NUL, NUL, NUL, NUL, NUL, NUL, NUL, NUL, NUL, NUL]"
    by (subst w [OF t(1) lt(1)]) simp_all
  have 2: "two_digits 8 (tm_mday now)
       [y1, y2, y3, y4, NUL, m1, m2, NUL, NUL, NUL, NUL, NUL, NUL, NUL, NUL, NUL, NUL, NUL, NUL, NUL, NUL, NUL, NUL, NUL, NUL] =
     Some [y1, y2, y3, y4, NUL, m1, m2, NUL, d1, d2, NUL, NUL, NUL, NUL, NUL, NUL, NUL, NUL, NUL, NUL, NUL, NUL, NUL, NUL, NUL]"
    by (subst w [OF t(2) lt(2)]) simp_all
  have 3: "two_digits 11 (tm_hour now)
       [y1, y2, y3, y4, NUL, m1, m2, NUL, d1, d2, NUL, NUL, NUL, NUL, NUL, NUL, NUL, NUL, NUL, NUL, NUL, NUL, NUL, NUL, NUL] =
     Some [y1, y2, y3, y4, NUL, m1, m2, NUL, d1, d2, NUL, h1, h2, NUL, NUL, NUL, NUL, NUL, NUL, NUL, NUL, NUL, NUL, NUL, NUL]"
    by (subst w [OF t(3) lt(3)]) simp_all
  have 4: "two_digits 14 (tm_min now)
       [y1, y2, y3, y4, NUL, m1, m2, NUL, d1, d2, NUL, h1, h2, NUL, NUL, NUL, NUL, NUL, NUL, NUL, NUL, NUL, NUL, NUL, NUL] =
     Some [y1, y2, y3, y4, NUL, m1, m2, NUL, d1, d2, NUL, h1, h2, NUL, i1, i2, NUL, NUL, NUL, NUL, NUL, NUL, NUL, NUL, NUL]"
    by (subst w [OF t(4) lt(4)]) simp_all
  have 5: "two_digits 17 (tm_sec now)
       [y1, y2, y3, y4, NUL, m1, m2, NUL, d1, d2, NUL, h1, h2, NUL, i1, i2, NUL, NUL, NUL, NUL, NUL, NUL, NUL, NUL, NUL] =
     Some [y1, y2, y3, y4, NUL, m1, m2, NUL, d1, d2, NUL, h1, h2, NUL, i1, i2, NUL, s1, s2, NUL, NUL, NUL, NUL, NUL, NUL]"
    by (subst w [OF t(5) lt(5)]) simp_all
  let ?b = "[y1, y2, y3, y4, CHR ''-'', m1, m2, CHR ''-'', d1, d2, CHR '' '', h1, h2, CHR '':'', i1, i2, CHR '':'', s1, s2, CHR ''.'', NUL, NUL, NUL, NUL, NUL]"
  have 6: "[y1, y2, y3, y4, NUL, m1, m2, NUL, d1, d2, NUL, h1, h2, NUL, i1, i2, NUL, s1, s2, NUL, NUL, NUL, NUL, NUL, NUL]
      [4 := CHR ''-'', 7 := CHR ''-'', 10 := CHR '' '', 13 := CHR '':'', 16 := CHR '':'', 19 := CHR ''.''] = ?b"
    by simp
  have 7: "sprintf_at 20 (tv_usec now div 100000)
       [y1, y2, y3, y4, CHR ''-'', m1, m2, CHR ''-'', d1, d2, CHR '' '', h1, h2, CHR '':'', i1, i2, CHR '':'', s1, s2, CHR ''.'', NUL, NUL, NUL, NUL, NUL] =
     Some [y1, y2, y3, y4, CHR ''-'', m1, m2, CHR ''-'', d1, d2, CHR '' '', h1, h2, CHR '':'', i1, i2, CHR '':'', s1, s2, CHR ''.'', u1, NUL, NUL, NUL, NUL]"
    by (simp add: sprintf_at_def memcpy_def u)
  have 8: "sprintf_at 21 (tv_usec now mod 100000 div 10000)
       [y1, y2, y3, y4, CHR ''-'', m1, m2, CHR ''-'', d1, d2, CHR '' '', h1, h2, CHR '':'', i1, i2, CHR '':'', s1, s2, CHR ''.'', u1, NUL, NUL, NUL, NUL] =
     Some [y1, y2, y3, y4, CHR ''-'', m1, m2, CHR ''-'', d1, d2, CHR '' '', h1, h2, CHR '':'', i1, i2, CHR '':'', s1, s2, CHR ''.'', u1, u2, NUL, NUL, NUL]"
    by (simp add: sprintf_at_def memcpy_def u)
  have 9: "sprintf_at 22 (tv_usec now mod 10000 div 1000)
       [y1, y2, y3, y4, CHR ''-'', m1, m2, CHR ''-'', d1, d2, CHR '' '', h1, h2, CHR '':'', i1, i2, CHR '':'', s1, s2, CHR ''.'', u1, u2, NUL, NUL, NUL] =
     Some [y1, y2, y3, y4, CHR ''-'', m1, m2, CHR ''-'', d1, d2, CHR '' '', h1, h2, CHR '':'', i1, i2, CHR '':'', s1, s2, CHR ''.'', u1, u2, u3, NUL, NUL]"
    by (simp add: sprintf_at_def memcpy_def u)
  have 10: "buf_str [y1, y2, y3, y4, CHR ''-'', m1, m2, CHR ''-'', d1, d2, CHR '' '', h1, h2, CHR '':'', i1, i2, CHR '':'', s1, s2, CHR ''.'', u1, u2, u3, NUL, NUL] = Some (time_stamp now)"
    using buf_str_zpad [OF nn, of 25] len by (simp add: zpad_def) (simp add: stamp numeral_2_eq_2)
  have "getlogtime now log =
      (do { tt \<leftarrow> memcpy (logtime log) 0 (time_stamp now); Some (log\<lparr>logtime := tt\<rparr>) })"
    unfolding getlogtime_def Let_def by (simp only: 0 1 2 3 4 5 6 7 8 9 10 bind.bind_lunit)
  then show "getlogtime now log = Some (log\<lparr>logtime := zpad 25 (time_stamp now)\<rparr>)"
    using len assms(2) by (simp del: memcpy_Some)
qed

section \<open>Entries\<close>

text \<open>The record that holds given strings, and what the operations do to it.\<close>

definition log_entry ::
  "tm \<Rightarrow> location_tuple \<Rightarrow> int \<Rightarrow> string \<Rightarrow> string \<Rightarrow> string \<Rightarrow> string \<Rightarrow> int \<Rightarrow> string \<Rightarrow> loginfo" where
  "log_entry now lt act uid rid oid kws gk ft = bzero_log\<lparr>logtime := zpad 25 (time_stamp now),
     processorid := PROCESSORID, website := zpad 7 WEBSITE, log_serverport := serverport lt,
     log_serverip := zpad 32 (int_ntoa (serverip lt)), log_clientport := clientport lt,
     log_clientip := zpad 32 (int_ntoa (clientip lt)), actiontype := act, userID := zpad 20 uid,
     resourceID := zpad 20 rid, originUID := zpad 20 oid, log_keywords := zpad 300 kws,
     gk_type := gk, fulltext := zpad 1000 ft\<rparr>"

lemma dec_byte: "n < 256 \<Longrightarrow> length (dec n) \<le> 3"
proof (cases "n < 100")
  case True
  then show ?thesis using dec_one [of n] dec_two [of n] by fastforce
next
  case False
  assume "n < 256"
  then obtain c d where "dec (n div 10) = [c, d]" using dec_two [of "n div 10"] False by fastforce
  then show ?thesis using False by (subst dec.simps) simp
qed

lemma dec_no_NUL [simp]: "NUL \<notin> set (dec n)"
  using dec_digits not_digit_NUL by blast

lemma int_ntoa_short: "length (int_ntoa x) < 32" "NUL \<notin> set (int_ntoa x)"
proof -
  obtain a b c d where abcd: "le_bytes32 x = [a, b, c, d]"
    by (simp add: le_bytes32_def upt_rec numeral_eq_Suc)
  have "length (dec (unat (y :: 8 word))) \<le> 3" for y
    using unsigned_less [of y, where ?'a = nat] by (intro dec_byte) simp
  from this [of a] this [of b] this [of c] this [of d] show "length (int_ntoa x) < 32"
    by (simp add: int_ntoa_def abcd)
  show "NUL \<notin> set (int_ntoa x)" by (simp add: int_ntoa_def abcd)
qed

lemma initlog_entry:
  assumes "tm_ok now"
  shows "initlog now lt = Some (log_entry now lt 0 [] [] [] [] 0 [])"
proof -
  have 0: "logtime bzero_log = replicate 25 NUL" by (simp add: bzero_log_def)
  show ?thesis
    using int_ntoa_short(1) [of "serverip lt"] int_ntoa_short(1) [of "clientip lt"]
    unfolding initlog_def getlogtime_stamp(1) [OF assms 0]
    by (simp add: log_entry_def bzero_log_def zpad_Nil WEBSITE_def del: memcpy_Some)
qed

lemma log_set_gk_type_entry [simp]:
  "log_set_gk_type t (log_entry now lt act uid rid oid kws gk ft) = log_entry now lt act uid rid oid kws t ft"
  by (simp add: log_set_gk_type_def log_entry_def)

lemma log_addkeyword_entry:
  assumes "NUL \<notin> set kws" "length kws < 300"
  shows "log_addkeyword kw (log_entry now lt act uid rid oid kws gk ft) =
    (if length kws + length kw < 300 then Some (log_entry now lt act uid rid oid (kws @ kw) gk ft)
     else None)"
  using assms by (simp add: log_addkeyword_def log_entry_def bzero_log_def del: memcpy_Some)

lemma log_set_full_text_entry:
  "log_set_full_text s (log_entry now lt act uid rid oid kws gk []) =
    (if length s \<le> 1000 then Some (log_entry now lt act uid rid oid kws gk s) else None)"
  by (simp add: log_set_full_text_def log_entry_def bzero_log_def zpad_Nil del: memcpy_Some)

lemma log_set_full_text_again:
  "length s \<le> 1000 \<Longrightarrow>
   log_set_full_text s (log_entry now lt act uid rid oid kws gk s) = Some (log_entry now lt act uid rid oid kws gk s)"
  by (simp add: log_set_full_text_def log_entry_def bzero_log_def zpad_def)

definition c_info_ok :: "connection_info \<Rightarrow> bool" where
  "c_info_ok c \<longleftrightarrow> NUL \<in> set (user_id c) \<and> length (user_id c) = 20 \<and> NUL \<in> set (s_id c) \<and> length (s_id c) = 20 \<and>
     NUL \<in> set (r_id c) \<and> length (r_id c) = 52 \<and> NUL \<in> set (comment c) \<and> length (comment c) = 10000 \<and>
     NUL \<in> set (c_url c) \<and> length (c_url c) = 512"

lemma cstr_less: "NUL \<in> set b \<Longrightarrow> length (cstr b) < length b"
  unfolding cstr_def by (induction b) auto

lemma log_addsocialinfo_entry:
  assumes "c_info_ok c"
  shows "log_addsocialinfo c (log_entry now lt 0 [] [] [] kws gk []) =
    (if length (cstr (r_id c)) \<le> 20 \<and> length (cstr (comment c)) \<le> 1000
     then Some (log_entry now lt (p_type c) (cstr (user_id c)) (cstr (r_id c)) (cstr (s_id c)) kws gk (cstr (comment c)))
     else None)"
proof -
  have "length (cstr (user_id c)) < 20" "length (cstr (s_id c)) < 20"
    using assms cstr_less [of "user_id c"] cstr_less [of "s_id c"] by (auto simp: c_info_ok_def)
  moreover have "buf_str (user_id c) = Some (cstr (user_id c))" "buf_str (s_id c) = Some (cstr (s_id c))"
    "buf_str (r_id c) = Some (cstr (r_id c))" "buf_str (comment c) = Some (cstr (comment c))"
    using assms by (simp_all add: c_info_ok_def buf_str_def)
  ultimately show ?thesis
    by (simp add: log_addsocialinfo_def log_entry_def bzero_log_def zpad_Nil log_set_full_text_def del: memcpy_Some)
qed

section \<open>Properties\<close>

fun split_on :: "char \<Rightarrow> string \<Rightarrow> string list" where
  "split_on d [] = [[]]"
| "split_on d (c # s) =
     (if c = d then [] # split_on d s
      else (case split_on d s of w # ws \<Rightarrow> (c # w) # ws | [] \<Rightarrow> [[c]]))"

lemma split_on_field: "d \<notin> set w \<Longrightarrow> split_on d (w @ d # s) = w # split_on d s"
  by (induction w) auto

lemma split_on_last: "d \<notin> set w \<Longrightarrow> split_on d w = [w]"
  by (induction w) auto

lemma split_on_fields:
  "\<forall>w\<in>set ws. d \<notin> set w \<Longrightarrow> d \<notin> set s \<Longrightarrow> split_on d (concat (map (\<lambda>w. w @ [d]) ws) @ s) = ws @ [s]"
  by (induction ws) (auto simp: split_on_field split_on_last)

lemma dec_no_bar [simp]: "CHR ''|'' \<notin> set (dec n)"
  using dec_digits [of "CHR ''|''"] by (auto simp: is_digit_def less_eq_char_def)

lemma sprintf_d_no_bar [simp]: "CHR ''|'' \<notin> set (sprintf_d k)"
  by (simp add: sprintf_d_def)

lemma int_ntoa_no_bar [simp]: "CHR ''|'' \<notin> set (int_ntoa x)"
proof -
  obtain a b c d where "le_bytes32 x = [a, b, c, d]"
    by (simp add: le_bytes32_def upt_rec numeral_eq_Suc)
  then show ?thesis by (simp add: int_ntoa_def)
qed

lemma time_stamp_no_bar [simp]: "CHR ''|'' \<notin> set (time_stamp now)"
  by (simp add: time_stamp_def dec2_def)

definition entry_fields ::
  "tm \<Rightarrow> location_tuple \<Rightarrow> int \<Rightarrow> string \<Rightarrow> string \<Rightarrow> string \<Rightarrow> string \<Rightarrow> int \<Rightarrow> string \<Rightarrow> string list" where
  "entry_fields now lt act uid rid oid kws gk ft =
     [time_stamp now, sprintf_d PROCESSORID, WEBSITE, int_ntoa (serverip lt),
       dec (unat (serverport lt)), int_ntoa (clientip lt), dec (unat (clientport lt)), sprintf_d act,
       uid, rid, oid, [], kws, sprintf_d gk, ft, ''end'']"

lemma log_fields_entry:
  assumes "tm_ok now" "NUL \<notin> set (uid @ rid @ oid @ kws @ ft)"
    "length uid < 20" "length rid < 20" "length oid < 20" "length kws < 300" "length ft < 1000"
  shows "log_fields (log_entry now lt act uid rid oid kws gk ft) =
     Some (entry_fields now lt act uid rid oid kws gk ft)"
  using assms getlogtime_stamp(2,3) [OF assms(1), of bzero_log] int_ntoa_short [of "serverip lt"]
    int_ntoa_short [of "clientip lt"]
  by (simp add: log_fields_def log_entry_def bzero_log_def WEBSITE_def entry_fields_def flip: zpad_Nil)

text \<open>C32: the log line can be read back. For an entry whose strings fit their fields, contain no
  \<open>|\<close> and make a line of at most 1198 bytes, the line that is sent ends with a newline and,
  split at \<open>|\<close>, gives the sixteen fields; it goes to the second port for monitored hits.\<close>

theorem sendlog_fields:
  assumes "tm_ok now" "NUL \<notin> set (uid @ rid @ oid @ kws @ ft)" "CHR ''|'' \<notin> set (uid @ rid @ oid @ kws @ ft)"
    "length uid < 20" "length rid < 20" "length oid < 20" "length kws < 300" "length ft < 1000"
    "length (concat (map (\<lambda>f. f @ ''|'') (entry_fields now lt act uid rid oid kws gk ft))) \<le> 1198"
  shows "\<exists>line. sendlog (log_entry now lt act uid rid oid kws gk ft) monitor =
       Some (if monitor > 0 then LOGPORT2 else LOGPORT, line) \<and>
     split_on (CHR ''|'') line = entry_fields now lt act uid rid oid kws gk ft @ [[CHR 0x0A]]"
proof -
  let ?fs = "entry_fields now lt act uid rid oid kws gk ft"
  have "\<forall>f\<in>set ?fs. CHR ''|'' \<notin> set f" using assms(3) by (simp add: WEBSITE_def entry_fields_def)
  from split_on_fields [OF this, of "[CHR 0x0A]"] show ?thesis
    using assms(9) by (simp add: sendlog_def log_fields_entry [OF assms(1,2,4-8)] Let_def)
qed

theorem sendlog_fields_witness:
  "\<exists>line. sendlog (log_entry \<lparr>tm_year = 115, tm_mon = 5, tm_mday = 8, tm_hour = 1, tm_min = 2, tm_sec = 3, tv_usec = 4000\<rparr>
         \<lparr>serverport = 80, serverip = 0, clientport = 1, clientip = 0\<rparr> 4 ''1'' ''2'' ''3'' ''kw'' 0 ''a kw'') 0 =
       Some (8888, line) \<and> split_on (CHR ''|'') line ! 14 = ''a kw''"
proof -
  let ?now = "\<lparr>tm_year = 115, tm_mon = 5, tm_mday = 8, tm_hour = 1, tm_min = 2, tm_sec = 3, tv_usec = 4000\<rparr>"
  let ?lt = "\<lparr>serverport = 80, serverip = 0, clientport = 1, clientip = 0\<rparr>"
  have ok: "tm_ok ?now" by (simp add: tm_ok_def)
  have d: "length (dec 0) = 1" "length (dec 1) = 1" "length (dec 4) = 1" "length (dec 43) = 2" "length (dec 80) = 2"
    by (simp_all add: dec.simps)
  have "length (concat (map (\<lambda>f. f @ ''|'') (entry_fields ?now ?lt 4 ''1'' ''2'' ''3'' ''kw'' 0 ''a kw''))) \<le> 1198"
    using getlogtime_stamp(2) [OF ok, of bzero_log] int_ntoa_short(1) [of 0] d
    by (simp add: entry_fields_def sprintf_d_def PROCESSORID_def WEBSITE_def bzero_log_def)
  from sendlog_fields [OF ok _ _ _ _ _ _ _ this, of 0] show ?thesis
    by (auto simp: entry_fields_def LOGPORT_def)
qed

end
