(* ===== verification/StreamLoop.thy ===== *)
theory StreamLoop
  imports StreamCache QueryTable Trie Log
begin

text \<open>
  \<^verbatim>\<open>loop-1831-wxy.c\<close>: the threads that poll the stream cache. Each pass over a head takes
  the client data behind the cursor \<open>temp_up\<close>, cuts it into HTTP requests, decides for each of
  them whether the stream is to be blocked, writes the log, and moves the cursor.

  A function that calls \<open>pthread_mutex_trylock\<close> has the outcome of that call as its first
  argument. \<open>processhttp\<close> (\<^verbatim>\<open>http_parse.c\<close>), which turns a request into a
  \<open>connection_info\<close> or the null pointer, is an argument, and so is the clock: \<open>now k\<close> is the
  time of the \<open>k\<close>-th log record of a decision.
\<close>

section \<open>The state of a head\<close>

definition check_gk :: "bool \<Rightarrow> int \<Rightarrow> (nat \<Rightarrow> int) \<Rightarrow> data_head \<Rightarrow> int \<times> data_head" where
  "check_gk got gk_method gks dh =
     (if \<not> got then (0, dh)
      else case a_tcp dh of
        None \<Rightarrow> (1, dh)
      | Some a \<Rightarrow>
          if gks a = gk_method then (1, dh)
          else if up dh = [] then (1, dh)
          else case temp_up dh of
            None \<Rightarrow> (0, dh\<lparr>temp_up := Some 0\<rparr>)
          | Some i \<Rightarrow> (if i = length (up dh) - 1 then 1 else 0, dh))"

definition set_gk :: "bool \<Rightarrow> int \<Rightarrow> data_head \<Rightarrow> (nat \<Rightarrow> int) \<Rightarrow> nat \<Rightarrow> int" where
  "set_gk got method dh gks =
     (if method \<noteq> 5 \<and> got then (case a_tcp dh of Some a \<Rightarrow> gks(a := method) | None \<Rightarrow> gks) else gks)"

fun advance :: "char list list \<Rightarrow> nat \<Rightarrow> nat \<Rightarrow> nat \<Rightarrow> nat option" where
  \<comment> \<open>\<open>while (NULL != pds_temp && len > sum)\<close> from the segment with index \<open>i\<close>\<close>
  "advance [] i n len = None"
| "advance (s # ss) i n len = (if n < len then advance ss (i + 1) (n + length s) len else Some i)"

definition update_dh :: "bool \<Rightarrow> string list \<Rightarrow> data_head \<Rightarrow> data_head option" where
  "update_dh got request dh =
     (if \<not> got \<or> a_tcp dh = None then Some dh
      else let len = sum_list (map length request);
               last_up = (if up dh = [] then None else Some (length (up dh) - 1))
           in case temp_up dh of
                None \<Rightarrow> Some (dh\<lparr>temp_up := last_up, offset_up := 0\<rparr>)
              | Some i \<Rightarrow>
                  if i < length (up dh)
                  then Some (dh\<lparr>temp_up := (case advance (drop i (up dh)) i 0 len of
                                  None \<Rightarrow> last_up | Some j \<Rightarrow> Some j), offset_up := 0\<rparr>)
                  else None)"

definition get_buffer ::
  "bool \<Rightarrow> (nat \<Rightarrow> tuple4) \<Rightarrow> data_head \<Rightarrow> location_tuple \<Rightarrow> (char list option \<times> location_tuple) option" where
  \<comment> \<open>the bytes before the final terminator\<close>
  "get_buffer got addr dh lt =
     (if \<not> got then Some (None, lt)
      else case a_tcp dh of
        None \<Rightarrow> Some (None, lt)
      | Some a \<Rightarrow> do {
          buffer \<leftarrow> (case temp_up dh of
             None \<Rightarrow> Some []
           | Some i \<Rightarrow>
               if i < length (up dh) \<and> offset_up dh \<le> length (up dh ! i)
               then Some (drop (offset_up dh) (up dh ! i) @ concat (drop (i + 1) (up dh))) else None);
          Some (Some buffer, \<lparr>serverport = dest (addr a), serverip = daddr (addr a),
                               clientport = source (addr a), clientip = saddr (addr a)\<rparr>) })"

section \<open>Cutting the buffer into requests\<close>

definition http_methods :: "string list" where
  \<comment> \<open>the alternatives of the regular expression \<open>regForHttp\<close> that \<open>init_ac\<close> compiles\<close>
  "http_methods = [''POST /'', ''GET /'', ''OPTIONS /'', ''HEAD /'', ''PUT /'', ''CONNECT /'', ''DELETE /'', ''TRACE /'']"

fun regexec :: "string \<Rightarrow> (nat \<times> nat) option" where
  \<comment> \<open>\<open>rm_so\<close> and \<open>rm_eo\<close> of the leftmost match; no two alternatives match at the same place\<close>
  "regexec s =
     (case List.find (\<lambda>m. prefix m s) http_methods of
        Some m \<Rightarrow> Some (0, length m)
      | None \<Rightarrow> (case s of [] \<Rightarrow> None | _ # s' \<Rightarrow> map_option (\<lambda>(so, eo). (so + 1, eo + 1)) (regexec s')))"

declare regexec.simps [simp del]

function ReN_loop ::
  "string \<Rightarrow> nat \<Rightarrow> int \<Rightarrow> nat \<Rightarrow> nat \<Rightarrow> int list \<Rightarrow> (nat \<times> int list) option" where
  \<comment> \<open>the loop of \<open>get_ReN\<close>; the arrays of its caller have 100 entries\<close>
  "ReN_loop buffer counter anchor so eo offset = (case regexec buffer of
     None \<Rightarrow> Some (counter, offset)
   | Some (so1, eo1) \<Rightarrow>
       if counter < 100 then
         (let anchor1 = anchor + (int eo - int so) + int so1;
              offset1 = offset[counter := offset ! counter + anchor1];
              rest = drop eo1 buffer
          in if eo1 \<noteq> length rest then ReN_loop rest (counter + 1) anchor1 so1 eo1 offset1
             else Some (counter + 1, offset1))
       else None)"
  by pat_completeness auto
termination
  by (relation "measure (\<lambda>(buffer, counter, anchor, so, eo, offset). 100 - counter)") auto

declare ReN_loop.simps [simp del]

definition get_ReN :: "string \<Rightarrow> int list \<Rightarrow> int list \<Rightarrow> (nat \<times> int list \<times> int list) option" where
  \<comment> \<open>the number of matches, \<open>offset\<close> and \<open>len\<close>\<close>
  "get_ReN buffer offset len = do {
     (counter, offset1) \<leftarrow> ReN_loop buffer 0 0 0 0 offset;
     if counter < 100
     then let offset2 = offset1[counter := int (length buffer)]
          in Some (counter, offset2,
                   map (\<lambda>i. offset2 ! (i + 1) - offset2 ! i) [0..<counter] @ drop counter len)
     else None }"

fun cut_requests :: "string \<Rightarrow> int \<Rightarrow> int list \<Rightarrow> string list option" where
  \<comment> \<open>\<open>memcpy(tmp, p, length)\<close> with \<open>p\<close> an index into the buffer\<close>
  "cut_requests buffer p [] = Some []"
| "cut_requests buffer p (l # ls) =
     (if 0 \<le> p \<and> 0 \<le> l \<and> p + l \<le> int (length buffer)
      then do { rest \<leftarrow> cut_requests buffer (p + l) ls;
                Some (take (nat l) (drop (nat p) buffer) # rest) }
      else None)"

definition get_request :: "string \<Rightarrow> string list option" where
  "get_request buffer = do {
     (request_number, request, len) \<leftarrow> get_ReN buffer (replicate 100 0) (replicate 100 0);
     if request_number = 0 then Some []
     else cut_requests buffer (request ! 0) (take request_number len) }"

section \<open>The decision\<close>

record rules_state =
  rs_matchers :: matchers
  rs_table :: query_table      \<comment> \<open>\<open>query_rule_table\<close>\<close>
  rs_table_N :: query_table    \<comment> \<open>\<open>query_rule_table_N\<close>\<close>
  rs_trie :: trie_state

type_synonym log_line = "nat \<times> string"   \<comment> \<open>the port and the line sent to it\<close>

definition rule_hit_log ::
  "tm \<Rightarrow> location_tuple \<Rightarrow> connection_info \<Rightarrow> int \<Rightarrow> int \<Rightarrow> query_table \<Rightarrow> nat \<Rightarrow> log_line option" where
  \<comment> \<open>the record for \<open>hit_rule_list[i]\<close>\<close>
  "rule_hit_log now lt c_info gtype monitor tbl index = do {
     log \<leftarrow> initlog now lt;
     log \<leftarrow> log_addsocialinfo c_info log;
     qe \<leftarrow> (if index < length tbl then tbl ! index else None);
     t \<leftarrow> buf_str (full_text qe);
     log \<leftarrow> log_addkeyword t (log_set_gk_type gtype log);
     f \<leftarrow> buf_str (comment c_info);
     log \<leftarrow> log_set_full_text f log;
     sendlog log monitor }"

fun send_hits ::
  "(nat \<Rightarrow> nat \<Rightarrow> log_line option) \<Rightarrow> nat \<Rightarrow> nat list \<Rightarrow> log_line list \<Rightarrow> log_line list option" where
  \<comment> \<open>one record per hit; \<open>k\<close> counts the records\<close>
  "send_hits f k [] out = Some out"
| "send_hits f k (i # idxs) out = do { l \<leftarrow> f k i; send_hits f (k + 1) idxs (out @ [l]) }"

definition url_hit_log ::
  "matchers \<Rightarrow> tm \<Rightarrow> location_tuple \<Rightarrow> connection_info \<Rightarrow> nat \<Rightarrow> log_line option" where
  \<comment> \<open>\<open>get_keywords\<close> writes into as many buffers as the URL dictionary has hits\<close>
  "url_hit_log m now lt c_info nhits = do {
     log \<leftarrow> initlog now lt;
     log \<leftarrow> log_addsocialinfo c_info log;
     u \<leftarrow> buf_str (c_url c_info);
     (n, kw) \<leftarrow> get_keywords m u (replicate nhits (replicate 256 NUL));
     log \<leftarrow> log_addkeywords kw (log_set_gk_type 3 log);
     k \<leftarrow> buf_str (log_keywords log);
     log \<leftarrow> (if k = [] then None
             else Some (log\<lparr>log_keywords := (log_keywords log)[length k - 1 := NUL]\<rparr>));
     log \<leftarrow> log_addkeyword u log;
     f \<leftarrow> buf_str (comment c_info);
     log \<leftarrow> log_set_full_text f log;
     sendlog log 0 }"

definition trie_hit_log ::
  "tm \<Rightarrow> location_tuple \<Rightarrow> connection_info \<Rightarrow> int \<Rightarrow> log_line option" where
  "trie_hit_log now lt c_info pattern1 = do {
     log \<leftarrow> initlog now lt;
     log \<leftarrow> log_addsocialinfo c_info log;
     let log = log_set_gk_type (if pattern1 \<noteq> -1 then if pattern1 mod 2 = 0 then 1 else 2 else 2) log;
     f \<leftarrow> buf_str (comment c_info);
     log \<leftarrow> log_set_full_text f log;
     sendlog log 0 }"

definition get_decision ::
  "(nat \<Rightarrow> tm) \<Rightarrow> connection_info option \<Rightarrow> location_tuple \<Rightarrow> rules_state \<Rightarrow>
   (int \<times> log_line list \<times> rules_state) option" where
  "get_decision now c_info_ptr lt rs = (case c_info_ptr of
     None \<Rightarrow> Some (-1, [], rs)
   | Some c_info \<Rightarrow> do {
       u \<leftarrow> buf_str (c_url c_info);
       n \<leftarrow> url_match (rs_matchers rs) u;
       let dr_url = (if p_type c_info = 13 then 0 else n);
       let dr_trie0 = (if p_type c_info = 13 then n else 0);
       c \<leftarrow> buf_str (comment c_info);
       (lr, tbl) \<leftarrow> logic_query_match (rs_matchers rs) (rs_table rs) c;
       (lr_N, tbl_N) \<leftarrow> logic_query_match_N (rs_matchers rs) (rs_table_N rs) c;
       (t, pattern1, pattern2, uid, sid, rid) \<leftarrow>
         trie_chk_rule (user_id c_info) (s_id c_info) (p_type c_info) (r_id c_info) (rs_trie rs);
       let dr_trie = int dr_trie0 + t;
       let rs1 = rs\<lparr>rs_table := tbl, rs_table_N := tbl_N\<rparr>;
       let c_info1 = c_info\<lparr>user_id := uid, s_id := sid, r_id := rid\<rparr>;
       (if dr_url = 0 \<and> lr = [] \<and> lr_N = [] \<and> dr_trie = 0 then Some (0, [], rs1)
        else if lr_N \<noteq> [] \<and> dr_url = 0 \<and> lr = [] \<and> dr_trie = 0 then do {
          out \<leftarrow> send_hits (\<lambda>k. rule_hit_log (now k) lt c_info1 4 (int (length lr_N)) tbl_N) 0 lr_N [];
          Some (0, out, rs1) }
        else do {
          out1 \<leftarrow> (if dr_url > 0
                   then do { l \<leftarrow> url_hit_log (rs_matchers rs) (now 0) lt c_info1 dr_url; Some [l] }
                   else Some []);
          out2 \<leftarrow> send_hits (\<lambda>k. rule_hit_log (now k) lt c_info1 0 0 tbl) (length out1) lr out1;
          out3 \<leftarrow> (if dr_trie > 0
                   then do { l \<leftarrow> trie_hit_log (now (length out2)) lt c_info1
                                (case pattern1 of Some p \<Rightarrow> p | None \<Rightarrow> -1);
                             Some (out2 @ [l]) }
                   else Some out2);
          Some (1, out3, rs1) }) })"

section \<open>One pass over a head\<close>

type_synonym http_parse = "string \<Rightarrow> connection_info option option"

fun decide_requests ::
  "(nat \<Rightarrow> tm) \<Rightarrow> http_parse \<Rightarrow> location_tuple \<Rightarrow> string list \<Rightarrow> rules_state \<Rightarrow>
   (bool \<times> log_line list \<times> rules_state) option" where
  \<comment> \<open>the loop over the requests, left at the first one to be blocked; \<open>isgk\<close> first\<close>
  "decide_requests now processhttp lt [] rs = Some (False, [], rs)"
| "decide_requests now processhttp lt (r # rest) rs = do {
     c_info \<leftarrow> processhttp r;
     (status, lines, rs1) \<leftarrow> get_decision now c_info lt rs;
     if status = 0 \<or> status = -1
     then do { (isgk, lines2, rs2) \<leftarrow> decide_requests (\<lambda>k. now (k + length lines)) processhttp lt rest rs1;
               Some (isgk, lines @ lines2, rs2) }
     else Some (True, lines, rs1) }"

record trylocks =
  lock_check :: bool
  lock_buffer :: bool
  lock_set :: bool
  lock_update :: bool

record loop_state =
  ls_cache :: "unit stream_state"
  ls_rules :: rules_state
  ls_sent :: "log_line list"

definition process_data_head ::
  "net_env \<Rightarrow> (nat \<Rightarrow> tm) \<Rightarrow> http_parse \<Rightarrow> int \<Rightarrow> trylocks \<Rightarrow> nat \<Rightarrow> nat \<Rightarrow> loop_state \<Rightarrow> loop_state option" where
  \<comment> \<open>the head with index \<open>i\<close> of the chain of bucket \<open>h\<close>; \<open>method\<close> is \<open>gk_method\<close>\<close>
  "process_data_head env now processhttp method locks h i ls =
     (let st = ls_cache ls;
          (skip, dh) = check_gk (lock_check locks) method (gk_state st) (cache st h ! i);
          st1 = set_head h i dh st
      in if skip \<noteq> 0 then Some (ls\<lparr>ls_cache := st1\<rparr>)
         else do {
           (buffer, lt) \<leftarrow> get_buffer (lock_buffer locks) (e_addr env) dh
              \<lparr>serverport = 0, serverip = 0, clientport = 0, clientip = 0\<rparr>;
           request \<leftarrow> (case buffer of None \<Rightarrow> Some [] | Some b \<Rightarrow> get_request (cstr (b @ [NUL])));
           (isgk, lines, rs) \<leftarrow> decide_requests now processhttp lt request (ls_rules ls);
           let ls1 = ls\<lparr>ls_rules := rs, ls_sent := ls_sent ls @ lines\<rparr>;
           (if isgk
            then Some (ls1\<lparr>ls_cache := st1\<lparr>gk_state := set_gk (lock_set locks) method dh (gk_state st1)\<rparr>\<rparr>)
            else do {
              dh2 \<leftarrow> update_dh (lock_update locks) request dh;
              Some (ls1\<lparr>ls_cache := set_head h i dh2 st1\<rparr>) }) })"

section \<open>The threads\<close>

definition THREAD_NUM :: nat where "THREAD_NUM = 3"

definition startidx :: "nat \<Rightarrow> nat" where
  "startidx index = index * (DATA_CACHE_TABLE_SIZE div THREAD_NUM)"

definition lastidx :: "nat \<Rightarrow> nat" where
  "lastidx index = (if index = THREAD_NUM - 1 then DATA_CACHE_TABLE_SIZE
     else (index + 1) * (DATA_CACHE_TABLE_SIZE div THREAD_NUM))"

definition next_bucket :: "nat \<Rightarrow> nat \<Rightarrow> nat" where
  \<comment> \<open>\<open>loopcount\<close> of the next round of thread \<open>index\<close>\<close>
  "next_bucket index loopcount =
     (if loopcount = lastidx index - 1 then startidx index else loopcount + 1)"

section \<open>Every bucket is polled\<close>

lemma thread_range: "index < THREAD_NUM \<Longrightarrow> startidx index < lastidx index"
  by (auto simp: startidx_def lastidx_def THREAD_NUM_def DATA_CACHE_TABLE_SIZE_def)

lemma loop_orbit:
  assumes "index < THREAD_NUM"
  shows "(next_bucket index ^^ k) (startidx index) = startidx index + k mod (lastidx index - startidx index)"
proof (induction k)
  case 0
  then show ?case by simp
next
  case (Suc k)
  let ?n = "lastidx index - startidx index"
  have n: "0 < ?n" using thread_range [OF assms] by simp
  then have "k mod ?n < ?n" by simp
  then show ?case
    using Suc.IH n by (auto simp: next_bucket_def mod_Suc)
qed

lemma bucket_thread:
  assumes "b < DATA_CACHE_TABLE_SIZE"
  shows "\<exists>t<THREAD_NUM. startidx t \<le> b \<and> b < lastidx t"
proof (intro exI conjI)
  let ?t = "if b < 33334 then 0 else if b < 66668 then 1 else (2 :: nat)"
  show "?t < THREAD_NUM" "startidx ?t \<le> b" "b < lastidx ?t"
    using assms by (auto simp: startidx_def lastidx_def THREAD_NUM_def DATA_CACHE_TABLE_SIZE_def)
qed

lemma thread_unique:
  assumes "t < THREAD_NUM" "u < THREAD_NUM" "startidx t \<le> b" "b < lastidx t" "startidx u \<le> b" "b < lastidx u"
  shows "t = u"
proof -
  have t: "t = 0 \<or> t = 1 \<or> t = 2" "u = 0 \<or> u = 1 \<or> u = 2" using assms(1,2) by (auto simp: THREAD_NUM_def)
  have r: "startidx 0 = 0" "lastidx 0 = 33334" "startidx 1 = 33334" "lastidx 1 = 66668" "startidx 2 = 66668"
    by (simp_all add: startidx_def lastidx_def THREAD_NUM_def DATA_CACHE_TABLE_SIZE_def)
  show ?thesis using t assms(3-6) by (elim disjE) (simp_all add: r [simplified])
qed

text \<open>C33: the threads share the work. Every bucket of the cache is polled by exactly one of the three
  threads, and that thread comes back to it again and again.\<close>

theorem loop_visits_every_bucket:
  assumes "b < DATA_CACHE_TABLE_SIZE"
  shows "\<exists>!t. t < THREAD_NUM \<and> (\<forall>n. \<exists>m\<ge>n. (next_bucket t ^^ m) (startidx t) = b)"
proof -
  obtain t where t: "t < THREAD_NUM" "startidx t \<le> b" "b < lastidx t" using bucket_thread [OF assms] by blast
  let ?n = "lastidx t - startidx t"
  have "\<exists>m\<ge>k. (next_bucket t ^^ m) (startidx t) = b" for k
  proof (intro exI conjI)
    have *: "0 < ?n" "b - startidx t < ?n" using t by auto
    have "(k * ?n + (b - startidx t)) mod ?n = b - startidx t" using *(2) by (metis mod_less mod_mult_self3)
    then show "(next_bucket t ^^ (k * ?n + (b - startidx t))) (startidx t) = b"
      using t(2) unfolding loop_orbit [OF t(1)] by linarith
    have "0 < ?n" using t by auto
    then show "k \<le> k * ?n + (b - startidx t)" by (metis mult_le_mono2 One_nat_def Suc_leI mult.right_neutral trans_le_add1)
  qed
  moreover have "u = t" if "u < THREAD_NUM" "\<exists>m. (next_bucket u ^^ m) (startidx u) = b" for u
  proof -
    have u: "u < THREAD_NUM" by (fact that(1))
    have *: "0 < lastidx u - startidx u" using thread_range [OF u] by simp
    obtain m where "b = startidx u + m mod (lastidx u - startidx u)" using \<open>\<exists>m. (next_bucket u ^^ m) (startidx u) = b\<close>
      by (auto simp: loop_orbit [OF u])
    moreover have "m mod (lastidx u - startidx u) < lastidx u - startidx u" using * by simp
    ultimately have "startidx u \<le> b" "b < lastidx u" by linarith+
    then show ?thesis using thread_unique [OF that(1) t(1)] t by blast
  qed
  ultimately show ?thesis using t(1) by blast
qed

theorem loop_visits_every_bucket_witness:
  "\<exists>!t. t < THREAD_NUM \<and> (\<forall>n. \<exists>m\<ge>n. (next_bucket t ^^ m) (startidx t) = 100002)"
  by (rule loop_visits_every_bucket) (simp add: DATA_CACHE_TABLE_SIZE_def)

section \<open>Requests\<close>

lemma regexec_Some:
  "regexec s = Some (so, eo) \<Longrightarrow>
     so < eo \<and> eo \<le> length s \<and> (\<exists>m\<in>set http_methods. prefix m (drop so s) \<and> eo = so + length m)"
proof (induction s arbitrary: so eo rule: regexec.induct)
  case (1 s)
  show ?case
  proof (cases "List.find (\<lambda>m. prefix m s) http_methods")
    case (Some m)
    then have "m \<in> set http_methods" "prefix m s" by (auto simp: find_Some_iff)
    moreover from this have "0 < length m" "length m \<le> length s" by (auto simp: http_methods_def prefix_length_le)
    ultimately show ?thesis using "1.prems" Some by (subst (asm) regexec.simps) auto
  next
    case None
    then obtain c s' where s: "s = c # s'" using "1.prems" by (subst (asm) regexec.simps) (auto split: list.splits)
    from "1.prems" None obtain so' eo' where r: "regexec s' = Some (so', eo')" "so = so' + 1" "eo = eo' + 1"
      by (subst (asm) regexec.simps) (auto simp: s)
    from "1.IH" [OF None s r(1)] show ?thesis using r s by auto
  qed
qed

lemma regexec_None: "regexec s = None \<longleftrightarrow> (\<forall>m\<in>set http_methods. \<not> sublist m s)"
proof (induction s rule: regexec.induct)
  case (1 s)
  show ?case
  proof (cases "List.find (\<lambda>m. prefix m s) http_methods")
    case (Some m)
    then have "m \<in> set http_methods" "prefix m s" by (auto simp: find_Some_iff)
    then show ?thesis using Some prefix_imp_sublist by (subst regexec.simps) auto
  next
    case None
    then have no: "\<forall>m\<in>set http_methods. \<not> prefix m s" by (auto simp: find_None_iff)
    show ?thesis
    proof (cases s)
      case Nil
      then show ?thesis using None no by (subst regexec.simps) auto
    next
      case (Cons c s')
      show ?thesis using "1.IH" [OF None Cons] no None Cons
        by (subst regexec.simps) (auto simp: sublist_Cons_right)
    qed
  qed
qed

text \<open>The places where the requests of a buffer start, and how many matches there are at most.\<close>

function http_count :: "string \<Rightarrow> nat" where
  "http_count s = (case regexec s of None \<Rightarrow> 0 | Some (so, eo) \<Rightarrow> Suc (http_count (drop eo s)))"
  by pat_completeness auto
termination
proof (relation "measure length", goal_cases)
  case (2 s x so eo)
  then have "0 < eo" "eo \<le> length s" using regexec_Some [of s so eo] by auto
  then show ?case by simp
qed simp

declare http_count.simps [simp del]

definition starts_ok :: "string \<Rightarrow> int list \<Rightarrow> bool" where
  \<comment> \<open>a method word at each place, in order\<close>
  "starts_ok b ps \<longleftrightarrow> (\<forall>i<length ps. 0 \<le> ps ! i \<and> ps ! i \<le> int (length b) \<and> (\<exists>m\<in>set http_methods. prefix m (drop (nat (ps ! i)) b) \<and>
      (Suc i < length ps \<longrightarrow> ps ! i + int (length m) \<le> ps ! Suc i)))"

lemma starts_ok_snoc:
  assumes "starts_ok b ps" "0 \<le> p" "m \<in> set http_methods" "prefix m (drop (nat p) b)"
    and "ps \<noteq> [] \<Longrightarrow> \<exists>m\<in>set http_methods. prefix m (drop (nat (last ps)) b) \<and> last ps + int (length m) \<le> p"
  shows "starts_ok b (ps @ [p])"
  unfolding starts_ok_def
proof (intro allI impI)
  fix i
  assume i: "i < length (ps @ [p])"
  have "m \<noteq> []" using assms(3) by (auto simp: http_methods_def)
  then have le: "p \<le> int (length b)" using assms(2,4) by (cases "nat p < length b") auto
  consider "Suc i < length ps" | "Suc i = length ps" | "i = length ps" using i by fastforce
  then show "0 \<le> (ps @ [p]) ! i \<and> (ps @ [p]) ! i \<le> int (length b) \<and>
      (\<exists>m\<in>set http_methods. prefix m (drop (nat ((ps @ [p]) ! i)) b) \<and>
        (Suc i < length (ps @ [p]) \<longrightarrow> (ps @ [p]) ! i + int (length m) \<le> (ps @ [p]) ! Suc i))"
  proof cases
    case 1
    then show ?thesis using assms(1) [unfolded starts_ok_def, rule_format, of i] by (auto simp: nth_append)
  next
    case 2
    then have "i = length ps - 1" "ps \<noteq> []" by auto
    then have "ps \<noteq> []" "last ps = ps ! i" by (simp_all add: last_conv_nth)
    then show ?thesis using assms(1) [unfolded starts_ok_def, rule_format, of i] assms(5) 2 by (auto simp: nth_append)
  next
    case 3
    then show ?thesis using assms(2-4) le by (auto simp: nth_append)
  qed
qed

lemma ReN_loop_starts:
  assumes "counter + http_count (drop pos b) < 100" "anchor + (int eo - int so) = int pos"
    and "length offset = 100" "\<forall>i. counter \<le> i \<longrightarrow> i < 100 \<longrightarrow> offset ! i = 0" "starts_ok b (take counter offset)"
    and "0 < counter \<Longrightarrow> \<exists>m\<in>set http_methods. prefix m (drop (nat (offset ! (counter - 1))) b) \<and>
          offset ! (counter - 1) + int (length m) = int pos"
  shows "\<exists>n offset1. ReN_loop (drop pos b) counter anchor so eo offset = Some (n, offset1) \<and> counter \<le> n \<and> n < 100 \<and>
     length offset1 = 100 \<and> take counter offset1 = take counter offset \<and> starts_ok b (take n offset1) \<and>
     (n = counter \<longleftrightarrow> regexec (drop pos b) = None) \<and>
     (\<forall>s e. regexec (drop pos b) = Some (s, e) \<longrightarrow> offset1 ! counter = int pos + int s)"
  using assms
proof (induction "http_count (drop pos b)" arbitrary: counter pos anchor so eo offset)
  case 0
  then have none: "regexec (drop pos b) = None"
    by (subst (asm) http_count.simps) (auto split: option.splits)
  then show ?case using "0.prems" by (subst ReN_loop.simps) auto
next
  case (Suc c)
  obtain so1 eo1 where m: "regexec (drop pos b) = Some (so1, eo1)" "c = http_count (drop eo1 (drop pos b))"
    using Suc.hyps(2) by (subst (asm) http_count.simps) (auto split: option.splits)
  obtain w where w: "w \<in> set http_methods" "prefix w (drop so1 (drop pos b))" "eo1 = so1 + length w"
    "eo1 \<le> length (drop pos b)" using regexec_Some [OF m(1)] by blast
  have count: "counter < 100" using Suc.prems(1) by simp
  define p where "p = int pos + int so1"
  have off: "offset ! counter = 0" using Suc.prems(4) count by blast
  define offset1 where "offset1 = offset[counter := p]"
  have rest: "drop eo1 (drop pos b) = drop (pos + eo1) b" by (simp add: add.commute)
  have step: "ReN_loop (drop pos b) counter anchor so eo offset =
      (if eo1 \<noteq> length (drop (pos + eo1) b)
       then ReN_loop (drop (pos + eo1) b) (counter + 1) p so1 eo1 offset1
       else Some (counter + 1, offset1))"
    using Suc.prems(2) count off
    by (subst ReN_loop.simps) (simp add: m(1) Let_def rest offset1_def p_def add.commute)
  have wp: "prefix w (drop (nat p) b)" using w(2) by (simp add: p_def nat_add_distrib add.commute)
  have tk: "take (counter + 1) offset1 = take counter offset @ [p]"
    using count Suc.prems(3) by (simp add: offset1_def take_Suc_conv_app_nth)
  have "starts_ok b (take (counter + 1) offset1)" unfolding tk
  proof (rule starts_ok_snoc [OF Suc.prems(5) _ w(1) wp])
    show "0 \<le> p" by (simp add: p_def)
    assume "take counter offset \<noteq> []"
    then have "0 < counter" "last (take counter offset) = offset ! (counter - 1)"
      using count Suc.prems(3) by (auto simp: last_conv_nth)
    then show "\<exists>m\<in>set http_methods. prefix m (drop (nat (last (take counter offset))) b) \<and>
        last (take counter offset) + int (length m) \<le> p"
      using Suc.prems(6) by (auto simp: p_def)
  qed
  then have st: "starts_ok b (take (counter + 1) offset1)" .
  have pc: "offset1 ! counter = p" using count Suc.prems(3) by (simp add: offset1_def)
  have len1: "length offset1 = 100" using Suc.prems(3) by (simp add: offset1_def)
  have tk0: "take counter offset1 = take counter offset" by (simp add: offset1_def)
  show ?case
  proof (cases "eo1 = length (drop (pos + eo1) b)")
    case True
    then show ?thesis using step st len1 tk0 pc m(1) Suc.prems(1) Suc.hyps(2)
      by (intro exI [of _ "counter + 1"] exI [of _ offset1]) (simp add: p_def)
  next
    case False
    have prev: "offset1 ! (counter + 1 - 1) + int (length w) = int (pos + eo1)"
      using w(3) by (simp add: pc p_def)
    have h: "c = http_count (drop (pos + eo1) b)" using m(2) unfolding rest .
    have "counter + 1 + http_count (drop (pos + eo1) b) < 100" using h Suc.hyps(2) Suc.prems(1) by simp
    moreover have "p + (int eo1 - int so1) = int (pos + eo1)" by (simp add: p_def)
    moreover have "\<forall>i. counter + 1 \<le> i \<longrightarrow> i < 100 \<longrightarrow> offset1 ! i = 0" using Suc.prems(4) by (simp add: offset1_def)
    moreover have "\<exists>m\<in>set http_methods. prefix m (drop (nat (offset1 ! (counter + 1 - 1))) b) \<and>
          offset1 ! (counter + 1 - 1) + int (length m) = int (pos + eo1)"
      using w(1) wp prev pc by auto
    ultimately obtain n offset2 where r: "ReN_loop (drop (pos + eo1) b) (counter + 1) p so1 eo1 offset1 = Some (n, offset2)"
      "counter + 1 \<le> n" "n < 100" "length offset2 = 100" "take (counter + 1) offset2 = take (counter + 1) offset1"
      "starts_ok b (take n offset2)"
      using Suc.hyps(1) [OF h, of "counter + 1" p eo1 so1 offset1, OF _ _ len1 _ st] by blast
    have "offset2 ! counter = p" "take counter offset2 = take counter offset"
      using r(5) pc tk0 by (metis lessI nth_take Suc_eq_plus1, metis take_take min.absorb1 le_add1)
    then show ?thesis using r step False m(1)
      by (intro exI [of _ n] exI [of _ offset2]) (simp add: p_def)
  qed
qed

lemma cut_requests_from:
  assumes "\<forall>i<n. 0 \<le> os ! i \<and> (\<exists>m\<in>set http_methods. prefix m (drop (nat (os ! i)) b) \<and> os ! i + int (length m) \<le> os ! Suc i)"
    and "os ! n = int (length b)" "i \<le> n"
  shows "\<exists>rs. cut_requests b (os ! i) (map (\<lambda>j. os ! (j + 1) - os ! j) [i..<n]) = Some rs \<and> length rs = n - i \<and>
     concat rs = drop (nat (os ! i)) b \<and> os ! i \<le> int (length b) \<and> (\<forall>r\<in>set rs. \<exists>m\<in>set http_methods. prefix m r)"
  using assms(3)
proof (induction rule: inc_induct)
  case base
  then show ?case using assms(2) by simp
next
  case (step i)
  obtain m where m: "0 \<le> os ! i" "m \<in> set http_methods" "prefix m (drop (nat (os ! i)) b)"
    "os ! i + int (length m) \<le> os ! Suc i"
    using assms(1) step.hyps(2) by blast
  obtain rs where rs: "cut_requests b (os ! Suc i) (map (\<lambda>j. os ! (j + 1) - os ! j) [Suc i..<n]) = Some rs"
    "length rs = n - Suc i" "concat rs = drop (nat (os ! Suc i)) b" "os ! Suc i \<le> int (length b)"
    "\<forall>r\<in>set rs. \<exists>m\<in>set http_methods. prefix m r" using step.IH by blast
  let ?l = "os ! Suc i - os ! i"
  let ?r = "take (nat ?l) (drop (nat (os ! i)) b)"
  have l: "int (length m) \<le> ?l" "0 \<le> ?l" using m(4) by auto
  have cut: "cut_requests b (os ! i) (map (\<lambda>j. os ! (j + 1) - os ! j) [i..<n]) = Some (?r # rs)"
    using step.hyps(2) m(1) l rs(1,4) by (simp add: upt_conv_Cons)
  have "nat (os ! Suc i) = nat ?l + nat (os ! i)" using m(1) l by (simp add: nat_add_distrib [symmetric])
  then have "concat (?r # rs) = drop (nat (os ! i)) b"
    using rs(3) by (simp flip: drop_drop)
  moreover have "prefix m ?r"
    using m(3) l(1) by (auto simp: prefix_def take_append)
  ultimately show ?case using cut rs m step.hyps(2)
    by (intro exI [of _ "?r # rs"]) (auto intro: order_trans)
qed

lemma get_request_cuts:
  assumes "http_count b < 100"
  shows "\<exists>rs. get_request b = Some rs \<and> (\<forall>r\<in>set rs. \<exists>m\<in>set http_methods. prefix m r) \<and>
     (case regexec b of None \<Rightarrow> rs = [] | Some (so, eo) \<Rightarrow> rs \<noteq> [] \<and> concat rs = drop so b)"
proof -
  have 0: "0 + http_count (drop 0 b) < 100" using assms by simp
  obtain n os where r: "ReN_loop b 0 0 0 0 (replicate 100 0) = Some (n, os)" "n < 100" "length os = 100"
    "starts_ok b (take n os)" "n = 0 \<longleftrightarrow> regexec b = None"
    "\<forall>s e. regexec b = Some (s, e) \<longrightarrow> os ! 0 = int s"
    using ReN_loop_starts [OF 0, of 0 0 0 "replicate 100 0"] by (auto simp: starts_ok_def)
  define os2 where "os2 = os[n := int (length b)]"
  have n2: "os2 ! n = int (length b)" using r(2,3) by (simp add: os2_def)
  have lens: "get_ReN b (replicate 100 0) (replicate 100 0) =
      Some (n, os2, map (\<lambda>i. os2 ! (i + 1) - os2 ! i) [0..<n] @ drop n (replicate 100 0))"
    using r(1,2) by (simp add: get_ReN_def os2_def Let_def)
  show ?thesis
  proof (cases "n = 0")
    case True
    then show ?thesis using lens r(5) by (simp add: get_request_def)
  next
    case False
    then obtain s e where se: "regexec b = Some (s, e)" using r(5) by (cases "regexec b") auto
    have "0 \<le> os2 ! i \<and> (\<exists>m\<in>set http_methods. prefix m (drop (nat (os2 ! i)) b) \<and> os2 ! i + int (length m) \<le> os2 ! Suc i)"
      if i: "i < n" for i
    proof -
      obtain m where m: "0 \<le> os ! i" "os ! i \<le> int (length b)" "m \<in> set http_methods" "prefix m (drop (nat (os ! i)) b)"
        "Suc i < n \<Longrightarrow> os ! i + int (length m) \<le> os ! Suc i"
        using r(4) [unfolded starts_ok_def, rule_format, of i] i r(2,3) by auto
      have "os ! i + int (length m) \<le> int (length b)"
        using prefix_length_le [OF m(4)] m(1,2) by simp
      then show ?thesis using i m n2 r(3) by (cases "Suc i = n") (auto simp: os2_def)
    qed
    then obtain rs where "cut_requests b (os2 ! 0) (map (\<lambda>j. os2 ! (j + 1) - os2 ! j) [0..<n]) = Some rs"
      "length rs = n" "concat rs = drop (nat (os2 ! 0)) b" "\<forall>r\<in>set rs. \<exists>m\<in>set http_methods. prefix m r"
      using cut_requests_from [of n os2 b 0] n2 by auto
    moreover have "os2 ! 0 = int s" using r(6) se False by (simp add: os2_def)
    ultimately show ?thesis using lens False se by (auto simp: get_request_def)
  qed
qed

lemma cut_requests_length:
  "cut_requests b p ls = Some rs \<Longrightarrow> ls \<noteq> [] \<Longrightarrow> p + int (sum_list (map length rs)) \<le> int (length b) \<and> 0 \<le> p"
proof (induction b p ls arbitrary: rs rule: cut_requests.induct)
  case (2 b p l ls)
  then obtain rest where r: "0 \<le> p" "0 \<le> l" "p + l \<le> int (length b)" "cut_requests b (p + l) ls = Some rest"
    "rs = take (nat l) (drop (nat p) b) # rest" by (auto simp: bind_Some_iff split: if_splits)
  have len: "length (take (nat l) (drop (nat p) b)) = nat l" using r(1-3) by auto
  show ?case
  proof (cases "ls = []")
    case True
    then show ?thesis using r len by auto
  next
    case False
    then show ?thesis using "2.IH" r len by fastforce
  qed
qed simp

lemma get_request_length: "get_request b = Some rs \<Longrightarrow> sum_list (map length rs) \<le> length b"
proof -
  assume "get_request b = Some rs"
  then consider "rs = []" | p ls where "cut_requests b p ls = Some rs"
    by (auto simp: get_request_def bind_Some_iff split: if_splits)
  then show ?thesis
  proof cases
    case 2
    then show ?thesis using cut_requests_length [of b p ls rs] by (cases "ls = []") auto
  qed simp
qed

section \<open>The cursor\<close>

lemma advance_range: "advance ss i n len = Some j \<Longrightarrow> i \<le> j \<and> j < i + length ss"
  by (induction ss i n len rule: advance.induct) (auto split: if_splits)

lemma advance_bound:
  "len \<le> n + length (concat (take k ss)) \<Longrightarrow> k < length ss \<Longrightarrow> \<exists>j. advance ss i n len = Some j \<and> j \<le> i + k"
proof (induction ss arbitrary: i n k)
  case (Cons s ss)
  show ?case
  proof (cases "n < len")
    case True
    then obtain k' where "k = Suc k'" using Cons.prems by (cases k) auto
    then show ?thesis using Cons.IH [of "n + length s" k' "i + 1"] Cons.prems True by auto
  qed simp
qed simp

text \<open>
  One head of the cache as a transition system: the handler appends segments at any moment, the
  loop goes through the phases of a pass.  \<open>sc_seen\<close> records the segments whose bytes were in
  a buffer that was cut into requests.  A check whose \<open>trylock\<close> fails is only allowed once the
  cursor has been set.
\<close>

datatype phase = Idle | Checked | Fetched "string list"

record scan_state =
  sc_head :: data_head
  sc_phase :: phase
  sc_seen :: "nat set"

inductive head_step :: "int \<Rightarrow> (nat \<Rightarrow> tuple4) \<Rightarrow> scan_state \<Rightarrow> scan_state \<Rightarrow> bool" for gk_method addr where
  segment: "NUL \<notin> set ds \<Longrightarrow>
    head_step gk_method addr s (s\<lparr>sc_head := (sc_head s)\<lparr>up := up (sc_head s) @ [ds]\<rparr>\<rparr>)"
| skip: "sc_phase s = Idle \<Longrightarrow> check_gk got gk_method gks (sc_head s) = (r, dh) \<Longrightarrow> r \<noteq> 0 \<Longrightarrow>
    head_step gk_method addr s (s\<lparr>sc_head := dh\<rparr>)"
| check: "sc_phase s = Idle \<Longrightarrow> check_gk got gk_method gks (sc_head s) = (0, dh) \<Longrightarrow>
    got \<or> temp_up (sc_head s) \<noteq> None \<Longrightarrow>
    head_step gk_method addr s (s\<lparr>sc_head := dh, sc_phase := Checked\<rparr>)"
| fetch: "sc_phase s = Checked \<Longrightarrow> get_buffer got addr (sc_head s) lt = Some (Some b, lt') \<Longrightarrow>
    get_request (cstr (b @ [NUL])) = Some req \<Longrightarrow> temp_up (sc_head s) = Some c \<Longrightarrow>
    head_step gk_method addr s (s\<lparr>sc_phase := Fetched req,
      sc_seen := sc_seen s \<union> (if NUL \<in> set b then {} else {c..<length (up (sc_head s))})\<rparr>)"
| no_fetch: "sc_phase s = Checked \<Longrightarrow> get_buffer got addr (sc_head s) lt = Some (None, lt') \<Longrightarrow>
    head_step gk_method addr s (s\<lparr>sc_phase := Fetched []\<rparr>)"
| move: "sc_phase s = Fetched req \<Longrightarrow> update_dh got req (sc_head s) = Some dh \<Longrightarrow>
    head_step gk_method addr s (s\<lparr>sc_head := dh, sc_phase := Idle\<rparr>)"
| hit: "sc_phase s = Fetched req \<Longrightarrow> head_step gk_method addr s (s\<lparr>sc_phase := Idle\<rparr>)"

definition fetched_ok :: "scan_state \<Rightarrow> nat \<Rightarrow> string list \<Rightarrow> bool" where
  "fetched_ok s c req \<longleftrightarrow> sum_list (map length req) = 0 \<or>
     (\<exists>n\<le>length (up (sc_head s)). {..<n} \<subseteq> sc_seen s \<and>
        sum_list (map length req) \<le> length (concat (take (n - c) (drop c (up (sc_head s))))))"

definition scan_ok :: "scan_state \<Rightarrow> bool" where
  "scan_ok s \<longleftrightarrow> (\<forall>d\<in>set (up (sc_head s)). NUL \<notin> set d) \<and> a_tcp (sc_head s) \<noteq> None \<and> offset_up (sc_head s) = 0 \<and>
     (case temp_up (sc_head s) of
        None \<Rightarrow> sc_phase s = Idle
      | Some c \<Rightarrow> c < length (up (sc_head s)) \<and> {..<c} \<subseteq> sc_seen s \<and>
          (\<forall>req. sc_phase s = Fetched req \<longrightarrow> fetched_ok s c req))"

lemma concat_drop: "c < length xs \<Longrightarrow> concat (drop c xs) = xs ! c @ concat (drop (Suc c) xs)"
  by (simp flip: Cons_nth_drop_Suc)

lemma check_gk_head:
  "check_gk got m gks dh = (r, dh1) \<Longrightarrow> dh1 = dh \<or> up dh \<noteq> [] \<and> temp_up dh = None \<and> dh1 = dh\<lparr>temp_up := Some 0\<rparr>"
  by (auto simp: check_gk_def split: if_splits option.splits)

lemma get_buffer_bytes:
  assumes "get_buffer got addr dh lt = Some (Some b, lt')" "temp_up dh = Some c" "offset_up dh = 0"
  shows "b = concat (drop c (up dh))" "c < length (up dh)"
  using assms by (auto simp: get_buffer_def bind_Some_iff simp flip: Cons_nth_drop_Suc split: if_splits option.splits)

lemma update_dh_cursor:
  assumes "update_dh got req dh = Some dh1" "temp_up dh = Some c" "c < length (up dh)"
    and "sum_list (map length req) = 0 \<or>
     (n \<le> length (up dh) \<and> sum_list (map length req) \<le> length (concat (take (n - c) (drop c (up dh)))))"
  shows "\<exists>c1. c1 < length (up dh) \<and> (c1 = c \<or> c1 \<le> n) \<and>
     dh1 = dh\<lparr>temp_up := Some c1, offset_up := offset_up dh1\<rparr> \<and> (offset_up dh1 = offset_up dh \<or> offset_up dh1 = 0)"
proof (cases "\<not> got \<or> a_tcp dh = None")
  case True
  then show ?thesis using assms(1-3) by (intro exI [of _ c]) (auto simp: update_dh_def)
next
  case False
  let ?len = "sum_list (map length req)" and ?ss = "drop c (up dh)"
  define c1 where "c1 = (case advance ?ss c 0 ?len of None \<Rightarrow> length (up dh) - 1 | Some j \<Rightarrow> j)"
  have "dh1 = dh\<lparr>temp_up := Some c1, offset_up := 0\<rparr>"
    using assms(1-3) False by (auto simp: update_dh_def c1_def split: option.splits)
  moreover have "c1 < length (up dh)"
    using assms(3) advance_range [of ?ss c 0 ?len] by (auto simp: c1_def split: option.splits)
  moreover have "c1 = c \<or> c1 \<le> n"
  proof (cases "?len = 0")
    case True
    have "advance ?ss c 0 ?len = Some c" unfolding True using assms(3) by (cases ?ss) simp_all
    then show ?thesis by (simp add: c1_def)
  next
    case nz: False
    then have n: "n \<le> length (up dh)" "?len \<le> length (concat (take (n - c) ?ss))" using assms(4) by auto
    show ?thesis
    proof (cases "n = length (up dh)")
      case True
      then show ?thesis using calculation(2) by auto
    next
      case False
      then have "n - c < length ?ss" using n(1) assms(3) by auto
      then obtain j where "advance ?ss c 0 ?len = Some j" "j \<le> c + (n - c)"
        using advance_bound [of ?len 0 "n - c" ?ss c] n(2) by auto
      then show ?thesis by (cases "c \<le> n") (auto simp: c1_def dest: advance_range)
    qed
  qed
  ultimately show ?thesis by (intro exI [of _ c1]) auto
qed

lemma scan_ok_step:
  assumes "head_step m addr s s1" "scan_ok s"
  shows "scan_ok s1"
  using assms
proof (induction rule: head_step.induct)
  case (segment ds s)
  have "fetched_ok (s\<lparr>sc_head := (sc_head s)\<lparr>up := up (sc_head s) @ [ds]\<rparr>\<rparr>) c req"
    if "fetched_ok s c req" for c req
    using that unfolding fetched_ok_def
  proof (elim disjE exE conjE)
    fix n
    assume n: "n \<le> length (up (sc_head s))" "{..<n} \<subseteq> sc_seen s"
      "sum_list (map length req) \<le> length (concat (take (n - c) (drop c (up (sc_head s)))))"
    have "length (concat (take (n - c) (drop c (up (sc_head s))))) \<le>
        length (concat (take (n - c) (drop c (up (sc_head s) @ [ds]))))"
      by (simp add: length_concat)
    then show "sum_list (map length req) = 0 \<or> (\<exists>n\<le>length (up (sc_head (s\<lparr>sc_head := (sc_head s)\<lparr>up := up (sc_head s) @ [ds]\<rparr>\<rparr>))).
       {..<n} \<subseteq> sc_seen (s\<lparr>sc_head := (sc_head s)\<lparr>up := up (sc_head s) @ [ds]\<rparr>\<rparr>) \<and>
       sum_list (map length req) \<le> length (concat (take (n - c)
         (drop c (up (sc_head (s\<lparr>sc_head := (sc_head s)\<lparr>up := up (sc_head s) @ [ds]\<rparr>\<rparr>)))))))"
      using n by (intro disjI2 exI [of _ n]) auto
  qed simp
  then show ?case using segment by (auto simp: scan_ok_def split: option.splits)
next
  case (skip s got gks r dh)
  then show ?case using check_gk_head [OF skip.hyps(2)] by (auto simp: scan_ok_def split: option.splits)
next
  case (check s got gks dh)
  have "temp_up dh \<noteq> None" using check.hyps(2,3) by (auto simp: check_gk_def split: if_splits option.splits)
  then show ?case using check.prems check_gk_head [OF check.hyps(2)] by (auto simp: scan_ok_def split: option.splits)
next
  case (fetch s got lt b lt' req c)
  have off: "offset_up (sc_head s) = 0" using fetch.prems by (simp add: scan_ok_def)
  note b = get_buffer_bytes [OF fetch.hyps(2,4) off]
  have "NUL \<notin> set b" using fetch.prems set_drop_subset [of c "up (sc_head s)"] by (fastforce simp: scan_ok_def b(1))
  then have req: "sum_list (map length req) \<le> length (concat (drop c (up (sc_head s))))"
    using get_request_length [OF fetch.hyps(3)] by (simp add: cstr_append b(1))
  have seen: "{..<c} \<subseteq> sc_seen s" using fetch.prems fetch.hyps(4) by (simp add: scan_ok_def)
  show ?case using fetch.prems fetch.hyps(4) \<open>NUL \<notin> set b\<close> req seen
    by (auto simp: scan_ok_def fetched_ok_def intro!: exI [of _ "length (up (sc_head s))"])
next
  case (no_fetch s got lt lt')
  then show ?case by (auto simp: scan_ok_def fetched_ok_def split: option.splits)
next
  case (move s req got dh)
  then obtain c where c: "temp_up (sc_head s) = Some c" "c < length (up (sc_head s))" "{..<c} \<subseteq> sc_seen s"
    "fetched_ok s c req" by (auto simp: scan_ok_def split: option.splits)
  obtain n where n: "{..<n} \<subseteq> sc_seen s" "sum_list (map length req) = 0 \<or>
     (n \<le> length (up (sc_head s)) \<and> sum_list (map length req) \<le> length (concat (take (n - c) (drop c (up (sc_head s))))))"
    using c(4) unfolding fetched_ok_def by (metis empty_subsetI lessThan_0)
  obtain c1 where c1: "c1 < length (up (sc_head s))" "c1 = c \<or> c1 \<le> n"
    "dh = (sc_head s)\<lparr>temp_up := Some c1, offset_up := offset_up dh\<rparr>" "offset_up dh = offset_up (sc_head s) \<or> offset_up dh = 0"
    using update_dh_cursor [OF move.hyps(2) c(1,2) n(2)] by blast
  have "up dh = up (sc_head s)" "a_tcp dh = a_tcp (sc_head s)" "temp_up dh = Some c1"
    by (subst c1(3), simp)+
  then show ?case using move.prems c1(1,2,4) c(3) n(1) by (auto simp: scan_ok_def)
next
  case (hit s req)
  then show ?case by (auto simp: scan_ok_def split: option.splits)
qed

section \<open>Properties of the passes\<close>

text \<open>C31: the cutting of a buffer ends and loses nothing. With fewer than 100 beginnings of a request in the buffer, the loop over
  the matches returns, every request begins with a method, and together the requests are the buffer from the first
  match on; without a match there is none.\<close>

theorem requests_partition:
  assumes "http_count b < 100"
  shows "\<exists>rs. get_request b = Some rs \<and> (\<forall>r\<in>set rs. \<exists>m\<in>set http_methods. prefix m r) \<and>
     (case regexec b of None \<Rightarrow> rs = [] | Some (so, eo) \<Rightarrow> rs \<noteq> [] \<and> concat rs = drop so b)"
  using get_request_cuts [OF assms] .

theorem requests_partition_witness:
  "\<exists>rs. get_request ''xxGET /aPOST /b'' = Some rs \<and> rs \<noteq> [] \<and> concat rs = ''GET /aPOST /b''"
proof -
  have "http_count ''xxGET /aPOST /b'' < 100" "regexec ''xxGET /aPOST /b'' = Some (2, 7)" by code_simp+
  with requests_partition [of "''xxGET /aPOST /b''"] show ?thesis by auto
qed

definition fresh_head :: "data_head \<Rightarrow> bool" where
  "fresh_head dh \<longleftrightarrow> a_tcp dh \<noteq> None \<and> temp_up dh = None \<and> offset_up dh = 0 \<and> (\<forall>d\<in>set (up dh). NUL \<notin> set d)"

text \<open>C10: no data are skipped. However the handler's insertions are interleaved with the passes of the
  loop over a head, every segment before the cursor was in a buffer that was cut into requests; and
  when the cursor is not at the last segment, the next undisturbed pass takes everything from the
  cursor to the last segment.\<close>

theorem no_segment_skipped:
  assumes "(head_step m addr)\<^sup>*\<^sup>* \<lparr>sc_head = dh, sc_phase = Idle, sc_seen = {}\<rparr> s" "fresh_head dh"
    and "temp_up (sc_head s) = Some c"
  shows "{..<c} \<subseteq> sc_seen s \<and>
    (c \<noteq> length (up (sc_head s)) - 1 \<longrightarrow> gks (the (a_tcp (sc_head s))) \<noteq> m \<longrightarrow>
      check_gk True m gks (sc_head s) = (0, sc_head s) \<and>
      (\<exists>lt'. get_buffer True addr (sc_head s) lt = Some (Some (concat (drop c (up (sc_head s)))), lt')))"
proof -
  have "scan_ok \<lparr>sc_head = dh, sc_phase = Idle, sc_seen = {}\<rparr>"
    using assms(2) by (simp add: scan_ok_def fresh_head_def)
  with assms(1) have "scan_ok s"
    by (induction rule: rtranclp_induct) (auto intro: scan_ok_step)
  then obtain a where "{..<c} \<subseteq> sc_seen s" "c < length (up (sc_head s))" "a_tcp (sc_head s) = Some a"
      "offset_up (sc_head s) = 0"
    using assms(3) by (auto simp: scan_ok_def)
  moreover from this have "up (sc_head s) \<noteq> []" by auto
  ultimately show ?thesis
    using assms(3) by (simp add: check_gk_def get_buffer_def concat_drop)
qed

lemma set_head_same: "cache st h ! i = dh \<Longrightarrow> set_head h i dh st = st"
  by (cases st) (auto simp: set_head_def fun_eq_iff)

lemma sample_fresh: "fresh_head (empty_head\<lparr>a_tcp := Some 7, up := [''GET /'', ''x'']\<rparr>)"
  by (simp add: fresh_head_def empty_head_def)

theorem no_segment_skipped_witness:
  "\<exists>s. (head_step 2 (\<lambda>_. \<lparr>source = 1, dest = 2, saddr = 3, daddr = 4\<rparr>))\<^sup>*\<^sup>*
      \<lparr>sc_head = empty_head\<lparr>a_tcp := Some 7, up := [''GET /'', ''x'']\<rparr>, sc_phase = Idle, sc_seen = {}\<rparr> s \<and>
    temp_up (sc_head s) = Some 1 \<and> {..<1} \<subseteq> sc_seen s"
proof -
  let ?dh = "empty_head\<lparr>a_tcp := Some 7, up := [''GET /'', ''x'']\<rparr>"
  let ?a = "\<lambda>_ :: nat. \<lparr>source = 1, dest = 2, saddr = 3, daddr = 4\<rparr>"
  let ?S = "\<lambda>dh p q. \<lparr>sc_head = dh, sc_phase = p, sc_seen = q\<rparr>"
  let ?da = "?dh\<lparr>temp_up := Some 0\<rparr>" and ?db = "?dh\<lparr>temp_up := Some 1\<rparr>"
  have req: "get_request (cstr (''GET /x'' @ [NUL])) = Some [''GET /x'']" by code_simp
  have "check_gk True 2 (\<lambda>_. 0) ?dh = (0, ?da)" by (simp add: check_gk_def empty_head_def)
  then have 1: "head_step 2 ?a (?S ?dh Idle {}) (?S ?da Checked {})"
    using head_step.check [of "?S ?dh Idle {}" True 2 "\<lambda>_. 0" ?da ?a] by simp
  have "\<exists>lt'. get_buffer True ?a ?da lt = Some (Some ''GET /x'', lt')" for lt
    by (simp add: get_buffer_def empty_head_def)
  then obtain lt' where "get_buffer True ?a ?da (undefined :: location_tuple) = Some (Some ''GET /x'', lt')" by blast
  then have 2: "head_step 2 ?a (?S ?da Checked {}) (?S ?da (Fetched [''GET /x'']) {0..<2})"
    using head_step.fetch [of "?S ?da Checked {}" True ?a undefined "''GET /x''" lt' "[''GET /x'']" 0 2] req
    by (simp add: empty_head_def numeral_2_eq_2)
  have "update_dh True [''GET /x''] ?da = Some ?db" by (simp add: update_dh_def empty_head_def)
  then have 3: "head_step 2 ?a (?S ?da (Fetched [''GET /x'']) {0..<2}) (?S ?db Idle {0..<2})"
    using head_step.move [of "?S ?da (Fetched [''GET /x'']) {0..<2}" "[''GET /x'']" True ?db 2 ?a] by simp
  have steps: "(head_step 2 ?a)\<^sup>*\<^sup>* (?S ?dh Idle {}) (?S ?db Idle {0..<2})"
    by (rule converse_rtranclp_into_rtranclp [where r = "head_step 2 ?a", OF 1],
        rule converse_rtranclp_into_rtranclp [where r = "head_step 2 ?a", OF 2],
        rule r_into_rtranclp [where r = "head_step 2 ?a", OF 3])
  have "fresh_head ?dh" by (rule sample_fresh)
  moreover have cur: "temp_up (sc_head (?S ?db Idle {0..<2})) = Some 1" by simp
  ultimately have "{..<1} \<subseteq> sc_seen (?S ?db Idle {0..<2})" using no_segment_skipped [OF steps] by blast
  with steps cur show ?thesis by blast
qed

lemma check_gk_cursor: "check_gk got m gks dh = (0, dh1) \<Longrightarrow> got \<Longrightarrow> temp_up dh1 \<noteq> None"
  by (auto simp: check_gk_def split: if_splits option.splits)

text \<open>Each pass of \<open>process_data_head\<close> is a run of that transition system.\<close>

lemma process_data_head_steps:
  assumes "process_data_head env now ph m locks h i ls = Some ls1" "i < length (cache (ls_cache ls) h)"
    and "lock_check locks \<or> temp_up (cache (ls_cache ls) h ! i) \<noteq> None"
  shows "\<exists>seen1. (head_step m (e_addr env))\<^sup>*\<^sup>*
      \<lparr>sc_head = cache (ls_cache ls) h ! i, sc_phase = Idle, sc_seen = seen\<rparr>
      \<lparr>sc_head = cache (ls_cache ls1) h ! i, sc_phase = Idle, sc_seen = seen1\<rparr>"
proof -
  let ?st = "ls_cache ls" and ?S = "\<lambda>dh p q. \<lparr>sc_head = dh, sc_phase = p, sc_seen = q\<rparr>"
  let ?R = "(head_step m (e_addr env))\<^sup>*\<^sup>*"
  obtain r dh where ck: "check_gk (lock_check locks) m (gk_state ?st) (cache ?st h ! i) = (r, dh)" by fastforce
  have at: "cache (set_head h i d (set_head h i dh ?st)) h ! i = d" "cache (set_head h i d ?st) h ! i = d" for d
    using assms(2) by (simp_all add: set_head_def)
  show ?thesis
  proof (cases "r = 0")
    case False
    then have "cache (ls_cache ls1) h ! i = dh" using assms(1) ck by (auto simp: process_data_head_def Let_def at)
    moreover have "head_step m (e_addr env) (?S (cache ?st h ! i) Idle seen) (?S dh Idle seen)"
      using head_step.skip [of "?S (cache ?st h ! i) Idle seen" "lock_check locks" m "gk_state ?st" r dh] ck False by simp
    ultimately show ?thesis by blast
  next
    case True
    have cur: "temp_up dh \<noteq> None"
      using check_gk_cursor [of "lock_check locks" m "gk_state ?st" "cache ?st h ! i" dh] assms(3) ck True
        check_gk_head [OF ck] by auto
    have s1: "head_step m (e_addr env) (?S (cache ?st h ! i) Idle seen) (?S dh Checked seen)"
      using head_step.check [of "?S (cache ?st h ! i) Idle seen" "lock_check locks" m "gk_state ?st" dh] ck True assms(3)
      by simp
    obtain buffer lt where gb: "get_buffer (lock_buffer locks) (e_addr env) dh
        \<lparr>serverport = 0, serverip = 0, clientport = 0, clientip = 0\<rparr> = Some (buffer, lt)"
      using assms(1) ck True by (auto simp: process_data_head_def Let_def bind_Some_iff)
    obtain request where rq: "(case buffer of None \<Rightarrow> Some [] | Some b \<Rightarrow> get_request (cstr (b @ [NUL]))) = Some request"
      using assms(1) ck True gb by (auto simp: process_data_head_def Let_def bind_Some_iff)
    obtain isgk lines rs where dr: "decide_requests now ph lt request (ls_rules ls) = Some (isgk, lines, rs)"
      using assms(1) ck True gb rq by (auto simp: process_data_head_def Let_def bind_Some_iff)
    have "\<exists>seen1. head_step m (e_addr env) (?S dh Checked seen) (?S dh (Fetched request) seen1)"
    proof (cases buffer)
      case None
      then show ?thesis using head_step.no_fetch [of "?S dh Checked seen"] gb rq by fastforce
    next
      case (Some b)
      then show ?thesis using head_step.fetch [of "?S dh Checked seen"] gb rq cur by fastforce
    qed
    then obtain seen1 where s2: "head_step m (e_addr env) (?S dh Checked seen) (?S dh (Fetched request) seen1)" by blast
    have "\<exists>d. cache (ls_cache ls1) h ! i = d \<and> head_step m (e_addr env) (?S dh (Fetched request) seen1) (?S d Idle seen1)"
    proof (cases isgk)
      case True
      then have "cache (ls_cache ls1) h ! i = dh"
        using assms(1) ck \<open>r = 0\<close> gb rq dr by (auto simp: process_data_head_def Let_def at)
      then show ?thesis using head_step.hit [of "?S dh (Fetched request) seen1"] by simp
    next
      case False
      then obtain dh2 where "update_dh (lock_update locks) request dh = Some dh2" "cache (ls_cache ls1) h ! i = dh2"
        using assms(1) ck \<open>r = 0\<close> gb rq dr by (auto simp: process_data_head_def Let_def at bind_Some_iff)
      then show ?thesis using head_step.move [of "?S dh (Fetched request) seen1" request "lock_update locks" dh2] by simp
    qed
    with s1 s2 show ?thesis by (blast intro: converse_rtranclp_into_rtranclp rtranclp.rtrancl_refl)
  qed
qed

lemma process_data_head_steps_witness:
  "\<exists>seen1. (head_step 2 (e_addr (sample_env 1)))\<^sup>*\<^sup>*
      \<lparr>sc_head = empty_head, sc_phase = Idle, sc_seen = {}\<rparr>
      \<lparr>sc_head = empty_head, sc_phase = Idle, sc_seen = seen1\<rparr>"
proof -
  let ?locks = "\<lparr>lock_check = True, lock_buffer = True, lock_set = True, lock_update = True\<rparr>"
  let ?ls = "\<lparr>ls_cache = sample_stream_state, ls_rules = undefined, ls_sent = []\<rparr>"
  have head: "cache sample_stream_state 0 = [empty_head]" by (simp add: sample_stream_state_def init_cache_def)
  have "set_head 0 0 empty_head sample_stream_state = sample_stream_state"
    by (rule set_head_same) (simp add: head)
  then have "process_data_head (sample_env 1) undefined (\<lambda>_. None) 2 ?locks 0 0 ?ls = Some ?ls"
    by (simp add: process_data_head_def head check_gk_def set_head_same) (simp add: empty_head_def set_head_same head)
  from process_data_head_steps [OF this, of "{}"] show ?thesis by (simp add: head)
qed

definition all_locks :: trylocks where
  "all_locks = \<lparr>lock_check = True, lock_buffer = True, lock_set = True, lock_update = True\<rparr>"

lemma regexec_Nil: "regexec [] = None"
  by (simp add: regexec_None http_methods_def)

lemma get_request_none: "regexec b = None \<Longrightarrow> get_request b = Some []"
  by (simp add: get_request_def get_ReN_def ReN_loop.simps [of b] Let_def)

text \<open>C40: a failed \<open>trylock\<close> loses data. When the check of a stream that has not been looked at yet
  misses the lock, the pass goes on with an unset cursor: nothing is analysed, and the cursor is set
  to the last segment, so all the segments before it are skipped and a pass does nothing until new
  data arrive.\<close>

theorem lock_miss_skips:
  assumes "fresh_head (cache (ls_cache ls) h ! i)" "up (cache (ls_cache ls) h ! i) \<noteq> []"
    and "i < length (cache (ls_cache ls) h)" "\<not> lock_check locks" "lock_buffer locks" "lock_update locks"
  shows "\<exists>ls1. process_data_head env now ph m locks h i ls = Some ls1 \<and> ls_sent ls1 = ls_sent ls \<and>
     ls_rules ls1 = ls_rules ls \<and>
     temp_up (cache (ls_cache ls1) h ! i) = Some (length (up (cache (ls_cache ls) h ! i)) - 1) \<and>
     process_data_head env now ph m all_locks h i ls1 = Some ls1"
proof -
  let ?st = "ls_cache ls" and ?dh = "cache (ls_cache ls) h ! i"
  let ?dh1 = "?dh\<lparr>temp_up := Some (length (up ?dh) - 1), offset_up := 0\<rparr>"
  have same: "set_head h i ?dh ?st = ?st" by (simp add: set_head_same)
  define ls1 where "ls1 = ls\<lparr>ls_cache := set_head h i ?dh1 ?st\<rparr>"
  have "get_request (cstr [NUL]) = Some []" by (simp add: get_request_none regexec_Nil)
  then have run: "process_data_head env now ph m locks h i ls = Some ls1"
    using assms by (auto simp: process_data_head_def check_gk_def get_buffer_def update_dh_def fresh_head_def same ls1_def
        Let_def)
  have at: "cache (ls_cache ls1) h ! i = ?dh1" using assms(3) by (simp add: ls1_def set_head_def)

  have "check_gk True m (gk_state (ls_cache ls1)) ?dh1 = (1, ?dh1)"
    using assms(1) by (auto simp: check_gk_def fresh_head_def split: option.splits)
  then have "process_data_head env now ph m all_locks h i ls1 = Some ls1"
    by (simp add: process_data_head_def at set_head_same all_locks_def)
  then show ?thesis using run at by (intro exI [of _ ls1]) (simp add: ls1_def)
qed

definition sample_loop :: "data_head \<Rightarrow> loop_state" where
  "sample_loop dh = \<lparr>ls_cache = sample_stream_state\<lparr>cache := (\<lambda>_. [dh])\<rparr>, ls_rules = undefined, ls_sent = []\<rparr>"

theorem lock_miss_skips_witness:
  "\<exists>ls1. process_data_head (sample_env 1) undefined (\<lambda>_. None) 2
      \<lparr>lock_check = False, lock_buffer = True, lock_set = True, lock_update = True\<rparr> 0 0
      (sample_loop (empty_head\<lparr>a_tcp := Some 7, up := [''GET /a'', ''GET /b'', ''x'']\<rparr>)) = Some ls1 \<and>
    temp_up (cache (ls_cache ls1) 0 ! 0) = Some 2"
  using lock_miss_skips [of "sample_loop (empty_head\<lparr>a_tcp := Some 7, up := [''GET /a'', ''GET /b'', ''x'']\<rparr>)" 0 0
      "\<lparr>lock_check = False, lock_buffer = True, lock_set = True, lock_update = True\<rparr>"]
  by (fastforce simp: sample_loop_def fresh_head_def empty_head_def numeral_2_eq_2)

lemma advance_zero: "ss \<noteq> [] \<Longrightarrow> advance ss i 0 0 = Some i"
  by (cases ss) simp_all

lemma advance_all: "ss \<noteq> [] \<Longrightarrow> last ss \<noteq> [] \<Longrightarrow> advance ss i n (n + length (concat ss)) = None"
proof (induction ss arbitrary: i n)
  case (Cons s ss)
  have "concat (s # ss) \<noteq> []" using Cons.prems by (auto simp: last_in_set split: if_splits)
  then have "n < n + length (concat (s # ss))" by simp
  then show ?case using Cons.IH [of "i + 1" "n + length s"] Cons.prems
    by (cases "ss = []") (simp_all add: add.assoc)
qed simp

text \<open>A request spread over more than two segments is never seen whole. When the requests cover the
  data up to the last segment, the cursor stays at that segment, and the start of the request is behind
  it; the segments that arrive later, taken together with that one, are analysed only if they contain
  the start of another request.\<close>

lemma request_start_forgotten:
  assumes "a_tcp dh = Some a" "offset_up dh = 0" "temp_up dh = Some c" "c < length (up dh)" "last (up dh) \<noteq> []"
    and "\<forall>d\<in>set (up dh @ segs). NUL \<notin> set d" "sum_list (map length req) = length (concat (drop c (up dh)))"
    and "\<forall>w\<in>set http_methods. \<not> sublist w (last (up dh) @ concat segs)"
    and "cache (ls_cache ls) h ! i = (the (update_dh True req dh))\<lparr>up := up dh @ segs\<rparr>"
  shows "update_dh True req dh = Some (dh\<lparr>temp_up := Some (length (up dh) - 1)\<rparr>) \<and>
     process_data_head env now ph m all_locks h i ls = Some ls"
proof -
  have ne: "up dh \<noteq> []" "drop c (up dh) \<noteq> []" "last (drop c (up dh)) \<noteq> []" using assms(4,5) by auto
  have upd: "update_dh True req dh = Some (dh\<lparr>temp_up := Some (length (up dh) - 1)\<rparr>)"
    using assms(1-4) advance_all [OF ne(2,3), of c 0] ne(1) by (simp add: update_dh_def assms(7))
  let ?c = "length (up dh) - 1"
  let ?dh1 = "dh\<lparr>temp_up := Some ?c, up := up dh @ segs\<rparr>"
  have at: "cache (ls_cache ls) h ! i = ?dh1" using assms(9) upd by simp
  have seg: "(up dh @ segs) ! ?c = last (up dh)" "drop (?c + 1) (up dh @ segs) = segs" "?c < length (up dh @ segs)"
    using ne(1) by (cases "up dh"; simp add: nth_append last_conv_nth)+
  let ?b = "last (up dh) @ concat segs"
  have "NUL \<notin> set ?b" using assms(6) ne(1) by auto
  moreover have "regexec ?b = None" using assms(8) by (simp add: regexec_None)
  ultimately have none: "get_request (cstr (?b @ [NUL])) = Some []" by (simp add: cstr_append get_request_none del: append_assoc)
  have buf: "\<exists>lt'. get_buffer True addr ?dh1 lt = Some (Some ?b, lt')" for addr lt
    using assms(1,2) seg by (simp add: get_buffer_def)
  have still: "update_dh True [] ?dh1 = Some ?dh1"
    using assms(1,2) seg(3) advance_zero [of "drop ?c (up dh @ segs)" ?c] by (simp add: update_dh_def del: drop_append)
  obtain r d where "check_gk True m (gk_state (ls_cache ls)) ?dh1 = (r, d)" by fastforce
  with check_gk_head [OF this] have ck: "check_gk True m (gk_state (ls_cache ls)) ?dh1 = (r, ?dh1)" by auto
  have "process_data_head env now ph m all_locks h i ls = Some ls"
  proof (cases "r = 0")
    case False
    then show ?thesis using ck by (simp add: process_data_head_def at set_head_same all_locks_def)
  next
    case True
    obtain lt' where "get_buffer True (e_addr env) ?dh1 \<lparr>serverport = 0, serverip = 0, clientport = 0, clientip = 0\<rparr> =
       Some (Some ?b, lt')" using buf by blast
    then show ?thesis using ck True none still
      by (simp add: process_data_head_def at set_head_same all_locks_def del: append_assoc)
  qed
  then show ?thesis using upd by simp
qed

lemma request_start_forgotten_witness:
  "process_data_head (sample_env 1) undefined (\<lambda>_. None) 2 all_locks 0 0
      (sample_loop (empty_head\<lparr>a_tcp := Some 7, temp_up := Some 1, up := [''POST / a'', ''b'', ''c'']\<rparr>)) =
   Some (sample_loop (empty_head\<lparr>a_tcp := Some 7, temp_up := Some 1, up := [''POST / a'', ''b'', ''c'']\<rparr>))"
proof -
  let ?dh = "empty_head\<lparr>a_tcp := Some 7, temp_up := Some 0, up := [''POST / a'', ''b'']\<rparr>"
  have upd: "update_dh True [''POST / ab''] ?dh = Some (?dh\<lparr>temp_up := Some 1\<rparr>)"
    by (simp add: update_dh_def empty_head_def)
  have "\<forall>w\<in>set http_methods. \<not> sublist w ''bc''"
    by (simp add: http_methods_def sublist_Cons_right)
  then show ?thesis
    using request_start_forgotten [of ?dh 7 0 "[''c'']" "[''POST / ab'']"
        "sample_loop (empty_head\<lparr>a_tcp := Some 7, temp_up := Some 1, up := [''POST / a'', ''b'', ''c'']\<rparr>)" 0 0 "sample_env 1"
        undefined "\<lambda>_. None" 2]
    by (simp add: upd sample_loop_def) (simp add: empty_head_def)
qed

end
