(* ===== verification/DownMatch.thy ===== *)
theory DownMatch
  imports StringMatcher
begin

text \<open>
  The automaton of the response side: \<^verbatim>\<open>acsm.c\<close> repeats \<^verbatim>\<open>acsmx.c\<close>, with one more field,
  the depth of every state in the trie, which the search in compressed pages
  (theory \<open>Acch\<close>) needs.  The struct is the record of \<^verbatim>\<open>acsmx.c\<close> extended by
  \<open>dept\<close>; the functions that \<^verbatim>\<open>acsm.c\<close> repeats word for word are those of theory
  \<open>Acsmx\<close> at the extended record.  \<^verbatim>\<open>down_string_match.c\<close> keeps the pair \<open>M\<close>, \<open>N\<close> of
  automata and encodes keywords for JSON pages.
\<close>

unbundle bit_operations_syntax

section \<open>The automaton with depths\<close>

record ACSMX_STRUCT = ACSM_STRUCT +
  dept :: "nat list"   \<comment> \<open>\<open>[]\<close> for null\<close>

definition acsmnew :: ACSMX_STRUCT where
  "acsmnew = \<lparr>acsmMaxStates = 0, acsmNumStates = 0, acsmPatterns = [], acsmStateTable = [], dept = []\<rparr>"

definition acsmaddPattern :: "ACSMX_STRUCT \<Rightarrow> string \<Rightarrow> nat \<Rightarrow> ACSMX_STRUCT" where
  "acsmaddPattern p pat len = acsmAddPattern p pat len"

definition acsmdelPattern :: "ACSMX_STRUCT \<Rightarrow> string \<Rightarrow> ACSMX_STRUCT option" where
  "acsmdelPattern p pat = acsmDelPattern p pat"

definition dept_at :: "ACSMX_STRUCT \<Rightarrow> int \<Rightarrow> nat option" where
  "dept_at acsm s = (if 0 \<le> s \<and> nat s < length (dept acsm) then Some (dept acsm ! nat s) else None)"

definition set_dept :: "int \<Rightarrow> nat \<Rightarrow> ACSMX_STRUCT \<Rightarrow> ACSMX_STRUCT option" where
  "set_dept s v acsm =
     (if 0 \<le> s \<and> nat s < length (dept acsm) then Some (acsm\<lparr>dept := (dept acsm)[nat s := v]\<rparr>) else None)"

fun add_states_x :: "ACSMX_STRUCT \<Rightarrow> int \<Rightarrow> string \<Rightarrow> (ACSMX_STRUCT \<times> int) option" where
  "add_states_x acsm state [] = Some (acsm, state)"
| "add_states_x acsm state (c # pattern) = do {
     let acsm1 = acsm\<lparr>acsmNumStates := acsmNumStates acsm + 1\<rparr>;
     row \<leftarrow> state_at acsm1 state;
     let acsm2 = set_state state
                   (row\<lparr>NextState := (NextState row)(c := acsmNumStates acsm1)\<rparr>) acsm1;
     d \<leftarrow> dept_at acsm2 state;
     acsm3 \<leftarrow> set_dept (acsmNumStates acsm1) (d + 1) acsm2;
     add_states_x acsm3 (acsmNumStates acsm1) pattern }"

definition AddPatternStates_x :: "ACSM_PATTERN \<Rightarrow> ACSMX_STRUCT \<Rightarrow> ACSMX_STRUCT option" where
  "AddPatternStates_x p acsm = do {
     (state, rest) \<leftarrow> match_existing acsm 0 (take (pat_n p) (patrn p));
     (acsm1, state1) \<leftarrow> add_states_x acsm state rest;
     AddMatchListEntry state1 p acsm1 }"

definition build_DFA :: "ACSMX_STRUCT \<Rightarrow> ACSMX_STRUCT option" where
  "build_DFA acsm = Build_DFA acsm"

definition init_states_x :: "ACSMX_STRUCT \<Rightarrow> ACSMX_STRUCT" where
  "init_states_x acsm = (init_states acsm)\<lparr>dept := replicate (count_states (acsmPatterns acsm)) 0\<rparr>"

definition acsmcompile :: "ACSMX_STRUCT \<Rightarrow> ACSMX_STRUCT option" where
  "acsmcompile acsm = do {
     acsm1 \<leftarrow> ofold AddPatternStates_x (acsmPatterns acsm) (init_states_x acsm);
     acsm2 \<leftarrow> close_root acsm1;
     build_DFA acsm2 }"

section \<open>One step of the scan\<close>

definition CDepth :: nat where "CDepth = 4"

text \<open>
  \<open>strcpy(keyword, mlist->patrn)\<close> for every pattern of the state reached, into the buffer of the
  caller: the last one stays.
\<close>

definition strcpy_buf :: "char list \<Rightarrow> string \<Rightarrow> char list option" where
  "strcpy_buf buf s = memcpy buf 0 (cstr s @ [NUL])"

definition fsm :: "ACSMX_STRUCT \<Rightarrow> int \<Rightarrow> char \<Rightarrow> int \<Rightarrow> char list \<Rightarrow> (int \<times> int \<times> char list) option" where
  \<comment> \<open>the next state, \<open>*out\<close> and \<open>keyword\<close>\<close>
  "fsm acsm state e out keyword = do {
     row \<leftarrow> state_at acsm state;
     let state1 = NextState row e;
     row1 \<leftarrow> state_at acsm state1;
     keyword1 \<leftarrow> ofold (\<lambda>m kw. strcpy_buf kw (patrn m)) (MatchList row1) keyword;
     Some (state1, if MatchList row1 \<noteq> [] then 1 else out, keyword1) }"

definition scanAC :: "ACSMX_STRUCT \<Rightarrow> int \<Rightarrow> char \<Rightarrow> char list \<Rightarrow> (int \<times> int \<times> char list) option" where
  \<comment> \<open>the next state, \<open>*status\<close> and \<open>keyword\<close>\<close>
  "scanAC acsm state b keyword = do {
     (state1, isMatch, keyword1) \<leftarrow> fsm acsm state b 0 keyword;
     if isMatch \<noteq> 0 then Some (state1, 0, keyword1)
     else do {
       d \<leftarrow> dept_at acsm state1;
       Some (state1, if CDepth \<le> d then 1 else 2, keyword1) } }"

section \<open>The pair of automata\<close>

record down_matchers =
  dM :: ACSMX_STRUCT
  dN :: ACSMX_STRUCT

definition add_str :: "down_matchers \<Rightarrow> string \<Rightarrow> down_matchers option" where
  "add_str st s = do {
     let N = acsmaddPattern (dN st) s (length s);
     let M = (dM st)\<lparr>acsmPatterns := acsmPatterns N\<rparr>;
     N2 \<leftarrow> acsmcompile N;
     Some (st\<lparr>dM := N2, dN := M\<rparr>) }"

definition del_str :: "down_matchers \<Rightarrow> string \<Rightarrow> down_matchers option" where
  "del_str st s = do {
     N \<leftarrow> acsmdelPattern (dN st) s;
     let M = (dM st)\<lparr>acsmPatterns := acsmPatterns N\<rparr>;
     N2 \<leftarrow> acsmcompile N;
     Some (st\<lparr>dM := N2, dN := M\<rparr>) }"

definition add_key_from_db :: "nat \<Rightarrow> string list \<Rightarrow> int" where
  \<comment> \<open>the loop over the rows has an empty body: the call of \<open>add_str\<close> is commented out\<close>
  "add_key_from_db ncolumn rows = (if ncolumn \<noteq> 1 \<or> length rows = 0 then 0 else 1)"

definition down_ac :: down_matchers where
  "down_ac = \<lparr>dM = acsmnew, dN = acsmnew\<rparr>"

section \<open>The depths of a compiled automaton\<close>

definition depth_ok :: "string list \<Rightarrow> ACSMX_STRUCT \<Rightarrow> bool" where
  "depth_ok ws acsm \<longleftrightarrow> length (dept acsm) = length (acsmStateTable acsm) \<and>
     (\<forall>q<length ws. dept acsm ! q = length (ws ! q))"

lemma add_states_x_trie:
  assumes "trie_shape ws acsm" "q < length ws" "cs \<noteq> [] \<longrightarrow> ws ! q @ [hd cs] \<notin> set ws"
    and "length ws + length cs \<le> length (acsmStateTable acsm)" "depth_ok ws acsm"
  shows "\<exists>acsm' ws' k. add_states_x acsm (int q) cs = Some (acsm', int k) \<and>
           trie_shape (ws @ ws') acsm' \<and> k < length (ws @ ws') \<and> (ws @ ws') ! k = ws ! q @ cs \<and>
           length ws' = length cs \<and> set (ws @ ws') = set ws \<union> {ws ! q @ u |u. prefix u cs} \<and>
           same_rows acsm acsm' \<and> depth_ok (ws @ ws') acsm'"
  using assms
proof (induction cs arbitrary: ws acsm q)
  case Nil
  then show ?case by (intro exI [of _ acsm] exI [of _ "[]"] exI [of _ q]) auto
next
  case (Cons c cs)
  let ?row = "acsmStateTable acsm ! q" and ?n = "length ws"
  let ?ws = "ws @ [ws ! q @ [c]]"
  let ?acsm2 = "set_state (int q) (?row\<lparr>NextState := (NextState ?row)(c := int ?n)\<rparr>)
                  (acsm\<lparr>acsmNumStates := int ?n\<rparr>)"
  let ?acsm3 = "?acsm2\<lparr>dept := (dept acsm)[?n := Suc (length (ws ! q))]\<rparr>"
  have q: "q < length (acsmStateTable acsm)" and num: "acsmNumStates acsm + 1 = int ?n"
    and room: "?n < length (acsmStateTable acsm)"
    using Cons.prems by (auto simp: trie_shape_def)
  have dept2: "dept ?acsm2 = dept acsm" by (simp add: set_state_def)
  have shape2: "trie_shape ?ws ?acsm2"
    by (rule trie_shape_extend) (use Cons.prems in auto)
  have shape3: "trie_shape ?ws ?acsm3"
    by (rule trie_shape_cong [OF shape2]) simp_all
  have same3: "same_rows acsm ?acsm3"
    using q by (auto simp: same_rows_def nth_list_update)
  have depth3: "depth_ok ?ws ?acsm3"
    using Cons.prems(2,5) room by (auto simp: depth_ok_def nth_list_update nth_append)
  have "\<not> (\<exists>d. (ws ! q @ [c]) @ [d] \<in> set ?ws)"
    using Cons.prems pclosed_prefix [of ws "ws ! q @ [c]"]
    by (auto simp: trie_shape_def trie_words_def)
  then have new2: "cs \<noteq> [] \<longrightarrow> ?ws ! ?n @ [hd cs] \<notin> set ?ws" by simp
  have room2: "length ?ws + length cs \<le> length (acsmStateTable ?acsm3)"
    using Cons.prems by simp
  obtain acsm' ws' k where ih: "add_states_x ?acsm3 (int ?n) cs = Some (acsm', int k)"
      "trie_shape (?ws @ ws') acsm'" "k < length (?ws @ ws')" "(?ws @ ws') ! k = ?ws ! ?n @ cs"
      "length ws' = length cs" "set (?ws @ ws') = set ?ws \<union> {?ws ! ?n @ u |u. prefix u cs}"
      "same_rows ?acsm3 acsm'" "depth_ok (?ws @ ws') acsm'"
    using Cons.IH [OF shape3 _ new2 room2 depth3] by auto
  have "add_states_x acsm (int q) (c # cs) = Some (acsm', int k)"
    using q num room ih(1) dept2 Cons.prems(2,5)
    by (simp add: state_at_def dept_at_def set_dept_def depth_ok_def)
  moreover have "set (ws @ (ws ! q @ [c]) # ws') = set ws \<union> {ws ! q @ u |u. prefix u (c # cs)}"
    using ih(6) Cons.prems(2) unfolding prefix_snoc_set by auto
  ultimately show ?case
    using ih same_rows_trans [OF same3 ih(7)]
    by (intro exI [of _ acsm'] exI [of _ "(ws ! q @ [c]) # ws'"] exI [of _ k]) auto
qed

lemma trie_inv_dept [simp]: "trie_inv ws ps (acsm\<lparr>dept := D\<rparr>) \<longleftrightarrow> trie_inv ws ps acsm"
  by (simp add: trie_inv_def trie_shape_def)

lemma AddPatternStates_x_trie:
  assumes inv: "trie_inv ws ps acsm" and wf: "wf_pattern p"
    and room: "length ws + length (patrn p) \<le> length (acsmStateTable acsm)" and dep: "depth_ok ws acsm"
  shows "\<exists>acsm' ws'. AddPatternStates_x p acsm = Some acsm' \<and> trie_inv (ws @ ws') (ps @ [p]) acsm' \<and>
           length ws' \<le> length (patrn p) \<and> acsmPatterns acsm' = acsmPatterns acsm \<and>
           length (acsmStateTable acsm') = length (acsmStateTable acsm) \<and> depth_ok (ws @ ws') acsm'"
proof -
  have shape: "trie_shape ws acsm" using inv by (simp add: trie_inv_def)
  then have w0: "0 < length ws" "ws ! 0 = []" by (auto simp: trie_shape_def trie_words_def)
  from match_existing_trie [OF shape w0(1), of "patrn p"]
  obtain k u rest where m: "match_existing acsm (int 0) (patrn p) = Some (int k, rest)" "k < length ws"
      "patrn p = u @ rest" "ws ! k = ws ! 0 @ u" "rest \<noteq> [] \<longrightarrow> ws ! k @ [hd rest] \<notin> set ws"
    by blast
  have wk: "ws ! k = u" using m(4) w0(2) by simp
  have "length ws + length rest \<le> length (acsmStateTable acsm)" using room m(3) by simp
  from add_states_x_trie [OF shape m(2,5) this dep]
  obtain acsm1 ws' k1 where a: "add_states_x acsm (int k) rest = Some (acsm1, int k1)"
      "trie_shape (ws @ ws') acsm1" "k1 < length (ws @ ws')" "(ws @ ws') ! k1 = patrn p"
      "length ws' = length rest" "set (ws @ ws') = set ws \<union> {ws ! k @ v |v. prefix v rest}"
      "same_rows acsm acsm1" "depth_ok (ws @ ws') acsm1"
    using m(3) wk by auto
  from attach_pattern_trie [OF inv m(2) _ a(2-4) a(6,7)] m(3) wk
  obtain acsm2 where b: "AddMatchListEntry (int k1) p acsm1 = Some acsm2" "trie_inv (ws @ ws') (ps @ [p]) acsm2"
      "acsm2 = set_state (int k1) ((acsmStateTable acsm1 ! k1)
         \<lparr>MatchList := p # MatchList (acsmStateTable acsm1 ! k1)\<rparr>) acsm1"
    by auto
  have "AddPatternStates_x p acsm = Some acsm2"
    using m(1) a(1) b(1) wf by (simp add: AddPatternStates_x_def wf_pattern_def)
  moreover have "acsmPatterns acsm2 = acsmPatterns acsm"
    "length (acsmStateTable acsm2) = length (acsmStateTable acsm)"
    using a(7) by (simp_all add: b(3) same_rows_def)
  moreover have "depth_ok (ws @ ws') acsm2"
    using a(8) by (simp add: b(3) depth_ok_def) (simp add: set_state_def)
  ultimately show ?thesis
    using b(2) a(5) m(3) by (intro exI [of _ acsm2] exI [of _ ws']) simp
qed

lemma add_all_patterns_x:
  assumes wf: "\<forall>p\<in>set (acsmPatterns acsm). wf_pattern p"
  shows "\<exists>acsm' ws. ofold AddPatternStates_x (acsmPatterns acsm) (init_states_x acsm) = Some acsm' \<and>
           trie_inv ws (acsmPatterns acsm) acsm' \<and> acsmPatterns acsm' = acsmPatterns acsm \<and> depth_ok ws acsm'"
proof -
  let ?ps = "acsmPatterns acsm"
  let ?I = "\<lambda>done acsm'. \<exists>ws. trie_inv ws done acsm' \<and> length ws \<le> count_states done \<and>
      acsmPatterns acsm' = ?ps \<and> length (acsmStateTable acsm') = count_states ?ps \<and> depth_ok ws acsm'"
  have "\<exists>s'. ofold AddPatternStates_x ?ps (init_states_x acsm) = Some s' \<and> ?I ?ps s'"
  proof (rule ofold_rule [where I = ?I])
    show "?I [] (init_states_x acsm)"
      using trie_inv_init [of acsm] count_states_append_le [of "[]" ?ps]
      by (intro exI [of _ "[[]]"])
        (simp add: init_states_x_def init_states_def depth_ok_def count_states_def)
  next
    fix "done" p todo s
    assume ps: "?ps = done @ p # todo" and I: "?I done s"
    then obtain ws where ws: "trie_inv ws done s" "length ws \<le> count_states done"
      "acsmPatterns s = ?ps" "length (acsmStateTable s) = count_states ?ps" "depth_ok ws s" by blast
    have p: "wf_pattern p" using wf ps by simp
    have "count_states done + length (patrn p) \<le> count_states ?ps"
      using p ps by (simp add: count_states_def wf_pattern_def)
    then obtain s' ws' where "AddPatternStates_x p s = Some s'" "trie_inv (ws @ ws') (done @ [p]) s'"
      "length ws' \<le> length (patrn p)" "acsmPatterns s' = acsmPatterns s"
      "length (acsmStateTable s') = length (acsmStateTable s)" "depth_ok (ws @ ws') s'"
      using AddPatternStates_x_trie [OF ws(1) p _ ws(5)] ws(2,4) by auto
    then show "\<exists>s'. AddPatternStates_x p s = Some s' \<and> ?I (done @ [p]) s'"
      using ws p by (intro exI [of _ s'] conjI exI [of _ "ws @ ws'"])
        (auto simp: count_states_snoc wf_pattern_def)
  qed
  then show ?thesis by blast
qed

text \<open>Completing the automaton touches neither the depths nor the size of the table.\<close>

definition same_rest :: "'a ACSM_STRUCT_scheme \<Rightarrow> 'a ACSM_STRUCT_scheme \<Rightarrow> bool" where
  "same_rest m m' \<longleftrightarrow> ACSM_STRUCT.more m' = ACSM_STRUCT.more m \<and>
     length (acsmStateTable m') = length (acsmStateTable m)"

lemma same_rest_refl [simp]: "same_rest m m"
  by (simp add: same_rest_def)

lemma same_rest_trans: "same_rest a b \<Longrightarrow> same_rest b c \<Longrightarrow> same_rest a c"
  by (simp add: same_rest_def)

lemma same_rest_set_state [simp]: "same_rest m (set_state s row m') \<longleftrightarrow> same_rest m m'"
  by (simp add: same_rest_def set_state_def)

lemma ofold_same_rest:
  assumes "ofold f xs s = Some s'" "\<And>x s s'. f x s = Some s' \<Longrightarrow> same_rest (g s) (g s')"
  shows "same_rest (g s) (g s')"
  using assms(1)
proof (induction xs arbitrary: s)
  case (Cons x xs)
  then obtain s1 where "f x s = Some s1" "ofold f xs s1 = Some s'" by (auto simp: bind_Some_iff)
  then show ?case using Cons.IH assms(2) same_rest_trans by blast
qed simp

lemma AddMatchListEntry_rest: "AddMatchListEntry s p m = Some m' \<Longrightarrow> same_rest m m'"
  by (auto simp: AddMatchListEntry_def bind_Some_iff)

lemma dfa_char_rest:
  assumes "dfa_char r i qm = Some qm'"
  shows "same_rest (snd qm) (snd qm')"
proof -
  obtain queue m where qm: "qm = (queue, m)" by fastforce
  have copy: "same_rest m m2"
    if "ofold (AddMatchListEntry s) ms (set_state s row m) = Some m2" for s ms row m2
  proof -
    have "same_rest (set_state s row m) m2"
      by (rule ofold_same_rest [where g = "\<lambda>m. m", OF that]) (rule AddMatchListEntry_rest)
    then show ?thesis using same_rest_trans [of m "set_state s row m" m2] by simp
  qed
  show ?thesis
    using assms unfolding qm dfa_char_def
    by (auto simp: bind_Some_iff Let_def dest: copy split: if_splits)
qed

lemma bfs_loop_rest:
  assumes "bfs_loop queue m = Some m'"
  shows "same_rest m m'"
proof (rule bfs_loop.raw_induct [where P = "\<lambda>queue m m'. same_rest m m'", OF _ assms])
  fix loop :: "QUEUE \<Rightarrow> 'a ACSM_STRUCT_scheme \<Rightarrow> 'a ACSM_STRUCT_scheme option" and queue m m'
  assume 1: "\<And>queue m m'. loop queue m = Some m' \<Longrightarrow> same_rest m m'"
    "(if 0 < queue_count queue
      then do { (queue2, acsm2) \<leftarrow>
          ofold (dfa_char (fst (queue_remove queue))) alphabet (snd (queue_remove queue), m);
        loop queue2 acsm2 }
      else Some m) = Some m'"
  show "same_rest m m'"
  proof (cases "queue_count queue > 0")
    case True
    then obtain queue2 m2 where 2:
        "ofold (dfa_char (fst (queue_remove queue))) alphabet (snd (queue_remove queue), m) = Some (queue2, m2)"
        "loop queue2 m2 = Some m'"
      using 1(2) by (auto simp: bind_Some_iff)
    have "same_rest m m2"
      using ofold_same_rest [where g = snd, OF 2(1)] dfa_char_rest by fastforce
    then show ?thesis by (rule same_rest_trans) (rule 1(1) [OF 2(2)])
  next
    case False
    then show ?thesis using 1(2) by simp
  qed
qed

lemma Build_DFA_rest:
  assumes "Build_DFA m = Some m'"
  shows "same_rest m m'"
proof -
  obtain queue m1 where 1: "ofold seed_char alphabet (queue_init, m) = Some (queue, m1)"
      "bfs_loop queue m1 = Some m'"
    using assms by (auto simp: Build_DFA_def bind_Some_iff)
  have "same_rest (snd s) (snd s')" if "seed_char x s = Some s'" for x s s'
    using that by (cases s) (auto simp: seed_char_def bind_Some_iff Let_def split: if_splits)
  then have "same_rest m m1" using ofold_same_rest [where g = snd, OF 1(1)] by fastforce
  then show ?thesis using bfs_loop_rest [OF 1(2)] same_rest_trans by blast
qed

lemma depth_ok_rest: "same_rest m m' \<Longrightarrow> depth_ok ws m \<Longrightarrow> depth_ok ws m'"
  by (cases m; cases m') (simp add: same_rest_def depth_ok_def)

lemma acsmcompile_correct:
  assumes "good_patterns (acsmPatterns acsm)"
  shows "\<exists>acsm' ws. acsmcompile acsm = Some acsm' \<and> compiled ws (acsmPatterns acsm) acsm' \<and>
           acsmPatterns acsm' = acsmPatterns acsm \<and> depth_ok ws acsm'"
proof -
  let ?ps = "acsmPatterns acsm"
  have wf: "\<forall>p\<in>set ?ps. wf_pattern p" and ne: "\<forall>p\<in>set ?ps. patrn p \<noteq> []"
    using assms by (auto simp: good_patterns_def)
  obtain acsm1 ws where 1: "ofold AddPatternStates_x ?ps (init_states_x acsm) = Some acsm1"
      "trie_inv ws ?ps acsm1" "acsmPatterns acsm1 = ?ps" "depth_ok ws acsm1"
    using add_all_patterns_x [OF wf] by blast
  obtain acsm2 where 2: "close_root acsm1 = Some acsm2" "dfa_core ws ?ps (\<lambda>q c. q = 0) {0} acsm2"
      "acsmPatterns acsm2 = ?ps"
    using close_root_correct [OF 1(2) ne] 1(3) by auto
  obtain acsm3 where 3: "Build_DFA acsm2 = Some acsm3" "compiled ws ?ps acsm3"
      "acsmPatterns acsm3 = ?ps"
    using Build_DFA_correct [OF 2(2)] 2(3) by auto
  have "same_rest acsm1 acsm2" using 2(1) by (auto simp: close_root_def bind_Some_iff)
  then have "depth_ok ws acsm3"
    using depth_ok_rest [OF same_rest_trans [OF _ Build_DFA_rest [OF 3(1)]] 1(4)] by simp
  then show ?thesis using 1(1) 2(1) 3 by (auto simp: acsmcompile_def build_DFA_def)
qed

section \<open>The dictionary\<close>

abbreviation down_keys :: "down_matchers \<Rightarrow> string list" where
  "down_keys st \<equiv> map patrn (acsmPatterns (dM st))"

definition down_synced :: "down_matchers \<Rightarrow> bool" where
  "down_synced st \<longleftrightarrow> acsmPatterns (dM st) = acsmPatterns (dN st) \<and>
     (\<forall>p\<in>set (acsmPatterns (dM st)). wf_pattern p \<and> keyword_ok (patrn p))"

definition down_ready :: "down_matchers \<Rightarrow> bool" where
  "down_ready st \<longleftrightarrow> down_synced st \<and>
     (\<exists>ws. compiled ws (acsmPatterns (dM st)) (dM st) \<and> depth_ok ws (dM st))"

lemma down_compile:
  assumes "\<forall>p\<in>set (acsmPatterns N). wf_pattern p \<and> keyword_ok (patrn p)"
    and "acsmPatterns M = acsmPatterns N"
  shows "\<exists>N2. acsmcompile N = Some N2 \<and> down_ready (st\<lparr>dM := N2, dN := M\<rparr>) \<and>
     acsmPatterns N2 = acsmPatterns N"
proof -
  have "good_patterns (acsmPatterns N)"
    using assms(1) by (auto simp: good_patterns_def keyword_ok_def)
  then obtain N2 ws where "acsmcompile N = Some N2" "compiled ws (acsmPatterns N) N2"
      "acsmPatterns N2 = acsmPatterns N" "depth_ok ws N2"
    using acsmcompile_correct by blast
  then show ?thesis using assms by (auto simp: down_ready_def down_synced_def)
qed

lemma down_add:
  assumes "down_synced st" "keyword_ok s"
  shows "\<exists>st'. add_str st s = Some st' \<and> down_ready st' \<and> down_keys st' = s # down_keys st"
proof -
  let ?N = "acsmaddPattern (dN st) s (length s)"
  have new: "acsmPatterns ?N = \<lparr>patrn = s, pat_n = length s\<rparr> # acsmPatterns (dM st)"
    using assms(1) by (simp add: acsmaddPattern_def acsmAddPattern_def down_synced_def)
  have "\<forall>p\<in>set (acsmPatterns ?N). wf_pattern p \<and> keyword_ok (patrn p)"
    using assms by (simp add: new down_synced_def wf_pattern_def)
  from down_compile [OF this, of "(dM st)\<lparr>acsmPatterns := acsmPatterns ?N\<rparr>" st] new
  show ?thesis by (auto simp: add_str_def Let_def)
qed

lemma down_del:
  assumes sync: "down_synced st" and ne: "down_keys st \<noteq> []"
  shows "\<exists>st'. del_str st s = Some st' \<and> down_ready st' \<and> down_keys st' = remove1 s (down_keys st)"
proof -
  let ?ps = "acsmPatterns (dN st)"
  have same: "acsmPatterns (dM st) = ?ps" and ok: "\<forall>p\<in>set ?ps. wf_pattern p \<and> keyword_ok (patrn p)"
    using sync by (simp_all add: down_synced_def)
  obtain p ps where b: "?ps = p # ps" using ne same by (cases ?ps) auto
  define rest where "rest = (if s = patrn p then ps else p # unlink_pattern ps s)"
  have keys: "map patrn rest = remove1 s (map patrn ?ps)"
    using ok b by (simp add: rest_def keyword_ok_def unlink_pattern_remove1)
  have sub: "set rest \<subseteq> set ?ps"
    using unlink_pattern_subset [of ps s] by (auto simp: rest_def b)
  have del: "acsmdelPattern (dN st) s = Some ((dN st)\<lparr>acsmPatterns := rest\<rparr>)"
    using ok b by (auto simp: acsmdelPattern_def acsmDelPattern_def rest_def keyword_ok_def)
  have "\<forall>p\<in>set (acsmPatterns ((dN st)\<lparr>acsmPatterns := rest\<rparr>)). wf_pattern p \<and> keyword_ok (patrn p)"
    using ok sub by auto
  from down_compile [OF this, of "(dM st)\<lparr>acsmPatterns := rest\<rparr>" st] keys same
  show ?thesis by (auto simp: del_str_def del Let_def)
qed

interpretation down: keyword_store down_keys down_synced down_ready add_str del_str
proof (unfold_locales, goal_cases)
  case (3 st s)
  then show ?case by (rule down_add)
next
  case (4 st s)
  then show ?case by (rule down_del)
next
  case (5 st s)
  then show ?case by (simp add: down_synced_def del_str_def acsmdelPattern_def acsmDelPattern_def)
qed (auto simp: down_ready_def down_synced_def)

lemma down_ac_synced: "down_synced down_ac" "down_keys down_ac = []"
  by (simp_all add: down_synced_def down_ac_def acsmnew_def)

section \<open>What a step of the scan reports\<close>

lemma strcpys_ok:
  "\<forall>m\<in>set ms. length (patrn m) < length buf \<and> NUL \<notin> set (patrn m) \<Longrightarrow>
   \<exists>buf'. ofold (\<lambda>m kw. strcpy_buf kw (patrn m)) ms buf = Some buf' \<and> length buf' = length buf \<and>
     (ms \<noteq> [] \<longrightarrow> buf_str buf' = Some (patrn (last ms))) \<and> (ms = [] \<longrightarrow> buf' = buf)"
proof (induction ms rule: rev_induct)
  case (snoc m ms)
  then obtain buf1 where 1: "ofold (\<lambda>m kw. strcpy_buf kw (patrn m)) ms buf = Some buf1"
    "length buf1 = length buf" by auto
  have m: "length (patrn m) < length buf1" "NUL \<notin> set (patrn m)" using snoc.prems 1(2) by auto
  then have "strcpy_buf buf1 (patrn m) = Some (patrn m @ NUL # drop (Suc (length (patrn m))) buf1)"
    by (simp add: strcpy_buf_def)
  then show ?case using 1 m by (simp add: ofold_append buf_str_def cstr_append)
qed simp

text \<open>
  From the state of the text read so far, a step reports 0 when a keyword ends, 1 when
  at least \<open>CDepth\<close> characters at the end of the text may start one, and 2 otherwise.
\<close>

lemma scanAC_step:
  assumes comp: "compiled ws ps m" and dep: "depth_ok ws m" and k: "k < length ws" "ws ! k = lsuf ws x"
    and bounded: "\<forall>p\<in>set ps. length (patrn p) < length kw \<and> NUL \<notin> set (patrn p)"
  shows "\<exists>k' status kw'. scanAC m (int k) c kw = Some (int k', status, kw') \<and> k' < length ws \<and>
     ws ! k' = lsuf ws (x @ [c]) \<and> length kw' = length kw \<and>
     status = (if \<exists>p\<in>set ps. suffix (patrn p) (x @ [c]) then 0
               else if CDepth \<le> length (lsuf ws (x @ [c])) then 1 else 2) \<and>
     (status = 0 \<longrightarrow> (\<exists>p\<in>set ps. suffix (patrn p) (x @ [c]) \<and> buf_str kw' = Some (patrn p))) \<and>
     (status \<noteq> 0 \<longrightarrow> kw' = kw)"
proof -
  have core: "dfa_core ws ps (\<lambda>_ _. True) {..<length ws} m" using comp by (simp add: compiled_def)
  have tw: "trie_words ws" by (rule dfa_core_words [OF core])
  note len = dfa_core_length [OF core]
  obtain k1 where k1: "NextState (acsmStateTable m ! k) c = int k1" "k1 < length ws"
      "ws ! k1 = lsuf ws (x @ [c])"
    using dfa_core_done [OF core k(1) TrueI, of c] k(2) lsuf_snoc [OF tw, of x c]
    by (auto simp: to_state_def)
  let ?ms = "MatchList (acsmStateTable m ! k1)"
  have "suffix (patrn p) (lsuf ws (x @ [c])) \<longleftrightarrow> suffix (patrn p) (x @ [c])" if "p \<in> set ps" for p
  proof -
    have "patrn p \<in> set ws" using core that by (auto simp: dfa_core_def words_of_def)
    then show ?thesis using lsuf_max lsuf_suffix suffix_order.trans by blast
  qed
  moreover have "mset ?ms = filter_mset (\<lambda>p. suffix (patrn p) (lsuf ws (x @ [c]))) (mset ps)"
    using dfa_core_seen [OF core, of k1] k1(2,3) by (simp add: match_full_def)
  then have "set ?ms = {p \<in> set ps. suffix (patrn p) (lsuf ws (x @ [c]))}"
    by (metis set_mset_filter set_mset_mset)
  ultimately have ms: "set ?ms = {p \<in> set ps. suffix (patrn p) (x @ [c])}" by auto
  then obtain kw' where kw': "ofold (\<lambda>m kw. strcpy_buf kw (patrn m)) ?ms kw = Some kw'"
      "length kw' = length kw" "?ms \<noteq> [] \<longrightarrow> buf_str kw' = Some (patrn (last ?ms))" "?ms = [] \<longrightarrow> kw' = kw"
    using strcpys_ok [of ?ms kw] bounded by auto
  have rows: "state_at m (int k) = Some (acsmStateTable m ! k)" "state_at m (int k1) = Some (acsmStateTable m ! k1)"
    using k(1) k1(2) len by simp_all
  have dept: "dept_at m (int k1) = Some (length (lsuf ws (x @ [c])))"
    using dep k1(2,3) len by (simp add: dept_at_def depth_ok_def)
  have fsm: "fsm m (int k) c 0 kw = Some (int k1, if ?ms \<noteq> [] then 1 else 0, kw')"
    by (simp add: fsm_def rows k1(1) kw'(1) Let_def)
  show ?thesis
  proof (cases "?ms = []")
    case True
    then have "\<not> (\<exists>p\<in>set ps. suffix (patrn p) (x @ [c]))" using ms by auto
    then show ?thesis using True k1(2,3) kw'(2,4) dept fsm
      by (intro exI [of _ k1] exI [of _ "if CDepth \<le> length (lsuf ws (x @ [c])) then 1 else 2"] exI [of _ kw'])
        (simp add: scanAC_def)
  next
    case False
    then have "last ?ms \<in> set ps \<and> suffix (patrn (last ?ms)) (x @ [c])" using ms last_in_set by blast
    then show ?thesis using False k1(2,3) kw'(2,3) fsm
      by (intro exI [of _ k1] exI [of _ 0] exI [of _ kw']) (auto simp: scanAC_def)
  qed
qed

fun scan_text :: "ACSMX_STRUCT \<Rightarrow> int \<Rightarrow> string \<Rightarrow> char list \<Rightarrow> int list option" where
  \<comment> \<open>the statuses that scanning a text byte by byte reports\<close>
  "scan_text m state [] kw = Some []"
| "scan_text m state (c # T) kw = do {
     (state1, status, kw1) \<leftarrow> scanAC m state c kw;
     rest \<leftarrow> scan_text m state1 T kw1;
     Some (status # rest) }"

definition scan_status :: "string list \<Rightarrow> string \<Rightarrow> int" where
  "scan_status ks read =
     (if \<exists>k\<in>set ks. suffix k read then 0
      else if \<exists>u\<in>set (suffixes read). CDepth \<le> length u \<and> (\<exists>k\<in>set ks. prefix u k) then 1 else 2)"

lemma compiled_words: "compiled ws ps m \<Longrightarrow> trie_words ws \<and> set ws = words_of ps"
  by (simp add: compiled_def dfa_core_def)

lemma deep_iff:
  assumes "trie_words ws" "set ws = words_of ps"
  shows "CDepth \<le> length (lsuf ws y) \<longleftrightarrow>
    (\<exists>u\<in>set (suffixes y). CDepth \<le> length u \<and> (\<exists>k\<in>set (map patrn ps). prefix u k))"
proof
  assume deep: "CDepth \<le> length (lsuf ws y)"
  have "lsuf ws y \<in> set ws" by (rule lsuf_in [OF trie_words_Nil [OF assms(1)]])
  then have "\<exists>k\<in>set (map patrn ps). prefix (lsuf ws y) k"
    using deep assms(2) by (auto simp: words_of_def CDepth_def)
  then show "\<exists>u\<in>set (suffixes y). CDepth \<le> length u \<and> (\<exists>k\<in>set (map patrn ps). prefix u k)"
    using deep lsuf_suffix [of ws y] by auto
next
  assume "\<exists>u\<in>set (suffixes y). CDepth \<le> length u \<and> (\<exists>k\<in>set (map patrn ps). prefix u k)"
  then obtain u k where u: "u \<in> set (suffixes y)" "CDepth \<le> length u" "k \<in> set (map patrn ps)" "prefix u k"
    by blast
  then have "u \<in> set ws" using assms(2) by (auto simp: words_of_def)
  moreover have "suffix u y" using u(1) by simp
  ultimately show "CDepth \<le> length (lsuf ws y)" using u(2) suffix_length_le [OF lsuf_max] by fastforce
qed

lemma scan_status_compiled:
  assumes "compiled ws ps m"
  shows "(if \<exists>p\<in>set ps. suffix (patrn p) y then 0 else if CDepth \<le> length (lsuf ws y) then 1 else 2) =
    scan_status (map patrn ps) y"
  using deep_iff [of ws ps y] compiled_words [OF assms] by (simp add: scan_status_def)

lemma scan_text_run:
  assumes "compiled ws ps m" "depth_ok ws m" "k < length ws" "ws ! k = lsuf ws x"
    and "\<forall>p\<in>set ps. length (patrn p) < length kw \<and> NUL \<notin> set (patrn p)"
  shows "scan_text m (int k) T kw =
    Some (map (\<lambda>i. scan_status (map patrn ps) (x @ take (Suc i) T)) [0..<length T])"
  using assms(3-)
proof (induction T arbitrary: k x kw)
  case (Cons c T)
  obtain k' status kw' where s: "scanAC m (int k) c kw = Some (int k', status, kw')" "k' < length ws"
     "ws ! k' = lsuf ws (x @ [c])" "length kw' = length kw"
     "status = (if \<exists>p\<in>set ps. suffix (patrn p) (x @ [c]) then 0
        else if CDepth \<le> length (lsuf ws (x @ [c])) then 1 else 2)"
    using scanAC_step [OF assms(1,2) Cons.prems] by blast
  have "status = scan_status (map patrn ps) (x @ [c])"
    using s(5) unfolding scan_status_compiled [OF assms(1)] .
  moreover have "[0..<length (c # T)] = 0 # map Suc [0..<length T]"
    by (simp add: map_Suc_upt upt_conv_Cons del: upt_Suc)
  ultimately show ?case using s(1) Cons.IH [OF s(2,3)] Cons.prems(3) s(4) by (simp add: o_def)
qed simp

section \<open>Keywords in JSON pages\<close>

text \<open>
  \<open>strtounicode\<close> reads the bytes of the string, its terminator included, and leaves the bytes
  it stores to \<open>des\<close>; a store outside \<open>des\<close> is checked at the end by the caller's buffer of 1024.
\<close>

definition valueToHexCh :: "8 word \<Rightarrow> char" where
  "valueToHexCh value = (if value \<le> 9 then char_of (unat (value + 48)) else char_of (unat (value - 10 + 97)))"

definition byte :: "char \<Rightarrow> 8 word" where
  "byte c = word_of_nat (of_char c)"

definition escape_bytes :: "8 word \<Rightarrow> 8 word \<Rightarrow> string" where
  \<comment> \<open>the four digits of \<open>unicode[0]\<close> and \<open>unicode[1]\<close>\<close>
  "escape_bytes u0 u1 = map valueToHexCh
     [drop_bit 4 (u0 AND 0xF0), u0 AND 0x0F, drop_bit 4 (u1 AND 0xF0), u1 AND 0x0F]"

function unicode_loop :: "char list \<Rightarrow> string \<Rightarrow> (int \<times> string) option" where
  "unicode_loop str out = (case str of
     [] \<Rightarrow> None
   | c # rest \<Rightarrow>
       if c = NUL then Some (0, out @ [NUL])
       else if byte c AND 0x80 = 0 then unicode_loop rest (out @ [c])
       else (case rest of
          b2 # b3 # rest2 \<Rightarrow>
            if byte b2 AND 0xC0 \<noteq> 0x80 \<or> byte b3 AND 0xC0 \<noteq> 0x80 then Some (1, out @ (CHR 0x5C # ''u''))
            else unicode_loop rest2 (out @ (CHR 0x5C # ''u'') @ escape_bytes
                   (push_bit 4 (byte c) + (drop_bit 2 (byte b2) AND 0x0F))
                   (push_bit 6 (byte b2) + (byte b3 AND 0x3F)))
        | _ \<Rightarrow> None))"
  by pat_completeness auto
termination
  by (relation "measure (\<lambda>(str, out). length str)") auto

declare unicode_loop.simps [simp del]

definition strtounicode :: "char list \<Rightarrow> (int \<times> string) option" where
  "strtounicode src = unicode_loop src []"

text \<open>The characters of the basic multilingual plane outside Latin, Greek and the like: ASCII and
  those of three bytes, with their UTF-8 encoding and their JSON escape.\<close>

definition wide_char :: "nat \<Rightarrow> bool" where
  "wide_char n \<longleftrightarrow> 0 < n \<and> n < 128 \<or> 0x800 \<le> n \<and> n < 0x10000"

definition utf8 :: "nat \<Rightarrow> string" where
  "utf8 n = (if n < 128 then [char_of n]
     else [char_of (0xE0 + n div 4096), char_of (0x80 + n div 64 mod 64), char_of (0x80 + n mod 64)])"

definition hex_low :: "nat \<Rightarrow> char" where
  "hex_low d = (if d \<le> 9 then char_of (48 + d) else char_of (87 + d))"

definition json_char :: "nat \<Rightarrow> string" where
  "json_char n = (if n < 128 then [char_of n]
     else CHR 0x5C # ''u'' @ map hex_low [n div 4096, n div 256 mod 16, n div 16 mod 16, n mod 16])"

lemma list_all_upto: "list_all P [0..n] \<Longrightarrow> int k \<le> n \<Longrightarrow> P (int k)"
  by (simp add: list_all_iff)

lemma byte_char_of: "n < 256 \<Longrightarrow> byte (char_of n) = word_of_int (int n)"
  by (simp add: byte_def)

lemma cont_byte:
  fixes b :: nat
  assumes "b < 64"
  shows "byte (char_of (0x80 + b)) AND 0xC0 = 0x80"
    and "drop_bit 2 (byte (char_of (0x80 + b))) AND 0x0F = word_of_int (int b div 4)"
    and "push_bit 6 (byte (char_of (0x80 + b))) = word_of_int (int b mod 4 * 64)"
    and "byte (char_of (0x80 + b)) AND 0x3F = word_of_int (int b)"
proof -
  have "list_all (\<lambda>i. (word_of_int (128 + i) :: 8 word) AND 0xC0 = 0x80 \<and>
      drop_bit 2 (word_of_int (128 + i) :: 8 word) AND 0x0F = word_of_int (i div 4) \<and>
      push_bit 6 (word_of_int (128 + i) :: 8 word) = word_of_int (i mod 4 * 64) \<and>
      (word_of_int (128 + i) :: 8 word) AND 0x3F = word_of_int i) [0..63::int]" by code_simp
  from list_all_upto [OF this, of b] assms
  show "byte (char_of (0x80 + b)) AND 0xC0 = 0x80"
    and "drop_bit 2 (byte (char_of (0x80 + b))) AND 0x0F = word_of_int (int b div 4)"
    and "push_bit 6 (byte (char_of (0x80 + b))) = word_of_int (int b mod 4 * 64)"
    and "byte (char_of (0x80 + b)) AND 0x3F = word_of_int (int b)"
    by (simp_all add: byte_char_of)
qed

lemma lead_byte:
  fixes a :: nat
  assumes "a < 16"
  shows "byte (char_of (0xE0 + a)) AND 0x80 \<noteq> 0"
    and "push_bit 4 (byte (char_of (0xE0 + a))) = word_of_int (int a * 16)"
proof -
  have "list_all (\<lambda>i. (word_of_int (0xE0 + i) :: 8 word) AND 0x80 \<noteq> 0 \<and>
      push_bit 4 (word_of_int (0xE0 + i) :: 8 word) = word_of_int (i * 16)) [0..15::int]" by code_simp
  from list_all_upto [OF this, of a] assms
  show "byte (char_of (0xE0 + a)) AND 0x80 \<noteq> 0"
    and "push_bit 4 (byte (char_of (0xE0 + a))) = word_of_int (int a * 16)"
    by (simp_all add: byte_char_of)
qed

lemma ascii_byte:
  fixes n :: nat
  assumes "n < 128"
  shows "byte (char_of n) AND 0x80 = 0"
proof -
  have "list_all (\<lambda>i. (word_of_int i :: 8 word) AND 0x80 = 0) [0..127::int]" by code_simp
  from list_all_upto [OF this, of n] assms show ?thesis by (simp add: byte_char_of)
qed

lemma char_of_not_NUL:
  fixes n :: nat
  assumes "0 < n" "n < 256"
  shows "char_of n \<noteq> NUL"
proof
  assume "char_of n = NUL"
  then have "of_char (char_of n) = (of_char NUL :: nat)" by simp
  then show False using assms by simp
qed

lemma hex_of_byte:
  fixes v :: nat
  assumes "v < 256"
  shows "[valueToHexCh (drop_bit 4 (word_of_int (int v) AND 0xF0)), valueToHexCh (word_of_int (int v) AND 0x0F)] =
    [hex_low (v div 16), hex_low (v mod 16)]"
proof -
  have "list_all (\<lambda>i. drop_bit 4 (word_of_int i AND 0xF0 :: 8 word) = word_of_int (i div 16) \<and>
      (word_of_int i AND 0x0F :: 8 word) = word_of_int (i mod 16)) [0..255::int]" by code_simp
  from list_all_upto [OF this, of v] assms
  have w: "drop_bit 4 (word_of_int (int v) AND 0xF0 :: 8 word) = word_of_int (int (v div 16))"
    "(word_of_int (int v) AND 0x0F :: 8 word) = word_of_int (int (v mod 16))"
    by (simp_all add: zdiv_int zmod_int)
  have "list_all (\<lambda>i. valueToHexCh (word_of_int i) = hex_low (nat i)) [0..15::int]" by code_simp
  from list_all_upto [OF this, of "v div 16"] list_all_upto [OF this, of "v mod 16"] assms
  show ?thesis unfolding w by simp
qed

lemma unicode_loop_ascii:
  fixes n :: nat
  assumes "0 < n" "n < 128"
  shows "unicode_loop (char_of n # rest) out = unicode_loop rest (out @ [char_of n])"
  using assms ascii_byte [of n] char_of_not_NUL [of n] by (subst unicode_loop.simps) simp

lemma unicode_loop_three:
  "c \<noteq> NUL \<Longrightarrow> byte c AND 0x80 \<noteq> 0 \<Longrightarrow> byte b2 AND 0xC0 = 0x80 \<Longrightarrow> byte b3 AND 0xC0 = 0x80 \<Longrightarrow>
   unicode_loop (c # b2 # b3 # rest) out =
     unicode_loop rest (out @ (CHR 0x5C # ''u'') @ escape_bytes
       (push_bit 4 (byte c) + (drop_bit 2 (byte b2) AND 0x0F)) (push_bit 6 (byte b2) + (byte b3 AND 0x3F)))"
  by (subst unicode_loop.simps) simp

lemma unicode_loop_bad:
  "c \<noteq> NUL \<Longrightarrow> byte c AND 0x80 \<noteq> 0 \<Longrightarrow> byte b2 AND 0xC0 \<noteq> 0x80 \<or> byte b3 AND 0xC0 \<noteq> 0x80 \<Longrightarrow>
   unicode_loop (c # b2 # b3 # rest) out = Some (1, out @ (CHR 0x5C # ''u''))"
  "c \<noteq> NUL \<Longrightarrow> byte c AND 0x80 \<noteq> 0 \<Longrightarrow> unicode_loop [c, b2] out = None"
  by (subst unicode_loop.simps; simp)+

lemma unicode_loop_wide:
  assumes "0x800 \<le> n" "n < 0x10000"
  shows "unicode_loop (utf8 n @ rest) out = unicode_loop rest (out @ json_char n)"
proof -
  define a where "a = n div 4096"
  define b where "b = n div 64 mod 64"
  define c where "c = n mod 64"
  have abc: "a < 16" "b < 64" "c < 64" using assms by (simp_all add: a_def b_def c_def)
  have utf8: "utf8 n = [char_of (0xE0 + a), char_of (0x80 + b), char_of (0x80 + c)]"
    using assms by (simp add: utf8_def a_def b_def c_def)
  define u0 where "u0 = a * 16 + b div 4"
  define u1 where "u1 = b mod 4 * 64 + c"
  have u: "u0 < 256" "u1 < 256" using abc by (simp_all add: u0_def u1_def)
  have "push_bit 4 (byte (char_of (0xE0 + a))) + (drop_bit 2 (byte (char_of (0x80 + b))) AND 0x0F)
      = word_of_int (int u0)"
    by (simp only: lead_byte [OF abc(1)] cont_byte [OF abc(2)] u0_def wi_hom_add of_nat_add of_nat_mult zdiv_int of_nat_numeral)
  moreover have "push_bit 6 (byte (char_of (0x80 + b))) + (byte (char_of (0x80 + c)) AND 0x3F)
      = word_of_int (int u1)"
    by (simp only: cont_byte [OF abc(2)] cont_byte [OF abc(3)] u1_def wi_hom_add of_nat_add of_nat_mult zmod_int of_nat_numeral)
  moreover have "escape_bytes (word_of_int (int u0)) (word_of_int (int u1)) =
      map hex_low [u0 div 16, u0 mod 16, u1 div 16, u1 mod 16]"
    using hex_of_byte [OF u(1)] hex_of_byte [OF u(2)] by (simp add: escape_bytes_def)
  moreover have "u0 div 16 = n div 4096" "u0 mod 16 = n div 256 mod 16"
    "u1 div 16 = n div 16 mod 16" "u1 mod 16 = n mod 16"
  proof -
    define x where "x = n div 64"
    have b: "b = x mod 64" "b div 4 < 16" using abc by (simp_all add: b_def x_def)
    have n: "n = x * 64 + c" by (simp add: x_def c_def)
    have "u0 div 16 = a" "u0 mod 16 = b div 4" using b(2) by (simp_all add: u0_def)
    moreover have "b = 4 * (x div 4 mod 16) + x mod 4" using mod_mult2_eq [of x 4 16] by (simp add: b(1))
    then have "b div 4 = x div 4 mod 16" by simp
    moreover have "x div 4 = n div 256" by (simp add: x_def div_mult2_eq [symmetric])
    ultimately show "u0 div 16 = n div 4096" "u0 mod 16 = n div 256 mod 16" by (simp_all add: a_def)
    have bx: "b mod 4 = x mod 4" by (simp add: b(1) mod_mod_cancel)
    have "u1 = c + (x mod 4 * 4) * 16" by (simp add: u1_def bx)
    then have u1: "u1 div 16 = x mod 4 * 4 + c div 16" "u1 mod 16 = c mod 16" by (simp_all only: div_mult_self1 mod_mult_self1)
    have "n = c + (x * 4) * 16" using n by simp
    then have n16: "n div 16 = x * 4 + c div 16" "n mod 16 = c mod 16" by (simp_all only: div_mult_self1 mod_mult_self1)
    have "x * 4 + c div 16 = (x mod 4 * 4 + c div 16) + (x div 4) * 16"
      using div_mult_mod_eq [of x 4] by linarith
    then have "n div 16 mod 16 = x mod 4 * 4 + c div 16" using abc(3) by (simp only: n16 mod_mult_self1) simp
    then show "u1 div 16 = n div 16 mod 16" using u1(1) by simp
    show "u1 mod 16 = n mod 16" using u1(2) n16(2) by simp
  qed
  ultimately have "escape_bytes
      (push_bit 4 (byte (char_of (0xE0 + a))) + (drop_bit 2 (byte (char_of (0x80 + b))) AND 0x0F))
      (push_bit 6 (byte (char_of (0x80 + b))) + (byte (char_of (0x80 + c)) AND 0x3F)) =
      map hex_low [n div 4096, n div 256 mod 16, n div 16 mod 16, n mod 16]"
    by simp
  then have escape: "(CHR 0x5C # ''u'') @ escape_bytes
      (push_bit 4 (byte (char_of (0xE0 + a))) + (drop_bit 2 (byte (char_of (0x80 + b))) AND 0x0F))
      (push_bit 6 (byte (char_of (0x80 + b))) + (byte (char_of (0x80 + c)) AND 0x3F)) = json_char n"
    using assms by (simp only: json_char_def) simp
  have "char_of (0xE0 + a) \<noteq> NUL" using abc(1) by (intro char_of_not_NUL) simp_all
  from unicode_loop_three [OF this lead_byte(1) [OF abc(1)] cont_byte(1) [OF abc(2)] cont_byte(1) [OF abc(3)],
      of rest out]
  show ?thesis unfolding escape utf8 by (simp only: append_Cons append_Nil)
qed

lemma unicode_loop_wide_chars:
  assumes "\<forall>n\<in>set ns. wide_char n"
  shows "unicode_loop (concat (map utf8 ns) @ rest) out = unicode_loop rest (out @ concat (map json_char ns))"
  using assms
proof (induction ns arbitrary: out)
  case (Cons n ns)
  have n: "wide_char n" using Cons.prems by simp
  have "unicode_loop (utf8 n @ r) out = unicode_loop r (out @ json_char n)" for r
  proof (cases "n < 128")
    case True
    then have "utf8 n = [char_of n]" "json_char n = [char_of n]" by (simp_all only: utf8_def json_char_def if_True)
    then show ?thesis using unicode_loop_ascii [of n r out] n True by (simp add: wide_char_def)
  next
    case False
    then show ?thesis using unicode_loop_wide [of n r out] n unfolding wide_char_def by blast
  qed
  then show ?case using Cons by simp
qed simp

lemma list_updates_subset:
  "ofold list_update_step us ks = Some ks' \<Longrightarrow> set ks' \<subseteq> set ks \<union> {s. Add s \<in> set us}"
proof (induction us arbitrary: ks)
  case (Cons u us)
  then obtain ks1 where 1: "list_update_step u ks = Some ks1" "ofold list_update_step us ks1 = Some ks'"
    by (auto simp: bind_Some_iff)
  have "set ks1 \<subseteq> set ks \<union> {s. Add s = u}"
  proof (cases u)
    case (Del s)
    then show ?thesis using 1(1) set_remove1_subset [of s ks] by (auto split: if_splits)
  qed (use 1(1) in auto)
  then show ?case using Cons.IH [OF 1(2)] by auto
qed simp

text \<open>The response dictionary after any updates: compiled, with the depths of its states.\<close>

lemma down_store:
  assumes "\<forall>u\<in>set us. update_ok u" "us \<noteq> []" "\<forall>s. Add s \<in> set us \<longrightarrow> length s < 1024"
    and "ofold list_update_step us [] = Some ks"
  shows "\<exists>st ws. ofold (apply_update add_str del_str) us down_ac = Some st \<and> down_keys st = ks \<and>
     compiled ws (acsmPatterns (dM st)) (dM st) \<and> depth_ok ws (dM st) \<and>
     (\<forall>p\<in>set (acsmPatterns (dM st)). length (patrn p) < 1024 \<and> NUL \<notin> set (patrn p) \<and> patrn p \<noteq> [])"
proof -
  obtain st where st: "ofold (apply_update add_str del_str) us down_ac = Some st"
      "down_ready st" "down_keys st = ks"
    using down.updates_refine [OF down_ac_synced(1) assms(1)] down_ac_synced(2) assms(2,4) by auto
  have "\<forall>k\<in>set ks. length k < 1024"
    using list_updates_subset [OF assms(4)] assms(3) by auto
  then have "\<forall>p\<in>set (acsmPatterns (dM st)). length (patrn p) < 1024 \<and> NUL \<notin> set (patrn p) \<and> patrn p \<noteq> []"
    using st(2,3) by (auto simp: down_ready_def down_synced_def keyword_ok_def)
  then show ?thesis using st by (auto simp: down_ready_def)
qed

section \<open>Properties\<close>

text \<open>C20: after any sequence of additions and deletions of keywords (of fewer than 1024 bytes) on
  the response dictionary, scanning any text byte by byte reports for every prefix of it: 0 when a
  keyword ends there, otherwise 1 when at least \<open>CDepth\<close> of its last characters start a
  keyword, and 2 otherwise; deleting from the empty dictionary dereferences the null pointer.\<close>

theorem down_scan_classifies:
  assumes "\<forall>u\<in>set us. update_ok u" "us \<noteq> []" "length kw = 1024"
    and "\<forall>s. Add s \<in> set us \<longrightarrow> length s < 1024"
  shows "case ofold list_update_step us [] of
           None \<Rightarrow> ofold (apply_update add_str del_str) us down_ac = None
         | Some ks \<Rightarrow> (\<exists>st. ofold (apply_update add_str del_str) us down_ac = Some st \<and>
             (\<forall>T. scan_text (dM st) 0 T kw =
                Some (map (\<lambda>i. scan_status ks (take (Suc i) T)) [0..<length T])))"
proof (cases "ofold list_update_step us []")
  case None
  then show ?thesis
    using down.updates_refine [OF down_ac_synced(1) assms(1)] down_ac_synced(2) by simp
next
  case (Some ks)
  obtain st ws where st: "ofold (apply_update add_str del_str) us down_ac = Some st" "down_keys st = ks"
      and ws: "compiled ws (acsmPatterns (dM st)) (dM st)" "depth_ok ws (dM st)"
      and bounded: "\<forall>p\<in>set (acsmPatterns (dM st)). length (patrn p) < 1024 \<and> NUL \<notin> set (patrn p) \<and> patrn p \<noteq> []"
    using down_store [OF assms(1,2,4) Some] by blast
  have tw: "trie_words ws" using compiled_words [OF ws(1)] by simp
  then have "0 < length ws" "ws ! 0 = lsuf ws []"
    using lsuf_word [OF trie_words_Nil [OF tw]] by (simp_all add: trie_words_def)
  moreover have "\<forall>p\<in>set (acsmPatterns (dM st)). length (patrn p) < length kw \<and> NUL \<notin> set (patrn p)"
    using bounded assms(3) by simp
  ultimately have "scan_text (dM st) (int 0) T kw =
      Some (map (\<lambda>i. scan_status (down_keys st) ([] @ take (Suc i) T)) [0..<length T])" for T
    by (rule scan_text_run [OF ws])
  then show ?thesis using Some st by simp
qed

theorem down_scan_classifies_witness:
  "\<exists>st. ofold (apply_update add_str del_str) [Add ''abcdef'', Add ''xyz'', Del ''xyz''] down_ac = Some st \<and>
     scan_text (dM st) 0 ''abcd'' (replicate 1024 NUL) = Some [2, 2, 2, 1]"
proof -
  have "ofold list_update_step [Add ''abcdef'', Add ''xyz'', Del ''xyz''] [] = Some [''abcdef'']" by simp
  moreover have "map (\<lambda>i. scan_status [''abcdef''] (take (Suc i) ''abcd'')) [0..<length ''abcd''] = [2, 2, 2, 1]"
    by (simp add: scan_status_def CDepth_def suffix_def upt_rec)
  moreover have "case ofold list_update_step [Add ''abcdef'', Add ''xyz'', Del ''xyz''] [] of
      None \<Rightarrow> ofold (apply_update add_str del_str) [Add ''abcdef'', Add ''xyz'', Del ''xyz''] down_ac = None
    | Some ks \<Rightarrow> (\<exists>st. ofold (apply_update add_str del_str) [Add ''abcdef'', Add ''xyz'', Del ''xyz''] down_ac = Some st \<and>
       (\<forall>T. scan_text (dM st) 0 T (replicate 1024 NUL) =
          Some (map (\<lambda>i. scan_status ks (take (Suc i) T)) [0..<length T])))"
    by (rule down_scan_classifies) (auto simp: keyword_ok_def)
  ultimately obtain st where
    "ofold (apply_update add_str del_str) [Add ''abcdef'', Add ''xyz'', Del ''xyz''] down_ac = Some st"
    "scan_text (dM st) 0 ''abcd'' (replicate 1024 NUL) = Some [2, 2, 2, 1]"
    by (simp only: option.case) metis
  then show ?thesis by blast
qed

text \<open>A keyword of ASCII characters and of characters with three UTF-8 bytes is turned into the
  JSON string of the same characters: ASCII as it is, the others as a backslash, \<open>u\<close> and the four
  hexadecimal digits of the code point.\<close>

lemma strtounicode_escapes:
  assumes "\<forall>n\<in>set ns. wide_char n"
  shows "strtounicode (concat (map utf8 ns) @ [NUL]) = Some (0, concat (map json_char ns) @ [NUL])"
proof -
  have "unicode_loop [NUL] out = Some (0, out @ [NUL])" for out
    by (subst unicode_loop.simps) simp
  then show ?thesis
    unfolding strtounicode_def unicode_loop_wide_chars [OF assms] by simp
qed

lemma strtounicode_escapes_witness:
  "strtounicode (CHR ''a'' # CHR 0xE4 # CHR 0xB8 # CHR 0xAD # [NUL]) =
     Some (0, CHR ''a'' # CHR 0x5C # ''u4e2d'' @ [NUL])"
proof -
  have "concat (map utf8 [97, 0x4E2D]) = [CHR ''a'', CHR 0xE4, CHR 0xB8, CHR 0xAD]"
    "concat (map json_char [97, 0x4E2D]) = CHR ''a'' # CHR 0x5C # ''u4e2d''"
    by (simp_all add: utf8_def json_char_def hex_low_def char_of_def bit_0)
  then show ?thesis using strtounicode_escapes [of "[97, 0x4E2D]"] by (simp add: wide_char_def)
qed

text \<open>A keyword with a character of two UTF-8 bytes (Latin, Greek, Cyrillic, Arabic, ...) is
  rejected, because the loop takes the first byte of what follows it (a character or the
  terminator) for its third byte; and on a keyword cut after the first byte of a character the loop
  reads behind the terminator.\<close>

lemma strtounicode_two_bytes:
  assumes "0xC0 \<le> a" "a < 0xE0" "c < 128 \<or> 0xC0 \<le> c \<and> c < 256" and "\<forall>n\<in>set ns. wide_char n"
  shows "(\<exists>out. strtounicode (concat (map utf8 ns) @ [char_of a, b, char_of (c :: nat)] @ rest) = Some (1, out)) \<and>
     strtounicode (concat (map utf8 ns) @ [char_of (a :: nat), NUL]) = None"
proof -
  have a: "char_of a \<noteq> NUL" using assms(1,2) by (intro char_of_not_NUL) simp_all
  have "list_all (\<lambda>i. (word_of_int i :: 8 word) AND 0x80 \<noteq> 0) [0xC0..0xDF::int]" by code_simp
  moreover have "int a \<in> set [0xC0..0xDF::int]" using assms(1,2) by (simp only: set_upto) simp
  ultimately have "(word_of_int (int a) :: 8 word) AND 0x80 \<noteq> 0" unfolding list_all_iff by (rule bspec)
  then have lead: "byte (char_of a) AND 0x80 \<noteq> 0" using assms(2) by (subst byte_char_of) auto
  have "list_all (\<lambda>i. 128 \<le> i \<and> i < 192 \<or> (word_of_int i :: 8 word) AND 0xC0 \<noteq> 0x80) [0..255::int]" by code_simp
  from list_all_upto [OF this, of c] assms(3)
  have "(word_of_int (int c) :: 8 word) AND 0xC0 \<noteq> 0x80" by (auto simp del: of_int_of_nat_eq)
  then have "byte (char_of c) AND 0xC0 \<noteq> 0x80" using assms(3) by (subst byte_char_of) auto
  then show ?thesis
    using unicode_loop_bad [OF a lead] unfolding strtounicode_def unicode_loop_wide_chars [OF assms(4)] by simp
qed

lemma strtounicode_two_bytes_witness:
  "strtounicode (concat (map utf8 [104]) @ [char_of (0xC3 :: nat), NUL]) = None"
  using strtounicode_two_bytes [where a = 195 and c = 108 and ns = "[104]"] by (simp add: wide_char_def)

end
