(* ===== verification/RuleAccepter.thy ===== *)
theory RuleAccepter
  imports StreamLoop DownMatch
begin

text \<open>
  \<^verbatim>\<open>rule_accepter.c\<close>: the commands of the management port, lines of fields separated by
  \<open>|\<close>, that change the rules while the filter runs.  \<open>startlisten\<close> reads up to 1024 bytes of a
  connection into \<open>char buf[1024]\<close> and stores a terminator behind them.

  A pointer into the line is the rest of the line from there; \<open>strchr(p, '|') + 1\<close> is undefined
  when there is no further bar, because the result of the null pointer is read afterwards.
\<close>

section \<open>The state of the filter\<close>

record filter_state =
  fs_rules :: rules_state
  fs_down :: down_matchers
  fs_utos :: "(string \<times> string) list"   \<comment> \<open>\<open>utos[0..utos_length]\<close>: \<open>str\<close> and \<open>code\<close>\<close>

definition on_matchers :: "(matchers \<Rightarrow> matchers option) \<Rightarrow> filter_state \<Rightarrow> filter_state option" where
  "on_matchers f fs = do {
     m \<leftarrow> f (rs_matchers (fs_rules fs));
     Some (fs\<lparr>fs_rules := (fs_rules fs)\<lparr>rs_matchers := m\<rparr>\<rparr>) }"

definition on_trie :: "(trie_state \<Rightarrow> trie_state option) \<Rightarrow> filter_state \<Rightarrow> filter_state option" where
  "on_trie f fs = do {
     t \<leftarrow> f (rs_trie (fs_rules fs));
     Some (fs\<lparr>fs_rules := (fs_rules fs)\<lparr>rs_trie := t\<rparr>\<rparr>) }"

definition on_down :: "(down_matchers \<Rightarrow> down_matchers option) \<Rightarrow> filter_state \<Rightarrow> filter_state option" where
  "on_down f fs = do { d \<leftarrow> f (fs_down fs); Some (fs\<lparr>fs_down := d\<rparr>) }"

definition on_table ::
  "(query_table \<times> matchers \<Rightarrow> (query_table \<times> matchers) option) \<Rightarrow> filter_state \<Rightarrow> filter_state option" where
  "on_table f fs = do {
     (tbl, m) \<leftarrow> f (rs_table (fs_rules fs), rs_matchers (fs_rules fs));
     Some (fs\<lparr>fs_rules := (fs_rules fs)\<lparr>rs_table := tbl, rs_matchers := m\<rparr>\<rparr>) }"

definition on_table_N ::
  "(query_table \<times> matchers \<Rightarrow> (query_table \<times> matchers) option) \<Rightarrow> filter_state \<Rightarrow> filter_state option" where
  "on_table_N f fs = do {
     (tbl, m) \<leftarrow> f (rs_table_N (fs_rules fs), rs_matchers (fs_rules fs));
     Some (fs\<lparr>fs_rules := (fs_rules fs)\<lparr>rs_table_N := tbl, rs_matchers := m\<rparr>\<rparr>) }"

definition filter_add_rule :: "string \<Rightarrow> filter_state \<Rightarrow> filter_state option" where
  \<comment> \<open>\<open>add_query_rule(rule1)\<close>; the next five likewise\<close>
  "filter_add_rule q = on_table (add_query_rule q)"

definition filter_add_rule_N :: "string \<Rightarrow> filter_state \<Rightarrow> filter_state option" where
  "filter_add_rule_N q = on_table_N (add_query_rule_N q)"

definition filter_del_rule :: "string \<Rightarrow> filter_state \<Rightarrow> filter_state option" where
  "filter_del_rule q = on_table (\<lambda>(tbl, m). do { tbl' \<leftarrow> del_query_rule q tbl; Some (tbl', m) })"

definition filter_del_rule_N :: "string \<Rightarrow> filter_state \<Rightarrow> filter_state option" where
  "filter_del_rule_N q = on_table_N (\<lambda>(tbl, m). do { tbl' \<leftarrow> del_query_rule_N q tbl; Some (tbl', m) })"

definition filter_add_str :: "string \<Rightarrow> filter_state \<Rightarrow> filter_state option" where
  "filter_add_str s = on_down (\<lambda>d. add_str d s)"

definition filter_del_str :: "string \<Rightarrow> filter_state \<Rightarrow> filter_state option" where
  "filter_del_str s = on_down (\<lambda>d. del_str d s)"

section \<open>The fields of a line\<close>

definition after_bar :: "string \<Rightarrow> string option" where
  \<comment> \<open>\<open>strchr(p, '|') + 1\<close>\<close>
  "after_bar p = map_option (\<lambda>i. drop (i + 1) p) (strchr p (CHR ''|''))"

fun after_bars :: "nat \<Rightarrow> string \<Rightarrow> string option" where
  "after_bars 0 p = Some p"
| "after_bars (Suc n) p = do { q \<leftarrow> after_bar p; after_bars n q }"

definition starts :: "string \<Rightarrow> char \<Rightarrow> bool" where
  \<comment> \<open>\<open>*p == c\<close> for a character other than the terminator\<close>
  "starts p c \<longleftrightarrow> p \<noteq> [] \<and> hd p = c"

definition field_between :: "string \<Rightarrow> string \<Rightarrow> string" where
  \<comment> \<open>the \<open>q - p - 1\<close> characters at \<open>p\<close>\<close>
  "field_between p q = take (length p - length q - 1) p"

section \<open>The commands\<close>

definition add_down_keyword :: "bool \<Rightarrow> string \<Rightarrow> filter_state \<Rightarrow> filter_state option" where
  \<comment> \<open>\<open>add_str(rule1)\<close>, then its JSON form \<open>key\<close> (\<open>char key[1024]\<close>); \<open>record\<close>: also noted in \<open>utos\<close>\<close>
  "add_down_keyword record rule1 fs = do {
     fs \<leftarrow> filter_add_str rule1 fs;
     (r, key) \<leftarrow> strtounicode (rule1 @ [NUL]);
     (if 1024 < length key then None
      else if r \<noteq> 0 then Some fs
      else do {
        k \<leftarrow> buf_str key;
        fs \<leftarrow> filter_add_str k fs;
        (if \<not> record then Some fs
         else if length (fs_utos fs) < 100000
         then Some (fs\<lparr>fs_utos := fs_utos fs @ [(rule1, k)]\<rparr>) else None) }) }"

definition keyword_command :: "string \<Rightarrow> filter_state \<Rightarrow> filter_state option" where
  \<comment> \<open>\<open>'1' == *rule\<close>\<close>
  "keyword_command rule fs = do {
     keyword \<leftarrow> after_bars 2 rule;
     ctime \<leftarrow> after_bar keyword;
     state \<leftarrow> after_bars 3 ctime;
     workmode \<leftarrow> after_bars 2 state;
     up_or_down \<leftarrow> after_bar workmode;
     rule1 \<leftarrow> memcpy (replicate 256 NUL) 0 (field_between keyword ctime);
     r \<leftarrow> buf_str rule1;
     (if starts workmode (CHR ''2'') then
        if starts state (CHR ''1'') then
          if starts up_or_down (CHR ''1'') then filter_add_rule r fs
          else if starts up_or_down (CHR ''2'') then add_down_keyword True r fs
          else Some fs
        else if starts state (CHR ''0'') then do { fs \<leftarrow> filter_del_rule r fs; filter_del_str r fs }
        else Some fs
      else if starts workmode (CHR ''1'') then
        if starts state (CHR ''1'') then do {
          fs \<leftarrow> filter_add_rule_N r fs;
          (if starts up_or_down (CHR ''2'') then add_down_keyword False r fs else Some fs) }
        else if starts state (CHR ''0'') then filter_del_rule_N r fs
        else Some fs
      else Some fs) }"

definition append_field :: "string \<Rightarrow> char list \<Rightarrow> char list option" where
  \<comment> \<open>\<open>memcpy(buf + strlen(buf), ...)\<close> into a zeroed buffer\<close>
  "append_field s buf = do { t \<leftarrow> buf_str buf; memcpy buf (length t) s }"

definition user_command :: "string \<Rightarrow> filter_state \<Rightarrow> filter_state option" where
  \<comment> \<open>\<open>'2' == *rule\<close>\<close>
  "user_command rule fs = do {
     userid \<leftarrow> after_bars 2 rule;
     action \<leftarrow> after_bar userid;
     ctime \<leftarrow> after_bar action;
     state \<leftarrow> after_bars 3 ctime;
     webtype \<leftarrow> after_bar state;
     b \<leftarrow> memcpy (replicate 256 NUL) 0 (field_between userid action);
     b \<leftarrow> append_field '' '' b;
     b \<leftarrow> append_field (field_between action ctime) b;
     b \<leftarrow> append_field '' '' b;
     b \<leftarrow> append_field ''*'' b;
     rule2 \<leftarrow> buf_str b;
     (if starts state (CHR ''1'') then on_trie (insert_for_userid rule2) fs
      else if starts state (CHR ''0'') then on_trie (del rule2) fs
      else Some fs) }"

definition resource_command :: "string \<Rightarrow> filter_state \<Rightarrow> filter_state option" where
  \<comment> \<open>\<open>'3' == *rule\<close>\<close>
  "resource_command rule fs = do {
     resourceid \<leftarrow> after_bars 2 rule;
     action \<leftarrow> after_bar resourceid;
     ctime \<leftarrow> after_bar action;
     state \<leftarrow> after_bars 3 ctime;
     webtype \<leftarrow> after_bar state;
     b \<leftarrow> memcpy (replicate 256 NUL) 0 ''* '';
     b \<leftarrow> append_field (field_between action ctime) b;
     b \<leftarrow> append_field '' '' b;
     b \<leftarrow> append_field (field_between resourceid action) b;
     rule3 \<leftarrow> buf_str b;
     (if starts state (CHR ''1'') then on_trie (insert_for_resourceid rule3) fs
      else if starts state (CHR ''0'') then on_trie (del rule3) fs
      else Some fs) }"

definition url_command :: "string \<Rightarrow> filter_state \<Rightarrow> filter_state option" where
  \<comment> \<open>\<open>'4' == *rule\<close>\<close>
  "url_command rule fs = do {
     keyword \<leftarrow> after_bars 2 rule;
     ctime \<leftarrow> after_bar keyword;
     state \<leftarrow> after_bars 3 ctime;
     webtype \<leftarrow> after_bar state;
     b \<leftarrow> memcpy (replicate 256 NUL) 0 (field_between keyword ctime);
     rule1 \<leftarrow> buf_str b;
     (if starts state (CHR ''1'') then on_matchers (\<lambda>m. addurl m rule1) fs
      else if starts state (CHR ''0'') then on_matchers (\<lambda>m. delurl m rule1) fs
      else Some fs) }"

definition rule_process :: "string \<Rightarrow> filter_state \<Rightarrow> filter_state option" where
  "rule_process rule fs =
     (if starts rule (CHR ''1'') then keyword_command rule fs
      else if starts rule (CHR ''2'') then user_command rule fs
      else if starts rule (CHR ''3'') then resource_command rule fs
      else if starts rule (CHR ''4'') then url_command rule fs
      else Some fs)"

definition receive_rule :: "char list \<Rightarrow> filter_state \<Rightarrow> filter_state option" where
  \<comment> \<open>the body of the loop of \<open>startlisten\<close> for the bytes that \<open>recv\<close> returned\<close>
  "receive_rule bytes fs =
     (if bytes = [] then Some fs
      else if length bytes < 1024 then rule_process (cstr (bytes @ [NUL])) fs
      else None)"

end
