(* ===== verification/FilterSpec.thy ===== *)
theory FilterSpec
  imports RuleAccepter
begin

text \<open>
  The filter as a whole: what the commands of the management port and the decisions of the
  polling loop do together, on an abstract state of keywords, rules and black list.
\<close>

section \<open>What the operations leave alone\<close>

lemma addstr_frames:
  "addstr st s = Some st' \<Longrightarrow> mURL_A st' = mURL_A st \<and> mURL_B st' = mURL_B st \<and> mNA st' = mNA st \<and> mNB st' = mNB st"
  using addstr_frame addstr_frame_N by blast

lemma addstr_N_frames:
  "addstr_N st s = Some st' \<Longrightarrow> mURL_A st' = mURL_A st \<and> mURL_B st' = mURL_B st \<and> mA st' = mA st \<and> mB st' = mB st"
  by (auto simp: addstr_N_def Let_def bind_Some_iff)

lemma url_frames:
  "addurl st s = Some st' \<Longrightarrow> mA st' = mA st \<and> mB st' = mB st \<and> mNA st' = mNA st \<and> mNB st' = mNB st"
  "delurl st s = Some st' \<Longrightarrow> mA st' = mA st \<and> mB st' = mB st \<and> mNA st' = mNA st \<and> mNB st' = mNB st"
  by (auto simp: addurl_def delurl_def Let_def bind_Some_iff)

lemma add_words_frames:
  assumes "add_words add qe st = Some st'" "\<And>st st' w. add st w = Some st' \<Longrightarrow> f st' = f st"
  shows "f st' = f st"
proof -
  have "ofold g xs st = Some st' \<Longrightarrow> (\<And>i st st'. g i st = Some st' \<Longrightarrow> f st' = f st) \<Longrightarrow> f st' = f st" for g xs st
    by (induction xs arbitrary: st) (auto simp: bind_Some_iff)
  from this [OF assms(1) [unfolded add_words_def]] show ?thesis
    by (rule meta_mp) (auto simp: bind_Some_iff assms(2) split: if_splits)
qed

lemma add_query_rule_frames:
  assumes "add_query_rule q (tbl, st) = Some (tbl', st')"
  shows "mURL_A st' = mURL_A st" "mURL_B st' = mURL_B st" "mNA st' = mNA st" "mNB st' = mNB st"
proof -
  obtain qe where "add_words addstr qe st = Some st'"
    using assms by (auto simp: add_query_rule_def parse_def bind_Some_iff)
  from add_words_frames [OF this] show "mURL_A st' = mURL_A st" "mURL_B st' = mURL_B st" "mNA st' = mNA st" "mNB st' = mNB st"
    using addstr_frames by blast+
qed

lemma add_query_rule_N_frames:
  assumes "add_query_rule_N q (tbl, st) = Some (tbl', st')"
  shows "mURL_A st' = mURL_A st" "mURL_B st' = mURL_B st" "mA st' = mA st" "mB st' = mB st"
proof -
  obtain qe where "add_words addstr_N qe st = Some st'"
    using assms by (auto simp: add_query_rule_N_def parse_N_def bind_Some_iff)
  from add_words_frames [OF this] show "mURL_A st' = mURL_A st" "mURL_B st' = mURL_B st" "mA st' = mA st" "mB st' = mB st"
    using addstr_N_frames by blast+
qed

section \<open>The abstract filter\<close>

record filter_spec =
  sp_urls :: "string list"
  sp_rules :: "string option list"
  sp_rules_N :: "string option list"
  sp_words :: "string list"   \<comment> \<open>the keywords of the blocking dictionary; removing a rule leaves its words there\<close>
  sp_black :: black_list
  sp_down :: "string list"

definition filter_rel :: "nat \<Rightarrow> filter_state \<Rightarrow> filter_spec \<Rightarrow> bool" where
  \<comment> \<open>\<open>n\<close> bounds the number of commands so far\<close>
  "filter_rel n fs sp \<longleftrightarrow>
     (let rs = fs_rules fs; m = rs_matchers rs in
      rules.engine_rel (sp_rules sp) (rs_table rs) m \<and> rulesN.engine_rel (sp_rules_N sp) (rs_table_N rs) m \<and>
      sp_words sp = keys_of (mA m) \<and>
      pair_ready (mURL_A m) (mURL_B m) \<and> keys_of (mURL_A m) = sp_urls sp \<and>
      trie_rel n (rs_trie rs) (sp_black sp) \<and>
      down_synced (fs_down fs) \<and> down_keys (fs_down fs) = sp_down sp \<and> length (fs_utos fs) \<le> n)"

datatype direction = Upstream | Downstream

datatype command =
    BlockRule bool direction string     \<comment> \<open>type 1, work mode 2; \<open>True\<close> to enable\<close>
  | MonitorRule bool direction string   \<comment> \<open>type 1, work mode 1\<close>
  | UserRule bool string string         \<comment> \<open>type 2: user and action\<close>
  | ResourceRule bool string string     \<comment> \<open>type 3: resource and action\<close>
  | UrlRule bool string                 \<comment> \<open>type 4\<close>

definition down_words :: "string \<Rightarrow> string list option" where
  \<comment> \<open>the keywords of the response dictionary for \<open>s\<close>, the last one added first\<close>
  "down_words s = (case strtounicode (s @ [NUL]) of
     None \<Rightarrow> None
   | Some (r, key) \<Rightarrow> if 1024 < length key then None else if r \<noteq> 0 then Some [s]
       else map_option (\<lambda>k. [k, s]) (buf_str key))"

definition black_command :: "bool \<Rightarrow> string \<Rightarrow> string \<Rightarrow> string \<Rightarrow> black_event" where
  "black_command on s a r = (if on then AddBlack s a r else DelBlack s a r)"

definition rule_keywords :: "string \<Rightarrow> string list" where
  \<comment> \<open>the words of a rule, in the order in which the dictionary lists them\<close>
  "rule_keywords q = rev (map first_word (segments q))"

definition spec_add_rule :: "string \<Rightarrow> filter_spec \<Rightarrow> filter_spec" where
  "spec_add_rule q sp = sp\<lparr>sp_rules := sp_rules sp @ [Some q], sp_words := rule_keywords q @ sp_words sp\<rparr>"

fun spec_command :: "command \<Rightarrow> filter_spec \<Rightarrow> filter_spec option" where
  "spec_command (BlockRule True Upstream q) sp =
     (if length (sp_rules sp) < 10000 then Some (spec_add_rule q sp) else None)"
| "spec_command (BlockRule True Downstream q) sp =
     map_option (\<lambda>ws. sp\<lparr>sp_down := ws @ sp_down sp\<rparr>) (down_words q)"
| "spec_command (BlockRule False d q) sp =
     (if sp_down sp = [] then None
      else Some (sp\<lparr>sp_rules := map (\<lambda>x. if x = Some q then None else x) (sp_rules sp),
                    sp_down := remove1 q (sp_down sp)\<rparr>))"
| "spec_command (MonitorRule True d q) sp =
     (if length (sp_rules_N sp) < 10000
      then (let sp1 = sp\<lparr>sp_rules_N := sp_rules_N sp @ [Some q]\<rparr>
            in if d = Upstream then Some sp1
               else map_option (\<lambda>ws. sp1\<lparr>sp_down := ws @ sp_down sp\<rparr>) (down_words q))
      else None)"
| "spec_command (MonitorRule False d q) sp =
     Some (sp\<lparr>sp_rules_N := map (\<lambda>x. if x = Some q then None else x) (sp_rules_N sp)\<rparr>)"
| "spec_command (UserRule on u a) sp = Some (sp\<lparr>sp_black := black_step (black_command on u a ''*'') (sp_black sp)\<rparr>)"
| "spec_command (ResourceRule on r a) sp = Some (sp\<lparr>sp_black := black_step (black_command on ''*'' a r) (sp_black sp)\<rparr>)"
| "spec_command (UrlRule True u) sp = Some (sp\<lparr>sp_urls := u # sp_urls sp\<rparr>)"
| "spec_command (UrlRule False u) sp =
     (if sp_urls sp = [] then None else Some (sp\<lparr>sp_urls := remove1 u (sp_urls sp)\<rparr>))"

section \<open>Command lines\<close>

definition bars :: "string list \<Rightarrow> string" where
  "bars ws = concat (map (\<lambda>w. w @ ''|'') ws)"

definition onoff :: "bool \<Rightarrow> string" where
  "onoff on = (if on then ''1'' else ''0'')"

definition updown :: "direction \<Rightarrow> string" where
  "updown d = (if d = Upstream then ''1'' else ''2'')"

fun command_line :: "string \<Rightarrow> string \<Rightarrow> string \<Rightarrow> command \<Rightarrow> string" where
  \<comment> \<open>with the configuration id, the three times (one string here) and the kind of site\<close>
  "command_line i t w (BlockRule on d q) = bars [''1'', i, q, t, t, t, onoff on, w, ''2'', updown d]"
| "command_line i t w (MonitorRule on d q) = bars [''1'', i, q, t, t, t, onoff on, w, ''1'', updown d]"
| "command_line i t w (UserRule on u a) = bars [''2'', i, u, a, t, t, t, onoff on, w]"
| "command_line i t w (ResourceRule on r a) = bars [''3'', i, r, a, t, t, t, onoff on, w]"
| "command_line i t w (UrlRule on u) = bars [''4'', i, u, t, t, t, onoff on, w]"

fun command_fits :: "command \<Rightarrow> bool" where
  \<comment> \<open>the data of the command stay within the buffers behind it\<close>
  "command_fits (BlockRule on d q) \<longleftrightarrow> query_ok q \<and> (on \<longrightarrow> d = Downstream \<longrightarrow> (\<exists>ws. down_words q = Some ws \<and> [] \<notin> set ws))"
| "command_fits (MonitorRule on d q) \<longleftrightarrow> query_ok q \<and> (on \<longrightarrow> d = Downstream \<longrightarrow> (\<exists>ws. down_words q = Some ws \<and> [] \<notin> set ws))"
| "command_fits (UserRule on u a) \<longleftrightarrow> rule_chars u \<and> u \<noteq> [] \<and> \<not> prefix ''*'' u \<and> rule_chars a \<and> length u + length a < 250"
| "command_fits (ResourceRule on r a) \<longleftrightarrow> rule_chars r \<and> rule_chars a \<and> length r + length a < 250"
| "command_fits (UrlRule on u) \<longleftrightarrow> keyword_ok u"

fun command_plain :: "command \<Rightarrow> bool" where
  \<comment> \<open>the data can be sent as fields of a line\<close>
  "command_plain (BlockRule on d q) \<longleftrightarrow> CHR ''|'' \<notin> set q"
| "command_plain (MonitorRule on d q) \<longleftrightarrow> CHR ''|'' \<notin> set q"
| "command_plain (UrlRule on u) \<longleftrightarrow> CHR ''|'' \<notin> set u \<and> length u < 256"
| "command_plain c \<longleftrightarrow> True"

definition command_ok :: "command \<Rightarrow> bool" where
  [simp]: "command_ok c \<longleftrightarrow> command_fits c \<and> command_plain c"

fun perform :: "command \<Rightarrow> filter_state \<Rightarrow> filter_state option" where
  \<comment> \<open>the operations behind a command, wherever it comes from\<close>
  "perform (BlockRule on d q) fs =
     (if on then if d = Upstream then filter_add_rule q fs else add_down_keyword True q fs
      else do { fs \<leftarrow> filter_del_rule q fs; filter_del_str q fs })"
| "perform (MonitorRule on d q) fs =
     (if on then do { fs \<leftarrow> filter_add_rule_N q fs;
                      (if d = Upstream then Some fs else add_down_keyword False q fs) }
      else filter_del_rule_N q fs)"
| "perform (UserRule on u a) fs =
     (if on then on_trie (insert_for_userid (rule_string u a ''*'')) fs
      else on_trie (del (rule_string u a ''*'')) fs)"
| "perform (ResourceRule on r a) fs =
     (if on then on_trie (insert_for_resourceid (rule_string ''*'' a r)) fs
      else on_trie (del (rule_string ''*'' a r)) fs)"
| "perform (UrlRule on u) fs = (if on then on_matchers (\<lambda>m. addurl m u) fs else on_matchers (\<lambda>m. delurl m u) fs)"

lemma after_bar_field: "CHR ''|'' \<notin> set w \<Longrightarrow> after_bar (w @ CHR ''|'' # s) = Some s"
  by (simp add: after_bar_def)

lemma after_bar_bars [simp]:
  "CHR ''|'' \<notin> set w \<Longrightarrow> after_bar (bars (w # ws)) = Some (bars ws)"
  by (simp add: bars_def after_bar_field)

lemma field_between_bars [simp]: "field_between (bars (w # ws)) (bars ws) = w"
  by (simp add: field_between_def bars_def)

lemma starts_bars [simp]: "w \<noteq> [] \<Longrightarrow> starts (bars (w # ws)) c \<longleftrightarrow> hd w = c"
  by (simp add: starts_def bars_def)

lemma after_bars_bars [simp]:
  "CHR ''|'' \<notin> set w \<Longrightarrow> 0 < n \<Longrightarrow> after_bars n (bars (w # ws)) = after_bars (n - 1) (bars ws)"
  by (cases n) simp_all

lemma onoff_simps [simp]: "onoff on \<noteq> []" "hd (onoff on) = (if on then CHR ''1'' else CHR ''0'')" "CHR ''|'' \<notin> set (onoff on)"
  by (simp_all add: onoff_def)

lemma updown_simps [simp]: "updown d \<noteq> []" "hd (updown d) = (if d = Upstream then CHR ''1'' else CHR ''2'')"
  by (simp_all add: updown_def)

section \<open>The commands refine the abstract filter\<close>

lemma rule_field: "query_ok q \<Longrightarrow> NUL \<notin> set q \<and> length q < 256 \<and> q \<noteq> []"
  by (auto simp: query_ok_def segments.simps)

lemma buf_field [simp]:
  "length s < 256 \<Longrightarrow> NUL \<notin> set s \<Longrightarrow> memcpy (replicate 256 NUL) 0 s \<bind> buf_str = Some s"
  by simp

lemma add_query_rule_words:
  assumes "rules.engine_rel xs tbl0 m" "query_ok q" "add_query_rule q (tbl, m) = Some (tbl', m')"
  shows "keys_of (mA m') = rule_keywords q @ keys_of (mA m)"
proof -
  obtain qe where qe: "parse_expr q = Some qe" "add_words addstr qe m = Some m'"
    using assms(3) by (auto simp: add_query_rule_def parse_def bind_Some_iff)
  have "pair_synced (mA m) (mB m)" using assms(1) by (simp add: rules.engine_rel_def)
  from rules.add_words_law [OF this assms(2) qe(1)] qe(2) show ?thesis by (auto simp: rule_keywords_def)
qed

lemma add_rule_refines:
  assumes "filter_rel n fs sp" "query_ok q"
  shows "if length (sp_rules sp) < 10000
     then \<exists>fs1. filter_add_rule q fs = Some fs1 \<and> filter_rel n fs1 (spec_add_rule q sp)
     else filter_add_rule q fs = None"
proof -
  let ?rs = "fs_rules fs"
  have rel: "rules.engine_rel (sp_rules sp) (rs_table ?rs) (rs_matchers ?rs)"
    using assms(1) by (simp add: filter_rel_def Let_def)
  have step: "engine_step addstr kw_match get_keywords (AddRule q) (rs_table ?rs, rs_matchers ?rs, []) =
      (do { (tbl, m) \<leftarrow> add_query_rule q (rs_table ?rs, rs_matchers ?rs); Some (tbl, m, []) })"
    unfolding rule_step_engine [symmetric] by simp
  show ?thesis
  proof (cases "length (sp_rules sp) < 10000")
    case True
    then obtain tbl m where r: "add_query_rule q (rs_table ?rs, rs_matchers ?rs) = Some (tbl, m)"
      "rules.engine_rel (sp_rules sp @ [Some q]) tbl m"
      using rules.engine_step_refines [OF rel, of "AddRule q" "[]"] assms(2) unfolding step
      by (auto simp: bind_Some_iff)
    note fr = add_query_rule_frames [OF r(1)] add_query_rule_words [OF rel assms(2) r(1)]
    have "rulesN.engine_rel (sp_rules_N sp) (rs_table_N ?rs) m"
      using assms(1) fr unfolding filter_rel_def rulesN.engine_rel_def Let_def by simp
    then show ?thesis using True r fr assms(1)
      by (auto simp: filter_add_rule_def on_table_def filter_rel_def spec_add_rule_def Let_def)
  next
    case False
    then show ?thesis
      using rules.engine_step_refines [OF rel, of "AddRule q" "[]"] assms(2) unfolding step
      by (auto simp: bind_None_iff filter_add_rule_def on_table_def)
  qed
qed

lemma add_rule_N_refines:
  assumes "filter_rel n fs sp" "query_ok q"
  shows "if length (sp_rules_N sp) < 10000
     then \<exists>fs1. filter_add_rule_N q fs = Some fs1 \<and> filter_rel n fs1 (sp\<lparr>sp_rules_N := sp_rules_N sp @ [Some q]\<rparr>)
     else filter_add_rule_N q fs = None"
proof -
  let ?rs = "fs_rules fs"
  have rel: "rulesN.engine_rel (sp_rules_N sp) (rs_table_N ?rs) (rs_matchers ?rs)"
    using assms(1) by (simp add: filter_rel_def Let_def)
  have step: "engine_step addstr_N kw_match_N get_keywords_N (AddRule q) (rs_table_N ?rs, rs_matchers ?rs, []) =
      (do { (tbl, m) \<leftarrow> add_query_rule_N q (rs_table_N ?rs, rs_matchers ?rs); Some (tbl, m, []) })"
    unfolding rule_step_N_engine [symmetric] by simp
  show ?thesis
  proof (cases "length (sp_rules_N sp) < 10000")
    case True
    then obtain tbl m where r: "add_query_rule_N q (rs_table_N ?rs, rs_matchers ?rs) = Some (tbl, m)"
      "rulesN.engine_rel (sp_rules_N sp @ [Some q]) tbl m"
      using rulesN.engine_step_refines [OF rel, of "AddRule q" "[]"] assms(2) unfolding step
      by (auto simp: bind_Some_iff)
    note fr = add_query_rule_N_frames [OF r(1)]
    have "rules.engine_rel (sp_rules sp) (rs_table ?rs) m"
      using assms(1) fr unfolding filter_rel_def rules.engine_rel_def Let_def by simp
    then show ?thesis using True r fr assms(1)
      by (auto simp: filter_add_rule_N_def on_table_N_def filter_rel_def Let_def)
  next
    case False
    then show ?thesis
      using rulesN.engine_step_refines [OF rel, of "AddRule q" "[]"] assms(2) unfolding step
      by (auto simp: bind_None_iff filter_add_rule_N_def on_table_N_def)
  qed
qed

lemma del_rule_refines:
  assumes "filter_rel n fs sp" "NUL \<notin> set q"
  shows "\<exists>fs1. filter_del_rule q fs = Some fs1 \<and>
     filter_rel n fs1 (sp\<lparr>sp_rules := map (\<lambda>x. if x = Some q then None else x) (sp_rules sp)\<rparr>)"
proof -
  let ?rs = "fs_rules fs"
  have rel: "rules.engine_rel (sp_rules sp) (rs_table ?rs) (rs_matchers ?rs)"
    using assms(1) by (simp add: filter_rel_def Let_def)
  obtain tbl where "del_query_rule q (rs_table ?rs) = Some tbl"
    "rules.engine_rel (map (\<lambda>x. if x = Some q then None else x) (sp_rules sp)) tbl (rs_matchers ?rs)"
    using rules.engine_step_refines [OF rel, of "DelRule q" "[]"] assms(2) by (auto simp: bind_Some_iff)
  then show ?thesis using assms(1)
    by (auto simp: filter_del_rule_def on_table_def filter_rel_def Let_def)
qed

lemma del_rule_N_refines:
  assumes "filter_rel n fs sp" "NUL \<notin> set q"
  shows "\<exists>fs1. filter_del_rule_N q fs = Some fs1 \<and>
     filter_rel n fs1 (sp\<lparr>sp_rules_N := map (\<lambda>x. if x = Some q then None else x) (sp_rules_N sp)\<rparr>)"
proof -
  let ?rs = "fs_rules fs"
  have rel: "rulesN.engine_rel (sp_rules_N sp) (rs_table_N ?rs) (rs_matchers ?rs)"
    using assms(1) by (simp add: filter_rel_def Let_def)
  obtain tbl where "del_query_rule_N q (rs_table_N ?rs) = Some tbl"
    "rulesN.engine_rel (map (\<lambda>x. if x = Some q then None else x) (sp_rules_N sp)) tbl (rs_matchers ?rs)"
    using rulesN.engine_step_refines [OF rel, of "DelRule q" "[]"] assms(2)
    by (auto simp: bind_Some_iff del_query_rule_N_eq)
  then show ?thesis using assms(1)
    by (auto simp: filter_del_rule_N_def on_table_N_def filter_rel_def Let_def)
qed

lemma add_str_refines:
  assumes "filter_rel n fs sp" "keyword_ok q"
  shows "\<exists>fs1. filter_add_str q fs = Some fs1 \<and> fs_utos fs1 = fs_utos fs \<and>
     filter_rel n fs1 (sp\<lparr>sp_down := q # sp_down sp\<rparr>)"
proof -
  obtain d where "add_str (fs_down fs) q = Some d" "down_ready d" "down_keys d = q # down_keys (fs_down fs)"
    using down.add_law [of "fs_down fs" q] assms by (auto simp: filter_rel_def Let_def)
  then show ?thesis using assms(1) down.ready_synced [of d]
    by (auto simp: filter_add_str_def on_down_def filter_rel_def Let_def)
qed

lemma del_str_refines:
  assumes "filter_rel n fs sp"
  shows "if sp_down sp = [] then filter_del_str q fs = None
     else \<exists>fs1. filter_del_str q fs = Some fs1 \<and> filter_rel n fs1 (sp\<lparr>sp_down := remove1 q (sp_down sp)\<rparr>)"
proof (cases "sp_down sp = []")
  case True
  then show ?thesis using down.del_empty [of "fs_down fs" q] assms
    by (simp add: filter_del_str_def on_down_def filter_rel_def Let_def)
next
  case False
  have dk: "down_synced (fs_down fs)" "down_keys (fs_down fs) = sp_down sp"
    using assms by (simp_all add: filter_rel_def Let_def)
  obtain d where "del_str (fs_down fs) q = Some d" "down_ready d" "down_keys d = remove1 q (sp_down sp)"
    using down.del_law [OF dk(1), unfolded dk(2), OF False] by blast
  then show ?thesis using assms False down.ready_synced [of d]
    by (auto simp: filter_del_str_def on_down_def filter_rel_def Let_def)
qed

lemma filter_rel_Suc: "filter_rel n fs sp \<Longrightarrow> filter_rel (Suc n) fs sp"
  by (fastforce simp: filter_rel_def Let_def trie_rel_def)

lemma add_down_refines:
  assumes "filter_rel n fs sp" "keyword_ok q" "down_words q = Some ws" "[] \<notin> set ws" "n < 32768"
  shows "\<exists>fs1. add_down_keyword note_it q fs = Some fs1 \<and> filter_rel (Suc n) fs1 (sp\<lparr>sp_down := ws @ sp_down sp\<rparr>)"
proof -
  obtain r key where key: "strtounicode (q @ [NUL]) = Some (r, key)" "length key \<le> 1024"
    using assms(3) by (auto simp: down_words_def split: option.splits prod.splits if_splits)
  obtain fs1 where 1: "filter_add_str q fs = Some fs1" "fs_utos fs1 = fs_utos fs"
    "filter_rel n fs1 (sp\<lparr>sp_down := q # sp_down sp\<rparr>)" using add_str_refines [OF assms(1,2)] by blast
  show ?thesis
  proof (cases "r = 0")
    case False
    then show ?thesis using 1 key assms(3) filter_rel_Suc by (auto simp: add_down_keyword_def down_words_def)
  next
    case True
    then obtain k where k: "buf_str key = Some k" "ws = [k, q]" using assms(3) key by (auto simp: down_words_def)
    then have "keyword_ok k" using assms(4) by (auto simp: keyword_ok_def buf_str_def split: if_splits)
    from add_str_refines [OF 1(3) this] obtain fs2 where 2: "filter_add_str k fs1 = Some fs2" "fs_utos fs2 = fs_utos fs1"
      "filter_rel n fs2 (sp\<lparr>sp_down := k # q # sp_down sp\<rparr>)" by auto
    have "length (fs_utos fs2) \<le> n" using 2(3) by (simp add: filter_rel_def Let_def)
    then have "filter_rel (Suc n) (fs2\<lparr>fs_utos := fs_utos fs2 @ [(q, k)]\<rparr>) (sp\<lparr>sp_down := k # q # sp_down sp\<rparr>)"
      using filter_rel_Suc [OF 2(3)] by (simp add: filter_rel_def Let_def)
    then show ?thesis using 1(1) 2(1,3) key True k assms(5) \<open>length (fs_utos fs2) \<le> n\<close> filter_rel_Suc [OF 2(3)]
      by (auto simp: add_down_keyword_def)
  qed
qed

lemma black_refines:
  assumes "filter_rel n fs sp" "black_event_ok ev" "n < 32768"
  shows "\<exists>fs1. on_trie (trie_step ev) fs = Some fs1 \<and> filter_rel (Suc n) fs1 (sp\<lparr>sp_black := black_step ev (sp_black sp)\<rparr>)"
proof -
  obtain t where "trie_step ev (rs_trie (fs_rules fs)) = Some t" "trie_rel (Suc n) t (black_step ev (sp_black sp))"
    using trie_step_rel [of n "rs_trie (fs_rules fs)" "sp_black sp" ev] assms by (auto simp: filter_rel_def Let_def)
  then show ?thesis using assms(1) by (auto simp: on_trie_def filter_rel_def Let_def)
qed

lemma filter_rel_root: "filter_rel n fs sp \<Longrightarrow> trie_tree_root (rs_trie (fs_rules fs)) \<noteq> None"
  by (auto simp: filter_rel_def trie_rel_def Let_def)

lemma url_refines:
  assumes "filter_rel n fs sp" "keyword_ok u"
  shows "\<exists>fs1. on_matchers (\<lambda>m. addurl m u) fs = Some fs1 \<and> filter_rel n fs1 (sp\<lparr>sp_urls := u # sp_urls sp\<rparr>)"
    and "if sp_urls sp = [] then on_matchers (\<lambda>m. delurl m u) fs = None
      else \<exists>fs1. on_matchers (\<lambda>m. delurl m u) fs = Some fs1 \<and> filter_rel n fs1 (sp\<lparr>sp_urls := remove1 u (sp_urls sp)\<rparr>)"
proof -
  let ?m = "rs_matchers (fs_rules fs)"
  have rdy: "pair_ready (mURL_A ?m) (mURL_B ?m)" "keys_of (mURL_A ?m) = sp_urls sp"
    using assms(1) by (simp_all add: filter_rel_def Let_def)
  note sync = url.ready_synced [OF rdy(1)]
  have keep: "filter_rel n (fs\<lparr>fs_rules := (fs_rules fs)\<lparr>rs_matchers := m\<rparr>\<rparr>) (sp\<lparr>sp_urls := us\<rparr>)"
    if "mA m = mA ?m" "mB m = mB ?m" "mNA m = mNA ?m" "mNB m = mNB ?m" "pair_ready (mURL_A m) (mURL_B m)"
      "keys_of (mURL_A m) = us" for m us
    using assms(1) that unfolding filter_rel_def rules.engine_rel_def rulesN.engine_rel_def Let_def by simp
  obtain m where m: "addurl ?m u = Some m" "pair_ready (mURL_A m) (mURL_B m)" "keys_of (mURL_A m) = u # sp_urls sp"
    using url.add_law [OF sync assms(2)] rdy(2) by auto
  show "\<exists>fs1. on_matchers (\<lambda>m. addurl m u) fs = Some fs1 \<and> filter_rel n fs1 (sp\<lparr>sp_urls := u # sp_urls sp\<rparr>)"
    using keep [of m] m url_frames(1) [OF m(1)] by (simp add: on_matchers_def)
  show "if sp_urls sp = [] then on_matchers (\<lambda>m. delurl m u) fs = None
      else \<exists>fs1. on_matchers (\<lambda>m. delurl m u) fs = Some fs1 \<and> filter_rel n fs1 (sp\<lparr>sp_urls := remove1 u (sp_urls sp)\<rparr>)"
  proof (cases "sp_urls sp = []")
    case True
    then show ?thesis using url.del_empty [OF sync] rdy(2) by (simp add: on_matchers_def)
  next
    case False
    then obtain m where m: "delurl ?m u = Some m" "pair_ready (mURL_A m) (mURL_B m)" "keys_of (mURL_A m) = remove1 u (sp_urls sp)"
      using url.del_law [OF sync, of u] rdy(2) by auto
    then show ?thesis using keep [of m] url_frames(2) [OF m(1)] False by (simp add: on_matchers_def)
  qed
qed

lemma rule_chars_bar: "rule_chars s \<Longrightarrow> CHR ''|'' \<notin> set s \<and> NUL \<notin> set s"
  by (auto simp: rule_chars_def c2i_def less_eq_char_def)

lemma keyword_command_fields:
  assumes "CHR ''|'' \<notin> set (i @ t @ w @ q)" "NUL \<notin> set q" "length q < 256" "k \<noteq> CHR ''|''"
  shows "keyword_command (bars [''1'', i, q, t, t, t, onoff on, w, [k], updown d]) fs =
    (if k = CHR ''2'' then
       if on then if d = Upstream then filter_add_rule q fs else add_down_keyword True q fs
       else do { fs \<leftarrow> filter_del_rule q fs; filter_del_str q fs }
     else if k = CHR ''1'' then
       if on then do { fs \<leftarrow> filter_add_rule_N q fs;
                       (if d = Upstream then Some fs else add_down_keyword False q fs) }
       else filter_del_rule_N q fs
     else Some fs)"
  using assms by (cases d) (auto simp: keyword_command_def simp flip: pad_def intro!: Option.bind_cong)

lemma append_field_zpad [simp]:
  "NUL \<notin> set t \<Longrightarrow> length t + length s < 256 \<Longrightarrow> append_field s (zpad 256 t) = Some (zpad 256 (t @ s))"
  by (simp add: append_field_def) (simp add: zpad_def)

lemma user_command_fields:
  assumes "CHR ''|'' \<notin> set (i @ t @ w)" "rule_chars u" "rule_chars a" "length u + length a < 250"
  shows "user_command (bars [''2'', i, u, a, t, t, t, onoff on, w]) fs =
    (if on then on_trie (insert_for_userid (rule_string u a ''*'')) fs
     else on_trie (del (rule_string u a ''*'')) fs)"
proof -
  have "CHR ''|'' \<notin> set (u @ a)" "NUL \<notin> set (u @ a)" using rule_chars_bar assms(2,3) by auto
  moreover have "memcpy (replicate 256 NUL) 0 u = Some (zpad 256 u)" using assms(4) by simp
  ultimately show ?thesis using assms(1,4)
    by (simp add: user_command_def rule_string_def del: memcpy_zeroed)
qed

lemma resource_command_fields:
  assumes "CHR ''|'' \<notin> set (i @ t @ w)" "rule_chars r" "rule_chars a" "length r + length a < 250"
  shows "resource_command (bars [''3'', i, r, a, t, t, t, onoff on, w]) fs =
    (if on then on_trie (insert_for_resourceid (rule_string ''*'' a r)) fs
     else on_trie (del (rule_string ''*'' a r)) fs)"
proof -
  have "CHR ''|'' \<notin> set (r @ a)" "NUL \<notin> set (r @ a)" using rule_chars_bar assms(2,3) by auto
  moreover have "memcpy (replicate 256 NUL) 0 ''* '' = Some (zpad 256 ''* '')" by simp
  ultimately show ?thesis using assms(1,4)
    by (simp add: resource_command_def rule_string_def del: memcpy_zeroed memcpy_Some)
qed

lemma url_command_fields:
  assumes "CHR ''|'' \<notin> set (i @ t @ w @ u)" "NUL \<notin> set u" "length u < 256"
  shows "url_command (bars [''4'', i, u, t, t, t, onoff on, w]) fs =
    (if on then on_matchers (\<lambda>m. addurl m u) fs else on_matchers (\<lambda>m. delurl m u) fs)"
  using assms by (simp add: url_command_def del: memcpy_Some)

lemma trie_step_insert:
  assumes "trie_tree_root st \<noteq> None"
  shows "\<not> prefix ''*'' u \<Longrightarrow> u \<noteq> [] \<Longrightarrow> trie_step (AddBlack u a ''*'') st = insert_for_userid (rule_string u a ''*'') st"
    and "trie_step (AddBlack ''*'' a r) st = insert_for_resourceid (rule_string ''*'' a r) st"
    and "trie_step (DelBlack s a r) st = del (rule_string s a r) st"
  using assms by (cases u; auto simp: trie_add_rule_def trie_del_rule_def Let_def)+

lemma query_keyword: "query_ok q \<Longrightarrow> keyword_ok q"
  using rule_field by (auto simp: keyword_ok_def)

lemma perform_refines:
  assumes "filter_rel n fs sp" "command_fits c" "n < 32768"
  shows "case spec_command c sp of
      None \<Rightarrow> perform c fs = None
    | Some sp1 \<Rightarrow> \<exists>fs1. perform c fs = Some fs1 \<and> filter_rel (Suc n) fs1 sp1"
proof (cases c)
  case (BlockRule on d q)
  have q: "query_ok q" "NUL \<notin> set q" "length q < 256"
    using assms(2) BlockRule rule_field [of q] by auto
  have run: "perform c fs =
      (if on then if d = Upstream then filter_add_rule q fs else add_down_keyword True q fs
       else do { fs \<leftarrow> filter_del_rule q fs; filter_del_str q fs })"
    by (simp add: BlockRule)
  consider "on" "d = Upstream" | "on" "d = Downstream" | "\<not> on" by (cases d) auto
  then show ?thesis
  proof cases
    case 1
    then show ?thesis using add_rule_refines [OF assms(1) q(1)] run BlockRule filter_rel_Suc by (auto split: if_splits)
  next
    case 2
    then obtain ws where "down_words q = Some ws" "[] \<notin> set ws" using assms(2) BlockRule by auto
    from add_down_refines [OF assms(1) query_keyword [OF q(1)] this assms(3), of True] show ?thesis
      using run BlockRule 2 \<open>down_words q = Some ws\<close> by auto
  next
    case 3
    obtain fs1 where 1: "filter_del_rule q fs = Some fs1"
      "filter_rel n fs1 (sp\<lparr>sp_rules := map (\<lambda>x. if x = Some q then None else x) (sp_rules sp)\<rparr>)"
      using del_rule_refines [OF assms(1) q(2)] by blast
    from del_str_refines [OF 1(2), of q] show ?thesis
      using run BlockRule 3 1(1) filter_rel_Suc by (auto split: if_splits)
  qed
next
  case (MonitorRule on d q)
  have q: "query_ok q" "NUL \<notin> set q" "length q < 256"
    using assms(2) MonitorRule rule_field [of q] by auto
  have run: "perform c fs =
      (if on then do { fs \<leftarrow> filter_add_rule_N q fs;
                       (if d = Upstream then Some fs else add_down_keyword False q fs) }
       else filter_del_rule_N q fs)"
    by (simp add: MonitorRule)
  show ?thesis
  proof (cases "on")
    case False
    then show ?thesis using del_rule_N_refines [OF assms(1) q(2)] run MonitorRule filter_rel_Suc by auto
  next
    case True
    show ?thesis
    proof (cases "length (sp_rules_N sp) < 10000")
      case False
      then show ?thesis using add_rule_N_refines [OF assms(1) q(1)] run MonitorRule True by simp
    next
      case less: True
      then obtain fs1 where 1: "filter_add_rule_N q fs = Some fs1"
        "filter_rel n fs1 (sp\<lparr>sp_rules_N := sp_rules_N sp @ [Some q]\<rparr>)"
        using add_rule_N_refines [OF assms(1) q(1)] by auto
      show ?thesis
      proof (cases d)
        case Upstream
        then show ?thesis using run MonitorRule True less 1 filter_rel_Suc by simp
      next
        case Downstream
        then obtain ws where "down_words q = Some ws" "[] \<notin> set ws" using assms(2) MonitorRule True by auto
        from add_down_refines [OF 1(2) query_keyword [OF q(1)] this assms(3), of False] show ?thesis
          using run MonitorRule True less 1(1) Downstream \<open>down_words q = Some ws\<close> by auto
      qed
    qed
  qed
next
  case (UserRule on u a)
  have run: "perform c fs =
    (if on then on_trie (insert_for_userid (rule_string u a ''*'')) fs
     else on_trie (del (rule_string u a ''*'')) fs)"
    by (simp add: UserRule)
  have "u \<noteq> []" using assms(2) UserRule by simp
  have "on_trie (trie_step (black_command on u a ''*'')) fs = perform c fs"
    using filter_rel_root [OF assms(1)] assms(2) UserRule \<open>u \<noteq> []\<close>
    unfolding run by (auto simp: on_trie_def black_command_def trie_step_insert simp del: trie_step.simps)
  moreover have "black_event_ok (black_command on u a ''*'')"
    using assms(2) UserRule by (simp add: black_command_def rule_chars_def c2i_def)
  ultimately show ?thesis using black_refines [OF assms(1) _ assms(3), of "black_command on u a ''*''"] UserRule
    by simp
next
  case (ResourceRule on r a)
  have run: "perform c fs =
    (if on then on_trie (insert_for_resourceid (rule_string ''*'' a r)) fs
     else on_trie (del (rule_string ''*'' a r)) fs)"
    by (simp add: ResourceRule)
  have "on_trie (trie_step (black_command on ''*'' a r)) fs = perform c fs"
    using filter_rel_root [OF assms(1)] unfolding run by (auto simp: on_trie_def black_command_def trie_step_insert simp del: trie_step.simps)
  moreover have "black_event_ok (black_command on ''*'' a r)"
    using assms(2) ResourceRule by (simp add: black_command_def rule_chars_def c2i_def)
  ultimately show ?thesis using black_refines [OF assms(1) _ assms(3), of "black_command on ''*'' a r"] ResourceRule
    by simp
next
  case (UrlRule on u)
  have u: "keyword_ok u" using assms(2) UrlRule by simp
  have run: "perform c fs =
    (if on then on_matchers (\<lambda>m. addurl m u) fs else on_matchers (\<lambda>m. delurl m u) fs)"
    by (simp add: UrlRule)
  show ?thesis using url_refines [OF assms(1) u] run UrlRule filter_rel_Suc
    by (cases "on") (auto split: if_splits)
qed

lemma rule_process_perform:
  assumes "command_ok c" "CHR ''|'' \<notin> set (i @ t @ w)"
  shows "rule_process (command_line i t w c) fs = perform c fs"
proof (cases c)
  case (BlockRule on d q)
  then have "CHR ''|'' \<notin> set (i @ t @ w @ q)" "NUL \<notin> set q" "length q < 256"
    using assms rule_field [of q] by (auto simp: command_ok_def)
  from keyword_command_fields [OF this, of "CHR ''2''" on d fs] show ?thesis by (simp add: BlockRule rule_process_def)
next
  case (MonitorRule on d q)
  then have "CHR ''|'' \<notin> set (i @ t @ w @ q)" "NUL \<notin> set q" "length q < 256"
    using assms rule_field [of q] by (auto simp: command_ok_def)
  from keyword_command_fields [OF this, of "CHR ''1''" on d fs] show ?thesis by (simp add: MonitorRule rule_process_def)
next
  case (UserRule on u a)
  then show ?thesis using user_command_fields [of i t w u a "on" fs] assms by (simp add: command_ok_def rule_process_def)
next
  case (ResourceRule on r a)
  then show ?thesis using resource_command_fields [of i t w r a "on" fs] assms by (simp add: command_ok_def rule_process_def)
next
  case (UrlRule on u)
  then have "CHR ''|'' \<notin> set (i @ t @ w @ u)" "NUL \<notin> set u" "length u < 256"
    using assms by (auto simp: command_ok_def keyword_ok_def)
  from url_command_fields [OF this, of "on" fs] show ?thesis by (simp add: UrlRule rule_process_def)
qed

lemma command_refines:
  assumes "filter_rel n fs sp" "command_ok c" "n < 32768" "CHR ''|'' \<notin> set (i @ t @ w)"
  shows "case spec_command c sp of
      None \<Rightarrow> rule_process (command_line i t w c) fs = None
    | Some sp1 \<Rightarrow> \<exists>fs1. rule_process (command_line i t w c) fs = Some fs1 \<and> filter_rel (Suc n) fs1 sp1"
  unfolding rule_process_perform [OF assms(2,4)]
  using perform_refines [OF assms(1) _ assms(3)] assms(2) by (simp add: command_ok_def)

section \<open>Start-up\<close>

definition init_loop ::
  "string list \<Rightarrow> string list \<Rightarrow> (string \<times> string \<times> string) list \<Rightarrow> filter_state option" where
  \<comment> \<open>from the rows of the keyword, URL and black list tables\<close>
  "init_loop kw_rows url_rows bl_rows = do {
     m \<leftarrow> init_ac kw_rows url_rows;
     t \<leftarrow> init_trie_tree bl_rows;
     let fs = \<lparr>fs_rules = \<lparr>rs_matchers = m, rs_table = init_query_table, rs_table_N = init_query_table_N, rs_trie = t\<rparr>,
               fs_down = down_ac, fs_utos = []\<rparr>;
     fs \<leftarrow> filter_add_rule ''Li & Hong # Zhi'' fs;
     fs \<leftarrow> filter_add_rule ''free'' fs;
     filter_add_rule ''sun # peiyuan'' fs }"

definition spec_init :: "string list \<Rightarrow> string list \<Rightarrow> (string \<times> string \<times> string) list \<Rightarrow> filter_spec" where
  "spec_init kw_rows url_rows bl_rows = \<lparr>sp_urls = rev url_rows,
     sp_rules = [Some ''Li & Hong # Zhi'', Some ''free'', Some ''sun # peiyuan''], sp_rules_N = [],
     sp_words = rule_keywords ''sun # peiyuan'' @ rule_keywords ''free'' @ rule_keywords ''Li & Hong # Zhi'' @ rev kw_rows,
     sp_black = fold black_step (row_events bl_rows) (\<lambda>_. None, 0, 1), sp_down = []\<rparr>"

definition rows_ok :: "string list \<Rightarrow> string list \<Rightarrow> (string \<times> string \<times> string) list \<Rightarrow> bool" where
  "rows_ok kw_rows url_rows bl_rows \<longleftrightarrow> (\<forall>k\<in>set kw_rows. keyword_ok k \<and> length k \<le> 255) \<and>
     (\<forall>k\<in>set url_rows. keyword_ok k) \<and> url_rows \<noteq> [] \<and> (\<forall>ev\<in>set (row_events bl_rows). black_event_ok ev) \<and>
     length bl_rows < 32768"

lemma first_rules_ok: "query_ok ''Li & Hong # Zhi''" "query_ok ''free''" "query_ok ''sun # peiyuan''"
  by (simp_all add: query_ok_def segments.simps still_has_logic_def is_logic_def first_word_def)

lemma init_loop_rel:
  assumes "rows_ok kw_rows url_rows bl_rows"
  shows "\<exists>fs. init_loop kw_rows url_rows bl_rows = Some fs \<and> filter_rel (length bl_rows) fs (spec_init kw_rows url_rows bl_rows)"
proof -
  obtain m where m: "init_ac kw_rows url_rows = Some m" "pair_synced (mA m) (mB m)" "keys_of (mA m) = rev kw_rows"
    "pair_synced (mNA m) (mNB m)" "keys_of (mNA m) = []" "keys_of (mURL_A m) = rev url_rows" "pair_ready (mURL_A m) (mURL_B m)"
    using init_ac_state [of kw_rows url_rows] assms by (auto simp: rows_ok_def)
  obtain t where t: "init_trie_tree bl_rows = Some t"
    "trie_rel (length bl_rows) t (fold black_step (row_events bl_rows) (\<lambda>_. None, 0, 1))"
    using trie_steps_rel [OF trie_rel_init, of "row_events bl_rows"] assms
    by (auto simp: rows_ok_def init_trie_tree_def addrulefromdb_events row_events_def)
  let ?fs = "\<lparr>fs_rules = \<lparr>rs_matchers = m, rs_table = init_query_table, rs_table_N = init_query_table_N, rs_trie = t\<rparr>,
      fs_down = down_ac, fs_utos = []\<rparr>"
  let ?sp = "\<lparr>sp_urls = rev url_rows, sp_rules = [], sp_rules_N = [], sp_words = rev kw_rows,
     sp_black = fold black_step (row_events bl_rows) (\<lambda>_. None, 0, 1), sp_down = []\<rparr>"
  have "rules.engine_rel [] init_query_table m" "rulesN.engine_rel [] init_query_table_N m"
    using m(2-5) assms
    by (simp_all add: rules.engine_rel_def rulesN.engine_rel_def init_query_table_def init_query_table_N_def rows_ok_def)
  then have 0: "filter_rel (length bl_rows) ?fs ?sp"
    using m(3,6,7) t(2) by (simp add: filter_rel_def Let_def down_ac_def acsmnew_def down_synced_def)
  obtain fs1 where 1: "filter_add_rule ''Li & Hong # Zhi'' ?fs = Some fs1"
    "filter_rel (length bl_rows) fs1 (spec_add_rule ''Li & Hong # Zhi'' ?sp)"
    using add_rule_refines [OF 0 first_rules_ok(1)] by auto
  obtain fs2 where 2: "filter_add_rule ''free'' fs1 = Some fs2"
    "filter_rel (length bl_rows) fs2 (spec_add_rule ''free'' (spec_add_rule ''Li & Hong # Zhi'' ?sp))"
    using add_rule_refines [OF 1(2) first_rules_ok(2)] by (auto simp: spec_add_rule_def)
  obtain fs3 where 3: "filter_add_rule ''sun # peiyuan'' fs2 = Some fs3"
    "filter_rel (length bl_rows) fs3 (spec_init kw_rows url_rows bl_rows)"
    using add_rule_refines [OF 2(2) first_rules_ok(3)] by (auto simp: spec_init_def spec_add_rule_def)
  then show ?thesis using m(1) t(1) 1(1) 2(1) by (simp add: init_loop_def)
qed

lemma commands_rel:
  assumes "filter_rel n fs sp" "\<forall>c\<in>set cs. command_ok c" "n + length cs \<le> 32768" "CHR ''|'' \<notin> set (i @ t @ w)"
  shows "case ofold spec_command cs sp of
      None \<Rightarrow> ofold (\<lambda>c. rule_process (command_line i t w c)) cs fs = None
    | Some sp1 \<Rightarrow> \<exists>fs1. ofold (\<lambda>c. rule_process (command_line i t w c)) cs fs = Some fs1 \<and>
        filter_rel (n + length cs) fs1 sp1"
  using assms(1-3)
proof (induction cs arbitrary: n fs sp)
  case (Cons c cs)
  note step = command_refines [OF Cons.prems(1) _ _ assms(4), of c]
  show ?case
  proof (cases "spec_command c sp")
    case None
    then show ?thesis using step Cons.prems by simp
  next
    case (Some sp1)
    then obtain fs1 where "rule_process (command_line i t w c) fs = Some fs1" "filter_rel (Suc n) fs1 sp1"
      using step Cons.prems by auto
    then show ?thesis using Cons.IH [of "Suc n" fs1 sp1] Cons.prems Some by (auto split: option.splits)
  qed
qed simp

section \<open>Log lines of short entries\<close>

lemma dec_length: "n < 10 ^ k \<Longrightarrow> 0 < k \<Longrightarrow> length (dec n) \<le> k"
proof (induction n arbitrary: k rule: dec.induct)
  case (1 n)
  show ?case
  proof (cases "n < 10")
    case True
    then show ?thesis using 1 by (simp add: dec.simps)
  next
    case False
    then obtain j where k: "k = Suc j" "0 < j" using 1 by (cases k; cases "k - 1") auto
    then have "n div 10 < 10 ^ j" using 1 by (simp add: div_less_iff_less_mult)
    then have "length (dec (n div 10)) \<le> j" using "1.IH" [OF False] k by blast
    then show ?thesis using k False by (subst dec.simps) simp
  qed
qed

lemma port_digits: "length (dec (unat (p :: 16 word))) \<le> 5"
proof (rule dec_length)
  have "unat p < 2 ^ 16" using unsigned_less [of p, where ?'a = nat] by simp
  then show "unat p < 10 ^ 5" by simp
qed simp

lemma sendlog_short:
  assumes "tm_ok now" "NUL \<notin> set (uid @ rid @ oid @ kws @ ft)"
    "length uid < 20" "length rid < 20" "length oid < 20" "length kws < 300" "length kws + length ft \<le> 1000"
    "0 \<le> act" "act < 100" "0 \<le> gk" "gk < 10" "length ft < 1000"
  shows "\<exists>line. sendlog (log_entry now lt act uid rid oid kws gk ft) monitor =
     Some (if monitor > 0 then LOGPORT2 else LOGPORT, line)"
proof -
  have "length (sprintf_d act) \<le> 2" "length (sprintf_d gk) \<le> 1"
    using assms(8-11) dec_length [of "nat act" 2] dec_length [of "nat gk" 1] by (simp_all add: sprintf_d_def)
  moreover have "length (sprintf_d PROCESSORID) \<le> 2" using dec_length [of 43 2] by (simp add: sprintf_d_def PROCESSORID_def)
  moreover have "length (time_stamp now) = 23" using getlogtime_stamp(2) [OF assms(1), of bzero_log] by (simp add: bzero_log_def)
  moreover note int_ntoa_short(1) [of "serverip lt"] int_ntoa_short(1) [of "clientip lt"]
    port_digits [of "serverport lt"] port_digits [of "clientport lt"]
  ultimately have "length (concat (map (\<lambda>f. f @ ''|'') (entry_fields now lt act uid rid oid kws gk ft))) \<le> 1198"
    using assms(3-7) by (simp add: entry_fields_def WEBSITE_def)
  then show ?thesis
    by (simp add: sendlog_def log_fields_entry [OF assms(1-6,12)] Let_def)
qed

definition short_request :: "connection_info \<Rightarrow> bool" where
  \<comment> \<open>a request whose strings fit the fields of a log record and the line\<close>
  "short_request c \<longleftrightarrow> c_info_ok c \<and> id_ok (cstr (user_id c)) \<and> id_ok (cstr (s_id c)) \<and> id_ok (cstr (r_id c)) \<and>
     0 < p_type c \<and> p_type c < 100 \<and> length (cstr (r_id c)) < 20 \<and> length (cstr (comment c)) \<le> 700"

lemma short_request_log:
  assumes "short_request c" "tm_ok now"
  shows "\<exists>log. initlog now lt \<bind> log_addsocialinfo c = Some log \<and>
     log = log_entry now lt (p_type c) (cstr (user_id c)) (cstr (r_id c)) (cstr (s_id c)) [] 0 (cstr (comment c))"
  using assms by (simp add: initlog_entry log_addsocialinfo_entry short_request_def)

lemma short_request_fits:
  assumes "short_request c"
  shows "length (cstr (user_id c)) < 20" "length (cstr (s_id c)) < 20" "length (cstr (r_id c)) < 20"
    "length (cstr (comment c)) \<le> 700" "buf_str (comment c) = Some (cstr (comment c))"
  using assms cstr_less [of "user_id c"] cstr_less [of "s_id c"] by (auto simp: short_request_def c_info_ok_def buf_str_def)

lemma rule_hit_log_sent:
  assumes "short_request c" "tm_ok now" "index < length tbl" "tbl ! index = Some qe" "full_text qe = pad q"
    "NUL \<notin> set q" "length q < 256" "0 \<le> g" "g < 10"
  shows "\<exists>line. rule_hit_log now lt c g monitor tbl index = Some (if monitor > 0 then LOGPORT2 else LOGPORT, line)"
proof -
  note fits = short_request_fits [OF assms(1)]
  have "\<exists>line. sendlog (log_entry now lt (p_type c) (cstr (user_id c)) (cstr (r_id c)) (cstr (s_id c)) q g
      (cstr (comment c))) monitor = Some (if monitor > 0 then LOGPORT2 else LOGPORT, line)"
    by (rule sendlog_short) (use assms fits in \<open>auto simp: short_request_def\<close>)
  moreover have "c_info_ok c" using assms(1) by (simp add: short_request_def)
  ultimately show ?thesis using assms fits
    by (simp add: rule_hit_log_def initlog_entry log_addsocialinfo_entry log_addkeyword_entry log_set_full_text_again)
qed

lemma trie_hit_log_sent:
  assumes "short_request c" "tm_ok now"
  shows "\<exists>line. trie_hit_log now lt c p = Some (LOGPORT, line)"
proof -
  note fits = short_request_fits [OF assms(1)]
  have "\<exists>line. sendlog (log_entry now lt (p_type c) (cstr (user_id c)) (cstr (r_id c)) (cstr (s_id c)) [] g
      (cstr (comment c))) 0 = Some (LOGPORT, line)" if "0 \<le> g" "g < 10" for g
    using sendlog_short [of now "cstr (user_id c)" "cstr (r_id c)" "cstr (s_id c)" "[]" "cstr (comment c)" "p_type c" g lt 0]
      assms fits that by (auto simp: short_request_def)
  from this [of 1] this [of 2] show ?thesis using assms fits
    by (auto simp: trie_hit_log_def initlog_entry log_addsocialinfo_entry log_set_full_text_again Let_def short_request_def)
qed

lemma send_hits_sent:
  assumes "\<And>k i. i \<in> set is \<Longrightarrow> \<exists>line. f k i = Some (port, line)"
  shows "\<exists>out1. send_hits f k is out = Some (out @ out1) \<and> map fst out1 = replicate (length is) port"
  using assms
proof (induction "is" arbitrary: k out)
  case (Cons i "is")
  obtain line where "f k i = Some (port, line)" using Cons.prems [of i k] by auto
  moreover obtain out1 where "send_hits f (k + 1) is (out @ [(port, line)]) = Some ((out @ [(port, line)]) @ out1)"
    "map fst out1 = replicate (length is) port"
    using Cons.IH [of "k + 1" "out @ [(port, line)]"] Cons.prems by auto
  ultimately show ?case by (intro exI [of _ "(port, line) # out1"]) simp
qed simp

end
