(* ===== verification/UrlHit.thy ===== *)
theory UrlHit
  imports FilterSpec
begin

text \<open>
  The record of a listed URL (\<^verbatim>\<open>loop-1831-wxy.c\<close>, the branch \<open>dr->url > 0\<close> of \<open>get_decision\<close>).  It has
  as many buffers as the URL dictionary has hits, but fills one for each hit of the keywords of the rules in the URL; so it is
  within its buffers exactly under the condition \<open>url_record_fits\<close>.
\<close>

section \<open>The keyword search with any number of buffers\<close>

lemma copy_keywords_exact:
  assumes "\<forall>m\<in>set ms. wf_pattern m \<and> length (patrn m) \<le> 255"
  shows "copy_keywords ms (length bs, bs @ replicate n (replicate 256 NUL)) =
    (if length ms \<le> n
     then Some (length bs + length ms, bs @ map (\<lambda>m. zpad 256 (patrn m)) ms @ replicate (n - length ms) (replicate 256 NUL))
     else None)"
  using assms
proof (induction ms arbitrary: bs n)
  case (Cons m ms)
  show ?case
  proof (cases n)
    case (Suc k)
    have "memcpy (replicate 256 NUL) 0 (take (pat_n m) (patrn m)) = Some (zpad 256 (patrn m))"
      using Cons.prems by (simp add: wf_pattern_def)
    moreover have "copy_keywords ms (length (bs @ [zpad 256 (patrn m)]),
        (bs @ [zpad 256 (patrn m)]) @ replicate k (replicate 256 NUL)) =
      (if length ms \<le> k
       then Some (length (bs @ [zpad 256 (patrn m)]) + length ms, (bs @ [zpad 256 (patrn m)]) @
         map (\<lambda>m. zpad 256 (patrn m)) ms @ replicate (k - length ms) (replicate 256 NUL)) else None)"
      using Cons.prems by (intro Cons.IH) simp
    ultimately show ?thesis using Suc by (simp add: nth_append list_update_append)
  qed simp
qed simp

definition keyword_bytes :: "string list \<Rightarrow> string \<Rightarrow> nat" where
  \<comment> \<open>the bytes of all occurrences of the keywords\<close>
  "keyword_bytes kws T = (\<Sum>i<length T. \<Sum>k\<leftarrow>filter (\<lambda>k. suffix k (take (Suc i) T)) kws. length k)"

lemma sum_list_mset_eq: "mset xs = mset ys \<Longrightarrow> (\<Sum>x\<leftarrow>xs. f x) = (\<Sum>y\<leftarrow>ys. f y :: nat)"
  by (metis mset_map sum_mset_sum_list)

lemma sum_list_concat_map: "(\<Sum>x\<leftarrow>concat xss. f x) = (\<Sum>i<length xss. \<Sum>x\<leftarrow>xss ! i. f x :: nat)"
proof (induction xss rule: rev_induct)
  case (snoc xs xss)
  have "(\<Sum>i<length xss. \<Sum>x\<leftarrow>(xss @ [xs]) ! i. f x) = (\<Sum>i<length xss. \<Sum>x\<leftarrow>xss ! i. f x)"
    by (rule sum.cong) (simp_all add: nth_append)
  then show ?case using snoc by simp
qed simp

lemma pair_getkw_any:
  assumes "pair_ready a b" "\<forall>k\<in>set (keys_of a). length k \<le> 255"
  obtains ws where "length ws = occurrences_of (keys_of a) T" "(\<Sum>w\<leftarrow>ws. length w) = keyword_bytes (keys_of a) T"
    "\<forall>w\<in>set ws. NUL \<notin> set w \<and> length w \<le> 255"
    "\<And>n. acsmSearch_kw a T (length T) (replicate n (replicate 256 NUL)) =
      (if length ws \<le> n then Some (length ws, map (zpad 256) (ws @ replicate (n - length ws) [])) else None)"
proof -
  let ?ps = "acsmPatterns a"
  obtain cs where comp: "compiled cs ?ps a" using assms(1) by (auto simp: pair_ready_def)
  obtain mss where r: "match_lists a 0 T = Some mss" "length mss = length T"
    "\<And>i. i < length T \<Longrightarrow> mset (mss ! i) = mset (ends_here ?ps (take (Suc i) T))"
    "length (concat mss) = occurrences ?ps T"
    by (rule run_compiled [OF comp]) blast
  have "set (concat mss) \<subseteq> set ?ps"
    using run_members [OF r(2,3)] r(2) by (fastforce simp: in_set_conv_nth)
  then have ok: "\<forall>m\<in>set (concat mss). wf_pattern m \<and> length (patrn m) \<le> 255 \<and> NUL \<notin> set (patrn m)"
    using assms by (auto simp: pair_ready_def pair_synced_def keyword_ok_def)
  let ?ws = "map patrn (concat mss)"
  have "(\<Sum>w\<leftarrow>?ws. length w) = (\<Sum>m\<leftarrow>concat mss. length (patrn m))" by (simp add: o_def)
  also have "\<dots> = (\<Sum>i<length T. \<Sum>m\<leftarrow>mss ! i. length (patrn m))" by (simp only: sum_list_concat_map r(2))
  also have "\<dots> = (\<Sum>i<length T. \<Sum>m\<leftarrow>ends_here ?ps (take (Suc i) T). length (patrn m))"
    by (rule sum.cong) (simp_all add: sum_list_mset_eq [OF r(3)])
  also have "\<dots> = keyword_bytes (keys_of a) T"
    by (simp add: keyword_bytes_def ends_here_def filter_map o_def)
  finally have bytes: "(\<Sum>w\<leftarrow>?ws. length w) = keyword_bytes (keys_of a) T" .
  have "acsmSearch_kw a T (length T) (replicate n (replicate 256 NUL)) =
      copy_keywords (concat mss) (length ([] :: string list), [] @ replicate n (replicate 256 NUL))" for n
    by (simp add: acsmSearch_kw_def search_kw_from_run [OF r(1)])
  then have "acsmSearch_kw a T (length T) (replicate n (replicate 256 NUL)) =
      (if length ?ws \<le> n then Some (length ?ws, map (zpad 256) (?ws @ replicate (n - length ?ws) [])) else None)" for n
    using copy_keywords_exact [of "concat mss" "[]" n] ok by (simp add: o_def zpad_Nil)
  from that [OF _ bytes _ this] show thesis using r(4) ok by (simp add: occurrences_of_patterns)
qed

section \<open>The record\<close>

definition joined :: "string list \<Rightarrow> string" where
  "joined ws = concat (map (\<lambda>w. w @ ''&'') ws)"

lemma length_joined: "length (joined ws) = (\<Sum>w\<leftarrow>ws. length w) + length ws"
  by (induction ws) (simp_all add: joined_def)

lemma log_addkeywords_entry:
  assumes "NUL \<notin> set kws" "length kws < 300" "\<forall>w\<in>set ws. NUL \<notin> set w \<and> length w \<le> 255"
  shows "log_addkeywords (map (zpad 256) ws) (log_entry now lt act uid rid oid kws gk ft) =
    (if length kws + length (joined ws) < 300
     then Some (log_entry now lt act uid rid oid (kws @ joined ws) gk ft) else None)"
  using assms
proof (induction ws arbitrary: kws)
  case Nil
  then show ?case by (simp add: log_addkeywords_def joined_def)
next
  case (Cons w ws)
  have b: "buf_str (zpad 256 w) = Some w" using Cons.prems(3) by simp
  have run: "log_addkeywords (map (zpad 256) (w # ws)) (log_entry now lt act uid rid oid kws gk ft) =
      (do { log \<leftarrow> log_addkeyword w (log_entry now lt act uid rid oid kws gk ft);
            log \<leftarrow> log_addkeyword ''&'' log;
            log_addkeywords (map (zpad 256) ws) log })"
    by (simp add: log_addkeywords_def b del: buf_str_zpad)
  show ?case
  proof (cases "length kws + length w + 1 < 300")
    case True
    then have "log_addkeywords (map (zpad 256) ws) (log_entry now lt act uid rid oid (kws @ w @ ''&'') gk ft) =
        (if length (kws @ w @ ''&'') + length (joined ws) < 300
         then Some (log_entry now lt act uid rid oid ((kws @ w @ ''&'') @ joined ws) gk ft) else None)"
      using Cons.prems by (intro Cons.IH) auto
    then show ?thesis unfolding run using Cons.prems True by (simp add: log_addkeyword_entry joined_def)
  next
    case False
    then show ?thesis unfolding run using Cons.prems
      by (auto simp: log_addkeyword_entry joined_def bind_None_iff split: if_splits)
  qed
qed

lemma joined_butlast: "ws \<noteq> [] \<Longrightarrow> joined ws = butlast (joined ws) @ ''&''"
  by (induction ws rule: rev_induct) (simp_all add: joined_def butlast_append)

lemma cut_last_entry:
  assumes "log = log_entry now lt act uid rid oid (s @ [x]) gk ft" "NUL \<notin> set s" "x \<noteq> NUL" "length s < 299"
  shows "buf_str (log_keywords log) = Some (s @ [x])"
    and "log\<lparr>log_keywords := (log_keywords log)[length s := NUL]\<rparr> = log_entry now lt act uid rid oid s gk ft"
proof -
  show "buf_str (log_keywords log) = Some (s @ [x])" using assms by (simp add: log_entry_def)
  have "(zpad 300 (s @ [x]))[length s := NUL] = s @ NUL # replicate (299 - length s) NUL"
    by (simp add: zpad_def list_update_append)
  also have "\<dots> = zpad 300 s"
  proof -
    have "300 - length s = Suc (299 - length s)" using assms(4) by simp
    then show ?thesis by (simp add: zpad_def)
  qed
  finally show "log\<lparr>log_keywords := (log_keywords log)[length s := NUL]\<rparr> = log_entry now lt act uid rid oid s gk ft"
    using assms(1) by (simp add: log_entry_def)
qed

definition url_hits :: "filter_spec \<Rightarrow> connection_info \<Rightarrow> nat" where
  "url_hits sp c = occurrences_of (sp_urls sp) (cstr (c_url c))"

definition url_record_fits :: "filter_spec \<Rightarrow> connection_info \<Rightarrow> bool" where
  \<comment> \<open>a buffer for each keyword in the URL, and room for the keywords, their separators and the URL\<close>
  "url_record_fits sp c \<longleftrightarrow> (let U = cstr (c_url c) in
     occurrences_of (sp_words sp) U \<le> url_hits sp c \<and>
     keyword_bytes (sp_words sp) U + url_hits sp c + length U \<le> 300)"

lemma url_hit_log_sent:
  assumes "filter_rel n fs sp" "sp_rules sp \<noteq> []" "short_request c" "tm_ok now" "0 < url_hits sp c"
  shows "if url_record_fits sp c
     then \<exists>line. url_hit_log (rs_matchers (fs_rules fs)) now lt c (url_hits sp c) = Some (LOGPORT, line)
     else url_hit_log (rs_matchers (fs_rules fs)) now lt c (url_hits sp c) = None"
proof -
  let ?m = "rs_matchers (fs_rules fs)" and ?U = "cstr (c_url c)" and ?n = "url_hits sp c" and ?ft = "cstr (comment c)"
  let ?log = "\<lambda>kws gk. log_entry now lt (p_type c) (cstr (user_id c)) (cstr (r_id c)) (cstr (s_id c)) kws gk ?ft"
  note fits = short_request_fits [OF assms(3)]
  have rdy: "pair_ready (mA ?m) (mB ?m)" "\<forall>k\<in>set (keys_of (mA ?m)). length k \<le> 255" "sp_words sp = keys_of (mA ?m)"
    using assms(1,2) by (simp_all add: filter_rel_def rules.engine_rel_def Let_def)
  obtain ws where ws: "length ws = occurrences_of (sp_words sp) ?U" "(\<Sum>w\<leftarrow>ws. length w) = keyword_bytes (sp_words sp) ?U"
    "\<forall>w\<in>set ws. NUL \<notin> set w \<and> length w \<le> 255"
    "\<And>n. get_keywords ?m ?U (replicate n (replicate 256 NUL)) =
      (if length ws \<le> n then Some (length ws, map (zpad 256) (ws @ replicate (n - length ws) [])) else None)"
    using pair_getkw_any [OF rdy(1,2), of ?U] unfolding rdy(3) [symmetric] get_keywords_def by blast
  have U: "buf_str (c_url c) = Some ?U" "?U \<noteq> []"
  proof -
    show "buf_str (c_url c) = Some ?U" using assms(3) by (simp add: short_request_def c_info_ok_def buf_str_def)
    show "?U \<noteq> []" using assms(5) by (auto simp: url_hits_def occurrences_of_def)
  qed
  have start: "initlog now lt \<bind> log_addsocialinfo c = Some (?log [] 0)"
    using short_request_log [OF assms(3,4)] by blast
  define al where "al = ws @ replicate (?n - length ws) []"
  have run: "url_hit_log ?m now lt c ?n =
      (if length ws \<le> ?n then do {
         log \<leftarrow> log_addkeywords (map (zpad 256) al) (?log [] 3);
         k \<leftarrow> buf_str (log_keywords log);
         log \<leftarrow> (if k = [] then None else Some (log\<lparr>log_keywords := (log_keywords log)[length k - 1 := NUL]\<rparr>));
         log \<leftarrow> log_addkeyword ?U log;
         f \<leftarrow> buf_str (comment c);
         log \<leftarrow> log_set_full_text f log;
         sendlog log 0 } else None)"
  proof -
    have "(initlog now lt \<bind> (\<lambda>log. log_addsocialinfo c log \<bind> g)) = g (?log [] 0)" for g :: "loginfo \<Rightarrow> (nat \<times> string) option"
      using start by (metis Option.bind_assoc bind.bind_lunit)
    then show ?thesis by (simp add: url_hit_log_def U(1) ws(4) log_set_gk_type_entry al_def)
  qed
  show ?thesis
  proof (cases "length ws \<le> ?n")
    case False
    then show ?thesis using run ws(1) by (simp add: url_record_fits_def Let_def)
  next
    case le: True
    have all: "al \<noteq> []" "\<forall>w\<in>set al. NUL \<notin> set w \<and> length w \<le> 255"
      "length (joined al) = keyword_bytes (sp_words sp) ?U + ?n"
      using ws(1-3) le assms(5) by (auto simp: al_def length_joined sum_list_replicate)
    have fit: "url_record_fits sp c \<longleftrightarrow> length (joined al) + length ?U \<le> 300"
      using ws(1) le all(3) by (simp add: url_record_fits_def Let_def)
    define s where "s = butlast (joined al)"
    have "joined al = s @ ''&''" using joined_butlast [OF all(1)] by (simp only: s_def)
    then have s: "joined al = s @ ''&''" "length (joined al) = Suc (length s)" using arg_cong [of _ _ length] by auto
    have nul: "NUL \<notin> set (joined al)" using all(2) by (auto simp: joined_def)
    then have ns: "NUL \<notin> set s" using s(1) by auto
    show ?thesis
    proof (cases "length (joined al) < 300")
      case False
      then have "log_addkeywords (map (zpad 256) al) (?log [] 3) = None"
        using log_addkeywords_entry [of "[]" al] all(2) by simp
      moreover have "0 < length ?U" using U(2) by simp
      then have "\<not> url_record_fits sp c" using False unfolding fit by linarith
      ultimately show ?thesis by (simp only: run le if_True if_False bind.bind_lzero)
    next
      case True
      then have add: "log_addkeywords (map (zpad 256) al) (?log [] 3) = Some (?log (s @ ''&'') 3)"
        using log_addkeywords_entry [of "[]" al] all(2) s(1) by simp
      have cut: "buf_str (log_keywords (?log (s @ ''&'') 3)) = Some (s @ ''&'')"
        "(?log (s @ ''&'') 3)\<lparr>log_keywords := (log_keywords (?log (s @ ''&'') 3))[length s := NUL]\<rparr> = ?log s 3"
        using cut_last_entry [OF refl ns, of "CHR ''&''"] True s(2) by simp_all
      have tail: "url_hit_log ?m now lt c ?n =
          (if length s + length ?U < 300 then sendlog (?log (s @ ?U) 3) 0 else None)"
        using True s(2) ns fits by (simp add: run le add cut log_addkeyword_entry log_set_full_text_again)
      have "NUL \<notin> set ?U" by simp
      then have "\<exists>line. sendlog (?log (s @ ?U) 3) 0 = Some (LOGPORT, line)" if "length s + length ?U < 300"
        using sendlog_short [of now "cstr (user_id c)" "cstr (r_id c)" "cstr (s_id c)" "s @ ?U" ?ft "p_type c" 3 lt 0]
          assms(3,4) fits ns that by (auto simp: short_request_def)
      then show ?thesis using fit s(2) by (simp add: tail)
    qed
  qed
qed

end
