(* ===== verification/Verdict.thy ===== *)
theory Verdict
  imports UrlHit
begin

text \<open>
  What the commands and the decisions amount to: the refinement of the abstract filter by any
  sequence of commands, and the decision on a request in terms of the rules in force.
\<close>

section \<open>The searches of a decision\<close>

lemma hits_from_nth:
  "i \<in> set (hits_from T k xs) \<Longrightarrow> k \<le> i \<and> i < k + length xs \<and> (\<exists>q. xs ! (i - k) = Some q \<and> query_holds q T)"
proof (induction xs arbitrary: k)
  case (Cons x xs)
  then consider "i = k" "\<exists>q. x = Some q \<and> query_holds q T" | "i \<in> set (hits_from T (k + 1) xs)"
    by (auto split: option.splits if_splits)
  then show ?case
  proof cases
    case 2
    from Cons.IH [OF this] have "i - k = Suc (i - Suc k)" "k < i" by auto
    then show ?thesis using Cons.IH [OF 2] by simp
  qed auto
qed simp


definition hits_ok :: "query_table \<Rightarrow> nat list \<Rightarrow> bool" where
  "hits_ok tbl hs \<longleftrightarrow> (\<forall>i\<in>set hs. i < length tbl \<and>
     (\<exists>qe q. tbl ! i = Some qe \<and> full_text qe = pad q \<and> NUL \<notin> set q \<and> length q < 256))"

lemma slot_hits:
  assumes "list_all2 (slot_rel kws) xs tbl"
  shows "hits_ok tbl (hits_from T 0 xs)"
  unfolding hits_ok_def
proof
  fix i assume "i \<in> set (hits_from T 0 xs)"
  then obtain q where q: "i < length xs" "xs ! i = Some q" using hits_from_nth by fastforce
  then have len: "i < length tbl" and slot: "slot_rel kws (Some q) (tbl ! i)"
    using assms list_all2_nthD [OF assms, of i] by (auto dest: list_all2_lengthD)
  then obtain qe where qe: "tbl ! i = Some qe" "query_ok q" "parsed_from q qe"
    by (cases "tbl ! i") auto
  then show "i < length tbl \<and> (\<exists>qe q. tbl ! i = Some qe \<and> full_text qe = pad q \<and> NUL \<notin> set q \<and> length q < 256)"
    using len parsed_from_spec(4) [OF qe(2,3)] rule_field [OF qe(2)] by blast
qed

lemma filter_rules_match:
  assumes "filter_rel n fs sp" "length (hits_from T 0 (sp_rules sp)) \<le> MAX_LOGIC_HIT_RESULT_LEN"
  shows "\<exists>tbl. logic_query_match (rs_matchers (fs_rules fs)) (rs_table (fs_rules fs)) T =
      Some (hits_from T 0 (sp_rules sp), tbl) \<and>
    rules.engine_rel (sp_rules sp) tbl (rs_matchers (fs_rules fs)) \<and> hits_ok tbl (hits_from T 0 (sp_rules sp))"
proof -
  let ?rs = "fs_rules fs"
  have rel: "rules.engine_rel (sp_rules sp) (rs_table ?rs) (rs_matchers ?rs)"
    using assms(1) by (simp add: filter_rel_def Let_def)
  have "rule_step (SearchRules T) (rs_table ?rs, rs_matchers ?rs, []) =
     engine_step addstr kw_match get_keywords (SearchRules T) (rs_table ?rs, rs_matchers ?rs, [])"
    by (rule rule_step_engine)
  with rules.engine_step_refines [OF rel, of "SearchRules T" "[]"] assms(2)
  obtain tbl where "logic_query_match (rs_matchers ?rs) (rs_table ?rs) T = Some (hits_from T 0 (sp_rules sp), tbl)"
    "rules.engine_rel (sp_rules sp) tbl (rs_matchers ?rs)"
    by (auto simp del: engine_step.simps simp: bind_Some_iff split: prod.splits)
  then show ?thesis using slot_hits [of _ "sp_rules sp" tbl T] by (auto simp: rules.engine_rel_def)
qed

lemma filter_rules_match_N:
  assumes "filter_rel n fs sp" "length (hits_from T 0 (sp_rules_N sp)) \<le> MAX_LOGIC_HIT_RESULT_LEN"
  shows "\<exists>tbl. logic_query_match_N (rs_matchers (fs_rules fs)) (rs_table_N (fs_rules fs)) T =
      Some (hits_from T 0 (sp_rules_N sp), tbl) \<and>
    rulesN.engine_rel (sp_rules_N sp) tbl (rs_matchers (fs_rules fs)) \<and> hits_ok tbl (hits_from T 0 (sp_rules_N sp))"
proof -
  let ?rs = "fs_rules fs"
  have rel: "rulesN.engine_rel (sp_rules_N sp) (rs_table_N ?rs) (rs_matchers ?rs)"
    using assms(1) by (simp add: filter_rel_def Let_def)
  have "rule_step_N (SearchRules T) (rs_table_N ?rs, rs_matchers ?rs, []) =
     engine_step addstr_N kw_match_N get_keywords_N (SearchRules T) (rs_table_N ?rs, rs_matchers ?rs, [])"
    by (rule rule_step_N_engine)
  with rulesN.engine_step_refines [OF rel, of "SearchRules T" "[]"] assms(2)
  obtain tbl where "logic_query_match_N (rs_matchers ?rs) (rs_table_N ?rs) T = Some (hits_from T 0 (sp_rules_N sp), tbl)"
    "rulesN.engine_rel (sp_rules_N sp) tbl (rs_matchers ?rs)"
    by (auto simp del: engine_step.simps simp: bind_Some_iff split: prod.splits)
  then show ?thesis using slot_hits [of _ "sp_rules_N sp" tbl T] by (auto simp: rulesN.engine_rel_def)
qed

lemma filter_url_match:
  assumes "filter_rel n fs sp"
  shows "url_match (rs_matchers (fs_rules fs)) T = Some (occurrences_of (sp_urls sp) T)"
    and "0 < occurrences_of (sp_urls sp) T \<longleftrightarrow> (\<exists>u\<in>set (sp_urls sp). sublist u T)"
proof -
  let ?m = "rs_matchers (fs_rules fs)"
  have r: "pair_ready (mURL_A ?m) (mURL_B ?m)" "keys_of (mURL_A ?m) = sp_urls sp"
    using assms by (simp_all add: filter_rel_def Let_def)
  show "url_match ?m T = Some (occurrences_of (sp_urls sp) T)" using url.count_law [OF r(1)] r(2) by simp
  have "\<forall>k\<in>set (sp_urls sp). k \<noteq> []"
    using url.keys_ok [OF url.ready_synced [OF r(1)]] r(2) by (auto simp: keyword_ok_def)
  then show "0 < occurrences_of (sp_urls sp) T \<longleftrightarrow> (\<exists>u\<in>set (sp_urls sp). sublist u T)"
    by (rule occurrences_of_pos)
qed




section \<open>The decision on a request\<close>










section \<open>Commands and requests interleaved\<close>

lemma command_line_NUL:
  assumes "command_ok c" "NUL \<notin> set (i @ t @ w)"
  shows "NUL \<notin> set (command_line i t w c)"
  using assms rule_field rule_chars_NUL
  by (cases c) (auto simp: bars_def onoff_def updown_def keyword_ok_def)

lemma receive_command:
  assumes "command_ok c" "NUL \<notin> set (i @ t @ w)" "length (command_line i t w c) < 1024"
  shows "receive_rule (command_line i t w c) fs = rule_process (command_line i t w c) fs"
proof -
  have "command_line i t w c \<noteq> []" by (cases c) (simp_all add: bars_def)
  then show ?thesis using command_line_NUL [OF assms(1,2)] assms(3) by (simp add: receive_rule_def cstr_append)
qed







section \<open>Properties\<close>


definition sample_request :: connection_info where
  "sample_request = \<lparr>user_id = zpad 20 ''12'', s_id = zpad 20 ''34'', p_type = 4, r_id = zpad 52 ''56'',
     comment = zpad 10000 ''a free lunch'', c_url = zpad 512 ''GET /''\<rparr>"

definition sample_now :: tm where
  "sample_now = \<lparr>tm_year = 115, tm_mon = 5, tm_mday = 8, tm_hour = 1, tm_min = 2, tm_sec = 3, tv_usec = 4000\<rparr>"

lemma sample_now_ok: "tm_ok sample_now"
  by (simp add: tm_ok_def sample_now_def)

lemma cstr_zpad [simp]: "NUL \<notin> set s \<Longrightarrow> length s < n \<Longrightarrow> cstr (zpad n s) = s"
  using buf_str_zpad [of s n] by (auto simp: buf_str_def split: if_splits)












lemma first_rules_miss:
  assumes "\<not> sublist ''Li'' T" "\<not> sublist ''Zhi'' T" "\<not> sublist ''free'' T" "\<not> sublist ''sun'' T" "\<not> sublist ''peiyuan'' T"
  shows "\<not> query_holds ''Li & Hong # Zhi'' T" "\<not> query_holds ''free'' T" "\<not> query_holds ''sun # peiyuan'' T"
  using assms by (simp_all add: query_holds_def segments.simps still_has_logic_def is_logic_def first_word_def)



text \<open>Taking back a blocking rule is undefined unless the dictionary for responses has a keyword: the command
  deletes its text there too, whatever its direction, and the deletion from the empty list reads the null pointer.\<close>

lemma delete_rule_undefined:
  assumes "filter_rel n fs sp" "n < 32768" "sp_down sp = []" "query_ok q" "NUL \<notin> set (i @ t @ w)" "CHR ''|'' \<notin> set (i @ t @ w @ q)"
    and "length (command_line i t w (BlockRule False d q)) < 1024"
  shows "receive_rule (command_line i t w (BlockRule False d q)) fs = None"
  using command_refines [OF assms(1), of "BlockRule False d q" i t w] assms(2-6)
    receive_command [OF _ assms(5,7)] by simp

lemma delete_rule_undefined_witness:
  "\<exists>fs. init_loop [] [''bad''] [] = Some fs \<and> receive_rule ''1|9|free|0|0|0|0|1|2|1|'' fs = None"
proof -
  have "rows_ok [] [''bad''] []" by (simp add: rows_ok_def keyword_ok_def row_events_def)
  from init_loop_rel [OF this] obtain fs where fs: "init_loop [] [''bad''] [] = Some fs"
    "filter_rel 0 fs (spec_init [] [''bad''] [])" by auto
  have "command_line ''9'' ''0'' ''1'' (BlockRule False Upstream ''free'') = ''1|9|free|0|0|0|0|1|2|1|''"
    by (simp add: bars_def onoff_def updown_def)
  then have "receive_rule ''1|9|free|0|0|0|0|1|2|1|'' fs = None"
    using delete_rule_undefined [OF fs(2) _ _ first_rules_ok(2), of "''9''" "''0''" "''1''" Upstream]
    by (simp add: spec_init_def)
  then show ?thesis using fs(1) by blast
qed

lemma long_comment_social:
  "length (fulltext log) = 1000 \<Longrightarrow> 1000 < length (cstr (comment c)) \<Longrightarrow> log_addsocialinfo c log = None"
  by (auto simp: log_addsocialinfo_def log_set_full_text_def buf_str_def memcpy_def bind_None_iff bind_Some_iff)

lemma initlog_fulltext: "tm_ok now \<Longrightarrow> initlog now lt = Some log \<Longrightarrow> length (fulltext log) = 1000"
  by (auto simp: initlog_entry log_entry_def)

lemma long_comment_unlogged:
  assumes "tm_ok now" "1000 < length (cstr (comment c))"
  shows "rule_hit_log now lt c g monitor tbl index = None" "url_hit_log m now lt c k = None" "trie_hit_log now lt c p = None"
  using long_comment_social [OF initlog_fulltext [OF assms(1)] assms(2)]
  by (auto simp: rule_hit_log_def url_hit_log_def trie_hit_log_def bind_None_iff)

lemma send_hits_None: "(\<And>k i. f k i = None) \<Longrightarrow> send_hits f k hs out = (if hs = [] then Some out else None)"
  by (cases hs) simp_all

text \<open>A request with a text of more than 1000 bytes has no outcome but to pass unlogged: as soon as any rule, id or
  URL hits, the copy into the log record overruns its last field.\<close>

lemma long_text_overruns:
  assumes "1000 < length (cstr (comment c))" "\<forall>k. tm_ok (now k)"
    and "get_decision now (Some c) lt rs = Some (status, lines, rs1)"
  shows "status = 0 \<and> lines = []"
proof -
  note none = long_comment_unlogged [OF assms(2) [rule_format]]
  obtain n where n: "url_match (rs_matchers rs) (cstr (c_url c)) = Some n" "buf_str (c_url c) = Some (cstr (c_url c))"
    using assms(3) by (auto simp: get_decision_def bind_Some_iff buf_str_def split: if_splits)
  obtain T where T: "buf_str (comment c) = Some T"
    using assms(3) n by (auto simp: get_decision_def bind_Some_iff Let_def)
  obtain lr tbl where lr: "logic_query_match (rs_matchers rs) (rs_table rs) T = Some (lr, tbl)"
    using assms(3) n T by (fastforce simp: get_decision_def bind_Some_iff Let_def)
  obtain lrN tblN where lrN: "logic_query_match_N (rs_matchers rs) (rs_table_N rs) T = Some (lrN, tblN)"
    using assms(3) n T lr by (fastforce simp: get_decision_def bind_Some_iff Let_def)
  obtain t p1 p2 uid sid rid where t: "trie_chk_rule (user_id c) (s_id c) (p_type c) (r_id c) (rs_trie rs) =
      Some (t, p1, p2, uid, sid, rid)"
    using assms(3) n T lr lrN by (cases "trie_chk_rule (user_id c) (s_id c) (p_type c) (r_id c) (rs_trie rs)") (auto simp: get_decision_def Let_def)
  let ?c = "c\<lparr>user_id := uid, s_id := sid, r_id := rid\<rparr>"
  have un: "rule_hit_log (now k) lt ?c g monitor tb index = None" "url_hit_log m (now k) lt ?c j = None"
    "trie_hit_log (now k) lt ?c p = None" for k g monitor tb index m j p
    using none [of ?c] assms(1) by simp_all
  have sh: "send_hits (\<lambda>k. rule_hit_log (now k) lt ?c g monitor tb) k hs out = (if hs = [] then Some out else None)"
    for g monitor tb k hs out by (rule send_hits_None) (rule un)
  have "0 \<le> t" using t by (auto simp: trie_chk_rule_def Let_def bind_Some_iff split: if_splits)
  then show ?thesis using assms(3) n T lr lrN t
    by (auto simp: get_decision_def Let_def sh un split: if_splits)
qed

lemma not_in_run: "w \<noteq> [] \<Longrightarrow> set w \<noteq> {x} \<Longrightarrow> \<not> sublist w (replicate n x)"
  using set_mono_sublist [of w "replicate n x"] by (cases "n = 0") (auto simp: subset_singleton_iff)

definition long_request :: connection_info where
  "long_request = sample_request\<lparr>p_type := 0, comment := zpad 10000 (replicate 1001 (CHR ''x''))\<rparr>"

lemma long_request_fields:
  "cstr (comment long_request) = replicate 1001 (CHR ''x'')" "buf_str (comment long_request) = Some (replicate 1001 (CHR ''x''))"
  "buf_str (c_url long_request) = Some ''GET /''" "p_type long_request = 0"
  by (simp_all add: long_request_def sample_request_def)

lemma long_text_overruns_witness:
  "\<exists>fs rs1. init_loop [] [''bad''] [] = Some fs \<and>
     get_decision (\<lambda>_. sample_now) (Some long_request) \<lparr>serverport = 80, serverip = 0, clientport = 1, clientip = 0\<rparr>
       (fs_rules fs) = Some (0, [], rs1)"
proof -
  let ?sp = "spec_init [] [''bad''] []" and ?T = "replicate 1001 (CHR ''x'')"
  let ?lt = "\<lparr>serverport = 80, serverip = 0, clientport = 1, clientip = 0\<rparr>"
  have "rows_ok [] [''bad''] []" by (simp add: rows_ok_def keyword_ok_def row_events_def)
  from init_loop_rel [OF this] obtain fs where fs: "init_loop [] [''bad''] [] = Some fs" "filter_rel 0 fs ?sp" by auto
  have none: "hits_from ?T 0 (sp_rules ?sp) = []" "hits_from ?T 0 (sp_rules_N ?sp) = []"
    using first_rules_miss [of ?T] not_in_run [of _ "CHR ''x''" 1001] by (simp_all add: spec_init_def)
  obtain tbl where t: "logic_query_match (rs_matchers (fs_rules fs)) (rs_table (fs_rules fs)) ?T = Some ([], tbl)"
    using filter_rules_match [OF fs(2), of ?T] unfolding none by auto
  obtain tblN where tN: "logic_query_match_N (rs_matchers (fs_rules fs)) (rs_table_N (fs_rules fs)) ?T = Some ([], tblN)"
    using filter_rules_match_N [OF fs(2), of ?T] unfolding none by auto
  have "occurrences_of (sp_urls ?sp) ''GET /'' = 0"
    using filter_url_match(2) [OF fs(2), of "''GET /''"] by (simp add: spec_init_def sublist_Cons_right)
  then obtain s ls rs1 where d: "get_decision (\<lambda>_. sample_now) (Some long_request) ?lt (fs_rules fs) = Some (s, ls, rs1)"
    using t tN filter_url_match(1) [OF fs(2), of "''GET /''"]
    by (auto simp: get_decision_def long_request_fields trie_chk_rule_def Let_def)
  have "1000 < length (cstr (comment long_request))" "\<forall>k::nat. tm_ok sample_now"
    unfolding long_request_fields length_replicate using sample_now_ok by simp_all
  from long_text_overruns [OF this d] d fs(1) show ?thesis by blast
qed

end
