(* ===== verification/QsParse.thy ===== *)
theory QsParse
  imports CPrelude
begin

text \<open>
  \<^verbatim>\<open>qs_parse.c\<close>: parsing, decoding and looking up URL-encoded query strings.  The callbacks
  of the HTTP parser use \<open>qs_scanvalue\<close> to read the fields of a request.

  A pointer that is only read is the list of the bytes from it to the end of its object, so
  that reading past the end of the object is undefined; a buffer that is written is the list of
  its bytes, and a pointer into it an index.
\<close>

section \<open>Characters\<close>

definition ISHEX :: "char \<Rightarrow> bool" where
  "ISHEX x \<longleftrightarrow> CHR ''0'' \<le> x \<and> x \<le> CHR ''9'' \<or> CHR ''A'' \<le> x \<and> x \<le> CHR ''F'' \<or>
     CHR ''a'' \<le> x \<and> x \<le> CHR ''f''"

definition HEX2DEC :: "char \<Rightarrow> nat" where
  "HEX2DEC x =
     (if CHR ''0'' \<le> x \<and> x \<le> CHR ''9'' then of_char x - 48
      else if CHR ''A'' \<le> x \<and> x \<le> CHR ''F'' then of_char x - 55
      else if CHR ''a'' \<le> x \<and> x \<le> CHR ''f'' then of_char x - 87
      else 0)"

definition ISQSCHR :: "char \<Rightarrow> bool" where
  "ISQSCHR x \<longleftrightarrow> x \<noteq> CHR ''='' \<and> x \<noteq> CHR ''#'' \<and> x \<noteq> CHR ''&'' \<and> x \<noteq> NUL"

definition hex_char :: "char \<Rightarrow> char \<Rightarrow> char" where
  "hex_char h l = char_of (HEX2DEC h * 16 + HEX2DEC l)"

section \<open>Comparing and decoding\<close>

definition qs_fetch :: "char list \<Rightarrow> (char \<times> char list) option" where
  \<comment> \<open>the next, decoded, character of one side of \<open>qs_strncmp\<close>\<close>
  "qs_fetch s = (case s of
     [] \<Rightarrow> None
   | c # s1 \<Rightarrow>
       (let u = (if ISQSCHR c then c else NUL) in
        if u = CHR ''+'' then Some (CHR '' '', s1)
        else if u = CHR ''%'' then
          (case s1 of
             unyb # lnyb # s2 \<Rightarrow>
               Some (if ISHEX unyb \<and> ISHEX lnyb then hex_char unyb lnyb else NUL, s2)
           | _ \<Rightarrow> None)
        else Some (u, s1)))"

fun qs_strncmp :: "char list \<Rightarrow> char list \<Rightarrow> nat \<Rightarrow> int option" where
  "qs_strncmp s qs 0 = (case qs of [] \<Rightarrow> None | c # _ \<Rightarrow> Some (if ISQSCHR c then -1 else 0))"
| "qs_strncmp s qs (Suc n) = do {
     (u1, s1) \<leftarrow> qs_fetch s;
     (u2, qs1) \<leftarrow> qs_fetch qs;
     if u1 \<noteq> u2 then Some (int (of_char u1) - int (of_char u2))
     else if u1 = NUL then Some 0
     else qs_strncmp s1 qs1 n }"

definition bat :: "char list \<Rightarrow> nat \<Rightarrow> char option" where
  "bat buf i = (if i < length buf then Some (buf ! i) else None)"

function decode_loop :: "char list \<Rightarrow> nat \<Rightarrow> nat \<Rightarrow> (char list \<times> nat) option" where
  "decode_loop qs i j = (case bat qs j of
     None \<Rightarrow> None
   | Some c \<Rightarrow>
       if \<not> ISQSCHR c then Some (qs[i := NUL], i)
       else if c = CHR ''+'' then decode_loop (qs[i := CHR '' '']) (i + 1) (j + 1)
       else if c = CHR ''%'' then
         (case bat qs (j + 1) of
            None \<Rightarrow> None
          | Some h \<Rightarrow>
              if \<not> ISHEX h then Some (qs[i := NUL], i)
              else (case bat qs (j + 2) of
                      None \<Rightarrow> None
                    | Some l \<Rightarrow>
                        if \<not> ISHEX l then Some (qs[i := NUL], i)
                        else decode_loop (qs[i := hex_char h l]) (i + 1) (j + 3)))
       else decode_loop (qs[i := c]) (i + 1) (j + 1))"
  by pat_completeness auto
termination
  by (relation "measure (\<lambda>(qs, i, j). length qs - j)") (auto simp: bat_def split: if_splits)

declare decode_loop.simps [simp del]

definition qs_decode :: "char list \<Rightarrow> nat \<Rightarrow> (char list \<times> nat) option" where
  \<comment> \<open>\<open>qs_decode(buf + off)\<close>: the buffer and the length of the decoded value\<close>
  "qs_decode buf off = do { (buf', i) \<leftarrow> decode_loop buf off off; Some (buf', i - off) }"

section \<open>Splitting into pairs\<close>

function qs_pairs :: "char list \<Rightarrow> nat \<Rightarrow> nat \<Rightarrow> nat option list \<Rightarrow> (nat option list \<times> nat) option" where
  "qs_pairs buf substr i kv =
     (if i < length kv
      then (case buf_str (drop substr buf) of
              None \<Rightarrow> None
            | Some s \<Rightarrow>
                if strcspn s ''&'' = length s then Some (kv[i := Some substr], i)
                else qs_pairs buf (substr + strcspn s ''&'' + 1) (i + 1) (kv[i := Some substr]))
      else Some (kv, i))"
  by pat_completeness auto
termination
  by (relation "measure (\<lambda>(buf, substr, i, kv). length kv - i)") auto

declare qs_pairs.simps [simp del]

definition decode_pair :: "nat option list \<Rightarrow> nat \<Rightarrow> char list \<Rightarrow> char list option" where
  "decode_pair kv j buf =
     (if j < length kv
      then do {
        p \<leftarrow> kv ! j;
        s \<leftarrow> buf_str (drop p buf);
        let q = p + strcspn s ''=&#'';
        c \<leftarrow> bat buf q;
        (if c = CHR ''&'' then Some (buf[q := NUL])
         else do { (buf', n) \<leftarrow> qs_decode buf (q + 1); Some buf' }) }
      else None)"

definition qs_parse :: "char list \<Rightarrow> nat \<Rightarrow> (char list \<times> nat option list \<times> nat) option" where
  "qs_parse buf qs_kv_size = do {
     s \<leftarrow> buf_str buf;
     let substr = (case strchr s (CHR ''?'') of Some k \<Rightarrow> k + 1 | None \<Rightarrow> 0);
     (kv, i) \<leftarrow> qs_pairs buf substr 0 (replicate qs_kv_size None);
     buf' \<leftarrow> ofold (decode_pair kv) [0..<i + 1] buf;
     Some (buf', kv, i + 1) }"

fun qs_k2v_from :: "string \<Rightarrow> char list \<Rightarrow> nat option list \<Rightarrow> nat \<Rightarrow> nat option option" where
  "qs_k2v_from key buf kv 0 = Some None"
| "qs_k2v_from key buf [] (Suc n) = None"
| "qs_k2v_from key buf (p # kv) (Suc n) = do {
     q \<leftarrow> p;
     r \<leftarrow> qs_strncmp (key @ [NUL]) (drop q buf) (length key);
     (if r = 0
      then do {
        s \<leftarrow> buf_str (drop q buf);
        let skip = strcspn s ''='';
        Some (Some (if skip < length s then q + skip + 1 else q + skip)) }
      else qs_k2v_from key buf kv n) }"

definition qs_k2v :: "string \<Rightarrow> char list \<Rightarrow> nat option list \<Rightarrow> nat \<Rightarrow> nat option option" where
  "qs_k2v key buf qs_kv qs_kv_size = qs_k2v_from key buf qs_kv qs_kv_size"

section \<open>Looking up one value\<close>

function qs_scan :: "string \<Rightarrow> char list \<Rightarrow> char list option" where
  \<comment> \<open>the \<open>while\<close> loop of \<open>qs_scanvalue\<close>: \<open>qs\<close> where it ends\<close>
  "qs_scan key qs = (case qs of
     [] \<Rightarrow> None
   | c # _ \<Rightarrow>
       if c = CHR ''#'' \<or> c = NUL then Some qs
       else (case qs_strncmp (key @ [NUL]) qs (length key) of
               None \<Rightarrow> None
             | Some r \<Rightarrow>
                 if r = 0 then Some qs
                 else (case buf_str qs of
                         None \<Rightarrow> None
                       | Some s \<Rightarrow> qs_scan key (drop (strcspn s ''&'' + 1) qs))))"
  by pat_completeness auto
termination
  by (relation "measure (\<lambda>(key, qs). length qs)") auto

declare qs_scan.simps [simp del]

definition qs_scanvalue :: "string \<Rightarrow> char list \<Rightarrow> char list \<Rightarrow> nat \<Rightarrow> (bool \<times> char list) option" where
  \<comment> \<open>whether a pointer is returned, and \<open>val\<close>\<close>
  "qs_scanvalue key qs val val_len = do {
     s \<leftarrow> buf_str qs;
     let qs1 = (case strchr s (CHR ''?'') of Some k \<Rightarrow> drop (k + 1) qs | None \<Rightarrow> qs);
     qs2 \<leftarrow> qs_scan key qs1;
     c \<leftarrow> bat qs2 0;
     if c = NUL then Some (False, val)
     else do {
       s2 \<leftarrow> buf_str qs2;
       let qs3 = drop (strcspn s2 ''=&#'') qs2;
       c3 \<leftarrow> bat qs3 0;
       if c3 = CHR ''='' then do {
         let qs4 = drop 1 qs3;
         s4 \<leftarrow> buf_str qs4;
         let i = strcspn s4 ''&=#'';
         let n = (if 0 < val_len \<and> val_len - 1 < i + 1 then val_len - 1 else i + 1);
         val1 \<leftarrow> memcpy val 0 (take n (s4 @ [NUL]));
         (val2, len) \<leftarrow> qs_decode val1 0;
         Some (True, val2) }
       else if 0 < val_len then (if val = [] then None else Some (True, val[0 := NUL]))
       else Some (True, val) } }"

section \<open>Colours\<close>

definition hex2ccolor :: "string option \<Rightarrow> nat \<times> nat list" where
  \<comment> \<open>the return value and the bytes stored to \<open>r\<close>, \<open>g\<close>, \<open>b\<close> and, for 4 and 8 digits, \<open>a\<close>\<close>
  "hex2ccolor color = (case color of
     None \<Rightarrow> (0, [])
   | Some s \<Rightarrow>
       (let i = length s; d = (\<lambda>j. HEX2DEC (s ! j)) in
        if i \<noteq> 8 \<and> i \<noteq> 6 \<and> i \<noteq> 4 \<and> i \<noteq> 3 then (0, [])
        else if list_ex (\<lambda>c. \<not> ISHEX c) s then (0, [])
        else if i = 3 \<or> i = 4 then (i, map (\<lambda>j. d j * 17) [0..<i])
        else (i, map (\<lambda>j. d (2 * j) * 16 + d (2 * j + 1)) [0..<i div 2])))"

section \<open>Encoding\<close>

text \<open>The encoding that browsers apply, for the round trip.\<close>

definition qs_plain :: "char \<Rightarrow> bool" where
  "qs_plain c \<longleftrightarrow> ISQSCHR c \<and> c \<noteq> CHR ''+'' \<and> c \<noteq> CHR ''%'' \<and> c \<noteq> CHR ''?''"

definition hex_digit :: "nat \<Rightarrow> char" where
  "hex_digit n = (if n < 10 then char_of (48 + n) else char_of (55 + n))"

definition encode_char :: "char \<Rightarrow> string" where
  "encode_char c =
     (if c = CHR '' '' then ''+''
      else if qs_plain c then [c]
      else [CHR ''%'', hex_digit (of_char c div 16), hex_digit (of_char c mod 16)])"

definition qs_encode :: "string \<Rightarrow> string" where
  "qs_encode s = concat (map encode_char s)"

lemma hex_digits:
  "list_all (\<lambda>n. ISHEX (hex_digit n) \<and> HEX2DEC (hex_digit n) = n \<and> ISQSCHR (hex_digit n) \<and>
     hex_digit n \<noteq> CHR ''?'') [0..<16]"
  by code_simp

lemma hex_digit_inverse:
  assumes "n < 16"
  shows "ISHEX (hex_digit n)" "HEX2DEC (hex_digit n) = n" "ISQSCHR (hex_digit n)" "hex_digit n \<noteq> CHR ''?''"
  using hex_digits assms by (simp_all add: list_all_iff)

lemma of_char_bound: "(of_char c :: nat) < 256"
  by simp

lemma hex_char_digits: "hex_char (hex_digit (of_char c div 16)) (hex_digit (of_char c mod 16)) = c"
proof -
  have b: "(of_char c :: nat) < 256" by (rule of_char_bound)
  have "(of_char c :: nat) div 16 < 16" "(of_char c :: nat) mod 16 < 16"
    by (rule less_mult_imp_div_less, use b in simp) simp
  then show ?thesis by (simp add: hex_char_def hex_digit_inverse)
qed

lemma of_char_div_16: "(of_char c :: nat) div 16 < 16"
  by (rule less_mult_imp_div_less) (use of_char_bound [of c] in simp)

lemma encode_char_cases:
  obtains "encode_char c = ''+''" "c = CHR '' ''"
    | "encode_char c = [c]" "qs_plain c" "c \<noteq> CHR '' ''"
    | h l where "encode_char c = [CHR ''%'', h, l]" "ISHEX h" "ISHEX l" "hex_char h l = c" "ISQSCHR h" "ISQSCHR l"
        "h \<noteq> CHR ''?''" "l \<noteq> CHR ''?''"
proof -
  have m: "(of_char c :: nat) mod 16 < 16" by simp
  show ?thesis
  proof (cases "c = CHR '' '' \<or> qs_plain c")
    case True
    then show ?thesis using that(1,2) by (auto simp: encode_char_def)
  next
    case False
    then show ?thesis
      using that(3) [OF _ hex_digit_inverse(1) [OF of_char_div_16 [of c]] hex_digit_inverse(1) [OF m]]
        hex_char_digits [of c] hex_digit_inverse [OF of_char_div_16 [of c]] hex_digit_inverse [OF m]
      by (simp add: encode_char_def)
  qed
qed

lemma encode_qschr: "x \<in> set (qs_encode s) \<Longrightarrow> ISQSCHR x"
proof (induction s)
  case (Cons c s)
  have "x \<in> set (encode_char c) \<Longrightarrow> ISQSCHR x"
    by (rule encode_char_cases [of c]) (auto simp: ISQSCHR_def qs_plain_def)
  then show ?case using Cons by (auto simp: qs_encode_def)
qed (simp add: qs_encode_def)

section \<open>Decoding an encoded value\<close>

lemma drop_list_update_lt: "i < j \<Longrightarrow> drop j (xs[i := x]) = drop j xs"
  by simp

lemma drop_eq_nth: "drop j xs = y # ys \<Longrightarrow> j < length xs \<and> xs ! j = y \<and> drop (Suc j) xs = ys"
proof -
  assume d: "drop j xs = y # ys"
  then have l: "j < length xs" by (metis drop_all leI list.discI)
  with d show ?thesis by (simp add: Cons_nth_drop_Suc [symmetric])
qed


text \<open>A text whose escapes are complete and that has no delimiter, and what it stands for.\<close>

fun escaped :: "string \<Rightarrow> bool" where
  "escaped [] \<longleftrightarrow> True"
| "escaped (c # s) \<longleftrightarrow>
     (if c = CHR ''%'' then (case s of h # l # s2 \<Rightarrow> ISHEX h \<and> ISHEX l \<and> escaped s2 | _ \<Rightarrow> False)
      else ISQSCHR c \<and> escaped s)"

fun unescape :: "string \<Rightarrow> string" where
  "unescape [] = []"
| "unescape (c # s) =
     (if c = CHR ''%'' then (case s of h # l # s2 \<Rightarrow> hex_char h l # unescape s2 | _ \<Rightarrow> [])
      else (if c = CHR ''+'' then CHR '' '' else c) # unescape s)"

lemma decode_loop_escaped:
  assumes "take i buf = out" "i \<le> j" "drop j buf = s @ stop # rest" "escaped s" "\<not> ISQSCHR stop"
  shows "\<exists>buf'. decode_loop buf i j = Some (buf', i + length (unescape s)) \<and> length buf' = length buf \<and>
           take (i + length (unescape s) + 1) buf' = out @ unescape s @ [NUL] \<and>
           drop (j + length s + 1) buf' = rest"
  using assms
proof (induction s arbitrary: buf i j out rule: unescape.induct)
  case 1
  then have j: "j < length buf" "buf ! j = stop" "drop (Suc j) buf = rest"
    using drop_eq_nth [of j buf] by auto
  have "decode_loop buf i j = Some (buf[i := NUL], i)"
    using j 1(5) by (simp add: decode_loop.simps [of buf i j] bat_def)
  moreover have "take (Suc i) (buf[i := NUL]) = out @ [NUL]"
    using 1(1,2) j(1) by (simp add: take_Suc_conv_app_nth)
  ultimately show ?case using j 1(2) by simp
next
  case (2 c s)
  have j: "j < length buf" "buf ! j = c" "drop (Suc j) buf = s @ stop # rest"
    using drop_eq_nth [of j buf] "2.prems"(3) by auto
  have tk: "take (i + 1) (buf[i := d]) = out @ [d]" for d
    using "2.prems"(1,2) j(1) by (simp add: take_Suc_conv_app_nth)
  show ?case
  proof (cases "c = CHR ''%''")
    case True
    then obtain h l s2 where s: "s = h # l # s2" "ISHEX h" "ISHEX l" "escaped s2"
      using "2.prems"(4) by (auto split: list.splits)
    have j1: "j + 1 < length buf" "buf ! (j + 1) = h" "drop (j + 2) buf = l # s2 @ stop # rest"
      using drop_eq_nth [of "Suc j" buf] j(3) s(1) by auto
    have j2: "j + 2 < length buf" "buf ! (j + 2) = l" "drop (j + 3) buf = s2 @ stop # rest"
      using drop_eq_nth [OF j1(3)] by (auto simp: eval_nat_numeral)
    have "decode_loop buf i j = decode_loop (buf[i := hex_char h l]) (i + 1) (j + 3)"
      using j j1 j2 True s(2,3) by (simp add: decode_loop.simps [of buf i j] bat_def ISQSCHR_def)
    moreover have "i + 1 \<le> j + 3" "drop (j + 3) (buf[i := hex_char h l]) = s2 @ stop # rest"
      using "2.prems"(2) j2(3) by simp_all
    ultimately show ?thesis
      using "2.IH"(1) [OF True s(1) refl tk [of "hex_char h l"] _ _ s(4) "2.prems"(5), of "j + 3"] True s(1)
      by (auto simp: add_ac eval_nat_numeral)
  next
    case False
    let ?d = "if c = CHR ''+'' then CHR '' '' else c"
    have q: "ISQSCHR c" "escaped s" using "2.prems"(4) False by auto
    have "decode_loop buf i j = decode_loop (buf[i := ?d]) (i + 1) (j + 1)"
      using j q(1) False by (simp add: decode_loop.simps [of buf i j] bat_def)
    moreover have "i + 1 \<le> j + 1" "drop (j + 1) (buf[i := ?d]) = s @ stop # rest"
      using "2.prems"(2) j(3) by simp_all
    ultimately show ?thesis
      using "2.IH"(2) [OF False tk [of ?d] _ _ q(2) "2.prems"(5), of "j + 1"] False by (auto simp: add_ac)
  qed
qed

lemma qs_encode_escaped: "escaped (qs_encode w) \<and> unescape (qs_encode w) = w"
proof (induction w)
  case (Cons c w)
  have enc: "qs_encode (c # w) = encode_char c @ qs_encode w" by (simp add: qs_encode_def)
  show ?case
  proof (rule encode_char_cases [of c])
    assume "encode_char c = [c]" "qs_plain c" "c \<noteq> CHR '' ''"
    then show ?thesis using Cons enc by (simp add: qs_plain_def)
  qed (use Cons enc in \<open>auto simp: ISQSCHR_def\<close>)
qed (simp add: qs_encode_def)

lemma decode_loop_encode:
  assumes "take i buf = out" "i \<le> j" "drop j buf = qs_encode w @ stop # rest" "\<not> ISQSCHR stop"
  shows "\<exists>buf'. decode_loop buf i j = Some (buf', i + length w) \<and> length buf' = length buf \<and>
           take (i + length w + 1) buf' = out @ w @ [NUL] \<and>
           drop (j + length (qs_encode w) + 1) buf' = rest"
  using decode_loop_escaped [OF assms(1-3) _ assms(4)] qs_encode_escaped [of w] by simp

section \<open>Finding a pair\<close>

fun qs_text :: "(string \<times> string) list \<Rightarrow> string" where
  "qs_text [] = []"
| "qs_text [(k, w)] = k @ ''='' @ qs_encode w"
| "qs_text ((k, w) # p # ps) = k @ ''='' @ qs_encode w @ ''&'' @ qs_text (p # ps)"

definition key_plain :: "string \<Rightarrow> bool" where
  "key_plain k \<longleftrightarrow> k \<noteq> [] \<and> (\<forall>c\<in>set k. qs_plain c)"

lemma encode_no_question: "CHR ''?'' \<notin> set (qs_encode s)"
proof (induction s)
  case (Cons c s)
  have "CHR ''?'' \<notin> set (encode_char c)"
    by (rule encode_char_cases [of c]) (auto simp: qs_plain_def)
  then show ?case using Cons by (simp add: qs_encode_def)
qed (simp add: qs_encode_def)

lemma qs_text_chars:
  assumes "\<forall>(k, w)\<in>set ps. key_plain k"
  shows "NUL \<notin> set (qs_text ps)" "CHR ''?'' \<notin> set (qs_text ps)"
  using assms encode_qschr encode_no_question
  by (induction ps rule: qs_text.induct) (force simp: key_plain_def qs_plain_def ISQSCHR_def)+

lemma qs_strncmp_plain:
  assumes "\<forall>c\<in>set k. qs_plain c" "\<forall>c\<in>set k2. qs_plain c"
  shows "\<exists>r. qs_strncmp (k @ t) (k2 @ CHR ''='' # u) (length k) = Some r \<and> (r = 0 \<longleftrightarrow> k = k2)"
  using assms
proof (induction k arbitrary: k2)
  case Nil
  then show ?case by (cases k2) (auto simp: qs_plain_def ISQSCHR_def)
next
  case (Cons c k)
  have c: "qs_fetch (c # k @ t) = Some (c, k @ t)" "c \<noteq> NUL"
    using Cons.prems(1) by (auto simp: qs_fetch_def qs_plain_def Let_def ISQSCHR_def)
  show ?case
  proof (cases k2)
    case Nil
    have "qs_fetch (CHR ''='' # u) = Some (NUL, u)" by (simp add: qs_fetch_def ISQSCHR_def)
    moreover have "(of_char c :: nat) \<noteq> of_char NUL" using c(2) by (simp only: of_char_eq_iff) simp
    ultimately show ?thesis using c Nil by simp
  next
    case (Cons d k2')
    have d: "qs_fetch (d # k2' @ CHR ''='' # u) = Some (d, k2' @ CHR ''='' # u)"
      using Cons.prems(2) \<open>k2 = d # k2'\<close> by (auto simp: qs_fetch_def qs_plain_def Let_def)
    show ?thesis
    proof (cases "c = d")
      case True
      then show ?thesis using Cons.IH [of k2'] Cons.prems c d \<open>k2 = d # k2'\<close> by simp
    next
      case False
      then show ?thesis using c d \<open>k2 = d # k2'\<close> by simp
    qed
  qed
qed

lemma strcspn_append:
  "set a \<inter> set r = {} \<Longrightarrow> b = [] \<or> hd b \<in> set r \<Longrightarrow> strcspn (a @ b) r = length a"
proof -
  assume "set a \<inter> set r = {}" "b = [] \<or> hd b \<in> set r"
  then have "takeWhile (\<lambda>c. c \<notin> set r) (a @ b) = a"
    by (cases b) (auto simp: takeWhile_append2 takeWhile_eq_all_conv disjoint_iff)
  then show ?thesis by (simp add: strcspn_def)
qed

lemma qs_chars_disjoint:
  "\<forall>c\<in>set a. ISQSCHR c \<Longrightarrow> set r \<subseteq> {CHR ''&'', CHR ''='', CHR ''#''} \<Longrightarrow> set a \<inter> set r = {}"
  by (auto simp: ISQSCHR_def)

lemma pair_strcspn:
  assumes "key_plain k" "more = [] \<or> hd more = CHR ''&''"
  shows "strcspn (k @ ''='' @ qs_encode w @ more) ''&'' = length (k @ ''='' @ qs_encode w)"
    "strcspn (k @ ''='' @ qs_encode w @ more) ''=&#'' = length k"
    "strcspn (qs_encode w @ more) ''&=#'' = length (qs_encode w)"
proof -
  have e: "\<forall>c\<in>set (qs_encode w). ISQSCHR c" using encode_qschr by blast
  have k: "\<forall>c\<in>set k. ISQSCHR c" using assms(1) by (simp add: key_plain_def qs_plain_def)
  show "strcspn (k @ ''='' @ qs_encode w @ more) ''&'' = length (k @ ''='' @ qs_encode w)"
    using strcspn_append [of "k @ ''='' @ qs_encode w" "''&''" more] e k assms(2)
    by (auto simp: ISQSCHR_def)
  have "set k \<inter> set ''=&#'' = {}" by (rule qs_chars_disjoint [OF k]) auto
  from strcspn_append [OF this, of "''='' @ qs_encode w @ more"]
  show "strcspn (k @ ''='' @ qs_encode w @ more) ''=&#'' = length k" by simp
  have "set (qs_encode w) \<inter> set ''&=#'' = {}" by (rule qs_chars_disjoint [OF e]) auto
  from strcspn_append [OF this, of more] assms(2)
  show "strcspn (qs_encode w @ more) ''&=#'' = length (qs_encode w)" by auto
qed

lemma buf_str_append: "NUL \<notin> set s \<Longrightarrow> buf_str (s @ NUL # rest) = Some s"
  by (simp add: buf_str_def cstr_append)

lemma qs_text_Cons:
  obtains more where "qs_text ((k, w) # ps) = k @ ''='' @ qs_encode w @ more"
    "more = [] \<and> ps = [] \<or> more = ''&'' @ qs_text ps \<and> ps \<noteq> []"
  by (cases ps) auto

lemma qs_scan_unfold:
  assumes "qs \<noteq> []" "hd qs \<noteq> CHR ''#''" "hd qs \<noteq> NUL"
    and "qs_strncmp (key @ [NUL]) qs (length key) = Some r" "buf_str qs = Some s"
  shows "qs_scan key qs = (if r = 0 then Some qs else qs_scan key (drop (strcspn s ''&'' + 1) qs))"
  using assms by (subst qs_scan.simps) (auto split: list.split)

lemma qs_scan_step:
  assumes "\<forall>(k, w)\<in>set ((k, w) # ps). key_plain k" "key_plain key"
  shows "qs_scan key (qs_text ((k, w) # ps) @ NUL # rest) =
    (if k = key then Some (qs_text ((k, w) # ps) @ NUL # rest)
     else if ps = [] then qs_scan key rest else qs_scan key (qs_text ps @ NUL # rest))"
proof -
  obtain more where m: "qs_text ((k, w) # ps) = k @ ''='' @ qs_encode w @ more"
    "more = [] \<and> ps = [] \<or> more = ''&'' @ qs_text ps \<and> ps \<noteq> []" by (rule qs_text_Cons)
  let ?qs = "qs_text ((k, w) # ps) @ NUL # rest"
  have kp: "key_plain k" using assms(1) by simp
  obtain c k' where c: "k = c # k'" "c \<noteq> CHR ''#''" "c \<noteq> NUL"
    using kp by (cases k) (auto simp: key_plain_def qs_plain_def ISQSCHR_def)
  obtain r where r: "qs_strncmp (key @ [NUL]) ?qs (length key) = Some r" "r = 0 \<longleftrightarrow> k = key"
    using qs_strncmp_plain [of key k "[NUL]" "qs_encode w @ more @ NUL # rest"] kp assms(2) m(1)
    by (auto simp: key_plain_def)
  have s: "buf_str ?qs = Some (qs_text ((k, w) # ps))"
    using buf_str_append qs_text_chars(1) [OF assms(1)] by simp
  have "strcspn (qs_text ((k, w) # ps)) ''&'' = length (k @ ''='' @ qs_encode w)"
    using pair_strcspn(1) [OF kp, of more w] m by auto
  then have "drop (strcspn (qs_text ((k, w) # ps)) ''&'' + 1) ?qs =
      (if ps = [] then rest else qs_text ps @ NUL # rest)"
    using m by auto
  moreover have "?qs \<noteq> []" "hd ?qs \<noteq> CHR ''#''" "hd ?qs \<noteq> NUL" using m(1) c by simp_all
  ultimately show ?thesis
    using qs_scan_unfold [of ?qs key r "qs_text ((k, w) # ps)"] r s by auto
qed

lemma qs_scan_found:
  assumes "\<forall>(k, w)\<in>set ps. key_plain k" "key_plain key" "map_of ps key = Some w"
  shows "\<exists>ps2. qs_scan key (qs_text ps @ NUL # rest) = Some (qs_text ((key, w) # ps2) @ NUL # rest) \<and>
    set ps2 \<subseteq> set ps"
  using assms
proof (induction ps)
  case (Cons p ps)
  obtain k v where p: "p = (k, v)" by (cases p)
  show ?case
  proof (cases "k = key")
    case True
    then show ?thesis using qs_scan_step [of k v ps key rest] Cons.prems p by auto
  next
    case False
    then have "ps \<noteq> []" "map_of ps key = Some w" using Cons.prems(3) p by auto
    then show ?thesis using False qs_scan_step [of k v ps key rest] Cons p by fastforce
  qed
qed simp

lemma qs_scan_absent:
  assumes "\<forall>(k, w)\<in>set ps. key_plain k" "key_plain key" "map_of ps key = None" "ps \<noteq> []"
  shows "qs_scan key (qs_text ps @ NUL # rest) = qs_scan key rest"
  using assms
proof (induction ps)
  case (Cons p ps)
  obtain k v where p: "p = (k, v)" by (cases p)
  then have "k \<noteq> key" using Cons.prems(3) by auto
  then show ?case using qs_scan_step [of k v ps key rest] Cons p by (cases "ps = []") auto
qed simp

definition query_prefix :: "string \<Rightarrow> bool" where
  \<comment> \<open>nothing, or a URL up to its question mark\<close>
  "query_prefix pre \<longleftrightarrow> pre = [] \<or> (\<exists>p. pre = p @ ''?'' \<and> CHR ''?'' \<notin> set p \<and> NUL \<notin> set p)"

lemma scanvalue_start:
  assumes "query_prefix pre" "NUL \<notin> set t" "CHR ''?'' \<notin> set t"
  shows "\<exists>s. buf_str (pre @ t @ NUL # rest) = Some s \<and>
     (case strchr s (CHR ''?'') of Some k \<Rightarrow> drop (k + 1) (pre @ t @ NUL # rest) | None \<Rightarrow> pre @ t @ NUL # rest) =
     t @ NUL # rest"
proof (cases "pre = []")
  case True
  then show ?thesis using assms(2,3) buf_str_append [of t rest] by (simp add: strchr_def)
next
  case False
  then obtain p where p: "pre = p @ ''?''" "CHR ''?'' \<notin> set p" "NUL \<notin> set p"
    using assms(1) by (auto simp: query_prefix_def)
  then show ?thesis using buf_str_append [of "p @ ''?'' @ t" rest] assms(2) by simp
qed

section \<open>Properties\<close>

text \<open>C26: the round trip of the percent encoding.  Decoding an encoded value in place, wherever
  it is in its buffer and whatever delimiter ends it, gives the original bytes and a terminator,
  and leaves what is behind the delimiter alone.\<close>

theorem qs_decode_encode:
  assumes "\<not> ISQSCHR stop"
  shows "\<exists>buf'. qs_decode (pre @ qs_encode w @ stop # rest) (length pre) = Some (buf', length w) \<and>
    length buf' = length (pre @ qs_encode w @ stop # rest) \<and>
    take (length pre + length w + 1) buf' = pre @ w @ [NUL] \<and>
    drop (length pre + length (qs_encode w) + 1) buf' = rest"
proof -
  obtain buf' where "decode_loop (pre @ qs_encode w @ stop # rest) (length pre) (length pre) = Some (buf', length pre + length w)"
    "length buf' = length (pre @ qs_encode w @ stop # rest)"
    "take (length pre + length w + 1) buf' = pre @ w @ [NUL]"
    "drop (length pre + length (qs_encode w) + 1) buf' = rest"
    using decode_loop_encode [of "length pre" "pre @ qs_encode w @ stop # rest" pre "length pre" w stop rest] assms
    by auto
  then show ?thesis by (simp add: qs_decode_def)
qed

theorem qs_decode_encode_witness:
  "\<exists>buf'. qs_decode ''k=a%26b+c&d'' 2 = Some (buf', 5) \<and> take 8 buf' = ''k=a&b c'' @ [NUL]"
proof -
  have "qs_encode ''a&b c'' = ''a%26b+c''" by code_simp
  then show ?thesis using qs_decode_encode [of "CHR ''&''" "''k=''" "''a&b c''" "''d''"]
    by (simp add: ISQSCHR_def eval_nat_numeral) blast
qed

lemma scanvalue_finds:
  assumes "\<forall>(k, w)\<in>set ps. key_plain k" "key_plain key" "map_of ps key = Some w" "NUL \<notin> set w"
    and "query_prefix pre" "length (qs_encode w) + 2 \<le> val_len" "length val = val_len"
  shows "\<exists>val'. qs_scanvalue key (pre @ qs_text ps @ NUL # rest) val val_len = Some (True, val') \<and>
     length val' = val_len \<and> buf_str val' = Some w"
proof -
  obtain ps2 where ps2: "qs_scan key (qs_text ps @ NUL # rest) = Some (qs_text ((key, w) # ps2) @ NUL # rest)"
    "set ps2 \<subseteq> set ps" using qs_scan_found [OF assms(1-3)] by blast
  obtain s where s: "buf_str (pre @ qs_text ps @ NUL # rest) = Some s"
    "(case strchr s (CHR ''?'') of Some k \<Rightarrow> drop (k + 1) (pre @ qs_text ps @ NUL # rest)
      | None \<Rightarrow> pre @ qs_text ps @ NUL # rest) = qs_text ps @ NUL # rest"
    using scanvalue_start [OF assms(5)] qs_text_chars [OF assms(1)] by blast
  obtain more where m: "qs_text ((key, w) # ps2) = key @ ''='' @ qs_encode w @ more"
    "more = [] \<and> ps2 = [] \<or> more = ''&'' @ qs_text ps2 \<and> ps2 \<noteq> []" by (rule qs_text_Cons)
  have m': "more = [] \<or> hd more = CHR ''&''" using m(2) by auto
  let ?q2 = "key @ ''='' @ qs_encode w @ more @ NUL # rest"
  have "\<forall>(k, w)\<in>set ((key, w) # ps2). key_plain k" using assms(1,2) ps2(2) by auto
  then have nn: "NUL \<notin> set (key @ ''='' @ qs_encode w @ more)" using qs_text_chars(1) m(1) by metis
  obtain c k' where c: "key = c # k'" "c \<noteq> NUL"
    using assms(2) by (cases key) (auto simp: key_plain_def qs_plain_def ISQSCHR_def)
  have s2: "buf_str ?q2 = Some (key @ ''='' @ qs_encode w @ more)"
    using buf_str_append [OF nn, of rest] by simp
  have q3: "drop (strcspn (key @ ''='' @ qs_encode w @ more) ''=&#'') ?q2 = ''='' @ qs_encode w @ more @ NUL # rest"
    using pair_strcspn(2) [OF assms(2) m', of w] by simp
  have s4: "buf_str (qs_encode w @ more @ NUL # rest) = Some (qs_encode w @ more)"
    using buf_str_append [of "qs_encode w @ more" rest] nn by simp
  have i: "strcspn (qs_encode w @ more) ''&=#'' = length (qs_encode w)"
    using pair_strcspn(3) [OF assms(2) m', of w] .
  obtain stop where stop: "take (length (qs_encode w) + 1) ((qs_encode w @ more) @ [NUL]) = qs_encode w @ [stop]"
      "\<not> ISQSCHR stop"
    using m' by (cases more) (auto simp: ISQSCHR_def)
  have "length (qs_encode w @ [stop]) \<le> length val" using assms(6,7) by simp
  then have v1: "memcpy val 0 (qs_encode w @ [stop]) = Some (qs_encode w @ stop # drop (length (qs_encode w) + 1) val)"
    by (simp add: memcpy_def)
  obtain val2 where v2: "decode_loop (qs_encode w @ stop # drop (length (qs_encode w) + 1) val) 0 0 = Some (val2, length w)"
    "length val2 = length val" "take (length w + 1) val2 = w @ [NUL]"
    using decode_loop_encode [of 0 "qs_encode w @ stop # drop (length (qs_encode w) + 1) val" "[]" 0 w stop
        "drop (length (qs_encode w) + 1) val"] stop(2) assms(6,7) by auto
  have "val2 = w @ NUL # drop (length w + 1) val2"
    by (metis append.assoc append_Cons append_Nil append_take_drop_id v2(3))
  then have "buf_str val2 = Some w" using buf_str_append [OF assms(4)] by metis
  moreover have "qs_scanvalue key (pre @ qs_text ps @ NUL # rest) val val_len = Some (True, val2)"
  proof -
    have n: "(if 0 < val_len \<and> val_len - 1 < length (qs_encode w) + 1 then val_len - 1
        else length (qs_encode w) + 1) = length (qs_encode w) + 1" using assms(6) by simp
    have b: "bat ?q2 0 = Some c" "bat (''='' @ qs_encode w @ more @ NUL # rest) 0 = Some (CHR ''='')"
      "drop 1 (''='' @ qs_encode w @ more @ NUL # rest) = qs_encode w @ more @ NUL # rest"
      using c by (simp_all add: bat_def)
    have scan: "qs_scan key (qs_text ps @ NUL # rest) = Some ?q2" using ps2(1) m(1) by simp
    show ?thesis
      unfolding qs_scanvalue_def s(1) Let_def
      by (simp only: s(2) scan s2 q3 s4 i n b c(2) stop(1) v1 v2(1) qs_decode_def Option.bind.bind_lunit
          if_False if_True split_conv refl simp_thms)
  qed
  ultimately show ?thesis using v2(2) assms(7) by blast
qed

text \<open>C29: \<open>qs_scanvalue\<close> on a well-formed query string, possibly behind the path of a URL, finds
  the first pair with the key and stores its decoded value, terminated, when the buffer has room
  for the encoded value.\<close>

theorem qs_scanvalue_finds:
  assumes "\<forall>(k, w)\<in>set ps. key_plain k" "key_plain key" "map_of ps key = Some w" "NUL \<notin> set w"
    and "query_prefix pre" "length (qs_encode w) + 2 \<le> val_len" "length val = val_len"
  shows "\<exists>val'. qs_scanvalue key (pre @ qs_text ps @ NUL # rest) val val_len = Some (True, val') \<and>
     length val' = val_len \<and> buf_str val' = Some w"
  using scanvalue_finds [OF assms] .

theorem qs_scanvalue_finds_witness:
  "\<exists>val'. qs_scanvalue ''id'' (''/p?'' @ ''c=a+b&id=7'' @ NUL # []) (replicate 20 NUL) 20 = Some (True, val') \<and>
     buf_str val' = Some ''7''"
proof -
  let ?ps = "[(''c'', ''a b''), (''id'', ''7'')]"
  have "qs_text ?ps = ''c=a+b&id=7''" by code_simp
  moreover have "\<forall>(k, w)\<in>set ?ps. key_plain k" "key_plain ''id''"
    by (simp_all add: key_plain_def qs_plain_def ISQSCHR_def)
  moreover have "length (qs_encode ''7'') = 1" by code_simp
  moreover have "query_prefix ''/p?''" unfolding query_prefix_def by (intro disjI2 exI [of _ "''/p''"]) simp
  ultimately show ?thesis
    using qs_scanvalue_finds [of ?ps "''id''" "''7''" "''/p?''" 20 "replicate 20 NUL" "[]"] by auto
qed

lemma scanvalue_overrun:
  assumes "\<forall>(k, w)\<in>set ps. key_plain k" "key_plain key" "map_of ps key = None" "ps \<noteq> []" "query_prefix pre"
  shows "qs_scanvalue key (pre @ qs_text ps @ [NUL]) val val_len = None"
proof -
  have "qs_scan key (qs_text ps @ [NUL]) = None"
    using qs_scan_absent [OF assms(1-4), of "[]"] by (simp add: qs_scan.simps)
  moreover obtain s where "buf_str (pre @ qs_text ps @ NUL # []) = Some s"
    "(case strchr s (CHR ''?'') of Some k \<Rightarrow> drop (k + 1) (pre @ qs_text ps @ NUL # [])
      | None \<Rightarrow> pre @ qs_text ps @ NUL # []) = qs_text ps @ NUL # []"
    using scanvalue_start [OF assms(5)] qs_text_chars [OF assms(1)] by blast
  ultimately show ?thesis by (simp add: qs_scanvalue_def Let_def)
qed

text \<open>When no pair has the key, the search steps over the terminator of the query string and
  goes on in whatever follows: it is undefined when the string ends its object.\<close>

lemma qs_scanvalue_overrun:
  assumes "\<forall>(k, w)\<in>set ps. key_plain k" "key_plain key" "map_of ps key = None" "ps \<noteq> []" "query_prefix pre"
  shows "qs_scanvalue key (pre @ qs_text ps @ [NUL]) val val_len = None"
  using scanvalue_overrun [OF assms] .

lemma qs_scanvalue_overrun_witness:
  "qs_scanvalue ''id'' (''c=a'' @ [NUL]) (replicate 20 NUL) 20 = None"
proof -
  have "qs_text [(''c'', ''a'')] = ''c=a''" by code_simp
  then show ?thesis
    using qs_scanvalue_overrun [of "[(''c'', ''a'')]" "''id''" "[]" "replicate 20 NUL" 20]
    by (simp add: key_plain_def qs_plain_def ISQSCHR_def query_prefix_def)
qed

lemma qs_pairs_full:
  "i \<le> length kv \<Longrightarrow> length kv - i \<le> length (filter (\<lambda>c. c = CHR ''&'') s) \<Longrightarrow> NUL \<notin> set s \<Longrightarrow>
   drop substr buf = s @ NUL # rest \<Longrightarrow>
   \<exists>kv'. qs_pairs buf substr i kv = Some (kv', length kv) \<and> length kv' = length kv"
proof (induction "length kv - i" arbitrary: i kv s substr)
  case 0
  then show ?case by (subst qs_pairs.simps) auto
next
  case (Suc d)
  then have "i < length kv" by simp
  obtain c where "c \<in> set s" "c = CHR ''&''"
    using Suc.hyps(2) Suc.prems(2) by (cases "filter (\<lambda>c. c = CHR ''&'') s") (auto dest: filter_eq_ConsD)
  then obtain a b where ab: "s = a @ CHR ''&'' # b" "CHR ''&'' \<notin> set a" by (metis split_list_first)
  have str: "buf_str (drop substr buf) = Some s" using Suc.prems(3,4) buf_str_append by simp
  have sp: "strcspn s ''&'' = length a" using strcspn_append [of a "''&''" "CHR ''&'' # b"] ab by simp
  have fa: "filter (\<lambda>c. c = CHR ''&'') a = []" using ab(2) by (auto simp: filter_empty_conv)
  have "drop (substr + length a + 1) buf = drop (length a + 1) (drop substr buf)" by (simp add: add_ac)
  also have "\<dots> = b @ NUL # rest" using Suc.prems(4) ab(1) by simp
  finally have dr: "drop (substr + length a + 1) buf = b @ NUL # rest" .
  have "\<exists>kv'. qs_pairs buf (substr + length a + 1) (i + 1) (kv[i := Some substr]) =
      Some (kv', length (kv[i := Some substr])) \<and> length kv' = length (kv[i := Some substr])"
    by (rule Suc.hyps(1) [OF _ _ _ _ dr]) (use Suc.hyps(2) Suc.prems ab fa in auto)
  then show ?case using \<open>i < length kv\<close> str sp ab(1) by (subst qs_pairs.simps) auto
qed

text \<open>With at least as many \<open>&\<close> as slots, \<open>qs_parse\<close> counts one pair more than it stored and
  reads a slot behind the end of the array.\<close>

lemma qs_parse_overrun:
  assumes "NUL \<notin> set s" "CHR ''?'' \<notin> set s" "n \<le> length (filter (\<lambda>c. c = CHR ''&'') s)"
  shows "qs_parse (s @ NUL # rest) n = None"
proof -
  obtain kv where kv: "qs_pairs (s @ NUL # rest) 0 0 (replicate n None) = Some (kv, n)" "length kv = n"
    using qs_pairs_full [of 0 "replicate n None" s 0 "s @ NUL # rest" rest] assms by auto
  have "decode_pair kv n b = None" for b using kv(2) by (simp add: decode_pair_def)
  then have "ofold (decode_pair kv) [0..<n + 1] (s @ NUL # rest) = None"
    by (simp add: ofold_append bind_None_iff)
  then show ?thesis
    using kv(1) assms(2) buf_str_append [OF assms(1), of rest] by (simp add: qs_parse_def strchr_def)
qed

lemma qs_parse_overrun_witness: "qs_parse (''a=1&b=2'' @ [NUL]) 1 = None"
  using qs_parse_overrun [of "''a=1&b=2''" 1 "[]"] by simp

end
