(* ===== verification/UrlParser.thy ===== *)
theory UrlParser
  imports CPrelude
begin

text \<open>
  \<^verbatim>\<open>urlparser.c\<close>: the parser that cuts a URL into scheme, authority, path, query and
  fragment.  A field is a pair of positions in the URL.  \<open>c\<close> is the index of the next
  character; the groups of the source are threaded from part to part.
\<close>

section \<open>The parser\<close>

record URLGroup =
  g_start :: nat
  g_end :: nat

record URL =
  u_scheme :: URLGroup
  u_authority :: URLGroup
  u_path :: URLGroup
  u_query :: URLGroup
  u_fragment :: URLGroup

datatype URLField = URL_ALL | URL_SCHEME | URL_AUTHORITY | URL_PATH | URL_QUERY | URL_FRAGMENT
  \<comment> \<open>\<open>URL_ALL\<close> is the 0 that \<open>parseURL\<close> passes\<close>

definition run_to :: "string \<Rightarrow> string \<Rightarrow> nat \<Rightarrow> nat" where
  \<comment> \<open>the iterations of \<open>while (*c != ... && *c != 0)\<close> for the stop characters \<open>stops\<close>\<close>
  "run_to stops url c = length (takeWhile (\<lambda>x. x \<notin> set stops) (drop c url))"

definition char_is :: "string \<Rightarrow> nat \<Rightarrow> char \<Rightarrow> bool" where
  \<comment> \<open>\<open>*c == x\<close> for a character other than the terminator\<close>
  "char_is url c x \<longleftrightarrow> c < length url \<and> url ! c = x"

definition parse_scheme :: "string \<Rightarrow> nat \<times> nat \<times> URLGroup" where
  \<comment> \<open>\<open>c\<close>, \<open>groups[1].end\<close> and \<open>groups[2]\<close>\<close>
  "parse_scheme url =
     (let n = run_to '':/?#'' url 0 in
      if char_is url n (CHR '':'') then (n + 1, n + 1, \<lparr>g_start = 0, g_end = n\<rparr>)
      else (0, 0, \<lparr>g_start = 0, g_end = 0\<rparr>))"

definition parse_authority :: "string \<Rightarrow> nat \<Rightarrow> nat \<Rightarrow> nat \<times> URLGroup" where
  \<comment> \<open>\<open>c\<close> and \<open>groups[4]\<close>\<close>
  "parse_authority url c end1 =
     (if char_is url c (CHR ''/'') \<and> char_is url (c + 1) (CHR ''/'')
      then let n = run_to ''/?#'' url (c + 2) in
           (c + 2 + n, \<lparr>g_start = end1 + 2, g_end = end1 + 2 + n\<rparr>)
      else (c, \<lparr>g_start = end1, g_end = end1\<rparr>))"

definition parse_path :: "string \<Rightarrow> nat \<Rightarrow> nat \<Rightarrow> nat \<times> URLGroup" where
  "parse_path url c end4 =
     (let n = run_to ''?#'' url c in (c + n, \<lparr>g_start = end4, g_end = end4 + n\<rparr>))"

definition parse_query :: "string \<Rightarrow> nat \<Rightarrow> nat \<Rightarrow> nat \<times> URLGroup" where
  "parse_query url c end5 =
     (if char_is url c (CHR ''?'')
      then let n = run_to ''#'' url (c + 1) in
           (c + 1 + n, \<lparr>g_start = end5 + 1, g_end = end5 + 1 + n\<rparr>)
      else (c, \<lparr>g_start = end5, g_end = end5\<rparr>))"

definition parse_fragment :: "string \<Rightarrow> nat \<Rightarrow> nat \<Rightarrow> URLGroup" where
  "parse_fragment url c end7 =
     (if char_is url c (CHR ''#'')
      then \<lparr>g_start = end7 + 1, g_end = end7 + 1 + run_to [] url (c + 1)\<rparr>
      else \<lparr>g_start = end7, g_end = end7\<rparr>)"

definition parseURLField :: "string \<Rightarrow> URL \<Rightarrow> URLField \<Rightarrow> int \<times> URL" where
  "parseURLField url storage field =
     (if url = [] then (1, storage)
      else
        let (c1, end1, g2) = parse_scheme url;
            st1 = storage\<lparr>u_scheme := g2\<rparr>
        in if field = URL_SCHEME then (0, st1)
        else
        let (c2, g4) = parse_authority url c1 end1;
            st2 = st1\<lparr>u_authority := g4\<rparr>
        in if field = URL_AUTHORITY then (0, st2)
        else
        let (c3, g5) = parse_path url c2 (g_end g4);
            st3 = st2\<lparr>u_path := g5\<rparr>
        in if field = URL_PATH then (0, st3)
        else
        let (c4, g7) = parse_query url c3 (g_end g5);
            st4 = st3\<lparr>u_query := g7\<rparr>
        in if field = URL_QUERY then (0, st4)
        else
        let g9 = parse_fragment url c4 (g_end g7)
        in (0, st4\<lparr>u_fragment := g9\<rparr>))"

definition parseURL :: "string \<Rightarrow> URL \<Rightarrow> int \<times> URL" where
  "parseURL url storage = parseURLField url storage URL_ALL"

section \<open>Reading a field\<close>

definition readURLField :: "string \<Rightarrow> URLGroup \<Rightarrow> string option" where
  "readURLField url field =
     (if g_end field \<le> g_start field then Some []
      else if g_end field \<le> length url + 1
      then Some (cstr (take (g_end field - g_start field) (drop (g_start field) (url @ [NUL]))))
      else None)"

definition cmpURLField :: "string \<Rightarrow> URLGroup \<Rightarrow> string option \<Rightarrow> int option" where
  \<comment> \<open>the sign of a nonzero result is not modelled (\<open>bcmp\<close> promises none): it is 1;
      \<open>bcmp\<close> reads as many bytes of \<open>to\<close> as the field has\<close>
  "cmpURLField url field to =
     (if g_start field > g_end field then Some (-1)
      else if g_start field = g_end field
      then Some (if to = None \<or> to = Some [] then 0 else 1)
      else
        let n = g_end field - g_start field in
        case to of
          None \<Rightarrow> None
        | Some t \<Rightarrow>
            if n \<le> length t + 1 \<and> g_end field \<le> length url + 1
            then Some (if take n (t @ [NUL]) = take n (drop (g_start field) (url @ [NUL])) then 0 else 1)
            else None)"

section \<open>The parts of a URL\<close>

text \<open>
  A URL as the composition of its groups; \<open>None\<close> is an absent group.  \<open>url_parts_ok\<close> is what the code
  cuts, \<open>rfc_parts_ok\<close> below the grouping of RFC 3986.
\<close>

record url_parts =
  p_scheme :: "string option"
  p_authority :: "string option"
  p_path :: string
  p_query :: "string option"
  p_fragment :: "string option"

definition delimited :: "string \<Rightarrow> string option \<Rightarrow> string \<Rightarrow> string" where
  "delimited before part after = (case part of None \<Rightarrow> [] | Some s \<Rightarrow> before @ s @ after)"

definition hier_part :: "url_parts \<Rightarrow> string" where
  "hier_part u = delimited ''//'' (p_authority u) [] @ p_path u @
     delimited ''?'' (p_query u) [] @ delimited ''#'' (p_fragment u) []"

definition render :: "url_parts \<Rightarrow> string" where
  "render u = delimited [] (p_scheme u) '':'' @ hier_part u"

definition clear :: "string \<Rightarrow> string \<Rightarrow> bool" where
  "clear stops s \<longleftrightarrow> set s \<inter> set stops = {}"

definition has_scheme :: "string \<Rightarrow> bool" where
  "has_scheme s \<longleftrightarrow> (\<exists>a b. s = a @ CHR '':'' # b \<and> clear '':/?#'' a)"

definition url_parts_ok :: "url_parts \<Rightarrow> bool" where
  "url_parts_ok u \<longleftrightarrow>
     (case p_scheme u of None \<Rightarrow> \<not> has_scheme (hier_part u) | Some s \<Rightarrow> clear '':/?#'' s) \<and>
     (case p_authority u of
        None \<Rightarrow> \<not> prefix ''//'' (p_path u)
      | Some a \<Rightarrow> clear ''/?#'' a \<and> (p_path u = [] \<or> hd (p_path u) = CHR ''/'')) \<and>
     clear ''?#'' (p_path u) \<and>
     (case p_query u of None \<Rightarrow> True | Some q \<Rightarrow> clear ''#'' q)"

definition field_of :: "string option \<Rightarrow> string" where
  "field_of p = (case p of None \<Rightarrow> [] | Some s \<Rightarrow> s)"

lemma field_of_simps [simp]: "field_of None = []" "field_of (Some s) = s"
  by (simp_all add: field_of_def)

definition group_is :: "string \<Rightarrow> URLGroup \<Rightarrow> string \<Rightarrow> bool" where
  "group_is url g s \<longleftrightarrow> g_start g \<le> g_end g \<and> g_end g \<le> length url \<and>
     take (g_end g - g_start g) (drop (g_start g) url) = s"

section \<open>Parsing against the parts\<close>

lemma run_to_clear:
  assumes "clear stops s" "r = [] \<or> hd r \<in> set stops"
  shows "run_to stops (pre @ s @ r) (length pre) = length s"
proof -
  have "takeWhile (\<lambda>x. x \<notin> set stops) (s @ r) = s"
    using assms by (cases r) (auto simp: clear_def takeWhile_append2 disjoint_iff)
  then show ?thesis by (simp add: run_to_def)
qed

lemma char_is_append [simp]:
  "char_is (pre @ s) (length pre) x \<longleftrightarrow> (\<exists>t. s = x # t)"
  by (cases s) (auto simp: char_is_def)

lemma char_is_append_Suc:
  "char_is (pre @ y # s) (length pre + 1) x \<longleftrightarrow> (\<exists>t. s = x # t)"
  using char_is_append [of "pre @ [y]" s x] by simp

lemma group_is_mid:
  "group_is (pre @ s @ r) \<lparr>g_start = length pre, g_end = length pre + length s\<rparr> s"
  by (simp add: group_is_def)

lemma parse_scheme_Some:
  assumes "clear '':/?#'' s"
  shows "parse_scheme (s @ CHR '':'' # r) = (length s + 1, length s + 1, \<lparr>g_start = 0, g_end = length s\<rparr>)"
proof -
  have "run_to '':/?#'' (s @ CHR '':'' # r) 0 = length s"
    using run_to_clear [OF assms, of "CHR '':'' # r" "[]"] by simp
  then show ?thesis by (simp add: parse_scheme_def Let_def)
qed

lemma parse_scheme_None:
  assumes "\<not> has_scheme url"
  shows "parse_scheme url = (0, 0, \<lparr>g_start = 0, g_end = 0\<rparr>)"
proof -
  let ?a = "takeWhile (\<lambda>x. x \<notin> set '':/?#'') url"
  have "\<not> char_is url (length ?a) (CHR '':'')"
  proof
    assume "char_is url (length ?a) (CHR '':'')"
    then have "drop (length ?a) url = CHR '':'' # drop (Suc (length ?a)) url"
      by (metis char_is_def Cons_nth_drop_Suc)
    then have "url = ?a @ CHR '':'' # drop (Suc (length ?a)) url"
      by (metis append_take_drop_id takeWhile_eq_take)
    moreover have "clear '':/?#'' ?a" by (auto simp: clear_def dest: set_takeWhileD)
    ultimately show False using assms unfolding has_scheme_def by blast
  qed
  then show ?thesis by (simp add: parse_scheme_def run_to_def Let_def)
qed

lemma parse_authority_Some:
  assumes "clear ''/?#'' a" "r = [] \<or> hd r \<in> set ''/?#''"
  shows "parse_authority (pre @ ''//'' @ a @ r) (length pre) (length pre) =
    (length (pre @ ''//'' @ a), \<lparr>g_start = length (pre @ ''//''), g_end = length (pre @ ''//'') + length a\<rparr>)"
proof -
  have "run_to ''/?#'' (pre @ ''//'' @ a @ r) (length pre + 2) = length a"
    using run_to_clear [OF assms, of "pre @ ''//''"] by simp
  moreover have "char_is (pre @ ''//'' @ a @ r) (length pre + 1) (CHR ''/'')"
    using char_is_append_Suc [of pre "CHR ''/''" "''/'' @ a @ r"] by simp
  ultimately show ?thesis by (simp add: parse_authority_def Let_def)
qed

lemma parse_authority_None:
  assumes "\<not> prefix ''//'' r"
  shows "parse_authority (pre @ r) (length pre) (length pre) =
    (length pre, \<lparr>g_start = length pre, g_end = length pre\<rparr>)"
proof -
  have "\<not> (char_is (pre @ r) (length pre) (CHR ''/'') \<and> char_is (pre @ r) (length pre + 1) (CHR ''/''))"
  proof
    assume *: "char_is (pre @ r) (length pre) (CHR ''/'') \<and> char_is (pre @ r) (length pre + 1) (CHR ''/'')"
    then obtain t where t: "r = CHR ''/'' # t" by auto
    with * obtain t2 where "t = CHR ''/'' # t2" using char_is_append_Suc by blast
    then show False using assms t by simp
  qed
  then show ?thesis unfolding parse_authority_def by (rule if_not_P)
qed

lemma parse_path_part:
  assumes "clear ''?#'' p" "r = [] \<or> hd r \<in> set ''?#''"
  shows "parse_path (pre @ p @ r) (length pre) (length pre) =
    (length (pre @ p), \<lparr>g_start = length pre, g_end = length pre + length p\<rparr>)"
  using run_to_clear [OF assms] by (simp add: parse_path_def Let_def)

lemma parse_query_Some:
  assumes "clear ''#'' q" "r = [] \<or> hd r \<in> set ''#''"
  shows "parse_query (pre @ ''?'' @ q @ r) (length pre) (length pre) =
    (length (pre @ ''?'' @ q), \<lparr>g_start = length (pre @ ''?''), g_end = length (pre @ ''?'') + length q\<rparr>)"
  using run_to_clear [OF assms, of "pre @ ''?''"] by (simp add: parse_query_def Let_def)

lemma parse_query_None:
  assumes "r = [] \<or> hd r \<in> set ''#''"
  shows "parse_query (pre @ r) (length pre) (length pre) =
    (length pre, \<lparr>g_start = length pre, g_end = length pre\<rparr>)"
  using assms by (auto simp: parse_query_def)

lemma parse_fragment_Some:
  "parse_fragment (pre @ ''#'' @ f) (length pre) (length pre) =
    \<lparr>g_start = length (pre @ ''#''), g_end = length (pre @ ''#'') + length f\<rparr>"
  using run_to_clear [of "[]" f "[]" "pre @ ''#''"] by (simp add: parse_fragment_def clear_def)

lemma parse_fragment_None:
  "parse_fragment pre (length pre) (length pre) = \<lparr>g_start = length pre, g_end = length pre\<rparr>"
  using char_is_append [of pre "[]"] by (simp add: parse_fragment_def)

definition groups_match :: "string \<Rightarrow> URL \<Rightarrow> url_parts \<Rightarrow> bool" where
  "groups_match url st u \<longleftrightarrow>
     group_is url (u_scheme st) (field_of (p_scheme u)) \<and>
     group_is url (u_authority st) (field_of (p_authority u)) \<and>
     group_is url (u_path st) (p_path u) \<and>
     group_is url (u_query st) (field_of (p_query u)) \<and>
     group_is url (u_fragment st) (field_of (p_fragment u))"

lemma parse_render:
  assumes ok: "url_parts_ok u" and ne: "render u \<noteq> []"
  shows "\<exists>st'. parseURL (render u) st = (0, st') \<and> groups_match (render u) st' u"
proof -
  define S where "S = delimited [] (p_scheme u) '':''"
  define A where "A = delimited ''//'' (p_authority u) []"
  define Q where "Q = delimited ''?'' (p_query u) []"
  define F where "F = delimited ''#'' (p_fragment u) []"
  let ?url = "render u"
  have url: "?url = S @ A @ p_path u @ Q @ F"
    by (simp add: render_def hier_part_def S_def A_def Q_def F_def)
  have F0: "F = [] \<or> hd F \<in> set ''#''" by (auto simp: F_def delimited_def split: option.splits)
  have QF0: "Q @ F = [] \<or> hd (Q @ F) \<in> set ''?#''"
    using F0 by (auto simp: Q_def delimited_def split: option.splits)
  have cl: "clear ''?#'' (p_path u)" using ok by (simp add: url_parts_ok_def)
  obtain g2 where s: "parse_scheme ?url = (length S, length S, g2)"
    "group_is ?url g2 (field_of (p_scheme u))"
  proof (cases "p_scheme u")
    case None
    then have "S = []" "\<not> has_scheme ?url" using ok by (auto simp: S_def delimited_def url_parts_ok_def render_def)
    then show ?thesis using that [of "\<lparr>g_start = 0, g_end = 0\<rparr>"] parse_scheme_None None
      by (simp add: group_is_def)
  next
    case (Some s)
    then have S: "S = s @ '':''" "clear '':/?#'' s" using ok by (auto simp: S_def delimited_def url_parts_ok_def)
    then have "?url = s @ CHR '':'' # (A @ p_path u @ Q @ F)" using url by simp
    then show ?thesis
      using that [of "\<lparr>g_start = 0, g_end = length s\<rparr>"] parse_scheme_Some [OF S(2)] S(1) Some
      by (simp add: group_is_def)
  qed
  obtain g4 where a: "parse_authority ?url (length S) (length S) = (length (S @ A), g4)"
    "group_is ?url g4 (field_of (p_authority u))" "g_end g4 = length (S @ A)"
  proof (cases "p_authority u")
    case None
    have np: "\<not> prefix ''//'' (p_path u)" using ok None by (simp add: url_parts_ok_def)
    have "\<not> prefix ''//'' (p_path u @ Q @ F)"
      using np QF0 by (cases "p_path u"; cases "tl (p_path u)"; cases "Q @ F") auto
    moreover have "A = []" using None by (simp add: A_def delimited_def)
    ultimately show ?thesis
      using that [of "\<lparr>g_start = length S, g_end = length S\<rparr>"] parse_authority_None [of "p_path u @ Q @ F" S] url None
      by (simp add: group_is_def)
  next
    case (Some a)
    have A: "A = ''//'' @ a" "clear ''/?#'' a" and "p_path u = [] \<or> hd (p_path u) = CHR ''/''"
      using ok Some by (auto simp: A_def delimited_def url_parts_ok_def)
    then have r: "p_path u @ Q @ F = [] \<or> hd (p_path u @ Q @ F) \<in> set ''/?#''"
      using QF0 by (cases "p_path u") auto
    have "group_is ?url \<lparr>g_start = length (S @ ''//''), g_end = length (S @ ''//'') + length a\<rparr> a"
      using group_is_mid [of "S @ ''//''" a "p_path u @ Q @ F"] url A(1) by simp
    then show ?thesis
      using that [of "\<lparr>g_start = length (S @ ''//''), g_end = length (S @ ''//'') + length a\<rparr>"]
        parse_authority_Some [OF A(2) r, of S] url A(1) Some by simp
  qed
  define g5 where "g5 = \<lparr>g_start = length (S @ A), g_end = length (S @ A) + length (p_path u)\<rparr>"
  have p: "parse_path ?url (length (S @ A)) (length (S @ A)) = (length (S @ A @ p_path u), g5)"
    "group_is ?url g5 (p_path u)" "g_end g5 = length (S @ A @ p_path u)"
    using parse_path_part [OF cl QF0, of "S @ A"] group_is_mid [of "S @ A" "p_path u" "Q @ F"] url
    by (simp_all add: g5_def)
  let ?P = "S @ A @ p_path u"
  obtain g7 where q: "parse_query ?url (length ?P) (length ?P) = (length (?P @ Q), g7)"
    "group_is ?url g7 (field_of (p_query u))" "g_end g7 = length (?P @ Q)"
  proof (cases "p_query u")
    case None
    then have "Q = []" by (simp add: Q_def delimited_def)
    then show ?thesis
      using that [of "\<lparr>g_start = length ?P, g_end = length ?P\<rparr>"] parse_query_None [OF F0, of ?P] url None
      by (simp add: group_is_def)
  next
    case (Some q)
    then have Q: "Q = ''?'' @ q" "clear ''#'' q" using ok by (auto simp: Q_def delimited_def url_parts_ok_def)
    have "group_is ?url \<lparr>g_start = length (?P @ ''?''), g_end = length (?P @ ''?'') + length q\<rparr> q"
      using group_is_mid [of "?P @ ''?''" q F] url Q(1) by simp
    then show ?thesis
      using that [of "\<lparr>g_start = length (?P @ ''?''), g_end = length (?P @ ''?'') + length q\<rparr>"]
        parse_query_Some [OF Q(2) F0, of ?P] url Q(1) Some by simp
  qed
  obtain g9 where f: "parse_fragment ?url (length (?P @ Q)) (length (?P @ Q)) = g9"
    "group_is ?url g9 (field_of (p_fragment u))"
  proof (cases "p_fragment u")
    case None
    then have "F = []" by (simp add: F_def delimited_def)
    then show ?thesis
      using that [of "\<lparr>g_start = length (?P @ Q), g_end = length (?P @ Q)\<rparr>"]
        parse_fragment_None [of "?P @ Q"] url None by (simp add: group_is_def)
  next
    case (Some f)
    then have F: "F = ''#'' @ f" by (simp add: F_def delimited_def)
    have "group_is ?url \<lparr>g_start = length (?P @ Q @ ''#''), g_end = length (?P @ Q @ ''#'') + length f\<rparr> f"
      using group_is_mid [of "?P @ Q @ ''#''" f "[]"] url F by simp
    then show ?thesis
      using that [of "\<lparr>g_start = length (?P @ Q @ ''#''), g_end = length (?P @ Q @ ''#'') + length f\<rparr>"]
        parse_fragment_Some [of "?P @ Q" f] url F Some by simp
  qed
  show ?thesis
    using s a p q f ne
    by (simp add: parseURL_def parseURLField_def groups_match_def Let_def)
qed

lemma split_clear:
  obtains a r where "s = a @ r" "clear stops a" "r = [] \<or> hd r \<in> set stops"
proof
  show "s = takeWhile (\<lambda>x. x \<notin> set stops) s @ dropWhile (\<lambda>x. x \<notin> set stops) s" by simp
  show "clear stops (takeWhile (\<lambda>x. x \<notin> set stops) s)" by (auto simp: clear_def dest: set_takeWhileD)
  show "dropWhile (\<lambda>x. x \<notin> set stops) s = [] \<or> hd (dropWhile (\<lambda>x. x \<notin> set stops) s) \<in> set stops"
    using hd_dropWhile by blast
qed

lemma parts_exist: "\<exists>u. url_parts_ok u \<and> render u = url"
proof -
  obtain sc r0 where sc: "url = delimited [] sc '':'' @ r0"
    "case sc of None \<Rightarrow> \<not> has_scheme r0 | Some s \<Rightarrow> clear '':/?#'' s"
  proof (cases "has_scheme url")
    case True
    then obtain a b where "url = a @ CHR '':'' # b" "clear '':/?#'' a" by (auto simp: has_scheme_def)
    then show ?thesis using that [of "Some a" b] by (simp add: delimited_def)
  next
    case False
    then show ?thesis using that [of None url] by (simp add: delimited_def)
  qed
  obtain au r1 where au: "r0 = delimited ''//'' au [] @ r1"
    "case au of None \<Rightarrow> \<not> prefix ''//'' r1 | Some a \<Rightarrow> clear ''/?#'' a \<and> (r1 = [] \<or> hd r1 \<in> set ''/?#'')"
  proof (cases "prefix ''//'' r0")
    case True
    then obtain t where t: "r0 = ''//'' @ t" by (auto simp: prefix_def)
    obtain a r where "t = a @ r" "clear ''/?#'' a" "r = [] \<or> hd r \<in> set ''/?#''" by (rule split_clear)
    then show ?thesis using that [of "Some a" r] t by (simp add: delimited_def)
  next
    case False
    then show ?thesis using that [of None r0] by (simp add: delimited_def)
  qed
  obtain p r2 where p: "r1 = p @ r2" "clear ''?#'' p" "r2 = [] \<or> hd r2 \<in> set ''?#''" by (rule split_clear)
  obtain q r3 where q: "r2 = delimited ''?'' q [] @ r3"
    "case q of None \<Rightarrow> True | Some x \<Rightarrow> clear ''#'' x" "r3 = [] \<or> hd r3 \<in> set ''#''"
  proof (cases "\<exists>t. r2 = CHR ''?'' # t")
    case True
    then obtain t where t: "r2 = CHR ''?'' # t" by blast
    obtain a r where "t = a @ r" "clear ''#'' a" "r = [] \<or> hd r \<in> set ''#''" by (rule split_clear)
    then show ?thesis using that [of "Some a" r] t by (simp add: delimited_def)
  next
    case False
    then show ?thesis using that [of None r2] p(3) by (cases r2) (auto simp: delimited_def)
  qed
  obtain f where f: "r3 = delimited ''#'' f []"
    using q(3) that [of None] that [of "Some (tl r3)"] by (cases r3) (auto simp: delimited_def)
  let ?u = "\<lparr>p_scheme = sc, p_authority = au, p_path = p, p_query = q, p_fragment = f\<rparr>"
  have h: "hier_part ?u = r0" using au p q f by (simp add: hier_part_def)
  have au': "case au of None \<Rightarrow> \<not> prefix ''//'' p
      | Some a \<Rightarrow> clear ''/?#'' a \<and> (p = [] \<or> hd p = CHR ''/'')"
    using au(2) p(1,2) by (cases p) (auto simp: clear_def prefix_def split: option.splits)
  have "url_parts_ok ?u"
    unfolding url_parts_ok_def h using sc(2) au' p(2) q(2) by (auto split: option.splits)
  moreover have "render ?u = url" using h sc(1) by (simp add: render_def)
  ultimately show ?thesis by blast
qed

lemma readURLField_group:
  assumes "group_is url g s" "NUL \<notin> set url"
  shows "readURLField url g = Some s"
proof (cases "g_end g \<le> g_start g")
  case True
  then show ?thesis using assms(1) by (auto simp: readURLField_def group_is_def)
next
  case False
  have g: "g_end g \<le> length url" "take (g_end g - g_start g) (drop (g_start g) url) = s"
    using assms(1) by (auto simp: group_is_def)
  have "take (g_end g - g_start g) (drop (g_start g) (url @ [NUL])) = s"
    using g False by simp
  moreover have "NUL \<notin> set s" using g(2) assms(2) by (auto dest: in_set_takeD in_set_dropD)
  ultimately show ?thesis using g(1) False by (simp add: readURLField_def)
qed

section \<open>Properties\<close>

definition no_fields :: URL where
  "no_fields = (let g = \<lparr>g_start = 0, g_end = 0\<rparr> in URL.make g g g g g)"

text \<open>
  The documented expression asks for at least one character in front of the first \<open>:\<close>; the code does not, so that
  a URL that begins with \<open>:\<close> is cut into an empty scheme and the rest.
\<close>

definition rfc_parts_ok :: "url_parts \<Rightarrow> bool" where
  \<comment> \<open>the parts that the expression of RFC 3986 gives\<close>
  "rfc_parts_ok u \<longleftrightarrow>
     (case p_scheme u of
        None \<Rightarrow> \<not> (\<exists>a b. hier_part u = a @ CHR '':'' # b \<and> a \<noteq> [] \<and> clear '':/?#'' a)
      | Some s \<Rightarrow> s \<noteq> [] \<and> clear '':/?#'' s) \<and>
     (case p_authority u of
        None \<Rightarrow> \<not> prefix ''//'' (p_path u)
      | Some a \<Rightarrow> clear ''/?#'' a \<and> (p_path u = [] \<or> hd (p_path u) = CHR ''/'')) \<and>
     clear ''?#'' (p_path u) \<and>
     (case p_query u of None \<Rightarrow> True | Some q \<Rightarrow> clear ''#'' q)"

lemma colon_scheme:
  assumes "url_parts_ok u"
  shows "p_scheme u = Some [] \<longleftrightarrow> prefix '':'' (render u)"
proof (cases "p_scheme u")
  case None
  then have r: "render u = hier_part u" "\<not> has_scheme (hier_part u)" using assms by (simp_all add: render_def delimited_def url_parts_ok_def)
  have "\<not> prefix '':'' (hier_part u)"
  proof
    assume "prefix '':'' (hier_part u)"
    then obtain t where "hier_part u = [] @ CHR '':'' # t" by (auto simp: prefix_def)
    then have "has_scheme (hier_part u)" unfolding has_scheme_def by (intro exI [of _ "[]"] exI [of _ t]) (simp add: clear_def)
    then show False using r(2) by simp
  qed
  then show ?thesis using r(1) None by simp
next
  case (Some s)
  then have "clear '':/?#'' s" using assms by (simp add: url_parts_ok_def)
  then show ?thesis using Some by (cases s) (auto simp: render_def delimited_def clear_def)
qed

lemma rfc_parts_iff:
  assumes "\<not> prefix '':'' (render u)"
  shows "rfc_parts_ok u \<longleftrightarrow> url_parts_ok u"
proof (cases "p_scheme u")
  case None
  then have "\<not> prefix '':'' (hier_part u)" using assms by (simp add: render_def delimited_def)
  then have "a \<noteq> []" if "hier_part u = a @ CHR '':'' # b" for a b using that by auto
  then show ?thesis using None by (auto simp: rfc_parts_ok_def url_parts_ok_def has_scheme_def)
next
  case (Some s)
  then have "s \<noteq> []" using assms by (auto simp: render_def delimited_def)
  then show ?thesis using Some by (simp add: rfc_parts_ok_def url_parts_ok_def)
qed

lemma rfc_parts_colon:
  assumes "rfc_parts_ok u" "prefix '':'' (render u)"
  shows "p_scheme u = None \<and> p_authority u = None \<and> prefix '':'' (p_path u)"
proof -
  have s: "p_scheme u = None"
  proof (cases "p_scheme u")
    case (Some s)
    then have "s \<noteq> []" "clear '':/?#'' s" using assms(1) by (simp_all add: rfc_parts_ok_def)
    then show ?thesis using assms(2) Some by (cases s) (auto simp: render_def delimited_def clear_def)
  qed
  then have h: "prefix '':'' (hier_part u)" using assms(2) by (simp add: render_def delimited_def)
  then have a: "p_authority u = None" by (cases "p_authority u") (auto simp: hier_part_def delimited_def)
  then have "p_path u \<noteq> []"
    using h by (auto simp: hier_part_def delimited_def split: option.splits)
  then show ?thesis using s a h by (cases "p_path u") (auto simp: hier_part_def delimited_def)
qed

text \<open>The path is what is in front of the query and the fragment.\<close>

lemma path_before_query:
  assumes "clear ''?#'' p"
  shows "takeWhile (\<lambda>c. c \<notin> set ''?#'') (p @ delimited ''?'' q [] @ delimited ''#'' f []) = p"
proof -
  have p: "c \<notin> set ''?#''" if "c \<in> set p" for c using that assms by (auto simp: clear_def)
  have "takeWhile (\<lambda>c. c \<notin> set ''?#'') (p @ r) = p @ takeWhile (\<lambda>c. c \<notin> set ''?#'') r" for r
    using p by (intro takeWhile_append2) blast
  then show ?thesis using p by (cases q; cases f) (auto simp: delimited_def takeWhile_eq_all_conv)
qed

text \<open>C28: every non-empty URL is parsed into groups that reassemble it: it is the composition of parts with the
  delimiters \<open>:\<close>, \<open>//\<close>, \<open>?\<close>, \<open>#\<close>, no part contains a delimiter that would end it, and each
  group of the result spans its part. They are the parts of the expression of RFC 3986 in the comment of the file, except that
  the code also takes an empty scheme: exactly the URLs that begin with \<open>:\<close> get one.\<close>

theorem parseURL_parts:
  assumes "url \<noteq> []"
  shows "\<exists>u st'. url_parts_ok u \<and> render u = url \<and> parseURL url st = (0, st') \<and> groups_match url st' u \<and>
    (if prefix '':'' url then p_scheme u = Some [] else rfc_parts_ok u)"
proof -
  obtain u where u: "url_parts_ok u" "render u = url" using parts_exist by blast
  then have "if prefix '':'' url then p_scheme u = Some [] else rfc_parts_ok u"
    using colon_scheme [of u] rfc_parts_iff [of u] by simp
  then show ?thesis using u parse_render [of u st] assms by blast
qed

theorem parseURL_parts_witness:
  "\<exists>u st'. url_parts_ok u \<and> render u = ''a?b'' \<and>
     parseURL ''a?b'' no_fields = (0, st') \<and> groups_match ''a?b'' st' u \<and> rfc_parts_ok u"
  using parseURL_parts [of "''a?b''" no_fields] by simp

text \<open>C27: the round trip.  Composing the parts that the expression of RFC 3986 gives, parsing the result and reading the
  groups returns the parts, except for a URL that begins with \<open>:\<close>: there the path that is read is not the
  one of the expression, since the code takes the \<open>:\<close> for the end of an empty scheme.\<close>

theorem parse_render_read:
  assumes "rfc_parts_ok u" "render u \<noteq> []" "NUL \<notin> set (render u)"
  shows "\<exists>st'. parseURL (render u) st = (0, st') \<and>
     (if prefix '':'' (render u) then readURLField (render u) (u_path st') \<noteq> Some (p_path u)
      else readURLField (render u) (u_scheme st') = Some (field_of (p_scheme u)) \<and>
        readURLField (render u) (u_authority st') = Some (field_of (p_authority u)) \<and>
        readURLField (render u) (u_path st') = Some (p_path u) \<and>
        readURLField (render u) (u_query st') = Some (field_of (p_query u)) \<and>
        readURLField (render u) (u_fragment st') = Some (field_of (p_fragment u)))"
proof (cases "prefix '':'' (render u)")
  case False
  then have "url_parts_ok u" using assms(1) rfc_parts_iff by blast
  from parse_render [OF this assms(2), of st] readURLField_group [OF _ assms(3)] False
  show ?thesis by (auto simp: groups_match_def)
next
  case True
  obtain v where v: "url_parts_ok v" "render v = render u" using parts_exist by blast
  then have sc: "p_scheme v = Some []" using colon_scheme [OF v(1)] True by simp
  obtain st' where st': "parseURL (render u) st = (0, st')" "groups_match (render u) st' v"
    using parse_render [OF v(1), of st] v(2) assms(2) by auto
  then have read: "readURLField (render u) (u_path st') = Some (p_path v)"
    using readURLField_group [OF _ assms(3)] by (simp add: groups_match_def)
  let ?w = "takeWhile (\<lambda>c. c \<notin> set ''?#'')"
  note u = rfc_parts_colon [OF assms(1) True]
  have "clear ''?#'' (p_path u)" "clear ''?#'' (p_path v)"
    using assms(1) v(1) by (simp_all add: rfc_parts_ok_def url_parts_ok_def)
  note w = this [THEN path_before_query]
  have "render u = p_path u @ delimited ''?'' (p_query u) [] @ delimited ''#'' (p_fragment u) []"
    using u by (simp add: render_def hier_part_def delimited_def)
  then have 1: "?w (render u) = p_path u" using w(1) by simp
  define A where "A = delimited ''//'' (p_authority v) []"
  have A: "c \<notin> set ''?#''" if "c \<in> set ('':'' @ A)" for c
    using that v(1) by (auto simp: A_def delimited_def url_parts_ok_def clear_def split: option.splits)
  have "render u = ('':'' @ A) @ p_path v @ delimited ''?'' (p_query v) [] @ delimited ''#'' (p_fragment v) []"
    using sc v(2) by (simp add: render_def hier_part_def A_def delimited_def)
  then have 2: "?w (render u) = ('':'' @ A) @ p_path v"
    using takeWhile_append2 [of "'':'' @ A" "\<lambda>c. c \<notin> set ''?#''"] A w(2) by metis
  have "length (p_path u) = Suc (length A + length (p_path v))" using arg_cong [OF 2, of length] unfolding 1 by simp
  then have "p_path u \<noteq> p_path v" by auto
  then show ?thesis using st'(1) read True by simp
qed

theorem parse_render_read_witness:
  "(\<exists>st'. parseURL ''http://h/p?q#f'' no_fields = (0, st') \<and>
     readURLField ''http://h/p?q#f'' (u_authority st') = Some ''h'' \<and>
     readURLField ''http://h/p?q#f'' (u_query st') = Some ''q'') \<and>
   (\<exists>st'. parseURL '':a'' no_fields = (0, st') \<and> readURLField '':a'' (u_path st') \<noteq> Some '':a'')"
proof
  let ?u = "\<lparr>p_scheme = Some ''http'', p_authority = Some ''h'', p_path = ''/p'',
      p_query = Some ''q'', p_fragment = Some ''f''\<rparr>"
  have "render ?u = ''http://h/p?q#f''" by (simp add: render_def hier_part_def delimited_def)
  moreover have "rfc_parts_ok ?u" by (simp add: rfc_parts_ok_def clear_def)
  ultimately show "\<exists>st'. parseURL ''http://h/p?q#f'' no_fields = (0, st') \<and>
     readURLField ''http://h/p?q#f'' (u_authority st') = Some ''h'' \<and>
     readURLField ''http://h/p?q#f'' (u_query st') = Some ''q''"
    using parse_render_read [of ?u "no_fields"] by auto
next
  let ?u = "\<lparr>p_scheme = None, p_authority = None, p_path = '':a'', p_query = None, p_fragment = None\<rparr>"
  have r: "render ?u = '':a''" "hier_part ?u = '':a''" by (simp_all add: render_def hier_part_def delimited_def)
  moreover have "rfc_parts_ok ?u"
    by (auto simp: rfc_parts_ok_def r(2) clear_def Cons_eq_append_conv)
  ultimately show "\<exists>st'. parseURL '':a'' no_fields = (0, st') \<and> readURLField '':a'' (u_path st') \<noteq> Some '':a''"
    using parse_render_read [of ?u "no_fields"] by auto
qed

text \<open>\<open>cmpURLField\<close> compares only as many characters as the field has: any string that
  starts with a non-empty field compares equal to it, longer ones included.\<close>

lemma cmpURLField_prefix:
  assumes "group_is url g s" "s \<noteq> []" "NUL \<notin> set url" "NUL \<notin> set t" "length s \<le> length t"
  shows "cmpURLField url g (Some t) = Some (if prefix s t then 0 else 1)"
proof -
  have g: "g_start g < g_end g" "g_end g \<le> length url" "take (g_end g - g_start g) (drop (g_start g) url) = s"
    using assms(1,2) by (auto simp: group_is_def)
  then have len: "g_end g - g_start g = length s" by auto
  have "prefix s t \<longleftrightarrow> take (length s) t = s" by (metis append_eq_conv_conj prefix_def take_is_prefix)
  moreover have "take (length s) (drop (g_start g) (url @ [NUL])) = s" using g len by simp
  ultimately show ?thesis using g(1,2) len assms(5) by (simp add: cmpURLField_def Let_def)
qed

lemma cmpURLField_prefix_witness:
  "cmpURLField ''http:x'' \<lparr>g_start = 0, g_end = 4\<rparr> (Some ''https'') = Some 0"
  using cmpURLField_prefix [of "''http:x''" "\<lparr>g_start = 0, g_end = 4\<rparr>" "''http''" "''https''"]
  by (simp add: group_is_def)

text \<open>Stopping at a field leaves the later fields of the result as they were.\<close>

lemma parseURLField_later_fields:
  assumes "url \<noteq> []"
  shows "u_authority (snd (parseURLField url st URL_SCHEME)) = u_authority st"
    and "u_path (snd (parseURLField url st URL_AUTHORITY)) = u_path st"
  using assms by (simp_all add: parseURLField_def Let_def split: prod.split)

end
