(* ===== verification/HttpParse.thy ===== *)
theory HttpParse
  imports QsParse UrlParser Log
begin

text \<open>
  \<^verbatim>\<open>http_parse.c\<close>: the callbacks of the HTTP parser, which fill a
  \<open>connection_info\<close> from the URL, the headers and the body of a request.

  The parser itself is a parameter: for a request it gives the callbacks it makes, each with
  the offset and the length of its data and the method number the parser holds then, and the
  method at the end; it stops at the first callback that does not return 0.  A callback gets a
  pointer into the request, which ends with the terminator of the request and not with the
  data of the callback.
\<close>

section \<open>State\<close>

record http_state =
  hs_c_info :: connection_info
  hs_GET_test :: "char list option"   \<comment> \<open>\<open>char[512]\<close>; \<open>None\<close> before it is set\<close>
  hs_storage :: "URL option"          \<comment> \<open>likewise\<close>
  hs_field_type :: nat
  hs_con_len :: int
  hs_content_length :: int

definition COOKIE :: nat where "COOKIE = 2"
definition HOST :: nat where "HOST = 1"
definition CONTENT_LEN :: nat where "CONTENT_LEN = 3"
definition REFERER :: nat where "REFERER = 4"

definition STATUS :: int where "STATUS = 2"
definition NOTE :: int where "NOTE = 3"
definition COMMENT :: int where "COMMENT = 4"
definition PHOTO :: int where "PHOTO = 5"
definition MEDIA_SET :: int where "MEDIA_SET = 6"
definition ADD_FRIEND :: int where "ADD_FRIEND = 7"
definition EDIT_NOTE :: int where "EDIT_NOTE = 8"
definition UPLOAD_PHOTO :: int where "UPLOAD_PHOTO = 9"
definition SHARE :: int where "SHARE = 13"
definition LIKE :: int where "LIKE = 14"
definition CHAT :: int where "CHAT = 19"

definition init_c_info :: connection_info where
  "init_c_info = \<lparr>user_id = replicate 20 NUL, s_id = replicate 20 NUL, p_type = 0, r_id = replicate 52 NUL,
     comment = replicate 10000 NUL, c_url = replicate 512 NUL\<rparr>"

definition header_field_type :: "string \<Rightarrow> nat" where
  "header_field_type at =
     (if prefix ''Cookie'' at then COOKIE
      else if prefix ''Host'' at then HOST
      else if prefix ''Content-Length'' at then CONTENT_LEN
      else if prefix ''Referer'' at then REFERER
      else 0)"

section \<open>Strings\<close>

definition has :: "string \<Rightarrow> string \<Rightarrow> bool" where
  \<comment> \<open>\<open>strstr(s, w) != NULL\<close>\<close>
  "has s w \<longleftrightarrow> strstr s w \<noteq> None"

definition from_str :: "string \<Rightarrow> string \<Rightarrow> string option" where
  \<comment> \<open>\<open>strstr(s, w)\<close>\<close>
  "from_str s w = map_option (\<lambda>i. drop i s) (strstr s w)"

definition put_str :: "string \<Rightarrow> char list \<Rightarrow> char list option" where
  \<comment> \<open>\<open>memcpy(buf, s, len); buf[len] = '\0'\<close>\<close>
  "put_str s buf = memcpy buf 0 (s @ [NUL])"

definition nine_bytes :: "string \<Rightarrow> char list option" where
  \<comment> \<open>nine bytes of a string and its terminator; those behind it are indeterminate or outside the object\<close>
  "nine_bytes s = (if 8 \<le> length s then Some (take 9 (s @ [NUL])) else None)"

definition put_short :: "nat \<Rightarrow> string \<Rightarrow> char list \<Rightarrow> char list option" where
  \<comment> \<open>\<open>if (len > 0 && len < n)\<close> copy, else \<open>buf[0] = '\0'\<close>\<close>
  "put_short n s buf = (if s \<noteq> [] \<and> length s < n then put_str s buf else memcpy buf 0 [NUL])"

definition strcat_buf :: "string \<Rightarrow> char list \<Rightarrow> char list option" where
  "strcat_buf s buf = do { t \<leftarrow> buf_str buf; memcpy buf (length t) (s @ [NUL]) }"

definition hex_value :: "char \<Rightarrow> int" where
  \<comment> \<open>\<open>c >= 'A' ? ((c & 0XDF) - 'A') + 10 : c - '0'\<close> for a signed character\<close>
  "hex_value c =
     (let n = (of_char c :: int) in
      if 65 \<le> n \<and> n < 128 then (if n mod 64 \<ge> 32 then n - 32 else n) - 55 else n - 48)"

fun urldecode_my :: "char list \<Rightarrow> string option" where
  \<comment> \<open>the bytes from the read pointer on; the result is what is written before the terminator\<close>
  "urldecode_my [] = None"
| "urldecode_my (c # s) =
     (if c = NUL then Some []
      else if c = CHR ''%''
      then (case s of
              h # l # s2 \<Rightarrow> map_option (\<lambda>t. char_of (16 * hex_value h + hex_value l) # t) (urldecode_my s2)
            | _ \<Rightarrow> None)
      else map_option (\<lambda>t. (if c = CHR ''+'' then CHR '' '' else c) # t) (urldecode_my s))"

section \<open>The page type\<close>

definition page_type :: "string \<Rightarrow> int" where
  "page_type path =
     (if has path ''like'' \<and> \<not> has path ''showlike'' then LIKE
      else if has path ''blog/'' then NOTE
      else if has path ''NewEntry.do'' then EDIT_NOTE
      else if has path ''album-create-new'' then MEDIA_SET
      else if has path ''upload/'' then UPLOAD_PHOTO
      else if has path ''.jpg'' then PHOTO
      else if has path ''addfollow'' \<or> has path ''friend.do'' then ADD_FRIEND
      else if has path ''reply'' \<or> has path ''comment'' \<or> has path ''Comment'' then COMMENT
      else if has path ''status'' then STATUS
      else if has path ''share/popup.do'' \<or> has path ''share/submit.do'' \<or> has path ''update.do'' \<or>
              has path ''share/ajax.do'' then SHARE
      else if has path ''muc_chat'' then CHAT
      else 0)"

section \<open>The URL\<close>

definition url_path :: "string \<Rightarrow> http_state \<Rightarrow> (URLGroup \<times> http_state) option" where
  \<comment> \<open>\<open>parseURL(url, storage); storage->path.start += 1\<close>\<close>
  "url_path url hs = do {
     st \<leftarrow> (case hs_storage hs of
              Some s \<Rightarrow> Some (snd (parseURL url s))
            | None \<Rightarrow> if url = [] then None else Some (snd (parseURL url no_fields)));
     let p = (u_path st)\<lparr>g_start := g_start (u_path st) + 1\<rparr>;
     Some (p, hs\<lparr>hs_storage := Some (st\<lparr>u_path := p\<rparr>)\<rparr>) }"

definition note_ids :: "string \<Rightarrow> connection_info \<Rightarrow> connection_info option" where
  \<comment> \<open>\<open>p_type == NOTE\<close>\<close>
  "note_ids path c =
     (let c1 = (if has path ''blogs/'' then c\<lparr>p_type := 0\<rparr> else c) in
      case from_str path ''blog/'' of
        None \<Rightarrow> Some c1
      | Some s_start \<Rightarrow> do {
          b \<leftarrow> nine_bytes (drop 5 s_start);
          s \<leftarrow> put_str b (s_id c1);
          let c2 = c1\<lparr>s_id := s\<rparr>;
          (case from_str (drop 6 s_start) ''/'' of
             None \<Rightarrow> Some c2
           | Some r_start \<Rightarrow> do {
               b \<leftarrow> nine_bytes (drop 1 r_start);
               r \<leftarrow> put_str b (r_id c2);
               Some (c2\<lparr>r_id := r\<rparr>) }) })"

definition like_ids :: "string \<Rightarrow> connection_info \<Rightarrow> connection_info option" where
  \<comment> \<open>\<open>p_type == LIKE\<close>; without an \<open>&\<close> the length is the difference of a null pointer\<close>
  "like_ids url c = do {
     r \<leftarrow> (case from_str url ''_'' of
             None \<Rightarrow> Some (r_id c)
           | Some start \<Rightarrow> do {
               len \<leftarrow> strchr (drop 1 start) (CHR ''&'');
               put_short 52 (take len (drop 1 start)) (r_id c) });
     s \<leftarrow> (case from_str url ''owner'' of
             None \<Rightarrow> Some (s_id c)
           | Some start1 \<Rightarrow> do {
               len1 \<leftarrow> strchr (drop 5 start1) (CHR ''&'');
               put_short 20 (take len1 (drop 5 start1)) (s_id c) });
     Some (c\<lparr>r_id := r, s_id := s\<rparr>) }"

definition upload_ids :: "string \<Rightarrow> connection_info \<Rightarrow> connection_info option" where
  \<comment> \<open>\<open>p_type == UPLOAD_PHOTO\<close>\<close>
  "upload_ids url c = (case from_str url ''hostid='' of
     None \<Rightarrow> Some c
   | Some user_start \<Rightarrow> do {
       b \<leftarrow> nine_bytes (drop 7 user_start);
       u \<leftarrow> put_str b (user_id c);
       Some (c\<lparr>user_id := u\<rparr>) })"

definition url_parse :: "string \<Rightarrow> http_state \<Rightarrow> http_state option" where
  \<comment> \<open>\<open>_url_parse\<close>\<close>
  "url_parse url hs = do {
     (p, hs) \<leftarrow> url_path url hs;
     (if g_start p = g_end p then Some hs
      else do {
        path \<leftarrow> readURLField url p;
        let c = hs_c_info hs;
        let c1 = (if p_type c = 0 then c\<lparr>p_type := page_type url\<rparr> else c);
        c2 \<leftarrow> (if p_type c1 = NOTE then note_ids path c1
               else if p_type c1 = LIKE then like_ids url c1
               else if p_type c1 = UPLOAD_PHOTO then upload_ids url c1
               else Some c1);
        Some (hs\<lparr>hs_c_info := c2\<rparr>) }) }"

definition on_url :: "string \<Rightarrow> nat \<Rightarrow> http_state \<Rightarrow> (int \<times> http_state) option" where
  \<comment> \<open>\<open>at\<close> is the request from there; \<open>http.url\<close> has 300 bytes\<close>
  "on_url at len hs =
     (if 300 < len \<or> len < 2 then Some (-1, hs)
      else if len = 300 then None
      else do {
        let n = (case strstr at ''HTTP/1.1'' of None \<Rightarrow> 0 | Some i \<Rightarrow> i - 1);
        g \<leftarrow> memcpy (replicate 512 NUL) 0 (take n at);
        hs1 \<leftarrow> url_parse (take len at) (hs\<lparr>hs_GET_test := Some g\<rparr>);
        Some (0, hs1) })"

section \<open>The headers\<close>

definition on_header_field :: "string \<Rightarrow> http_state \<Rightarrow> (int \<times> http_state) option" where
  "on_header_field at hs = Some (0, hs\<lparr>hs_field_type := header_field_type at\<rparr>)"

definition host_url :: "string \<Rightarrow> http_state \<Rightarrow> connection_info \<Rightarrow> connection_info option" where
  "host_url host hs c = do {
     g \<leftarrow> hs_GET_test hs;
     t \<leftarrow> buf_str g;
     u \<leftarrow> strcat_buf ''http://'' (replicate 512 NUL);
     u \<leftarrow> strcat_buf host u;
     u \<leftarrow> strcat_buf t u;
     Some (c\<lparr>c_url := u\<rparr>) }"

definition cookie_id :: "string \<Rightarrow> connection_info \<Rightarrow> connection_info option" where
  "cookie_id at c = do {
     u0 \<leftarrow> bat (user_id c) 0;
     (if u0 \<noteq> NUL then Some c
      else case from_str at ''; id='' of
        None \<Rightarrow> Some c
      | Some start \<Rightarrow>
          (case strchr (drop 5 start) (CHR '';'') of
             None \<Rightarrow> Some c
           | Some len \<Rightarrow> do {
               u \<leftarrow> put_short 20 (take len (drop 5 start)) (user_id c);
               Some (c\<lparr>user_id := u\<rparr>) })) }"

definition on_header_value :: "string \<Rightarrow> nat \<Rightarrow> http_state \<Rightarrow> (int \<times> http_state) option" where
  "on_header_value at len hs =
     (let c = hs_c_info hs; t = hs_field_type hs in
      if t = HOST then do { c1 \<leftarrow> host_url (take len at) hs c; Some (0, hs\<lparr>hs_c_info := c1\<rparr>) }
      else if t = COOKIE then do { c1 \<leftarrow> cookie_id at c; Some (0, hs\<lparr>hs_c_info := c1\<rparr>) }
      else if t = CONTENT_LEN then do { k \<leftarrow> atoi at; Some (0, hs\<lparr>hs_content_length := k\<rparr>) }
      else if t = REFERER \<and> p_type c = 0 then do { hs1 \<leftarrow> url_parse (take len at) hs; Some (0, hs1) }
      else Some (0, hs))"

section \<open>The body\<close>

definition scan_field :: "string \<Rightarrow> string \<Rightarrow> char list \<Rightarrow> char list option" where
  \<comment> \<open>\<open>qs_scanvalue(key, at, buf, sizeof(buf))\<close>\<close>
  "scan_field key at buf = do { (found, v) \<leftarrow> qs_scanvalue key (at @ [NUL]) buf (length buf); Some v }"

definition scan_new :: "string \<Rightarrow> string \<Rightarrow> nat \<Rightarrow> string option" where
  \<comment> \<open>into fresh memory of \<open>n\<close> bytes, read as a string: undefined if a byte found there is read. The fill
      is a hexadecimal digit, so that a decoding that reads the first such byte runs over the end\<close>
  "scan_new key at n = do {
     (found, v) \<leftarrow> qs_scanvalue key (at @ [NUL]) (replicate n (CHR ''A'')) n;
     (if found then buf_str v else None) }"

definition comment_body :: "string \<Rightarrow> connection_info \<Rightarrow> connection_info option" where
  "comment_body at c = do {
     t \<leftarrow> ofold (\<lambda>key. scan_field key at) [''c'', ''content'', ''comment'', ''body''] (comment c);
     r \<leftarrow> ofold (\<lambda>key. scan_field key at) [''entryId'', ''id'', ''source''] (r_id c);
     s \<leftarrow> ofold (\<lambda>key. scan_field key at) [''entryOwnerId'', ''owner''] (s_id c);
     Some (c\<lparr>comment := t, r_id := r, s_id := s\<rparr>) }"

definition friend_body :: "string \<Rightarrow> connection_info \<Rightarrow> connection_info option" where
  "friend_body at c = do {
     s \<leftarrow> scan_field ''id'' at (s_id c);
     r \<leftarrow> scan_field ''pubId'' at (r_id c);
     t \<leftarrow> scan_field ''why'' at (comment c);
     Some (c\<lparr>s_id := s, r_id := r, comment := t\<rparr>) }"

definition titled_body :: "string \<Rightarrow> nat \<Rightarrow> string \<Rightarrow> string \<Rightarrow> connection_info \<Rightarrow> connection_info option" where
  \<comment> \<open>\<open>EDIT_NOTE\<close> and \<open>MEDIA_SET\<close>: a title of \<open>n\<close> bytes behind the text\<close>
  "titled_body title n body at c = do {
     v \<leftarrow> scan_new title at n;
     t \<leftarrow> scan_field body at (comment c);
     t \<leftarrow> strcat_buf v t;
     Some (c\<lparr>comment := t\<rparr>) }"

definition field_body :: "string \<Rightarrow> string \<Rightarrow> connection_info \<Rightarrow> connection_info option" where
  \<comment> \<open>\<open>STATUS\<close> and \<open>UPLOAD_PHOTO\<close>\<close>
  "field_body key at c = do { t \<leftarrow> scan_field key at (comment c); Some (c\<lparr>comment := t\<rparr>) }"

definition chat_body :: "string \<Rightarrow> connection_info \<Rightarrow> connection_info option" where
  "chat_body at c = do {
     t \<leftarrow> (case from_str at ''<font>'' of
             None \<Rightarrow> Some (comment c)
           | Some start4 \<Rightarrow>
               (case strchr (drop 6 start4) (CHR ''<'') of
                  None \<Rightarrow> Some (comment c)
                | Some len4 \<Rightarrow> put_short 1000 (take len4 (drop 6 start4)) (comment c)));
     s \<leftarrow> (case from_str at ''to='' of
             None \<Rightarrow> Some (s_id c)
           | Some start5 \<Rightarrow>
               if length start5 < 4 then None
               else (case strchr (drop 4 start5) (CHR ''@'') of
                  None \<Rightarrow> Some (s_id c)
                | Some len5 \<Rightarrow> put_short 20 (take len5 (drop 4 start5)) (s_id c)));
     Some (c\<lparr>comment := t, s_id := s\<rparr>) }"

definition share_text :: "string \<Rightarrow> char list \<Rightarrow> char list option" where
  "share_text post buf = (case from_str post ''body\":\"'' of
     None \<Rightarrow> memcpy buf 0 [NUL]
   | Some p \<Rightarrow>
       (case strstr (drop 7 p) ''\",\"'' of
          None \<Rightarrow> memcpy buf 0 [NUL]
        | Some q \<Rightarrow> put_str (take q (drop 7 p)) buf))"

definition share_id :: "string \<Rightarrow> char list \<Rightarrow> char list option" where
  \<comment> \<open>both ends as offsets into \<open>temp_temp\<close>\<close>
  "share_id post buf = (case strstr post ''\"id\":'' of
     None \<Rightarrow> Some buf
   | Some i \<Rightarrow>
       (let quoted = prefix ''\"'' (drop (i + 5) post);
            start = (if quoted then i + 6 else i + 5);
            stop = (if quoted then strstr post ''\",\"owner'' else strstr post '',\"owner'')
        in case stop of
             None \<Rightarrow> Some buf
           | Some e \<Rightarrow> if start < e \<and> e - start \<le> 20 then put_str (take (e - start) (drop start post)) buf
                      else Some buf))"

definition share_body :: "string \<Rightarrow> connection_info \<Rightarrow> connection_info option" where
  "share_body at c =
     (if prefix ''c='' at then do {
        t \<leftarrow> scan_field ''c'' at (comment c);
        r \<leftarrow> scan_field ''fwdId'' at (r_id c);
        s \<leftarrow> scan_field ''fwdOwner'' at (s_id c);
        Some (c\<lparr>comment := t, r_id := r, s_id := s\<rparr>) }
      else do {
        b \<leftarrow> scan_field ''post'' at (replicate 100000 NUL);
        post \<leftarrow> buf_str b;
        t \<leftarrow> share_text post (comment c);
        r \<leftarrow> share_id post (r_id c);
        Some (c\<lparr>comment := t, r_id := r\<rparr>) })"

definition body_fields :: "string \<Rightarrow> connection_info \<Rightarrow> connection_info option" where
  \<comment> \<open>the \<open>switch\<close> of \<open>on_body\<close>\<close>
  "body_fields at c =
     (if p_type c = COMMENT then comment_body at c
      else if p_type c = ADD_FRIEND then friend_body at c
      else if p_type c = EDIT_NOTE then titled_body ''title'' 100 ''body'' at c
      else if p_type c = STATUS then field_body ''content'' at c
      else if p_type c = MEDIA_SET then titled_body ''name'' 30 ''description'' at c
      else if p_type c = UPLOAD_PHOTO then field_body ''title'' at c
      else if p_type c = CHAT then chat_body at c
      else if p_type c = SHARE then share_body at c
      else Some c)"

definition on_body :: "string \<Rightarrow> nat \<Rightarrow> http_state \<Rightarrow> (int \<times> http_state) option" where
  "on_body at len hs = do {
     let c = hs_c_info hs;
     u0 \<leftarrow> bat (user_id c) 0;
     u \<leftarrow> (if u0 = NUL then scan_field ''__user'' at (user_id c) else Some (user_id c));
     c1 \<leftarrow> body_fields at (c\<lparr>user_id := u\<rparr>);
     Some (0, hs\<lparr>hs_c_info := c1, hs_con_len := int len\<rparr>) }"

section \<open>A request\<close>

datatype http_event = OnUrl nat nat | OnHeaderField nat nat | OnHeaderValue nat nat | OnBody nat nat

fun http_callback :: "string \<Rightarrow> http_event \<Rightarrow> http_state \<Rightarrow> (int \<times> http_state) option" where
  "http_callback data (OnUrl off len) hs = on_url (drop off data) len hs"
| "http_callback data (OnHeaderField off len) hs = on_header_field (drop off data) hs"
| "http_callback data (OnHeaderValue off len) hs = on_header_value (drop off data) len hs"
| "http_callback data (OnBody off len) hs = on_body (drop off data) len hs"

fun run_callbacks :: "string \<Rightarrow> (http_event \<times> nat) list \<Rightarrow> nat \<Rightarrow> http_state \<Rightarrow> (nat \<times> http_state) option" where
  \<comment> \<open>the method number at the end, and the state\<close>
  "run_callbacks data [] m hs = Some (m, hs)"
| "run_callbacks data ((ev, k) # evs) m hs = do {
     (r, hs1) \<leftarrow> http_callback data ev hs;
     (if r \<noteq> 0 then Some (k, hs1) else run_callbacks data evs m hs1) }"

definition new_http_state :: http_state where
  "new_http_state = \<lparr>hs_c_info = init_c_info, hs_GET_test = None, hs_storage = None, hs_field_type = 0,
     hs_con_len = 0, hs_content_length = 0\<rparr>"

type_synonym http_grammar = "string \<Rightarrow> (http_event \<times> nat) list \<times> nat"

definition processhttp :: "http_grammar \<Rightarrow> string \<Rightarrow> connection_info option option" where
  \<comment> \<open>the inner \<open>None\<close> is the null pointer; 3 is \<open>POST\<close>\<close>
  "processhttp grammar data = do {
     let (evs, m) = grammar data;
     (method, hs) \<leftarrow> run_callbacks data evs m new_http_state;
     (if hs_content_length hs \<noteq> hs_con_len hs \<and> method = 3 \<and> length data < 4096 then Some None
      else Some (Some (hs_c_info hs))) }"

section \<open>The fields stay terminated\<close>

text \<open>What holds of a result if there is one, and the rules that compute it backwards.\<close>

definition ensures :: "('a \<Rightarrow> bool) \<Rightarrow> 'a option \<Rightarrow> bool" where
  "ensures P m \<longleftrightarrow> (\<forall>x. m = Some x \<longrightarrow> P x)"

lemma ensures_simps [simp]: "ensures P (Some x) \<longleftrightarrow> P x" "ensures P None"
  by (simp_all add: ensures_def)

lemma ensures_bind: "ensures (\<lambda>x. ensures P (f x)) m \<Longrightarrow> ensures P (m \<bind> f)"
  by (auto simp: ensures_def bind_Some_iff)

lemma ensures_any: "(\<And>x. P x) \<Longrightarrow> ensures P m"
  by (simp add: ensures_def)

lemma ensures_rule: "ensures Q m \<Longrightarrow> (\<And>x. Q x \<Longrightarrow> P x) \<Longrightarrow> ensures P m"
  by (auto simp: ensures_def)

definition terminated :: "char list \<Rightarrow> bool" where
  "terminated b \<longleftrightarrow> b \<noteq> [] \<and> last b = NUL"

definition kept :: "char list \<Rightarrow> char list \<Rightarrow> bool" where
  "kept b b' \<longleftrightarrow> terminated b' \<and> length b' = length b"

named_theorems wp \<comment> \<open>backward rules for the operations on buffers\<close>

lemma terminated_NUL: "terminated b \<Longrightarrow> NUL \<in> set b"
  unfolding terminated_def by (metis last_in_set)

lemma memcpy_kept: "terminated b \<Longrightarrow> ensures (kept b) (memcpy b off (s @ [NUL]))"
  by (auto simp: ensures_def memcpy_def terminated_def kept_def last_append split: if_splits)

lemma kept_wp: "terminated b \<Longrightarrow> (terminated b \<Longrightarrow> ensures (kept b) m) \<Longrightarrow>
   (\<And>x. terminated x \<Longrightarrow> length x = length b \<Longrightarrow> P x) \<Longrightarrow> ensures P m"
  by (auto simp: ensures_def kept_def)

lemma put_str_kept: "terminated b \<Longrightarrow> ensures (kept b) (put_str s b)"
  unfolding put_str_def by (rule memcpy_kept)

lemma clear_kept: "terminated b \<Longrightarrow> ensures (kept b) (memcpy b 0 [NUL])"
  using memcpy_kept [of b 0 "[]"] by simp

lemma put_short_kept: "terminated b \<Longrightarrow> ensures (kept b) (put_short k s b)"
  by (simp add: put_short_def put_str_kept clear_kept)

lemma strcat_kept: "terminated b \<Longrightarrow> ensures (kept b) (strcat_buf s b)"
  unfolding strcat_buf_def by (rule ensures_bind, rule ensures_any, rule memcpy_kept)

lemmas [wp] = ensures_any [where m = "nine_bytes s" for s] ensures_any [where m = "strchr s c" for s c]
  ensures_any [where m = "buf_str b" for b] ensures_any [where m = "bat b i" for b i] ensures_any [where m = "atoi s" for s]
  ensures_any [where m = "readURLField u f" for u f] ensures_any [where m = "hs_GET_test hs" for hs]

lemmas [wp] = kept_wp [OF _ put_str_kept] kept_wp [OF _ clear_kept] kept_wp [OF _ put_short_kept]
  kept_wp [OF _ strcat_kept]

lemma decode_loop_field:
  "decode_loop b i j = Some (b', k) \<Longrightarrow> terminated b \<Longrightarrow> i \<le> j \<Longrightarrow> kept b b'"
proof (induction b i j rule: decode_loop.induct)
  case (1 b i j)
  have upd: "kept b (b[i := NUL])" using 1(5) by (auto simp: kept_def terminated_def last_list_update)
  have keep: "kept b (b[i := x])" if "bat b m = Some y" "y \<noteq> NUL" "i \<le> m" for m x y
  proof -
    have "m < length b" "b ! m \<noteq> NUL" using that by (auto simp: bat_def split: if_splits)
    then have "i \<noteq> length b - 1" using 1(5) that(3) by (cases "m = length b - 1") (auto simp: kept_def terminated_def last_conv_nth)
    then show ?thesis using 1(5) by (simp add: kept_def terminated_def last_list_update)
  qed
  obtain c where c: "bat b j = Some c" using 1(4) by (cases "bat b j") (auto simp: decode_loop.simps [of b i j])
  show ?case
  proof (cases "ISQSCHR c")
    case False
    then show ?thesis using 1(4) c upd by (auto simp: decode_loop.simps [of b i j])
  next
    case q: True
    then have c0: "c \<noteq> NUL" by (simp add: ISQSCHR_def)
    consider "c = CHR ''+''" | "c = CHR ''%''" | "c \<noteq> CHR ''+''" "c \<noteq> CHR ''%''" by blast
    then show ?thesis
    proof cases
      case 1
      then show ?thesis using "1.IH"(1) [OF c] "1.prems" q c keep [OF c c0] by (simp add: decode_loop.simps [of b i j] kept_def)
    next
      case 3
      then show ?thesis using "1.IH"(3) [OF c] "1.prems" q c keep [OF c c0] by (simp add: decode_loop.simps [of b i j] kept_def)
    next
      case 2
      obtain h where h: "bat b (j + 1) = Some h" using 1(4) c q 2
        by (cases "bat b (j + 1)") (auto simp: decode_loop.simps [of b i j])
      show ?thesis
      proof (cases "ISHEX h")
        case False
        then show ?thesis using "1.prems" c q 2 h upd by (auto simp: decode_loop.simps [of b i j])
      next
        case hx: True
        obtain l where l: "bat b (j + 2) = Some l" using "1.prems" c q 2 h hx
          by (cases "bat b (j + 2)") (auto simp: decode_loop.simps [of b i j])
        show ?thesis
        proof (cases "ISHEX l")
          case False
          then show ?thesis using "1.prems" c q 2 h hx l upd by (auto simp: decode_loop.simps [of b i j])
        next
          case True
          then show ?thesis using "1.IH"(2) [OF c _ _ 2 h _ l] "1.prems" c q 2 h hx l keep [OF c c0]
            by (simp add: decode_loop.simps [of b i j] kept_def)
        qed
      qed
    qed
  qed
qed

lemma memcpy_inside_wp:
  assumes "terminated b" "n < length b" "\<And>x. terminated x \<Longrightarrow> length x = length b \<Longrightarrow> P x"
  shows "ensures P (memcpy b 0 (take n xs))"
  using assms by (auto simp: terminated_def)

lemma qs_decode_wp:
  assumes "terminated b" "\<And>x n. terminated x \<Longrightarrow> length x = length b \<Longrightarrow> P (x, n)"
  shows "ensures P (qs_decode b 0)"
  using assms decode_loop_field [of b 0 0] by (auto simp: ensures_def qs_decode_def bind_Some_iff kept_def)

lemma scan_field_kept:
  assumes "terminated b"
  shows "ensures (kept b) (scan_field key at b)"
proof -
  have clr: "kept b (b[0 := NUL])" "kept b b" using assms by (auto simp: kept_def terminated_def last_list_update)
  have ne: "b \<noteq> []" using assms by (simp add: terminated_def)
  have qs: "ensures P (qs_scan key qs)" if "\<And>x. P x" for P qs using that by (rule ensures_any)
  have less: "\<not> length b - Suc 0 < Suc n \<Longrightarrow> Suc n < length b" for n using ne by (cases b) auto
  show ?thesis unfolding scan_field_def qs_scanvalue_def Let_def
    using ne assms clr
    by (auto simp del: memcpy_Some take_append simp: kept_def less intro!: ensures_bind wp qs memcpy_inside_wp qs_decode_wp)
qed

lemma scan_fields_kept: "terminated b \<Longrightarrow> ensures (kept b) (ofold (\<lambda>key. scan_field key at) keys b)"
proof (induction keys arbitrary: b)
  case (Cons key keys)
  show ?case using Cons
    by (auto intro!: ensures_bind kept_wp [OF _ scan_field_kept] ensures_rule [OF Cons.IH] simp: kept_def)
qed (simp add: kept_def)

lemmas [wp] = kept_wp [OF _ scan_field_kept] kept_wp [OF _ scan_fields_kept]

definition page_ok :: "int \<Rightarrow> bool" where
  "page_ok k \<longleftrightarrow> k \<in> {0, 2, 3, 4, 5, 6, 7, 8, 9, 13, 14, 19}"

definition c_info_fields :: "connection_info \<Rightarrow> bool" where
  "c_info_fields c \<longleftrightarrow> terminated (user_id c) \<and> length (user_id c) = 20 \<and> terminated (s_id c) \<and> length (s_id c) = 20 \<and>
     terminated (r_id c) \<and> length (r_id c) = 52 \<and> terminated (comment c) \<and> length (comment c) = 10000 \<and>
     terminated (c_url c) \<and> length (c_url c) = 512 \<and> page_ok (p_type c)"

lemma c_info_fields_ok: "c_info_fields c \<Longrightarrow> c_info_ok c"
  by (auto simp: c_info_fields_def c_info_ok_def dest: terminated_NUL)

lemmas page_consts = STATUS_def NOTE_def COMMENT_def PHOTO_def MEDIA_SET_def ADD_FRIEND_def EDIT_NOTE_def
  UPLOAD_PHOTO_def SHARE_def LIKE_def CHAT_def

lemma page_type_range [simp]: "page_ok (page_type path)" "page_ok 0"
  by (simp_all add: page_ok_def page_type_def page_consts)

lemma note_ids_fields: "c_info_fields c \<Longrightarrow> ensures c_info_fields (note_ids path c)"
  by (auto simp: note_ids_def c_info_fields_def Let_def split: option.splits intro!: ensures_bind wp)

lemma like_ids_fields: "c_info_fields c \<Longrightarrow> ensures c_info_fields (like_ids url c)"
  by (auto simp: like_ids_def c_info_fields_def split: option.splits intro!: ensures_bind wp)

lemma upload_ids_fields: "c_info_fields c \<Longrightarrow> ensures c_info_fields (upload_ids url c)"
  by (auto simp: upload_ids_def c_info_fields_def split: option.splits intro!: ensures_bind wp)

lemma url_parse_fields:
  assumes "c_info_fields (hs_c_info hs)"
  shows "ensures (\<lambda>hs1. c_info_fields (hs_c_info hs1)) (url_parse url hs)"
proof -
  have c1: "c_info_fields (c\<lparr>p_type := page_type url\<rparr>)" if "c_info_fields c" for c
    using that page_type_range by (simp add: c_info_fields_def)
  have ids: "ensures c_info_fields (if p_type c = NOTE then note_ids path c else if p_type c = LIKE then like_ids url c
      else if p_type c = UPLOAD_PHOTO then upload_ids url c else Some c)" if "c_info_fields c" for c path
    using that note_ids_fields like_ids_fields upload_ids_fields by simp
  have "ensures (\<lambda>(p, hs1). hs_c_info hs1 = hs_c_info hs) (url_path url hs)"
    by (auto simp: ensures_def url_path_def bind_Some_iff Let_def)
  then show ?thesis unfolding url_parse_def
  proof (intro ensures_bind, elim ensures_rule, clarify)
    fix p hs1 assume h: "hs_c_info hs1 = hs_c_info hs"
    let ?c1 = "if p_type (hs_c_info hs1) = 0 then (hs_c_info hs1)\<lparr>p_type := page_type url\<rparr> else hs_c_info hs1"
    have "c_info_fields ?c1" using h assms c1 by simp
    note ids [OF this]
    then have *: "ensures (\<lambda>hs1. c_info_fields (hs_c_info hs1)) (do {
        c2 \<leftarrow> (if p_type ?c1 = NOTE then note_ids path ?c1 else if p_type ?c1 = LIKE then like_ids url ?c1
               else if p_type ?c1 = UPLOAD_PHOTO then upload_ids url ?c1 else Some ?c1);
        Some (hs1\<lparr>hs_c_info := c2\<rparr>) })" for path
      by (intro ensures_bind) (simp split del: if_split)
    show "ensures (\<lambda>hs1. c_info_fields (hs_c_info hs1)) (if g_start p = g_end p then Some hs1
      else do {
        path \<leftarrow> readURLField url p;
        let c = hs_c_info hs1;
        let c1 = (if p_type c = 0 then c\<lparr>p_type := page_type url\<rparr> else c);
        c2 \<leftarrow> (if p_type c1 = NOTE then note_ids path c1
               else if p_type c1 = LIKE then like_ids url c1
               else if p_type c1 = UPLOAD_PHOTO then upload_ids url c1
               else Some c1);
        Some (hs1\<lparr>hs_c_info := c2\<rparr>) })"
    proof (cases "g_start p = g_end p")
      case False
      then show ?thesis unfolding Let_def if_not_P [OF False] by (intro ensures_bind ensures_any *)
    qed (simp add: h assms)
  qed
qed

lemma host_url_fields: "c_info_fields c \<Longrightarrow> ensures c_info_fields (host_url host hs c)"
proof -
  assume "c_info_fields c"
  moreover have "terminated (replicate 512 NUL)" by (simp add: terminated_def)
  ultimately show ?thesis unfolding host_url_def by (auto simp: c_info_fields_def intro!: ensures_bind wp)
qed

lemma cookie_id_fields: "c_info_fields c \<Longrightarrow> ensures c_info_fields (cookie_id at c)"
  by (auto simp: cookie_id_def c_info_fields_def split: option.splits intro!: ensures_bind wp)

lemma body_fields_fields: "c_info_fields c \<Longrightarrow> ensures c_info_fields (body_fields at c)"
proof -
  assume c: "c_info_fields c"
  have post: "terminated (replicate 100000 NUL)" by (simp add: terminated_def)
  have new: "ensures P (scan_new key at n)" if "\<And>x. P x" for P key n using that by (rule ensures_any)
  note defs = comment_body_def friend_body_def titled_body_def field_body_def chat_body_def share_body_def
  have share: "ensures (kept b) (share_text p b)" "ensures (kept b) (share_id p b)" if "terminated b" for b p
    using that by (auto simp: share_text_def share_id_def Let_def kept_def [of b b] put_str_kept clear_kept split: option.splits)
  note share_wp = kept_wp [OF _ share(1)] kept_wp [OF _ share(2)]
  have "ensures c_info_fields (comment_body at c)" "ensures c_info_fields (friend_body at c)"
    "ensures c_info_fields (titled_body k n w at c)" "ensures c_info_fields (field_body w at c)"
    "ensures c_info_fields (chat_body at c)" "ensures c_info_fields (share_body at c)" for k n w
    using c post unfolding defs c_info_fields_def
    by (auto split: option.splits intro!: ensures_bind new wp share_wp)
  then show ?thesis using c by (simp add: body_fields_def)
qed

lemma http_callback_fields:
  assumes "c_info_fields (hs_c_info hs)"
  shows "ensures (\<lambda>(r, hs1). c_info_fields (hs_c_info hs1)) (http_callback data ev hs)"
proof -
  have url: "ensures P (url_parse u h)" if "c_info_fields (hs_c_info h)" "\<And>x. c_info_fields (hs_c_info x) \<Longrightarrow> P x" for P u h
    using ensures_rule [OF url_parse_fields [OF that(1)]] that(2) by blast
  have host: "ensures P (host_url w h c)" if "c_info_fields c" "\<And>x. c_info_fields x \<Longrightarrow> P x" for P w h c
    using ensures_rule [OF host_url_fields [OF that(1)]] that(2) by blast
  have cookie: "ensures P (cookie_id w c)" if "c_info_fields c" "\<And>x. c_info_fields x \<Longrightarrow> P x" for P w c
    using ensures_rule [OF cookie_id_fields [OF that(1)]] that(2) by blast
  have body: "ensures P (body_fields w c)" if "c_info_fields c" "\<And>x. c_info_fields x \<Longrightarrow> P x" for P w c
    using ensures_rule [OF body_fields_fields [OF that(1)]] that(2) by blast
  have memcpy: "ensures P (memcpy b 0 xs)" if "\<And>x. P x" for P b xs using that by (rule ensures_any)
  have uid: "c_info_fields (c\<lparr>user_id := u\<rparr>)" if "c_info_fields c" "terminated u" "length u = length (user_id c)" for c u
    using that by (simp add: c_info_fields_def)
  have trm: "terminated (user_id c)" if "c_info_fields c" for c using that by (simp add: c_info_fields_def)
  show ?thesis
    using assms by (cases ev)
      (auto simp: on_url_def on_header_field_def on_header_value_def on_body_def Let_def trm uid
        simp del: memcpy_Some intro!: ensures_bind wp url host cookie body memcpy uid trm)
qed

lemma run_callbacks_fields:
  "c_info_fields (hs_c_info hs) \<Longrightarrow> ensures (\<lambda>(m, hs1). c_info_fields (hs_c_info hs1)) (run_callbacks data evs m hs)"
proof (induction evs arbitrary: hs)
  case (Cons e evs)
  show ?case
    using ensures_rule [OF http_callback_fields [OF Cons.prems]] Cons.IH
    by (cases e) (auto intro!: ensures_bind elim!: ensures_rule simp: case_prod_unfold)
qed simp

lemma processhttp_fields:
  assumes "processhttp grammar data = Some (Some c)"
  shows "c_info_fields c"
proof -
  obtain evs m where g: "grammar data = (evs, m)" by fastforce
  have "c_info_fields (hs_c_info new_http_state)"
    by (simp add: new_http_state_def init_c_info_def c_info_fields_def terminated_def)
  from run_callbacks_fields [OF this, of data evs m] assms show ?thesis
    by (auto simp: processhttp_def g bind_Some_iff ensures_def split: if_splits)
qed

section \<open>Forms\<close>

text \<open>A form as the body of a request: \<open>qs_text\<close> of its pairs.\<close>

definition plain_form :: "(string \<times> string) list \<Rightarrow> bool" where
  "plain_form ps \<longleftrightarrow> (\<forall>(k, w)\<in>set ps. key_plain k) \<and> ps \<noteq> []"

lemma scan_field_finds:
  assumes "plain_form ps" "key_plain key" "map_of ps key = Some w" "NUL \<notin> set w" "length (qs_encode w) + 2 \<le> length b"
  shows "\<exists>b'. scan_field key (qs_text ps) b = Some b' \<and> length b' = length b \<and> buf_str b' = Some w"
proof -
  have "query_prefix []" by (simp add: query_prefix_def)
  from scanvalue_finds [OF _ assms(2-4) this assms(5) refl, of "[]"] assms(1)
  show ?thesis by (auto simp: scan_field_def plain_form_def)
qed

lemma scan_field_misses:
  assumes "plain_form ps" "key_plain key" "map_of ps key = None"
  shows "scan_field key (qs_text ps) b = None"
proof -
  have "query_prefix []" by (simp add: query_prefix_def)
  from scanvalue_overrun [OF _ assms(2,3) _ this] assms(1) show ?thesis by (simp add: scan_field_def plain_form_def)
qed

lemma scan_fields_miss:
  assumes "plain_form ps" "\<forall>k\<in>set keys. key_plain k" "key \<in> set keys" "map_of ps key = None"
  shows "ofold (\<lambda>k. scan_field k (qs_text ps)) keys b = None"
  using assms(2,3)
proof (induction keys arbitrary: b)
  case (Cons k keys)
  then show ?case using scan_field_misses [OF assms(1) _ assms(4)] by (cases "k = key") (auto simp: bind_None_iff)
qed simp

lemma form_keys:
  "list_all key_plain [''c'', ''content'', ''comment'', ''body'', ''entryId'', ''id'', ''source'', ''entryOwnerId'', ''owner'',
     ''__user'', ''title'', ''why'', ''pubId'']"
  by (simp add: key_plain_def qs_plain_def ISQSCHR_def)

section \<open>Properties\<close>

text \<open>C30: what the callbacks leave in a \<open>connection_info\<close>. Whatever callbacks the parser makes, if the analysis
  of a request returns, each of the five fields has its size and ends with a terminator, and the page type is one of
  the eleven types that are told apart, or 0.\<close>

theorem processhttp_terminates_fields:
  assumes "processhttp grammar data = Some (Some c)"
  shows "c_info_ok c \<and> last (user_id c) = NUL \<and> last (s_id c) = NUL \<and> last (r_id c) = NUL \<and> last (comment c) = NUL \<and>
     last (c_url c) = NUL \<and> page_ok (p_type c)"
  using processhttp_fields [OF assms] c_info_fields_ok [of c] by (auto simp: c_info_fields_def terminated_def)

theorem processhttp_terminates_fields_witness:
  "\<exists>c. processhttp (\<lambda>data. ([(OnUrl 4 2, 1)], 1)) ''GET /x HTTP/1.1'' = Some (Some c) \<and> last (comment c) = NUL"
proof -
  have "parseURL ''/x'' no_fields = (0, no_fields\<lparr>u_path := \<lparr>g_start = 0, g_end = 2\<rparr>, u_query := \<lparr>g_start = 2, g_end = 2\<rparr>,
      u_authority := \<lparr>g_start = 0, g_end = 0\<rparr>, u_scheme := \<lparr>g_start = 0, g_end = 0\<rparr>, u_fragment := \<lparr>g_start = 2, g_end = 2\<rparr>\<rparr>)"
    by code_simp
  moreover have "page_type ''/x'' = 0" by code_simp
  moreover have "strstr ''/x HTTP/1.1'' ''HTTP/1.1'' = Some 3" by code_simp
  ultimately have "\<exists>hs. on_url ''/x HTTP/1.1'' 2 new_http_state = Some (0, hs) \<and> hs_con_len hs = 0 \<and> hs_content_length hs = 0"
    by (simp add: on_url_def url_parse_def url_path_def new_http_state_def readURLField_def init_c_info_def Let_def page_consts)
  then obtain hs where "on_url ''/x HTTP/1.1'' 2 new_http_state = Some (0, hs)" "hs_con_len hs = 0" "hs_content_length hs = 0"
    by blast
  then have "processhttp (\<lambda>data. ([(OnUrl 4 2, 1)], 1)) ''GET /x HTTP/1.1'' = Some (Some (hs_c_info hs))"
    by (simp add: processhttp_def)
  from processhttp_terminates_fields [OF this] this show ?thesis by blast
qed

text \<open>The text of a status update comes through. When the body of a request of that type is a form with a field
  \<open>content\<close>, and the sender is known, the callback stores the decoded text, and nothing else changes.\<close>

lemma status_text_roundtrip:
  assumes "p_type (hs_c_info hs) = STATUS" "c_info_ok (hs_c_info hs)" "cstr (user_id (hs_c_info hs)) \<noteq> []"
    and "plain_form ps" "map_of ps ''content'' = Some w" "NUL \<notin> set w" "length (qs_encode w) \<le> 9998"
  shows "\<exists>t. on_body (qs_text ps) len hs =
      Some (0, hs\<lparr>hs_c_info := (hs_c_info hs)\<lparr>comment := t\<rparr>, hs_con_len := int len\<rparr>) \<and>
    length t = 10000 \<and> buf_str t = Some w"
proof -
  let ?c = "hs_c_info hs"
  have "bat (user_id ?c) 0 = Some (hd (user_id ?c))" "hd (user_id ?c) \<noteq> NUL"
    using assms(2,3) by (cases "user_id ?c"; auto simp: bat_def c_info_ok_def cstr_Cons)+
  moreover have "length (qs_encode w) + 2 \<le> length (comment ?c)" using assms(2,7) by (simp add: c_info_ok_def)
  then obtain t where "scan_field ''content'' (qs_text ps) (comment ?c) = Some t" "length t = length (comment ?c)"
    "buf_str t = Some w"
    using scan_field_finds [OF assms(4) _ assms(5,6)] form_keys by auto
  ultimately show ?thesis using assms(1,2)
    by (intro exI [of _ t]) (simp add: on_body_def body_fields_def field_body_def page_consts c_info_ok_def)
qed

definition sample_sender :: http_state where
  "sample_sender = new_http_state\<lparr>hs_c_info := init_c_info\<lparr>p_type := STATUS, user_id := zpad 20 ''12''\<rparr>\<rparr>"

lemma status_text_roundtrip_witness:
  "\<exists>hs. on_body ''content=hi+%26+you'' 18 sample_sender = Some (0, hs) \<and>
     buf_str (comment (hs_c_info hs)) = Some ''hi & you''"
proof -
  have "qs_text [(''content'', ''hi & you'')] = ''content=hi+%26+you''" "length (qs_encode ''hi & you'') = 10" by code_simp+
  moreover have "plain_form [(''content'', ''hi & you'')]" using form_keys by (simp add: plain_form_def)
  moreover have "c_info_ok (hs_c_info sample_sender)" "cstr (user_id (hs_c_info sample_sender)) = ''12''"
    by (simp_all add: sample_sender_def init_c_info_def c_info_ok_def zpad_def cstr_Cons)
  moreover have "p_type (hs_c_info sample_sender) = STATUS" by (simp add: sample_sender_def)
  ultimately show ?thesis
    using status_text_roundtrip [of sample_sender "[(''content'', ''hi & you'')]" "''hi & you''" 18] by fastforce
qed

text \<open>A comment whose form lacks any one of nine fields makes the analysis read behind the request: the look-up of
  the missing field steps over the terminator.\<close>

lemma comment_fields_required:
  assumes "p_type (hs_c_info hs) = COMMENT" "plain_form ps" "map_of ps key = None"
    and "key \<in> set [''c'', ''content'', ''comment'', ''body'', ''entryId'', ''id'', ''source'', ''entryOwnerId'', ''owner'']"
  shows "on_body (qs_text ps) len hs = None"
proof -
  let ?f = "\<lambda>keys. ofold (\<lambda>k. scan_field k (qs_text ps)) keys"
  have "comment_body (qs_text ps) c = None" for c
  proof -
    have "?f [''c'', ''content'', ''comment'', ''body''] (comment c) = None \<or>
        ?f [''entryId'', ''id'', ''source''] (r_id c) = None \<or> ?f [''entryOwnerId'', ''owner''] (s_id c) = None"
    proof -
      have "key \<in> set ([''c'', ''content'', ''comment'', ''body''] @ [''entryId'', ''id'', ''source''] @ [''entryOwnerId'', ''owner''])"
        using assms(4) by (simp only: append.simps)
      then consider "key \<in> set [''c'', ''content'', ''comment'', ''body'']" | "key \<in> set [''entryId'', ''id'', ''source'']"
        | "key \<in> set [''entryOwnerId'', ''owner'']" unfolding set_append by blast
      then show ?thesis
      proof cases
        case 1
        with scan_fields_miss [OF assms(2) _ 1 assms(3)] form_keys show ?thesis by (simp del: ofold.simps)
      next
        case 2
        with scan_fields_miss [OF assms(2) _ 2 assms(3)] form_keys show ?thesis by (simp del: ofold.simps)
      next
        case 3
        with scan_fields_miss [OF assms(2) _ 3 assms(3)] form_keys show ?thesis by (simp del: ofold.simps)
      qed
    qed
    then show ?thesis unfolding comment_body_def by (auto simp: bind_None_iff simp del: ofold.simps)
  qed
  then show ?thesis using assms(1) by (auto simp: on_body_def body_fields_def bind_None_iff Let_def)
qed

lemma comment_fields_required_witness:
  "on_body ''c=hello'' 7 (sample_sender\<lparr>hs_c_info := (hs_c_info sample_sender)\<lparr>p_type := COMMENT\<rparr>\<rparr>) = None"
proof -
  have "qs_text [(''c'', ''hello'')] = ''c=hello''" by code_simp
  moreover have "plain_form [(''c'', ''hello'')]" using form_keys by (simp add: plain_form_def)
  ultimately show ?thesis
    using comment_fields_required [of "sample_sender\<lparr>hs_c_info := (hs_c_info sample_sender)\<lparr>p_type := COMMENT\<rparr>\<rparr>"
        "[(''c'', ''hello'')]" "''owner''" 7] by simp
qed

text \<open>The URL that the black list of URLs is searched in is the host and the target of the request behind
  \<open>http://\<close>, provided it has at most 511 bytes; a longer one overruns its field.\<close>

lemma host_url_fits:
  assumes "hs_field_type hs = HOST" "hs_GET_test hs = Some g" "buf_str g = Some target" "NUL \<notin> set at" "len \<le> length at"
  shows "on_header_value at len hs =
    (if 7 + len + length target < 512
     then Some (0, hs\<lparr>hs_c_info := (hs_c_info hs)\<lparr>c_url := zpad 512 (''http://'' @ take len at @ target)\<rparr>\<rparr>) else None)"
proof -
  have t: "NUL \<notin> set target" using assms(3) by (auto simp: buf_str_def split: if_splits)
  have h: "NUL \<notin> set (take len at)" using assms(4) by (meson in_set_takeD)
  have cat: "strcat_buf s (zpad 512 u) = (if length u + length s < 512 then Some (zpad 512 (u @ s)) else None)"
    if "NUL \<notin> set u" "length u < 512" for s u
    using that by (simp add: strcat_buf_def del: memcpy_Some)
  have "host_url (take len at) hs c = (if 7 + len + length target < 512
     then Some (c\<lparr>c_url := zpad 512 (''http://'' @ take len at @ target)\<rparr>) else None)" for c
    using assms(2,3,5) t h cat [of "[]"] by (auto simp: host_url_def cat zpad_Nil [symmetric] simp del: append_assoc)
  then show ?thesis using assms(1) by (simp add: on_header_value_def Let_def)
qed

lemma host_url_fits_witness:
  "on_header_value (''a.b'' @ replicate 600 (CHR ''x'')) 603
     (sample_sender\<lparr>hs_field_type := HOST, hs_GET_test := Some (zpad 512 ''/p'')\<rparr>) = None"
  using host_url_fits [of "sample_sender\<lparr>hs_field_type := HOST, hs_GET_test := Some (zpad 512 ''/p'')\<rparr>" "zpad 512 ''/p''" "''/p''"
      "''a.b'' @ replicate 600 (CHR ''x'')" 603] by simp

lemma hex_value_digit:
  assumes "ISHEX c"
  shows "hex_value c = int (HEX2DEC c)"
proof -
  define n where "n = (of_char c :: nat)"
  have n: "(of_char c :: int) = int n" "of_char c = n" by (simp_all only: n_def of_nat_of_char)
  note defs = hex_value_def HEX2DEC_def less_eq_char_def Let_def n
  consider "48 \<le> n" "n \<le> 57" | "65 \<le> n" "n \<le> 70" | "97 \<le> n" "n \<le> 102"
    using assms by (auto simp: ISHEX_def less_eq_char_def n(2))
  then show ?thesis
  proof cases
    case 1
    then have "HEX2DEC c = n - 48" "hex_value c = int n - 48" by (simp_all add: defs)
    then show ?thesis using 1 by simp
  next
    case 2
    then have "(int n - 64) mod 64 = int n - 64" by (intro mod_pos_pos_trivial) simp_all
    then have "int n mod 64 = int n - 64" by simp
    then have "hex_value c = int n - 55" using 2 by (simp add: hex_value_def Let_def n(1))
    moreover have "HEX2DEC c = n - 55" using 2 by (simp add: defs)
    ultimately show ?thesis using 2 by simp
  next
    case 3
    then have "(int n - 64) mod 64 = int n - 64" by (intro mod_pos_pos_trivial) simp_all
    then have "int n mod 64 = int n - 64" by simp
    then have "hex_value c = int n - 87" using 3 by (simp add: hex_value_def Let_def n(1))
    moreover have "HEX2DEC c = n - 87" using 3 by (simp add: defs)
    ultimately show ?thesis using 3 by simp
  qed
qed

lemma hex_char_value: "ISHEX h \<Longrightarrow> ISHEX l \<Longrightarrow> char_of (16 * hex_value h + hex_value l) = hex_char h l"
proof -
  assume "ISHEX h" "ISHEX l"
  then have "16 * hex_value h + hex_value l = int (HEX2DEC h * 16 + HEX2DEC l)" by (simp add: hex_value_digit)
  then show ?thesis by (simp only: hex_char_def char_of_nat)
qed

text \<open>The two decoders of URL-encoded text agree. On a text without delimiters whose escapes are complete,
  \<open>urldecode_my\<close> and \<open>qs_decode\<close> give the same bytes.\<close>

lemma url_decoders_agree:
  assumes "escaped s" "NUL \<notin> set s"
  shows "\<exists>w buf. urldecode_my (s @ [NUL]) = Some w \<and> qs_decode (s @ [NUL]) 0 = Some (buf, length w) \<and>
     take (length w + 1) buf = w @ [NUL]"
proof -
  have "urldecode_my (s @ [NUL]) = Some (unescape s)"
    using assms
  proof (induction s rule: unescape.induct)
    case (2 c s)
    then show ?case by (cases "c = CHR ''%''") (auto simp: hex_char_value split: list.splits)
  qed simp
  moreover obtain buf where "decode_loop (s @ [NUL]) 0 0 = Some (buf, length (unescape s))"
    "take (length (unescape s) + 1) buf = unescape s @ [NUL]"
    using decode_loop_escaped [of 0 "s @ [NUL]" "[]" 0 s NUL "[]"] assms(1) by (auto simp: ISQSCHR_def)
  ultimately show ?thesis by (simp add: qs_decode_def)
qed

lemma url_decoders_agree_witness:
  "\<exists>buf. urldecode_my (''a%26b+c'' @ [NUL]) = Some ''a&b c'' \<and> qs_decode (''a%26b+c'' @ [NUL]) 0 = Some (buf, 5)"
proof -
  have "escaped ''a%26b+c''" by code_simp
  from url_decoders_agree [OF this] obtain w buf where
    "urldecode_my (''a%26b+c'' @ [NUL]) = Some w" "qs_decode (''a%26b+c'' @ [NUL]) 0 = Some (buf, length w)" by auto
  moreover have "urldecode_my (''a%26b+c'' @ [NUL]) = Some ''a&b c''" by code_simp
  ultimately show ?thesis by auto
qed

end
