(* ===== verification/Pass.thy ===== *)
theory Pass
  imports Verdict HttpParse
begin

text \<open>
  A pass of the polling loop with the analysis of its requests: from the segments of a stream to
  the mark that makes the capture thread cut it.
\<close>

section \<open>The requests of a pass\<close>





section \<open>Properties\<close>






lemma put_str_zeroed [simp]: "length s < n \<Longrightarrow> put_str s (replicate n NUL) = Some (zpad n s)"
  by (simp add: put_str_def del: memcpy_Some)




end
