(* ===== verification/MysqlConn.thy ===== *)
theory MysqlConn
  imports FilterSpec
begin

text \<open>
  \<^verbatim>\<open>mysql_conn.c\<close>: the rules in the eight tables of the configuration database, read once at the
  start (\<open>load_all_config\<close>) and then every five seconds (\<open>load_config\<close>) for the rows behind the
  highest id seen of each table.

  The database is a parameter: \<open>connect\<close> tells whether the connection is made, and a query gives its rows,
  \<open>None\<close> when it fails.  \<open>sel t None\<close> stands for \<open>SELECT * FROM t ORDER BY id\<close>,
  \<open>sel t (Some k)\<close> for the same with \<open>WHERE id > k\<close>.  A column is \<open>None\<close> when it is
  null in the database, and then reading it is undefined.
\<close>

section \<open>Tables and rows\<close>

datatype config_table =
    content_monitor_config | content_block_config | user_block_config | user_monitor_config
  | resource_block_config | resource_monitor_config | url_monitor_config | url_block_config

type_synonym config_row = "string option list"

type_synonym config_query = "config_table \<Rightarrow> int option \<Rightarrow> config_row list option"

record database_waterline =
  content_monitor_config_waterline :: int
  content_block_config_waterline :: int
  resource_monitor_config_waterline :: int
  resource_block_config_waterline :: int
  url_monitor_config_waterline :: int
  url_block_config_waterline :: int
  user_block_config_waterline :: int
  user_monitor_config_waterline :: int

definition init_database_waterline :: database_waterline where
  "init_database_waterline = \<lparr>content_monitor_config_waterline = -1, content_block_config_waterline = -1,
     resource_monitor_config_waterline = -1, resource_block_config_waterline = -1,
     url_monitor_config_waterline = -1, url_block_config_waterline = -1,
     user_block_config_waterline = -1, user_monitor_config_waterline = -1\<rparr>"

fun waterline :: "config_table \<Rightarrow> database_waterline \<Rightarrow> int" where
  "waterline content_monitor_config w = content_monitor_config_waterline w"
| "waterline content_block_config w = content_block_config_waterline w"
| "waterline user_block_config w = user_block_config_waterline w"
| "waterline user_monitor_config w = user_monitor_config_waterline w"
| "waterline resource_block_config w = resource_block_config_waterline w"
| "waterline resource_monitor_config w = resource_monitor_config_waterline w"
| "waterline url_monitor_config w = url_monitor_config_waterline w"
| "waterline url_block_config w = url_block_config_waterline w"

fun set_waterline :: "config_table \<Rightarrow> int \<Rightarrow> database_waterline \<Rightarrow> database_waterline" where
  "set_waterline content_monitor_config k w = w\<lparr>content_monitor_config_waterline := k\<rparr>"
| "set_waterline content_block_config k w = w\<lparr>content_block_config_waterline := k\<rparr>"
| "set_waterline user_block_config k w = w\<lparr>user_block_config_waterline := k\<rparr>"
| "set_waterline user_monitor_config k w = w\<lparr>user_monitor_config_waterline := k\<rparr>"
| "set_waterline resource_block_config k w = w\<lparr>resource_block_config_waterline := k\<rparr>"
| "set_waterline resource_monitor_config k w = w\<lparr>resource_monitor_config_waterline := k\<rparr>"
| "set_waterline url_monitor_config k w = w\<lparr>url_monitor_config_waterline := k\<rparr>"
| "set_waterline url_block_config k w = w\<lparr>url_block_config_waterline := k\<rparr>"

definition col :: "config_row \<Rightarrow> nat \<Rightarrow> string option" where
  \<comment> \<open>\<open>row[i]\<close> as a string\<close>
  "col row i = (if i < length row then row ! i else None)"

definition is_valid :: "string \<Rightarrow> bool" where "is_valid state \<longleftrightarrow> starts state (CHR ''1'')"
definition is_up :: "string \<Rightarrow> bool" where "is_up direction \<longleftrightarrow> starts direction (CHR ''1'')"
definition is_renren :: "string \<Rightarrow> bool" where "is_renren site \<longleftrightarrow> starts site (CHR ''1'')"

definition raise_waterline :: "config_table \<Rightarrow> config_row \<Rightarrow> database_waterline \<Rightarrow> database_waterline option" where
  "raise_waterline t row w = do {
     s \<leftarrow> col row 0;
     k \<leftarrow> atoi s;
     Some (if k > waterline t w then set_waterline t k w else w) }"

section \<open>The rules of a row\<close>

definition user_rule :: "config_row \<Rightarrow> string option" where
  \<comment> \<open>\<open>char user_rule[256]\<close>\<close>
  "user_rule row = do {
     user \<leftarrow> col row 2;
     action \<leftarrow> col row 3;
     b \<leftarrow> memcpy (replicate 256 NUL) 0 user;
     b \<leftarrow> append_field '' '' b;
     b \<leftarrow> append_field action b;
     b \<leftarrow> append_field '' '' b;
     b \<leftarrow> append_field ''*'' b;
     buf_str b }"

definition resource_rule :: "config_row \<Rightarrow> string option" where
  "resource_rule row = do {
     resource \<leftarrow> col row 2;
     action \<leftarrow> col row 3;
     b \<leftarrow> memcpy (replicate 256 NUL) 0 ''* '';
     b \<leftarrow> append_field action b;
     b \<leftarrow> append_field '' '' b;
     b \<leftarrow> append_field resource b;
     buf_str b }"

definition enable_content_monitor :: "config_row \<Rightarrow> filter_state \<Rightarrow> filter_state option" where
  "enable_content_monitor row fs = do {
     keyword \<leftarrow> col row 2;
     fs \<leftarrow> filter_add_rule_N keyword fs;
     direction \<leftarrow> col row 9;
     (if \<not> is_up direction then add_down_keyword False keyword fs else Some fs) }"

definition enable_content_block :: "config_row \<Rightarrow> filter_state \<Rightarrow> filter_state option" where
  "enable_content_block row fs = do {
     direction \<leftarrow> col row 9;
     keyword \<leftarrow> col row 2;
     (if is_up direction then filter_add_rule keyword fs else add_down_keyword True keyword fs) }"

definition enable_row :: "config_table \<Rightarrow> config_row \<Rightarrow> filter_state \<Rightarrow> filter_state option" where
  \<comment> \<open>a valid row\<close>
  "enable_row t row fs = (case t of
     content_monitor_config \<Rightarrow> enable_content_monitor row fs
   | content_block_config \<Rightarrow> enable_content_block row fs
   | user_block_config \<Rightarrow> do { r \<leftarrow> user_rule row; on_trie (insert_for_userid r) fs }
   | resource_block_config \<Rightarrow> do { r \<leftarrow> resource_rule row; on_trie (insert_for_resourceid r) fs }
   | url_block_config \<Rightarrow> do { u \<leftarrow> col row 2; on_matchers (\<lambda>m. addurl m u) fs }
   | _ \<Rightarrow> Some fs)"

definition disable_row :: "config_table \<Rightarrow> config_row \<Rightarrow> filter_state \<Rightarrow> filter_state option" where
  \<comment> \<open>an invalid row that appears later\<close>
  "disable_row t row fs = (case t of
     content_monitor_config \<Rightarrow> do { keyword \<leftarrow> col row 2; filter_del_rule_N keyword fs }
   | content_block_config \<Rightarrow> do { keyword \<leftarrow> col row 2; fs \<leftarrow> filter_del_rule keyword fs; filter_del_str keyword fs }
   | user_block_config \<Rightarrow> do { r \<leftarrow> user_rule row; on_trie (del r) fs }
   | resource_block_config \<Rightarrow> do { r \<leftarrow> resource_rule row; on_trie (del r) fs }
   | url_block_config \<Rightarrow> do { u \<leftarrow> col row 2; on_matchers (\<lambda>m. delurl m u) fs }
   | _ \<Rightarrow> Some fs)"

definition website_col :: "config_table \<Rightarrow> nat" where
  "website_col t = (if t \<in> set [content_monitor_config, content_block_config, url_monitor_config, url_block_config] then 8 else 9)"

definition state_col :: "config_table \<Rightarrow> nat" where
  "state_col t = (if t \<in> set [url_monitor_config, url_block_config] then 9 else 10)"

section \<open>Loading\<close>

type_synonym config_state = "database_waterline \<times> filter_state"

definition load_row :: "config_table \<Rightarrow> config_row \<Rightarrow> config_state \<Rightarrow> config_state option" where
  \<comment> \<open>one iteration of a loop of \<open>load_all_config\<close>\<close>
  "load_row t row = (\<lambda>(w, fs). do {
     w \<leftarrow> raise_waterline t row w;
     state \<leftarrow> col row (state_col t);
     (if \<not> is_valid state then Some (w, fs)
      else do {
        site \<leftarrow> col row (website_col t);
        (if \<not> is_renren site then Some (w, fs)
         else do { fs \<leftarrow> enable_row t row fs; Some (w, fs) }) }) })"

definition update_row :: "config_table \<Rightarrow> config_row \<Rightarrow> config_state \<Rightarrow> config_state option" where
  \<comment> \<open>one iteration of a loop of \<open>load_config\<close>; for the tables without an effect the order of the checks does not matter
      except when a column is null\<close>
  "update_row t row = (\<lambda>(w, fs). do {
     w \<leftarrow> raise_waterline t row w;
     (if t \<in> set [user_monitor_config, resource_monitor_config, url_monitor_config]
      then do {
        state \<leftarrow> col row (state_col t);
        site \<leftarrow> (if is_valid state then col row (website_col t) else Some []);
        Some (w, fs) }
      else do {
        site \<leftarrow> col row (website_col t);
        (if \<not> is_renren site then Some (w, fs)
         else do {
           state \<leftarrow> col row (state_col t);
           fs \<leftarrow> (if is_valid state then enable_row t row fs else disable_row t row fs);
           Some (w, fs) }) }) })"

definition config_tables :: "config_table list" where
  \<comment> \<open>in the order in which both functions read them\<close>
  "config_tables = [content_monitor_config, content_block_config, user_block_config, user_monitor_config,
     resource_block_config, resource_monitor_config, url_monitor_config, url_block_config]"

fun load_tables ::
  "(config_table \<Rightarrow> config_row \<Rightarrow> config_state \<Rightarrow> config_state option) \<Rightarrow> (config_table \<Rightarrow> config_state \<Rightarrow> config_row list option) \<Rightarrow>
   config_table list \<Rightarrow> config_state \<Rightarrow> (bool \<times> config_state) option" where
  \<comment> \<open>whether all queries succeeded, and what has been loaded by then\<close>
  "load_tables step rows [] s = Some (True, s)"
| "load_tables step rows (t # ts) s = (case rows t s of
     None \<Rightarrow> Some (False, s)
   | Some rs \<Rightarrow> do { s1 \<leftarrow> ofold (step t) rs s; load_tables step rows ts s1 })"

definition load_all_config :: "bool \<Rightarrow> config_query \<Rightarrow> filter_state \<Rightarrow> (database_waterline option \<times> filter_state) option" where
  \<comment> \<open>\<open>None\<close> in the result is the null pointer\<close>
  "load_all_config connect sel fs =
     (if \<not> connect then Some (None, fs)
      else do {
        (ok, w, fs1) \<leftarrow> load_tables load_row (\<lambda>t s. sel t None) config_tables (init_database_waterline, fs);
        Some (if ok then Some w else None, fs1) })"

type_synonym timer_state = "database_waterline option \<times> filter_state"

definition load_config_once :: "bool \<Rightarrow> config_query \<Rightarrow> timer_state \<Rightarrow> (bool \<times> timer_state) option" where
  \<comment> \<open>one round of the endless loop of \<open>load_config\<close>, and whether there is a next one; the null pointer of a failed
      \<open>load_all_config\<close> is dereferenced for the first query\<close>
  "load_config_once connect sel = (\<lambda>(arg, fs).
     if \<not> connect then Some (False, arg, fs)
     else do {
       w \<leftarrow> arg;
       (ok, w, fs) \<leftarrow> load_tables update_row (\<lambda>t (w, fs). sel t (Some (waterline t w))) config_tables (w, fs);
       Some (ok, Some w, fs) })"

fun load_config :: "(bool \<times> config_query) list \<Rightarrow> timer_state \<Rightarrow> (bool \<times> timer_state) option" where
  \<comment> \<open>the thread, for as many rounds as the list has, and whether it still runs\<close>
  "load_config [] s = Some (True, s)"
| "load_config ((connect, sel) # rs) s = do {
     (go, s) \<leftarrow> load_config_once connect sel s;
     (if go then load_config rs s else Some (False, s)) }"

definition create_rule_timer_thread ::
  "bool \<Rightarrow> config_query \<Rightarrow> (bool \<times> config_query) list \<Rightarrow> filter_state \<Rightarrow> (bool \<times> timer_state) option" where
  \<comment> \<open>\<open>main.c\<close>\<close>
  "create_rule_timer_thread connect sel rs fs = do {
     s \<leftarrow> load_all_config connect sel fs;
     load_config rs s }"

section \<open>Rows as commands\<close>

definition row_id :: "config_row \<Rightarrow> int" where
  "row_id row = the (atoi (the (col row 0)))"

definition row_command :: "config_table \<Rightarrow> bool \<Rightarrow> config_row \<Rightarrow> command option" where
  "row_command t on row =
     (let arg = (\<lambda>i. the (col row i)); d = (if is_up (arg 9) then Upstream else Downstream) in
      case t of
        content_monitor_config \<Rightarrow> Some (MonitorRule on d (arg 2))
      | content_block_config \<Rightarrow> Some (BlockRule on d (arg 2))
      | user_block_config \<Rightarrow> Some (UserRule on (arg 2) (arg 3))
      | resource_block_config \<Rightarrow> Some (ResourceRule on (arg 2) (arg 3))
      | url_block_config \<Rightarrow> Some (UrlRule on (arg 2))
      | _ \<Rightarrow> None)"

definition used_cols :: "config_table \<Rightarrow> nat list" where
  "used_cols t = 0 # 2 # website_col t # 9 # state_col t #
     (if t \<in> set [user_block_config, user_monitor_config, resource_block_config, resource_monitor_config] then [3] else [])"

definition row_ok :: "config_table \<Rightarrow> config_row \<Rightarrow> bool" where
  "row_ok t row \<longleftrightarrow> (\<forall>i\<in>set (used_cols t). col row i \<noteq> None) \<and> atoi (the (col row 0)) \<noteq> None \<and>
     (is_renren (the (col row (website_col t))) \<longrightarrow>
        (\<forall>c. row_command t (is_valid (the (col row (state_col t)))) row = Some c \<longrightarrow> command_fits c))"

definition load_command :: "config_table \<Rightarrow> config_row \<Rightarrow> command option" where
  \<comment> \<open>what \<open>load_all_config\<close> does for a row\<close>
  "load_command t row =
     (if is_valid (the (col row (state_col t))) \<and> is_renren (the (col row (website_col t)))
      then row_command t True row else None)"

definition update_command :: "config_table \<Rightarrow> config_row \<Rightarrow> command option" where
  \<comment> \<open>what \<open>load_config\<close> does for a row\<close>
  "update_command t row =
     (if is_renren (the (col row (website_col t)))
      then row_command t (is_valid (the (col row (state_col t)))) row else None)"

definition run_command :: "command option \<Rightarrow> filter_spec \<Rightarrow> filter_spec option" where
  "run_command c sp = (case c of None \<Rightarrow> Some sp | Some c \<Rightarrow> spec_command c sp)"

lemma row_cols:
  assumes "row_ok t row"
  obtains k a d st site where "col row 0 = Some k" "col row 2 = Some a" "col row 9 = Some d"
    "col row (state_col t) = Some st" "col row (website_col t) = Some site"
    "t \<in> {user_block_config, resource_block_config} \<Longrightarrow> \<exists>b. col row 3 = Some b"
  using assms by (auto simp: row_ok_def used_cols_def)

lemma rule_buffers:
  assumes "rule_chars u" "rule_chars a" "length u + length a < 250" "col row 2 = Some u" "col row 3 = Some a"
  shows "user_rule row = Some (rule_string u a ''*'')" "resource_rule row = Some (rule_string ''*'' a u)"
proof -
  have nul: "NUL \<notin> set (u @ a)" using rule_chars_bar assms(1,2) by auto
  have "memcpy (replicate 256 NUL) 0 u = Some (zpad 256 u)" "memcpy (replicate 256 NUL) 0 ''* '' = Some (zpad 256 ''* '')"
    using assms(3) by simp_all
  then show "user_rule row = Some (rule_string u a ''*'')" "resource_rule row = Some (rule_string ''*'' a u)"
    using assms(3-5) nul by (simp_all add: user_rule_def resource_rule_def rule_string_def del: memcpy_zeroed memcpy_Some)
qed

lemma row_performs:
  assumes "row_ok t row" "is_renren (the (col row (website_col t)))" "is_valid (the (col row (state_col t))) = on"
  shows "(if on then enable_row t row fs else disable_row t row fs) =
    (case row_command t on row of None \<Rightarrow> Some fs | Some c \<Rightarrow> perform c fs)"
proof -
  obtain a d where c: "col row 2 = Some a" "col row 9 = Some d"
    "t \<in> {user_block_config, resource_block_config} \<Longrightarrow> \<exists>b. col row 3 = Some b"
    using row_cols [OF assms(1)] by metis
  let ?b = "the (col row 3)"
  have fits: "row_command t on row = Some k \<Longrightarrow> command_fits k" for k using assms unfolding row_ok_def by blast
  have buf: "user_rule row = Some (rule_string a ?b ''*'')" if "t = user_block_config"
    using fits that rule_buffers(1) [OF _ _ _ c(1), of ?b] c by (auto simp: row_command_def)
  have buf2: "resource_rule row = Some (rule_string ''*'' ?b a)" if "t = resource_block_config"
    using fits that rule_buffers(2) [OF _ _ _ c(1), of ?b] c by (auto simp: row_command_def)
  show ?thesis
    using c(1,2) buf buf2 by (cases t; cases "on")
      (auto simp: enable_row_def disable_row_def row_command_def enable_content_monitor_def enable_content_block_def
        intro!: Option.bind_cong)
qed

lemma row_refines:
  assumes "row_ok t row" "is_renren (the (col row (website_col t)))" "is_valid (the (col row (state_col t))) = on"
    and "filter_rel n fs sp" "n < 32768" "run_command (row_command t on row) sp = Some sp1"
  shows "\<exists>fs1. (if on then enable_row t row fs else disable_row t row fs) = Some fs1 \<and> filter_rel (Suc n) fs1 sp1"
proof (cases "row_command t on row")
  case None
  then show ?thesis using row_performs [OF assms(1-3)] assms(4,6) filter_rel_Suc by (auto simp: run_command_def)
next
  case (Some c)
  then have "command_fits c" using assms(1-3) unfolding row_ok_def by blast
  from perform_refines [OF assms(4) this assms(5)] show ?thesis
    using row_performs [OF assms(1-3)] assms(6) Some by (auto simp: run_command_def)
qed

section \<open>Waterlines\<close>

lemma waterline_set [simp]: "waterline u (set_waterline t k w) = (if u = t then k else waterline u w)"
  by (cases t; cases u) auto

lemma set_waterline_same [simp]: "set_waterline t (waterline t w) w = w"
  by (cases t) auto

lemma waterline_init [simp]: "waterline t init_database_waterline = -1"
  by (cases t) (simp_all add: init_database_waterline_def)

lemma raise_waterline_ok:
  assumes "row_ok t row"
  shows "raise_waterline t row w = Some (set_waterline t (max (waterline t w) (row_id row)) w)"
proof -
  obtain s where s: "col row 0 = Some s" using row_cols [OF assms] by metis
  then obtain k where "atoi s = Some k" using assms by (auto simp: row_ok_def)
  then show ?thesis using s by (simp add: raise_waterline_def row_id_def max_def)
qed

definition raise_all :: "(config_table \<times> config_row) list \<Rightarrow> database_waterline \<Rightarrow> database_waterline" where
  "raise_all = fold (\<lambda>(t, row) w. set_waterline t (max (waterline t w) (row_id row)) w)"

lemma raise_all_simps [simp]:
  "raise_all [] w = w"
  "raise_all ((t, row) # xs) w = raise_all xs (set_waterline t (max (waterline t w) (row_id row)) w)"
  "raise_all (xs @ ys) w = raise_all ys (raise_all xs w)"
  by (simp_all add: raise_all_def)

definition rows_of :: "config_table \<Rightarrow> (config_table \<times> config_row) list \<Rightarrow> config_row list" where
  "rows_of t xs = map snd (filter (\<lambda>x. fst x = t) xs)"

lemma rows_of_simps [simp]:
  "rows_of t [] = []" "rows_of t ((u, row) # xs) = (if u = t then row # rows_of t xs else rows_of t xs)"
  "rows_of t (xs @ ys) = rows_of t xs @ rows_of t ys"
  "rows_of t (map (Pair u) rs) = (if u = t then rs else [])"
  by (auto simp: rows_of_def filter_map o_def)

lemma waterline_raise_all: "waterline t (raise_all xs w) = fold max (map row_id (rows_of t xs)) (waterline t w)"
  by (induction xs arbitrary: w) (auto simp: max.commute)

lemma fold_max_Max: "fold max ks (k :: int) = Max (insert k (set ks))"
proof (induction ks arbitrary: k)
  case (Cons a ks)
  then show ?case by (cases "ks = []") (simp_all add: max.left_commute max.commute)
qed simp

section \<open>A pass over the tables\<close>

fun read_rows :: "(config_table \<Rightarrow> config_row list option) \<Rightarrow> config_table list \<Rightarrow> bool \<times> (config_table \<times> config_row) list" where
  \<comment> \<open>the rows up to the first query that fails\<close>
  "read_rows sel [] = (True, [])"
| "read_rows sel (t # ts) = (case sel t of
     None \<Rightarrow> (False, [])
   | Some rs \<Rightarrow> (let (ok, xs) = read_rows sel ts in (ok, map (Pair t) rs @ xs)))"

lemma read_rows_cong: "(\<And>t. t \<in> set ts \<Longrightarrow> sel t = sel1 t) \<Longrightarrow> read_rows sel ts = read_rows sel1 ts"
  by (induction ts) (auto split: option.splits)

definition run_rows :: "(config_table \<Rightarrow> config_row \<Rightarrow> command option) \<Rightarrow> (config_table \<times> config_row) list \<Rightarrow>
    filter_spec \<Rightarrow> filter_spec option" where
  "run_rows cmd = ofold (\<lambda>(t, row). run_command (cmd t row))"

locale config_step =
  fixes step :: "config_table \<Rightarrow> config_row \<Rightarrow> config_state \<Rightarrow> config_state option"
    and cmd :: "config_table \<Rightarrow> config_row \<Rightarrow> command option"
  assumes row_law: "row_ok t row \<Longrightarrow> filter_rel n fs sp \<Longrightarrow> n < 32768 \<Longrightarrow> run_command (cmd t row) sp = Some sp1 \<Longrightarrow>
    \<exists>fs1. step t row (w, fs) = Some (set_waterline t (max (waterline t w) (row_id row)) w, fs1) \<and> filter_rel (Suc n) fs1 sp1"
begin

lemma rows_law:
  assumes "\<forall>row\<in>set rs. row_ok t row" "filter_rel n fs sp" "n + length rs \<le> 32768"
    "run_rows cmd (map (Pair t) rs) sp = Some sp1"
  shows "\<exists>fs1. ofold (step t) rs (w, fs) = Some (raise_all (map (Pair t) rs) w, fs1) \<and> filter_rel (n + length rs) fs1 sp1"
  using assms
proof (induction rs arbitrary: n fs sp w)
  case (Cons row rs)
  then obtain sp0 where sp0: "run_command (cmd t row) sp = Some sp0" "run_rows cmd (map (Pair t) rs) sp0 = Some sp1"
    by (auto simp: run_rows_def bind_Some_iff)
  obtain fs0 where fs0: "step t row (w, fs) = Some (set_waterline t (max (waterline t w) (row_id row)) w, fs0)"
    "filter_rel (Suc n) fs0 sp0"
    using row_law [OF _ Cons.prems(2) _ sp0(1)] Cons.prems by fastforce
  show ?case using Cons.IH [OF _ fs0(2) _ sp0(2)] Cons.prems fs0(1) by simp
qed (simp add: run_rows_def)

lemma tables_law:
  assumes "read_rows (\<lambda>t. sel t (waterline t w)) ts = (ok, xs)" "distinct ts" "\<forall>(t, row)\<in>set xs. row_ok t row"
    "filter_rel n fs sp" "n + length xs \<le> 32768" "run_rows cmd xs sp = Some sp1"
  shows "\<exists>fs1. load_tables step (\<lambda>t (w, fs). sel t (waterline t w)) ts (w, fs) = Some (ok, raise_all xs w, fs1) \<and>
    filter_rel (n + length xs) fs1 sp1"
  using assms
proof (induction ts arbitrary: n fs sp w xs)
  case (Cons t ts)
  show ?case
  proof (cases "sel t (waterline t w)")
    case None
    then show ?thesis using Cons.prems by (simp add: run_rows_def)
  next
    case (Some rs)
    let ?w = "raise_all (map (Pair t) rs) w"
    obtain ys where ys: "read_rows (\<lambda>t. sel t (waterline t w)) ts = (ok, ys)" "xs = map (Pair t) rs @ ys"
      using Cons.prems(1) Some by (auto split: prod.splits)
    have same: "read_rows (\<lambda>t. sel t (waterline t ?w)) ts = (ok, ys)"
      using ys(1) Cons.prems(2) by (subst read_rows_cong [where ?sel1.0 = "\<lambda>t. sel t (waterline t w)"])
        (auto simp: waterline_raise_all)
    obtain sp0 where sp0: "run_rows cmd (map (Pair t) rs) sp = Some sp0" "run_rows cmd ys sp0 = Some sp1"
      using Cons.prems(6) ys(2) by (auto simp: run_rows_def ofold_append bind_Some_iff)
    have "\<forall>row\<in>set rs. row_ok t row" using Cons.prems(3) ys(2) by auto
    then obtain fs0 where fs0: "ofold (step t) rs (w, fs) = Some (?w, fs0)" "filter_rel (n + length rs) fs0 sp0"
      using rows_law [OF _ Cons.prems(4) _ sp0(1)] Cons.prems(5) ys(2) by auto
    show ?thesis
      using Cons.IH [OF same _ _ fs0(2) _ sp0(2)] Cons.prems(2,3,5) ys(2) Some fs0(1) by (auto simp: add.assoc)
  qed
qed (simp add: run_rows_def)

end

lemma load_law:
  assumes "row_ok t row" "filter_rel n fs sp" "n < 32768" "run_command (load_command t row) sp = Some sp1"
  shows "\<exists>fs1. load_row t row (w, fs) = Some (set_waterline t (max (waterline t w) (row_id row)) w, fs1) \<and> filter_rel (Suc n) fs1 sp1"
proof -
  obtain st site where c: "col row (state_col t) = Some st" "col row (website_col t) = Some site"
    using row_cols [OF assms(1)] by metis
  show ?thesis
    using row_refines [OF assms(1) _ _ assms(2,3), of True sp1] assms filter_rel_Suc [OF assms(2)] c
    by (auto simp: load_row_def raise_waterline_ok load_command_def run_command_def)
qed

lemma update_law:
  assumes "row_ok t row" "filter_rel n fs sp" "n < 32768" "run_command (update_command t row) sp = Some sp1"
  shows "\<exists>fs1. update_row t row (w, fs) = Some (set_waterline t (max (waterline t w) (row_id row)) w, fs1) \<and> filter_rel (Suc n) fs1 sp1"
proof -
  obtain st site where c: "col row (state_col t) = Some st" "col row (website_col t) = Some site"
    using row_cols [OF assms(1)] by metis
  show ?thesis
  proof (cases "t \<in> set [user_monitor_config, resource_monitor_config, url_monitor_config]")
    case True
    then have "update_command t row = None" by (auto simp: update_command_def row_command_def Let_def)
    then show ?thesis using True c assms(4) filter_rel_Suc [OF assms(2)] raise_waterline_ok [OF assms(1)]
      by (simp add: update_row_def run_command_def)
  next
    case False
    show ?thesis
      using row_refines [OF assms(1) _ refl assms(2,3), of sp1] assms filter_rel_Suc [OF assms(2)] c False
      by (auto simp: update_row_def raise_waterline_ok update_command_def run_command_def)
  qed
qed

interpretation load: config_step load_row load_command
  by unfold_locales (rule load_law)

interpretation update: config_step update_row update_command
  by unfold_locales (rule update_law)

section \<open>The first load\<close>

lemma all_tables [simp]: "t \<in> set config_tables"
  by (cases t) (simp_all add: config_tables_def)

lemma distinct_tables [simp]: "distinct config_tables"
  by (simp add: config_tables_def)

lemma load_all_law:
  assumes "read_rows (\<lambda>t. sel t None) config_tables = (ok, xs)" "\<forall>(t, row)\<in>set xs. row_ok t row"
    "filter_rel n fs sp" "n + length xs \<le> 32768" "run_rows load_command xs sp = Some sp1"
  shows "\<exists>fs1. load_all_config True sel fs = Some (if ok then Some (raise_all xs init_database_waterline) else None, fs1) \<and>
    filter_rel (n + length xs) fs1 sp1"
proof -
  have "(\<lambda>t s. sel t None) = (\<lambda>t (w :: database_waterline, fs :: filter_state). sel t None)" by (simp add: split_def)
  then show ?thesis
    using load.tables_law [where sel = "\<lambda>t k. sel t None", OF assms(1) distinct_tables assms(2-5), of init_database_waterline]
    by (auto simp: load_all_config_def)
qed

lemma first_waterline: "waterline t (raise_all xs init_database_waterline) = Max (insert (- 1) (row_id ` set (rows_of t xs)))"
  by (simp add: waterline_raise_all fold_max_Max)

definition user_row :: "string \<Rightarrow> string \<Rightarrow> config_row" where
  \<comment> \<open>user 12 and action 4\<close>
  "user_row i on = [Some i, Some [], Some ''12'', Some ''4'', None, None, None, None, None, Some ''1'', Some on]"

definition user_db :: "config_row list \<Rightarrow> config_table \<Rightarrow> config_row list" where
  "user_db rows t = (if t = user_block_config then rows else [])"

lemma user_row_cols [simp]:
  "col (user_row i on) 0 = Some i" "col (user_row i on) 2 = Some ''12''" "col (user_row i on) 3 = Some ''4''"
  "col (user_row i on) 9 = Some ''1''" "col (user_row i on) 10 = Some on"
  by (simp_all add: user_row_def col_def)

lemma user_row_ok:
  assumes "atoi i \<noteq> None"
  shows "row_ok user_block_config (user_row i on)" "load_command user_block_config (user_row i ''1'') = Some (UserRule True ''12'' ''4'')"
    "update_command user_block_config (user_row i ''0'') = Some (UserRule False ''12'' ''4'')"
  using assms by (auto simp: row_ok_def used_cols_def website_col_def state_col_def row_command_def rule_chars_def c2i_def
      less_eq_char_def load_command_def update_command_def is_valid_def is_renren_def starts_def)

lemma user_db_start:
  obtains fs where "init_loop [] [''bad''] [] = Some fs" "filter_rel 0 fs (spec_init [] [''bad''] [])"
proof -
  have "rows_ok [] [''bad''] []" by (simp add: rows_ok_def keyword_ok_def row_events_def)
  from init_loop_rel [OF this] show ?thesis using that by auto
qed

lemma user_row_id: "row_id (user_row ''1'' on) = 1" "row_id (user_row ''2'' on) = 2" "atoi ''1'' = Some 1" "atoi ''2'' = Some 2"
  by (simp_all add: row_id_def atoi_def is_digit_def isspace_def c2i_def less_eq_char_def)

text \<open>C37: the first load of the rules: when the rows that can be read are well formed, \<open>load_all_config\<close> leaves the
  filter in the state that the commands of the valid rows of the site give on the abstract filter, in the order of the
  tables and of the rows, up to the first query that fails; it returns for each table the highest id, -1 for an empty
  table, and the null pointer when a query fails.\<close>

theorem load_all_refines:
  assumes "filter_rel n fs sp" "read_rows (\<lambda>t. sel t None) config_tables = (ok, xs)"
    and "\<forall>(t, row)\<in>set xs. row_ok t row" "n + length xs \<le> 32768" "run_rows load_command xs sp = Some sp1"
  shows "\<exists>r fs1. load_all_config True sel fs = Some (r, fs1) \<and> filter_rel (n + length xs) fs1 sp1 \<and>
    (case r of None \<Rightarrow> \<not> ok
     | Some w \<Rightarrow> ok \<and> (\<forall>t. waterline t w = Max (insert (- 1) (row_id ` set (rows_of t xs)))))"
  using load_all_law [where sel = sel, OF assms(2,3,1,4,5)] by (auto simp: first_waterline)

theorem load_all_refines_witness:
  "\<exists>fs r fs1. init_loop [] [''bad''] [] = Some fs \<and>
     load_all_config True (\<lambda>t _. Some (user_db [user_row ''1'' ''1''] t)) fs = Some (Some r, fs1) \<and> waterline user_block_config r = 1"
proof -
  let ?sel = "\<lambda>t (_ :: int option). Some (user_db [user_row ''1'' ''1''] t)"
  obtain fs where fs: "init_loop [] [''bad''] [] = Some fs" "filter_rel 0 fs (spec_init [] [''bad''] [])" by (rule user_db_start)
  have rd: "read_rows (\<lambda>t. ?sel t None) config_tables = (True, [(user_block_config, user_row ''1'' ''1'')])"
    by (simp add: config_tables_def user_db_def)
  obtain sp1 where "run_rows load_command [(user_block_config, user_row ''1'' ''1'')] (spec_init [] [''bad''] []) = Some sp1"
    using user_row_ok(2) [of "''1''"] user_row_id by (simp add: run_rows_def run_command_def)
  from load_all_refines [where sel = ?sel, OF fs(2) rd _ _ this] user_row_ok(1) [of "''1''"] user_row_id
  obtain w fs1 where l: "load_all_config True ?sel fs = Some (Some w, fs1)"
    and top: "\<forall>t. waterline t w = Max (insert (- 1) (row_id ` set (rows_of t [(user_block_config, user_row ''1'' ''1'')])))"
    by (auto split: option.splits)
  have "waterline user_block_config w = 1" unfolding spec [OF top, of user_block_config] by (simp add: user_row_id)
  with fs(1) l show ?thesis by blast
qed

text \<open>C39: when a query of the first load fails, the rules read before it are kept, but the timer thread gets the null
  pointer: it ends when it cannot connect, and its first query dereferences the null pointer.\<close>

theorem failed_load_crashes:
  assumes "filter_rel n fs sp" "read_rows (\<lambda>t. sel t None) config_tables = (False, xs)"
    and "\<forall>(t, row)\<in>set xs. row_ok t row" "n + length xs \<le> 32768" "run_rows load_command xs sp = Some sp1"
  shows "\<exists>fs1. filter_rel (n + length xs) fs1 sp1 \<and>
    create_rule_timer_thread True sel ((False, sel1) # rs) fs = Some (False, None, fs1) \<and>
    create_rule_timer_thread True sel ((True, sel1) # rs) fs = None"
  using load_all_law [where sel = sel, OF assms(2,3,1,4,5)] by (auto simp: create_rule_timer_thread_def load_config_once_def)

theorem failed_load_crashes_witness:
  "\<exists>fs. init_loop [] [''bad''] [] = Some fs \<and>
     create_rule_timer_thread True (\<lambda>t _. if t = user_monitor_config then None else Some (user_db [user_row ''1'' ''1''] t))
       [(True, \<lambda>_ _. Some [])] fs = None"
proof -
  let ?sel = "\<lambda>t (_ :: int option). if t = user_monitor_config then None else Some (user_db [user_row ''1'' ''1''] t)"
  obtain fs where fs: "init_loop [] [''bad''] [] = Some fs" "filter_rel 0 fs (spec_init [] [''bad''] [])" by (rule user_db_start)
  have rd: "read_rows (\<lambda>t. ?sel t None) config_tables = (False, [(user_block_config, user_row ''1'' ''1'')])"
    by (simp add: config_tables_def user_db_def)
  obtain sp1 where "run_rows load_command [(user_block_config, user_row ''1'' ''1'')] (spec_init [] [''bad''] []) = Some sp1"
    using user_row_ok(2) [of "''1''"] user_row_id by (simp add: run_rows_def run_command_def)
  from failed_load_crashes [where sel = ?sel, OF fs(2) rd _ _ this] user_row_ok(1) [of "''1''"] user_row_id
  show ?thesis using fs(1) by auto
qed

section \<open>Polling\<close>

type_synonym config_db = "config_table \<Rightarrow> config_row list"

definition select_rows :: "config_db \<Rightarrow> config_query" where
  \<comment> \<open>the meaning of the two statements\<close>
  "select_rows db t k = Some (case k of None \<Rightarrow> db t | Some k \<Rightarrow> filter (\<lambda>row. k < row_id row) (db t))"

definition rows_above :: "config_db \<Rightarrow> (config_table \<Rightarrow> int) \<Rightarrow> (config_table \<times> config_row) list" where
  "rows_above db hi = concat (map (\<lambda>t. map (Pair t) (filter (\<lambda>row. hi t < row_id row) (db t))) config_tables)"

definition raise_top :: "config_db \<Rightarrow> (config_table \<Rightarrow> int) \<Rightarrow> config_table \<Rightarrow> int" where
  "raise_top db hi t = Max (insert (hi t) (row_id ` set (db t)))"

fun polled :: "config_db list \<Rightarrow> (config_table \<Rightarrow> int) \<Rightarrow> (config_table \<times> config_row) list" where
  \<comment> \<open>the rows read by the rounds\<close>
  "polled [] hi = []"
| "polled (db # dbs) hi = rows_above db hi @ polled dbs (raise_top db hi)"

lemma read_rows_all: "read_rows (\<lambda>t. Some (f t)) ts = (True, concat (map (\<lambda>t. map (Pair t) (f t)) ts))"
  by (induction ts) auto

lemma rows_of_tables:
  "distinct ts \<Longrightarrow> rows_of t (concat (map (\<lambda>t. map (Pair t) (f t)) ts)) = (if t \<in> set ts then f t else [])"
  by (induction ts) auto

lemma rows_of_above [simp]: "rows_of t (rows_above db hi) = filter (\<lambda>row. hi t < row_id row) (db t)"
  by (simp add: rows_above_def rows_of_tables)

lemma Max_above: "finite A \<Longrightarrow> Max (insert k {x \<in> A. k < x}) = Max (insert (k :: int) A)"
proof -
  assume A: "finite A"
  show ?thesis
  proof (rule Max_eqI)
    show "y \<le> Max (insert k A)" if "y \<in> insert k {x \<in> A. k < x}" for y using A that by (auto intro: Max_ge)
    have "Max (insert k A) \<in> insert k A" "k \<le> Max (insert k A)" using A Max_in [of "insert k A"] by auto
    then show "Max (insert k A) \<in> insert k {x \<in> A. k < x}" by (cases "Max (insert k A) = k") auto
  qed (use A in simp)
qed

lemma waterline_above:
  "waterline t (raise_all (rows_above db (\<lambda>t. waterline t w)) w) = raise_top db (\<lambda>t. waterline t w) t"
proof -
  have "row_id ` {row \<in> set (db t). waterline t w < row_id row} = {k \<in> row_id ` set (db t). waterline t w < k}" by auto
  then show ?thesis by (simp add: waterline_raise_all fold_max_Max raise_top_def Max_above)
qed

lemma round_law:
  assumes "xs = rows_above db (\<lambda>t. waterline t w)" "\<forall>(t, row)\<in>set xs. row_ok t row"
    "filter_rel n fs sp" "n + length xs \<le> 32768" "run_rows update_command xs sp = Some sp1"
  shows "\<exists>fs1. load_config_once True (select_rows db) (Some w, fs) = Some (True, Some (raise_all xs w), fs1) \<and>
    filter_rel (n + length xs) fs1 sp1"
proof -
  have "read_rows (\<lambda>t. (\<lambda>t k. select_rows db t (Some k)) t (waterline t w)) config_tables = (True, xs)"
    by (simp add: assms(1) select_rows_def read_rows_all rows_above_def)
  from update.tables_law [where sel = "\<lambda>t k. select_rows db t (Some k)", OF this distinct_tables assms(2-5)] show ?thesis by (auto simp: load_config_once_def)
qed

lemma rounds_law:
  assumes "ys = polled dbs (\<lambda>t. waterline t w)" "\<forall>(t, row)\<in>set ys. row_ok t row"
    "filter_rel n fs sp" "n + length ys \<le> 32768" "run_rows update_command ys sp = Some sp1"
  shows "\<exists>w1 fs1. load_config (map (\<lambda>db. (True, select_rows db)) dbs) (Some w, fs) = Some (True, Some w1, fs1) \<and>
    filter_rel (n + length ys) fs1 sp1 \<and>
    (\<forall>t. waterline t w1 = fold raise_top dbs (\<lambda>t. waterline t w) t)"
  using assms
proof (induction dbs arbitrary: n fs sp w ys)
  case (Cons db dbs)
  let ?xs = "rows_above db (\<lambda>t. waterline t w)"
  let ?w = "raise_all ?xs w"
  let ?zs = "polled dbs (\<lambda>t. waterline t ?w)"
  have hi: "(\<lambda>t. waterline t ?w) = raise_top db (\<lambda>t. waterline t w)" by (rule ext) (rule waterline_above)
  then have ys: "ys = ?xs @ ?zs" using Cons.prems(1) by simp
  then obtain sp0 where sp0: "run_rows update_command ?xs sp = Some sp0" "run_rows update_command ?zs sp0 = Some sp1"
    using Cons.prems(5) by (auto simp: run_rows_def ofold_append bind_Some_iff)
  obtain fs0 where fs0: "load_config_once True (select_rows db) (Some w, fs) = Some (True, Some ?w, fs0)"
    "filter_rel (n + length ?xs) fs0 sp0"
    using round_law [OF refl _ Cons.prems(3) _ sp0(1)] Cons.prems(2,4) ys by auto
  show ?case
    using Cons.IH [OF refl _ fs0(2) _ sp0(2)] Cons.prems(2,4) ys fs0(1) hi by (auto simp: add.assoc)
qed (simp add: run_rows_def)

fun grows :: "config_db \<Rightarrow> config_db list \<Rightarrow> bool" where
  \<comment> \<open>rows are only appended, with higher ids\<close>
  "grows db [] \<longleftrightarrow> True"
| "grows db (db1 # dbs) \<longleftrightarrow> (\<forall>t\<in>set config_tables. prefix (db t) (db1 t) \<and> sorted_wrt (<) (- 1 # map row_id (db1 t))) \<and> grows db1 dbs"

lemma new_part:
  assumes "prefix us vs" "sorted_wrt (<) (- 1 # map row_id vs)"
  shows "us @ filter (\<lambda>row. Max (insert (- 1) (row_id ` set us)) < row_id row) vs = vs"
proof -
  obtain ws where vs: "vs = us @ ws" using assms(1) by (auto simp: prefix_def)
  have "filter (\<lambda>row. Max (insert (- 1) (row_id ` set us)) < row_id row) us = []"
    by (auto simp: filter_empty_conv not_less intro!: Max_ge)
  moreover have "filter (\<lambda>row. Max (insert (- 1) (row_id ` set us)) < row_id row) ws = ws"
    using assms(2) vs by (auto simp: filter_id_conv sorted_wrt_append)
  ultimately show ?thesis using vs by simp
qed

lemma Max_absorb: "finite B \<Longrightarrow> C \<subseteq> B \<Longrightarrow> Max (insert (Max (insert k C)) B) = Max (insert (k :: int) B)"
proof (cases "B = {}")
  case False
  assume B: "finite B" "C \<subseteq> B"
  then have C: "finite C" using finite_subset by blast
  have "insert k B = insert k C \<union> B" using B by auto
  then have "Max (insert k B) = max (Max (insert k C)) (Max B)" using Max_Un [of "insert k C" B] B C False by simp
  then show ?thesis using B False by simp
qed simp

lemma raise_top_grown:
  "prefix (db t) (db1 t) \<Longrightarrow> hi t = Max (insert (- 1) (row_id ` set (db t))) \<Longrightarrow>
    raise_top db1 hi t = Max (insert (- 1) (row_id ` set (db1 t)))"
  by (auto simp: raise_top_def prefix_def Max_absorb image_Un)

lemma polled_rows:
  assumes "grows db dbs" "\<And>t. hi t = Max (insert (- 1) (row_id ` set (db t)))"
  shows "db t @ rows_of t (polled dbs hi) = last (db # dbs) t \<and>
    fold raise_top dbs hi t = Max (insert (- 1) (row_id ` set (last (db # dbs) t)))"
  using assms
proof (induction dbs arbitrary: db hi)
  case (Cons db1 dbs)
  have g: "prefix (db u) (db1 u)" "sorted_wrt (<) (- 1 # map row_id (db1 u))" for u using Cons.prems(1) by auto
  have hi1: "raise_top db1 hi u = Max (insert (- 1) (row_id ` set (db1 u)))" for u
    using raise_top_grown [OF g(1) Cons.prems(2)] .
  have "grows db1 dbs" using Cons.prems(1) by simp
  from Cons.IH [OF this, where hi = "raise_top db1 hi", OF hi1]
  have ih: "db1 t @ rows_of t (polled dbs (raise_top db1 hi)) = last (db1 # dbs) t"
    "fold raise_top dbs (raise_top db1 hi) t = Max (insert (- 1) (row_id ` set (last (db1 # dbs) t)))" by simp_all
  have "db t @ filter (\<lambda>row. hi t < row_id row) (db1 t) = db1 t" unfolding Cons.prems(2) by (rule new_part [OF g])
  then have "db t @ rows_of t (polled (db1 # dbs) hi) = db1 t @ rows_of t (polled dbs (raise_top db1 hi))"
    by (simp flip: append_assoc)
  then show ?case using ih by simp
qed simp

lemma rows_above_all:
  assumes "\<And>t. sorted_wrt (<) (- 1 # map row_id (db t))"
  shows "rows_above db (\<lambda>_. - 1) = concat (map (\<lambda>t. map (Pair t) (db t)) config_tables)"
proof -
  have "filter (\<lambda>row. - 1 < row_id row) (db t) = db t" for t using assms [of t] by (simp add: filter_id_conv)
  then show ?thesis by (simp add: rows_above_def)
qed

text \<open>C9: every rule is taken over exactly once: while the tables only grow by rows with higher ids, the first load
  and the rounds of the timer thread after it together read each row of the last state of each table once and in its
  order, the waterlines end at the highest ids, the filter is in the state that the commands of these rows give on the
  abstract filter, and the thread still runs.\<close>

theorem poll_exactly_once:
  assumes "filter_rel n fs sp" "grows (\<lambda>_. []) (db # dbs)"
    and "xs = rows_above db (\<lambda>_. - 1)" "ys = polled dbs (raise_top db (\<lambda>_. - 1))"
    and "\<forall>t\<in>set config_tables. \<forall>row\<in>set (last (db # dbs) t). row_ok t row" "n + length (xs @ ys) \<le> 32768"
    and "run_rows load_command xs sp = Some sp0" "run_rows update_command ys sp0 = Some sp1"
  shows "\<exists>w fs1. create_rule_timer_thread True (select_rows db) (map (\<lambda>d. (True, select_rows d)) dbs) fs =
      Some (True, Some w, fs1) \<and> filter_rel (n + length (xs @ ys)) fs1 sp1 \<and>
    (\<forall>t. rows_of t (xs @ ys) = last (db # dbs) t \<and>
         waterline t w = Max (insert (- 1) (row_id ` set (last (db # dbs) t))))"
proof -
  have ids: "sorted_wrt (<) (- 1 # map row_id (db t))" for t using assms(2) by (cases t) (simp_all add: config_tables_def)
  have xs: "rows_of t xs = db t" for t using rows_above_all [OF ids] by (simp add: assms(3) rows_of_tables)
  have rd: "read_rows (\<lambda>t. select_rows db t None) config_tables = (True, xs)"
    using rows_above_all [OF ids] by (simp add: select_rows_def read_rows_all assms(3))
  have hi: "raise_top db (\<lambda>_. - 1) t = Max (insert (- 1) (row_id ` set (db t)))" for t by (simp add: raise_top_def)
  have gr: "grows db dbs" using assms(2) by simp
  have rows: "rows_of t (xs @ ys) = last (db # dbs) t"
    and tops: "fold raise_top dbs (raise_top db (\<lambda>_. - 1)) t = Max (insert (- 1) (row_id ` set (last (db # dbs) t)))" for t
    using polled_rows [OF gr hi] xs assms(4) by simp_all
  have "row_ok t row" if "(t, row) \<in> set (xs @ ys)" for t row
  proof -
    have "row \<in> set (rows_of t (xs @ ys))" using that by (force simp: rows_of_def)
    then have "row \<in> set (last (db # dbs) t)" unfolding rows .
    then show ?thesis using assms(5) all_tables by blast
  qed
  then have ok: "\<forall>(t, row)\<in>set xs. row_ok t row" "\<forall>(t, row)\<in>set ys. row_ok t row" by auto
  let ?w = "raise_all xs init_database_waterline"
  obtain fs0 where fs0: "load_all_config True (select_rows db) fs = Some (Some ?w, fs0)" "filter_rel (n + length xs) fs0 sp0"
    using load_all_law [where sel = "select_rows db", OF rd ok(1) assms(1) _ assms(7)] assms(6) by auto
  have w: "(\<lambda>t. waterline t ?w) = raise_top db (\<lambda>_. - 1)"
    by (rule ext) (simp add: first_waterline xs hi)
  show ?thesis
    using rounds_law [of ys dbs ?w, OF _ ok(2) fs0(2) _ assms(8)] assms(4,6) fs0(1) rows tops
    by (auto simp: w create_rule_timer_thread_def add.assoc)
qed

theorem poll_exactly_once_witness:
  "\<exists>fs w fs1. init_loop [] [''bad''] [] = Some fs \<and>
     create_rule_timer_thread True (select_rows (user_db [user_row ''1'' ''1'']))
       [(True, select_rows (user_db [user_row ''1'' ''1'', user_row ''2'' ''0'']))] fs = Some (True, Some w, fs1) \<and>
     waterline user_block_config w = 2"
proof -
  let ?a = "user_row ''1'' ''1''" and ?b = "user_row ''2'' ''0''" and ?u = user_block_config
  obtain fs where fs: "init_loop [] [''bad''] [] = Some fs" "filter_rel 0 fs (spec_init [] [''bad''] [])" by (rule user_db_start)
  have xs: "[(?u, ?a)] = rows_above (user_db [?a]) (\<lambda>_. - 1)"
    by (simp add: rows_above_def config_tables_def user_db_def user_row_id)
  have ys: "[(?u, ?b)] = polled [user_db [?a, ?b]] (raise_top (user_db [?a]) (\<lambda>_. - 1))"
    by (simp add: rows_above_def config_tables_def user_db_def user_row_id raise_top_def)
  have gr: "grows (\<lambda>_. []) [user_db [?a], user_db [?a, ?b]]" by (simp add: config_tables_def user_db_def user_row_id)
  have ok: "\<forall>t\<in>set config_tables. \<forall>row\<in>set (last [user_db [?a], user_db [?a, ?b]] t). row_ok t row"
    using user_row_ok(1) user_row_id by (auto simp: user_db_def)
  obtain sp0 where sp0: "run_rows load_command [(?u, ?a)] (spec_init [] [''bad''] []) = Some sp0"
    using user_row_ok(2) [of "''1''"] user_row_id by (simp add: run_rows_def run_command_def)
  obtain sp1 where "run_rows update_command [(?u, ?b)] sp0 = Some sp1"
    using user_row_ok(3) [of "''2''"] user_row_id by (simp add: run_rows_def run_command_def)
  from poll_exactly_once [OF fs(2) gr xs ys ok _ sp0 this]
  obtain w fs1 where l: "create_rule_timer_thread True (select_rows (user_db [?a])) [(True, select_rows (user_db [?a, ?b]))] fs =
      Some (True, Some w, fs1)"
    and top: "\<forall>t. waterline t w = Max (insert (- 1) (row_id ` set (user_db [?a, ?b] t)))" by auto
  have "waterline ?u w = 2" unfolding spec [OF top, of ?u] by (simp add: user_db_def user_row_id)
  with fs(1) l show ?thesis by blast
qed

section \<open>Rows below the waterlines\<close>

lemma update_row_waterline:
  assumes "update_row t row (w, fs) = Some (w1, fs1)" "u \<noteq> t"
  shows "waterline u w1 = waterline u w"
proof -
  have "raise_waterline t row w = Some w1" using assms(1) by (auto simp: update_row_def bind_Some_iff split: if_splits)
  then show ?thesis using assms(2)
    by (auto simp: raise_waterline_def bind_Some_iff simp del: waterline.simps set_waterline.simps)
qed

lemma update_rows_waterline:
  "ofold (update_row t) rs (w, fs) = Some (w1, fs1) \<Longrightarrow> u \<noteq> t \<Longrightarrow> waterline u w1 = waterline u w"
proof (induction rs arbitrary: w fs)
  case (Cons row rs)
  then obtain w0 fs0 where "update_row t row (w, fs) = Some (w0, fs0)" "ofold (update_row t) rs (w0, fs0) = Some (w1, fs1)"
    by (auto simp: bind_Some_iff)
  then show ?case using Cons.IH Cons.prems(2) update_row_waterline by metis
qed simp

lemma load_tables_cong:
  assumes "\<forall>t\<in>set ts. f t (waterline t w) = g t (waterline t w)" "distinct ts"
  shows "load_tables update_row (\<lambda>t (w, fs). f t (waterline t w)) ts (w, fs) =
    load_tables update_row (\<lambda>t (w, fs). g t (waterline t w)) ts (w, fs)"
  using assms
proof (induction ts arbitrary: w fs)
  case (Cons t ts)
  have "load_tables update_row (\<lambda>t (w, fs). f t (waterline t w)) ts s = load_tables update_row (\<lambda>t (w, fs). g t (waterline t w)) ts s"
    if "ofold (update_row t) rs (w, fs) = Some s" for rs s
  proof -
    obtain w1 fs1 where s: "s = (w1, fs1)" by (cases s)
    have "waterline u w1 = waterline u w" if "u \<in> set ts" for u
      using update_rows_waterline [of t rs w fs w1 fs1 u] Cons.prems(2) that \<open>ofold _ _ _ = _\<close> s by auto
    then show ?thesis using Cons.IH [of w1 fs1] Cons.prems s by simp
  qed
  then show ?case using Cons.prems(1) by (auto split: option.splits intro!: Option.bind_cong)
qed simp

text \<open>C38: a round of the timer thread sees a table only above its waterline: whatever is changed in rows that were
  read before, a rule that is disabled or corrected in place for one, has no effect.\<close>

theorem edited_rows_unseen:
  assumes "\<forall>t\<in>set config_tables. filter (\<lambda>row. waterline t w < row_id row) (db t) = filter (\<lambda>row. waterline t w < row_id row) (db1 t)"
  shows "load_config_once True (select_rows db1) (Some w, fs) = load_config_once True (select_rows db) (Some w, fs)"
  using load_tables_cong [where f = "\<lambda>t k. select_rows db1 t (Some k)" and g = "\<lambda>t k. select_rows db t (Some k)", of config_tables w fs]
    assms by (simp add: load_config_once_def select_rows_def)

theorem edited_rows_unseen_witness:
  "\<forall>fs. load_config_once True (select_rows (user_db [user_row ''1'' ''0''])) (Some (set_waterline user_block_config 1 init_database_waterline), fs) =
   load_config_once True (select_rows (user_db [user_row ''1'' ''1''])) (Some (set_waterline user_block_config 1 init_database_waterline), fs)"
  by (rule allI, rule edited_rows_unseen) (simp add: config_tables_def user_db_def user_row_id init_database_waterline_def)

end
