(* ===== verification/Acch.thy ===== *)
theory Acch
  imports DownMatch
begin

text \<open>
  Searching compressed pages: \<open>acch\<close> of \<^verbatim>\<open>acsm.c\<close> runs the automaton over the output of
  the inflater (a literal or a pair of length and distance per entry) without scanning every
  copied byte again, and \<open>keyword_match\<close> reports what it finds to the log.

  The global arrays \<open>win\<close> and \<open>st\<close> keep what earlier calls left in them; an access outside
  the \<open>WSIZE\<close> entries is undefined (\<open>None\<close>).  An entry is a pair of \<open>litter_buf[i]\<close> and
  \<open>dist_buf[i]\<close>.
\<close>

section \<open>The window\<close>

definition WSIZE :: nat where "WSIZE = 0x80000"

record acch_state =
  a_win :: "nat \<Rightarrow> char"
  a_st :: "nat \<Rightarrow> int"
  a_w :: nat
  a_state :: int
  a_keyword :: "char list"
  a_tag :: bool
  a_full :: bool   \<comment> \<open>one of the \<open>return 0\<close> on \<open>w >= WSIZE - 1\<close>\<close>

definition get_win :: "acch_state \<Rightarrow> int \<Rightarrow> char option" where
  "get_win s i = (if 0 \<le> i \<and> nat i < WSIZE then Some (a_win s (nat i)) else None)"

definition get_st :: "acch_state \<Rightarrow> int \<Rightarrow> int option" where
  "get_st s i = (if 0 \<le> i \<and> nat i < WSIZE then Some (a_st s (nat i)) else None)"

definition put_win :: "char \<Rightarrow> acch_state \<Rightarrow> acch_state option" where
  "put_win c s = (if a_w s < WSIZE then Some (s\<lparr>a_win := (a_win s)(a_w s := c)\<rparr>) else None)"

definition push_status :: "int \<Rightarrow> acch_state \<Rightarrow> acch_state" where
  "push_status status s =
     (if WSIZE - 1 \<le> a_w s then s\<lparr>a_full := True\<rparr>
      else s\<lparr>a_st := (a_st s)(a_w s := status), a_w := a_w s + 1\<rparr>)"

section \<open>The entries\<close>

definition acch_literal :: "ACSMX_STRUCT \<Rightarrow> char \<Rightarrow> acch_state \<Rightarrow> acch_state option" where
  "acch_literal acsm c s = do {
     (state1, status, kw) \<leftarrow> scanAC acsm (a_state s) c (a_keyword s);
     s1 \<leftarrow> put_win c (s\<lparr>a_state := state1, a_keyword := kw\<rparr>);
     Some (if status = 0 then s1\<lparr>a_tag := True\<rparr> else push_status status s1) }"

definition scan_copy :: "ACSMX_STRUCT \<Rightarrow> nat \<Rightarrow> acch_state \<Rightarrow> (acch_state \<times> bool) option" where
  \<comment> \<open>scan and copy one byte of the window; whether the loop around it is left\<close>
  "scan_copy acsm d s = do {
     b \<leftarrow> get_win s (int (a_w s) - int d);
     (state1, status, kw) \<leftarrow> scanAC acsm (a_state s) b (a_keyword s);
     s1 \<leftarrow> put_win b (s\<lparr>a_state := state1, a_keyword := kw\<rparr>);
     let s2 = push_status status s1;
     Some (if a_full s2 then (s2, True)
           else if status = 0 then (s2\<lparr>a_tag := True\<rparr>, True) else (s2, False)) }"

function copy_head ::
  "ACSMX_STRUCT \<Rightarrow> nat \<Rightarrow> nat \<Rightarrow> nat \<Rightarrow> acch_state \<Rightarrow> (nat \<times> acch_state) option" where
  \<comment> \<open>\<open>while (acsm->dept[state] > j && j < len)\<close>\<close>
  "copy_head acsm d len j s = (case dept_at acsm (a_state s) of
     None \<Rightarrow> None
   | Some dep \<Rightarrow>
       if j < dep \<and> j < len then
         if d \<le> a_w s then
           (case scan_copy acsm d s of
              None \<Rightarrow> None
            | Some (s1, stop) \<Rightarrow> if stop then Some (j + 1, s1) else copy_head acsm d len (j + 1) s1)
         else copy_head acsm d len (j + 1) s
       else Some (j, s))"
  by pat_completeness auto
termination
  by (relation "measure (\<lambda>(acsm, d, len, j, s). len - j)") auto

declare copy_head.simps [simp del]

fun find_status :: "acch_state \<Rightarrow> nat \<Rightarrow> int \<Rightarrow> nat list \<Rightarrow> nat option option" where
  \<comment> \<open>the first \<open>f\<close> of the list with \<open>st[w - d + f] == want\<close>\<close>
  "find_status s d want [] = Some None"
| "find_status s d want (f # fs) =
     (if 0 \<le> int (a_w s) - int d + int f
      then do {
        v \<leftarrow> get_st s (int (a_w s) - int d + int f);
        if v = want then Some (Some f) else find_status s d want fs }
      else find_status s d want fs)"

fun skip_copy :: "nat \<Rightarrow> nat \<Rightarrow> acch_state \<Rightarrow> acch_state option" where
  \<comment> \<open>copy without scanning\<close>
  "skip_copy d 0 s = Some s"
| "skip_copy d (Suc n) s = do {
     b \<leftarrow> get_win s (int (a_w s) - int d);
     s1 \<leftarrow> put_win b s;
     skip_copy d n (s1\<lparr>a_w := a_w s1 + 1\<rparr>) }"

fun scan_for :: "ACSMX_STRUCT \<Rightarrow> nat \<Rightarrow> nat \<Rightarrow> acch_state \<Rightarrow> (nat \<times> acch_state) option" where
  \<comment> \<open>a \<open>for\<close> loop of \<open>n\<close> scanned bytes; the iterations that were not completed\<close>
  "scan_for acsm d 0 s = Some (0, s)"
| "scan_for acsm d (Suc n) s =
     (if d \<le> a_w s
      then do {
        (s1, stop) \<leftarrow> scan_copy acsm d s;
        if stop then Some (Suc n, s1) else scan_for acsm d n s1 }
      else scan_for acsm d n s)"

lemma find_status_mem: "find_status s d want fs = Some (Some f) \<Longrightarrow> f \<in> set fs"
  by (induction fs) (auto simp: bind_Some_iff split: if_splits)

text \<open>
  The loop \<open>while (k < len - 1)\<close>, where \<open>k\<close> is always \<open>j - 1\<close> at its head.  The scan of the
  \<open>CDepth - 1\<close> bytes before \<open>p\<close> is not followed by a test of \<open>tag\<close>, so after a match there the
  last loop still runs.
\<close>

definition copy_part ::
  "ACSMX_STRUCT \<Rightarrow> nat \<Rightarrow> nat \<Rightarrow> nat \<Rightarrow> nat \<Rightarrow> acch_state \<Rightarrow> acch_state option" where
  "copy_part acsm d j k p s = do {
     (j1, s1) \<leftarrow>
       (if j + CDepth \<le> p
        then do {
          s0 \<leftarrow> skip_copy d (p + 1 - CDepth - j) s;
          (left, s1) \<leftarrow> scan_for acsm d (CDepth - 1) (s0\<lparr>a_state := 0\<rparr>);
          Some (p - left, s1) }
        else Some (j, s));
     if a_full s1 then Some s1
     else do {
       (left2, s2) \<leftarrow> scan_for acsm d (Suc k - j1) s1;
       Some s2 } }"

function copy_rest ::
  "ACSMX_STRUCT \<Rightarrow> nat \<Rightarrow> nat \<Rightarrow> nat \<Rightarrow> acch_state \<Rightarrow> acch_state option" where
  "copy_rest acsm d len j s =
     (if j < len
      then (case find_status s d 0 [j..<len] of
              None \<Rightarrow> None
            | Some z \<Rightarrow>
                (case find_status s d 2 (rev [j..<Suc (case z of Some f \<Rightarrow> f | None \<Rightarrow> len - 1)]) of
                   None \<Rightarrow> None
                 | Some t \<Rightarrow>
                     (case copy_part acsm d j (case z of Some f \<Rightarrow> f | None \<Rightarrow> len - 1)
                             (case t of Some f \<Rightarrow> f | None \<Rightarrow> j) s of
                        None \<Rightarrow> None
                      | Some s2 \<Rightarrow>
                          if a_full s2 \<or> a_tag s2 then Some s2
                          else copy_rest acsm d len (Suc (case z of Some f \<Rightarrow> f | None \<Rightarrow> len - 1)) s2)))
      else Some s)"
  by pat_completeness auto
termination
  by (relation "measure (\<lambda>(acsm, d, len, j, s). len - j)")
    (auto dest!: find_status_mem split: option.splits)

declare copy_rest.simps [simp del]

definition acch_copy :: "ACSMX_STRUCT \<Rightarrow> nat \<Rightarrow> nat \<Rightarrow> acch_state \<Rightarrow> acch_state option" where
  "acch_copy acsm d len s = do {
     (j, s1) \<leftarrow> copy_head acsm d len 0 s;
     if a_full s1 \<or> a_tag s1 then Some s1 else copy_rest acsm d len j s1 }"

type_synonym lz_entry = "char \<times> nat"

fun acch_loop ::
  "ACSMX_STRUCT \<Rightarrow> lz_entry list \<Rightarrow> nat \<Rightarrow> acch_state \<Rightarrow> (nat \<times> acch_state) option" where
  "acch_loop acsm [] i s = Some (i, s)"
| "acch_loop acsm ((l, d) # es) i s = do {
     s1 \<leftarrow> (if d = 0 then acch_literal acsm l s else acch_copy acsm d (of_char l + 3) s);
     if a_full s1 \<or> a_tag s1 then Some (i, s1) else acch_loop acsm es (i + 1) s1 }"

definition acch ::
  "ACSMX_STRUCT \<Rightarrow> lz_entry list \<Rightarrow> nat \<Rightarrow> nat \<Rightarrow> char list \<Rightarrow> (nat \<Rightarrow> char) \<Rightarrow> (nat \<Rightarrow> int) \<Rightarrow>
   (int \<times> nat \<times> acch_state) option" where
  \<comment> \<open>the return value, \<open>*text_len\<close> when it is 1, and the final state\<close>
  "acch acsm es offset last_lit keyword win0 st0 =
     (if last_lit \<le> length es
      then do {
        (i, s) \<leftarrow> acch_loop acsm (drop offset (take last_lit es)) offset
          \<lparr>a_win = win0, a_st = st0, a_w = 0, a_state = 0, a_keyword = keyword,
           a_tag = False, a_full = False\<rparr>;
        Some (if a_tag s \<and> \<not> a_full s then 1 else 0, i, s) }
      else None)"

section \<open>Decoding a page\<close>

definition push_text :: "char \<Rightarrow> string \<Rightarrow> string option" where
  \<comment> \<open>\<open>result[i++] = c\<close> into \<open>char fulltext[0x80000]\<close>\<close>
  "push_text c out = (if length out < 0x80000 then Some (out @ [c]) else None)"

text \<open>
  In \<open>result[i++] = result[i - dist]\<close> C leaves open whether the index on the right is read before or after the
  increment (the two are not sequenced). The definition reads it before, which is what the copy means; a compiler
  may do otherwise.
\<close>

fun copy_text :: "nat \<Rightarrow> nat \<Rightarrow> string \<Rightarrow> string option" where
  "copy_text d 0 out = Some out"
| "copy_text d (Suc n) out =
     (if d \<le> length out
      then do { out1 \<leftarrow> push_text (out ! (length out - d)) out; copy_text d n out1 }
      else None)"

fun decode_entries :: "lz_entry list \<Rightarrow> string \<Rightarrow> string option" where
  "decode_entries [] out = Some out"
| "decode_entries ((l, d) # es) out = do {
     out1 \<leftarrow> (if d = 0 then push_text l out else copy_text d (of_char l + 3) out);
     decode_entries es out1 }"

definition decodeing :: "lz_entry list \<Rightarrow> nat \<Rightarrow> string option" where
  \<comment> \<open>the string left in \<open>result\<close>; \<open>*th\<close> is its length\<close>
  "decodeing es len = do {
     out \<leftarrow> decode_entries (take len es) [];
     if length out < 0x80000 then Some out else None }"

section \<open>Invariants of the scan\<close>

definition acch_safe :: "string list \<Rightarrow> ACSM_PATTERN list \<Rightarrow> acch_state \<Rightarrow> bool" where
  "acch_safe ws ps s \<longleftrightarrow> (\<exists>k<length ws. a_state s = int k) \<and> length (a_keyword s) = 1024 \<and> \<not> a_full s \<and>
     (a_tag s \<longrightarrow> (\<exists>p\<in>set ps. buf_str (a_keyword s) = Some (patrn p)))"

definition shows_text :: "string \<Rightarrow> acch_state \<Rightarrow> bool" where
  "shows_text page s \<longleftrightarrow> a_w s \<le> length page \<and> (\<forall>i<a_w s. a_win s i = page ! i)"

definition tracks :: "string list \<Rightarrow> string \<Rightarrow> acch_state \<Rightarrow> bool" where
  \<comment> \<open>the state stands for the end of what the window shows\<close>
  "tracks ws page s \<longleftrightarrow> shows_text page s \<and>
     (\<exists>k<length ws. a_state s = int k \<and> suffix (ws ! k) (take (a_w s) page))"

definition hit :: "ACSM_PATTERN list \<Rightarrow> string \<Rightarrow> bool" where
  "hit ps page \<longleftrightarrow> (\<exists>p\<in>set ps. sublist (patrn p) page)"

text \<open>What scanning one byte does, for any byte.\<close>

lemma scan_byte:
  assumes comp: "compiled ws ps m" and dep: "depth_ok ws m"
    and bounded: "\<forall>p\<in>set ps. length (patrn p) < 1024 \<and> NUL \<notin> set (patrn p)"
    and safe: "acch_safe ws ps s"
  shows "\<exists>k' status kw'. scanAC m (a_state s) c (a_keyword s) = Some (int k', status, kw') \<and>
     k' < length ws \<and> length kw' = 1024 \<and>
     (status = 0 \<longrightarrow> (\<exists>p\<in>set ps. buf_str kw' = Some (patrn p))) \<and> (status \<noteq> 0 \<longrightarrow> kw' = a_keyword s) \<and>
     (tracks ws page s \<longrightarrow> a_w s < length page \<longrightarrow> page ! a_w s = c \<longrightarrow>
        suffix (ws ! k') (take (Suc (a_w s)) page) \<and> (status = 0 \<longrightarrow> hit ps page))"
proof -
  obtain k where k: "k < length ws" "a_state s = int k" "length (a_keyword s) = 1024"
    using safe by (auto simp: acch_safe_def)
  have tw: "trie_words ws" using compiled_words [OF comp] by simp
  have word: "ws ! k = lsuf ws (ws ! k)" using k(1) by (simp add: lsuf_word)
  have kwb: "\<forall>p\<in>set ps. length (patrn p) < length (a_keyword s) \<and> NUL \<notin> set (patrn p)"
    using bounded k(3) by simp
  obtain k' status kw' where s: "scanAC m (int k) c (a_keyword s) = Some (int k', status, kw')" "k' < length ws"
     "ws ! k' = lsuf ws (ws ! k @ [c])" "length kw' = length (a_keyword s)"
     "status = 0 \<longrightarrow> (\<exists>p\<in>set ps. suffix (patrn p) (ws ! k @ [c]) \<and> buf_str kw' = Some (patrn p))"
     "status \<noteq> 0 \<longrightarrow> kw' = a_keyword s"
    using scanAC_step [OF comp dep k(1) word kwb, of c] by blast
  have "suffix (ws ! k') (take (Suc (a_w s)) page) \<and> (status = 0 \<longrightarrow> hit ps page)"
    if "tracks ws page s" "a_w s < length page" "page ! a_w s = c"
  proof -
    obtain k2 where k2: "a_state s = int k2" "suffix (ws ! k2) (take (a_w s) page)"
      using \<open>tracks ws page s\<close> by (auto simp: tracks_def)
    then have "suffix (ws ! k) (take (a_w s) page)" using k(2) by simp
    moreover have "take (Suc (a_w s)) page = take (a_w s) page @ [c]"
      using that(2,3) by (simp add: take_Suc_conv_app_nth)
    ultimately have suf: "suffix (ws ! k @ [c]) (take (Suc (a_w s)) page)" by simp
    have "hit ps page" if "status = 0"
    proof -
      obtain p where p: "p \<in> set ps" "suffix (patrn p) (ws ! k @ [c])" using s(5) \<open>status = 0\<close> by blast
      then have "suffix (patrn p) (take (Suc (a_w s)) page)" using suf suffix_order.trans by blast
      then have "sublist (patrn p) page"
        by (meson sublist_order.order_trans sublist_take suffix_imp_sublist)
      then show ?thesis using p(1) by (auto simp: hit_def)
    qed
    moreover have "suffix (ws ! k') (take (Suc (a_w s)) page)"
      unfolding s(3) by (rule suffix_order.trans [OF lsuf_suffix suf])
    ultimately show ?thesis by blast
  qed
  then show ?thesis using s k(2,3) by (intro exI [of _ k'] exI [of _ status] exI [of _ kw']) auto
qed

lemma shows_text_put:
  assumes "shows_text page s" "a_w s < length page" "page ! a_w s = c"
    "a_win s' = (a_win s)(a_w s := c)" "a_w s' = Suc (a_w s)"
  shows "shows_text page s'"
  using assms by (auto simp: shows_text_def less_Suc_eq)

text \<open>
  The facts about a page that the scan relies on: from position \<open>b\<close> on, \<open>n\<close> bytes of the page are
  copies from a distance \<open>d\<close>.
\<close>

definition copies :: "string \<Rightarrow> nat \<Rightarrow> nat \<Rightarrow> nat \<Rightarrow> bool" where
  "copies page d b n \<longleftrightarrow> 0 < d \<and> d \<le> b \<and> b + n \<le> length page \<and>
     (\<forall>q. b \<le> q \<longrightarrow> q < b + n \<longrightarrow> page ! q = page ! (q - d))"

lemma copies_step: "copies page d b (Suc n) \<Longrightarrow> copies page d (Suc b) n"
  by (auto simp: copies_def)

lemma copies_at: "copies page d b (Suc n) \<Longrightarrow> b < length page \<and> page ! b = page ! (b - d)"
  by (auto simp: copies_def)

lemma copies_mono: "copies page d b n \<Longrightarrow> m \<le> n \<Longrightarrow> copies page d b m"
  by (auto simp: copies_def)

lemma copies_shift: "copies page d b (i + n) \<Longrightarrow> copies page d (b + i) n"
  by (auto simp: copies_def)

lemma scan_copy_step:
  assumes comp: "compiled ws ps m" "depth_ok ws m"
      "\<forall>p\<in>set ps. length (patrn p) < 1024 \<and> NUL \<notin> set (patrn p)"
    and safe: "acch_safe ws ps s" and d: "0 < d" "d \<le> a_w s" and room: "a_w s + 1 < WSIZE"
  shows "\<exists>s1 stop. scan_copy m d s = Some (s1, stop) \<and> acch_safe ws ps s1 \<and> a_w s1 = Suc (a_w s) \<and>
     (stop \<longrightarrow> a_tag s1) \<and> (\<not> stop \<longrightarrow> a_tag s1 = a_tag s) \<and>
     (tracks ws page s \<longrightarrow> a_w s < length page \<longrightarrow> page ! a_w s = page ! (a_w s - d) \<longrightarrow>
        tracks ws page s1 \<and> (stop \<longrightarrow> hit ps page))"
proof -
  define b where "b = a_win s (a_w s - d)"
  have win: "get_win s (int (a_w s) - int d) = Some b"
    using d room by (simp add: get_win_def b_def nat_diff_distrib)
  obtain k' status kw' where sc: "scanAC m (a_state s) b (a_keyword s) = Some (int k', status, kw')"
     "k' < length ws" "length kw' = 1024" "status = 0 \<longrightarrow> (\<exists>p\<in>set ps. buf_str kw' = Some (patrn p))"
     "status \<noteq> 0 \<longrightarrow> kw' = a_keyword s"
     "tracks ws page s \<longrightarrow> a_w s < length page \<longrightarrow> page ! a_w s = b \<longrightarrow>
        suffix (ws ! k') (take (Suc (a_w s)) page) \<and> (status = 0 \<longrightarrow> hit ps page)"
    using scan_byte [OF comp safe, of b page] by blast
  define s1 where "s1 = push_status status
    (s\<lparr>a_state := int k', a_keyword := kw', a_win := (a_win s)(a_w s := b)\<rparr>)"
  define s2 where "s2 = (if status = 0 then s1\<lparr>a_tag := True\<rparr> else s1)"
  have s1: "a_full s1 = False" "a_w s1 = Suc (a_w s)" "a_state s1 = int k'" "a_keyword s1 = kw'"
    "a_win s1 = (a_win s)(a_w s := b)" "a_tag s1 = a_tag s"
    using room safe by (simp_all add: s1_def push_status_def acch_safe_def)
  have run: "scan_copy m d s = Some (s2, status = 0)"
    using room s1(1) unfolding s2_def s1_def
    by (cases "status = 0") (simp_all add: scan_copy_def win sc(1) put_win_def Let_def)
  have safe2: "acch_safe ws ps s2"
    using s1 sc(2-5) safe by (auto simp: acch_safe_def s2_def)
  have "tracks ws page s2 \<and> (status = 0 \<longrightarrow> hit ps page)"
    if t: "tracks ws page s" "a_w s < length page" "page ! a_w s = page ! (a_w s - d)"
  proof -
    have "page ! (a_w s - d) = b" using t(1,2) d by (auto simp: tracks_def shows_text_def b_def)
    then have tb: "page ! a_w s = b" using t(3) by simp
    have "shows_text page s2"
      by (rule shows_text_put [where s = s and c = b]) (use t(1,2) tb s1 in \<open>auto simp: tracks_def s2_def\<close>)
    then show ?thesis using sc(2,6) t(1,2) tb s1 by (auto simp: tracks_def s2_def)
  qed
  then show ?thesis using run safe2 s1(2,6) by (intro exI [of _ s2] exI [of _ "status = 0"]) (auto simp: s2_def)
qed

lemma scan_for_steps:
  assumes comp: "compiled ws ps m" "depth_ok ws m"
      "\<forall>p\<in>set ps. length (patrn p) < 1024 \<and> NUL \<notin> set (patrn p)"
    and "acch_safe ws ps s" "0 < d" "d \<le> a_w s" "a_w s + n < WSIZE"
  shows "\<exists>left s1. scan_for m d n s = Some (left, s1) \<and> acch_safe ws ps s1 \<and> left \<le> n \<and>
     a_w s1 \<le> a_w s + n \<and> a_w s \<le> a_w s1 \<and> (a_tag s \<longrightarrow> a_tag s1) \<and>
     (\<not> a_tag s1 \<longrightarrow> left = 0 \<and> a_w s1 = a_w s + n) \<and>
     (tracks ws page s \<longrightarrow> copies page d (a_w s) n \<longrightarrow>
        tracks ws page s1 \<and> (a_tag s1 \<longrightarrow> a_tag s \<or> hit ps page))"
  using assms(4-)
proof (induction n arbitrary: s)
  case 0
  then show ?case by auto
next
  case (Suc n)
  from Suc.prems(4) have "a_w s + 1 < WSIZE" by simp
  from scan_copy_step [OF comp Suc.prems(1-3) this, of page]
  obtain s1 stop where 1: "scan_copy m d s = Some (s1, stop)" "acch_safe ws ps s1" "a_w s1 = Suc (a_w s)"
    "stop \<longrightarrow> a_tag s1" "\<not> stop \<longrightarrow> a_tag s1 = a_tag s"
    "tracks ws page s \<longrightarrow> a_w s < length page \<longrightarrow> page ! a_w s = page ! (a_w s - d) \<longrightarrow>
        tracks ws page s1 \<and> (stop \<longrightarrow> hit ps page)" by blast
  have here: "tracks ws page s1 \<and> (stop \<longrightarrow> hit ps page)"
    if "tracks ws page s" "copies page d (a_w s) (Suc n)"
    using 1(6) that copies_at [OF that(2)] by blast
  show ?case
  proof (cases stop)
    case True
    then show ?thesis using 1 here Suc.prems(3) by (intro exI [of _ "Suc n"] exI [of _ s1]) auto
  next
    case False
    have "d \<le> a_w s1" "a_w s1 + n < WSIZE" using Suc.prems(3,4) 1(3) by simp_all
    from Suc.IH [OF 1(2) Suc.prems(2) this] obtain left s2 where 2:
      "scan_for m d n s1 = Some (left, s2)" "acch_safe ws ps s2" "left \<le> n"
      "a_w s2 \<le> a_w s1 + n" "a_w s1 \<le> a_w s2" "a_tag s1 \<longrightarrow> a_tag s2"
      "\<not> a_tag s2 \<longrightarrow> left = 0 \<and> a_w s2 = a_w s1 + n"
      "tracks ws page s1 \<longrightarrow> copies page d (a_w s1) n \<longrightarrow>
        tracks ws page s2 \<and> (a_tag s2 \<longrightarrow> a_tag s1 \<or> hit ps page)" by blast
    have "tracks ws page s2 \<and> (a_tag s2 \<longrightarrow> a_tag s \<or> hit ps page)"
      if "tracks ws page s" "copies page d (a_w s) (Suc n)"
      using here [OF that] 2(8) copies_step [OF that(2)] 1(3,5) False by simp
    then show ?thesis
      using False 1 2 Suc.prems(3) by (intro exI [of _ left] exI [of _ s2]) auto
  qed
qed

lemma copy_head_steps:
  assumes comp: "compiled ws ps m" "depth_ok ws m"
      "\<forall>p\<in>set ps. length (patrn p) < 1024 \<and> NUL \<notin> set (patrn p)"
    and "acch_safe ws ps s" "\<not> a_tag s" "tracks ws page s" "copies page d (a_w s) (len - j)" "j \<le> len"
    and "length page < WSIZE"
  shows "\<exists>j1 s1. copy_head m d len j s = Some (j1, s1) \<and> acch_safe ws ps s1 \<and> tracks ws page s1 \<and>
     j \<le> j1 \<and> j1 \<le> len \<and> a_w s1 = a_w s + (j1 - j) \<and> (a_tag s1 \<longrightarrow> hit ps page)"
  using assms
proof (induction m d len j s rule: copy_head.induct)
  case (1 m d len j s)
  note comp = "1.prems"(1-3)
  obtain k where k: "k < length ws" "a_state s = int k" using "1.prems"(4) by (auto simp: acch_safe_def)
  have "length ws \<le> length (acsmStateTable m)"
    by (rule dfa_core_length [OF comp(1) [unfolded compiled_def]])
  then obtain dep where dep: "dept_at m (a_state s) = Some dep"
    using comp(2) k by (simp add: dept_at_def depth_ok_def)
  show ?case
  proof (cases "j < dep \<and> j < len")
    case False
    then show ?thesis using dep "1.prems" by (subst copy_head.simps) auto
  next
    case True
    then obtain n where n: "len - j = Suc n" "len - (j + 1) = n" by (cases "len - j") auto
    have d: "0 < d" "d \<le> a_w s" and at: "a_w s < length page" "page ! a_w s = page ! (a_w s - d)"
      using "1.prems"(7) copies_at [of page d "a_w s" n] n by (auto simp: copies_def)
    have "a_w s + 1 < WSIZE" using at "1.prems"(9) by simp
    from scan_copy_step [OF comp "1.prems"(4) d this, of page] "1.prems"(6) at
    obtain s1 stop where 1: "scan_copy m d s = Some (s1, stop)" "acch_safe ws ps s1" "a_w s1 = Suc (a_w s)"
      "stop \<longrightarrow> a_tag s1" "\<not> stop \<longrightarrow> a_tag s1 = a_tag s" "tracks ws page s1" "stop \<longrightarrow> hit ps page"
      by blast
    show ?thesis
    proof (cases stop)
      case stop: True
      then have "copy_head m d len j s = Some (j + 1, s1)"
        using True dep d(2) 1(1) by (subst copy_head.simps) simp
      then show ?thesis using stop 1 True by (intro exI [of _ "j + 1"] exI [of _ s1]) auto
    next
      case stop: False
      have "copies page d (a_w s1) (len - (j + 1))"
        using "1.prems"(7) copies_step [of page d "a_w s" n] n 1(3) by simp
      from "1.IH"(1) [OF dep True d(2) 1(1) refl stop comp 1(2) _ 1(6) this _ "1.prems"(9)] 1(5) stop "1.prems"(5) True
      obtain j1 s2 where 2: "copy_head m d len (j + 1) s1 = Some (j1, s2)" "acch_safe ws ps s2"
        "tracks ws page s2" "j + 1 \<le> j1" "j1 \<le> len" "a_w s2 = a_w s1 + (j1 - (j + 1))"
        "a_tag s2 \<longrightarrow> hit ps page" by auto
      have "copy_head m d len j s = Some (j1, s2)"
        using True dep d(2) 1(1) 2(1) stop by (subst copy_head.simps) simp
      then show ?thesis using 2 1(3) by (intro exI [of _ j1] exI [of _ s2]) auto
    qed
  qed
qed

lemma find_status_defined:
  assumes "\<forall>f\<in>set fs. a_w s + f < WSIZE + d"
  shows "\<exists>z. find_status s d want fs = Some z"
  using assms by (induction fs) (auto simp: get_st_def)

lemma skip_copy_steps:
  assumes "acch_safe ws ps s" "shows_text page s" "copies page d (a_w s) n" "length page < WSIZE"
  shows "\<exists>s1. skip_copy d n s = Some s1 \<and> acch_safe ws ps s1 \<and> shows_text page s1 \<and>
     a_w s1 = a_w s + n \<and> a_tag s1 = a_tag s"
  using assms
proof (induction n arbitrary: s)
  case (Suc n)
  have d: "0 < d" "d \<le> a_w s" and at: "a_w s < length page" "page ! a_w s = page ! (a_w s - d)"
    using Suc.prems(3) copies_at [of page d "a_w s" n] by (auto simp: copies_def)
  have b: "a_win s (a_w s - d) = page ! a_w s"
    using Suc.prems(2) d at by (simp add: shows_text_def)
  have win: "get_win s (int (a_w s) - int d) = Some (page ! a_w s)"
    using d at(1) Suc.prems(4) by (simp add: get_win_def b nat_diff_distrib)
  define s1 where "s1 = s\<lparr>a_win := (a_win s)(a_w s := page ! a_w s), a_w := Suc (a_w s)\<rparr>"
  have "shows_text page s1"
    by (rule shows_text_put [OF Suc.prems(2) at(1) refl]) (simp_all add: s1_def)
  moreover have "acch_safe ws ps s1" using Suc.prems(1) by (simp add: acch_safe_def s1_def)
  moreover have "copies page d (a_w s1) n" using copies_step [OF Suc.prems(3)] by (simp add: s1_def)
  ultimately obtain s2 where "skip_copy d n s1 = Some s2" "acch_safe ws ps s2" "shows_text page s2"
    "a_w s2 = a_w s1 + n" "a_tag s2 = a_tag s1"
    using Suc.IH Suc.prems(4) by blast
  then show ?case
    using win at(1) Suc.prems(4) by (intro exI [of _ s2]) (simp add: put_win_def s1_def)
qed simp

lemma root_state:
  assumes "compiled ws ps m" "acch_safe ws ps s" "shows_text page s"
  shows "acch_safe ws ps (s\<lparr>a_state := 0\<rparr>)" "tracks ws page (s\<lparr>a_state := 0\<rparr>)"
proof -
  have "0 < length ws" "ws ! 0 = []"
    using compiled_words [OF assms(1)] by (simp_all add: trie_words_def)
  then show "acch_safe ws ps (s\<lparr>a_state := 0\<rparr>)" "tracks ws page (s\<lparr>a_state := 0\<rparr>)"
    using assms(2,3) by (auto simp: acch_safe_def tracks_def shows_text_def intro!: exI [of _ 0])
qed

lemma copy_part_steps:
  assumes comp: "compiled ws ps m" "depth_ok ws m"
      "\<forall>p\<in>set ps. length (patrn p) < 1024 \<and> NUL \<notin> set (patrn p)"
    and s: "acch_safe ws ps s" "\<not> a_tag s" "tracks ws page s"
    and cp: "copies page d (a_w s) (Suc k - j)" and idx: "j \<le> k" "p \<le> k" "k < 1000"
    and room: "length page + 1000 < WSIZE"
  shows "\<exists>s1. copy_part m d j k p s = Some s1 \<and> acch_safe ws ps s1 \<and> (a_tag s1 \<longrightarrow> hit ps page) \<and>
     (\<not> a_tag s1 \<longrightarrow> tracks ws page s1 \<and> a_w s1 = a_w s + (Suc k - j))"
proof -
  have d: "0 < d" "d \<le> a_w s" and len: "a_w s + (Suc k - j) \<le> length page"
    using cp by (auto simp: copies_def)
  have "\<exists>j1 s1. (if j + CDepth \<le> p
        then do {
          s0 \<leftarrow> skip_copy d (p + 1 - CDepth - j) s;
          (left, s1) \<leftarrow> scan_for m d (CDepth - 1) (s0\<lparr>a_state := 0\<rparr>);
          Some (p - left, s1) }
        else Some (j, s)) = Some (j1, s1) \<and> acch_safe ws ps s1 \<and> tracks ws page s1 \<and> d \<le> a_w s1 \<and> j1 \<le> k \<and>
      a_w s1 \<le> length page \<and>
      (a_tag s1 \<longrightarrow> hit ps page) \<and> (\<not> a_tag s1 \<longrightarrow> j \<le> j1 \<and> a_w s1 = a_w s + (j1 - j))"
  proof (cases "j + CDepth \<le> p")
    case False
    then show ?thesis using s d idx(1) by (auto simp: tracks_def shows_text_def)
  next
    case True
    let ?n = "p + 1 - CDepth - j"
    have nk: "?n + (CDepth - 1) \<le> Suc k - j" "?n + (CDepth - 1) + j = p"
      using True idx(2) by (simp_all add: CDepth_def)
    have "copies page d (a_w s) ?n" by (rule copies_mono [OF cp]) (use nk(1) in simp)
    moreover have sh: "shows_text page s" using s(3) by (simp add: tracks_def)
    ultimately obtain s0 where 0: "skip_copy d ?n s = Some s0" "acch_safe ws ps s0" "shows_text page s0"
      "a_w s0 = a_w s + ?n" "a_tag s0 = a_tag s"
      using skip_copy_steps [OF s(1)] room by (metis add_lessD1)
    define s0' where "s0' = s0\<lparr>a_state := 0\<rparr>"
    have s0': "acch_safe ws ps s0'" "tracks ws page s0'" "a_w s0' = a_w s + ?n" "\<not> a_tag s0'"
      using root_state [OF comp(1) 0(2,3)] 0(4,5) s(2) by (simp_all add: s0'_def)
    have cp2: "copies page d (a_w s0') (CDepth - 1)"
      unfolding s0'(3) by (rule copies_shift) (rule copies_mono [OF cp nk(1)])
    have "d \<le> a_w s0'" "a_w s0' + (CDepth - 1) < WSIZE" using d s0'(3) len nk(1) room by linarith+
    from scan_for_steps [OF comp s0'(1) d(1) this, of page] s0'(2,4) cp2
    obtain left s1 where 1: "scan_for m d (CDepth - 1) s0' = Some (left, s1)" "acch_safe ws ps s1"
      "left \<le> CDepth - 1" "a_w s1 \<le> a_w s0' + (CDepth - 1)" "a_w s0' \<le> a_w s1"
      "\<not> a_tag s1 \<longrightarrow> left = 0 \<and> a_w s1 = a_w s0' + (CDepth - 1)" "tracks ws page s1"
      "a_tag s1 \<longrightarrow> hit ps page" by blast
    have "d \<le> a_w s1" "p - left \<le> k" "a_w s1 \<le> length page"
      using 1(4,5) s0'(3) d(2) idx(2) len nk by linarith+
    moreover have "\<not> a_tag s1 \<Longrightarrow> j \<le> p - left \<and> a_w s1 = a_w s + (p - left - j)"
      using 1(6) s0'(3) nk by auto
    ultimately show ?thesis
      using True 0(1) 1(1,2,7,8)
      by (intro exI [of _ "p - left"] exI [of _ s1]) (simp add: s0'_def [symmetric])
  qed
  then obtain j1 s1 where first: "(if j + CDepth \<le> p
        then do {
          s0 \<leftarrow> skip_copy d (p + 1 - CDepth - j) s;
          (left, s1) \<leftarrow> scan_for m d (CDepth - 1) (s0\<lparr>a_state := 0\<rparr>);
          Some (p - left, s1) }
        else Some (j, s)) = Some (j1, s1)" and 1: "acch_safe ws ps s1" "tracks ws page s1" "d \<le> a_w s1"
      "j1 \<le> k" "a_w s1 \<le> length page" "a_tag s1 \<longrightarrow> hit ps page"
      "\<not> a_tag s1 \<longrightarrow> j \<le> j1 \<and> a_w s1 = a_w s + (j1 - j)" by blast
  have "a_w s1 + (Suc k - j1) < WSIZE" using 1(5) idx(3) room by linarith
  from scan_for_steps [OF comp 1(1) d(1) 1(3) this, of page]
  obtain left2 s2 where 2: "scan_for m d (Suc k - j1) s1 = Some (left2, s2)" "acch_safe ws ps s2"
    "a_tag s1 \<longrightarrow> a_tag s2" "\<not> a_tag s2 \<longrightarrow> left2 = 0 \<and> a_w s2 = a_w s1 + (Suc k - j1)"
    "tracks ws page s1 \<longrightarrow> copies page d (a_w s1) (Suc k - j1) \<longrightarrow>
       tracks ws page s2 \<and> (a_tag s2 \<longrightarrow> a_tag s1 \<or> hit ps page)" by blast
  have "tracks ws page s2 \<and> (a_tag s2 \<longrightarrow> hit ps page) \<and> (\<not> a_tag s2 \<longrightarrow> a_w s2 = a_w s + (Suc k - j))"
    if nt: "\<not> a_tag s1"
  proof -
    have w1: "j \<le> j1" "a_w s1 = a_w s + (j1 - j)" using 1(7) nt by auto
    have "copies page d (a_w s1) (Suc k - j1)"
      unfolding w1(2) by (rule copies_shift) (rule copies_mono [OF cp], use w1(1) 1(4) in simp)
    then show ?thesis using 2(4,5) 1(2,4) nt w1 by auto
  qed
  moreover have "\<not> a_full s1" using 1(1) by (simp add: acch_safe_def)
  ultimately show ?thesis
    using 2(1-3) 1(6) unfolding copy_part_def first by (intro exI [of _ s2]) auto
qed

lemma copy_rest_steps:
  assumes comp: "compiled ws ps m" "depth_ok ws m"
      "\<forall>p\<in>set ps. length (patrn p) < 1024 \<and> NUL \<notin> set (patrn p)"
    and len: "len < 1000" and room: "length page + 1000 < WSIZE"
    and "acch_safe ws ps s" "\<not> a_tag s" "tracks ws page s" "copies page d (a_w s) (len - j)" "j \<le> len"
  shows "\<exists>s1. copy_rest m d len j s = Some s1 \<and> acch_safe ws ps s1 \<and> (a_tag s1 \<longrightarrow> hit ps page) \<and>
     (\<not> a_tag s1 \<longrightarrow> tracks ws page s1 \<and> a_w s1 = a_w s + (len - j))"
  using assms(6-)
proof (induction "len - j" arbitrary: j s rule: less_induct)
  case less
  show ?case
  proof (cases "j < len")
    case False
    then show ?thesis using less.prems by (subst copy_rest.simps) auto
  next
    case True
    have w: "a_w s \<le> length page" using less.prems(3) by (simp add: tracks_def shows_text_def)
    have "\<forall>f\<in>set [j..<len]. a_w s + f < WSIZE + d" using w len room by auto
    then obtain z where z: "find_status s d 0 [j..<len] = Some z" using find_status_defined by blast
    define k where "k = (case z of Some f \<Rightarrow> f | None \<Rightarrow> len - 1)"
    have k: "j \<le> k" "k < len"
      using z True by (auto simp: k_def dest: find_status_mem split: option.splits)
    have "\<forall>f\<in>set (rev [j..<Suc k]). a_w s + f < WSIZE + d" using w len room k by auto
    then obtain t where t: "find_status s d 2 (rev [j..<Suc k]) = Some t" using find_status_defined by blast
    define p where "p = (case t of Some f \<Rightarrow> f | None \<Rightarrow> j)"
    have p: "p \<le> k"
      using t k(1) find_status_mem [of s d 2 "rev [j..<Suc k]"] by (auto simp: p_def split: option.splits)
    have cp: "copies page d (a_w s) (Suc k - j)"
      by (rule copies_mono [OF less.prems(4)]) (use k in simp)
    obtain s1 where 1: "copy_part m d j k p s = Some s1" "acch_safe ws ps s1" "a_tag s1 \<longrightarrow> hit ps page"
      "\<not> a_tag s1 \<longrightarrow> tracks ws page s1 \<and> a_w s1 = a_w s + (Suc k - j)"
      using copy_part_steps [OF comp less.prems(1-3) cp k(1) p _ room] k(2) len by auto
    have run: "copy_rest m d len j s = (if a_tag s1 then Some s1 else copy_rest m d len (Suc k) s1)"
      using True 1(1,2) t unfolding acch_safe_def k_def p_def
      by (subst copy_rest.simps) (simp add: z del: upt_Suc)
    show ?thesis
    proof (cases "a_tag s1")
      case True
      then show ?thesis using run 1 by simp
    next
      case nt: False
      then have s1: "tracks ws page s1" "a_w s1 = a_w s + (Suc k - j)" using 1(4) by auto
      have "copies page d (a_w s1) (len - Suc k)"
        unfolding s1(2) by (rule copies_shift) (rule copies_mono [OF less.prems(4)], use k in simp)
      moreover have "len - Suc k < len - j" "Suc k \<le> len" using k by simp_all
      ultimately obtain s2 where "copy_rest m d len (Suc k) s1 = Some s2" "acch_safe ws ps s2"
        "a_tag s2 \<longrightarrow> hit ps page" "\<not> a_tag s2 \<longrightarrow> tracks ws page s2 \<and> a_w s2 = a_w s1 + (len - Suc k)"
        using less.hyps [of "Suc k" s1] 1(2) nt s1(1) by blast
      then show ?thesis using run nt s1(2) k by (intro exI [of _ s2]) auto
    qed
  qed
qed

lemma acch_copy_steps:
  assumes comp: "compiled ws ps m" "depth_ok ws m"
      "\<forall>p\<in>set ps. length (patrn p) < 1024 \<and> NUL \<notin> set (patrn p)"
    and len: "len < 1000" and room: "length page + 1000 < WSIZE"
    and s: "acch_safe ws ps s" "\<not> a_tag s" "tracks ws page s" "copies page d (a_w s) len"
  shows "\<exists>s1. acch_copy m d len s = Some s1 \<and> acch_safe ws ps s1 \<and> (a_tag s1 \<longrightarrow> hit ps page) \<and>
     (\<not> a_tag s1 \<longrightarrow> tracks ws page s1 \<and> a_w s1 = a_w s + len)"
proof -
  obtain j s1 where 1: "copy_head m d len 0 s = Some (j, s1)" "acch_safe ws ps s1" "tracks ws page s1"
     "j \<le> len" "a_w s1 = a_w s + j" "a_tag s1 \<longrightarrow> hit ps page"
    using copy_head_steps [OF comp s(1-3), of d len 0] s(4) room by auto
  show ?thesis
  proof (cases "a_tag s1")
    case True
    then show ?thesis using 1 by (simp add: acch_copy_def)
  next
    case False
    have "copies page d (a_w s1) (len - j)"
      unfolding 1(5) by (rule copies_shift) (rule copies_mono [OF s(4)], use 1(4) in simp)
    from copy_rest_steps [OF comp len room 1(2) False 1(3) this 1(4)] 1 False show ?thesis
      by (auto simp: acch_copy_def acch_safe_def)
  qed
qed

lemma acch_literal_steps:
  assumes comp: "compiled ws ps m" "depth_ok ws m"
      "\<forall>p\<in>set ps. length (patrn p) < 1024 \<and> NUL \<notin> set (patrn p)"
    and room: "length page + 1000 < WSIZE"
    and s: "acch_safe ws ps s" "\<not> a_tag s" "tracks ws page s" "a_w s < length page" "page ! a_w s = c"
  shows "\<exists>s1. acch_literal m c s = Some s1 \<and> acch_safe ws ps s1 \<and> (a_tag s1 \<longrightarrow> hit ps page) \<and>
     (\<not> a_tag s1 \<longrightarrow> tracks ws page s1 \<and> a_w s1 = Suc (a_w s))"
proof -
  obtain k' status kw' where sc: "scanAC m (a_state s) c (a_keyword s) = Some (int k', status, kw')"
     "k' < length ws" "length kw' = 1024" "status = 0 \<longrightarrow> (\<exists>p\<in>set ps. buf_str kw' = Some (patrn p))"
     "status \<noteq> 0 \<longrightarrow> kw' = a_keyword s"
     "suffix (ws ! k') (take (Suc (a_w s)) page)" "status = 0 \<longrightarrow> hit ps page"
    using scan_byte [OF comp s(1), of c page] s(3-5) by blast
  define s0 where "s0 = s\<lparr>a_state := int k', a_keyword := kw', a_win := (a_win s)(a_w s := c)\<rparr>"
  have run: "acch_literal m c s = Some (if status = 0 then s0\<lparr>a_tag := True\<rparr> else push_status status s0)"
    using s(4) room by (simp add: acch_literal_def sc(1) put_win_def s0_def)
  show ?thesis
  proof (cases "status = 0")
    case True
    then show ?thesis using run sc s(1) by (auto simp: s0_def acch_safe_def)
  next
    case False
    define s1 where "s1 = push_status status s0"
    have s1: "a_full s1 = False" "a_w s1 = Suc (a_w s)" "a_state s1 = int k'" "a_keyword s1 = kw'"
      "a_win s1 = (a_win s)(a_w s := c)" "a_tag s1 = False"
      using room s by (simp_all add: s1_def s0_def push_status_def acch_safe_def)
    have "shows_text page s1"
      by (rule shows_text_put [where s = s and c = c]) (use s s1 in \<open>auto simp: tracks_def\<close>)
    then show ?thesis using run False s1 sc(2,3,6)
      by (intro exI [of _ s1]) (auto simp: s1_def [symmetric] acch_safe_def tracks_def)
  qed
qed

text \<open>What decoding promises of the page.\<close>

lemma copy_text_copies:
  assumes "copy_text d n out = Some out1" "0 < d" "0 < n"
  shows "copies out1 d (length out) n \<and> prefix out out1 \<and> length out1 = length out + n"
  using assms
proof (induction n arbitrary: out)
  case (Suc n)
  let ?c = "out ! (length out - d)"
  have d: "d \<le> length out" and rest: "copy_text d n (out @ [?c]) = Some out1"
    using Suc.prems(1) by (auto simp: push_text_def bind_Some_iff split: if_splits)
  show ?case
  proof (cases "n = 0")
    case True
    then have out1: "out1 = out @ [?c]" using rest by simp
    have "out1 ! q = out1 ! (q - d)" if "length out \<le> q" "q < length out + Suc n" for q
    proof -
      have "q = length out" using that True by simp
      then show ?thesis using d Suc.prems(2) by (simp add: out1 nth_append)
    qed
    then show ?thesis using True d Suc.prems(2) unfolding copies_def by (simp add: out1)
  next
    case False
    then have ih: "copies out1 d (Suc (length out)) n" "prefix (out @ [?c]) out1"
      "length out1 = Suc (length out) + n"
      using Suc.IH [OF rest Suc.prems(2)] by auto
    then obtain r where r: "out1 = out @ ?c # r" by (auto simp: prefix_def)
    have "out1 ! length out = out1 ! (length out - d)" using d Suc.prems(2) by (simp add: r nth_append)
    then have "copies out1 d (length out) (Suc n)"
      using ih(1,3) d Suc.prems(2) by (auto simp: copies_def) (metis Suc_leI le_antisym not_less)
    then show ?thesis using ih(3) r by simp
  qed
qed simp

lemma copies_prefix:
  assumes "copies out d b n" "prefix out page"
  shows "copies page d b n"
proof -
  obtain r where r: "page = out @ r" using assms(2) by (auto simp: prefix_def)
  have "page ! q = page ! (q - d)" if "b \<le> q" "q < b + n" for q
  proof -
    have "q < length out" "q - d < length out" "out ! q = out ! (q - d)"
      using assms(1) that unfolding copies_def by auto
    then show ?thesis by (simp add: r nth_append)
  qed
  then show ?thesis using assms(1) unfolding copies_def by (simp add: r)
qed

lemma decode_entries_prefix: "decode_entries es out = Some page \<Longrightarrow> prefix out page"
proof (induction es arbitrary: out)
  case (Cons e es)
  obtain l d where e: "e = (l, d)" by fastforce
  obtain out1 where 1: "(if d = 0 then push_text l out else copy_text d (of_char l + 3) out) = Some out1"
    "decode_entries es out1 = Some page" using Cons.prems by (auto simp: e bind_Some_iff)
  have "prefix out out1"
    using 1(1) copy_text_copies [of d "of_char l + 3" out out1]
    by (cases "d = 0") (auto simp: push_text_def split: if_splits)
  then show ?case using Cons.IH [OF 1(2)] prefix_order.trans by blast
qed simp

lemma acch_loop_steps:
  assumes comp: "compiled ws ps m" "depth_ok ws m"
      "\<forall>p\<in>set ps. length (patrn p) < 1024 \<and> NUL \<notin> set (patrn p)"
    and room: "length page + 1000 < WSIZE"
    and "acch_safe ws ps s" "\<not> a_tag s" "tracks ws page s" "a_w s = length out" "decode_entries es out = Some page"
  shows "\<exists>i1 s1. acch_loop m es i s = Some (i1, s1) \<and> acch_safe ws ps s1 \<and> (a_tag s1 \<longrightarrow> hit ps page)"
  using assms(5-)
proof (induction es arbitrary: i s out)
  case Nil
  then show ?case by auto
next
  case (Cons e es)
  obtain l d where e: "e = (l, d)" by fastforce
  obtain out1 where 1: "(if d = 0 then push_text l out else copy_text d (of_char l + 3) out) = Some out1"
    "decode_entries es out1 = Some page" using Cons.prems(5) by (auto simp: e bind_Some_iff)
  note pre = decode_entries_prefix [OF 1(2)]
  let ?step = "if d = 0 then acch_literal m l s else acch_copy m d (of_char l + 3) s"
  have "\<exists>s1. ?step = Some s1 \<and> acch_safe ws ps s1 \<and> (a_tag s1 \<longrightarrow> hit ps page) \<and>
     (\<not> a_tag s1 \<longrightarrow> tracks ws page s1 \<and> a_w s1 = length out1)"
  proof (cases "d = 0")
    case True
    then have out1: "out1 = out @ [l]" using 1(1) by (auto simp: push_text_def split: if_splits)
    then have "a_w s < length page" "page ! a_w s = l"
      using pre Cons.prems(4) by (auto simp: prefix_def nth_append)
    from acch_literal_steps [OF comp room Cons.prems(1-3) this] show ?thesis
      using True out1 Cons.prems(4) by auto
  next
    case False
    have ct: "copies out1 d (length out) (of_char l + 3)" "length out1 = length out + (of_char l + 3)"
      using copy_text_copies [of d "of_char l + 3" out out1] 1(1) False by auto
    have "of_char l < (256 :: nat)" by simp
    then have "of_char l + 3 < (1000 :: nat)" by linarith
    from acch_copy_steps [OF comp this room Cons.prems(1-3), of d] copies_prefix [OF ct(1) pre] Cons.prems(4)
    show ?thesis using False ct(2) by auto
  qed
  then obtain s1 where s1: "?step = Some s1" "acch_safe ws ps s1" "a_tag s1 \<longrightarrow> hit ps page"
    "\<not> a_tag s1 \<longrightarrow> tracks ws page s1 \<and> a_w s1 = length out1" by blast
  then have run: "acch_loop m (e # es) i s = (if a_tag s1 then Some (i, s1) else acch_loop m es (i + 1) s1)"
    by (simp add: e acch_safe_def)
  show ?case
  proof (cases "a_tag s1")
    case True
    then show ?thesis using run s1 by auto
  next
    case False
    then show ?thesis using run Cons.IH [OF s1(2) False _ _ 1(2), of "i + 1"] s1(4) by auto
  qed
qed

section \<open>Pages without copies\<close>

lemma acch_literals:
  assumes comp: "compiled ws ps m" "depth_ok ws m"
      "\<forall>p\<in>set ps. length (patrn p) < 1024 \<and> NUL \<notin> set (patrn p)"
    and "k < length ws" "ws ! k = lsuf ws x" "a_state s = int k" "a_w s = length x"
    "length x + length y + 1 < WSIZE" "length (a_keyword s) = 1024" "\<not> a_full s" "\<not> a_tag s"
  shows "\<exists>i1 s1. acch_loop m (map (\<lambda>c. (c, 0)) y) i s = Some (i1, s1) \<and> \<not> a_full s1 \<and>
     (a_tag s1 \<longleftrightarrow> (\<exists>j<length y. \<exists>p\<in>set ps. suffix (patrn p) (x @ take (Suc j) y))) \<and> length (a_keyword s1) = 1024 \<and>
     (a_keyword s1 = a_keyword s \<or> (\<exists>p\<in>set ps. buf_str (a_keyword s1) = Some (patrn p))) \<and>
     (a_tag s1 \<longrightarrow> (\<exists>p\<in>set ps. buf_str (a_keyword s1) = Some (patrn p)) \<and>
       (\<exists>j<length y. i1 = i + j \<and> (\<exists>p\<in>set ps. suffix (patrn p) (x @ take (Suc j) y)) \<and>
          (\<forall>j2<j. \<not> (\<exists>p\<in>set ps. suffix (patrn p) (x @ take (Suc j2) y)))))"
  using assms(4-)
proof (induction y arbitrary: k x i s)
  case Nil
  then show ?case by simp
next
  case (Cons c y)
  have kwb: "\<forall>p\<in>set ps. length (patrn p) < length (a_keyword s) \<and> NUL \<notin> set (patrn p)"
    using comp(3) Cons.prems(6) by simp
  obtain k' status kw' where sc: "scanAC m (int k) c (a_keyword s) = Some (int k', status, kw')" "k' < length ws"
     "ws ! k' = lsuf ws (x @ [c])" "length kw' = 1024"
     "status = 0 \<longleftrightarrow> (\<exists>p\<in>set ps. suffix (patrn p) (x @ [c]))" "status = 0 \<longrightarrow> (\<exists>p\<in>set ps. buf_str kw' = Some (patrn p))"
     "status \<noteq> 0 \<longrightarrow> kw' = a_keyword s"
    using scanAC_step [OF comp(1,2) Cons.prems(1,2) kwb, of c] Cons.prems(6)
    by (metis zero_neq_one zero_neq_numeral)
  have split: "(\<exists>j<length (c # y). Q (x @ take (Suc j) (c # y))) \<longleftrightarrow>
      Q (x @ [c]) \<or> (\<exists>j<length y. Q ((x @ [c]) @ take (Suc j) y))" for Q
    by (auto simp: less_Suc_eq_0_disj)
  define s0 where "s0 = s\<lparr>a_state := int k', a_keyword := kw', a_win := (a_win s)(a_w s := c)\<rparr>"
  have lit: "acch_literal m c s = Some (if status = 0 then s0\<lparr>a_tag := True\<rparr> else push_status status s0)"
    using Cons.prems(3-5) sc(1) by (simp add: acch_literal_def put_win_def s0_def)
  show ?case
  proof (cases "status = 0")
    case True
    then have "\<exists>p\<in>set ps. suffix (patrn p) (x @ [c])" using sc(5) by blast
    moreover have "acch_loop m (map (\<lambda>c. (c, 0)) (c # y)) i s = Some (i, s0\<lparr>a_tag := True\<rparr>)"
      using True lit by simp
    ultimately show ?thesis
      using Cons.prems(7) True sc(4,6) unfolding split [of "\<lambda>z. \<exists>p\<in>set ps. suffix (patrn p) z"]
      by (intro exI [of _ i] exI [of _ "s0\<lparr>a_tag := True\<rparr>"]) (auto simp: s0_def intro!: exI [of _ 0])
  next
    case False
    define s1 where "s1 = push_status status s0"
    have s1: "a_full s1 = False" "a_w s1 = length (x @ [c])" "a_state s1 = int k'" "a_keyword s1 = kw'" "a_tag s1 = False"
      using Cons.prems(4,5,7,8) by (simp_all add: s1_def s0_def push_status_def)
    have run: "acch_loop m (map (\<lambda>c. (c, 0)) (c # y)) i s = acch_loop m (map (\<lambda>c. (c, 0)) y) (i + 1) s1"
      using False lit s1 by (simp add: s1_def [symmetric])
    have no: "\<not> (\<exists>p\<in>set ps. suffix (patrn p) (x @ [c]))" using False sc(5) by blast
    have "length (x @ [c]) + length y + 1 < WSIZE" "length (a_keyword s1) = 1024" "\<not> a_full s1" "\<not> a_tag s1"
      using Cons.prems(5) s1(1,4,5) sc(4) by simp_all
    from Cons.IH [OF sc(2,3) s1(3,2) this, of "i + 1"] obtain i1 s2 where
      IH: "acch_loop m (map (\<lambda>c. (c, 0)) y) (i + 1) s1 = Some (i1, s2)" "\<not> a_full s2"
        "a_tag s2 \<longleftrightarrow> (\<exists>j<length y. \<exists>p\<in>set ps. suffix (patrn p) ((x @ [c]) @ take (Suc j) y))" "length (a_keyword s2) = 1024"
        "a_keyword s2 = a_keyword s1 \<or> (\<exists>p\<in>set ps. buf_str (a_keyword s2) = Some (patrn p))"
        "a_tag s2 \<longrightarrow> (\<exists>p\<in>set ps. buf_str (a_keyword s2) = Some (patrn p)) \<and>
           (\<exists>j<length y. i1 = i + 1 + j \<and> (\<exists>p\<in>set ps. suffix (patrn p) ((x @ [c]) @ take (Suc j) y)) \<and>
              (\<forall>j2<j. \<not> (\<exists>p\<in>set ps. suffix (patrn p) ((x @ [c]) @ take (Suc j2) y))))" by blast
    have "\<exists>j<length (c # y). i1 = i + j \<and> (\<exists>p\<in>set ps. suffix (patrn p) (x @ take (Suc j) (c # y))) \<and>
          (\<forall>j2<j. \<not> (\<exists>p\<in>set ps. suffix (patrn p) (x @ take (Suc j2) (c # y))))" if "a_tag s2"
    proof -
      obtain j where "j < length y" "i1 = i + 1 + j" "\<exists>p\<in>set ps. suffix (patrn p) ((x @ [c]) @ take (Suc j) y)"
        "\<forall>j2<j. \<not> (\<exists>p\<in>set ps. suffix (patrn p) ((x @ [c]) @ take (Suc j2) y))" using IH(6) \<open>a_tag s2\<close> by blast
      then show ?thesis using no by (intro exI [of _ "Suc j"]) (auto simp: less_Suc_eq_0_disj)
    qed
    then show ?thesis using IH no sc(7) False s1(4)
      unfolding split [of "\<lambda>z. \<exists>p\<in>set ps. suffix (patrn p) z"] run by (intro exI [of _ i1] exI [of _ s2]) auto
  qed
qed

section \<open>Properties\<close>

definition page_start :: "char list \<Rightarrow> (nat \<Rightarrow> char) \<Rightarrow> (nat \<Rightarrow> int) \<Rightarrow> acch_state" where
  "page_start keyword win0 st0 = \<lparr>a_win = win0, a_st = st0, a_w = 0, a_state = 0, a_keyword = keyword,
     a_tag = False, a_full = False\<rparr>"

lemma root_index:
  assumes "compiled ws ps m"
  shows "0 < length ws" "ws ! 0 = []" "ws ! 0 = lsuf ws []"
  using compiled_words [OF assms] lsuf_word [OF trie_words_Nil] by (auto simp: trie_words_def)

lemma acch_verdict:
  assumes "\<forall>u\<in>set us. update_ok u" "us \<noteq> []" "\<forall>s. Add s \<in> set us \<longrightarrow> length s < 1024"
    and "ofold list_update_step us [] = Some ks" "length keyword = 1024"
    and "decode_entries es [] = Some page" "length page + 1000 < WSIZE"
  shows "\<exists>st ret i s. ofold (apply_update add_str del_str) us down_ac = Some st \<and>
     acch (dM st) es 0 (length es) keyword win0 st0 = Some (ret, i, s) \<and>
     (ret = 1 \<and> (\<exists>k\<in>set ks. sublist k page) \<and> (\<exists>k\<in>set ks. buf_str (a_keyword s) = Some k) \<or> ret = 0)"
proof -
  obtain st ws where st: "ofold (apply_update add_str del_str) us down_ac = Some st" "down_keys st = ks"
      and ws: "compiled ws (acsmPatterns (dM st)) (dM st)" "depth_ok ws (dM st)"
      and bounded: "\<forall>p\<in>set (acsmPatterns (dM st)). length (patrn p) < 1024 \<and> NUL \<notin> set (patrn p) \<and> patrn p \<noteq> []"
    using down_store [OF assms(1-4)] by blast
  have bounded2: "\<forall>p\<in>set (acsmPatterns (dM st)). length (patrn p) < 1024 \<and> NUL \<notin> set (patrn p)"
    using bounded by blast
  let ?s = "page_start keyword win0 st0"
  have "acch_safe ws (acsmPatterns (dM st)) ?s" "tracks ws page ?s"
    using root_index [OF ws(1)] assms(5)
    by (auto simp: acch_safe_def tracks_def shows_text_def page_start_def intro!: exI [of _ 0])
  moreover have "\<not> a_tag ?s" "a_w ?s = length []" by (simp_all add: page_start_def)
  ultimately obtain i s where s: "acch_loop (dM st) es 0 ?s = Some (i, s)" "acch_safe ws (acsmPatterns (dM st)) s"
     "a_tag s \<longrightarrow> hit (acsmPatterns (dM st)) page"
    using acch_loop_steps [OF ws bounded2 assms(7) _ _ _ _ assms(6)] by blast
  have "acch (dM st) es 0 (length es) keyword win0 st0 = Some (if a_tag s then 1 else 0, i, s)"
    using s(1,2) by (simp add: acch_def page_start_def acch_safe_def)
  moreover have "a_tag s \<Longrightarrow> (\<exists>k\<in>set ks. sublist k page) \<and> (\<exists>k\<in>set ks. buf_str (a_keyword s) = Some k)"
    using s(2,3) by (auto simp: st(2) [symmetric] acch_safe_def hit_def)
  ultimately show ?thesis using st(1) by (cases "a_tag s") auto
qed

text \<open>C18: whatever keywords have been added and deleted, on every page that decodes to fewer than
  \<open>WSIZE - 1000\<close> bytes the search of the compressed page is defined (every access to the window
  and to the automaton is in bounds, whatever earlier pages left in the arrays) and
  raises no false alarm: when it returns 1, some keyword occurs in the decoded page, and the
  buffer holds a keyword.\<close>

theorem acch_sound:
  assumes "\<forall>u\<in>set us. update_ok u" "us \<noteq> []" "\<forall>s. Add s \<in> set us \<longrightarrow> length s < 1024"
    and "ofold list_update_step us [] = Some ks" "length keyword = 1024"
    and "decode_entries es [] = Some page" "length page + 1000 < WSIZE"
  shows "\<exists>st ret i s. ofold (apply_update add_str del_str) us down_ac = Some st \<and>
     acch (dM st) es 0 (length es) keyword win0 st0 = Some (ret, i, s) \<and>
     (ret = 1 \<and> (\<exists>k\<in>set ks. sublist k page) \<and> (\<exists>k\<in>set ks. buf_str (a_keyword s) = Some k) \<or> ret = 0)"
  using acch_verdict [OF assms] .

theorem acch_sound_witness:
  "\<exists>st ret i s. ofold (apply_update add_str del_str) [Add ''abab''] down_ac = Some st \<and>
     acch (dM st) [(CHR ''a'', 0), (CHR ''b'', 0), (NUL, 2)] 0 3 (replicate 1024 NUL) (\<lambda>_. NUL) (\<lambda>_. 0) =
       Some (ret, i, s) \<and> ret \<in> {0, 1}"
proof -
  have "decode_entries [(CHR ''a'', 0), (CHR ''b'', 0), (NUL, 2)] [] = Some ''ababa''"
    by (simp add: push_text_def numeral_3_eq_3)
  from acch_sound [of "[Add ''abab'']" "[''abab'']" "replicate 1024 NUL", OF _ _ _ _ _ this, of "\<lambda>_. NUL" "\<lambda>_. 0"]
  obtain st ret i s where r: "ofold (apply_update add_str del_str) [Add ''abab''] down_ac = Some st"
    "acch (dM st) [(CHR ''a'', 0), (CHR ''b'', 0), (NUL, 2)] 0 (length [(CHR ''a'', 0), (CHR ''b'', 0), (NUL, 2 :: nat)])
       (replicate 1024 NUL) (\<lambda>_. NUL) (\<lambda>_. 0) = Some (ret, i, s)"
    "ret = 1 \<and> (\<exists>k\<in>set [''abab'']. sublist k ''ababa'') \<and> (\<exists>k\<in>set [''abab'']. buf_str (a_keyword s) = Some k) \<or> ret = 0"
    by (auto simp only: update_ok.simps keyword_ok_def WSIZE_def list.set ball_simps) auto
  have "length [(CHR ''a'', 0), (CHR ''b'', 0), (NUL, 2 :: nat)] = 3" by simp
  from r(2) [unfolded this] r(1) show ?thesis
  proof (intro exI conjI)
    show "ret \<in> {0, 1}" using r(3) by auto
  qed
qed

lemma acch_literal_page:
  assumes "\<forall>u\<in>set us. update_ok u" "us \<noteq> []" "\<forall>s. Add s \<in> set us \<longrightarrow> length s < 1024"
    and "ofold list_update_step us [] = Some ks" "length keyword = 1024" "length page + 1 < WSIZE"
  shows "\<exists>st i s. ofold (apply_update add_str del_str) us down_ac = Some st \<and>
     acch (dM st) (map (\<lambda>c. (c, 0)) page) 0 (length page) keyword win0 st0 =
       Some (if \<exists>k\<in>set ks. sublist k page then 1 else 0, i, s) \<and>
     length (a_keyword s) = 1024 \<and> (a_keyword s = keyword \<or> (\<exists>k\<in>set ks. buf_str (a_keyword s) = Some k)) \<and>
     ((\<exists>k\<in>set ks. sublist k page) \<longrightarrow> (\<exists>k\<in>set ks. buf_str (a_keyword s) = Some k) \<and> i < length page \<and>
       (\<exists>k\<in>set ks. suffix k (take (Suc i) page)) \<and> (\<forall>j<i. \<forall>k\<in>set ks. \<not> suffix k (take (Suc j) page)))"
proof -
  obtain st ws where st: "ofold (apply_update add_str del_str) us down_ac = Some st" "down_keys st = ks"
      and ws: "compiled ws (acsmPatterns (dM st)) (dM st)" "depth_ok ws (dM st)"
      and bounded: "\<forall>p\<in>set (acsmPatterns (dM st)). length (patrn p) < 1024 \<and> NUL \<notin> set (patrn p) \<and> patrn p \<noteq> []"
    using down_store [OF assms(1-4)] by blast
  have bounded2: "\<forall>p\<in>set (acsmPatterns (dM st)). length (patrn p) < 1024 \<and> NUL \<notin> set (patrn p)"
    using bounded by blast
  let ?s = "page_start keyword win0 st0" and ?ps = "acsmPatterns (dM st)"
  obtain i s where s: "acch_loop (dM st) (map (\<lambda>c. (c, 0)) page) 0 ?s = Some (i, s)" "\<not> a_full s"
     "a_tag s \<longleftrightarrow> (\<exists>j<length page. \<exists>p\<in>set ?ps. suffix (patrn p) ([] @ take (Suc j) page))" "length (a_keyword s) = 1024"
     "a_keyword s = a_keyword ?s \<or> (\<exists>p\<in>set ?ps. buf_str (a_keyword s) = Some (patrn p))"
     "a_tag s \<longrightarrow> (\<exists>p\<in>set ?ps. buf_str (a_keyword s) = Some (patrn p)) \<and>
       (\<exists>j<length page. i = 0 + j \<and> (\<exists>p\<in>set ?ps. suffix (patrn p) ([] @ take (Suc j) page)) \<and>
          (\<forall>j2<j. \<not> (\<exists>p\<in>set ?ps. suffix (patrn p) ([] @ take (Suc j2) page))))"
    using acch_literals [OF ws bounded2 root_index(1,3) [OF ws(1)], of ?s page 0] assms(5,6)
    by (auto simp: page_start_def)
  have "(\<exists>j<length page. \<exists>p\<in>set ?ps. suffix (patrn p) (take (Suc j) page)) \<longleftrightarrow>
      (\<exists>p\<in>set ?ps. sublist (patrn p) page)"
    using bounded ends_here_sublist [where T = page] by blast
  then have tag: "a_tag s \<longleftrightarrow> (\<exists>k\<in>set ks. sublist k page)" using s(3) by (simp add: st(2) [symmetric])
  have "acch (dM st) (map (\<lambda>c. (c, 0)) page) 0 (length page) keyword win0 st0 =
      Some (if \<exists>k\<in>set ks. sublist k page then 1 else 0, i, s)"
    using s(1,2) tag by (simp add: acch_def page_start_def [symmetric])
  moreover have "a_keyword s = keyword \<or> (\<exists>k\<in>set ks. buf_str (a_keyword s) = Some k)"
    using s(5) by (auto simp: st(2) [symmetric] page_start_def)
  moreover have "(\<exists>k\<in>set ks. buf_str (a_keyword s) = Some k) \<and> i < length page \<and>
       (\<exists>k\<in>set ks. suffix k (take (Suc i) page)) \<and> (\<forall>j<i. \<forall>k\<in>set ks. \<not> suffix k (take (Suc j) page))" if "a_tag s"
    using s(6) that by (auto simp: st(2) [symmetric])
  ultimately show ?thesis using st(1) s(4) tag by blast
qed

text \<open>C19: on a page without copies the search is exact: it returns 1 if and only if some keyword
  occurs in the page.\<close>

theorem acch_literals_exact:
  assumes "\<forall>u\<in>set us. update_ok u" "us \<noteq> []" "\<forall>s. Add s \<in> set us \<longrightarrow> length s < 1024"
    and "ofold list_update_step us [] = Some ks" "length keyword = 1024" "length page + 1 < WSIZE"
  shows "\<exists>st i s. ofold (apply_update add_str del_str) us down_ac = Some st \<and>
     acch (dM st) (map (\<lambda>c. (c, 0)) page) 0 (length page) keyword win0 st0 =
       Some (if \<exists>k\<in>set ks. sublist k page then 1 else 0, i, s)"
  using acch_literal_page [OF assms, of win0 st0] by blast

theorem acch_literals_exact_witness:
  "\<exists>st i s. ofold (apply_update add_str del_str) [Add ''b''] down_ac = Some st \<and>
     acch (dM st) [(CHR ''a'', 0), (CHR ''b'', 0)] 0 2 (replicate 1024 NUL) (\<lambda>_. NUL) (\<lambda>_. 0) = Some (1, i, s)"
proof -
  have "sublist ''b'' ''ab''" by (simp add: sublist_Cons_right)
  then show ?thesis
    using acch_literals_exact [of "[Add ''b'']" "[''b'']" "replicate 1024 NUL" "''ab''" "\<lambda>_. NUL" "\<lambda>_. 0"]
    by (simp add: keyword_ok_def WSIZE_def numeral_2_eq_2)
qed

end
