(* ===== verification/PageMatch.thy ===== *)
theory PageMatch
  imports Acch Log
begin

text \<open>
  The end of \<^verbatim>\<open>acsm.c\<close>: \<open>keyword_match\<close> searches the entries of a page, and
  \<open>add_log\<close> sends the end of the text that has been decoded.

  The arrays \<open>keyword\<close> and \<open>test\<close> of the stack are not initialised: their bytes, any values, are in
  \<open>page_env\<close>, with the clock and the addresses of the connection. In a page without a hit \<open>strstr\<close> searches
  \<open>keyword\<close> all the same; when no byte of it is zero this leaves the array (\<open>buf_str\<close> is \<open>None\<close>), and
  otherwise what it finds decides nothing.  \<open>utos\<close> is the list of the pairs of JSON form and keyword.
\<close>

record page_env =
  pe_now :: tm
  pe_location :: location_tuple
  pe_keyword :: "char list"   \<comment> \<open>\<open>char keyword[1024]\<close>\<close>
  pe_test :: "char list"      \<comment> \<open>\<open>char test[1000]\<close>\<close>

section \<open>The log entry\<close>

definition replace :: "char list \<Rightarrow> nat \<Rightarrow> char list option" where
  "replace buf n =
     (if n < length buf
      then Some (map (\<lambda>c. if c = CHR 0x0A \<or> c = CHR 0x0D \<or> c = CHR ''|'' then CHR '' '' else c) (take n buf) @ NUL # drop (Suc n) buf)
      else None)"

definition char_start :: "char \<Rightarrow> bool" where
  \<comment> \<open>ASCII, or the first byte of three\<close>
  "char_start c \<longleftrightarrow> of_char c < (128 :: nat) \<or> of_char c div (32 :: nat) = 7"

fun trim_back :: "char list \<Rightarrow> nat \<Rightarrow> nat" where
  "trim_back test 0 = 0"
| "trim_back test (Suc j) = (if char_start (test ! Suc j) then Suc j else trim_back test j)"

definition add_log :: "page_env \<Rightarrow> string \<Rightarrow> string \<Rightarrow> (nat \<times> string) option" where
  \<comment> \<open>for an empty text \<open>test[-1]\<close> is written\<close>
  "add_log env keyword text = do {
     log \<leftarrow> initlog (pe_now env) (pe_location env);
     log \<leftarrow> log_addkeyword keyword (log_set_gk_type 0 log);
     let size = min (length text) 400;
     test \<leftarrow> memcpy (pe_test env) 0 (take size text);
     test \<leftarrow> replace test size;
     let i = length (takeWhile (\<lambda>c. \<not> char_start c) (take size test));
     (if size = 0 then None
      else do {
        let j = trim_back test (size - 1);
        let test = test[j := NUL];
        (if i + j \<le> length test
         then do {
           t \<leftarrow> memcpy (fulltext log) 0 (take j (drop i test));
           sendlog (log\<lparr>fulltext := t\<rparr>) 0 }
         else None) }) }"

section \<open>The search of a page\<close>

definition plain_keyword :: "string \<times> string \<Rightarrow> char list \<Rightarrow> char list option" where
  \<comment> \<open>a keyword in its JSON form is replaced\<close>
  "plain_keyword u keyword = do {
     k \<leftarrow> buf_str keyword;
     (if strstr k (snd u) \<noteq> None
      then do { k0 \<leftarrow> memcpy keyword 0 (replicate (length k) NUL); memcpy k0 0 (fst u) }
      else Some keyword) }"

definition keyword_match ::
  "page_env \<Rightarrow> ACSMX_STRUCT \<Rightarrow> (string \<times> string) list \<Rightarrow> lz_entry list \<Rightarrow> nat \<Rightarrow> (nat \<Rightarrow> char) \<Rightarrow> (nat \<Rightarrow> int) \<Rightarrow>
   (bool \<times> (nat \<times> string) list \<times> (nat \<Rightarrow> char) \<times> (nat \<Rightarrow> int)) option" where
  \<comment> \<open>the result, what is sent, and the arrays \<open>win\<close> and \<open>st\<close>; \<open>offset\<close> is always 0, and neither automaton is null\<close>
  "keyword_match env M utos es len win st = do {
     (result, i, s) \<leftarrow> acch M es 0 len (pe_keyword env) win st;
     keyword \<leftarrow> ofold plain_keyword utos (a_keyword s);
     (if result \<noteq> 0
      then do {
        let text_length = (if len < i + 10 then len else i + 10);
        fulltext \<leftarrow> decodeing es text_length;
        let log_len = (if 200 < length fulltext then length fulltext - 200 else length fulltext);
        k \<leftarrow> buf_str keyword;
        line \<leftarrow> add_log env k (cstr (drop log_len fulltext));
        Some (True, [line], a_win s, a_st s) }
      else Some (False, [], a_win s, a_st s)) }"

section \<open>What is sent\<close>

definition clean :: "string \<Rightarrow> string" where
  "clean = map (\<lambda>c. if c = CHR 0x0A \<or> c = CHR 0x0D \<or> c = CHR ''|'' then CHR '' '' else c)"

lemma clean_bytes: "CHR ''|'' \<notin> set (clean s)" "NUL \<notin> set s \<Longrightarrow> NUL \<notin> set (clean s)" "length (clean s) = length s"
  by (auto simp: clean_def)

lemma replace_clean: "length s < length buf \<Longrightarrow> replace (s @ drop (length s) buf) (length s) = Some (clean s @ NUL # drop (Suc (length s)) buf)"
  by (simp add: replace_def clean_def Suc_diff_le)

lemma dec_word: "n < 65536 \<Longrightarrow> length (dec n) \<le> 5"
proof -
  assume "n < 65536"
  then have "n div 10 div 10 < 656" by simp
  moreover have "length (dec m) \<le> 3" if "m < 656" for m using that by (subst dec.simps, subst dec.simps, subst dec.simps) auto
  ultimately show ?thesis by (subst dec.simps, subst dec.simps) auto
qed

lemma trim_back_le: "trim_back test j \<le> j"
  by (induction j) auto

lemma cstr_take_clean:
  assumes "j \<le> length u" "NUL \<notin> set u" "i \<le> j"
  shows "cstr (take j (drop i (take j u @ NUL # rest))) = drop i (take j u)"
proof -
  define D where "D = drop i (take j u)"
  have "length D \<le> j" by (simp add: D_def)
  moreover have "drop i (take j u @ NUL # rest) = D @ NUL # rest" using assms by (simp add: D_def)
  ultimately have "take j (drop i (take j u @ NUL # rest)) = D @ take (j - length D) (NUL # rest)" by simp
  moreover have "NUL \<notin> set D" using assms(2) by (auto simp: D_def dest: in_set_dropD in_set_takeD)
  ultimately have "cstr (take j (drop i (take j u @ NUL # rest))) = D"
    by (cases "j - length D") (simp_all add: cstr_append)
  then show ?thesis by (simp only: D_def)
qed

lemma log_fields_text:
  assumes "log_fields l = Some fs" "buf_str t = Some ft"
  shows "log_fields (l\<lparr>fulltext := t\<rparr>) = Some (take 14 fs @ ft # drop 15 fs)"
  using assms by (auto simp: log_fields_def bind_Some_iff)

lemma trim_back_start:
  "k \<le> j \<Longrightarrow> char_start (test ! k) \<Longrightarrow> k \<le> trim_back test j"
  by (induction j) (auto simp: le_Suc_eq)

lemma add_log_line:
  assumes now: "tm_ok (pe_now env)" and test: "length (pe_test env) = 1000"
    and kw: "NUL \<notin> set keyword" "CHR ''|'' \<notin> set keyword" "length keyword < 300"
    and tx: "text \<noteq> []" "NUL \<notin> set text"
  shows "\<exists>line ft. add_log env keyword text = Some (LOGPORT, line) \<and> sublist ft (clean text) \<and> length ft < 400 \<and>
    split_on (CHR ''|'') line = (entry_fields (pe_now env) (pe_location env) 0 [] [] [] keyword 0 ft) @ [[CHR 0x0A]]"
proof -
  let ?now = "pe_now env" and ?lt = "pe_location env"
  define size where "size = min (length text) 400"
  define u where "u = clean (take size text)"
  have u: "length u = size" "0 < size" "size \<le> 400" "NUL \<notin> set u" "CHR ''|'' \<notin> set u"
  proof -
    have "NUL \<notin> set (take size text)" using tx(2) by (auto dest: in_set_takeD)
    then show "NUL \<notin> set u" "CHR ''|'' \<notin> set u" by (simp_all add: u_def clean_bytes)
  qed (use tx in \<open>simp_all add: u_def size_def clean_bytes\<close>)
  define rest where "rest = drop (Suc size) (pe_test env)"
  define i where "i = length (takeWhile (\<lambda>c. \<not> char_start c) (take size (u @ NUL # rest)))"
  define j where "j = trim_back (u @ NUL # rest) (size - 1)"
  have iu: "i = length (takeWhile (\<lambda>c. \<not> char_start c) u)" using u(1) by (simp add: i_def)
  have j: "j < size" using trim_back_le [of "u @ NUL # rest" "size - 1"] u(2) by (simp add: j_def)
  have i: "i \<le> size" using length_takeWhile_le [of _ u] u(1) by (simp add: iu)
  have ij: "i \<le> j \<or> j = 0"
  proof (cases "i < size")
    case True
    then have "char_start (u ! i)" using nth_length_takeWhile [of "\<lambda>c. \<not> char_start c" u] u(1) by (simp add: iu)
    then have "i \<le> trim_back (u @ NUL # rest) (size - 1)" using True u(1) by (intro trim_back_start) (auto simp: nth_append)
    then show ?thesis by (simp add: j_def)
  next
    case False
    then have "length (takeWhile (\<lambda>c. \<not> char_start c) u) = length u" using i u(1) by (simp add: iu)
    then have "takeWhile (\<lambda>c. \<not> char_start c) u = u" by (metis append_eq_conv_conj takeWhile_eq_take take_all order_refl)
    then have no: "\<not> char_start (u ! k)" if "k < size" for k
      using that u(1) by (metis nth_mem takeWhile_eq_all_conv)
    have "trim_back (u @ NUL # rest) m = 0" if "m < size" for m
      using that no u(1) by (induction m) (auto simp: nth_append)
    then show ?thesis using u(2) by (simp add: j_def)
  qed
  have t0: "memcpy (pe_test env) 0 (take size text) = Some (take size text @ drop size (pe_test env))"
    using test u(1,3) by (simp add: u_def clean_bytes)
  have t1: "replace (take size text @ drop size (pe_test env)) size = Some (u @ NUL # rest)"
    using replace_clean [of "take size text" "pe_test env"] test u(1,3) by (simp add: u_def rest_def clean_bytes)
  let ?t2 = "(u @ NUL # rest)[j := NUL]"
  have t2: "?t2 = take j u @ NUL # (drop (Suc j) u @ NUL # rest)" using j u(1) by (simp add: list_update_append upd_conv_take_nth_drop)
  define ft where "ft = (if j = 0 then [] else drop i (take j u))"
  have ft: "cstr (take j (drop i ?t2)) = ft"
  proof (cases "j = 0")
    case False
    then show ?thesis unfolding t2 using cstr_take_clean [of j u i] ij j u(1,4) by (simp add: ft_def)
  qed (simp add: ft_def cstr_def)
  have ft2: "sublist ft (clean text)" "length ft < 400"
  proof -
    have "sublist (drop i (take j (clean text))) (clean text)" by (meson sublist_drop sublist_take sublist_order.order_trans)
    moreover have "take j u = take j (clean text)" using j by (simp add: u_def clean_def take_map min_def)
    ultimately show "sublist ft (clean text)" by (simp add: ft_def)
    show "length ft < 400" using j u(1,3) by (auto simp: ft_def)
  qed
  have ftn: "NUL \<notin> set ft" "CHR ''|'' \<notin> set ft"
    using u(4,5) by (auto simp: ft_def dest: in_set_dropD in_set_takeD)
  define l where "l = log_entry ?now ?lt 0 [] [] [] keyword 0 []"
  have log: "log_addkeyword keyword (log_set_gk_type 0 (log_entry ?now ?lt 0 [] [] [] [] 0 [])) = Some l"
    using kw(3) by (simp add: log_addkeyword_entry l_def)
  have len: "length ?t2 = 1000" using u test by (simp add: rest_def)
  define t where "t = zpad 1000 (take j (drop i ?t2))"
  have cp: "memcpy (fulltext l) 0 (take j (drop i ?t2)) = Some t"
  proof -
    have "fulltext l = replicate 1000 NUL" by (simp add: l_def log_entry_def bzero_log_def zpad_Nil)
    then show ?thesis using j u(3) by (auto simp: t_def simp del: memcpy_Some)
  qed
  have bt: "buf_str t = Some ft"
  proof -
    have "\<not> 1000 \<le> j" using j u(3) by simp
    then have "NUL \<in> set t" by (simp add: t_def zpad_def)
    moreover have "cstr t = ft"
    proof (cases "NUL \<in> set (take j (drop i ?t2))")
      case True
      then obtain a b where ab: "take j (drop i ?t2) = a @ NUL # b" "NUL \<notin> set a" by (auto dest: split_list_first)
      then show ?thesis using ft by (simp add: t_def zpad_def cstr_append)
    next
      case False
      then show ?thesis using ft by (simp add: t_def zpad_def cstr_append)
    qed
    ultimately show ?thesis by (simp add: buf_str_def)
  qed
  have fs: "log_fields l = Some (entry_fields ?now ?lt 0 [] [] [] keyword 0 [])"
    unfolding l_def by (rule log_fields_entry) (use now kw in auto)
  define fs2 where "fs2 = entry_fields ?now ?lt 0 [] [] [] keyword 0 ft"
  have lf: "log_fields (l\<lparr>fulltext := t\<rparr>) = Some fs2"
    unfolding log_fields_text [OF fs bt] by (simp add: entry_fields_def fs2_def)
  have short: "length (concat (map (\<lambda>f. f @ ''|'') fs2)) \<le> 1198"
  proof -
    have d: "length (dec (unat (p :: 16 word))) \<le> 5" for p
      using unsigned_less [of p, where ?'a = nat] by (intro dec_word) simp
    have "length (dec 43) = 2" "length (dec 0) = 1" by (simp_all add: dec.simps)
    then show ?thesis
      using getlogtime_stamp(2) [OF now, of bzero_log] int_ntoa_short(1) [of "serverip ?lt"] int_ntoa_short(1) [of "clientip ?lt"]
        d [of "serverport ?lt"] d [of "clientport ?lt"] kw(3) ft2(2)
      by (simp add: fs2_def entry_fields_def sprintf_d_def PROCESSORID_def WEBSITE_def bzero_log_def)
  qed
  have bars: "\<forall>f\<in>set fs2. CHR ''|'' \<notin> set f" using kw ftn by (simp add: WEBSITE_def entry_fields_def fs2_def)
  have "add_log env keyword text = sendlog (l\<lparr>fulltext := t\<rparr>) 0"
  proof -
    have "size \<noteq> 0" "i + j \<le> length ?t2" using len i j u(2,3) by auto
    then show ?thesis
      by (simp only: add_log_def initlog_entry [OF now] log bind.bind_lunit Let_def size_def [symmetric] t0 t1
          i_def [symmetric] j_def [symmetric] if_False if_True cp)
  qed
  also have "\<dots> = Some (LOGPORT, concat (map (\<lambda>f. f @ ''|'') fs2) @ [CHR 0x0A])"
    using short by (simp add: sendlog_def lf)
  finally show ?thesis
    using split_on_fields [OF bars, of "[CHR 0x0A]"] ft2 unfolding fs2_def by (intro exI [of _ ft] exI) simp
qed

section \<open>The keyword that is reported\<close>

definition utos_ok :: "(string \<times> string) list \<Rightarrow> bool" where
  \<comment> \<open>a keyword is not longer than its JSON form\<close>
  "utos_ok utos \<longleftrightarrow> (\<forall>(plain, code) \<in> set utos. NUL \<notin> set plain \<and> length plain \<le> length code)"

lemma strstr_length: "strstr s t \<noteq> None \<Longrightarrow> length t \<le> length s"
  unfolding strstr_None_iff not_not by (rule sublist_length_le)

lemma plain_keyword_ok:
  assumes "NUL \<in> set keyword" "utos_ok [u]"
  shows "\<exists>k. plain_keyword u keyword = Some k \<and> length k = length keyword \<and> NUL \<in> set k \<and> (k = keyword \<or> cstr k = fst u)"
proof (cases "strstr (cstr keyword) (snd u) = None")
  case True
  then show ?thesis using assms(1) by (simp add: plain_keyword_def buf_str_def)
next
  case False
  let ?n = "length (cstr keyword)"
  obtain a b where ab: "keyword = a @ NUL # b" "NUL \<notin> set a" using assms(1) by (auto dest: split_list_first)
  then have n: "cstr keyword = a" by (simp add: cstr_append)
  have u: "NUL \<notin> set (fst u)" "length (fst u) \<le> length a"
    using assms(2) strstr_length [OF False] n by (auto simp: utos_ok_def)
  have k0: "memcpy keyword 0 (replicate ?n NUL) = Some (replicate (length a) NUL @ NUL # b)" by (simp add: ab n cstr_append)
  let ?k = "fst u @ replicate (length a - length (fst u)) NUL @ NUL # b"
  have k: "memcpy (replicate (length a) NUL @ NUL # b) 0 (fst u) = Some ?k" using u(2) by simp
  have "plain_keyword u keyword = Some ?k" using False assms(1) k0 k by (simp add: plain_keyword_def buf_str_def)
  moreover have "cstr ?k = fst u"
    using u(1) by (cases "length a - length (fst u)") (simp_all add: cstr_append)
  ultimately show ?thesis using u(2) by (simp add: ab)
qed

lemma plain_keywords_ok:
  assumes "NUL \<in> set keyword" "utos_ok utos"
  shows "\<exists>k. ofold plain_keyword utos keyword = Some k \<and> length k = length keyword \<and> NUL \<in> set k \<and>
    (k = keyword \<or> cstr k \<in> fst ` set utos)"
  using assms
proof (induction utos arbitrary: keyword)
  case (Cons u utos)
  obtain k where k: "plain_keyword u keyword = Some k" "length k = length keyword" "NUL \<in> set k" "k = keyword \<or> cstr k = fst u"
    using plain_keyword_ok [OF Cons.prems(1), of u] Cons.prems(2) by (auto simp: utos_ok_def)
  obtain k2 where "ofold plain_keyword utos k = Some k2" "length k2 = length k" "NUL \<in> set k2" "k2 = k \<or> cstr k2 \<in> fst ` set utos"
    using Cons.IH [OF k(3)] Cons.prems(2) by (auto simp: utos_ok_def)
  then show ?case using k by auto
qed simp

lemma keyword_match_hit:
  assumes hit: "acch M es 0 len (pe_keyword env) win st = Some (ret, i, s)" "ret \<noteq> 0"
    and kw: "NUL \<in> set (a_keyword s)" "utos_ok utos"
      "\<forall>k\<in>insert (cstr (a_keyword s)) (fst ` set utos). CHR ''|'' \<notin> set k \<and> length k < 300"
    and env: "tm_ok (pe_now env)" "length (pe_test env) = 1000"
    and out: "decodeing es (if len < i + 10 then len else i + 10) = Some out" "NUL \<notin> set out"
  shows "(length out \<le> 200 \<longrightarrow> keyword_match env M utos es len win st = None) \<and>
    (200 < length out \<longrightarrow> (\<exists>line k ft. keyword_match env M utos es len win st = Some (True, [(LOGPORT, line)], a_win s, a_st s) \<and>
       k \<in> insert (cstr (a_keyword s)) (fst ` set utos) \<and> sublist ft (clean (drop (length out - 200) out)) \<and>
       split_on (CHR ''|'') line = entry_fields (pe_now env) (pe_location env) 0 [] [] [] k 0 ft @ [[CHR 0x0A]]))"
proof -
  obtain k where k: "ofold plain_keyword utos (a_keyword s) = Some k" "NUL \<in> set k" "cstr k \<in> insert (cstr (a_keyword s)) (fst ` set utos)"
    using plain_keywords_ok [OF kw(1,2)] by blast
  have m: "keyword_match env M utos es len win st = (case add_log env (cstr k)
       (cstr (drop (if 200 < length out then length out - 200 else length out) out)) of
      None \<Rightarrow> None | Some line \<Rightarrow> Some (True, [line], a_win s, a_st s))"
    using hit k(1,2) out(1) by (auto simp: keyword_match_def buf_str_def Let_def split: option.splits)
  show ?thesis
  proof (cases "200 < length out")
    case False
    then have "add_log env (cstr k) (cstr (drop (length out) out)) = None"
      by (auto simp: add_log_def bind_None_iff Let_def cstr_def)
    then show ?thesis using False m by simp
  next
    case True
    let ?t = "drop (length out - 200) out"
    have n: "NUL \<notin> set ?t" using out(2) by (auto dest: in_set_dropD)
    have ne: "?t \<noteq> []" using True by simp
    have "CHR ''|'' \<notin> set (cstr k)" "length (cstr k) < 300" using kw(3) k(3) by auto
    from add_log_line [OF env NUL_notin_cstr this ne n] obtain line ft where
      l: "add_log env (cstr k) ?t = Some (LOGPORT, line)" "sublist ft (clean ?t)"
        "split_on (CHR ''|'') line = entry_fields (pe_now env) (pe_location env) 0 [] [] [] (cstr k) 0 ft @ [[CHR 0x0A]]"
      by blast
    have m2: "keyword_match env M utos es len win st = Some (True, [(LOGPORT, line)], a_win s, a_st s)"
      unfolding m using True l(1) n by simp
    have "\<not> length out \<le> 200" using True by simp
    moreover note m2 k(3) l(2,3)
    ultimately show ?thesis by (intro conjI impI exI) (assumption | simp)+
  qed
qed

lemma decode_literals:
  "length out + length cs \<le> 0x80000 \<Longrightarrow> decode_entries (map (\<lambda>c. (c, 0)) cs) out = Some (out @ cs)"
  by (induction cs arbitrary: out) (simp_all add: push_text_def)

lemma keyword_match_page:
  assumes "\<forall>u\<in>set us. update_ok u" "us \<noteq> []" "\<forall>s. Add s \<in> set us \<longrightarrow> length s < 1024"
    and ks: "ofold list_update_step us [] = Some ks"
    and env: "tm_ok (pe_now env)" "length (pe_test env) = 1000" "length (pe_keyword env) = 1024" "NUL \<in> set (pe_keyword env)"
    and kw: "utos_ok utos" "\<forall>k\<in>set ks \<union> fst ` set utos. CHR ''|'' \<notin> set k \<and> length k < 300"
    and page: "length page + 1 < WSIZE" "NUL \<notin> set page"
  shows "\<exists>st win2 st2. ofold (apply_update add_str del_str) us down_ac = Some st \<and>
    (let r = keyword_match env (dM st) utos (map (\<lambda>c. (c, 0)) page) (length page) win1 st1;
         ends = (\<lambda>i. \<exists>k\<in>set ks. suffix k (take (Suc i) page)) in
     if \<exists>k\<in>set ks. sublist k page
     then \<exists>i<length page. ends i \<and> (\<forall>j<i. \<not> ends j) \<and>
       (if min (length page) (i + 10) \<le> 200 then r = None
        else \<exists>line k ft. r = Some (True, [(LOGPORT, line)], win2, st2) \<and> k \<in> set ks \<union> fst ` set utos \<and>
          sublist ft (clean (drop (min (length page) (i + 10) - 200) (take (i + 10) page))) \<and>
          split_on (CHR ''|'') line = entry_fields (pe_now env) (pe_location env) 0 [] [] [] k 0 ft @ [[CHR 0x0A]])
     else r = Some (False, [], win2, st2))"
proof -
  let ?es = "map (\<lambda>c. (c, 0 :: nat)) page"
  obtain st i s where st: "ofold (apply_update add_str del_str) us down_ac = Some st"
    "acch (dM st) ?es 0 (length page) (pe_keyword env) win1 st1 = Some (if \<exists>k\<in>set ks. sublist k page then 1 else 0, i, s)"
    "length (a_keyword s) = 1024" "a_keyword s = pe_keyword env \<or> (\<exists>k\<in>set ks. buf_str (a_keyword s) = Some k)"
    "(\<exists>k\<in>set ks. sublist k page) \<longrightarrow> (\<exists>k\<in>set ks. buf_str (a_keyword s) = Some k) \<and> i < length page \<and>
       (\<exists>k\<in>set ks. suffix k (take (Suc i) page)) \<and> (\<forall>j<i. \<forall>k\<in>set ks. \<not> suffix k (take (Suc j) page))"
    using acch_literal_page [OF assms(1-4) env(3) page(1), of win1 st1] by blast
  have nul: "NUL \<in> set (a_keyword s)" using st(4) env(4) by (auto simp: buf_str_def split: if_splits)
  show ?thesis
  proof (cases "\<exists>k\<in>set ks. sublist k page")
    case False
    obtain k where "ofold plain_keyword utos (a_keyword s) = Some k" using plain_keywords_ok [OF nul kw(1)] by blast
    then have "keyword_match env (dM st) utos ?es (length page) win1 st1 = Some (False, [], a_win s, a_st s)"
      using st(2) False by (simp add: keyword_match_def)
    then show ?thesis using st(1) False by (auto simp: Let_def)
  next
    case True
    then have i: "i < length page" "\<exists>k\<in>set ks. suffix k (take (Suc i) page)" "\<forall>j<i. \<not> (\<exists>k\<in>set ks. suffix k (take (Suc j) page))"
      and kk: "\<exists>k\<in>set ks. buf_str (a_keyword s) = Some k" using st(5) by auto
    let ?n = "if length page < i + 10 then length page else i + 10"
    let ?out = "take (i + 10) page"
    have "take ?n ?es = map (\<lambda>c. (c, 0)) ?out" by (simp add: take_map)
    then have out: "decodeing ?es ?n = Some ?out" "NUL \<notin> set ?out" "length ?out = min (length page) (i + 10)"
      using decode_literals [of "[]" ?out] page by (auto simp: decodeing_def WSIZE_def dest: in_set_takeD)
    have kws: "\<forall>k\<in>insert (cstr (a_keyword s)) (fst ` set utos). CHR ''|'' \<notin> set k \<and> length k < 300"
      "cstr (a_keyword s) \<in> set ks" using kw(2) kk by (auto simp: buf_str_def split: if_splits)
    have hit: "acch (dM st) ?es 0 (length page) (pe_keyword env) win1 st1 = Some (1, i, s)" using st(2) True by simp
    note m = keyword_match_hit [OF hit _ nul kw(1) kws(1) env(1,2) out(1,2), unfolded out(3)]
    let ?r = "keyword_match env (dM st) utos ?es (length page) win1 st1"
    have "if min (length page) (i + 10) \<le> 200 then ?r = None
        else \<exists>line k ft. ?r = Some (True, [(LOGPORT, line)], a_win s, a_st s) \<and> k \<in> set ks \<union> fst ` set utos \<and>
          sublist ft (clean (drop (min (length page) (i + 10) - 200) ?out)) \<and>
          split_on (CHR ''|'') line = entry_fields (pe_now env) (pe_location env) 0 [] [] [] k 0 ft @ [[CHR 0x0A]]"
    proof (cases "min (length page) (i + 10) \<le> 200")
      case False
      with m obtain line k ft where "?r = Some (True, [(LOGPORT, line)], a_win s, a_st s)"
         "k \<in> insert (cstr (a_keyword s)) (fst ` set utos)" "sublist ft (clean (drop (min (length page) (i + 10) - 200) ?out))"
         "split_on (CHR ''|'') line = entry_fields (pe_now env) (pe_location env) 0 [] [] [] k 0 ft @ [[CHR 0x0A]]" by auto
      then show ?thesis using False kws(2) by (simp only: if_False) blast
    qed (use m in simp)
    then show ?thesis using st(1) True i unfolding Let_def by (intro exI [of _ st] exI [of _ "a_win s"] exI [of _ "a_st s"]) auto
  qed
qed

section \<open>Results\<close>

text \<open>C22: The search of a page without copies. Whatever keywords have been added and deleted, the result is whether a
  keyword occurs. Nothing is sent for a page without one. For a page with one, let \<open>n\<close> be the bytes up to nine behind the
  first end of a keyword: when there are more than 200, one line goes to the blocking port, whose text field is a part of the
  last 200 of them without bars and line ends; when there are at most 200, \<open>add_log\<close> gets an empty text and writes in
  front of its array.\<close>

theorem keyword_match_literals:
  assumes "\<forall>u\<in>set us. update_ok u" "us \<noteq> []" "\<forall>s. Add s \<in> set us \<longrightarrow> length s < 1024"
    and ks: "ofold list_update_step us [] = Some ks"
    and env: "tm_ok (pe_now env)" "length (pe_test env) = 1000" "length (pe_keyword env) = 1024" "NUL \<in> set (pe_keyword env)"
    and kw: "utos_ok utos" "\<forall>k\<in>set ks \<union> fst ` set utos. CHR ''|'' \<notin> set k \<and> length k < 300"
    and page: "length page + 1 < WSIZE" "NUL \<notin> set page"
  shows "\<exists>st win2 st2. ofold (apply_update add_str del_str) us down_ac = Some st \<and>
    (let r = keyword_match env (dM st) utos (map (\<lambda>c. (c, 0)) page) (length page) win1 st1;
         ends = (\<lambda>i. \<exists>k\<in>set ks. suffix k (take (Suc i) page)) in
     if \<exists>k\<in>set ks. sublist k page
     then \<exists>i<length page. ends i \<and> (\<forall>j<i. \<not> ends j) \<and>
       (if min (length page) (i + 10) \<le> 200 then r = None
        else \<exists>line k ft. r = Some (True, [(LOGPORT, line)], win2, st2) \<and> k \<in> set ks \<union> fst ` set utos \<and>
          sublist ft (clean (drop (min (length page) (i + 10) - 200) (take (i + 10) page))) \<and>
          split_on (CHR ''|'') line = entry_fields (pe_now env) (pe_location env) 0 [] [] [] k 0 ft @ [[CHR 0x0A]])
     else r = Some (False, [], win2, st2))"
  using keyword_match_page [OF assms] .

theorem keyword_match_literals_witness:
  "\<exists>st win2 st2 line k. ofold (apply_update add_str del_str) [Add ''b''] down_ac = Some st \<and>
    keyword_match \<lparr>pe_now = \<lparr>tm_year = 115, tm_mon = 5, tm_mday = 8, tm_hour = 1, tm_min = 2, tm_sec = 3, tv_usec = 4000\<rparr>,
        pe_location = \<lparr>serverport = 80, serverip = 0, clientport = 1, clientip = 0\<rparr>,
        pe_keyword = replicate 1024 NUL, pe_test = replicate 1000 NUL\<rparr>
      (dM st) [(''b'', ''b'')] (map (\<lambda>c. (c, 0)) (replicate 250 CHR ''a'' @ ''b'')) 251 (\<lambda>_. NUL) (\<lambda>_. 0) =
      Some (True, [(8888, line)], win2, st2) \<and> split_on (CHR ''|'') line ! 12 = ''b''"
proof -
  let ?now = "\<lparr>tm_year = 115, tm_mon = 5, tm_mday = 8, tm_hour = 1, tm_min = 2, tm_sec = 3, tv_usec = 4000\<rparr>"
  let ?env = "\<lparr>pe_now = ?now, pe_location = \<lparr>serverport = 80, serverip = 0, clientport = 1, clientip = 0\<rparr>,
        pe_keyword = replicate 1024 NUL, pe_test = replicate 1000 NUL\<rparr>"
  define page where "page = replicate 250 CHR ''a'' @ ''b''"
  have len: "length page = 251" by (simp add: page_def)
  have ok: "\<forall>u\<in>set [Add ''b'']. update_ok u" "[Add ''b''] \<noteq> []" "\<forall>s. Add s \<in> set [Add ''b''] \<longrightarrow> length s < 1024"
    "ofold list_update_step [Add ''b''] [] = Some [''b'']" "tm_ok (pe_now ?env)" "length (pe_test ?env) = 1000"
    "length (pe_keyword ?env) = 1024" "NUL \<in> set (pe_keyword ?env)" "utos_ok [(''b'', ''b'')]"
    "\<forall>k\<in>set [''b''] \<union> fst ` set [(''b'', ''b'')]. CHR ''|'' \<notin> set k \<and> length k < 300"
    "length page + 1 < WSIZE" "NUL \<notin> set page"
    by (simp_all add: keyword_ok_def tm_ok_def utos_ok_def WSIZE_def page_def)
  obtain st win2 st2 where st: "ofold (apply_update add_str del_str) [Add ''b''] down_ac = Some st"
    "let r = keyword_match ?env (dM st) [(''b'', ''b'')] (map (\<lambda>c. (c, 0)) page) (length page) (\<lambda>_. NUL) (\<lambda>_. 0);
         ends = (\<lambda>i. \<exists>k\<in>set [''b'']. suffix k (take (Suc i) page)) in
     if \<exists>k\<in>set [''b'']. sublist k page
     then \<exists>i<length page. ends i \<and> (\<forall>j<i. \<not> ends j) \<and>
       (if min (length page) (i + 10) \<le> 200 then r = None
        else \<exists>line k ft. r = Some (True, [(LOGPORT, line)], win2, st2) \<and> k \<in> set [''b''] \<union> fst ` set [(''b'', ''b'')] \<and>
          sublist ft (clean (drop (min (length page) (i + 10) - 200) (take (i + 10) page))) \<and>
          split_on (CHR ''|'') line = entry_fields (pe_now ?env) (pe_location ?env) 0 [] [] [] k 0 ft @ [[CHR 0x0A]])
     else r = Some (False, [], win2, st2)"
    using keyword_match_literals [OF ok, of "\<lambda>_. NUL" "\<lambda>_. 0"] by blast
  define r where "r = keyword_match ?env (dM st) [(''b'', ''b'')] (map (\<lambda>c. (c, 0)) page) 251 (\<lambda>_. NUL) (\<lambda>_. 0)"
  have "sublist ''b'' (replicate 250 CHR ''a'' @ ''b'' @ [])" by (rule sublist_appendI)
  then have "sublist ''b'' page" by (simp add: page_def)
  then have "\<exists>k\<in>set [''b'']. sublist k page" by simp
  with st(2) obtain i where i: "i < 251" "suffix ''b'' (take (Suc i) page)" and
    r: "if min 251 (i + 10) \<le> 200 then r = None
        else \<exists>line k ft. r = Some (True, [(LOGPORT, line)], win2, st2) \<and> k \<in> set [''b''] \<union> fst ` set [(''b'', ''b'')] \<and>
          sublist ft (clean (drop (min 251 (i + 10) - 200) (take (i + 10) page))) \<and>
          split_on (CHR ''|'') line = entry_fields (pe_now ?env) (pe_location ?env) 0 [] [] [] k 0 ft @ [[CHR 0x0A]]"
    unfolding Let_def len r_def [symmetric] by (simp only: if_True) (auto split del: if_split)
  have "i = 250"
  proof (rule ccontr)
    assume "i \<noteq> 250"
    then have "take (Suc i) page = replicate (Suc i) CHR ''a''" using i(1) by (simp add: page_def min_def del: replicate_Suc)
    then have "CHR ''b'' \<in> set (replicate (Suc i) CHR ''a'')" using i(2) set_mono_suffix by fastforce
    then show False by simp
  qed
  then have "\<not> min 251 (i + 10) \<le> 200" by simp
  with r obtain line k ft where "r = Some (True, [(LOGPORT, line)], win2, st2)" "k = ''b''"
      "split_on (CHR ''|'') line = entry_fields (pe_now ?env) (pe_location ?env) 0 [] [] [] k 0 ft @ [[CHR 0x0A]]"
    by (simp only: if_False) auto
  then show ?thesis using st(1) unfolding r_def LOGPORT_def page_def
    by (intro exI [of _ st] exI [of _ win2] exI [of _ st2] exI [of _ line] exI [of _ k]) (simp add: entry_fields_def)
qed

end
