(* ===== verification/Huft.thy ===== *)
theory Huft
  imports CPrelude
begin

text \<open>
  \<open>huft_build\<close> of \<^verbatim>\<open>copeungz.c\<close>: the decoding tables of a set of code lengths.

  A table is the list of its entries, \<open>None\<close> where \<open>malloc\<close> has left an entry unset; the tables of one
  call are a list in the order of their creation, the first one the root, and a pointer to a table is its index.  Numbers
  of codes, bits and codes are natural numbers: all stay far below \<open>2 ^ 32\<close>.
\<close>

unbundle bit_operations_syntax

section \<open>Tables\<close>

datatype huft_value =
    Vn nat   \<comment> \<open>\<open>v.n\<close>: literal, length base, or distance base\<close>
  | Vt nat   \<comment> \<open>\<open>v.t\<close>: the next table\<close>

datatype huft = Huft (h_e: nat) (h_b: nat) (h_v: huft_value)

type_synonym huft_tables = "huft option list list"

definition BMAX :: nat where "BMAX = 16"
definition N_MAX :: nat where "N_MAX = 288"

definition huft_entry :: "huft_tables \<Rightarrow> nat \<Rightarrow> nat \<Rightarrow> huft option" where
  \<comment> \<open>the entry \<open>t[i]\<close>\<close>
  "huft_entry ts t i = (if t < length ts \<and> i < length (ts ! t) then ts ! t ! i else None)"

definition set_entry :: "huft_tables \<Rightarrow> nat \<Rightarrow> nat \<Rightarrow> huft \<Rightarrow> huft_tables option" where
  "set_entry ts t i r = (if t < length ts \<and> i < length (ts ! t) then Some (ts[t := (ts ! t)[i := Some r]]) else None)"

section \<open>Counting the lengths\<close>

definition count_lengths :: "nat list \<Rightarrow> nat list option" where
  \<comment> \<open>the \<open>do\<close> loop counts \<open>n\<close> down to zero, so \<open>n = 0\<close> runs out of \<open>b\<close>\<close>
  "count_lengths b =
     (if b = [] then None
      else ofold (\<lambda>k c. if k < length c then Some (c[k := c ! k + 1]) else None) b (replicate (BMAX + 1) 0))"

definition min_length :: "nat list \<Rightarrow> nat" where
  "min_length c = (case find (\<lambda>j. c ! j \<noteq> 0) [1..<BMAX + 1] of Some j \<Rightarrow> j | None \<Rightarrow> BMAX + 1)"

definition max_length :: "nat list \<Rightarrow> nat" where
  "max_length c = (case find (\<lambda>i. c ! i \<noteq> 0) (rev [1..<BMAX + 1]) of Some i \<Rightarrow> i | None \<Rightarrow> 0)"

definition dummy_codes :: "nat list \<Rightarrow> nat \<Rightarrow> nat \<Rightarrow> int option" where
  \<comment> \<open>the final \<open>y\<close>, or \<open>None\<close> for \<open>return 2\<close>\<close>
  "dummy_codes c j i = do {
     y \<leftarrow> ofold (\<lambda>j y. if y - int (c ! j) < 0 then None else Some (2 * (y - int (c ! j)))) [j..<i] (2 ^ j);
     (if y - int (c ! i) < 0 then None else Some (y - int (c ! i))) }"

definition offsets :: "nat list \<Rightarrow> nat \<Rightarrow> nat list" where
  "offsets c g = foldl (\<lambda>x k. x[k := x ! (k - 1) + c ! (k - 1)]) (replicate (BMAX + 1) 0) [2..<g + 1]"

definition sort_values :: "nat list \<Rightarrow> nat list \<Rightarrow> nat option list option" where
  \<comment> \<open>the array \<open>v\<close>, which is not initialised\<close>
  "sort_values b x = map_option snd (ofold (\<lambda>i (x, v).
     let j = b ! i in
     if j = 0 then Some (x, v)
     else if x ! j < length v then Some (x[j := x ! j + 1], v[x ! j := Some i]) else None)
     [0..<length b] (x, replicate N_MAX None))"

section \<open>Making the tables\<close>

record build =
  b_i :: nat             \<comment> \<open>the current code\<close>
  b_p :: nat             \<comment> \<open>\<open>p - v\<close>\<close>
  b_levels :: nat        \<comment> \<open>\<open>h + 1\<close>\<close>
  b_reach :: nat         \<comment> \<open>\<open>w + l\<close>\<close>
  b_x :: "nat list"
  b_u :: "nat list"
  b_q :: nat
  b_v :: huft_value      \<comment> \<open>\<open>r.v\<close>\<close>
  b_tables :: huft_tables

function size_loop :: "nat list \<Rightarrow> nat \<Rightarrow> nat \<Rightarrow> nat \<Rightarrow> nat \<Rightarrow> nat" where
  \<comment> \<open>\<open>xp\<close> is \<open>c + k\<close>\<close>
  "size_loop c z f j k =
     (if j + 1 < z
      then if 2 * f \<le> c ! (k + 1) then j + 1 else size_loop c z (2 * f - c ! (k + 1)) (j + 1) (k + 1)
      else j + 1)"
  by pat_completeness auto
termination by (relation "measure (\<lambda>(c, z, f, j, k). z - j)") auto

declare size_loop.simps [simp del]

definition table_bits :: "nat list \<Rightarrow> nat \<Rightarrow> nat \<Rightarrow> nat \<Rightarrow> nat \<Rightarrow> nat \<Rightarrow> nat" where
  \<comment> \<open>\<open>a\<close> is the number of codes of length \<open>k\<close> that are left, the current one included\<close>
  "table_bits c g l w k a =
     (let z = min (g - w) l; j = k - w; f = 2 ^ j in if a < f then size_loop c z (f - a) j k else j)"

definition open_table :: "nat list \<Rightarrow> nat \<Rightarrow> nat \<Rightarrow> nat \<Rightarrow> nat \<Rightarrow> build \<Rightarrow> build option" where
  "open_table c g l k a s =
     (let h = b_levels s; w = b_reach s; j = table_bits c g l w k a; q = length (b_tables s) in
      if h < length (b_u s)
      then let s1 = s\<lparr>b_levels := h + 1, b_reach := w + l, b_u := (b_u s)[h := q], b_q := q,
                      b_tables := b_tables s @ [replicate (2 ^ j) None]\<rparr> in
           if h = 0 then Some s1
           else do {
             ts \<leftarrow> set_entry (b_tables s1) (b_u s ! (h - 1)) (drop_bit (w - l) (b_i s)) (Huft (16 + j) l (Vt q));
             Some (s1\<lparr>b_x := (b_x s)[h := b_i s], b_v := Vt q, b_tables := ts\<rparr>) }
      else None)"

function open_tables :: "nat list \<Rightarrow> nat \<Rightarrow> nat \<Rightarrow> nat \<Rightarrow> nat \<Rightarrow> build \<Rightarrow> build option" where
  \<comment> \<open>the loop does not end for \<open>l = 0\<close>\<close>
  "open_tables c g l k a s =
     (if b_reach s < k
      then if l = 0 then None
           else (case open_table c g l k a s of None \<Rightarrow> None | Some s1 \<Rightarrow> open_tables c g l k a s1)
      else Some s)"
  by pat_completeness auto
termination
  by (relation "measure (\<lambda>(c, g, l, k, a, s). k - b_reach s)")
    (auto simp: open_table_def Let_def bind_Some_iff split: if_splits)

declare open_tables.simps [simp del]

definition make_entry ::
  "nat option list \<Rightarrow> nat \<Rightarrow> nat \<Rightarrow> nat list \<Rightarrow> nat list option \<Rightarrow> nat \<Rightarrow> build \<Rightarrow> (huft \<times> nat) option option" where
  \<comment> \<open>the entry \<open>r\<close> and the next \<open>p\<close>; \<open>Some None\<close> is \<open>return 2\<close>\<close>
  "make_entry v n s d e bits st =
     (if n \<le> b_p st then Some (Some (Huft 99 bits (b_v st), b_p st))
      else if b_p st < length v
      then do {
        val \<leftarrow> v ! b_p st;
        (if val < s then Some (Some (Huft (if val < 256 then 16 else 15) bits (Vn val), b_p st + 1))
         else (case e of
             None \<Rightarrow> Some None
           | Some es \<Rightarrow>
               if 30 < val - s then Some None
               else if val - s < length es \<and> val - s < length d
               then Some (Some (Huft (es ! (val - s)) bits (Vn (d ! (val - s))), b_p st + 1))
               else None)) }
      else None)"

function fill_entries :: "huft option list \<Rightarrow> nat \<Rightarrow> nat \<Rightarrow> huft \<Rightarrow> huft option list" where
  "fill_entries tbl j f r =
     (if j < length tbl \<and> 0 < f then fill_entries (tbl[j := Some r]) (j + f) f r else tbl)"
  by pat_completeness auto
termination by (relation "measure (\<lambda>(tbl, j, f, r). length tbl - j)") auto

declare fill_entries.simps [simp del]

fun rev_inc :: "nat \<Rightarrow> nat \<Rightarrow> nat" where
  \<comment> \<open>backwards increment of the \<open>k\<close>-bit code \<open>i\<close>\<close>
  "rev_inc 0 i = i"
| "rev_inc (Suc k) i = (if i AND 2 ^ k \<noteq> 0 then rev_inc k (i XOR 2 ^ k) else i XOR 2 ^ k)"

fun back_up :: "nat \<Rightarrow> nat \<Rightarrow> nat list \<Rightarrow> nat \<Rightarrow> nat \<Rightarrow> (nat \<times> nat) option" where
  \<comment> \<open>backup over finished tables\<close>
  "back_up l i x 0 reach = None"
| "back_up l i x (Suc h) reach =
     (if i AND (2 ^ (reach - l) - 1) \<noteq> x ! h then back_up l i x h (reach - l) else Some (Suc h, reach))"

fun build_codes ::
  "nat list \<Rightarrow> nat \<Rightarrow> nat \<Rightarrow> nat option list \<Rightarrow> nat \<Rightarrow> nat \<Rightarrow> nat list \<Rightarrow> nat list option \<Rightarrow> (nat \<times> nat) list \<Rightarrow> build \<Rightarrow>
   (bool \<times> build) option" where
  \<comment> \<open>over the lengths of the codes with the numbers of codes left; \<open>False\<close> is \<open>return 2\<close>\<close>
  "build_codes c g l v n s d e [] st = Some (True, st)"
| "build_codes c g l v n s d e ((k, a) # ks) st = do {
     st1 \<leftarrow> open_tables c g l k a st;
     r \<leftarrow> make_entry v n s d e (k - (b_reach st1 - l)) st1;
     (case r of
        None \<Rightarrow> Some (False, st1)
      | Some (r, p) \<Rightarrow>
          if b_q st1 < length (b_tables st1)
          then do {
            let w = b_reach st1 - l;
            let tbl = fill_entries (b_tables st1 ! b_q st1) (drop_bit w (b_i st1)) (2 ^ (k - w)) r;
            let i = rev_inc k (b_i st1);
            (levels, reach) \<leftarrow> back_up l i (b_x st1) (b_levels st1) (b_reach st1);
            build_codes c g l v n s d e ks
              (st1\<lparr>b_i := i, b_p := p, b_v := h_v r, b_levels := levels, b_reach := reach,
                   b_tables := (b_tables st1)[b_q st1 := tbl]\<rparr>) }
          else None) }"

definition code_list :: "nat list \<Rightarrow> nat \<Rightarrow> nat \<Rightarrow> (nat \<times> nat) list" where
  "code_list c k g = concat (map (\<lambda>k. map (Pair k) (rev [1..<c ! k + 1])) [k..<g + 1])"

definition huft_build ::
  "nat list \<Rightarrow> nat \<Rightarrow> nat list \<Rightarrow> nat list option \<Rightarrow> huft_tables option \<Rightarrow> nat \<Rightarrow> (nat \<times> huft_tables option \<times> nat) option" where
  \<comment> \<open>the return value, \<open>*t\<close> and \<open>*m\<close>\<close>
  "huft_build b s d e t m = do {
     c \<leftarrow> count_lengths b;
     (if c ! 0 = length b then Some (0, None, 0)
      else do {
        let j = min_length c;
        let i = max_length c;
        let l = (let l = (if m < j then j else m) in if i < l then i else l);
        (case dummy_codes c j i of
           None \<Rightarrow> Some (2, t, l)
         | Some y \<Rightarrow> do {
             let c = c[i := c ! i + nat y];
             let x = offsets c i;
             v \<leftarrow> sort_values b x;
             (ok, st) \<leftarrow> build_codes c i l v (length b) s d e (code_list c j i)
               \<lparr>b_i = 0, b_p = 0, b_levels = 0, b_reach = 0, b_x = x[0 := 0], b_u = replicate BMAX 0, b_q = 0,
                b_v = Vn 0, b_tables = []\<rparr>;
             Some (if \<not> ok then 2 else if y \<noteq> 0 \<and> i \<noteq> 1 then 1 else 0, Some (b_tables st), l) }) }) }"

section \<open>Reading the tables\<close>

partial_function (option) huft_walk :: "huft_tables \<Rightarrow> nat \<Rightarrow> nat \<Rightarrow> nat \<Rightarrow> nat \<Rightarrow> (huft \<times> nat) option" where
  \<comment> \<open>the entry that the stream \<open>b\<close> (its first bit the lowest one) leads to from table \<open>t\<close> of \<open>m\<close> bits, and the
      number of bits used\<close>
  "huft_walk ts t m b used = do {
     r \<leftarrow> huft_entry ts t (b mod 2 ^ m);
     (if 16 < h_e r \<and> h_e r \<noteq> 99
      then (case h_v r of
          Vt t1 \<Rightarrow> huft_walk ts t1 (h_e r - 16) (b div 2 ^ h_b r) (used + h_b r)
        | Vn _ \<Rightarrow> None)
      else Some (r, used + h_b r)) }"

end
