(* ===== verification/Crc.thy ===== *)
theory Crc
  imports CPrelude
begin

text \<open>
  \<open>updcrc\<close> of \<^verbatim>\<open>copeungz.c\<close>: the check sum of what has left the window, by table.  An
  \<open>unsigned long\<close> has 64 bits.
\<close>

unbundle bit_operations_syntax

section \<open>The code\<close>

definition crc_32_tab :: "64 word list" where
  "crc_32_tab =
  [0x00000000, 0x77073096, 0xee0e612c, 0x990951ba, 0x076dc419, 0x706af48f, 0xe963a535, 0x9e6495a3,
   0x0edb8832, 0x79dcb8a4, 0xe0d5e91e, 0x97d2d988, 0x09b64c2b, 0x7eb17cbd, 0xe7b82d07, 0x90bf1d91,
   0x1db71064, 0x6ab020f2, 0xf3b97148, 0x84be41de, 0x1adad47d, 0x6ddde4eb, 0xf4d4b551, 0x83d385c7,
   0x136c9856, 0x646ba8c0, 0xfd62f97a, 0x8a65c9ec, 0x14015c4f, 0x63066cd9, 0xfa0f3d63, 0x8d080df5,
   0x3b6e20c8, 0x4c69105e, 0xd56041e4, 0xa2677172, 0x3c03e4d1, 0x4b04d447, 0xd20d85fd, 0xa50ab56b,
   0x35b5a8fa, 0x42b2986c, 0xdbbbc9d6, 0xacbcf940, 0x32d86ce3, 0x45df5c75, 0xdcd60dcf, 0xabd13d59,
   0x26d930ac, 0x51de003a, 0xc8d75180, 0xbfd06116, 0x21b4f4b5, 0x56b3c423, 0xcfba9599, 0xb8bda50f,
   0x2802b89e, 0x5f058808, 0xc60cd9b2, 0xb10be924, 0x2f6f7c87, 0x58684c11, 0xc1611dab, 0xb6662d3d,
   0x76dc4190, 0x01db7106, 0x98d220bc, 0xefd5102a, 0x71b18589, 0x06b6b51f, 0x9fbfe4a5, 0xe8b8d433,
   0x7807c9a2, 0x0f00f934, 0x9609a88e, 0xe10e9818, 0x7f6a0dbb, 0x086d3d2d, 0x91646c97, 0xe6635c01,
   0x6b6b51f4, 0x1c6c6162, 0x856530d8, 0xf262004e, 0x6c0695ed, 0x1b01a57b, 0x8208f4c1, 0xf50fc457,
   0x65b0d9c6, 0x12b7e950, 0x8bbeb8ea, 0xfcb9887c, 0x62dd1ddf, 0x15da2d49, 0x8cd37cf3, 0xfbd44c65,
   0x4db26158, 0x3ab551ce, 0xa3bc0074, 0xd4bb30e2, 0x4adfa541, 0x3dd895d7, 0xa4d1c46d, 0xd3d6f4fb,
   0x4369e96a, 0x346ed9fc, 0xad678846, 0xda60b8d0, 0x44042d73, 0x33031de5, 0xaa0a4c5f, 0xdd0d7cc9,
   0x5005713c, 0x270241aa, 0xbe0b1010, 0xc90c2086, 0x5768b525, 0x206f85b3, 0xb966d409, 0xce61e49f,
   0x5edef90e, 0x29d9c998, 0xb0d09822, 0xc7d7a8b4, 0x59b33d17, 0x2eb40d81, 0xb7bd5c3b, 0xc0ba6cad,
   0xedb88320, 0x9abfb3b6, 0x03b6e20c, 0x74b1d29a, 0xead54739, 0x9dd277af, 0x04db2615, 0x73dc1683,
   0xe3630b12, 0x94643b84, 0x0d6d6a3e, 0x7a6a5aa8, 0xe40ecf0b, 0x9309ff9d, 0x0a00ae27, 0x7d079eb1,
   0xf00f9344, 0x8708a3d2, 0x1e01f268, 0x6906c2fe, 0xf762575d, 0x806567cb, 0x196c3671, 0x6e6b06e7,
   0xfed41b76, 0x89d32be0, 0x10da7a5a, 0x67dd4acc, 0xf9b9df6f, 0x8ebeeff9, 0x17b7be43, 0x60b08ed5,
   0xd6d6a3e8, 0xa1d1937e, 0x38d8c2c4, 0x4fdff252, 0xd1bb67f1, 0xa6bc5767, 0x3fb506dd, 0x48b2364b,
   0xd80d2bda, 0xaf0a1b4c, 0x36034af6, 0x41047a60, 0xdf60efc3, 0xa867df55, 0x316e8eef, 0x4669be79,
   0xcb61b38c, 0xbc66831a, 0x256fd2a0, 0x5268e236, 0xcc0c7795, 0xbb0b4703, 0x220216b9, 0x5505262f,
   0xc5ba3bbe, 0xb2bd0b28, 0x2bb45a92, 0x5cb36a04, 0xc2d7ffa7, 0xb5d0cf31, 0x2cd99e8b, 0x5bdeae1d,
   0x9b64c2b0, 0xec63f226, 0x756aa39c, 0x026d930a, 0x9c0906a9, 0xeb0e363f, 0x72076785, 0x05005713,
   0x95bf4a82, 0xe2b87a14, 0x7bb12bae, 0x0cb61b38, 0x92d28e9b, 0xe5d5be0d, 0x7cdcefb7, 0x0bdbdf21,
   0x86d3d2d4, 0xf1d4e242, 0x68ddb3f8, 0x1fda836e, 0x81be16cd, 0xf6b9265b, 0x6fb077e1, 0x18b74777,
   0x88085ae6, 0xff0f6a70, 0x66063bca, 0x11010b5c, 0x8f659eff, 0xf862ae69, 0x616bffd3, 0x166ccf45,
   0xa00ae278, 0xd70dd2ee, 0x4e048354, 0x3903b3c2, 0xa7672661, 0xd06016f7, 0x4969474d, 0x3e6e77db,
   0xaed16a4a, 0xd9d65adc, 0x40df0b66, 0x37d83bf0, 0xa9bcae53, 0xdebb9ec5, 0x47b2cf7f, 0x30b5ffe9,
   0xbdbdf21c, 0xcabac28a, 0x53b39330, 0x24b4a3a6, 0xbad03605, 0xcdd70693, 0x54de5729, 0x23d967bf,
   0xb3667a2e, 0xc4614ab8, 0x5d681b02, 0x2a6f2b94, 0xb40bbe37, 0xc30c8ea1, 0x5a05df1b, 0x2d02ef8d]"

definition crc_loop :: "8 word list \<Rightarrow> 64 word \<Rightarrow> 64 word" where
  "crc_loop s c = foldl (\<lambda>c b. crc_32_tab ! unat ((c XOR ucast b) AND 0xff) XOR drop_bit 8 c) c s"

definition updcrc :: "8 word list option \<Rightarrow> 64 word \<Rightarrow> 64 word \<times> 64 word" where
  \<comment> \<open>the result and the static \<open>crc\<close>; \<open>None\<close> is the null pointer, and \<open>n\<close> the length of the list\<close>
  "updcrc s crc =
     (let c = (case s of None \<Rightarrow> 0xffffffff | Some s \<Rightarrow> crc_loop s crc) in (c XOR 0xffffffff, c))"

section \<open>Division by the polynomial, bit by bit\<close>

definition crc_bit :: "64 word \<Rightarrow> 64 word" where
  "crc_bit c = (if bit c 0 then 0xedb88320 else 0) XOR drop_bit 1 c"

definition crc32 :: "8 word list \<Rightarrow> 64 word" where
  "crc32 s = foldl (\<lambda>c b. (crc_bit ^^ 8) (c XOR ucast b)) 0xffffffff s XOR 0xffffffff"

lemma crc_bit_xor: "crc_bit (a XOR b) = crc_bit a XOR crc_bit b"
  by (rule bit_word_eqI) (auto simp: crc_bit_def bit_simps)

lemma crc_bits_xor: "(crc_bit ^^ n) (a XOR b) = (crc_bit ^^ n) a XOR (crc_bit ^^ n) b"
  by (induction n) (simp_all add: crc_bit_xor)

lemma crc_bits_high: "take_bit n a = 0 \<Longrightarrow> (crc_bit ^^ n) a = drop_bit n a"
proof (induction n arbitrary: a)
  case (Suc n)
  have low: "\<not> bit a m" if "m < Suc n" for m
    using arg_cong [OF Suc.prems, of "\<lambda>w. bit w m"] that by (simp add: bit_take_bit_iff)
  have b0: "crc_bit a = drop_bit 1 a" using low [of 0] by (simp add: crc_bit_def)
  have "take_bit n (drop_bit 1 a) = 0"
    by (rule bit_word_eqI) (use low in \<open>auto simp: bit_simps\<close>)
  from Suc.IH [OF this] show ?case by (simp add: funpow_Suc_right b0 del: funpow.simps)
qed simp

definition doubled :: "64 word list \<Rightarrow> 64 word \<Rightarrow> 64 word list" where
  "doubled xs p = xs @ map (\<lambda>x. x XOR p) xs"

lemma crc_bits_8: "(crc_bit ^^ 8) c = crc_bit (crc_bit (crc_bit (crc_bit (crc_bit (crc_bit (crc_bit (crc_bit c)))))))"
  by (simp add: numeral_eq_Suc)

lemma crc_powers:
  "map (crc_bit ^^ 8) [1, 2, 4, 8, 16, 32, 64, 128] =
    [0x77073096, 0xee0e612c, 0x076dc419, 0x0edb8832, 0x1db71064, 0x3b6e20c8, 0x76dc4190, 0xedb88320]"
  by (simp add: crc_bits_8 crc_bit_def)

lemma table_doubled:
  "crc_32_tab = foldl doubled [0]
    [0x77073096, 0xee0e612c, 0x076dc419, 0x0edb8832, 0x1db71064, 0x3b6e20c8, 0x76dc4190, 0xedb88320]"
  by (simp add: crc_32_tab_def doubled_def)

lemma word_double:
  assumes "i < 2 ^ k"
  shows "(word_of_nat (2 ^ k + i) :: 64 word) = word_of_nat i XOR 2 ^ k"
proof -
  have "\<not> bit (word_of_nat i :: 64 word) k" 
  proof -
    have "\<not> bit i k" using assms by (simp add: bit_iff_odd)
    then show ?thesis by (simp only: bit_of_nat_iff simp_thms)
  qed
  then have "(word_of_nat i :: 64 word) AND 2 ^ k = 0"
    by (intro bit_word_eqI) (auto simp: bit_simps)
  then show ?thesis by (simp add: add.commute disjunctive_add_eq_xor)
qed

lemma doubled_bits:
  "doubled (map (\<lambda>i. (crc_bit ^^ 8) (word_of_nat i)) [0..<2 ^ k]) ((crc_bit ^^ 8) (2 ^ k)) =
    map (\<lambda>i. (crc_bit ^^ 8) (word_of_nat i)) [0..<2 ^ Suc k]"
proof -
  have "[0..<2 ^ Suc k] = [0..<2 ^ k] @ map (\<lambda>i. 2 ^ k + i) [0..<2 ^ k]"
    using upt_add_eq_append [of 0 "2 ^ k" "2 ^ k"] by (simp add: map_add_upt mult_2 add.commute)
  moreover have "(crc_bit ^^ 8) (word_of_nat (2 ^ k + i)) = (crc_bit ^^ 8) (word_of_nat i) XOR (crc_bit ^^ 8) (2 ^ k)" if "i < 2 ^ k" for i
    unfolding word_double [OF that] by (rule crc_bits_xor)
  ultimately show ?thesis by (simp add: doubled_def o_def del: upt_Suc power_Suc of_nat_add)
qed

lemma crc_table: "crc_32_tab = map (\<lambda>i. (crc_bit ^^ 8) (word_of_nat i)) [0..<256]"
proof -
  have "foldl doubled [0] (map (\<lambda>k. (crc_bit ^^ 8) (2 ^ k)) [0..<n]) = map (\<lambda>i. (crc_bit ^^ 8) (word_of_nat i)) [0..<2 ^ n]" for n
  proof (induction n)
    case 0
    have "crc_bit 0 = 0" by (simp add: crc_bit_def)
    then show ?case by (simp add: crc_bits_8)
  next
    case (Suc n)
    then show ?case using doubled_bits [of n] by simp
  qed
  from this [of 8] have t: "foldl doubled [0] (map (\<lambda>k. (crc_bit ^^ 8) (2 ^ k)) [0..<8]) = map (\<lambda>i. (crc_bit ^^ 8) (word_of_nat i)) [0..<256]"
    by simp
  have "map (\<lambda>k. (crc_bit ^^ 8) (2 ^ k)) [0..<8] = map (crc_bit ^^ 8) (map (\<lambda>k. 2 ^ k) [0..<8])" by simp
  also have "map (\<lambda>k. 2 ^ k :: 64 word) [0..<8] = [1, 2, 4, 8, 16, 32, 64, 128]" by (simp add: upt_rec)
  finally show ?thesis using t unfolding crc_powers table_doubled by simp
qed

lemma crc_step: "crc_32_tab ! unat ((c XOR ucast b) AND 0xff) XOR drop_bit 8 c = (crc_bit ^^ 8) (c XOR ucast (b :: 8 word))"
proof -
  let ?x = "c XOR ucast b"
  have m: "?x AND 0xff = take_bit 8 ?x" using take_bit_eq_mask [of 8 ?x] by (simp add: mask_eq_exp_minus_1)
  have "crc_32_tab ! unat y = (crc_bit ^^ 8) y" if "unat y < 256" for y
    using that by (simp add: crc_table)
  moreover have "unat (take_bit 8 ?x) < 256" using take_bit_nat_less_exp [of 8 "unat ?x"] by (simp only: unsigned_take_bit_eq) simp
  ultimately have "crc_32_tab ! unat (take_bit 8 ?x) = (crc_bit ^^ 8) (take_bit 8 ?x)" by blast
  moreover have "drop_bit 8 c = (crc_bit ^^ 8) (?x XOR take_bit 8 ?x)"
  proof -
    have "take_bit 8 (?x XOR take_bit 8 ?x) = 0" by simp
    moreover have "drop_bit 8 (?x XOR take_bit 8 ?x) = drop_bit 8 c"
      by (rule bit_word_eqI) (auto simp: bit_simps dest: bit_imp_le_length)
    ultimately show ?thesis by (simp only: crc_bits_high)
  qed
  ultimately have "crc_32_tab ! unat (?x AND 0xff) XOR drop_bit 8 c = (crc_bit ^^ 8) (take_bit 8 ?x XOR (?x XOR take_bit 8 ?x))"
    unfolding m crc_bits_xor by simp
  then show ?thesis by (simp add: ac_simps)
qed

lemma crc_loop_bits: "crc_loop s c = foldl (\<lambda>c b. (crc_bit ^^ 8) (c XOR ucast b)) c s"
  unfolding crc_loop_def crc_step ..

section \<open>Results\<close>

text \<open>C25: After a call with the null pointer, calls of \<open>updcrc\<close> with the blocks of any data return the CRC-32 of
  the data, which is the remainder of the division by the polynomial, computed bit by bit.\<close>

theorem updcrc_blocks:
  "fst (updcrc (Some s) (foldl (\<lambda>crc s. snd (updcrc (Some s) crc)) (snd (updcrc None c)) ss)) = crc32 (concat ss @ s)"
proof -
  have "foldl (\<lambda>crc s. snd (updcrc (Some s) crc)) c ss = crc_loop (concat ss) c" for c
    by (induction ss arbitrary: c) (simp_all add: updcrc_def crc_loop_def Let_def)
  then show ?thesis by (simp add: updcrc_def Let_def crc_loop_bits crc32_def)
qed

end
