(* ===== verification/Inflate.thy ===== *)
theory Inflate
  imports PageMatch Huft Crc
begin

text \<open>
  The inflater of \<^verbatim>\<open>copeungz.c\<close>, which can stop when the segments of a stream run out and go on when
  the next one has come.

  \<open>inflater\<close> holds the head of the stream (its segments are \<open>blocks\<close>, each the bytes that were allocated for it,
  and a pointer to one its index), the fields of \<open>Head\<close>, where a stopped run is saved (names with \<open>h\<close>), and the
  globals.  \<open>inbuf\<close> is the rest of an object from the pointer on, and the empty list stands for a null buffer.
  Bits, numbers of bits and lengths are natural numbers that are taken modulo the size of their type where the code computes
  with them.  A pointer to an entry is its tables, the table and the index.
\<close>

section \<open>The state\<close>

type_synonym huft_ptr = "huft_tables \<times> nat \<times> nat"

record inflater =
  blocks :: "char list list"
  current_block :: "nat option"
  chunk_size :: int
  Head_size :: int
  Http_flag :: bool
  text_flag :: bool
  gzip_flag :: bool
  uchunk_flag :: bool
  lit :: nat
  dist :: nat
  litter_buf :: "char list"
  dist_buf :: "nat list"
  blocked :: bool                \<comment> \<open>\<open>a_tcp->gk_state == GK_STATE_BLOCK\<close>\<close>
  hbb :: nat
  hbk :: nat
  ht :: nat
  he :: nat
  hflag :: nat
  hj :: nat
  hnb :: nat
  hnl :: nat
  hnd :: nat
  hll :: "nat list"
  hbl :: nat
  hbd :: nat
  hee :: nat
  hn :: nat
  htl :: "huft_ptr option"
  htd :: "huft_ptr option"
  htt :: "huft_ptr option"
  inbuf :: "char list"
  insize :: nat
  inptr :: nat
  flag :: nat
  bb :: nat
  bk :: nat
  Empty :: bool
  wp :: nat
  slide :: "nat \<Rightarrow> 8 word"
  crc :: "64 word"
  part_nb :: int
  time_stamp :: nat
  header_bytes :: nat
  g_win :: "nat \<Rightarrow> char"          \<comment> \<open>\<open>win\<close> and \<open>st\<close> of \<^verbatim>\<open>acsm.c\<close>\<close>
  g_st :: "nat \<Rightarrow> int"
  sent :: "(nat \<times> string) list"

record inflate_env =
  ie_page :: page_env
  ie_M :: ACSMX_STRUCT
  ie_utos :: "(string \<times> string) list"

definition LIT_BUFSIZE :: nat where "LIT_BUFSIZE = 0x8000"

definition u32 :: "int \<Rightarrow> nat" where
  \<comment> \<open>conversion to \<open>unsigned\<close>\<close>
  "u32 x = nat (x mod 2 ^ 32)"

definition s32 :: "int \<Rightarrow> int" where
  \<comment> \<open>conversion to \<open>int\<close>\<close>
  "s32 x = (x + 2 ^ 31) mod 2 ^ 32 - 2 ^ 31"

definition mask_bits :: "nat \<Rightarrow> nat option" where
  "mask_bits n = (if n \<le> 16 then Some (2 ^ n - 1) else None)"

text \<open>
  A function that may return early: \<open>Inl r\<close> is \<open>return r\<close>, and \<open>Inr\<close> what the next statement goes on with.
\<close>

type_synonym 'a run = "inflater \<Rightarrow> ((nat + 'a) \<times> inflater) option"

definition next_step :: "'a run \<Rightarrow> ('a \<Rightarrow> 'b run) \<Rightarrow> 'b run" where
  "next_step m f st = (case m st of
     None \<Rightarrow> None
   | Some (Inl r, st1) \<Rightarrow> Some (Inl r, st1)
   | Some (Inr x, st1) \<Rightarrow> f x st1)"

definition go_on :: "'a \<Rightarrow> 'a run" where
  "go_on x st = Some (Inr x, st)"

section \<open>Lines of a segment\<close>

fun memmatch_loop :: "char list \<Rightarrow> char \<Rightarrow> nat \<Rightarrow> nat \<Rightarrow> nat \<Rightarrow> char option list \<Rightarrow> (char option list \<times> nat) option" where
  \<comment> \<open>the third argument is \<open>count - 1\<close>\<close>
  "memmatch_loop data c 0 i k dst = Some (dst, i + 1)"
| "memmatch_loop data c (Suc n) i k dst =
     (if i < length data \<and> k < length dst
      then let dst = dst[k := Some (data ! i)]; k = k + 1 in
        if data ! i = c \<or> length data \<le> i
        then (if k < length dst then Some (dst[k := Some NUL], i + 1) else None)
        else memmatch_loop data c n (i + 1) k dst
      else None)"

definition memmatch :: "char option list \<Rightarrow> char list \<Rightarrow> nat \<Rightarrow> char \<Rightarrow> nat \<Rightarrow> (char option list \<times> nat) option" where
  \<comment> \<open>\<open>memmatch(dst, data + i, c, count, head)\<close> on the current block: the new \<open>dst\<close> and the index of the pointer returned\<close>
  "memmatch dst data i c cnt = memmatch_loop data c (cnt - 1) i 0 dst"

definition set_prefix :: "char option list \<Rightarrow> string" where
  \<comment> \<open>the bytes in front of the first one that is not set\<close>
  "set_prefix dst = map the (takeWhile (\<lambda>x. x \<noteq> None) dst)"

definition strlen_buf :: "char option list \<Rightarrow> nat option" where
  "strlen_buf dst = map_option length (buf_str (set_prefix dst))"

definition digit_value :: "char \<Rightarrow> nat option" where
  "digit_value c =
     (let n = of_char c in
      if 48 \<le> n \<and> n < 58 then Some (n - 48)
      else if 65 \<le> n \<and> n < 91 then Some (n - 55)
      else if 97 \<le> n \<and> n < 123 then Some (n - 87) else None)"

definition is_base :: "nat \<Rightarrow> char \<Rightarrow> bool" where
  "is_base base c \<longleftrightarrow> (case digit_value c of None \<Rightarrow> False | Some d \<Rightarrow> d < base)"

definition strtol :: "string \<Rightarrow> nat \<Rightarrow> int option" where
  \<comment> \<open>the value, converted to \<open>int\<close>; the string must go on behind the digits\<close>
  "strtol cs base =
     (let u = dropWhile isspace cs;
          v = (if prefix ''-'' u \<or> prefix ''+'' u then tl u else u);
          w = (if base = 16 \<and> (prefix ''0x'' v \<or> prefix ''0X'' v) \<and> 2 < length v \<and> is_base 16 (v ! 2) then drop 2 v else v);
          ds = takeWhile (is_base base) w;
          n = foldl (\<lambda>n c. int base * n + int (the (digit_value c))) 0 ds;
          k = (if prefix ''-'' u then max (- (2 ^ 63)) (- n) else min (2 ^ 63 - 1) n)
      in if length ds < length w then Some (s32 k) else None)"

section \<open>Waiting for the next segment\<close>

definition block_data :: "inflater \<Rightarrow> char list option" where
  \<comment> \<open>\<open>current_block->data\<close>, whose length is \<open>current_block->len\<close>\<close>
  "block_data st = (case current_block st of None \<Rightarrow> None
     | Some i \<Rightarrow> if i < length (blocks st) then Some (blocks st ! i) else None)"

definition next_block :: "inflater \<Rightarrow> nat \<Rightarrow> nat option" where
  "next_block st i = (if i + 1 < length (blocks st) then Some (i + 1) else None)"

definition chunk_line :: "inflater \<Rightarrow> char list \<Rightarrow> char option list \<Rightarrow> nat \<Rightarrow> inflater option" where
  \<comment> \<open>from \<open>chunk_size = strtol(size,NULL,16)\<close> on, \<open>p\<close> the index of the pointer\<close>
  "chunk_line st data line p = do {
     c \<leftarrow> strtol (set_prefix line) 16;
     (c, p) \<leftarrow> (if c = 0 \<and> p = 2
               then do { (line, p) \<leftarrow> memmatch line data p (CHR 0x0A) 32; c \<leftarrow> strtol (set_prefix line) 16; Some (c, p) }
               else Some (c, p));
     let hs = (if length data < p then length data else p);
     let hs = (if length data = 2 \<and> c = 0 then length data else hs);
     Some (if c \<noteq> 0
           then st\<lparr>chunk_size := c, Head_size := int hs, inbuf := drop hs data,
                   insize := (if u32 c < length data - hs then u32 c else length data - hs), inptr := 0\<rparr>
           else st\<lparr>chunk_size := c, Head_size := int hs, insize := 0\<rparr>) }"

definition waitbuf :: "inflater \<Rightarrow> inflater option" where
  "waitbuf st0 =
     (let c = (if chunk_size st0 > 0 then s32 (chunk_size st0 - int (inptr st0)) else chunk_size st0);
          st = st0\<lparr>chunk_size := (if c < 0 then 0 else c)\<rparr> in
      case current_block st of
        None \<Rightarrow> Some (st\<lparr>Empty := True, gzip_flag := False\<rparr>)
      | Some i \<Rightarrow> do {
          d \<leftarrow> block_data st;
          let step = (chunk_size st \<noteq> 0 \<or> insize st = u32 (int (length d) - Head_size st) \<or>
                      insize st = u32 (int (length d) - Head_size st - 2));
          let st1 = (if step then st\<lparr>current_block := next_block st i\<rparr> else st);
          (case current_block st1 of
             None \<Rightarrow> Some (st1\<lparr>current_block := Some i, Empty := True\<rparr>)
           | Some _ \<Rightarrow> do {
               data \<leftarrow> block_data st1;
               let st2 = st1\<lparr>inbuf := data\<rparr>;
               (if length data \<le> u32 (chunk_size st2)
                then Some (st2\<lparr>insize := length data, inptr := 0, Head_size := 0\<rparr>)
                else if chunk_size st2 > 0
                then Some (st2\<lparr>insize := u32 (chunk_size st2), inptr := 0, Head_size := 0\<rparr>)
                else if \<not> step
                then (if 4 < u32 (int (length data) - int (insize st2))
                      then (if length data < u32 (int (insize st2) + Head_size st2 + 2)
                            then Some (st2\<lparr>Empty := True\<rparr>)
                            else do {
                              (line, p) \<leftarrow> memmatch (replicate 32 None) data (u32 (int (insize st2) + Head_size st2 + 2)) (CHR 0x0A) 32;
                              c \<leftarrow> strtol (set_prefix line) 16;
                              (line, p) \<leftarrow> (if c = 0 then memmatch line data p (CHR 0x0A) 32 else Some (line, p));
                              chunk_line (st2\<lparr>chunk_size := c\<rparr>) data line p })
                      else Some (st2\<lparr>insize := u32 (int (length data) - Head_size st2)\<rparr>))
                else do {
                  (line, p) \<leftarrow> memmatch (replicate 32 None) data 0 (CHR 0x0A) 32;
                  n \<leftarrow> strlen_buf line;
                  chunk_line (st2\<lparr>Head_size := int n, insize := 0\<rparr>) data line p }) }) })"

section \<open>Bits\<close>

partial_function (option) needbits :: "nat \<Rightarrow> nat \<Rightarrow> nat \<Rightarrow> (nat \<times> nat) run" where
  \<comment> \<open>\<open>NEEDBITS(n)\<close> on \<open>b\<close> and \<open>k\<close>; without data the function that uses it returns 0\<close>
  "needbits n b k st =
     (if n \<le> k then Some (Inr (b, k), st)
      else if inptr st < insize st
      then (if inptr st < length (inbuf st)
            then needbits n ((b OR push_bit k (of_char (inbuf st ! inptr st))) mod 2 ^ 64) (k + 8) (st\<lparr>inptr := inptr st + 1\<rparr>)
            else None)
      else do {
        st1 \<leftarrow> waitbuf (st\<lparr>hflag := flag st, hbb := b, hbk := k\<rparr>);
        (if Empty st1 then Some (Inl 0, st1\<lparr>Empty := False\<rparr>) else needbits n b k st1) })"

record bits =
  r_b :: nat
  r_k :: nat

record regs = bits +
  r_e :: nat
  r_t :: "huft_ptr option"
  r_loop_flag :: nat
  r_loop :: nat

definition need :: "nat \<Rightarrow> 'a bits_scheme \<Rightarrow> 'a bits_scheme run" where
  "need n r = next_step (needbits n (r_b r) (r_k r)) (\<lambda>(b, k). go_on (r\<lparr>r_b := b, r_k := k\<rparr>))"

definition dumpbits :: "nat \<Rightarrow> 'a bits_scheme \<Rightarrow> 'a bits_scheme" where
  "dumpbits n r = r\<lparr>r_b := drop_bit n (r_b r), r_k := u32 (int (r_k r) - int n)\<rparr>"

section \<open>Entries of the tables\<close>

fun entry_at :: "huft_ptr \<Rightarrow> huft option" where
  "entry_at (ts, t, i) = huft_entry ts t i"

fun plus_ptr :: "huft_ptr \<Rightarrow> nat \<Rightarrow> huft_ptr" where
  "plus_ptr (ts, t, i) n = (ts, t, i + n)"

fun sub_table :: "huft_ptr \<Rightarrow> huft \<Rightarrow> huft_ptr option" where
  \<comment> \<open>\<open>t->v.t\<close>\<close>
  "sub_table (ts, t, i) h = (case h_v h of Vt t1 \<Rightarrow> Some (ts, t1, 0) | Vn _ \<Rightarrow> None)"

definition base_value :: "huft_ptr option \<Rightarrow> nat option" where
  \<comment> \<open>\<open>t->v.n\<close>\<close>
  "base_value t = do { p \<leftarrow> t; h \<leftarrow> entry_at p; (case h_v h of Vn n \<Rightarrow> Some n | Vt _ \<Rightarrow> None) }"

definition load_entry :: "huft_ptr \<Rightarrow> nat \<Rightarrow> regs \<Rightarrow> regs option" where
  \<comment> \<open>\<open>e = (t = p + ((unsigned)b & m))->e\<close>\<close>
  "load_entry p m r = do {
     let t = plus_ptr p (r_b r AND m);
     h \<leftarrow> entry_at t;
     Some (r\<lparr>r_e := h_e h, r_t := Some t\<rparr>) }"

partial_function (option) walk_lengths :: "regs \<Rightarrow> regs run" where
  \<comment> \<open>the \<open>do\<close> loop over the tables of lengths and literals\<close>
  "walk_lengths r st =
     (if r_e r = 99 then Some (Inl 1, st)
      else do {
        t \<leftarrow> r_t r;
        h \<leftarrow> entry_at t;
        let r1 = dumpbits (h_b h) r;
        let r2 = (if flag st = 0 then r1\<lparr>r_e := u32 (int (r_e r1) - 16)\<rparr> else r1);
        (x, st1) \<leftarrow> need (r_e r2) r2 (st\<lparr>hee := r_e r2, htt := Some t, flag := 10\<rparr>);
        (case x of
           Inl n \<Rightarrow> Some (Inl n, st1)
         | Inr r3 \<Rightarrow>
             if htt st1 = None then Some (Inl 1, st1)
             else do {
               m \<leftarrow> mask_bits (r_e r3);
               p \<leftarrow> sub_table t h;
               r4 \<leftarrow> load_entry p m r3;
               (if 16 < r_e r4 then walk_lengths r4 (st1\<lparr>flag := 0\<rparr>) else Some (Inr r4, st1\<lparr>flag := 0\<rparr>)) }) })"

partial_function (option) walk_dists :: "regs \<Rightarrow> regs run" where
  \<comment> \<open>the \<open>do\<close> loop over the tables of distances\<close>
  "walk_dists r st =
     (if r_e r = 99 then Some (Inl 1, st)
      else do {
        t \<leftarrow> r_t r;
        h \<leftarrow> entry_at t;
        let r2 = (if flag st = 0 then (dumpbits (h_b h) r)\<lparr>r_e := u32 (int (r_e r) - 16)\<rparr> else r);
        (x, st1) \<leftarrow> need (r_e r2) r2 (st\<lparr>hee := r_e r2, htt := Some t, flag := 13\<rparr>);
        (case x of
           Inl n \<Rightarrow> Some (Inl n, st1)
         | Inr r3 \<Rightarrow> do {
             m \<leftarrow> mask_bits (r_e r3);
             p \<leftarrow> sub_table t h;
             r4 \<leftarrow> load_entry p m r3;
             (if 16 < r_e r4 then walk_dists r4 (st1\<lparr>flag := 0\<rparr>) else Some (Inr r4, st1\<lparr>flag := 0\<rparr>)) }) })"

section \<open>The entries of a page\<close>

definition match_page :: "inflate_env \<Rightarrow> inflater \<Rightarrow> (bool \<times> inflater) option" where
  "match_page env st = do {
     (hit, lines, win, stat) \<leftarrow>
       keyword_match (ie_page env) (ie_M env) (ie_utos env) (zip (litter_buf st) (dist_buf st)) (lit st) (g_win st) (g_st st);
     Some (hit, st\<lparr>g_win := win, g_st := stat, sent := sent st @ lines\<rparr>) }"

definition flush_page :: "inflate_env \<Rightarrow> regs \<Rightarrow> regs run" where
  \<comment> \<open>what follows \<open>Head_buf->lit==LIT_BUFSIZE\<close>\<close>
  "flush_page env r st = do {
     (hit, st1) \<leftarrow> match_page env st;
     Some (if hit then (Inl 1, st1\<lparr>blocked := True, htt := None\<rparr>)
           else if 1 < r_loop r then (Inl 1, st1\<lparr>lit := 0, dist := 0, htt := None\<rparr>)
           else (Inr (r\<lparr>r_loop := r_loop r + 1\<rparr>), st1\<lparr>lit := 0, dist := 0\<rparr>)) }"

definition put_lit :: "nat \<Rightarrow> inflater \<Rightarrow> inflater option" where
  "put_lit c st =
     (if lit st < length (litter_buf st)
      then Some (st\<lparr>litter_buf := (litter_buf st)[lit st := char_of c], lit := lit st + 1\<rparr>) else None)"

definition put_dist :: "nat \<Rightarrow> inflater \<Rightarrow> inflater option" where
  "put_dist d st =
     (if dist st < length (dist_buf st)
      then Some (st\<lparr>dist_buf := (dist_buf st)[dist st := d mod 2 ^ 16], dist := dist st + 1\<rparr>) else None)"

definition literal_entry :: "inflate_env \<Rightarrow> regs \<Rightarrow> regs run" where
  "literal_entry env r st =
     (if r_t r = None then Some (Inl 1, st\<lparr>hee := r_e r\<rparr>)
      else do {
        n \<leftarrow> base_value (r_t r);
        st1 \<leftarrow> put_lit n (st\<lparr>hee := r_e r\<rparr>);
        st2 \<leftarrow> put_dist 0 st1;
        (if lit st2 = LIT_BUFSIZE then flush_page env r st2 else Some (Inr r, st2)) })"

definition end_of_block :: "regs \<Rightarrow> inflater \<Rightarrow> (regs \<times> inflater) option" where
  "end_of_block r st =
     (let (r1, st1) =
        (if u32 (chunk_size st) = insize st
         then (r\<lparr>r_b := 0, r_k := 0\<rparr>, st\<lparr>chunk_size := s32 (chunk_size st - int (insize st)), inptr := insize st\<rparr>)
         else (r, st));
        st2 = st1\<lparr>hflag := 0, htt := None, htl := None, htd := None\<rparr> in
      if chunk_size st2 = 0
      then do {
        data \<leftarrow> block_data st2;
        Some (r1, if u32 (int (length data) - Head_size st2 - int (insize st2)) = 7
                  then st2\<lparr>Http_flag := False, text_flag := False\<rparr> else st2) }
      else Some (r1, st2))"

definition length_entry :: "inflate_env \<Rightarrow> regs \<Rightarrow> regs run" where
  "length_entry env r st =
     (if flag st = 0 \<or> flag st = 11
      then next_step (need (r_e r) r) (\<lambda>r st.
        if htt st = None then Some (Inl 1, st\<lparr>flag := 0\<rparr>)
        else do {
          n \<leftarrow> base_value (r_t r);
          m \<leftarrow> mask_bits (r_e r);
          st1 \<leftarrow> put_lit ((n + 2 ^ 16 + (r_b r AND m) - 3) mod 2 ^ 8) (st\<lparr>flag := 0\<rparr>);
          next_step (if lit st1 = LIT_BUFSIZE then flush_page env r else go_on r) (\<lambda>r. go_on (dumpbits (r_e r) r)) st1 })
        (st\<lparr>hee := r_e r, flag := 11, htt := r_t r\<rparr>)
      else Some (Inr r, st))"

definition distance_code :: "huft_ptr \<Rightarrow> nat \<Rightarrow> regs \<Rightarrow> regs run" where
  \<comment> \<open>the states 12 and 13\<close>
  "distance_code tbd bd r =
     next_step (\<lambda>st.
        if flag st = 0 \<or> flag st = 12
        then next_step (need bd r) (\<lambda>r st. Some (Inr r, st\<lparr>flag := 0\<rparr>)) (st\<lparr>hee := r_e r, htt := r_t r, flag := 12\<rparr>)
        else Some (Inr r, st)) (\<lambda>r st.
     if flag st = 0 \<or> flag st = 13
     then do {
       md \<leftarrow> mask_bits bd;
       r1 \<leftarrow> (if flag st = 13 then Some r else load_entry tbd md r);
       next_step (if flag st = 13 \<or> 16 < r_e r1 then walk_dists r1 else go_on r1) (\<lambda>r st. do {
         t \<leftarrow> r_t r;
         h \<leftarrow> entry_at t;
         Some (Inr (dumpbits (h_b h) r), st\<lparr>hee := r_e r\<rparr>) }) st }
     else Some (Inr r, st))"

definition distance_entry :: "inflate_env \<Rightarrow> regs \<Rightarrow> regs run" where
  \<comment> \<open>the state 14\<close>
  "distance_entry env r st =
     (if flag st = 0 \<or> flag st = 14
      then next_step (need (r_e r) r) (\<lambda>r st.
        if htt st = None \<or> r_t r = None \<or> dist_buf st = [] then Some (Inl 1, st\<lparr>flag := 0\<rparr>)
        else do {
          n \<leftarrow> base_value (r_t r);
          m \<leftarrow> mask_bits (r_e r);
          st1 \<leftarrow> put_dist (n + (r_b r AND m)) (st\<lparr>flag := 0\<rparr>);
          next_step (if dist st1 = LIT_BUFSIZE then flush_page env r else go_on r) (\<lambda>r. go_on (dumpbits (r_e r) r)) st1 })
        (st\<lparr>flag := 14, htt := r_t r\<rparr>)
      else Some (Inr r, st))"

definition length_code :: "huft_ptr \<Rightarrow> nat \<Rightarrow> regs \<Rightarrow> regs run" where
  \<comment> \<open>the states 9 and 10\<close>
  "length_code tbl bl r =
     next_step (\<lambda>st.
        if flag st = 0 \<or> flag st = 9
        then next_step (need bl r) (\<lambda>r st. Some (Inr r, st\<lparr>flag := 0\<rparr>)) (st\<lparr>flag := 9, hee := r_e r\<rparr>)
        else Some (Inr r, st)) (\<lambda>r st.
     if flag st = 0 \<or> flag st = 10
     then do {
       ml \<leftarrow> mask_bits bl;
       r1 \<leftarrow> (if flag st = 10 then Some r else load_entry tbl ml r);
       next_step (if flag st = 10 \<or> 16 < r_e r1 then walk_lengths r1 else go_on r1) (\<lambda>r st. do {
         t \<leftarrow> r_t r;
         h \<leftarrow> entry_at t;
         Some (Inr (dumpbits (h_b h) r), st) }) st }
     else Some (Inr r, st))"

definition count_zero_bits :: "regs \<Rightarrow> regs run" where
  \<comment> \<open>the end of the loop body\<close>
  "count_zero_bits r st =
     (if r_e r = 0
      then (if 50 < r_loop_flag r + 1 then Some (Inl 1, st\<lparr>htt := None\<rparr>)
            else Some (Inr (r\<lparr>r_loop_flag := r_loop_flag r + 1\<rparr>), st))
      else Some (Inr (r\<lparr>r_loop_flag := 0\<rparr>), st))"

definition decode_entry :: "inflate_env \<Rightarrow> huft_ptr \<Rightarrow> huft_ptr \<Rightarrow> nat \<Rightarrow> nat \<Rightarrow> regs \<Rightarrow> (bool \<times> regs) run" where
  \<comment> \<open>the body of the loop; \<open>True\<close> is the \<open>break\<close>\<close>
  "decode_entry env tbl tbd bl bd r =
     next_step (length_code tbl bl r) (\<lambda>r.
     if r_e r = 16
     then next_step (literal_entry env r) (\<lambda>r. next_step (count_zero_bits r) (\<lambda>r. go_on (False, r)))
     else if r_e r = 15
     then (\<lambda>st. do { (r, st) \<leftarrow> end_of_block r st; Some (Inr (True, r), st) })
     else next_step (length_entry env r) (\<lambda>r.
          next_step (distance_code tbd bd r) (\<lambda>r.
          next_step (distance_entry env r) (\<lambda>r.
          next_step (count_zero_bits r) (\<lambda>r. go_on (False, r))))))"

partial_function (option) codes_loop :: "inflate_env \<Rightarrow> huft_ptr \<Rightarrow> huft_ptr \<Rightarrow> nat \<Rightarrow> nat \<Rightarrow> regs \<Rightarrow> regs run" where
  "codes_loop env tbl tbd bl bd r st = do {
     (x, st1) \<leftarrow> decode_entry env tbl tbd bl bd r st;
     (case x of
        Inl n \<Rightarrow> Some (Inl n, st1)
      | Inr (stop, r1) \<Rightarrow> if stop then Some (Inr r1, st1) else codes_loop env tbl tbd bl bd r1 st1) }"

definition inflate_codes :: "inflate_env \<Rightarrow> huft_ptr \<Rightarrow> huft_ptr \<Rightarrow> nat \<Rightarrow> nat \<Rightarrow> inflater \<Rightarrow> (nat \<times> inflater) option" where
  \<comment> \<open>the return value; \<open>e\<close> and \<open>t\<close> are set before they are used\<close>
  "inflate_codes env tbl tbd bl bd st = do {
     ml \<leftarrow> mask_bits bl;
     md \<leftarrow> mask_bits bd;
     let r = (if flag st \<noteq> 0
              then \<lparr>r_b = hbb st, r_k = hbk st, r_e = hee st, r_t = htt st, r_loop_flag = 0, r_loop = 0\<rparr>
              else \<lparr>r_b = bb st, r_k = bk st, r_e = 0, r_t = None, r_loop_flag = 0, r_loop = 0\<rparr>);
     (x, st1) \<leftarrow> codes_loop env tbl tbd bl bd r st;
     Some (case x of
        Inl n \<Rightarrow> (n, st1)
      | Inr r \<Rightarrow> (0, st1\<lparr>bb := r_b r, bk := r_k r, hbb := r_b r, hbk := r_k r\<rparr>)) }"

section \<open>Fixed codes\<close>

definition border :: "nat list" where
  "border = [16, 17, 18, 0, 8, 7, 9, 6, 10, 5, 11, 4, 12, 3, 13, 2, 14, 1, 15]"

definition cplens :: "nat list" where
  "cplens = [3, 4, 5, 6, 7, 8, 9, 10, 11, 13, 15, 17, 19, 23, 27, 31,
     35, 43, 51, 59, 67, 83, 99, 115, 131, 163, 195, 227, 258, 0, 0]"

definition cplext :: "nat list" where
  "cplext = [0, 0, 0, 0, 0, 0, 0, 0, 1, 1, 1, 1, 2, 2, 2, 2,
     3, 3, 3, 3, 4, 4, 4, 4, 5, 5, 5, 5, 0, 99, 99]"

definition cpdist :: "nat list" where
  "cpdist = [1, 2, 3, 4, 5, 7, 9, 13, 17, 25, 33, 49, 65, 97, 129, 193,
     257, 385, 513, 769, 1025, 1537, 2049, 3073, 4097, 6145, 8193, 12289, 16385, 24577]"

definition cpdext :: "nat list" where
  "cpdext = [0, 0, 0, 0, 1, 1, 2, 2, 3, 3, 4, 4, 5, 5, 6, 6, 7, 7, 8, 8, 9, 9, 10, 10, 11, 11, 12, 12, 13, 13]"

definition make_tables ::
  "nat list \<Rightarrow> nat \<Rightarrow> nat list \<Rightarrow> nat list option \<Rightarrow> huft_ptr option \<Rightarrow> nat \<Rightarrow> (nat \<times> huft_ptr option \<times> nat) option" where
  \<comment> \<open>\<open>huft_build\<close> on a pointer of the head\<close>
  "make_tables b s d e p m = do {
     (i, t, l) \<leftarrow> huft_build b s d e (map_option fst p) m;
     Some (i, map_option (\<lambda>ts. (ts, 0, 0)) t, l) }"

definition null_tables :: "inflater \<Rightarrow> inflater" where
  "null_tables st = st\<lparr>htl := None, htd := None, htt := None\<rparr>"

definition decode_page :: "inflate_env \<Rightarrow> nat \<Rightarrow> nat \<Rightarrow> inflater \<Rightarrow> (nat \<times> inflater) option" where
  \<comment> \<open>the end of \<open>inflate_fixed\<close> and of \<open>inflate_dynamic\<close>, from the test of the tables on\<close>
  "decode_page env bl bd st =
     (case (htl st, htd st) of
        (Some tbl, Some tbd) \<Rightarrow> do {
          (r, st1) \<leftarrow> inflate_codes env tbl tbd bl bd st;
          (if r \<noteq> 0 then Some (1, null_tables st1)
           else do {
             (hit, st2) \<leftarrow> match_page env st1;
             Some (if hit
                   then (1, if hflag st2 \<noteq> 0 then null_tables (st2\<lparr>blocked := True\<rparr>) else st2\<lparr>blocked := True\<rparr>)
                   else (0, st2)) }) }
      | _ \<Rightarrow> Some (1, st))"

definition fixed_lengths :: "nat list" where
  "fixed_lengths = replicate 144 8 @ replicate 112 9 @ replicate 24 7 @ replicate 8 8"

definition inflate_fixed :: "inflate_env \<Rightarrow> inflater \<Rightarrow> (nat \<times> inflater) option" where
  "inflate_fixed env st = do {
     (i, t, bl) \<leftarrow> make_tables fixed_lengths 257 cplens (Some cplext) (htl st) 7;
     let st1 = st\<lparr>htl := t\<rparr>;
     (if i \<noteq> 0 then Some (i, st1)
      else do {
        (i, t, bd) \<leftarrow> make_tables (replicate 30 5) 0 cpdist (Some cpdext) (htd st1) 5;
        let st2 = st1\<lparr>htd := t\<rparr>;
        (if 1 < i then Some (i, null_tables st2) else decode_page env bl bd st2) }) }"

section \<open>Dynamic codes\<close>

record dyn = bits +
  d_j :: nat
  d_nb :: nat
  d_nl :: nat
  d_nd :: nat
  d_ll :: "nat list"
  d_bl :: nat

definition dyn_counts :: "dyn \<Rightarrow> dyn run" where
  \<comment> \<open>the states 3, 4 and 5\<close>
  "dyn_counts d =
     next_step (\<lambda>st.
       if flag st = 0 \<or> flag st = 3
       then next_step (need 5 d) (\<lambda>d st. let n = 257 + (r_b d AND 0x1f) in
              Some (Inr ((dumpbits 5 d)\<lparr>d_nl := n\<rparr>), st\<lparr>flag := 0, hnl := n\<rparr>)) (st\<lparr>flag := 3\<rparr>)
       else Some (Inr d, st)) (\<lambda>d.
     next_step (\<lambda>st.
       if flag st = 0 \<or> flag st = 4
       then next_step (need 5 d) (\<lambda>d st. let n = 1 + (r_b d AND 0x1f) in
              Some (Inr ((dumpbits 5 d)\<lparr>d_nd := n\<rparr>), st\<lparr>flag := 0, hnd := n\<rparr>)) (st\<lparr>flag := 4\<rparr>)
       else Some (Inr d, st)) (\<lambda>d st.
     if flag st = 0 \<or> flag st = 5
     then next_step (need 4 d) (\<lambda>d st. let n = 4 + (r_b d AND 0xf) in
            Some (Inr ((dumpbits 4 d)\<lparr>d_nb := n\<rparr>), st\<lparr>flag := 0, hnb := n\<rparr>)) (st\<lparr>flag := 5\<rparr>)
     else Some (Inr d, st)))"

definition set_length :: "nat \<Rightarrow> nat \<Rightarrow> dyn \<Rightarrow> inflater \<Rightarrow> dyn \<times> inflater" where
  \<comment> \<open>in \<open>ll\<close> and in \<open>Head.ll\<close>\<close>
  "set_length i v d st = (d\<lparr>d_ll := (d_ll d)[i := v]\<rparr>, st\<lparr>hll := (hll st)[i := v]\<rparr>)"

definition set_lengths :: "nat list \<Rightarrow> nat \<Rightarrow> dyn \<Rightarrow> inflater \<Rightarrow> dyn \<times> inflater" where
  "set_lengths is v d st = foldl (\<lambda>(d, st) i. set_length i v d st) (d, st) is"

fun bit_lengths :: "nat list \<Rightarrow> dyn \<Rightarrow> dyn run" where
  \<comment> \<open>the loop of the state 6 over \<open>j\<close>\<close>
  "bit_lengths [] d st = Some (Inr d, st)"
| "bit_lengths (j # js) d st =
     next_step (need 3 d) (\<lambda>d st.
       let (d1, st1) = set_length (border ! j) (r_b d AND 7) d (st\<lparr>flag := 0\<rparr>) in bit_lengths js (dumpbits 3 d1) st1)
       (st\<lparr>flag := 6, hj := j\<rparr>)"

definition bit_length_codes :: "dyn \<Rightarrow> dyn run" where
  "bit_length_codes d st =
     (if flag st = 0 \<or> flag st = 6
      then next_step (bit_lengths [d_j d..<d_nb d] d) (\<lambda>d1 st.
        let j = (if d_j d < d_nb d then d_nb d else d_j d); (d2, st1) = set_lengths (map ((!) border) [j..<19]) 0 d1 st;
            j = (if j < 19 then 19 else j) in
        Some (Inr (d2\<lparr>d_j := j\<rparr>), st1\<lparr>hj := j\<rparr>)) st
      else Some (Inr d, st))"

definition repeat_length :: "nat \<Rightarrow> nat \<Rightarrow> nat \<Rightarrow> dyn \<Rightarrow> (nat \<times> nat \<times> dyn) run" where
  \<comment> \<open>the state 8: what the code \<open>j\<close> does to the lengths from \<open>i\<close> on and to the last length \<open>l\<close>\<close>
  "repeat_length n i l d =
     (if d_j d < 16
      then (\<lambda>st. let (d1, st1) = set_length i (d_j d) d st in Some (Inr (i + 1, d_j d, d1), st1))
      else
        (let bits = (if d_j d = 16 then 2 else if d_j d = 17 then 3 else 7);
             base = (if d_j d = 16 \<or> d_j d = 17 then 3 else 11);
             v = (if d_j d = 16 then l else 0) in
         next_step (need bits d) (\<lambda>d st.
           let j = base + (r_b d AND (2 ^ bits - 1)); d1 = dumpbits bits d in
           if n < i + j then Some (Inl 1, st)
           else let (d2, st1) = set_lengths [i..<i + j] v d1 st in
                Some (Inr (i + j, v, d2\<lparr>d_j := 2 ^ 32 - 1\<rparr>), st1))))"

definition length_symbol :: "nat \<Rightarrow> dyn \<Rightarrow> dyn run" where
  \<comment> \<open>the state 7\<close>
  "length_symbol m d st =
     (if flag st = 0 \<or> flag st = 7
      then next_step (need (d_bl d) d) (\<lambda>d st. case htl st of
          None \<Rightarrow> Some (Inl 1, st)
        | Some p \<Rightarrow> do {
            let t = plus_ptr p (r_b d AND m);
            h \<leftarrow> entry_at t;
            v \<leftarrow> base_value (Some t);
            Some (Inr ((dumpbits (h_b h) d)\<lparr>d_j := v\<rparr>), st\<lparr>htd := Some t, hj := v\<rparr>) }) (st\<lparr>flag := 7\<rparr>)
      else Some (Inr d, st))"

partial_function (option) code_lengths :: "nat \<Rightarrow> nat \<Rightarrow> nat \<Rightarrow> nat \<Rightarrow> dyn \<Rightarrow> dyn run" where
  "code_lengths n m i l d st =
     (if i < n
      then do {
        (x, st1) \<leftarrow> next_step (length_symbol m d) (\<lambda>d st. repeat_length n i l d (st\<lparr>flag := 8\<rparr>)) st;
        (case x of
           Inl r \<Rightarrow> Some (Inl r, st1)
         | Inr (i1, l1, d1) \<Rightarrow> code_lengths n m i1 l1 d1 (st1\<lparr>flag := 0, hj := d_j d1\<rparr>)) }
      else Some (Inr d, st))"

definition lbits :: nat where "lbits = 9"
definition dbits :: nat where "dbits = 6"

definition dyn_lengths :: "dyn run" where
  \<comment> \<open>up to the lengths of all codes; what is not set in \<open>ll\<close> is not read\<close>
  "dyn_lengths st =
     next_step (dyn_counts
       \<lparr>r_b = bb st, r_k = bk st, d_j = (if flag st = 0 then 0 else hj st), d_nb = hnb st, d_nl = hnl st, d_nd = hnd st,
        d_ll = hll st, d_bl = hbl st\<rparr>) (\<lambda>d st.
     if 286 < d_nl d \<or> 30 < d_nd d then Some (Inl 1, st)
     else next_step (bit_length_codes d) (\<lambda>d.
       next_step (\<lambda>st.
         if flag st = 0
         then do {
           (i, t, bl) \<leftarrow> make_tables (take 19 (d_ll d)) 19 [] None (htl st) 7;
           Some (if i \<noteq> 0 then (Inl i, null_tables st) else (Inr (d\<lparr>d_bl := bl\<rparr>), st\<lparr>htl := t\<rparr>)) }
         else Some (Inr d, st)) (\<lambda>d st. do {
       m \<leftarrow> mask_bits (d_bl d);
       let st = st\<lparr>hbl := d_bl d\<rparr>;
       (if flag st = 0 \<or> flag st = 7 \<or> flag st = 8 then code_lengths (d_nl d + d_nd d) m 0 0 d st else Some (Inr d, st)) })) st) st"

definition inflate_dynamic :: "inflate_env \<Rightarrow> inflater \<Rightarrow> (nat \<times> inflater) option" where
  "inflate_dynamic env st = do {
     (x, st1) \<leftarrow> dyn_lengths st;
     (case x of
        Inl r \<Rightarrow> Some (r, st1)
      | Inr d \<Rightarrow>
          if flag st1 < 9
          then do {
            let st2 = (null_tables st1)\<lparr>bb := r_b d, bk := r_k d, hbb := r_b d, hbk := r_k d\<rparr>;
            (i, t, bl) \<leftarrow> make_tables (take (d_nl d) (d_ll d)) 257 cplens (Some cplext) (htl st2) lbits;
            let st3 = st2\<lparr>htl := t\<rparr>;
            (if i \<noteq> 0 then Some (i, if i = 1 then null_tables st3 else st3)
             else do {
               (i, t, bd) \<leftarrow> make_tables (take (d_nd d) (drop (d_nl d) (d_ll d))) 0 cpdist (Some cpdext) (htd st3) dbits;
               (if i \<noteq> 0 then Some (i, null_tables st3)
                else decode_page env bl bd (st3\<lparr>htd := t, hbl := bl, hbd := bd\<rparr>)) }) }
          else decode_page env (hbl st1) (hbd st1) st1) }"

section \<open>Stored blocks\<close>

record stored = bits +
  s_n :: "nat option"   \<comment> \<open>\<open>None\<close> while it is not set\<close>
  s_w :: nat

definition put_slide :: "nat \<Rightarrow> nat \<Rightarrow> inflater \<Rightarrow> (nat \<times> inflater) option" where
  \<comment> \<open>\<open>slide[w++] = (uch)b\<close> and what follows when the window is full\<close>
  "put_slide b w st =
     (if w < 2 * WSIZE
      then let st1 = st\<lparr>slide := (slide st)(w := word_of_nat b)\<rparr>; w = w + 1 in
        Some (if w = WSIZE
              then (0, st1\<lparr>wp := w, crc := snd (updcrc (Some (map (slide st1) [0..<WSIZE])) (crc st1))\<rparr>)
              else (w, st1))
      else None)"

fun stored_bytes :: "nat \<Rightarrow> stored \<Rightarrow> stored run" where
  \<comment> \<open>\<open>while (n--)\<close>\<close>
  "stored_bytes 0 d st = Some (Inr d, st)"
| "stored_bytes (Suc n) d st =
     next_step (need 8 d) (\<lambda>d st. do {
       (w, st1) \<leftarrow> put_slide (r_b d) (s_w d) (st\<lparr>flag := 0\<rparr>);
       stored_bytes n (dumpbits 8 (d\<lparr>s_w := w\<rparr>)) st1 }) (st\<lparr>flag := 17, hn := n\<rparr>)"

definition stored_length :: "stored \<Rightarrow> stored run" where
  \<comment> \<open>the states 15 and 16\<close>
  "stored_length d =
     next_step (\<lambda>st.
       if flag st = 0 \<or> flag st = 15
       then next_step (need 16 d) (\<lambda>d st.
              Some (Inr ((dumpbits 16 d)\<lparr>s_n := Some (r_b d AND 0xffff)\<rparr>), st\<lparr>flag := 0\<rparr>)) (st\<lparr>flag := 15\<rparr>)
       else Some (Inr d, st)) (\<lambda>d st.
     if flag st = 0 \<or> flag st = 16
     then next_step (need 16 d) (\<lambda>d st. do {
            n \<leftarrow> s_n d;
            Some (if n \<noteq> 0xffff - (r_b d AND 0xffff) then Inl 1 else Inr (dumpbits 16 d), st\<lparr>flag := 0\<rparr>) }) (st\<lparr>flag := 16\<rparr>)
     else Some (Inr d, st))"

definition inflate_stored :: "inflater \<Rightarrow> (nat \<times> inflater) option" where
  "inflate_stored st = do {
     let d = \<lparr>r_b = bb st, r_k = bk st, s_n = (if flag st = 17 then Some (hn st) else None), s_w = wp st\<rparr>;
     let d = (if flag st = 0 then dumpbits (bk st AND 7) d else d);
     (x, st1) \<leftarrow> next_step (stored_length d) (\<lambda>d st.
       if flag st = 0 \<or> flag st = 17 then do { n \<leftarrow> s_n d; stored_bytes n d st } else Some (Inr d, st)) st;
     Some (case x of
        Inl r \<Rightarrow> (r, st1)
      | Inr d \<Rightarrow> (0, st1\<lparr>wp := s_w d, bb := r_b d, bk := r_k d, hbb := r_b d, hbk := r_k d\<rparr>)) }"

section \<open>Blocks\<close>

definition block_header :: "bits \<Rightarrow> bits run" where
  \<comment> \<open>the states 1 and 2\<close>
  "block_header d =
     next_step (\<lambda>st.
       if flag st = 0 \<or> flag st = 1
       then next_step (need 1 d) (\<lambda>d st. Some (Inr (dumpbits 1 d), st\<lparr>flag := 0, he := r_b d AND 1\<rparr>)) (st\<lparr>flag := 1\<rparr>)
       else Some (Inr d, st)) (\<lambda>d st.
     if flag st = 0 \<or> flag st = 2
     then next_step (need 2 d) (\<lambda>d st. Some (Inr (dumpbits 2 d), st\<lparr>flag := 0, ht := r_b d AND 3\<rparr>)) (st\<lparr>flag := 2\<rparr>)
     else Some (Inr d, st))"

definition inflate_block :: "inflate_env \<Rightarrow> inflater \<Rightarrow> (nat \<times> inflater) option" where
  \<comment> \<open>\<open>*e\<close> is always \<open>Head.e\<close>\<close>
  "inflate_block env st = do {
     (x, st1) \<leftarrow> block_header \<lparr>r_b = bb st, r_k = bk st\<rparr> st;
     (case x of
        Inl r \<Rightarrow> Some (r, st1)
      | Inr d \<Rightarrow>
          let st2 = st1\<lparr>bb := r_b d, bk := r_k d\<rparr> in
          if ht st2 = 2 then inflate_dynamic env st2
          else if ht st2 = 0 then inflate_stored st2
          else if ht st2 = 1 then inflate_fixed env st2
          else Some (2, st2)) }"

partial_function (option) blocks_loop :: "inflate_env \<Rightarrow> inflater \<Rightarrow> (nat \<times> inflater) option" where
  "blocks_loop env st = do {
     (r, st1) \<leftarrow> inflate_block env st;
     (if r \<noteq> 0 then Some (r, st1)
      else if he st1 = 0 \<and> hflag st1 = 0 then blocks_loop env st1
      else Some (0, st1)) }"

definition inflate :: "inflate_env \<Rightarrow> inflater \<Rightarrow> (nat \<times> inflater) option" where
  "inflate env st =
     blocks_loop env
       (if hflag st \<noteq> 0 then st\<lparr>flag := hflag st, bb := hbb st, bk := hbk st\<rparr>
        else null_tables (st\<lparr>flag := 0, bb := 0, bk := 0, lit := 0, dist := 0\<rparr>))"

section \<open>The header of a gzip member\<close>

definition get_byte :: "inflater \<Rightarrow> (nat \<times> inflater) option" where
  "get_byte st =
     (if inptr st < length (inbuf st) then Some (of_char (inbuf st ! inptr st), st\<lparr>inptr := inptr st + 1\<rparr>) else None)"

fun get_bytes :: "nat \<Rightarrow> inflater \<Rightarrow> (nat \<times> inflater) option" where
  \<comment> \<open>the lowest byte first\<close>
  "get_bytes 0 st = Some (0, st)"
| "get_bytes (Suc n) st = do { (c, st1) \<leftarrow> get_byte st; (v, st2) \<leftarrow> get_bytes n st1; Some (c + 256 * v, st2) }"

definition skip_name :: "inflater \<Rightarrow> (nat \<times> inflater) option" where
  \<comment> \<open>to behind the next zero byte; the number of bytes\<close>
  "skip_name st =
     (let s = drop (inptr st) (inbuf st); n = length (takeWhile (\<lambda>c. c \<noteq> NUL) s) in
      if n < length s then Some (n + 1, st\<lparr>inptr := inptr st + n + 1\<rparr>) else None)"

definition MAX_PATH_LEN :: nat where "MAX_PATH_LEN = 1024"

definition get_method :: "inflater \<Rightarrow> (int \<times> inflater) option" where
  \<comment> \<open>without the magic bytes the end is reached without a \<open>return\<close>, and the caller uses the value: undefined\<close>
  "get_method st = do {
     (m0, st) \<leftarrow> get_byte st;
     (m1, st) \<leftarrow> get_byte st;
     let st = st\<lparr>part_nb := part_nb st + 1, header_bytes := 0\<rparr>;
     (if m0 = 0x1f \<and> (m1 = 0x8b \<or> m1 = 0x9e)
      then do {
        (method, st) \<leftarrow> get_byte st;
        (if method \<noteq> 8 then Some (- 1, st)
         else do {
           (flags, st) \<leftarrow> get_byte st;
           (stamp, st) \<leftarrow> get_bytes 4 st;
           let st = (if stamp \<noteq> 0 then st\<lparr>time_stamp := stamp\<rparr> else st);
           (_, st) \<leftarrow> get_bytes 2 st;
           (_, st) \<leftarrow> (if bit flags 1 then get_bytes 2 st else Some (0, st));
           (_, st) \<leftarrow> (if bit flags 2 then do { (n, st) \<leftarrow> get_bytes 2 st; get_bytes n st } else Some (0, st));
           (n, st) \<leftarrow> (if bit flags 3 then skip_name st else Some (0, st));
           (if bit flags 3 \<and> part_nb st \<le> 1 \<and> MAX_PATH_LEN < n then None
            else do {
              (_, st) \<leftarrow> (if bit flags 4 then skip_name st else Some (0, st));
              Some (int method, if part_nb st = 1 then st\<lparr>header_bytes := inptr st + 16\<rparr> else st) }) }) }
      else None) }"

definition uncompress :: "inflate_env \<Rightarrow> char list \<Rightarrow> nat \<Rightarrow> inflater \<Rightarrow> inflater option" where
  \<comment> \<open>\<open>Http_flag\<close> is set when \<open>method==DEFLATED || Head_buf->Http_flag\<close> is tested\<close>
  "uncompress env str len st = do {
     let st = st\<lparr>inbuf := str, insize := len, inptr := 0, part_nb := 0\<rparr>;
     st \<leftarrow> (if \<not> Http_flag st \<or> uchunk_flag st
            then do { (_, st) \<leftarrow> get_method st; Some (st\<lparr>Http_flag := True, uchunk_flag := False\<rparr>) }
            else Some st);
     (r, st) \<leftarrow> inflate env st;
     Some (if r \<noteq> 0 then st\<lparr>gzip_flag := False\<rparr> else st) }"

section \<open>The header of the response\<close>

record response =
  r_text :: bool
  r_gzip :: bool
  r_chunked :: bool
  r_length :: "int option"   \<comment> \<open>\<open>Some\<close> with \<open>content_length_flag\<close>: the \<open>chunk_size\<close>\<close>

definition occurs :: "string \<Rightarrow> string \<Rightarrow> bool" where
  "occurs s line \<longleftrightarrow> strstr line s \<noteq> None"

definition content_length :: "string \<Rightarrow> int option" where
  \<comment> \<open>the number is copied into an object of \<open>strlen - 16\<close> bytes\<close>
  "content_length line = (if 16 \<le> length line then strtol (drop 16 line) 10 else None)"

fun header_lines :: "nat \<Rightarrow> char list \<Rightarrow> nat \<Rightarrow> char option list \<Rightarrow> response \<Rightarrow> (nat \<times> response option) option" where
  \<comment> \<open>the \<open>do\<close> loop: the index of \<open>p\<close>; \<open>None\<close> for the \<open>return\<close> on another type\<close>
  "header_lines 0 data p buf h = Some (p, Some h)"
| "header_lines (Suc n) data p buf h = do {
     (buf, p) \<leftarrow> memmatch buf data p (CHR 0x0A) 2048;
     line \<leftarrow> buf_str (set_prefix buf);
     h \<leftarrow> (if occurs ''Content-Length'' line
           then do { c \<leftarrow> content_length line; Some (h\<lparr>r_length := Some c\<rparr>) } else Some h);
     let h = h\<lparr>r_text := r_text h \<or> occurs ''text/html'' line, r_chunked := r_chunked h \<or> occurs ''chunked'' line,
               r_gzip := r_gzip h \<or> occurs ''gzip'' line\<rparr>;
     (if occurs ''Content-Type'' line \<and> \<not> occurs ''text/html'' line then Some (p, None)
      else if length line \<noteq> 2 then header_lines n data p buf h else Some (p, Some h)) }"

definition DelHeader :: "char list \<Rightarrow> inflater \<Rightarrow> (nat \<times> bool \<times> bool \<times> int option \<times> nat option \<times> inflater) option" where
  \<comment> \<open>the index of the pointer returned, and \<open>*text_flag\<close>, \<open>*gzip_flag\<close>, \<open>*chunk\<close> and \<open>*head_size\<close> (\<open>None\<close> where
      they are not set, or set to a value that is not)\<close>
  "DelHeader data st = do {
     (buf, p) \<leftarrow> memmatch (replicate 2048 None) data 0 (CHR 0x0A) 2048;
     (p, h) \<leftarrow> header_lines 100 data p buf \<lparr>r_text = False, r_gzip = False, r_chunked = False, r_length = None\<rparr>;
     (case h of
        None \<Rightarrow> Some (p, False, False, None, None, st)
      | Some h \<Rightarrow>
          if p = length data
          then Some (p, r_text h, r_gzip h, if r_chunked h \<or> r_length h = None then Some 0 else r_length h, Some p,
                     st\<lparr>Http_flag := True, uchunk_flag := True\<rparr>)
          else do {
            (p, c) \<leftarrow> (if r_chunked h
              then do {
                (size, p) \<leftarrow> memmatch (replicate 16 None) data p (CHR 0x0A) 16;
                c \<leftarrow> strtol (set_prefix size) 16;
                (if c = 10
                 then do {
                   (size, p) \<leftarrow> memmatch size data (p + 10) (CHR 0x0A) 16;
                   c \<leftarrow> strtol (set_prefix size) 16;
                   Some (p, Some c) }
                 else Some (p, Some c)) }
              else Some (p, r_length h));
            Some (p, r_text h, r_gzip h, c, Some (if length data < p then length data else p), st) }) }"

section \<open>One step of a stream\<close>

definition data_has :: "char list \<Rightarrow> string \<Rightarrow> bool option" where
  \<comment> \<open>\<open>strstr(data, s) != NULL\<close> on an object without a terminator\<close>
  "data_has data s = (if occurs s (cstr data) then Some True else if NUL \<in> set data then Some False else None)"

fun chunk_lines :: "nat \<Rightarrow> nat \<Rightarrow> nat \<Rightarrow> inflater \<Rightarrow> (nat option \<times> nat \<times> nat \<times> inflater) option" where
  \<comment> \<open>\<open>while (chunk_size == 0 && loop)\<close> with \<open>loop\<close>, \<open>temp\<close> and \<open>head_size\<close>; the first component is the final
      \<open>loop\<close>, and \<open>None\<close> for the \<open>return\<close>\<close>
  "chunk_lines 0 temp hs st = Some (Some 0, temp, hs, st)"
| "chunk_lines (Suc n) temp hs st =
     (if chunk_size st \<noteq> 0 then Some (Some (Suc n), temp, hs, st)
      else do {
        i \<leftarrow> current_block st;
        d \<leftarrow> block_data st;
        (if length d \<le> hs \<and> next_block st i = None then Some (None, temp, hs, st)
         else do {
           let (hs, st) = (if length d \<le> hs then (0, st\<lparr>current_block := next_block st i\<rparr>) else (hs, st));
           data \<leftarrow> block_data st;
           (size, temp) \<leftarrow> memmatch (replicate 16 None) data hs (CHR 0x0A) 10;
           c \<leftarrow> strtol (set_prefix size) 16;
           n1 \<leftarrow> strlen_buf size;
           let hs = hs + n1;
           (temp, hs) \<leftarrow> (if hs = 2 \<and> c = 0
             then do { (size, temp) \<leftarrow> memmatch size data temp (CHR 0x0A) 10; n2 \<leftarrow> strlen_buf size; Some (temp, hs + n2) }
             else Some (temp, hs));
           let st = st\<lparr>chunk_size := c, Head_size := int temp\<rparr>;
           (if c = 0 \<and> (hs = 3 \<or> hs = 7)
            then Some (Some n, temp, hs, st\<lparr>Http_flag := False, text_flag := False\<rparr>)
            else chunk_lines n temp hs st) }) })"

definition inflate_chunk :: "inflate_env \<Rightarrow> nat \<Rightarrow> nat \<Rightarrow> inflater \<Rightarrow> inflater option" where
  \<comment> \<open>from the test of \<open>loop\<close> on\<close>
  "inflate_chunk env temp hs st = do {
     i \<leftarrow> current_block st;
     d \<leftarrow> block_data st;
     (if (length d = hs \<or> hs + 2 = length d) \<and> next_block st i = None then Some st
      else do {
        let (temp, hs, st) = (if length d = hs \<or> hs + 2 = length d
                              then (0, 0, st\<lparr>current_block := next_block st i, Head_size := 0\<rparr>) else (temp, hs, st));
        data \<leftarrow> block_data st;
        let hs = (if hs = 0 \<and> u32 (chunk_size st) < length data then int (length data) - chunk_size st else int hs);
        st \<leftarrow> (if 0 < chunk_size st
               then uncompress env (drop temp data)
                      (if u32 (chunk_size st) < u32 (int (length data) - hs) then u32 (chunk_size st)
                       else u32 (int (length data) - hs)) st
               else Some st);
        (if chunk_size st = 10 \<and> hflag st = 0
         then do {
           i \<leftarrow> current_block st;
           Some (st\<lparr>current_block := (if Suc i = length (blocks st) then Some i else next_block st i), chunk_size := 0\<rparr>) }
         else Some (if chunk_size st \<le> 0 \<and> hflag st = 0 then st\<lparr>chunk_size := 0, Http_flag := False\<rparr> else st)) }) }"

definition process_gzip_data :: "inflate_env \<Rightarrow> inflater \<Rightarrow> inflater option" where
  \<comment> \<open>\<open>a_tcp\<close> is not null\<close>
  "process_gzip_data env st =
     (if blocks st = [] then Some st
      else case (case current_block st of None \<Rightarrow> Some 0 | Some i \<Rightarrow> next_block st i) of
        None \<Rightarrow> Some st
      | Some i \<Rightarrow>
          let st = st\<lparr>current_block := Some i\<rparr> in
          if litter_buf st = [] \<or> dist_buf st = [] then Some st
          else do {
            data \<leftarrow> block_data st;
            http \<leftarrow> data_has data ''HTTP/1'';
            http \<leftarrow> (if http then Some True else data_has data ''Content-Type:'');
            let st = st\<lparr>Http_flag := \<not> http\<rparr>;
            (temp, text, gzip, hs, st) \<leftarrow>
              (if http
               then do {
                 (p, text, gzip, c, hs, st) \<leftarrow> DelHeader data st;
                 let hs = (case hs of None \<Rightarrow> 0 | Some h \<Rightarrow> h);
                 (if text \<and> gzip \<and> c = None then None
                  else Some (p, text, gzip, hs,
                    st\<lparr>text_flag := text, gzip_flag := gzip, Head_size := int hs, hflag := 0,
                       chunk_size := (case c of None \<Rightarrow> chunk_size st | Some c \<Rightarrow> c)\<rparr>)) }
               else Some (0, text_flag st, gzip_flag st, 0, st));
            (if text \<and> gzip
             then do {
               (left, temp, hs, st) \<leftarrow> chunk_lines 10 temp hs st;
               (case left of
                  None \<Rightarrow> Some st
                | Some 0 \<Rightarrow> Some (st\<lparr>Http_flag := False\<rparr>)
                | Some _ \<Rightarrow> inflate_chunk env temp hs st) }
             else do {
               i \<leftarrow> current_block st;
               Some (st\<lparr>current_block := (case next_block st i of None \<Rightarrow> Some i | Some j \<Rightarrow> Some j), Http_flag := False\<rparr>) }) })"

end
