(* ===== verification/HuftBuild.thy ===== *)
theory HuftBuild
  imports Huft
begin

text \<open>
  The tables of \<open>huft_build\<close> decode the canonical prefix code of the lengths.

  Read with its first bit as the most significant one, a stream of \<open>g\<close> bits is a number below \<open>2 ^ g\<close>,
  and the codes in the order of their lengths cover consecutive intervals of these numbers.  The invariant of the loop over the
  codes says that every entry set so far is right (a code or the link to the table of a longer prefix), and that
  every entry for a number below the current code is set.
\<close>

section \<open>Reversed bits\<close>

lemma less_pow: "(i :: nat) < 2 ^ k \<Longrightarrow> k \<le> m \<Longrightarrow> i < 2 ^ m"
  by (erule less_le_trans) (rule power_increasing, auto)

fun rev_bits :: "nat \<Rightarrow> nat \<Rightarrow> nat" where
  "rev_bits 0 b = 0"
| "rev_bits (Suc k) b = (b mod 2) * 2 ^ k + rev_bits k (b div 2)"

lemma rev_bits_less: "rev_bits k b < 2 ^ k"
proof (induction k arbitrary: b)
  case (Suc k)
  have "b mod 2 = 0 \<or> b mod 2 = 1" by auto
  then show ?case using Suc [of "b div 2"] by auto
qed simp

lemma rev_bits_add: "rev_bits (k + m) b = rev_bits k b * 2 ^ m + rev_bits m (b div 2 ^ k)"
  by (induction k arbitrary: b) (auto simp: power_add algebra_simps div_mult2_eq)

lemma rev_bits_eq_iff: "rev_bits k a = rev_bits k b \<longleftrightarrow> a mod 2 ^ k = b mod 2 ^ k"
proof (induction k arbitrary: a b)
  case (Suc k)
  have "x * 2 ^ k + rev_bits k u = y * 2 ^ k + rev_bits k v \<longleftrightarrow> x = y \<and> rev_bits k u = rev_bits k v" for x y u v
  proof
    assume e: "x * 2 ^ k + rev_bits k u = y * 2 ^ k + rev_bits k v"
    have "(x * 2 ^ k + rev_bits k u) div 2 ^ k = x" "(y * 2 ^ k + rev_bits k v) div 2 ^ k = y"
      using rev_bits_less by simp_all
    then show "x = y \<and> rev_bits k u = rev_bits k v" using e by simp
  qed simp
  moreover have "a mod 2 ^ Suc k = b mod 2 ^ Suc k \<longleftrightarrow> a mod 2 = b mod 2 \<and> a div 2 mod 2 ^ k = b div 2 mod 2 ^ k"
  proof -
    have e: "c mod 2 ^ Suc k = 2 * (c div 2 mod 2 ^ k) + c mod 2" for c :: nat by (simp add: mod_mult2_eq)
    have "2 * x + y = 2 * u + v \<longleftrightarrow> y = v \<and> x = u" if "y < 2" "v < 2" for x y u v :: nat using that by presburger
    then show ?thesis unfolding e by simp
  qed
  ultimately show ?case using Suc.IH by simp
qed simp

lemma rev_bits_0 [simp]: "rev_bits k 0 = 0"
  by (induction k) auto

lemma rev_bits_mod: "rev_bits k (b mod 2 ^ k) = rev_bits k b"
  by (simp add: rev_bits_eq_iff)

lemma rev_bits_zero_iff: "rev_bits k b = 0 \<longleftrightarrow> b mod 2 ^ k = 0"
  using rev_bits_eq_iff [of k b 0] by simp

lemma rev_bits_Suc_last: "rev_bits (Suc k) b = 2 * rev_bits k b + (b div 2 ^ k) mod 2"
  using rev_bits_add [of k 1 b] by simp

lemma rev_bits_extend: "k \<le> g \<Longrightarrow> i < 2 ^ k \<Longrightarrow> rev_bits g i = rev_bits k i * 2 ^ (g - k)"
  using rev_bits_add [of k "g - k" i] by simp

lemma rev_bits_prefix: "k \<le> g \<Longrightarrow> rev_bits g b div 2 ^ (g - k) = rev_bits k b"
  using rev_bits_add [of k "g - k" b] rev_bits_less [of "g - k"] by (simp add: div_mult_self3)

lemma rev_bits_prefix_le: "k \<le> g \<Longrightarrow> rev_bits k b * 2 ^ (g - k) \<le> rev_bits g b \<and> rev_bits g b < (rev_bits k b + 1) * 2 ^ (g - k)"
  using rev_bits_add [of k "g - k" b] rev_bits_less [of "g - k" "b div 2 ^ k"] by simp

lemma and_exp_bit: "(i :: nat) AND 2 ^ k = 0 \<longleftrightarrow> even (i div 2 ^ k)"
  by (simp add: and_exp_eq_0_iff_not_bit bit_iff_odd)

lemma xor_exp: "(i :: nat) XOR 2 ^ k = (if odd (i div 2 ^ k) then i - 2 ^ k else i + 2 ^ k)"
proof -
  have clear: "j XOR 2 ^ k = j + 2 ^ k" if "\<not> bit j k" for j :: nat
  proof -
    have "j XOR 2 ^ k = flip_bit k j" by (simp add: flip_bit_eq_xor push_bit_eq_mult)
    also have "\<dots> = j + 2 ^ k" using that by (simp add: flip_bit_eq_if set_bit_eq)
    finally show ?thesis .
  qed
  show ?thesis
  proof (cases "bit i k")
    case True
    let ?j = "i XOR 2 ^ k"
    have "\<not> bit ?j k" using True by (simp add: bit_xor_iff bit_exp_iff)
    from clear [OF this] have "i = ?j + 2 ^ k" by (simp add: xor.assoc)
    then show ?thesis using True by (simp add: bit_iff_odd)
  qed (simp add: clear bit_iff_odd)
qed

lemma and_mask: "(i :: nat) AND (2 ^ w - Suc 0) = i mod 2 ^ w"
  by (metis take_bit_eq_mask take_bit_eq_mod mask_nat_def One_nat_def)

lemma rev_inc_bits:
  "i < 2 ^ k \<Longrightarrow> rev_inc k i < 2 ^ k \<and> rev_bits k (rev_inc k i) = (rev_bits k i + 1) mod 2 ^ k"
proof (induction k arbitrary: i)
  case (Suc k)
  show ?case
  proof (cases "odd (i div 2 ^ k)")
    case True
    let ?i = "i - 2 ^ k"
    have le: "2 ^ k \<le> i" using True by (metis div_less even_zero not_less)
    have i: "?i < 2 ^ k" "i mod 2 ^ k = ?i mod 2 ^ k" using Suc.prems le by (auto simp: le_mod_geq)
    have inc: "rev_inc (Suc k) i = rev_inc k ?i" using True by (simp add: and_exp_bit xor_exp del: power_Suc)
    have r: "rev_inc k ?i < 2 ^ k" "rev_bits k (rev_inc k ?i) = (rev_bits k i + 1) mod 2 ^ k"
      using Suc.IH [OF i(1)] i(2) rev_bits_eq_iff [of k ?i i] by simp_all
    have "rev_bits (Suc k) (rev_inc k ?i) = 2 * ((rev_bits k i + 1) mod 2 ^ k)"
      unfolding rev_bits_Suc_last r(2) using r(1) by simp
    also have "\<dots> = (rev_bits (Suc k) i + 1) mod 2 ^ Suc k"
      using True by (simp add: rev_bits_Suc_last odd_iff_mod_2_eq_one mult_mod_right del: rev_bits.simps)
    finally show ?thesis using inc r(1) by simp
  next
    case False
    have lt: "i < 2 ^ k"
    proof (rule ccontr)
      assume "\<not> i < 2 ^ k"
      then have "i div 2 ^ k = 1" using Suc.prems by (intro div_nat_eqI) auto
      then show False using False by simp
    qed
    have inc: "rev_inc (Suc k) i = i + 2 ^ k" using False by (simp add: and_exp_bit xor_exp del: power_Suc)
    have "(i + 2 ^ k) div 2 ^ k = 1" using lt by (simp add: div_add_self2)
    then have "rev_bits (Suc k) (i + 2 ^ k) = 2 * rev_bits k i + 1" "rev_bits (Suc k) i = 2 * rev_bits k i"
      using lt rev_bits_eq_iff [of k "i + 2 ^ k" i] by (simp_all add: rev_bits_Suc_last del: rev_bits.simps)
    then show ?thesis using inc lt rev_bits_less [of k i] by simp
  qed
qed simp

section \<open>Intervals of codes\<close>

definition apos :: "nat \<Rightarrow> nat list \<Rightarrow> nat \<Rightarrow> nat" where
  \<comment> \<open>where the codes from number \<open>t\<close> on begin\<close>
  "apos g Ks t = (\<Sum>k\<leftarrow>take t Ks. 2 ^ (g - k))"

definition bnd :: "nat \<Rightarrow> nat list \<Rightarrow> nat \<Rightarrow> nat" where
  \<comment> \<open>where the codes of at most \<open>q\<close> bits end\<close>
  "bnd g Ks q = (\<Sum>k\<leftarrow>filter (\<lambda>k. k \<le> q) Ks. 2 ^ (g - k))"

lemma apos_0 [simp]: "apos g Ks 0 = 0"
  by (simp add: apos_def)

lemma apos_Suc: "t < length Ks \<Longrightarrow> apos g Ks (Suc t) = apos g Ks t + 2 ^ (g - Ks ! t)"
  by (simp add: apos_def take_Suc_conv_app_nth)

lemma apos_mono: "s \<le> t \<Longrightarrow> apos g Ks s \<le> apos g Ks t"
  by (auto simp: apos_def take_add dest!: le_Suc_ex)

lemma bnd_Suc: "bnd g Ks (Suc q) = bnd g Ks q + count_list Ks (Suc q) * 2 ^ (g - Suc q)"
  unfolding bnd_def by (induction Ks) (auto simp: le_Suc_eq)

lemma bnd_all: "\<forall>k\<in>set Ks. k \<le> g \<Longrightarrow> bnd g Ks g = apos g Ks (length Ks)"
  by (simp add: bnd_def apos_def)

lemma sum_filter_le: "(\<Sum>x\<leftarrow>filter P xs. f x) \<le> (\<Sum>x\<leftarrow>xs. f x :: nat)"
  by (induction xs) auto

lemma drop_sorted: "sorted Ks \<Longrightarrow> t < length Ks \<Longrightarrow> k \<in> set (drop t Ks) \<Longrightarrow> Ks ! t \<le> (k :: nat)"
  by (auto simp: in_set_conv_nth intro!: sorted_nth_mono)

lemma length_by_bnd:
  assumes "sorted Ks" "t < length Ks" "apos g Ks t < bnd g Ks q"
  shows "Ks ! t \<le> q"
proof (rule ccontr)
  assume a: "\<not> Ks ! t \<le> q"
  have "q < k" if "k \<in> set (drop t Ks)" for k using drop_sorted [OF assms(1,2) that] a by simp
  then have "filter (\<lambda>k. k \<le> q) (drop t Ks) = []" by (force simp: filter_empty_conv)
  then have "filter (\<lambda>k. k \<le> q) (take t Ks @ drop t Ks) = filter (\<lambda>k. k \<le> q) (take t Ks)"
    by (simp only: filter_append append_Nil2)
  then have "bnd g Ks q = (\<Sum>k\<leftarrow>filter (\<lambda>k. k \<le> q) (take t Ks). 2 ^ (g - k))" by (simp add: bnd_def)
  also have "\<dots> \<le> apos g Ks t" unfolding apos_def by (rule sum_filter_le)
  finally show False using assms(3) by simp
qed

lemma apos_count:
  assumes "sorted Ks" "t < length Ks"
  shows "apos g Ks t + count_list (drop t Ks) (Ks ! t) * 2 ^ (g - Ks ! t) = bnd g Ks (Ks ! t)"
proof -
  have le: "\<forall>k\<in>set (take t Ks). k \<le> Ks ! t"
    using assms by (auto simp: in_set_conv_nth intro!: sorted_nth_mono)
  have ge: "\<forall>k\<in>set (drop t Ks). Ks ! t \<le> k"
    using drop_sorted [OF assms] by blast
  have "filter (\<lambda>k. k \<le> Ks ! t) (take t Ks @ drop t Ks) = take t Ks @ filter (\<lambda>k. k \<le> Ks ! t) (drop t Ks)"
    using le by (simp only: filter_append filter_True)
  moreover have "(\<Sum>k\<leftarrow>filter (\<lambda>k. k \<le> c) ks. 2 ^ (g - k)) = count_list ks c * (2 ^ (g - c) :: nat)"
    if "\<forall>k\<in>set ks. c \<le> k" for ks c
    using that by (induction ks) auto
  ultimately show ?thesis using ge by (simp add: bnd_def apos_def)
qed

section \<open>The size of a table\<close>

definition codes_ok :: "nat \<Rightarrow> nat \<Rightarrow> nat list \<Rightarrow> bool" where
  \<comment> \<open>\<open>Ks\<close>: the lengths of all codes, the dummy ones included\<close>
  "codes_ok g l Ks \<longleftrightarrow> sorted Ks \<and> Ks \<noteq> [] \<and> (\<forall>k\<in>set Ks. 0 < k \<and> k \<le> g) \<and> apos g Ks (length Ks) = 2 ^ g \<and>
     g \<in> set Ks \<and> 0 < l \<and> l \<le> g \<and> Ks ! 0 \<le> l \<and> g \<le> BMAX \<and> (g < 2 * l \<or> length Ks \<le> 2 ^ l)"

lemma codes_ok_nth: "codes_ok g l Ks \<Longrightarrow> t < length Ks \<Longrightarrow> 0 < Ks ! t \<and> Ks ! t \<le> g"
  by (simp add: codes_ok_def)

lemma codes_ok_bnd: "codes_ok g l Ks \<Longrightarrow> bnd g Ks g = 2 ^ g"
  by (simp add: codes_ok_def bnd_all)

lemma pow_split: "w \<le> k \<Longrightarrow> k \<le> g \<Longrightarrow> (2 :: nat) ^ (g - w) = 2 ^ (k - w) * 2 ^ (g - k)"
  by (simp flip: power_add)

lemma apos_rest_le: "(\<forall>k\<in>set (drop t Ks). q \<le> k) \<Longrightarrow> apos g Ks (length Ks) \<le> apos g Ks t + (length Ks - t) * 2 ^ (g - q)"
proof -
  assume q: "\<forall>k\<in>set (drop t Ks). q \<le> k"
  have "(\<Sum>k\<leftarrow>ks. 2 ^ (g - k)) \<le> length ks * (2 ^ (g - q) :: nat)" if "\<forall>k\<in>set ks. q \<le> k" for ks
    using that by (induction ks) (auto intro!: add_mono power_increasing diff_le_mono2)
  from this [OF q] have "(\<Sum>k\<leftarrow>drop t Ks. 2 ^ (g - k)) \<le> (length Ks - t) * (2 ^ (g - q) :: nat)" by simp
  moreover have "apos g Ks (length Ks) = apos g Ks t + (\<Sum>k\<leftarrow>drop t Ks. 2 ^ (g - k))"
    unfolding apos_def by (metis append_take_drop_id sum_list_append map_append take_all order_refl)
  ultimately show ?thesis by simp
qed

lemma deep_codes_short:
  assumes ok: "codes_ok g l Ks" and t: "t < length Ks" "0 < t" and w: "l \<le> w" "w < Ks ! t"
    and al: "apos g Ks t + 2 ^ (g - w) \<le> 2 ^ g"
  shows "Ks ! t - w < l"
proof (cases "g < 2 * l")
  case True
  then show ?thesis using w codes_ok_nth [OF ok t(1)] by linarith
next
  case False
  have k: "w \<le> Ks ! t" "Ks ! t \<le> g" using w codes_ok_nth [OF ok t(1)] by auto
  have "\<forall>k\<in>set (drop t Ks). Ks ! t \<le> k" using drop_sorted ok t(1) unfolding codes_ok_def by blast
  from apos_rest_le [OF this, of g] have "2 ^ g \<le> apos g Ks t + (length Ks - t) * 2 ^ (g - Ks ! t)"
    using ok by (simp add: codes_ok_def)
  then have "2 ^ (Ks ! t - w) * 2 ^ (g - Ks ! t) \<le> (length Ks - t) * 2 ^ (g - Ks ! t)"
    using al unfolding pow_split [OF k] by linarith
  then have "2 ^ (Ks ! t - w) \<le> length Ks - t" by simp
  also have "\<dots> < 2 ^ l" using False ok t by (auto simp: codes_ok_def)
  finally show ?thesis by simp
qed

lemma size_loop_bits:
  assumes "E = bnd g Ks (w + j) + f * 2 ^ (g - (w + j))" "0 < f" "j < z" "w + z \<le> g"
    and "\<forall>q\<le>g. 0 < q \<longrightarrow> c ! q = count_list Ks q"
  shows "j < size_loop c z f j (w + j) \<and> size_loop c z f j (w + j) \<le> z \<and>
    (size_loop c z f j (w + j) = z \<or> E \<le> bnd g Ks (w + size_loop c z f j (w + j)))"
  using assms(1-4)
proof (induction "z - j" arbitrary: f j)
  case 0
  then show ?case by simp
next
  case (Suc n)
  have half: "(2 :: nat) ^ (g - (w + j)) = 2 * 2 ^ (g - (w + (j + 1)))"
    using Suc.prems(3,4) by (simp flip: power_Suc add: Suc_diff_Suc)
  have b: "bnd g Ks (w + (j + 1)) = bnd g Ks (w + j) + c ! (w + j + 1) * 2 ^ (g - (w + (j + 1)))"
    using bnd_Suc [of g Ks "w + j"] assms(5) Suc.prems(3,4) by simp
  show ?case
  proof (cases "j + 1 < z")
    case False
    then show ?thesis using Suc.prems(3) by (subst (1 2 3 4) size_loop.simps) simp
  next
    case True
    show ?thesis
    proof (cases "2 * f \<le> c ! (w + j + 1)")
      case True
      then have "f * 2 ^ (g - (w + j)) \<le> c ! (w + j + 1) * 2 ^ (g - (w + (j + 1)))" unfolding half by simp
      then have "E \<le> bnd g Ks (w + (j + 1))" unfolding Suc.prems(1) b by simp
      then show ?thesis using \<open>j + 1 < z\<close> True by (subst (1 2 3 4) size_loop.simps) simp
    next
      case False
      let ?f = "2 * f - c ! (w + j + 1)"
      have "f * 2 ^ (g - (w + j)) = c ! (w + j + 1) * 2 ^ (g - (w + (j + 1))) + ?f * 2 ^ (g - (w + (j + 1)))"
        unfolding half using False by (simp flip: add_mult_distrib)
      then have E: "E = bnd g Ks (w + (j + 1)) + ?f * 2 ^ (g - (w + (j + 1)))" unfolding Suc.prems(1) b by simp
      have step: "size_loop c z f j (w + j) = size_loop c z ?f (j + 1) (w + (j + 1))"
        using True False by (subst size_loop.simps) simp
      have "n = z - (j + 1)" "0 < ?f" using Suc.hyps(2) False by auto
      from Suc.hyps(1) [OF this(1) E this(2) True Suc.prems(4)] show ?thesis unfolding step by auto
    qed
  qed
qed

lemma table_bits_fit:
  assumes ok: "codes_ok g l Ks" and t: "t < length Ks" and w: "w < Ks ! t"
    and cnt: "\<forall>q\<le>g. 0 < q \<longrightarrow> c ! q = count_list Ks q"
    and al: "apos g Ks t + 2 ^ (g - w) \<le> 2 ^ g"
    and short: "w = 0 \<Longrightarrow> Ks ! t \<le> l" "0 < w \<Longrightarrow> Ks ! t - w < l"
  defines "j \<equiv> table_bits c g l w (Ks ! t) (count_list (drop t Ks) (Ks ! t))"
  shows "0 < j" "w + min j l \<le> g" "min j l = l \<or> apos g Ks t + 2 ^ (g - w) \<le> bnd g Ks (w + min j l)" "0 < w \<Longrightarrow> j \<le> l"
proof -
  let ?k = "Ks ! t" and ?a = "count_list (drop t Ks) (Ks ! t)" and ?E = "apos g Ks t + 2 ^ (g - w)"
  let ?z = "min (g - w) l"
  have k: "w < ?k" "?k \<le> g" "l \<le> g" using w codes_ok_nth [OF ok t] ok by (simp_all add: codes_ok_def)
  have split: "(2 :: nat) ^ (g - w) = 2 ^ (?k - w) * 2 ^ (g - ?k)" by (rule pow_split) (use k in auto)
  have B: "apos g Ks t + ?a * 2 ^ (g - ?k) = bnd g Ks ?k"
    by (rule apos_count) (use ok t in \<open>auto simp: codes_ok_def\<close>)
  have goal: "0 < j \<and> w + min j l \<le> g \<and> (min j l = l \<or> ?E \<le> bnd g Ks (w + min j l)) \<and> (0 < w \<longrightarrow> j \<le> l)"
  proof (cases "?a < 2 ^ (?k - w)")
    case False
    then have j: "j = ?k - w" by (simp add: j_def table_bits_def)
    have "2 ^ (?k - w) * 2 ^ (g - ?k) \<le> ?a * 2 ^ (g - ?k)" using False by simp
    then have "?E \<le> bnd g Ks ?k" unfolding split using B by linarith
    moreover have "j \<le> l" using short j by (cases "w = 0") auto
    ultimately show ?thesis using k j by (simp add: min_absorb1)
  next
    case True
    have j: "j = size_loop c ?z (2 ^ (?k - w) - ?a) (?k - w) (w + (?k - w))"
      using True k by (simp add: j_def table_bits_def Let_def)
    have "2 ^ (?k - w) * 2 ^ (g - ?k) = ?a * 2 ^ (g - ?k) + (2 ^ (?k - w) - ?a) * 2 ^ (g - ?k)"
      using True by (simp flip: add_mult_distrib)
    then have E: "?E = bnd g Ks (w + (?k - w)) + (2 ^ (?k - w) - ?a) * 2 ^ (g - (w + (?k - w)))"
      unfolding split using B k by simp
    show ?thesis
    proof (cases "?k - w < ?z")
      case True
      have "w + ?z \<le> g" using k by simp
      from size_loop_bits [OF E _ True this cnt] \<open>?a < _\<close>
      have s: "?k - w < j" "j \<le> ?z" "j = ?z \<or> ?E \<le> bnd g Ks (w + j)" unfolding j by auto
      have "j = l \<or> ?E \<le> bnd g Ks (w + j)"
      proof (cases "j = ?z \<and> ?z \<noteq> l")
        case True
        then have "w + j = g" using k by auto
        then show ?thesis using codes_ok_bnd [OF ok] al by simp
      qed (use s in auto)
      then show ?thesis using s k by (auto simp: min_absorb1)
    next
      case False
      show ?thesis
      proof (cases "w = 0")
        case True
        then have kl: "?k - w = l" "?z = l" using False short(1) k by auto
        have "size_loop c l f l m = l + 1" for f m by (subst size_loop.simps) simp
        then have "j = l + 1" unfolding j kl by blast
        then show ?thesis using True k by simp
      next
        case False
        then have "?k = g" using \<open>\<not> ?k - w < ?z\<close> short(2) k by auto
        then have "?E = 2 ^ g + (2 ^ (?k - w) - ?a)" using E codes_ok_bnd [OF ok] k by simp
        then show ?thesis using al \<open>?a < _\<close> by linarith
      qed
    qed
  qed
  then show "0 < j" "w + min j l \<le> g" "min j l = l \<or> ?E \<le> bnd g Ks (w + min j l)" "0 < w \<Longrightarrow> j \<le> l" by blast+
qed

section \<open>The invariant\<close>

type_synonym meta = "nat \<times> nat \<times> nat"
  \<comment> \<open>of a table: the number of bits before it, their value, and its own number of bits\<close>

definition sound_entry ::
  "nat \<Rightarrow> nat \<Rightarrow> nat list \<Rightarrow> (nat \<Rightarrow> huft \<Rightarrow> bool) \<Rightarrow> meta list \<Rightarrow> meta \<Rightarrow> nat \<Rightarrow> huft \<Rightarrow> bool" where
  \<comment> \<open>a code, or the link to the table of the longer prefix\<close>
  "sound_entry g l Ks info ms = (\<lambda>(w, P, m) idx r.
     (\<exists>t<length Ks. h_b r = Ks ! t - w \<and> w < Ks ! t \<and> Ks ! t \<le> w + m \<and> info t r \<and>
        rev_bits (Ks ! t) (P + idx * 2 ^ w) * 2 ^ (g - Ks ! t) = apos g Ks t) \<or>
     (\<exists>q m1. q < length ms \<and> ms ! q = (w + l, P + idx * 2 ^ w, m1) \<and> m = l \<and>
        h_e r = 16 + m1 \<and> h_b r = l \<and> h_v r = Vt q))"

definition meta_ok :: "nat \<Rightarrow> nat \<Rightarrow> meta \<Rightarrow> nat \<Rightarrow> bool" where
  "meta_ok g l = (\<lambda>(w, P, m) n. 0 < m \<and> m \<le> l \<and> w + m \<le> g \<and> P < 2 ^ w \<and> 2 ^ m \<le> n)"

definition tables_sound where
  "tables_sound g l Ks info ms ts \<longleftrightarrow> length ms = length ts \<and>
     (\<forall>q<length ts. meta_ok g l (ms ! q) (length (ts ! q)) \<and>
        (\<forall>idx r. idx < 2 ^ snd (snd (ms ! q)) \<longrightarrow> ts ! q ! idx = Some r \<longrightarrow> sound_entry g l Ks info ms (ms ! q) idx r))"

definition tables_complete where
  \<comment> \<open>every entry for a number below \<open>a\<close> is set\<close>
  "tables_complete g a ms ts \<longleftrightarrow>
     (\<forall>q<length ts. \<forall>w P m idx. ms ! q = (w, P, m) \<longrightarrow> idx < 2 ^ m \<longrightarrow> rev_bits g (P + idx * 2 ^ w) < a \<longrightarrow> ts ! q ! idx \<noteq> None)"

lemma sound_entry_append: "sound_entry g l Ks info ms p idx r \<Longrightarrow> sound_entry g l Ks info (ms @ [n]) p idx r"
proof -
  assume a: "sound_entry g l Ks info ms p idx r"
  obtain w P m where p: "p = (w, P, m)" by (cases p)
  have "q < length ms \<Longrightarrow> (ms @ [n]) ! q = ms ! q" for q by (simp add: nth_append)
  then show ?thesis using a unfolding p sound_entry_def split
    by (metis (no_types, lifting) length_append less_add_Suc1 add_lessD1 trans_less_add1)
qed

lemma tables_sound_append:
  assumes "tables_sound g l Ks info ms ts" "meta_ok g l p (2 ^ j)"
  shows "tables_sound g l Ks info (ms @ [p]) (ts @ [replicate (2 ^ j) None])"
proof -
  have len: "length ms = length ts" using assms(1) by (simp add: tables_sound_def)
  have m: "snd (snd p) \<le> j" using assms(2) power_le_imp_le_exp [of "2 :: nat" "snd (snd p)" j] by (auto simp: meta_ok_def split_def)
  have new: "idx < 2 ^ snd (snd p) \<Longrightarrow> idx < 2 ^ j" for idx :: nat
    by (rule less_le_trans [OF _ power_increasing [OF m]]) simp_all
  show ?thesis using assms len new unfolding tables_sound_def
    by (auto simp: nth_append less_Suc_eq intro: sound_entry_append)
qed

lemma tables_sound_update:
  assumes "tables_sound g l Ks info ms ts" "q < length ts" "length tbl = length (ts ! q)"
    and "\<And>idx r. idx < 2 ^ snd (snd (ms ! q)) \<Longrightarrow> tbl ! idx = Some r \<Longrightarrow> ts ! q ! idx \<noteq> Some r \<Longrightarrow> sound_entry g l Ks info ms (ms ! q) idx r"
  shows "tables_sound g l Ks info ms (ts[q := tbl])"
  unfolding tables_sound_def
proof (intro conjI allI impI)
  fix u assume u: "u < length (ts[q := tbl])"
  show "meta_ok g l (ms ! u) (length (ts[q := tbl] ! u))"
    using assms(1-3) u by (cases "u = q") (auto simp: tables_sound_def)
  fix idx r assume i: "idx < 2 ^ snd (snd (ms ! u))" "ts[q := tbl] ! u ! idx = Some r"
  show "sound_entry g l Ks info ms (ms ! u) idx r"
  proof (cases "u = q \<and> ts ! q ! idx \<noteq> Some r")
    case True
    then show ?thesis using assms(2,4) i u by simp
  next
    case False
    then have "ts ! u ! idx = Some r" using i(2) u by (cases "u = q") auto
    then show ?thesis using assms(1) i(1) u by (simp add: tables_sound_def)
  qed
qed (use assms(1) in \<open>simp add: tables_sound_def\<close>)

lemma tables_complete_update:
  assumes "tables_complete g a ms ts" "\<And>idx. ts ! q ! idx \<noteq> None \<Longrightarrow> tbl ! idx \<noteq> None"
  shows "tables_complete g a ms (ts[q := tbl])"
  unfolding tables_complete_def
proof (intro allI impI)
  fix u w P m idx
  assume a: "u < length (ts[q := tbl])" "ms ! u = (w, P, m)" "idx < 2 ^ m" "rev_bits g (P + idx * 2 ^ w) < a"
  then have "ts ! u ! idx \<noteq> None" using assms(1) by (simp add: tables_complete_def)
  then show "ts[q := tbl] ! u ! idx \<noteq> None" using assms(2) a(1) by (cases "u = q") auto
qed

lemma tables_complete_append:
  assumes "tables_complete g (rev_bits g P) ms ts" "length ms = length ts" "w \<le> g" "P < 2 ^ w"
  shows "tables_complete g (rev_bits g P) (ms @ [(w, P, m)]) (ts @ [n])"
proof -
  have "\<not> rev_bits g (P + idx * 2 ^ w) < rev_bits g P" for idx
  proof -
    have "rev_bits w (P + idx * 2 ^ w) = rev_bits w P" by (simp add: rev_bits_eq_iff)
    then show ?thesis using rev_bits_prefix_le [OF assms(3), of "P + idx * 2 ^ w"] rev_bits_extend [OF assms(3,4)] by simp
  qed
  then show ?thesis using assms(1,2) unfolding tables_complete_def
    by (auto simp: nth_append less_Suc_eq dest: leD)
qed

definition root_ok :: "nat \<Rightarrow> meta list \<Rightarrow> bool" where
  "root_ok l ms \<longleftrightarrow> ms = [] \<or> ms ! 0 = (0, 0, l)"

definition level_ok where
  "level_ok g l Ks ms st h \<longleftrightarrow> b_u st ! h < length ms \<and> b_x st ! h = b_i st mod 2 ^ (l * h) \<and>
     (\<exists>m. ms ! (b_u st ! h) = (l * h, b_x st ! h, m) \<and>
        (m = l \<or> rev_bits g (b_x st ! h) + 2 ^ (g - l * h) \<le> bnd g Ks (l * h + m)) \<and>
        (Suc h < b_levels st \<longrightarrow> m = l \<and> b_tables st ! (b_u st ! h) ! (b_x st ! Suc h div 2 ^ (l * h)) \<noteq> None))"

definition stack_core where
  "stack_core g l Ks t ms st \<longleftrightarrow> length (b_u st) = BMAX \<and> length (b_x st) = BMAX + 1 \<and> b_reach st = l * b_levels st \<and>
     b_levels st \<le> BMAX \<and> b_x st ! 0 = 0 \<and> b_i st < 2 ^ (Ks ! t) \<and> rev_bits g (b_i st) = apos g Ks t \<and>
     (\<forall>h<b_levels st. level_ok g l Ks ms st h) \<and>
     (\<forall>q<length ms. (\<exists>h<b_levels st. q = b_u st ! h) \<or> (\<forall>w P m. ms ! q = (w, P, m) \<longrightarrow> rev_bits g P + 2 ^ (g - w) \<le> apos g Ks t))"

definition stack_ok where
  \<comment> \<open>before the code number \<open>t\<close>\<close>
  "stack_ok g l Ks t ms st \<longleftrightarrow> stack_core g l Ks t ms st \<and> b_i st < 2 ^ (l * b_levels st) \<and> (t = 0 \<longleftrightarrow> b_levels st = 0) \<and>
     (0 < t \<longrightarrow> l * (b_levels st - 1) < Ks ! (t - 1) \<and>
        (b_q st = b_u st ! (b_levels st - 1) \<or> l * b_levels st < Ks ! (t - 1)))"

definition stack_ready where
  \<comment> \<open>when the table for the code number \<open>t\<close> is open\<close>
  "stack_ready g l Ks t ms st \<longleftrightarrow> stack_core g l Ks t ms st \<and> 0 < b_levels st \<and> l * (b_levels st - 1) < Ks ! t \<and>
     Ks ! t \<le> l * b_levels st \<and> b_q st = b_u st ! (b_levels st - 1)"

section \<open>Opening a table\<close>

lemma open_step:
  assumes ok: "codes_ok g l Ks" and t: "t < length Ks" and cnt: "\<forall>q\<le>g. 0 < q \<longrightarrow> c ! q = count_list Ks q"
    and st: "stack_ok g l Ks t ms st" and snd: "tables_sound g l Ks info ms (b_tables st)"
    and cpl: "tables_complete g (apos g Ks t) ms (b_tables st)" and k: "b_reach st < Ks ! t" and root: "root_ok l ms"
  shows "\<exists>st1 ms1. open_table c g l (Ks ! t) (count_list (drop t Ks) (Ks ! t)) st = Some st1 \<and> b_p st1 = b_p st \<and>
    stack_ready g l Ks t ms1 st1 \<and> tables_sound g l Ks info ms1 (b_tables st1) \<and>
    tables_complete g (apos g Ks t) ms1 (b_tables st1) \<and> root_ok l ms1"
proof -
  let ?H = "b_levels st" and ?i = "b_i st" and ?n = "length (b_tables st)"
  define w where "w = l * ?H"
  define j where "j = table_bits c g l w (Ks ! t) (count_list (drop t Ks) (Ks ! t))"
  have core: "stack_core g l Ks t ms st" and iw: "?i < 2 ^ w" and t0: "t = 0 \<longleftrightarrow> ?H = 0"
    using st by (simp_all add: stack_ok_def w_def)
  have reach: "b_reach st = w" and xlen: "length (b_u st) = BMAX" "length (b_x st) = BMAX + 1"
    and pos: "rev_bits g ?i = apos g Ks t" and x0: "b_x st ! 0 = 0" and ik: "?i < 2 ^ (Ks ! t)"
    and lev: "\<And>h. h < ?H \<Longrightarrow> level_ok g l Ks ms st h"
    and fin: "\<forall>q<length ms. (\<exists>h<?H. q = b_u st ! h) \<or> (\<forall>w P m. ms ! q = (w, P, m) \<longrightarrow> rev_bits g P + 2 ^ (g - w) \<le> apos g Ks t)"
    using core by (simp_all add: stack_core_def w_def)
  have kg: "w < Ks ! t" "Ks ! t \<le> g" "g \<le> BMAX" "0 < l" using k reach codes_ok_nth [OF ok t] ok by (auto simp: codes_ok_def)
  have lens: "length ms = ?n" using snd by (simp add: tables_sound_def)
  have posw: "apos g Ks t = rev_bits w ?i * 2 ^ (g - w)" using rev_bits_extend [of w g ?i] kg iw pos by simp
  have al: "apos g Ks t + 2 ^ (g - w) \<le> 2 ^ g"
  proof -
    have "(rev_bits w ?i + 1) * 2 ^ (g - w) \<le> 2 ^ w * 2 ^ (g - w)" using rev_bits_less [of w ?i] by (intro mult_le_mono1) simp
    then show ?thesis using posw kg by (simp flip: power_add)
  qed
  have short: "w = 0 \<Longrightarrow> Ks ! t \<le> l" "0 < w \<Longrightarrow> Ks ! t - w < l"
  proof -
    assume "w = 0"
    then show "Ks ! t \<le> l" using t0 kg ok by (simp add: w_def codes_ok_def)
  next
    assume "0 < w"
    then show "Ks ! t - w < l" using deep_codes_short [OF ok t _ _ kg(1) al] t0 by (auto simp: w_def)
  qed
  note fit = table_bits_fit [OF ok t kg(1) cnt al short, folded j_def]
  let ?m = "min j l"
  let ?ms = "ms @ [(w, ?i, ?m)]"
  have "(2 :: nat) ^ ?m \<le> 2 ^ j" by (rule power_increasing) auto
  then have meta: "meta_ok g l (w, ?i, ?m) (2 ^ j)" using fit(1,2) kg(4) iw by (simp add: meta_ok_def)
  have H16: "?H < BMAX"
  proof -
    have "?H \<le> w" using kg(4) by (simp add: w_def)
    then show ?thesis using kg by linarith
  qed
  let ?ts = "b_tables st @ [replicate (2 ^ j) None]"
  have snd1: "tables_sound g l Ks info ?ms ?ts" by (rule tables_sound_append [OF snd meta])
  have cpl1: "tables_complete g (apos g Ks t) ?ms ?ts"
    using tables_complete_append [of g ?i ms "b_tables st" w] cpl pos lens kg iw by simp
  have mlen: "length ?ms = ?n + 1" using lens by simp
  have reach1: "Ks ! t \<le> l * Suc ?H" using short kg by (cases "w = 0") (auto simp: w_def)
  have fin1: "\<forall>q<length ?ms. (\<exists>h<Suc ?H. q = (b_u st)[?H := ?n] ! h) \<or>
      (\<forall>w P m. ?ms ! q = (w, P, m) \<longrightarrow> rev_bits g P + 2 ^ (g - w) \<le> apos g Ks t)"
  proof (intro allI impI)
    fix q assume "q < length ?ms"
    then consider "q = ?n" | "q < length ms" using lens by fastforce
    then show "(\<exists>h<Suc ?H. q = (b_u st)[?H := ?n] ! h) \<or> (\<forall>w P m. ?ms ! q = (w, P, m) \<longrightarrow> rev_bits g P + 2 ^ (g - w) \<le> apos g Ks t)"
    proof cases
      case 1
      then show ?thesis using H16 xlen by (intro disjI1 exI [of _ ?H]) simp
    next
      case 2
      then have q: "?ms ! q = ms ! q" by (simp add: nth_append)
      consider h where "h < ?H" "q = b_u st ! h" | "\<forall>w P m. ms ! q = (w, P, m) \<longrightarrow> rev_bits g P + 2 ^ (g - w) \<le> apos g Ks t"
        using fin 2 by blast
      then show ?thesis
      proof cases
        case 1
        then show ?thesis by (intro disjI1 exI [of _ h]) simp
      qed (simp add: q)
    qed
  qed
  show ?thesis
  proof (cases "?H = 0")
    case True
    define st1 where "st1 = st\<lparr>b_levels := 1, b_reach := w + l, b_u := (b_u st)[0 := ?n], b_q := ?n, b_tables := ?ts\<rparr>"
    have i0: "?i = 0" using iw True by (simp add: w_def)
    have "open_table c g l (Ks ! t) (count_list (drop t Ks) (Ks ! t)) st = Some st1"
      using True H16 xlen by (simp add: open_table_def Let_def st1_def reach j_def)
    moreover have "level_ok g l Ks ?ms st1 0"
      using True i0 xlen lens fit(3) x0 H16 posw by (auto simp: level_ok_def st1_def w_def nth_append)
    then have "stack_ready g l Ks t ?ms st1"
      using fin1 True xlen kg reach1 pos x0 ik i0 H16 mlen by (auto simp: stack_ready_def stack_core_def st1_def w_def)
    moreover have "root_ok l ?ms"
    proof -
      have p0: "apos g Ks t = 0" "w = 0" using True t0 by (simp_all add: w_def)
      have "ms = []" using fin True p0 by (cases ms) force+
      moreover have "?m = l"
      proof (rule ccontr)
        assume "?m \<noteq> l"
        then have b: "2 ^ g \<le> bnd g Ks ?m" using fit(3) p0 by auto
        obtain u where u: "u < length Ks" "Ks ! u = g" using ok by (auto simp: codes_ok_def in_set_conv_nth)
        have "apos g Ks u < apos g Ks (Suc u)" using apos_Suc [OF u(1)] by simp
        also have "\<dots> \<le> 2 ^ g" using apos_mono [of "Suc u" "length Ks" g Ks] u ok by (simp add: codes_ok_def)
        finally have "g \<le> ?m" using length_by_bnd [of Ks u g ?m] b u ok by (simp add: codes_ok_def)
        then show False using \<open>?m \<noteq> l\<close> ok by (auto simp: codes_ok_def)
      qed
      ultimately show ?thesis using i0 p0 by (simp add: root_ok_def)
    qed
    ultimately show ?thesis using snd1 cpl1 by (intro exI [of _ st1] exI [of _ ?ms]) (simp add: st1_def)
  next
    case False
    then obtain G where G: "?H = Suc G" by (cases ?H) auto
    let ?w = "l * G" and ?p = "b_u st ! G" and ?jj = "?i div 2 ^ (l * G)"
    let ?r = "Huft (16 + j) l (Vt ?n)"
    have lv: "level_ok g l Ks ms st G" using lev G by simp
    then obtain m1 where m1: "ms ! ?p = (?w, b_x st ! G, m1)" "?p < length ms" "b_x st ! G = ?i mod 2 ^ ?w"
      "m1 = l \<or> rev_bits g (b_x st ! G) + 2 ^ (g - ?w) \<le> bnd g Ks (?w + m1)" by (auto simp: level_ok_def)
    have wG: "w = ?w + l" by (simp add: w_def G)
    have "m1 \<le> l" "2 ^ m1 \<le> length (b_tables st ! ?p)" using snd m1(1,2) lens unfolding tables_sound_def by (force simp: meta_ok_def)+
    moreover have "m1 = l"
    proof (rule ccontr)
      assume "m1 \<noteq> l"
      then have b: "rev_bits g (?i mod 2 ^ ?w) + 2 ^ (g - ?w) \<le> bnd g Ks (?w + m1)" using m1(3,4) by simp
      have "rev_bits g (?i mod 2 ^ ?w) = rev_bits ?w ?i * 2 ^ (g - ?w)"
        using rev_bits_extend [of ?w g "?i mod 2 ^ ?w"] kg wG by (simp add: rev_bits_mod)
      then have "apos g Ks t < rev_bits g (?i mod 2 ^ ?w) + 2 ^ (g - ?w)"
        using rev_bits_prefix_le [of ?w g ?i] kg wG pos by simp
      then have "Ks ! t \<le> ?w + m1" using length_by_bnd [of Ks t g] ok t b by (simp add: codes_ok_def)
      then show False using kg wG \<open>m1 \<le> l\<close> by simp
    qed
    ultimately have plen: "2 ^ l \<le> length (b_tables st ! ?p)" "m1 = l" by simp_all
    have jj: "?jj < 2 ^ l" using iw wG by (simp add: power_add less_mult_imp_div_less mult.commute)
    have jjl: "?jj < length (b_tables st ! ?p)" using jj plen by simp
    have jl: "j \<le> l" using fit(4) wG kg by simp
    let ?tbl = "(b_tables st ! ?p)[?jj := Some ?r]"
    let ?ts1 = "?ts[?p := ?tbl]"
    define st1 where "st1 = st\<lparr>b_levels := Suc ?H, b_reach := w + l, b_u := (b_u st)[?H := ?n], b_q := ?n,
        b_x := (b_x st)[?H := ?i], b_v := Vt ?n, b_tables := ?ts1\<rparr>"
    have set: "set_entry ?ts ?p ?jj ?r = Some ?ts1"
      using m1(2) lens jj plen by (simp add: set_entry_def nth_append)
    have op: "open_table c g l (Ks ! t) (count_list (drop t Ks) (Ks ! t)) st = Some st1"
    proof -
      have "drop_bit (w - l) ?i = ?jj" by (simp add: wG drop_bit_eq_div)
      then show ?thesis using False H16 xlen set by (simp add: open_table_def Let_def st1_def reach j_def [symmetric] G)
    qed
    have glue: "?i mod 2 ^ ?w + ?jj * 2 ^ ?w = ?i" by (rule mod_div_mult_eq)
    have se: "sound_entry g l Ks info ?ms (?ms ! ?p) ?jj ?r"
      using m1 lens jl glue wG plen(2) unfolding sound_entry_def by (auto simp: nth_append min_absorb1)
    have snd2: "tables_sound g l Ks info ?ms ?ts1"
    proof (rule tables_sound_update [OF snd1])
      fix idx r assume "?tbl ! idx = Some r" "?ts ! ?p ! idx \<noteq> Some r"
      then have "idx = ?jj" "r = ?r" using m1(2) lens jj plen by (auto simp: nth_append nth_list_update split: if_splits)
      then show "sound_entry g l Ks info ?ms (?ms ! ?p) idx r" using se by simp
    qed (use m1(2) lens in \<open>simp_all add: nth_append\<close>)
    have cpl2: "tables_complete g (apos g Ks t) ?ms ?ts1"
    proof (rule tables_complete_update [OF cpl1])
      fix idx assume "?ts ! ?p ! idx \<noteq> None"
      then show "?tbl ! idx \<noteq> None" using m1(2) lens by (cases "idx = ?jj") (use jjl in \<open>auto simp: nth_append\<close>)
    qed
    have keep: "?ts1 ! q ! idx \<noteq> None" if "q < ?n" "b_tables st ! q ! idx \<noteq> None" for q idx
    proof (cases "q = ?p")
      case True
      then show ?thesis using that m1(2) lens by (cases "idx = ?jj") (use jjl in \<open>auto simp: nth_append\<close>)
    next
      case False
      then show ?thesis using that by (simp add: nth_append)
    qed
    have "level_ok g l Ks ?ms st1 h" if "h < Suc ?H" for h
    proof -
      consider "h = ?H" | "h = G" | "h < G" using \<open>h < Suc ?H\<close> G by linarith
      then show ?thesis
      proof cases
        case 1
        then show ?thesis using xlen H16 lens iw fit(3) pos by (auto simp: level_ok_def st1_def w_def nth_append)
      next
        case 2
        have "?ts1 ! ?p ! ?jj \<noteq> None" using m1(2) lens jj plen by (simp add: nth_append)
        then show ?thesis using 2 lv G xlen H16 lens plen(2) m1 by (auto simp: level_ok_def st1_def nth_append)
      next
        case 3
        then have "level_ok g l Ks ms st h" using lev G by simp
        then show ?thesis using 3 G xlen H16 lens keep by (auto simp: level_ok_def st1_def nth_append)
      qed
    qed
    then have "stack_ready g l Ks t ?ms st1"
      using fin1 xlen kg reach1 pos x0 ik H16 mlen False
      by (auto simp: stack_ready_def stack_core_def st1_def w_def)
    moreover have "root_ok l ?ms" using root m1(2) by (cases ms) (auto simp: root_ok_def)
    ultimately show ?thesis using op snd2 cpl2 by (intro exI [of _ st1] exI [of _ ?ms]) (simp add: st1_def)
  qed
qed

section \<open>Filling in a code\<close>

lemma fill_entries_nth:
  assumes "0 < f"
  shows "length (fill_entries tbl j f r) = length tbl \<and>
    (\<forall>idx<length tbl. fill_entries tbl j f r ! idx = (if j \<le> idx \<and> f dvd (idx - j) then Some r else tbl ! idx))"
  using assms
proof (induction tbl j f r rule: fill_entries.induct)
  case (1 tbl j f r)
  show ?case
  proof (cases "j < length tbl")
    case False
    then show ?thesis by (subst (1 2) fill_entries.simps) auto
  next
    case True
    have step: "fill_entries tbl j f r = fill_entries (tbl[j := Some r]) (j + f) f r"
      using True 1(2) by (subst fill_entries.simps) simp
    have d: "f dvd (idx - j) \<longleftrightarrow> idx = j \<or> j + f \<le> idx \<and> f dvd (idx - (j + f))" if "j \<le> idx" for idx
    proof (cases "j + f \<le> idx")
      case True
      then have "idx - j = (idx - (j + f)) + f" by simp
      then show ?thesis using True 1(2) by (metis dvd_add_triv_right_iff add_le_same_cancel1 not_less)
    next
      case False
      then have "idx - j < f" using that by simp
      then show ?thesis using that False 1(2) by (auto dest: dvd_imp_le)
    qed
    have cond: "j \<le> idx \<and> f dvd (idx - j) \<longleftrightarrow> idx = j \<or> j + f \<le> idx \<and> f dvd (idx - (j + f))" for idx
      using d [of idx] by (cases "j \<le> idx") auto
    show ?thesis using 1(1) [OF conjI [OF True 1(2)] 1(2)] unfolding step cond
      by (auto simp: nth_list_update)
  qed
qed

lemma nth_beyond: "length xs = length ys \<Longrightarrow> length xs \<le> n \<Longrightarrow> xs ! n = ys ! n"
  by (induction xs ys arbitrary: n rule: list_induct2) (auto simp: nth_Cons split: nat.splits)

lemma rest_multiple:
  assumes "w \<le> k" "k \<le> g" "(i :: nat) < 2 ^ k"
  shows "rev_bits (g - w) (i div 2 ^ w) + 2 ^ (g - k) \<le> 2 ^ (g - w)"
proof -
  have "i div 2 ^ w < 2 ^ (k - w)" using assms by (simp add: less_mult_imp_div_less flip: power_add)
  then have "rev_bits (g - w) (i div 2 ^ w) = rev_bits (k - w) (i div 2 ^ w) * 2 ^ (g - k)"
    using rev_bits_extend [of "k - w" "g - w" "i div 2 ^ w"] assms by simp
  moreover have "(rev_bits (k - w) (i div 2 ^ w) + 1) * 2 ^ (g - k) \<le> 2 ^ (k - w) * 2 ^ (g - k)"
    using rev_bits_less [of "k - w" "i div 2 ^ w"] by (intro mult_le_mono1) simp
  ultimately show ?thesis using pow_split [OF assms(1,2)] by simp
qed

lemma in_interval:
  assumes "k \<le> g" "(i :: nat) < 2 ^ k"
  shows "rev_bits g i \<le> rev_bits g b \<and> rev_bits g b < rev_bits g i + 2 ^ (g - k) \<longleftrightarrow> b mod 2 ^ k = i"
proof -
  have e: "rev_bits g i = rev_bits k i * 2 ^ (g - k)" using rev_bits_extend [OF assms] .
  have lu: "rev_bits k b * 2 ^ (g - k) \<le> rev_bits g b" "rev_bits g b < (rev_bits k b + 1) * 2 ^ (g - k)"
    using rev_bits_prefix_le [OF assms(1), of b] by auto
  have "rev_bits k b = rev_bits k i \<longleftrightarrow> b mod 2 ^ k = i" using rev_bits_eq_iff [of k b i] assms(2) by simp
  moreover have "rev_bits g i \<le> rev_bits g b \<and> rev_bits g b < rev_bits g i + 2 ^ (g - k) \<longleftrightarrow> rev_bits k b = rev_bits k i"
  proof
    assume a: "rev_bits g i \<le> rev_bits g b \<and> rev_bits g b < rev_bits g i + 2 ^ (g - k)"
    then have "rev_bits k i * 2 ^ (g - k) < (rev_bits k b + 1) * 2 ^ (g - k)"
      "rev_bits k b * 2 ^ (g - k) < (rev_bits k i + 1) * 2 ^ (g - k)" using lu e by auto
    then have "rev_bits k i < rev_bits k b + 1" "rev_bits k b < rev_bits k i + 1" by (auto simp only: mult_less_cancel2)
    then show "rev_bits k b = rev_bits k i" by simp
  qed (use lu e in simp)
  ultimately show ?thesis by simp
qed

lemma fill_step:
  assumes ok: "codes_ok g l Ks" and t: "t < length Ks"
    and st: "stack_ready g l Ks t ms st" and snd: "tables_sound g l Ks info ms (b_tables st)"
    and cpl: "tables_complete g (apos g Ks t) ms (b_tables st)"
  defines "k \<equiv> Ks ! t" and "w \<equiv> l * (b_levels st - 1)"
  assumes r: "h_b r = k - w" "info t r"
  defines "tbl \<equiv> fill_entries (b_tables st ! b_q st) (b_i st div 2 ^ w) (2 ^ (k - w)) r"
  shows "b_q st < length (b_tables st)" "tables_sound g l Ks info ms ((b_tables st)[b_q st := tbl])"
    "tables_complete g (apos g Ks (Suc t)) ms ((b_tables st)[b_q st := tbl])"
proof -
  let ?H = "b_levels st" and ?i = "b_i st" and ?q = "b_q st"
  have core: "stack_core g l Ks t ms st" and H: "0 < ?H" and wk: "w < k" and kr: "k \<le> l * ?H"
    and q: "?q = b_u st ! (?H - 1)" using st by (simp_all add: stack_ready_def k_def w_def)
  have kg: "k \<le> g" using codes_ok_nth [OF ok t] by (simp add: k_def)
  have i: "?i < 2 ^ k" "rev_bits g ?i = apos g Ks t" using core by (simp_all add: stack_core_def k_def)
  have lev: "level_ok g l Ks ms st h" if "h < ?H" for h using core that by (simp add: stack_core_def)
  have lens: "length ms = length (b_tables st)" using snd by (simp add: tables_sound_def)
  obtain m where m: "ms ! ?q = (w, ?i mod 2 ^ w, m)" "?q < length ms"
    "m = l \<or> rev_bits g (?i mod 2 ^ w) + 2 ^ (g - w) \<le> bnd g Ks (w + m)"
    using lev [of "?H - 1"] H q by (auto simp: level_ok_def w_def)
  have kwm: "k \<le> w + m"
  proof (cases "m = l")
    case True
    then show ?thesis using kr H by (cases ?H) (auto simp: w_def)
  next
    case False
    have "rev_bits g (?i mod 2 ^ w) = rev_bits w ?i * 2 ^ (g - w)"
      using rev_bits_extend [of w g "?i mod 2 ^ w"] kg wk by (simp add: rev_bits_mod)
    then have "apos g Ks t < rev_bits g (?i mod 2 ^ w) + 2 ^ (g - w)"
      using rev_bits_prefix_le [of w g ?i] kg wk i by simp
    then show ?thesis using length_by_bnd [of Ks t g] ok t m(3) False by (simp add: codes_ok_def k_def)
  qed
  show ql: "?q < length (b_tables st)" using m(2) lens by simp
  have mlen: "2 ^ m \<le> length (b_tables st ! ?q)" using snd ql m(1) unfolding tables_sound_def meta_ok_def by force
  have nth: "length tbl = length (b_tables st ! ?q)"
    "\<And>idx. idx < length (b_tables st ! ?q) \<Longrightarrow> tbl ! idx =
      (if ?i div 2 ^ w \<le> idx \<and> 2 ^ (k - w) dvd (idx - ?i div 2 ^ w) then Some r else b_tables st ! ?q ! idx)"
    using fill_entries_nth [of "2 ^ (k - w)" "b_tables st ! ?q" "?i div 2 ^ w" r] by (simp_all add: tbl_def)
  have idiv: "?i div 2 ^ w < 2 ^ (k - w)" using i wk by (simp add: less_mult_imp_div_less flip: power_add)
  have stride: "?i div 2 ^ w \<le> idx \<and> 2 ^ (k - w) dvd (idx - ?i div 2 ^ w) \<longleftrightarrow> idx mod 2 ^ (k - w) = ?i div 2 ^ w" for idx
    using idiv by (metis mod_eq_dvd_iff_nat mod_less mod_less_eq_dividend)
  have comb: "(?i mod 2 ^ w + idx * 2 ^ w) mod 2 ^ k = ?i \<longleftrightarrow> idx mod 2 ^ (k - w) = ?i div 2 ^ w" for idx
  proof -
    have "(?i mod 2 ^ w + idx * 2 ^ w) mod (2 ^ w * 2 ^ (k - w)) = 2 ^ w * (idx mod 2 ^ (k - w)) + ?i mod 2 ^ w"
      by (subst mod_mult2_eq) simp
    then have e: "(?i mod 2 ^ w + idx * 2 ^ w) mod 2 ^ k = 2 ^ w * (idx mod 2 ^ (k - w)) + ?i mod 2 ^ w"
      using wk by (simp flip: power_add)
    have "?i = 2 ^ w * (?i div 2 ^ w) + ?i mod 2 ^ w" by simp
    then have "2 ^ w * (idx mod 2 ^ (k - w)) + ?i mod 2 ^ w = ?i \<longleftrightarrow> idx mod 2 ^ (k - w) = ?i div 2 ^ w"
      by (metis add_right_cancel mult_cancel1 power_not_zero zero_neq_numeral)
    then show ?thesis unfolding e .
  qed
  show "tables_sound g l Ks info ms ((b_tables st)[?q := tbl])"
  proof (rule tables_sound_update [OF snd ql nth(1)])
    fix idx x assume a: "idx < 2 ^ snd (snd (ms ! ?q))" "tbl ! idx = Some x" "b_tables st ! ?q ! idx \<noteq> Some x"
    then have "idx < length (b_tables st ! ?q)" using m(1) mlen by simp
    from nth(2) [OF this] a(2,3) have "x = r" "idx mod 2 ^ (k - w) = ?i div 2 ^ w" unfolding stride by (auto split: if_splits)
    then have "rev_bits k (?i mod 2 ^ w + idx * 2 ^ w) = rev_bits k ?i" using comb i(1) by (simp add: rev_bits_eq_iff)
    then have "rev_bits k (?i mod 2 ^ w + idx * 2 ^ w) * 2 ^ (g - k) = apos g Ks t"
      using rev_bits_extend [OF kg i(1)] i(2) by simp
    then show "sound_entry g l Ks info ms (ms ! ?q) idx x"
      using \<open>x = r\<close> m(1) r t wk kwm unfolding sound_entry_def k_def by auto
  qed
  have keep: "b_tables st ! u ! idx \<noteq> None \<Longrightarrow> (b_tables st)[?q := tbl] ! u ! idx \<noteq> None" if "idx < length (b_tables st ! u)" for u idx
    using that nth(2) [of idx] ql by (cases "u = ?q") auto
  show "tables_complete g (apos g Ks (Suc t)) ms ((b_tables st)[?q := tbl])"
    unfolding tables_complete_def
  proof (intro allI impI)
    fix u v P m1 idx
    assume u: "u < length ((b_tables st)[?q := tbl])" "ms ! u = (v, P, m1)" "idx < 2 ^ m1"
      "rev_bits g (P + idx * 2 ^ v) < apos g Ks (Suc t)"
    then have mo: "meta_ok g l (v, P, m1) (length (b_tables st ! u))" using snd unfolding tables_sound_def by force
    then have il: "idx < length (b_tables st ! u)" using u(3) by (auto simp: meta_ok_def)
    show "(b_tables st)[?q := tbl] ! u ! idx \<noteq> None"
    proof (cases "rev_bits g (P + idx * 2 ^ v) < apos g Ks t")
      case True
      then show ?thesis using cpl u keep [OF il] by (simp add: tables_complete_def)
    next
      case False
      then have "rev_bits g ?i \<le> rev_bits g (P + idx * 2 ^ v) \<and> rev_bits g (P + idx * 2 ^ v) < rev_bits g ?i + 2 ^ (g - k)"
        using u(4) i(2) apos_Suc [OF t, of g] by (simp add: k_def)
      then have eq: "(P + idx * 2 ^ v) mod 2 ^ k = ?i" using in_interval [OF kg i(1)] by blast
      have "\<not> rev_bits g P + 2 ^ (g - v) \<le> apos g Ks t"
      proof -
        have "rev_bits v (P + idx * 2 ^ v) = rev_bits v P" by (simp add: rev_bits_eq_iff)
        then show ?thesis
          using False rev_bits_prefix_le [of v g "P + idx * 2 ^ v"] rev_bits_extend [of v g P] mo by (auto simp: meta_ok_def)
      qed
      then obtain h where h: "h < ?H" "u = b_u st ! h"
        using core u(1,2) lens unfolding stack_core_def by (metis length_list_update)
      then have vP: "v = l * h" "P = ?i mod 2 ^ v" using lev [OF h(1)] u(2) by (auto simp: level_ok_def)
      show ?thesis
      proof (cases "Suc h = ?H")
        case True
        then have "h = ?H - 1" by simp
        then have "u = ?q" "v = w" using h(2) q vP by (simp_all add: w_def)
        moreover have "idx mod 2 ^ (k - w) = ?i div 2 ^ w" using eq comb vP \<open>v = w\<close> by simp
        ultimately show ?thesis using nth(2) [of idx] il ql stride [of idx] by simp
      next
        case False
        then have lt: "Suc h < ?H" using h by simp
        then have m1: "m1 = l" "b_tables st ! u ! (b_x st ! Suc h div 2 ^ v) \<noteq> None"
          using lev [OF h(1)] h(2) u(2) vP by (auto simp: level_ok_def)
        have "l * Suc h \<le> w" unfolding w_def by (rule mult_le_mono2) (use lt in simp)
        then have vl: "v + l \<le> w" using vP by simp
        have small: "P + idx * 2 ^ v < 2 ^ (v + l)"
        proof -
          have "P < 2 ^ v" using mo by (simp add: meta_ok_def)
          moreover have "idx + 1 \<le> 2 ^ l" using u(3) m1 by simp
          then have "(idx + 1) * 2 ^ v \<le> 2 ^ l * 2 ^ v" by (rule mult_le_mono1)
          ultimately show ?thesis by (simp add: power_add mult.commute)
        qed
        have "P + idx * 2 ^ v < 2 ^ k" using less_pow [OF small] vl wk by simp
        then have pi: "P + idx * 2 ^ v = ?i" using eq by simp
        have "b_x st ! Suc h = ?i mod 2 ^ (l * Suc h)" using lev [OF lt] by (simp add: level_ok_def)
        also have "\<dots> = ?i" using small pi vP by (simp add: add.commute)
        finally have "b_x st ! Suc h = P + idx * 2 ^ v" using pi by simp
        moreover have "(P + idx * 2 ^ v) div 2 ^ v = idx" using mo by (simp add: meta_ok_def)
        ultimately have "b_x st ! Suc h div 2 ^ v = idx" by simp
        then show ?thesis using m1(2) keep [OF il] by simp
      qed
    qed
  qed
qed

section \<open>The next code\<close>

lemma back_up_levels:
  assumes "x ! 0 = 0" "0 < H"
  shows "\<exists>G. back_up l i x H (l * H) = Some (G, l * G) \<and> 0 < G \<and> G \<le> H \<and> x ! (G - 1) = i mod 2 ^ (l * (G - 1)) \<and>
    (\<forall>h. G \<le> h \<longrightarrow> h < H \<longrightarrow> x ! h \<noteq> i mod 2 ^ (l * h))"
  using assms(2)
proof (induction H)
  case (Suc H)
  have r: "l * Suc H - l = l * H" by simp
  show ?case
  proof (cases "i mod 2 ^ (l * H) = x ! H")
    case True
    then show ?thesis by (intro exI [of _ "Suc H"]) (simp add: and_mask)
  next
    case False
    then have "0 < H" using assms(1) by (cases "H = 0") auto
    from Suc.IH [OF this] obtain G where G: "back_up l i x H (l * H) = Some (G, l * G)" "0 < G" "G \<le> H"
      "x ! (G - 1) = i mod 2 ^ (l * (G - 1))" "\<forall>h. G \<le> h \<longrightarrow> h < H \<longrightarrow> x ! h \<noteq> i mod 2 ^ (l * h)" by blast
    have "back_up l i x (Suc H) (l * Suc H) = Some (G, l * G)" using False G(1) r by (simp add: and_mask del: mult_Suc_right)
    then show ?thesis using G False by (intro exI [of _ G]) (auto simp: less_Suc_eq)
  qed
qed simp

lemma next_code:
  assumes ok: "codes_ok g l Ks" and t: "t < length Ks"
    and i: "i < 2 ^ (Ks ! t)" "rev_bits g i = apos g Ks t"
  shows "rev_inc (Ks ! t) i < 2 ^ (Ks ! t)" "Suc t < length Ks \<Longrightarrow> rev_bits g (rev_inc (Ks ! t) i) = apos g Ks (Suc t)"
proof -
  let ?k = "Ks ! t"
  have kg: "?k \<le> g" using codes_ok_nth [OF ok t] by simp
  note inc = rev_inc_bits [OF i(1)]
  show "rev_inc ?k i < 2 ^ ?k" using inc by simp
  assume s: "Suc t < length Ks"
  have pos: "apos g Ks (Suc t) = (rev_bits ?k i + 1) * 2 ^ (g - ?k)"
    using apos_Suc [OF t, of g] rev_bits_extend [OF kg i(1)] i(2) by simp
  have "apos g Ks (Suc t) < apos g Ks (Suc (Suc t))" using apos_Suc [OF s, of g] by simp
  also have "\<dots> \<le> apos g Ks (length Ks)" by (rule apos_mono) (use s in simp)
  also have "\<dots> = 2 ^ ?k * 2 ^ (g - ?k)" using ok kg by (simp add: codes_ok_def flip: power_add)
  finally have "rev_bits ?k i + 1 < 2 ^ ?k" unfolding pos by (simp only: mult_less_cancel2)
  then have "rev_bits ?k (rev_inc ?k i) = rev_bits ?k i + 1" using inc by simp
  then show "rev_bits g (rev_inc ?k i) = apos g Ks (Suc t)" using pos rev_bits_extend [OF kg conjunct1 [OF inc]] by simp
qed

lemma moved_prefix:
  assumes "w < k" "k \<le> g" "(i :: nat) < 2 ^ k" "j < 2 ^ k" "rev_bits g j = rev_bits g i + 2 ^ (g - k)"
    and ne: "j mod 2 ^ w \<noteq> i mod 2 ^ w"
  shows "j < 2 ^ w" "(rev_bits w i + 1) * 2 ^ (g - w) \<le> rev_bits g j"
proof -
  have wg: "w \<le> g" using assms by simp
  have si: "rev_bits g i = rev_bits w i * 2 ^ (g - w) + rev_bits (g - w) (i div 2 ^ w)"
    and sj: "rev_bits g j = rev_bits w j * 2 ^ (g - w) + rev_bits (g - w) (j div 2 ^ w)"
    using rev_bits_add [of w "g - w"] wg by simp_all
  have "rev_bits w i * 2 ^ (g - w) < (rev_bits w j + 1) * 2 ^ (g - w)"
    using rev_bits_prefix_le [OF wg, of i] rev_bits_prefix_le [OF wg, of j] assms(5) by linarith
  then have "rev_bits w i < rev_bits w j + 1" by (simp only: mult_less_cancel2)
  moreover have "rev_bits w i \<noteq> rev_bits w j" using ne rev_bits_eq_iff by metis
  ultimately have le: "rev_bits w i + 1 \<le> rev_bits w j" by simp
  then have m: "(rev_bits w i + 1) * 2 ^ (g - w) \<le> rev_bits w j * 2 ^ (g - w)" by (rule mult_le_mono1)
  then show "(rev_bits w i + 1) * 2 ^ (g - w) \<le> rev_bits g j" using sj by simp
  have "rev_bits (g - w) (i div 2 ^ w) + 2 ^ (g - k) \<le> 2 ^ (g - w)" using rest_multiple assms by simp
  then have "rev_bits (g - w) (j div 2 ^ w) = 0" using m si sj assms(5) by simp
  then have z: "j div 2 ^ w mod 2 ^ (g - w) = 0" by (simp add: rev_bits_zero_iff)
  have "j < 2 ^ w * 2 ^ (g - w)" using less_pow [OF assms(4,2)] wg by (simp flip: power_add)
  then have "j div 2 ^ w < 2 ^ (g - w)" by (simp add: less_mult_imp_div_less mult.commute)
  then have "j div 2 ^ w = 0" using z by simp
  then show "j < 2 ^ w" by (simp add: div_eq_0_iff)
qed

lemma pop_step:
  assumes ok: "codes_ok g l Ks" and t: "t < length Ks" and st: "stack_ready g l Ks t ms st"
    and snd: "tables_sound g l Ks info ms (b_tables st)"
    and keep: "\<And>u idx. u < length ms \<Longrightarrow> b_tables st ! u ! idx \<noteq> None \<Longrightarrow> ts ! u ! idx \<noteq> None"
  defines "i \<equiv> rev_inc (Ks ! t) (b_i st)"
  shows "\<exists>G. back_up l i (b_x st) (b_levels st) (b_reach st) = Some (G, l * G) \<and>
    (Suc t < length Ks \<longrightarrow> stack_ok g l Ks (Suc t) ms
      (st\<lparr>b_i := i, b_p := p, b_v := val, b_levels := G, b_reach := l * G, b_tables := ts\<rparr>))"
proof -
  let ?H = "b_levels st" and ?k = "Ks ! t"
  have core: "stack_core g l Ks t ms st" and H: "0 < ?H" and wk: "l * (?H - 1) < ?k" and kr: "?k \<le> l * ?H"
    and q: "b_q st = b_u st ! (?H - 1)" using st by (simp_all add: stack_ready_def)
  have kg: "?k \<le> g" using codes_ok_nth [OF ok t] by simp
  have i0: "b_i st < 2 ^ ?k" "rev_bits g (b_i st) = apos g Ks t" using core by (simp_all add: stack_core_def)
  have lev: "level_ok g l Ks ms st h" if "h < ?H" for h using core that by (simp add: stack_core_def)
  have reach: "b_reach st = l * ?H" "b_x st ! 0 = 0" using core by (simp_all add: stack_core_def)
  obtain G where G: "back_up l i (b_x st) ?H (l * ?H) = Some (G, l * G)" "0 < G" "G \<le> ?H"
    "b_x st ! (G - 1) = i mod 2 ^ (l * (G - 1))" "\<forall>h. G \<le> h \<longrightarrow> h < ?H \<longrightarrow> b_x st ! h \<noteq> i mod 2 ^ (l * h)"
    using back_up_levels [OF reach(2) H, of l i] by blast
  let ?st = "st\<lparr>b_i := i, b_p := p, b_v := val, b_levels := G, b_reach := l * G, b_tables := ts\<rparr>"
  have "stack_ok g l Ks (Suc t) ms ?st" if s: "Suc t < length Ks"
  proof -
    note nc = next_code [OF ok t i0, folded i_def]
    have ri: "rev_bits g i = apos g Ks (Suc t)" "i < 2 ^ ?k" using nc s by simp_all
    have inc: "rev_bits g i = rev_bits g (b_i st) + 2 ^ (g - ?k)" using ri(1) i0(2) apos_Suc [OF t] by simp
    have kle: "?k \<le> Ks ! Suc t" using ok s by (auto simp: codes_ok_def intro: sorted_nth_mono)
    have x: "b_x st ! h = b_i st mod 2 ^ (l * h)" if "h < ?H" for h using lev [OF that] by (simp add: level_ok_def)
    have wh: "l * h < ?k" if "h < ?H" for h
    proof -
      have "l * h \<le> l * (?H - 1)" by (rule mult_le_mono2) (use that in simp)
      then show ?thesis using wk by (rule le_less_trans)
    qed
    have popped: "i < 2 ^ (l * h)" "(rev_bits (l * h) (b_i st) + 1) * 2 ^ (g - l * h) \<le> apos g Ks (Suc t)" if "G \<le> h" "h < ?H" for h
    proof -
      have "i mod 2 ^ (l * h) \<noteq> b_i st mod 2 ^ (l * h)" using G(5) that x by auto
      from moved_prefix [OF wh [OF that(2)] kg i0(1) ri(2) inc this]
      show "i < 2 ^ (l * h)" "(rev_bits (l * h) (b_i st) + 1) * 2 ^ (g - l * h) \<le> apos g Ks (Suc t)" using ri(1) by simp_all
    qed
    have iG: "i < 2 ^ (l * G)"
    proof (cases "G = ?H")
      case True
      then show ?thesis using less_pow [OF ri(2)] kr by simp
    next
      case False
      then show ?thesis using popped(1) [of G] G(3) by simp
    qed
    have ik: "i < 2 ^ (Ks ! Suc t)"
      by (rule less_pow [OF ri(2) kle])
    have lev1: "level_ok g l Ks ms ?st h" if "h < G" for h
    proof -
      have h: "h < ?H" using that G(3) by simp
      have "(2 :: nat) ^ (l * h) dvd 2 ^ (l * (G - 1))" by (rule le_imp_power_dvd, rule mult_le_mono2) (use that in simp)
      then have "i mod 2 ^ (l * h) = (i mod 2 ^ (l * (G - 1))) mod 2 ^ (l * h)"
        "b_i st mod 2 ^ (l * h) = (b_i st mod 2 ^ (l * (G - 1))) mod 2 ^ (l * h)" by (simp_all add: mod_mod_cancel)
      moreover have "b_i st mod 2 ^ (l * (G - 1)) = i mod 2 ^ (l * (G - 1))" using G(2-4) x [of "G - 1"] by simp
      ultimately have "b_x st ! h = i mod 2 ^ (l * h)" using x [OF h] by simp
      then show ?thesis using lev [OF h] that G(3) keep by (auto simp: level_ok_def)
    qed
    have fin: "(\<exists>h<G. u = b_u st ! h) \<or> rev_bits g P + 2 ^ (g - w) \<le> apos g Ks (Suc t)"
      if u: "u < length ms" "ms ! u = (w, P, m)" for u w P m
    proof -
      consider h where "h < ?H" "u = b_u st ! h" | "rev_bits g P + 2 ^ (g - w) \<le> apos g Ks t"
        using core u unfolding stack_core_def by blast
      then show ?thesis
      proof cases
        case 1
        show ?thesis
        proof (cases "h < G")
          case False
          have "w = l * h" "P = b_i st mod 2 ^ w" using lev [OF 1(1)] 1(2) u(2) x [OF 1(1)] by (auto simp: level_ok_def)
          moreover have "rev_bits g (b_i st mod 2 ^ w) = rev_bits w (b_i st) * 2 ^ (g - w)"
            using rev_bits_extend [of w g "b_i st mod 2 ^ w"] wh [OF 1(1)] kg \<open>w = l * h\<close> by (simp add: rev_bits_mod)
          ultimately show ?thesis using popped(2) [of h] False 1(1) by simp
        qed (use 1 in blast)
      next
        case 2
        then show ?thesis using apos_mono [of t "Suc t" g Ks] by simp
      qed
    qed
    have bq: "b_q st = b_u st ! (G - 1) \<or> l * G < ?k"
      using q wh [of G] G(3) by (cases "G = ?H") auto
    have "l * (G - 1) < ?k" by (rule wh) (use G(2,3) in simp)
    moreover have "\<forall>u<length ms. (\<exists>h<G. u = b_u st ! h) \<or>
        (\<forall>w P m. ms ! u = (w, P, m) \<longrightarrow> rev_bits g P + 2 ^ (g - w) \<le> apos g Ks (Suc t))" using fin by blast
    ultimately show ?thesis using core ri(1) ik iG lev1 bq G(2,3) by (simp add: stack_ok_def stack_core_def)
  qed
  then show ?thesis using G(1) reach(1) by auto
qed

section \<open>All codes\<close>

lemma open_tables_ready:
  assumes ok: "codes_ok g l Ks" and t: "t < length Ks" and cnt: "\<forall>q\<le>g. 0 < q \<longrightarrow> c ! q = count_list Ks q"
    and st: "stack_ok g l Ks t ms st" and snd: "tables_sound g l Ks info ms (b_tables st)"
    and cpl: "tables_complete g (apos g Ks t) ms (b_tables st)" and root: "root_ok l ms"
  shows "\<exists>st1 ms1. open_tables c g l (Ks ! t) (count_list (drop t Ks) (Ks ! t)) st = Some st1 \<and> b_p st1 = b_p st \<and>
    stack_ready g l Ks t ms1 st1 \<and> tables_sound g l Ks info ms1 (b_tables st1) \<and> tables_complete g (apos g Ks t) ms1 (b_tables st1) \<and> root_ok l ms1"
proof (cases "b_reach st < Ks ! t")
  case True
  obtain st1 ms1 where 1: "open_table c g l (Ks ! t) (count_list (drop t Ks) (Ks ! t)) st = Some st1" "b_p st1 = b_p st"
    "stack_ready g l Ks t ms1 st1" "tables_sound g l Ks info ms1 (b_tables st1)" "tables_complete g (apos g Ks t) ms1 (b_tables st1)" "root_ok l ms1"
    using open_step [OF ok t cnt st snd cpl True root] by blast
  have "\<not> b_reach st1 < Ks ! t" using 1(3) by (simp add: stack_ready_def stack_core_def)
  then have "open_tables c g l (Ks ! t) (count_list (drop t Ks) (Ks ! t)) st1 = Some st1"
    by (subst open_tables.simps) simp
  then have "open_tables c g l (Ks ! t) (count_list (drop t Ks) (Ks ! t)) st = Some st1"
    using True 1(1) ok by (subst open_tables.simps) (simp add: codes_ok_def)
  then show ?thesis using 1 by blast
next
  case False
  have sc: "stack_core g l Ks t ms st" "t = 0 \<longleftrightarrow> b_levels st = 0"
    "0 < t \<Longrightarrow> l * (b_levels st - 1) < Ks ! (t - 1) \<and> (b_q st = b_u st ! (b_levels st - 1) \<or> l * b_levels st < Ks ! (t - 1))"
    using st by (simp_all add: stack_ok_def)
  have r: "b_reach st = l * b_levels st" using sc(1) by (simp add: stack_core_def)
  have "0 < t" using sc(2) r False codes_ok_nth [OF ok t] by (cases "t = 0") auto
  moreover have "Ks ! (t - 1) \<le> Ks ! t" using ok t by (auto simp: codes_ok_def intro: sorted_nth_mono)
  ultimately have "stack_ready g l Ks t ms st" using sc False r by (auto simp: stack_ready_def)
  moreover have "open_tables c g l (Ks ! t) (count_list (drop t Ks) (Ks ! t)) st = Some st"
    using False by (subst open_tables.simps) simp
  ultimately show ?thesis using snd cpl root by blast
qed

fun counted :: "(nat \<times> nat) list \<Rightarrow> bool" where
  "counted [] \<longleftrightarrow> True"
| "counted ((k, a) # ks) \<longleftrightarrow> a = count_list (k # map fst ks) k \<and> counted ks"

definition entries_ok where
  \<comment> \<open>the value of each code is found\<close>
  "entries_ok v n s d e nv Ks info \<longleftrightarrow> (\<forall>t<length Ks. \<forall>st bits. b_p st = min t nv \<longrightarrow>
     (\<exists>r. make_entry v n s d e bits st = Some (Some (r, min (Suc t) nv)) \<and> h_b r = bits \<and> info t r))"

lemma build_codes_sound:
  assumes ok: "codes_ok g l Ks" and cnt: "\<forall>q\<le>g. 0 < q \<longrightarrow> c ! q = count_list Ks q"
    and ent: "entries_ok v n s d e nv Ks info"
  shows "t \<le> length Ks \<Longrightarrow> map fst ks = drop t Ks \<Longrightarrow> counted ks \<Longrightarrow> b_p st = min t nv \<Longrightarrow>
    (t < length Ks \<longrightarrow> stack_ok g l Ks t ms st) \<Longrightarrow> tables_sound g l Ks info ms (b_tables st) \<Longrightarrow>
    tables_complete g (apos g Ks t) ms (b_tables st) \<Longrightarrow> root_ok l ms \<Longrightarrow> (0 < t \<longrightarrow> ms \<noteq> []) \<Longrightarrow>
    \<exists>st1 ms1. build_codes c g l v n s d e ks st = Some (True, st1) \<and> tables_sound g l Ks info ms1 (b_tables st1) \<and>
      tables_complete g (2 ^ g) ms1 (b_tables st1) \<and> ms1 ! 0 = (0, 0, l) \<and> ms1 \<noteq> []"
proof (induction ks arbitrary: t st ms)
  case Nil
  then have "t = length Ks" by simp
  then show ?case using Nil ok by (auto simp: codes_ok_def root_ok_def)
next
  case (Cons ka ks)
  obtain k a where ka: "ka = (k, a)" by (cases ka)
  have t: "t < length Ks" using Cons.prems(2) by (cases "t < length Ks") auto
  then have dr: "drop t Ks = Ks ! t # drop (Suc t) Ks" by (simp add: Cons_nth_drop_Suc)
  have k: "k = Ks ! t" "map fst ks = drop (Suc t) Ks" using Cons.prems(2) ka dr by simp_all
  have a: "a = count_list (drop t Ks) (Ks ! t)" "counted ks" using Cons.prems(2,3) ka dr k by simp_all
  have so: "stack_ok g l Ks t ms st" using Cons.prems(5) t by simp
  obtain st1 ms1 where 1: "open_tables c g l k a st = Some st1" "b_p st1 = b_p st"
    "stack_ready g l Ks t ms1 st1" "tables_sound g l Ks info ms1 (b_tables st1)" "tables_complete g (apos g Ks t) ms1 (b_tables st1)"
    "root_ok l ms1"
    using open_tables_ready [OF ok t cnt so Cons.prems(6-8)] k a by blast
  have r1: "b_reach st1 - l = l * (b_levels st1 - 1)" "0 < b_levels st1"
    using 1(3) by (simp_all add: stack_ready_def stack_core_def diff_mult_distrib2)
  let ?w = "l * (b_levels st1 - 1)"
  have "b_p st1 = min t nv" using 1(2) Cons.prems(4) by simp
  then obtain r where r: "make_entry v n s d e (k - ?w) st1 = Some (Some (r, min (Suc t) nv))" "h_b r = k - ?w" "info t r"
    using ent t unfolding entries_ok_def by blast
  let ?tbl = "fill_entries (b_tables st1 ! b_q st1) (b_i st1 div 2 ^ ?w) (2 ^ (k - ?w)) r"
  let ?ts = "(b_tables st1)[b_q st1 := ?tbl]"
  note fill = fill_step [OF ok t 1(3,4,5) r(2) [unfolded k(1)] r(3), folded k(1)]
  have keep: "?ts ! u ! idx \<noteq> None" if "b_tables st1 ! u ! idx \<noteq> None" for u idx
  proof (cases "u = b_q st1")
    case True
    have n: "length ?tbl = length (b_tables st1 ! u)" "\<forall>idx<length (b_tables st1 ! u). ?tbl ! idx =
        (if b_i st1 div 2 ^ ?w \<le> idx \<and> 2 ^ (k - ?w) dvd (idx - b_i st1 div 2 ^ ?w) then Some r else b_tables st1 ! u ! idx)"
      using fill_entries_nth [of "2 ^ (k - ?w)" "b_tables st1 ! u" "b_i st1 div 2 ^ ?w" r] True by simp_all
    have "?tbl ! idx \<noteq> None"
    proof (cases "idx < length (b_tables st1 ! u)")
      case False
      then have "?tbl ! idx = b_tables st1 ! u ! idx" using nth_beyond [OF n(1)] n(1) by simp
      then show ?thesis using that by simp
    qed (use n(2) that in simp)
    then show ?thesis using True fill(1) by simp
  qed (use that in simp)
  obtain G where G: "back_up l (rev_inc k (b_i st1)) (b_x st1) (b_levels st1) (b_reach st1) = Some (G, l * G)"
    "Suc t < length Ks \<longrightarrow> stack_ok g l Ks (Suc t) ms1 (st1\<lparr>b_i := rev_inc k (b_i st1), b_p := min (Suc t) nv, b_v := h_v r,
       b_levels := G, b_reach := l * G, b_tables := ?ts\<rparr>)"
    using pop_step [OF ok t 1(3,4) keep] k(1) by blast
  let ?st = "st1\<lparr>b_i := rev_inc k (b_i st1), b_p := min (Suc t) nv, b_v := h_v r, b_levels := G, b_reach := l * G, b_tables := ?ts\<rparr>"
  have step: "build_codes c g l v n s d e (ka # ks) st = build_codes c g l v n s d e ks ?st"
    using 1(1) r(1) r1 G(1) fill(1) by (simp add: ka Let_def drop_bit_eq_div)
  have ne: "ms1 \<noteq> []" using fill(1) 1(4) by (auto simp: tables_sound_def)
  show ?case unfolding step
    by (rule Cons.IH [of "Suc t" ?st ms1]) (use t k(2) a(2) G(2) fill(2,3) 1(6) ne in simp_all)
qed

section \<open>Walking the finished tables\<close>

text \<open>The way of the code through the tables: no table is looked up with more than \<open>room\<close> bits from the start.\<close>

inductive huft_path :: "huft_tables \<Rightarrow> nat \<Rightarrow> nat \<Rightarrow> nat \<Rightarrow> huft \<Rightarrow> nat \<Rightarrow> nat \<Rightarrow> bool" where
  leaf: "huft_entry ts t (b mod 2 ^ m) = Some x \<Longrightarrow> h_e x \<le> 16 \<or> h_e x = 99 \<Longrightarrow> h_b x \<le> m \<Longrightarrow> m \<le> room \<Longrightarrow>
    huft_path ts t m b x (h_b x) room"
| link: "huft_entry ts t (b mod 2 ^ m) = Some r \<Longrightarrow> 16 < h_e r \<Longrightarrow> h_e r \<noteq> 99 \<Longrightarrow> h_b r = m \<Longrightarrow> m < room \<Longrightarrow> h_v r = Vt t1 \<Longrightarrow>
    huft_path ts t1 (h_e r - 16) (b div 2 ^ h_b r) x n (room - h_b r) \<Longrightarrow> huft_path ts t m b x (h_b r + n) room"

lemma path_walk: "huft_path ts t m b x n room \<Longrightarrow> huft_walk ts t m b u = Some (x, u + n)"
proof (induction arbitrary: u rule: huft_path.induct)
  case (leaf ts t b m x room)
  then show ?case by (subst huft_walk.simps) auto
next
  case (link ts t b m r room t1 x n)
  then show ?case by (subst huft_walk.simps) (simp add: add.assoc)
qed

lemma path_room: "huft_path ts t m b x n room \<Longrightarrow> room \<le> room' \<Longrightarrow> huft_path ts t m b x n room'"
proof (induction arbitrary: room' rule: huft_path.induct)
  case (leaf ts t b m x room)
  then show ?case by (auto intro: huft_path.leaf)
next
  case (link ts t b m r room t1 x n)
  show ?case
    by (rule huft_path.link [OF link.hyps(1-4)]) (use link in auto)
qed

lemma path_finished:
  assumes ok: "codes_ok g l Ks" and snd: "tables_sound g l Ks info ms ts" and cpl: "tables_complete g (2 ^ g) ms ts"
    and info: "\<And>t r. info t r \<Longrightarrow> h_e r \<le> 16 \<or> h_e r = 99"
  shows "q < length ts \<Longrightarrow> ms ! q = (w, b mod 2 ^ w, m) \<Longrightarrow>
    \<exists>t<length Ks. \<exists>r. w < Ks ! t \<and> huft_path ts q m (b div 2 ^ w) r (Ks ! t - w) (g - w) \<and> info t r \<and>
      rev_bits (Ks ! t) b * 2 ^ (g - Ks ! t) = apos g Ks t"
proof (induction "g - w" arbitrary: q w m rule: less_induct)
  case less
  have len: "length ms = length ts" and mo: "meta_ok g l (w, b mod 2 ^ w, m) (length (ts ! q))"
    and sd: "\<And>idx r. idx < 2 ^ m \<Longrightarrow> ts ! q ! idx = Some r \<Longrightarrow> sound_entry g l Ks info ms (w, b mod 2 ^ w, m) idx r"
    using snd less.prems unfolding tables_sound_def by (auto simp: less.prems(2))
  let ?idx = "(b div 2 ^ w) mod 2 ^ m"
  have m: "?idx < 2 ^ m" "0 < m" "m \<le> l" "w + m \<le> g" "2 ^ m \<le> length (ts ! q)" using mo by (simp_all add: meta_ok_def)
  have comb: "b mod 2 ^ w + ?idx * 2 ^ w = b mod 2 ^ (w + m)"
    unfolding power_add by (subst mod_mult2_eq) simp
  have "ts ! q ! ?idx \<noteq> None"
    using cpl less.prems m(1) rev_bits_less unfolding tables_complete_def by blast
  then obtain r where r: "ts ! q ! ?idx = Some r" by blast
  have ent: "huft_entry ts q ?idx = Some r" using r less.prems(1) less_le_trans [OF m(1,5)] by (simp add: huft_entry_def)
  from sd [OF m(1) r, unfolded sound_entry_def split comb]
  consider t where "t < length Ks" "h_b r = Ks ! t - w" "w < Ks ! t" "Ks ! t \<le> w + m" "info t r"
      "rev_bits (Ks ! t) (b mod 2 ^ (w + m)) * 2 ^ (g - Ks ! t) = apos g Ks t"
    | q1 m1 where "q1 < length ms" "ms ! q1 = (w + l, b mod 2 ^ (w + m), m1)" "m = l" "h_e r = 16 + m1" "h_b r = l" "h_v r = Vt q1"
    by blast
  then show ?case
  proof cases
    case 1
    have "huft_path ts q m (b div 2 ^ w) r (h_b r) (g - w)"
      using ent info [OF 1(5)] 1(2,4) m(4) by (intro huft_path.leaf) auto
    then have "huft_path ts q m (b div 2 ^ w) r (Ks ! t - w) (g - w)" by (simp add: 1(2))
    moreover have "(2 :: nat) ^ (Ks ! t) dvd 2 ^ (w + m)" using 1(4) by (rule le_imp_power_dvd)
    then have "rev_bits (Ks ! t) (b mod 2 ^ (w + m)) = rev_bits (Ks ! t) b" by (simp add: rev_bits_eq_iff mod_mod_cancel)
    ultimately show ?thesis using 1 by auto
  next
    case 2
    have lk: "q1 < length ts" "ms ! q1 = (w + l, b mod 2 ^ (w + l), m1)" using 2 len by simp_all
    have "meta_ok g l (ms ! q1) (length (ts ! q1))" using snd lk(1) by (simp add: tables_sound_def)
    then have m1: "0 < m1" "m1 \<le> l" "w + l + m1 \<le> g" using 2(2) by (simp_all add: meta_ok_def)
    have l16: "0 < l" "l \<le> 16" using ok by (simp_all add: codes_ok_def BMAX_def)
    have "g - (w + l) < g - w" using m 2(3) l16 by simp
    from less.hyps [OF this lk] obtain t r1 where t: "t < length Ks" "w + l < Ks ! t"
      "huft_path ts q1 m1 (b div 2 ^ (w + l)) r1 (Ks ! t - (w + l)) (g - (w + l))" "info t r1"
      "rev_bits (Ks ! t) b * 2 ^ (g - Ks ! t) = apos g Ks t" by blast
    have "b div 2 ^ w div 2 ^ h_b r = b div 2 ^ (w + l)" by (simp add: 2(5) power_add div_mult2_eq)
    then have "huft_path ts q1 (h_e r - 16) (b div 2 ^ w div 2 ^ h_b r) r1 (Ks ! t - (w + l)) (g - w - h_b r)"
      using t(3) by (simp add: 2(4,5))
    from huft_path.link [OF ent _ _ _ _ 2(6) this] have "huft_path ts q m (b div 2 ^ w) r1 (h_b r + (Ks ! t - (w + l))) (g - w)"
      using 2(3-5) m m1 l16 by simp
    moreover have "h_b r + (Ks ! t - (w + l)) = Ks ! t - w" using t(2) by (simp add: 2(5))
    ultimately show ?thesis using t by auto
  qed
qed

lemma code_unique:
  assumes "t < length Ks" "u < length Ks" "\<forall>k\<in>set Ks. k \<le> g"
    and "rev_bits (Ks ! t) b * 2 ^ (g - Ks ! t) = apos g Ks t" "rev_bits (Ks ! u) b * 2 ^ (g - Ks ! u) = apos g Ks u"
  shows "t = u"
proof -
  have iv: "apos g Ks x \<le> rev_bits g b \<and> rev_bits g b < apos g Ks (Suc x)"
    if "x < length Ks" "rev_bits (Ks ! x) b * 2 ^ (g - Ks ! x) = apos g Ks x" for x
  proof -
    have "Ks ! x \<le> g" using assms(3) that(1) by simp
    from rev_bits_prefix_le [OF this, of b] show ?thesis using that(2) apos_Suc [OF that(1), of g] by simp
  qed
  have "\<not> x < y" if "x < length Ks" "y < length Ks" "apos g Ks y \<le> rev_bits g b" "rev_bits g b < apos g Ks (Suc x)" for x y
    using apos_mono [of "Suc x" y g Ks] that by auto
  then show ?thesis using iv [OF assms(1,4)] iv [OF assms(2,5)] assms(1,2) by (metis linorder_neqE_nat)
qed

end
