(* ===== verification/HuftCode.thy ===== *)
theory HuftCode
  imports HuftBuild
begin

text \<open>
  The first part of \<open>huft_build\<close>, which counts and sorts the lengths, and with it the whole function: what the tables
  decode is the canonical prefix code of the lengths, and sets of lengths with too many codes are rejected.
\<close>

section \<open>The canonical code\<close>

fun first_code :: "nat list \<Rightarrow> nat \<Rightarrow> nat" where
  \<comment> \<open>the smallest code of each length\<close>
  "first_code b 0 = 0"
| "first_code b (Suc k) = 2 * (first_code b k + (if k = 0 then 0 else count_list b k))"

definition canonical_code :: "nat list \<Rightarrow> nat \<Rightarrow> nat" where
  \<comment> \<open>the code of a symbol, its first bit the most significant one\<close>
  "canonical_code b sy = first_code b (b ! sy) + length (filter (\<lambda>s. b ! s = b ! sy) [0..<sy])"

definition kraft_sum :: "nat list \<Rightarrow> nat" where
  "kraft_sum b = (\<Sum>k\<leftarrow>filter (\<lambda>k. k \<noteq> 0) b. 2 ^ (BMAX - k))"

definition symbol_entry :: "nat \<Rightarrow> nat list \<Rightarrow> nat list \<Rightarrow> nat \<Rightarrow> nat \<times> huft_value" where
  \<comment> \<open>the fields \<open>e\<close> and \<open>v\<close> of a symbol\<close>
  "symbol_entry s d es sy =
     (if sy < s then (if sy < 256 then 16 else 15, Vn sy) else (es ! (sy - s), Vn (d ! (sy - s))))"

lemma first_code_sum: "first_code b k = (\<Sum>q\<in>{1..<k}. count_list b q * 2 ^ (k - q))"
proof (induction k)
  case (Suc k)
  show ?case
  proof (cases "k = 0")
    case False
    then have "{1..<Suc k} = insert k {1..<k}" by auto
    then have "(\<Sum>q\<in>{1..<Suc k}. count_list b q * 2 ^ (Suc k - q)) = 2 * count_list b k + (\<Sum>q\<in>{1..<k}. count_list b q * 2 ^ (Suc k - q))"
      by simp
    also have "(\<Sum>q\<in>{1..<k}. count_list b q * 2 ^ (Suc k - q)) = 2 * (\<Sum>q\<in>{1..<k}. count_list b q * 2 ^ (k - q))"
      unfolding sum_distrib_left by (rule sum.cong) (auto simp: Suc_diff_le)
    finally show ?thesis using Suc False by simp
  qed simp
qed simp

section \<open>Counting\<close>

lemma count_lengths_eq:
  assumes "\<forall>k\<in>set b. k \<le> BMAX" "\<exists>k\<in>set b. k \<noteq> 0"
  shows "count_lengths b = Some (map (count_list b) [0..<BMAX + 1])"
proof -
  have "ofold (\<lambda>k c. if k < length c then Some (c[k := c ! k + 1]) else None) b c =
      Some (map (\<lambda>k. c ! k + count_list b k) [0..<BMAX + 1])" if "length c = BMAX + 1" for c
    using assms(1) that
  proof (induction b arbitrary: c)
    case Nil
    then show ?case by (auto intro!: nth_equalityI simp del: upt_Suc)
  next
    case (Cons k b)
    then show ?case by (auto intro!: nth_equalityI simp: nth_list_update simp del: upt_Suc)
  qed
  from this [of "replicate (BMAX + 1) 0"] assms(2) show ?thesis by (auto simp: count_lengths_def simp del: upt_Suc replicate_Suc)
qed

lemma min_length_props:
  assumes "\<exists>q\<in>{1..BMAX}. c ! q \<noteq> 0"
  shows "1 \<le> min_length c \<and> min_length c \<le> BMAX \<and> c ! min_length c \<noteq> 0 \<and> (\<forall>q. 1 \<le> q \<longrightarrow> q < min_length c \<longrightarrow> c ! q = 0)"
proof -
  have "find (\<lambda>j. c ! j \<noteq> 0) [1..<BMAX + 1] \<noteq> None" using assms by (auto simp: find_None_iff)
  then obtain j where j: "find (\<lambda>j. c ! j \<noteq> 0) [1..<BMAX + 1] = Some j" by blast
  then obtain i where i: "i < BMAX" "c ! (1 + i) \<noteq> 0" "j = 1 + i" "\<forall>h<i. c ! (1 + h) = 0"
    by (auto simp: find_Some_iff simp del: upt_Suc)
  have "c ! q = 0" if "1 \<le> q" "q < j" for q
  proof -
    have "1 + (q - 1) = q" "q - 1 < i" using that i(3) by auto
    then show ?thesis using i(4) by metis
  qed
  then show ?thesis using i j by (auto simp: min_length_def simp del: upt_Suc)
qed

lemma max_length_props:
  assumes "\<exists>q\<in>{1..BMAX}. c ! q \<noteq> 0"
  shows "1 \<le> max_length c \<and> max_length c \<le> BMAX \<and> c ! max_length c \<noteq> 0 \<and> (\<forall>q. max_length c < q \<longrightarrow> q \<le> BMAX \<longrightarrow> c ! q = 0)"
proof -
  have "find (\<lambda>j. c ! j \<noteq> 0) (rev [1..<BMAX + 1]) \<noteq> None" using assms by (auto simp: find_None_iff)
  then obtain g where g: "find (\<lambda>j. c ! j \<noteq> 0) (rev [1..<BMAX + 1]) = Some g" by blast
  then obtain i where i: "i < BMAX" "c ! (BMAX - i) \<noteq> 0" "g = BMAX - i" "\<forall>h<i. c ! (BMAX - h) = 0"
  proof -
    have n: "rev [1..<BMAX + 1] ! h = BMAX - h" if "h < BMAX" for h using that by (simp add: rev_nth Suc_diff_Suc del: upt_Suc)
    obtain i where i: "i < BMAX" "c ! (rev [1..<BMAX + 1] ! i) \<noteq> 0" "g = rev [1..<BMAX + 1] ! i"
      "\<forall>h<i. c ! (rev [1..<BMAX + 1] ! h) = 0" using g by (auto simp: find_Some_iff simp del: upt_Suc)
    have "\<forall>h<i. c ! (BMAX - h) = 0"
    proof (intro allI impI)
      fix h assume h: "h < i"
      then have "rev [1..<BMAX + 1] ! h = BMAX - h" using n [of h] i(1) by (simp del: upt_Suc)
      then show "c ! (BMAX - h) = 0" using i(4) h by metis
    qed
    then show ?thesis using that i(1-3) n [OF i(1)] by simp
  qed
  have "c ! q = 0" if "g < q" "q \<le> BMAX" for q
  proof -
    have "BMAX - (BMAX - q) = q" "BMAX - q < i" using that i(1,3) by auto
    then show ?thesis using i(4) by metis
  qed
  then show ?thesis using i g by (auto simp: max_length_def simp del: upt_Suc)
qed

lemma dummy_codes_eq:
  fixes c :: "nat list"
  assumes "j \<le> g"
  defines "y \<equiv> 2 ^ g - (\<Sum>q\<in>{j..g}. int (c ! q) * 2 ^ (g - q))"
  shows "dummy_codes c j g = (if 0 \<le> y then Some y else None)"
proof -
  let ?f = "\<lambda>j y. if y - int (c ! j) < 0 then None else Some (2 * (y - int (c ! j)))"
  let ?P = "\<lambda>i. 2 ^ i - (\<Sum>q\<in>{j..<i}. int (c ! q) * 2 ^ (i - q))"
  have P: "?P (Suc i) = 2 * (?P i - int (c ! i))" if "j \<le> i" for i
  proof -
    have "(\<Sum>q\<in>{j..<Suc i}. int (c ! q) * 2 ^ (Suc i - q)) = 2 * int (c ! i) + (\<Sum>q\<in>{j..<i}. int (c ! q) * 2 ^ (Suc i - q))"
      using that by (simp add: atLeastLessThanSuc)
    also have "(\<Sum>q\<in>{j..<i}. int (c ! q) * 2 ^ (Suc i - q)) = 2 * (\<Sum>q\<in>{j..<i}. int (c ! q) * 2 ^ (i - q))"
      unfolding sum_distrib_left by (rule sum.cong) (auto simp: Suc_diff_le)
    finally show ?thesis by simp
  qed
  have "ofold ?f [j..<i] (2 ^ j) = (if 0 \<le> ?P i then Some (?P i) else None)" if "j \<le> i" for i
    using that
  proof (induction i rule: dec_induct)
    case (step i)
    have "[j..<Suc i] = [j..<i] @ [i]" using step(1) by simp
    then have "ofold ?f [j..<Suc i] (2 ^ j) = ofold ?f [j..<i] (2 ^ j) \<bind> ofold ?f [i]"
      by (simp only: ofold_append)
    also have "\<dots> = (if 0 \<le> ?P (Suc i) then Some (?P (Suc i)) else None)"
      unfolding step.IH P [OF step(1)] by (cases "0 \<le> ?P i") (auto simp: zero_le_mult_iff)
    finally show ?case .
  qed simp
  from this [OF assms(1)] have "dummy_codes c j g = (if 0 \<le> ?P g - int (c ! g) then Some (?P g - int (c ! g)) else None)"
    by (simp add: dummy_codes_def)
  moreover have "?P g - int (c ! g) = y"
  proof -
    have "{j..g} = insert g {j..<g}" using assms(1) by auto
    then show ?thesis by (simp add: y_def)
  qed
  ultimately show ?thesis by simp
qed

lemma offsets_nth:
  assumes "g \<le> BMAX" "1 \<le> k" "k \<le> g"
  shows "offsets c g ! k = (\<Sum>q\<in>{1..<k}. c ! q)"
proof -
  let ?x = "\<lambda>i. foldl (\<lambda>x k. x[k := x ! (k - 1) + c ! (k - 1)]) (replicate (BMAX + 1) 0) [2..<i + 1]"
  have "length (?x i) = BMAX + 1 \<and> (\<forall>k. 1 \<le> k \<longrightarrow> k \<le> i \<longrightarrow> ?x i ! k = (\<Sum>q\<in>{1..<k}. c ! q))" if "1 \<le> i" "i \<le> BMAX" for i
    using that
  proof (induction i rule: dec_induct)
    case base
    then show ?case by (auto simp: le_Suc_eq simp del: replicate_Suc)
  next
    case (step i)
    have u: "[2..<Suc i + 1] = [2..<i + 1] @ [Suc i]" using step(1) by simp
    have ih: "length (?x i) = BMAX + 1" "\<And>k. 1 \<le> k \<Longrightarrow> k \<le> i \<Longrightarrow> ?x i ! k = (\<Sum>q\<in>{1..<k}. c ! q)"
      using step by auto
    have new: "?x (Suc i) = (?x i)[Suc i := ?x i ! i + c ! i]" unfolding u by simp
    have "?x (Suc i) ! k = (\<Sum>q\<in>{1..<k}. c ! q)" if "1 \<le> k" "k \<le> Suc i" for k
    proof (cases "k = Suc i")
      case True
      have "{1..<Suc i} = insert i {1..<i}" using step(1) by auto
      then show ?thesis unfolding new using True ih(1) ih(2) [of i] step by simp
    next
      case False
      then show ?thesis unfolding new using ih(2) [of k] that by simp
    qed
    then show ?case using ih(1) new by simp
  qed
  then show ?thesis using assms by (simp add: offsets_def)
qed

section \<open>Sorting\<close>

definition of_length :: "nat list \<Rightarrow> nat \<Rightarrow> nat \<Rightarrow> nat list" where
  \<comment> \<open>the symbols below \<open>i\<close> with length \<open>k\<close>\<close>
  "of_length b i k = filter (\<lambda>s. b ! s = k) [0..<i]"

definition first_index :: "nat list \<Rightarrow> nat \<Rightarrow> nat" where
  \<comment> \<open>the number of codes that are shorter\<close>
  "first_index b k = (\<Sum>q\<in>{1..<k}. count_list b q)"

lemma of_length_Suc: "of_length b (Suc i) k = of_length b i k @ (if b ! i = k then [i] else [])"
  by (simp add: of_length_def)

lemma length_of_length: "i \<le> length b \<Longrightarrow> length (of_length b i k) = count_list (take i b) k"
proof (induction i)
  case (Suc i)
  then show ?case by (simp add: of_length_Suc take_Suc_conv_app_nth)
qed (simp add: of_length_def)

lemma of_length_all: "length (of_length b (length b) k) = count_list b k"
  using length_of_length [of "length b" b k] by simp

lemma of_length_le: "i \<le> length b \<Longrightarrow> length (of_length b i k) \<le> count_list b k"
proof -
  assume i: "i \<le> length b"
  have "count_list b k = count_list (take i b) k + count_list (drop i b) k"
    by (metis append_take_drop_id count_list_append)
  then show ?thesis using length_of_length [OF i, of k] by simp
qed

lemma first_index_Suc: "1 \<le> k \<Longrightarrow> first_index b (Suc k) = first_index b k + count_list b k"
  by (simp add: first_index_def atLeastLessThanSuc)

lemma first_index_mono: "j \<le> k \<Longrightarrow> first_index b j \<le> first_index b k"
  unfolding first_index_def by (rule sum_mono2) auto

lemma count_zero: "length (filter (\<lambda>x. x \<noteq> 0) b) + count_list b (0 :: nat) = length b"
  by (induction b) auto

lemma first_index_le: "first_index b k \<le> length b - count_list b 0"
proof -
  have "(\<Sum>q\<in>{1..<k}. count_list b q) \<le> (\<Sum>q\<in>({1..<k} \<union> set b) - {0}. count_list b q)"
    by (rule sum_mono2) auto
  also have "\<dots> = (\<Sum>x\<leftarrow>filter (\<lambda>x. x \<noteq> 0) b. 1)"
  proof -
    have c: "count_list (filter (\<lambda>x. x \<noteq> 0) b) q = count_list b q" if "q \<noteq> 0" for q
      using that by (induction b) auto
    have "(\<Sum>x\<leftarrow>filter (\<lambda>x. x \<noteq> 0) b. 1) = (\<Sum>q\<in>({1..<k} \<union> set b) - {0}. count_list (filter (\<lambda>x. x \<noteq> 0) b) q * 1)"
      by (rule sum_list_map_eq_sum_count2) auto
    then show ?thesis using c by simp
  qed
  also have "\<dots> = length b - count_list b 0"
  proof -
    show ?thesis using count_zero [of b] by (simp add: sum_list_triv)
  qed
  finally show ?thesis by (simp add: first_index_def)
qed

lemma first_index_all:
  assumes "\<forall>k\<in>set b. k \<le> g"
  shows "first_index b (Suc g) = length b - count_list b 0"
proof (rule antisym [OF first_index_le])
  have "set (filter (\<lambda>x. x \<noteq> 0) b) \<subseteq> {1..<Suc g}" using assms by (auto simp: less_Suc_eq_le)
  from sum_list_map_eq_sum_count2 [OF this, of "\<lambda>_. 1"]
  have "length (filter (\<lambda>x. x \<noteq> 0) b) = (\<Sum>q\<in>{1..<Suc g}. count_list (filter (\<lambda>x. x \<noteq> 0) b) q * 1)"
    by (simp add: sum_list_triv del: sum.op_ivl_Suc)
  also have "\<dots> \<le> first_index b (Suc g)" unfolding first_index_def
  proof (rule sum_mono)
    show "count_list (filter (\<lambda>x. x \<noteq> 0) b) q * 1 \<le> count_list b q" for q by (induction b) auto
  qed
  finally show "length b - count_list b 0 \<le> first_index b (Suc g)" using count_zero [of b] by simp
qed

lemma first_index_decompose:
  assumes "u < first_index b (Suc g)"
  obtains k z where "1 \<le> k" "k \<le> g" "z < count_list b k" "u = first_index b k + z"
  using assms
proof (induction g arbitrary: thesis)
  case 0
  then show ?case by (simp add: first_index_def)
next
  case (Suc g)
  show ?case
  proof (cases "u < first_index b (Suc g)")
    case True
    with Suc.IH obtain k z where "1 \<le> k" "k \<le> g" "z < count_list b k" "u = first_index b k + z" by blast
    then show ?thesis using Suc.prems(1) by fastforce
  next
    case False
    then show ?thesis using Suc.prems first_index_Suc [of "Suc g" b]
      by (intro Suc.prems(1) [of "Suc g" "u - first_index b (Suc g)"]) auto
  qed
qed

lemma index_unique:
  assumes "first_index b j + x = first_index b k + y" "x < count_list b j" "y < count_list b k" "1 \<le> j" "1 \<le> k"
  shows "j = k \<and> x = y"
proof -
  have "\<not> j < k" if "first_index b j + x = first_index b k + y" "x < count_list b j" "1 \<le> j" for j k x y
    using first_index_mono [of "Suc j" k b] first_index_Suc [of j b] that by auto
  from this [OF assms(1,2,4)] this [OF assms(1) [symmetric] assms(3,5)] show ?thesis using assms(1) by auto
qed

lemma sort_values_sorted:
  assumes "length b \<le> N_MAX" "\<forall>k\<in>set b. k \<le> g" "g \<le> BMAX" "length x = BMAX + 1"
    and "\<forall>k. 1 \<le> k \<longrightarrow> k \<le> g \<longrightarrow> x ! k = first_index b k"
  shows "\<exists>v. sort_values b x = Some v \<and> length v = N_MAX \<and>
    (\<forall>k y. 1 \<le> k \<longrightarrow> k \<le> g \<longrightarrow> y < count_list b k \<longrightarrow> v ! (first_index b k + y) = Some (of_length b (length b) k ! y)) \<and>
    (\<forall>u<N_MAX. length b - count_list b 0 \<le> u \<longrightarrow> v ! u = None)"
proof -
  let ?f = "\<lambda>i (x, v). let j = b ! i in
     if j = 0 then Some (x, v)
     else if x ! j < length v then Some (x[j := x ! j + 1], v[x ! j := Some i]) else None"
  let ?I = "\<lambda>is (x', v). length x' = BMAX + 1 \<and> length v = N_MAX \<and> (\<forall>u<N_MAX. length b - count_list b 0 \<le> u \<longrightarrow> v ! u = None) \<and>
     (\<forall>k. 1 \<le> k \<longrightarrow> k \<le> g \<longrightarrow> x' ! k = first_index b k + length (of_length b (length is) k)) \<and>
     (\<forall>k y. 1 \<le> k \<longrightarrow> k \<le> g \<longrightarrow> y < length (of_length b (length is) k) \<longrightarrow>
        v ! (first_index b k + y) = Some (of_length b (length is) k ! y))"
  have "\<exists>s'. ofold ?f [0..<length b] (x, replicate N_MAX None) = Some s' \<and> ?I [0..<length b] s'"
  proof (rule ofold_rule)
    show "?I [] (x, replicate N_MAX None)" using assms(4,5) by (simp add: of_length_def)
  next
    fix done' i todo s
    assume sp: "[0..<length b] = done' @ i # todo" and I: "?I done' s"
    have len: "length b = length done' + Suc (length todo)" using arg_cong [OF sp, of length] by simp
    have "[0..<length b] ! length done' = i" unfolding sp by simp
    then have ld: "length done' = i" "i < length b" using len by (simp_all del: upt_Suc)
    obtain x' v where s: "s = (x', v)" by (cases s)
    have lx: "length x' = BMAX + 1" "length v = N_MAX" and rest: "\<forall>u<N_MAX. length b - count_list b 0 \<le> u \<longrightarrow> v ! u = None"
      and xk: "\<And>k. 1 \<le> k \<Longrightarrow> k \<le> g \<Longrightarrow> x' ! k = first_index b k + length (of_length b i k)"
      and vk: "\<And>k y. 1 \<le> k \<Longrightarrow> k \<le> g \<Longrightarrow> y < length (of_length b i k) \<Longrightarrow> v ! (first_index b k + y) = Some (of_length b i k ! y)"
      using I ld by (auto simp: s)
    show "\<exists>s'. ?f i s = Some s' \<and> ?I (done' @ [i]) s'"
    proof (cases "b ! i = 0")
      case True
      then show ?thesis using I ld by (auto simp: s of_length_Suc)
    next
      case False
      let ?j = "b ! i"
      have j: "1 \<le> ?j" "?j \<le> g" using False assms(2) ld by auto
      have more: "length (of_length b i ?j) < count_list b ?j"
        using of_length_le [of "Suc i" b ?j] ld by (simp add: of_length_Suc)
      have xn: "x' ! ?j < length b - count_list b 0"
        using xk [OF j] more first_index_Suc [OF j(1)] first_index_le [of b "Suc ?j"] by simp
      then have lt: "x' ! ?j < length v" using lx assms(1) by simp
      let ?x = "x'[?j := x' ! ?j + 1]" and ?v = "v[x' ! ?j := Some i]"
      have "?x ! k = first_index b k + length (of_length b (Suc i) k)" if "1 \<le> k" "k \<le> g" for k
        using xk [OF that] lx that assms(3) by (auto simp: of_length_Suc nth_list_update)
      moreover have "?v ! (first_index b k + y) = Some (of_length b (Suc i) k ! y)"
        if k: "1 \<le> k" "k \<le> g" and y: "y < length (of_length b (Suc i) k)" for k y
      proof (cases "first_index b k + y = x' ! ?j")
        case True
        have "y < count_list b k" using y of_length_le [of "Suc i" b k] ld by simp
        then have "k = ?j \<and> y = length (of_length b i ?j)"
          using index_unique [of b k y ?j "length (of_length b i ?j)"] True xk [OF j] more k j by simp
        then show ?thesis using True lt by (auto simp: of_length_Suc nth_append)
      next
        case False
        have "y < length (of_length b i k)"
        proof (rule ccontr)
          assume "\<not> y < length (of_length b i k)"
          then have "k = ?j" "y = length (of_length b i k)" using y by (auto simp: of_length_Suc split: if_splits)
          then show False using False xk [OF j] by simp
        qed
        then show ?thesis using vk [OF k] False by (simp add: of_length_Suc nth_append)
      qed
      moreover have "?f i s = Some (?x, ?v)" using False lt by (simp add: s Let_def)
      ultimately show ?thesis using lx ld rest xn by (intro exI [of _ "(?x, ?v)"]) (auto simp: nth_list_update)
    qed
  qed
  then obtain x' v where "ofold ?f [0..<length b] (x, replicate N_MAX None) = Some (x', v)" "?I [0..<length b] (x', v)" by auto
  then show ?thesis by (intro exI [of _ v]) (simp add: sort_values_def of_length_all)
qed

section \<open>The codes in their order\<close>

definition all_lengths :: "nat list \<Rightarrow> nat \<Rightarrow> nat \<Rightarrow> nat list" where
  \<comment> \<open>the lengths of all codes\<close>
  "all_lengths c j g = concat (map (\<lambda>k. replicate (c ! k) k) [j..<g + 1])"

lemma code_list_lengths: "map fst (code_list c j g) = all_lengths c j g"
proof -
  have "map fst (map (Pair k) (rev [1..<c ! k + 1])) = replicate (c ! k) k" for k
    by (rule nth_equalityI) (simp_all del: upt_Suc)
  then show ?thesis by (simp add: code_list_def all_lengths_def map_concat o_def del: upt_Suc)
qed

lemma counted_block:
  assumes "counted ks" "k \<notin> fst ` set ks"
  shows "counted (map (Pair k) (rev [1..<n + 1]) @ ks)"
proof (induction n)
  case (Suc n)
  have c: "count_list (map fst ks) k = 0" using assms(2) by (simp add: count_list_0_iff)
  have m: "map fst (map (Pair k) (rev [1..<n + 1])) = replicate n k"
    by (rule nth_equalityI) (simp_all del: upt_Suc)
  have "count_list (replicate n k @ map fst ks) k = n" using c by (simp add: count_list_append) (induction n, auto)
  then show ?case using Suc m by simp
qed (use assms in simp)

lemma counted_codes: "counted (code_list c j g)"
proof (induction "g + 1 - j" arbitrary: j)
  case 0
  then show ?case by (simp add: code_list_def)
next
  case (Suc n)
  then have "[j..<g + 1] = j # [Suc j..<g + 1]" by (subst upt_conv_Cons) auto
  then have "code_list c j g = map (Pair j) (rev [1..<c ! j + 1]) @ code_list c (Suc j) g"
    by (simp add: code_list_def del: upt_Suc)
  moreover have "j \<notin> fst ` set (code_list c (Suc j) g)" by (auto simp: code_list_def)
  ultimately show ?case using counted_block Suc.hyps(1) [of "Suc j"] Suc.hyps(2) by simp
qed

lemma all_lengths_split:
  assumes "j \<le> k" "k \<le> g"
  shows "all_lengths c j g = concat (map (\<lambda>k. replicate (c ! k) k) [j..<k]) @ replicate (c ! k) k @
    concat (map (\<lambda>k. replicate (c ! k) k) [Suc k..<g + 1])"
proof -
  have "[j..<g + 1] = [j..<k] @ k # [Suc k..<g + 1]"
    using assms upt_add_eq_append [of j k "g + 1 - k"] by (simp add: upt_conv_Cons del: upt_Suc)
  then show ?thesis by (simp add: all_lengths_def del: upt_Suc)
qed

lemma length_blocks: "length (concat (map (\<lambda>k. replicate (c ! k) k) [j..<k])) = (\<Sum>q\<in>{j..<k}. c ! q)"
  by (simp add: length_concat o_def sum_list_distinct_conv_sum_set)

lemma sum_blocks: "(\<Sum>x\<leftarrow>concat (map (\<lambda>k. replicate (c ! k) k) [j..<k]). f x) = (\<Sum>q\<in>{j..<k}. c ! q * (f q :: nat))"
  by (induction k) (auto simp: sum_list_replicate)

lemma all_lengths_nth:
  assumes "j \<le> k" "k \<le> g" "y < c ! k"
  defines "t \<equiv> (\<Sum>q\<in>{j..<k}. c ! q) + y"
  shows "t < length (all_lengths c j g)" "all_lengths c j g ! t = k"
    "apos h (all_lengths c j g) t = (\<Sum>q\<in>{j..<k}. c ! q * 2 ^ (h - q)) + y * 2 ^ (h - k)"
proof -
  note sp = all_lengths_split [OF assms(1,2), of c]
  note lb = length_blocks [of c j k]
  show "t < length (all_lengths c j g)" unfolding sp using assms(3) lb by (simp add: t_def)
  show "all_lengths c j g ! t = k" unfolding sp using assms(3) lb by (simp add: t_def nth_append)
  have "take t (all_lengths c j g) = concat (map (\<lambda>k. replicate (c ! k) k) [j..<k]) @ replicate y k"
    unfolding sp t_def using assms(3) lb by (simp add: min_absorb1)
  then show "apos h (all_lengths c j g) t = (\<Sum>q\<in>{j..<k}. c ! q * 2 ^ (h - q)) + y * 2 ^ (h - k)"
    by (simp add: apos_def sum_blocks sum_list_replicate)
qed

lemma all_lengths_index:
  assumes "t < length (all_lengths c j g)" "j \<le> g"
  shows "\<exists>k y. j \<le> k \<and> k \<le> g \<and> y < c ! k \<and> t = (\<Sum>q\<in>{j..<k}. c ! q) + y"
proof -
  have len: "length (all_lengths c j g) = (\<Sum>q\<in>{j..<g + 1}. c ! q)" using length_blocks [of c j "g + 1"] by (simp add: all_lengths_def)
  let ?P = "\<lambda>k. j \<le> k \<and> t < (\<Sum>q\<in>{j..<Suc k}. c ! q)"
  have "?P g" using assms len by simp
  define k where "k = (LEAST k. ?P k)"
  have k: "?P k" unfolding k_def by (rule LeastI [of ?P g]) fact
  have kg: "k \<le> g" unfolding k_def by (rule Least_le) fact
  have "(\<Sum>q\<in>{j..<k}. c ! q) \<le> t"
  proof (cases "k = j")
    case False
    then obtain k1 where k1: "k = Suc k1" "j \<le> k1" using k by (cases k) auto
    have "\<not> ?P k1" by (rule not_less_Least) (unfold k_def [symmetric], use k1(1) in simp)
    then show ?thesis using k1 by simp
  qed simp
  moreover have "(\<Sum>q\<in>{j..<Suc k}. c ! q) = (\<Sum>q\<in>{j..<k}. c ! q) + c ! k" using k by (simp add: atLeastLessThanSuc)
  ultimately show ?thesis using k kg by (intro exI [of _ k] exI [of _ "t - (\<Sum>q\<in>{j..<k}. c ! q)"]) auto
qed

lemma all_lengths_sorted: "sorted (all_lengths c j g)"
proof -
  have "sorted (concat (map (\<lambda>k. replicate (c ! k) k) [j..<n]))" for n
    by (induction n) (auto simp: sorted_append)
  then show ?thesis by (simp add: all_lengths_def del: upt_Suc)
qed

lemma all_lengths_count: "count_list (all_lengths c j g) q = (if j \<le> q \<and> q \<le> g then c ! q else 0)"
proof -
  have r: "count_list (replicate n k) q = (if k = q then n else 0)" for n k by (induction n) auto
  have "count_list (concat (map (\<lambda>k. replicate (c ! k) k) [j..<n])) q = (if j \<le> q \<and> q < n then c ! q else 0)" for n
    by (induction n) (auto simp: count_list_append r)
  then show ?thesis by (simp add: all_lengths_def less_Suc_eq_le del: upt_Suc)
qed

lemma all_lengths_set: "k \<in> set (all_lengths c j g) \<longleftrightarrow> j \<le> k \<and> k \<le> g \<and> c ! k \<noteq> 0"
  by (auto simp: all_lengths_def)

section \<open>The whole function\<close>

definition bits_clamp :: "nat \<Rightarrow> nat \<Rightarrow> nat \<Rightarrow> nat" where
  "bits_clamp m j g = (let l = (if m < j then j else m) in if g < l then g else l)"

definition fill_up :: "nat list \<Rightarrow> nat list \<Rightarrow> nat \<Rightarrow> int \<Rightarrow> bool" where
  \<comment> \<open>\<open>c\<close> counts the lengths of \<open>b\<close> and \<open>y\<close> dummy codes of length \<open>g\<close>\<close>
  "fill_up b c g y \<longleftrightarrow> length c = BMAX + 1 \<and> (\<forall>q\<le>BMAX. c ! q = count_list b q + (if q = g then nat y else 0))"

lemma counts:
  fixes b :: "nat list"
  assumes "\<forall>k\<in>set b. k \<le> BMAX" "\<exists>k\<in>set b. k \<noteq> 0"
  defines "c \<equiv> map (count_list b) [0..<BMAX + 1]"
  defines "j \<equiv> min_length c" and "g \<equiv> max_length c"
  shows "1 \<le> j" "j \<le> g" "g \<le> BMAX" "count_list b j \<noteq> 0" "count_list b g \<noteq> 0"
    "\<And>q. q \<noteq> 0 \<Longrightarrow> count_list b q \<noteq> 0 \<Longrightarrow> j \<le> q \<and> q \<le> g"
    "\<And>q. q \<le> BMAX \<Longrightarrow> c ! q = count_list b q"
    "kraft_sum b = (\<Sum>q\<in>{j..g}. count_list b q * 2 ^ (g - q)) * 2 ^ (BMAX - g)"
proof -
  show c: "\<And>q. q \<le> BMAX \<Longrightarrow> c ! q = count_list b q" by (simp add: c_def del: upt_Suc)
  obtain k where "k \<in> set b" "k \<noteq> 0" using assms(2) by blast
  then have ex: "\<exists>q\<in>{1..BMAX}. c ! q \<noteq> 0" using assms(1) c by (intro bexI [of _ k]) (auto simp: count_list_0_iff)
  note mn = min_length_props [OF ex, folded j_def] and mx = max_length_props [OF ex, folded g_def]
  show a: "1 \<le> j" "g \<le> BMAX" "count_list b j \<noteq> 0" "count_list b g \<noteq> 0" using mn mx c by auto
  show rng: "j \<le> q \<and> q \<le> g" if "q \<noteq> 0" "count_list b q \<noteq> 0" for q
  proof -
    have "q \<le> BMAX" using assms(1) that(2) by (auto simp: count_list_0_iff)
    then show ?thesis using mn mx that c [of q] by (metis not_less One_nat_def Suc_leI neq0_conv)
  qed
  show "j \<le> g" using rng [of j] a by auto
  have c0: "count_list (filter (\<lambda>x. x \<noteq> 0) b) q = (if q = 0 then 0 else count_list b q)" for q
    by (induction b) auto
  have "set (filter (\<lambda>x. x \<noteq> 0) b) \<subseteq> {j..g}" using rng by (auto simp: count_list_0_iff)
  then have "kraft_sum b = (\<Sum>q\<in>{j..g}. count_list (filter (\<lambda>x. x \<noteq> 0) b) q * 2 ^ (BMAX - q))"
    unfolding kraft_sum_def by (rule sum_list_map_eq_sum_count2) simp
  also have "\<dots> = (\<Sum>q\<in>{j..g}. count_list b q * 2 ^ (g - q)) * 2 ^ (BMAX - g)"
    unfolding sum_distrib_right
  proof (rule sum.cong)
    fix q assume "q \<in> {j..g}"
    then have "(2 :: nat) ^ (BMAX - q) = 2 ^ (g - q) * 2 ^ (BMAX - g)" using a by (simp flip: power_add)
    then show "count_list (filter (\<lambda>x. x \<noteq> 0) b) q * 2 ^ (BMAX - q) = count_list b q * 2 ^ (g - q) * 2 ^ (BMAX - g)"
      using c0 [of q] \<open>q \<in> {j..g}\<close> a by simp
  qed simp
  finally show "kraft_sum b = (\<Sum>q\<in>{j..g}. count_list b q * 2 ^ (g - q)) * 2 ^ (BMAX - g)" .
qed

lemma huft_build_zero:
  assumes "b \<noteq> []" "\<forall>k\<in>set b. k = 0"
  shows "huft_build b s d e t m = Some (0, None, 0)"
proof -
  have "b = replicate (length b) 0" using assms(2) by (simp add: list_eq_iff_nth_eq)
  then obtain n where b: "b = replicate n 0" by blast
  have "ofold (\<lambda>k c. if k < length c then Some (c[k := c ! k + 1]) else None) (replicate n 0) (z # c) = Some ((n + z) # c)" for z and c :: "nat list"
    by (induction n arbitrary: z) auto
  from this [of 0 "replicate BMAX 0"] show ?thesis using assms(1) by (simp add: huft_build_def count_lengths_def b)
qed

lemma huft_build_rejects:
  assumes "\<forall>k\<in>set b. k \<le> BMAX" "\<exists>k\<in>set b. k \<noteq> 0" "2 ^ BMAX < kraft_sum b"
  shows "\<exists>l. huft_build b s d e t m = Some (2, t, l)"
proof -
  define c where "c = map (count_list b) [0..<BMAX + 1]"
  note ct = counts [OF assms(1,2), folded c_def]
  let ?j = "min_length c" and ?g = "max_length c"
  have "c ! 0 \<noteq> length b"
  proof -
    obtain k where "k \<in> set b" "k \<noteq> 0" using assms(2) by blast
    then have "filter (\<lambda>x. x \<noteq> 0) b \<noteq> []" by (auto simp: filter_empty_conv)
    then have "count_list b 0 \<noteq> length b" using count_zero [of b] by auto
    then show ?thesis using ct(7) [of 0] by simp
  qed
  moreover have "dummy_codes c ?j ?g = None"
  proof -
    let ?S = "\<Sum>q\<in>{?j..?g}. count_list b q * 2 ^ (?g - q)"
    have "2 ^ ?g * 2 ^ (BMAX - ?g) < ?S * 2 ^ (BMAX - ?g)" using assms(3) ct(3,8) by (simp flip: power_add)
    then have "2 ^ ?g < ?S" by (simp only: mult_less_cancel2)
    then have "int (2 ^ ?g) < int ?S" by (simp only: of_nat_less_iff)
    moreover have "int ?S = (\<Sum>q\<in>{?j..?g}. int (c ! q) * 2 ^ (?g - q))" using ct(3,7) by simp
    ultimately show ?thesis using dummy_codes_eq [OF ct(2), of c] by simp
  qed
  moreover have "count_lengths b = Some c" using count_lengths_eq [OF assms(1,2)] by (simp only: c_def)
  ultimately show ?thesis by (simp add: huft_build_def Let_def)
qed

lemma dummy_codes_ready:
  fixes b :: "nat list"
  assumes "\<forall>k\<in>set b. k \<le> BMAX" "\<exists>k\<in>set b. k \<noteq> 0" "kraft_sum b \<le> 2 ^ BMAX"
  defines "c \<equiv> map (count_list b) [0..<BMAX + 1]"
  defines "j \<equiv> min_length c" and "g \<equiv> max_length c"
  obtains y where "dummy_codes c j g = Some y" "0 \<le> y" "y = 0 \<longleftrightarrow> kraft_sum b = 2 ^ BMAX"
    "(\<Sum>q\<in>{j..g}. count_list b q * 2 ^ (g - q)) \<le> 2 ^ g"
    "nat y = 2 ^ g - (\<Sum>q\<in>{j..g}. count_list b q * 2 ^ (g - q))"
proof -
  note ct = counts [OF assms(1,2), folded c_def, folded j_def g_def]
  let ?S = "\<Sum>q\<in>{j..g}. count_list b q * 2 ^ (g - q)"
  have pg: "(2 :: nat) ^ BMAX = 2 ^ g * 2 ^ (BMAX - g)" using ct(3) by (simp flip: power_add)
  have S: "?S \<le> 2 ^ g" "?S = 2 ^ g \<longleftrightarrow> kraft_sum b = 2 ^ BMAX" using assms(3) unfolding ct(8) pg by simp_all
  define y where "y = 2 ^ g - int ?S"
  have yi: "y = int (2 ^ g - ?S)" using S(1) by (simp only: y_def of_nat_diff of_nat_power of_nat_numeral)
  have y: "0 \<le> y" "nat y = 2 ^ g - ?S" "y = 0 \<longleftrightarrow> kraft_sum b = 2 ^ BMAX"
    unfolding S(2) [symmetric] yi using S(1) by (auto simp del: of_nat_sum of_nat_diff)
  have "int ?S = (\<Sum>q\<in>{j..g}. int (c ! q) * 2 ^ (g - q))" using ct(3,7) by simp
  then have "dummy_codes c j g = Some y" using dummy_codes_eq [OF ct(2), of c] y(1) by (simp add: y_def)
  then show ?thesis using that y S(1) by blast
qed

lemma lengths_ready:
  fixes b :: "nat list"
  assumes "\<forall>k\<in>set b. k \<le> BMAX" "\<exists>k\<in>set b. k \<noteq> 0" "kraft_sum b \<le> 2 ^ BMAX" "0 < m"
    and size: "(\<forall>k\<in>set b. k < 2 * m) \<or> kraft_sum b = 2 ^ BMAX \<and> length b \<le> 2 ^ m"
  defines "c \<equiv> map (count_list b) [0..<BMAX + 1]"
  defines "j \<equiv> min_length c" and "g \<equiv> max_length c"
  defines "l \<equiv> bits_clamp m j g"
  obtains y where "dummy_codes c j g = Some y" "0 \<le> y" "y = 0 \<longleftrightarrow> kraft_sum b = 2 ^ BMAX"
    "codes_ok g l (all_lengths (c[g := c ! g + nat y]) j g)" "fill_up b (c[g := c ! g + nat y]) g y"
proof -
  note ct = counts [OF assms(1,2), folded c_def, folded j_def g_def]
  let ?S = "\<Sum>q\<in>{j..g}. count_list b q * 2 ^ (g - q)"
  obtain y where dm: "dummy_codes c j g = Some y" and y: "0 \<le> y" "nat y = 2 ^ g - ?S" "y = 0 \<longleftrightarrow> kraft_sum b = 2 ^ BMAX"
    and S: "?S \<le> 2 ^ g"
    using dummy_codes_ready [OF assms(1-3), folded c_def, folded j_def g_def] by blast
  let ?c = "c[g := c ! g + nat y]" and ?Ks = "all_lengths (c[g := c ! g + nat y]) j g"
  have lc: "length c = BMAX + 1" by (simp add: c_def)
  have fu: "fill_up b ?c g y" using lc ct(3,7) by (auto simp: fill_up_def nth_list_update)
  then have cq: "\<And>q. q \<le> BMAX \<Longrightarrow> ?c ! q = count_list b q + (if q = g then nat y else 0)" by (simp add: fill_up_def)
  have l: "j \<le> l" "l \<le> g" using ct(1,2) by (auto simp: l_def bits_clamp_def Let_def)
  have set: "k \<in> set ?Ks \<Longrightarrow> j \<le> k \<and> k \<le> g" for k by (simp add: all_lengths_set)
  have gin: "g \<in> set ?Ks" "j \<in> set ?Ks" 
    using ct(2-5) cq [of g] cq [of j] le_trans [OF ct(2,3)] by (auto simp: all_lengths_set)
  have first: "?Ks ! 0 \<le> j"
  proof -
    obtain i where i: "i < length ?Ks" "?Ks ! i = j" using gin(2) by (auto simp: in_set_conv_nth)
    have "?Ks ! 0 \<le> ?Ks ! i" by (rule sorted_nth_mono [OF all_lengths_sorted]) (use i in auto)
    then show ?thesis using i(2) by simp
  qed
  have tot: "(\<Sum>q\<in>{j..<g + 1}. ?c ! q * 2 ^ (g - q)) = 2 ^ g"
  proof -
    have "(\<Sum>q\<in>{j..<g + 1}. ?c ! q * 2 ^ (g - q)) = (\<Sum>q\<in>{j..g}. count_list b q * 2 ^ (g - q) + (if q = g then nat y else 0))"
      using ct(3) by (intro sum.cong) (auto simp: cq)
    also have "\<dots> = ?S + nat y" using ct(2) by (simp add: sum.distrib)
    finally show ?thesis using y(2) S by simp
  qed
  then have ap: "apos g ?Ks (length ?Ks) = 2 ^ g"
    unfolding apos_def take_all [OF order_refl] all_lengths_def sum_blocks .
  have sz: "g < 2 * l \<or> length ?Ks \<le> 2 ^ l"
  proof (cases "m \<le> g")
    case False
    then have "l = g" using ct(2) by (simp add: l_def bits_clamp_def Let_def)
    then show ?thesis using ct(1,2) by simp
  next
    case True
    then have ml: "m \<le> l" using ct(2) by (auto simp: l_def bits_clamp_def Let_def)
    have "g \<in> set b" using ct(5) by (simp add: count_list_0_iff)
    show ?thesis
    proof (cases "g < 2 * m")
      case False
      then have full: "kraft_sum b = 2 ^ BMAX" "length b \<le> 2 ^ m" using size \<open>g \<in> set b\<close> by auto
      then have y0: "nat y = 0" using y by simp
      have "length ?Ks = (\<Sum>q\<in>{j..<g + 1}. count_list b q)"
        unfolding all_lengths_def length_blocks
      proof (rule sum.cong)
        fix q assume "q \<in> {j..<g + 1}"
        then have q: "q \<le> BMAX" using ct(3) by simp
        show "?c ! q = count_list b q" using cq [OF q] y0 by simp
      qed simp
      also have "\<dots> \<le> first_index b (g + 1)" unfolding first_index_def by (rule sum_mono2) (use ct(1) in auto)
      also have "\<dots> \<le> length b" using first_index_le [of b "g + 1"] by simp
      also have "\<dots> \<le> 2 ^ l" using full(2) power_increasing [OF ml, of "2 :: nat"] by (rule le_trans) simp
      finally show ?thesis by simp
    qed (use ml in auto)
  qed
  have "codes_ok g l ?Ks"
    unfolding codes_ok_def using set gin ap l first sz ct(1,3) all_lengths_sorted by (auto dest: set)
  then show ?thesis using that dm y(1,3) fu by blast
qed

lemma huft_build_tables:
  assumes len: "length b \<le> N_MAX" "\<forall>k\<in>set b. k \<le> BMAX" and nz: "\<exists>k\<in>set b. k \<noteq> 0" and "0 < m"
    and kraft: "kraft_sum b \<le> 2 ^ BMAX" "kraft_sum b = 2 ^ BMAX \<or> 0 \<notin> set b"
    and size: "(\<forall>k\<in>set b. k < 2 * m) \<or> kraft_sum b = 2 ^ BMAX \<and> length b \<le> 2 ^ m"
    and vals: "\<forall>i<length b. s \<le> i \<longrightarrow> e = Some es \<and> i - s \<le> 30 \<and> i - s < length es \<and> i - s < length d"
    and extra: "\<forall>x\<in>set es. x \<le> 16 \<or> x = 99"
  shows "\<exists>ret ts l. huft_build b s d e t m = Some (ret, Some ts, l) \<and> ret \<le> 1 \<and> (kraft_sum b = 2 ^ BMAX \<longrightarrow> ret = 0) \<and> ts \<noteq> [] \<and>
    l \<le> BMAX \<and>
    (\<forall>bits. \<exists>x used. huft_path ts 0 l bits x used BMAX \<and> 0 < used \<and> used \<le> BMAX) \<and>
    (\<forall>sy<length b. b ! sy \<noteq> 0 \<longrightarrow> (\<forall>bits. rev_bits (b ! sy) bits = canonical_code b sy \<longrightarrow>
       (\<exists>x. huft_path ts 0 l bits x (b ! sy) (if \<forall>k\<in>set b. k \<le> m then l else BMAX) \<and> (h_e x, h_v x) = symbol_entry s d es sy)))"
proof -
  define c where "c = map (count_list b) [0..<BMAX + 1]"
  define j where "j = min_length c"
  define g where "g = max_length c"
  define l where "l = bits_clamp m j g"
  note ct = counts [OF len(2) nz, folded c_def, folded j_def g_def]
  obtain y where y: "dummy_codes c j g = Some y" "0 \<le> y" "y = 0 \<longleftrightarrow> kraft_sum b = 2 ^ BMAX"
    and ok: "codes_ok g l (all_lengths (c[g := c ! g + nat y]) j g)" and fu: "fill_up b (c[g := c ! g + nat y]) g y"
    using lengths_ready [OF len(2) nz kraft(1) \<open>0 < m\<close> size, folded c_def, folded j_def g_def, folded l_def] by blast
  define c1 where "c1 = c[g := c ! g + nat y]"
  define Ks where "Ks = all_lengths c1 j g"
  define nv where "nv = length b - count_list b 0"
  have ok: "codes_ok g l Ks" using ok by (simp add: Ks_def c1_def)
  have cq: "c1 ! q = count_list b q + (if q = g then nat y else 0)" if "q \<le> BMAX" for q using fu that by (simp add: fill_up_def c1_def)
  have cnt: "\<forall>q\<le>g. 0 < q \<longrightarrow> c1 ! q = count_list Ks q"
    using ct(2,3,6) by (auto simp: Ks_def all_lengths_count cq)
  have off: "(\<Sum>q\<in>{j..<k}. c1 ! q * f q) = (\<Sum>q\<in>{1..<k}. count_list b q * f q)" if "k \<le> g" for k and f :: "nat \<Rightarrow> nat"
  proof -
    have "(\<Sum>q\<in>{j..<k}. c1 ! q * f q) = (\<Sum>q\<in>{j..<k}. count_list b q * f q)" using that ct(3) by (intro sum.cong) (auto simp: cq)
    also have "\<dots> = (\<Sum>q\<in>{1..<k}. count_list b q * f q)" 
    proof (rule sum.mono_neutral_left)
      show "\<forall>q\<in>{1..<k} - {j..<k}. count_list b q * f q = 0"
      proof
        fix q assume "q \<in> {1..<k} - {j..<k}"
        then have "q \<noteq> 0" "\<not> j \<le> q" by auto
        then show "count_list b q * f q = 0" using ct(6) [of q] by auto
      qed
    qed (use ct(1) in auto)
    finally show ?thesis .
  qed
  have fi: "(\<Sum>q\<in>{j..<k}. c1 ! q) = first_index b k" if "k \<le> g" for k using off [OF that, of "\<lambda>_. 1"] by (simp add: first_index_def)
  have idx: "first_index b k + z < length Ks" "Ks ! (first_index b k + z) = k"
    "apos g Ks (first_index b k + z) = first_code b k * 2 ^ (g - k) + z * 2 ^ (g - k)"
    if "j \<le> k" "k \<le> g" "z < c1 ! k" for k z
  proof -
    note n = all_lengths_nth [where c = c1, OF that, folded Ks_def, unfolded fi [OF that(2)]]
    show "first_index b k + z < length Ks" "Ks ! (first_index b k + z) = k" using n(1,2) by simp_all
    have "(\<Sum>q\<in>{1..<k}. count_list b q * 2 ^ (g - q)) = (\<Sum>q\<in>{1..<k}. count_list b q * 2 ^ (k - q)) * 2 ^ (g - k)"
      unfolding sum_distrib_right using that(2) by (intro sum.cong) (auto simp: mult.assoc simp flip: power_add)
    then show "apos g Ks (first_index b k + z) = first_code b k * 2 ^ (g - k) + z * 2 ^ (g - k)"
      using n(3) [of g] off [OF that(2), of "\<lambda>q. 2 ^ (g - q)"] by (simp add: first_code_sum)
  qed
  have dec: "\<exists>k z. j \<le> k \<and> k \<le> g \<and> z < c1 ! k \<and> u = first_index b k + z" if "u < length Ks" for u
    using all_lengths_index [of u c1 j g] that ct(2) fi by (fastforce simp: Ks_def)
  have xlen: "length (offsets c1 g) = BMAX + 1"
  proof -
    have "length (foldl (\<lambda>x k. x[k := x ! (k - 1) + c1 ! (k - 1)]) x ks) = length x" for x ks by (induction ks arbitrary: x) auto
    then show ?thesis by (simp add: offsets_def)
  qed
  have xoff: "offsets c1 g ! k = first_index b k" if "1 \<le> k" "k \<le> g" for k
  proof -
    have "(\<Sum>q\<in>{1..<k}. c1 ! q) = first_index b k" unfolding first_index_def using that ct(3) by (intro sum.cong) (auto simp: cq)
    then show ?thesis using offsets_nth [OF ct(3) that] by simp
  qed
  have leg: "\<forall>k\<in>set b. k \<le> g" using ct(6) by (metis count_list_0_iff le0 le_zero_eq nle_le)
  obtain v where v: "sort_values b (offsets c1 g) = Some v" "length v = N_MAX"
    "\<And>k z. 1 \<le> k \<Longrightarrow> k \<le> g \<Longrightarrow> z < count_list b k \<Longrightarrow> v ! (first_index b k + z) = Some (of_length b (length b) k ! z)"
    using sort_values_sorted [OF len(1) leg ct(3) xlen] xoff by blast
  have nvg: "nv = first_index b g + count_list b g"
    using first_index_all [OF leg] first_index_Suc [of g b] ct(1,2) by (simp add: nv_def)
  define info where "info = (\<lambda>u r. \<exists>k z. j \<le> k \<and> k \<le> g \<and> z < c1 ! k \<and> u = first_index b k + z \<and>
    (if z < count_list b k then (h_e r, h_v r) = symbol_entry s d es (of_length b (length b) k ! z) else h_e r = 99))"
  have ent: "entries_ok v (length b) s d e nv Ks info"
    unfolding entries_ok_def
  proof (intro allI impI)
    fix u bits and st :: build assume u: "u < length Ks" and p: "b_p st = min u nv"
    obtain k z where kz: "j \<le> k" "k \<le> g" "z < c1 ! k" "u = first_index b k + z" using dec [OF u] by blast
    show "\<exists>r. make_entry v (length b) s d e bits st = Some (Some (r, min (Suc u) nv)) \<and> h_b r = bits \<and> info u r"
    proof (cases "z < count_list b k")
      case True
      let ?z = "of_length b (length b) k ! z"
      have "u < first_index b (Suc k)" using kz True first_index_Suc [of k b] ct(1) by simp
      also have "\<dots> \<le> nv" using first_index_le [of b "Suc k"] by (simp add: nv_def)
      finally have un: "u < nv" .
      have vz: "v ! u = Some ?z" using v(3) [of k z] kz True ct(1) by simp
      have "?z \<in> set (of_length b (length b) k)" using True of_length_all [of b k] by (metis nth_mem)
      then have zl: "?z < length b" by (simp add: of_length_def)
      have nl: "u < length b" "u < length v" using un len(1) v(2) by (auto simp: nv_def)
      have "\<exists>r. make_entry v (length b) s d e bits st = Some (Some (r, Suc u)) \<and> h_b r = bits \<and> (h_e r, h_v r) = symbol_entry s d es ?z"
        using p un nl vz vals zl by (auto simp: make_entry_def symbol_entry_def)
      then show ?thesis using un kz True unfolding info_def by (metis Suc_leI min_absorb1)
    next
      case False
      then have "k = g" "nat y \<noteq> 0" using kz(3) cq [of k] kz(2) ct(3) by (auto split: if_splits)
      then have "0 \<notin> set b" using kraft(2) y(3) by auto
      then have nvb: "nv = length b" by (simp add: nv_def count_list_0_iff)
      have un: "nv \<le> u" using kz(4) False \<open>k = g\<close> nvg by simp
      have "make_entry v (length b) s d e bits st = Some (Some (Huft 99 bits (b_v st), nv))"
        using p un nvb by (simp add: make_entry_def)
      moreover have "info u (Huft 99 bits (b_v st))" using kz False unfolding info_def by auto
      ultimately show ?thesis using un by auto
    qed
  qed
  define s0 where "s0 = \<lparr>b_i = 0, b_p = 0, b_levels = 0, b_reach = 0, b_x = (offsets c1 g)[0 := 0],
      b_u = replicate BMAX 0, b_q = 0, b_v = Vn 0, b_tables = []\<rparr>"
  have st0: "stack_ok g l Ks 0 [] s0" using xlen by (simp add: stack_ok_def stack_core_def s0_def)
  have "\<exists>st1 ms1. build_codes c1 g l v (length b) s d e (code_list c1 j g) s0 = Some (True, st1) \<and>
      tables_sound g l Ks info ms1 (b_tables st1) \<and> tables_complete g (2 ^ g) ms1 (b_tables st1) \<and> ms1 ! 0 = (0, 0, l) \<and> ms1 \<noteq> []"
    by (rule build_codes_sound [OF ok cnt ent, where t = 0 and ms = "[]"])
      (use code_list_lengths [of c1 j g] counted_codes [of c1 j g] st0 in
        \<open>simp_all add: Ks_def s0_def tables_sound_def tables_complete_def root_ok_def\<close>)
  then obtain st1 ms1 where st1: "build_codes c1 g l v (length b) s d e (code_list c1 j g) s0 = Some (True, st1)"
    and fin: "tables_sound g l Ks info ms1 (b_tables st1)" "tables_complete g (2 ^ g) ms1 (b_tables st1)" "ms1 ! 0 = (0, 0, l)" "ms1 \<noteq> []"
    by blast
  let ?ts = "b_tables st1"
  have ne: "?ts \<noteq> []" using fin(1,4) by (auto simp: tables_sound_def)
  have "c ! 0 \<noteq> length b"
  proof -
    have "filter (\<lambda>x. x \<noteq> 0) b \<noteq> []" using nz by (auto simp: filter_empty_conv)
    then show ?thesis using count_zero [of b] ct(7) [of 0] by auto
  qed
  moreover have "count_lengths b = Some c" using count_lengths_eq [OF len(2) nz] by (simp only: c_def)
  ultimately have run: "huft_build b s d e t m = Some (if y \<noteq> 0 \<and> g \<noteq> 1 then 1 else 0, Some ?ts, l)"
    using y(1) v(1) st1 by (simp add: huft_build_def Let_def s0_def bits_clamp_def l_def flip: j_def g_def c1_def)
  have member: "of_length b (length b) k ! z < length b \<and> b ! (of_length b (length b) k ! z) = k" if "z < count_list b k" for k z
  proof -
    have "of_length b (length b) k ! z \<in> set (of_length b (length b) k)" using that of_length_all [of b k] by (metis nth_mem)
    then show ?thesis by (simp add: of_length_def)
  qed
  have inf: "h_e r \<le> 16 \<or> h_e r = 99" if ir: "info u r" for u r
  proof -
    obtain k z where kz: "if z < count_list b k then (h_e r, h_v r) = symbol_entry s d es (of_length b (length b) k ! z) else h_e r = 99"
      using ir unfolding info_def by blast
    show ?thesis
    proof (cases "z < count_list b k \<and> \<not> of_length b (length b) k ! z < s")
      case True
      then have "h_e r \<in> set es" using kz member [of z k] vals by (auto simp: symbol_entry_def not_less)
      then show ?thesis using extra by blast
    qed (use kz in \<open>auto simp: symbol_entry_def split: if_splits\<close>)
  qed
  have lg: "l \<le> g" "\<forall>k\<in>set b. k \<le> m \<Longrightarrow> l = g"
    using ct(1,2,5) by (auto simp: l_def bits_clamp_def Let_def count_list_0_iff)
  let ?room = "if \<forall>k\<in>set b. k \<le> m then l else BMAX"
  have room: "g \<le> ?room" "?room \<le> BMAX" using lg ct(3) by auto
  have walk: "\<exists>u<length Ks. \<exists>r. huft_path ?ts 0 l bits r (Ks ! u) ?room \<and> info u r \<and>
      rev_bits (Ks ! u) bits * 2 ^ (g - Ks ! u) = apos g Ks u" for bits
  proof -
    have "\<exists>u<length Ks. \<exists>r. 0 < Ks ! u \<and> huft_path ?ts 0 l (bits div 2 ^ 0) r (Ks ! u - 0) (g - 0) \<and> info u r \<and>
        rev_bits (Ks ! u) bits * 2 ^ (g - Ks ! u) = apos g Ks u"
      by (rule path_finished [OF ok fin(1,2)]) (use inf fin(3) ne in auto)
    then obtain u r where u: "u < length Ks" "huft_path ?ts 0 l bits r (Ks ! u) g" "info u r"
      "rev_bits (Ks ! u) bits * 2 ^ (g - Ks ! u) = apos g Ks u" by auto
    from path_room [OF u(2) room(1)] u show ?thesis by blast
  qed
  have total: "\<exists>x used. huft_path ?ts 0 l bits x used BMAX \<and> 0 < used \<and> used \<le> BMAX" for bits
    using walk [of bits] codes_ok_nth [OF ok] ct(3) path_room [OF _ room(2)] by (meson le_trans)
  have symbols: "\<exists>x. huft_path ?ts 0 l bits x (b ! sy) ?room \<and> (h_e x, h_v x) = symbol_entry s d es sy"
    if sy: "sy < length b" "b ! sy \<noteq> 0" and code: "rev_bits (b ! sy) bits = canonical_code b sy" for sy bits
  proof -
    let ?k = "b ! sy" and ?z = "length (filter (\<lambda>s. b ! s = b ! sy) [0..<sy])"
    have k: "j \<le> ?k" "?k \<le> g" using ct(6) [of ?k] sy by (auto simp: count_list_0_iff)
    have pos: "of_length b (length b) ?k = filter (\<lambda>s. b ! s = ?k) [0..<sy] @ sy # filter (\<lambda>s. b ! s = ?k) [Suc sy..<length b]"
    proof -
      have "[0..<length b] = [0..<sy] @ sy # [Suc sy..<length b]"
        using sy(1) upt_add_eq_append [of 0 sy "length b - sy"] by (simp add: upt_conv_Cons)
      then show ?thesis by (simp add: of_length_def)
    qed
    have z: "?z < count_list b ?k" "of_length b (length b) ?k ! ?z = sy"
      using of_length_all [of b ?k] pos by (simp_all add: nth_append)
    then have z1: "?z < c1 ! ?k" using cq [of ?k] k ct(3) by simp
    note ix = idx [OF k z1]
    have a0: "rev_bits (Ks ! (first_index b ?k + ?z)) bits * 2 ^ (g - Ks ! (first_index b ?k + ?z)) = apos g Ks (first_index b ?k + ?z)"
      unfolding ix(2,3) code canonical_code_def by (simp add: add_mult_distrib)
    obtain u x where u: "u < length Ks" "huft_path ?ts 0 l bits x (Ks ! u) ?room" "info u x"
      "rev_bits (Ks ! u) bits * 2 ^ (g - Ks ! u) = apos g Ks u" using walk by blast
    have "\<forall>k\<in>set Ks. k \<le> g" using ok by (simp add: codes_ok_def)
    from code_unique [OF u(1) ix(1) this u(4) a0] have ueq: "u = first_index b ?k + ?z" .
    obtain k' z' where kz: "j \<le> k'" "k' \<le> g" "z' < c1 ! k'" "u = first_index b k' + z'"
      "if z' < count_list b k' then (h_e x, h_v x) = symbol_entry s d es (of_length b (length b) k' ! z') else h_e x = 99"
      using u(3) unfolding info_def by blast
    have "k' = ?k" using idx(2) [OF kz(1-3)] ix(2) ueq kz(4) by simp
    then have "z' = ?z" using ueq kz(4) by simp
    then show ?thesis using kz(5) z u(2) ueq ix(2) \<open>k' = ?k\<close> by (intro exI [of _ x]) simp
  qed
  have "l \<le> BMAX" using ok ct(3) by (auto simp: codes_ok_def)
  moreover have "kraft_sum b = 2 ^ BMAX \<Longrightarrow> y = 0" using y(3) by simp
  ultimately show ?thesis using run ne total symbols by (intro exI [of _ ?ts] exI [of _ l] exI [of _ "if y \<noteq> 0 \<and> g \<noteq> 1 then 1 else 0"]) auto
qed

lemma reads_unset_value:
  fixes st :: build
  assumes "v ! nv = None" "nv < n" "nv < length v" "\<forall>u<nv. \<forall>x. v ! u = Some x \<longrightarrow> x < s \<or> e \<noteq> None \<and> x - s \<le> 30"
  shows "b_p st \<le> nv \<Longrightarrow> nv - b_p st < length ks \<Longrightarrow> build_codes c g l v n s d e ks st = None"
proof (induction ks arbitrary: st)
  case (Cons ka ks)
  obtain k a where ka: "ka = (k, a)" by (cases ka)
  show ?case
  proof (cases "open_tables c g l k a st")
    case (Some st1)
    then have p1: "b_p st1 = b_p st"
    proof (induction c g l k a st rule: open_tables.induct)
      case (1 c g l k a st)
      show ?case
      proof (cases "b_reach st < k \<and> l \<noteq> 0")
        case True
        then obtain st2 where st2: "open_table c g l k a st = Some st2" and more: "open_tables c g l k a st2 = Some st1"
          using 1(2) by (subst (asm) open_tables.simps) (auto split: option.splits)
        have "b_p st2 = b_p st"
          using st2 by (auto simp: open_table_def Let_def bind_Some_iff split: if_splits)
        then show ?thesis using 1(1) True st2 more by simp
      next
        case False
        then show ?thesis using 1(2) by (subst (asm) open_tables.simps) (auto split: if_splits)
      qed
    qed
    show ?thesis
    proof (cases "make_entry v n s d e (k - (b_reach st1 - l)) st1")
      case (Some r)
      have "b_p st \<noteq> nv" using Some assms(1-3) p1 by (auto simp: make_entry_def)
      then have lt: "b_p st < nv" using Cons.prems(1) by simp
      obtain x where x: "v ! b_p st = Some x" using Some lt assms(2,3) p1 by (cases "v ! b_p st") (auto simp: make_entry_def)
      then have "x < s \<or> e \<noteq> None \<and> x - s \<le> 30" using assms(4) lt by blast
      then obtain r' where r: "r = Some (r', b_p st + 1)"
        using Some lt assms(2,3) p1 x by (auto simp: make_entry_def split: if_splits)
      show ?thesis using Cons.prems lt \<open>open_tables c g l k a st = Some st1\<close> Some
        by (auto simp: ka r Let_def bind_None_iff Cons.IH)
    qed (use Some in \<open>simp add: ka\<close>)
  qed (simp add: ka)
qed simp

lemma huft_build_unset:
  assumes len: "length b \<le> N_MAX" "\<forall>k\<in>set b. k \<le> BMAX" and nz: "\<exists>k\<in>set b. k \<noteq> 0" "0 \<in> set b"
    and kraft: "kraft_sum b < 2 ^ BMAX"
    and vals: "\<forall>i<length b. s \<le> i \<longrightarrow> e \<noteq> None \<and> i - s \<le> 30"
  shows "huft_build b s d e t m = None"
proof -
  define c where "c = map (count_list b) [0..<BMAX + 1]"
  define j where "j = min_length c"
  define g where "g = max_length c"
  let ?nv = "length b - count_list b 0"
  note ct = counts [OF len(2) nz(1), folded c_def, folded j_def g_def]
  obtain y where y: "dummy_codes c j g = Some y" "y \<noteq> 0" "0 \<le> y"
    using dummy_codes_ready [OF len(2) nz(1) less_imp_le [OF kraft], folded c_def, folded j_def g_def] kraft
    by (metis less_irrefl)
  define c1 where "c1 = c[g := c ! g + nat y]"
  have cq: "c1 ! q = count_list b q + (if q = g then nat y else 0)" if "q \<le> BMAX" for q
    using that ct(3,7) by (auto simp: c1_def c_def nth_list_update simp del: upt_Suc)
  have leg: "\<forall>k\<in>set b. k \<le> g" using ct(6) by (metis count_list_0_iff le0 le_zero_eq nle_le)
  have fi: "(\<Sum>q\<in>{1..<k}. c1 ! q) = first_index b k" if "k \<le> g" for k
    unfolding first_index_def using that ct(3) by (intro sum.cong) (auto simp: cq)
  have xlen: "length (offsets c1 g) = BMAX + 1"
  proof -
    have "length (foldl (\<lambda>x k. x[k := x ! (k - 1) + c1 ! (k - 1)]) x ks) = length x" for x ks by (induction ks arbitrary: x) auto
    then show ?thesis by (simp add: offsets_def)
  qed
  have xoff: "offsets c1 g ! k = first_index b k" if "1 \<le> k" "k \<le> g" for k
    using offsets_nth [OF ct(3) that] fi [OF that(2)] by simp
  obtain v where v: "sort_values b (offsets c1 g) = Some v" "length v = N_MAX"
    "\<And>k z. 1 \<le> k \<Longrightarrow> k \<le> g \<Longrightarrow> z < count_list b k \<Longrightarrow> v ! (first_index b k + z) = Some (of_length b (length b) k ! z)"
    and unset: "\<And>u. u < N_MAX \<Longrightarrow> ?nv \<le> u \<Longrightarrow> v ! u = None"
    using sort_values_sorted [OF len(1) leg ct(3) xlen] xoff by blast
  have nvl: "?nv < length b" 
  proof -
    have "count_list b 0 \<noteq> 0" using nz(2) by (simp add: count_list_0_iff)
    then show ?thesis using nz(2) count_le_length [of b 0] by (cases b) auto
  qed
  have nvv: "v ! ?nv = None" "?nv < length v" using unset nvl len(1) v(2) by auto
  have "x < s \<or> e \<noteq> None \<and> x - s \<le> 30" if u: "u < ?nv" "v ! u = Some x" for u x
  proof -
    have "u < first_index b (Suc g)" using u(1) first_index_all [OF leg] by simp
    then obtain k z where kz: "1 \<le> k" "k \<le> g" "z < count_list b k" "u = first_index b k + z" using first_index_decompose by blast
    have "x \<in> set (of_length b (length b) k)" using v(3) [OF kz(1-3)] u(2) kz(4) of_length_all [of b k] kz(3) by (metis nth_mem option.inject)
    then have "x < length b" by (simp add: of_length_def)
    then show ?thesis using vals by (metis not_less)
  qed
  moreover have "?nv < length (code_list c1 j g)"
  proof -
    have "length (code_list c1 j g) = (\<Sum>q\<in>{j..<g + 1}. c1 ! q)"
      using arg_cong [OF code_list_lengths [of c1 j g], of length] length_blocks [of c1 j "g + 1"] by (simp add: all_lengths_def)
    also have "\<dots> = (\<Sum>q\<in>{j..<g + 1}. count_list b q + (if q = g then nat y else 0))"
      using ct(3) by (intro sum.cong) (auto simp: cq)
    also have "\<dots> = (\<Sum>q\<in>{j..<g + 1}. count_list b q) + nat y" using ct(2) by (simp add: sum.distrib)
    also have "(\<Sum>q\<in>{j..<g + 1}. count_list b q) = first_index b (Suc g)" unfolding first_index_def
    proof (rule sum.mono_neutral_left)
      show "\<forall>q\<in>{1..<Suc g} - {j..<g + 1}. count_list b q = 0"
      proof
        fix q assume "q \<in> {1..<Suc g} - {j..<g + 1}"
        then have "q \<noteq> 0" "\<not> j \<le> q" by auto
        then show "count_list b q = 0" using ct(6) [of q] by auto
      qed
    qed (use ct(1) in auto)
    finally show ?thesis using first_index_all [OF leg] y(2,3) by simp
  qed
  ultimately have none: "build_codes c1 g l v (length b) s d e (code_list c1 j g) st = None" if "b_p st = 0" for l and st :: build
    using that nvv nvl by (intro reads_unset_value [where nv = ?nv]) auto
  have "c ! 0 \<noteq> length b"
  proof -
    have "filter (\<lambda>x. x \<noteq> 0) b \<noteq> []" using nz(1) by (auto simp: filter_empty_conv)
    then show ?thesis using count_zero [of b] ct(7) [of 0] by auto
  qed
  moreover have "count_lengths b = Some c" using count_lengths_eq [OF len(2) nz(1)] by (simp only: c_def)
  ultimately show ?thesis using y(1) v(1) none by (simp add: huft_build_def Let_def flip: j_def g_def c1_def)
qed

section \<open>Results\<close>

text \<open>C23: For code lengths that do not describe more codes than there are bit strings, with every length used when
  there are fewer, and that fit the bits \<open>m\<close> asked for the first table (all lengths are below \<open>2 * m\<close>, or the
  code is complete and has at most \<open>2 ^ m\<close> symbols), \<open>huft_build\<close> succeeds, and its tables are a decoder of
  the canonical prefix code: reading any stream ends within the longest length, and whenever the stream starts with the
  code of a symbol the entry of that symbol is returned after exactly as many bits as its code has. Every call for a
  complete code in \<^verbatim>\<open>copeungz.c\<close> fits; \<open>huft_build_gap\<close> below shows what happens when \<open>m\<close> is
  too small.\<close>

theorem huft_build_decodes:
  assumes "length b \<le> N_MAX" "\<forall>k\<in>set b. k \<le> BMAX" "\<exists>k\<in>set b. k \<noteq> 0" "0 < m"
    "kraft_sum b \<le> 2 ^ BMAX" "kraft_sum b = 2 ^ BMAX \<or> 0 \<notin> set b"
    "(\<forall>k\<in>set b. k < 2 * m) \<or> kraft_sum b = 2 ^ BMAX \<and> length b \<le> 2 ^ m"
    "\<forall>i<length b. s \<le> i \<longrightarrow> e = Some es \<and> i - s \<le> 30 \<and> i - s < length es \<and> i - s < length d"
    "\<forall>x\<in>set es. x \<le> 16 \<or> x = 99"
  shows "\<exists>ret ts l. huft_build b s d e t m = Some (ret, Some ts, l) \<and> ret \<le> 1 \<and> (kraft_sum b = 2 ^ BMAX \<longrightarrow> ret = 0) \<and>
    (\<forall>bits. \<exists>x used. huft_walk ts 0 l bits 0 = Some (x, used) \<and> 0 < used \<and> used \<le> BMAX) \<and>
    (\<forall>sy<length b. b ! sy \<noteq> 0 \<longrightarrow> (\<forall>bits. rev_bits (b ! sy) bits = canonical_code b sy \<longrightarrow>
       (\<exists>x. huft_walk ts 0 l bits 0 = Some (x, b ! sy) \<and> (h_e x, h_v x) = symbol_entry s d es sy)))"
proof -
  note tables = huft_build_tables [OF assms, of t]
  from tables obtain ret ts l where t: "huft_build b s d e t m = Some (ret, Some ts, l)" "ret \<le> 1" "kraft_sum b = 2 ^ BMAX \<longrightarrow> ret = 0"
    and total: "\<And>bits. \<exists>x used. huft_path ts 0 l bits x used BMAX \<and> 0 < used \<and> used \<le> BMAX"
    and symbols: "\<And>sy bits. sy < length b \<Longrightarrow> b ! sy \<noteq> 0 \<Longrightarrow> rev_bits (b ! sy) bits = canonical_code b sy \<Longrightarrow>
      \<exists>x. huft_path ts 0 l bits x (b ! sy) (if \<forall>k\<in>set b. k \<le> m then l else BMAX) \<and> (h_e x, h_v x) = symbol_entry s d es sy"
    by (elim exE conjE) (rule that, assumption, assumption, assumption, blast+)
  have "\<exists>x used. huft_walk ts 0 l bits 0 = Some (x, used) \<and> 0 < used \<and> used \<le> BMAX" for bits
    using total [of bits] path_walk [where u = 0] by fastforce
  moreover have "\<exists>x. huft_walk ts 0 l bits 0 = Some (x, b ! sy) \<and> (h_e x, h_v x) = symbol_entry s d es sy"
    if "sy < length b" "b ! sy \<noteq> 0" "rev_bits (b ! sy) bits = canonical_code b sy" for sy bits
    using symbols [OF that] path_walk [where u = 0] by fastforce
  ultimately show ?thesis using t by (intro exI conjI) (assumption | blast)+
qed

theorem huft_build_decodes_witness:
  "\<exists>ret ts l. huft_build [2, 1, 3, 3] 3 [7] (Some [0]) None 2 = Some (ret, Some ts, l) \<and> ret = 0 \<and>
    (\<exists>x. huft_walk ts 0 l 3 0 = Some (x, 3) \<and> (h_e x, h_v x) = (16, Vn 2))"
proof -
  have k: "kraft_sum [2, 1, 3, 3] = 2 ^ BMAX" by (simp add: kraft_sum_def BMAX_def)
  have len: "\<forall>k\<in>set [2, 1, 3, 3]. k < 2 * (2 :: nat)" "length [2, 1, 3, 3 :: nat] \<le> N_MAX"
    "\<forall>k\<in>set [2, 1, 3, 3 :: nat]. k \<le> BMAX" "\<exists>k\<in>set [2, 1, 3, 3 :: nat]. k \<noteq> 0"
    by (simp_all add: N_MAX_def BMAX_def)
  have es: "\<forall>i<length [2, 1, 3, 3 :: nat]. 3 \<le> i \<longrightarrow> Some [0 :: nat] = Some [0] \<and> i - 3 \<le> 30 \<and> i - 3 < length [0 :: nat] \<and> i - 3 < length [7 :: nat]"
    by simp
  have "rev_bits ([2, 1, 3, 3] ! 2) 3 = canonical_code [2, 1, 3, 3] 2"
  proof -
    have "rev_bits (Suc (Suc (Suc 0))) 3 = 6" by simp
    moreover have "first_code [2, 1, 3, 3] (Suc (Suc (Suc 0))) = 6" by simp
    ultimately show ?thesis by (simp add: canonical_code_def numeral_3_eq_3 upt_rec)
  qed
  moreover obtain ret ts l where "huft_build [2, 1, 3, 3] 3 [7] (Some [0]) None 2 = Some (ret, Some ts, l)" "ret = 0"
    and sy: "\<And>sy bits. sy < 4 \<Longrightarrow> [2, 1, 3, 3] ! sy \<noteq> (0 :: nat) \<Longrightarrow> rev_bits ([2, 1, 3, 3] ! sy) bits = canonical_code [2, 1, 3, 3] sy \<Longrightarrow>
      \<exists>x. huft_walk ts 0 l bits 0 = Some (x, [2, 1, 3, 3] ! sy) \<and> (h_e x, h_v x) = symbol_entry 3 [7] [0] sy"
    using huft_build_decodes [OF len(2-4) _ eq_imp_le [OF k] disjI1 [OF k] disjI1 [OF len(1)] es, of None] k by auto
  ultimately show ?thesis using sy [of 2 3] by (simp add: symbol_entry_def)
qed

text \<open>The condition on \<open>m\<close> is needed: a table that has its full width \<open>z\<close> is made one bit wider by
  \<open>while (++j < z)\<close> when few codes are left (\<open>gzip\<close> guards the loop with \<open>j < z\<close>), while the next
  table is placed as if it were not. For this complete code the entry of the third symbol, whose code is 111, is never
  set.\<close>

lemma huft_build_gap:
  "\<exists>ts. huft_build [1, 3, 3, 2] 4 [] None None 1 = Some (0, Some ts, 1) \<and> kraft_sum [1, 3, 3, 2] = 2 ^ BMAX \<and>
     rev_bits 3 7 = canonical_code [1, 3, 3, 2] 2 \<and> huft_walk ts 0 1 7 0 = None"
proof -
  let ?ts = "[[Some (Huft 16 1 (Vn 0)), Some (Huft 18 1 (Vt 1)), Some (Huft 16 1 (Vn 0)), None],
    [Some (Huft 16 1 (Vn 3)), Some (Huft 17 1 (Vt 2)), Some (Huft 16 1 (Vn 3)), None],
    [Some (Huft 16 1 (Vn 1)), Some (Huft 16 1 (Vn 2))]]"
  have "huft_build [1, 3, 3, 2] 4 [] None None 1 = Some (0, Some ?ts, 1)" by code_simp
  moreover have "kraft_sum [1, 3, 3, 2] = 2 ^ BMAX" by (simp add: kraft_sum_def BMAX_def)
  moreover have "rev_bits 3 7 = canonical_code [1, 3, 3, 2] 2"
  proof -
    have "rev_bits (Suc (Suc (Suc 0))) 7 = 7" "first_code [1, 3, 3, 2] (Suc (Suc (Suc 0))) = 6" by simp_all
    then show ?thesis by (simp add: canonical_code_def numeral_3_eq_3 upt_rec)
  qed
  moreover have "huft_walk ?ts 0 1 7 0 = None" by (simp add: huft_walk.simps huft_entry_def)
  ultimately show ?thesis by blast
qed

text \<open>C24: Sets of lengths that are not a complete prefix code: lengths that are all zero give no table, lengths with
  too many codes are refused with 2, and lengths with too few codes of which some are zero (a single distance code, say)
  make \<open>huft_build\<close> read a value that was never set.\<close>

theorem huft_build_bad_lengths:
  assumes "b \<noteq> []" "length b \<le> N_MAX" "\<forall>k\<in>set b. k \<le> BMAX" "\<forall>i<length b. s \<le> i \<longrightarrow> e \<noteq> None \<and> i - s \<le> 30"
  shows "((\<forall>k\<in>set b. k = 0) \<longrightarrow> huft_build b s d e t m = Some (0, None, 0)) \<and>
    (2 ^ BMAX < kraft_sum b \<longrightarrow> (\<exists>l. huft_build b s d e t m = Some (2, t, l))) \<and>
    (kraft_sum b < 2 ^ BMAX \<and> (\<exists>k\<in>set b. k \<noteq> 0) \<and> 0 \<in> set b \<longrightarrow> huft_build b s d e t m = None)"
  (is "?A \<and> ?B \<and> ?C")
proof (intro conjI)
  show ?A using huft_build_zero [OF assms(1)] by blast
  show ?B
  proof
    assume k: "2 ^ BMAX < kraft_sum b"
    have "\<exists>k\<in>set b. k \<noteq> 0"
    proof (rule ccontr)
      assume "\<not> (\<exists>k\<in>set b. k \<noteq> 0)"
      then have "filter (\<lambda>k. k \<noteq> 0) b = []" by (simp add: filter_empty_conv)
      then show False using k by (simp add: kraft_sum_def)
    qed
    then show "\<exists>l. huft_build b s d e t m = Some (2, t, l)" using huft_build_rejects [OF assms(3) _ k] by blast
  qed
  show ?C using huft_build_unset [OF assms(2,3) _ _ _ assms(4)] by blast
qed

theorem huft_build_bad_lengths_witness:
  "huft_build [0, 0] 0 [1, 2] (Some [0, 0]) None 6 = Some (0, None, 0) \<and>
    (\<exists>l. huft_build [1, 1, 1] 0 [1, 2, 3] (Some [0, 0, 0]) None 6 = Some (2, None, l)) \<and>
    huft_build [0, 1] 0 [1, 2] (Some [0, 0]) None 6 = None"
  using huft_build_bad_lengths [of "[0, 0]" 0 "Some [0, 0]" "[1, 2]" None 6]
    huft_build_bad_lengths [of "[1, 1, 1]" 0 "Some [0, 0, 0]" "[1, 2, 3]" None 6]
    huft_build_bad_lengths [of "[0, 1]" 0 "Some [0, 0]" "[1, 2]" None 6]
  by (simp add: N_MAX_def BMAX_def kraft_sum_def)

end
