(* ===== verification/InflateBits.thy ===== *)
theory InflateBits
  imports Inflate HuftCode
begin

text \<open>
  Reading bits: while the buffer has data, the bit register and the bytes behind it are one number, the stream, of which
  \<open>NEEDBITS\<close> only changes the representation and \<open>DUMPBITS\<close> takes bits off; so the loops over the tables read what
  \<open>huft_path\<close> describes.
\<close>

section \<open>The stream\<close>

definition bytes_value :: "char list \<Rightarrow> nat" where
  "bytes_value cs = foldr (\<lambda>c v. of_char c + 256 * v) cs 0"

definition ready :: "inflater \<Rightarrow> char list" where
  "ready st = take (insize st - inptr st) (drop (inptr st) (inbuf st))"

definition stream_of :: "nat \<Rightarrow> nat \<Rightarrow> inflater \<Rightarrow> nat" where
  "stream_of b k st = b + 2 ^ k * bytes_value (ready st)"

definition avail_of :: "nat \<Rightarrow> inflater \<Rightarrow> nat" where
  "avail_of k st = k + 8 * length (ready st)"

definition bits_ok :: "nat \<Rightarrow> nat \<Rightarrow> inflater \<Rightarrow> bool" where
  "bits_ok b k st \<longleftrightarrow> b < 2 ^ k \<and> k \<le> 32 \<and> insize st \<le> length (inbuf st)"

lemma byte_less: "(of_char c :: nat) < 256"
  using of_char_mod_256 [of c, where ?'a = nat] by (metis mod_less_divisor zero_less_numeral)

lemma bytes_value_simps [simp]: "bytes_value [] = 0" "bytes_value (c # cs) = of_char c + 256 * bytes_value cs"
  by (simp_all add: bytes_value_def)

lemma bytes_value_append: "bytes_value (xs @ ys) = bytes_value xs + 2 ^ (8 * length xs) * bytes_value ys"
  by (induction xs) (simp_all add: algebra_simps power_add)

lemma ready_Cons:
  assumes "inptr st < insize st" "insize st \<le> length (inbuf st)"
  shows "ready st = inbuf st ! inptr st # ready (st\<lparr>inptr := inptr st + 1\<rparr>)"
proof -
  have "drop (inptr st) (inbuf st) = inbuf st ! inptr st # drop (Suc (inptr st)) (inbuf st)"
    using assms by (simp add: Cons_nth_drop_Suc)
  then show ?thesis using assms(1) by (simp add: ready_def take_Cons')
qed

lemma or_push_bit: "b < 2 ^ k \<Longrightarrow> b OR push_bit k x = b + 2 ^ k * (x :: nat)"
proof -
  assume "b < 2 ^ k"
  then have "take_bit k b = b" by (simp add: take_bit_nat_eq_self)
  then have "b AND push_bit k x = 0"
    by (intro bit_eqI) (metis bit_and_iff bit_push_bit_iff bit_0_eq bit_take_bit_iff bot_apply bot_bool_def not_less)
  then have "b OR push_bit k x = b + push_bit k x" by (simp add: disjunctive_add_eq_or)
  then show ?thesis by (simp add: push_bit_nat_def)
qed

lemma needbits_ready:
  assumes "bits_ok b k st" "n \<le> 16" "n \<le> avail_of k st"
  shows "\<exists>b' k' i. needbits n b k st = Some (Inr (b', k'), st\<lparr>inptr := i\<rparr>) \<and> n \<le> k' \<and> bits_ok b' k' (st\<lparr>inptr := i\<rparr>) \<and>
    stream_of b' k' (st\<lparr>inptr := i\<rparr>) = stream_of b k st \<and> avail_of k' (st\<lparr>inptr := i\<rparr>) = avail_of k st"
  using assms
proof (induction "n - k" arbitrary: b k st rule: less_induct)
  case less
  show ?case
  proof (cases "n \<le> k")
    case True
    then show ?thesis using less.prems
      by (intro exI [of _ b] exI [of _ k] exI [of _ "inptr st"]) (simp add: needbits.simps)
  next
    case False
    then have "0 < length (ready st)" using less.prems(3) by (cases "ready st") (auto simp: avail_of_def)
    then have i: "inptr st < insize st" "insize st \<le> length (inbuf st)" using less.prems(1)
      by (auto simp: ready_def bits_ok_def)
    let ?c = "inbuf st ! inptr st" and ?st = "st\<lparr>inptr := inptr st + 1\<rparr>"
    let ?b = "b + 2 ^ k * of_char ?c"
    have b: "b < 2 ^ k" using less.prems(1) by (simp add: bits_ok_def)
    have "?b < 2 ^ (k + 8)"
    proof -
      have "?b < 2 ^ k * (of_char ?c + 1)" using b by simp
      also have "\<dots> \<le> 2 ^ k * 2 ^ 8"
      proof (rule mult_le_mono2)
        show "of_char ?c + 1 \<le> (2 :: nat) ^ 8" 
        proof -
          have "(2 :: nat) ^ 8 = 256" by simp
          then show ?thesis using byte_less [of ?c] by linarith
        qed
      qed
      finally show ?thesis by (simp add: power_add)
    qed
    moreover have "(2 :: nat) ^ (k + 8) \<le> 2 ^ 64" using False less.prems(2) by (intro power_increasing) auto
    ultimately have step: "needbits n b k st = needbits n ?b (k + 8) ?st"
      using False i by (subst needbits.simps) (simp add: or_push_bit [OF b])
    have ok: "bits_ok ?b (k + 8) ?st"
      using \<open>?b < 2 ^ (k + 8)\<close> False less.prems(1,2) by (simp add: bits_ok_def)
    have rd: "ready st = ?c # ready ?st" by (rule ready_Cons [OF i])
    have s: "stream_of ?b (k + 8) ?st = stream_of b k st" "avail_of (k + 8) ?st = avail_of k st"
      by (simp_all add: stream_of_def avail_of_def rd algebra_simps power_add)
    have "n - (k + 8) < n - k" "n \<le> avail_of (k + 8) ?st" using False s(2) less.prems(3) by simp_all
    from less.hyps [OF this(1) ok less.prems(2) this(2)] obtain b' k' j where
      "needbits n ?b (k + 8) ?st = Some (Inr (b', k'), ?st\<lparr>inptr := j\<rparr>)" "n \<le> k'" "bits_ok b' k' (?st\<lparr>inptr := j\<rparr>)"
      "stream_of b' k' (?st\<lparr>inptr := j\<rparr>) = stream_of ?b (k + 8) ?st" "avail_of k' (?st\<lparr>inptr := j\<rparr>) = avail_of (k + 8) ?st"
      by blast
    then show ?thesis using step s by auto
  qed
qed

section \<open>Steps that only move\<close>

definition moves :: "inflater \<Rightarrow> inflater \<Rightarrow> bool" where
  "moves st st' \<longleftrightarrow> (\<exists>i f e t. st' = st\<lparr>hee := e, htt := t, inptr := i, flag := f\<rparr>)"

lemma moves_refl [simp]: "moves st st"
  unfolding moves_def by (intro exI [of _ "inptr st"] exI [of _ "flag st"] exI [of _ "hee st"] exI [of _ "htt st"]) simp

lemma moves_trans [trans]: "moves a b \<Longrightarrow> moves b c \<Longrightarrow> moves a c"
  unfolding moves_def by (elim exE, simp, blast)

lemma moves_steps [simp]:
  "moves st (st\<lparr>inptr := i\<rparr>)" "moves st (st\<lparr>flag := f\<rparr>)" "moves st (st\<lparr>hee := e\<rparr>)" "moves st (st\<lparr>htt := t\<rparr>)"
proof -
  show "moves st (st\<lparr>inptr := i\<rparr>)" unfolding moves_def
    by (intro exI [of _ i] exI [of _ "flag st"] exI [of _ "hee st"] exI [of _ "htt st"]) simp
  show "moves st (st\<lparr>flag := f\<rparr>)" unfolding moves_def
    by (intro exI [of _ "inptr st"] exI [of _ f] exI [of _ "hee st"] exI [of _ "htt st"]) simp
  show "moves st (st\<lparr>hee := e\<rparr>)" unfolding moves_def
    by (intro exI [of _ "inptr st"] exI [of _ "flag st"] exI [of _ e] exI [of _ "htt st"]) simp
  show "moves st (st\<lparr>htt := t\<rparr>)" unfolding moves_def
    by (intro exI [of _ "inptr st"] exI [of _ "flag st"] exI [of _ "hee st"] exI [of _ t]) simp
qed

lemma moves_more [simp]:
  assumes "moves st st'"
  shows "moves st (st'\<lparr>inptr := i\<rparr>)" "moves st (st'\<lparr>flag := f\<rparr>)" "moves st (st'\<lparr>hee := e\<rparr>)" "moves st (st'\<lparr>htt := t\<rparr>)"
  using assms by (auto intro: moves_trans)

definition at_bits :: "'a bits_scheme \<Rightarrow> inflater \<Rightarrow> nat \<Rightarrow> nat \<Rightarrow> bool" where
  \<comment> \<open>what is left to read is \<open>s\<close>, of \<open>n\<close> bits\<close>
  "at_bits r st s n \<longleftrightarrow> bits_ok (r_b r) (r_k r) st \<and> stream_of (r_b r) (r_k r) st = s \<and> avail_of (r_k r) st = n"

lemma at_bits_moves:
  assumes "at_bits r st s n" "r_b r' = r_b r" "r_k r' = r_k r" "inbuf st' = inbuf st" "insize st' = insize st" "inptr st' = inptr st"
  shows "at_bits r' st' s n"
proof -
  have "ready st' = ready st" using assms(4-) by (simp add: ready_def)
  then show ?thesis using assms by (simp add: at_bits_def stream_of_def avail_of_def bits_ok_def)
qed

lemma need_ready:
  assumes "at_bits r st s a" "n \<le> 16" "n \<le> a"
  shows "\<exists>b k i. need n r st = Some (Inr (r\<lparr>r_b := b, r_k := k\<rparr>), st\<lparr>inptr := i\<rparr>) \<and> n \<le> k \<and>
    at_bits (r\<lparr>r_b := b, r_k := k\<rparr>) (st\<lparr>inptr := i\<rparr>) s a"
  using needbits_ready [of "r_b r" "r_k r" st n] assms
  by (fastforce simp: at_bits_def need_def next_step_def go_on_def)

lemma low_bits:
  assumes "at_bits r st s a" "m \<le> r_k r"
  shows "r_b r mod 2 ^ m = s mod 2 ^ m"
proof -
  have "(2 :: nat) ^ r_k r = 2 ^ m * 2 ^ (r_k r - m)" using assms(2) by (simp flip: power_add)
  then show ?thesis using assms(1) by (auto simp: at_bits_def stream_of_def mult.assoc)
qed

lemma dumpbits_ready:
  assumes "at_bits r st s a" "n \<le> r_k r"
  shows "at_bits (dumpbits n r) st (s div 2 ^ n) (a - n)"
proof -
  have p: "(2 :: nat) ^ r_k r = 2 ^ n * 2 ^ (r_k r - n)" using assms(2) by (simp flip: power_add)
  have k: "u32 (int (r_k r) - int n) = r_k r - n"
  proof -
    have "r_k r < 2 ^ 32" using assms(1) less_exp [of 32] by (simp add: at_bits_def bits_ok_def)
    then show ?thesis using assms(2) by (simp add: u32_def nat_mod_distrib flip: of_nat_diff)
  qed
  have "r_b r < 2 ^ r_k r" using assms(1) by (simp add: at_bits_def bits_ok_def)
  then have "r_b r div 2 ^ n < 2 ^ (r_k r - n)" unfolding p by (simp add: less_mult_imp_div_less mult.commute)
  moreover have "(r_b r + 2 ^ r_k r * v) div 2 ^ n = r_b r div 2 ^ n + 2 ^ (r_k r - n) * v" for v
    unfolding p by (simp add: mult.assoc)
  ultimately show ?thesis using assms by (auto simp: at_bits_def bits_ok_def stream_of_def avail_of_def dumpbits_def k drop_bit_nat_def)
qed

lemma next_step_Inr: "m st = Some (Inr x, st1) \<Longrightarrow> next_step m f st = f x st1"
  by (simp add: next_step_def)

section \<open>The loops over the tables\<close>

lemma and_mask_mod: "r AND (2 ^ m - 1) = (r :: nat) mod 2 ^ m"
  using and_mask [of r m] by simp

lemma mask_bits_some: "m \<le> 16 \<Longrightarrow> mask_bits m = Some (2 ^ m - 1)"
  by (simp add: mask_bits_def)

lemma load_entry_ready:
  assumes "at_bits r st s a" "m \<le> r_k r" "huft_entry ts t (s mod 2 ^ m) = Some x"
  shows "load_entry (ts, t, 0) (2 ^ m - 1) r = Some (r\<lparr>r_e := h_e x, r_t := Some (ts, t, s mod 2 ^ m)\<rparr>)"
  using low_bits [OF assms(1,2)] assms(3) by (simp add: load_entry_def and_mask)

definition arrived :: "huft_tables \<Rightarrow> huft \<Rightarrow> regs \<Rightarrow> bool" where
  \<comment> \<open>\<open>t\<close> points to the entry \<open>x\<close>, and \<open>e\<close> is its \<open>e\<close>\<close>
  "arrived ts x r \<longleftrightarrow> r_e r = h_e x \<and> (\<exists>q j. r_t r = Some (ts, q, j) \<and> huft_entry ts q j = Some x)"

definition same_loops :: "regs \<Rightarrow> regs \<Rightarrow> bool" where
  "same_loops r r' \<longleftrightarrow> r_loop_flag r' = r_loop_flag r \<and> r_loop r' = r_loop r"

lemma dumpbits_regs [simp]:
  "r_e (dumpbits n r) = r_e r" "r_t (dumpbits n r) = r_t r" "r_loop_flag (dumpbits n r) = r_loop_flag r" "r_loop (dumpbits n r) = r_loop r"
  by (simp_all add: dumpbits_def)

lemma huft_link_bits: "16 < e \<Longrightarrow> e - 16 \<le> 16 \<Longrightarrow> u32 (int e - 16) = e - 16"
  by (simp add: u32_def nat_mod_distrib)

locale table_walk =
  fixes walk :: "regs \<Rightarrow> regs run" and F :: nat
  assumes walk_step: "flag st = 0 \<Longrightarrow> r_e r \<noteq> 99 \<Longrightarrow> r_t r = Some t \<Longrightarrow> entry_at t = Some h \<Longrightarrow>
    r2 = (dumpbits (h_b h) r)\<lparr>r_e := u32 (int (r_e r) - 16)\<rparr> \<Longrightarrow>
    need (r_e r2) r2 (st\<lparr>hee := r_e r2, htt := Some t, flag := F\<rparr>) = Some (Inr r3, st1) \<Longrightarrow> htt st1 \<noteq> None \<Longrightarrow>
    mask_bits (r_e r3) = Some m \<Longrightarrow> sub_table t h = Some p \<Longrightarrow> load_entry p m r3 = Some r4 \<Longrightarrow>
    walk r st = (if 16 < r_e r4 then walk r4 (st1\<lparr>flag := 0\<rparr>) else Some (Inr r4, st1\<lparr>flag := 0\<rparr>))"
begin

lemma walk_ready:
  assumes "huft_path ts q m s x n room" "room \<le> 16" "h_e x \<le> 16"
  shows "at_bits r st s a \<Longrightarrow> room \<le> a \<Longrightarrow> m \<le> r_k r \<Longrightarrow> flag st = 0 \<Longrightarrow>
    \<exists>r1. load_entry (ts, q, 0) (2 ^ m - 1) r = Some r1 \<and>
    (\<exists>r' st'. (if 16 < r_e r1 then walk r1 st else Some (Inr r1, st)) = Some (Inr r', st') \<and>
      arrived ts x r' \<and> moves st st' \<and> flag st' = 0 \<and> same_loops r r' \<and> h_b x \<le> r_k r' \<and> h_b x \<le> n \<and> n \<le> a \<and>
      at_bits r' st' (s div 2 ^ (n - h_b x)) (a - (n - h_b x)))"
  using assms
proof (induction arbitrary: r st a rule: huft_path.induct)
  case (leaf ts q s m x room)
  note ld = load_entry_ready [OF leaf.prems(1,3) leaf.hyps(1)]
  let ?r = "r\<lparr>r_e := h_e x, r_t := Some (ts, q, s mod 2 ^ m)\<rparr>"
  have "at_bits ?r st s a" by (rule at_bits_moves [OF leaf.prems(1)]) simp_all
  then show ?case
    using ld leaf by (intro exI [of _ ?r] conjI) (auto simp: arrived_def same_loops_def)
next
  case (link ts q s m h room q1 x n)
  note ld = load_entry_ready [OF link.prems(1,3) link.hyps(1)]
  let ?t = "(ts, q, s mod 2 ^ m)"
  let ?r = "r\<lparr>r_e := h_e h, r_t := Some ?t\<rparr>"
  have e16: "h_e h - 16 \<le> room - h_b h" using link.hyps(7) by (cases rule: huft_path.cases) auto
  then have e: "u32 (int (h_e h) - 16) = h_e h - 16" using link.hyps(2) link.prems(5) by (intro huft_link_bits) auto
  let ?r2 = "(dumpbits (h_b h) ?r)\<lparr>r_e := h_e h - 16\<rparr>"
  let ?st = "st\<lparr>hee := h_e h - 16, htt := Some ?t, flag := F\<rparr>"
  have "at_bits ?r st s a" by (rule at_bits_moves [OF link.prems(1)]) simp_all
  then have "at_bits (dumpbits (h_b h) ?r) st (s div 2 ^ h_b h) (a - h_b h)"
    using link.hyps(4) link.prems(3) by (intro dumpbits_ready) simp_all
  then have at: "at_bits ?r2 ?st (s div 2 ^ h_b h) (a - h_b h)"
    by (rule at_bits_moves) simp_all
  have "h_e h - 16 \<le> 16" "h_e h - 16 \<le> a - h_b h" using e16 link.prems(2,5) by auto
  from need_ready [OF at this] obtain b k i where
    nd: "need (h_e h - 16) ?r2 ?st = Some (Inr (?r2\<lparr>r_b := b, r_k := k\<rparr>), ?st\<lparr>inptr := i\<rparr>)" "h_e h - 16 \<le> k"
      "at_bits (?r2\<lparr>r_b := b, r_k := k\<rparr>) (?st\<lparr>inptr := i\<rparr>) (s div 2 ^ h_b h) (a - h_b h)" by blast
  let ?r3 = "?r2\<lparr>r_b := b, r_k := k\<rparr>" and ?st1 = "?st\<lparr>inptr := i\<rparr>"
  have at3: "at_bits ?r3 (?st1\<lparr>flag := 0\<rparr>) (s div 2 ^ h_b h) (a - h_b h)" by (rule at_bits_moves [OF nd(3)]) simp_all
  have "room - h_b h \<le> a - h_b h" "h_e h - 16 \<le> r_k ?r3" "flag (?st1\<lparr>flag := 0\<rparr>) = 0" "room - h_b h \<le> 16"
    using link.prems(2,5) nd(2) by auto
  from link.IH [OF at3 this(1-4) link.prems(6)] obtain r4 r' st' where
    r4: "load_entry (ts, q1, 0) (2 ^ (h_e h - 16) - 1) ?r3 = Some r4"
      "(if 16 < r_e r4 then walk r4 (?st1\<lparr>flag := 0\<rparr>) else Some (Inr r4, ?st1\<lparr>flag := 0\<rparr>)) = Some (Inr r', st')"
      "arrived ts x r'" "moves (?st1\<lparr>flag := 0\<rparr>) st'" "flag st' = 0" "same_loops ?r3 r'" "h_b x \<le> r_k r'" "h_b x \<le> n" "n \<le> a - h_b h"
      "at_bits r' st' (s div 2 ^ h_b h div 2 ^ (n - h_b x)) (a - h_b h - (n - h_b x))" by blast
  have "walk ?r st = Some (Inr r', st')"
    unfolding r4(2) [symmetric]
    by (rule walk_step [where t = ?t and h = h and ?r2.0 = ?r2 and ?r3.0 = ?r3 and m = "2 ^ (h_e h - 16) - 1" and p = "(ts, q1, 0)"])
      (use link.prems(4) link.hyps(1-3,6) nd(1) r4(1) e \<open>h_e h - 16 \<le> 16\<close> in \<open>simp_all add: mask_bits_some\<close>)
  moreover have "moves st st'"
  proof -
    have "moves st (?st1\<lparr>flag := 0\<rparr>)" by simp
    then show ?thesis using r4(4) by (rule moves_trans)
  qed
  moreover have "h_b h + n - h_b x = h_b h + (n - h_b x)" "h_b h + n \<le> a" using r4(8,9) link.hyps(4,5) link.prems(2) by auto
  moreover have "s div 2 ^ (h_b h + (n - h_b x)) = s div 2 ^ h_b h div 2 ^ (n - h_b x)" by (simp add: power_add div_mult2_eq)
  moreover have "same_loops r r'" using r4(6) by (simp add: same_loops_def dumpbits_def)
  ultimately show ?case using ld link.hyps(2) r4(3,5,7,8,10) by (intro exI [of _ ?r] conjI exI [of _ r'] exI [of _ st']) auto
qed

end

interpretation lengths: table_walk walk_lengths 10
  by unfold_locales (subst walk_lengths.simps, auto simp: Let_def)

interpretation dists: table_walk walk_dists 13
  by unfold_locales (subst walk_dists.simps, simp add: Let_def)

end
