(* ===== verification/InflatePage.thy ===== *)
theory InflatePage
  imports InflateBits
begin

text \<open>
  Blocks of a page: what \<open>inflate_codes\<close> makes of the encoding of a list of literals and copies.
\<close>

section \<open>The code of a block\<close>

datatype page_item =
    Literal nat
  | Copy (len_sym: nat) (len_extra: nat) (dist_sym: nat) (dist_extra: nat)

fun item_entry :: "page_item \<Rightarrow> lz_entry" where
  \<comment> \<open>an entry of \<open>litter_buf\<close> and \<open>dist_buf\<close>\<close>
  "item_entry (Literal c) = (char_of c, 0)"
| "item_entry (Copy sy x dy y) = (char_of (cplens ! (sy - 257) + x - 3), cpdist ! dy + y)"

fun item_ok :: "nat list \<Rightarrow> nat list \<Rightarrow> page_item \<Rightarrow> bool" where
  "item_ok lb db (Literal c) \<longleftrightarrow> c < 256 \<and> c < length lb \<and> lb ! c \<noteq> 0"
| "item_ok lb db (Copy sy x dy y) \<longleftrightarrow> 257 \<le> sy \<and> sy \<le> 285 \<and> sy < length lb \<and> lb ! sy \<noteq> 0 \<and> x < 2 ^ (cplext ! (sy - 257)) \<and>
     dy < 30 \<and> dy < length db \<and> db ! dy \<noteq> 0 \<and> y < 2 ^ (cpdext ! dy)"

definition code_at :: "nat list \<Rightarrow> nat \<Rightarrow> nat \<Rightarrow> nat" where
  \<comment> \<open>the stream that starts with the code of a symbol\<close>
  "code_at b sy rest = rev_bits (b ! sy) (canonical_code b sy) + 2 ^ (b ! sy) * rest"

fun encode_items :: "nat list \<Rightarrow> nat list \<Rightarrow> page_item list \<Rightarrow> nat \<Rightarrow> nat" where
  "encode_items lb db [] rest = code_at lb 256 rest"
| "encode_items lb db (Literal c # is) rest = code_at lb c (encode_items lb db is rest)"
| "encode_items lb db (Copy sy x dy y # is) rest =
     code_at lb sy (x + 2 ^ (cplext ! (sy - 257)) * code_at db dy (y + 2 ^ (cpdext ! dy) * encode_items lb db is rest))"

fun items_bits :: "nat list \<Rightarrow> nat list \<Rightarrow> page_item list \<Rightarrow> nat" where
  "items_bits lb db [] = lb ! 256"
| "items_bits lb db (Literal c # is) = lb ! c + items_bits lb db is"
| "items_bits lb db (Copy sy x dy y # is) = lb ! sy + cplext ! (sy - 257) + db ! dy + cpdext ! dy + items_bits lb db is"

fun short_runs :: "nat \<Rightarrow> page_item list \<Rightarrow> bool" where
  \<comment> \<open>no more than 50 copies in a row from a distance below 5\<close>
  "short_runs k [] = True"
| "short_runs k (Literal c # is) = short_runs 0 is"
| "short_runs k (Copy sy x dy y # is) = (if dy < 4 then k < 50 \<and> short_runs (k + 1) is else short_runs 0 is)"

definition tables_for :: "nat list \<Rightarrow> nat \<Rightarrow> nat list \<Rightarrow> nat list \<Rightarrow> huft_tables \<Rightarrow> nat \<Rightarrow> bool" where
  \<comment> \<open>the tables decode the code of the lengths \<open>b\<close>\<close>
  "tables_for b s d es ts l \<longleftrightarrow> l \<le> 16 \<and> (\<forall>sy<length b. b ! sy \<noteq> 0 \<longrightarrow>
     (\<forall>rest. \<exists>x. huft_path ts 0 l (code_at b sy rest) x (b ! sy) 16 \<and> (h_e x, h_v x) = symbol_entry s d es sy))"

lemma code_at_div2 [simp]: "code_at b sy rest div 2 ^ (b ! sy) = rest"
  using rev_bits_less [of "b ! sy" "canonical_code b sy"] by (simp add: code_at_def)

lemma extra_bits: "x < 2 ^ n \<Longrightarrow> (x + 2 ^ n * rest) div 2 ^ n = rest \<and> (x + 2 ^ n * rest) mod 2 ^ n = (x :: nat)"
  by simp

section \<open>Codes\<close>

lemma arrived_entry: "arrived ts x r \<Longrightarrow> \<exists>t. r_t r = Some t \<and> entry_at t = Some x"
  by (auto simp: arrived_def)

lemma arrived_value: "arrived ts x r \<Longrightarrow> h_v x = Vn v \<Longrightarrow> base_value (r_t r) = Some v"
  by (auto simp: arrived_def base_value_def)

lemma length_code_ready:
  assumes "flag st = 0" "at_bits r st s a" "16 \<le> a" "bl \<le> 16" "huft_path ts 0 bl s x n 16" "h_e x \<le> 16"
  shows "\<exists>r' st'. length_code (ts, 0, 0) bl r st = Some (Inr r', st') \<and> arrived ts x r' \<and> moves st st' \<and> flag st' = 0 \<and>
    same_loops r r' \<and> n \<le> a \<and> at_bits r' st' (s div 2 ^ n) (a - n)"
proof -
  let ?st = "st\<lparr>flag := 9, hee := r_e r\<rparr>"
  have at: "at_bits r ?st s a" by (rule at_bits_moves [OF assms(2)]) simp_all
  have "bl \<le> a" using assms(3,4) by simp
  from need_ready [OF at assms(4) this] obtain b k i where nd: "need bl r ?st = Some (Inr (r\<lparr>r_b := b, r_k := k\<rparr>), ?st\<lparr>inptr := i\<rparr>)"
    "bl \<le> k" "at_bits (r\<lparr>r_b := b, r_k := k\<rparr>) (?st\<lparr>inptr := i\<rparr>) s a" by blast
  let ?r1 = "r\<lparr>r_b := b, r_k := k\<rparr>" and ?st1 = "?st\<lparr>inptr := i, flag := 0\<rparr>"
  have at1: "at_bits ?r1 ?st1 s a" by (rule at_bits_moves [OF nd(3)]) simp_all
  have k: "bl \<le> r_k ?r1" "flag ?st1 = 0" using nd(2) by simp_all
  from lengths.walk_ready [OF assms(5) order_refl assms(6) at1 assms(3) k] obtain r2 r3 st3 where
    r2: "load_entry (ts, 0, 0) (2 ^ bl - 1) ?r1 = Some r2"
      "(if 16 < r_e r2 then walk_lengths r2 ?st1 else Some (Inr r2, ?st1)) = Some (Inr r3, st3)"
      "arrived ts x r3" "moves ?st1 st3" "flag st3 = 0" "same_loops ?r1 r3" "h_b x \<le> r_k r3" "h_b x \<le> n" "n \<le> a"
      "at_bits r3 st3 (s div 2 ^ (n - h_b x)) (a - (n - h_b x))" by blast
  obtain t where t: "r_t r3 = Some t" "entry_at t = Some x" using arrived_entry [OF r2(3)] by blast
  have "length_code (ts, 0, 0) bl r st = Some (Inr (dumpbits (h_b x) r3), st3)"
    using assms(1) nd(1) r2(1,2,5) t
    by (cases "16 < r_e r2") (simp_all add: length_code_def next_step_def go_on_def mask_bits_some [OF assms(4)])
  moreover have "at_bits (dumpbits (h_b x) r3) st3 (s div 2 ^ n) (a - n)"
  proof -
    have "s div 2 ^ n = s div 2 ^ (n - h_b x) div 2 ^ h_b x" using r2(8) by (simp flip: div_mult2_eq power_add)
    then show ?thesis using dumpbits_ready [OF r2(10,7)] r2(8,9) by simp
  qed
  moreover have "moves st st3"
  proof -
    have "moves st ?st1" by simp
    then show ?thesis using r2(4) by (rule moves_trans)
  qed
  moreover have "arrived ts x (dumpbits (h_b x) r3)" "same_loops r (dumpbits (h_b x) r3)"
    using r2(3,6) by (simp_all add: arrived_def same_loops_def)
  ultimately show ?thesis using r2(5,9) by blast
qed

lemma distance_code_ready:
  assumes "flag st = 0" "at_bits r st s a" "16 \<le> a" "bd \<le> 16" "huft_path ts 0 bd s x n 16" "h_e x \<le> 16"
  shows "\<exists>r' st'. distance_code (ts, 0, 0) bd r st = Some (Inr r', st') \<and> arrived ts x r' \<and> moves st st' \<and> flag st' = 0 \<and>
    same_loops r r' \<and> n \<le> a \<and> at_bits r' st' (s div 2 ^ n) (a - n)"
proof -
  let ?st = "st\<lparr>hee := r_e r, htt := r_t r, flag := 12\<rparr>"
  have at: "at_bits r ?st s a" by (rule at_bits_moves [OF assms(2)]) simp_all
  have "bd \<le> a" using assms(3,4) by simp
  from need_ready [OF at assms(4) this] obtain b k i where nd: "need bd r ?st = Some (Inr (r\<lparr>r_b := b, r_k := k\<rparr>), ?st\<lparr>inptr := i\<rparr>)"
    "bd \<le> k" "at_bits (r\<lparr>r_b := b, r_k := k\<rparr>) (?st\<lparr>inptr := i\<rparr>) s a" by blast
  let ?r1 = "r\<lparr>r_b := b, r_k := k\<rparr>" and ?st1 = "?st\<lparr>inptr := i, flag := 0\<rparr>"
  have at1: "at_bits ?r1 ?st1 s a" by (rule at_bits_moves [OF nd(3)]) simp_all
  have k: "bd \<le> r_k ?r1" "flag ?st1 = 0" using nd(2) by simp_all
  from dists.walk_ready [OF assms(5) order_refl assms(6) at1 assms(3) k] obtain r2 r3 st3 where
    r2: "load_entry (ts, 0, 0) (2 ^ bd - 1) ?r1 = Some r2"
      "(if 16 < r_e r2 then walk_dists r2 ?st1 else Some (Inr r2, ?st1)) = Some (Inr r3, st3)"
      "arrived ts x r3" "moves ?st1 st3" "flag st3 = 0" "same_loops ?r1 r3" "h_b x \<le> r_k r3" "h_b x \<le> n" "n \<le> a"
      "at_bits r3 st3 (s div 2 ^ (n - h_b x)) (a - (n - h_b x))" by blast
  obtain t where t: "r_t r3 = Some t" "entry_at t = Some x" using arrived_entry [OF r2(3)] by blast
  let ?st3 = "st3\<lparr>hee := r_e r3\<rparr>"
  have "distance_code (ts, 0, 0) bd r st = Some (Inr (dumpbits (h_b x) r3), ?st3)"
    using assms(1) nd(1) r2(1,2,5) t
    by (cases "16 < r_e r2") (simp_all add: distance_code_def next_step_def go_on_def mask_bits_some [OF assms(4)])
  moreover have "at_bits (dumpbits (h_b x) r3) ?st3 (s div 2 ^ n) (a - n)"
  proof -
    have "s div 2 ^ n = s div 2 ^ (n - h_b x) div 2 ^ h_b x" using r2(8) by (simp flip: div_mult2_eq power_add)
    then have "at_bits (dumpbits (h_b x) r3) st3 (s div 2 ^ n) (a - n)" using dumpbits_ready [OF r2(10,7)] r2(8,9) by simp
    then show ?thesis by (rule at_bits_moves) simp_all
  qed
  moreover have "moves st ?st3"
  proof -
    have "moves st ?st1" by simp
    also note r2(4)
    also have "moves st3 ?st3" by simp
    finally show ?thesis .
  qed
  moreover have "arrived ts x (dumpbits (h_b x) r3)" "same_loops r (dumpbits (h_b x) r3)"
    using r2(3,6) by (simp_all add: arrived_def same_loops_def)
  ultimately show ?thesis using r2(5,9) by (intro exI [of _ "dumpbits (h_b x) r3"] exI [of _ ?st3]) simp
qed

section \<open>Entries\<close>

definition put_lit_at :: "char \<Rightarrow> inflater \<Rightarrow> inflater" where
  "put_lit_at c st = st\<lparr>litter_buf := (litter_buf st)[lit st := c], lit := lit st + 1\<rparr>"

definition put_dist_at :: "nat \<Rightarrow> inflater \<Rightarrow> inflater" where
  "put_dist_at d st = st\<lparr>dist_buf := (dist_buf st)[dist st := d], dist := dist st + 1\<rparr>"

lemma moves_put:
  assumes "moves st st'"
  shows "moves (put_lit_at c st) (put_lit_at c st')" "moves (put_dist_at d st) (put_dist_at d st')"
proof -
  obtain i f e t where st': "st' = st\<lparr>hee := e, htt := t, inptr := i, flag := f\<rparr>" using assms by (auto simp: moves_def)
  show "moves (put_lit_at c st) (put_lit_at c st')" unfolding moves_def st' put_lit_at_def
    by (intro exI [of _ i] exI [of _ f] exI [of _ e] exI [of _ t]) simp
  show "moves (put_dist_at d st) (put_dist_at d st')" unfolding moves_def st' put_dist_at_def
    by (intro exI [of _ i] exI [of _ f] exI [of _ e] exI [of _ t]) simp
qed

lemma moves_fields:
  assumes "moves st st'"
  shows "lit st' = lit st" "dist st' = dist st" "litter_buf st' = litter_buf st" "dist_buf st' = dist_buf st"
    "inbuf st' = inbuf st" "insize st' = insize st"
  using assms by (auto simp: moves_def)

lemma put_fields [simp]:
  "flag (put_lit_at c st) = flag st" "flag (put_dist_at d st) = flag st" "htt (put_lit_at c st) = htt st"
  "inbuf (put_lit_at c st) = inbuf st" "insize (put_lit_at c st) = insize st" "inptr (put_lit_at c st) = inptr st"
  "inbuf (put_dist_at d st) = inbuf st" "insize (put_dist_at d st) = insize st" "inptr (put_dist_at d st) = inptr st"
  "lit (put_lit_at c st) = lit st + 1" "dist (put_lit_at c st) = dist st" "lit (put_dist_at d st) = lit st"
  "dist (put_dist_at d st) = dist st + 1" "dist_buf (put_lit_at c st) = dist_buf st"
  "length (dist_buf (put_dist_at d st)) = length (dist_buf st)" "length (litter_buf (put_lit_at c st)) = length (litter_buf st)"
  "litter_buf (put_dist_at d st) = litter_buf st"
  by (simp_all add: put_lit_at_def put_dist_at_def)

lemma literal_entry_ready:
  assumes "arrived ts x r" "h_v x = Vn c" "lit st + 1 < LIT_BUFSIZE" "lit st = dist st"
    "length (litter_buf st) = LIT_BUFSIZE" "length (dist_buf st) = LIT_BUFSIZE"
  shows "\<exists>st'. literal_entry env r st = Some (Inr r, st') \<and> moves (put_dist_at 0 (put_lit_at (char_of c) st)) st' \<and>
    flag st' = flag st \<and> inbuf st' = inbuf st \<and> insize st' = insize st \<and> inptr st' = inptr st"
proof -
  have t: "r_t r \<noteq> None" "base_value (r_t r) = Some c" using arrived_entry [OF assms(1)] arrived_value [OF assms(1,2)] by auto
  let ?st = "put_dist_at 0 (put_lit_at (char_of c) (st\<lparr>hee := r_e r\<rparr>))"
  have "literal_entry env r st = Some (Inr r, ?st)"
    using assms(3-) t by (simp add: literal_entry_def put_lit_def put_dist_def put_lit_at_def put_dist_at_def)
  moreover have "moves (put_dist_at 0 (put_lit_at (char_of c) st)) ?st" by (intro moves_put) simp
  ultimately show ?thesis by (intro exI [of _ ?st]) simp
qed

lemma length_entry_ready:
  assumes "arrived ts x r" "h_v x = Vn v" "flag st = 0" "at_bits r st s a" "r_e r \<le> 16" "r_e r \<le> a"
    "lit st + 1 < LIT_BUFSIZE" "length (litter_buf st) = LIT_BUFSIZE" "3 \<le> v + s mod 2 ^ r_e r"
  shows "\<exists>r' st'. length_entry env r st = Some (Inr r', st') \<and>
    moves (put_lit_at (char_of (v + s mod 2 ^ r_e r - 3)) st) st' \<and> flag st' = 0 \<and> same_loops r r' \<and>
    at_bits r' st' (s div 2 ^ r_e r) (a - r_e r)"
proof -
  let ?e = "r_e r" and ?st = "st\<lparr>hee := r_e r, flag := 11, htt := r_t r\<rparr>"
  have at: "at_bits r ?st s a" by (rule at_bits_moves [OF assms(4)]) simp_all
  from need_ready [OF at assms(5,6)] obtain b k i where nd: "need ?e r ?st = Some (Inr (r\<lparr>r_b := b, r_k := k\<rparr>), ?st\<lparr>inptr := i\<rparr>)"
    "?e \<le> k" "at_bits (r\<lparr>r_b := b, r_k := k\<rparr>) (?st\<lparr>inptr := i\<rparr>) s a" by blast
  let ?r = "r\<lparr>r_b := b, r_k := k\<rparr>"
  have t: "r_t r \<noteq> None" "base_value (r_t r) = Some v" using arrived_entry [OF assms(1)] arrived_value [OF assms(1,2)] by auto
  have low: "b AND (2 ^ ?e - Suc 0) = s mod 2 ^ ?e" using low_bits [OF nd(3)] nd(2) by (simp add: and_mask)
  let ?c = "char_of ((v + 65536 + s mod 2 ^ ?e - 3) mod 256)"
  have c: "?c = char_of (v + s mod 2 ^ ?e - 3)"
  proof -
    have "v + 65536 + s mod 2 ^ ?e - 3 = v + s mod 2 ^ ?e - 3 + 256 * 256" using assms(9) by simp
    then have "(v + 65536 + s mod 2 ^ ?e - 3) mod 256 = (v + s mod 2 ^ ?e - 3) mod 256" by (simp only: mod_mult_self2)
    then show ?thesis by simp
  qed
  let ?st2 = "put_lit_at ?c (?st\<lparr>inptr := i, flag := 0\<rparr>)"
  have "length_entry env r st = Some (Inr (dumpbits ?e ?r), ?st2)"
    using assms(3,7,8) nd(1) t low
    by (auto simp: length_entry_def next_step_def go_on_def put_lit_def put_lit_at_def mask_bits_some [OF assms(5)])
  moreover have "moves (put_lit_at (char_of (v + s mod 2 ^ ?e - 3)) st) ?st2"
    unfolding c by (rule moves_put) simp
  moreover have "at_bits (dumpbits ?e ?r) ?st2 (s div 2 ^ ?e) (a - ?e)"
  proof -
    have "at_bits (dumpbits ?e ?r) (?st\<lparr>inptr := i\<rparr>) (s div 2 ^ ?e) (a - ?e)" using dumpbits_ready [OF nd(3)] nd(2) by simp
    then show ?thesis by (rule at_bits_moves) simp_all
  qed
  ultimately show ?thesis by (intro exI [of _ "dumpbits ?e ?r"] exI [of _ ?st2]) (simp add: same_loops_def)
qed

lemma distance_entry_ready:
  assumes "arrived ts x r" "h_v x = Vn v" "flag st = 0" "at_bits r st s a" "r_e r \<le> 16" "r_e r \<le> a"
    "dist st + 1 < LIT_BUFSIZE" "length (dist_buf st) = LIT_BUFSIZE" "v + s mod 2 ^ r_e r < 2 ^ 16"
  shows "\<exists>r' st'. distance_entry env r st = Some (Inr r', st') \<and>
    moves (put_dist_at (v + s mod 2 ^ r_e r) st) st' \<and> flag st' = 0 \<and> same_loops r r' \<and> r_e r' = r_e r \<and>
    at_bits r' st' (s div 2 ^ r_e r) (a - r_e r)"
proof -
  let ?e = "r_e r" and ?st = "st\<lparr>flag := 14, htt := r_t r\<rparr>"
  have at: "at_bits r ?st s a" by (rule at_bits_moves [OF assms(4)]) simp_all
  from need_ready [OF at assms(5,6)] obtain b k i where nd: "need ?e r ?st = Some (Inr (r\<lparr>r_b := b, r_k := k\<rparr>), ?st\<lparr>inptr := i\<rparr>)"
    "?e \<le> k" "at_bits (r\<lparr>r_b := b, r_k := k\<rparr>) (?st\<lparr>inptr := i\<rparr>) s a" by blast
  let ?r = "r\<lparr>r_b := b, r_k := k\<rparr>"
  have t: "r_t r \<noteq> None" "base_value (r_t r) = Some v" using arrived_entry [OF assms(1)] arrived_value [OF assms(1,2)] by auto
  have low: "b AND (2 ^ ?e - Suc 0) = s mod 2 ^ ?e" using low_bits [OF nd(3)] nd(2) by (simp add: and_mask)
  have buf: "dist_buf st \<noteq> []" using assms(8) by (auto simp: LIT_BUFSIZE_def)
  let ?st2 = "put_dist_at (v + s mod 2 ^ ?e) (?st\<lparr>inptr := i, flag := 0\<rparr>)"
  have "distance_entry env r st = Some (Inr (dumpbits ?e ?r), ?st2)"
    using assms(3,7,8,9) nd(1) t low buf
    by (auto simp: distance_entry_def next_step_def go_on_def put_dist_def put_dist_at_def mask_bits_some [OF assms(5)])
  moreover have "moves (put_dist_at (v + s mod 2 ^ ?e) st) ?st2"
    by (rule moves_put) simp
  moreover have "at_bits (dumpbits ?e ?r) ?st2 (s div 2 ^ ?e) (a - ?e)"
  proof -
    have "at_bits (dumpbits ?e ?r) (?st\<lparr>inptr := i\<rparr>) (s div 2 ^ ?e) (a - ?e)" using dumpbits_ready [OF nd(3)] nd(2) by simp
    then show ?thesis by (rule at_bits_moves) simp_all
  qed
  ultimately show ?thesis by (intro exI [of _ "dumpbits ?e ?r"] exI [of _ ?st2]) (simp add: same_loops_def)
qed

end
