(* ===== verification/InflateBlock.thy ===== *)
theory InflateBlock
  imports InflatePage
begin

text \<open>
  A block of a page from its tables to the search: \<open>inflate_codes\<close> puts the entries of the encoded items into the buffers,
  and \<open>inflate_fixed\<close> searches exactly these.
\<close>

section \<open>One item\<close>

definition put_item :: "page_item \<Rightarrow> inflater \<Rightarrow> inflater" where
  "put_item i st = put_dist_at (snd (item_entry i)) (put_lit_at (fst (item_entry i)) st)"

lemma put_item_fields [simp]:
  "flag (put_item i st) = flag st" "lit (put_item i st) = lit st + 1" "dist (put_item i st) = dist st + 1"
  "length (litter_buf (put_item i st)) = length (litter_buf st)" "length (dist_buf (put_item i st)) = length (dist_buf st)"
  by (simp_all add: put_item_def put_lit_at_def put_dist_at_def)

definition buffers_ok :: "inflater \<Rightarrow> bool" where
  "buffers_ok st \<longleftrightarrow> lit st = dist st \<and> length (litter_buf st) = LIT_BUFSIZE \<and> length (dist_buf st) = LIT_BUFSIZE"

lemma buffers_moves: "moves st st' \<Longrightarrow> buffers_ok st' = buffers_ok st"
  by (simp add: buffers_ok_def moves_fields)

lemma buffers_put [simp]: "buffers_ok (put_item i st) = buffers_ok st"
  by (simp add: buffers_ok_def)

lemma tables_path:
  assumes "tables_for b s d es ts l" "sy < length b" "b ! sy \<noteq> 0"
  shows "\<exists>x. huft_path ts 0 l (code_at b sy rest) x (b ! sy) 16 \<and> h_e x = fst (symbol_entry s d es sy) \<and> h_v x = snd (symbol_entry s d es sy)"
  using assms unfolding tables_for_def by (metis fst_conv snd_conv)

lemma decode_literal:
  assumes "tables_for lb 257 cplens cplext tsl bl" "item_ok lb db (Literal c)" "flag st = 0"
    "at_bits r st (code_at lb c rest) a" "16 \<le> a" "buffers_ok st" "lit st + 1 < LIT_BUFSIZE"
  shows "\<exists>r' st'. decode_entry env (tsl, 0, 0) tbd bl bd r st = Some (Inr (False, r'), st') \<and>
    moves (put_item (Literal c) st) st' \<and> flag st' = 0 \<and> r_loop_flag r' = 0 \<and> lb ! c \<le> a \<and> at_bits r' st' rest (a - lb ! c)"
proof -
  have c: "c < 256" "c < length lb" "lb ! c \<noteq> 0" using assms(2) by simp_all
  obtain x where x: "huft_path tsl 0 bl (code_at lb c rest) x (lb ! c) 16" "h_e x = 16" "h_v x = Vn c"
    using tables_path [OF assms(1) c(2,3), of rest] c(1) by (auto simp: symbol_entry_def)
  have bl: "bl \<le> 16" using assms(1) by (simp add: tables_for_def)
  have hx: "h_e x \<le> 16" using x(2) by simp
  from length_code_ready [OF assms(3,4,5) bl x(1) hx] obtain r1 st1 where
    l: "length_code (tsl, 0, 0) bl r st = Some (Inr r1, st1)" "arrived tsl x r1" "moves st st1" "flag st1 = 0" "lb ! c \<le> a"
      "at_bits r1 st1 rest (a - lb ! c)" unfolding code_at_div2 by blast
  have b: "lit st1 + 1 < LIT_BUFSIZE" "lit st1 = dist st1" "length (litter_buf st1) = LIT_BUFSIZE" "length (dist_buf st1) = LIT_BUFSIZE"
    using assms(6,7) moves_fields [OF l(3)] by (simp_all add: buffers_ok_def)
  obtain st2 where e: "literal_entry env r1 st1 = Some (Inr r1, st2)" "moves (put_dist_at 0 (put_lit_at (char_of c) st1)) st2"
    "flag st2 = flag st1" "inbuf st2 = inbuf st1" "insize st2 = insize st1" "inptr st2 = inptr st1"
    using literal_entry_ready [OF l(2) x(3) b, of env] by blast
  let ?r = "r1\<lparr>r_loop_flag := 0\<rparr>"
  have r1: "r_e r1 = 16" using l(2) x(2) by (simp add: arrived_def)
  have "decode_entry env (tsl, 0, 0) tbd bl bd r st = Some (Inr (False, ?r), st2)"
    using l(1) e(1) r1 by (simp add: decode_entry_def next_step_def go_on_def count_zero_bits_def)
  moreover have "moves (put_item (Literal c) st) st2"
    unfolding put_item_def using moves_trans [OF moves_put(2) [OF moves_put(1) [OF l(3)]] e(2)] by simp
  moreover have "at_bits ?r st2 rest (a - lb ! c)" by (rule at_bits_moves [OF l(6)]) (use e in simp_all)
  ultimately show ?thesis using l(4,5) e(3) by (intro exI [of _ ?r] exI [of _ st2]) simp
qed

lemma cplext_le: "257 \<le> sy \<Longrightarrow> sy \<le> 285 \<Longrightarrow> cplext ! (sy - 257) \<le> 5"
proof -
  have "list_all (\<lambda>i. cplext ! i \<le> 5) [0..<29]" by code_simp
  then show "257 \<le> sy \<Longrightarrow> sy \<le> 285 \<Longrightarrow> cplext ! (sy - 257) \<le> 5" by (simp add: list_all_iff)
qed

lemma cplens_ge: "257 \<le> sy \<Longrightarrow> sy \<le> 285 \<Longrightarrow> 3 \<le> cplens ! (sy - 257)"
proof -
  have "list_all (\<lambda>i. 3 \<le> cplens ! i) [0..<29]" by code_simp
  then show "257 \<le> sy \<Longrightarrow> sy \<le> 285 \<Longrightarrow> 3 \<le> cplens ! (sy - 257)" by (simp add: list_all_iff)
qed

lemma cpdext_le: "dy < 30 \<Longrightarrow> cpdext ! dy \<le> 13"
proof -
  have "list_all (\<lambda>i. cpdext ! i \<le> 13) [0..<30]" by code_simp
  then show "dy < 30 \<Longrightarrow> cpdext ! dy \<le> 13" by (simp add: list_all_iff)
qed

lemma cpdext_zero: "dy < 30 \<Longrightarrow> cpdext ! dy = 0 \<longleftrightarrow> dy < 4"
proof -
  have "list_all (\<lambda>i. (cpdext ! i = 0) = (i < 4)) [0..<30]" by code_simp
  then show "dy < 30 \<Longrightarrow> cpdext ! dy = 0 \<longleftrightarrow> dy < 4" by (simp add: list_all_iff)
qed

lemma cpdist_less:
  assumes "dy < 30" "y < 2 ^ (cpdext ! dy)"
  shows "cpdist ! dy + y < 2 ^ 16"
proof -
  have "list_all (\<lambda>x. x \<le> 24577) cpdist" "length cpdist = 30" by (simp_all add: cpdist_def)
  then have "cpdist ! dy \<le> 24577" using assms(1) by (simp add: list_all_length)
  moreover have "(2 :: nat) ^ (cpdext ! dy) \<le> 2 ^ 13" using cpdext_le [OF assms(1)] by (intro power_increasing) auto
  ultimately show ?thesis using assms(2) by simp
qed

fun item_bits :: "nat list \<Rightarrow> nat list \<Rightarrow> page_item \<Rightarrow> nat" where
  "item_bits lb db (Literal c) = lb ! c"
| "item_bits lb db (Copy sy x dy y) = lb ! sy + cplext ! (sy - 257) + db ! dy + cpdext ! dy"

fun item_run :: "nat \<Rightarrow> page_item \<Rightarrow> nat" where
  \<comment> \<open>the copies from a short distance in a row\<close>
  "item_run k (Literal c) = 0"
| "item_run k (Copy sy x dy y) = (if dy < 4 then k + 1 else 0)"

lemma decode_copy:
  assumes tl: "tables_for lb 257 cplens cplext tsl bl" and td: "tables_for db 0 cpdist cpdext tsd bd"
    and ok: "item_ok lb db (Copy sy x dy y)" and f: "flag st = 0"
    and at: "at_bits r st (code_at lb sy (x + 2 ^ (cplext ! (sy - 257)) * code_at db dy (y + 2 ^ (cpdext ! dy) * rest))) a"
    and a: "item_bits lb db (Copy sy x dy y) + 16 \<le> a" and buf: "buffers_ok st" "lit st + 1 < LIT_BUFSIZE"
    and run: "item_run (r_loop_flag r) (Copy sy x dy y) \<le> 50"
  shows "\<exists>r' st'. decode_entry env (tsl, 0, 0) (tsd, 0, 0) bl bd r st = Some (Inr (False, r'), st') \<and>
    moves (put_item (Copy sy x dy y) st) st' \<and> flag st' = 0 \<and> r_loop_flag r' = item_run (r_loop_flag r) (Copy sy x dy y) \<and>
    at_bits r' st' rest (a - item_bits lb db (Copy sy x dy y))"
proof -
  let ?le = "cplext ! (sy - 257)" and ?lv = "cplens ! (sy - 257)" and ?de = "cpdext ! dy" and ?dv = "cpdist ! dy"
  let ?s2 = "y + 2 ^ ?de * rest"
  let ?s1 = "x + 2 ^ ?le * code_at db dy ?s2"
  have sy: "257 \<le> sy" "sy \<le> 285" "sy < length lb" "lb ! sy \<noteq> 0" "x < 2 ^ ?le"
    and dy: "dy < 30" "dy < length db" "db ! dy \<noteq> 0" "y < 2 ^ ?de" using ok by simp_all
  have bl: "bl \<le> 16" "bd \<le> 16" using tl td by (simp_all add: tables_for_def)
  obtain h where h: "huft_path tsl 0 bl (code_at lb sy ?s1) h (lb ! sy) 16" "h_e h = ?le" "h_v h = Vn ?lv"
    using tables_path [OF tl sy(3,4), of ?s1] sy(1) by (auto simp: symbol_entry_def)
  obtain g where g: "huft_path tsd 0 bd (code_at db dy ?s2) g (db ! dy) 16" "h_e g = ?de" "h_v g = Vn ?dv"
    using tables_path [OF td dy(2,3), of ?s2] by (auto simp: symbol_entry_def)
  have e5: "?le \<le> 5" "?de \<le> 13" using cplext_le [OF sy(1,2)] cpdext_le [OF dy(1)] by simp_all
  then have he: "h_e h \<le> 16" "h_e g \<le> 16" using h(2) g(2) by simp_all
  have a16: "16 \<le> a" "?le \<le> a - lb ! sy" "16 \<le> a - lb ! sy - ?le" "?de \<le> a - lb ! sy - ?le - db ! dy" using a by simp_all
  from length_code_ready [OF f at a16(1) bl(1) h(1) he(1)] obtain r1 st1 where
    l: "length_code (tsl, 0, 0) bl r st = Some (Inr r1, st1)" "arrived tsl h r1" "moves st st1" "flag st1 = 0" "same_loops r r1"
      "at_bits r1 st1 ?s1 (a - lb ! sy)" unfolding code_at_div2 by blast
  have r1: "r_e r1 = ?le" using l(2) h(2) by (simp add: arrived_def)
  have b1: "lit st1 + 1 < LIT_BUFSIZE" "length (litter_buf st1) = LIT_BUFSIZE"
    using buf moves_fields [OF l(3)] by (simp_all add: buffers_ok_def)
  have "3 \<le> ?lv + ?s1 mod 2 ^ r_e r1" "r_e r1 \<le> 16" "r_e r1 \<le> a - lb ! sy" using cplens_ge [OF sy(1,2)] r1 e5 a16(2) by simp_all
  from length_entry_ready [OF l(2) h(3) l(4,6) this(2,3) b1 this(1), of env] obtain r2 st2 where
    m: "length_entry env r1 st1 = Some (Inr r2, st2)" "moves (put_lit_at (char_of (?lv + x - 3)) st1) st2" "flag st2 = 0" "same_loops r1 r2"
      "at_bits r2 st2 (code_at db dy ?s2) (a - lb ! sy - ?le)" unfolding r1 using sy(5) by auto
  from distance_code_ready [OF m(3,5) a16(3) bl(2) g(1) he(2)] obtain r3 st3 where
    d: "distance_code (tsd, 0, 0) bd r2 st2 = Some (Inr r3, st3)" "arrived tsd g r3" "moves st2 st3" "flag st3 = 0" "same_loops r2 r3"
      "at_bits r3 st3 ?s2 (a - lb ! sy - ?le - db ! dy)" unfolding code_at_div2 by blast
  have r3: "r_e r3 = ?de" using d(2) g(2) by (simp add: arrived_def)
  have m3: "moves (put_lit_at (char_of (?lv + x - 3)) st) st3"
    using moves_trans [OF moves_put(1) [OF l(3)] moves_trans [OF m(2) d(3)]] .
  have b3: "dist st3 + 1 < LIT_BUFSIZE" "length (dist_buf st3) = LIT_BUFSIZE"
    using buf moves_fields [OF m3] by (simp_all add: buffers_ok_def)
  have "?dv + ?s2 mod 2 ^ r_e r3 < 2 ^ 16" "r_e r3 \<le> 16" "r_e r3 \<le> a - lb ! sy - ?le - db ! dy"
    using cpdist_less [OF dy(1,4)] r3 e5 a16(4) dy(4) by simp_all
  from distance_entry_ready [OF d(2) g(3) d(4,6) this(2,3) b3 this(1), of env] obtain r4 st4 where
    q: "distance_entry env r3 st3 = Some (Inr r4, st4)" "moves (put_dist_at (?dv + y) st3) st4" "flag st4 = 0" "same_loops r3 r4" "r_e r4 = ?de"
      "at_bits r4 st4 rest (a - lb ! sy - ?le - db ! dy - ?de)" unfolding r3 using dy(4) by auto
  have lf: "r_loop_flag r4 = r_loop_flag r" using l(5) m(4) d(5) q(4) by (simp add: same_loops_def)
  let ?r = "r4\<lparr>r_loop_flag := item_run (r_loop_flag r) (Copy sy x dy y)\<rparr>"
  have z: "count_zero_bits r4 st4 = Some (Inr ?r, st4)"
    using run cpdext_zero [OF dy(1)] by (simp add: count_zero_bits_def q(5) lf split: if_splits)
  have "decode_entry env (tsl, 0, 0) (tsd, 0, 0) bl bd r st = Some (Inr (False, ?r), st4)"
    using l(1) m(1) d(1) q(1) z r1 e5 by (simp add: decode_entry_def next_step_def go_on_def)
  moreover have "moves (put_item (Copy sy x dy y) st) st4"
    unfolding put_item_def using moves_trans [OF moves_put(2) [OF m3] q(2)] by simp
  moreover have "at_bits r4 st4 rest (a - item_bits lb db (Copy sy x dy y))" using q(6) by (simp add: add.assoc)
  then have "at_bits ?r st4 rest (a - item_bits lb db (Copy sy x dy y))" by (rule at_bits_moves) simp_all
  ultimately show ?thesis using q(3) by (intro exI [of _ ?r] exI [of _ st4]) simp
qed

lemma decode_end:
  assumes "tables_for lb 257 cplens cplext tsl bl" "256 < length lb" "lb ! 256 \<noteq> 0" "flag st = 0"
    "at_bits r st (code_at lb 256 rest) a" "16 \<le> a"
  shows "\<exists>r' st'. decode_entry env (tsl, 0, 0) tbd bl bd r st =
      (case end_of_block r' st' of None \<Rightarrow> None | Some (r2, st2) \<Rightarrow> Some (Inr (True, r2), st2)) \<and>
    moves st st' \<and> flag st' = 0 \<and> at_bits r' st' rest (a - lb ! 256)"
proof -
  obtain x where x: "huft_path tsl 0 bl (code_at lb 256 rest) x (lb ! 256) 16" "h_e x = 15"
    using tables_path [OF assms(1-3), of rest] by (auto simp: symbol_entry_def)
  have bl: "bl \<le> 16" using assms(1) by (simp add: tables_for_def)
  have hx: "h_e x \<le> 16" using x(2) by simp
  from length_code_ready [OF assms(4,5,6) bl x(1) hx] obtain r1 st1 where
    l: "length_code (tsl, 0, 0) bl r st = Some (Inr r1, st1)" "arrived tsl x r1" "moves st st1" "flag st1 = 0"
      "at_bits r1 st1 rest (a - lb ! 256)" unfolding code_at_div2 by blast
  have r1: "r_e r1 = 15" using l(2) x(2) by (simp add: arrived_def)
  have "decode_entry env (tsl, 0, 0) tbd bl bd r st =
      (case end_of_block r1 st1 of None \<Rightarrow> None | Some (r2, st2) \<Rightarrow> Some (Inr (True, r2), st2))"
    using l(1) r1 by (auto simp: decode_entry_def next_step_def go_on_def split: option.splits)
  then show ?thesis using l(3-5) by blast
qed

section \<open>A block\<close>

definition put_items :: "page_item list \<Rightarrow> inflater \<Rightarrow> inflater" where
  "put_items is st = foldl (\<lambda>st i. put_item i st) st is"

lemma put_items_simps [simp]: "put_items [] st = st" "put_items (i # is) st = put_items is (put_item i st)"
  by (simp_all add: put_items_def)

lemma moves_put_items: "moves st st' \<Longrightarrow> moves (put_items is st) (put_items is st')"
  by (induction "is" arbitrary: st st') (simp_all add: put_item_def moves_put)

lemma codes_loop_ready:
  assumes tl: "tables_for lb 257 cplens cplext tsl bl" and td: "tables_for db 0 cpdist cpdext tsd bd"
    and eob: "256 < length lb" "lb ! 256 \<noteq> 0"
  shows "flag st = 0 \<Longrightarrow> at_bits r st (encode_items lb db is rest) a \<Longrightarrow> items_bits lb db is + 16 \<le> a \<Longrightarrow>
    \<forall>i\<in>set is. item_ok lb db i \<Longrightarrow> short_runs (r_loop_flag r) is \<Longrightarrow> buffers_ok st \<Longrightarrow> lit st + length is < LIT_BUFSIZE \<Longrightarrow>
    \<exists>r' st'. codes_loop env (tsl, 0, 0) (tsd, 0, 0) bl bd r st =
        (case end_of_block r' st' of None \<Rightarrow> None | Some (r2, st2) \<Rightarrow> Some (Inr r2, st2)) \<and>
      moves (put_items is st) st' \<and> flag st' = 0 \<and> at_bits r' st' rest (a - items_bits lb db is)"
proof (induction "is" arbitrary: r st a)
  case Nil
  have at: "at_bits r st (code_at lb 256 rest) a" and a: "16 \<le> a" using Nil.prems by simp_all
  from decode_end [OF tl eob Nil.prems(1) at a, of env "(tsd, 0, 0)" bd] obtain r' st' where
    d: "decode_entry env (tsl, 0, 0) (tsd, 0, 0) bl bd r st =
      (case end_of_block r' st' of None \<Rightarrow> None | Some (r2, st2) \<Rightarrow> Some (Inr (True, r2), st2))"
    "moves st st'" "flag st' = 0" "at_bits r' st' rest (a - lb ! 256)" by blast
  have "codes_loop env (tsl, 0, 0) (tsd, 0, 0) bl bd r st =
      (case end_of_block r' st' of None \<Rightarrow> None | Some (r2, st2) \<Rightarrow> Some (Inr r2, st2))"
    by (subst codes_loop.simps) (auto simp: d(1) split: option.splits)
  then show ?case using d(2-) by auto
next
  case (Cons i "is")
  have "\<exists>r1 st1. decode_entry env (tsl, 0, 0) (tsd, 0, 0) bl bd r st = Some (Inr (False, r1), st1) \<and>
    moves (put_item i st) st1 \<and> flag st1 = 0 \<and> r_loop_flag r1 = item_run (r_loop_flag r) i \<and>
    at_bits r1 st1 (encode_items lb db is rest) (a - item_bits lb db i)"
  proof (cases i)
    case (Literal c)
    have c: "item_ok lb db (Literal c)" "at_bits r st (code_at lb c (encode_items lb db is rest)) a" "16 \<le> a" "lit st + 1 < LIT_BUFSIZE"
      using Cons.prems Literal by simp_all
    from decode_literal [OF tl c(1) Cons.prems(1) c(2,3) Cons.prems(6) c(4), of env "(tsd, 0, 0)" bd] show ?thesis
      unfolding Literal item_bits.simps item_run.simps by blast
  next
    case (Copy sy x dy y)
    have c: "item_ok lb db (Copy sy x dy y)" "item_bits lb db (Copy sy x dy y) + 16 \<le> a" "lit st + 1 < LIT_BUFSIZE"
      "at_bits r st (code_at lb sy (x + 2 ^ (cplext ! (sy - 257)) * code_at db dy (y + 2 ^ (cpdext ! dy) * encode_items lb db is rest))) a"
      using Cons.prems Copy by simp_all
    have run: "item_run (r_loop_flag r) (Copy sy x dy y) \<le> 50" using Cons.prems(5) Copy by (simp split: if_splits)
    from decode_copy [OF tl td c(1) Cons.prems(1) c(4,2) Cons.prems(6) c(3) run, of env] show ?thesis
      unfolding Copy by blast
  qed
  then obtain r1 st1 where d: "decode_entry env (tsl, 0, 0) (tsd, 0, 0) bl bd r st = Some (Inr (False, r1), st1)"
    "moves (put_item i st) st1" "flag st1 = 0" "r_loop_flag r1 = item_run (r_loop_flag r) i"
    "at_bits r1 st1 (encode_items lb db is rest) (a - item_bits lb db i)" by blast
  have ib: "items_bits lb db (i # is) = item_bits lb db i + items_bits lb db is" by (cases i) simp_all
  have a: "items_bits lb db is + 16 \<le> a - item_bits lb db i" using Cons.prems(3) ib by simp
  have rn: "short_runs (r_loop_flag r1) is" using Cons.prems(5) d(4) by (cases i) (simp_all split: if_splits)
  have bf: "buffers_ok st1" "lit st1 + length is < LIT_BUFSIZE"
    using Cons.prems(6,7) buffers_moves [OF d(2)] moves_fields(1) [OF d(2)] by simp_all
  have oks: "\<forall>i\<in>set is. item_ok lb db i" using Cons.prems(4) by simp
  from Cons.IH [OF d(3,5) a oks rn bf] obtain r' st' where q: "codes_loop env (tsl, 0, 0) (tsd, 0, 0) bl bd r1 st1 =
        (case end_of_block r' st' of None \<Rightarrow> None | Some (r2, st2) \<Rightarrow> Some (Inr r2, st2))"
    "moves (put_items is st1) st'" "flag st' = 0" "at_bits r' st' rest (a - item_bits lb db i - items_bits lb db is)" by blast
  have "codes_loop env (tsl, 0, 0) (tsd, 0, 0) bl bd r st = codes_loop env (tsl, 0, 0) (tsd, 0, 0) bl bd r1 st1"
    by (subst codes_loop.simps) (simp add: d(1))
  moreover have "moves (put_items (i # is) st) st'"
    using moves_trans [OF moves_put_items [OF d(2)] q(2)] by simp
  ultimately show ?case using q(1,3,4) ib by (intro exI [of _ r'] exI [of _ st']) simp
qed

section \<open>The tables of a code\<close>

lemma rev_bits_rev_bits: "rev_bits k (rev_bits k c) = c mod 2 ^ k"
proof (induction k arbitrary: c)
  case (Suc k)
  have "rev_bits k (rev_bits (Suc k) c) = rev_bits k (rev_bits k (c div 2))"
    using rev_bits_mod [of k "rev_bits (Suc k) c"] rev_bits_less [of k "c div 2"] by simp
  moreover have "rev_bits (Suc k) c div 2 ^ k = c mod 2"
    using rev_bits_less [of k "c div 2"] by simp
  ultimately have "rev_bits (Suc k) (rev_bits (Suc k) c) = 2 * (c div 2 mod 2 ^ k) + c mod 2"
    using Suc [of "c div 2"] by (simp add: rev_bits_Suc_last [of k "rev_bits (Suc k) c"] del: rev_bits.simps)
  then show ?case by (simp add: mod_mult2_eq)
qed simp

lemma kraft_part: "(\<Sum>q\<in>{1..k}. count_list b q * 2 ^ (BMAX - q)) \<le> kraft_sum b"
proof (induction b)
  case (Cons a b)
  have "(\<Sum>q\<in>{1..k}. count_list (a # b) q * 2 ^ (BMAX - q)) =
      (\<Sum>q\<in>{1..k}. count_list b q * 2 ^ (BMAX - q) + (if q = a then 2 ^ (BMAX - a) else 0))"
    by (rule sum.cong) simp_all
  also have "\<dots> \<le> (\<Sum>q\<in>{1..k}. count_list b q * 2 ^ (BMAX - q)) + (if a = 0 then 0 else 2 ^ (BMAX - a))"
    by (simp add: sum.distrib)
  finally show ?case using Cons by (simp add: kraft_sum_def split: if_splits)
qed simp

lemma canonical_code_less:
  assumes "kraft_sum b \<le> 2 ^ BMAX" "sy < length b" "b ! sy \<noteq> 0" "b ! sy \<le> BMAX"
  shows "canonical_code b sy < 2 ^ (b ! sy)"
proof -
  let ?k = "b ! sy"
  have "canonical_code b sy + 1 \<le> first_code b ?k + count_list b ?k"
    using of_length_le [of "Suc sy" b ?k] assms(2) by (simp add: canonical_code_def of_length_def)
  also have "\<dots> = (\<Sum>q\<in>{1..?k}. count_list b q * 2 ^ (?k - q))"
  proof -
    have "{1..?k} = insert ?k {1..<?k}" using assms(3) by auto
    then show ?thesis by (simp add: first_code_sum)
  qed
  finally have "(canonical_code b sy + 1) * 2 ^ (BMAX - ?k) \<le> (\<Sum>q\<in>{1..?k}. count_list b q * 2 ^ (?k - q)) * 2 ^ (BMAX - ?k)"
    by (rule mult_le_mono1)
  also have "\<dots> = (\<Sum>q\<in>{1..?k}. count_list b q * 2 ^ (BMAX - q))"
    unfolding sum_distrib_right using assms(4) by (intro sum.cong) (auto simp: mult.assoc simp flip: power_add)
  also have "\<dots> \<le> 2 ^ ?k * 2 ^ (BMAX - ?k)"
    using kraft_part [of b ?k] assms(1,4) by (simp flip: power_add)
  finally have "canonical_code b sy + 1 \<le> 2 ^ ?k" by (simp only: mult_le_cancel2) simp
  then show ?thesis by simp
qed

lemma code_at_bits:
  assumes "kraft_sum b \<le> 2 ^ BMAX" "sy < length b" "b ! sy \<noteq> 0" "b ! sy \<le> BMAX"
  shows "rev_bits (b ! sy) (code_at b sy rest) = canonical_code b sy"
proof -
  let ?k = "b ! sy"
  have "rev_bits ?k (code_at b sy rest) = rev_bits ?k (rev_bits ?k (canonical_code b sy))"
    using rev_bits_mod [of ?k "code_at b sy rest"] rev_bits_less [of ?k "canonical_code b sy"] by (simp add: code_at_def)
  then show ?thesis using canonical_code_less [OF assms] by (simp add: rev_bits_rev_bits)
qed

definition one_level :: "nat list \<Rightarrow> nat \<Rightarrow> nat list \<Rightarrow> nat list \<Rightarrow> huft_tables \<Rightarrow> nat \<Rightarrow> bool" where
  \<comment> \<open>the root table decodes the code of the lengths \<open>b\<close>\<close>
  "one_level b s d es ts l \<longleftrightarrow> (\<forall>sy<length b. b ! sy \<noteq> 0 \<longrightarrow> (\<forall>rest. \<exists>x.
     huft_entry ts 0 (code_at b sy rest mod 2 ^ l) = Some x \<and> h_b x = b ! sy \<and> h_b x \<le> l \<and> (h_e x, h_v x) = symbol_entry s d es sy))"

lemma root_path: "huft_path ts t m b x n m \<Longrightarrow> huft_entry ts t (b mod 2 ^ m) = Some x \<and> h_b x = n \<and> n \<le> m"
  by (cases rule: huft_path.cases) auto

lemma make_tables_ready:
  assumes "length b \<le> N_MAX" "\<forall>k\<in>set b. k \<le> BMAX" "\<exists>k\<in>set b. k \<noteq> 0" "0 < m"
    "kraft_sum b \<le> 2 ^ BMAX" "kraft_sum b = 2 ^ BMAX \<or> 0 \<notin> set b"
    "(\<forall>k\<in>set b. k < 2 * m) \<or> kraft_sum b = 2 ^ BMAX \<and> length b \<le> 2 ^ m"
    "\<forall>i<length b. s \<le> i \<longrightarrow> e = Some es \<and> i - s \<le> 30 \<and> i - s < length es \<and> i - s < length d"
    "\<forall>x\<in>set es. x \<le> 16 \<or> x = 99"
  shows "\<exists>ret ts l. make_tables b s d e p m = Some (ret, Some (ts, 0, 0), l) \<and> ret \<le> 1 \<and> (kraft_sum b = 2 ^ BMAX \<longrightarrow> ret = 0) \<and>
    l \<le> 16 \<and> tables_for b s d es ts l \<and> ((\<forall>k\<in>set b. k \<le> m) \<longrightarrow> one_level b s d es ts l)"
proof -
  from huft_build_tables [OF assms, of "map_option fst p"] obtain ret ts l where
    t: "huft_build b s d e (map_option fst p) m = Some (ret, Some ts, l)" "ret \<le> 1" "kraft_sum b = 2 ^ BMAX \<longrightarrow> ret = 0" "l \<le> BMAX"
    and symbols: "\<And>sy bits. sy < length b \<Longrightarrow> b ! sy \<noteq> 0 \<Longrightarrow> rev_bits (b ! sy) bits = canonical_code b sy \<Longrightarrow>
      \<exists>x. huft_path ts 0 l bits x (b ! sy) (if \<forall>k\<in>set b. k \<le> m then l else BMAX) \<and> (h_e x, h_v x) = symbol_entry s d es sy"
    by (elim exE conjE) (rule that, assumption, assumption, assumption, assumption, blast)
  let ?room = "if \<forall>k\<in>set b. k \<le> m then l else BMAX"
  have sym: "\<exists>x. huft_path ts 0 l (code_at b sy rest) x (b ! sy) ?room \<and> (h_e x, h_v x) = symbol_entry s d es sy"
    if sy: "sy < length b" "b ! sy \<noteq> 0" for sy rest
  proof -
    have "b ! sy \<le> BMAX" using assms(2) sy(1) by simp
    from symbols [OF sy code_at_bits [OF assms(5) sy this, of rest]] show ?thesis .
  qed
  have room: "?room \<le> 16" "l \<le> 16" using t(4) by (simp_all add: BMAX_def)
  have "tables_for b s d es ts l"
    unfolding tables_for_def using sym path_room [OF _ room(1)] room(2) by blast
  moreover have "one_level b s d es ts l" if all: "\<forall>k\<in>set b. k \<le> m"
    unfolding one_level_def
  proof (intro allI impI)
    fix sy rest assume sy: "sy < length b" "b ! sy \<noteq> 0"
    from sym [OF sy, of rest] obtain x where x: "huft_path ts 0 l (code_at b sy rest) x (b ! sy) l" "(h_e x, h_v x) = symbol_entry s d es sy"
      using all by auto
    then show "\<exists>x. huft_entry ts 0 (code_at b sy rest mod 2 ^ l) = Some x \<and> h_b x = b ! sy \<and> h_b x \<le> l \<and> (h_e x, h_v x) = symbol_entry s d es sy"
      using root_path [OF x(1)] x(2) by (intro exI [of _ x]) simp
  qed
  ultimately show ?thesis using t(1-3) room(2) by (simp add: make_tables_def)
qed

section \<open>The entries in the buffers\<close>

definition entries :: "inflater \<Rightarrow> lz_entry list" where
  "entries st = take (lit st) (zip (litter_buf st) (dist_buf st))"

definition same_page :: "inflater \<Rightarrow> inflater \<Rightarrow> bool" where
  \<comment> \<open>what only the search of a page and the loop over the blocks change\<close>
  "same_page st st' \<longleftrightarrow> g_win st' = g_win st \<and> g_st st' = g_st st \<and> sent st' = sent st \<and> blocked st' = blocked st \<and>
     he st' = he st \<and> blocks st' = blocks st \<and> current_block st' = current_block st \<and> inbuf st' = inbuf st \<and> insize st' = insize st \<and>
     Head_size st' = Head_size st \<and> length (hll st') = length (hll st)"

lemma same_page_refl [simp]: "same_page st st"
  by (simp add: same_page_def)

lemma same_page_trans [trans]: "same_page a b \<Longrightarrow> same_page b c \<Longrightarrow> same_page a c"
  by (simp add: same_page_def)

lemma moves_same_page: "moves st st' \<Longrightarrow> same_page st st'"
  by (auto simp: moves_def same_page_def)

lemma moves_chunk: "moves st st' \<Longrightarrow> chunk_size st' = chunk_size st \<and> hflag st' = hflag st \<and> Head_size st' = Head_size st"
  by (auto simp: moves_def)

lemma same_page_block_data: "same_page st st' \<Longrightarrow> block_data st' = block_data st"
  by (simp add: same_page_def block_data_def split: option.split)

lemma block_data_tables [simp]:
  "block_data (st\<lparr>htl := x\<rparr>) = block_data st" "block_data (st\<lparr>htd := x\<rparr>) = block_data st"
  "block_data (st\<lparr>he := e\<rparr>) = block_data st" "block_data (st\<lparr>ht := t\<rparr>) = block_data st"
  "block_data (st\<lparr>inptr := i\<rparr>) = block_data st" "block_data (st\<lparr>flag := f\<rparr>) = block_data st"
  "block_data (st\<lparr>bb := b\<rparr>) = block_data st" "block_data (st\<lparr>bk := k\<rparr>) = block_data st"
  by (simp_all add: block_data_def split: option.split)

lemma moves_entries: "moves st st' \<Longrightarrow> entries st' = entries st"
  by (simp add: entries_def moves_fields)

lemma put_item_same_page [simp]: "same_page st (put_item i st)" "chunk_size (put_item i st) = chunk_size st" "insize (put_item i st) = insize st"
  by (simp_all add: put_item_def put_lit_at_def put_dist_at_def same_page_def)

lemma entries_put_item:
  assumes "buffers_ok st" "lit st < LIT_BUFSIZE"
  shows "entries (put_item i st) = entries st @ [item_entry i]"
proof -
  let ?z = "zip (litter_buf st) (dist_buf st)"
  have n: "lit st < length ?z" "dist st = lit st" using assms by (simp_all add: buffers_ok_def)
  have "entries (put_item i st) = take (Suc (lit st)) (?z[lit st := item_entry i])"
    using n(2) by (simp add: entries_def put_item_def put_lit_at_def put_dist_at_def update_zip)
  also have "\<dots> = take (lit st) (?z[lit st := item_entry i]) @ [item_entry i]"
    using n(1) by (simp add: take_Suc_conv_app_nth del: take_update_cancel length_zip)
  finally show ?thesis by (simp add: entries_def)
qed

lemma put_items_ready:
  "buffers_ok st \<Longrightarrow> lit st + length is \<le> LIT_BUFSIZE \<Longrightarrow>
    buffers_ok (put_items is st) \<and> lit (put_items is st) = lit st + length is \<and>
    entries (put_items is st) = entries st @ map item_entry is \<and> same_page st (put_items is st) \<and>
    chunk_size (put_items is st) = chunk_size st"
proof (induction "is" arbitrary: st)
  case Nil
  then show ?case by simp
next
  case (Cons i "is")
  note same_page_trans [OF put_item_same_page(1), of i st]
  then show ?case
    using Cons.IH [of "put_item i st"] Cons.prems entries_put_item [of st i] by auto
qed

lemma keyword_match_entries:
  assumes "n \<le> length es"
  shows "keyword_match env M utos es n win st = keyword_match env M utos (take n es) n win st"
proof -
  have "acch M es 0 n k win st = acch M (take n es) 0 n k win st" for k using assms by (simp add: acch_def)
  moreover have "decodeing es (if n < i then n else i) = decodeing (take n es) (if n < i then n else i)" for i
    by (simp add: decodeing_def min_def)
  ultimately show ?thesis by (simp add: keyword_match_def Let_def cong: if_cong)
qed

lemma match_page_entries:
  assumes "buffers_ok st" "lit st \<le> LIT_BUFSIZE"
  shows "match_page env st =
    (case keyword_match (ie_page env) (ie_M env) (ie_utos env) (entries st) (lit st) (g_win st) (g_st st) of
       None \<Rightarrow> None
     | Some (found, lines, win, stat) \<Rightarrow> Some (found, st\<lparr>g_win := win, g_st := stat, sent := sent st @ lines\<rparr>))"
proof -
  have "lit st \<le> length (zip (litter_buf st) (dist_buf st))" using assms by (simp add: buffers_ok_def)
  then show ?thesis
    unfolding match_page_def entries_def by (simp add: keyword_match_entries [of "lit st" "zip _ _"] split: option.split)
qed

lemma end_of_block_ready:
  assumes "block_data st \<noteq> None" "at_bits r st rest a"
  shows "\<exists>r' st'. end_of_block r st = Some (r', st') \<and> hflag st' = 0 \<and> flag st' = flag st \<and> same_page st st' \<and>
    lit st' = lit st \<and> buffers_ok st' = buffers_ok st \<and> entries st' = entries st \<and>
    (if u32 (chunk_size st) = insize st then r_b r' = 0 \<and> r_k r' = 0 \<and> inptr st' = insize st' \<and> chunk_size st' = 0
     else at_bits r' st' rest a \<and> chunk_size st' = chunk_size st)"
proof (cases "u32 (chunk_size st) = insize st")
  case True
  have "s32 (chunk_size st - int (insize st)) = 0"
  proof -
    have "int (insize st) = chunk_size st mod 2 ^ 32" using True by (simp add: u32_def)
    then have "chunk_size st - int (insize st) = 2 ^ 32 * (chunk_size st div 2 ^ 32)" by (simp add: minus_mod_eq_mult_div)
    then show ?thesis by (simp add: s32_def)
  qed
  then show ?thesis using assms(1) True
    by (auto simp: end_of_block_def Let_def block_data_def same_page_def buffers_ok_def entries_def split: option.splits)
next
  case False
  let ?st = "st\<lparr>hflag := 0, htt := None, htl := None, htd := None\<rparr>"
  have "at_bits r ?st rest a" "at_bits r (?st\<lparr>Http_flag := False, text_flag := False\<rparr>) rest a"
    by (rule at_bits_moves [OF assms(2)]; simp)+
  then show ?thesis using assms(1) False
    by (auto simp: end_of_block_def Let_def block_data_def same_page_def buffers_ok_def entries_def split: option.splits)
qed

section \<open>The codes of a block and the search\<close>

definition read_on :: "inflater \<Rightarrow> nat \<Rightarrow> nat \<Rightarrow> inflater \<Rightarrow> bool" where
  \<comment> \<open>at the end of a block: when the segment ends with its chunk, what is left of it is dropped\<close>
  "read_on st rest a st' \<longleftrightarrow>
     (if u32 (chunk_size st) = insize st then bb st' = 0 \<and> bk st' = 0 \<and> inptr st' = insize st' \<and> chunk_size st' = 0
      else at_bits \<lparr>r_b = bb st', r_k = bk st'\<rparr> st' rest a \<and> chunk_size st' = chunk_size st)"

lemma inflate_codes_ready:
  assumes tl: "tables_for lb 257 cplens cplext tsl bl" and td: "tables_for db 0 cpdist cpdext tsd bd"
    and eob: "256 < length lb" "lb ! 256 \<noteq> 0" and f: "flag st = 0"
    and at: "at_bits \<lparr>r_b = bb st, r_k = bk st\<rparr> st (encode_items lb db is rest) a" "items_bits lb db is + 16 \<le> a"
    and ok: "\<forall>i\<in>set is. item_ok lb db i" "short_runs 0 is" and buf: "buffers_ok st" "lit st + length is < LIT_BUFSIZE"
    and blk: "block_data st \<noteq> None"
  shows "\<exists>st'. inflate_codes env (tsl, 0, 0) (tsd, 0, 0) bl bd st = Some (0, st') \<and> buffers_ok st' \<and>
    lit st' = lit st + length is \<and> entries st' = entries st @ map item_entry is \<and> hflag st' = 0 \<and> flag st' = 0 \<and>
    same_page st st' \<and> read_on st rest (a - items_bits lb db is) st'"
proof -
  let ?r = "\<lparr>r_b = bb st, r_k = bk st, r_e = 0, r_t = None, r_loop_flag = 0, r_loop = 0\<rparr>"
  have at0: "at_bits ?r st (encode_items lb db is rest) a" by (rule at_bits_moves [OF at(1)]) simp_all
  have run: "short_runs (r_loop_flag ?r) is" using ok(2) by simp
  from codes_loop_ready [OF tl td eob f at0 at(2) ok(1) run buf, of env] obtain r1 st1 where
    l: "codes_loop env (tsl, 0, 0) (tsd, 0, 0) bl bd ?r st =
        (case end_of_block r1 st1 of None \<Rightarrow> None | Some (r2, st2) \<Rightarrow> Some (Inr r2, st2))"
      "moves (put_items is st) st1" "flag st1 = 0" "at_bits r1 st1 rest (a - items_bits lb db is)" by blast
  have "lit st + length is \<le> LIT_BUFSIZE" using buf(2) by simp
  note pi = put_items_ready [OF buf(1) this]
  have sp: "same_page st st1" using same_page_trans [of st "put_items is st" st1] pi moves_same_page [OF l(2)] by simp
  then have "block_data st1 \<noteq> None" using blk by (simp add: same_page_block_data)
  from end_of_block_ready [OF this l(4)] obtain r2 st2 where e: "end_of_block r1 st1 = Some (r2, st2)" "hflag st2 = 0" "flag st2 = flag st1"
    "same_page st1 st2" "lit st2 = lit st1" "buffers_ok st2 = buffers_ok st1" "entries st2 = entries st1"
    "if u32 (chunk_size st1) = insize st1 then r_b r2 = 0 \<and> r_k r2 = 0 \<and> inptr st2 = insize st2 \<and> chunk_size st2 = 0
     else at_bits r2 st2 rest (a - items_bits lb db is) \<and> chunk_size st2 = chunk_size st1" by blast
  let ?st = "st2\<lparr>bb := r_b r2, bk := r_k r2, hbb := r_b r2, hbk := r_k r2\<rparr>"
  have m: "bl \<le> 16" "bd \<le> 16" using tl td by (simp_all add: tables_for_def)
  have "inflate_codes env (tsl, 0, 0) (tsd, 0, 0) bl bd st = Some (0, ?st)"
    using f l(1) e(1) by (simp add: inflate_codes_def mask_bits_some [OF m(1)] mask_bits_some [OF m(2)])
  moreover have "same_page st ?st"
    using same_page_trans [OF sp e(4)] by (simp add: same_page_def)
  moreover have "read_on st rest (a - items_bits lb db is) ?st"
  proof (cases "u32 (chunk_size st) = insize st")
    case False
    have "chunk_size st1 = chunk_size st" "insize st1 = insize st" using pi moves_chunk [OF l(2)] sp by (simp_all add: same_page_def)
    then have "at_bits r2 st2 rest (a - items_bits lb db is)" and c: "chunk_size st2 = chunk_size st" using False e(8) by simp_all
    from this(1) have "at_bits \<lparr>r_b = r_b r2, r_k = r_k r2\<rparr> ?st rest (a - items_bits lb db is)" by (rule at_bits_moves) simp_all
    then show ?thesis using False c by (simp add: read_on_def)
  next
    case True
    have "chunk_size st1 = chunk_size st" "insize st1 = insize st" using pi moves_chunk [OF l(2)] sp by (simp_all add: same_page_def)
    then show ?thesis using True e(8) by (simp add: read_on_def)
  qed
  moreover have "entries ?st = entries st2" "buffers_ok ?st = buffers_ok st2" by (simp_all add: entries_def buffers_ok_def)
  moreover have "entries st2 = entries st @ map item_entry is" "buffers_ok st2" "lit st2 = lit st + length is"
    using pi e(5-7) buffers_moves [OF l(2)] moves_entries [OF l(2)] moves_fields(1) [OF l(2)] by simp_all
  ultimately show ?thesis using e(2,3) l(3) by (intro exI [of _ ?st]) simp
qed

definition page_result :: "inflate_env \<Rightarrow> inflater \<Rightarrow> page_item list \<Rightarrow> nat \<Rightarrow> nat \<Rightarrow> (nat \<times> inflater) option \<Rightarrow> bool" where
  \<comment> \<open>a block has been added to the page, and the page has been searched\<close>
  "page_result env st is rest a res \<longleftrightarrow>
     (case keyword_match (ie_page env) (ie_M env) (ie_utos env) (entries st @ map item_entry is) (lit st + length is) (g_win st) (g_st st) of
        None \<Rightarrow> res = None
      | Some (found, lines, win, stat) \<Rightarrow> \<exists>st'. res = Some (if found then 1 else 0, st') \<and>
          sent st' = sent st @ lines \<and> blocked st' = (blocked st \<or> found) \<and> g_win st' = win \<and> g_st st' = stat \<and>
          entries st' = entries st @ map item_entry is \<and> lit st' = lit st + length is \<and> buffers_ok st' \<and>
          hflag st' = 0 \<and> flag st' = 0 \<and> he st' = he st \<and> inbuf st' = inbuf st \<and> insize st' = insize st \<and>
          blocks st' = blocks st \<and> current_block st' = current_block st \<and> Head_size st' = Head_size st \<and> length (hll st') = length (hll st) \<and> read_on st rest a st')"

lemma decode_page_ready:
  assumes tl: "tables_for lb 257 cplens cplext tsl bl" and td: "tables_for db 0 cpdist cpdext tsd bd"
    and ptr: "htl st = Some (tsl, 0, 0)" "htd st = Some (tsd, 0, 0)"
    and block: "256 < length lb" "lb ! 256 \<noteq> 0" "flag st = 0"
      "at_bits \<lparr>r_b = bb st, r_k = bk st\<rparr> st (encode_items lb db is rest) a" "items_bits lb db is + 16 \<le> a"
      "\<forall>i\<in>set is. item_ok lb db i" "short_runs 0 is" "buffers_ok st" "lit st + length is < LIT_BUFSIZE" "block_data st \<noteq> None"
  shows "page_result env st is rest (a - items_bits lb db is) (decode_page env bl bd st)"
proof -
  from inflate_codes_ready [OF tl td block, of env] obtain st1 where
    c: "inflate_codes env (tsl, 0, 0) (tsd, 0, 0) bl bd st = Some (0, st1)" "buffers_ok st1"
      "lit st1 = lit st + length is" "entries st1 = entries st @ map item_entry is" "hflag st1 = 0" "flag st1 = 0"
      "same_page st st1" "read_on st rest (a - items_bits lb db is) st1" by blast
  have "lit st1 \<le> LIT_BUFSIZE" using c(3) block(9) by simp
  note m = match_page_entries [OF c(2) this, of env]
  let ?m = "keyword_match (ie_page env) (ie_M env) (ie_utos env) (entries st @ map item_entry is) (lit st + length is) (g_win st) (g_st st)"
  have sp: "g_win st1 = g_win st" "g_st st1 = g_st st" "sent st1 = sent st" "blocked st1 = blocked st" "he st1 = he st"
    "inbuf st1 = inbuf st" "insize st1 = insize st" "blocks st1 = blocks st" "current_block st1 = current_block st"
    "Head_size st1 = Head_size st" "length (hll st1) = length (hll st)" using c(7) by (simp_all add: same_page_def)
  show ?thesis
  proof (cases ?m)
    case None
    then show ?thesis using ptr c(1,3,4) m sp by (simp add: page_result_def decode_page_def)
  next
    case (Some q)
    obtain found lines win stat where q: "q = (found, lines, win, stat)" by (cases q)
    let ?st = "st1\<lparr>g_win := win, g_st := stat, sent := sent st @ lines\<rparr>"
    have d: "decode_page env bl bd st = Some (if found then (1, ?st\<lparr>blocked := True\<rparr>) else (0, ?st))"
      using ptr c(1,3-5) m sp Some q by (simp add: decode_page_def)
    have ro: "read_on st rest b (x\<lparr>g_win := win, g_st := stat, sent := lines\<rparr>) = read_on st rest b x"
      "read_on st rest b (x\<lparr>blocked := True\<rparr>) = read_on st rest b x" for b x lines
      by (simp_all add: read_on_def at_bits_def bits_ok_def stream_of_def avail_of_def ready_def)
    show ?thesis
      using c sp d Some q by (cases found) (auto simp: page_result_def ro entries_def buffers_ok_def)
  qed
qed

section \<open>Fixed codes\<close>

definition fixed_distances :: "nat list" where
  "fixed_distances = replicate 30 5"

lemma kraft_append: "kraft_sum (xs @ ys) = kraft_sum xs + kraft_sum ys"
  by (simp add: kraft_sum_def)

lemma kraft_replicate: "k \<noteq> 0 \<Longrightarrow> kraft_sum (replicate n k) = n * 2 ^ (BMAX - k)"
  by (simp add: kraft_sum_def filter_replicate sum_list_replicate)

lemma fixed_lengths_props: "length fixed_lengths = 288" "set fixed_lengths = {7, 8, 9}" "kraft_sum fixed_lengths = 2 ^ BMAX"
  "fixed_lengths ! 256 = 7"
proof -
  show "kraft_sum fixed_lengths = 2 ^ BMAX"
    unfolding fixed_lengths_def kraft_append by (simp add: kraft_replicate BMAX_def)
  show "set fixed_lengths = {7, 8, 9}" by (auto simp: fixed_lengths_def)
  show "length fixed_lengths = 288" "fixed_lengths ! 256 = 7" by (simp_all add: fixed_lengths_def nth_append)
qed

lemma fixed_tables:
  "\<exists>ts l. make_tables fixed_lengths 257 cplens (Some cplext) p 7 = Some (0, Some (ts, 0, 0), l) \<and>
    tables_for fixed_lengths 257 cplens cplext ts l"
proof -
  note f = fixed_lengths_props
  have l: "length fixed_lengths \<le> N_MAX" "\<forall>k\<in>set fixed_lengths. k \<le> BMAX" "\<exists>k\<in>set fixed_lengths. k \<noteq> 0" "(0 :: nat) < 7"
    "(\<forall>k\<in>set fixed_lengths. k < 2 * 7) \<or> kraft_sum fixed_lengths = 2 ^ BMAX \<and> length fixed_lengths \<le> 2 ^ 7"
    by (simp_all add: f(1,2) N_MAX_def BMAX_def)
  have v: "\<forall>i<length fixed_lengths. 257 \<le> i \<longrightarrow>
      Some cplext = Some cplext \<and> i - 257 \<le> 30 \<and> i - 257 < length cplext \<and> i - 257 < length cplens"
  proof -
    have "length cplext = 31" "length cplens = 31" by (simp_all add: cplext_def cplens_def)
    then show ?thesis by (auto simp: f(1))
  qed
  have e: "\<forall>x\<in>set cplext. x \<le> 16 \<or> x = 99" by (simp add: cplext_def)
  from make_tables_ready [OF l(1-4) eq_imp_le [OF f(3)] disjI1 [OF f(3)] l(5) v e, of p] f(3) show ?thesis by blast
qed

lemma distance_tables:
  "\<exists>ret ts l. make_tables (replicate 30 5) 0 cpdist (Some cpdext) p 5 = Some (ret, Some (ts, 0, 0), l) \<and> ret \<le> 1 \<and>
    tables_for fixed_distances 0 cpdist cpdext ts l"
proof -
  let ?b = "replicate 30 (5 :: nat)"
  have k: "kraft_sum ?b \<le> 2 ^ BMAX" by (subst kraft_replicate) (simp_all add: BMAX_def)
  have l: "length ?b \<le> N_MAX" "\<forall>k\<in>set ?b. k \<le> BMAX" "\<exists>k\<in>set ?b. k \<noteq> 0" "(0 :: nat) < 5"
    "kraft_sum ?b = 2 ^ BMAX \<or> 0 \<notin> set ?b"
    "(\<forall>k\<in>set ?b. k < 2 * 5) \<or> kraft_sum ?b = 2 ^ BMAX \<and> length ?b \<le> 2 ^ 5"
    by (simp_all add: N_MAX_def BMAX_def)
  have v: "\<forall>i<length ?b. 0 \<le> i \<longrightarrow> Some cpdext = Some cpdext \<and> i - 0 \<le> 30 \<and> i - 0 < length cpdext \<and> i - 0 < length cpdist"
    by (simp add: cpdext_def cpdist_def)
  have e: "\<forall>x\<in>set cpdext. x \<le> 16 \<or> x = 99" by (simp add: cpdext_def)
  from make_tables_ready [OF l(1-4) k l(5,6) v e, of p] show ?thesis unfolding fixed_distances_def by blast
qed

lemma page_result_tables: "page_result env (st\<lparr>htl := x, htd := y\<rparr>) is rest a res = page_result env st is rest a res"
  by (simp add: page_result_def entries_def read_on_def split: option.split)

lemma inflate_fixed_ready:
  assumes "flag st = 0" "at_bits \<lparr>r_b = bb st, r_k = bk st\<rparr> st (encode_items fixed_lengths fixed_distances is rest) a"
    "items_bits fixed_lengths fixed_distances is + 16 \<le> a" "\<forall>i\<in>set is. item_ok fixed_lengths fixed_distances i" "short_runs 0 is"
    "buffers_ok st" "lit st + length is < LIT_BUFSIZE" "block_data st \<noteq> None"
  shows "page_result env st is rest (a - items_bits fixed_lengths fixed_distances is) (inflate_fixed env st)"
proof -
  obtain tsl bl where tl: "make_tables fixed_lengths 257 cplens (Some cplext) (htl st) 7 = Some (0, Some (tsl, 0, 0), bl)"
    "tables_for fixed_lengths 257 cplens cplext tsl bl" using fixed_tables by blast
  obtain ret tsd bd where td: "make_tables (replicate 30 5) 0 cpdist (Some cpdext) (htd st) 5 = Some (ret, Some (tsd, 0, 0), bd)"
    "ret \<le> 1" "tables_for fixed_distances 0 cpdist cpdext tsd bd" using distance_tables by blast
  let ?st = "st\<lparr>htl := Some (tsl, 0, 0), htd := Some (tsd, 0, 0)\<rparr>"
  have f: "inflate_fixed env st = decode_page env bl bd ?st"
    using tl(1) td(1,2) by (simp add: inflate_fixed_def)
  have at: "at_bits \<lparr>r_b = bb ?st, r_k = bk ?st\<rparr> ?st (encode_items fixed_lengths fixed_distances is rest) a"
    by (rule at_bits_moves [OF assms(2)]) simp_all
  have st: "htl ?st = Some (tsl, 0, 0)" "htd ?st = Some (tsd, 0, 0)" "256 < length fixed_lengths" "fixed_lengths ! 256 \<noteq> 0" "flag ?st = 0"
    "buffers_ok ?st" "lit ?st + length is < LIT_BUFSIZE" "block_data ?st \<noteq> None"
    using assms by (simp_all add: fixed_lengths_props buffers_ok_def)
  from decode_page_ready [OF tl(2) td(3) st(1-5) at assms(3-5) st(6-8), of env] show ?thesis
    unfolding f page_result_tables .
qed

section \<open>The header of a block\<close>

lemma take_bits:
  assumes "at_bits r st (x + 2 ^ n * rest) a" "x < 2 ^ n" "n \<le> 16" "n \<le> a"
  shows "\<exists>b k i. need n r st = Some (Inr (r\<lparr>r_b := b, r_k := k\<rparr>), st\<lparr>inptr := i\<rparr>) \<and> b AND (2 ^ n - 1) = x \<and>
    at_bits (dumpbits n (r\<lparr>r_b := b, r_k := k\<rparr>)) (st\<lparr>inptr := i\<rparr>) rest (a - n)"
proof -
  from need_ready [OF assms(1,3,4)] obtain b k i where n: "need n r st = Some (Inr (r\<lparr>r_b := b, r_k := k\<rparr>), st\<lparr>inptr := i\<rparr>)" "n \<le> k"
    "at_bits (r\<lparr>r_b := b, r_k := k\<rparr>) (st\<lparr>inptr := i\<rparr>) (x + 2 ^ n * rest) a" by blast
  have "b AND (2 ^ n - 1) = x" using low_bits [OF n(3), of n] n(2) assms(2) by (simp add: and_mask)
  moreover have "at_bits (dumpbits n (r\<lparr>r_b := b, r_k := k\<rparr>)) (st\<lparr>inptr := i\<rparr>) rest (a - n)"
    using dumpbits_ready [OF n(3), of n] n(2) assms(2) by simp
  ultimately show ?thesis using n(1) by blast
qed

lemma block_header_ready:
  assumes "flag st = 0" "at_bits d st (e + 2 * (t + 4 * rest)) a" "3 \<le> a" "e < 2" "t < 4"
  shows "\<exists>d' i. block_header d st = Some (Inr d', st\<lparr>he := e, ht := t, inptr := i, flag := 0\<rparr>) \<and>
    at_bits d' (st\<lparr>he := e, ht := t, inptr := i, flag := 0\<rparr>) rest (a - 3)"
proof -
  have "at_bits d (st\<lparr>flag := 1\<rparr>) (e + 2 ^ 1 * (t + 4 * rest)) a" by (rule at_bits_moves) (use assms(2) in simp_all)
  moreover have "e < 2 ^ 1" "(1 :: nat) \<le> 16" "1 \<le> a" using assms(3,4) by simp_all
  ultimately obtain b k i where n1: "need 1 d (st\<lparr>flag := 1\<rparr>) = Some (Inr (d\<lparr>r_b := b, r_k := k\<rparr>), st\<lparr>flag := 1, inptr := i\<rparr>)"
    "b AND (2 ^ 1 - 1) = e" "at_bits (dumpbits 1 (d\<lparr>r_b := b, r_k := k\<rparr>)) (st\<lparr>flag := 1, inptr := i\<rparr>) (t + 4 * rest) (a - 1)"
    using take_bits [of d "st\<lparr>flag := 1\<rparr>" e 1 "t + 4 * rest" a] by auto
  let ?d1 = "dumpbits 1 (d\<lparr>r_b := b, r_k := k\<rparr>)" and ?st1 = "st\<lparr>inptr := i, he := e, flag := 2\<rparr>"
  have "at_bits ?d1 (st\<lparr>flag := 1, inptr := i\<rparr>) (t + 2 ^ 2 * rest) (a - 1)" using n1(3) by simp
  then have "at_bits ?d1 ?st1 (t + 2 ^ 2 * rest) (a - 1)" by (rule at_bits_moves) simp_all
  moreover have "t < 2 ^ 2" "(2 :: nat) \<le> 16" "2 \<le> a - 1" using assms(3,5) by simp_all
  ultimately obtain b2 k2 i2 where n2: "need 2 ?d1 ?st1 = Some (Inr (?d1\<lparr>r_b := b2, r_k := k2\<rparr>), ?st1\<lparr>inptr := i2\<rparr>)"
    "b2 AND (2 ^ 2 - 1) = t" "at_bits (dumpbits 2 (?d1\<lparr>r_b := b2, r_k := k2\<rparr>)) (?st1\<lparr>inptr := i2\<rparr>) rest (a - 1 - 2)"
    using take_bits [of ?d1 ?st1 t 2 rest "a - 1"] by blast
  let ?d2 = "dumpbits 2 (?d1\<lparr>r_b := b2, r_k := k2\<rparr>)" and ?st2 = "st\<lparr>he := e, ht := t, inptr := i2, flag := 0\<rparr>"
  have "a - 1 - 2 = a - 3" by simp
  with n2(3) have "at_bits ?d2 (?st1\<lparr>inptr := i2\<rparr>) rest (a - 3)" by (simp only:)
  then have at: "at_bits ?d2 ?st2 rest (a - 3)" by (rule at_bits_moves) simp_all
  have "?st1\<lparr>inptr := i2, flag := 0, ht := t\<rparr> = ?st2" by (rule inflater.equality) simp_all
  moreover have "block_header d st = Some (Inr ?d2, ?st1\<lparr>inptr := i2, flag := 0, ht := t\<rparr>)"
    using assms(1) n1(1,2) n2(1,2) by (simp add: block_header_def next_step_def)
  ultimately have "block_header d st = Some (Inr ?d2, ?st2)" by (simp only:)
  then show ?thesis using at by blast
qed

end
