(* ===== verification/InflateDynamic.thy ===== *)
theory InflateDynamic
  imports InflateBlock
begin

text \<open>
  The header of a dynamic block: \<open>inflate_dynamic\<close> reads the code of the lengths, the lengths of both codes in
  this code, and decodes the items with the tables made of them.
\<close>

section \<open>What is kept\<close>

definition keeps :: "inflater \<Rightarrow> inflater \<Rightarrow> bool" where
  \<comment> \<open>the header of a block does not touch the page\<close>
  "keeps st st' \<longleftrightarrow> same_page st st' \<and> lit st' = lit st \<and> dist st' = dist st \<and> litter_buf st' = litter_buf st \<and>
     dist_buf st' = dist_buf st \<and> chunk_size st' = chunk_size st"

lemma keeps_refl [simp]: "keeps st st"
  by (simp add: keeps_def)

lemma keeps_trans [trans]: "keeps a b \<Longrightarrow> keeps b c \<Longrightarrow> keeps a c"
  by (auto simp: keeps_def intro: same_page_trans)

lemma keeps_steps [simp]:
  "keeps st (st'\<lparr>inptr := i\<rparr>) = keeps st st'" "keeps st (st'\<lparr>flag := f\<rparr>) = keeps st st'" "keeps st (st'\<lparr>hj := j\<rparr>) = keeps st st'"
  "keeps st (st'\<lparr>hnl := n\<rparr>) = keeps st st'" "keeps st (st'\<lparr>hnd := n\<rparr>) = keeps st st'" "keeps st (st'\<lparr>hnb := n\<rparr>) = keeps st st'"
  "length ll = length (hll st') \<Longrightarrow> keeps st (st'\<lparr>hll := ll\<rparr>) = keeps st st'" "keeps st (st'\<lparr>htl := t\<rparr>) = keeps st st'" "keeps st (st'\<lparr>htd := t\<rparr>) = keeps st st'"
  "keeps st (st'\<lparr>htt := t\<rparr>) = keeps st st'" "keeps st (st'\<lparr>hbl := n\<rparr>) = keeps st st'" "keeps st (st'\<lparr>hbd := n\<rparr>) = keeps st st'"
  "keeps st (st'\<lparr>bb := n\<rparr>) = keeps st st'" "keeps st (st'\<lparr>bk := n\<rparr>) = keeps st st'"
  "keeps st (st'\<lparr>hbb := n\<rparr>) = keeps st st'" "keeps st (st'\<lparr>hbk := n\<rparr>) = keeps st st'"
  by (simp_all add: keeps_def same_page_def)

lemma stage_ready:
  assumes "at_bits d st (x + 2 ^ n * rest) a" "x < 2 ^ n" "n \<le> 16" "n \<le> a"
  shows "\<exists>b k i. need n d (st\<lparr>flag := f\<rparr>) = Some (Inr (d\<lparr>r_b := b, r_k := k\<rparr>), st\<lparr>flag := f, inptr := i\<rparr>) \<and> b AND (2 ^ n - 1) = x \<and>
    at_bits (dumpbits n (d\<lparr>r_b := b, r_k := k\<rparr>)) (st\<lparr>flag := f, inptr := i\<rparr>) rest (a - n)"
proof -
  have "at_bits d (st\<lparr>flag := f\<rparr>) (x + 2 ^ n * rest) a" by (rule at_bits_moves [OF assms(1)]) simp_all
  from take_bits [OF this assms(2-)] show ?thesis .
qed

lemma dumpbits_dyn [simp]:
  "d_j (dumpbits n d) = d_j d" "d_nl (dumpbits n d) = d_nl d" "d_nd (dumpbits n d) = d_nd d" "d_nb (dumpbits n d) = d_nb d"
  "d_ll (dumpbits n d) = d_ll d" "d_bl (dumpbits n d) = d_bl d"
  for d :: dyn
  by (simp_all add: dumpbits_def)

section \<open>The counts\<close>

lemma dyn_counts_ready:
  assumes "flag st = 0" "at_bits d st (x1 + 2 ^ 5 * (x2 + 2 ^ 5 * (x3 + 2 ^ 4 * rest))) a" "x1 < 2 ^ 5" "x2 < 2 ^ 5" "x3 < 2 ^ 4" "14 \<le> a"
  shows "\<exists>d' st'. dyn_counts d st = Some (Inr d', st') \<and> d_nl d' = 257 + x1 \<and> d_nd d' = 1 + x2 \<and> d_nb d' = 4 + x3 \<and>
    d_j d' = d_j d \<and> d_ll d' = d_ll d \<and> keeps st st' \<and> flag st' = 0 \<and> at_bits d' st' rest (a - 14)"
proof -
  have c: "(5 :: nat) \<le> 16" "(4 :: nat) \<le> 16" "5 \<le> a" "5 \<le> a - 5" "4 \<le> a - 5 - 5" using assms(6) by simp_all
  obtain b1 k1 i1 where n1: "need 5 d (st\<lparr>flag := 3\<rparr>) = Some (Inr (d\<lparr>r_b := b1, r_k := k1\<rparr>), st\<lparr>flag := 3, inptr := i1\<rparr>)"
    "b1 AND (2 ^ 5 - 1) = x1" "at_bits (dumpbits 5 (d\<lparr>r_b := b1, r_k := k1\<rparr>)) (st\<lparr>flag := 3, inptr := i1\<rparr>)
      (x2 + 2 ^ 5 * (x3 + 2 ^ 4 * rest)) (a - 5)" using stage_ready [OF assms(2,3) c(1,3)] by blast
  define d1 where "d1 = (dumpbits 5 (d\<lparr>r_b := b1, r_k := k1\<rparr>))\<lparr>d_nl := 257 + x1\<rparr>"
  define s1 where "s1 = st\<lparr>flag := 3, inptr := i1, flag := 0, hnl := 257 + x1\<rparr>"
  have at1: "at_bits d1 s1 (x2 + 2 ^ 5 * (x3 + 2 ^ 4 * rest)) (a - 5)"
    by (rule at_bits_moves [OF n1(3)]) (simp_all add: d1_def s1_def)
  obtain b2 k2 i2 where n2: "need 5 d1 (s1\<lparr>flag := 4\<rparr>) = Some (Inr (d1\<lparr>r_b := b2, r_k := k2\<rparr>), s1\<lparr>flag := 4, inptr := i2\<rparr>)"
    "b2 AND (2 ^ 5 - 1) = x2" "at_bits (dumpbits 5 (d1\<lparr>r_b := b2, r_k := k2\<rparr>)) (s1\<lparr>flag := 4, inptr := i2\<rparr>) (x3 + 2 ^ 4 * rest) (a - 5 - 5)"
    using stage_ready [OF at1 assms(4) c(1,4)] by blast
  define d2 where "d2 = (dumpbits 5 (d1\<lparr>r_b := b2, r_k := k2\<rparr>))\<lparr>d_nd := 1 + x2\<rparr>"
  define s2 where "s2 = s1\<lparr>flag := 4, inptr := i2, flag := 0, hnd := 1 + x2\<rparr>"
  have at2: "at_bits d2 s2 (x3 + 2 ^ 4 * rest) (a - 5 - 5)"
    by (rule at_bits_moves [OF n2(3)]) (simp_all add: d2_def s2_def)
  obtain b3 k3 i3 where n3: "need 4 d2 (s2\<lparr>flag := 5\<rparr>) = Some (Inr (d2\<lparr>r_b := b3, r_k := k3\<rparr>), s2\<lparr>flag := 5, inptr := i3\<rparr>)"
    "b3 AND (2 ^ 4 - 1) = x3" "at_bits (dumpbits 4 (d2\<lparr>r_b := b3, r_k := k3\<rparr>)) (s2\<lparr>flag := 5, inptr := i3\<rparr>) rest (a - 5 - 5 - 4)"
    using stage_ready [OF at2 assms(5) c(2,5)] by blast
  define d3 where "d3 = (dumpbits 4 (d2\<lparr>r_b := b3, r_k := k3\<rparr>))\<lparr>d_nb := 4 + x3\<rparr>"
  define s3 where "s3 = s2\<lparr>flag := 5, inptr := i3, flag := 0, hnb := 4 + x3\<rparr>"
  have "a - 5 - 5 - 4 = a - 14" by simp
  with n3(3) have "at_bits (dumpbits 4 (d2\<lparr>r_b := b3, r_k := k3\<rparr>)) (s2\<lparr>flag := 5, inptr := i3\<rparr>) rest (a - 14)" by (simp only:)
  then have at3: "at_bits d3 s3 rest (a - 14)" by (rule at_bits_moves) (simp_all add: d3_def s3_def)
  have "dyn_counts d st = Some (Inr d3, s3)"
    using assms(1) n1(1,2) n2(1,2) n3(1,2)
    by (simp add: dyn_counts_def next_step_def Let_def d1_def s1_def d2_def s2_def d3_def s3_def)
  moreover have "keeps st s3" by (simp add: s3_def s2_def s1_def)
  ultimately show ?thesis
    using at3 by (intro exI [of _ d3] exI [of _ s3]) (simp add: d3_def s3_def d2_def s2_def d1_def s1_def)
qed

section \<open>The code of the lengths\<close>

definition same_counts :: "dyn \<Rightarrow> dyn \<Rightarrow> bool" where
  "same_counts d d' \<longleftrightarrow> d_nl d' = d_nl d \<and> d_nd d' = d_nd d \<and> d_nb d' = d_nb d"

definition fill :: "(nat \<Rightarrow> nat) \<Rightarrow> nat list \<Rightarrow> nat list \<Rightarrow> nat list" where
  "fill f is ll = foldl (\<lambda>ll i. ll[i := f i]) ll is"

lemma fill_simps [simp]: "fill f [] ll = ll" "fill f (i # is) ll = fill f is (ll[i := f i])"
  by (simp_all add: fill_def)

lemma length_fill [simp]: "length (fill f is ll) = length ll"
  by (induction "is" arbitrary: ll) simp_all

lemma fill_nth: "k < length ll \<Longrightarrow> fill f is ll ! k = (if k \<in> set is then f k else ll ! k)"
  by (induction "is" arbitrary: ll) (auto simp: nth_list_update)

lemma set_lengths_fill:
  "set_lengths is v d st = (d\<lparr>d_ll := fill (\<lambda>_. v) is (d_ll d)\<rparr>, st\<lparr>hll := fill (\<lambda>_. v) is (hll st)\<rparr>)"
proof -
  have "foldl (\<lambda>(d, st) i. set_length i v d st) (d, st) is =
      (d\<lparr>d_ll := fill (\<lambda>_. v) is (d_ll d)\<rparr>, st\<lparr>hll := fill (\<lambda>_. v) is (hll st)\<rparr>)"
    by (induction "is" arbitrary: d st) (simp_all add: set_length_def)
  then show ?thesis by (simp add: set_lengths_def)
qed

fun encode_bit_lengths :: "nat list \<Rightarrow> nat list \<Rightarrow> nat \<Rightarrow> nat" where
  "encode_bit_lengths cb [] rest = rest"
| "encode_bit_lengths cb (j # js) rest = cb ! (border ! j) + 2 ^ 3 * encode_bit_lengths cb js rest"

lemma bit_lengths_ready:
  "flag st = 0 \<Longrightarrow> at_bits d st (encode_bit_lengths cb js rest) a \<Longrightarrow> \<forall>j\<in>set js. cb ! (border ! j) < 2 ^ 3 \<Longrightarrow> 3 * length js \<le> a \<Longrightarrow>
    \<exists>d' st'. bit_lengths js d st = Some (Inr d', st') \<and> same_counts d d' \<and>
      d_ll d' = fill ((!) cb) (map ((!) border) js) (d_ll d) \<and> keeps st st' \<and> flag st' = 0 \<and> at_bits d' st' rest (a - 3 * length js)"
proof (induction js arbitrary: d st a)
  case Nil
  then show ?case by (simp add: same_counts_def)
next
  case (Cons j js)
  have at0: "at_bits d (st\<lparr>flag := 6, hj := j\<rparr>) (cb ! (border ! j) + 2 ^ 3 * encode_bit_lengths cb js rest) a"
    by (rule at_bits_moves) (use Cons.prems(2) in simp_all)
  have "cb ! (border ! j) < 2 ^ 3" "(3 :: nat) \<le> 16" "3 \<le> a" using Cons.prems(3,4) by simp_all
  from take_bits [OF at0 this] obtain b k i where n: "need 3 d (st\<lparr>flag := 6, hj := j\<rparr>) = Some (Inr (d\<lparr>r_b := b, r_k := k\<rparr>), st\<lparr>flag := 6, hj := j, inptr := i\<rparr>)"
    "b AND (2 ^ 3 - 1) = cb ! (border ! j)"
    "at_bits (dumpbits 3 (d\<lparr>r_b := b, r_k := k\<rparr>)) (st\<lparr>flag := 6, hj := j, inptr := i\<rparr>) (encode_bit_lengths cb js rest) (a - 3)" by auto
  define d1 where "d1 = dumpbits 3 (d\<lparr>r_b := b, r_k := k, d_ll := (d_ll d)[border ! j := cb ! (border ! j)]\<rparr>)"
  define s1 where "s1 = st\<lparr>flag := 6, hj := j, inptr := i, flag := 0, hll := (hll st)[border ! j := cb ! (border ! j)]\<rparr>"
  have at1: "at_bits d1 s1 (encode_bit_lengths cb js rest) (a - 3)"
    by (rule at_bits_moves [OF n(3)]) (simp_all add: d1_def s1_def dumpbits_def)
  have "flag s1 = 0" "\<forall>j\<in>set js. cb ! (border ! j) < 2 ^ 3" "3 * length js \<le> a - 3" using Cons.prems(3,4) by (simp_all add: s1_def)
  from Cons.IH [OF this(1) at1 this(2,3)] obtain d' st' where q: "bit_lengths js d1 s1 = Some (Inr d', st')" "same_counts d1 d'"
    "d_ll d' = fill ((!) cb) (map ((!) border) js) (d_ll d1)" "keeps s1 st'" "flag st' = 0" "at_bits d' st' rest (a - 3 - 3 * length js)" by blast
  have step: "bit_lengths (j # js) d st = bit_lengths js d1 s1"
    using n(1,2) by (simp add: next_step_def Let_def set_length_def d1_def s1_def)
  have kp: "keeps st s1" by (simp add: s1_def)
  have al: "a - 3 - 3 * length js = a - 3 * length (j # js)" by simp
  have ll: "d_ll d1 = (d_ll d)[border ! j := cb ! (border ! j)]" by (simp add: d1_def)
  have "same_counts d d'" using q(2) by (simp add: same_counts_def d1_def)
  moreover have "d_ll d' = fill ((!) cb) (map ((!) border) (j # js)) (d_ll d)" using q(3) ll by simp
  ultimately show ?case unfolding step
    using keeps_trans [OF kp q(4)] q(1,5) q(6) [unfolded al] by blast
qed

lemma border_all: "set (map ((!) border) [0..<19]) = {0..<19}"
proof -
  have "length border = 19" by (simp add: border_def)
  then have "map ((!) border) [0..<19] = border" using map_nth [of border] by simp
  moreover have "set border = {0..<19}" by code_simp
  ultimately show ?thesis by simp
qed

lemma bit_length_codes_ready:
  assumes "flag st = 0" "at_bits d st (encode_bit_lengths cb [0..<d_nb d] rest) a" "3 * d_nb d \<le> a" "d_j d = 0" "0 < d_nb d" "d_nb d \<le> 19"
    "length cb = 19" "\<forall>k\<in>set cb. k < 2 ^ 3" "\<forall>j<19. d_nb d \<le> j \<longrightarrow> cb ! (border ! j) = 0" "19 \<le> length (d_ll d)"
  shows "\<exists>d' st'. bit_length_codes d st = Some (Inr d', st') \<and> same_counts d d' \<and> take 19 (d_ll d') = cb \<and> length (d_ll d') = length (d_ll d) \<and>
    keeps st st' \<and> flag st' = 0 \<and> at_bits d' st' rest (a - 3 * d_nb d)"
proof -
  let ?nb = "d_nb d"
  have bl: "border ! j < 19" if "j < 19" for j using border_all that by (auto dest: equalityD1)
  have "\<forall>j\<in>set [0..<?nb]. cb ! (border ! j) < 2 ^ 3" "3 * length [0..<?nb] \<le> a" using assms(3,6-8) bl by auto
  from bit_lengths_ready [OF assms(1,2) this] obtain d1 s1 where q: "bit_lengths [0..<?nb] d st = Some (Inr d1, s1)" "same_counts d d1"
    "d_ll d1 = fill ((!) cb) (map ((!) border) [0..<?nb]) (d_ll d)" "keeps st s1" "flag s1 = 0" "at_bits d1 s1 rest (a - 3 * ?nb)"
    by auto
  let ?z = "map ((!) border) [?nb..<19]"
  let ?d2 = "d1\<lparr>d_ll := fill (\<lambda>_. 0) ?z (d_ll d1), d_j := 19\<rparr>" and ?s2 = "s1\<lparr>hll := fill (\<lambda>_. 0) ?z (hll s1), hj := 19\<rparr>"
  have run: "bit_length_codes d st = Some (Inr ?d2, ?s2)"
    using assms(1,4-6) q(1) by (simp add: bit_length_codes_def next_step_def Let_def set_lengths_fill)
  have at: "at_bits ?d2 ?s2 rest (a - 3 * ?nb)" by (rule at_bits_moves [OF q(6)]) simp_all
  have "take 19 (d_ll ?d2) = cb"
  proof (rule nth_equalityI)
    show "length (take 19 (d_ll ?d2)) = length cb" using assms(7,10) q(3) by simp
    fix i assume "i < length (take 19 (d_ll ?d2))"
    then have i: "i < 19" "i < length (d_ll d)" using q(3) by simp_all
    have "i \<in> set (map ((!) border) [0..<19])" using i(1) border_all by simp
    then obtain j where j: "j < 19" "i = border ! j" by auto
    have "fill (\<lambda>_. 0) ?z (d_ll d1) ! i = cb ! i"
    proof (cases "i \<in> set ?z")
      case True
      then obtain j where "?nb \<le> j" "j < 19" "i = border ! j" by auto
      then show ?thesis using True assms(9) i(2) q(3) by (simp add: fill_nth)
    next
      case False
      then have "j < ?nb" using j by (force simp: not_less)
      then have "i \<in> set (map ((!) border) [0..<?nb])" using j(2) by auto
      then show ?thesis using False i(2) q(3) by (simp add: fill_nth)
    qed
    then show "take 19 (d_ll ?d2) ! i = cb ! i" using i(1) by simp
  qed
  moreover have "same_counts d ?d2" using q(2) by (simp add: same_counts_def)
  moreover have "length (d_ll ?d2) = length (d_ll d)" using q(3) by simp
  moreover have "keeps st ?s2" "flag ?s2 = 0" using q(4,5) by simp_all
  ultimately show ?thesis using run at by blast
qed

section \<open>The lengths of the codes\<close>

datatype length_item = Len nat | Again nat | Zeros nat | MoreZeros nat
  \<comment> \<open>a length, or a number of repetitions beyond the smallest one\<close>

fun item_symbol :: "length_item \<Rightarrow> nat" where
  "item_symbol (Len k) = k" | "item_symbol (Again x) = 16" | "item_symbol (Zeros x) = 17" | "item_symbol (MoreZeros x) = 18"

fun extra_width :: "length_item \<Rightarrow> nat" where
  "extra_width (Len k) = 0" | "extra_width (Again x) = 2" | "extra_width (Zeros x) = 3" | "extra_width (MoreZeros x) = 7"

fun extra_value :: "length_item \<Rightarrow> nat" where
  "extra_value (Len k) = 0" | "extra_value (Again x) = x" | "extra_value (Zeros x) = x" | "extra_value (MoreZeros x) = x"

fun lengths_of :: "nat \<Rightarrow> length_item \<Rightarrow> nat list" where
  "lengths_of l (Len k) = [k]" | "lengths_of l (Again x) = replicate (3 + x) l"
| "lengths_of l (Zeros x) = replicate (3 + x) 0" | "lengths_of l (MoreZeros x) = replicate (11 + x) 0"

fun last_of :: "nat \<Rightarrow> length_item \<Rightarrow> nat" where
  "last_of l (Len k) = k" | "last_of l (Again x) = l" | "last_of l (Zeros x) = 0" | "last_of l (MoreZeros x) = 0"

fun expand :: "nat \<Rightarrow> length_item list \<Rightarrow> nat list" where
  "expand l [] = []"
| "expand l (i # is) = lengths_of l i @ expand (last_of l i) is"

definition length_ok :: "nat list \<Rightarrow> length_item \<Rightarrow> bool" where
  "length_ok cb i \<longleftrightarrow> (case i of Len k \<Rightarrow> k < 16 | _ \<Rightarrow> extra_value i < 2 ^ extra_width i) \<and> cb ! item_symbol i \<noteq> 0"

fun encode_lengths :: "nat list \<Rightarrow> length_item list \<Rightarrow> nat \<Rightarrow> nat" where
  "encode_lengths cb [] rest = rest"
| "encode_lengths cb (i # is) rest = code_at cb (item_symbol i) (extra_value i + 2 ^ extra_width i * encode_lengths cb is rest)"

fun lengths_bits :: "nat list \<Rightarrow> length_item list \<Rightarrow> nat" where
  "lengths_bits cb [] = 0"
| "lengths_bits cb (i # is) = cb ! item_symbol i + extra_width i + lengths_bits cb is"

lemma fill_range:
  assumes "i + j \<le> length ll"
  shows "fill (\<lambda>_. v) [i..<i + j] ll = take i ll @ replicate j v @ drop (i + j) ll"
proof (rule nth_equalityI)
  fix k assume "k < length (fill (\<lambda>_. v) [i..<i + j] ll)"
  then show "fill (\<lambda>_. v) [i..<i + j] ll ! k = (take i ll @ replicate j v @ drop (i + j) ll) ! k"
    using assms by (auto simp: fill_nth nth_append)
qed (use assms in simp)

lemma length_symbol_ready:
  assumes "flag st = 0" "htl st = Some (ts, 0, 0)" "one_level cb 19 [] [] ts (d_bl d)" "d_bl d \<le> 16" "16 \<le> a"
    "at_bits d st (code_at cb sy rest) a" "sy < length cb" "sy < 19" "cb ! sy \<noteq> 0"
  shows "\<exists>d' st'. length_symbol (2 ^ d_bl d - 1) d st = Some (Inr d', st') \<and> same_counts d d' \<and> d_ll d' = d_ll d \<and> d_bl d' = d_bl d \<and>
    d_j d' = sy \<and> keeps st st' \<and> htl st' = htl st \<and> at_bits d' st' rest (a - cb ! sy)"
proof -
  let ?l = "d_bl d" and ?s = "code_at cb sy rest"
  obtain x where x: "huft_entry ts 0 (?s mod 2 ^ ?l) = Some x" "h_b x = cb ! sy" "h_b x \<le> ?l" "h_v x = Vn sy"
    using assms(3,7-9) unfolding one_level_def by (force simp: symbol_entry_def)
  have at: "at_bits d (st\<lparr>flag := 7\<rparr>) ?s a" by (rule at_bits_moves [OF assms(6)]) simp_all
  have "?l \<le> a" using assms(4,5) by simp
  from need_ready [OF at assms(4) this] obtain b k i where n: "need ?l d (st\<lparr>flag := 7\<rparr>) = Some (Inr (d\<lparr>r_b := b, r_k := k\<rparr>), st\<lparr>flag := 7, inptr := i\<rparr>)"
    "?l \<le> k" "at_bits (d\<lparr>r_b := b, r_k := k\<rparr>) (st\<lparr>flag := 7, inptr := i\<rparr>) ?s a" by auto
  have low: "b AND (2 ^ ?l - Suc 0) = ?s mod 2 ^ ?l" using low_bits [OF n(3), of ?l] n(2) by (simp add: and_mask)
  let ?d = "(dumpbits (h_b x) (d\<lparr>r_b := b, r_k := k\<rparr>))\<lparr>d_j := sy\<rparr>"
  let ?st = "st\<lparr>flag := 7, inptr := i, htd := Some (ts, 0, ?s mod 2 ^ ?l), hj := sy\<rparr>"
  have "length_symbol (2 ^ ?l - 1) d st = Some (Inr ?d, ?st)"
    using assms(1,2) n(1) low x by (simp add: length_symbol_def next_step_def base_value_def)
  moreover have "at_bits ?d ?st rest (a - cb ! sy)"
  proof -
    have "at_bits (dumpbits (h_b x) (d\<lparr>r_b := b, r_k := k\<rparr>)) (st\<lparr>flag := 7, inptr := i\<rparr>) (?s div 2 ^ h_b x) (a - h_b x)"
      using dumpbits_ready [OF n(3), of "h_b x"] x(3) n(2) by simp
    then have "at_bits (dumpbits (h_b x) (d\<lparr>r_b := b, r_k := k\<rparr>)) (st\<lparr>flag := 7, inptr := i\<rparr>) rest (a - cb ! sy)"
      by (simp add: x(2))
    then show ?thesis by (rule at_bits_moves) simp_all
  qed
  moreover have "same_counts d ?d" "d_ll ?d = d_ll d" "d_bl ?d = d_bl d" "d_j ?d = sy" "keeps st ?st" "htl ?st = htl st"
    by (simp_all add: same_counts_def)
  ultimately show ?thesis by blast
qed

lemma repeat_length_ready:
  assumes "d_j d = item_symbol it" "length_ok cb it" "at_bits d st (extra_value it + 2 ^ extra_width it * rest) a" "extra_width it \<le> a"
    "i + length (lengths_of l it) \<le> n" "n \<le> length (d_ll d)"
  shows "\<exists>d' st'. repeat_length n i l d st = Some (Inr (i + length (lengths_of l it), last_of l it, d'), st') \<and> same_counts d d' \<and>
    d_bl d' = d_bl d \<and> d_ll d' = take i (d_ll d) @ lengths_of l it @ drop (i + length (lengths_of l it)) (d_ll d) \<and>
    keeps st st' \<and> htl st' = htl st \<and> at_bits d' st' rest (a - extra_width it)"
proof (cases "\<exists>k. it = Len k")
  case True
  then obtain k where k: "it = Len k" "k < 16" using assms(2) by (auto simp: length_ok_def)
  let ?d = "d\<lparr>d_ll := (d_ll d)[i := k]\<rparr>" and ?st = "st\<lparr>hll := (hll st)[i := k]\<rparr>"
  have "at_bits ?d ?st rest (a - extra_width it)" by (rule at_bits_moves) (use assms(3) k(1) in simp_all)
  moreover have "(d_ll d)[i := k] = take i (d_ll d) @ [k] @ drop (i + 1) (d_ll d)"
    using assms(5,6) k(1) by (simp add: upd_conv_take_nth_drop)
  ultimately show ?thesis using assms(1) k
    by (intro exI [of _ ?d] exI [of _ ?st]) (simp add: repeat_length_def set_length_def same_counts_def)
next
  case False
  let ?w = "extra_width it" and ?x = "extra_value it"
  define base where "base = (if d_j d = 16 \<or> d_j d = 17 then 3 else 11 :: nat)"
  define v where "v = (if d_j d = 16 then l else 0)"
  have w: "?w = (if d_j d = 16 then 2 else if d_j d = 17 then 3 else 7)" "\<not> d_j d < 16" "last_of l it = v"
    "lengths_of l it = replicate (base + ?x) v" "?x < 2 ^ ?w" "?w \<le> 16"
    using assms(1,2) False by (cases it; simp add: base_def v_def length_ok_def)+
  from take_bits [OF assms(3) w(5,6) assms(4)] obtain b k j where
    n: "need ?w d st = Some (Inr (d\<lparr>r_b := b, r_k := k\<rparr>), st\<lparr>inptr := j\<rparr>)" "b AND (2 ^ ?w - 1) = ?x"
      "at_bits (dumpbits ?w (d\<lparr>r_b := b, r_k := k\<rparr>)) (st\<lparr>inptr := j\<rparr>) rest (a - ?w)" by blast
  let ?ks = "[i..<i + (base + ?x)]"
  let ?d = "(dumpbits ?w (d\<lparr>r_b := b, r_k := k\<rparr>))\<lparr>d_ll := fill (\<lambda>_. v) ?ks (d_ll d), d_j := 2 ^ 32 - 1\<rparr>"
  let ?st = "st\<lparr>inptr := j, hll := fill (\<lambda>_. v) ?ks (hll st)\<rparr>"
  have le: "i + (base + ?x) \<le> n" using assms(5) w(4) by simp
  have run: "repeat_length n i l d st = Some (Inr (i + (base + ?x), v, ?d), ?st)"
    using w(2) n(1,2) le unfolding repeat_length_def
    by (simp add: next_step_def Let_def set_lengths_fill base_def [symmetric] v_def [symmetric] w(1) [symmetric])
  have at: "at_bits ?d ?st rest (a - ?w)" by (rule at_bits_moves [OF n(3)]) simp_all
  have ll: "fill (\<lambda>_. v) ?ks (d_ll d) = take i (d_ll d) @ replicate (base + ?x) v @ drop (i + (base + ?x)) (d_ll d)"
    by (rule fill_range) (use le assms(6) in simp)
  have "same_counts d ?d" "d_bl ?d = d_bl d" "keeps st ?st" "htl ?st = htl st" by (simp_all add: same_counts_def)
  moreover have "d_ll ?d = take i (d_ll d) @ lengths_of l it @ drop (i + length (lengths_of l it)) (d_ll d)" by (simp add: ll w(4))
  moreover have "i + (base + ?x) = i + length (lengths_of l it)" by (simp add: w(4))
  ultimately show ?thesis using run at unfolding w(3) by (intro exI [of _ ?d] exI [of _ ?st]) simp
qed

lemma item_symbol_less: "length_ok cb i \<Longrightarrow> item_symbol i < 19"
  by (cases i) (auto simp: length_ok_def)

lemma lengths_of_nonempty: "0 < length (lengths_of l i)"
  by (cases i) simp_all

lemma last_of_less: "length_ok cb i \<Longrightarrow> l < 16 \<Longrightarrow> last_of l i < 16 \<and> (\<forall>k\<in>set (lengths_of l i). k < 16)"
  by (cases i) (auto simp: length_ok_def)

lemma expand_less: "l < 16 \<Longrightarrow> \<forall>i\<in>set is. length_ok cb i \<Longrightarrow> \<forall>k\<in>set (expand l is). k < 16"
proof (induction "is" arbitrary: l)
  case (Cons i "is")
  have "length_ok cb i" "\<forall>i\<in>set is. length_ok cb i" using Cons.prems(2) by simp_all
  then have "last_of l i < 16" "\<forall>k\<in>set (lengths_of l i). k < 16" "\<forall>k\<in>set (expand (last_of l i) is). k < 16"
    using last_of_less [OF _ Cons.prems(1)] Cons.IH by blast+
  then show ?case by (simp add: ball_Un)
qed simp

lemma code_lengths_ready:
  "flag st = 0 \<Longrightarrow> htl st = Some (ts, 0, 0) \<Longrightarrow> one_level cb 19 [] [] ts (d_bl d) \<Longrightarrow> d_bl d \<le> 16 \<Longrightarrow> length cb = 19 \<Longrightarrow>
    at_bits d st (encode_lengths cb is rest) a \<Longrightarrow> lengths_bits cb is + 16 \<le> a \<Longrightarrow> \<forall>i\<in>set is. length_ok cb i \<Longrightarrow>
    n = i + length (expand l is) \<Longrightarrow> n \<le> length (d_ll d) \<Longrightarrow>
    \<exists>d' st'. code_lengths n (2 ^ d_bl d - 1) i l d st = Some (Inr d', st') \<and> same_counts d d' \<and>
      take n (d_ll d') = take i (d_ll d) @ expand l is \<and> length (d_ll d') = length (d_ll d) \<and> keeps st st' \<and> flag st' = 0 \<and>
      at_bits d' st' rest (a - lengths_bits cb is)"
proof (induction "is" arbitrary: i l d st a)
  case Nil
  have "code_lengths n (2 ^ d_bl d - 1) i l d st = Some (Inr d, st)"
    using Nil.prems(9) by (subst code_lengths.simps) simp
  then show ?case using Nil.prems by (intro exI [of _ d] exI [of _ st]) (simp add: same_counts_def)
next
  case (Cons it "is")
  let ?m = "2 ^ d_bl d - 1 :: nat" and ?sy = "item_symbol it" and ?w = "extra_width it"
  have it: "length_ok cb it" "cb ! ?sy \<noteq> 0" "?sy < 19" "?sy < length cb" and oks: "\<forall>i\<in>set is. length_ok cb i"
    using Cons.prems(5,8) item_symbol_less by (auto simp: length_ok_def)
  have a: "16 \<le> a" "?w \<le> a - cb ! ?sy" "lengths_bits cb is + 16 \<le> a - cb ! ?sy - ?w" using Cons.prems(7) by simp_all
  have at: "at_bits d st (code_at cb ?sy (extra_value it + 2 ^ ?w * encode_lengths cb is rest)) a" using Cons.prems(6) by simp
  from length_symbol_ready [OF Cons.prems(1-4) a(1) at it(4,3,2)] obtain d1 s1 where
    q: "length_symbol ?m d st = Some (Inr d1, s1)" "same_counts d d1" "d_ll d1 = d_ll d" "d_bl d1 = d_bl d" "d_j d1 = ?sy" "keeps st s1"
      "htl s1 = htl st" "at_bits d1 s1 (extra_value it + 2 ^ ?w * encode_lengths cb is rest) (a - cb ! ?sy)" by blast
  let ?n1 = "length (lengths_of l it)"
  have at1: "at_bits d1 (s1\<lparr>flag := 8\<rparr>) (extra_value it + 2 ^ ?w * encode_lengths cb is rest) (a - cb ! ?sy)"
    by (rule at_bits_moves [OF q(8)]) simp_all
  have le: "i + ?n1 \<le> n" "n \<le> length (d_ll d1)" using Cons.prems(9,10) q(3) by simp_all
  from repeat_length_ready [OF q(5) it(1) at1 a(2) le] obtain d2 s2 where
    p: "repeat_length n i l d1 (s1\<lparr>flag := 8\<rparr>) = Some (Inr (i + ?n1, last_of l it, d2), s2)" "same_counts d1 d2" "d_bl d2 = d_bl d1"
      "d_ll d2 = take i (d_ll d1) @ lengths_of l it @ drop (i + ?n1) (d_ll d1)" "keeps (s1\<lparr>flag := 8\<rparr>) s2" "htl s2 = htl (s1\<lparr>flag := 8\<rparr>)"
      "at_bits d2 s2 (encode_lengths cb is rest) (a - cb ! ?sy - ?w)" by blast
  let ?s = "s2\<lparr>flag := 0, hj := d_j d2\<rparr>"
  have at2: "at_bits d2 ?s (encode_lengths cb is rest) (a - cb ! ?sy - ?w)" by (rule at_bits_moves [OF p(7)]) simp_all
  have ih: "flag ?s = 0" "htl ?s = Some (ts, 0, 0)" "one_level cb 19 [] [] ts (d_bl d2)" "d_bl d2 \<le> 16" "length cb = 19"
    "n = (i + ?n1) + length (expand (last_of l it) is)" "n \<le> length (d_ll d2)"
    using Cons.prems(2-5,9,10) q(3,4,7) p(3,4,6) le by simp_all
  from Cons.IH [OF ih(1-5) at2 a(3) oks ih(6,7)] obtain d' st' where
    r: "code_lengths n (2 ^ d_bl d2 - 1) (i + ?n1) (last_of l it) d2 ?s = Some (Inr d', st')" "same_counts d2 d'"
      "take n (d_ll d') = take (i + ?n1) (d_ll d2) @ expand (last_of l it) is" "length (d_ll d') = length (d_ll d2)" "keeps ?s st'"
      "flag st' = 0" "at_bits d' st' rest (a - cb ! ?sy - ?w - lengths_bits cb is)" by blast
  have "i < n" using le(1) lengths_of_nonempty [of l it] by linarith
  then have "code_lengths n ?m i l d st = Some (Inr d', st')"
    using q(1,4) p(1,3) r(1) by (subst code_lengths.simps) (simp add: next_step_def)
  moreover have "same_counts d d'" using q(2) p(2) r(2) by (simp add: same_counts_def)
  moreover have "take (i + ?n1) (d_ll d2) = take i (d_ll d) @ lengths_of l it" using le q(3) p(4) by simp
  then have "take n (d_ll d') = take i (d_ll d) @ expand l (it # is)" using r(3) by simp
  moreover have "length (d_ll d') = length (d_ll d)" using r(4) q(3) p(4) le by simp
  moreover have "keeps st st'"
  proof -
    have "keeps st (s1\<lparr>flag := 8\<rparr>)" using q(6) by simp
    then have "keeps st ?s" using keeps_trans [OF _ p(5)] by simp
    then show ?thesis using r(5) by (rule keeps_trans)
  qed
  moreover have "a - cb ! ?sy - ?w - lengths_bits cb is = a - lengths_bits cb (it # is)" by simp
  ultimately show ?case using r(6,7) by (intro exI [of _ d'] exI [of _ st']) simp
qed

section \<open>The header\<close>

definition dynamic_ok :: "nat \<Rightarrow> nat list \<Rightarrow> length_item list \<Rightarrow> nat list \<Rightarrow> nat list \<Rightarrow> bool" where
  \<comment> \<open>complete codes, of which the header gives the lengths\<close>
  "dynamic_ok nb cb ls lb db \<longleftrightarrow> 4 \<le> nb \<and> nb \<le> 19 \<and> length cb = 19 \<and> (\<forall>k\<in>set cb. k < 2 ^ 3) \<and> kraft_sum cb = 2 ^ BMAX \<and>
     (\<forall>j<19. nb \<le> j \<longrightarrow> cb ! (border ! j) = 0) \<and> 257 \<le> length lb \<and> length lb \<le> 286 \<and> 1 \<le> length db \<and> length db \<le> 30 \<and>
     kraft_sum lb = 2 ^ BMAX \<and> kraft_sum db = 2 ^ BMAX \<and> lb ! 256 \<noteq> 0 \<and> expand 0 ls = lb @ db \<and> (\<forall>i\<in>set ls. length_ok cb i)"

definition encode_dynamic :: "nat \<Rightarrow> nat list \<Rightarrow> length_item list \<Rightarrow> nat list \<Rightarrow> nat list \<Rightarrow> nat \<Rightarrow> nat" where
  "encode_dynamic nb cb ls lb db rest = (length lb - 257) + 2 ^ 5 * ((length db - 1) + 2 ^ 5 * ((nb - 4) + 2 ^ 4 *
     encode_bit_lengths cb [0..<nb] (encode_lengths cb ls rest)))"

definition dynamic_bits :: "nat \<Rightarrow> nat list \<Rightarrow> length_item list \<Rightarrow> nat" where
  "dynamic_bits nb cb ls = 14 + 3 * nb + lengths_bits cb ls"

lemma kraft_nonzero: "kraft_sum b = 2 ^ BMAX \<Longrightarrow> \<exists>k\<in>set b. k \<noteq> 0"
proof (rule ccontr)
  assume "kraft_sum b = 2 ^ BMAX" "\<not> (\<exists>k\<in>set b. k \<noteq> 0)"
  then have "filter (\<lambda>k. k \<noteq> 0) b = []" by (simp add: filter_empty_conv)
  then show False using \<open>kraft_sum b = 2 ^ BMAX\<close> by (simp add: kraft_sum_def)
qed

lemma dyn_lengths_ready:
  assumes ok: "dynamic_ok nb cb ls lb db" and f: "flag st = 0" and ll: "length (hll st) = 316"
    and at: "at_bits \<lparr>r_b = bb st, r_k = bk st\<rparr> st (encode_dynamic nb cb ls lb db rest) a" "dynamic_bits nb cb ls + 16 \<le> a"
  shows "\<exists>d st'. dyn_lengths st = Some (Inr d, st') \<and> take (d_nl d) (d_ll d) = lb \<and> take (d_nd d) (drop (d_nl d) (d_ll d)) = db \<and>
    keeps st st' \<and> flag st' = 0 \<and> at_bits d st' rest (a - dynamic_bits nb cb ls)"
proof -
  let ?d0 = "\<lparr>r_b = bb st, r_k = bk st, d_j = 0, d_nb = hnb st, d_nl = hnl st, d_nd = hnd st, d_ll = hll st, d_bl = hbl st\<rparr>"
  have o: "4 \<le> nb" "nb \<le> 19" "length cb = 19" "\<forall>k\<in>set cb. k < 2 ^ 3" "kraft_sum cb = 2 ^ BMAX" "\<forall>j<19. nb \<le> j \<longrightarrow> cb ! (border ! j) = 0"
    "257 \<le> length lb" "length lb \<le> 286" "1 \<le> length db" "length db \<le> 30" "expand 0 ls = lb @ db" "\<forall>i\<in>set ls. length_ok cb i"
    using ok by (simp_all add: dynamic_ok_def)
  have at0: "at_bits ?d0 st ((length lb - 257) + 2 ^ 5 * ((length db - 1) + 2 ^ 5 * ((nb - 4) + 2 ^ 4 *
     encode_bit_lengths cb [0..<nb] (encode_lengths cb ls rest)))) a"
    by (rule at_bits_moves [OF at(1) [unfolded encode_dynamic_def]]) simp_all
  have "length lb - 257 < 2 ^ 5" "length db - 1 < 2 ^ 5" "nb - 4 < 2 ^ 4" "14 \<le> a" using o at(2) by (simp_all add: dynamic_bits_def)
  from dyn_counts_ready [OF f at0 this] obtain d1 s1 where c: "dyn_counts ?d0 st = Some (Inr d1, s1)" "d_nl d1 = 257 + (length lb - 257)"
    "d_nd d1 = 1 + (length db - 1)" "d_nb d1 = 4 + (nb - 4)" "d_j d1 = 0" "d_ll d1 = hll st" "keeps st s1" "flag s1 = 0"
    "at_bits d1 s1 (encode_bit_lengths cb [0..<nb] (encode_lengths cb ls rest)) (a - 14)" by auto
  have n1: "d_nl d1 = length lb" "d_nd d1 = length db" "d_nb d1 = nb" using c(2-4) o by simp_all
  have "at_bits d1 s1 (encode_bit_lengths cb [0..<d_nb d1] (encode_lengths cb ls rest)) (a - 14)" "3 * d_nb d1 \<le> a - 14"
    "0 < d_nb d1" "d_nb d1 \<le> 19" "\<forall>j<19. d_nb d1 \<le> j \<longrightarrow> cb ! (border ! j) = 0" "19 \<le> length (d_ll d1)"
    using c(6,9) n1(3) o at(2) ll by (simp_all add: dynamic_bits_def)
  from bit_length_codes_ready [OF c(8) this(1,2) c(5) this(3,4) o(3,4) this(5,6)] obtain d2 s2 where
    b: "bit_length_codes d1 s1 = Some (Inr d2, s2)" "same_counts d1 d2" "take 19 (d_ll d2) = cb" "length (d_ll d2) = length (d_ll d1)"
      "keeps s1 s2" "flag s2 = 0" "at_bits d2 s2 (encode_lengths cb ls rest) (a - 14 - 3 * d_nb d1)" by blast
  have t: "length cb \<le> N_MAX" "\<forall>k\<in>set cb. k \<le> BMAX" "\<exists>k\<in>set cb. k \<noteq> 0" "(0 :: nat) < 7"
    "(\<forall>k\<in>set cb. k < 2 * 7) \<or> kraft_sum cb = 2 ^ BMAX \<and> length cb \<le> 2 ^ 7" "\<forall>k\<in>set cb. k \<le> 7"
    "\<forall>i<length cb. 19 \<le> i \<longrightarrow> None = Some [] \<and> i - 19 \<le> 30 \<and> i - 19 < length ([] :: nat list) \<and> i - 19 < length ([] :: nat list)"
    "\<forall>x\<in>set ([] :: nat list). x \<le> 16 \<or> x = 99"
    using o(3,4) kraft_nonzero [OF o(5)] by (fastforce simp: N_MAX_def BMAX_def)+
  from make_tables_ready [OF t(1-4) eq_imp_le [OF o(5)] disjI1 [OF o(5)] t(5,7,8), of "htl s2"] obtain ts l where
    mt: "make_tables cb 19 [] None (htl s2) 7 = Some (0, Some (ts, 0, 0), l)" "l \<le> 16" "one_level cb 19 [] [] ts l" using o(5) t(6) by auto
  let ?d3 = "d2\<lparr>d_bl := l\<rparr>" and ?s3 = "s2\<lparr>htl := Some (ts, 0, 0), hbl := l\<rparr>"
  have at3: "at_bits ?d3 ?s3 (encode_lengths cb ls rest) (a - 14 - 3 * nb)"
    by (rule at_bits_moves [OF b(7) [unfolded n1(3)]]) simp_all
  have "flag ?s3 = 0" "htl ?s3 = Some (ts, 0, 0)" "one_level cb 19 [] [] ts (d_bl ?d3)" "d_bl ?d3 \<le> 16"
    "lengths_bits cb ls + 16 \<le> a - 14 - 3 * nb" "length lb + length db = 0 + length (expand 0 ls)" "length lb + length db \<le> length (d_ll ?d3)"
    using b(4,6) c(6) ll mt(2,3) at(2) o(8,10,11) by (simp_all add: dynamic_bits_def)
  from code_lengths_ready [OF this(1-4) o(3) at3 this(5) o(12) this(6,7)] obtain d4 s4 where
    k: "code_lengths (length lb + length db) (2 ^ d_bl ?d3 - 1) 0 0 ?d3 ?s3 = Some (Inr d4, s4)" "same_counts ?d3 d4"
      "take (length lb + length db) (d_ll d4) = take 0 (d_ll ?d3) @ expand 0 ls" "keeps ?s3 s4" "flag s4 = 0"
      "at_bits d4 s4 rest (a - 14 - 3 * nb - lengths_bits cb ls)" by blast
  have n2: "d_nl d2 = length lb" "d_nd d2 = length db" "d_nl d4 = length lb" "d_nd d4 = length db"
    using b(2) k(2) n1 by (simp_all add: same_counts_def)
  have "dyn_lengths st = Some (Inr d4, s4)"
    using f c(1) n1 o(8,10) b(1,3,6) mt(1,2) k(1) n2
    by (simp add: dyn_lengths_def next_step_def mask_bits_some)
  moreover have "take (d_nl d4) (d_ll d4) = lb \<and> take (d_nd d4) (drop (d_nl d4) (d_ll d4)) = db"
  proof -
    have e: "take (length lb + length db) (d_ll d4) = lb @ db" using k(3) o(11) by simp
    then have "take (length lb) (take (length lb + length db) (d_ll d4)) = lb" "drop (length lb) (take (length lb + length db) (d_ll d4)) = db"
      by simp_all
    then show ?thesis by (simp add: n2 drop_take)
  qed
  moreover have "keeps st s4"
  proof -
    have "keeps s2 ?s3" by simp
    then show ?thesis using keeps_trans [OF c(7) keeps_trans [OF b(5) keeps_trans [OF _ k(4)]]] by blast
  qed
  moreover have "a - 14 - 3 * nb - lengths_bits cb ls = a - dynamic_bits nb cb ls" by (simp add: dynamic_bits_def)
  ultimately show ?thesis using k(5,6) by (intro exI [of _ d4] exI [of _ s4]) simp
qed

lemma page_result_keeps: "keeps st st' \<Longrightarrow> page_result env st' is rest a res = page_result env st is rest a res"
  by (simp add: page_result_def entries_def read_on_def keeps_def same_page_def split: option.split)

lemma inflate_dynamic_ready:
  assumes ok: "dynamic_ok nb cb ls lb db" and st: "flag st = 0" "length (hll st) = 316"
    and at: "at_bits \<lparr>r_b = bb st, r_k = bk st\<rparr> st (encode_dynamic nb cb ls lb db (encode_items lb db is rest)) a"
      "dynamic_bits nb cb ls + items_bits lb db is + 16 \<le> a"
    and page: "\<forall>i\<in>set is. item_ok lb db i" "short_runs 0 is" "buffers_ok st" "lit st + length is < LIT_BUFSIZE" "block_data st \<noteq> None"
  shows "page_result env st is rest (a - dynamic_bits nb cb ls - items_bits lb db is) (inflate_dynamic env st)"
proof -
  have "dynamic_bits nb cb ls + 16 \<le> a" using at(2) by simp
  from dyn_lengths_ready [OF ok st at(1) this] obtain d st1 where d: "dyn_lengths st = Some (Inr d, st1)" "take (d_nl d) (d_ll d) = lb"
    "take (d_nd d) (drop (d_nl d) (d_ll d)) = db" "keeps st st1" "flag st1 = 0"
    "at_bits d st1 (encode_items lb db is rest) (a - dynamic_bits nb cb ls)" by blast
  have o: "257 \<le> length lb" "length lb \<le> 286" "1 \<le> length db" "length db \<le> 30"
     "kraft_sum lb = 2 ^ BMAX" "kraft_sum db = 2 ^ BMAX" "lb ! 256 \<noteq> 0" "expand 0 ls = lb @ db" "\<forall>i\<in>set ls. length_ok cb i"
    using ok by (simp_all add: dynamic_ok_def)
  have "\<forall>k\<in>set (expand 0 ls). k < 16" by (rule expand_less [OF _ o(9)]) simp
  then have k16: "\<forall>k\<in>set lb. k \<le> BMAX" "\<forall>k\<in>set db. k \<le> BMAX" unfolding o(8) by (simp_all add: ball_Un BMAX_def less_imp_le)
  have len: "length cplext = 31" "length cplens = 31" "length cpdext = 30" "length cpdist = 30"
    by (simp_all add: cplext_def cplens_def cpdext_def cpdist_def)
  have tl: "length lb \<le> N_MAX" "(0 :: nat) < lbits" "(\<forall>k\<in>set lb. k < 2 * lbits) \<or> kraft_sum lb = 2 ^ BMAX \<and> length lb \<le> 2 ^ lbits"
    "\<forall>i<length lb. 257 \<le> i \<longrightarrow> Some cplext = Some cplext \<and> i - 257 \<le> 30 \<and> i - 257 < length cplext \<and> i - 257 < length cplens"
    "\<forall>x\<in>set cplext. x \<le> 16 \<or> x = 99"
    using o(2,5) len by (auto simp: N_MAX_def lbits_def cplext_def)
  have td: "length db \<le> N_MAX" "(0 :: nat) < dbits" "(\<forall>k\<in>set db. k < 2 * dbits) \<or> kraft_sum db = 2 ^ BMAX \<and> length db \<le> 2 ^ dbits"
    "\<forall>i<length db. 0 \<le> i \<longrightarrow> Some cpdext = Some cpdext \<and> i - 0 \<le> 30 \<and> i - 0 < length cpdext \<and> i - 0 < length cpdist"
    "\<forall>x\<in>set cpdext. x \<le> 16 \<or> x = 99"
    using o(4,6) len by (auto simp: N_MAX_def dbits_def cpdext_def)
  from make_tables_ready [OF tl(1) k16(1) kraft_nonzero [OF o(5)] tl(2) eq_imp_le [OF o(5)] disjI1 [OF o(5)] tl(3-5), of None] obtain tsl bl where
    ml: "make_tables lb 257 cplens (Some cplext) None lbits = Some (0, Some (tsl, 0, 0), bl)" "tables_for lb 257 cplens cplext tsl bl"
    using o(5) by auto
  from make_tables_ready [OF td(1) k16(2) kraft_nonzero [OF o(6)] td(2) eq_imp_le [OF o(6)] disjI1 [OF o(6)] td(3-5), of None] obtain tsd bd where
    md: "make_tables db 0 cpdist (Some cpdext) None dbits = Some (0, Some (tsd, 0, 0), bd)" "tables_for db 0 cpdist cpdext tsd bd"
    using o(6) by auto
  let ?st = "(null_tables st1)\<lparr>bb := r_b d, bk := r_k d, hbb := r_b d, hbk := r_k d, htl := Some (tsl, 0, 0), htd := Some (tsd, 0, 0),
      hbl := bl, hbd := bd\<rparr>"
  have run: "inflate_dynamic env st = decode_page env bl bd ?st"
    using d(1-3,5) ml(1) md(1) by (simp add: inflate_dynamic_def null_tables_def)
  have kp: "keeps st ?st" using d(4) by (simp add: null_tables_def)
  have at1: "at_bits \<lparr>r_b = bb ?st, r_k = bk ?st\<rparr> ?st (encode_items lb db is rest) (a - dynamic_bits nb cb ls)"
    by (rule at_bits_moves [OF d(6)]) (simp_all add: null_tables_def)
  have "256 < length lb" "flag ?st = 0" "items_bits lb db is + 16 \<le> a - dynamic_bits nb cb ls"
    using o(1) d(5) at(2) by (simp_all add: null_tables_def)
  moreover have "buffers_ok ?st" "lit ?st + length is < LIT_BUFSIZE"
    using page(3,4) kp by (simp_all add: keeps_def buffers_ok_def)
  moreover have "block_data ?st \<noteq> None"
    using page(5) kp same_page_block_data [of st ?st] by (simp add: keeps_def)
  ultimately have "page_result env ?st is rest (a - dynamic_bits nb cb ls - items_bits lb db is) (decode_page env bl bd ?st)"
    using decode_page_ready [OF ml(2) md(2), of ?st "is" rest "a - dynamic_bits nb cb ls" env] o(7) at1 page(1,2) by simp
  then show ?thesis unfolding run using page_result_keeps [OF kp] by blast
qed

end
