(* ===== verification/InflateMember.thy ===== *)
theory InflateMember
  imports InflateDynamic
begin

text \<open>
  A page in the order of its blocks, from the segment to the search: \<open>inflate\<close> decodes the blocks of a member and has
  the entries searched after each of them.
\<close>

section \<open>Blocks\<close>

datatype page_block =
    Fixed "page_item list"
  | Dynamic nat "nat list" "length_item list" "nat list" "nat list" "page_item list"
  \<comment> \<open>the number of lengths in the header, the code of the lengths, the lengths in this code, the lengths of both codes\<close>

fun block_items :: "page_block \<Rightarrow> page_item list" where
  "block_items (Fixed is) = is"
| "block_items (Dynamic nb cb ls lb db is) = is"

fun block_ok :: "page_block \<Rightarrow> bool" where
  "block_ok (Fixed is) \<longleftrightarrow> (\<forall>i\<in>set is. item_ok fixed_lengths fixed_distances i) \<and> short_runs 0 is"
| "block_ok (Dynamic nb cb ls lb db is) \<longleftrightarrow> dynamic_ok nb cb ls lb db \<and> (\<forall>i\<in>set is. item_ok lb db i) \<and> short_runs 0 is"

fun block_bits :: "page_block \<Rightarrow> nat" where
  "block_bits (Fixed is) = 3 + items_bits fixed_lengths fixed_distances is"
| "block_bits (Dynamic nb cb ls lb db is) = 3 + (dynamic_bits nb cb ls + items_bits lb db is)"

fun encode_block :: "nat \<Rightarrow> page_block \<Rightarrow> nat \<Rightarrow> nat" where
  "encode_block fin (Fixed is) rest = fin + 2 * (1 + 4 * encode_items fixed_lengths fixed_distances is rest)"
| "encode_block fin (Dynamic nb cb ls lb db is) rest = fin + 2 * (2 + 4 * encode_dynamic nb cb ls lb db (encode_items lb db is rest))"

fun encode_page :: "page_block list \<Rightarrow> nat \<Rightarrow> nat" where
  "encode_page [] rest = rest"
| "encode_page (b # bs) rest = encode_block (if bs = [] then 1 else 0) b (encode_page bs rest)"

definition page_bits :: "page_block list \<Rightarrow> nat" where
  "page_bits bs = sum_list (map block_bits bs)"

definition page_items :: "page_block list \<Rightarrow> page_item list" where
  "page_items bs = concat (map block_items bs)"

fun search_blocks ::
  "inflate_env \<Rightarrow> lz_entry list \<Rightarrow> page_block list \<Rightarrow> (nat \<Rightarrow> char) \<Rightarrow> (nat \<Rightarrow> int) \<Rightarrow>
   (bool \<times> (nat \<times> string) list \<times> (nat \<Rightarrow> char) \<times> (nat \<Rightarrow> int)) option" where
  \<comment> \<open>after each block all entries so far are searched, up to the first hit\<close>
  "search_blocks env es [] win stat = Some (False, [], win, stat)"
| "search_blocks env es (b # bs) win stat = (let es = es @ map item_entry (block_items b) in do {
     (found, lines, win, stat) \<leftarrow> keyword_match (ie_page env) (ie_M env) (ie_utos env) es (length es) win stat;
     (if found then Some (True, lines, win, stat)
      else do {
        (found, more, win, stat) \<leftarrow> search_blocks env es bs win stat;
        Some (found, lines @ more, win, stat) }) })"

lemma length_entries: "buffers_ok st \<Longrightarrow> lit st \<le> LIT_BUFSIZE \<Longrightarrow> length (entries st) = lit st"
  by (simp add: entries_def buffers_ok_def)

lemma block_step:
  assumes "flag st = 0" "at_bits \<lparr>r_b = bb st, r_k = bk st\<rparr> st (fin + 2 * (t + 4 * rest)) a" "3 \<le> a" "fin < 2" "t < 4"
  shows "\<exists>st'. keeps (st\<lparr>he := fin\<rparr>) st' \<and> flag st' = 0 \<and> hll st' = hll st \<and>
    at_bits \<lparr>r_b = bb st', r_k = bk st'\<rparr> st' rest (a - 3) \<and>
    inflate_block env st =
      (if t = 2 then inflate_dynamic env st' else if t = 0 then inflate_stored st' else if t = 1 then inflate_fixed env st' else Some (2, st'))"
proof -
  from block_header_ready [OF assms] obtain d i where h: "block_header \<lparr>r_b = bb st, r_k = bk st\<rparr> st = Some (Inr d, st\<lparr>he := fin, ht := t, inptr := i, flag := 0\<rparr>)"
    "at_bits d (st\<lparr>he := fin, ht := t, inptr := i, flag := 0\<rparr>) rest (a - 3)" by blast
  let ?st = "st\<lparr>he := fin, ht := t, inptr := i, flag := 0, bb := r_b d, bk := r_k d\<rparr>"
  have "at_bits \<lparr>r_b = bb ?st, r_k = bk ?st\<rparr> ?st rest (a - 3)" by (rule at_bits_moves [OF h(2)]) simp_all
  moreover have "keeps (st\<lparr>he := fin\<rparr>) ?st" by (simp add: keeps_def same_page_def)
  ultimately show ?thesis using h(1) by (intro exI [of _ ?st]) (simp add: inflate_block_def Let_def)
qed

lemma inflate_block_ready:
  assumes ok: "block_ok b" and st: "flag st = 0" "length (hll st) = 316" "fin < 2"
    and at: "at_bits \<lparr>r_b = bb st, r_k = bk st\<rparr> st (encode_block fin b rest) a" "block_bits b + 16 \<le> a"
    and page: "buffers_ok st" "lit st + length (block_items b) < LIT_BUFSIZE" "block_data st \<noteq> None"
  shows "page_result env (st\<lparr>he := fin\<rparr>) (block_items b) rest (a - block_bits b) (inflate_block env st)"
proof -
  have kept: "buffers_ok s" "lit s + length (block_items b) < LIT_BUFSIZE" "block_data s \<noteq> None" if k: "keeps (st\<lparr>he := fin\<rparr>) s" for s
    using page k same_page_block_data [of "st\<lparr>he := fin\<rparr>" s] by (simp_all add: keeps_def buffers_ok_def)
  show ?thesis
  proof (cases b)
    case (Fixed "is")
    let ?s = "encode_items fixed_lengths fixed_distances is rest"
    have "at_bits \<lparr>r_b = bb st, r_k = bk st\<rparr> st (fin + 2 * (1 + 4 * ?s)) a" "3 \<le> a" "(1 :: nat) < 4" using at Fixed by simp_all
    from block_step [OF st(1) this(1,2) st(3) this(3), of env] obtain s where s: "keeps (st\<lparr>he := fin\<rparr>) s" "flag s = 0"
      "at_bits \<lparr>r_b = bb s, r_k = bk s\<rparr> s ?s (a - 3)" "inflate_block env st = inflate_fixed env s" by auto
    have b: "items_bits fixed_lengths fixed_distances is + 16 \<le> a - 3" "\<forall>i\<in>set is. item_ok fixed_lengths fixed_distances i" "short_runs 0 is"
      "lit s + length is < LIT_BUFSIZE" "a - 3 - items_bits fixed_lengths fixed_distances is = a - block_bits b"
      using at(2) ok kept(2) [OF s(1)] Fixed by simp_all
    from inflate_fixed_ready [OF s(2,3) b(1-3) kept(1) [OF s(1)] b(4) kept(3) [OF s(1)], of env] show ?thesis
      unfolding s(4) b(5) page_result_keeps [OF s(1)] using Fixed by simp
  next
    case (Dynamic nb cb ls lb db "is")
    let ?s = "encode_dynamic nb cb ls lb db (encode_items lb db is rest)"
    have "at_bits \<lparr>r_b = bb st, r_k = bk st\<rparr> st (fin + 2 * (2 + 4 * ?s)) a" "3 \<le> a" "(2 :: nat) < 4" using at Dynamic by simp_all
    from block_step [OF st(1) this(1,2) st(3) this(3), of env] obtain s where s: "keeps (st\<lparr>he := fin\<rparr>) s" "flag s = 0" "hll s = hll st"
      "at_bits \<lparr>r_b = bb s, r_k = bk s\<rparr> s ?s (a - 3)" "inflate_block env st = inflate_dynamic env s" by auto
    have b: "dynamic_bits nb cb ls + items_bits lb db is + 16 \<le> a - 3" "dynamic_ok nb cb ls lb db" "\<forall>i\<in>set is. item_ok lb db i" "short_runs 0 is"
      "lit s + length is < LIT_BUFSIZE" "a - 3 - dynamic_bits nb cb ls - items_bits lb db is = a - block_bits b" "length (hll s) = 316"
      using at(2) ok kept(2) [OF s(1)] Dynamic s(3) st(2) by simp_all
    from inflate_dynamic_ready [OF b(2) s(2) b(7) s(4) b(1,3,4) kept(1) [OF s(1)] b(5) kept(3) [OF s(1)], of env] show ?thesis
      unfolding s(5) b(6) page_result_keeps [OF s(1)] using Dynamic by simp
  qed
qed

section \<open>The loop over the blocks\<close>

definition blocks_result :: "inflate_env \<Rightarrow> inflater \<Rightarrow> page_block list \<Rightarrow> (nat \<times> inflater) option \<Rightarrow> bool" where
  "blocks_result env st bs res \<longleftrightarrow>
     (case search_blocks env (entries st) bs (g_win st) (g_st st) of
        None \<Rightarrow> res = None
      | Some (found, lines, win, stat) \<Rightarrow> \<exists>st'. res = Some (if found then 1 else 0, st') \<and>
          sent st' = sent st @ lines \<and> blocked st' = (blocked st \<or> found) \<and> g_win st' = win \<and> g_st st' = stat \<and> hflag st' = 0 \<and>
          current_block st' = current_block st \<and> (\<not> found \<longrightarrow> entries st' = entries st @ map item_entry (page_items bs)))"

lemma blocks_loop_ready:
  "bs \<noteq> [] \<Longrightarrow> \<forall>b\<in>set bs. block_ok b \<Longrightarrow> flag st = 0 \<Longrightarrow> length (hll st) = 316 \<Longrightarrow>
    at_bits \<lparr>r_b = bb st, r_k = bk st\<rparr> st (encode_page bs rest) a \<Longrightarrow> page_bits bs + 16 \<le> a \<Longrightarrow> buffers_ok st \<Longrightarrow>
    lit st + length (page_items bs) < LIT_BUFSIZE \<Longrightarrow> block_data st \<noteq> None \<Longrightarrow> u32 (chunk_size st) \<noteq> insize st \<or> length bs = 1 \<Longrightarrow>
    blocks_result env st bs (blocks_loop env st)"
proof (induction bs arbitrary: st a)
  case (Cons b bs)
  let ?fin = "if bs = [] then 1 else 0 :: nat" and ?is = "block_items b"
  have ok: "block_ok b" "?fin < 2" "block_bits b + 16 \<le> a" "lit st + length ?is < LIT_BUFSIZE"
    and at: "at_bits \<lparr>r_b = bb st, r_k = bk st\<rparr> st (encode_block ?fin b (encode_page bs rest)) a"
    using Cons.prems by (simp_all add: page_bits_def page_items_def)
  note pr = inflate_block_ready [OF ok(1) Cons.prems(3,4) ok(2) at ok(3) Cons.prems(7) ok(4) Cons.prems(9), of env]
  let ?es = "entries st @ map item_entry ?is"
  let ?m = "keyword_match (ie_page env) (ie_M env) (ie_utos env) ?es (length ?es) (g_win st) (g_st st)"
  have es: "length ?es = lit st + length ?is" "entries (st\<lparr>he := ?fin\<rparr>) = entries st"
    using length_entries [OF Cons.prems(7)] ok(4) by (simp_all add: entries_def)
  show ?case
  proof (cases ?m)
    case None
    then have "inflate_block env st = None" using pr es by (simp add: page_result_def)
    then have "blocks_loop env st = None" by (subst blocks_loop.simps) simp
    then show ?thesis using None by (simp add: blocks_result_def Let_def)
  next
    case (Some q)
    obtain found lines win stat where q: "q = (found, lines, win, stat)" by (cases q)
    obtain st1 where s: "inflate_block env st = Some (if found then 1 else 0, st1)" "sent st1 = sent st @ lines"
      "blocked st1 = (blocked st \<or> found)" "g_win st1 = win" "g_st st1 = stat" "entries st1 = ?es" "lit st1 = lit st + length ?is"
      "buffers_ok st1" "hflag st1 = 0" "flag st1 = 0" "he st1 = ?fin" "insize st1 = insize st" "blocks st1 = blocks st"
      "current_block st1 = current_block st" "length (hll st1) = length (hll st)"
      "read_on (st\<lparr>he := ?fin\<rparr>) (encode_page bs rest) (a - block_bits b) st1"
      using pr Some q es by (auto simp: page_result_def)
    show ?thesis
    proof (cases found)
      case True
      then have "blocks_loop env st = Some (1, st1)" using s(1) by (subst blocks_loop.simps) simp
      then show ?thesis using Some q True s(2-5,9,14) by (simp add: blocks_result_def Let_def)
    next
      case False
      show ?thesis
      proof (cases "bs = []")
        case True
        then have "blocks_loop env st = Some (0, st1)" using s(1,11) False by (subst blocks_loop.simps) simp
        then show ?thesis using Some q False True s(2-6,9,14) by (simp add: blocks_result_def Let_def page_items_def)
      next
        case ne: False
        have "length (b # bs) \<noteq> 1" using ne by simp
        then have ch: "u32 (chunk_size st) \<noteq> insize st" using Cons.prems(10) by blast
        then have ro: "at_bits \<lparr>r_b = bb st1, r_k = bk st1\<rparr> st1 (encode_page bs rest) (a - block_bits b)" "chunk_size st1 = chunk_size st"
          using s(16) by (simp_all add: read_on_def)
        have "blocks_loop env st = blocks_loop env st1"
          using s(1,9,11) False ne by (subst blocks_loop.simps) simp
        moreover have "blocks_result env st1 bs (blocks_loop env st1)"
        proof (rule Cons.IH [OF ne _ s(10) _ ro(1)])
          have "block_data st1 = block_data st" using s(13,14) by (simp add: block_data_def split: option.split)
          then show "block_data st1 \<noteq> None" using Cons.prems(9) by simp
          show "u32 (chunk_size st1) \<noteq> insize st1 \<or> length bs = 1" using ch ro(2) s(12) by simp
          show "page_bits bs + 16 \<le> a - block_bits b" "lit st1 + length (page_items bs) < LIT_BUFSIZE"
            using Cons.prems(6,8) s(7) by (simp_all add: page_bits_def page_items_def)
        qed (use Cons.prems(2,4) s(8,15) in simp_all)
        ultimately show ?thesis
          using Some q False s(2-6,14) by (auto simp: blocks_result_def Let_def page_items_def split: option.splits)
      qed
    qed
  qed
qed simp

section \<open>A member\<close>

definition member_data :: "page_block list \<Rightarrow> nat \<Rightarrow> char list \<Rightarrow> bool" where
  \<comment> \<open>the bytes begin with the blocks, with two more bytes behind them; the trailer of a member has eight\<close>
  "member_data bs rest data \<longleftrightarrow> bs \<noteq> [] \<and> (\<forall>b\<in>set bs. block_ok b) \<and> length (page_items bs) < LIT_BUFSIZE \<and>
     bytes_value data = encode_page bs rest \<and> page_bits bs + 16 \<le> 8 * length data"

definition fresh_head :: "inflater \<Rightarrow> bool" where
  \<comment> \<open>no run is suspended, and the arrays have their sizes\<close>
  "fresh_head st \<longleftrightarrow> hflag st = 0 \<and> length (hll st) = 316 \<and> length (litter_buf st) = LIT_BUFSIZE \<and> length (dist_buf st) = LIT_BUFSIZE \<and>
     block_data st \<noteq> None"

definition member_ready :: "inflater \<Rightarrow> page_block list \<Rightarrow> nat \<Rightarrow> bool" where
  "member_ready st bs rest \<longleftrightarrow> member_data bs rest (ready st) \<and> fresh_head st \<and> insize st \<le> length (inbuf st)"

lemmas member_defs = member_ready_def member_data_def fresh_head_def

definition start_member :: "inflater \<Rightarrow> inflater" where
  "start_member st = null_tables (st\<lparr>flag := 0, bb := 0, bk := 0, lit := 0, dist := 0\<rparr>)"

lemma start_member_ready:
  assumes "member_ready st bs rest"
  shows "inflate env st = blocks_loop env (start_member st)" "flag (start_member st) = 0" "length (hll (start_member st)) = 316"
    "at_bits \<lparr>r_b = bb (start_member st), r_k = bk (start_member st)\<rparr> (start_member st) (encode_page bs rest) (8 * length (ready st))"
    "buffers_ok (start_member st)" "lit (start_member st) = 0" "entries (start_member st) = []" "block_data (start_member st) \<noteq> None"
    "chunk_size (start_member st) = chunk_size st" "insize (start_member st) = insize st"
    "g_win (start_member st) = g_win st" "g_st (start_member st) = g_st st" "sent (start_member st) = sent st"
    "blocked (start_member st) = blocked st" "Head_size (start_member st) = Head_size st" "blocks (start_member st) = blocks st"
    "current_block (start_member st) = current_block st"
proof -
  have "ready (start_member st) = ready st" by (simp add: ready_def start_member_def null_tables_def)
  then show "at_bits \<lparr>r_b = bb (start_member st), r_k = bk (start_member st)\<rparr> (start_member st) (encode_page bs rest) (8 * length (ready st))"
    using assms by (simp add: member_defs at_bits_def bits_ok_def stream_of_def avail_of_def) (simp add: start_member_def null_tables_def)
  have "block_data (start_member st) = block_data st"
    by (simp add: start_member_def null_tables_def block_data_def split: option.split)
  then show "block_data (start_member st) \<noteq> None" using assms by (simp add: member_defs)
qed (use assms in \<open>simp_all add: member_defs start_member_def null_tables_def inflate_def entries_def buffers_ok_def\<close>)

lemma inflate_blocks:
  assumes "member_ready st bs rest" "u32 (chunk_size st) \<noteq> insize st \<or> length bs = 1"
  shows "case search_blocks env [] bs (g_win st) (g_st st) of
      None \<Rightarrow> inflate env st = None
    | Some (found, lines, win, stat) \<Rightarrow> \<exists>st'. inflate env st = Some (if found then 1 else 0, st') \<and>
        sent st' = sent st @ lines \<and> blocked st' = (blocked st \<or> found) \<and> g_win st' = win \<and> g_st st' = stat \<and> hflag st' = 0 \<and>
        current_block st' = current_block st \<and> (\<not> found \<longrightarrow> entries st' = map item_entry (page_items bs))"
proof -
  note s = start_member_ready [OF assms(1)]
  have m: "bs \<noteq> []" "\<forall>b\<in>set bs. block_ok b" "page_bits bs + 16 \<le> 8 * length (ready st)"
    "lit (start_member st) + length (page_items bs) < LIT_BUFSIZE"
    "u32 (chunk_size (start_member st)) \<noteq> insize (start_member st) \<or> length bs = 1"
    using assms s(6,9,10) by (simp_all add: member_defs)
  from blocks_loop_ready [OF m(1,2) s(2,3,4) m(3) s(5) m(4) s(8) m(5), of env]
  show ?thesis unfolding blocks_result_def s(1) [of env, symmetric] s(7,11-14,17) append_Nil .
qed

section \<open>A chunk that ends with its segment\<close>

lemma waitbuf_last:
  assumes "chunk_size st = 0" "current_block st = Some i" "block_data st = Some data" "next_block st i = None"
    "insize st = u32 (int (length data) - Head_size st) \<or> insize st = u32 (int (length data) - Head_size st - 2)"
  shows "waitbuf st = Some (st\<lparr>Empty := True\<rparr>)"
proof -
  have st: "st\<lparr>chunk_size := 0\<rparr> = st" "st\<lparr>current_block := Some i, Empty := True\<rparr> = st\<lparr>Empty := True\<rparr>"
    using assms(1,2) by (auto intro: inflater.equality)
  show ?thesis using assms by (simp add: waitbuf_def st Let_def)
qed

lemma no_more_blocks:
  assumes "flag st = 0" "bb st = 0" "bk st = 0" "inptr st = insize st" "chunk_size st = 0"
    "current_block st = Some i" "block_data st = Some data" "next_block st i = None"
    "insize st = u32 (int (length data) - Head_size st) \<or> insize st = u32 (int (length data) - Head_size st - 2)"
  shows "\<exists>st'. inflate_block env st = Some (0, st') \<and> hflag st' = 1 \<and> he st' = he st \<and> hbk st' = 0 \<and> entries st' = entries st \<and>
    sent st' = sent st \<and> blocked st' = blocked st"
proof -
  let ?st = "st\<lparr>flag := 1, hflag := 1, hbb := 0, hbk := 0\<rparr>"
  have "block_data ?st = block_data st" "next_block ?st i = next_block st i" by (simp_all add: block_data_def next_block_def split: option.split)
  then have w: "waitbuf ?st = Some (?st\<lparr>Empty := True\<rparr>)" using assms(5-) by (intro waitbuf_last [where i = i and data = data]) simp_all
  have "needbits 1 0 0 (st\<lparr>flag := 1\<rparr>) = Some (Inl 0, ?st\<lparr>Empty := False\<rparr>)"
    using assms(4) w by (subst needbits.simps) simp
  then have "inflate_block env st = Some (0, ?st\<lparr>Empty := False\<rparr>)"
    using assms(1-3) by (simp add: inflate_block_def block_header_def next_step_def need_def)
  then show ?thesis by (simp add: entries_def)
qed

lemma later_blocks_lost:
  assumes ready: "member_ready st (b # bs) rest" "bs \<noteq> []" "u32 (chunk_size st) = insize st"
    and last: "current_block st = Some i" "block_data st = Some data" "next_block st i = None"
      "insize st = u32 (int (length data) - Head_size st) \<or> insize st = u32 (int (length data) - Head_size st - 2)"
  defines "es \<equiv> map item_entry (block_items b)"
  shows "case keyword_match (ie_page env) (ie_M env) (ie_utos env) es (length es) (g_win st) (g_st st) of
      None \<Rightarrow> inflate env st = None
    | Some (found, lines, win, stat) \<Rightarrow> \<exists>st'. inflate env st = Some (if found then 1 else 0, st') \<and>
        sent st' = sent st @ lines \<and> blocked st' = (blocked st \<or> found) \<and>
        (\<not> found \<longrightarrow> hflag st' = 1 \<and> hbk st' = 0 \<and> entries st' = es)"
proof -
  note s = start_member_ready [OF ready(1)]
  let ?st = "start_member st" and ?is = "block_items b"
  have ok: "block_ok b" "(0 :: nat) < 2" "block_bits b + 16 \<le> 8 * length (ready st)" "lit ?st + length ?is < LIT_BUFSIZE"
    using ready(1) s(6) by (simp_all add: member_defs page_bits_def page_items_def)
  have at: "at_bits \<lparr>r_b = bb ?st, r_k = bk ?st\<rparr> ?st (encode_block 0 b (encode_page bs rest)) (8 * length (ready st))"
    using s(4) ready(2) by simp
  note pr = inflate_block_ready [OF ok(1) s(2,3) ok(2) at ok(3) s(5) ok(4) s(8), of env]
  have es: "lit ?st + length ?is = length es" "entries (?st\<lparr>he := 0\<rparr>) @ map item_entry ?is = es"
    using s(6,7) by (simp_all add: es_def entries_def)
  let ?m = "keyword_match (ie_page env) (ie_M env) (ie_utos env) es (length es) (g_win st) (g_st st)"
  show ?thesis
  proof (cases ?m)
    case None
    then have "inflate_block env ?st = None" using pr by (simp add: page_result_def es s(11,12))
    then show ?thesis using None s(1) by (subst (asm) blocks_loop.simps) simp
  next
    case (Some q)
    obtain found lines win stat where q: "q = (found, lines, win, stat)" by (cases q)
    obtain st1 where p: "inflate_block env ?st = Some (if found then 1 else 0, st1)" "sent st1 = sent st @ lines"
      "blocked st1 = (blocked st \<or> found)" "entries st1 = es" "hflag st1 = 0" "flag st1 = 0" "he st1 = 0" "insize st1 = insize st"
      "blocks st1 = blocks st" "current_block st1 = current_block st" "Head_size st1 = Head_size st"
      "bb st1 = 0 \<and> bk st1 = 0 \<and> inptr st1 = insize st1 \<and> chunk_size st1 = 0"
      using pr Some q ready(3) unfolding page_result_def read_on_def by (cases found; cases "blocked st") (auto simp: es s(9-17))
    show ?thesis
    proof (cases found)
      case True
      then have "inflate env st = Some (1, st1)" unfolding s(1) using p(1) by (subst blocks_loop.simps) simp
      then show ?thesis using Some q True p(2,3) by simp
    next
      case False
      have "block_data st1 = block_data st" "next_block st1 i = next_block st i"
        using p(9,10) by (simp_all add: block_data_def next_block_def split: option.split)
      then have "current_block st1 = Some i" "block_data st1 = Some data" "next_block st1 i = None"
        "insize st1 = u32 (int (length data) - Head_size st1) \<or> insize st1 = u32 (int (length data) - Head_size st1 - 2)"
        using last p(8,10,11) by simp_all
      from no_more_blocks [OF p(6) _ _ _ _ this, of env] p(12) obtain st2 where n: "inflate_block env st1 = Some (0, st2)"
        "hflag st2 = 1" "he st2 = 0" "hbk st2 = 0" "entries st2 = es" "sent st2 = sent st1" "blocked st2 = blocked st1"
        using p(4,7) by auto
      have "blocks_loop env ?st = blocks_loop env st1" using p(1,5,7) False by (subst blocks_loop.simps) simp
      also have "\<dots> = Some (0, st2)" using n(1-3) by (subst blocks_loop.simps) simp
      finally show ?thesis using Some q False n(2-7) p(2,3) s(1) by simp
    qed
  qed
qed

end
