(* ===== verification/MemberMatch.thy ===== *)
theory MemberMatch
  imports InflateMember
begin

text \<open>
  Members as bytes: an encoder of pages, and what \<open>inflate\<close> makes of the bytes that it writes.
\<close>

section \<open>The bytes of a page\<close>

fun bytes_of :: "nat \<Rightarrow> nat \<Rightarrow> char list" where
  "bytes_of 0 s = []"
| "bytes_of (Suc n) s = char_of (s mod 256) # bytes_of n (s div 256)"

definition deflate :: "page_block list \<Rightarrow> char list" where
  \<comment> \<open>the blocks, filled up to a whole number of bytes\<close>
  "deflate bs = bytes_of ((page_bits bs + 7) div 8) (encode_page bs 0)"

lemma length_bytes_of [simp]: "length (bytes_of n s) = n"
  by (induction n s rule: bytes_of.induct) simp_all

lemma bytes_value_of: "s < 2 ^ (8 * n) \<Longrightarrow> bytes_value (bytes_of n s) = s"
proof (induction n s rule: bytes_of.induct)
  case (2 n s)
  then have "s < 2 ^ (8 * n) * 256" by (simp add: power_add mult.commute)
  then have "s div 256 < 2 ^ (8 * n)" by (rule less_mult_imp_div_less)
  with 2(1) show ?case by simp
qed simp

definition linear :: "nat \<Rightarrow> (nat \<Rightarrow> nat) \<Rightarrow> bool" where
  \<comment> \<open>an encoding of \<open>n\<close> bits in front of a stream\<close>
  "linear n f \<longleftrightarrow> (\<exists>c<2 ^ n. \<forall>rest. f rest = c + 2 ^ n * rest)"

lemma linear_comp: "linear m f \<Longrightarrow> linear n g \<Longrightarrow> linear (m + n) (\<lambda>rest. f (g rest))"
proof -
  assume "linear m f" "linear n g"
  then obtain c d where c: "c < 2 ^ m" "\<And>r. f r = c + 2 ^ m * r" and d: "d < 2 ^ n" "\<And>r. g r = d + 2 ^ n * r"
    by (auto simp: linear_def)
  have "c + 2 ^ m * d < 2 ^ (m + n)"
  proof -
    have "c + 2 ^ m * d < 2 ^ m * (d + 1)" using c(1) by simp
    also have "\<dots> \<le> 2 ^ m * 2 ^ n" using d(1) by (intro mult_le_mono2) simp
    finally show ?thesis by (simp add: power_add)
  qed
  moreover have "f (g r) = c + 2 ^ m * d + 2 ^ (m + n) * r" for r by (simp add: c(2) d(2) algebra_simps power_add)
  ultimately show ?thesis unfolding linear_def by blast
qed

lemma linear_value: "x < 2 ^ n \<Longrightarrow> linear n (\<lambda>rest. x + 2 ^ n * rest)"
  by (auto simp: linear_def)

lemma linear_id: "linear 0 (\<lambda>rest. rest)"
  by (simp add: linear_def)

lemma linear_code: "linear (b ! sy) (code_at b sy)"
  unfolding linear_def code_at_def using rev_bits_less by blast

lemma linear_items: "\<forall>i\<in>set is. item_ok lb db i \<Longrightarrow> linear (items_bits lb db is) (encode_items lb db is)"
proof (induction lb db "is" rule: items_bits.induct)
  case (1 lb db)
  show ?case using linear_code [of lb 256] by (simp add: linear_def)
next
  case (2 lb db c "is")
  then show ?case using linear_comp [OF linear_code [of lb c], of "items_bits lb db is" "encode_items lb db is"] by (simp add: linear_def)
next
  case (3 lb db sy x dy y "is")
  then have "x < 2 ^ (cplext ! (sy - 257))" "y < 2 ^ (cpdext ! dy)" "linear (items_bits lb db is) (encode_items lb db is)" by simp_all
  note l = linear_comp [OF linear_code [of lb sy] linear_comp [OF linear_value [OF this(1)] linear_comp [OF linear_code [of db dy]
    linear_comp [OF linear_value [OF this(2)] this(3)]]]]
  show ?case using l by (simp add: linear_def add.assoc)
qed

lemma linear_bit_lengths: "\<forall>j\<in>set js. cb ! (border ! j) < 2 ^ 3 \<Longrightarrow> linear (3 * length js) (encode_bit_lengths cb js)"
proof (induction js)
  case Nil
  show ?case using linear_id by (simp add: linear_def)
next
  case (Cons j js)
  then have "linear (3 + 3 * length js) (\<lambda>rest. cb ! (border ! j) + 2 ^ 3 * encode_bit_lengths cb js rest)"
    by (intro linear_comp [OF linear_value, where g = "encode_bit_lengths cb js"]) simp_all
  then show ?case by (simp add: linear_def)
qed

lemma length_ok_extra: "length_ok cb i \<Longrightarrow> extra_value i < 2 ^ extra_width i"
  by (cases i) (simp_all add: length_ok_def)

lemma linear_lengths: "\<forall>i\<in>set ls. length_ok cb i \<Longrightarrow> linear (lengths_bits cb ls) (encode_lengths cb ls)"
proof (induction ls)
  case Nil
  show ?case using linear_id by (simp add: linear_def)
next
  case (Cons i "is")
  then have "extra_value i < 2 ^ extra_width i" "linear (lengths_bits cb is) (encode_lengths cb is)"
    using length_ok_extra [of cb i] by simp_all
  from linear_comp [OF linear_code [of cb "item_symbol i"] linear_comp [OF linear_value [OF this(1)] this(2)]]
  show ?case by (simp add: linear_def add.assoc)
qed

lemma linear_dynamic: "dynamic_ok nb cb ls lb db \<Longrightarrow> linear (dynamic_bits nb cb ls) (encode_dynamic nb cb ls lb db)"
proof -
  assume ok: "dynamic_ok nb cb ls lb db"
  then have b: "length lb - 257 < 2 ^ 5" "length db - 1 < 2 ^ 5" "nb - 4 < 2 ^ 4" "\<forall>i\<in>set ls. length_ok cb i" "nb \<le> 19" "length cb = 19"
    "\<forall>k\<in>set cb. k < 2 ^ 3" by (auto simp: dynamic_ok_def)
  have "\<forall>j<19. border ! j < 19" by (simp add: border_def All_less_Suc2 numeral_eq_Suc)
  then have "\<forall>j\<in>set [0..<nb]. cb ! (border ! j) < 2 ^ 3" using b(5-7) by simp
  from linear_comp [OF linear_value [OF b(1)] linear_comp [OF linear_value [OF b(2)] linear_comp [OF linear_value [OF b(3)]
    linear_comp [OF linear_bit_lengths [OF this] linear_lengths [OF b(4)]]]]]
  have "linear (5 + (5 + (4 + (3 * nb + lengths_bits cb ls)))) (encode_dynamic nb cb ls lb db)" by (simp add: encode_dynamic_def [abs_def])
  then show ?thesis by (simp add: dynamic_bits_def add.assoc [symmetric])
qed

lemma linear_block: "block_ok b \<Longrightarrow> fin < 2 \<Longrightarrow> linear (block_bits b) (encode_block fin b)"
proof -
  assume ok: "block_ok b" and fin: "fin < 2"
  have h: "linear 3 (\<lambda>rest. fin + 2 * (t + 4 * rest))" if "t < 4" for t
  proof -
    have "linear 3 (\<lambda>rest. (fin + 2 * t) + 2 ^ 3 * rest)" using fin that by (intro linear_value) simp
    then show ?thesis by (simp add: linear_def algebra_simps)
  qed
  show ?thesis
  proof (cases b)
    case (Fixed "is")
    then have "linear (3 + items_bits fixed_lengths fixed_distances is) (\<lambda>rest. fin + 2 * (1 + 4 * encode_items fixed_lengths fixed_distances is rest))"
      using ok by (intro linear_comp [OF h] linear_items) simp_all
    then show ?thesis using Fixed by (simp add: linear_def)
  next
    case (Dynamic nb cb ls lb db "is")
    then have "linear (3 + (dynamic_bits nb cb ls + items_bits lb db is))
        (\<lambda>rest. fin + 2 * (2 + 4 * encode_dynamic nb cb ls lb db (encode_items lb db is rest)))"
      using ok by (intro linear_comp [OF h] linear_comp [OF linear_dynamic] linear_items) simp_all
    then show ?thesis using Dynamic by (simp add: linear_def)
  qed
qed

lemma linear_page: "\<forall>b\<in>set bs. block_ok b \<Longrightarrow> linear (page_bits bs) (encode_page bs)"
proof (induction bs)
  case Nil
  show ?case using linear_id by (simp add: linear_def page_bits_def)
next
  case (Cons b bs)
  then have "linear (block_bits b + page_bits bs) (\<lambda>rest. encode_block (if bs = [] then 1 else 0) b (encode_page bs rest))"
    by (intro linear_comp [OF linear_block]) simp_all
  then show ?case by (simp add: linear_def page_bits_def)
qed

lemma deflate_value:
  assumes "\<forall>b\<in>set bs. block_ok b"
  shows "\<exists>rest. bytes_value (deflate bs @ trailer) = encode_page bs rest" "page_bits bs \<le> 8 * length (deflate bs)"
proof -
  let ?n = "(page_bits bs + 7) div 8"
  obtain c where c: "c < 2 ^ page_bits bs" "\<And>rest. encode_page bs rest = c + 2 ^ page_bits bs * rest"
    using linear_page [OF assms] by (auto simp: linear_def)
  show n: "page_bits bs \<le> 8 * length (deflate bs)" by (simp add: deflate_def)
  then have le: "page_bits bs \<le> 8 * ?n" by (simp add: deflate_def)
  have "c < 2 ^ (8 * ?n)" using power_increasing [OF le, of "2 :: nat"] by (intro less_le_trans [OF c(1)]) simp_all
  then have "bytes_value (deflate bs) = c" using c(2) by (simp add: deflate_def bytes_value_of)
  then have "bytes_value (deflate bs @ trailer) = c + 2 ^ (8 * ?n) * bytes_value trailer" by (simp add: bytes_value_append) (simp add: deflate_def)
  also have "\<dots> = encode_page bs (2 ^ (8 * ?n - page_bits bs) * bytes_value trailer)"
    using le by (simp add: c(2) mult.assoc [symmetric] power_add [symmetric])
  finally show "\<exists>rest. bytes_value (deflate bs @ trailer) = encode_page bs rest" by blast
qed

definition page_ok :: "page_block list \<Rightarrow> bool" where
  \<comment> \<open>a page that fits into \<open>litter_buf\<close> and \<open>dist_buf\<close>\<close>
  "page_ok bs \<longleftrightarrow> bs \<noteq> [] \<and> (\<forall>b\<in>set bs. block_ok b) \<and> length (page_items bs) < LIT_BUFSIZE"

definition at_member :: "inflater \<Rightarrow> page_block list \<Rightarrow> bool" where
  \<comment> \<open>the rest of the chunk is the member and its trailer\<close>
  "at_member st bs \<longleftrightarrow> fresh_head st \<and> insize st \<le> length (inbuf st) \<and> (\<exists>trailer. ready st = deflate bs @ trailer \<and> 2 \<le> length trailer)"

lemma at_member_ready: "page_ok bs \<Longrightarrow> at_member st bs \<Longrightarrow> \<exists>rest. member_ready st bs rest"
proof -
  assume p: "page_ok bs" and m: "at_member st bs"
  then obtain trailer where t: "ready st = deflate bs @ trailer" "2 \<le> length trailer" by (auto simp: at_member_def)
  have ok: "\<forall>b\<in>set bs. block_ok b" using p by (simp add: page_ok_def)
  obtain rest where r: "bytes_value (deflate bs @ trailer) = encode_page bs rest" using deflate_value(1) [OF ok] by blast
  have "page_bits bs + 16 \<le> 8 * length (ready st)" using deflate_value(2) [OF ok] t by simp
  then have "member_data bs rest (ready st)" using p r t(1) by (simp add: member_data_def page_ok_def)
  then show ?thesis using m by (auto simp: member_ready_def at_member_def)
qed

section \<open>A segment\<close>

definition segment_head :: "char list \<Rightarrow> int \<Rightarrow> inflater" where
  \<comment> \<open>a head whose only segment begins with a member, in a chunk of the given size\<close>
  "segment_head data n = \<lparr>blocks = [data], current_block = Some 0, chunk_size = n, Head_size = 0, Http_flag = True, text_flag = True,
     gzip_flag = True, uchunk_flag = True, lit = 0, dist = 0, litter_buf = replicate LIT_BUFSIZE NUL, dist_buf = replicate LIT_BUFSIZE 0,
     blocked = False, hbb = 0, hbk = 0, ht = 0, he = 0, hflag = 0, hj = 0, hnb = 0, hnl = 0, hnd = 0, hll = replicate 316 0, hbl = 0,
     hbd = 0, hee = 0, hn = 0, htl = None, htd = None, htt = None, inbuf = data, insize = length data, inptr = 0, flag = 0, bb = 0,
     bk = 0, Empty = False, wp = 0, slide = \<lambda>_. 0, crc = 0, part_nb = 0, time_stamp = 0, header_bytes = 0, g_win = \<lambda>_. NUL,
     g_st = \<lambda>_. 0, sent = []\<rparr>"

lemma segment_head_simps [simp]: "insize (segment_head data n) = length data" "chunk_size (segment_head data n) = n"
  "current_block (segment_head data n) = Some 0" "block_data (segment_head data n) = Some data" "next_block (segment_head data n) 0 = None"
  "Head_size (segment_head data n) = 0" "sent (segment_head data n) = []" "blocked (segment_head data n) = False"
  "g_win (segment_head data n) = (\<lambda>_. NUL)" "g_st (segment_head data n) = (\<lambda>_. 0)"
  by (simp_all add: segment_head_def block_data_def next_block_def)

lemma segment_head_member: "2 \<le> length trailer \<Longrightarrow> at_member (segment_head (deflate bs @ trailer) n) bs"
  by (auto simp: at_member_def fresh_head_def) (simp_all add: segment_head_def ready_def)

section \<open>Pages without copies\<close>

fun item_char :: "page_item \<Rightarrow> char" where
  "item_char (Literal c) = char_of c"
| "item_char (Copy sy x dy y) = NUL"

definition page_text :: "page_block list \<Rightarrow> string" where
  "page_text bs = map item_char (page_items bs)"

definition literal_page :: "page_block list \<Rightarrow> bool" where
  "literal_page bs \<longleftrightarrow> (\<forall>i\<in>set (page_items bs). \<exists>c. i = Literal c)"

lemma literal_page_simps [simp]: "literal_page []"
  "literal_page (b # bs) \<longleftrightarrow> (\<forall>i\<in>set (block_items b). \<exists>c. i = Literal c) \<and> literal_page bs"
  "page_text [] = []" "page_text (b # bs) = map item_char (block_items b) @ page_text bs"
  by (auto simp: literal_page_def page_text_def page_items_def)

lemma literal_entries: "\<forall>i\<in>set is. \<exists>c. i = Literal c \<Longrightarrow> map item_entry is = map (\<lambda>c. (c, 0)) (map item_char is)"
  by (induction "is") auto

definition page_searched :: "page_env \<Rightarrow> string list \<Rightarrow> (string \<times> string) list \<Rightarrow> string \<Rightarrow>
    (bool \<times> (nat \<times> string) list \<times> (nat \<Rightarrow> char) \<times> (nat \<Rightarrow> int)) option \<Rightarrow> bool" where
  \<comment> \<open>a hit of the keywords \<open>ks\<close> on the page, or its crash in \<open>add_log\<close>\<close>
  "page_searched env ks utos page r \<longleftrightarrow> (let ends = (\<lambda>i. \<exists>k\<in>set ks. suffix k (take (Suc i) page)) in
     if \<exists>k\<in>set ks. sublist k page
     then r = None \<and> (\<exists>i<200. ends i) \<or>
       (\<exists>line win stat k ft. r = Some (True, [(LOGPORT, line)], win, stat) \<and> (\<forall>i<191. \<not> ends i) \<and> k \<in> set ks \<union> fst ` set utos \<and>
         split_on (CHR ''|'') line = entry_fields (pe_now env) (pe_location env) 0 [] [] [] k 0 ft @ [[CHR 0x0A]])
     else \<exists>win stat. r = Some (False, [], win, stat))"

lemma search_blocks_literals:
  assumes "\<forall>u\<in>set us. update_ok u" "us \<noteq> []" "\<forall>s. Add s \<in> set us \<longrightarrow> length s < 1024" "ofold list_update_step us [] = Some ks"
    and env: "tm_ok (pe_now pe)" "length (pe_test pe) = 1000" "length (pe_keyword pe) = 1024" "NUL \<in> set (pe_keyword pe)"
    and kw: "utos_ok utos" "\<forall>k\<in>set ks \<union> fst ` set utos. CHR ''|'' \<notin> set k \<and> length k < 300"
    and D: "ofold (apply_update add_str del_str) us down_ac = Some D"
    and page: "length (out @ page_text bs) + 1 < WSIZE" "NUL \<notin> set (out @ page_text bs)" "literal_page bs" "\<not> (\<exists>k\<in>set ks. sublist k out)"
  shows "page_searched pe ks utos (out @ page_text bs)
    (search_blocks \<lparr>ie_page = pe, ie_M = dM D, ie_utos = utos\<rparr> (map (\<lambda>c. (c, 0)) out) bs win stat)"
  using page
proof (induction bs arbitrary: out win stat)
  case Nil
  then show ?case by (simp add: page_searched_def)
next
  case (Cons b bs)
  let ?t = "map item_char (block_items b)"
  let ?page = "out @ ?t"
  let ?m = "keyword_match pe (dM D) utos (map (\<lambda>c. (c, 0)) ?page) (length ?page) win stat"
  have es: "map (\<lambda>c. (c, 0)) out @ map item_entry (block_items b) = map (\<lambda>c. (c, 0)) ?page"
    using Cons.prems(3) literal_entries [of "block_items b"] by simp
  have p: "length ?page + 1 < WSIZE" "NUL \<notin> set ?page" using Cons.prems by simp_all
  obtain win2 st2 where m: "let ends = (\<lambda>i. \<exists>k\<in>set ks. suffix k (take (Suc i) ?page)) in
     if \<exists>k\<in>set ks. sublist k ?page
     then \<exists>i<length ?page. ends i \<and> (\<forall>j<i. \<not> ends j) \<and>
       (if min (length ?page) (i + 10) \<le> 200 then ?m = None
        else \<exists>line k ft. ?m = Some (True, [(LOGPORT, line)], win2, st2) \<and> k \<in> set ks \<union> fst ` set utos \<and>
          sublist ft (clean (drop (min (length ?page) (i + 10) - 200) (take (i + 10) ?page))) \<and>
          split_on (CHR ''|'') line = entry_fields (pe_now pe) (pe_location pe) 0 [] [] [] k 0 ft @ [[CHR 0x0A]])
     else ?m = Some (False, [], win2, st2)"
    using keyword_match_page [OF assms(1-10) p, of win stat] D unfolding Let_def by auto
  show ?case
  proof (cases "\<exists>k\<in>set ks. sublist k ?page")
    case True
    with m obtain i where i: "i < length ?page" "\<exists>k\<in>set ks. suffix k (take (Suc i) ?page)" "\<forall>j<i. \<not> (\<exists>k\<in>set ks. suffix k (take (Suc j) ?page))"
      "if min (length ?page) (i + 10) \<le> 200 then ?m = None
        else \<exists>line k ft. ?m = Some (True, [(LOGPORT, line)], win2, st2) \<and> k \<in> set ks \<union> fst ` set utos \<and>
          sublist ft (clean (drop (min (length ?page) (i + 10) - 200) (take (i + 10) ?page))) \<and>
          split_on (CHR ''|'') line = entry_fields (pe_now pe) (pe_location pe) 0 [] [] [] k 0 ft @ [[CHR 0x0A]]"
      unfolding Let_def by (simp only: if_True) blast
    let ?all = "?page @ page_text bs"
    have pre: "take (Suc j) ?all = take (Suc j) ?page" if "j < length ?page" for j using that by simp
    have occ: "\<exists>k\<in>set ks. sublist k ?all" 
      using True sublist_append [of _ ?page "page_text bs"] by blast
    have "page_searched pe ks utos ?all ?m"
    proof (cases "min (length ?page) (i + 10) \<le> 200")
      case short: True
      then have "i < 200" using i(1) by linarith
      moreover have "?m = None" using short i(4) by (simp only: if_True)
      moreover have "\<exists>k\<in>set ks. suffix k (take (Suc i) ?all)" using i(2) pre [OF i(1)] by (simp only:)
      ultimately show ?thesis using occ unfolding page_searched_def Let_def by (simp only: if_True) blast
    next
      case False
      then have far: "j < length ?page" "j < i" if "j < 191" for j using that by linarith+
      have "\<not> (\<exists>k\<in>set ks. suffix k (take (Suc j) ?all))" if "j < 191" for j
        using i(3) far(2) [OF that] unfolding pre [OF far(1) [OF that]] by blast
      then show ?thesis using occ i(4) False unfolding page_searched_def Let_def by (simp only: if_True if_False) blast
    qed
    moreover have "search_blocks \<lparr>ie_page = pe, ie_M = dM D, ie_utos = utos\<rparr> (map (\<lambda>c. (c, 0)) out) (b # bs) win stat = ?m"
    proof (cases ?m)
      case (Some q)
      have "fst q" using i(4) Some by (auto split: if_splits)
      then show ?thesis using Some by (cases q) (simp add: es Let_def)
    qed (simp add: es Let_def)
    ultimately show ?thesis by simp
  next
    case False
    then have "?m = Some (False, [], win2, st2)" using m by simp
    moreover have "page_searched pe ks utos (?page @ page_text bs)
        (search_blocks \<lparr>ie_page = pe, ie_M = dM D, ie_utos = utos\<rparr> (map (\<lambda>c. (c, 0)) ?page) bs win2 st2)"
      using Cons.prems False by (intro Cons.IH) simp_all
    ultimately show ?thesis by (simp add: es Let_def del: map_append split: option.split)
  qed
qed

section \<open>Filtered pages\<close>

definition page_filtered :: "page_env \<Rightarrow> string list \<Rightarrow> (string \<times> string) list \<Rightarrow> string \<Rightarrow> inflater \<Rightarrow> inflater option \<Rightarrow> bool" where
  \<comment> \<open>a page is passed over, or blocked with one line sent, or makes \<open>add_log\<close> write in front of its array\<close>
  "page_filtered env ks utos page st res \<longleftrightarrow> (let ends = (\<lambda>i. \<exists>k\<in>set ks. suffix k (take (Suc i) page)) in
     if \<exists>k\<in>set ks. sublist k page
     then res = None \<and> (\<exists>i<200. ends i) \<or>
       (\<exists>st' line k ft. res = Some st' \<and> blocked st' \<and> sent st' = sent st @ [(LOGPORT, line)] \<and> (\<forall>i<191. \<not> ends i) \<and>
         k \<in> set ks \<union> fst ` set utos \<and>
         split_on (CHR ''|'') line = entry_fields (pe_now env) (pe_location env) 0 [] [] [] k 0 ft @ [[CHR 0x0A]])
     else \<exists>st'. res = Some st' \<and> blocked st' = blocked st \<and> sent st' = sent st)"

lemma page_filtered_result:
  assumes "page_searched env ks utos page r"
    and "case r of None \<Rightarrow> res = None | Some (found, lines, win, stat) \<Rightarrow> \<exists>st'. res = Some st' \<and> sent st' = sent st @ lines \<and> blocked st' = (blocked st \<or> found)"
  shows "page_filtered env ks utos page st res"
proof (cases "\<exists>k\<in>set ks. sublist k page")
  case True
  with assms(1) consider "r = None" "\<exists>i<200. \<exists>k\<in>set ks. suffix k (take (Suc i) page)"
    | line win stat k ft where "r = Some (True, [(LOGPORT, line)], win, stat)" "\<forall>i<191. \<not> (\<exists>k\<in>set ks. suffix k (take (Suc i) page))"
      "k \<in> set ks \<union> fst ` set utos"
      "split_on (CHR ''|'') line = entry_fields (pe_now env) (pe_location env) 0 [] [] [] k 0 ft @ [[CHR 0x0A]]"
    unfolding page_searched_def Let_def by (simp only: if_True) (elim disjE exE conjE, blast, blast)
  then show ?thesis
  proof cases
    case 1
    then show ?thesis using True assms(2) unfolding page_filtered_def Let_def by (simp only: if_True) simp
  next
    case 2
    then obtain st' where "res = Some st'" "blocked st'" "sent st' = sent st @ [(LOGPORT, line)]" using assms(2) by auto
    then show ?thesis using True 2(2-4) unfolding page_filtered_def Let_def by (simp only: if_True) blast
  qed
next
  case False
  with assms(1) obtain win stat where "r = Some (False, [], win, stat)" unfolding page_searched_def Let_def by (simp only: if_False) blast
  then show ?thesis using False assms(2) unfolding page_filtered_def Let_def by (simp only: if_False) auto
qed

lemma page_filtered_moves:
  assumes "page_filtered env ks utos page st res" "sent st2 = sent st" "blocked st2 = blocked st"
    and "\<And>st'. res = Some st' \<Longrightarrow> \<exists>st''. res' = Some st'' \<and> sent st'' = sent st' \<and> blocked st'' = blocked st'"
    and "res = None \<Longrightarrow> res' = None"
  shows "page_filtered env ks utos page st2 res'"
proof (cases "\<exists>k\<in>set ks. sublist k page")
  case True
  show ?thesis
  proof (cases res)
    case None
    then show ?thesis using True assms unfolding page_filtered_def Let_def by (simp only: if_True)
  next
    case (Some st')
    then obtain st'' where "res' = Some st''" "sent st'' = sent st'" "blocked st'' = blocked st'" using assms(4) by blast
    then show ?thesis using True assms(1-3) Some unfolding page_filtered_def Let_def by (simp only: if_True) simp
  qed
next
  case False
  then obtain st' where "res = Some st'" "blocked st' = blocked st" "sent st' = sent st"
    using assms(1) unfolding page_filtered_def Let_def by (simp only: if_False) blast
  then show ?thesis using False assms(2-4) unfolding page_filtered_def Let_def by (simp only: if_False) fastforce
qed

lemma inflate_filtered:
  assumes "\<forall>u\<in>set us. update_ok u" "us \<noteq> []" "\<forall>s. Add s \<in> set us \<longrightarrow> length s < 1024" "ofold list_update_step us [] = Some ks"
    and env: "tm_ok (pe_now pe)" "length (pe_test pe) = 1000" "length (pe_keyword pe) = 1024" "NUL \<in> set (pe_keyword pe)"
    and kw: "utos_ok utos" "\<forall>k\<in>set ks \<union> fst ` set utos. CHR ''|'' \<notin> set k \<and> length k < 300" "[] \<notin> set ks"
    and D: "ofold (apply_update add_str del_str) us down_ac = Some D"
    and page: "page_ok bs" "literal_page bs" "length (page_text bs) + 1 < WSIZE" "NUL \<notin> set (page_text bs)"
    and st: "at_member st bs" "u32 (chunk_size st) \<noteq> insize st \<or> length bs = 1"
  defines "res \<equiv> inflate \<lparr>ie_page = pe, ie_M = dM D, ie_utos = utos\<rparr> st"
  shows "page_filtered pe ks utos (page_text bs) st (map_option snd res)" "res = Some (r, st') \<Longrightarrow> current_block st' = current_block st"
proof -
  have ks: "\<not> (\<exists>k\<in>set ks. sublist k [])" using kw(3) by auto
  let ?env = "\<lparr>ie_page = pe, ie_M = dM D, ie_utos = utos\<rparr>"
  have "page_searched pe ks utos ([] @ page_text bs) (search_blocks ?env (map (\<lambda>c. (c, 0)) []) bs (g_win st) (g_st st))"
    by (rule search_blocks_literals [OF assms(1-10) D]) (use page(2-4) ks in auto)
  then have s: "page_searched pe ks utos (page_text bs) (search_blocks ?env [] bs (g_win st) (g_st st))" by simp
  obtain rest where "member_ready st bs rest" using at_member_ready [OF page(1) st(1)] by blast
  note i = inflate_blocks [OF this st(2), of ?env, folded res_def]
  show "page_filtered pe ks utos (page_text bs) st (map_option snd res)"
    by (rule page_filtered_result [OF s]) (use i in \<open>auto split: option.splits\<close>)
  show "current_block st' = current_block st" if "res = Some (r, st')" using i that by (auto split: option.splits prod.splits)
qed

section \<open>Two pages\<close>

definition two_blocks :: "page_block list" where
  \<comment> \<open>a literal and a copy with the fixed codes, a literal with codes of one bit\<close>
  "two_blocks = [Fixed [Literal 97, Copy 257 0 3 0],
     Dynamic 18 (0 # 1 # replicate 16 0 @ [1]) [MoreZeros 86, Len 1, MoreZeros 127, MoreZeros 9, Len 1, Len 1, Len 1]
       (replicate 97 0 @ 1 # replicate 158 0 @ [1]) [1, 1] [Literal 97]]"

lemma nth_member: "i < length xs \<Longrightarrow> y \<notin> set xs \<Longrightarrow> xs ! i \<noteq> y"
  by (auto dest: nth_mem)

lemma kraft_zeros: "kraft_sum (replicate n 0) = 0" "kraft_sum (k # xs) = (if k = 0 then 0 else 2 ^ (BMAX - k)) + kraft_sum xs" "kraft_sum [] = 0"
  by (simp_all add: kraft_sum_def)

lemma two_blocks_ok: "page_ok two_blocks"
proof -
  let ?cb = "0 # 1 # replicate 16 0 @ [1 :: nat]" and ?lb = "replicate 97 0 @ 1 # replicate 158 0 @ [1 :: nat]"
  let ?ls = "[MoreZeros 86, Len 1, MoreZeros 127, MoreZeros 9, Len 1, Len 1, Len 1]"
  have k: "kraft_sum ?cb = 2 ^ BMAX" "kraft_sum ?lb = 2 ^ BMAX" "kraft_sum [1, 1] = 2 ^ BMAX"
    unfolding kraft_append kraft_zeros by (simp_all add: BMAX_def)
  have l: "?lb ! 97 = 1" "?lb ! 256 = 1" "?cb ! 1 = 1" "?cb ! 18 = 1" by (simp_all add: nth_append)
  have e: "expand 0 ?ls = ?lb @ [1, 1]" by (simp add: replicate_add [symmetric] append_assoc [symmetric] del: append_assoc)
  have last: "?cb ! (border ! j) = 0" if "j < 19" "18 \<le> j" for j
  proof -
    have "j = 18" using that by simp
    then show ?thesis by (simp add: border_def nth_append)
  qed
  have "dynamic_ok 18 ?cb ?ls ?lb [1, 1]"
    unfolding dynamic_ok_def using k l(2) e last by (simp add: length_ok_def l(3,4) nth_append)
  moreover have f: "fixed_lengths ! i \<noteq> 0" if "i < 288" for i
    by (rule nth_member) (use that in \<open>simp_all add: fixed_lengths_props\<close>)
  then have "item_ok fixed_lengths fixed_distances (Literal 97)" "item_ok fixed_lengths fixed_distances (Copy 257 0 3 0)"
    by (simp_all add: fixed_lengths_props fixed_distances_def)
  ultimately show ?thesis using l(1) by (simp add: page_ok_def two_blocks_def page_items_def LIT_BUFSIZE_def)
qed

lemma fixed_literals_ok:
  assumes "\<forall>c\<in>set cs. c < 256" "length cs < LIT_BUFSIZE"
  shows "page_ok [Fixed (map Literal cs)]" "literal_page [Fixed (map Literal cs)]" "page_text [Fixed (map Literal cs)] = map char_of cs"
proof -
  have "fixed_lengths ! i \<noteq> 0" if "i < 256" for i
    by (rule nth_member) (use that in \<open>simp_all add: fixed_lengths_props\<close>)
  then have "\<forall>i\<in>set (map Literal cs). item_ok fixed_lengths fixed_distances i" using assms(1) by (auto simp: fixed_lengths_props)
  moreover have "short_runs 0 (map Literal cs)" by (induction cs) simp_all
  ultimately show "page_ok [Fixed (map Literal cs)]" using assms(2) by (simp add: page_ok_def page_items_def)
qed auto

lemma char_a: "char_of (97 :: nat) = CHR ''a''" "char_of (98 :: nat) = CHR ''b''" "char_of (0 :: nat) = NUL"
  by code_simp+

lemma u32_next: "u32 (int n + 1) \<noteq> n"
proof
  assume n: "u32 (int n + 1) = n"
  then have m: "(int n + 1) mod 2 ^ 32 = int n" by (simp add: u32_def nat_eq_iff)
  then have "int n < 2 ^ 32" using pos_mod_bound [of "2 ^ 32" "int n + 1"] by simp
  then have "int n + 1 = 2 ^ 32 \<or> (int n + 1) mod 2 ^ 32 = int n + 1" by (auto intro: mod_pos_pos_trivial)
  then show False using m by (elim disjE) simp_all
qed

section \<open>Results\<close>

text \<open>C12: Any page of fixed and dynamic blocks, written as \<open>deflate\<close> writes it and followed by a trailer of at least two bytes,
  is decoded to its literals and copies, block for block, and searched after each block, up to the first hit, when the
  chunk ends behind the segment or before its end, or there is one block only.  The result is 1, and the stream is to be
  blocked, when there has been a hit; the lines go out in their order.\<close>

theorem inflate_deflate:
  assumes "page_ok bs" "at_member st bs" "u32 (chunk_size st) \<noteq> insize st \<or> length bs = 1"
  shows "case search_blocks env [] bs (g_win st) (g_st st) of
      None \<Rightarrow> inflate env st = None
    | Some (found, lines, win, stat) \<Rightarrow> \<exists>st'. inflate env st = Some (if found then 1 else 0, st') \<and>
        sent st' = sent st @ lines \<and> blocked st' = (blocked st \<or> found) \<and> g_win st' = win \<and> g_st st' = stat \<and> hflag st' = 0 \<and>
        current_block st' = current_block st \<and> (\<not> found \<longrightarrow> entries st' = map item_entry (page_items bs))"
proof -
  obtain rest where "member_ready st bs rest" using at_member_ready [OF assms(1,2)] by blast
  from inflate_blocks [OF this assms(3), of env] show ?thesis .
qed

theorem inflate_deflate_witness:
  "\<forall>env. let data = deflate two_blocks @ replicate 8 NUL in
     case search_blocks env [] two_blocks (\<lambda>_. NUL) (\<lambda>_. 0) of
      None \<Rightarrow> inflate env (segment_head data (int (length data) + 1)) = None
    | Some (found, lines, win, stat) \<Rightarrow> \<exists>st'. inflate env (segment_head data (int (length data) + 1)) = Some (if found then 1 else 0, st') \<and>
        sent st' = lines \<and> blocked st' = found \<and> (\<not> found \<longrightarrow> entries st' = [(CHR ''a'', 0), (NUL, 4), (CHR ''a'', 0)])"
proof (rule allI)
  fix env
  define data where "data = deflate two_blocks @ replicate 8 NUL"
  let ?st = "segment_head data (int (length data) + 1)"
  have "at_member ?st two_blocks" unfolding data_def by (rule segment_head_member) simp
  moreover have "u32 (chunk_size ?st) \<noteq> insize ?st \<or> length two_blocks = 1" using u32_next by simp
  moreover have "map item_entry (page_items two_blocks) = [(CHR ''a'', 0), (NUL, 4), (CHR ''a'', 0)]"
    by (simp add: two_blocks_def page_items_def cplens_def cpdist_def char_a)
  ultimately show "let data = deflate two_blocks @ replicate 8 NUL in
     case search_blocks env [] two_blocks (\<lambda>_. NUL) (\<lambda>_. 0) of
      None \<Rightarrow> inflate env (segment_head data (int (length data) + 1)) = None
    | Some (found, lines, win, stat) \<Rightarrow> \<exists>st'. inflate env (segment_head data (int (length data) + 1)) = Some (if found then 1 else 0, st') \<and>
        sent st' = lines \<and> blocked st' = found \<and> (\<not> found \<longrightarrow> entries st' = [(CHR ''a'', 0), (NUL, 4), (CHR ''a'', 0)])"
    using inflate_deflate [OF two_blocks_ok, of ?st env] unfolding data_def [symmetric] Let_def
    by (auto split: option.splits)
qed

text \<open>C13: When the chunk ends with the last segment that has come, the bits behind the first block are dropped: only the
  entries of this block are searched, whatever blocks follow.  Without a hit the run is suspended at the header of the next
  block with no bits at all.\<close>

theorem later_blocks_dropped:
  assumes "page_ok (b # bs)" "at_member st (b # bs)" "bs \<noteq> []" "u32 (chunk_size st) = insize st"
    and last: "current_block st = Some i" "block_data st = Some data" "next_block st i = None"
      "insize st = u32 (int (length data) - Head_size st) \<or> insize st = u32 (int (length data) - Head_size st - 2)"
  shows "case search_blocks env [] [b] (g_win st) (g_st st) of
      None \<Rightarrow> inflate env st = None
    | Some (found, lines, win, stat) \<Rightarrow> \<exists>st'. inflate env st = Some (if found then 1 else 0, st') \<and>
        sent st' = sent st @ lines \<and> blocked st' = (blocked st \<or> found) \<and>
        (\<not> found \<longrightarrow> hflag st' = 1 \<and> hbk st' = 0 \<and> entries st' = map item_entry (block_items b))"
proof -
  obtain rest where r: "member_ready st (b # bs) rest" using at_member_ready [OF assms(1,2)] by blast
  from later_blocks_lost [OF r assms(3,4) last, of env] show ?thesis by (auto split: option.splits if_splits)
qed

theorem later_blocks_dropped_witness:
  "\<forall>env. let data = deflate [Fixed [Literal 97], Fixed [Literal 98]] @ replicate 8 NUL in
     case search_blocks env [] [Fixed [Literal 97]] (\<lambda>_. NUL) (\<lambda>_. 0) of
      None \<Rightarrow> inflate env (segment_head data (int (length data))) = None
    | Some (found, lines, win, stat) \<Rightarrow> \<exists>st'. inflate env (segment_head data (int (length data))) = Some (if found then 1 else 0, st') \<and>
        sent st' = lines \<and> blocked st' = found \<and> (\<not> found \<longrightarrow> hflag st' = 1 \<and> hbk st' = 0 \<and> entries st' = [(CHR ''a'', 0)])"
proof (rule allI)
  fix env
  define data where "data = deflate [Fixed [Literal 97], Fixed [Literal 98]] @ replicate 8 NUL"
  let ?st = "segment_head data (int (length data))"
  have ok: "page_ok [Fixed [Literal 97], Fixed [Literal 98]]"
    using fixed_literals_ok(1) [of "[97]"] fixed_literals_ok(1) [of "[98]"] by (simp add: page_ok_def page_items_def LIT_BUFSIZE_def)
  have at: "at_member ?st [Fixed [Literal 97], Fixed [Literal 98]]" unfolding data_def by (rule segment_head_member) simp
  have "fixed_lengths ! 97 = 8" "fixed_lengths ! 98 = 8" by (simp_all add: fixed_lengths_def nth_append)
  then have "length data = 13" by (simp add: data_def deflate_def page_bits_def fixed_lengths_props)
  then have u: "u32 (int (length data)) = length data" by (simp add: u32_def)
  have e: "map item_entry (block_items (Fixed [Literal 97])) = [(CHR ''a'', 0)]" by (simp add: char_a)
  have h: "case search_blocks env [] [Fixed [Literal 97]] (g_win ?st) (g_st ?st) of
      None \<Rightarrow> inflate env ?st = None
    | Some (found, lines, win, stat) \<Rightarrow> \<exists>st'. inflate env ?st = Some (if found then 1 else 0, st') \<and>
        sent st' = sent ?st @ lines \<and> blocked st' = (blocked ?st \<or> found) \<and>
        (\<not> found \<longrightarrow> hflag st' = 1 \<and> hbk st' = 0 \<and> entries st' = map item_entry (block_items (Fixed [Literal 97])))"
    by (rule later_blocks_dropped [OF ok at, where i = 0 and data = data]) (simp_all add: u)
  show "let data = deflate [Fixed [Literal 97], Fixed [Literal 98]] @ replicate 8 NUL in
     case search_blocks env [] [Fixed [Literal 97]] (\<lambda>_. NUL) (\<lambda>_. 0) of
      None \<Rightarrow> inflate env (segment_head data (int (length data))) = None
    | Some (found, lines, win, stat) \<Rightarrow> \<exists>st'. inflate env (segment_head data (int (length data))) = Some (if found then 1 else 0, st') \<and>
        sent st' = lines \<and> blocked st' = found \<and> (\<not> found \<longrightarrow> hflag st' = 1 \<and> hbk st' = 0 \<and> entries st' = [(CHR ''a'', 0)])"
    using h unfolding e data_def [symmetric] Let_def segment_head_simps append_Nil simp_thms .
qed

end
