(* ===== verification/GzipMember.thy ===== *)
theory GzipMember
  imports MemberMatch
begin

text \<open>
  A gzip member: \<open>get_method\<close> skips the header, whatever of its optional fields it has, and \<open>uncompress\<close> decodes the blocks
  behind it and has the page searched.
\<close>

section \<open>Reading bytes\<close>

definition rest_at :: "inflater \<Rightarrow> nat \<Rightarrow> char list \<Rightarrow> bool" where
  "rest_at st i bs \<longleftrightarrow> drop i (inbuf st) = bs \<and> i \<le> length (inbuf st)"

definition moved :: "inflater \<Rightarrow> int \<Rightarrow> nat \<Rightarrow> nat \<Rightarrow> nat \<Rightarrow> inflater" where
  \<comment> \<open>what \<open>get_method\<close> changes\<close>
  "moved st p b t i = st\<lparr>part_nb := p, header_bytes := b, time_stamp := t, inptr := i\<rparr>"

lemma moved_simps [simp]:
  "inptr (moved st p b t i) = i" "inbuf (moved st p b t i) = inbuf st" "part_nb (moved st p b t i) = p"
  "(moved st p b t i)\<lparr>inptr := j\<rparr> = moved st p b t j" "(moved st p b t i)\<lparr>part_nb := q\<rparr> = moved st q b t i"
  "(moved st p b t i)\<lparr>header_bytes := c\<rparr> = moved st p c t i" "(moved st p b t i)\<lparr>time_stamp := u\<rparr> = moved st p b u i"
  by (auto simp: moved_def intro: inflater.equality)

lemma moved_start: "moved st (part_nb st) (header_bytes st) (time_stamp st) (inptr st) = st"
  by (auto simp: moved_def intro: inflater.equality)

lemma rest_at_append: "rest_at st i (xs @ bs) \<Longrightarrow> rest_at st (i + length xs) bs"
proof -
  assume a: "rest_at st i (xs @ bs)"
  then have "length (inbuf st) - i = length xs + length bs" "i \<le> length (inbuf st)"
    unfolding rest_at_def by (simp_all flip: length_drop)
  then have "i + length xs \<le> length (inbuf st)" by linarith
  moreover have "drop (length xs) (drop i (inbuf st)) = bs" using a by (simp add: rest_at_def del: drop_drop)
  ultimately show ?thesis by (simp add: rest_at_def add.commute)
qed

lemma rest_at_Cons: "rest_at st i (c # bs) \<Longrightarrow> rest_at st (Suc i) bs"
  using rest_at_append [of st i "[c]" bs] by simp

lemma get_byte_moved: "rest_at st i (c # bs) \<Longrightarrow> get_byte (moved st p b t i) = Some (of_char c, moved st p b t (Suc i))"
proof -
  assume a: "rest_at st i (c # bs)"
  then have "i < length (inbuf st)" by (metis drop_eq_Nil2 linorder_not_less list.distinct(1) rest_at_def)
  moreover have "inbuf st ! i = c" using a calculation by (metis hd_drop_conv_nth list.sel(1) rest_at_def)
  ultimately show ?thesis by (simp add: get_byte_def)
qed

lemma get_bytes_moved: "rest_at st i (xs @ bs) \<Longrightarrow> get_bytes (length xs) (moved st p b t i) = Some (bytes_value xs, moved st p b t (i + length xs))"
proof (induction xs arbitrary: i)
  case (Cons x xs)
  then have "rest_at st i (x # xs @ bs)" by simp
  then show ?case using get_byte_moved [of st i x "xs @ bs"] Cons.IH [of "Suc i"] rest_at_Cons [of st i x "xs @ bs"] by simp
qed simp

lemma skip_name_moved:
  assumes "rest_at st i (s @ NUL # bs)" "NUL \<notin> set s"
  shows "skip_name (moved st p b t i) = Some (length s + 1, moved st p b t (i + (length s + 1)))"
proof -
  have "drop i (inbuf st) = s @ NUL # bs" using assms(1) by (simp add: rest_at_def)
  moreover have "takeWhile (\<lambda>c. c \<noteq> NUL) (s @ NUL # bs) = s" using assms(2) by (auto simp: takeWhile_append takeWhile_eq_all_conv)
  ultimately show ?thesis by (simp add: skip_name_def Let_def add.assoc)
qed

section \<open>The header\<close>

record gzip_header =
  gh_flag :: nat               \<comment> \<open>the bit \<open>ASCII\<close>, which is ignored\<close>
  gh_stamp :: "char list"      \<comment> \<open>four bytes\<close>
  gh_extra_flags :: char
  gh_os :: char
  gh_part :: "(char \<times> char) option"
  gh_extra :: "string option"
  gh_name :: "string option"
  gh_comment :: "string option"

definition gzip_flags :: "gzip_header \<Rightarrow> nat" where
  "gzip_flags h = gh_flag h + (if gh_part h = None then 0 else 2) + (if gh_extra h = None then 0 else 4) +
     (if gh_name h = None then 0 else 8) + (if gh_comment h = None then 0 else 16)"

definition part_bytes :: "gzip_header \<Rightarrow> char list" where
  "part_bytes h = (case gh_part h of None \<Rightarrow> [] | Some (x, y) \<Rightarrow> [x, y])"

definition extra_bytes :: "gzip_header \<Rightarrow> char list" where
  "extra_bytes h = (case gh_extra h of None \<Rightarrow> [] | Some e \<Rightarrow> bytes_of 2 (length e) @ e)"

definition name_bytes :: "string option \<Rightarrow> char list" where
  "name_bytes n = (case n of None \<Rightarrow> [] | Some n \<Rightarrow> n @ [NUL])"

definition gzip_bytes :: "gzip_header \<Rightarrow> char list" where
  "gzip_bytes h = [CHR 0x1F, CHR 0x8B, CHR 0x08, char_of (gzip_flags h)] @ gh_stamp h @ [gh_extra_flags h, gh_os h] @
     part_bytes h @ extra_bytes h @ name_bytes (gh_name h) @ name_bytes (gh_comment h)"

definition gzip_header_ok :: "gzip_header \<Rightarrow> bool" where
  \<comment> \<open>a name fits into \<open>ofname\<close>\<close>
  "gzip_header_ok h \<longleftrightarrow> gh_flag h < 2 \<and> length (gh_stamp h) = 4 \<and> (\<forall>e. gh_extra h = Some e \<longrightarrow> length e < 2 ^ 16) \<and>
     (\<forall>n. gh_name h = Some n \<longrightarrow> NUL \<notin> set n \<and> length n < MAX_PATH_LEN) \<and> (\<forall>c. gh_comment h = Some c \<longrightarrow> NUL \<notin> set c)"

lemma flags_bits:
  assumes "gh_flag h < 2"
  shows "bit (gzip_flags h) 1 = (gh_part h \<noteq> None)" "bit (gzip_flags h) 2 = (gh_extra h \<noteq> None)" "bit (gzip_flags h) 3 = (gh_name h \<noteq> None)"
    "bit (gzip_flags h) 4 = (gh_comment h \<noteq> None)" "gzip_flags h < 256"
proof -
  have "gh_flag h = 0 \<or> gh_flag h = 1" using assms by linarith
  then show "bit (gzip_flags h) 1 = (gh_part h \<noteq> None)" "bit (gzip_flags h) 2 = (gh_extra h \<noteq> None)" "bit (gzip_flags h) 3 = (gh_name h \<noteq> None)"
    "bit (gzip_flags h) 4 = (gh_comment h \<noteq> None)" "gzip_flags h < 256"
    by (auto simp: gzip_flags_def bit_iff_odd)
qed

lemma magic_bytes: "of_char (CHR 0x1F) = (0x1F :: nat)" "of_char (CHR 0x8B) = (0x8B :: nat)" "of_char (CHR 0x08) = (8 :: nat)"
  by simp_all

lemma optional_part:
  assumes "rest_at st i (part_bytes h @ bs)"
  shows "\<exists>v. (if gh_part h \<noteq> None then get_bytes 2 (moved st p b t i) else Some (0, moved st p b t i)) =
    Some (v, moved st p b t (i + length (part_bytes h)))"
  using assms get_bytes_moved [of st i "part_bytes h" bs p b t] by (auto simp: part_bytes_def numeral_2_eq_2 split: option.splits)

lemma optional_extra:
  assumes "rest_at st i (extra_bytes h @ bs)" "\<forall>e. gh_extra h = Some e \<longrightarrow> length e < 2 ^ 16"
  shows "\<exists>v. (if gh_extra h \<noteq> None then do { (n, st) \<leftarrow> get_bytes 2 (moved st p b t i); get_bytes n st } else Some (0, moved st p b t i)) =
    Some (v, moved st p b t (i + length (extra_bytes h)))"
proof (cases "gh_extra h")
  case (Some e)
  have r: "rest_at st i (bytes_of 2 (length e) @ e @ bs)" using assms(1) Some by (simp add: extra_bytes_def)
  have n: "bytes_value (bytes_of 2 (length e)) = length e" using assms(2) Some by (intro bytes_value_of) simp
  have "get_bytes 2 (moved st p b t i) = Some (length e, moved st p b t (i + 2))" using get_bytes_moved [OF r, of p b t] n by simp
  moreover have "rest_at st (i + 2) (e @ bs)" using rest_at_append [OF r] by simp
  then have "get_bytes (length e) (moved st p b t (i + 2)) = Some (bytes_value e, moved st p b t (i + 2 + length e))" by (rule get_bytes_moved)
  ultimately show ?thesis using Some by (simp add: extra_bytes_def add.assoc)
qed (simp add: extra_bytes_def)

lemma optional_name:
  assumes "rest_at st i (name_bytes n @ bs)" "\<forall>s. n = Some s \<longrightarrow> NUL \<notin> set s"
  shows "(if n \<noteq> None then skip_name (moved st p b t i) else Some (0, moved st p b t i)) =
    Some (length (name_bytes n), moved st p b t (i + length (name_bytes n)))"
proof (cases n)
  case (Some s)
  then have "rest_at st i (s @ NUL # bs)" "NUL \<notin> set s" using assms by (simp_all add: name_bytes_def)
  from skip_name_moved [OF this, of p b t] show ?thesis using Some by (simp add: name_bytes_def)
qed (simp add: name_bytes_def)

lemma get_method_header:
  assumes "gzip_header_ok h" "rest_at st i (gzip_bytes h @ data)" "part_nb st = 0" "inptr st = i"
  shows "\<exists>b t. get_method st = Some (8, moved st 1 b t (i + length (gzip_bytes h)))"
proof -
  let ?i4 = "Suc (Suc (Suc (Suc i)))" and ?f = "char_of (gzip_flags h)"
  let ?P = "part_bytes h" and ?E = "extra_bytes h" and ?N = "name_bytes (gh_name h)" and ?C = "name_bytes (gh_comment h)"
  have ok: "gh_flag h < 2" "length (gh_stamp h) = 4" "\<forall>e. gh_extra h = Some e \<longrightarrow> length e < 2 ^ 16"
    "\<forall>n. gh_name h = Some n \<longrightarrow> NUL \<notin> set n" "\<forall>c. gh_comment h = Some c \<longrightarrow> NUL \<notin> set c" "length ?N \<le> MAX_PATH_LEN"
    using assms(1) by (auto simp: gzip_header_ok_def name_bytes_def split: option.splits)
  note fl = flags_bits [OF ok(1)]
  have r0: "rest_at st i (CHR 0x1F # CHR 0x8B # CHR 0x08 # ?f # gh_stamp h @ [gh_extra_flags h, gh_os h] @ ?P @ ?E @ ?N @ ?C @ data)"
    using assms(2) by (simp add: gzip_bytes_def)
  note r1 = rest_at_Cons [OF r0] note r2 = rest_at_Cons [OF r1] note r3 = rest_at_Cons [OF r2] note r4 = rest_at_Cons [OF r3]
  note r5 = rest_at_append [OF r4] note r6 = rest_at_append [OF r5] note r7 = rest_at_append [OF r6]
  note r8 = rest_at_append [OF r7] note r9 = rest_at_append [OF r8]
  define b0 where "b0 = header_bytes st"
  define t0 where "t0 = time_stamp st"
  define v where "v = bytes_value (gh_stamp h)"
  define t where "t = (if v \<noteq> 0 then v else t0)"
  have st: "st = moved st 0 b0 t0 i" using moved_start [of st] assms(3,4) by (simp add: b0_def t0_def)
  note g0 = get_byte_moved [OF r0, of 0 b0 t0, unfolded magic_bytes] and g1 = get_byte_moved [OF r1, of 0 b0 t0, unfolded magic_bytes]
  note g2 = get_byte_moved [OF r2, of 1 0 t0, unfolded magic_bytes]
  have g3: "get_byte (moved st 1 0 t0 (Suc (Suc (Suc i)))) = Some (gzip_flags h, moved st 1 0 t0 ?i4)"
    using get_byte_moved [OF r3, of 1 0 t0] fl(5) by simp
  have g4: "get_bytes 4 (moved st 1 0 t0 ?i4) = Some (v, moved st 1 0 t0 (?i4 + 4))"
    using get_bytes_moved [OF r4, of 1 0 t0] ok(2) by (simp add: v_def)
  have time: "(if v \<noteq> 0 then moved st 1 0 v (?i4 + 4) else moved st 1 0 t0 (?i4 + 4)) = moved st 1 0 t (?i4 + 4)"
    by (simp add: t_def)
  let ?i6 = "?i4 + 4 + 2"
  obtain w where g5: "get_bytes 2 (moved st 1 0 t (?i4 + 4)) = Some (w, moved st 1 0 t ?i6)"
    using get_bytes_moved [OF r5, of 1 0 t] ok(2) by (simp add: numeral_2_eq_2)
  let ?i7 = "?i6 + length ?P"
  have "rest_at st ?i6 (?P @ ?E @ ?N @ ?C @ data)" using r6 ok(2) by simp
  from optional_part [OF this] obtain w1 where g6: "(if gh_part h \<noteq> None then get_bytes 2 (moved st 1 0 t ?i6) else Some (0, moved st 1 0 t ?i6)) =
      Some (w1, moved st 1 0 t ?i7)" by blast
  let ?i8 = "?i7 + length ?E"
  have "rest_at st ?i7 (?E @ ?N @ ?C @ data)" using r7 ok(2) by simp
  from optional_extra [OF this ok(3)] obtain w2 where g7: "(if gh_extra h \<noteq> None
      then do { (n, st) \<leftarrow> get_bytes 2 (moved st 1 0 t ?i7); get_bytes n st } else Some (0, moved st 1 0 t ?i7)) =
      Some (w2, moved st 1 0 t ?i8)" by blast
  let ?i9 = "?i8 + length ?N"
  have "rest_at st ?i8 (?N @ ?C @ data)" using r8 ok(2) by simp
  note g8 = optional_name [OF this ok(4), of 1 0 t]
  have "rest_at st ?i9 (?C @ data)" using r9 ok(2) by simp
  note g9 = optional_name [OF this ok(5), of 1 0 t]
  have short: "(MAX_PATH_LEN < length ?N) = False" using ok(6) by simp
  have len: "?i9 + length ?C = i + length (gzip_bytes h)" using ok(2) by (simp add: gzip_bytes_def)
  have "get_method (moved st 0 b0 t0 i) = Some (8, moved st 1 (?i9 + length ?C + 16) t (?i9 + length ?C))"
    unfolding get_method_def
    by (simp only: g0 g1 g2 g3 g4 g5 g6 g7 g8 g9 time fl short bind.bind_lunit prod.case moved_simps Let_def simp_thms if_True if_False add_0 of_nat_numeral)
  then show ?thesis unfolding len st [symmetric] by blast
qed

section \<open>A member\<close>

definition member_of :: "gzip_header \<Rightarrow> page_block list \<Rightarrow> char list \<Rightarrow> char list" where
  "member_of h bs trailer = gzip_bytes h @ deflate bs @ trailer"

definition stream_head :: "inflater \<Rightarrow> bool" where
  \<comment> \<open>the arrays of a head have their sizes\<close>
  "stream_head st \<longleftrightarrow> length (hll st) = 316 \<and> length (litter_buf st) = LIT_BUFSIZE \<and> length (dist_buf st) = LIT_BUFSIZE"

lemma uncompress_filtered:
  assumes hist: "\<forall>u\<in>set us. update_ok u" "us \<noteq> []" "\<forall>s. Add s \<in> set us \<longrightarrow> length s < 1024" "ofold list_update_step us [] = Some ks"
    and env: "tm_ok (pe_now pe)" "length (pe_test pe) = 1000" "length (pe_keyword pe) = 1024" "NUL \<in> set (pe_keyword pe)"
    and kw: "utos_ok utos" "\<forall>k\<in>set ks \<union> fst ` set utos. CHR ''|'' \<notin> set k \<and> length k < 300" "[] \<notin> set ks"
    and D: "ofold (apply_update add_str del_str) us down_ac = Some D"
    and page: "page_ok bs" "literal_page bs" "length (page_text bs) + 1 < WSIZE" "NUL \<notin> set (page_text bs)"
    and h: "gzip_header_ok h" "2 \<le> length trailer"
    and str: "str = member_of h bs trailer @ tail" "length (member_of h bs trailer) \<le> len" "len \<le> length str"
      "u32 (chunk_size st) \<noteq> len \<or> length bs = 1"
    and st: "\<not> Http_flag st \<or> uchunk_flag st" "stream_head st" "hflag st = 0" "block_data st \<noteq> None"
  defines "res \<equiv> uncompress \<lparr>ie_page = pe, ie_M = dM D, ie_utos = utos\<rparr> str len st"
  shows "page_filtered pe ks utos (page_text bs) st res" "res = Some st' \<Longrightarrow> current_block st' = current_block st"
proof -
  let ?env = "\<lparr>ie_page = pe, ie_M = dM D, ie_utos = utos\<rparr>"
  let ?st1 = "st\<lparr>inbuf := str, insize := len, inptr := 0, part_nb := 0\<rparr>" and ?n = "length (gzip_bytes h)"
  have "rest_at ?st1 0 (gzip_bytes h @ deflate bs @ trailer @ tail)" by (simp add: rest_at_def str(1) member_of_def)
  from get_method_header [OF h(1) this] obtain b t where m: "get_method ?st1 = Some (8, moved ?st1 1 b t ?n)" by auto
  let ?st2 = "(moved ?st1 1 b t ?n)\<lparr>Http_flag := True, uchunk_flag := False\<rparr>"
  have res: "res = (case inflate ?env ?st2 of None \<Rightarrow> None | Some (r, st) \<Rightarrow> Some (if r \<noteq> 0 then st\<lparr>gzip_flag := False\<rparr> else st))"
    using st(1) m by (simp add: res_def uncompress_def split: option.split)
  have same: "sent ?st2 = sent st" "blocked ?st2 = blocked st" "current_block ?st2 = current_block st" "chunk_size ?st2 = chunk_size st"
    "insize ?st2 = len" by (simp_all add: moved_def)
  have "block_data ?st2 = block_data st" by (simp add: block_data_def moved_def split: option.split)
  then have "fresh_head ?st2" using st(2-4) by (simp add: fresh_head_def stream_head_def) (simp add: moved_def)
  moreover have "ready ?st2 = deflate bs @ take (len - length (gzip_bytes h @ deflate bs)) (trailer @ tail)"
    using str(2) by (simp add: ready_def str(1) member_of_def) (simp add: moved_def str(1) member_of_def)
  moreover have "2 \<le> length (take (len - length (gzip_bytes h @ deflate bs)) (trailer @ tail))"
    using str(2) h(2) by (simp add: member_of_def)
  ultimately have "at_member ?st2 bs" using str(3) by (auto simp: at_member_def moved_def)
  moreover have "u32 (chunk_size ?st2) \<noteq> insize ?st2 \<or> length bs = 1" using str(4) same(4,5) by simp
  ultimately have f: "page_filtered pe ks utos (page_text bs) ?st2 (map_option snd (inflate ?env ?st2))"
    "inflate ?env ?st2 = Some (r, st') \<Longrightarrow> current_block st' = current_block ?st2" for r st'
    using inflate_filtered [OF hist env kw D page, of ?st2] by blast+
  show "page_filtered pe ks utos (page_text bs) st res"
    by (rule page_filtered_moves [OF f(1)]) (auto simp: res same)
  show "current_block st' = current_block st" if "res = Some st'"
    using that f(2) same(3) by (auto simp: res split: option.split_asm if_split_asm)
qed

end
