(* ===== verification/ResponseMatch.thy ===== *)
theory ResponseMatch
  imports GzipMember
begin

text \<open>
  A response: the lines of its header, the line of a chunk and a gzip member, and what \<open>process_gzip_data\<close> makes of the
  segment with them.
\<close>

section \<open>Lines\<close>

lemma memmatch_loop_line:
  "drop i data = l @ c # rest \<Longrightarrow> c \<notin> set l \<Longrightarrow> length l < n \<Longrightarrow> k + length l + 2 \<le> length dst \<Longrightarrow>
    memmatch_loop data c n i k dst = Some (take k dst @ map Some (l @ [c, NUL]) @ drop (k + length l + 2) dst, i + length l + 1)"
proof (induction l arbitrary: i k dst n)
  case Nil
  obtain m where n: "n = Suc m" using Nil.prems(3) by (cases n) auto
  have i: "i < length data" using Nil.prems(1) by (metis append_Nil drop_eq_Nil2 linorder_not_less list.distinct(1))
  have c: "data ! i = c" using Nil.prems(1) i by (metis append_Nil hd_drop_conv_nth list.sel(1))
  have two: "Suc (Suc (j - 2)) = j" if "k \<le> j" "j \<noteq> k" "j \<noteq> Suc k" for j using that by linarith
  have "dst[k := Some c, Suc k := Some NUL] = take k dst @ [Some c, Some NUL] @ drop (k + 2) dst"
    by (rule nth_equalityI) (use Nil.prems(4) in \<open>auto simp: nth_append nth_list_update nth_Cons' not_less le_Suc_eq two\<close>)
  then show ?case using n i c Nil.prems(4) by simp
next
  case (Cons x l)
  obtain m where n: "n = Suc m" "length l < m" using Cons.prems(3) by (cases n) auto
  have i: "i < length data" using Cons.prems(1) by (metis append_Cons drop_eq_Nil2 linorder_not_less list.distinct(1))
  have x: "data ! i = x" using Cons.prems(1) i by (metis append_Cons hd_drop_conv_nth list.sel(1))
  have "drop (Suc i) data = tl (drop i data)" by (simp add: drop_Suc tl_drop)
  then have "drop (Suc i) data = l @ c # rest" using Cons.prems(1) by simp
  from Cons.IH [OF this _ n(2), of "Suc k" "dst[k := Some x]"] have "memmatch_loop data c m (Suc i) (Suc k) (dst[k := Some x]) =
      Some (take (Suc k) (dst[k := Some x]) @ map Some (l @ [c, NUL]) @ drop (Suc k + length l + 2) (dst[k := Some x]), Suc i + length l + 1)"
    using Cons.prems(2,4) by simp
  moreover have "take (Suc k) (dst[k := Some x]) = take k dst @ [Some x]" using Cons.prems(4) by (simp add: take_Suc_conv_app_nth)
  moreover have "drop (Suc k + length l + 2) (dst[k := Some x]) = drop (k + length (x # l) + 2) dst" by simp
  moreover have "data ! i \<noteq> c" "k < length dst" using x Cons.prems(2,4) by auto
  ultimately show ?case unfolding n(1) using i x by (simp add: Let_def)
qed

lemma memmatch_line:
  assumes "drop p data = l @ CHR 0x0A # rest" "CHR 0x0A \<notin> set l" "length l + 1 < cnt" "length l + 2 \<le> length dst"
  shows "memmatch dst data p (CHR 0x0A) cnt = Some (map Some (l @ [CHR 0x0A, NUL]) @ drop (length l + 2) dst, p + length l + 1)"
  using memmatch_loop_line [OF assms(1,2), of "cnt - 1" 0 dst] assms(3,4) by (simp add: memmatch_def)

lemma set_prefix_line: "\<exists>z. set_prefix (map Some (l @ [CHR 0x0A, NUL]) @ d) = l @ [CHR 0x0A, NUL] @ z"
  by (intro exI [of _ "map the (takeWhile (\<lambda>x. x \<noteq> None) d)"]) (simp add: set_prefix_def takeWhile_append comp_def)

lemma buf_str_line: "NUL \<notin> set l \<Longrightarrow> buf_str (set_prefix (map Some (l @ [CHR 0x0A, NUL]) @ d)) = Some (l @ [CHR 0x0A])"
proof -
  assume l: "NUL \<notin> set l"
  obtain z where z: "set_prefix (map Some (l @ [CHR 0x0A, NUL]) @ d) = l @ [CHR 0x0A, NUL] @ z" using set_prefix_line by blast
  have "cstr ((l @ [CHR 0x0A]) @ NUL # z) = (l @ [CHR 0x0A]) @ cstr (NUL # z)" by (rule cstr_append) (use l in simp)
  then show ?thesis unfolding z by (simp add: buf_str_def)
qed

lemma occurs_sublist: "occurs s line \<longleftrightarrow> sublist s line"
  using strstr_None_iff [of line s] by (auto simp: occurs_def)

section \<open>The header\<close>

definition header_line :: "string \<Rightarrow> string" where
  "header_line l = l @ [CHR 0x0D, CHR 0x0A]"

definition line_ok :: "string \<Rightarrow> bool" where
  "line_ok l \<longleftrightarrow> l \<noteq> [] \<and> CHR 0x0A \<notin> set l \<and> NUL \<notin> set l \<and> length l \<le> 2040 \<and> \<not> sublist ''Content-Length'' (header_line l) \<and>
     (sublist ''Content-Type'' (header_line l) \<longrightarrow> sublist ''text/html'' (header_line l))"

definition seen :: "string \<Rightarrow> response \<Rightarrow> response" where
  "seen l h = h\<lparr>r_text := r_text h \<or> occurs ''text/html'' l, r_chunked := r_chunked h \<or> occurs ''chunked'' l, r_gzip := r_gzip h \<or> occurs ''gzip'' l\<rparr>"

lemma seen_fold:
  "r_text (fold (\<lambda>l. seen (header_line l)) ls h) \<longleftrightarrow> r_text h \<or> (\<exists>l\<in>set ls. sublist ''text/html'' (header_line l))"
  "r_gzip (fold (\<lambda>l. seen (header_line l)) ls h) \<longleftrightarrow> r_gzip h \<or> (\<exists>l\<in>set ls. sublist ''gzip'' (header_line l))"
  "r_chunked (fold (\<lambda>l. seen (header_line l)) ls h) \<longleftrightarrow> r_chunked h \<or> (\<exists>l\<in>set ls. sublist ''chunked'' (header_line l))"
  "r_length (fold (\<lambda>l. seen (header_line l)) ls h) = r_length h"
  by (induction ls arbitrary: h) (auto simp: seen_def occurs_sublist)

lemma header_lines_step:
  assumes "drop p data = header_line l @ rest" "CHR 0x0A \<notin> set l" "NUL \<notin> set l" "length l \<le> 2040" "length buf = 2048"
    "\<not> sublist ''Content-Length'' (header_line l)" "sublist ''Content-Type'' (header_line l) \<longrightarrow> sublist ''text/html'' (header_line l)"
  shows "\<exists>buf'. length buf' = 2048 \<and> header_lines (Suc n) data p buf h =
    (if l \<noteq> [] then header_lines n data (p + length l + 2) buf' (seen (header_line l) h) else Some (p + 2, Some (seen (header_line l) h)))"
proof -
  let ?buf = "map Some ((l @ [CHR 0x0D]) @ [CHR 0x0A, NUL]) @ drop (length (l @ [CHR 0x0D]) + 2) buf"
  have m: "memmatch buf data p (CHR 0x0A) 2048 = Some (?buf, p + length (l @ [CHR 0x0D]) + 1)"
    by (rule memmatch_line [where rest = rest]) (use assms in \<open>simp_all add: header_line_def\<close>)
  have "buf_str (set_prefix ?buf) = Some ((l @ [CHR 0x0D]) @ [CHR 0x0A])" by (rule buf_str_line) (use assms(3) in simp)
  then have b: "buf_str (set_prefix ?buf) = Some (header_line l)" by (simp add: header_line_def)
  have len: "(length (header_line l) \<noteq> 2) = (l \<noteq> [])" by (simp add: header_line_def)
  have cl: "occurs ''Content-Length'' (header_line l) = False" using assms(6) by (simp add: occurs_sublist)
  have ct: "(occurs ''Content-Type'' (header_line l) \<and> \<not> occurs ''text/html'' (header_line l)) = False"
    using assms(7) by (simp add: occurs_sublist)
  have "length ?buf = 2048" using assms(4,5) by simp
  moreover have "header_lines (Suc n) data p buf h =
    (if l \<noteq> [] then header_lines n data (p + length l + 2) ?buf (seen (header_line l) h) else Some (p + 2, Some (seen (header_line l) h)))"
    by (simp only: header_lines.simps m b cl ct len bind.bind_lunit prod.case Let_def if_False seen_def) simp
  ultimately show ?thesis by blast
qed

lemma header_lines_read:
  "\<forall>l\<in>set ls. line_ok l \<Longrightarrow> length ls < n \<Longrightarrow> drop p data = concat (map header_line ls) @ header_line [] @ rest \<Longrightarrow> length buf = 2048 \<Longrightarrow>
    header_lines n data p buf h = Some (p + length (concat (map header_line ls)) + 2, Some (fold (\<lambda>l. seen (header_line l)) (ls @ [[]]) h))"
proof (induction ls arbitrary: n p buf h)
  case Nil
  obtain m where n: "n = Suc m" using Nil.prems(2) by (cases n) auto
  have "\<exists>buf'. length buf' = 2048 \<and> header_lines (Suc m) data p buf h =
    (if ([] :: string) \<noteq> [] then header_lines m data (p + length ([] :: string) + 2) buf' (seen (header_line []) h) else Some (p + 2, Some (seen (header_line []) h)))"
    by (rule header_lines_step [where rest = rest]) (use Nil.prems in \<open>simp_all add: header_line_def sublist_Cons_right\<close>)
  then show ?case using n by simp
next
  case (Cons l ls)
  obtain m where n: "n = Suc m" "length ls < m" using Cons.prems(2) by (cases n) auto
  have d: "drop p data = header_line l @ concat (map header_line ls) @ header_line [] @ rest" using Cons.prems(3) by simp
  have ok: "line_ok l" using Cons.prems(1) by simp
  obtain buf' where b: "length buf' = 2048" "header_lines (Suc m) data p buf h = header_lines m data (p + length l + 2) buf' (seen (header_line l) h)"
    using header_lines_step [OF d _ _ _ Cons.prems(4), of m h] ok by (auto simp: line_ok_def)
  have "drop (length (header_line l)) (drop p data) = concat (map header_line ls) @ header_line [] @ rest" unfolding d by simp
  then have "drop (p + length l + 2) data = concat (map header_line ls) @ header_line [] @ rest" by (simp add: header_line_def add.commute add.left_commute)
  from Cons.IH [OF _ n(2) this b(1)] show ?case using Cons.prems(1) b(2) n(1) by (simp add: header_line_def)
qed

section \<open>The size of a chunk\<close>

definition hex_size :: "string \<Rightarrow> nat" where
  "hex_size ds = foldl (\<lambda>n c. 16 * n + the (digit_value c)) 0 ds"

definition size_ok :: "string \<Rightarrow> bool" where
  "size_ok ds \<longleftrightarrow> ds \<noteq> [] \<and> length ds \<le> 8 \<and> (\<forall>c\<in>set ds. is_base 16 c) \<and> hex_size ds < 2 ^ 31 \<and> hex_size ds \<noteq> 10"

lemma hex_digit_range: "is_base 16 c \<Longrightarrow> 48 \<le> (of_char c :: nat) \<and> of_char c < (58 :: nat) \<or> 65 \<le> (of_char c :: nat) \<and> of_char c < (71 :: nat) \<or>
    97 \<le> (of_char c :: nat) \<and> of_char c < (103 :: nat)"
  by (auto simp: is_base_def digit_value_def Let_def split: if_splits)

lemma hex_digit_chars: "is_base 16 c \<Longrightarrow> \<not> isspace c \<and> c \<notin> {CHR ''-'', CHR ''+'', CHR ''x'', CHR ''X'', CHR 0x0D, CHR 0x0A, NUL}"
proof -
  assume c: "is_base 16 c"
  have "\<not> is_base 16 d" if "d \<in> set ([CHR '' '', CHR 0x09, CHR 0x0A, CHR 0x0B, CHR 0x0C, CHR 0x0D] @ [CHR ''-'', CHR ''+'', CHR ''x'', CHR ''X'', NUL])" for d
    using that hex_digit_range [of d] by auto
  then show ?thesis using c by (auto simp: isspace_def)
qed

lemma hex_size_int: "foldl (\<lambda>n c. int 16 * n + int (the (digit_value c))) (int k) ds = int (foldl (\<lambda>n c. 16 * n + the (digit_value c)) k ds)"
proof (induction ds arbitrary: k)
  case (Cons d ds)
  have "int 16 * int k + int (the (digit_value d)) = int (16 * k + the (digit_value d))" by simp
  then show ?case using Cons.IH [of "16 * k + the (digit_value d)"] by (simp only: foldl_Cons)
qed simp

lemma strtol_size:
  assumes "size_ok ds"
  shows "strtol (ds @ CHR 0x0D # rest) 16 = Some (int (hex_size ds))"
proof -
  have ds: "ds \<noteq> []" "\<forall>c\<in>set ds. is_base 16 c" "hex_size ds < 2 ^ 31" using assms by (simp_all add: size_ok_def)
  let ?s = "ds @ CHR 0x0D # rest"
  obtain d ds' where d: "ds = d # ds'" using ds(1) by (cases ds) auto
  have hd: "\<not> isspace d" "d \<noteq> CHR ''-''" "d \<noteq> CHR ''+''" using hex_digit_chars [of d] ds(2) d by auto
  have u: "dropWhile isspace ?s = ?s" using hd by (simp add: d)
  have v: "(prefix ''-'' ?s) = False" "(prefix ''+'' ?s) = False" using hd by (simp_all add: d)
  have x: "prefix ''0x'' ?s = False" "prefix ''0X'' ?s = False"
    using hex_digit_chars ds(2) by (cases ds'; auto simp: d)+
  have cr: "\<not> is_base 16 (CHR 0x0D)" using hex_digit_chars by blast
  have tw: "takeWhile (is_base 16) ?s = ds" using ds(2) cr by (simp add: takeWhile_append)
  have "foldl (\<lambda>n c. int 16 * n + int (the (digit_value c))) 0 ds = int (hex_size ds)"
    using hex_size_int [of 0 ds] by (simp add: hex_size_def)
  then show ?thesis using ds(3)
    by (simp only: strtol_def Let_def u v x simp_thms if_False tw) (simp add: s32_def)
qed

section \<open>The response\<close>

definition response_ok :: "string \<Rightarrow> string list \<Rightarrow> bool" where
  "response_ok l ls \<longleftrightarrow> prefix ''HTTP/1'' l \<and> CHR 0x0A \<notin> set l \<and> NUL \<notin> set l \<and> length l \<le> 2040 \<and> (\<forall>l\<in>set ls. line_ok l) \<and> length ls < 100 \<and>
     (\<exists>l\<in>set ls. sublist ''text/html'' (header_line l)) \<and> (\<exists>l\<in>set ls. sublist ''gzip'' (header_line l)) \<and>
     (\<exists>l\<in>set ls. sublist ''chunked'' (header_line l))"

definition response_head :: "string \<Rightarrow> string list \<Rightarrow> string \<Rightarrow> char list" where
  "response_head l ls ds = header_line l @ concat (map header_line ls) @ header_line [] @ header_line ds"

lemma drop_header_line: "drop p data = header_line l @ rest \<Longrightarrow> drop (p + length l + 2) data = rest"
proof -
  assume a: "drop p data = header_line l @ rest"
  have "drop (length (header_line l)) (drop p data) = rest" unfolding a by simp
  then show ?thesis by (simp add: header_line_def add.commute add.left_commute)
qed

lemma DelHeader_read:
  assumes "response_ok l ls" "size_ok ds" "data = response_head l ls ds @ body"
  shows "DelHeader data st = Some (length (response_head l ls ds), True, True, Some (int (hex_size ds)), Some (length (response_head l ls ds)), st)"
proof -
  let ?ls = "concat (map header_line ls)"
  have d0: "drop 0 data = (l @ [CHR 0x0D]) @ CHR 0x0A # ?ls @ header_line [] @ header_line ds @ body"
    by (simp add: assms(3) response_head_def header_line_def)
  obtain buf where m0: "memmatch (replicate 2048 None) data 0 (CHR 0x0A) 2048 = Some (buf, length l + 2)" "length buf = 2048"
    using memmatch_line [OF d0, of 2048 "replicate 2048 None"] assms(1) by (auto simp: response_ok_def)
  have "drop 0 data = header_line l @ ?ls @ header_line [] @ header_line ds @ body" by (simp add: assms(3) response_head_def)
  from drop_header_line [OF this] have d1: "drop (length l + 2) data = ?ls @ header_line [] @ header_line ds @ body" by simp
  let ?p = "length l + 2 + length ?ls + 2" and ?h0 = "\<lparr>r_text = False, r_gzip = False, r_chunked = False, r_length = None\<rparr>"
  define h where "h = fold (\<lambda>l. seen (header_line l)) (ls @ [[]]) ?h0"
  have ls: "\<forall>l\<in>set ls. line_ok l" "length ls < 100" using assms(1) by (simp_all add: response_ok_def)
  have hl: "header_lines 100 data (length l + 2) buf ?h0 = Some (?p, Some h)"
    using header_lines_read [OF ls d1 m0(2), of ?h0] by (simp add: h_def)
  have h: "r_text h" "r_gzip h" "r_chunked h" using assms(1) unfolding h_def seen_fold by (auto simp: response_ok_def)
  have "drop (length ?ls) (drop (length l + 2) data) = header_line [] @ header_line ds @ body" unfolding d1 by simp
  then have "drop (length l + 2 + length ?ls) data = header_line [] @ header_line ds @ body" by (simp add: add.commute)
  from drop_header_line [OF this] have d2: "drop ?p data = header_line ds @ body" by simp
  then have d3: "drop ?p data = (ds @ [CHR 0x0D]) @ CHR 0x0A # body" by (simp add: header_line_def)
  have ne: "?p \<noteq> length data" using d3 by (metis append_is_Nil_conv drop_all le_refl list.distinct(1))
  have sz: "length ds \<le> 8" "CHR 0x0A \<notin> set (ds @ [CHR 0x0D])" using assms(2) hex_digit_chars by (auto simp: size_ok_def)
  obtain buf2 where m2: "memmatch (replicate 16 None) data ?p (CHR 0x0A) 16 = Some (map Some ((ds @ [CHR 0x0D]) @ [CHR 0x0A, NUL]) @ buf2, ?p + length ds + 2)"
    using memmatch_line [OF d3 sz(2), of 16 "replicate 16 None"] sz(1) by auto
  obtain z where "set_prefix (map Some ((ds @ [CHR 0x0D]) @ [CHR 0x0A, NUL]) @ buf2) = (ds @ [CHR 0x0D]) @ [CHR 0x0A, NUL] @ z" using set_prefix_line by blast
  then have c: "strtol (set_prefix (map Some ((ds @ [CHR 0x0D]) @ [CHR 0x0A, NUL]) @ buf2)) 16 = Some (int (hex_size ds))"
    using strtol_size [OF assms(2)] by simp
  have len: "?p + length ds + 2 = length (response_head l ls ds)" by (simp add: response_head_def header_line_def)
  have "\<not> length data < length (response_head l ls ds)" by (simp add: assms(3))
  moreover have "int (hex_size ds) \<noteq> 10" using assms(2) by (simp add: size_ok_def)
  ultimately show ?thesis using ne h
    by (simp only: DelHeader_def m0(1) hl m2 c bind.bind_lunit prod.case option.case if_True if_False len)
qed

section \<open>A segment with a response\<close>

definition next_segment :: "inflater \<Rightarrow> char list \<Rightarrow> bool" where
  \<comment> \<open>the segment behind the current one has come\<close>
  "next_segment st data \<longleftrightarrow> (\<exists>i<length (blocks st). (case current_block st of None \<Rightarrow> Some 0 | Some i \<Rightarrow> next_block st i) = Some i \<and> blocks st ! i = data)"

lemma u32_id: "0 \<le> x \<Longrightarrow> x < 2 ^ 32 \<Longrightarrow> u32 x = nat x"
  by (simp add: u32_def)

lemma response_http:
  assumes "response_ok l ls" "\<forall>l\<in>set ls. NUL \<notin> set l" "NUL \<notin> set ds"
  shows "data_has (response_head l ls ds @ body) ''HTTP/1'' = Some True"
proof -
  obtain r where l: "l = ''HTTP/1'' @ r" using assms(1) by (auto simp: response_ok_def prefix_def)
  have "NUL \<notin> set ''HTTP/1''" by simp
  then have "cstr (response_head l ls ds @ body) = ''HTTP/1'' @ cstr (r @ drop (length l) (response_head l ls ds) @ body)"
    by (subst cstr_append [symmetric]) (simp_all add: response_head_def header_line_def l)
  then have "sublist ''HTTP/1'' (cstr (response_head l ls ds @ body))" by (metis sublist_append_rightI)
  then show ?thesis by (simp add: data_has_def occurs_sublist)
qed

lemma chunk_read:
  assumes st: "block_data st = Some data" "current_block st = Some i" "chunk_size st = int c" "0 < c" "c < 2 ^ 31"
    and d: "length data = p + n" "2 < n" "length data < 2 ^ 32" "0 < p"
    and len: "len = min c n"
    and kept: "\<And>st'. uncompress env (drop p data) len st = Some st' \<Longrightarrow> current_block st' = Some i"
  shows "case uncompress env (drop p data) len st of None \<Rightarrow> inflate_chunk env p p st = None
    | Some st' \<Rightarrow> \<exists>st''. inflate_chunk env p p st = Some st'' \<and> sent st'' = sent st' \<and> blocked st'' = blocked st'"
proof -
  have u: "u32 (int c) = c" "u32 (int (length data) - int p) = n" using st(5) d(1,3) by (simp_all add: u32_id)
  have e: "(length data = p \<or> p + 2 = length data) = False" using d(1,2) by auto
  have m: "len = (if c < n then c else n)" using len by simp
  have i: "inflate_chunk env p p st = do {
      st \<leftarrow> uncompress env (drop p data) len st;
      (if chunk_size st = 10 \<and> hflag st = 0
       then do {
         i \<leftarrow> current_block st;
         Some (st\<lparr>current_block := (if Suc i = length (blocks st) then Some i else next_block st i), chunk_size := 0\<rparr>) }
       else Some (if chunk_size st \<le> 0 \<and> hflag st = 0 then st\<lparr>chunk_size := 0, Http_flag := False\<rparr> else st)) }"
    using st(1-4) d(4) by (simp only: inflate_chunk_def Let_def e simp_thms if_False prod.case bind.bind_lunit) (cases "c < n"; use u m in \<open>simp add: st(1-4)\<close>)
  show ?thesis
  proof (cases "uncompress env (drop p data) len st")
    case (Some st')
    then show ?thesis using kept [OF Some] unfolding i by simp
  qed (simp add: i)
qed

lemma chunk_lines_nonzero: "chunk_size st \<noteq> 0 \<Longrightarrow> chunk_lines (Suc n) t hs st = Some (Some (Suc n), t, hs, st)"
  by simp

lemma process_read:
  assumes ok: "response_ok l ls" "size_ok ds" "0 < hex_size ds" "data = response_head l ls ds @ body" "2 < length body" "length data < 2 ^ 32"
    and st: "next_segment st data" "stream_head st"
  shows "\<exists>i st3. block_data st3 = Some data \<and> current_block st3 = Some i \<and> chunk_size st3 = int (hex_size ds) \<and> \<not> Http_flag st3 \<and>
    stream_head st3 \<and> hflag st3 = 0 \<and> sent st3 = sent st \<and> blocked st3 = blocked st \<and>
    Inflate.process_gzip_data env st = inflate_chunk env (length (response_head l ls ds)) (length (response_head l ls ds)) st3"
proof -
  let ?p = "length (response_head l ls ds)"
  obtain i where i: "i < length (blocks st)" "(case current_block st of None \<Rightarrow> Some 0 | Some i \<Rightarrow> next_block st i) = Some i" "blocks st ! i = data"
    using st(1) by (auto simp: next_segment_def)
  let ?st1 = "st\<lparr>current_block := Some i\<rparr>"
  let ?st3 = "?st1\<lparr>Http_flag := False, text_flag := True, gzip_flag := True, Head_size := int ?p, hflag := 0, chunk_size := int (hex_size ds)\<rparr>"
  have b: "block_data ?st1 = Some data" "block_data ?st3 = Some data" using i by (simp_all add: block_data_def)
  have ne: "blocks st \<noteq> []" "litter_buf st \<noteq> []" "dist_buf st \<noteq> []" using i(1) st(2) by (auto simp: stream_head_def LIT_BUFSIZE_def)
  have nul: "\<forall>l\<in>set ls. NUL \<notin> set l" "NUL \<notin> set ds" using ok(1,2) hex_digit_chars by (auto simp: response_ok_def line_ok_def size_ok_def)
  note http = response_http [OF ok(1) nul, of body, folded ok(4)]
  note del = DelHeader_read [OF ok(1,2,4), of "?st1\<lparr>Http_flag := False\<rparr>"]
  have cl: "chunk_lines 10 ?p ?p ?st3 = Some (Some 10, ?p, ?p, ?st3)" using chunk_lines_nonzero [of ?st3 9 ?p ?p] ok(3) by simp
  have "Inflate.process_gzip_data env st = inflate_chunk env ?p ?p ?st3"
    using ne b http del cl i(2) by (simp add: Inflate.process_gzip_data_def Let_def)
  moreover have "stream_head ?st3" using st(2) by (simp add: stream_head_def)
  ultimately show ?thesis using b by (intro exI [of _ i] exI [of _ ?st3]) simp
qed

lemma response_page_filtered:
  assumes hist: "\<forall>u\<in>set us. update_ok u" "us \<noteq> []" "\<forall>s. Add s \<in> set us \<longrightarrow> length s < 1024" "ofold list_update_step us [] = Some ks"
    and env: "tm_ok (pe_now pe)" "length (pe_test pe) = 1000" "length (pe_keyword pe) = 1024" "NUL \<in> set (pe_keyword pe)"
    and kw: "utos_ok utos" "\<forall>k\<in>set ks \<union> fst ` set utos. CHR ''|'' \<notin> set k \<and> length k < 300" "[] \<notin> set ks"
    and D: "ofold (apply_update add_str del_str) us down_ac = Some D"
    and page: "page_ok bs" "literal_page bs" "length (page_text bs) + 1 < WSIZE" "NUL \<notin> set (page_text bs)"
    and response: "response_ok l ls" "gzip_header_ok h" "2 \<le> length trailer" "size_ok ds"
      "length (member_of h bs trailer) \<le> hex_size ds" "length (member_of h bs trailer @ tail) < hex_size ds \<or> length bs = 1"
    and data: "data = response_head l ls ds @ member_of h bs trailer @ tail" "length data < 2 ^ 32"
    and st: "next_segment st data" "stream_head st"
  shows "page_filtered pe ks utos (page_text bs) st (Inflate.process_gzip_data \<lparr>ie_page = pe, ie_M = dM D, ie_utos = utos\<rparr> st)"
proof -
  let ?env = "\<lparr>ie_page = pe, ie_M = dM D, ie_utos = utos\<rparr>" and ?p = "length (response_head l ls ds)"
  let ?body = "member_of h bs trailer @ tail"
  have n: "2 < length ?body" "0 < hex_size ds" using response(3,5) by (simp_all add: member_of_def gzip_bytes_def)
  obtain i st3 where s: "block_data st3 = Some data" "current_block st3 = Some i" "chunk_size st3 = int (hex_size ds)" "\<not> Http_flag st3"
    "stream_head st3" "hflag st3 = 0" "sent st3 = sent st" "blocked st3 = blocked st"
    "Inflate.process_gzip_data ?env st = inflate_chunk ?env ?p ?p st3"
    using process_read [OF response(1,4) n(2) data(1) n(1) data(2) st, of ?env] by blast
  define len where "len = min (hex_size ds) (length ?body)"
  have hex: "hex_size ds < 2 ^ 31" using response(4) by (simp add: size_ok_def)
  have drop: "drop ?p data = ?body" by (simp add: data(1))
  have len2: "length (member_of h bs trailer) \<le> len" "len \<le> length ?body" using response(5) by (simp_all add: len_def)
  have "u32 (chunk_size st3) = hex_size ds" using s(3) hex by (simp add: u32_id)
  then have ch: "u32 (chunk_size st3) \<noteq> len \<or> length bs = 1" using response(6) by (auto simp: len_def)
  have st3: "\<not> Http_flag st3 \<or> uchunk_flag st3" "block_data st3 \<noteq> None" using s(1,4) by simp_all
  note un = uncompress_filtered [OF hist env kw D page response(2,3) refl len2 ch st3(1) s(5,6) st3(2)]
  have dl: "length data = ?p + length ?body" "0 < ?p" by (simp_all add: data(1)) (simp add: response_head_def header_line_def)
  have kept: "uncompress ?env (drop ?p data) len st3 = Some st' \<Longrightarrow> current_block st' = Some i" for st'
    using un(2) s(2) unfolding drop by simp
  have c: "case uncompress ?env ?body len st3 of None \<Rightarrow> inflate_chunk ?env ?p ?p st3 = None
    | Some st' \<Rightarrow> \<exists>st''. inflate_chunk ?env ?p ?p st3 = Some st'' \<and> sent st'' = sent st' \<and> blocked st'' = blocked st'"
    using chunk_read [OF s(1-3) n(2) hex dl(1) n(1) data(2) dl(2) len_def, of ?env] kept unfolding drop by blast
  show ?thesis unfolding s(9)
  proof (rule page_filtered_moves [OF un(1)])
    show "sent st = sent st3" "blocked st = blocked st3" using s(7,8) by simp_all
    show "\<exists>st''. inflate_chunk ?env ?p ?p st3 = Some st'' \<and> sent st'' = sent st' \<and> blocked st'' = blocked st'"
      if "uncompress ?env ?body len st3 = Some st'" for st' using c that by simp
    show "inflate_chunk ?env ?p ?p st3 = None" if "uncompress ?env ?body len st3 = None" using c that by simp
  qed
qed

section \<open>Results\<close>

text \<open>C7: A segment with a compressed response is filtered by the keywords in force, whatever updates of the response
  dictionary have led to them. The response has a header (any lines that name HTML, gzip and a chunked transfer), the line with the
  size of a chunk that holds the whole member, a gzip member (with any of the optional fields) whose blocks hold literals only (of a
  page without zero bytes that fits into the window), and anything behind it. The member has one block only, or the chunk goes on
  in the next segment: otherwise the end of a block drops what has been read of the next. The
  array that \<open>keyword_match\<close> leaves uninitialised holds a zero byte. A page without a keyword is passed over, and nothing is
  sent. With a keyword, either the stream is to be blocked and one line goes to the blocking port, whose text begins with the
  fields of the entry, or \<open>add_log\<close> writes in front of its array. The latter happens when a keyword ends among the first
  191 bytes of the page, and it happens only when one ends among the first 200; which of the two it is for the nine bytes
  between depends on the length of the page.\<close>

theorem response_filtered:
  assumes hist: "\<forall>u\<in>set us. update_ok u" "us \<noteq> []" "\<forall>s. Add s \<in> set us \<longrightarrow> length s < 1024" "ofold list_update_step us [] = Some ks"
    and env: "tm_ok (pe_now pe)" "length (pe_test pe) = 1000" "length (pe_keyword pe) = 1024" "NUL \<in> set (pe_keyword pe)"
    and kw: "utos_ok utos" "\<forall>k\<in>set ks \<union> fst ` set utos. CHR ''|'' \<notin> set k \<and> length k < 300" "[] \<notin> set ks"
    and page: "page_ok bs" "literal_page bs" "length (page_text bs) + 1 < WSIZE" "NUL \<notin> set (page_text bs)"
    and response: "response_ok l ls" "gzip_header_ok h" "2 \<le> length trailer" "size_ok ds"
      "length (member_of h bs trailer) \<le> hex_size ds" "length (member_of h bs trailer @ tail) < hex_size ds \<or> length bs = 1"
    and data: "data = response_head l ls ds @ member_of h bs trailer @ tail" "length data < 2 ^ 32"
    and st: "next_segment st data" "stream_head st"
  shows "\<exists>D. ofold (apply_update add_str del_str) us down_ac = Some D \<and>
    (let res = Inflate.process_gzip_data \<lparr>ie_page = pe, ie_M = dM D, ie_utos = utos\<rparr> st;
         ends = (\<lambda>i. \<exists>k\<in>set ks. suffix k (take (Suc i) (page_text bs))) in
     if \<exists>k\<in>set ks. sublist k (page_text bs)
     then res = None \<and> (\<exists>i<200. ends i) \<or>
       (\<exists>st' line k ft. res = Some st' \<and> blocked st' \<and> sent st' = sent st @ [(LOGPORT, line)] \<and> (\<forall>i<191. \<not> ends i) \<and>
         k \<in> set ks \<union> fst ` set utos \<and>
         split_on (CHR ''|'') line = entry_fields (pe_now pe) (pe_location pe) 0 [] [] [] k 0 ft @ [[CHR 0x0A]])
     else \<exists>st'. res = Some st' \<and> blocked st' = blocked st \<and> sent st' = sent st)"
proof -
  obtain D where D: "ofold (apply_update add_str del_str) us down_ac = Some D"
    using keyword_match_page [OF assms(1-10) page(3,4)] by blast
  from response_page_filtered [OF hist env kw D page response data st] D show ?thesis
    unfolding page_filtered_def Let_def by blast
qed

lemma items_bits_literals: "items_bits lb db (map Literal cs) = sum_list (map ((!) lb) cs) + lb ! 256"
  by (induction cs) simp_all

lemma sample_response: "response_ok ''HTTP/1.1 200 OK'' [''Content-Type: text/html'', ''Content-Encoding: gzip'', ''Transfer-Encoding: chunked'']"
proof -
  have lines: "line_ok ''Content-Type: text/html''" "line_ok ''Content-Encoding: gzip''" "line_ok ''Transfer-Encoding: chunked''"
    unfolding line_ok_def by (intro conjI; simp add: header_line_def sublist_Cons_right)+
  have "sublist ''text/html'' (header_line ''Content-Type: text/html'')" "sublist ''gzip'' (header_line ''Content-Encoding: gzip'')"
    "sublist ''chunked'' (header_line ''Transfer-Encoding: chunked'')"
    by (simp_all add: header_line_def sublist_Cons_right)
  then show ?thesis unfolding response_ok_def using lines by (intro conjI) auto
qed

theorem response_filtered_witness:
  "\<exists>D st' line. ofold (apply_update add_str del_str) [Add ''b''] down_ac = Some D \<and>
    Inflate.process_gzip_data
      \<lparr>ie_page = \<lparr>pe_now = \<lparr>tm_year = 115, tm_mon = 5, tm_mday = 8, tm_hour = 1, tm_min = 2, tm_sec = 3, tv_usec = 4000\<rparr>,
        pe_location = \<lparr>serverport = 80, serverip = 0, clientport = 1, clientip = 0\<rparr>,
        pe_keyword = replicate 1024 NUL, pe_test = replicate 1000 NUL\<rparr>, ie_M = dM D, ie_utos = [(''b'', ''b'')]\<rparr>
      ((segment_head (response_head ''HTTP/1.1 200 OK''
            [''Content-Type: text/html'', ''Content-Encoding: gzip'', ''Transfer-Encoding: chunked''] ''10f'' @
          member_of \<lparr>gh_flag = 0, gh_stamp = replicate 4 NUL, gh_extra_flags = NUL, gh_os = NUL, gh_part = None, gh_extra = None,
              gh_name = None, gh_comment = None\<rparr> [Fixed (map Literal (replicate 250 97 @ [98]))] (replicate 8 NUL) @
          [CHR 0x0D, CHR 0x0A, CHR ''0'', CHR 0x0D, CHR 0x0A, CHR 0x0D, CHR 0x0A]) 0)\<lparr>current_block := None\<rparr>) = Some st' \<and>
    blocked st' \<and> sent st' = [(8888, line)] \<and> split_on (CHR ''|'') line ! 12 = ''b''"
proof -
  let ?pe = "\<lparr>pe_now = \<lparr>tm_year = 115, tm_mon = 5, tm_mday = 8, tm_hour = 1, tm_min = 2, tm_sec = 3, tv_usec = 4000\<rparr>,
        pe_location = \<lparr>serverport = 80, serverip = 0, clientport = 1, clientip = 0\<rparr>,
        pe_keyword = replicate 1024 NUL, pe_test = replicate 1000 NUL\<rparr>"
  let ?l = "''HTTP/1.1 200 OK''" and ?ls = "[''Content-Type: text/html'', ''Content-Encoding: gzip'', ''Transfer-Encoding: chunked'']"
  let ?h = "\<lparr>gh_flag = 0, gh_stamp = replicate 4 NUL, gh_extra_flags = NUL, gh_os = NUL, gh_part = None, gh_extra = None,
      gh_name = None, gh_comment = None\<rparr>" and ?trailer = "replicate 8 NUL"
  let ?tail = "[CHR 0x0D, CHR 0x0A, CHR ''0'', CHR 0x0D, CHR 0x0A, CHR 0x0D, CHR 0x0A]"
  define cs :: "nat list" where "cs = replicate 250 97 @ [98]"
  define bs where "bs = [Fixed (map Literal cs)]"
  define page where "page = replicate 250 CHR ''a'' @ ''b''"
  define data where "data = response_head ?l ?ls ''10f'' @ member_of ?h bs ?trailer @ ?tail"
  let ?st = "(segment_head data 0)\<lparr>current_block := None\<rparr>"
  have cs: "\<forall>c\<in>set cs. c < 256" "length cs < LIT_BUFSIZE" by (simp_all add: cs_def LIT_BUFSIZE_def)
  have pt: "page_text bs = page" using fixed_literals_ok(3) [OF cs] by (simp add: bs_def cs_def page_def char_a)
  have ok: "\<forall>u\<in>set [Add ''b'']. update_ok u" "[Add ''b''] \<noteq> []" "\<forall>s. Add s \<in> set [Add ''b''] \<longrightarrow> length s < 1024"
    "ofold list_update_step [Add ''b''] [] = Some [''b'']" "tm_ok (pe_now ?pe)" "length (pe_test ?pe) = 1000"
    "length (pe_keyword ?pe) = 1024" "NUL \<in> set (pe_keyword ?pe)" "utos_ok [(''b'', ''b'')]"
    "\<forall>k\<in>set [''b''] \<union> fst ` set [(''b'', ''b'')]. CHR ''|'' \<notin> set k \<and> length k < 300" "[] \<notin> set [''b'']"
    by (simp_all add: keyword_ok_def tm_ok_def utos_ok_def)
  have page: "page_ok bs" "literal_page bs" "length (page_text bs) + 1 < WSIZE" "NUL \<notin> set (page_text bs)"
    using fixed_literals_ok(1,2) [OF cs] by (simp_all add: pt bs_def [symmetric]) (simp_all add: page_def WSIZE_def)
  note r = sample_response
  have sz: "size_ok ''10f''" "hex_size ''10f'' = 271"
    by (simp_all add: size_ok_def hex_size_def is_base_def digit_value_def)
  have h: "gzip_header_ok ?h" "2 \<le> length ?trailer" by (simp_all add: gzip_header_ok_def)
  have "fixed_lengths ! 97 = 8" "fixed_lengths ! 98 = 8" by (simp_all add: fixed_lengths_def nth_append)
  then have "items_bits fixed_lengths fixed_distances (map Literal cs) = 2015"
    unfolding items_bits_literals by (simp add: cs_def sum_list_replicate fixed_lengths_props(4))
  then have "page_bits bs = 2018" by (simp add: page_bits_def bs_def)
  then have len: "length (member_of ?h bs ?trailer) = 271"
    by (simp add: member_of_def gzip_bytes_def deflate_def part_bytes_def extra_bytes_def name_bytes_def)
  have size: "length (member_of ?h bs ?trailer) \<le> hex_size ''10f''" "length (member_of ?h bs ?trailer @ ?tail) < hex_size ''10f'' \<or> length bs = 1"
    unfolding len sz(2) by (simp_all add: bs_def)
  have dl: "length data < 2 ^ 32" by (simp add: data_def len response_head_def header_line_def)
  have st: "next_segment ?st data" "stream_head ?st" by (simp_all add: next_segment_def stream_head_def segment_head_def)
  have "sublist ''b'' (replicate 250 CHR ''a'' @ ''b'' @ [])" by (rule sublist_appendI)
  then have occ: "\<exists>k\<in>set [''b'']. sublist k page" by (simp add: page_def)
  have none: "\<not> (\<exists>i<200. \<exists>k\<in>set [''b'']. suffix k (take (Suc i) page))"
  proof
    assume "\<exists>i<200. \<exists>k\<in>set [''b'']. suffix k (take (Suc i) page)"
    then obtain i where i: "i < 200" "suffix ''b'' (take (Suc i) page)" by auto
    then have "take (Suc i) page = replicate (Suc i) CHR ''a''" by (simp add: page_def min_def del: replicate_Suc)
    then have "CHR ''b'' \<in> set (replicate (Suc i) CHR ''a'')" using i(2) set_mono_suffix by fastforce
    then show False by simp
  qed
  obtain D st' line k ft where "ofold (apply_update add_str del_str) [Add ''b''] down_ac = Some D"
    "Inflate.process_gzip_data \<lparr>ie_page = ?pe, ie_M = dM D, ie_utos = [(''b'', ''b'')]\<rparr> ?st = Some st'" "blocked st'"
    "sent st' = sent ?st @ [(LOGPORT, line)]" "k \<in> set [''b''] \<union> fst ` set [(''b'', ''b'')]"
    "split_on (CHR ''|'') line = entry_fields (pe_now ?pe) (pe_location ?pe) 0 [] [] [] k 0 ft @ [[CHR 0x0A]]"
    using response_filtered [OF ok page r h sz(1) size data_def dl st] occ none unfolding pt Let_def by (simp only: if_True) blast
  then show ?thesis unfolding data_def bs_def cs_def LOGPORT_def
    by (intro exI [of _ D] exI [of _ st'] exI [of _ line]) (simp add: entry_fields_def)
qed

end
