(* ===== verification/CacheInflate.thy ===== *)
theory CacheInflate
  imports StreamCache Inflate
begin

text \<open>
  The capture thread as a whole: the handler of \<^verbatim>\<open>get_data.c\<close> with \<open>process_gzip_data\<close> of
  \<^verbatim>\<open>copeungz.c\<close> as the step of its inflater.

  The memory of the inflater consists of the fields of the heads that only \<^verbatim>\<open>copeungz.c\<close> uses, of its
  global variables, which all the streams share, and of the buffers, by the number of their allocation.
\<close>

section \<open>The memory of the inflater\<close>

record gzip_mem =
  head_mem :: "nat \<Rightarrow> nat \<Rightarrow> inflater"   \<comment> \<open>by bucket and position; only the fields of the head count\<close>
  global_mem :: inflater               \<comment> \<open>only the global variables count\<close>
  lit_mem :: "nat \<Rightarrow> char list"
  dist_mem :: "nat \<Rightarrow> nat list"
  calls :: nat                         \<comment> \<open>the number of calls so far\<close>

definition load_head :: "nat \<Rightarrow> nat \<Rightarrow> data_head \<Rightarrow> gzip_mem \<Rightarrow> inflater" where
  "load_head h i dh w =
     (let g = global_mem w in
      (head_mem w h i)
        \<lparr>blocks := down dh, current_block := gz_current_block (gz dh), lit := gz_lit (gz dh), dist := gz_dist (gz dh),
         litter_buf := (case gz_litter_buf (gz dh) of None \<Rightarrow> [] | Some n \<Rightarrow> lit_mem w n),
         dist_buf := (case gz_dist_buf (gz dh) of None \<Rightarrow> [] | Some n \<Rightarrow> dist_mem w n),
         blocked := False, inbuf := inbuf g, insize := insize g, inptr := inptr g, flag := flag g, bb := bb g, bk := bk g,
         Empty := Empty g, wp := wp g, slide := slide g, crc := crc g, part_nb := part_nb g, time_stamp := time_stamp g,
         header_bytes := header_bytes g, g_win := g_win g, g_st := g_st g, sent := sent g\<rparr>)"

definition store_head :: "nat \<Rightarrow> nat \<Rightarrow> data_head \<Rightarrow> inflater \<Rightarrow> gzip_mem \<Rightarrow> gzip_state \<times> bool \<times> gzip_mem" where
  "store_head h i dh st w =
     ((gz dh)\<lparr>gz_current_block := current_block st, gz_dist := dist st, gz_lit := lit st\<rparr>, blocked st,
      w\<lparr>head_mem := (head_mem w)(h := (head_mem w h)(i := st)), global_mem := st,
        lit_mem := (case gz_litter_buf (gz dh) of None \<Rightarrow> lit_mem w | Some n \<Rightarrow> (lit_mem w)(n := litter_buf st)),
        dist_mem := (case gz_dist_buf (gz dh) of None \<Rightarrow> dist_mem w | Some n \<Rightarrow> (dist_mem w)(n := dist_buf st)),
        calls := calls w + 1\<rparr>)"

definition inflate_step :: "(nat \<Rightarrow> data_head \<Rightarrow> inflate_env) \<Rightarrow> gzip_mem gzip_step" where
  \<comment> \<open>the automata in force, the clock and the connection are those of the call\<close>
  "inflate_step ienv h i dh w = do {
     st \<leftarrow> Inflate.process_gzip_data (ienv (calls w) dh) (load_head h i dh w);
     Some (store_head h i dh st w) }"

section \<open>Traffic on which the step returns\<close>

definition plain_segment :: "char list \<Rightarrow> bool" where
  \<comment> \<open>no part of a response with a page, and with a terminator for \<open>strstr\<close>\<close>
  "plain_segment s \<longleftrightarrow> NUL \<in> set s \<and> \<not> occurs ''HTTP/1'' (cstr s) \<and> \<not> occurs ''Content-Type:'' (cstr s)"

definition no_page :: "gzip_mem \<Rightarrow> bool" where
  "no_page w \<longleftrightarrow> (\<forall>h i. \<not> (text_flag (head_mem w h i) \<and> gzip_flag (head_mem w h i)))"

lemma plain_step:
  assumes plain: "\<forall>s\<in>set (blocks st). plain_segment s" and flags: "\<not> (text_flag st \<and> gzip_flag st)"
  shows "\<exists>st'. Inflate.process_gzip_data env st = Some st' \<and> \<not> (text_flag st' \<and> gzip_flag st')"
proof (cases "blocks st = []")
  case True
  then show ?thesis using flags by (simp add: Inflate.process_gzip_data_def)
next
  case ne: False
  show ?thesis
  proof (cases "case current_block st of None \<Rightarrow> Some 0 | Some i \<Rightarrow> next_block st i")
    case None
    then show ?thesis using flags ne by (simp add: Inflate.process_gzip_data_def)
  next
    case (Some i)
    show ?thesis
    proof (cases "litter_buf st = [] \<or> dist_buf st = []")
      case True
      then show ?thesis using ne Some flags by (simp add: Inflate.process_gzip_data_def)
    next
      case False
      have i: "i < length (blocks st)"
        using Some ne by (auto simp: next_block_def split: option.splits if_splits)
      then have "plain_segment (blocks st ! i)" using plain by simp
      then have "data_has (blocks st ! i) ''HTTP/1'' = Some False" "data_has (blocks st ! i) ''Content-Type:'' = Some False"
        by (simp_all add: plain_segment_def data_has_def)
      then show ?thesis using ne Some False i flags
        by (cases "text_flag st") (simp_all add: Inflate.process_gzip_data_def block_data_def Let_def)
    qed
  qed
qed

interpretation plain: returning_step "inflate_step ienv" no_page plain_segment
proof
  fix dh :: data_head and h i w
  assume dh: "\<forall>s\<in>set (down dh). plain_segment s" and w: "no_page w"
  have "\<not> (text_flag (load_head h i dh w) \<and> gzip_flag (load_head h i dh w))"
    using w by (simp add: no_page_def load_head_def Let_def)
  moreover have "blocks (load_head h i dh w) = down dh" by (simp add: load_head_def Let_def)
  ultimately obtain st where "Inflate.process_gzip_data (ienv (calls w) dh) (load_head h i dh w) = Some st"
    "\<not> (text_flag st \<and> gzip_flag st)"
    using plain_step dh by metis
  then show "\<exists>g block w'. inflate_step ienv h i dh w = Some (g, block, w') \<and> no_page w'"
    using w by (simp add: inflate_step_def store_head_def no_page_def)
qed

definition plain_event :: "event \<Rightarrow> bool" where
  "plain_event e \<longleftrightarrow> (server_data e \<longrightarrow> plain_segment (take (count_new (ev_client e)) (hdata (ev_client e))))"

section \<open>Properties\<close>

definition zero_inflater :: inflater where
  "zero_inflater = \<lparr>blocks = [], current_block = None, chunk_size = 0, Head_size = 0, Http_flag = False, text_flag = False,
     gzip_flag = False, uchunk_flag = False, lit = 0, dist = 0, litter_buf = [], dist_buf = [],
     blocked = False, hbb = 0, hbk = 0, ht = 0, he = 0, hflag = 0, hj = 0, hnb = 0, hnl = 0, hnd = 0, hll = replicate 316 0, hbl = 0,
     hbd = 0, hee = 0, hn = 0, htl = None, htd = None, htt = None, inbuf = [], insize = 0, inptr = 0, flag = 0, bb = 0,
     bk = 0, Empty = False, wp = 0, slide = \<lambda>_. 0, crc = 0, part_nb = 0, time_stamp = 0, header_bytes = 0, g_win = \<lambda>_. NUL,
     g_st = \<lambda>_. 0, sent = []\<rparr>"

definition sample_gzip_state :: "gzip_mem stream_state" where
  \<comment> \<open>at the start of the program; \<open>malloc\<close> gives buffers of zeros\<close>
  "sample_gzip_state = \<lparr>cache = init_cache, gk_state = (\<lambda>_. 0), collect = (\<lambda>_. (0, 0)), next_alloc = 0,
     gz_mem = \<lparr>head_mem = (\<lambda>_ _. zero_inflater), global_mem = zero_inflater, lit_mem = (\<lambda>_. replicate LIT_BUFSIZE NUL),
       dist_mem = (\<lambda>_. replicate LIT_BUFSIZE 0), calls = 0\<rparr>\<rparr>"

definition sample_reply :: "nat \<Rightarrow> char list \<Rightarrow> event" where
  "sample_reply a bytes = \<lparr>ev_stream = a, ev_state = NIDS_DATA,
     ev_server = \<lparr>count_new = 0, count_new_urg = 0, hdata = []\<rparr>,
     ev_client = \<lparr>count_new = length bytes, count_new_urg = 0, hdata = bytes\<rparr>\<rparr>"

text \<open>C17: whatever events libnids delivers for whatever streams, when the handler has returned from all of them
  the cache holds exactly what the contract says of every stream: the segments of each direction in order of
  arrival since the stream was last established, closed, reset, timed out or blocked, whichever streams share its bucket and
  however heads are reused.  The one way not to return is a segment from the server: the handler returns from the events
  in front of it, stores it as the contract says, and the call of \<open>process_gzip_data\<close> that follows reads or writes
  outside an object (or does not end).  While the segments from the servers are no part of an HTTP response and hold
  a zero byte, this does not happen either.  The condition on the table size is the one the configuration can break.\<close>

theorem stream_cache_refines:
  assumes "cache st = init_cache"
    and "e_table_size env \<noteq> 0" "unat (e_table_size env) \<le> DATA_CACHE_TABLE_SIZE"
    and "\<forall>e\<in>set evs. event_ok e"
  shows "(case ofold (handle_event env (inflate_step ienv)) evs st of
       Some st' \<Rightarrow> stream_data env st' = fold event_spec evs (\<lambda>_. None)
     | None \<Rightarrow> \<exists>pre e post st1. evs = pre @ e # post \<and> ofold (handle_event env (inflate_step ienv)) pre st = Some st1 \<and>
         stuck env (inflate_step ienv) e st1 (fold event_spec pre (\<lambda>_. None))) \<and>
     (no_page (gz_mem st) \<and> (\<forall>e\<in>set evs. plain_event e) \<longrightarrow> ofold (handle_event env (inflate_step ienv)) evs st \<noteq> None)"
proof
  show "no_page (gz_mem st) \<and> (\<forall>e\<in>set evs. plain_event e) \<longrightarrow> ofold (handle_event env (inflate_step ienv)) evs st \<noteq> None"
  proof
    assume *: "no_page (gz_mem st) \<and> (\<forall>e\<in>set evs. plain_event e)"
    have free: "free_heads_empty st" using assms(1) by (simp add: free_heads_empty_def init_cache_def empty_head_def)
    have empty: "plain.map_ok (\<lambda>_. None)" by (simp add: plain.map_ok_def)
    show "ofold (handle_event env (inflate_step ienv)) evs st \<noteq> None"
      by (rule plain.events_return [OF cache_rel_init [OF assms(1)] free empty])
         (use * assms(4) hash_index_less [OF assms(2,3)] in \<open>simp_all add: plain_event_def\<close>)
  qed
qed (rule stream_cache_contract [OF assms])

theorem stream_cache_refines_witness:
  "\<forall>ienv. \<exists>st'. ofold (handle_event (sample_env 1) (inflate_step ienv))
     [sample_event 1 NIDS_JUST_EST '''', sample_event 1 NIDS_DATA ''a'', sample_event 2 NIDS_DATA ''b'',
      sample_reply 2 [CHR ''d'', NUL], sample_event 1 NIDS_CLOSE '''', sample_event 2 NIDS_DATA ''c'']
     sample_gzip_state = Some st' \<and>
     stream_data (sample_env 1) st' 1 = None \<and>
     stream_data (sample_env 1) st' 2 = Some ([''b'', ''c''], [[CHR ''d'', NUL]])"
proof
  fix ienv
  let ?evs = "[sample_event 1 NIDS_JUST_EST '''', sample_event 1 NIDS_DATA ''a'', sample_event 2 NIDS_DATA ''b'',
      sample_reply 2 [CHR ''d'', NUL], sample_event 1 NIDS_CLOSE '''', sample_event 2 NIDS_DATA ''c'']"
  let ?run = "ofold (handle_event (sample_env 1) (inflate_step ienv)) ?evs sample_gzip_state"
  have st: "cache sample_gzip_state = init_cache" "no_page (gz_mem sample_gzip_state)"
    by (simp_all add: sample_gzip_state_def no_page_def zero_inflater_def)
  have "plain_segment [CHR ''d'', NUL]"
    by (simp add: plain_segment_def cstr_def occurs_def strstr.simps)
  then have evs: "\<forall>e\<in>set ?evs. event_ok e" "\<forall>e\<in>set ?evs. plain_event e"
    by (simp_all add: sample_event_def sample_reply_def event_ok_def plain_event_def server_data_def)
  have r: "(case ?run of
       Some st' \<Rightarrow> stream_data (sample_env 1) st' = fold event_spec ?evs (\<lambda>_. None)
     | None \<Rightarrow> \<exists>pre e post st1. ?evs = pre @ e # post \<and>
         ofold (handle_event (sample_env 1) (inflate_step ienv)) pre sample_gzip_state = Some st1 \<and>
         stuck (sample_env 1) (inflate_step ienv) e st1 (fold event_spec pre (\<lambda>_. None))) \<and>
     (no_page (gz_mem sample_gzip_state) \<and> (\<forall>e\<in>set ?evs. plain_event e) \<longrightarrow> ?run \<noteq> None)"
    by (rule stream_cache_refines [OF st(1) _ _ evs(1)]) (simp_all add: sample_env_def DATA_CACHE_TABLE_SIZE_def)
  then obtain st' where st': "?run = Some st'" using st(2) evs(2) by blast
  then have "stream_data (sample_env 1) st' = fold event_spec ?evs (\<lambda>_. None)" using r by simp
  moreover have "fold event_spec ?evs (\<lambda>_. None) = (\<lambda>_. None)(2 := Some ([''b'', ''c''], [[CHR ''d'', NUL]]))"
    by (simp add: sample_event_def sample_reply_def event_spec_def map_insert_def Let_def)
  ultimately show "\<exists>st'. ?run = Some st' \<and> stream_data (sample_env 1) st' 1 = None \<and>
      stream_data (sample_env 1) st' 2 = Some ([''b'', ''c''], [[CHR ''d'', NUL]])"
    using st' by auto
qed

text \<open>The other case is real: a server whose first segment is no response and has no zero byte, such as the banner
  of a mail server, takes \<open>strstr\<close> past the end of the segment (\<^verbatim>\<open>copeungz.c\<close>, line 1507).\<close>

lemma unterminated_segment_undefined:
  assumes "NUL \<notin> set s" "\<not> occurs ''HTTP/1'' s" "hash_index env a < DATA_CACHE_TABLE_SIZE"
    and "cache st (hash_index env a) = [empty_head]"
    and "lit_mem (gz_mem st) (next_alloc st + 1) \<noteq> []" "dist_mem (gz_mem st) (next_alloc st) \<noteq> []"
  shows "insert_new_data_segment env (inflate_step ienv) a s False st = None"
proof -
  let ?h = "hash_index env a"
  have find: "find_stream [empty_head] a = 0" by (simp add: find_stream_def)
  have head: "a_tcp empty_head = None" "gz_dist_buf (gz empty_head) = None" "gz_litter_buf (gz empty_head) = None"
    by (simp_all add: empty_head_def)
  have data: "data_has s ''HTTP/1'' = None"
  proof -
    have "cstr s = s" using assms(1) by (auto simp: cstr_def takeWhile_eq_all_conv)
    then show ?thesis using assms(1,2) by (simp add: data_has_def)
  qed
  have none: "Inflate.process_gzip_data e (load_head ?h 0 dh w) = None"
    if "down dh = [s]" "gz_current_block (gz dh) = None" "gz_litter_buf (gz dh) = Some n" "gz_dist_buf (gz dh) = Some k"
      "lit_mem w n \<noteq> []" "dist_mem w k \<noteq> []" for dh w e n k
    using that data by (simp add: Inflate.process_gzip_data_def load_head_def block_data_def Let_def)
  show ?thesis
    using assms(3-6) by (simp add: insert_new_data_segment_def bucket_def find StreamCache.process_gzip_data_def
        set_head_def inflate_step_def none head Let_def)
qed

lemma unterminated_segment_undefined_witness:
  "insert_new_data_segment (sample_env 1) (inflate_step ienv) 1 ''220 smtp'' False sample_gzip_state = None"
  by (rule unterminated_segment_undefined)
     (simp_all add: sample_index DATA_CACHE_TABLE_SIZE_def sample_gzip_state_def init_cache_def LIT_BUFSIZE_def
       occurs_def strstr.simps)

section \<open>A stream without buffers\<close>

definition live_others :: "nat \<Rightarrow> data_head list \<Rightarrow> bool" where
  "live_others a chain \<longleftrightarrow> (\<forall>dh\<in>set chain. a_tcp dh \<noteq> None \<and> a_tcp dh \<noteq> Some a)"

definition no_buffers :: "nat \<Rightarrow> data_head \<Rightarrow> bool" where
  "no_buffers a dh \<longleftrightarrow> a_tcp dh = Some a \<and> gz_litter_buf (gz dh) = None \<and> gz_dist_buf (gz dh) = None"

lemma find_last:
  assumes "live_others a C" "a_tcp d = Some a"
  shows "find_stream (C @ [d]) a = length C"
proof -
  let ?i = "find_stream (C @ [d]) a"
  have "?i < length (C @ [d])" by (rule find_stream_spec(1)) simp
  moreover have "a_tcp ((C @ [d]) ! ?i) = Some a"
    by (rule find_stream_spec(2), simp) (use assms(2) in \<open>auto intro!: exI [of _ "length C"] simp: nth_append\<close>)
  ultimately show ?thesis using assms(1) by (auto simp: nth_append live_others_def less_Suc_eq split: if_splits)
qed

text \<open>\<open>process_gzip_data\<close> returns at once from a head without buffers.\<close>

lemma step_no_buffers:
  assumes "no_buffers a dh"
  shows "\<exists>b w'. inflate_step ienv h i dh w = Some ((gz dh)\<lparr>gz_current_block := b\<rparr>, False, w') \<and>
    sent (global_mem w') = sent (global_mem w)"
proof -
  let ?st = "load_head h i dh w"
  have ld: "litter_buf ?st = []" "blocked ?st = False" "lit ?st = gz_lit (gz dh)" "dist ?st = gz_dist (gz dh)"
    "sent ?st = sent (global_mem w)"
    using assms by (simp_all add: load_head_def no_buffers_def Let_def)
  have "\<exists>b. Inflate.process_gzip_data (ienv (calls w) dh) ?st = Some (?st\<lparr>current_block := b\<rparr>)"
  proof (cases "blocks ?st = [] \<or> (case current_block ?st of None \<Rightarrow> Some 0 | Some i \<Rightarrow> next_block ?st i) = None")
    case True
    then have "Inflate.process_gzip_data (ienv (calls w) dh) ?st = Some (?st\<lparr>current_block := current_block ?st\<rparr>)"
      by (auto simp: Inflate.process_gzip_data_def)
    then show ?thesis by blast
  next
    case False
    then obtain k where "(case current_block ?st of None \<Rightarrow> Some 0 | Some i \<Rightarrow> next_block ?st i) = Some k" by auto
    then show ?thesis using False ld(1)
      by (intro exI [of _ "Some k"]) (simp add: Inflate.process_gzip_data_def Let_def)
  qed
  then obtain b where "inflate_step ienv h i dh w = Some (store_head h i dh (?st\<lparr>current_block := b\<rparr>) w)"
    by (auto simp: inflate_step_def)
  then show ?thesis using ld by (intro exI [of _ b]) (simp add: store_head_def)
qed

lemma insert_no_buffers:
  assumes idx: "hash_index env a < DATA_CACHE_TABLE_SIZE" and chain: "cache st (hash_index env a) = C @ [d]"
    and C: "live_others a C" and d: "no_buffers a d"
  shows "\<exists>st' d'. insert_new_data_segment env (inflate_step ienv) a s False st = Some st' \<and>
    cache st' (hash_index env a) = C @ [d'] \<and> no_buffers a d' \<and> up d' = up d \<and> down d' = down d @ [s] \<and>
    gk_state st' = gk_state st \<and> sent (global_mem (gz_mem st')) = sent (global_mem (gz_mem st))"
proof -
  let ?h = "hash_index env a"
  have a: "a_tcp d = Some a" using d by (simp add: no_buffers_def)
  note find = find_last [OF C a]
  let ?d = "d\<lparr>down := down d @ [s]\<rparr>"
  have "no_buffers a ?d" using d by (simp add: no_buffers_def)
  from step_no_buffers [OF this, of ienv ?h "length C" "gz_mem st"] obtain b w' where
    f: "inflate_step ienv ?h (length C) ?d (gz_mem st) = Some ((gz ?d)\<lparr>gz_current_block := b\<rparr>, False, w')"
    "sent (global_mem w') = sent (global_mem (gz_mem st))" by blast
  have "insert_new_data_segment env (inflate_step ienv) a s False st =
      Some ((set_head ?h (length C) (?d\<lparr>gz := (gz d)\<lparr>gz_current_block := b\<rparr>\<rparr>) (set_head ?h (length C) ?d st))\<lparr>gz_mem := w'\<rparr>)"
    using a idx f(1) find by (simp add: insert_new_data_segment_def bucket_def chain StreamCache.process_gzip_data_def set_head_def Let_def)
  then show ?thesis using f(2) d chain by (simp add: set_head_def no_buffers_def)
qed

text \<open>C35: In a bucket whose heads are all in use, the next stream is never searched: its request opens a head without
  buffers (they are allocated for the head in front of it), and whatever the server sends on it, compressed pages with
  keywords included, is stored but sends no line and blocks nothing (no other event of the bucket comes between: one
  more stream would give the head its buffers).\<close>

theorem second_stream_unfiltered:
  assumes "hash_index env a < DATA_CACHE_TABLE_SIZE"
    and "cache st (hash_index env a) = chain" "chain \<noteq> []"
    and "\<forall>dh\<in>set chain. a_tcp dh \<noteq> None \<and> a_tcp dh \<noteq> Some a"
  shows "\<exists>st1 st2. insert_new_data_segment env (inflate_step ienv) a request True st = Some st1 \<and>
    ofold (\<lambda>s. insert_new_data_segment env (inflate_step ienv) a s False) replies st1 = Some st2 \<and>
    stream_data env st2 a = Some ([request], replies) \<and> gk_state st2 = gk_state st \<and>
    sent (global_mem (gz_mem st2)) = sent (global_mem (gz_mem st))"
proof -
  let ?h = "hash_index env a"
  have more: "\<exists>st' d'. ofold (\<lambda>s. insert_new_data_segment env (inflate_step ienv) a s False) ss st = Some st' \<and>
    cache st' ?h = C @ [d'] \<and> no_buffers a d' \<and> up d' = up d \<and> down d' = down d @ ss \<and>
    gk_state st' = gk_state st \<and> sent (global_mem (gz_mem st')) = sent (global_mem (gz_mem st))"
    if "cache st ?h = C @ [d]" "live_others a C" "no_buffers a d" for ss st C d
    using that(1,3)
  proof (induction ss arbitrary: st d)
    case (Cons s ss)
    from insert_no_buffers [OF assms(1) Cons.prems(1) that(2) Cons.prems(2), of ienv s] obtain st1 d1 where
      1: "insert_new_data_segment env (inflate_step ienv) a s False st = Some st1" "cache st1 ?h = C @ [d1]"
      "no_buffers a d1" "up d1 = up d" "down d1 = down d @ [s]" "gk_state st1 = gk_state st"
      "sent (global_mem (gz_mem st1)) = sent (global_mem (gz_mem st))" by blast
    from Cons.IH [OF 1(2,3)] show ?case using 1 by simp
  qed simp
  define i where "i = find_stream chain a"
  define C where "C = take i chain @ [(chain ! i)\<lparr>gz := (gz (chain ! i))\<lparr>gz_dist_buf := Some (next_alloc st), gz_litter_buf := Some (next_alloc st + 1)\<rparr>\<rparr>]"
  define d where "d = empty_head\<lparr>a_tcp := Some a, up := [request]\<rparr>"
  have "i < length chain" unfolding i_def by (rule find_stream_spec(1) [OF assms(3)])
  then have i: "chain ! i \<in> set chain" by simp
  then obtain c where c: "a_tcp (chain ! i) = Some c" "c \<noteq> a" using assms(4) by blast
  have live: "live_others a C" using i assms(4) by (auto simp: C_def live_others_def dest: in_set_takeD)
  have d: "no_buffers a d" "up d = [request]" "down d = []" by (simp_all add: d_def no_buffers_def empty_head_def)
  define st1 where "st1 = st\<lparr>cache := (cache st)(?h := C @ [d]), next_alloc := next_alloc st + 2\<rparr>"
  have st1: "insert_new_data_segment env (inflate_step ienv) a request True st = Some st1"
    using assms(1,2) c by (simp add: insert_new_data_segment_def bucket_def Let_def i_def [symmetric] st1_def C_def d_def)
  have c1: "cache st1 ?h = C @ [d]" "gk_state st1 = gk_state st" "gz_mem st1 = gz_mem st" by (simp_all add: st1_def)
  from more [OF c1(1) live d(1), of replies] obtain st2 d2 where
    2: "ofold (\<lambda>s. insert_new_data_segment env (inflate_step ienv) a s False) replies st1 = Some st2" "cache st2 ?h = C @ [d2]"
    "no_buffers a d2" "up d2 = [request]" "down d2 = replies" "gk_state st2 = gk_state st"
    "sent (global_mem (gz_mem st2)) = sent (global_mem (gz_mem st))"
    using d c1 by auto
  have "a_tcp d2 = Some a" using 2(3) by (simp add: no_buffers_def)
  then have "stream_data env st2 a = Some ([request], replies)"
    using find_last [OF live] 2(2,4,5) by (simp add: stream_data_def Let_def)
  then show ?thesis using st1 2 by blast
qed

theorem second_stream_unfiltered_witness:
  "\<forall>ienv. \<exists>st1 st2. insert_new_data_segment (sample_env 1) (inflate_step ienv) 1 ''x'' True
      (sample_gzip_state\<lparr>cache := (\<lambda>_. [empty_head\<lparr>a_tcp := Some 7\<rparr>])\<rparr>) = Some st1 \<and>
    ofold (\<lambda>s. insert_new_data_segment (sample_env 1) (inflate_step ienv) 1 s False) [''HTTP/1.1 200 OK'', ''y''] st1 = Some st2 \<and>
    stream_data (sample_env 1) st2 1 = Some ([''x''], [''HTTP/1.1 200 OK'', ''y'']) \<and> sent (global_mem (gz_mem st2)) = []"
proof
  fix ienv
  let ?st = "sample_gzip_state\<lparr>cache := (\<lambda>_. [empty_head\<lparr>a_tcp := Some 7\<rparr>])\<rparr>"
  have "sent (global_mem (gz_mem ?st)) = []" by (simp add: sample_gzip_state_def zero_inflater_def)
  then show "\<exists>st1 st2. insert_new_data_segment (sample_env 1) (inflate_step ienv) 1 ''x'' True ?st = Some st1 \<and>
    ofold (\<lambda>s. insert_new_data_segment (sample_env 1) (inflate_step ienv) 1 s False) [''HTTP/1.1 200 OK'', ''y''] st1 = Some st2 \<and>
    stream_data (sample_env 1) st2 1 = Some ([''x''], [''HTTP/1.1 200 OK'', ''y'']) \<and> sent (global_mem (gz_mem st2)) = []"
    using second_stream_unfiltered [of "sample_env 1" 1 ?st "[empty_head\<lparr>a_tcp := Some 7\<rparr>]" ienv "''x''" "[''HTTP/1.1 200 OK'', ''y'']"]
    by (auto simp: sample_index DATA_CACHE_TABLE_SIZE_def)
qed

end
