(* ===== verification/Config.thy ===== *)
theory Config
  imports CPrelude Hash
begin

text \<open>
  The start-up of \<^verbatim>\<open>get_data.c\<close>: the file \<^verbatim>\<open>config.txt\<close> with the devices, addresses and sizes, and
  the filters of frames that use them; \<^verbatim>\<open>packet_send.c\<close>, which sends a frame back.

  The file is the list of its bytes, or none when it cannot be opened; the addresses of the devices (an \<open>ioctl\<close>) and the
  number of bytes that the kernel has sent are arguments.
\<close>

section \<open>State\<close>

type_synonym mac = "8 word list"

definition ETH_ALEN :: nat where "ETH_ALEN = 6"

record nids_prm =
  \<comment> \<open>the fields of libnids' \<open>nids_params\<close> that the program sets\<close>
  device :: string
  pcap_timeout :: int
  send_time_out :: int
  tcp_flow_timeout :: int
  pkt_queue_num :: int
  promisc :: int
  n_hosts :: int
  n_tcp_streams :: int
  queue_limit :: int
  nids_up_router :: mac
  nids_down_router :: mac
  nids_my_mac :: mac

record capture =
  dev_up :: string
  dev_down :: string
  g_dev :: string
  up_mac :: mac
  down_mac :: mac
  my_mac :: mac
  gk_method :: int
  nids_params :: nids_prm

definition up_router_mac :: mac where
  \<comment> \<open>never assigned: the address in the file goes to \<open>nids_params\<close>\<close>
  "up_router_mac = [0xff, 0xff, 0xff, 0xff, 0xff, 0xce]"

definition mac_broadcast :: mac where
  "mac_broadcast = replicate ETH_ALEN 0xff"

definition init_default :: "capture \<Rightarrow> capture" where
  "init_default st = st\<lparr>g_dev := ''eth1'', nids_params := (nids_params st)\<lparr>device := ''eth1'', send_time_out := 10000, tcp_flow_timeout := 6000,
     pkt_queue_num := 5, promisc := 0, n_hosts := 1000000, n_tcp_streams := int DATA_CACHE_TABLE_SIZE, queue_limit := 500000,
     pcap_timeout := 1\<rparr>\<rparr>"

section \<open>Reading words and numbers\<close>

definition fscanf_s :: "nat \<Rightarrow> char list \<Rightarrow> (string option \<times> char list) option" where
  \<comment> \<open>a word into an array of \<open>n\<close> bytes; \<open>None\<close> within is \<open>EOF\<close>\<close>
  "fscanf_s n inp =
     (let u = dropWhile isspace inp; w = takeWhile (\<lambda>c. \<not> isspace c) u in
      if w = [] then Some (None, [])
      else if n \<le> length w then None
      else Some (Some (cstr w), drop (length w) u))"

datatype scanned = EOF | NoMatch | Number int

definition fscanf_d :: "char list \<Rightarrow> (scanned \<times> char list) option" where
  "fscanf_d inp =
     (let u = dropWhile isspace inp;
          v = (if prefix ''-'' u \<or> prefix ''+'' u then tl u else u);
          ds = takeWhile is_digit v in
      if u = [] then Some (EOF, [])
      else if ds = [] then Some (NoMatch, v)
      else do { k \<leftarrow> atoi u; Some (Number k, drop (length ds) v) })"

definition hex_nibble :: "char \<Rightarrow> int" where
  "hex_nibble c = (if 0 \<le> of_char c - (48 :: int) \<and> of_char c - (48 :: int) \<le> 9 then of_char c - 48 else of_char c - 97 + 10)"

definition str_to_mac :: "string \<Rightarrow> mac option" where
  "str_to_mac str =
     (if length str \<noteq> 17 then None
      else Some (map (\<lambda>i. word_of_int (hex_nibble (str ! (3 * i)) * 16) + word_of_int (hex_nibble (str ! (3 * i + 1)))) [0..<6]))"

definition devname_to_mac :: "(string \<Rightarrow> mac option) \<Rightarrow> string \<Rightarrow> mac option" where
  \<comment> \<open>\<open>ifr_name\<close> has 16 bytes\<close>
  "devname_to_mac hwaddr devname = map_option (take 6) (hwaddr (take 15 devname))"

section \<open>The configuration file\<close>

definition read_dev :: "(string \<Rightarrow> mac option) \<Rightarrow> (string \<Rightarrow> capture \<Rightarrow> capture) \<Rightarrow> (mac \<Rightarrow> capture \<Rightarrow> capture) \<Rightarrow>
    char list \<Rightarrow> capture \<Rightarrow> (bool \<times> char list \<times> capture) option" where
  \<comment> \<open>the branches \<open>dev_up\<close> and \<open>dev_down\<close>; false is \<open>goto error\<close>\<close>
  "read_dev hwaddr put_name put_mac inp st = do {
     (w, rest) \<leftarrow> fscanf_s 10 inp;
     Some (case w of None \<Rightarrow> (False, rest, st)
       | Some w \<Rightarrow> (case devname_to_mac hwaddr w of None \<Rightarrow> (False, rest, put_name w st)
           | Some m \<Rightarrow> (True, rest, put_mac m (put_name w st)))) }"

definition read_mac :: "(mac \<Rightarrow> capture \<Rightarrow> capture) \<Rightarrow> char list \<Rightarrow> capture \<Rightarrow> (bool \<times> char list \<times> capture) option" where
  "read_mac put inp st = do {
     (w, rest) \<leftarrow> fscanf_s 20 inp;
     Some (case w of None \<Rightarrow> (False, rest, st)
       | Some w \<Rightarrow> (case str_to_mac w of None \<Rightarrow> (False, rest, st) | Some m \<Rightarrow> (True, rest, put m st))) }"

definition read_int :: "(int \<Rightarrow> capture \<Rightarrow> capture) \<Rightarrow> char list \<Rightarrow> capture \<Rightarrow> (bool \<times> char list \<times> capture) option" where
  "read_int put inp st = do {
     (r, rest) \<leftarrow> fscanf_d inp;
     Some (case r of Number k \<Rightarrow> (True, rest, put k st) | _ \<Rightarrow> (False, rest, st)) }"

definition read_method :: "char list \<Rightarrow> capture \<Rightarrow> (bool \<times> char list \<times> capture) option" where
  \<comment> \<open>without a number the method stays as it is\<close>
  "read_method inp st = do {
     (r, rest) \<leftarrow> fscanf_d inp;
     Some (case r of EOF \<Rightarrow> (False, rest, st)
       | _ \<Rightarrow> (let st = (case r of Number k \<Rightarrow> st\<lparr>gk_method := k\<rparr> | _ \<Rightarrow> st) in
           (gk_method st = 5 \<or> gk_method st = 2 \<or> gk_method st = 4, rest, st))) }"

abbreviation put_nids :: "(nids_prm \<Rightarrow> nids_prm) \<Rightarrow> capture \<Rightarrow> capture" where
  "put_nids f st \<equiv> st\<lparr>nids_params := f (nids_params st)\<rparr>"

definition config_item :: "(string \<Rightarrow> mac option) \<Rightarrow> string \<Rightarrow> char list \<Rightarrow> capture \<Rightarrow> (bool \<times> char list \<times> capture) option" where
  "config_item hwaddr bf inp st =
     (if bf = ''dev_up'' then read_dev hwaddr (\<lambda>w st. st\<lparr>dev_up := w\<rparr>) (\<lambda>m st. st\<lparr>up_mac := m\<rparr>) inp st
      else if bf = ''dev_down'' then read_dev hwaddr (\<lambda>w st. st\<lparr>dev_down := w\<rparr>) (\<lambda>m st. st\<lparr>down_mac := m\<rparr>) inp st
      else if bf = ''up_router_mac'' then read_mac (\<lambda>m. put_nids (\<lambda>p. p\<lparr>nids_up_router := m\<rparr>)) inp st
      else if bf = ''down_router_mac'' then read_mac (\<lambda>m. put_nids (\<lambda>p. p\<lparr>nids_down_router := m\<rparr>)) inp st
      else if bf = ''my_mac'' then read_mac (\<lambda>m st. put_nids (\<lambda>p. p\<lparr>nids_my_mac := m\<rparr>) (st\<lparr>my_mac := m\<rparr>)) inp st
      else if bf = ''tcp_stream_table_size'' then read_int (\<lambda>k. put_nids (\<lambda>p. p\<lparr>n_tcp_streams := k\<rparr>)) inp st
      else if bf = ''packet_send_time_out'' then read_int (\<lambda>k. put_nids (\<lambda>p. p\<lparr>send_time_out := k\<rparr>)) inp st
      else if bf = ''packet_queue_limit'' then read_int (\<lambda>k. put_nids (\<lambda>p. p\<lparr>queue_limit := k\<rparr>)) inp st
      else if bf = ''capture_time_out'' then read_int (\<lambda>k. put_nids (\<lambda>p. p\<lparr>pcap_timeout := k\<rparr>)) inp st
      else if bf = ''ip_table_size'' then read_int (\<lambda>k. put_nids (\<lambda>p. p\<lparr>n_hosts := k\<rparr>)) inp st
      else if bf = ''gk_method'' then read_method inp st
      else Some (False, inp, st))"

lemma fscanf_s_length:
  assumes "fscanf_s n inp = Some (w, rest)"
  shows "length rest \<le> length inp \<and> (w \<noteq> None \<longrightarrow> length rest < length inp)"
proof -
  define u where "u = dropWhile isspace inp"
  define v where "v = takeWhile (\<lambda>c. \<not> isspace c) u"
  have r: "if v = [] then w = None \<and> rest = [] else rest = drop (length v) u"
    using assms by (auto simp: fscanf_s_def Let_def u_def [symmetric] v_def [symmetric] split: if_splits)
  have l: "length u \<le> length inp" unfolding u_def by (rule length_dropWhile_le)
  show ?thesis
  proof (cases "v = []")
    case False
    then have "0 < length v" "0 < length u" by (auto simp: v_def)
    then have "length u - length v < length u" by simp
    then show ?thesis using r l False by simp
  qed (use r in simp)
qed

lemma fscanf_d_length: "fscanf_d inp = Some (r, rest) \<Longrightarrow> length rest \<le> length inp"
proof -
  assume a: "fscanf_d inp = Some (r, rest)"
  let ?u = "dropWhile isspace inp" let ?v = "if prefix ''-'' ?u \<or> prefix ''+'' ?u then tl ?u else ?u"
  have u: "length ?u \<le> length inp" by (rule length_dropWhile_le)
  then have "length ?v \<le> length inp" by (simp split: if_split) linarith
  then show ?thesis using a by (auto simp: fscanf_d_def Let_def bind_Some_iff split: if_splits)
qed

lemma config_item_length: "config_item hwaddr bf inp st = Some (ok, rest, st') \<Longrightarrow> length rest \<le> length inp"
proof -
  have dev: "length rest \<le> length inp" if "read_dev hwaddr f g inp st = Some (ok, rest, st')" for f g ok rest st'
    using that fscanf_s_length [of 10 inp] by (auto simp: read_dev_def bind_Some_iff split: option.split_asm)
  have mac: "length rest \<le> length inp" if "read_mac f inp st = Some (ok, rest, st')" for f ok rest st'
    using that fscanf_s_length [of 20 inp] by (auto simp: read_mac_def bind_Some_iff split: option.split_asm)
  have num: "length rest \<le> length inp" if "read_int f inp st = Some (ok, rest, st')" for f ok rest st'
  proof (cases "fscanf_d inp")
    case (Some q)
    then obtain r z where q: "fscanf_d inp = Some (r, z)" by (cases q) simp
    then have "length z \<le> length inp" by (rule fscanf_d_length)
    then show ?thesis using that q by (cases r) (simp_all add: read_int_def)
  qed (use that in \<open>simp add: read_int_def\<close>)
  have mode: "length rest \<le> length inp" if "read_method inp st = Some (ok, rest, st')" for ok rest st'
  proof (cases "fscanf_d inp")
    case (Some q)
    then obtain r z where q: "fscanf_d inp = Some (r, z)" by (cases q) simp
    then have "length z \<le> length inp" by (rule fscanf_d_length)
    then show ?thesis using that q by (cases r) (simp_all add: read_method_def Let_def)
  qed (use that in \<open>simp add: read_method_def\<close>)
  assume "config_item hwaddr bf inp st = Some (ok, rest, st')"
  then show ?thesis unfolding config_item_def by (simp split: if_splits add: dev mac num mode)
qed

function config_loop :: "(string \<Rightarrow> mac option) \<Rightarrow> char list \<Rightarrow> capture \<Rightarrow> (int \<times> capture) option" where
  "config_loop hwaddr inp st = (case fscanf_s 20 inp of
      None \<Rightarrow> None
    | Some (None, rest) \<Rightarrow> Some (0, st)
    | Some (Some bf, rest) \<Rightarrow> (case config_item hwaddr bf rest st of
        None \<Rightarrow> None
      | Some (ok, rest', st') \<Rightarrow> if ok then config_loop hwaddr rest' st' else Some (-1, st')))"
  by auto
termination
proof (relation "measure (\<lambda>(hwaddr, inp, st). length inp)", simp, unfold measure_def inv_image_def, goal_cases)
  case (1 hwaddr inp st q w rest bf r ok z rest' st')
  then have "length rest < length inp" "length rest' \<le> length rest"
    using fscanf_s_length [of 20 inp] config_item_length by fastforce+
  then show ?case by simp
qed

declare config_loop.simps [simp del]

definition read_config :: "(string \<Rightarrow> mac option) \<Rightarrow> char list option \<Rightarrow> capture \<Rightarrow> (int \<times> capture) option" where
  "read_config hwaddr inp st = (case inp of None \<Rightarrow> Some (-1, st) | Some f \<Rightarrow> config_loop hwaddr f st)"

section \<open>Frames\<close>

definition read_at :: "'a list \<Rightarrow> nat \<Rightarrow> 'a option" where
  "read_at xs i = (if i < length xs then Some (xs ! i) else None)"

definition mac_equal :: "mac \<Rightarrow> mac \<Rightarrow> bool option" where
  \<comment> \<open>only the last byte is compared\<close>
  "mac_equal packet_mac m = do { x \<leftarrow> read_at packet_mac (ETH_ALEN - 1); y \<leftarrow> read_at m (ETH_ALEN - 1); Some (x = y) }"

definition ether_dhost :: "8 word list \<Rightarrow> mac" where "ether_dhost packet = take ETH_ALEN packet"

definition ether_shost :: "8 word list \<Rightarrow> mac" where "ether_shost packet = take ETH_ALEN (drop ETH_ALEN packet)"

definition mac_filter :: "8 word list \<Rightarrow> nat \<Rightarrow> int option" where
  "mac_filter packet dev =
     (if dev = 0
      then do {
        own \<leftarrow> mac_equal (ether_shost packet) up_router_mac;
        (if own then Some 0
         else do {
           a \<leftarrow> mac_equal (ether_dhost packet) up_router_mac;
           b \<leftarrow> mac_equal (ether_dhost packet) mac_broadcast;
           Some (of_bool a + of_bool b) }) }
      else if dev = 1 then map_option of_bool (mac_equal (ether_shost packet) up_router_mac)
      else Some 0)"

definition g_filter :: "capture \<Rightarrow> 8 word list \<Rightarrow> int option" where
  "g_filter st packet = do {
     x \<leftarrow> read_at packet 12;
     (if x \<noteq> 0x88 then Some 0
      else do {
        y \<leftarrow> read_at packet 13;
        (if y \<noteq> 0xa8 then Some 0 else map_option of_bool (mac_equal (ether_dhost packet) (my_mac st))) }) }"

definition packet_send_link :: "(8 word list \<Rightarrow> int) \<Rightarrow> 8 word list \<Rightarrow> (int \<times> 8 word list) option" where
  \<comment> \<open>the frame goes out, and stays, with its addresses exchanged; \<open>sendto\<close> is the result of the call\<close>
  "packet_send_link sendto packet =
     (if length packet < 2 * ETH_ALEN then None
      else let packet = ether_shost packet @ ether_dhost packet @ drop (2 * ETH_ALEN) packet;
               bytes = sendto packet
           in Some (if bytes < 0 \<or> bytes < int (length packet) then -1 else bytes, packet))"

definition packet_send :: "(8 word list \<Rightarrow> int) \<Rightarrow> (8 word list \<Rightarrow> int) \<Rightarrow> 8 word list \<Rightarrow> nat \<Rightarrow> (8 word list) option" where
  \<comment> \<open>a failure is only printed\<close>
  "packet_send net_down net_up packet dev =
     (if dev = 0 then map_option snd (packet_send_link net_down packet)
      else if dev = 1 then map_option snd (packet_send_link net_up packet)
      else Some packet)"

definition g_packet_send :: "(8 word list \<Rightarrow> int) \<Rightarrow> 8 word list \<Rightarrow> (8 word list) option" where
  "g_packet_send g_net packet = map_option snd (packet_send_link g_net packet)"

section \<open>The start\<close>

definition system_init :: "(string \<Rightarrow> mac option) \<Rightarrow> char list option \<Rightarrow> bool \<Rightarrow> capture \<Rightarrow> capture option option" where
  \<comment> \<open>up to the memset of the table; the inner \<open>None\<close> is an exit, the third argument the result of \<open>nids_init\<close>\<close>
  "system_init hwaddr inp nids_init st = do {
     (r, st) \<leftarrow> read_config hwaddr inp (init_default st);
     Some (if r = -1 \<or> \<not> nids_init then None else Some st) }"

section \<open>Files as they are written\<close>

datatype setting =
    DevUp string | DevDown string | UpRouter mac | DownRouter mac | MyMac mac | TableSize int | SendTimeOut int | QueueLimit int
  | CaptureTimeOut int | IpTableSize int | Method int | Other string

definition hex_char_of :: "nat \<Rightarrow> char" where
  "hex_char_of n = (if n < 10 then char_of (48 + n) else char_of (87 + n))"

definition mac_text :: "mac \<Rightarrow> string" where
  "mac_text m = concat (map (\<lambda>i. (if i = 0 then [] else '':'') @
     [hex_char_of (unat (m ! i) div 16), hex_char_of (unat (m ! i) mod 16)]) [0..<6])"

fun setting_key :: "setting \<Rightarrow> string" where
  "setting_key (DevUp d) = ''dev_up''" | "setting_key (DevDown d) = ''dev_down''" | "setting_key (UpRouter m) = ''up_router_mac''"
| "setting_key (DownRouter m) = ''down_router_mac''" | "setting_key (MyMac m) = ''my_mac''" | "setting_key (TableSize k) = ''tcp_stream_table_size''"
| "setting_key (SendTimeOut k) = ''packet_send_time_out''" | "setting_key (QueueLimit k) = ''packet_queue_limit''"
| "setting_key (CaptureTimeOut k) = ''capture_time_out''" | "setting_key (IpTableSize k) = ''ip_table_size''"
| "setting_key (Method k) = ''gk_method''" | "setting_key (Other w) = w"

fun setting_value :: "setting \<Rightarrow> string" where
  "setting_value (DevUp d) = d" | "setting_value (DevDown d) = d" | "setting_value (UpRouter m) = mac_text m"
| "setting_value (DownRouter m) = mac_text m" | "setting_value (MyMac m) = mac_text m" | "setting_value (TableSize k) = sprintf_d k"
| "setting_value (SendTimeOut k) = sprintf_d k" | "setting_value (QueueLimit k) = sprintf_d k"
| "setting_value (CaptureTimeOut k) = sprintf_d k" | "setting_value (IpTableSize k) = sprintf_d k"
| "setting_value (Method k) = sprintf_d k" | "setting_value (Other w) = []"

definition setting_line :: "setting \<Rightarrow> string" where
  "setting_line s = setting_key s @ '' '' @ setting_value s @ [CHR 0x0A]"

definition word_ok :: "nat \<Rightarrow> string \<Rightarrow> bool" where
  \<comment> \<open>a word that fits into an array of \<open>n\<close> bytes\<close>
  "word_ok n w \<longleftrightarrow> w \<noteq> [] \<and> length w < n \<and> (\<forall>c\<in>set w. \<not> isspace c \<and> c \<noteq> NUL)"

definition known_keys :: "string list" where
  "known_keys = [''dev_up'', ''dev_down'', ''up_router_mac'', ''down_router_mac'', ''my_mac'', ''tcp_stream_table_size'',
     ''packet_send_time_out'', ''packet_queue_limit'', ''capture_time_out'', ''ip_table_size'', ''gk_method'']"

fun setting_ok :: "setting \<Rightarrow> bool" where
  "setting_ok (DevUp d) \<longleftrightarrow> word_ok 10 d" | "setting_ok (DevDown d) \<longleftrightarrow> word_ok 10 d" | "setting_ok (UpRouter m) \<longleftrightarrow> length m = 6"
| "setting_ok (DownRouter m) \<longleftrightarrow> length m = 6" | "setting_ok (MyMac m) \<longleftrightarrow> length m = 6"
| "setting_ok (Other w) \<longleftrightarrow> word_ok 20 w \<and> w \<notin> set known_keys"
| "setting_ok (TableSize k) \<longleftrightarrow> - (2 ^ 31) \<le> k \<and> k < 2 ^ 31" | "setting_ok (SendTimeOut k) \<longleftrightarrow> - (2 ^ 31) \<le> k \<and> k < 2 ^ 31"
| "setting_ok (QueueLimit k) \<longleftrightarrow> - (2 ^ 31) \<le> k \<and> k < 2 ^ 31" | "setting_ok (CaptureTimeOut k) \<longleftrightarrow> - (2 ^ 31) \<le> k \<and> k < 2 ^ 31"
| "setting_ok (IpTableSize k) \<longleftrightarrow> - (2 ^ 31) \<le> k \<and> k < 2 ^ 31" | "setting_ok (Method k) \<longleftrightarrow> - (2 ^ 31) \<le> k \<and> k < 2 ^ 31"

fun accepted :: "(string \<Rightarrow> mac option) \<Rightarrow> setting \<Rightarrow> bool" where
  "accepted hwaddr (DevUp d) \<longleftrightarrow> hwaddr d \<noteq> None"
| "accepted hwaddr (DevDown d) \<longleftrightarrow> hwaddr d \<noteq> None"
| "accepted hwaddr (Method k) \<longleftrightarrow> k \<in> {2, 4, 5}"
| "accepted hwaddr (Other w) \<longleftrightarrow> False"
| "accepted hwaddr _ \<longleftrightarrow> True"

fun enter :: "(string \<Rightarrow> mac option) \<Rightarrow> setting \<Rightarrow> capture \<Rightarrow> capture" where
  "enter hwaddr (DevUp d) st = (st\<lparr>dev_up := d, up_mac := (case hwaddr d of None \<Rightarrow> up_mac st | Some m \<Rightarrow> take 6 m)\<rparr>)"
| "enter hwaddr (DevDown d) st = (st\<lparr>dev_down := d, down_mac := (case hwaddr d of None \<Rightarrow> down_mac st | Some m \<Rightarrow> take 6 m)\<rparr>)"
| "enter hwaddr (UpRouter m) st = put_nids (\<lambda>p. p\<lparr>nids_up_router := m\<rparr>) st"
| "enter hwaddr (DownRouter m) st = put_nids (\<lambda>p. p\<lparr>nids_down_router := m\<rparr>) st"
| "enter hwaddr (MyMac m) st = put_nids (\<lambda>p. p\<lparr>nids_my_mac := m\<rparr>) (st\<lparr>my_mac := m\<rparr>)"
| "enter hwaddr (TableSize k) st = put_nids (\<lambda>p. p\<lparr>n_tcp_streams := k\<rparr>) st"
| "enter hwaddr (SendTimeOut k) st = put_nids (\<lambda>p. p\<lparr>send_time_out := k\<rparr>) st"
| "enter hwaddr (QueueLimit k) st = put_nids (\<lambda>p. p\<lparr>queue_limit := k\<rparr>) st"
| "enter hwaddr (CaptureTimeOut k) st = put_nids (\<lambda>p. p\<lparr>pcap_timeout := k\<rparr>) st"
| "enter hwaddr (IpTableSize k) st = put_nids (\<lambda>p. p\<lparr>n_hosts := k\<rparr>) st"
| "enter hwaddr (Method k) st = st\<lparr>gk_method := k\<rparr>"
| "enter hwaddr (Other w) st = st"

fun configure :: "(string \<Rightarrow> mac option) \<Rightarrow> setting list \<Rightarrow> capture \<Rightarrow> (int \<times> capture) option" where
  "configure hwaddr [] st = Some (0, st)"
| "configure hwaddr (s # ss) st =
     (if 20 \<le> length (setting_key s) then None
      else if accepted hwaddr s then configure hwaddr ss (enter hwaddr s st)
      else Some (-1, enter hwaddr s st))"

section \<open>Words and numbers\<close>

lemma fscanf_s_word:
  assumes "word_ok n w" "isspace c" "\<forall>x\<in>set sp. isspace x"
  shows "fscanf_s n (sp @ w @ c # rest) = Some (Some w, c # rest)"
proof -
  have "dropWhile isspace (sp @ w @ c # rest) = w @ c # rest"
    using assms by (cases w) (auto simp: word_ok_def dropWhile_append)
  moreover have "takeWhile (\<lambda>c. \<not> isspace c) (w @ c # rest) = w" using assms by (auto simp: word_ok_def takeWhile_append)
  moreover have "NUL \<notin> set w" using assms by (auto simp: word_ok_def)
  ultimately show ?thesis using assms by (simp add: fscanf_s_def word_ok_def)
qed

lemma fscanf_s_long:
  assumes "n \<le> length w" "w \<noteq> []" "\<forall>c\<in>set w. \<not> isspace c" "isspace c" "\<forall>x\<in>set sp. isspace x"
  shows "fscanf_s n (sp @ w @ c # rest) = None"
proof -
  have "dropWhile isspace (sp @ w @ c # rest) = w @ c # rest" using assms by (cases w) (auto simp: dropWhile_append)
  moreover have "takeWhile (\<lambda>c. \<not> isspace c) (w @ c # rest) = w" using assms by (auto simp: takeWhile_append)
  ultimately show ?thesis using assms(1,2) by (simp add: fscanf_s_def)
qed

lemma fscanf_s_end: "\<forall>x\<in>set sp. isspace x \<Longrightarrow> fscanf_s n sp = Some (None, [])"
proof -
  assume "\<forall>x\<in>set sp. isspace x"
  then have dw: "dropWhile isspace sp = []" by simp
  show ?thesis unfolding fscanf_s_def Let_def dw by simp
qed

lemma digit_value_char: "(d :: nat) < 10 \<Longrightarrow> of_char (char_of (48 + d) :: char) - (48 :: int) = int d"
proof -
  assume d: "d < 10"
  have "(of_char (char_of (48 + d) :: char) :: nat) = 48 + d" using d by simp
  then show ?thesis using of_nat_of_char [of "char_of (48 + d)", where 'a = int] by simp
qed

lemma dec_value: "foldl (\<lambda>n c. 10 * n + (of_char c - 48)) 0 (dec n) = int n"
proof (induction n rule: dec.induct)
  case (1 n)
  show ?case
  proof (cases "n < 10")
    case True
    then show ?thesis using digit_value_char [OF True] by (subst dec.simps) simp
  next
    case False
    have "int n = int (10 * (n div 10) + n mod 10)" by simp
    then have n: "10 * int (n div 10) + int (n mod 10) = int n" by (simp only: of_nat_add of_nat_mult of_nat_numeral)
    show ?thesis using False 1 digit_value_char [of "n mod 10"] n by (subst dec.simps) simp
  qed
qed

lemma digit_no_space: "is_digit c \<Longrightarrow> \<not> isspace c \<and> c \<noteq> CHR ''-'' \<and> c \<noteq> CHR ''+'' \<and> c \<noteq> NUL"
  by (auto simp: is_digit_def isspace_def less_eq_char_def)

lemma sprintf_d_form:
  obtains ds where "\<forall>c\<in>set ds. is_digit c" "ds \<noteq> []" "sprintf_d k = (if k < 0 then ''-'' else []) @ ds"
    "foldl (\<lambda>n c. 10 * n + (of_char c - 48)) 0 ds = \<bar>k\<bar>"
proof (rule that [of "dec (nat \<bar>k\<bar>)"])
  show "\<forall>c\<in>set (dec (nat \<bar>k\<bar>)). is_digit c" using dec_digits by blast
qed (simp_all add: sprintf_d_def dec_value)

lemma fscanf_d_number:
  assumes "- (2 ^ 31) \<le> k" "k < 2 ^ 31" "isspace c" "\<forall>x\<in>set sp. isspace x"
  shows "fscanf_d (sp @ sprintf_d k @ c # rest) = Some (Number k, c # rest)"
proof -
  obtain ds where ds: "\<forall>c\<in>set ds. is_digit c" "ds \<noteq> []" "sprintf_d k = (if k < 0 then ''-'' else []) @ ds"
    "foldl (\<lambda>n c. 10 * n + (of_char c - 48)) 0 ds = \<bar>k\<bar>" by (rule sprintf_d_form)
  obtain d ds' where d: "ds = d # ds'" using ds(2) by (cases ds) auto
  have nd: "\<not> isspace d" "d \<noteq> CHR ''-''" "d \<noteq> CHR ''+''" using ds(1) digit_no_space [of d] by (simp_all add: d)
  have "\<not> is_digit c" using assms(3) digit_no_space by blast
  then have tw: "takeWhile is_digit (ds @ c # rest) = ds" using ds(1) by (auto simp: takeWhile_append)
  let ?u = "sprintf_d k @ c # rest"
  have sp: "dropWhile isspace (sp @ ?u) = ?u"
    using assms(4) nd(1) by (auto simp: ds(3) d dropWhile_append isspace_def)
  have u: "dropWhile isspace ?u = ?u" using nd(1) by (auto simp: ds(3) d isspace_def)
  have v: "(if prefix ''-'' ?u \<or> prefix ''+'' ?u then tl ?u else ?u) = ds @ c # rest"
    using nd by (simp add: ds(3) d)
  have neg: "prefix ''-'' ?u \<longleftrightarrow> k < 0" using nd by (simp add: ds(3) d)
  have "atoi ?u = Some k"
    unfolding atoi_def Let_def u unfolding v tw ds(4) unfolding neg using assms(1,2) by simp
  then show ?thesis unfolding fscanf_d_def Let_def sp v tw using ds(2) by (simp add: ds(3))
qed

section \<open>Addresses\<close>

lemma char_value: "n < 256 \<Longrightarrow> of_char (char_of n :: char) = int n"
proof -
  assume "n < 256"
  then have "(of_char (char_of n :: char) :: nat) = n" by simp
  then show ?thesis using of_nat_of_char [of "char_of n", where 'a = int] by simp
qed

lemma hex_nibble_char: "n < 16 \<Longrightarrow> hex_nibble (hex_char_of n) = int n"
  by (auto simp: hex_nibble_def hex_char_of_def char_value)

lemma hex_char_cases: "n < 16 \<Longrightarrow> hex_char_of n \<in> set ''0123456789abcdef''"
proof -
  assume "n < 16"
  moreover have "\<forall>n\<in>set [0..<16]. hex_char_of n \<in> set ''0123456789abcdef''" by code_simp
  ultimately show ?thesis by simp
qed

lemma nibbles: "word_of_int (int (unat (a :: 8 word) div 16) * 16) + word_of_int (int (unat a mod 16)) = a"
proof -
  have "int (unat a div 16) * 16 + int (unat a mod 16) = int (unat a)" by (metis div_mult_mod_eq of_nat_add of_nat_mult of_nat_numeral)
  then have "word_of_int (int (unat a div 16) * 16) + word_of_int (int (unat a mod 16)) = (word_of_int (int (unat a)) :: 8 word)"
    by (simp only: of_int_add [symmetric])
  then show ?thesis by simp
qed

lemma upt_6: "[0..<6] = [0, 1, 2, 3, 4, 5 :: nat]"
  by code_simp

lemma mac_byte_less: "unat (a :: 8 word) < 256"
  using unsigned_less [of a] by simp

lemma mac_text_length: "length (mac_text m) = 17"
  by (simp add: mac_text_def upt_6)

lemma str_to_mac_text: "length m = 6 \<Longrightarrow> str_to_mac (mac_text m) = Some m"
proof -
  assume m: "length m = 6"
  let ?h = "\<lambda>i. hex_char_of (unat (m ! i) div 16)" and ?l = "\<lambda>i. hex_char_of (unat (m ! i) mod 16)"
  have t: "mac_text m = [?h 0, ?l 0, CHR '':'', ?h 1, ?l 1, CHR '':'', ?h 2, ?l 2, CHR '':'', ?h 3, ?l 3, CHR '':'', ?h 4, ?l 4, CHR '':'', ?h 5, ?l 5]"
    by (simp add: mac_text_def upt_6)
  have at: "mac_text m ! (3 * i) = ?h i \<and> mac_text m ! (3 * i + 1) = ?l i" if "i < 6" for i
  proof -
    consider "i = 0" | "i = 1" | "i = 2" | "i = 3" | "i = 4" | "i = 5" using \<open>i < 6\<close> by linarith
    then show ?thesis unfolding t by cases simp_all
  qed
  have hex: "hex_nibble (?h i) = int (unat (m ! i) div 16)" "hex_nibble (?l i) = int (unat (m ! i) mod 16)" for i
  proof -
    have "unat (m ! i) div 16 < 16" using mac_byte_less [of "m ! i"] by (simp add: less_mult_imp_div_less)
    then show "hex_nibble (?h i) = int (unat (m ! i) div 16)" by (rule hex_nibble_char)
    show "hex_nibble (?l i) = int (unat (m ! i) mod 16)" by (rule hex_nibble_char) simp
  qed
  have "word_of_int (hex_nibble (mac_text m ! (3 * i)) * 16) + word_of_int (hex_nibble (mac_text m ! (3 * i + 1))) = m ! i" if "i < 6" for i
    unfolding conjunct1 [OF at [OF that]] conjunct2 [OF at [OF that]] hex by (rule nibbles)
  then have "map (\<lambda>i. word_of_int (hex_nibble (mac_text m ! (3 * i)) * 16) + word_of_int (hex_nibble (mac_text m ! (3 * i + 1)))) [0..<6] =
      map ((!) m) [0..<6]"
    by (intro map_cong refl) simp
  also have "\<dots> = m" using m map_nth [of m] by simp
  finally show ?thesis by (simp add: str_to_mac_def mac_text_length)
qed

lemma mac_text_word: "word_ok 20 (mac_text m)"
proof -
  have h: "\<not> isspace c \<and> c \<noteq> NUL" if "c \<in> set ''0123456789abcdef:''" for c using that by (auto simp: isspace_def)
  have n: "unat (m ! i) div 16 < 16" "unat (m ! i) mod 16 < 16" for i
    using mac_byte_less [of "m ! i"] by (simp_all add: less_mult_imp_div_less)
  have "set (mac_text m) \<subseteq> set ''0123456789abcdef:''"
    using hex_char_cases [OF n(1)] hex_char_cases [OF n(2)] by (auto simp: mac_text_def split: if_splits)
  then have "\<forall>c\<in>set (mac_text m). \<not> isspace c \<and> c \<noteq> NUL" using h by blast
  moreover have "mac_text m \<noteq> []" using mac_text_length [of m] by auto
  ultimately show ?thesis by (simp add: word_ok_def mac_text_length)
qed

section \<open>The loop\<close>

lemma key_word: "setting_ok s \<Longrightarrow> word_ok (length (setting_key s) + 1) (setting_key s)"
  by (cases s) (simp_all add: word_ok_def isspace_def)

lemma config_item_read:
  assumes "setting_ok s" "isspace c"
  shows "\<exists>rest'. config_item hwaddr (setting_key s) (CHR '' '' # setting_value s @ c # rest) st =
      Some (accepted hwaddr s, rest', enter hwaddr s st) \<and> (accepted hwaddr s \<longrightarrow> rest' = c # rest)"
proof -
  have word: "fscanf_s n (CHR '' '' # w @ c # rest) = Some (Some w, c # rest)" if "word_ok n w" for n w
    using fscanf_s_word [OF that assms(2), of "'' ''" rest] by (simp add: isspace_def)
  have number: "fscanf_d (CHR '' '' # sprintf_d k @ c # rest) = Some (Number k, c # rest)" if "- (2 ^ 31) \<le> k" "k < 2 ^ 31" for k
    using fscanf_d_number [OF that assms(2), of "'' ''" rest] by (simp add: isspace_def)
  note defs = config_item_def read_dev_def read_mac_def read_int_def read_method_def devname_to_mac_def word_ok_def
  show ?thesis
  proof (cases s)
    case (DevUp d)
    then show ?thesis using assms(1) word [of 10 d] by (simp add: defs split: option.split)
  next
    case (DevDown d)
    then show ?thesis using assms(1) word [of 10 d] by (simp add: defs split: option.split)
  next
    case (Other w)
    then show ?thesis using assms(1) by (simp add: config_item_def known_keys_def)
  next
    case (Method k)
    then show ?thesis using assms(1) number [of k] by (auto simp: defs Let_def)
  qed (use assms(1) word [OF mac_text_word] number in \<open>simp_all add: defs str_to_mac_text\<close>)
qed

lemma config_loop_settings:
  "\<forall>s\<in>set ss. setting_ok s \<Longrightarrow> \<forall>x\<in>set sp. isspace x \<Longrightarrow>
    config_loop hwaddr (sp @ concat (map setting_line ss)) st = configure hwaddr ss st"
proof (induction ss arbitrary: sp st)
  case Nil
  then show ?case using fscanf_s_end [of sp 20] by (simp add: config_loop.simps)
next
  case (Cons s ss)
  let ?more = "concat (map setting_line ss)" and ?k = "setting_key s"
  have ok: "setting_ok s" "word_ok (length ?k + 1) ?k" using Cons.prems(1) key_word by simp_all
  have nl: "isspace (CHR 0x0A)" "isspace (CHR '' '')" by (simp_all add: isspace_def)
  let ?inp = "sp @ ?k @ CHR '' '' # setting_value s @ CHR 0x0A # ?more"
  have inp: "sp @ concat (map setting_line (s # ss)) = ?inp" by (simp add: setting_line_def)
  show ?case
  proof (cases "20 \<le> length ?k")
    case True
    then have "fscanf_s 20 ?inp = None" using ok(2) nl(2) Cons.prems(2) by (intro fscanf_s_long) (simp_all add: word_ok_def)
    then show ?thesis unfolding inp using True by (subst config_loop.simps) simp
  next
    case short: False
    then have "word_ok 20 ?k" using ok(2) by (simp add: word_ok_def)
    from fscanf_s_word [OF this nl(2) Cons.prems(2)]
    have w: "fscanf_s 20 ?inp = Some (Some ?k, CHR '' '' # setting_value s @ CHR 0x0A # ?more)" .
    obtain rest where r: "config_item hwaddr ?k (CHR '' '' # setting_value s @ CHR 0x0A # ?more) st =
        Some (accepted hwaddr s, rest, enter hwaddr s st)" "accepted hwaddr s \<Longrightarrow> rest = CHR 0x0A # ?more"
      using config_item_read [OF ok(1) nl(1)] by blast
    show ?thesis
    proof (cases "accepted hwaddr s")
      case True
      have "config_loop hwaddr ?inp st = config_loop hwaddr ([CHR 0x0A] @ ?more) (enter hwaddr s st)"
        using w r(1) r(2) [OF True] True by (subst config_loop.simps) simp
      also have "\<dots> = configure hwaddr ss (enter hwaddr s st)" by (rule Cons.IH) (use Cons.prems(1) nl(1) in simp_all)
      finally show ?thesis unfolding inp using short True by simp
    next
      case False
      then show ?thesis unfolding inp using w r(1) short by (subst config_loop.simps) simp
    qed
  qed
qed

section \<open>Results\<close>

text \<open>C34: A configuration file with one setting on each line is read as it was written: the settings take effect in their
  order, up to and with the first that is refused (a device without an address, whose name stays; a method that is not 2, 4
  or 5, which stays; an unknown key), and the result is 0 when there is none such and -1 otherwise. The reading is undefined
  when a key before that has 20 bytes or more.\<close>

theorem read_config_settings:
  assumes "\<forall>s\<in>set ss. setting_ok s"
  shows "read_config hwaddr (Some (concat (map setting_line ss))) st = configure hwaddr ss st"
  using config_loop_settings [OF assms, of "[]"] by (simp add: read_config_def)

theorem read_config_settings_witness:
  "\<forall>st. read_config (\<lambda>d. if d = ''eth0'' then Some [0, 0x11, 0x22, 0x33, 0x44, 0x55] else None)
      (Some (concat (map setting_line [DevUp ''eth0'', UpRouter [0, 0, 0, 0, 0, 0xb0], QueueLimit 500, Method 4, DevDown ''eth1'']))) (init_default st)
    = Some (-1, (init_default st)\<lparr>dev_up := ''eth0'', dev_down := ''eth1'', up_mac := [0, 0x11, 0x22, 0x33, 0x44, 0x55], gk_method := 4,
        nids_params := (nids_params (init_default st))\<lparr>queue_limit := 500, nids_up_router := [0, 0, 0, 0, 0, 0xb0]\<rparr>\<rparr>)"
proof -
  let ?ss = "[DevUp ''eth0'', UpRouter [0, 0, 0, 0, 0, 0xb0], QueueLimit 500, Method 4, DevDown ''eth1'']"
  let ?hw = "\<lambda>d. if d = ''eth0'' then Some [0, 0x11, 0x22, 0x33, 0x44, 0x55] else None"
  have "\<forall>s\<in>set ?ss. setting_ok s" by (simp add: word_ok_def isspace_def)
  then show ?thesis using read_config_settings [of ?ss ?hw] by simp
qed

text \<open>The keys \<open>tcp_stream_table_size\<close> and \<open>packet_send_time_out\<close>, which the code compares with, do not fit into
  the array of 20 bytes for the key: a file that has one of them, behind lines that are accepted, overruns it.\<close>

lemma config_keys_overrun:
  assumes "\<forall>s\<in>set (ss @ [s]). setting_ok s" "\<forall>s\<in>set ss. accepted hwaddr s" "s = TableSize k \<or> s = SendTimeOut k"
  shows "read_config hwaddr (Some (concat (map setting_line (ss @ [s])))) st = None"
proof -
  have "\<forall>s\<in>set ss. accepted hwaddr s \<Longrightarrow> configure hwaddr (ss @ [s]) st = None" for st
    by (induction ss arbitrary: st) (use assms(3) in auto)
  then show ?thesis using assms(2) config_loop_settings [OF assms(1), of "[]"] by (simp add: read_config_def)
qed

end
