(* ===== verification/Arena.thy ===== *)
theory Arena
  imports CPrelude "HOL-Library.Word"
begin

unbundle bit_operations_syntax

text \<open>
  \<^verbatim>\<open>Arena.c\<close> and \<^verbatim>\<open>MemoryManager.c\<close>, the allocator that \<^verbatim>\<open>trie.c\<close> sets up: blocks are cut from the
  front of an arena, and an arena that is too small is put behind a new one of twice its size.

  An arena is the object that \<open>malloc\<close> has returned, known by its number, and a pointer into it the number and the distance from its
  first byte. The bytes behind the fields begin at the distance 28.
\<close>

section \<open>Arenas\<close>

definition to_int :: "int \<Rightarrow> int" where
  \<comment> \<open>conversion to \<open>int\<close>\<close>
  "to_int x = (x + 2 ^ 31) mod 2 ^ 32 - 2 ^ 31"

definition BIT_TO_CLEAR :: int where "BIT_TO_CLEAR = 7"

definition DEFAULT_ARENA_SIZE :: int where "DEFAULT_ARENA_SIZE = 2 ^ 27"

definition ARENA_HEADER_SIZE :: int where "ARENA_HEADER_SIZE = (8 + 8 + 8 + 4 + BIT_TO_CLEAR) AND NOT BIT_TO_CLEAR"

definition round_up :: "int \<Rightarrow> int" where
  "round_up n = to_int ((n + BIT_TO_CLEAR) AND NOT BIT_TO_CLEAR)"

record arena =
  a_id :: nat
  a_free :: int      \<comment> \<open>the pointers, as distances from the first byte\<close>
  a_last :: int
  a_size :: int

definition a_bytes :: int where "a_bytes = 28"

definition object_size :: "arena \<Rightarrow> int" where
  \<comment> \<open>what \<open>malloc\<close> was asked for\<close>
  "object_size a = a_size a + ARENA_HEADER_SIZE"

definition new_arena :: "nat \<Rightarrow> int \<Rightarrow> arena" where
  "new_arena i n =
     (let n = round_up n; n = (if n < DEFAULT_ARENA_SIZE then DEFAULT_ARENA_SIZE else n)
      in \<lparr>a_id = i, a_free = a_bytes, a_last = a_bytes + n, a_size = n\<rparr>)"

definition alloc_from_arena :: "arena \<Rightarrow> int \<Rightarrow> (nat \<times> int) option \<times> arena" where
  \<comment> \<open>\<open>None\<close> is the null pointer\<close>
  "alloc_from_arena a n =
     (if n = 0 then (None, a)
      else let n = round_up n in
        if a_last a < a_free a + n then (None, a)
        else (Some (a_id a, a_free a), a\<lparr>a_free := a_free a + n\<rparr>))"

section \<open>The manager\<close>

record MemoryManager =
  mm_name :: string
  mm_arenas :: "arena list"      \<comment> \<open>\<open>arena\<close> and what follows it by \<open>next\<close>\<close>
  bytes_allocated :: int
  number_of_arena_in_career :: int

definition new_memory_manager :: "string \<Rightarrow> MemoryManager" where
  "new_memory_manager n = \<lparr>mm_name = n, mm_arenas = [new_arena 0 DEFAULT_ARENA_SIZE], bytes_allocated = 0, number_of_arena_in_career = 1\<rparr>"

definition int_ok :: "int \<Rightarrow> bool" where
  "int_ok x \<longleftrightarrow> - (2 ^ 31) \<le> x \<and> x < 2 ^ 31"

definition alloc_arena_in_mm :: "MemoryManager \<Rightarrow> int \<Rightarrow> MemoryManager option" where
  \<comment> \<open>undefined when a sum is no \<open>int\<close>\<close>
  "alloc_arena_in_mm mm n =
     (if int_ok (bytes_allocated mm + n) \<and> int_ok (number_of_arena_in_career mm + 1)
      then Some (mm\<lparr>mm_arenas := new_arena (length (mm_arenas mm)) n # mm_arenas mm, bytes_allocated := bytes_allocated mm + n,
                   number_of_arena_in_career := number_of_arena_in_career mm + 1\<rparr>)
      else None)"

definition alloc_from_mm :: "MemoryManager \<Rightarrow> int \<Rightarrow> ((nat \<times> int) option \<times> MemoryManager) option" where
  "alloc_from_mm mm n =
     (if n = 0 then Some (None, mm)
      else do {
        let n = round_up n;
        mm \<leftarrow> (if mm_arenas mm = [] then alloc_arena_in_mm mm n else Some mm);
        (let a = hd (mm_arenas mm) in do {
           mm \<leftarrow> (if a_last a < a_free a + n
                 then if int_ok (a_size a * 2) then alloc_arena_in_mm mm (a_size a * 2) else None
                 else Some mm);
           let (p, a) = alloc_from_arena (hd (mm_arenas mm)) n;
           Some (p, mm\<lparr>mm_arenas := a # tl (mm_arenas mm)\<rparr>) }) })"

fun free_mm_loop :: "arena list \<Rightarrow> nat list" where
  \<comment> \<open>the objects freed, in their order\<close>
  "free_mm_loop [] = []"
| "free_mm_loop (a # rest) = a_id a # free_mm_loop rest"

definition free_mm :: "MemoryManager \<Rightarrow> nat list" where
  "free_mm mm = free_mm_loop (mm_arenas mm)"

fun alloc_all :: "MemoryManager \<Rightarrow> int list \<Rightarrow> ((nat \<times> int) option list \<times> MemoryManager) option" where
  "alloc_all mm [] = Some ([], mm)"
| "alloc_all mm (n # ns) = do {
     (p, mm) \<leftarrow> alloc_from_mm mm n;
     (ps, mm) \<leftarrow> alloc_all mm ns;
     Some (p # ps, mm) }"

section \<open>Rounding\<close>

lemma and_not_7: "x AND NOT 7 = x div 8 * (8 :: int)"
proof -
  have "x AND NOT (mask 3) = push_bit 3 (drop_bit 3 x)"
    by (rule bit_eqI) (auto simp: bit_and_iff bit_not_iff bit_mask_iff bit_push_bit_iff bit_drop_bit_eq)
  moreover have "mask 3 = (7 :: int)" by (simp add: mask_eq_exp_minus_1)
  ultimately show ?thesis by (simp add: push_bit_eq_mult drop_bit_eq_div)
qed

lemma round_up_small:
  assumes "0 < n" "n \<le> 2 ^ 30"
  shows "round_up n = (n + 7) div 8 * 8" "n \<le> round_up n" "round_up n \<le> n + 7" "round_up n mod 8 = 0" "0 < round_up n"
proof -
  show r: "round_up n = (n + 7) div 8 * 8"
    using assms by (simp add: round_up_def BIT_TO_CLEAR_def and_not_7 [simplified] to_int_def)
  show "n \<le> round_up n" "round_up n \<le> n + 7" "0 < round_up n" unfolding r using assms(1) by linarith+
  show "round_up n mod 8 = 0" unfolding r by simp
qed

section \<open>Blocks\<close>

definition arena_ok :: "arena \<Rightarrow> bool" where
  \<comment> \<open>the arenas double in size\<close>
  "arena_ok a \<longleftrightarrow> a_size a = 2 ^ (27 + a_id a) \<and> a_last a = a_bytes + a_size a \<and> a_bytes \<le> a_free a \<and> a_free a \<le> a_last a \<and> a_free a mod 8 = 4"

definition waste :: "arena \<Rightarrow> int" where
  \<comment> \<open>what is used of an arena at least when the next one is made\<close>
  "waste a = a_size a - 2 ^ 27"

definition mm_ok :: "MemoryManager \<Rightarrow> int \<Rightarrow> bool" where
  \<comment> \<open>a manager that has given out \<open>used\<close> bytes, as rounded\<close>
  "mm_ok mm used \<longleftrightarrow> mm_arenas mm \<noteq> [] \<and> map a_id (mm_arenas mm) = rev [0..<length (mm_arenas mm)] \<and> (\<forall>a\<in>set (mm_arenas mm). arena_ok a) \<and>
     length (mm_arenas mm) \<le> 4 \<and> number_of_arena_in_career mm = int (length (mm_arenas mm)) \<and>
     bytes_allocated mm = sum_list (map a_size (butlast (mm_arenas mm))) \<and>
     sum_list (map waste (tl (mm_arenas mm))) + (a_free (hd (mm_arenas mm)) - a_bytes) \<le> used"

lemma new_arena_ok: "i \<le> 3 \<Longrightarrow> n = 2 ^ (27 + i) \<Longrightarrow> new_arena i n = \<lparr>a_id = i, a_free = a_bytes, a_last = a_bytes + 2 ^ (27 + i), a_size = 2 ^ (27 + i)\<rparr>"
proof -
  assume i: "i \<le> 3" and n: "n = 2 ^ (27 + i)"
  then have "i = 0 \<or> i = 1 \<or> i = 2 \<or> i = 3" by linarith
  then have "round_up n = n" "DEFAULT_ARENA_SIZE \<le> n"
    using round_up_small(1) [of n] n by (auto simp: DEFAULT_ARENA_SIZE_def)
  then show ?thesis by (simp add: new_arena_def n Let_def)
qed

lemma new_manager_ok: "mm_ok (new_memory_manager n) 0"
  using new_arena_ok [of 0 DEFAULT_ARENA_SIZE]
  by (simp add: mm_ok_def new_memory_manager_def arena_ok_def a_bytes_def DEFAULT_ARENA_SIZE_def)

lemma mm_arenas_list:
  assumes "mm_ok mm used"
  obtains a where "mm_arenas mm = [a]" "a_id a = 0"
    | a b where "mm_arenas mm = [a, b]" "a_id a = 1" "a_id b = 0"
    | a b c where "mm_arenas mm = [a, b, c]" "a_id a = 2" "a_id b = 1" "a_id c = 0"
    | a b c d where "mm_arenas mm = [a, b, c, d]" "a_id a = 3" "a_id b = 2" "a_id c = 1" "a_id d = 0"
proof -
  let ?as = "mm_arenas mm"
  have ids: "?as \<noteq> []" "length ?as \<le> 4" "map a_id ?as = rev [0..<length ?as]" using assms by (simp_all add: mm_ok_def)
  have "length ?as = 1 \<or> length ?as = 2 \<or> length ?as = 3 \<or> length ?as = 4"
  proof -
    have "0 < length ?as" using ids(1) by simp
    then show ?thesis using ids(2) by linarith
  qed
  then show ?thesis
  proof (elim disjE)
    assume l: "length ?as = 1"
    then obtain a where "?as = [a]" by (cases ?as) auto
    then show ?thesis using that(1) ids(3) by simp
  next
    assume l: "length ?as = 2"
    then obtain a b where "?as = [a, b]" by (auto simp: length_Suc_conv numeral_2_eq_2)
    then show ?thesis using that(2) ids(3) by simp
  next
    assume l: "length ?as = 3"
    then obtain a b c where "?as = [a, b, c]" by (auto simp: length_Suc_conv numeral_3_eq_3)
    then show ?thesis using that(3) ids(3) by (simp add: numeral_2_eq_2)
  next
    assume l: "length ?as = 4"
    then have "length ?as = Suc (Suc (Suc (Suc 0)))" by simp
    then obtain a b c d where "?as = [a, b, c, d]" by (auto simp: length_Suc_conv)
    then show ?thesis using that(4) ids(3) by (simp add: numeral_2_eq_2 numeral_3_eq_3)
  qed
qed

definition top_of :: "MemoryManager \<Rightarrow> nat \<times> int" where
  "top_of mm = (a_id (hd (mm_arenas mm)), a_free (hd (mm_arenas mm)))"

lemma alloc_here:
  assumes "mm_ok mm used" "0 < n" "n \<le> 2 ^ 27" "mm_arenas mm = a # as" "a_free a + round_up n \<le> a_last a"
  shows "\<exists>mm'. alloc_from_mm mm n = Some (Some (a_id a, a_free a), mm') \<and> mm_ok mm' (used + round_up n) \<and>
    length (mm_arenas mm') = length (mm_arenas mm) \<and> top_of mm' = (a_id a, a_free a + round_up n)"
proof -
  let ?m = "round_up n" let ?mm = "mm\<lparr>mm_arenas := a\<lparr>a_free := a_free a + ?m\<rparr> # as\<rparr>"
  have m: "?m mod 8 = 0" "0 < ?m" "?m \<le> 2 ^ 30" "round_up ?m = ?m"
    using round_up_small [of n] round_up_small(1) [of ?m] assms(2,3) by auto
  have "alloc_from_mm mm n = Some (Some (a_id a, a_free a), ?mm)"
    using assms(2,4,5) m by (simp add: alloc_from_mm_def alloc_from_arena_def Let_def)
  moreover have "arena_ok (a\<lparr>a_free := a_free a + ?m\<rparr>)"
    using assms(1,4,5) m by (auto simp: mm_ok_def arena_ok_def mod_add_eq [symmetric, of "a_free a" 8 ?m])
  then have "mm_ok ?mm (used + ?m)"
    using assms(1,4) by (cases as) (auto simp: mm_ok_def waste_def)
  ultimately show ?thesis using assms(4) by (simp add: top_of_def)
qed

lemma alloc_next:
  assumes ok: "mm_ok mm used" "0 < n" "n \<le> 2 ^ 27" "mm_arenas mm = a # as" "a_last a < a_free a + round_up n"
    and room: "used + round_up n \<le> 12 * 2 ^ 27"
  shows "\<exists>mm'. alloc_from_mm mm n = Some (Some (Suc (a_id a), a_bytes), mm') \<and> mm_ok mm' (used + round_up n) \<and>
    length (mm_arenas mm') = Suc (length (mm_arenas mm)) \<and> top_of mm' = (Suc (a_id a), a_bytes + round_up n)"
proof -
  let ?m = "round_up n" and ?i = "Suc (a_id a)"
  have m: "?m mod 8 = 0" "0 < ?m" "?m \<le> 2 ^ 27" "?m \<le> 2 ^ 30" "round_up ?m = ?m"
  proof -
    show "?m mod 8 = 0" "0 < ?m" using round_up_small [of n] ok(2,3) by simp_all
    have "(n + 7) div 8 * 8 \<le> 2 ^ 27" using ok(3) by simp
    then show l: "?m \<le> 2 ^ 27" using round_up_small(1) [of n] ok(2,3) by simp
    then show "?m \<le> 2 ^ 30" by simp
    then show "round_up ?m = ?m" using round_up_small(1) [of ?m] \<open>?m mod 8 = 0\<close> \<open>0 < ?m\<close> by auto
  qed
  have aok: "arena_ok a" "a_id a \<le> 3" "a_id a = length as" using ok(1,4) by (auto simp: mm_ok_def)
  have w: "0 \<le> waste x" if "arena_ok x" for x using that by (simp add: arena_ok_def waste_def power_add)
  have used: "sum_list (map waste as) + (a_free a - a_bytes) \<le> used" using ok(1,4) by (simp add: mm_ok_def)
  have "a_id a \<le> 2 \<and> int_ok (a_size a * 2) \<and> int_ok (bytes_allocated mm + a_size a * 2)"
    using ok(1)
  proof (cases rule: mm_arenas_list)
    case (1 x)
    then show ?thesis using ok(1,4) by (simp add: mm_ok_def arena_ok_def int_ok_def)
  next
    case (2 x y)
    then show ?thesis using ok(1,4) by (simp add: mm_ok_def arena_ok_def int_ok_def)
  next
    case (3 x y z)
    then show ?thesis using ok(1,4) by (simp add: mm_ok_def arena_ok_def int_ok_def)
  next
    case (4 x y z u)
    then have s: "a_size x = 2 ^ 30" "a_size y = 2 ^ 29" "a_size z = 2 ^ 28" "a_size u = 2 ^ 27" "a_last x = a_bytes + a_size x" "a = x" "as = [y, z, u]"
      using ok(1,4) by (simp_all add: mm_ok_def arena_ok_def)
    then have "12 * 2 ^ 27 < used + ?m" using used ok(5) by (simp add: waste_def)
    then show ?thesis using room by simp
  qed
  then have i: "?i \<le> 3" "a_size a * 2 = 2 ^ (27 + ?i)" "int_ok (a_size a * 2)" "int_ok (bytes_allocated mm + a_size a * 2)"
    using aok(1) by (simp_all add: arena_ok_def power_add)
  let ?b = "\<lparr>a_id = ?i, a_free = a_bytes, a_last = a_bytes + 2 ^ (27 + ?i), a_size = 2 ^ (27 + ?i)\<rparr>"
  have new: "new_arena ?i (a_size a * 2) = ?b" using new_arena_ok [OF i(1,2)] .
  have fit: "\<not> a_bytes + 2 ^ (27 + ?i) < a_bytes + ?m"
  proof -
    have "(2 :: int) ^ 27 \<le> 2 ^ (27 + ?i)" by (rule power_increasing) simp_all
    then show ?thesis using m(3) by linarith
  qed
  have num: "int_ok (number_of_arena_in_career mm + 1)" "?i = length (mm_arenas mm)" using ok(1,4) aok(3) by (simp_all add: mm_ok_def int_ok_def)
  let ?b' = "?b\<lparr>a_free := a_bytes + ?m\<rparr>"
  let ?mm = "mm\<lparr>mm_arenas := ?b' # a # as, bytes_allocated := bytes_allocated mm + a_size a * 2,
    number_of_arena_in_career := number_of_arena_in_career mm + 1\<rparr>"
  have al: "alloc_arena_in_mm mm (a_size a * 2) = Some (mm\<lparr>mm_arenas := ?b # a # as, bytes_allocated := bytes_allocated mm + a_size a * 2,
      number_of_arena_in_career := number_of_arena_in_career mm + 1\<rparr>)"
    using i(4) num new ok(4) by (simp add: alloc_arena_in_mm_def)
  have run: "alloc_from_mm mm n = Some (Some (?i, a_bytes), ?mm)"
    using al ok(2,4,5) m i(3) fit by (simp add: alloc_from_mm_def alloc_from_arena_def Let_def)
  have "(a_bytes + ?m) mod 8 = 4" using m(1) unfolding a_bytes_def by presburger
  then have "arena_ok ?b'" using fit m(2) by (simp add: arena_ok_def)
  moreover have "waste a \<le> a_free a - a_bytes" using ok(5) m(3) aok(1) by (simp add: waste_def arena_ok_def)
  then have "sum_list (map waste (a # as)) + ?m \<le> used + ?m" using used by simp
  ultimately have "mm_ok ?mm (used + ?m)"
    using ok(1,4) i(1,2) num(2) aok(3) by (simp add: mm_ok_def)
  then show ?thesis using run ok(4) by (simp add: top_of_def)
qed

definition behind :: "nat \<times> int \<Rightarrow> nat \<times> int \<Rightarrow> bool" where
  "behind p q \<longleftrightarrow> fst p < fst q \<or> fst p = fst q \<and> snd p \<le> snd q"

definition block_end :: "nat \<times> int \<Rightarrow> int \<Rightarrow> nat \<times> int" where
  "block_end b n = (fst b, snd b + round_up n)"

fun in_order :: "nat \<times> int \<Rightarrow> (nat \<times> int) list \<Rightarrow> int list \<Rightarrow> bool" where
  "in_order p (b # bs) (n # ns) \<longleftrightarrow> behind p b \<and> in_order (block_end b n) bs ns"
| "in_order p bs ns \<longleftrightarrow> bs = [] \<and> ns = []"

lemma in_order_behind: "in_order p bs ns \<Longrightarrow> \<forall>n\<in>set ns. 0 \<le> round_up n \<Longrightarrow> k < length bs \<Longrightarrow> behind p (bs ! k)"
proof (induction p bs ns arbitrary: k rule: in_order.induct)
  case (1 p b bs n ns)
  then show ?case
  proof (cases k)
    case (Suc i)
    then have "behind (block_end b n) (bs ! i)" using 1 by simp
    then show ?thesis using 1(2,3) Suc by (auto simp: behind_def block_end_def)
  qed simp
qed simp_all

lemma in_order_blocks:
  "in_order p bs ns \<Longrightarrow> \<forall>n\<in>set ns. 0 \<le> round_up n \<Longrightarrow> j < k \<Longrightarrow> k < length bs \<Longrightarrow> behind (block_end (bs ! j) (ns ! j)) (bs ! k)"
proof (induction p bs ns arbitrary: j k rule: in_order.induct)
  case (1 p b bs n ns)
  obtain i where i: "k = Suc i" "i < length bs" using 1(4,5) by (cases k) auto
  show ?case
  proof (cases j)
    case 0
    have "behind (block_end b n) (bs ! i)" by (rule in_order_behind) (use 1(2,3) i in auto)
    then show ?thesis using 0 i by simp
  next
    case (Suc l)
    then show ?thesis using 1(1) [of l i] 1(2-4) i by simp
  qed
qed simp_all

lemma alloc_step:
  assumes "mm_ok mm used" "0 < n" "n \<le> 2 ^ 27" "used + round_up n \<le> 12 * 2 ^ 27"
  shows "\<exists>b mm'. alloc_from_mm mm n = Some (Some b, mm') \<and> mm_ok mm' (used + round_up n) \<and>
    length (mm_arenas mm) \<le> length (mm_arenas mm') \<and> top_of mm' = block_end b n \<and> behind (top_of mm) b \<and>
    a_bytes \<le> snd b \<and> snd b mod 8 = 4 \<and> fst b < length (mm_arenas mm') \<and> snd b + round_up n \<le> a_bytes + 2 ^ (27 + fst b)"
proof -
  obtain a as where as: "mm_arenas mm = a # as" using assms(1) by (cases "mm_arenas mm") (auto simp: mm_ok_def)
  have top: "arena_ok a" "a_id a = length as" "top_of mm = (a_id a, a_free a)" using assms(1) as by (auto simp: mm_ok_def top_of_def)
  show ?thesis
  proof (cases "a_free a + round_up n \<le> a_last a")
    case True
    from alloc_here [OF assms(1-3) as True] obtain mm' where mm: "alloc_from_mm mm n = Some (Some (a_id a, a_free a), mm')"
      "mm_ok mm' (used + round_up n)" "length (mm_arenas mm') = length (mm_arenas mm)" "top_of mm' = (a_id a, a_free a + round_up n)" by blast
    show ?thesis
      by (rule exI [of _ "(a_id a, a_free a)"], rule exI [of _ mm'])
        (use mm top as True in \<open>simp add: behind_def block_end_def arena_ok_def\<close>)
  next
    case False
    then have "a_last a < a_free a + round_up n" by simp
    from alloc_next [OF assms(1-3) as this assms(4)] obtain mm' where mm: "alloc_from_mm mm n = Some (Some (Suc (a_id a), a_bytes), mm')"
      "mm_ok mm' (used + round_up n)" "length (mm_arenas mm') = Suc (length (mm_arenas mm))" "top_of mm' = (Suc (a_id a), a_bytes + round_up n)" by blast
    have "mm_arenas mm' \<noteq> []" "arena_ok (hd (mm_arenas mm'))" using mm(2) by (auto simp: mm_ok_def)
    then have "a_bytes + round_up n \<le> a_bytes + 2 ^ (27 + Suc (a_id a))" using mm(4) by (auto simp: arena_ok_def top_of_def)
    then show ?thesis
      by (intro exI [of _ "(Suc (a_id a), a_bytes)"] exI [of _ mm'])
        (use mm top as in \<open>simp add: behind_def block_end_def a_bytes_def\<close>)
  qed
qed

definition block_ok :: "nat \<Rightarrow> nat \<times> int \<Rightarrow> int \<Rightarrow> bool" where
  \<comment> \<open>a block inside one of the first \<open>l\<close> arenas\<close>
  "block_ok l b n \<longleftrightarrow> a_bytes \<le> snd b \<and> snd b mod 8 = 4 \<and> fst b < l \<and> snd b + round_up n \<le> a_bytes + 2 ^ (27 + fst b)"

lemma alloc_all_blocks:
  "mm_ok mm used \<Longrightarrow> \<forall>n\<in>set ns. 0 < n \<and> n \<le> 2 ^ 27 \<Longrightarrow> used + sum_list (map round_up ns) \<le> 12 * 2 ^ 27 \<Longrightarrow>
    \<exists>bs mm'. alloc_all mm ns = Some (map Some bs, mm') \<and> mm_ok mm' (used + sum_list (map round_up ns)) \<and>
      length (mm_arenas mm) \<le> length (mm_arenas mm') \<and> list_all2 (block_ok (length (mm_arenas mm'))) bs ns \<and> in_order (top_of mm) bs ns"
proof (induction ns arbitrary: mm used)
  case Nil
  then show ?case by simp
next
  case (Cons n ns)
  have n: "0 < n" "n \<le> 2 ^ 27" "\<forall>n\<in>set ns. 0 < n \<and> n \<le> 2 ^ 27" using Cons.prems(2) by simp_all
  have r: "0 \<le> round_up m" if "m \<in> set ns" for m using n(3) that round_up_small(5) [of m] by fastforce
  then have "0 \<le> sum_list (map round_up ns)" by (intro sum_list_nonneg) auto
  then have "used + round_up n \<le> 12 * 2 ^ 27" using Cons.prems(3) by simp
  from alloc_step [OF Cons.prems(1) n(1,2) this] obtain b mm1 where b: "alloc_from_mm mm n = Some (Some b, mm1)" "mm_ok mm1 (used + round_up n)"
    "length (mm_arenas mm) \<le> length (mm_arenas mm1)" "top_of mm1 = block_end b n" "behind (top_of mm) b"
    "a_bytes \<le> snd b" "snd b mod 8 = 4" "fst b < length (mm_arenas mm1)" "snd b + round_up n \<le> a_bytes + 2 ^ (27 + fst b)" by blast
  have "(used + round_up n) + sum_list (map round_up ns) \<le> 12 * 2 ^ 27" using Cons.prems(3) by simp
  from Cons.IH [OF b(2) n(3) this] obtain bs mm' where m: "alloc_all mm1 ns = Some (map Some bs, mm')"
    "mm_ok mm' (used + round_up n + sum_list (map round_up ns))" "length (mm_arenas mm1) \<le> length (mm_arenas mm')"
    "list_all2 (block_ok (length (mm_arenas mm'))) bs ns" "in_order (top_of mm1) bs ns" by blast
  have "block_ok (length (mm_arenas mm')) b n" using b(6-9) m(3) by (simp add: block_ok_def)
  then show ?case using b m by (intro exI [of _ "b # bs"] exI [of _ mm']) (simp add: add.assoc)
qed

lemma free_mm_ids: "free_mm mm = map a_id (mm_arenas mm)"
proof -
  have "free_mm_loop as = map a_id as" for as by (induction as) simp_all
  then show ?thesis by (simp add: free_mm_def)
qed

section \<open>Results\<close>

text \<open>C36: Requests of at most an arena each and of 12 arenas in all are served without a null pointer and without an overflow:
  every block lies in one object behind its fields and in front of its end, blocks in the same object do not overlap, and
  \<open>free_mm\<close> frees each object once. The sizes are rounded to multiples of 8, but the bytes of an arena begin at a distance of
  28, so that no block is aligned for a pointer.\<close>

theorem arena_blocks_disjoint:
  assumes "\<forall>n\<in>set ns. 0 < n \<and> n \<le> 2 ^ 27" "sum_list (map round_up ns) \<le> 12 * 2 ^ 27"
  shows "\<exists>bs mm. alloc_all (new_memory_manager name) ns = Some (map Some bs, mm) \<and> length bs = length ns \<and>
    (\<forall>j<length ns. \<exists>a\<in>set (mm_arenas mm). a_id a = fst (bs ! j) \<and> a_bytes \<le> snd (bs ! j) \<and> snd (bs ! j) + ns ! j \<le> object_size a \<and>
       snd (bs ! j) mod 8 = 4) \<and>
    (\<forall>k<length ns. \<forall>j<k. fst (bs ! j) \<noteq> fst (bs ! k) \<or> snd (bs ! j) + ns ! j \<le> snd (bs ! k)) \<and>
    distinct (free_mm mm) \<and> set (free_mm mm) = a_id ` set (mm_arenas mm)"
proof -
  obtain bs mm where m: "alloc_all (new_memory_manager name) ns = Some (map Some bs, mm)" "mm_ok mm (0 + sum_list (map round_up ns))"
    "list_all2 (block_ok (length (mm_arenas mm))) bs ns" "in_order (top_of (new_memory_manager name)) bs ns"
    using alloc_all_blocks [OF new_manager_ok assms(1), of name] assms(2) by auto
  have len: "length bs = length ns" using m(3) by (rule list_all2_lengthD)
  have r: "0 \<le> round_up (ns ! j)" "ns ! j \<le> round_up (ns ! j)" if "j < length ns" for j
  proof -
    have "0 < ns ! j" "ns ! j \<le> 2 ^ 30" using assms(1) nth_mem [OF that] by force+
    then show "0 \<le> round_up (ns ! j)" "ns ! j \<le> round_up (ns ! j)" using round_up_small(2,5) [of "ns ! j"] by simp_all
  qed
  have ids: "map a_id (mm_arenas mm) = rev [0..<length (mm_arenas mm)]" and ok: "\<forall>a\<in>set (mm_arenas mm). arena_ok a"
    using m(2) by (simp_all add: mm_ok_def)
  have inside: "\<exists>a\<in>set (mm_arenas mm). a_id a = fst (bs ! j) \<and> a_bytes \<le> snd (bs ! j) \<and> snd (bs ! j) + ns ! j \<le> object_size a \<and>
      snd (bs ! j) mod 8 = 4" if j: "j < length ns" for j
  proof -
    have b: "block_ok (length (mm_arenas mm)) (bs ! j) (ns ! j)" using list_all2_nthD2 [OF m(3) j] .
    then have "fst (bs ! j) \<in> set (map a_id (mm_arenas mm))" unfolding ids by (simp add: block_ok_def)
    then obtain a where a: "a \<in> set (mm_arenas mm)" "a_id a = fst (bs ! j)" by auto
    have "a_size a = 2 ^ (27 + fst (bs ! j))" using ok a by (auto simp: arena_ok_def)
    moreover have "ARENA_HEADER_SIZE = 32" by (simp add: ARENA_HEADER_SIZE_def BIT_TO_CLEAR_def)
    ultimately have "snd (bs ! j) + ns ! j \<le> object_size a" using b r(2) [OF j] by (simp add: block_ok_def object_size_def a_bytes_def)
    then show ?thesis using a b by (auto simp: block_ok_def)
  qed
  have apart: "fst (bs ! j) \<noteq> fst (bs ! k) \<or> snd (bs ! j) + ns ! j \<le> snd (bs ! k)" if "k < length ns" "j < k" for j k
  proof -
    have "\<forall>n\<in>set ns. 0 \<le> round_up n" using r(1) by (metis in_set_conv_nth)
    from in_order_blocks [OF m(4) this that(2)] have "behind (block_end (bs ! j) (ns ! j)) (bs ! k)" using that(1) len by simp
    then show ?thesis using r(2) [of j] that by (auto simp: behind_def block_end_def)
  qed
  have "distinct (free_mm mm)" unfolding free_mm_ids ids by simp
  then show ?thesis using m(1) len inside apart unfolding free_mm_ids by auto
qed

theorem arena_blocks_disjoint_witness:
  "\<exists>b c mm. alloc_all (new_memory_manager ''trie'') [2 ^ 27 - 16, 24] = Some ([Some b, Some c], mm) \<and>
    (fst b \<noteq> fst c \<or> snd b + (2 ^ 27 - 16) \<le> snd c) \<and> distinct (free_mm mm)"
proof -
  have "\<forall>n\<in>set [2 ^ 27 - 16, 24]. 0 < n \<and> n \<le> (2 :: int) ^ 27" by simp
  moreover have "sum_list (map round_up [2 ^ 27 - 16, 24]) \<le> 12 * 2 ^ 27"
    using round_up_small(1) [of "2 ^ 27 - 16"] round_up_small(1) [of 24] by simp
  ultimately obtain bs mm where b: "alloc_all (new_memory_manager ''trie'') [2 ^ 27 - 16, 24] = Some (map Some bs, mm)" "length bs = 2"
    "\<forall>k<2. \<forall>j<k. fst (bs ! j) \<noteq> fst (bs ! k) \<or> snd (bs ! j) + [2 ^ 27 - 16, 24] ! j \<le> snd (bs ! k)" "distinct (free_mm mm)"
    using arena_blocks_disjoint [of "[2 ^ 27 - 16, 24]" "''trie''"] by auto
  obtain b0 c0 where "bs = [b0, c0]" using b(2) by (auto simp: length_Suc_conv numeral_2_eq_2)
  then show ?thesis using b(1,4) b(3) [rule_format, of 1 0] by auto
qed

end
