(* ===== verification/Sqlite.thy ===== *)
theory Sqlite
  imports CPrelude
begin

text \<open>
  \<^verbatim>\<open>sqlite.c\<close>: the queries of the black list and of the keywords in a database, which the trie and the automata
  replace. What a query returns is an argument, the number of rows for its text (none when the text is no query).
\<close>

section \<open>The text of a query\<close>

definition sMAX :: nat where "sMAX = 1000"

definition strcat_sql :: "string \<Rightarrow> string \<Rightarrow> string option" where
  \<comment> \<open>\<open>strcat(sql, s)\<close> on \<open>char sql[sMAX]\<close>\<close>
  "strcat_sql s sql = (if length sql + length s < sMAX then Some (sql @ s) else None)"

abbreviation quote :: char where "quote \<equiv> CHR 0x27"

definition condition :: "string \<Rightarrow> string \<Rightarrow> string \<Rightarrow> string \<Rightarrow> string option" where
  \<comment> \<open>the clause of a column, for a value that is not empty\<close>
  "condition con col v sql =
     (if v = [] then Some sql
      else do {
        sql \<leftarrow> strcat_sql (con @ ''('' @ col @ ''='' @ [quote]) sql;
        sql \<leftarrow> strcat_sql v sql;
        strcat_sql ([quote] @ '' or '' @ col @ ''='' @ [quote] @ ''*'' @ [quote] @ '')'') sql })"

definition chk_idblacklist ::
  "(string \<Rightarrow> nat) \<Rightarrow> string \<Rightarrow> string \<Rightarrow> string \<Rightarrow> string \<Rightarrow> string \<Rightarrow> string \<Rightarrow> string \<Rightarrow> nat option" where
  "chk_idblacklist get_table Subject Sname Action ControlTimeFrom ControlTimeTo ContentId ContentType = do {
     sql \<leftarrow> condition '' '' ''Subject'' Subject ''select * from idblacklist where'';
     sql \<leftarrow> condition '' and '' ''Sname'' Sname sql;
     sql \<leftarrow> condition '' and '' ''Action'' Action sql;
     sql \<leftarrow> condition '' and '' ''ControlTimeFrom'' ControlTimeFrom sql;
     sql \<leftarrow> condition '' and '' ''ControlTimeTo'' ControlTimeTo sql;
     sql \<leftarrow> condition '' and '' ''ContentId'' ContentId sql;
     sql \<leftarrow> condition '' and '' ''ContentType'' ContentType sql;
     Some (get_table sql) }"

definition chk_rule :: "(string \<Rightarrow> nat) \<Rightarrow> string \<Rightarrow> string \<Rightarrow> int \<Rightarrow> string \<Rightarrow> nat option" where
  "chk_rule get_table u_id s_id p_type r_id = do {
     let action = sprintf_d p_type;
     a \<leftarrow> chk_idblacklist get_table u_id [] action [] [] s_id [];
     b \<leftarrow> chk_idblacklist get_table u_id [] action [] [] r_id [];
     Some (a + b) }"

definition chk_keyword :: "(string \<Rightarrow> nat) \<Rightarrow> string \<Rightarrow> nat option" where
  "chk_keyword get_table word = do {
     sql \<leftarrow> strcat_sql word (''select * from keywordtable where Keyword='' @ [quote]);
     sql \<leftarrow> strcat_sql [quote] sql;
     Some (get_table sql) }"

section \<open>Texts\<close>

fun clause :: "string \<times> string \<times> string \<Rightarrow> string" where
  "clause (con, col, v) = (if v = [] then []
     else con @ ''('' @ col @ ''='' @ [quote] @ v @ [quote] @ '' or '' @ col @ ''='' @ [quote] @ ''*'' @ [quote] @ '')'')"

abbreviation put_condition :: "string \<times> string \<times> string \<Rightarrow> string \<Rightarrow> string option" where
  "put_condition \<equiv> (\<lambda>(con, col, v). condition con col v)"

lemma conditions_text:
  "length sql < sMAX \<Longrightarrow> ofold put_condition cs sql =
    (if length (sql @ concat (map clause cs)) < sMAX then Some (sql @ concat (map clause cs)) else None)"
proof (induction cs arbitrary: sql)
  case (Cons c cs)
  obtain con col v where c: "c = (con, col, v)" by (cases c)
  have "condition con col v sql = (if length (sql @ clause c) < sMAX then Some (sql @ clause c) else None)"
    using Cons.prems by (auto simp: c condition_def strcat_sql_def)
  then show ?case using Cons.IH [of "sql @ clause c"] by (auto simp: c simp del: clause.simps)
qed simp

definition black_list_query :: "string \<Rightarrow> string \<Rightarrow> string \<Rightarrow> string \<Rightarrow> string \<Rightarrow> string \<Rightarrow> string \<Rightarrow> string" where
  "black_list_query s n a f t c y = ''select * from idblacklist where'' @ concat (map clause
     [('' '', ''Subject'', s), ('' and '', ''Sname'', n), ('' and '', ''Action'', a), ('' and '', ''ControlTimeFrom'', f),
      ('' and '', ''ControlTimeTo'', t), ('' and '', ''ContentId'', c), ('' and '', ''ContentType'', y)])"

text \<open>The query is the conjunction of the columns whose value is given, up to 999 bytes; a longer text overruns the array.\<close>

lemma chk_idblacklist_text:
  "chk_idblacklist get_table s n a f t c y =
    (if length (black_list_query s n a f t c y) < sMAX then Some (get_table (black_list_query s n a f t c y)) else None)"
proof -
  let ?cs = "[('' '', ''Subject'', s), ('' and '', ''Sname'', n), ('' and '', ''Action'', a), ('' and '', ''ControlTimeFrom'', f),
      ('' and '', ''ControlTimeTo'', t), ('' and '', ''ContentId'', c), ('' and '', ''ContentType'', y)]"
  have "chk_idblacklist get_table s n a f t c y = map_option get_table (ofold put_condition ?cs ''select * from idblacklist where'')"
    by (simp add: chk_idblacklist_def map_conv_bind_option)
  moreover have "length ''select * from idblacklist where'' < sMAX" by (simp add: sMAX_def)
  ultimately show ?thesis using conditions_text [of "''select * from idblacklist where''" ?cs]
    unfolding black_list_query_def by (simp only: option.map if_distrib [of "map_option get_table"])
qed

text \<open>Values are not escaped: a keyword with a quote changes the query.\<close>

lemma keyword_injection:
  "chk_keyword get_table ([quote] @ '' or '' @ [quote, quote] @ ''='' @ [quote]) =
    Some (get_table (''select * from keywordtable where Keyword='' @ [quote, quote] @ '' or '' @ [quote, quote] @ ''='' @ [quote, quote]))"
  by (simp add: chk_keyword_def strcat_sql_def sMAX_def)

end
