(* ===== verification/QsColour.thy ===== *)
theory QsColour
  imports QsParse Complex_Main
begin

text \<open>
  \<^verbatim>\<open>hex2dcolor\<close> of \<^verbatim>\<open>qs_parse.c\<close>, which reads a colour as fractions; it has a theory of its own because only
  it needs the reals.
\<close>

definition hex2dcolor :: "string option \<Rightarrow> nat \<times> real list" where
  \<comment> \<open>the quotients are exact here, the nearest doubles in the code\<close>
  "hex2dcolor color = (case color of
     None \<Rightarrow> (0, [])
   | Some s \<Rightarrow>
       (let i = length s; d = (\<lambda>j. HEX2DEC (s ! j)) in
        if i \<noteq> 8 \<and> i \<noteq> 6 \<and> i \<noteq> 4 \<and> i \<noteq> 3 then (0, [])
        else if list_ex (\<lambda>c. \<not> ISHEX c) s then (0, [])
        else if i = 3 \<or> i = 4 then (i, map (\<lambda>j. real (d j) / 15) [0..<i])
        else (i, map (\<lambda>j. real (d (2 * j) * 16 + d (2 * j + 1)) / 255) [0..<i div 2])))"

text \<open>Both functions give the same colour, as bytes and as fractions of the greatest byte.\<close>

lemma hex2dcolor_bytes:
  "fst (hex2dcolor color) = fst (hex2ccolor color)"
  "snd (hex2dcolor color) = map (\<lambda>n. real n / 255) (snd (hex2ccolor color))"
  by (auto simp: hex2dcolor_def hex2ccolor_def Let_def split: option.splits)

lemma HEX2DEC_le: "HEX2DEC c \<le> 15"
  by (auto simp: HEX2DEC_def less_eq_char_def)

lemma hex2ccolor_bytes: "n \<in> set (snd (hex2ccolor color)) \<Longrightarrow> n \<le> 255"
proof -
  have "HEX2DEC c * 16 + HEX2DEC d \<le> 255" "HEX2DEC c * 17 \<le> 255" for c d
    using HEX2DEC_le [of c] HEX2DEC_le [of d] by simp_all
  then show "n \<in> set (snd (hex2ccolor color)) \<Longrightarrow> n \<le> 255"
    by (auto simp: hex2ccolor_def Let_def split: option.splits if_splits)
qed

end
