(* ===== verification/Spec2Isabelle.thy ===== *)
theory Spec2Isabelle
  imports Pass MysqlConn ResponseMatch CacheInflate Config Arena Sqlite QsColour
begin

text \<open>
  \<^bold>\<open>The program.\<close>  \<^verbatim>\<open>shutter-gk\<close> watches the traffic of a social network with libnids and
  cuts connections whose requests or compressed pages hit the rules of a database.  It has these groups of threads:

  \<^item> the capture thread: libnids calls \<open>tcp_stream_handler\<close> (\<^verbatim>\<open>get_data.c\<close>), which hashes the
    connection (\<^verbatim>\<open>hash.c\<close>) and keeps the data of both directions in a table of lists of heads;
  \<^item> the polling threads (\<^verbatim>\<open>loop-1831-wxy.c\<close>): each goes round its part of the table, cuts the client
    data of a head into HTTP requests, analyses each (\<^verbatim>\<open>http_parse.c\<close> with \<^verbatim>\<open>urlparser.c\<close> and
    \<^verbatim>\<open>qs_parse.c\<close>), decides with the URL and keyword automata (\<^verbatim>\<open>acsmx.c\<close>,
    \<^verbatim>\<open>string_matcher.c\<close>), the logical rules (\<^verbatim>\<open>query_table.c\<close>) and the black list
    (\<^verbatim>\<open>trie.c\<close>), and sends a line to the log server (\<^verbatim>\<open>log-wxy.c\<close>);
  \<^item> the scan of compressed pages (\<^verbatim>\<open>acsm.c\<close>, \<^verbatim>\<open>down_string_match.c\<close>), called for each
    segment of a server by way of the inflater (\<^verbatim>\<open>copeungz.c\<close>);
  \<^item> the rule server (\<^verbatim>\<open>rule_accepter.c\<close>) and the timer thread that polls the configuration database
    (\<^verbatim>\<open>mysql_conn.c\<close>), which change all the rules while the rest runs.

  \<^bold>\<open>The theories\<close>, each for the file of the same purpose, in the order of their imports:

  \<^item> \<open>CPrelude\<close>: bytes, C strings in buffers (\<open>cstr\<close>, \<open>buf_str\<close>, \<open>memcpy\<close>, \<open>strchr\<close>,
    decimal printing), folds that may fail (\<open>ofold\<close>).
  \<^item> \<open>Acsmx\<close>, \<open>AcsmxTrie\<close>, \<open>AcsmxDfa\<close>, \<open>AcsmxSearch\<close>: \<^verbatim>\<open>acsmx.c\<close>.
    \<open>Acsmx\<close> holds the definitions; \<open>AcsmxTrie\<close> shows what the insertion of the patterns builds,
    \<open>AcsmxDfa\<close> that the breadth-first construction gives for every word the longest suffix that is a
    prefix of a pattern, \<open>AcsmxSearch\<close> that the searches count, locate and copy exactly the occurrences.
  \<^item> \<open>StringMatcher\<close>: \<^verbatim>\<open>string_matcher.c\<close>. The locales \<open>keyword_store\<close> and
    \<open>keyword_dict\<close> state what a double-buffered dictionary promises its clients; they are interpreted on the keyword,
    monitoring and URL dictionaries (\<open>kw\<close>, \<open>kwN\<close>, \<open>url\<close>) and in \<open>DownMatch\<close> on the
    dictionary for pages (\<open>down\<close>).
  \<^item> \<open>QueryTable\<close>: \<^verbatim>\<open>query_table.c\<close>. The parser of rules, its overruns, and the rule engine over
    any dictionary (locale \<open>rule_dict\<close>, interpreted as \<open>rules\<close> and \<open>rulesN\<close>) against a
    list of queries with their formulas.
  \<^item> \<open>Trie\<close>: \<^verbatim>\<open>trie.c\<close>, against a map from rules to ids; the counts are 16-bit words.
  \<^item> \<open>UrlParser\<close>, \<open>QsParse\<close>, \<open>QsColour\<close>: \<^verbatim>\<open>urlparser.c\<close>, \<^verbatim>\<open>qs_parse.c\<close>.
  \<^item> \<open>Hash\<close>, \<open>StreamCache\<close>: \<^verbatim>\<open>hash.c\<close>, \<^verbatim>\<open>util.c\<close>,
    \<^verbatim>\<open>get_data.c\<close>; the cache against a map from connections to their data, for any partial step of the
    inflater (locale \<open>returning_step\<close> for the traffic on which it returns). \<open>CacheInflate\<close> puts the model of
    \<^verbatim>\<open>copeungz.c\<close> in place of the step, with its memory (\<open>gzip_mem\<close>), and interprets the locale
    on it.
  \<^item> \<open>DownMatch\<close>, \<open>Acch\<close>: \<^verbatim>\<open>acsm.c\<close>, \<^verbatim>\<open>down_string_match.c\<close>; the scan
    of a page by its literal/length/distance entries against the decoded page.
  \<^item> \<open>Log\<close>: \<^verbatim>\<open>log-wxy.c\<close>.
  \<^item> \<open>StreamLoop\<close>: \<^verbatim>\<open>loop-1831-wxy.c\<close>; the passes over a head as a transition system
    (\<open>head_step\<close>) with an invariant over the segments analysed.
  \<^item> \<open>RuleAccepter\<close>: \<^verbatim>\<open>rule_accepter.c\<close>; \<open>FilterSpec\<close>: the abstract filter, and the
    proof that each command and the start-up (\<open>init_loop\<close>) refine it; \<open>UrlHit\<close>: when the record for a listed
    URL, with the rule keywords in it (\<open>sp_words\<close>), stays within its buffers; \<open>Verdict\<close>: decisions and commands
    together, for requests of every type.
  \<^item> \<open>HttpParse\<close>: \<^verbatim>\<open>http_parse.c\<close>, the callbacks and \<open>processhttp\<close>; \<open>Pass\<close>: a
    pass over a stream from its segments to the mark that blocks it.
  \<^item> \<open>MysqlConn\<close>: \<^verbatim>\<open>mysql_conn.c\<close>; a locale (\<open>config_step\<close>) states what one row does to the
    waterlines and to the abstract filter, and is interpreted on the loops of the first load (\<open>load\<close>) and of the
    rounds (\<open>update\<close>).

  \<^item> \<open>Config\<close>: the start of \<^verbatim>\<open>get_data.c\<close>, the file \<^verbatim>\<open>config.txt\<close> against a list of
    settings, the filters of frames, and \<open>packet_send_link\<close> of \<^verbatim>\<open>packet_send.c\<close>.
  \<^item> \<open>Arena\<close>: \<^verbatim>\<open>Arena.c\<close> and \<^verbatim>\<open>MemoryManager.c\<close>, whose blocks do not overlap; \<open>Sqlite\<close>: the texts of the queries
    of \<^verbatim>\<open>sqlite.c\<close>.

  \<^item> \<open>Huft\<close>, \<open>HuftBuild\<close>, \<open>HuftCode\<close>: \<open>huft_build\<close> of
    \<^verbatim>\<open>copeungz.c\<close>. \<open>Huft\<close> holds the definitions; \<open>HuftBuild\<close> shows that the loop
    over the codes covers every bit string by an entry, \<open>HuftCode\<close> that the entries are those of the canonical code.
  \<^item> \<open>Crc\<close>: \<open>updcrc\<close> of \<^verbatim>\<open>copeungz.c\<close>, against the division by the polynomial, bit by bit.
  \<^item> \<open>PageMatch\<close>: \<open>keyword_match\<close> and \<open>add_log\<close> of \<^verbatim>\<open>acsm.c\<close>.
  \<^item> \<open>Inflate\<close>, \<open>InflateBits\<close>, \<open>InflatePage\<close>: the rest of \<^verbatim>\<open>copeungz.c\<close>,
    up to \<open>process_gzip_data\<close>. \<open>Inflate\<close> holds the definitions, a run being resumed in the state (\<open>flag\<close>) in
    which it ran out of data; \<open>InflateBits\<close> shows that the bit register and the bytes behind it are one number, and
    that the loops over the tables read it as \<open>huft_path\<close> describes (locale \<open>table_walk\<close>, interpreted on the
    loops for lengths and for distances); \<open>InflatePage\<close> what is read of an encoded literal or copy.
  \<^item> \<open>InflateBlock\<close>, \<open>InflateDynamic\<close>, \<open>InflateMember\<close>, \<open>MemberMatch\<close>: that
    \<open>inflate\<close> inverts an encoder. A page is a list of blocks of literals and copies, with the fixed codes or with any complete
    ones (\<open>page_block\<close>); \<open>deflate\<close> writes its bytes. \<open>InflateBlock\<close> goes from a block to the search of the
    buffers, \<open>InflateDynamic\<close> adds the header with the code lengths, \<open>InflateMember\<close> the loop over the blocks, and
    \<open>MemberMatch\<close> the bytes and the keywords: which pages of a history of updates are hits. The encoder is no model of
    code but the specification. The pages have fewer than 0x8000 entries and at most 50 copies in a row from a distance below 5
    (the limits of the code), and are in one segment.
  \<^item> \<open>GzipMember\<close>, \<open>ResponseMatch\<close>: the gzip header with its optional fields, the lines of a response and
    the line of its chunk, up to \<open>response_filtered\<close>, which goes from the bytes of a segment to the verdict on its page.

  \<^bold>\<open>State and errors.\<close>  Each C global is a field of a record that the operations take and return. An
  operation is undefined (\<open>None\<close>) where the C code reads or writes outside an object, dereferences the null pointer,
  reads an indeterminate value that decides its result, or reaches the end of a function whose result is used; so
  \<open>Some\<close> in a theorem says that none of this happens. A pointer into a string is the rest of the string, a
  buffer the list of all its bytes. \<open>malloc\<close> succeeds; \<open>free\<close> and the printing have no effect. Machine
  integers have their width where the code can reach it (16-bit counts and ports, 32-bit hashes and addresses); lengths and
  counters are unbounded. One statement that C leaves undefined is read in the way it is meant: \<open>result[i++] = result[i - dist]\<close>
  of \<^verbatim>\<open>acsm.c\<close>, which \<open>copy_text\<close> reads with the old \<open>i\<close>.

  \<^bold>\<open>Bounds.\<close>  No definition uses fuel: the loops recurse on their data or have a measure, or are partial functions where they wait for data. The bounds in
  hypotheses are those of the code's arrays: 255 bytes and three operators of a rule, 10000 rules, 32 hits, fewer than 32768
  updates of the black list (so that no 16-bit count wraps), 1024 bytes of a command, 1200 bytes of a log line.

  \<^bold>\<open>Parameters\<close> of the model: the rows of the database tables and whether a query succeeds; the
  callbacks that the HTTP grammar makes for a request (\<open>http_grammar\<close> of \<open>processhttp\<close>); the two automata of a page,
  their names, the clock and its connection at each call of the inflater (\<open>inflate_env\<close>); the outcome of each
  \<open>pthread_mutex_trylock\<close>; the clock; random bytes; what libnids reports; the bytes of the
  configuration file, the addresses of the devices and the result of \<open>sendto\<close>; the number of rows that SQLite
  finds for the text of a query.

  \<^bold>\<open>Not modelled.\<close>  The HTTP grammar (\<^verbatim>\<open>http.c\<close>, a copy of Joyent's library, and
  \<^verbatim>\<open>http_old.c\<close>); \<^verbatim>\<open>get4_ll.c\<close> (an older copy of the inflater);
  superseded copies that the build does not link (\<^verbatim>\<open>*_bk_zy.c\<close>, \<^verbatim>\<open>loop.c\<close>,
  \<^verbatim>\<open>log.c\<close>, \<^verbatim>\<open>log-1831-wxy.c\<close>); input and output: sockets, libnet packets, pcap,
  the calls of SQLite and MySQL, printing. The threads take turns: an operation on a shared object is one step, which is what
  the locks of a head give, while the rules have no lock at all in the code.
\<close>

end
